(* ===== verification/Prelude.thy ===== *)
theory Prelude
  imports Main "HOL-Library.Word" "HOL-Library.State_Monad"
begin

unbundle bit_operations_syntax

text \<open>
  Shared vocabulary of the development: the machine types of the C sources, the conversion
  of an object size to the \<open>int\<close> a codec function returns, big-endian octet strings, the
  \<open>memcpy\<close> of a list of octets into a buffer, and the lemmas about them that every component
  uses.

  Conventions.  An unsigned C integer of width w is a \<open>w word\<close>.  A buffer is a list of
  octets; \<open>size_t\<close> values that measure or index an object in memory are \<open>nat\<close>, because no
  object is large enough for such an index plus a message header to wrap around.  Where the
  C code converts such a size to \<open>int\<close>, the conversion is written out (\<open>int_of_size\<close>).
\<close>

section \<open>Machine types\<close>

type_synonym u8 = "8 word"
type_synonym u16 = "16 word"
type_synonym u32 = "32 word"
type_synonym u64 = "64 word"
type_synonym bytes = "8 word list"

named_theorems codec_simps \<open>definitions that a codec proof unfolds\<close>
named_theorems emits_intro \<open>what an encoder step appends\<close>
named_theorems parses_intro \<open>what a decoder step reads\<close>
named_theorems sticky_intro \<open>a decoder step keeps an underflow\<close>
named_theorems yields_intro \<open>what an accepted octet string must be\<close>

text \<open>The C conversion \<open>(int) n\<close> of a \<open>size_t\<close>: the low 32 bits, read as two's complement.\<close>

definition int_of_size :: "nat \<Rightarrow> int" where
  "int_of_size n = sint (word_of_nat n :: 32 word)"

lemma int_of_size_small [simp]: "n < 2 ^ 31 \<Longrightarrow> int_of_size n = int n"
  by (simp add: int_of_size_def signed_of_nat signed_take_bit_int_eq_self)

lemma unat_u8_less [simp]: "unat (x :: u8) < 256"
  using unsigned_less[of x, where ?'a = nat] by simp

lemma unat_u16_less [simp]: "unat (x :: u16) < 65536"
  using unsigned_less[of x, where ?'a = nat] by simp

lemma unat_u32_less [simp]: "unat (x :: u32) < 4294967296"
  using unsigned_less[of x, where ?'a = nat] by simp

lemma unat_u64_less [simp]: "unat (x :: u64) < 18446744073709551616"
  using unsigned_less[of x, where ?'a = nat] by simp

lemma unat_ucast_u8_u64 [simp]: "unat (ucast (x :: u8) :: u64) = unat x"
  by (simp add: unsigned_ucast_eq take_bit_nat_eq_self less_trans[OF unat_u8_less])

section \<open>Lists\<close>

lemma take_prefix_append: "n \<le> length xs \<Longrightarrow> take n (xs @ ys) = take n xs"
  by simp

lemma append_strict_prefix_cases:
  assumes "xs @ ys = as @ bs"
  shows "(\<exists>zs. xs = as @ zs \<and> bs = zs @ ys) \<or> (\<exists>zs. as = xs @ zs \<and> ys = zs @ bs)"
  using assms by (auto simp: append_eq_append_conv2)

lemma append_Cons_cases:
  assumes "as @ x # bs = cs @ y # ds"
  shows "(as = cs \<and> x = y \<and> bs = ds) \<or> (\<exists>t. cs = as @ x # t \<and> bs = t @ y # ds) \<or>
     (\<exists>t. as = cs @ y # t \<and> ds = t @ x # bs)"
  using assms
proof (induction "as" arbitrary: cs)
  case Nil
  then show ?case by (cases cs) auto
next
  case (Cons a as')
  then show ?case by (cases cs) auto
qed

text \<open>\<open>memcpy (buf + i, bs, length bs)\<close>.\<close>

definition overwrite :: "'a list \<Rightarrow> nat \<Rightarrow> 'a list \<Rightarrow> 'a list" where
  "overwrite buf i bs = take i buf @ bs @ drop (i + length bs) buf"

lemma length_overwrite [simp]:
  "i + length bs \<le> length buf \<Longrightarrow> length (overwrite buf i bs) = length buf"
  by (simp add: overwrite_def)

lemma overwrite_Nil [simp]: "i \<le> length buf \<Longrightarrow> overwrite buf i [] = buf"
  by (simp add: overwrite_def)

lemma overwrite_one: "i < length buf \<Longrightarrow> overwrite buf i [b] = buf[i := b]"
  by (simp add: overwrite_def upd_conv_take_nth_drop)

lemma overwrite_overwrite:
  assumes "i + length xs \<le> length buf"
  shows "overwrite (overwrite buf i xs) (i + length xs) ys = overwrite buf i (xs @ ys)"
  using assms by (simp add: overwrite_def add.commute add.left_commute)

lemma take_overwrite_before [simp]:
  "i \<le> length buf \<Longrightarrow> j \<le> i \<Longrightarrow> take j (overwrite buf i bs) = take j buf"
  by (simp add: overwrite_def min_def)

lemma drop_overwrite_after:
  "i + length bs \<le> length buf \<Longrightarrow> i + length bs \<le> j \<Longrightarrow> drop j (overwrite buf i bs) = drop j buf"
  by (simp add: overwrite_def)

lemma take_overwrite_0 [simp]: "take (length bs) (overwrite buf 0 bs) = bs"
  by (simp add: overwrite_def)

section \<open>Big-endian octet strings\<close>

definition be16 :: "u16 \<Rightarrow> bytes" where
  "be16 v = [ucast (drop_bit 8 v), ucast v]"

definition be32 :: "u32 \<Rightarrow> bytes" where
  "be32 v = be16 (ucast (drop_bit 16 v)) @ be16 (ucast v)"

definition be64 :: "u64 \<Rightarrow> bytes" where
  "be64 v = be32 (ucast (drop_bit 32 v)) @ be32 (ucast v)"

text \<open>\<open>(hi << 8) | lo\<close> and its wider forms, as the readers of the C code compute them.\<close>

definition join16 :: "u8 \<Rightarrow> u8 \<Rightarrow> u16" where
  "join16 hi lo = push_bit 8 (ucast hi) OR ucast lo"

definition join32 :: "u16 \<Rightarrow> u16 \<Rightarrow> u32" where
  "join32 hi lo = push_bit 16 (ucast hi) OR ucast lo"

definition join64 :: "u32 \<Rightarrow> u32 \<Rightarrow> u64" where
  "join64 hi lo = push_bit 32 (ucast hi) OR ucast lo"

lemma length_be [simp]: "length (be16 v) = 2" "length (be32 x) = 4" "length (be64 y) = 8"
  by (simp_all add: be16_def be32_def be64_def)

lemma join16_split [simp]: "join16 (ucast (drop_bit 8 v)) (ucast v) = v"
  by (rule bit_word_eqI) (auto simp: join16_def bit_simps)

lemma join32_split [simp]: "join32 (ucast (drop_bit 16 v)) (ucast v) = v"
  by (rule bit_word_eqI) (auto simp: join32_def bit_simps)

lemma join64_split [simp]: "join64 (ucast (drop_bit 32 v)) (ucast v) = v"
  by (rule bit_word_eqI) (auto simp: join64_def bit_simps)

lemma split_join16 [simp]:
  "ucast (drop_bit 8 (join16 hi lo)) = hi" "ucast (join16 hi lo) = lo"
  by (rule bit_word_eqI, auto simp: join16_def bit_simps dest: bit_imp_le_length)+

lemma split_join32 [simp]:
  "ucast (drop_bit 16 (join32 hi lo)) = hi" "ucast (join32 hi lo) = lo"
  by (rule bit_word_eqI, auto simp: join32_def bit_simps dest: bit_imp_le_length)+

lemma split_join64 [simp]:
  "ucast (drop_bit 32 (join64 hi lo)) = hi" "ucast (join64 hi lo) = lo"
  by (rule bit_word_eqI, auto simp: join64_def bit_simps dest: bit_imp_le_length)+

lemma be16_join16 [simp]: "be16 (join16 hi lo) = [hi, lo]"
  by (simp add: be16_def)

lemma be32_join32 [simp]: "be32 (join32 hi lo) = be16 hi @ be16 lo"
  by (simp add: be32_def)

lemma be64_join64 [simp]: "be64 (join64 hi lo) = be32 hi @ be32 lo"
  by (simp add: be64_def)

lemma be16_inject [simp]: "be16 v = be16 w \<longleftrightarrow> v = w"
  by (metis be16_def join16_split list.inject)

lemma be32_inject [simp]: "be32 v = be32 w \<longleftrightarrow> v = w"
proof
  assume "be32 v = be32 w"
  then have "ucast (drop_bit 16 v) = (ucast (drop_bit 16 w) :: u16) \<and> ucast v = (ucast w :: u16)"
    by (simp add: be32_def)
  then show "v = w" by (metis join32_split)
qed simp

lemma be64_inject [simp]: "be64 v = be64 w \<longleftrightarrow> v = w"
proof
  assume "be64 v = be64 w"
  then have "ucast (drop_bit 32 v) = (ucast (drop_bit 32 w) :: u32) \<and> ucast v = (ucast w :: u32)"
    by (simp add: be64_def)
  then show "v = w" by (metis join64_split)
qed simp

text \<open>The loop \<open>n = (n << 8) | *p++\<close> that reads a big-endian number of at most 64 bits.\<close>

definition be_value :: "bytes \<Rightarrow> u64" where
  "be_value bs = foldl (\<lambda>n b. push_bit 8 n OR ucast b) 0 bs"

lemma foldl_be16: "foldl (\<lambda>n b. push_bit 8 n OR ucast b) acc (be16 v) = push_bit 16 acc OR ucast v"
  for acc :: u64
  by (rule bit_word_eqI) (auto simp: be16_def bit_simps dest: bit_imp_le_length)

lemma foldl_be32: "foldl (\<lambda>n b. push_bit 8 n OR ucast b) acc (be32 v) = push_bit 32 acc OR ucast v"
  for acc :: u64
  by (simp add: be32_def foldl_be16, rule bit_word_eqI) (auto simp: bit_simps dest: bit_imp_le_length)

lemma be_value_be64 [simp]: "be_value (be64 n) = n"
  by (simp add: be_value_def be64_def foldl_be32, rule bit_word_eqI) (auto simp: bit_simps dest: bit_imp_le_length)


section \<open>C strings\<close>

text \<open>
  A C string is the list of its octets before the terminating NUL, so it holds no zero octet;
  a null \<open>char *\<close> is \<open>None\<close> where a function tests for it.  \<open>ascii\<close> gives the octets of a
  literal.
\<close>

definition ascii :: "string \<Rightarrow> bytes" where
  "ascii s = map of_char s"

lemma ascii_simps [simp]: "ascii [] = []" "ascii (c # s) = of_char c # ascii s"
  by (simp_all add: ascii_def)

lemma ascii_append: "ascii (s @ t) = ascii s @ ascii t"
  by (simp add: ascii_def)

definition is_cstring :: "bytes \<Rightarrow> bool" where
  "is_cstring s \<longleftrightarrow> 0 \<notin> set s"

text \<open>The string in a buffer: what \<open>strlen\<close> and \<open>strcmp\<close> see of it.\<close>

definition cstr :: "bytes \<Rightarrow> bytes" where
  "cstr buf = takeWhile (\<lambda>c. c \<noteq> 0) buf"

lemma cstr_string [simp]: "is_cstring s \<Longrightarrow> cstr (s @ 0 # t) = s"
  by (induction s) (auto simp: cstr_def is_cstring_def)

lemma is_cstring_cstr [simp]: "is_cstring (cstr buf)"
  by (auto simp: cstr_def is_cstring_def dest: set_takeWhileD)

lemma ascii_example: "ascii ''ipn:'' = [0x69, 0x70, 0x6e, 0x3a]"
  by simp


section \<open>Decimal digits and \<open>strtol\<close>\<close>

definition is_digit :: "u8 \<Rightarrow> bool" where
  "is_digit c \<longleftrightarrow> of_char CHR ''0'' \<le> c \<and> c \<le> of_char CHR ''9''"

text \<open>The number a digit string denotes, as a natural number without bound.\<close>

definition dec_from :: "nat \<Rightarrow> bytes \<Rightarrow> nat" where
  "dec_from = foldl (\<lambda>n c. n * 10 + (unat c - 48))"

lemma dec_from_simps [simp]:
  "dec_from n [] = n" "dec_from n (c # cs) = dec_from (n * 10 + (unat c - 48)) cs"
  by (simp_all add: dec_from_def)

lemma dec_from_ge: "n \<le> dec_from n ds"
proof (induction ds arbitrary: n)
  case (Cons c ds)
  have "n \<le> n * 10 + (unat c - 48)" by simp
  also have "\<dots> \<le> dec_from n (c # ds)" using Cons by simp
  finally show ?case .
qed simp

lemma dec_from_append: "dec_from n (a @ b) = dec_from (dec_from n a) b"
  by (simp add: dec_from_def)

text \<open>
  \<open>strtol (s, &end, 10)\<close> on an LP64 machine: white space, a sign, digits; the value saturates at
  the bounds of a 64-bit \<open>long\<close>.  The second result is the number of octets consumed, 0 when
  there is no digit.
\<close>

definition is_space :: "u8 \<Rightarrow> bool" where
  "is_space c \<longleftrightarrow> c = 0x20 \<or> (0x09 \<le> c \<and> c \<le> 0x0d)"

definition strtol10 :: "bytes \<Rightarrow> int \<times> nat" where
  "strtol10 s =
     (let spaces = takeWhile is_space s; s1 = dropWhile is_space s;
          sign = (if s1 \<noteq> [] \<and> (hd s1 = of_char CHR ''+'' \<or> hd s1 = of_char CHR ''-'') then 1 else 0);
          digits = takeWhile is_digit (drop sign s1);
          value = (if sign = 1 \<and> hd s1 = of_char CHR ''-'' then - int (dec_from 0 digits)
                   else int (dec_from 0 digits))
      in if digits = [] then (0, 0)
         else (max (- (2 ^ 63)) (min (2 ^ 63 - 1) value), length spaces + sign + length digits))"

text \<open>The conversion of an integer to a 32-bit \<open>int\<close>.\<close>

definition int_cast :: "int \<Rightarrow> int" where
  "int_cast v = signed_take_bit 31 v"

lemma int_cast_small: "- (2 ^ 31) \<le> v \<Longrightarrow> v < 2 ^ 31 \<Longrightarrow> int_cast v = v"
  by (simp add: int_cast_def signed_take_bit_int_eq_self)

lemma strtol10_digits:
  assumes "list_all is_digit ds" "ds \<noteq> []" "rest = [] \<or> \<not> is_digit (hd rest)"
    "dec_from 0 ds < 2 ^ 63"
  shows "strtol10 (ds @ rest) = (int (dec_from 0 ds), length ds)"
proof -
  obtain d ds' where ds: "ds = d # ds'" using assms(2) by (cases ds) auto
  have d: "is_digit d" using assms(1) ds by simp
  then have h: "\<not> is_space d" "d \<noteq> of_char CHR ''+''" "d \<noteq> of_char CHR ''-''"
    by (auto simp: is_digit_def is_space_def word_le_nat_alt)
  have "takeWhile is_digit (ds @ rest) = ds @ takeWhile is_digit rest"
    using assms(1) by (simp add: list_all_iff)
  also have "takeWhile is_digit rest = []" using assms(3) by (cases rest) auto
  finally have t: "takeWhile is_digit (ds @ rest) = ds" by simp
  have v: "dec_from 0 ds \<le> 9223372036854775807" using assms(4) by simp
  have "dropWhile is_space (ds @ rest) = ds @ rest" "takeWhile is_space (ds @ rest) = []"
    using ds h(1) by simp_all
  then show ?thesis using t h ds v
    by (simp add: strtol10_def Let_def del: dec_from_simps)
qed

section \<open>Printing a number in decimal\<close>

fun print_size :: "nat \<Rightarrow> bytes" where
  "print_size n = (if n < 10 then [48 + of_nat n] else print_size (n div 10) @ [48 + of_nat (n mod 10)])"

declare print_size.simps [simp del]

lemma length_print_size: "n < 10 ^ Suc k \<Longrightarrow> length (print_size n) \<le> Suc k"
proof (induction k arbitrary: n)
  case 0
  then show ?case by (subst print_size.simps) simp
next
  case (Suc k)
  show ?case
  proof (cases "n < 10")
    case False
    have "n div 10 < 10 ^ Suc k" using Suc.prems by (simp add: less_mult_imp_div_less mult.commute)
    then show ?thesis using Suc.IH[of "n div 10"] False by (subst print_size.simps) simp
  qed (subst print_size.simps, simp)
qed

lemma print_size_no_cr: "c \<in> set (print_size n) \<Longrightarrow> 48 \<le> c \<and> c \<le> 57"
proof (induction n rule: print_size.induct)
  case (1 n)
  have d: "(48 + word_of_nat m :: u8) \<ge> 48 \<and> (48 + word_of_nat m :: u8) \<le> 57" if "m < 10" for m
  proof -
    from that consider "m = 0" | "m = 1" | "m = 2" | "m = 3" | "m = 4" | "m = 5" | "m = 6" | "m = 7" | "m = 8" | "m = 9"
      by fastforce
    then show ?thesis by cases simp_all
  qed
  show ?case
    using 1(1) 1(2)[unfolded print_size.simps[of n]] d[of n] d[of "n mod 10"] by (auto split: if_splits)
qed

lemma length_print_size_64: "n < 2 ^ 64 \<Longrightarrow> length (print_size n) \<le> 20"
  using length_print_size[of n 19] by simp

lemma print_size_digits: "list_all is_digit (print_size n)"
  using print_size_no_cr[of _ n] by (auto simp: list_all_iff is_digit_def)

lemma print_size_not_Nil: "print_size n \<noteq> []"
  by (subst print_size.simps) simp

lemma dec_from_print_size: "dec_from 0 (print_size n) = n"
proof (induction n rule: print_size.induct)
  case (1 n)
  have d: "unat (48 + word_of_nat m :: u8) - 48 = m" if "m < 10" for m
  proof -
    from that consider "m = 0" | "m = 1" | "m = 2" | "m = 3" | "m = 4" | "m = 5" | "m = 6" | "m = 7" | "m = 8" | "m = 9"
      by fastforce
    then show ?thesis by cases simp_all
  qed
  show ?case
    using 1 d[of n] d[of "n mod 10"] by (subst print_size.simps) (simp add: dec_from_append)
qed

end
