(* ===== verification/BpshProto.thy ===== *)
theory BpshProto
  imports Prelude
begin

unbundle bit_operations_syntax

text \<open>
  Frames of the bpsh remote shell (APP/bpsh/src/bpsh_proto.c): the CBOR array
  \<open>[version, msgType, sessionId, seqNum, payload]\<close>, its encoder and decoder, and the functions that
  send a frame in a bundle and receive one.

  The CBOR functions are ION's; they are the argument \<open>c\<close>, a record of functions, and \<open>cbor_ok\<close> states
  of them what their header (include/compat/cbor.h) documents.  A decoder takes the octets that are
  left and returns the value and the octets left behind it, or \<open>None\<close> for 0.  The calls of ION that
  \<open>bpsh_send_frame\<close> and \<open>bpsh_recv_frame\<close> make answer with the fields of an argument, and the
  functions return the calls they made.

  The lemmas show that a frame survives encoding and decoding, that the encoder stays within its
  buffer and the decoder within the bundle, and that on every path each transaction is closed, the
  delivery is released once and the octets are released unless the caller owns them.
\<close>

section \<open>Model: constants and frames\<close>

definition BPSH_VERSION :: int where "BPSH_VERSION = 1"
definition BPSH_MAX_EID :: nat where "BPSH_MAX_EID = 256"
definition BPSH_MAX_SECRET :: nat where "BPSH_MAX_SECRET = 1024"
definition BPSH_FRAME_OVERHEAD :: nat where "BPSH_FRAME_OVERHEAD = 64"

definition BpshMsgInit :: u32 where "BpshMsgInit = 1"
definition BpshMsgInitAck :: u32 where "BpshMsgInitAck = 2"
definition BpshMsgReq :: u32 where "BpshMsgReq = 3"
definition BpshMsgStdinChunk :: u32 where "BpshMsgStdinChunk = 4"
definition BpshMsgStdinEof :: u32 where "BpshMsgStdinEof = 5"
definition BpshMsgStdout :: u32 where "BpshMsgStdout = 6"
definition BpshMsgStderr :: u32 where "BpshMsgStderr = 7"
definition BpshMsgExit :: u32 where "BpshMsgExit = 8"
definition BpshMsgError :: u32 where "BpshMsgError = 9"
definition BpshMsgExitSession :: u32 where "BpshMsgExitSession = 10"
definition BpshMsgCwd :: u32 where "BpshMsgCwd = 11"

lemmas bpsh_msgs = BpshMsgInit_def BpshMsgInitAck_def BpshMsgReq_def BpshMsgStdinChunk_def BpshMsgStdinEof_def
  BpshMsgStdout_def BpshMsgStderr_def BpshMsgExit_def BpshMsgError_def BpshMsgExitSession_def BpshMsgCwd_def

definition BpshCauseNormal :: u32 where "BpshCauseNormal = 0"
definition BpshCauseSignaled :: u32 where "BpshCauseSignaled = 1"
definition BpshCauseTimeout :: u32 where "BpshCauseTimeout = 2"
definition BpshCauseKilled :: u32 where "BpshCauseKilled = 3"
definition BpshCauseOutputLimit :: u32 where "BpshCauseOutputLimit = 4"

text \<open>\<open>payload\<close> is \<open>None\<close> for a null pointer, else what it points to; an enum is an unsigned int, an
  \<open>int\<close> is its value.\<close>

record BpshFrame =
  f_version :: int
  f_msgType :: u32
  f_sessionId :: u64
  f_seqNum :: u64
  f_payload :: "bytes option"
  f_payloadLen :: nat
  f_exitCode :: int
  f_exitCause :: u32

section \<open>Model: the CBOR functions of ION\<close>

record Cbor =
  cbor_encode_array_open :: "u64 \<Rightarrow> bytes"
  cbor_encode_integer :: "u64 \<Rightarrow> bytes"
  cbor_encode_signed_int :: "int \<Rightarrow> bytes"
  cbor_encode_byte_string :: "bytes option \<Rightarrow> nat \<Rightarrow> bytes"
  cbor_decode_array_open :: "u64 \<Rightarrow> bytes \<Rightarrow> (u64 \<times> bytes) option"
  cbor_decode_integer :: "bytes \<Rightarrow> (u64 \<times> bytes) option"
  cbor_decode_signed_int :: "bytes \<Rightarrow> (int \<times> bytes) option"
  cbor_decode_byte_string :: "nat \<Rightarrow> bytes \<Rightarrow> (nat \<times> bytes) option"

section \<open>Model: encoding and decoding\<close>

definition is_empty_msg :: "u32 \<Rightarrow> bool" where
  "is_empty_msg t \<longleftrightarrow> t = BpshMsgInitAck \<or> t = BpshMsgStdinEof \<or> t = BpshMsgExitSession"

definition is_bytes_msg :: "u32 \<Rightarrow> bool" where
  "is_bytes_msg t \<longleftrightarrow> t = BpshMsgInit \<or> t = BpshMsgReq \<or> t = BpshMsgStdinChunk \<or> t = BpshMsgStdout \<or>
     t = BpshMsgStderr \<or> t = BpshMsgError \<or> t = BpshMsgCwd"

text \<open>The octets written and the value returned; \<open>frame\<close> is \<open>None\<close> for NULL and \<open>buf\<close> is not NULL.\<close>

definition bpsh_encode :: "Cbor \<Rightarrow> BpshFrame option \<Rightarrow> nat \<Rightarrow> bytes \<times> int" where
  "bpsh_encode c frame buflen =
     (case frame of
        None \<Rightarrow> ([], -1)
      | Some frame \<Rightarrow>
          (let needed = (if f_msgType frame = BpshMsgExit then BPSH_FRAME_OVERHEAD
                         else BPSH_FRAME_OVERHEAD + f_payloadLen frame)
           in if buflen < needed then ([], -1)
              else
                (let out = cbor_encode_array_open c 5 @
                       cbor_encode_integer c (word_of_int (f_version frame)) @
                       cbor_encode_integer c (ucast (f_msgType frame)) @
                       cbor_encode_integer c (f_sessionId frame) @
                       cbor_encode_integer c (f_seqNum frame);
                     body = (if is_empty_msg (f_msgType frame) then Some (cbor_encode_byte_string c None 0)
                             else if is_bytes_msg (f_msgType frame) then
                               Some (cbor_encode_byte_string c (f_payload frame) (f_payloadLen frame))
                             else if f_msgType frame = BpshMsgExit then
                               Some (cbor_encode_array_open c 2 @
                                 cbor_encode_signed_int c (f_exitCode frame) @
                                 cbor_encode_integer c (ucast (f_exitCause frame)))
                             else None)
                 in (case body of
                       None \<Rightarrow> (out, -1)
                     | Some body \<Rightarrow>
                         if length (out @ body) > buflen then (out @ body, -1)
                         else (out @ body, int_of_size (length (out @ body)))))))"

text \<open>\<open>buf\<close> and \<open>frame\<close> are not NULL; \<open>bytesBuffered\<close> is the length of what is left.\<close>

definition decode_payload :: "Cbor \<Rightarrow> bytes \<Rightarrow> bytes \<Rightarrow> BpshFrame \<Rightarrow> int \<times> BpshFrame" where
  "decode_payload c buf left frame =
     (if is_empty_msg (f_msgType frame) then
        (case cbor_decode_byte_string c 0 left of
           None \<Rightarrow> (-1, frame)
         | Some (_, left) \<Rightarrow> (int_of_size (length buf - length left), frame))
      else if is_bytes_msg (f_msgType frame) then
        (case cbor_decode_byte_string c (length left) left of
           None \<Rightarrow> (-1, frame)
         | Some (bsSize, left) \<Rightarrow>
             if bsSize > length left then (-1, frame)
             else (int_of_size (length buf - length (drop bsSize left)),
                   frame \<lparr> f_payload := Some (take bsSize left), f_payloadLen := bsSize \<rparr>))
      else if f_msgType frame = BpshMsgExit then
        (case cbor_decode_array_open c 2 left of
           None \<Rightarrow> (-1, frame)
         | Some (_, left) \<Rightarrow>
             (case cbor_decode_signed_int c left of
                None \<Rightarrow> (-1, frame)
              | Some (exitCode, left) \<Rightarrow>
                  (let frame = frame \<lparr> f_exitCode := sint (word_of_int exitCode :: 32 word) \<rparr>
                   in (case cbor_decode_integer c left of
                         None \<Rightarrow> (-1, frame)
                       | Some (val, left) \<Rightarrow>
                           (int_of_size (length buf - length left), frame \<lparr> f_exitCause := ucast val \<rparr>)))))
      else (-1, frame))"

definition bpsh_decode :: "Cbor \<Rightarrow> bytes \<Rightarrow> BpshFrame \<Rightarrow> int \<times> BpshFrame" where
  "bpsh_decode c buf frame =
     (if length buf = 0 then (-1, frame)
      else
        (let buf = take (unat (word_of_nat (length buf) :: u32)) buf
         in (case cbor_decode_array_open c 5 buf of
               None \<Rightarrow> (-1, frame)
             | Some (_, left) \<Rightarrow>
          (case cbor_decode_integer c left of
             None \<Rightarrow> (-1, frame)
           | Some (val, left) \<Rightarrow>
          (let frame = frame \<lparr> f_version := sint (ucast val :: 32 word) \<rparr>
           in (case cbor_decode_integer c left of
                 None \<Rightarrow> (-1, frame)
               | Some (val, left) \<Rightarrow>
          (let frame = frame \<lparr> f_msgType := ucast val \<rparr>
           in (case cbor_decode_integer c left of
                 None \<Rightarrow> (-1, frame)
               | Some (val, left) \<Rightarrow>
          (let frame = frame \<lparr> f_sessionId := val \<rparr>
           in (case cbor_decode_integer c left of
                 None \<Rightarrow> (-1, frame)
               | Some (val, left) \<Rightarrow>
                   decode_payload c buf left
                     (frame \<lparr> f_seqNum := val, f_payload := None, f_payloadLen := 0,
                              f_exitCode := 0, f_exitCause := BpshCauseNormal \<rparr>)))))))))))"

definition bpsh_msgtype_name :: "u32 \<Rightarrow> string" where
  "bpsh_msgtype_name t =
     (if t = BpshMsgInit then ''INIT'' else if t = BpshMsgInitAck then ''INIT_ACK''
      else if t = BpshMsgReq then ''REQ'' else if t = BpshMsgStdinChunk then ''STDIN_CHUNK''
      else if t = BpshMsgStdinEof then ''STDIN_EOF'' else if t = BpshMsgStdout then ''STDOUT''
      else if t = BpshMsgStderr then ''STDERR'' else if t = BpshMsgExit then ''EXIT''
      else if t = BpshMsgError then ''ERROR'' else if t = BpshMsgExitSession then ''EXIT_SESSION''
      else if t = BpshMsgCwd then ''CWD'' else ''?'')"

definition bpsh_cause_name :: "u32 \<Rightarrow> string" where
  "bpsh_cause_name c =
     (if c = BpshCauseNormal then ''normal'' else if c = BpshCauseSignaled then ''signaled''
      else if c = BpshCauseTimeout then ''timeout'' else if c = BpshCauseKilled then ''killed''
      else if c = BpshCauseOutputLimit then ''output-limit'' else ''?'')"

section \<open>Model: the shared secret\<close>

fun strip_line_end :: "bytes \<Rightarrow> bytes" where
  "strip_line_end buf = (if buf \<noteq> [] \<and> (last buf = 10 \<or> last buf = 13) then strip_line_end (butlast buf) else buf)"

declare strip_line_end.simps [simp del]

text \<open>\<open>file\<close> is what \<open>fopen\<close> and \<open>fread\<close> find at \<open>path\<close>; the result is the string the buffer holds.\<close>

definition bpsh_load_secret :: "(bytes \<Rightarrow> bytes option) \<Rightarrow> bool \<Rightarrow> bytes option \<Rightarrow> bytes option" where
  "bpsh_load_secret file mem path =
     (case path of
        None \<Rightarrow> None
      | Some path \<Rightarrow>
          (case file path of
             None \<Rightarrow> None
           | Some content \<Rightarrow>
               if \<not> mem then None
               else (let buf = strip_line_end (take BPSH_MAX_SECRET content)
                     in if buf = [] then None else Some (cstr buf))))"

section \<open>Model: sending a frame\<close>

datatype SendCall =
    Mtake nat
  | Mrelease
  | SdrBegin
  | SdrMalloc nat
  | SdrWrite bytes
  | SdrEnd
  | CreateZco nat
  | BpSend bytes
  | ZcoDestroy

text \<open>What the calls answer: an object is its address, \<open>s_zco\<close> is \<open>None\<close> for 0 and ERROR.\<close>

record SendAnswers =
  s_mem :: bool
  s_begin :: int
  s_object :: nat
  s_end :: int
  s_zco :: bool
  s_sent :: int
  s_begin2 :: int

definition bpsh_send_frame :: "Cbor \<Rightarrow> SendAnswers \<Rightarrow> bytes option \<Rightarrow> BpshFrame option \<Rightarrow> int \<times> SendCall list" where
  "bpsh_send_frame c io destEid frame =
     (case (frame, destEid) of
        (Some fr, Some dest) \<Rightarrow>
          (let bufsize = BPSH_FRAME_OVERHEAD + f_payloadLen fr
           in if \<not> s_mem io then (-1, [Mtake bufsize])
              else
                (let (buf, nbytes) = bpsh_encode c frame bufsize
                 in if nbytes < 0 then (-1, [Mtake bufsize, Mrelease])
                    else if s_begin io < 0 then (-1, [Mtake bufsize, SdrBegin, Mrelease])
                    else
                      (let calls = [Mtake bufsize, SdrBegin, SdrMalloc (nat nbytes)] @
                             (if s_object io \<noteq> 0 then [SdrWrite (take (nat nbytes) buf)] else []) @ [SdrEnd, Mrelease]
                       in if s_end io < 0 \<or> s_object io = 0 then (-1, calls)
                          else if \<not> s_zco io then (-1, calls @ [CreateZco (nat nbytes)])
                          else if s_sent io \<le> 0 then
                            (-1, calls @ [CreateZco (nat nbytes), BpSend dest, SdrBegin] @
                               (if s_begin2 io \<ge> 0 then [ZcoDestroy, SdrEnd] else []))
                          else (0, calls @ [CreateZco (nat nbytes), BpSend dest]))))
      | _ \<Rightarrow> (-1, []))"

definition empty_frame :: BpshFrame where
  "empty_frame = \<lparr>f_version = 0, f_msgType = 0, f_sessionId = 0, f_seqNum = 0, f_payload = None, f_payloadLen = 0,
     f_exitCode = 0, f_exitCause = BpshCauseNormal\<rparr>"

text \<open>The frames that the convenience senders hand to \<open>bpsh_send_frame\<close>.\<close>

definition ctl_frame :: "u32 \<Rightarrow> u64 \<Rightarrow> u64 \<Rightarrow> BpshFrame" where
  "ctl_frame type sessionId seq =
     empty_frame \<lparr> f_version := BPSH_VERSION, f_msgType := type, f_sessionId := sessionId, f_seqNum := seq \<rparr>"

definition bytes_frame :: "u32 \<Rightarrow> u64 \<Rightarrow> u64 \<Rightarrow> bytes \<Rightarrow> BpshFrame" where
  "bytes_frame type sessionId seq bs =
     (ctl_frame type sessionId seq) \<lparr> f_payload := Some bs, f_payloadLen := length bs \<rparr>"

definition exit_frame :: "u64 \<Rightarrow> u64 \<Rightarrow> int \<Rightarrow> u32 \<Rightarrow> BpshFrame" where
  "exit_frame sessionId seq code cause =
     (ctl_frame BpshMsgExit sessionId seq) \<lparr> f_exitCode := code, f_exitCause := cause \<rparr>"

definition bpsh_send_ctl :: "Cbor \<Rightarrow> SendAnswers \<Rightarrow> bytes option \<Rightarrow> u32 \<Rightarrow> u64 \<Rightarrow> u64 \<Rightarrow> int \<times> SendCall list" where
  "bpsh_send_ctl c io destEid type sessionId seq = bpsh_send_frame c io destEid (Some (ctl_frame type sessionId seq))"

definition bpsh_send_bytes :: "Cbor \<Rightarrow> SendAnswers \<Rightarrow> bytes option \<Rightarrow> u32 \<Rightarrow> u64 \<Rightarrow> u64 \<Rightarrow> bytes \<Rightarrow> int \<times> SendCall list" where
  "bpsh_send_bytes c io destEid type sessionId seq bs = bpsh_send_frame c io destEid (Some (bytes_frame type sessionId seq bs))"

definition bpsh_send_exit :: "Cbor \<Rightarrow> SendAnswers \<Rightarrow> bytes option \<Rightarrow> u64 \<Rightarrow> u64 \<Rightarrow> int \<Rightarrow> u32 \<Rightarrow> int \<times> SendCall list" where
  "bpsh_send_exit c io destEid sessionId seq code cause =
     bpsh_send_frame c io destEid (Some (exit_frame sessionId seq code cause))"

definition bpsh_send_error :: "Cbor \<Rightarrow> SendAnswers \<Rightarrow> bytes option \<Rightarrow> u64 \<Rightarrow> u64 \<Rightarrow> bytes \<Rightarrow> int \<times> SendCall list" where
  "bpsh_send_error c io destEid sessionId seq msg = bpsh_send_bytes c io destEid BpshMsgError sessionId seq msg"

section \<open>Model: receiving a frame\<close>

definition BPSH_RECV_OK :: int where "BPSH_RECV_OK = 1"
definition BPSH_RECV_NONE :: int where "BPSH_RECV_NONE = 0"
definition BPSH_RECV_SKIP :: int where "BPSH_RECV_SKIP = 2"
definition BPSH_RECV_FATAL :: int where "BPSH_RECV_FATAL = -1"

datatype DlvResult = BpPayloadPresent | BpEndpointStopped | BpOther

datatype RecvCall =
    BpReceive
  | ReleaseDelivery
  | RcvBegin
  | RcvExit
  | RcvCancel
  | RcvEnd
  | RcvTake nat
  | RcvRelease
  | ReceiveSource

record RecvAnswers =
  r_receive :: int
  r_result :: DlvResult
  r_adu :: bool
  r_begin :: int
  r_length :: int
  r_mem :: bool
  r_source :: int
  r_bytes :: bytes
  r_end :: int
  r_srcEid :: bytes

text \<open>What the caller sees: the code returned, the frame, the octets it then owns, the source EID, and
  the calls made.\<close>

record RecvResult =
  rr_rc :: int
  rr_frame :: BpshFrame
  rr_raw :: "bytes option"
  rr_src :: "bytes option"
  rr_calls :: "RecvCall list"

definition recv_result :: "int \<Rightarrow> BpshFrame \<Rightarrow> RecvCall list \<Rightarrow> RecvResult" where
  "recv_result rc frame calls = \<lparr>rr_rc = rc, rr_frame = frame, rr_raw = None, rr_src = None, rr_calls = calls\<rparr>"

definition receive_bundle :: "Cbor \<Rightarrow> RecvAnswers \<Rightarrow> BpshFrame \<Rightarrow> nat \<Rightarrow> RecvResult" where
  "receive_bundle c io frame srcEidLen =
     (let take_calls = [BpReceive, RcvBegin, RcvTake (nat (r_length io))]
      in if \<not> r_mem io then recv_result BPSH_RECV_SKIP frame (take_calls @ [RcvExit, ReleaseDelivery])
         else if r_source io < 0 then
           recv_result BPSH_RECV_SKIP frame (take_calls @ [ReceiveSource, RcvRelease, RcvCancel, ReleaseDelivery])
         else if r_end io < 0 then
           recv_result BPSH_RECV_SKIP frame (take_calls @ [ReceiveSource, RcvEnd, RcvRelease, ReleaseDelivery])
         else
           (let calls = take_calls @ [ReceiveSource, RcvEnd, ReleaseDelivery];
                src = (if srcEidLen > 0 then Some (take (srcEidLen - 1) (r_srcEid io)) else None)
            in (case bpsh_decode c (r_bytes io) frame of
                  (n, frame) \<Rightarrow>
                    if n < 0 then (recv_result BPSH_RECV_SKIP frame (calls @ [RcvRelease])) \<lparr> rr_src := src \<rparr>
                    else (recv_result BPSH_RECV_OK frame calls) \<lparr> rr_raw := Some (r_bytes io), rr_src := src \<rparr>)))"

definition bpsh_recv_frame :: "Cbor \<Rightarrow> RecvAnswers \<Rightarrow> nat \<Rightarrow> BpshFrame \<Rightarrow> nat \<Rightarrow> RecvResult" where
  "bpsh_recv_frame c io maxLen frame srcEidLen =
     (if r_receive io < 0 then recv_result BPSH_RECV_FATAL frame [BpReceive]
      else if r_result io = BpEndpointStopped then recv_result BPSH_RECV_FATAL frame [BpReceive, ReleaseDelivery]
      else if r_result io \<noteq> BpPayloadPresent \<or> \<not> r_adu io then
        recv_result BPSH_RECV_NONE frame [BpReceive, ReleaseDelivery]
      else if r_begin io < 0 then recv_result BPSH_RECV_SKIP frame [BpReceive, RcvBegin, ReleaseDelivery]
      else if r_length io \<le> 0 \<or> (maxLen \<noteq> 0 \<and> nat (r_length io) > maxLen) then
        recv_result BPSH_RECV_SKIP frame [BpReceive, RcvBegin, RcvExit, ReleaseDelivery]
      else receive_bundle c io frame srcEidLen)"


section \<open>The CBOR contract\<close>

text \<open>What include/compat/cbor.h documents of the functions: a decoder reads back what the encoder wrote,
  whatever follows; a value takes at most nine octets, a small one a single octet; a byte string is refused when it is longer than
  the caller allows, and without a buffer only its length is written and read; a decoder that succeeds
  has consumed octets from the front.\<close>

definition cbor_ok :: "Cbor \<Rightarrow> bool" where
  "cbor_ok c \<longleftrightarrow>
     (\<forall>n r. 0 < n \<and> n < -1 \<longrightarrow> cbor_decode_array_open c n (cbor_encode_array_open c n @ r) = Some (n, r)) \<and>
     (\<forall>v r. cbor_decode_integer c (cbor_encode_integer c v @ r) = Some (v, r)) \<and>
     (\<forall>v r. - (2 ^ 63) \<le> v \<and> v < 2 ^ 63 \<longrightarrow>
        cbor_decode_signed_int c (cbor_encode_signed_int c v @ r) = Some (v, r)) \<and>
     (\<forall>n limit r. n < 2 ^ 64 \<longrightarrow> cbor_decode_byte_string c limit (cbor_encode_byte_string c None n @ r) =
        (if n \<le> limit then Some (n, r) else None)) \<and>
     (\<forall>n s. cbor_encode_byte_string c (Some s) n = cbor_encode_byte_string c None n @ take n s) \<and>
     (\<forall>n < 24. length (cbor_encode_array_open c n) \<le> 1) \<and>
     (\<forall>v. length (cbor_encode_integer c v) \<le> (if v < 24 then 1 else 9)) \<and>
     (\<forall>v. length (cbor_encode_signed_int c v) \<le> 9) \<and> (\<forall>n. length (cbor_encode_byte_string c None n) \<le> 9)"

definition cbor_consumes :: "Cbor \<Rightarrow> bool" where
  "cbor_consumes c \<longleftrightarrow>
     (\<forall>n bs v r. cbor_decode_array_open c n bs = Some (v, r) \<longrightarrow> (\<exists>p. bs = p @ r)) \<and>
     (\<forall>bs v r. cbor_decode_integer c bs = Some (v, r) \<longrightarrow> (\<exists>p. bs = p @ r)) \<and>
     (\<forall>bs v r. cbor_decode_signed_int c bs = Some (v, r) \<longrightarrow> (\<exists>p. bs = p @ r)) \<and>
     (\<forall>limit bs n r. cbor_decode_byte_string c limit bs = Some (n, r) \<longrightarrow> (\<exists>p. bs = p @ r))"

lemma cbor_read:
  assumes "cbor_ok c"
  shows "cbor_decode_array_open c 5 (cbor_encode_array_open c 5 @ r) = Some (5, r)"
    "cbor_decode_array_open c 2 (cbor_encode_array_open c 2 @ r) = Some (2, r)"
    "cbor_decode_integer c (cbor_encode_integer c v @ r) = Some (v, r)"
    "- (2 ^ 63) \<le> i \<Longrightarrow> i < 2 ^ 63 \<Longrightarrow> cbor_decode_signed_int c (cbor_encode_signed_int c i @ r) = Some (i, r)"
    "n < 2 ^ 64 \<Longrightarrow> n \<le> limit \<Longrightarrow> cbor_decode_byte_string c limit (cbor_encode_byte_string c None n @ r) = Some (n, r)"
    "cbor_encode_byte_string c (Some s) n = cbor_encode_byte_string c None n @ take n s"
    "m < 24 \<Longrightarrow> length (cbor_encode_array_open c m) \<le> 1" "length (cbor_encode_integer c v) \<le> 9"
    "length (cbor_encode_signed_int c i) \<le> 9" "length (cbor_encode_byte_string c None n) \<le> 9"
    "v < 24 \<Longrightarrow> length (cbor_encode_integer c v) \<le> 1"
proof -
  have w: "(0 :: u64) < 5" "(5 :: u64) < -1" "(0 :: u64) < 2" "(2 :: u64) < -1" by simp_all
  show "cbor_decode_array_open c 5 (cbor_encode_array_open c 5 @ r) = Some (5, r)"
    "cbor_decode_array_open c 2 (cbor_encode_array_open c 2 @ r) = Some (2, r)"
    using assms w unfolding cbor_ok_def by blast+
  have i: "length (cbor_encode_integer c v) \<le> (if v < 24 then 1 else 9)" for v
    using assms unfolding cbor_ok_def by blast
  show "length (cbor_encode_integer c v) \<le> 9" using i[of v] by (simp split: if_splits)
  show "v < 24 \<Longrightarrow> length (cbor_encode_integer c v) \<le> 1" using i[of v] by simp
qed (use assms in \<open>unfold cbor_ok_def, simp\<close>)+

section \<open>A frame survives\<close>

definition int_range :: "int \<Rightarrow> bool" where
  "int_range i \<longleftrightarrow> - (2 ^ 31) \<le> i \<and> i < 2 ^ 31"

lemma sint_word_of_int_range: "int_range i \<Longrightarrow> sint (word_of_int i :: 32 word) = i"
  by (simp add: int_range_def signed_of_int signed_take_bit_int_eq_self)

lemma sint_ucast_word_of_int: "int_range i \<Longrightarrow> sint (ucast (word_of_int i :: u64) :: 32 word) = i"
proof -
  assume i: "int_range i"
  have "(ucast (word_of_int i :: u64) :: 32 word) = word_of_int i"
    by (rule bit_word_eqI) (auto simp: bit_simps)
  then show ?thesis using sint_word_of_int_range[OF i] by simp
qed

lemma ucast_ucast_u32: "(ucast (ucast (x :: u32) :: u64) :: u32) = x"
  by (rule bit_word_eqI) (auto simp: bit_simps dest: bit_imp_le_length)

text \<open>The frames the programs send: what a message of its type does not carry is left out.\<close>

definition sendable :: "BpshFrame \<Rightarrow> bool" where
  "sendable f \<longleftrightarrow> int_range (f_version f) \<and> int_range (f_exitCode f) \<and>
     (is_empty_msg (f_msgType f) \<or> is_bytes_msg (f_msgType f) \<or> f_msgType f = BpshMsgExit) \<and>
     f_payloadLen f = (case f_payload f of None \<Rightarrow> 0 | Some p \<Rightarrow> length p) \<and> f_payloadLen f < 2 ^ 30"

definition carried :: "BpshFrame \<Rightarrow> BpshFrame" where
  "carried f =
     (if is_bytes_msg (f_msgType f) then
        f \<lparr> f_payload := Some (case f_payload f of None \<Rightarrow> [] | Some p \<Rightarrow> p), f_exitCode := 0, f_exitCause := BpshCauseNormal \<rparr>
      else if f_msgType f = BpshMsgExit then f \<lparr> f_payload := None, f_payloadLen := 0 \<rparr>
      else f \<lparr> f_payload := None, f_payloadLen := 0, f_exitCode := 0, f_exitCause := BpshCauseNormal \<rparr>)"

definition frame_header :: "Cbor \<Rightarrow> BpshFrame \<Rightarrow> bytes" where
  "frame_header c f = cbor_encode_array_open c 5 @ cbor_encode_integer c (word_of_int (f_version f)) @
     cbor_encode_integer c (ucast (f_msgType f)) @ cbor_encode_integer c (f_sessionId f) @ cbor_encode_integer c (f_seqNum f)"

definition frame_body :: "Cbor \<Rightarrow> BpshFrame \<Rightarrow> bytes" where
  "frame_body c f =
     (if is_empty_msg (f_msgType f) then cbor_encode_byte_string c None 0
      else if is_bytes_msg (f_msgType f) then cbor_encode_byte_string c (f_payload f) (f_payloadLen f)
      else cbor_encode_array_open c 2 @ cbor_encode_signed_int c (f_exitCode f) @ cbor_encode_integer c (ucast (f_exitCause f)))"

definition needed :: "BpshFrame \<Rightarrow> nat" where
  "needed f = (if f_msgType f = BpshMsgExit then BPSH_FRAME_OVERHEAD else BPSH_FRAME_OVERHEAD + f_payloadLen f)"

lemma frame_body_length:
  assumes "cbor_ok c" "sendable f"
  shows "length (frame_body c f) \<le> 19 + (if f_msgType f = BpshMsgExit then 0 else f_payloadLen f)"
proof -
  have b: "length (cbor_encode_byte_string c None n) \<le> 9" for n by (rule cbor_read(10)[OF assms(1)])
  have bs: "length (cbor_encode_byte_string c (Some s) n) \<le> 9 + n" for s n
    using b[of n] by (simp add: cbor_read(6)[OF assms(1)])
  have pl: "length (cbor_encode_byte_string c (f_payload f) (f_payloadLen f)) \<le> 9 + f_payloadLen f"
    using b[of "f_payloadLen f"] bs by (cases "f_payload f") (auto intro: le_trans)
  have ex: "length (cbor_encode_array_open c 2 @ cbor_encode_signed_int c (f_exitCode f) @
      cbor_encode_integer c (ucast (f_exitCause f))) \<le> 19"
    using cbor_read(7)[OF assms(1), of 2] cbor_read(9)[OF assms(1), of "f_exitCode f"]
      cbor_read(8)[OF assms(1), of "ucast (f_exitCause f)"] by simp
  show ?thesis
    using pl ex b[of 0] assms(2) unfolding frame_body_def sendable_def
    by (auto simp: is_empty_msg_def is_bytes_msg_def bpsh_msgs intro: le_trans)
qed

lemma sendable_type: "sendable f \<Longrightarrow> f_msgType f \<le> 11"
  by (auto simp: sendable_def is_empty_msg_def is_bytes_msg_def bpsh_msgs)

lemma frame_length:
  assumes "cbor_ok c" "sendable f"
  shows "length (frame_header c f @ frame_body c f) \<le> 48 + (if f_msgType f = BpshMsgExit then 0 else f_payloadLen f)"
proof -
  have t: "length (cbor_encode_integer c (ucast (f_msgType f))) \<le> 1"
  proof (rule cbor_read(11)[OF assms(1)])
    have "unat (ucast (f_msgType f) :: u64) = unat (f_msgType f)" by (simp add: unsigned_ucast_eq take_bit_nat_eq_self less_trans[OF unat_u32_less])
    then show "(ucast (f_msgType f) :: u64) < 24" using sendable_type[OF assms(2)] by (simp add: word_less_nat_alt word_le_nat_alt)
  qed
  have "length (frame_header c f) \<le> 1 + (9 + (1 + (9 + 9)))"
    unfolding frame_header_def length_append
    using cbor_read(7)[OF assms(1), of 5] t cbor_read(8)[OF assms(1)] by (intro add_mono) simp_all
  then show ?thesis using frame_body_length[OF assms] by simp
qed

text \<open>Decoding what was encoded, field by field.\<close>

lemma carried_simps [simp]: "f_msgType (carried f) = f_msgType f"
  by (simp add: carried_def)

lemma decode_payload_body:
  assumes "cbor_ok c" "sendable f" "\<exists>h. buf = h @ frame_body c f @ junk"
    "g = f \<lparr> f_payload := None, f_payloadLen := 0, f_exitCode := 0, f_exitCause := BpshCauseNormal \<rparr>"
  shows "decode_payload c buf (frame_body c f @ junk) g = (int_of_size (length buf - length junk), carried f)"
proof -
  have gt: "f_msgType g = f_msgType f" by (simp add: assms(4))
  have en: "int_range (f_exitCode f)" using assms(2) by (simp add: sendable_def)
  consider (none) "is_empty_msg (f_msgType f)" | (octets) "is_bytes_msg (f_msgType f)" "\<not> is_empty_msg (f_msgType f)" |
    (exit) "f_msgType f = BpshMsgExit" "\<not> is_empty_msg (f_msgType f)" "\<not> is_bytes_msg (f_msgType f)"
    using assms(2) by (auto simp: sendable_def is_empty_msg_def is_bytes_msg_def bpsh_msgs)
  then show ?thesis
  proof cases
    case none
    have "\<not> is_bytes_msg (f_msgType f)" "f_msgType f \<noteq> BpshMsgExit"
      using none by (auto simp: is_empty_msg_def is_bytes_msg_def bpsh_msgs)
    then have "carried f = g" by (simp add: carried_def assms(4))
    then show ?thesis
      using none cbor_read(5)[OF assms(1), of 0 0 junk] by (simp add: decode_payload_def frame_body_def gt)
  next
    case octets
    define p where "p = (case f_payload f of None \<Rightarrow> [] | Some p \<Rightarrow> p)"
    have n: "f_payloadLen f = length p" "length p < 2 ^ 64"
      using assms(2) by (auto simp: sendable_def p_def split: option.splits)
    have bdy: "frame_body c f = cbor_encode_byte_string c None (length p) @ p"
      using octets n(1) cbor_read(6)[OF assms(1)] by (simp add: frame_body_def p_def split: option.splits)
    have d: "cbor_decode_byte_string c (length (frame_body c f @ junk)) (frame_body c f @ junk) = Some (length p, p @ junk)"
      unfolding bdy using cbor_read(5)[OF assms(1) n(2), of _ "p @ junk"] by simp
    have "carried f = g \<lparr> f_payload := Some p, f_payloadLen := length p \<rparr>"
      using octets n(1) by (simp add: carried_def assms(4) p_def)
    then show ?thesis using octets d by (simp add: decode_payload_def gt)
  next
    case exit
    have bdy: "frame_body c f @ junk = cbor_encode_array_open c 2 @ cbor_encode_signed_int c (f_exitCode f) @
        cbor_encode_integer c (ucast (f_exitCause f)) @ junk" using exit by (simp add: frame_body_def)
    have r: "- (2 ^ 63) \<le> f_exitCode f" "f_exitCode f < 2 ^ 63" using en by (simp_all add: int_range_def)
    have "carried f = g \<lparr> f_exitCode := f_exitCode f, f_exitCause := f_exitCause f \<rparr>"
      using exit by (simp add: carried_def assms(4))
    then show ?thesis
      unfolding bdy using exit r
      by (simp add: decode_payload_def gt cbor_read(2-4)[OF assms(1)] sint_word_of_int_range[OF en] ucast_ucast_u32)
  qed
qed

lemma take_buffered: "length b < 2 ^ 32 \<Longrightarrow> take (unat (word_of_nat (length b) :: u32)) b = b"
  by (simp add: take_bit_nat_eq_self unsigned_of_nat)

lemma decode_encoded:
  assumes "cbor_ok c" "sendable f" "length junk < 2 ^ 30"
  shows "bpsh_decode c (frame_header c f @ frame_body c f @ junk) g =
    (int (length (frame_header c f @ frame_body c f)), carried f)"
proof -
  let ?b = "frame_header c f @ frame_body c f @ junk"
  have v: "int_range (f_version f)" using assms(2) by (simp add: sendable_def)
  have l: "length ?b < 2 ^ 32" "length (frame_header c f @ frame_body c f) < 2 ^ 31"
    using frame_length[OF assms(1,2)] assms(2,3) by (auto simp: sendable_def split: if_splits)
  have tk: "take (unat (word_of_nat (length ?b) :: u32)) ?b = ?b" by (rule take_buffered[OF l(1)])
  have "?b \<noteq> []"
  proof
    assume "?b = []"
    then have e: "cbor_encode_integer c (f_seqNum f) = []" by (simp add: frame_header_def)
    have "cbor_decode_integer c (cbor_encode_integer c (f_seqNum f + 1)) = Some (f_seqNum f, cbor_encode_integer c (f_seqNum f + 1))"
      using cbor_read(3)[OF assms(1), of "f_seqNum f" "cbor_encode_integer c (f_seqNum f + 1)"] e by simp
    then show False using cbor_read(3)[OF assms(1), of "f_seqNum f + 1" "[]"] by simp
  qed
  moreover have "decode_payload c ?b (frame_body c f @ junk)
      (f \<lparr> f_payload := None, f_payloadLen := 0, f_exitCode := 0, f_exitCause := BpshCauseNormal \<rparr>) =
      (int_of_size (length ?b - length junk), carried f)"
    by (rule decode_payload_body[OF assms(1,2) _ refl]) blast
  moreover have "int_of_size (length ?b - length junk) = int (length (frame_header c f @ frame_body c f))"
    using l(2) by simp
  moreover have "bpsh_decode c ?b g = decode_payload c ?b (frame_body c f @ junk)
      (f \<lparr> f_payload := None, f_payloadLen := 0, f_exitCode := 0, f_exitCause := BpshCauseNormal \<rparr>)"
  proof -
    have ne: "length ?b \<noteq> 0" using \<open>?b \<noteq> []\<close> by simp
    have "g \<lparr> f_version := f_version f, f_msgType := f_msgType f, f_sessionId := f_sessionId f, f_seqNum := f_seqNum f,
        f_payload := None, f_payloadLen := 0, f_exitCode := 0, f_exitCause := BpshCauseNormal \<rparr> =
      f \<lparr> f_payload := None, f_payloadLen := 0, f_exitCode := 0, f_exitCause := BpshCauseNormal \<rparr>"
      by (cases f, cases g) simp
    then show ?thesis
      unfolding bpsh_decode_def if_not_P[OF ne] tk Let_def
      by (simp only: frame_header_def append_assoc cbor_read(1,3)[OF assms(1)] option.case prod.case
          sint_ucast_word_of_int[OF v] ucast_ucast_u32)
  qed
  ultimately show ?thesis by simp
qed


lemma bpsh_encode_sendable:
  assumes "cbor_ok c" "sendable f" "needed f \<le> buflen"
  shows "bpsh_encode c (Some f) buflen =
    (frame_header c f @ frame_body c f, int (length (frame_header c f @ frame_body c f)))"
    "length (frame_header c f @ frame_body c f) \<le> buflen"
proof -
  let ?b = "frame_header c f @ frame_body c f"
  show fit: "length ?b \<le> buflen"
    using frame_length[OF assms(1,2)] assms(3) by (simp add: needed_def BPSH_FRAME_OVERHEAD_def split: if_splits)
  have len: "length ?b < 2 ^ 31"
    using frame_length[OF assms(1,2)] assms(2) by (auto simp: sendable_def split: if_splits)
  have t: "is_empty_msg (f_msgType f) \<or> is_bytes_msg (f_msgType f) \<or> f_msgType f = BpshMsgExit"
    using assms(2) by (simp add: sendable_def)
  have out: "cbor_encode_array_open c 5 @ cbor_encode_integer c (word_of_int (f_version f)) @
      cbor_encode_integer c (ucast (f_msgType f)) @ cbor_encode_integer c (f_sessionId f) @
      cbor_encode_integer c (f_seqNum f) = frame_header c f" by (simp add: frame_header_def)
  have bdy: "(if is_empty_msg (f_msgType f) then Some (cbor_encode_byte_string c None 0)
      else if is_bytes_msg (f_msgType f) then Some (cbor_encode_byte_string c (f_payload f) (f_payloadLen f))
      else if f_msgType f = BpshMsgExit then Some (cbor_encode_array_open c 2 @ cbor_encode_signed_int c (f_exitCode f) @
        cbor_encode_integer c (ucast (f_exitCause f))) else None) = Some (frame_body c f)"
    using t by (auto simp: frame_body_def)
  have "\<not> buflen < (if f_msgType f = BpshMsgExit then BPSH_FRAME_OVERHEAD else BPSH_FRAME_OVERHEAD + f_payloadLen f)"
    using assms(3) by (simp add: needed_def)
  then show "bpsh_encode c (Some f) buflen = (?b, int (length ?b))"
    unfolding bpsh_encode_def option.case Let_def out bdy using fit int_of_size_small[OF len] by (simp del: length_append)
qed

text \<open>C32: A frame that is encoded into a buffer of its payload and the frame overhead is written within
  that buffer, and decoding it, whatever follows it, gives back the length and everything a message of
  its type carries.\<close>
theorem bpsh_frame_round_trip:
  assumes "cbor_ok c" "sendable f" "needed f \<le> buflen" "length junk < 2 ^ 30"
  shows "\<exists>bs. bpsh_encode c (Some f) buflen = (bs, int (length bs)) \<and> length bs \<le> buflen \<and>
    bpsh_decode c (bs @ junk) g = (int (length bs), carried f)"
  using bpsh_encode_sendable[OF assms(1-3)] decode_encoded[OF assms(1,2,4), of g]
  by (intro exI[of _ "frame_header c f @ frame_body c f"]) simp

section \<open>The decoder stays within the bundle\<close>

lemma suffix_trans: "bs = p @ r \<Longrightarrow> r = q @ s \<Longrightarrow> \<exists>t. bs = t @ s"
  by simp

lemma cbor_left:
  assumes "cbor_consumes c"
  shows "cbor_decode_array_open c n bs = Some (v, r) \<Longrightarrow> \<exists>p. bs = p @ r"
    "cbor_decode_integer c bs = Some (w, r) \<Longrightarrow> \<exists>p. bs = p @ r"
    "cbor_decode_signed_int c bs = Some (i, r) \<Longrightarrow> \<exists>p. bs = p @ r"
    "cbor_decode_byte_string c limit bs = Some (m, r) \<Longrightarrow> \<exists>p. bs = p @ r"
  using assms unfolding cbor_consumes_def by blast+

text \<open>A result with at least 0 names octets of \<open>buf\<close>, and the payload is one run of them.\<close>

definition within :: "bytes \<Rightarrow> int \<times> BpshFrame \<Rightarrow> bool" where
  "within buf r \<longleftrightarrow> (fst r \<ge> 0 \<longrightarrow> fst r \<le> int (length buf) \<and>
     (\<forall>p. f_payload (snd r) = Some p \<longrightarrow> length p = f_payloadLen (snd r) \<and> (\<exists>a b. buf = a @ p @ b)))"

lemma within_fail [simp]: "within buf (-1, f)"
  by (simp add: within_def)

lemma int_of_size_le: "n \<le> m \<Longrightarrow> m < 2 ^ 31 \<Longrightarrow> int_of_size n \<le> int m"
  by simp

lemma decode_payload_within:
  assumes "cbor_consumes c" "buf = a @ left" "length buf < 2 ^ 31" "f_payload g = None"
  shows "within buf (decode_payload c buf left g)"
proof -
  have sz: "int_of_size (length buf - n) \<le> int (length buf)" for n
    using int_of_size_le[of "length buf - n" "length buf"] assms(3) by simp
  consider (none) "is_empty_msg (f_msgType g)" | (octets) "is_bytes_msg (f_msgType g)" "\<not> is_empty_msg (f_msgType g)" |
    (other) "\<not> is_empty_msg (f_msgType g)" "\<not> is_bytes_msg (f_msgType g)" by blast
  then show ?thesis
  proof cases
    case none
    then show ?thesis
      using assms(4) sz by (auto simp: decode_payload_def within_def split: option.split)
  next
    case octets
    show ?thesis
    proof (cases "cbor_decode_byte_string c (length left) left")
      case None
      then show ?thesis using octets by (simp add: decode_payload_def)
    next
      case (Some r)
      obtain n rest where r: "r = (n, rest)" by (cases r) auto
      obtain h where "left = h @ rest" using cbor_left(4)[OF assms(1)] Some r by blast
      then have buf: "buf = (a @ h) @ take n rest @ drop n rest" using assms(2) by simp
      then have ex: "\<exists>a b. buf = a @ take n rest @ b" by blast
      show ?thesis
      proof (cases "n > length rest")
        case True
        then show ?thesis using octets Some r by (simp add: decode_payload_def)
      next
        case False
        have "decode_payload c buf left g = (int_of_size (length buf - length (drop n rest)),
            g \<lparr> f_payload := Some (take n rest), f_payloadLen := n \<rparr>)"
          using octets Some r False by (simp add: decode_payload_def)
        then show ?thesis
          unfolding within_def using sz[of "length (drop n rest)"] False ex by (simp del: length_drop)
      qed
    qed
  next
    case other
    then show ?thesis
      using assms(4) sz by (auto simp: decode_payload_def within_def Let_def split: option.split prod.split if_splits)
  qed
qed

lemma within_field:
  assumes "cbor_consumes c" "buf = a @ left" "\<And>p v rest. buf = p @ rest \<Longrightarrow> within buf (k v rest)"
  shows "within buf (case cbor_decode_integer c left of None \<Rightarrow> (-1, f) | Some (v, rest) \<Rightarrow> k v rest)"
proof (cases "cbor_decode_integer c left")
  case (Some r)
  obtain v rest where r: "r = (v, rest)" by (cases r) auto
  obtain p where "left = p @ rest" using cbor_left(2)[OF assms(1)] Some r by blast
  then have "buf = (a @ p) @ rest" using assms(2) by simp
  then have "within buf (k v rest)" by (rule assms(3))
  then show ?thesis using Some r by simp
qed simp

lemma within_array:
  assumes "cbor_consumes c" "\<And>p v rest. buf = p @ rest \<Longrightarrow> within buf (k v rest)"
  shows "within buf (case cbor_decode_array_open c n buf of None \<Rightarrow> (-1, f) | Some (v, rest) \<Rightarrow> k v rest)"
proof (cases "cbor_decode_array_open c n buf")
  case (Some r)
  obtain v rest where r: "r = (v, rest)" by (cases r) auto
  obtain p where "buf = p @ rest" using cbor_left(1)[OF assms(1)] Some r by blast
  then have "within buf (k v rest)" by (rule assms(2))
  then show ?thesis using Some r by simp
qed simp

text \<open>Whatever a bundle holds, decoding it either fails or reports a length within the bundle, and a
  payload that lies in it.\<close>
theorem bpsh_decode_within:
  assumes "cbor_consumes c" "length buf < 2 ^ 31"
  shows "within buf (bpsh_decode c buf g)"
proof -
  have tk: "take (unat (word_of_nat (length buf) :: u32)) buf = buf" using assms(2) by (intro take_buffered) simp
  have "within buf (case cbor_decode_array_open c 5 buf of None \<Rightarrow> (-1, g) | Some (v, left) \<Rightarrow>
      (case cbor_decode_integer c left of None \<Rightarrow> (-1, g) | Some (val, left) \<Rightarrow>
      (case cbor_decode_integer c left of None \<Rightarrow> (-1, g \<lparr> f_version := sint (ucast val :: 32 word) \<rparr>) | Some (val', left) \<Rightarrow>
      (case cbor_decode_integer c left of
         None \<Rightarrow> (-1, g \<lparr> f_version := sint (ucast val :: 32 word), f_msgType := ucast val' \<rparr>) | Some (sid, left) \<Rightarrow>
      (case cbor_decode_integer c left of
         None \<Rightarrow> (-1, g \<lparr> f_version := sint (ucast val :: 32 word), f_msgType := ucast val', f_sessionId := sid \<rparr>)
       | Some (seq, left) \<Rightarrow> decode_payload c buf left
           (g \<lparr> f_version := sint (ucast val :: 32 word), f_msgType := ucast val', f_sessionId := sid, f_seqNum := seq,
                f_payload := None, f_payloadLen := 0, f_exitCode := 0, f_exitCause := BpshCauseNormal \<rparr>))))))"
    by (intro within_array[OF assms(1)] within_field[OF assms(1)] decode_payload_within[OF assms(1) _ assms(2)]) (assumption | simp)+
  then show ?thesis unfolding bpsh_decode_def tk Let_def by simp
qed

section \<open>Sending and receiving leave nothing behind\<close>

definition calls_of :: "'a \<Rightarrow> 'a list \<Rightarrow> nat" where
  "calls_of x xs = length (filter ((=) x) xs)"

text \<open>The transactions begun that a later call closes: a call that fails closes its transaction itself.\<close>

definition recv_clean :: "Cbor \<Rightarrow> RecvAnswers \<Rightarrow> nat \<Rightarrow> BpshFrame \<Rightarrow> RecvResult \<Rightarrow> bool" where
  "recv_clean c io maxLen frame r \<longleftrightarrow>
     calls_of ReleaseDelivery (rr_calls r) = (if r_receive io < 0 then 0 else 1) \<and>
     (r_begin io \<ge> 0 \<longrightarrow> calls_of RcvBegin (rr_calls r) =
       calls_of RcvExit (rr_calls r) + calls_of RcvCancel (rr_calls r) + calls_of RcvEnd (rr_calls r)) \<and>
     (rr_raw r = None \<longrightarrow> rr_rc r \<noteq> BPSH_RECV_OK \<and>
       (r_mem io \<longrightarrow> calls_of RcvRelease (rr_calls r) = calls_of (RcvTake (nat (r_length io))) (rr_calls r))) \<and>
     (rr_raw r \<noteq> None \<longrightarrow> rr_rc r = BPSH_RECV_OK \<and> calls_of RcvRelease (rr_calls r) = 0 \<and>
       rr_raw r = Some (r_bytes io) \<and> rr_frame r = snd (bpsh_decode c (r_bytes io) frame) \<and>
       fst (bpsh_decode c (r_bytes io) frame) \<ge> 0 \<and> (maxLen \<noteq> 0 \<longrightarrow> nat (r_length io) \<le> maxLen))"

lemma recv_codes: "BPSH_RECV_SKIP \<noteq> BPSH_RECV_OK" "BPSH_RECV_NONE \<noteq> BPSH_RECV_OK" "BPSH_RECV_FATAL \<noteq> BPSH_RECV_OK"
  by (simp_all add: BPSH_RECV_OK_def BPSH_RECV_SKIP_def BPSH_RECV_NONE_def BPSH_RECV_FATAL_def)

lemma receive_bundle_clean:
  assumes "r_receive io \<ge> 0" "r_begin io \<ge> 0" "maxLen \<noteq> 0 \<longrightarrow> nat (r_length io) \<le> maxLen"
  shows "recv_clean c io maxLen frame (receive_bundle c io frame n)"
proof -
  obtain k f where d: "bpsh_decode c (r_bytes io) frame = (k, f)" by fastforce
  show ?thesis
    unfolding receive_bundle_def Let_def d prod.case recv_clean_def
    using assms recv_codes
    by (cases "r_mem io"; cases "r_source io < 0"; cases "r_end io < 0"; cases "k < 0")
       (simp_all add: recv_result_def calls_of_def)
qed

text \<open>Receiving a frame: what was delivered is released exactly once, whatever goes wrong; a
  transaction that could be begun is closed exactly once; the octets of the bundle are released unless
  the frame was decoded, and then the caller gets them with the frame they decode to, no more of them
  than it allowed.\<close>
theorem bpsh_recv_frame_clean: "recv_clean c io maxLen frame (bpsh_recv_frame c io maxLen frame n)"
proof -
  have res: "recv_clean c io maxLen frame (recv_result rc frame calls)"
    if "calls_of ReleaseDelivery calls = (if r_receive io < 0 then 0 else 1)"
      "r_begin io \<ge> 0 \<longrightarrow> calls_of RcvBegin calls = calls_of RcvExit calls + calls_of RcvCancel calls + calls_of RcvEnd calls"
      "rc \<noteq> BPSH_RECV_OK" "calls_of RcvRelease calls = 0" "calls_of (RcvTake (nat (r_length io))) calls = 0" for rc calls
    using that by (simp add: recv_clean_def recv_result_def)
  note codes = recv_codes
  consider "r_receive io < 0" | "\<not> r_receive io < 0" "r_result io = BpEndpointStopped" |
    "\<not> r_receive io < 0" "r_result io \<noteq> BpEndpointStopped" "r_result io \<noteq> BpPayloadPresent \<or> \<not> r_adu io" |
    "\<not> r_receive io < 0" "r_result io = BpPayloadPresent" "r_adu io" "r_begin io < 0" |
    "\<not> r_receive io < 0" "r_result io = BpPayloadPresent" "r_adu io" "\<not> r_begin io < 0"
      "r_length io \<le> 0 \<or> (maxLen \<noteq> 0 \<and> nat (r_length io) > maxLen)" |
    "\<not> r_receive io < 0" "r_result io = BpPayloadPresent" "r_adu io" "\<not> r_begin io < 0"
      "\<not> (r_length io \<le> 0 \<or> (maxLen \<noteq> 0 \<and> nat (r_length io) > maxLen))"
    using DlvResult.exhaust by blast
  then show ?thesis
  proof cases
    case 6
    then have "bpsh_recv_frame c io maxLen frame n = receive_bundle c io frame n"
      unfolding bpsh_recv_frame_def if_not_P[OF 6(1)] if_not_P[OF 6(4)] if_not_P[OF 6(5)] by simp
    moreover have "recv_clean c io maxLen frame (receive_bundle c io frame n)"
      by (rule receive_bundle_clean) (use 6 in linarith)+
    ultimately show ?thesis by simp
  next
    case 5
    then have "bpsh_recv_frame c io maxLen frame n =
        recv_result BPSH_RECV_SKIP frame [BpReceive, RcvBegin, RcvExit, ReleaseDelivery]" by (simp add: bpsh_recv_frame_def)
    then show ?thesis using 5(1) res[of "[BpReceive, RcvBegin, RcvExit, ReleaseDelivery]"] codes by (simp add: calls_of_def)
  qed (use res[of "[BpReceive]"] res[of "[BpReceive, ReleaseDelivery]"] res[of "[BpReceive, RcvBegin, ReleaseDelivery]"] codes in
      \<open>simp_all add: bpsh_recv_frame_def calls_of_def\<close>)
qed


text \<open>Sending a frame: 0 is returned exactly when the bundle was taken, and then what was written to the
  SDR is the encoding of the frame; the encoding buffer is released on every path on which it was had, a
  transaction begun is ended, and a ZCO that BP did not take is destroyed.\<close>
theorem bpsh_send_frame_clean:
  assumes "cbor_ok c" "sendable f" "s_mem io"
  shows "calls_of Mrelease (snd (bpsh_send_frame c io (Some dest) (Some f))) = 1 \<and>
    (fst (bpsh_send_frame c io (Some dest) (Some f)) = 0 \<longleftrightarrow>
       s_begin io \<ge> 0 \<and> s_object io \<noteq> 0 \<and> s_end io \<ge> 0 \<and> s_zco io \<and> s_sent io > 0) \<and>
    (calls_of (BpSend dest) (snd (bpsh_send_frame c io (Some dest) (Some f))) > 0 \<longrightarrow>
       calls_of (SdrWrite (frame_header c f @ frame_body c f)) (snd (bpsh_send_frame c io (Some dest) (Some f))) = 1) \<and>
    (s_begin io \<ge> 0 \<and> s_begin2 io \<ge> 0 \<longrightarrow>
       calls_of SdrEnd (snd (bpsh_send_frame c io (Some dest) (Some f))) =
       calls_of SdrBegin (snd (bpsh_send_frame c io (Some dest) (Some f)))) \<and>
    (s_begin2 io \<ge> 0 \<longrightarrow> calls_of ZcoDestroy (snd (bpsh_send_frame c io (Some dest) (Some f))) =
       (if calls_of (BpSend dest) (snd (bpsh_send_frame c io (Some dest) (Some f))) > 0 \<and> s_sent io \<le> 0 then 1 else 0))"
proof -
  let ?b = "frame_header c f @ frame_body c f"
  have need: "needed f \<le> BPSH_FRAME_OVERHEAD + f_payloadLen f" by (simp add: needed_def)
  have enc: "bpsh_encode c (Some f) (BPSH_FRAME_OVERHEAD + f_payloadLen f) = (?b, int (length ?b))"
    by (rule bpsh_encode_sendable[OF assms(1,2) need])
  have tk: "take (nat (int (length ?b))) ?b = ?b" by simp
  have nn: "\<not> int (length ?b) < 0" by simp
  show ?thesis
    unfolding bpsh_send_frame_def Let_def option.case prod.case enc tk if_not_P[OF nn] if_not_P[OF not_not[THEN iffD2, OF assms(3)]]
    by (cases "s_begin io < 0"; cases "s_object io = 0"; cases "s_end io < 0"; cases "s_zco io"; cases "s_sent io \<le> 0";
        cases "s_begin2 io < 0") (simp_all add: calls_of_def)
qed

section \<open>A CBOR that keeps the contract\<close>

text \<open>The encoding of RFC 8949 for the items that frames use.\<close>

definition cbor_head :: "u8 \<Rightarrow> u64 \<Rightarrow> bytes" where
  "cbor_head major n =
     (if n < 24 then [push_bit 5 major OR ucast n]
      else if n < 0x100 then [push_bit 5 major OR 24, ucast n]
      else if n < 0x10000 then (push_bit 5 major OR 25) # be16 (ucast n)
      else if n < 0x100000000 then (push_bit 5 major OR 26) # be32 (ucast n)
      else (push_bit 5 major OR 27) # be64 n)"

fun cbor_unhead :: "u8 \<Rightarrow> bytes \<Rightarrow> (u64 \<times> bytes) option" where
  "cbor_unhead major [] = None"
| "cbor_unhead major (b # bs) =
     (if drop_bit 5 b \<noteq> major then None
      else (let info = b AND 31; k = (if info < 24 then 0 else if info = 24 then 1 else if info = 25 then 2
                                      else if info = 26 then 4 else 8)
            in if info > 27 \<or> length bs < k then None
               else if info < 24 then Some (ucast info, bs)
               else Some (be_value (take k bs), drop k bs)))"

definition zigzag :: "int \<Rightarrow> bytes" where
  "zigzag i = (if i \<ge> 0 then cbor_head 0 (word_of_int i) else cbor_head 1 (word_of_int (- i - 1)))"

definition unzigzag :: "bytes \<Rightarrow> (int \<times> bytes) option" where
  "unzigzag bs = (case cbor_unhead 0 bs of
     Some (n, r) \<Rightarrow> Some (uint n, r)
   | None \<Rightarrow> map_option (\<lambda>(n, r). (- uint n - 1, r)) (cbor_unhead 1 bs))"

definition rfc8949 :: Cbor where
  "rfc8949 = \<lparr>
     cbor_encode_array_open = cbor_head 4,
     cbor_encode_integer = cbor_head 0,
     cbor_encode_signed_int = zigzag,
     cbor_encode_byte_string = (\<lambda>s n. cbor_head 2 (word_of_nat n) @ (case s of None \<Rightarrow> [] | Some s \<Rightarrow> take n s)),
     cbor_decode_array_open = (\<lambda>n bs. case cbor_unhead 4 bs of
        Some (m, r) \<Rightarrow> if n = 0 \<or> m = n then Some (m, r) else None | None \<Rightarrow> None),
     cbor_decode_integer = cbor_unhead 0,
     cbor_decode_signed_int = unzigzag,
     cbor_decode_byte_string = (\<lambda>limit bs. case cbor_unhead 2 bs of
        Some (n, r) \<Rightarrow> if unat n \<le> limit then Some (unat n, r) else None | None \<Rightarrow> None) \<rparr>"

lemma small_word_bit:
  assumes "unat x < 2 ^ k" "k \<le> n"
  shows "\<not> bit (x :: 'a :: len word) n"
proof -
  have "unat x < 2 ^ n" using assms by (meson order_less_le_trans power_increasing one_le_numeral)
  then have "\<not> bit (unat x) n" by (simp add: bit_iff_odd)
  then show ?thesis by (simp add: bit_unsigned_iff)
qed

lemma head_octet:
  assumes "unat (major :: u8) < 8" "unat (x :: u8) < 32"
  shows "drop_bit 5 (push_bit 5 major OR x) = major" "(push_bit 5 major OR x) AND 31 = x"
proof -
  have m: "3 \<le> n \<Longrightarrow> \<not> bit major n" and x: "5 \<le> n \<Longrightarrow> \<not> bit x n" for n
    using small_word_bit[of major 3 n] small_word_bit[of x 5 n] assms by simp_all
  have m': "bit major n \<Longrightarrow> n < 3" for n using m[of n] by (meson not_le)
  show "drop_bit 5 (push_bit 5 major OR x) = major"
    by (rule bit_word_eqI) (use m' x in \<open>auto simp: bit_simps\<close>)
  have x': "bit x n \<Longrightarrow> n < 5" for n using x[of n] by (meson not_le)
  have "(31 :: u8) = mask 5" by (simp add: mask_eq_exp_minus_1)
  then have "(push_bit 5 major OR x) AND 31 = (push_bit 5 major OR x) AND mask 5" by simp
  also have "\<dots> = x"
    by (rule bit_word_eqI) (use x' in \<open>auto simp: bit_and_iff bit_or_iff bit_mask_iff bit_push_bit_iff simp del: mask_Suc_exp\<close>)
  finally show "(push_bit 5 major OR x) AND 31 = x" .
qed

lemma be_value_wide:
  "(n :: u64) < 0x100 \<Longrightarrow> be_value [ucast n] = n"
  "n < 0x10000 \<Longrightarrow> be_value (be16 (ucast n)) = n"
  "n < 0x100000000 \<Longrightarrow> be_value (be32 (ucast n)) = n"
proof -
  have b: "unat n < 2 ^ k \<Longrightarrow> bit n i \<Longrightarrow> i < k" for k i
    using small_word_bit[of n k i] by (meson not_le)
  show "n < 0x100 \<Longrightarrow> be_value [ucast n] = n"
    using b[of 8] by (simp add: be_value_def word_less_nat_alt) (rule bit_word_eqI, auto simp: bit_simps)
  show "n < 0x10000 \<Longrightarrow> be_value (be16 (ucast n)) = n"
    using b[of 16] by (simp add: be_value_def foldl_be16 word_less_nat_alt) (rule bit_word_eqI, auto simp: bit_simps)
  show "n < 0x100000000 \<Longrightarrow> be_value (be32 (ucast n)) = n"
    using b[of 32] by (simp add: be_value_def foldl_be32 word_less_nat_alt) (rule bit_word_eqI, auto simp: bit_simps)
qed

lemma small_octet:
  assumes "(n :: u64) < 24"
  shows "unat (ucast n :: u8) < 32" "(ucast n :: u8) < 24" "ucast (ucast n :: u8) = n"
proof -
  have n: "unat n < 24" using assms by (simp add: word_less_nat_alt)
  then have u: "unat (ucast n :: u8) = unat n" by (simp add: unsigned_ucast_eq take_bit_nat_eq_self)
  show "unat (ucast n :: u8) < 32" "(ucast n :: u8) < 24" using n u by (simp_all add: word_less_nat_alt)
  show "ucast (ucast n :: u8) = n"
    using u by (metis unat_ucast_u8_u64 word_unat_eq_iff)
qed

lemma cbor_unhead_head:
  assumes "unat major < 8"
  shows "cbor_unhead major (cbor_head major n @ r) = Some (n, r)"
proof -
  consider "n < 24" | "\<not> n < 24" "n < 0x100" | "\<not> n < 24" "\<not> n < 0x100" "n < 0x10000" |
    "\<not> n < 24" "\<not> n < 0x100" "\<not> n < 0x10000" "n < 0x100000000" |
    "\<not> n < 24" "\<not> n < 0x100" "\<not> n < 0x10000" "\<not> n < 0x100000000" by blast
  then show ?thesis
  proof cases
    case 1
    then show ?thesis
      using small_octet[OF 1] head_octet[OF assms small_octet(1)[OF 1]]
      by (simp add: cbor_head_def Let_def word_less_nat_alt del: drop_bit_or)
  next
    case 2
    then show ?thesis
      using head_octet[OF assms, of 24] by (simp del: drop_bit_or add: cbor_head_def Let_def be_value_wide(1))
  next
    case 3
    then show ?thesis
      using head_octet[OF assms, of 25] by (simp del: drop_bit_or add: cbor_head_def Let_def be_value_wide(2))
  next
    case 4
    then show ?thesis
      using head_octet[OF assms, of 26] by (simp del: drop_bit_or add: cbor_head_def Let_def be_value_wide(3))
  next
    case 5
    then show ?thesis
      using head_octet[OF assms, of 27] by (simp del: drop_bit_or add: cbor_head_def Let_def)
  qed
qed

lemma length_cbor_head: "length (cbor_head major n) \<le> (if n < 24 then 1 else 9)"
  by (simp add: cbor_head_def)

lemma cbor_unhead_other:
  assumes "unat major < 8" "unat major' < 8" "major \<noteq> major'"
  shows "cbor_unhead major' (cbor_head major n @ r) = None"
proof -
  have "drop_bit 5 (hd (cbor_head major n)) = major \<and> cbor_head major n \<noteq> []"
    using head_octet(1)[OF assms(1)] small_octet(1)[of n] by (auto simp: cbor_head_def simp del: drop_bit_or)
  then show ?thesis using assms(3) by (cases "cbor_head major n") auto
qed

lemma cbor_unhead_consumes: "cbor_unhead major bs = Some (v, r) \<Longrightarrow> \<exists>p. bs = p @ r"
proof (cases bs)
  case (Cons b t)
  assume "cbor_unhead major bs = Some (v, r)"
  then have "\<exists>k. r = drop k t" using Cons by (auto simp: Let_def split: if_splits intro: exI[of _ 0])
  then obtain k where "r = drop k t" by blast
  then have "bs = (b # take k t) @ r" using Cons by simp
  then show ?thesis by blast
qed simp

lemma unzigzag_zigzag:
  assumes "- (2 ^ 63) \<le> i" "i < 2 ^ 63"
  shows "unzigzag (zigzag i @ r) = Some (i, r)"
proof -
  have u: "0 \<le> j \<Longrightarrow> j < 2 ^ 64 \<Longrightarrow> uint (word_of_int j :: u64) = j" for j
    by (simp add: unsigned_of_int take_bit_int_eq_self)
  show ?thesis
  proof (cases "i \<ge> 0")
    case True
    then show ?thesis using u[of i] assms cbor_unhead_head[of 0] by (simp add: unzigzag_def zigzag_def)
  next
    case False
    define w where "w = (word_of_int (- i - 1) :: u64)"
    have w: "uint w = - i - 1" unfolding w_def using False assms by (intro u) simp_all
    show ?thesis
      using False cbor_unhead_head[of 1 w r] cbor_unhead_other[of 1 0 w r] w
      unfolding zigzag_def w_def[symmetric] by (simp add: unzigzag_def)
  qed
qed

lemma length_cbor_head_9: "length (cbor_head m v) \<le> 9"
  using length_cbor_head[of m v] by (simp split: if_splits)

lemma length_zigzag: "length (zigzag i) \<le> 9"
  by (simp add: zigzag_def length_cbor_head_9)

lemma rfc8949_ok: "cbor_ok rfc8949"
proof -
  have n: "unat (word_of_nat n :: u64) = n" if "n < 2 ^ 64" for n using that by (simp add: unsigned_of_nat take_bit_nat_eq_self)
  have l1: "v < 24 \<Longrightarrow> length (cbor_head m v) \<le> Suc 0" for m v using length_cbor_head[of m v] by simp
  show ?thesis
    unfolding cbor_ok_def
    by (simp add: rfc8949_def cbor_unhead_head n unzigzag_zigzag length_cbor_head_9 l1 length_zigzag)
qed

lemma rfc8949_consumes: "cbor_consumes rfc8949"
  unfolding cbor_consumes_def
  by (auto simp: rfc8949_def unzigzag_def split: option.splits if_splits dest: cbor_unhead_consumes)

definition example_frame :: BpshFrame where
  "example_frame = exit_frame 7 2 (-1) BpshCauseKilled"

lemma example_sendable: "sendable example_frame" "needed example_frame = 64"
  by (simp_all add: example_frame_def exit_frame_def ctl_frame_def empty_frame_def sendable_def int_range_def BPSH_VERSION_def
      needed_def BPSH_FRAME_OVERHEAD_def)

theorem bpsh_frame_round_trip_witness:
  "\<exists>bs. bpsh_encode rfc8949 (Some example_frame) 64 = (bs, int (length bs)) \<and> length bs \<le> 64 \<and>
    bpsh_decode rfc8949 (bs @ [1, 2]) empty_frame = (int (length bs), carried example_frame)"
  by (rule bpsh_frame_round_trip[OF rfc8949_ok example_sendable(1)]) (simp_all add: example_sendable)

theorem bpsh_decode_within_witness: "within [0x85, 1, 3, 7, 0, 0x41, 0x6c] (bpsh_decode rfc8949 [0x85, 1, 3, 7, 0, 0x41, 0x6c] empty_frame)"
  by (rule bpsh_decode_within[OF rfc8949_consumes]) simp

definition all_well :: SendAnswers where
  "all_well = \<lparr>s_mem = True, s_begin = 0, s_object = 1, s_end = 0, s_zco = True, s_sent = 1, s_begin2 = 0\<rparr>"

theorem bpsh_send_frame_clean_witness:
  "calls_of Mrelease (snd (bpsh_send_frame rfc8949 all_well (Some [1]) (Some example_frame))) = 1 \<and>
   fst (bpsh_send_frame rfc8949 all_well (Some [1]) (Some example_frame)) = 0"
  using bpsh_send_frame_clean[OF rfc8949_ok example_sendable(1), of all_well "[1]"] by (simp add: all_well_def)


end
