(* ===== verification/BpshdSession.thy ===== *)
theory BpshdSession
  imports BpshProto
begin

unbundle bit_operations_syntax

text \<open>
  One shell session of bpshd (APP/bpsh/src/bpshd_session.c): running a command line, streaming its
  output, servicing the bundles that arrive meanwhile.

  What the operating system and BP answer is an argument.  A command is a list of \<open>Turn\<close>s, the passes of
  the loop around \<open>select\<close>; \<open>None\<close> means that the list is used up and the command goes on.  A session
  runs in a \<open>World\<close> that has the answers to its sends (\<open>w_ok\<close>: one per send, none left means that it
  succeeds) and keeps what it has done: the frames sent, the octets written to the shell and to the
  command's stdin, the kills, and the bundles handed to the daemon.  Forking the shell and reaping it
  are not modelled beyond the fields they set.

  The lemmas show that the output of a command goes out in order, in frames of bounded size whose
  sequence numbers have no gap as long as sends succeed, that the command line the shell gets fits its
  buffer, and what may interrupt a command.
\<close>

section \<open>Model: the session\<close>

definition BPSHD_OUTPUT_LIMIT :: nat where "BPSHD_OUTPUT_LIMIT = 16 * 1024 * 1024"
definition BPSHD_READ_CHUNK :: nat where "BPSHD_READ_CHUNK = 16 * 1024"
definition BPSHD_MAX_PAYLOAD :: nat where "BPSHD_MAX_PAYLOAD = 16 * 1024"
definition BPSHD_CMD_TIMEOUT_MS :: int where "BPSHD_CMD_TIMEOUT_MS = 300 * 1000"
definition BPSHD_IDLE_TIMEOUT_S :: int where "BPSHD_IDLE_TIMEOUT_S = 24 * 60 * 60"

text \<open>A file descriptor that is closed is \<open>False\<close>.\<close>

record BpshSession =
  q_sourceEid :: bytes
  q_sessionId :: u64
  q_shellPid :: int
  q_userStdinFd :: bool
  q_ctlFd :: bool
  q_userStdinReq :: bool
  q_replySeq :: u64
  q_shellAlive :: bool
  q_lastActivity :: int

record World =
  w_ok :: "bool list"
  w_sent :: "(bytes \<times> BpshFrame) list"
  w_shell :: bytes
  w_stdin :: bytes
  w_kills :: "int list"
  w_deferred :: "(bytes \<times> bytes) list"

text \<open>\<open>bpsh_send_frame\<close> to the client, with what it answers.\<close>

definition send_out :: "bytes \<Rightarrow> BpshFrame \<Rightarrow> World \<Rightarrow> int \<times> World" where
  "send_out eid f w =
     (case w_ok w of
        [] \<Rightarrow> (0, w \<lparr> w_sent := w_sent w @ [(eid, f)] \<rparr>)
      | ok # oks \<Rightarrow>
          if ok then (0, w \<lparr> w_ok := oks, w_sent := w_sent w @ [(eid, f)] \<rparr>)
          else (-1, w \<lparr> w_ok := oks \<rparr>))"

definition bpshSessionOpen :: "bytes \<Rightarrow> u64 \<Rightarrow> bool \<Rightarrow> int \<Rightarrow> int \<Rightarrow> BpshSession" where
  "bpshSessionOpen sourceEid sessionId wantStdin pid now =
     \<lparr>q_sourceEid = sourceEid, q_sessionId = sessionId, q_shellPid = pid, q_userStdinFd = wantStdin, q_ctlFd = True,
      q_userStdinReq = wantStdin, q_replySeq = 0, q_shellAlive = True, q_lastActivity = now\<rparr>"

text \<open>\<open>path\<close> is what \<open>readlink\<close> finds under either name, \<open>None\<close> when neither can be read.\<close>

definition bpshSessionSendCwd :: "bytes option \<Rightarrow> BpshSession \<Rightarrow> World \<Rightarrow> BpshSession \<times> World" where
  "bpshSessionSendCwd path s w =
     (case path of
        None \<Rightarrow> (s, w)
      | Some path \<Rightarrow>
          (let (rc, w) = send_out (q_sourceEid s) (bytes_frame BpshMsgCwd (q_sessionId s) (q_replySeq s) path) w
           in (s \<lparr> q_replySeq := q_replySeq s + 1 \<rparr>, w)))"

section \<open>Model: output\<close>

function send_loop :: "u32 \<Rightarrow> bytes \<Rightarrow> BpshSession \<Rightarrow> World \<Rightarrow> int \<times> BpshSession \<times> World" where
  "send_loop type buf s w =
     (if buf = [] then (0, s, w)
      else
        (let n = min (length buf) BPSHD_MAX_PAYLOAD;
             (rc, w) = send_out (q_sourceEid s) (bytes_frame type (q_sessionId s) (q_replySeq s) (take n buf)) w
         in if rc < 0 then (-1, s, w)
            else send_loop type (drop n buf) (s \<lparr> q_replySeq := q_replySeq s + 1 \<rparr>) w))"
  by pat_completeness auto
termination
  by (relation "measure (\<lambda>(type, buf, s, w). length buf)") (auto simp: BPSHD_MAX_PAYLOAD_def)

declare send_loop.simps [simp del]

definition sendStream :: "u32 \<Rightarrow> bytes \<Rightarrow> BpshSession \<Rightarrow> World \<Rightarrow> int \<times> BpshSession \<times> World" where
  "sendStream type buf s w = send_loop type buf s w"

text \<open>What a \<open>read\<close> answers.\<close>

datatype ReadResult = Octets bytes | EndOfFile | Again | ReadError

text \<open>The reads of a drain; \<open>None\<close>: the list of answers is used up.\<close>

fun drainStream :: "ReadResult list \<Rightarrow> u32 \<Rightarrow> BpshSession \<Rightarrow> World \<Rightarrow> (int \<times> BpshSession \<times> World) option" where
  "drainStream [] type s w = None"
| "drainStream (Octets chunk # reads) type s w =
     (if chunk = [] then Some (0, s, w)
      else
        (let (rc, s, w) = sendStream type chunk s w
         in if rc < 0 then Some (-1, s, w) else drainStream reads type s w))"
| "drainStream (_ # reads) type s w = Some (0, s, w)"

section \<open>Model: bundles that arrive while a command runs\<close>

datatype Poll =
    PollFatal
  | PollNone
  | PollSkip
  | PollFrame BpshFrame bytes bytes

text \<open>A frame belongs to the session: its identifier and its source.\<close>

definition is_mine :: "BpshSession \<Rightarrow> BpshFrame \<Rightarrow> bytes \<Rightarrow> bool" where
  "is_mine s f src \<longleftrightarrow> f_sessionId f = q_sessionId s \<and> src = q_sourceEid s"

text \<open>The payload that a decoded frame points to.\<close>

definition payload_of :: "BpshFrame \<Rightarrow> bytes" where
  "payload_of f = (case f_payload f of None \<Rightarrow> [] | Some p \<Rightarrow> p)"

text \<open>\<open>epipe\<close>: the command has closed its stdin, so \<open>writeAll\<close> fails.  The list of what arrives ends when
  nothing is left.\<close>

fun pollIncoming :: "bool \<Rightarrow> bool \<Rightarrow> Poll list \<Rightarrow> BpshSession \<Rightarrow> World \<Rightarrow> int \<times> BpshSession \<times> World" where
  "pollIncoming running epipe [] s w = (if running then (0, s, w) else (-1, s, w))"
| "pollIncoming running epipe (p # ps) s w =
     (if \<not> running then (-1, s, w)
      else
        (case p of
           PollFatal \<Rightarrow> (-1, s, w)
         | PollNone \<Rightarrow> (0, s, w)
         | PollSkip \<Rightarrow> pollIncoming running epipe ps s w
         | PollFrame f bs src \<Rightarrow>
             if is_mine s f src \<and> f_msgType f = BpshMsgStdinChunk then
               (if q_userStdinFd s \<and> f_payloadLen f > 0 then
                  (if epipe then pollIncoming running epipe ps (s \<lparr> q_userStdinFd := False \<rparr>) w
                   else pollIncoming running epipe ps s (w \<lparr> w_stdin := w_stdin w @ payload_of f \<rparr>))
                else pollIncoming running epipe ps s w)
             else if is_mine s f src \<and> f_msgType f = BpshMsgStdinEof then
               pollIncoming running epipe ps (s \<lparr> q_userStdinFd := False \<rparr>) w
             else
               (let w = (if f_msgType f = BpshMsgInit \<and> src = q_sourceEid s \<and> q_shellPid s > 0
                         then w \<lparr> w_kills := w_kills w @ [- q_shellPid s] \<rparr> else w)
                in pollIncoming running epipe ps s (w \<lparr> w_deferred := w_deferred w @ [(bs, src)] \<rparr>))))"

section \<open>Model: running a command\<close>

definition killSession :: "u32 \<Rightarrow> BpshSession \<Rightarrow> World \<Rightarrow> u32 \<times> BpshSession \<times> World" where
  "killSession why s w =
     (why, s \<lparr> q_shellAlive := False \<rparr>,
      if q_shellPid s > 0 then w \<lparr> w_kills := w_kills w @ [- q_shellPid s] \<rparr> else w)"

text \<open>What the shell is told to run.\<close>

definition postscript :: "bool \<Rightarrow> bytes \<Rightarrow> bytes" where
  "postscript userStdinReq cmdline =
     (if userStdinReq then ascii ''( '' else ascii ''{ '') @ cmdline @
     (if userStdinReq then ascii '' ) <&3 4>&-'' else ascii '' ; } <&3 4>&-'') @ [10] @
     ascii ''__bpsh_rc=$?'' @ [10] @
     ascii ''echo '' @ [34] @ ascii ''$__bpsh_rc'' @ [34] @ ascii '' >&4'' @ [10] @
     ascii ''(exit $__bpsh_rc)'' @ [10]"

datatype Select = Ready | Interrupted | SelectError

text \<open>A pass of the loop: \<open>select\<close>, the clock, the descriptors that are ready with what reading them
  gives, whether the daemon still runs, and the bundles that have arrived.\<close>

record Turn =
  t_select :: Select
  t_now :: int
  t_out :: "ReadResult option"
  t_err :: "ReadResult option"
  t_ctl :: "ReadResult option"
  t_running :: bool
  t_epipe :: bool
  t_polls :: "Poll list"

record RunState =
  v_session :: BpshSession
  v_world :: World
  v_outEof :: bool
  v_errEof :: bool
  v_ctlBuf :: bytes
  v_totalOut :: nat
  v_exitCode :: int
  v_cause :: u32

text \<open>Reading one of the two streams.\<close>

definition stream_read :: "u32 \<Rightarrow> ReadResult option \<Rightarrow> bool \<Rightarrow> RunState \<Rightarrow> bool \<times> RunState" where
  "stream_read type r eof st =
     (case r of
        None \<Rightarrow> (eof, st)
      | Some (Octets chunk) \<Rightarrow>
          if chunk = [] then (True, st)
          else
            (let (rc, s, w) = sendStream type chunk (v_session st) (v_world st)
             in (eof, st \<lparr> v_session := s, v_world := w, v_totalOut := v_totalOut st + length chunk \<rparr>))
      | Some EndOfFile \<Rightarrow> (True, st)
      | Some Again \<Rightarrow> (eof, st)
      | Some ReadError \<Rightarrow> (True, st))"

text \<open>\<open>strtol\<close> in base 10 of the line, narrowed to \<open>int\<close>.\<close>

definition exit_code :: "(bytes \<Rightarrow> int) \<Rightarrow> bytes \<Rightarrow> int" where
  "exit_code strtol ctlBuf = sint (word_of_int (strtol ctlBuf) :: 32 word)"

text \<open>Reading the control descriptor into \<open>ctlBuf[32]\<close>; \<open>True\<close> when the line with the exit code is there.\<close>

definition ctl_read :: "(bytes \<Rightarrow> int) \<Rightarrow> ReadResult option \<Rightarrow> RunState \<Rightarrow> bool \<times> RunState" where
  "ctl_read strtol r st =
     (case r of
        Some (Octets r) \<Rightarrow>
          (let r = take (31 - length (v_ctlBuf st)) r
           in if r = [] then (False, st \<lparr> v_session := v_session st \<lparr> q_ctlFd := False \<rparr> \<rparr>)
              else
                (let ctlBuf = v_ctlBuf st @ r
                 in if 10 \<in> set ctlBuf then (True, st \<lparr> v_ctlBuf := ctlBuf, v_exitCode := exit_code strtol ctlBuf \<rparr>)
                    else (False, st \<lparr> v_ctlBuf := ctlBuf \<rparr>)))
      | Some EndOfFile \<Rightarrow> (False, st \<lparr> v_session := v_session st \<lparr> q_ctlFd := False \<rparr> \<rparr>)
      | _ \<Rightarrow> (False, st))"

text \<open>One pass; \<open>True\<close> when the loop is left.\<close>

definition after_streams :: "(bytes \<Rightarrow> int) \<Rightarrow> Turn \<Rightarrow> RunState \<Rightarrow> bool \<times> RunState" where
  "after_streams strtol t st =
     (if v_totalOut st > BPSHD_OUTPUT_LIMIT then
        (let (cause, s, w) = killSession BpshCauseOutputLimit (v_session st) (v_world st)
         in (True, st \<lparr> v_cause := cause, v_session := s, v_world := w \<rparr>))
      else
        (let (found, st) = ctl_read strtol (if q_ctlFd (v_session st) then t_ctl t else None) st
         in if found then (True, st)
            else if v_outEof st \<and> v_errEof st then
              (True, st \<lparr> v_session := v_session st \<lparr> q_shellAlive := False \<rparr>, v_cause := BpshCauseKilled \<rparr>)
            else
              (let (rc, s, w) = pollIncoming (t_running t) (t_epipe t) (t_polls t) (v_session st) (v_world st)
               in (False, st \<lparr> v_session := s, v_world := w \<rparr>))))"

definition run_turn :: "(bytes \<Rightarrow> int) \<Rightarrow> int \<Rightarrow> int \<Rightarrow> Turn \<Rightarrow> RunState \<Rightarrow> bool \<times> RunState" where
  "run_turn strtol timeout cmdStartMs t st =
     (case t_select t of
        Interrupted \<Rightarrow> (False, st)
      | SelectError \<Rightarrow>
          (True, st \<lparr> v_session := v_session st \<lparr> q_shellAlive := False \<rparr>, v_cause := BpshCauseKilled \<rparr>)
      | Ready \<Rightarrow>
          if timeout > 0 \<and> t_now t - cmdStartMs \<ge> timeout then
            (let (cause, s, w) = killSession BpshCauseTimeout (v_session st) (v_world st)
             in (True, st \<lparr> v_cause := cause, v_session := s, v_world := w \<rparr>))
          else
            (let (e, st) = stream_read BpshMsgStdout (t_out t) (v_outEof st) st;
                 st = st \<lparr> v_outEof := e \<rparr>;
                 (e, st) = stream_read BpshMsgStderr (t_err t) (v_errEof st) st
             in after_streams strtol t (st \<lparr> v_errEof := e \<rparr>)))"

fun run_loop :: "(bytes \<Rightarrow> int) \<Rightarrow> int \<Rightarrow> int \<Rightarrow> Turn list \<Rightarrow> RunState \<Rightarrow> RunState option" where
  "run_loop strtol timeout cmdStartMs [] st = None"
| "run_loop strtol timeout cmdStartMs (t # ts) st =
     (let (left, st) = run_turn strtol timeout cmdStartMs t st
      in if left then Some st else run_loop strtol timeout cmdStartMs ts st)"

text \<open>What else the environment answers to a run: the clock, the allocation of the postscript, whether the
  shell takes it, what draining the pipes reads and the working directory.\<close>

record RunEnv =
  e_now :: int
  e_nowMs :: int
  e_mem :: bool
  e_written :: bool
  e_timeout :: int
  e_strtol :: "bytes \<Rightarrow> int"
  e_turns :: "Turn list"
  e_drainOut :: "ReadResult list"
  e_drainErr :: "ReadResult list"
  e_cwd :: "bytes option"

definition send_exit :: "int \<Rightarrow> u32 \<Rightarrow> BpshSession \<Rightarrow> World \<Rightarrow> int \<times> BpshSession \<times> World" where
  "send_exit code cause s w =
     (let (rc, w) = send_out (q_sourceEid s) (exit_frame (q_sessionId s) (q_replySeq s) code cause) w
      in (rc, s \<lparr> q_replySeq := q_replySeq s + 1 \<rparr>, w))"

definition run_finish :: "RunEnv \<Rightarrow> RunState \<Rightarrow> (int \<times> BpshSession \<times> World) option" where
  "run_finish env st =
     (case drainStream (e_drainOut env) BpshMsgStdout (v_session st) (v_world st) of
        None \<Rightarrow> None
      | Some (_, s, w) \<Rightarrow>
          (case drainStream (e_drainErr env) BpshMsgStderr s w of
             None \<Rightarrow> None
           | Some (_, s, w) \<Rightarrow>
               (let (s, w) = (if q_shellAlive s then bpshSessionSendCwd (e_cwd env) s w else (s, w))
                in Some (send_exit (v_exitCode st) (v_cause st) s w))))"

definition bpshSessionRun :: "RunEnv \<Rightarrow> bytes \<Rightarrow> BpshSession \<Rightarrow> World \<Rightarrow> (int \<times> BpshSession \<times> World) option" where
  "bpshSessionRun env cmdline s w =
     (let s = s \<lparr> q_lastActivity := e_now env \<rparr>;
          postCap = length cmdline + 256
      in if \<not> e_mem env then Some (send_exit (-1) BpshCauseKilled s w)
         else
           (let post = postscript (q_userStdinReq s) cmdline
            in if length post \<ge> postCap \<or> \<not> e_written env
               then Some (send_exit (-1) BpshCauseKilled (s \<lparr> q_shellAlive := False \<rparr>) w)
               else
                 (case run_loop (e_strtol env) (e_timeout env) (e_nowMs env) (e_turns env)
                    \<lparr>v_session = s, v_world = w \<lparr> w_shell := w_shell w @ post \<rparr>, v_outEof = False, v_errEof = False,
                     v_ctlBuf = [], v_totalOut = 0, v_exitCode = 0, v_cause = BpshCauseNormal\<rparr> of
                    None \<Rightarrow> None
                  | Some st \<Rightarrow> run_finish env st)))"

definition bpshSessionExpired :: "int \<Rightarrow> int \<Rightarrow> BpshSession \<Rightarrow> bool" where
  "bpshSessionExpired limit now s = (if limit \<le> 0 then False else now - q_lastActivity s \<ge> limit)"

text \<open>\<open>getenv\<close> and \<open>atol\<close>.\<close>

definition cmdTimeoutMs :: "int option \<Rightarrow> int" where
  "cmdTimeoutMs e = (case e of None \<Rightarrow> BPSHD_CMD_TIMEOUT_MS | Some secs \<Rightarrow> secs * 1000)"

definition idleTimeoutSecs :: "int option \<Rightarrow> int" where
  "idleTimeoutSecs e = (case e of None \<Rightarrow> BPSHD_IDLE_TIMEOUT_S | Some secs \<Rightarrow> secs)"

definition bpshSessionNextSeq :: "BpshSession \<Rightarrow> u64 \<times> BpshSession" where
  "bpshSessionNextSeq s = (q_replySeq s, s \<lparr> q_replySeq := q_replySeq s + 1 \<rparr>)"


section \<open>What a session sends\<close>

text \<open>Frames of the session, numbered one after the other from \<open>n\<close> on.\<close>

fun numbered :: "u64 \<Rightarrow> u64 \<Rightarrow> BpshFrame list \<Rightarrow> bool" where
  "numbered sid n [] = True"
| "numbered sid n (f # fs) \<longleftrightarrow> f_sessionId f = sid \<and> f_seqNum f = n \<and> numbered sid (n + 1) fs"

lemma numbered_append [simp]:
  "numbered sid n (fs @ gs) \<longleftrightarrow> numbered sid n fs \<and> numbered sid (n + word_of_nat (length fs)) gs"
  by (induction fs arbitrary: n) (auto simp: add.assoc)

definition octets_of :: "u32 \<Rightarrow> BpshFrame list \<Rightarrow> bytes" where
  "octets_of type fs = concat (map payload_of (filter (\<lambda>f. f_msgType f = type) fs))"

lemma octets_of_simps [simp]:
  "octets_of type [] = []"
  "octets_of type (f # fs) = (if f_msgType f = type then payload_of f else []) @ octets_of type fs"
  "octets_of type (fs @ gs) = octets_of type fs @ octets_of type gs"
  by (simp_all add: octets_of_def)

definition frame_ok :: "BpshFrame \<Rightarrow> bool" where
  "frame_ok f \<longleftrightarrow> f_version f = BPSH_VERSION \<and> length (payload_of f) \<le> BPSHD_MAX_PAYLOAD"

text \<open>From \<open>(s, w)\<close> to \<open>(s', w')\<close> the session has sent \<open>fs\<close>, and every send has succeeded.\<close>

definition sends :: "BpshSession \<Rightarrow> World \<Rightarrow> BpshSession \<Rightarrow> World \<Rightarrow> BpshFrame list \<Rightarrow> bool" where
  "sends s w s' w' fs \<longleftrightarrow>
     w_ok w' = [] \<and> w_sent w' = w_sent w @ map (Pair (q_sourceEid s)) fs \<and>
     q_sourceEid s' = q_sourceEid s \<and> q_sessionId s' = q_sessionId s \<and>
     q_replySeq s' = q_replySeq s + word_of_nat (length fs) \<and> numbered (q_sessionId s) (q_replySeq s) fs"

lemma sends_refl: "w_ok w = [] \<Longrightarrow> sends s w s w []"
  by (simp add: sends_def)

lemma sends_trans: "sends s w s1 w1 fs \<Longrightarrow> sends s1 w1 s2 w2 gs \<Longrightarrow> sends s w s2 w2 (fs @ gs)"
  by (simp add: sends_def add.assoc)

text \<open>What a change of other fields leaves of it.\<close>

lemma sends_cong:
  "sends s w s1 w1 fs \<Longrightarrow> w_ok w2 = w_ok w1 \<Longrightarrow> w_sent w2 = w_sent w1 \<Longrightarrow> q_sourceEid s2 = q_sourceEid s1 \<Longrightarrow>
   q_sessionId s2 = q_sessionId s1 \<Longrightarrow> q_replySeq s2 = q_replySeq s1 \<Longrightarrow> sends s w s2 w2 fs"
  by (simp add: sends_def)

lemma sends_idle:
  "w_ok w = [] \<Longrightarrow> w_ok w' = [] \<Longrightarrow> w_sent w' = w_sent w \<Longrightarrow> q_sourceEid s' = q_sourceEid s \<Longrightarrow>
   q_sessionId s' = q_sessionId s \<Longrightarrow> q_replySeq s' = q_replySeq s \<Longrightarrow> sends s w s' w' []"
  by (simp add: sends_def)

lemma sends_w_ok: "sends s w s' w' fs \<Longrightarrow> w_ok w' = []"
  by (simp add: sends_def)

lemma send_out_ok: "w_ok w = [] \<Longrightarrow> send_out eid f w = (0, w \<lparr> w_sent := w_sent w @ [(eid, f)] \<rparr>)"
  by (simp add: send_out_def)

lemma sends_one:
  assumes "w_ok w = []" "f_sessionId f = q_sessionId s" "f_seqNum f = q_replySeq s"
  shows "sends s w (s \<lparr> q_replySeq := q_replySeq s + 1 \<rparr>) (w \<lparr> w_sent := w_sent w @ [(q_sourceEid s, f)] \<rparr>) [f]"
  using assms by (simp add: sends_def)

lemma frame_fields [simp]:
  "f_sessionId (bytes_frame type sid seq b) = sid" "f_seqNum (bytes_frame type sid seq b) = seq"
  "f_msgType (bytes_frame type sid seq b) = type" "payload_of (bytes_frame type sid seq b) = b"
  "f_payloadLen (bytes_frame type sid seq b) = length b" "f_version (bytes_frame type sid seq b) = BPSH_VERSION"
  "f_sessionId (exit_frame sid seq code cause) = sid" "f_seqNum (exit_frame sid seq code cause) = seq"
  "f_msgType (exit_frame sid seq code cause) = BpshMsgExit" "payload_of (exit_frame sid seq code cause) = []"
  "f_exitCode (exit_frame sid seq code cause) = code" "f_exitCause (exit_frame sid seq code cause) = cause"
  "f_version (exit_frame sid seq code cause) = BPSH_VERSION"
  by (simp_all add: bytes_frame_def exit_frame_def ctl_frame_def payload_of_def empty_frame_def)

text \<open>The frames of a stream carry its octets, in order, in pieces of bounded size.\<close>

definition carries :: "u32 \<Rightarrow> bytes \<Rightarrow> BpshFrame list \<Rightarrow> bool" where
  "carries type b fs \<longleftrightarrow> (\<forall>f \<in> set fs. f_msgType f = type \<and> frame_ok f) \<and> octets_of type fs = b"

lemma carries_Nil [simp]: "carries type [] []"
  by (simp add: carries_def)

lemma carries_append: "carries type a fs \<Longrightarrow> carries type b gs \<Longrightarrow> carries type (a @ b) (fs @ gs)"
  by (auto simp: carries_def)

lemma carries_other: "carries type b fs \<Longrightarrow> type' \<noteq> type \<Longrightarrow> octets_of type' fs = []"
  by (induction fs arbitrary: b) (auto simp: carries_def octets_of_def)

lemma sendStream_carries:
  "w_ok w = [] \<Longrightarrow> \<exists>s' w' fs. sendStream type b s w = (0, s', w') \<and> sends s w s' w' fs \<and> carries type b fs \<and>
     q_shellAlive s' = q_shellAlive s \<and> s' = s \<lparr> q_replySeq := q_replySeq s' \<rparr> \<and> w' = w \<lparr> w_sent := w_sent w' \<rparr>"
  unfolding sendStream_def
proof (induction type b s w rule: send_loop.induct)
  case (1 type b s w)
  show ?case
  proof (cases "b = []")
    case True
    then show ?thesis using 1(2) by (simp add: send_loop.simps sends_refl) (metis carries_Nil sends_refl)
  next
    case False
    let ?n = "min (length b) BPSHD_MAX_PAYLOAD"
    let ?f = "bytes_frame type (q_sessionId s) (q_replySeq s) (take ?n b)"
    let ?s = "s \<lparr> q_replySeq := q_replySeq s + 1 \<rparr>" and ?w = "w \<lparr> w_sent := w_sent w @ [(q_sourceEid s, ?f)] \<rparr>"
    obtain s' w' fs where r: "send_loop type (drop ?n b) ?s ?w = (0, s', w')" "sends ?s ?w s' w' fs"
      "carries type (drop ?n b) fs" "s' = ?s \<lparr> q_replySeq := q_replySeq s' \<rparr>" "w' = ?w \<lparr> w_sent := w_sent w' \<rparr>"
      using 1(1)[OF False refl send_out_ok[OF 1(2), symmetric] refl] 1(2) by (auto simp: send_out_ok)
    have one: "sends s w ?s ?w [?f]" by (rule sends_one[OF 1(2)]) simp_all
    have "carries type (take ?n b) [?f]" by (simp add: carries_def frame_ok_def)
    then have c: "carries type b (?f # fs)" using carries_append[of type "take ?n b" "[?f]" "drop ?n b" fs] r(3) by simp
    have "send_loop type b s w = (0, s', w')"
      using False r(1) by (subst send_loop.simps) (simp add: send_out_ok[OF 1(2)])
    moreover have "q_shellAlive s' = q_shellAlive s" "s' = s \<lparr> q_replySeq := q_replySeq s' \<rparr>" "w' = w \<lparr> w_sent := w_sent w' \<rparr>"
      by (subst r(4), simp, subst r(4), simp, subst r(5), simp)
    ultimately show ?thesis using c sends_trans[OF one r(2)] by auto
  qed
qed


definition chunk_of :: "ReadResult option \<Rightarrow> bytes" where
  "chunk_of r = (case r of Some (Octets c) \<Rightarrow> c | _ \<Rightarrow> [])"

fun drained :: "ReadResult list \<Rightarrow> bytes" where
  "drained (Octets c # rs) = (if c = [] then [] else c @ drained rs)"
| "drained _ = []"

lemma drainStream_carries:
  "w_ok w = [] \<Longrightarrow> drainStream reads type s w = Some (rc, s', w') \<Longrightarrow>
   \<exists>fs. sends s w s' w' fs \<and> carries type (drained reads) fs \<and> q_shellAlive s' = q_shellAlive s"
proof (induction reads type s w rule: drainStream.induct)
  case (2 c reads type s w)
  show ?case
  proof (cases "c = []")
    case True
    then show ?thesis using 2(2,3) sends_refl by fastforce
  next
    case False
    obtain s1 w1 fs where r: "sendStream type c s w = (0, s1, w1)" "sends s w s1 w1 fs" "carries type c fs"
      "q_shellAlive s1 = q_shellAlive s" using sendStream_carries[OF 2(2)] by blast
    have d: "drainStream reads type s1 w1 = Some (rc, s', w')" using 2(3) False r(1) by simp
    obtain gs where "sends s1 w1 s' w' gs" "carries type (drained reads) gs" "q_shellAlive s' = q_shellAlive s1"
      using 2(1)[OF False r(1)[symmetric] refl refl _ sends_w_ok[OF r(2)] d] by auto
    then show ?thesis using r False sends_trans carries_append by (intro exI[of _ "fs @ gs"]) auto
  qed
qed (auto intro: exI[of _ "[]"] sends_refl)

text \<open>As long as data keeps coming, a drain does not return.\<close>

lemma drainStream_waits: "c \<noteq> [] \<Longrightarrow> w_ok w = [] \<Longrightarrow> drainStream (replicate n (Octets c)) type s w = None"
proof (induction n arbitrary: s w)
  case (Suc n)
  obtain s1 w1 fs where "sendStream type c s w = (0, s1, w1)" "sends s w s1 w1 fs"
    using sendStream_carries[OF Suc.prems(2)] by blast
  then show ?case using Suc sends_w_ok by simp
qed simp

lemma pollIncoming_silent:
  "pollIncoming running epipe ps s w = (rc, s', w') \<Longrightarrow> w_ok w' = w_ok w \<and> w_sent w' = w_sent w \<and>
   q_sourceEid s' = q_sourceEid s \<and> q_sessionId s' = q_sessionId s \<and> q_replySeq s' = q_replySeq s \<and>
   q_shellAlive s' = q_shellAlive s"
proof (induction ps arbitrary: s w)
  case Nil
  then show ?case by (auto split: if_splits)
next
  case (Cons p ps)
  then show ?case by (cases p) (fastforce simp: Let_def split: if_splits)+
qed

definition of_stream :: "RunState \<Rightarrow> RunState \<Rightarrow> BpshFrame list \<Rightarrow> bool" where
  "of_stream st st' fs \<longleftrightarrow> sends (v_session st) (v_world st) (v_session st') (v_world st') fs"

lemma stream_read_carries:
  assumes "w_ok (v_world st) = []" "stream_read type r eof st = (e, st')"
  shows "\<exists>fs. of_stream st st' fs \<and> carries type (chunk_of r) fs \<and> v_exitCode st' = v_exitCode st \<and> v_cause st' = v_cause st \<and>
     v_ctlBuf st' = v_ctlBuf st \<and> v_totalOut st' = v_totalOut st + length (chunk_of r)"
proof (cases "chunk_of r = []")
  case True
  then have "st' = st" using assms(2) by (auto simp: stream_read_def chunk_of_def split: option.splits ReadResult.splits)
  then show ?thesis using True sends_refl[OF assms(1)] by (intro exI[of _ "[]"]) (simp add: of_stream_def)
next
  case False
  then obtain c where r: "r = Some (Octets c)" "c \<noteq> []" by (auto simp: chunk_of_def split: option.splits ReadResult.splits)
  obtain s w fs where "sendStream type c (v_session st) (v_world st) = (0, s, w)" "sends (v_session st) (v_world st) s w fs"
    "carries type c fs" using sendStream_carries[OF assms(1)] by blast
  then show ?thesis using assms(2) r by (auto simp: stream_read_def of_stream_def chunk_of_def intro!: exI[of _ fs])
qed

lemma after_streams_silent:
  assumes "w_ok (v_world st) = []" "after_streams strtol t st = (left, st')"
  shows "of_stream st st' []"
proof -
  have kill: "w_ok (snd (snd (killSession why s w))) = w_ok w \<and> w_sent (snd (snd (killSession why s w))) = w_sent w \<and>
      fst (snd (killSession why s w)) = s \<lparr> q_shellAlive := False \<rparr>" for why s w by (simp add: killSession_def)
  show ?thesis
  proof (cases "v_totalOut st > BPSHD_OUTPUT_LIMIT")
    case True
    then show ?thesis
      using assms kill[of BpshCauseOutputLimit "v_session st" "v_world st"]
      by (auto simp: after_streams_def of_stream_def case_prod_beta intro!: sends_idle)
  next
    case False
    obtain found st1 where f: "ctl_read strtol (if q_ctlFd (v_session st) then t_ctl t else None) st = (found, st1)" by fastforce
    have st1: "v_world st1 = v_world st" "q_sourceEid (v_session st1) = q_sourceEid (v_session st)"
      "q_sessionId (v_session st1) = q_sessionId (v_session st)" "q_replySeq (v_session st1) = q_replySeq (v_session st)"
      using f by (auto simp: ctl_read_def Let_def split: option.splits ReadResult.splits if_splits)
    have e: "after_streams strtol t st =
      (if found then (True, st1)
       else if v_outEof st1 \<and> v_errEof st1 then
              (True, st1 \<lparr> v_session := v_session st1 \<lparr> q_shellAlive := False \<rparr>, v_cause := BpshCauseKilled \<rparr>)
            else
              (let (rc, s, w) = pollIncoming (t_running t) (t_epipe t) (t_polls t) (v_session st1) (v_world st1)
               in (False, st1 \<lparr> v_session := s, v_world := w \<rparr>)))"
      unfolding after_streams_def if_not_P[OF False] f Let_def prod.case by (rule refl)
    obtain rc s w where p: "pollIncoming (t_running t) (t_epipe t) (t_polls t) (v_session st1) (v_world st1) = (rc, s, w)"
      by (metis prod_cases3)
    show ?thesis
      using assms e st1 p pollIncoming_silent[OF p] by (auto simp: of_stream_def split: if_splits intro!: sends_idle)
  qed
qed

definition turn_reads :: "int \<Rightarrow> int \<Rightarrow> Turn \<Rightarrow> bool" where
  "turn_reads timeout start t \<longleftrightarrow> t_select t = Ready \<and> \<not> (timeout > 0 \<and> t_now t - start \<ge> timeout)"

definition streams :: "bytes \<Rightarrow> bytes \<Rightarrow> BpshFrame list \<Rightarrow> bool" where
  "streams out err fs \<longleftrightarrow> (\<forall>f \<in> set fs. frame_ok f \<and> (f_msgType f = BpshMsgStdout \<or> f_msgType f = BpshMsgStderr)) \<and>
     octets_of BpshMsgStdout fs = out \<and> octets_of BpshMsgStderr fs = err"

lemma streams_Nil [simp]: "streams [] [] []"
  by (simp add: streams_def)

lemma streams_append: "streams a b fs \<Longrightarrow> streams c d gs \<Longrightarrow> streams (a @ c) (b @ d) (fs @ gs)"
  by (auto simp: streams_def)

lemma streams_carries:
  "carries BpshMsgStdout a fs \<Longrightarrow> streams a [] fs" "carries BpshMsgStderr b fs \<Longrightarrow> streams [] b fs"
proof -
  have n: "BpshMsgStdout \<noteq> BpshMsgStderr" by (simp add: bpsh_msgs)
  show "carries BpshMsgStdout a fs \<Longrightarrow> streams a [] fs"
    using carries_other[of BpshMsgStdout a fs BpshMsgStderr] n by (auto simp: streams_def carries_def)
  show "carries BpshMsgStderr b fs \<Longrightarrow> streams [] b fs"
    using carries_other[of BpshMsgStderr b fs BpshMsgStdout] n by (auto simp: streams_def carries_def)
qed

lemma run_turn_streams:
  assumes "w_ok (v_world st) = []" "run_turn strtol timeout start t st = (left, st')"
  shows "\<exists>fs. of_stream st st' fs \<and>
     streams (if turn_reads timeout start t then chunk_of (t_out t) else [])
       (if turn_reads timeout start t then chunk_of (t_err t) else []) fs"
proof (cases "turn_reads timeout start t")
  case False
  then have "of_stream st st' []"
    using assms by (auto simp: run_turn_def turn_reads_def killSession_def of_stream_def split: Select.splits if_splits
        intro!: sends_idle)
  then show ?thesis using False by (intro exI[of _ "[]"]) simp
next
  case True
  obtain e1 st1 where r1: "stream_read BpshMsgStdout (t_out t) (v_outEof st) st = (e1, st1)" by fastforce
  let ?st1 = "st1 \<lparr> v_outEof := e1 \<rparr>"
  obtain e2 st2 where r2: "stream_read BpshMsgStderr (t_err t) (v_errEof ?st1) ?st1 = (e2, st2)" by fastforce
  obtain fs where f: "of_stream st st1 fs" "carries BpshMsgStdout (chunk_of (t_out t)) fs"
    using stream_read_carries[OF assms(1) r1] by blast
  have w1: "w_ok (v_world ?st1) = []" using f(1) sends_w_ok by (simp add: of_stream_def)
  obtain gs where g: "of_stream ?st1 st2 gs" "carries BpshMsgStderr (chunk_of (t_err t)) gs"
    using stream_read_carries[OF w1 r2] by blast
  have w2: "w_ok (v_world (st2 \<lparr> v_errEof := e2 \<rparr>)) = []" using g(1) sends_w_ok by (simp add: of_stream_def)
  have a: "after_streams strtol t (st2 \<lparr> v_errEof := e2 \<rparr>) = (left, st')"
    using assms(2) True unfolding run_turn_def turn_reads_def by (simp add: r1 r2[simplified])
  have "of_stream st st' ((fs @ gs) @ [])"
    using f(1) g(1) after_streams_silent[OF w2 a] unfolding of_stream_def
    by (intro sends_trans[of _ _ "v_session st2" "v_world st2"] sends_trans[of _ _ "v_session st1" "v_world st1"]) simp_all
  moreover have "streams (chunk_of (t_out t)) (chunk_of (t_err t)) (fs @ gs)"
    using streams_append[OF streams_carries(1)[OF f(2)] streams_carries(2)[OF g(2)]] by simp
  ultimately show ?thesis using True by auto
qed

text \<open>The octets that the passes of a run read.\<close>

fun run_reads :: "(Turn \<Rightarrow> ReadResult option) \<Rightarrow> (bytes \<Rightarrow> int) \<Rightarrow> int \<Rightarrow> int \<Rightarrow> Turn list \<Rightarrow> RunState \<Rightarrow> bytes" where
  "run_reads get strtol timeout start [] st = []"
| "run_reads get strtol timeout start (t # ts) st =
     (if turn_reads timeout start t then chunk_of (get t) else []) @
     (let (left, st) = run_turn strtol timeout start t st in if left then [] else run_reads get strtol timeout start ts st)"

lemma run_loop_streams:
  "w_ok (v_world st) = [] \<Longrightarrow> run_loop strtol timeout start ts st = Some st' \<Longrightarrow>
   \<exists>fs. of_stream st st' fs \<and>
     streams (run_reads t_out strtol timeout start ts st) (run_reads t_err strtol timeout start ts st) fs"
proof (induction ts arbitrary: st)
  case (Cons t ts)
  obtain left st1 where t: "run_turn strtol timeout start t st = (left, st1)" by fastforce
  obtain fs where f: "of_stream st st1 fs"
    "streams (if turn_reads timeout start t then chunk_of (t_out t) else [])
       (if turn_reads timeout start t then chunk_of (t_err t) else []) fs"
    using run_turn_streams[OF Cons.prems(1) t] by blast
  show ?case
  proof (cases left)
    case True
    then show ?thesis using Cons.prems(2) t f by auto
  next
    case False
    have w: "w_ok (v_world st1) = []" using f(1) sends_w_ok by (simp add: of_stream_def)
    obtain gs where g: "of_stream st1 st' gs"
      "streams (run_reads t_out strtol timeout start ts st1) (run_reads t_err strtol timeout start ts st1) gs"
      using Cons.IH[OF w] Cons.prems(2) t False by auto
    have "of_stream st st' (fs @ gs)" using f(1) g(1) sends_trans unfolding of_stream_def by blast
    then show ?thesis using streams_append[OF f(2) g(2)] t False by (auto simp: Let_def)
  qed
qed simp


text \<open>The postscript fits its buffer, whatever the command line.\<close>

lemma postscript_fits: "length (postscript req cmdline) < length cmdline + 256"
  by (simp add: postscript_def)

definition run_start :: "RunEnv \<Rightarrow> bytes \<Rightarrow> BpshSession \<Rightarrow> World \<Rightarrow> RunState" where
  "run_start env cmdline s w =
     \<lparr>v_session = s \<lparr> q_lastActivity := e_now env \<rparr>,
      v_world = w \<lparr> w_shell := w_shell w @ postscript (q_userStdinReq s) cmdline \<rparr>, v_outEof = False, v_errEof = False,
      v_ctlBuf = [], v_totalOut = 0, v_exitCode = 0, v_cause = BpshCauseNormal\<rparr>"

lemma bpshSessionRun_started:
  assumes "e_mem env" "e_written env"
  shows "bpshSessionRun env cmdline s w =
    Option.bind (run_loop (e_strtol env) (e_timeout env) (e_nowMs env) (e_turns env) (run_start env cmdline s w)) (run_finish env)"
proof -
  have "\<not> (length (postscript (q_userStdinReq s) cmdline) \<ge> length cmdline + 256 \<or> \<not> e_written env)"
    using postscript_fits[of "q_userStdinReq s" cmdline] assms(2) by simp
  then show ?thesis
    using assms(1) by (simp add: bpshSessionRun_def run_start_def Let_def split: option.split)
qed

lemma run_finish_streams:
  assumes "w_ok (v_world st) = []" "run_finish env st = Some (rc, s', w')" "\<forall>p. e_cwd env = Some p \<longrightarrow> length p < 4096"
  shows "\<exists>fs cwd n. sends (v_session st) (v_world st) s' w' (fs @ cwd @ [exit_frame (q_sessionId (v_session st)) n (v_exitCode st) (v_cause st)]) \<and>
    streams (drained (e_drainOut env)) (drained (e_drainErr env)) fs \<and> (\<forall>f \<in> set cwd. f_msgType f = BpshMsgCwd \<and> frame_ok f)"
proof -
  obtain rc1 s1 w1 where d1: "drainStream (e_drainOut env) BpshMsgStdout (v_session st) (v_world st) = Some (rc1, s1, w1)"
    using assms(2) by (auto simp: run_finish_def split: option.splits)
  obtain rc2 s2 w2 where d2: "drainStream (e_drainErr env) BpshMsgStderr s1 w1 = Some (rc2, s2, w2)"
    using assms(2) d1 by (auto simp: run_finish_def split: option.splits)
  obtain fs where f: "sends (v_session st) (v_world st) s1 w1 fs" "carries BpshMsgStdout (drained (e_drainOut env)) fs"
    using drainStream_carries[OF assms(1) d1] by blast
  obtain gs where g: "sends s1 w1 s2 w2 gs" "carries BpshMsgStderr (drained (e_drainErr env)) gs"
    using drainStream_carries[OF sends_w_ok[OF f(1)] d2] by blast
  obtain s3 w3 where c: "(if q_shellAlive s2 then bpshSessionSendCwd (e_cwd env) s2 w2 else (s2, w2)) = (s3, w3)" by fastforce
  have ok2: "w_ok w2 = []" using g(1) sends_w_ok by blast
  have "\<exists>cwd. sends s2 w2 s3 w3 cwd \<and> (\<forall>f \<in> set cwd. f_msgType f = BpshMsgCwd \<and> frame_ok f)"
  proof (cases "q_shellAlive s2 \<and> e_cwd env \<noteq> None")
    case True
    then obtain p where p: "e_cwd env = Some p" by auto
    let ?f = "bytes_frame BpshMsgCwd (q_sessionId s2) (q_replySeq s2) p"
    have "frame_ok ?f" using assms(3) p by (simp add: frame_ok_def BPSHD_MAX_PAYLOAD_def order.strict_implies_order order_less_le_trans)
    moreover have "sends s2 w2 s3 w3 [?f]"
      using sends_one[OF ok2, of ?f s2] c p True by (auto simp: bpshSessionSendCwd_def send_out_ok[OF ok2])
    ultimately show ?thesis by (intro exI[of _ "[?f]"]) simp
  next
    case False
    then have "s3 = s2 \<and> w3 = w2" using c by (auto simp: bpshSessionSendCwd_def split: if_splits)
    then show ?thesis using sends_refl[OF ok2] by (intro exI[of _ "[]"]) simp
  qed
  then obtain cwd where cwd: "sends s2 w2 s3 w3 cwd" "\<forall>f \<in> set cwd. f_msgType f = BpshMsgCwd \<and> frame_ok f" by blast
  have ok3: "w_ok w3 = []" using cwd(1) sends_w_ok by blast
  let ?x = "exit_frame (q_sessionId s3) (q_replySeq s3) (v_exitCode st) (v_cause st)"
  have e: "(s3 \<lparr> q_replySeq := q_replySeq s3 + 1 \<rparr>, w3 \<lparr> w_sent := w_sent w3 @ [(q_sourceEid s3, ?x)] \<rparr>) = (s', w')"
    using assms(2) d1 d2 c by (auto simp: run_finish_def send_exit_def send_out_ok[OF ok3])
  have "sends s3 w3 s' w' [?x]"
    using sends_one[OF ok3, of ?x s3] e by auto
  moreover have "q_sessionId s3 = q_sessionId (v_session st)" using f(1) g(1) cwd(1) by (simp add: sends_def)
  ultimately have "sends (v_session st) (v_world st) s' w'
      ((fs @ gs) @ cwd @ [exit_frame (q_sessionId (v_session st)) (q_replySeq s3) (v_exitCode st) (v_cause st)])"
    using sends_trans[OF sends_trans[OF f(1) g(1)] sends_trans[OF cwd(1)]] by metis
  then show ?thesis
    using streams_append[OF streams_carries(1)[OF f(2)] streams_carries(2)[OF g(2)]] cwd(2)
    by (intro exI[of _ "fs @ gs"] exI[of _ cwd] exI[of _ "q_replySeq s3"]) simp
qed

text \<open>What a command has printed, as the passes of its run and the final drain have read it.\<close>

definition printed :: "(Turn \<Rightarrow> ReadResult option) \<Rightarrow> (RunEnv \<Rightarrow> ReadResult list) \<Rightarrow> RunEnv \<Rightarrow> bytes \<Rightarrow> BpshSession \<Rightarrow> World \<Rightarrow> bytes" where
  "printed get drain env cmdline s w =
     run_reads get (e_strtol env) (e_timeout env) (e_nowMs env) (e_turns env) (run_start env cmdline s w) @ drained (drain env)"

text \<open>When its sends succeed, a run sends what the command prints on each stream, octet for octet and in
  order, in frames that fit a bundle, and then, last, the exit code and cause with which the loop was left;
  all of them are numbered one after the other from the session's next number on.\<close>
lemma command_streamed_frames:
  assumes "w_ok w = []" "e_mem env" "e_written env" "\<forall>p. e_cwd env = Some p \<longrightarrow> length p < 4096"
    "bpshSessionRun env cmdline s w = Some (rc, s', w')"
  shows "\<exists>fs ex st. sends s w s' w' (fs @ [ex]) \<and>
    run_loop (e_strtol env) (e_timeout env) (e_nowMs env) (e_turns env) (run_start env cmdline s w) = Some st \<and>
    f_msgType ex = BpshMsgExit \<and> f_exitCode ex = v_exitCode st \<and> f_exitCause ex = v_cause st \<and>
    (\<forall>f \<in> set fs. frame_ok f \<and> f_msgType f \<in> {BpshMsgStdout, BpshMsgStderr, BpshMsgCwd}) \<and>
    octets_of BpshMsgStdout fs = printed t_out e_drainOut env cmdline s w \<and>
    octets_of BpshMsgStderr fs = printed t_err e_drainErr env cmdline s w"
proof -
  let ?st0 = "run_start env cmdline s w"
  obtain st where l: "run_loop (e_strtol env) (e_timeout env) (e_nowMs env) (e_turns env) ?st0 = Some st"
    and f: "run_finish env st = Some (rc, s', w')"
    using assms(5) unfolding bpshSessionRun_started[OF assms(2,3)] by (auto simp: bind_eq_Some_conv)
  have ok0: "w_ok (v_world ?st0) = []" using assms(1) by (simp add: run_start_def)
  obtain fs where a: "of_stream ?st0 st fs"
    "streams (run_reads t_out (e_strtol env) (e_timeout env) (e_nowMs env) (e_turns env) ?st0)
       (run_reads t_err (e_strtol env) (e_timeout env) (e_nowMs env) (e_turns env) ?st0) fs"
    using run_loop_streams[OF ok0 l] by blast
  have ok: "w_ok (v_world st) = []" using a(1) sends_w_ok by (simp add: of_stream_def)
  obtain gs cwd n where b: "sends (v_session st) (v_world st) s' w'
      (gs @ cwd @ [exit_frame (q_sessionId (v_session st)) n (v_exitCode st) (v_cause st)])"
    "streams (drained (e_drainOut env)) (drained (e_drainErr env)) gs" "\<forall>f \<in> set cwd. f_msgType f = BpshMsgCwd \<and> frame_ok f"
    using run_finish_streams[OF ok f assms(4)] by blast
  have "sends s w (v_session st) (v_world st) fs"
    using a(1) by (simp add: of_stream_def run_start_def sends_def)
  from sends_trans[OF this b(1)] have snd: "sends s w s' w'
      (((fs @ gs) @ cwd) @ [exit_frame (q_sessionId (v_session st)) n (v_exitCode st) (v_cause st)])" by simp
  have cwd: "octets_of BpshMsgStdout cwd = []" "octets_of BpshMsgStderr cwd = []"
    using b(3) by (induction cwd) (auto simp: bpsh_msgs)
  show ?thesis
    using snd l streams_append[OF a(2) b(2)] b(3) cwd
    by (intro exI[of _ "(fs @ gs) @ cwd"] exI[of _ "exit_frame (q_sessionId (v_session st)) n (v_exitCode st) (v_cause st)"] exI[of _ st])
       (auto simp: streams_def printed_def)
qed


definition example_session :: BpshSession where
  "example_session = bpshSessionOpen (ascii ''ipn:1.2'') 7 False 100 0"

definition idle_world :: World where
  "idle_world = \<lparr>w_ok = [], w_sent = [], w_shell = [], w_stdin = [], w_kills = [], w_deferred = []\<rparr>"

definition quiet_turn :: Turn where
  "quiet_turn = \<lparr>t_select = Ready, t_now = 0, t_out = None, t_err = None, t_ctl = None, t_running = True, t_epipe = False, t_polls = []\<rparr>"

definition example_env :: RunEnv where
  "example_env = \<lparr>e_now = 5, e_nowMs = 0, e_mem = True, e_written = True, e_timeout = 300000, e_strtol = (\<lambda>b. 3),
     e_turns = [quiet_turn \<lparr> t_out := Some (Octets [104]) \<rparr>,
                quiet_turn \<lparr> t_err := Some (Octets [101]), t_ctl := Some (Octets [51, 10]) \<rparr>],
     e_drainOut = [Octets [105], Again], e_drainErr = [Again], e_cwd = Some [47]\<rparr>"

lemmas run_eval = printed_def run_start_def example_env_def example_session_def idle_world_def quiet_turn_def
  bpshSessionOpen_def run_turn_def turn_reads_def stream_read_def after_streams_def ctl_read_def chunk_of_def Let_def
  send_out_ok BPSHD_OUTPUT_LIMIT_def

lemma one_frame_stream:
  "w_ok w = [] \<Longrightarrow> sendStream type [x] s w = (0, s \<lparr> q_replySeq := q_replySeq s + 1 \<rparr>,
     w \<lparr> w_sent := w_sent w @ [(q_sourceEid s, bytes_frame type (q_sessionId s) (q_replySeq s) [x])] \<rparr>)"
  by (simp add: sendStream_def send_loop.simps send_out_ok BPSHD_MAX_PAYLOAD_def)

lemma example_printed:
  "printed t_out e_drainOut example_env [108] example_session idle_world = [104, 105]"
  "printed t_err e_drainErr example_env [108] example_session idle_world = [101]"
  by (simp_all add: run_eval one_frame_stream)

lemma example_runs: "\<exists>rc s' w'. bpshSessionRun example_env [108] example_session idle_world = Some (rc, s', w')"
proof -
  have m: "e_mem example_env" "e_written example_env" by (simp_all add: example_env_def)
  show ?thesis
    unfolding bpshSessionRun_started[OF m]
    by (simp add: run_eval one_frame_stream run_finish_def bpshSessionSendCwd_def send_exit_def)
qed


section \<open>What ends a command\<close>

lemma run_turn_timeout:
  assumes "0 < timeout" "t_select t = Ready" "t_now t - start \<ge> timeout"
  shows "\<exists>st'. run_turn strtol timeout start t st = (True, st') \<and> v_cause st' = BpshCauseTimeout \<and>
    \<not> q_shellAlive (v_session st') \<and>
    (q_shellPid (v_session st) > 0 \<longrightarrow> w_kills (v_world st') = w_kills (v_world st) @ [- q_shellPid (v_session st)])"
  using assms by (simp add: run_turn_def killSession_def)

text \<open>Whatever a command does, the loop is left at the latest in the first pass in which \<open>select\<close>
  returns after the time limit.\<close>
theorem command_times_out:
  assumes "0 < timeout" "\<exists>t \<in> set ts. t_select t = Ready \<and> t_now t - start \<ge> timeout"
  shows "\<exists>st'. run_loop strtol timeout start ts st = Some st'"
  using assms(2)
proof (induction ts arbitrary: st)
  case (Cons t ts)
  show ?case
  proof (cases "t_select t = Ready \<and> t_now t - start \<ge> timeout")
    case True
    then show ?thesis using run_turn_timeout[OF assms(1), of t start strtol st] by auto
  next
    case False
    then have "\<exists>t \<in> set ts. t_select t = Ready \<and> t_now t - start \<ge> timeout" using Cons.prems by auto
    then show ?thesis using Cons.IH by (simp add: case_prod_beta)
  qed
qed simp

theorem command_times_out_witness:
  "\<exists>st'. run_loop (\<lambda>b. 0) 300000 0 [quiet_turn, quiet_turn \<lparr> t_now := 300000 \<rparr>] (run_start example_env [108] example_session idle_world) = Some st'"
  by (rule command_times_out) (simp_all add: quiet_turn_def)

section \<open>What arrives meanwhile\<close>

definition is_frame :: "Poll \<Rightarrow> bool" where
  "is_frame p \<longleftrightarrow> (case p of PollFrame f b s \<Rightarrow> True | PollSkip \<Rightarrow> True | _ \<Rightarrow> False)"

definition stdin_frame :: "BpshSession \<Rightarrow> Poll \<Rightarrow> bool" where
  "stdin_frame s p \<longleftrightarrow> (case p of PollFrame f bs src \<Rightarrow>
     is_mine s f src \<and> (f_msgType f = BpshMsgStdinChunk \<or> f_msgType f = BpshMsgStdinEof) | _ \<Rightarrow> False)"

fun for_stdin :: "BpshSession \<Rightarrow> Poll list \<Rightarrow> bytes" where
  "for_stdin s [] = []"
| "for_stdin s (PollFrame f bs src # ps) =
     (if is_mine s f src \<and> f_msgType f = BpshMsgStdinChunk then (if f_payloadLen f > 0 then payload_of f else []) @ for_stdin s ps
      else if is_mine s f src \<and> f_msgType f = BpshMsgStdinEof then []
      else for_stdin s ps)"
| "for_stdin s (_ # ps) = for_stdin s ps"

definition for_daemon :: "BpshSession \<Rightarrow> Poll list \<Rightarrow> (bytes \<times> bytes) list" where
  "for_daemon s ps = concat (map (\<lambda>p. case p of PollFrame f bs src \<Rightarrow> if stdin_frame s p then [] else [(bs, src)] | _ \<Rightarrow> []) ps)"

lemma for_daemon_simps [simp]:
  "for_daemon s [] = []" "for_daemon s (PollSkip # ps) = for_daemon s ps"
  "for_daemon s (PollFrame f bs src # ps) = (if stdin_frame s (PollFrame f bs src) then [] else [(bs, src)]) @ for_daemon s ps"
  by (simp_all add: for_daemon_def)

lemma mine_cong: "q_sessionId s' = q_sessionId s \<Longrightarrow> q_sourceEid s' = q_sourceEid s \<Longrightarrow>
   is_mine s' = is_mine s \<and> stdin_frame s' = stdin_frame s \<and> for_daemon s' = for_daemon s"
proof -
  assume a: "q_sessionId s' = q_sessionId s" "q_sourceEid s' = q_sourceEid s"
  have m: "is_mine s' = is_mine s" using a by (intro ext) (simp add: is_mine_def)
  have t: "stdin_frame s' = stdin_frame s" by (rule ext) (simp only: stdin_frame_def m)
  have "for_daemon s' = for_daemon s" unfolding for_daemon_def t by (rule refl)
  then show ?thesis using m t by blast
qed

text \<open>Of the bundles that arrive while a command runs, the command's stdin gets the payloads of the
  session's own stdin frames up to the end of file, in order, and the daemon gets every other frame, with
  its source, in order.\<close>
theorem polled_bundles_routed:
  assumes "\<forall>p \<in> set ps. is_frame p" "pollIncoming True False ps s w = (rc, s', w')"
  shows "w_stdin w' = w_stdin w @ (if q_userStdinFd s then for_stdin s ps else []) \<and>
    w_deferred w' = w_deferred w @ for_daemon s ps \<and> rc = 0"
  using assms
proof (induction ps arbitrary: s w)
  case (Cons p ps)
  show ?case
  proof (cases p)
    case PollSkip
    then show ?thesis using Cons by simp
  next
    case (PollFrame f bs src)
    let ?closed = "s \<lparr> q_userStdinFd := False \<rparr>"
    have closed: "is_mine ?closed = is_mine s \<and> stdin_frame ?closed = stdin_frame s \<and> for_daemon ?closed = for_daemon s"
      by (rule mine_cong) simp_all
    consider (chunk) "is_mine s f src" "f_msgType f = BpshMsgStdinChunk" | (eof) "is_mine s f src" "f_msgType f = BpshMsgStdinEof" |
      (other) "\<not> (is_mine s f src \<and> (f_msgType f = BpshMsgStdinChunk \<or> f_msgType f = BpshMsgStdinEof))" by blast
    then show ?thesis
    proof cases
      case chunk
      have t: "stdin_frame s p" using chunk PollFrame by (simp add: stdin_frame_def)
      show ?thesis
        using Cons.IH[of s] Cons.IH[of s "w \<lparr> w_stdin := w_stdin w @ payload_of f \<rparr>"] Cons.prems chunk t PollFrame
        by (auto split: if_splits)
    next
      case eof
      have n: "BpshMsgStdinEof \<noteq> BpshMsgStdinChunk" by (simp add: bpsh_msgs)
      have t: "stdin_frame s p" using eof PollFrame by (simp add: stdin_frame_def)
      show ?thesis
        using Cons.IH[of ?closed w] Cons.prems eof n t PollFrame closed by simp
    next
      case other
      have t: "\<not> stdin_frame s p" using other PollFrame by (simp add: stdin_frame_def)
      let ?w = "if f_msgType f = BpshMsgInit \<and> src = q_sourceEid s \<and> q_shellPid s > 0
                then w \<lparr> w_kills := w_kills w @ [- q_shellPid s] \<rparr> else w"
      have "pollIncoming True False ps s (?w \<lparr> w_deferred := w_deferred ?w @ [(bs, src)] \<rparr>) = (rc, s', w')"
        using Cons.prems(2) other PollFrame
        by (cases "f_msgType f = BpshMsgInit \<and> src = q_sourceEid s \<and> q_shellPid s > 0") auto
      moreover have "w_stdin ?w = w_stdin w" "w_deferred ?w = w_deferred w" by simp_all
      ultimately show ?thesis
        using Cons.IH[of s "?w \<lparr> w_deferred := w_deferred ?w @ [(bs, src)] \<rparr>"] Cons.prems(1) other t PollFrame by auto
    qed
  qed (use Cons.prems in \<open>simp_all add: is_frame_def\<close>)
qed simp

theorem polled_bundles_routed_witness:
  "w_stdin (snd (snd (pollIncoming True False [PollFrame (bytes_frame BpshMsgStdinChunk 7 1 [104]) [1] (ascii ''ipn:1.2''),
      PollFrame (bytes_frame BpshMsgReq 7 2 [108]) [2] (ascii ''ipn:1.2'')] (example_session \<lparr> q_userStdinFd := True \<rparr>) idle_world))) = [104]"
proof -
  let ?ps = "[PollFrame (bytes_frame BpshMsgStdinChunk 7 1 [104]) [1] (ascii ''ipn:1.2''),
      PollFrame (bytes_frame BpshMsgReq 7 2 [108]) [2] (ascii ''ipn:1.2'')]"
  have f: "\<forall>p \<in> set ?ps. is_frame p" by (simp add: is_frame_def)
  have "for_stdin (example_session \<lparr> q_userStdinFd := True \<rparr>) ?ps = [104]"
    by (simp add: example_session_def bpshSessionOpen_def is_mine_def bpsh_msgs)
  then show ?thesis
    using polled_bundles_routed[OF f, of "example_session \<lparr> q_userStdinFd := True \<rparr>" idle_world] 
    by (simp add: prod_eq_iff idle_world_def del: pollIncoming.simps for_stdin.simps ascii_simps)
qed

text \<open>A frame with INIT from the client's address kills what the session runs, whoever may have sent it:
  its password is looked at only when the daemon handles it.\<close>

lemma init_kills_command:
  assumes "f_msgType f = BpshMsgInit" "q_shellPid s > 0"
  shows "pollIncoming True epipe [PollFrame f bs (q_sourceEid s)] s w =
    (0, s, w \<lparr> w_kills := w_kills w @ [- q_shellPid s], w_deferred := w_deferred w @ [(bs, q_sourceEid s)] \<rparr>)"
  using assms by (simp add: bpsh_msgs)

text \<open>A working directory that cannot be sent uses up its sequence number all the same.\<close>

lemma failed_cwd_skips_number:
  assumes "q_shellAlive s" "w_ok w = [False]"
  shows "w_sent (snd (snd (send_exit code cause (fst (bpshSessionSendCwd (Some p) s w)) (snd (bpshSessionSendCwd (Some p) s w))))) =
    w_sent w @ [(q_sourceEid s, exit_frame (q_sessionId s) (q_replySeq s + 1) code cause)]"
  using assms by (simp add: bpshSessionSendCwd_def send_exit_def send_out_def)


end
