(* ===== verification/Bpshd.thy ===== *)
theory Bpshd
  imports BpshdSession "HOL-Library.Multiset"
begin

unbundle bit_operations_syntax
text \<open>
  The daemon of the remote shell (APP/bpsh/src/bpshd.c): who is served, the table of sessions, the
  routing of frames, and the queue of bundles deferred while a command runs.

  \<open>glob\<close> is \<open>fnmatch\<close>.  What else the environment answers while one frame is handled is a \<open>Surroundings\<close>
  record; a \<open>Round\<close> is one pass of the receive loop.  A result \<open>None\<close> means that a command goes on for
  ever.  A session in the table is known by its index; the pointers of the C table are distinct, since each
  is allocated for its session.  The processes that the daemon starts and ends are kept as the list of its
  calls (\<open>Process\<close>).

  The lemmas show who can have a session and who can run a command, that the table holds one session per
  client and each of them alive, and that every shell started is in the table or has been ended.
\<close>

section \<open>Model: who is served\<close>

definition is_blank_char :: "u8 \<Rightarrow> bool" where
  "is_blank_char c \<longleftrightarrow> c = 32 \<or> c = 9"

text \<open>\<open>strtok\<close> with a comma: the longest pieces without one; an empty piece is passed over.\<close>

function strtok_comma :: "bytes \<Rightarrow> bytes list" where
  "strtok_comma s =
     (let s = dropWhile (\<lambda>c. c = 44) s
      in if s = [] then []
         else takeWhile (\<lambda>c. c \<noteq> 44) s # strtok_comma (dropWhile (\<lambda>c. c \<noteq> 44) s))"
  by pat_completeness auto
termination
proof (relation "measure length", goal_cases)
  case (2 s t)
  obtain a u where u: "t = a # u" using 2 by (cases t) blast+
  then have t: "dropWhile (\<lambda>c. c = 44) s = a # u" "t = a # u" using 2(1) by simp_all
  then have "a \<noteq> 44" using hd_dropWhile[of "\<lambda>c. c = 44" s] by simp
  moreover have "length (a # u) \<le> length s" using length_dropWhile_le[of "\<lambda>c. c = 44" s] t by simp
  ultimately show ?case using t length_dropWhile_le[of "\<lambda>c. c \<noteq> 44" u] by simp
qed simp

declare strtok_comma.simps [simp del]

text \<open>The patterns of the list that \<open>-a\<close> gives; the allowlist is then active, even with no pattern.\<close>

definition parseAllowedEids :: "bool \<Rightarrow> bytes \<Rightarrow> bytes list option" where
  "parseAllowedEids mem arg =
     (if \<not> mem then None
      else Some (filter (\<lambda>tok. tok \<noteq> []) (map (dropWhile is_blank_char) (strtok_comma arg))))"

text \<open>\<open>allowed\<close>: the patterns when the allowlist is active.\<close>

definition sourceAllowed :: "(bytes \<Rightarrow> bytes \<Rightarrow> bool) \<Rightarrow> bytes list option \<Rightarrow> bytes option \<Rightarrow> bool" where
  "sourceAllowed glob allowed sourceEid =
     (case allowed of
        None \<Rightarrow> True
      | Some pats \<Rightarrow> (case sourceEid of None \<Rightarrow> False | Some src \<Rightarrow> list_ex (\<lambda>p. glob p src) pats))"

definition authOk :: "bytes \<Rightarrow> bytes option \<Rightarrow> bool" where
  "authOk authSecret pw =
     (case pw of
        None \<Rightarrow> False
      | Some pw \<Rightarrow>
          if length pw \<noteq> length authSecret then False
          else foldl (\<lambda>diff (a, b). diff OR (a XOR b)) 0 (zip pw authSecret) = (0 :: u8))"

record Config =
  g_secret :: "bytes option"
  g_allowed :: "bytes list option"

section \<open>Model: the table of sessions\<close>

datatype Process = Started int | Terminated int | Killed int | Reaped int

record Daemon =
  b_sessions :: "BpshSession list"
  b_cap :: nat
  b_deferred :: "(bytes \<times> bytes) list"
  b_world :: World
  b_procs :: "Process list"

text \<open>What the daemon's calls answer while it handles a frame: the memory for a copy of the command and
  for a longer table, the shell that could be started, the clock, the shell's directory, whether a shell
  is gone when it is waited for, the run of the command, and the memory for what is deferred.\<close>

record Surroundings =
  h_mem :: bool
  h_grow :: bool
  h_open :: "int option"
  h_now :: int
  h_cwd :: "bytes option"
  h_waited :: "int \<Rightarrow> nat \<Rightarrow> bool"
  h_run :: RunEnv
  h_defer :: "bool list"

definition bpshSessionClose :: "(int \<Rightarrow> nat \<Rightarrow> bool) \<Rightarrow> BpshSession \<Rightarrow> Process list" where
  "bpshSessionClose waited s =
     (if q_shellPid s > 0 then
        Terminated (q_shellPid s) #
        (if list_ex (waited (q_shellPid s)) [0..<50] then [Reaped (q_shellPid s)]
         else [Killed (q_shellPid s), Reaped (q_shellPid s)])
      else [])"

fun findSession :: "bytes \<Rightarrow> BpshSession list \<Rightarrow> nat option" where
  "findSession sourceEid [] = None"
| "findSession sourceEid (s # ss) =
     (if q_sourceEid s = sourceEid then Some 0 else map_option Suc (findSession sourceEid ss))"

definition addSession :: "bool \<Rightarrow> BpshSession \<Rightarrow> Daemon \<Rightarrow> Daemon option" where
  "addSession grow s d =
     (if length (b_sessions d) = b_cap d \<and> \<not> grow then None
      else Some (d \<lparr> b_cap := (if length (b_sessions d) = b_cap d then (if b_cap d = 0 then 8 else b_cap d * 2) else b_cap d),
                     b_sessions := b_sessions d @ [s] \<rparr>))"

text \<open>The last session takes the place of the one removed.\<close>

definition swap_out :: "nat \<Rightarrow> 'a list \<Rightarrow> 'a list" where
  "swap_out i xs = butlast (xs[i := last xs])"

definition removeSession :: "(int \<Rightarrow> nat \<Rightarrow> bool) \<Rightarrow> nat \<Rightarrow> Daemon \<Rightarrow> Daemon" where
  "removeSession waited i d =
     d \<lparr> b_sessions := swap_out i (b_sessions d),
         b_procs := b_procs d @ bpshSessionClose waited (b_sessions d ! i) \<rparr>"

definition teardownAllSessions :: "(int \<Rightarrow> nat \<Rightarrow> bool) \<Rightarrow> Daemon \<Rightarrow> Daemon" where
  "teardownAllSessions waited d =
     d \<lparr> b_procs := b_procs d @ concat (map (bpshSessionClose waited) (b_sessions d)), b_sessions := [],
         b_cap := 0 \<rparr>"

section \<open>Model: deferred bundles\<close>

definition enqueueDeferred :: "bool \<Rightarrow> bytes \<times> bytes \<Rightarrow> (bytes \<times> bytes) list \<Rightarrow> int \<times> (bytes \<times> bytes) list" where
  "enqueueDeferred mem b q = (if mem then (0, q @ [b]) else (-1, q))"

definition dequeueDeferred :: "(bytes \<times> bytes) list \<Rightarrow> (bytes \<times> bytes) option \<times> (bytes \<times> bytes) list" where
  "dequeueDeferred q = (case q of [] \<Rightarrow> (None, q) | d # q \<Rightarrow> (Some d, q))"

text \<open>The bundles that a run defers, one after the other; one for which there is no memory is dropped.\<close>

fun deferBundles :: "bool list \<Rightarrow> (bytes \<times> bytes) list \<Rightarrow> (bytes \<times> bytes) list \<Rightarrow> (bytes \<times> bytes) list" where
  "deferBundles mems [] q = q"
| "deferBundles [] (b # bs) q = deferBundles [] bs (snd (enqueueDeferred True b q))"
| "deferBundles (m # mems) (b # bs) q = deferBundles mems bs (snd (enqueueDeferred m b q))"

section \<open>Model: handling a frame\<close>

text \<open>\<open>bpsh_send_error\<close>, \<open>bpsh_send_ctl\<close> and \<open>bpsh_send_exit\<close> to a client.\<close>

definition reply :: "bytes \<Rightarrow> BpshFrame \<Rightarrow> Daemon \<Rightarrow> int \<times> Daemon" where
  "reply dest f d = (let (rc, w) = send_out dest f (b_world d) in (rc, d \<lparr> b_world := w \<rparr>))"

definition error_reply :: "bytes \<Rightarrow> u64 \<Rightarrow> u64 \<Rightarrow> string \<Rightarrow> Daemon \<Rightarrow> int \<times> Daemon" where
  "error_reply dest sessionId seq msg d = reply dest (bytes_frame BpshMsgError sessionId seq (ascii msg)) d"

text \<open>The flag and the password of an INIT.\<close>

definition init_payload :: "BpshFrame \<Rightarrow> bool \<times> bytes option" where
  "init_payload f =
     (if f_payloadLen f \<ge> 1 then (payload_of f ! 0 AND 1 \<noteq> 0, Some (tl (payload_of f))) else (False, None))"

definition start_session :: "Surroundings \<Rightarrow> bytes \<Rightarrow> u64 \<Rightarrow> bool \<Rightarrow> Daemon \<Rightarrow> int \<times> Daemon" where
  "start_session env sourceEid sessionId wantStdin d =
     (case h_open env of
        None \<Rightarrow> error_reply sourceEid sessionId 0 ''unable to start shell'' d
      | Some pid \<Rightarrow>
          (let s = bpshSessionOpen sourceEid sessionId wantStdin pid (h_now env);
               d = d \<lparr> b_procs := b_procs d @ [Started pid] \<rparr>
           in (case addSession (h_grow env) s d of
                 None \<Rightarrow>
                   error_reply sourceEid sessionId 0 ''unable to register session''
                     (d \<lparr> b_procs := b_procs d @ bpshSessionClose (h_waited env) s \<rparr>)
               | Some d \<Rightarrow>
                   (let (s, w) = bpshSessionSendCwd (h_cwd env) s (b_world d);
                        (seq, s) = bpshSessionNextSeq s
                    in reply sourceEid (ctl_frame BpshMsgInitAck (q_sessionId s) seq)
                         (d \<lparr> b_sessions := (b_sessions d)[length (b_sessions d) - 1 := s], b_world := w \<rparr>)))))"

definition handle_init :: "Config \<Rightarrow> Surroundings \<Rightarrow> BpshFrame \<Rightarrow> bytes \<Rightarrow> Daemon \<Rightarrow> int \<times> Daemon" where
  "handle_init cfg env f sourceEid d =
     (let (wantStdin, pw) = init_payload f
      in if (case g_secret cfg of None \<Rightarrow> False | Some secret \<Rightarrow> \<not> authOk secret pw)
         then error_reply sourceEid (f_sessionId f) 0 ''authentication failed'' d
         else
           (let d = (case findSession sourceEid (b_sessions d) of
                       None \<Rightarrow> d
                     | Some i \<Rightarrow> removeSession (h_waited env) i d)
            in start_session env sourceEid (f_sessionId f) wantStdin d))"

definition handle_req :: "Surroundings \<Rightarrow> BpshFrame \<Rightarrow> bytes \<Rightarrow> Daemon \<Rightarrow> (int \<times> Daemon) option" where
  "handle_req env f sourceEid d =
     (case findSession sourceEid (b_sessions d) of
        None \<Rightarrow> Some (error_reply sourceEid (f_sessionId f) 0 ''session not initialized; send INIT first'' d)
      | Some i \<Rightarrow>
          (let s = b_sessions d ! i; (seq, s1) = bpshSessionNextSeq s
           in if q_sessionId s \<noteq> f_sessionId f then
                Some (error_reply sourceEid (f_sessionId f) 0 ''session id mismatch; reinit'' d)
              else if \<not> q_shellAlive s then
                Some (error_reply sourceEid (f_sessionId f) seq ''shell exited; reinitialize session''
                        (d \<lparr> b_sessions := (b_sessions d)[i := s1] \<rparr>))
              else if \<not> h_mem env then
                Some (reply sourceEid (exit_frame (f_sessionId f) seq (-1) BpshCauseKilled)
                        (d \<lparr> b_sessions := (b_sessions d)[i := s1] \<rparr>))
              else
                (case bpshSessionRun (h_run env) (cstr (payload_of f)) s ((b_world d) \<lparr> w_deferred := [] \<rparr>) of
                   None \<Rightarrow> None
                 | Some (rc, s, w) \<Rightarrow>
                     (let d = d \<lparr> b_sessions := (b_sessions d)[i := s], b_world := w \<lparr> w_deferred := [] \<rparr>,
                                  b_deferred := deferBundles (h_defer env) (w_deferred w) (b_deferred d) \<rparr>
                      in Some (0, if \<not> q_shellAlive s then removeSession (h_waited env) i d else d)))))"

definition handleFrame ::
  "(bytes \<Rightarrow> bytes \<Rightarrow> bool) \<Rightarrow> Config \<Rightarrow> Surroundings \<Rightarrow> BpshFrame \<Rightarrow> bytes \<Rightarrow> Daemon \<Rightarrow> (int \<times> Daemon) option" where
  "handleFrame glob cfg env f sourceEid d =
     (if \<not> sourceAllowed glob (g_allowed cfg) (Some sourceEid) then
        Some (error_reply sourceEid (f_sessionId f) 0 ''source not permitted'' d)
      else if f_msgType f = BpshMsgInit then Some (handle_init cfg env f sourceEid d)
      else if f_msgType f = BpshMsgReq then handle_req env f sourceEid d
      else if f_msgType f = BpshMsgExitSession then
        Some (0, case findSession sourceEid (b_sessions d) of None \<Rightarrow> d | Some i \<Rightarrow> removeSession (h_waited env) i d)
      else Some (0, d))"

text \<open>The loop of \<open>pruneIdleSessions\<close> from index \<open>i\<close> on.\<close>

function prune_from :: "int \<Rightarrow> int \<Rightarrow> (int \<Rightarrow> nat \<Rightarrow> bool) \<Rightarrow> nat \<Rightarrow> Daemon \<Rightarrow> Daemon" where
  "prune_from limit now waited i d =
     (if i < length (b_sessions d) then
        (if bpshSessionExpired limit now (b_sessions d ! i) then prune_from limit now waited i (removeSession waited i d)
         else prune_from limit now waited (i + 1) d)
      else d)"
  by pat_completeness auto
termination
  by (relation "measures [\<lambda>(l, n, w, i, d). length (b_sessions d), \<lambda>(l, n, w, i, d). length (b_sessions d) - i]")
     (auto simp: removeSession_def swap_out_def)

declare prune_from.simps [simp del]

definition pruneIdleSessions :: "int \<Rightarrow> int \<Rightarrow> (int \<Rightarrow> nat \<Rightarrow> bool) \<Rightarrow> Daemon \<Rightarrow> Daemon" where
  "pruneIdleSessions limit now waited d = prune_from limit now waited 0 d"

text \<open>\<open>True\<close>: a deferred bundle was handled.\<close>

definition drainDeferred ::
  "(bytes \<Rightarrow> bytes \<Rightarrow> bool) \<Rightarrow> Cbor \<Rightarrow> Config \<Rightarrow> Surroundings \<Rightarrow> Daemon \<Rightarrow> (bool \<times> Daemon) option" where
  "drainDeferred glob c cfg env d =
     (case dequeueDeferred (b_deferred d) of
        (None, _) \<Rightarrow> Some (False, d)
      | (Some (bs, src), q) \<Rightarrow>
          (let d = d \<lparr> b_deferred := q \<rparr>; (n, f) = bpsh_decode c bs empty_frame
           in if n < 0 then Some (True, d)
              else map_option (\<lambda>(rc, d). (True, d)) (handleFrame glob cfg env f src d)))"

section \<open>Model: the receive loop\<close>

record Round =
  o_running :: bool
  o_poll :: Poll
  o_env :: Surroundings
  o_now :: int

text \<open>One pass: \<open>True\<close> when the loop is left.\<close>

definition receive_round ::
  "(bytes \<Rightarrow> bytes \<Rightarrow> bool) \<Rightarrow> Cbor \<Rightarrow> Config \<Rightarrow> int \<Rightarrow> Round \<Rightarrow> Daemon \<Rightarrow> (bool \<times> Daemon) option" where
  "receive_round glob c cfg limit r d =
     (if \<not> o_running r then Some (True, d)
      else
        (case drainDeferred glob c cfg (o_env r) d of
           None \<Rightarrow> None
         | Some (handled, d) \<Rightarrow>
             if handled then Some (False, d)
             else
               (case o_poll r of
                  PollFatal \<Rightarrow> Some (True, d)
                | PollNone \<Rightarrow> Some (False, d)
                | PollSkip \<Rightarrow> Some (False, d)
                | PollFrame f bs src \<Rightarrow>
                    map_option (\<lambda>(rc, d). (False, pruneIdleSessions limit (o_now r) (h_waited (o_env r)) d))
                      (handleFrame glob cfg (o_env r) f src d))))"

text \<open>The state after the passes so far; the passes that follow the one with which the loop is left
  do not happen.\<close>

fun receiveLoop ::
  "(bytes \<Rightarrow> bytes \<Rightarrow> bool) \<Rightarrow> Cbor \<Rightarrow> Config \<Rightarrow> int \<Rightarrow> Round list \<Rightarrow> Daemon \<Rightarrow> (bool \<times> Daemon) option" where
  "receiveLoop glob c cfg limit [] d = Some (False, d)"
| "receiveLoop glob c cfg limit (r # rs) d =
     (case receive_round glob c cfg limit r d of
        None \<Rightarrow> None
      | Some (left, d) \<Rightarrow> if left then Some (True, d) else receiveLoop glob c cfg limit rs d)"

section \<open>Model: starting up\<close>

record Args =
  a_user :: "bytes option"
  a_secretFile :: "bytes option"
  a_allow :: "bytes option"
  a_listen :: bytes

text \<open>\<open>None\<close>: the usage is printed.\<close>

fun bpshd_args :: "bytes list \<Rightarrow> Args \<Rightarrow> Args option" where
  "bpshd_args [] a = None"
| "bpshd_args (x # xs) a =
     (if x \<noteq> [] \<and> hd x = 45 then
        (case xs of
           [] \<Rightarrow> None
         | y # ys \<Rightarrow>
             if x = ascii ''-u'' then bpshd_args ys (a \<lparr> a_user := Some y \<rparr>)
             else if x = ascii ''-k'' then bpshd_args ys (a \<lparr> a_secretFile := Some y \<rparr>)
             else if x = ascii ''-a'' then bpshd_args ys (a \<lparr> a_allow := Some y \<rparr>)
             else None)
      else Some (a \<lparr> a_listen := x \<rparr>))"

text \<open>Who will be served; \<open>None\<close>: the daemon does not start.\<close>

definition configure :: "(bytes \<Rightarrow> bytes option) \<Rightarrow> bool \<Rightarrow> bytes option \<Rightarrow> Args \<Rightarrow> Config option" where
  "configure file mem envSecret a =
     (case (case a_allow a of None \<Rightarrow> Some None | Some l \<Rightarrow> map_option Some (parseAllowedEids mem l)) of
        None \<Rightarrow> None
      | Some allowed \<Rightarrow>
          (case a_secretFile a of
             Some path \<Rightarrow>
               (case bpsh_load_secret file mem (Some path) of
                  None \<Rightarrow> None
                | Some secret \<Rightarrow> Some \<lparr>g_secret = Some secret, g_allowed = allowed\<rparr>)
           | None \<Rightarrow> Some \<lparr>g_secret = envSecret, g_allowed = allowed\<rparr>))"

definition bpshd_start :: Daemon where
  "bpshd_start = \<lparr>b_sessions = [], b_cap = 0, b_deferred = [], b_world = idle_world, b_procs = []\<rparr>"

section \<open>The parts\<close>

lemma or_zero_iff: "(a :: u8) OR b = 0 \<longleftrightarrow> a = 0 \<and> b = 0"
  by (simp add: bit_eq_iff bit_simps) blast

lemma xor_zero_iff: "(a :: u8) XOR b = 0 \<longleftrightarrow> a = b"
  by (metis xor_self_eq xor.assoc xor.left_neutral xor.right_neutral)

lemma foldl_diff: "foldl (\<lambda>diff (a, b). diff OR (a XOR b)) d xs = (0 :: u8) \<longleftrightarrow> d = 0 \<and> (\<forall>(a, b) \<in> set xs. a = b)"
  by (induction xs arbitrary: d) (auto simp: or_zero_iff xor_zero_iff)

text \<open>The comparison that looks at every octet is equality.\<close>

lemma authOk_iff: "authOk secret pw \<longleftrightarrow> pw = Some secret"
proof (cases pw)
  case (Some p)
  have "length p = length secret \<Longrightarrow> (\<forall>(a, b) \<in> set (zip p secret). a = b) \<longleftrightarrow> p = secret"
    by (auto simp: list_eq_iff_zip_eq)
  then show ?thesis using Some by (auto simp: authOk_def foldl_diff)
qed (simp add: authOk_def)

lemma findSession_Some: "findSession src ss = Some i \<Longrightarrow> i < length ss \<and> q_sourceEid (ss ! i) = src"
  by (induction ss arbitrary: i) (auto split: if_splits)

lemma findSession_None: "findSession src ss = None \<longleftrightarrow> src \<notin> q_sourceEid ` set ss"
  by (induction ss) auto

lemma mset_swap_out: "i < length xs \<Longrightarrow> mset (swap_out i xs) = mset xs - {#xs ! i#}"
proof (cases xs rule: rev_cases)
  case (snoc ys y)
  assume "i < length xs"
  then show ?thesis using snoc by (cases "i < length ys") (auto simp: swap_out_def butlast_append list_update_append nth_append mset_update less_Suc_eq)
qed (simp add: swap_out_def)

lemma length_swap_out [simp]: "length (swap_out i xs) = length xs - 1"
  by (simp add: swap_out_def)

lemma set_swap_out: "i < length xs \<Longrightarrow> set (swap_out i xs) \<subseteq> set xs"
  by (metis mset_swap_out set_mset_mset mset_subset_eqD diff_subset_eq_self subsetI)

lemma distinct_swap_out:
  assumes "i < length xs" "distinct (map f xs)"
  shows "distinct (map f (swap_out i xs)) \<and> f (xs ! i) \<notin> f ` set (swap_out i xs)"
proof -
  have "mset xs = add_mset (xs ! i) (mset (swap_out i xs))"
    using assms(1) by (simp add: mset_swap_out insert_DiffM)
  then have "mset (map f xs) = mset (f (xs ! i) # map f (swap_out i xs))" by simp
  then have "distinct (f (xs ! i) # map f (swap_out i xs))" using assms(2) mset_eq_imp_distinct_iff by blast
  then show ?thesis by simp
qed

text \<open>The patterns of the allowlist: the pieces between commas, without leading blanks, none empty.\<close>

lemma parseAllowedEids_patterns:
  assumes "parseAllowedEids mem arg = Some pats" "p \<in> set pats"
  shows "p \<noteq> [] \<and> 44 \<notin> set p \<and> \<not> is_blank_char (hd p)"
proof -
  have "44 \<notin> set t" if "t \<in> set (strtok_comma s)" for s t
    using that
  proof (induction s rule: strtok_comma.induct)
    case (1 s)
    let ?s = "dropWhile (\<lambda>c. c = 44) s"
    show ?case
    proof (cases "?s = []")
      case True
      then show ?thesis using 1(2) by (simp add: strtok_comma.simps[of s] Let_def del: dropWhile_eq_Nil_conv)
    next
      case False
      then have "t = takeWhile (\<lambda>c. c \<noteq> 44) ?s \<or> t \<in> set (strtok_comma (dropWhile (\<lambda>c. c \<noteq> 44) ?s))"
        using 1(2) by (simp add: strtok_comma.simps[of s] Let_def del: dropWhile_eq_Nil_conv)
      then show ?thesis using 1(1)[OF refl False] by (auto dest: set_takeWhileD)
    qed
  qed
  moreover obtain t where t: "t \<in> set (strtok_comma arg)" "p = dropWhile is_blank_char t" "p \<noteq> []"
    using assms by (auto simp: parseAllowedEids_def split: if_splits)
  ultimately show ?thesis using hd_dropWhile[of is_blank_char t] set_dropWhileD[of 44 is_blank_char t] by auto
qed

section \<open>What a command leaves alone\<close>

definition ident :: "BpshSession \<Rightarrow> bytes \<times> u64 \<times> int \<times> bool" where
  "ident s = (q_sourceEid s, q_sessionId s, q_shellPid s, q_userStdinReq s)"

definition quiet :: "(bytes \<times> bytes) set \<Rightarrow> BpshSession \<Rightarrow> World \<Rightarrow> BpshSession \<Rightarrow> World \<Rightarrow> bool" where
  "quiet B s w s' w' \<longleftrightarrow> ident s' = ident s \<and> w_shell w' = w_shell w \<and> set (w_deferred w') \<subseteq> set (w_deferred w) \<union> B"

lemma quiet_refl [simp, intro]: "quiet B s w s w"
  by (simp add: quiet_def)

lemma quiet_trans: "quiet B s w s1 w1 \<Longrightarrow> quiet B s1 w1 s' w' \<Longrightarrow> quiet B s w s' w'"
  by (auto simp: quiet_def)

lemma send_out_quiet: "send_out dest f w = (rc, w') \<Longrightarrow> w_shell w' = w_shell w \<and> w_deferred w' = w_deferred w"
  by (auto simp: send_out_def split: list.splits if_splits)

lemma send_loop_quiet: "send_loop type buf s w = (rc, s', w') \<Longrightarrow> quiet B s w s' w'"
proof (induction type buf s w rule: send_loop.induct)
  case (1 type buf s w)
  show ?case
  proof (cases "buf = []")
    case True
    then show ?thesis using 1(2) by (simp add: send_loop.simps)
  next
    case False
    let ?n = "min (length buf) BPSHD_MAX_PAYLOAD"
    obtain rc1 w1 where o: "send_out (q_sourceEid s) (bytes_frame type (q_sessionId s) (q_replySeq s) (take ?n buf)) w = (rc1, w1)"
      by fastforce
    have q: "quiet B s w s w1" "quiet B s w (s \<lparr> q_replySeq := q_replySeq s + 1 \<rparr>) w1"
      using send_out_quiet[OF o] by (simp_all add: quiet_def ident_def)
    note step = 1(2)[unfolded send_loop.simps[of type buf s w] if_not_P[OF False] Let_def o prod.case]
    show ?thesis
    proof (cases "rc1 < 0")
      case True
      then show ?thesis using step q by simp
    next
      case n: False
      then have "send_loop type (drop ?n buf) (s \<lparr> q_replySeq := q_replySeq s + 1 \<rparr>) w1 = (rc, s', w')" using step by simp
      then show ?thesis using 1(1)[OF False refl o[symmetric] refl n] quiet_trans[OF q(2)] by blast
    qed
  qed
qed

lemma drainStream_quiet: "drainStream rs type s w = Some (rc, s', w') \<Longrightarrow> quiet B s w s' w'"
proof (induction rs type s w rule: drainStream.induct)
  case (2 chunk reads type s w)
  obtain rc1 s1 w1 where o: "sendStream type chunk s w = (rc1, s1, w1)" by (metis prod_cases3)
  have "quiet B s w s1 w1" using o send_loop_quiet by (simp add: sendStream_def)
  then show ?case using 2 o quiet_trans by (auto split: if_splits)
qed auto

lemma sendCwd_quiet: "bpshSessionSendCwd path s w = (s', w') \<Longrightarrow> quiet B s w s' w' \<and> q_shellAlive s' = q_shellAlive s"
proof (cases path)
  case (Some p)
  assume a: "bpshSessionSendCwd path s w = (s', w')"
  obtain rc1 w1 where o: "send_out (q_sourceEid s) (bytes_frame BpshMsgCwd (q_sessionId s) (q_replySeq s) p) w = (rc1, w1)" by fastforce
  then show ?thesis using a Some send_out_quiet[OF o] by (auto simp: bpshSessionSendCwd_def quiet_def ident_def)
qed (auto simp: bpshSessionSendCwd_def)

lemma send_exit_quiet: "send_exit code cause s w = (rc, s', w') \<Longrightarrow> quiet B s w s' w' \<and> q_shellAlive s' = q_shellAlive s"
proof -
  assume a: "send_exit code cause s w = (rc, s', w')"
  obtain rc1 w1 where o: "send_out (q_sourceEid s) (exit_frame (q_sessionId s) (q_replySeq s) code cause) w = (rc1, w1)" by fastforce
  then show ?thesis using a send_out_quiet[OF o] by (auto simp: send_exit_def quiet_def ident_def)
qed

text \<open>The bundles that polling can bring.\<close>

fun poll_bundle :: "Poll \<Rightarrow> (bytes \<times> bytes) list" where
  "poll_bundle (PollFrame f bs src) = [(bs, src)]"
| "poll_bundle _ = []"

definition polled :: "Poll list \<Rightarrow> (bytes \<times> bytes) set" where
  "polled ps = (\<Union>p \<in> set ps. set (poll_bundle p))"

lemma polled_simps [simp]: "polled [] = {}" "polled (p # ps) = set (poll_bundle p) \<union> polled ps"
  by (simp_all add: polled_def)

lemma pollIncoming_quiet: "pollIncoming running epipe ps s w = (rc, s', w') \<Longrightarrow> polled ps \<subseteq> B \<Longrightarrow> quiet B s w s' w'"
proof (induction ps arbitrary: s w)
  case Nil
  then show ?case by (auto split: if_splits)
next
  case (Cons p ps)
  have ps: "polled ps \<subseteq> B" using Cons.prems(2) by simp
  note ih = Cons.IH[OF _ ps]
  show ?case
  proof (cases "running \<and> (\<exists>f bs src. p = PollFrame f bs src)")
    case False
    then show ?thesis using Cons.prems(1) ih by (cases p) (auto split: if_splits)
  next
    case True
    then obtain f bs src where p: "running" "p = PollFrame f bs src" by blast
    have b: "(bs, src) \<in> B" using Cons.prems(2) p by simp
    let ?kill = "if f_msgType f = BpshMsgInit \<and> src = q_sourceEid s \<and> q_shellPid s > 0
                 then w \<lparr> w_kills := w_kills w @ [- q_shellPid s] \<rparr> else w"
    let ?closed = "s \<lparr> q_userStdinFd := False \<rparr>" and ?fed = "w \<lparr> w_stdin := w_stdin w @ payload_of f \<rparr>"
      and ?kept = "?kill \<lparr> w_deferred := w_deferred ?kill @ [(bs, src)] \<rparr>"
    have q: "quiet B s w ?closed w" "quiet B s w s ?fed" "quiet B s w s ?kept"
      using b by (simp_all add: quiet_def ident_def)
    consider (chunk) "is_mine s f src" "f_msgType f = BpshMsgStdinChunk" | (eof) "is_mine s f src" "f_msgType f = BpshMsgStdinEof" |
      (other) "\<not> (is_mine s f src \<and> f_msgType f = BpshMsgStdinChunk)" "\<not> (is_mine s f src \<and> f_msgType f = BpshMsgStdinEof)" by blast
    then show ?thesis
    proof cases
      case chunk
      then have "pollIncoming running epipe ps ?closed w = (rc, s', w') \<or> pollIncoming running epipe ps s ?fed = (rc, s', w') \<or>
        pollIncoming running epipe ps s w = (rc, s', w')"
        using Cons.prems(1) p by (auto split: if_splits)
      then show ?thesis using ih quiet_trans[OF q(1)] quiet_trans[OF q(2)] by blast
    next
      case eof
      have "BpshMsgStdinEof \<noteq> BpshMsgStdinChunk" by (simp add: bpsh_msgs)
      then show ?thesis using Cons.prems(1) p eof ih quiet_trans[OF q(1)] by simp
    next
      case other
      have "pollIncoming running epipe ps s ?kept = (rc, s', w')"
        using Cons.prems(1) p other by (simp only: pollIncoming.simps(2) Poll.case not_True_eq_False if_False Let_def)
      then show ?thesis using ih quiet_trans[OF q(3)] by blast
    qed
  qed
qed

lemma stream_read_quiet:
  "stream_read type r eof st = (e, st') \<Longrightarrow> quiet B (v_session st) (v_world st) (v_session st') (v_world st')"
proof (cases "\<exists>chunk. r = Some (Octets chunk) \<and> chunk \<noteq> []")
  case True
  assume a: "stream_read type r eof st = (e, st')"
  from True obtain chunk where r: "r = Some (Octets chunk)" "chunk \<noteq> []" by blast
  obtain rc1 s1 w1 where o: "sendStream type chunk (v_session st) (v_world st) = (rc1, s1, w1)" by (metis prod_cases3)
  then have "quiet B (v_session st) (v_world st) s1 w1" using send_loop_quiet by (simp add: sendStream_def)
  then show ?thesis using a r o by (auto simp: stream_read_def)
qed (auto simp: stream_read_def split: option.splits ReadResult.splits)

lemma killSession_quiet: "killSession why s w = (cause, s', w') \<Longrightarrow> quiet B s w s' w'"
  by (auto simp: killSession_def quiet_def ident_def split: if_splits)

lemma ctl_read_quiet:
  "ctl_read strtol r st = (found, st') \<Longrightarrow> quiet B (v_session st) (v_world st) (v_session st') (v_world st')"
  by (auto simp: ctl_read_def quiet_def ident_def Let_def split: option.splits ReadResult.splits if_splits)

lemma after_streams_quiet:
  assumes "after_streams strtol t st = (left, st')" "polled (t_polls t) \<subseteq> B"
  shows "quiet B (v_session st) (v_world st) (v_session st') (v_world st')"
proof (cases "v_totalOut st > BPSHD_OUTPUT_LIMIT")
  case True
  obtain c s w where k: "killSession BpshCauseOutputLimit (v_session st) (v_world st) = (c, s, w)" by (metis prod_cases3)
  show ?thesis using assms(1) True k killSession_quiet[OF k] by (auto simp: after_streams_def)
next
  case False
  obtain found st1 where c: "ctl_read strtol (if q_ctlFd (v_session st) then t_ctl t else None) st = (found, st1)" by fastforce
  obtain rc s w where p: "pollIncoming (t_running t) (t_epipe t) (t_polls t) (v_session st1) (v_world st1) = (rc, s, w)"
    by (metis prod_cases3)
  have dead: "quiet B (v_session st1) (v_world st1) (v_session st1 \<lparr> q_shellAlive := False \<rparr>) (v_world st1)"
    by (simp add: quiet_def ident_def)
  note e = assms(1)[unfolded after_streams_def if_not_P[OF False] c Let_def prod.case p]
  show ?thesis
    using e ctl_read_quiet[OF c, of B] pollIncoming_quiet[OF p assms(2)] dead quiet_trans
    by (auto split: if_splits)
qed

lemma run_turn_quiet:
  assumes "run_turn strtol timeout start t st = (left, st')" "polled (t_polls t) \<subseteq> B"
  shows "quiet B (v_session st) (v_world st) (v_session st') (v_world st')"
proof (cases "turn_reads timeout start t")
  case False
  obtain c s w where k: "killSession BpshCauseTimeout (v_session st) (v_world st) = (c, s, w)" by (metis prod_cases3)
  have dead: "quiet B (v_session st) (v_world st) (v_session st \<lparr> q_shellAlive := False \<rparr>) (v_world st)"
    by (simp add: quiet_def ident_def)
  show ?thesis
    using assms(1) False k killSession_quiet[OF k] dead by (auto simp: run_turn_def turn_reads_def split: Select.splits if_splits)
next
  case True
  obtain e1 st1 where r1: "stream_read BpshMsgStdout (t_out t) (v_outEof st) st = (e1, st1)" by fastforce
  let ?st1 = "st1 \<lparr> v_outEof := e1 \<rparr>"
  obtain e2 st2 where r2: "stream_read BpshMsgStderr (t_err t) (v_errEof ?st1) ?st1 = (e2, st2)" by fastforce
  have "after_streams strtol t (st2 \<lparr> v_errEof := e2 \<rparr>) = (left, st')"
    using assms(1) True r1 r2 by (simp add: run_turn_def turn_reads_def if_not_P Let_def)
  from after_streams_quiet[OF this assms(2)] stream_read_quiet[OF r1, of B] stream_read_quiet[OF r2, of B]
  show ?thesis by (auto intro: quiet_trans)
qed

definition run_polled :: "RunEnv \<Rightarrow> (bytes \<times> bytes) set" where
  "run_polled env = (\<Union>t \<in> set (e_turns env). polled (t_polls t))"

lemma run_loop_quiet:
  "run_loop strtol timeout start ts st = Some st' \<Longrightarrow> \<forall>t \<in> set ts. polled (t_polls t) \<subseteq> B \<Longrightarrow>
   quiet B (v_session st) (v_world st) (v_session st') (v_world st')"
proof (induction ts arbitrary: st)
  case (Cons t ts)
  obtain left st1 where t: "run_turn strtol timeout start t st = (left, st1)" by fastforce
  have q: "quiet B (v_session st) (v_world st) (v_session st1) (v_world st1)" using run_turn_quiet[OF t] Cons.prems(2) by simp
  show ?case
  proof (cases left)
    case False
    then show ?thesis using quiet_trans[OF q] Cons t by simp
  qed (use Cons.prems t q in simp)
qed simp

lemma run_finish_quiet:
  assumes "run_finish env st = Some (rc, s', w')"
  shows "quiet B (v_session st) (v_world st) s' w'"
proof -
  obtain rc1 s1 w1 where d1: "drainStream (e_drainOut env) BpshMsgStdout (v_session st) (v_world st) = Some (rc1, s1, w1)"
    using assms by (auto simp: run_finish_def split: option.splits)
  obtain rc2 s2 w2 where d2: "drainStream (e_drainErr env) BpshMsgStderr s1 w1 = Some (rc2, s2, w2)"
    using assms d1 by (auto simp: run_finish_def split: option.splits)
  obtain s3 w3 where c: "(if q_shellAlive s2 then bpshSessionSendCwd (e_cwd env) s2 w2 else (s2, w2)) = (s3, w3)" by fastforce
  have e: "send_exit (v_exitCode st) (v_cause st) s3 w3 = (rc, s', w')" using assms d1 d2 c by (simp add: run_finish_def)
  have "quiet B s2 w2 s3 w3" using c sendCwd_quiet[of "e_cwd env" s2 w2 s3 w3 B] by (auto split: if_splits)
  with drainStream_quiet[OF d1, of B] drainStream_quiet[OF d2, of B] send_exit_quiet[OF e, of B]
  show ?thesis by (auto intro: quiet_trans)
qed

text \<open>A run keeps the identity of its session, gives its shell the one command line or nothing, and hands
  on only bundles that have arrived meanwhile.\<close>

lemma bpshSessionRun_frame:
  assumes "bpshSessionRun env cmd s w = Some (rc, s', w')"
  shows "ident s' = ident s \<and> (w_shell w' = w_shell w \<or> w_shell w' = w_shell w @ postscript (q_userStdinReq s) cmd) \<and>
    set (w_deferred w') \<subseteq> set (w_deferred w) \<union> run_polled env"
proof (cases "e_mem env \<and> e_written env")
  case False
  have i: "ident (s \<lparr> q_lastActivity := e_now env \<rparr>) = ident s" "ident (s \<lparr> q_lastActivity := e_now env, q_shellAlive := False \<rparr>) = ident s"
    by (simp_all add: ident_def)
  have "quiet (run_polled env) (s \<lparr> q_lastActivity := e_now env \<rparr>) w s' w' \<or>
    quiet (run_polled env) (s \<lparr> q_lastActivity := e_now env, q_shellAlive := False \<rparr>) w s' w'"
    using assms False by (auto simp: bpshSessionRun_def Let_def split: if_splits dest!: send_exit_quiet)
  then show ?thesis using i by (auto simp: quiet_def)
next
  case True
  then obtain st where r: "run_loop (e_strtol env) (e_timeout env) (e_nowMs env) (e_turns env) (run_start env cmd s w) = Some st"
    "run_finish env st = Some (rc, s', w')"
    using assms by (auto simp: bpshSessionRun_started bind_eq_Some_conv)
  have "quiet (run_polled env) (v_session (run_start env cmd s w)) (v_world (run_start env cmd s w)) (v_session st) (v_world st)"
    by (rule run_loop_quiet[OF r(1)]) (auto simp: run_polled_def)
  from quiet_trans[OF this run_finish_quiet[OF r(2)]] show ?thesis
    by (auto simp: quiet_def run_start_def ident_def)
qed

section \<open>A decoded frame is coherent\<close>

lemma decode_payload_coherent:
  "decode_payload c buf left g = (n, f) \<Longrightarrow> 0 \<le> n \<Longrightarrow> f_payload g = None \<Longrightarrow> f_payloadLen g = 0 \<Longrightarrow>
   f_payloadLen f = length (payload_of f)"
  by (auto simp: decode_payload_def payload_of_def Let_def split: if_splits option.splits)

lemma bpsh_decode_coherent:
  "bpsh_decode c buf g = (n, f) \<Longrightarrow> 0 \<le> n \<Longrightarrow> f_payloadLen f = length (payload_of f)"
  by (auto simp: bpsh_decode_def Let_def split: if_splits option.splits dest!: decode_payload_coherent)

end
