(* ===== verification/BpshdSafety.thy ===== *)
theory BpshdSafety
  imports Bpshd
begin

unbundle bit_operations_syntax
text \<open>
  What the daemon of the remote shell (Bpshd) guarantees whatever bundles arrive: who has a session, who
  can run a command, that no shell is lost; what pruning removes; and what the daemon does not look at.
\<close>

section \<open>The daemon's invariant\<close>

text \<open>The frame that a bundle holds.\<close>

definition bundle_frame :: "Cbor \<Rightarrow> bytes \<Rightarrow> BpshFrame option" where
  "bundle_frame c bs = (let (n, f) = bpsh_decode c bs empty_frame in if n < 0 then None else Some f)"

text \<open>An INIT from a client who may be served, with the secret, for this session.\<close>

definition admits :: "(bytes \<Rightarrow> bytes \<Rightarrow> bool) \<Rightarrow> Config \<Rightarrow> BpshFrame \<Rightarrow> bytes \<Rightarrow> bytes \<times> u64 \<times> int \<times> bool \<Rightarrow> bool" where
  "admits glob cfg f src sess \<longleftrightarrow>
     (case sess of (eid, sid, pid, req) \<Rightarrow>
        f_msgType f = BpshMsgInit \<and> src = eid \<and> f_sessionId f = sid \<and> fst (init_payload f) = req \<and>
        sourceAllowed glob (g_allowed cfg) (Some src) \<and>
        (\<forall>secret. g_secret cfg = Some secret \<longrightarrow> (\<exists>flag. payload_of f = flag # secret)))"

definition admitted ::
  "(bytes \<Rightarrow> bytes \<Rightarrow> bool) \<Rightarrow> Cbor \<Rightarrow> Config \<Rightarrow> (bytes \<times> bytes) set \<Rightarrow> bytes \<times> u64 \<times> int \<times> bool \<Rightarrow> bool" where
  "admitted glob c cfg B sess \<longleftrightarrow>
     (\<exists>bs src f. (bs, src) \<in> B \<and> bundle_frame c bs = Some f \<and> admits glob cfg f src sess)"

text \<open>A command line that a client with a session has asked for.\<close>

definition requested ::
  "(bytes \<Rightarrow> bytes \<Rightarrow> bool) \<Rightarrow> Cbor \<Rightarrow> Config \<Rightarrow> (bytes \<times> bytes) set \<Rightarrow> bool \<times> bytes \<Rightarrow> bool" where
  "requested glob c cfg B cmd \<longleftrightarrow>
     (\<exists>bs src f pid. (bs, src) \<in> B \<and> bundle_frame c bs = Some f \<and> f_msgType f = BpshMsgReq \<and>
        snd cmd = cstr (payload_of f) \<and> admitted glob c cfg B (src, f_sessionId f, pid, fst cmd))"

definition started :: "Process list \<Rightarrow> int multiset" where
  "started ps = mset (concat (map (\<lambda>p. case p of Started n \<Rightarrow> [n] | _ \<Rightarrow> []) ps))"

definition reaped :: "Process list \<Rightarrow> int multiset" where
  "reaped ps = mset (concat (map (\<lambda>p. case p of Reaped n \<Rightarrow> [n] | _ \<Rightarrow> []) ps))"

lemma started_simps [simp]:
  "started [] = {#}" "started (Started n # ps) = add_mset n (started ps)" "started (Terminated n # ps) = started ps"
  "started (Killed n # ps) = started ps" "started (Reaped n # ps) = started ps" "started (ps @ qs) = started ps + started qs"
  by (simp_all add: started_def)

lemma reaped_simps [simp]:
  "reaped [] = {#}" "reaped (Started n # ps) = reaped ps" "reaped (Terminated n # ps) = reaped ps"
  "reaped (Killed n # ps) = reaped ps" "reaped (Reaped n # ps) = add_mset n (reaped ps)" "reaped (ps @ qs) = reaped ps + reaped qs"
  by (simp_all add: reaped_def)

lemma close_processes:
  "started (bpshSessionClose waited s) = {#}" "q_shellPid s > 0 \<Longrightarrow> reaped (bpshSessionClose waited s) = {#q_shellPid s#}"
  by (simp_all add: bpshSessionClose_def)

text \<open>One live session per client, and every shell started is in the table or has been waited for.\<close>

definition table_ok :: "BpshSession list \<Rightarrow> Process list \<Rightarrow> bool" where
  "table_ok ss ps \<longleftrightarrow> distinct (map q_sourceEid ss) \<and> (\<forall>s \<in> set ss. q_shellAlive s \<and> q_shellPid s > 0) \<and>
     started ps = reaped ps + image_mset q_shellPid (mset ss)"

definition shell_ok :: "(bytes \<Rightarrow> bytes \<Rightarrow> bool) \<Rightarrow> Cbor \<Rightarrow> Config \<Rightarrow> (bytes \<times> bytes) set \<Rightarrow> bytes \<Rightarrow> bool" where
  "shell_ok glob c cfg B text \<longleftrightarrow>
     (\<exists>cmds. text = concat (map (\<lambda>(req, cmd). postscript req cmd) cmds) \<and> (\<forall>x \<in> set cmds. requested glob c cfg B x))"

definition daemon_ok :: "(bytes \<Rightarrow> bytes \<Rightarrow> bool) \<Rightarrow> Cbor \<Rightarrow> Config \<Rightarrow> (bytes \<times> bytes) set \<Rightarrow> Daemon \<Rightarrow> bool" where
  "daemon_ok glob c cfg B d \<longleftrightarrow> table_ok (b_sessions d) (b_procs d) \<and>
     (\<forall>s \<in> set (b_sessions d). admitted glob c cfg B (ident s)) \<and> set (b_deferred d) \<subseteq> B \<and>
     shell_ok glob c cfg B (w_shell (b_world d)) \<and> w_deferred (b_world d) = []"

lemma daemon_ok_reply:
  assumes "daemon_ok glob c cfg B d" "reply dest f d = (rc, d')"
  shows "daemon_ok glob c cfg B d'"
proof -
  obtain rc1 w where o: "send_out dest f (b_world d) = (rc1, w)" by fastforce
  then show ?thesis using assms send_out_quiet[OF o] by (auto simp: reply_def daemon_ok_def)
qed

lemma daemon_ok_error:
  "daemon_ok glob c cfg B d \<Longrightarrow> error_reply dest sid seq msg d = (rc, d') \<Longrightarrow> daemon_ok glob c cfg B d'"
  unfolding error_reply_def by (rule daemon_ok_reply)

lemma map_update_same: "i < length xs \<Longrightarrow> f y = f (xs ! i) \<Longrightarrow> map f (xs[i := y]) = map f xs"
  by (simp add: map_update list_update_same_conv)

lemma table_ok_update:
  assumes "table_ok ss ps" "i < length ss" "ident s = ident (ss ! i)" "q_shellAlive s"
  shows "table_ok (ss[i := s]) ps"
proof -
  have e: "map q_sourceEid (ss[i := s]) = map q_sourceEid ss" "map q_shellPid (ss[i := s]) = map q_shellPid ss"
    using assms(2,3) by (auto intro!: map_update_same simp: ident_def)
  have "image_mset q_shellPid (mset (ss[i := s])) = image_mset q_shellPid (mset ss)"
    using e(2) by (metis mset_map)
  moreover have "q_shellPid s > 0" using assms by (simp add: table_ok_def ident_def)
  ultimately show ?thesis
    using assms(1,4) e(1) set_update_subset_insert[of ss i s] by (auto simp: table_ok_def)
qed

lemma daemon_ok_update:
  assumes "daemon_ok glob c cfg B d" "i < length (b_sessions d)" "ident s = ident (b_sessions d ! i)" "q_shellAlive s"
  shows "daemon_ok glob c cfg B (d \<lparr> b_sessions := (b_sessions d)[i := s] \<rparr>)"
  using assms table_ok_update[OF _ assms(2-4)] set_update_subset_insert[of "b_sessions d" i s]
  by (auto simp: daemon_ok_def)

lemma daemon_ok_remove:
  assumes "daemon_ok glob c cfg B d" "i < length (b_sessions d)"
  shows "daemon_ok glob c cfg B (removeSession waited i d) \<and>
    q_sourceEid (b_sessions d ! i) \<notin> q_sourceEid ` set (b_sessions (removeSession waited i d))"
proof -
  let ?ss = "b_sessions d" and ?s = "b_sessions d ! i"
  have t: "table_ok ?ss (b_procs d)" using assms(1) by (simp add: daemon_ok_def)
  have pid: "q_shellPid ?s > 0" using t assms(2) by (simp add: table_ok_def)
  have "distinct (map q_sourceEid ?ss)" using t by (simp add: table_ok_def)
  then have d: "distinct (map q_sourceEid (swap_out i ?ss)) \<and> q_sourceEid ?s \<notin> q_sourceEid ` set (swap_out i ?ss)"
    by (rule distinct_swap_out[OF assms(2)])
  have "mset ?ss = add_mset ?s (mset (swap_out i ?ss))" using assms(2) by (simp add: mset_swap_out insert_DiffM)
  then have "image_mset q_shellPid (mset ?ss) = add_mset (q_shellPid ?s) (image_mset q_shellPid (mset (swap_out i ?ss)))" by simp
  then have "table_ok (swap_out i ?ss) (b_procs d @ bpshSessionClose waited ?s)"
    using t d set_swap_out[OF assms(2)] close_processes(1)[of waited ?s] close_processes(2)[OF pid, of waited]
    by (auto simp: table_ok_def)
  then show ?thesis using assms(1) d set_swap_out[OF assms(2)] by (auto simp: daemon_ok_def removeSession_def)
qed

lemma swap_out_update: "i < length xs \<Longrightarrow> swap_out i (xs[i := y]) = swap_out i xs"
  by (cases xs rule: rev_cases) (auto simp: swap_out_def list_update_append nth_append butlast_append less_Suc_eq)

lemma removeSession_updated:
  assumes "i < length (b_sessions d)" "ident s = ident (b_sessions d ! i)"
  shows "removeSession waited i (d \<lparr> b_sessions := (b_sessions d)[i := s] \<rparr>) = removeSession waited i d"
  using assms by (simp add: removeSession_def swap_out_update bpshSessionClose_def ident_def)

lemma deferBundles_subset: "set (deferBundles mems bs q) \<subseteq> set q \<union> set bs"
  by (induction mems bs q rule: deferBundles.induct) (fastforce simp: enqueueDeferred_def split: if_splits)+

section \<open>Every frame keeps it\<close>

definition surroundings_ok :: "(bytes \<times> bytes) set \<Rightarrow> Surroundings \<Rightarrow> bool" where
  "surroundings_ok B env \<longleftrightarrow> run_polled (h_run env) \<subseteq> B \<and> (\<forall>pid. h_open env = Some pid \<longrightarrow> pid > 0)"

lemma daemon_ok_start:
  assumes "daemon_ok glob c cfg B d" "src \<notin> q_sourceEid ` set (b_sessions d)" "surroundings_ok B env"
    "\<And>pid. admitted glob c cfg B (src, sid, pid, want)" "start_session env src sid want d = (rc, d')"
  shows "daemon_ok glob c cfg B d'"
proof (cases "h_open env")
  case None
  then show ?thesis using assms(1,5) daemon_ok_error by (simp add: start_session_def)
next
  case (Some pid)
  have pid: "pid > 0" using assms(3) Some by (simp add: surroundings_ok_def)
  let ?s = "bpshSessionOpen src sid want pid (h_now env)" and ?d = "d \<lparr> b_procs := b_procs d @ [Started pid] \<rparr>"
  have s: "q_shellPid ?s = pid" "q_sourceEid ?s = src" "q_shellAlive ?s" "ident ?s = (src, sid, pid, want)"
    by (simp_all add: bpshSessionOpen_def ident_def)
  show ?thesis
  proof (cases "addSession (h_grow env) ?s ?d")
    case None
    have "daemon_ok glob c cfg B (?d \<lparr> b_procs := b_procs ?d @ bpshSessionClose (h_waited env) ?s \<rparr>)"
      using assms(1) s(1) pid close_processes(2)[of ?s] by (simp add: daemon_ok_def table_ok_def close_processes(1))
    then show ?thesis using assms(5) Some None daemon_ok_error by (simp add: start_session_def)
  next
    case add: (Some d1)
    have d1: "b_sessions d1 = b_sessions d @ [?s]" "b_procs d1 = b_procs d @ [Started pid]" "b_world d1 = b_world d"
      "b_deferred d1 = b_deferred d"
      using add by (auto simp: addSession_def split: if_splits)
    have ok1: "daemon_ok glob c cfg B d1"
      using assms(1,2) assms(4)[of pid] d1 s pid by (auto simp: daemon_ok_def table_ok_def)
    obtain s2 w where cwd: "bpshSessionSendCwd (h_cwd env) ?s (b_world d1) = (s2, w)" by fastforce
    have q: "quiet B ?s (b_world d1) s2 w" "q_shellAlive s2" "quiet {} ?s (b_world d1) s2 w"
      using sendCwd_quiet[OF cwd] s(3) by auto
    let ?s3 = "s2 \<lparr> q_replySeq := q_replySeq s2 + 1 \<rparr>"
    have last: "b_sessions d1 ! (length (b_sessions d1) - 1) = ?s" "length (b_sessions d1) - 1 < length (b_sessions d1)" using d1(1) by simp_all
    have "ident ?s3 = ident ?s" using q(1) by (simp add: quiet_def ident_def)
    then have "daemon_ok glob c cfg B (d1 \<lparr> b_sessions := (b_sessions d1)[length (b_sessions d1) - 1 := ?s3] \<rparr>)"
      using daemon_ok_update[OF ok1 last(2)] last(1) q(2) by simp
    then have "daemon_ok glob c cfg B (d1 \<lparr> b_sessions := (b_sessions d1)[length (b_sessions d1) - 1 := ?s3], b_world := w \<rparr>)"
      using q(3) by (simp add: daemon_ok_def quiet_def)
    then show ?thesis
      using assms(5) Some add cwd daemon_ok_reply by (simp add: start_session_def bpshSessionNextSeq_def del: One_nat_def)
  qed
qed

lemma daemon_ok_init:
  assumes "daemon_ok glob c cfg B d" "surroundings_ok B env" "(bs, src) \<in> B" "bundle_frame c bs = Some f"
    "f_msgType f = BpshMsgInit" "sourceAllowed glob (g_allowed cfg) (Some src)" "handle_init cfg env f src d = (rc, d')"
  shows "daemon_ok glob c cfg B d'"
proof -
  obtain want pw where p: "init_payload f = (want, pw)" by fastforce
  show ?thesis
  proof (cases "case g_secret cfg of None \<Rightarrow> False | Some secret \<Rightarrow> \<not> authOk secret pw")
    case True
    then show ?thesis using assms(1,7) p daemon_ok_error by (simp add: handle_init_def)
  next
    case False
    have len: "f_payloadLen f = length (payload_of f)"
      using assms(4) bpsh_decode_coherent[of c bs empty_frame] by (auto simp: bundle_frame_def split: if_splits prod.splits)
    have pw: "pw = Some secret \<Longrightarrow> \<exists>flag. payload_of f = flag # secret" for secret
      using p len by (cases "payload_of f") (auto simp: init_payload_def split: if_splits)
    have adm: "admitted glob c cfg B (src, f_sessionId f, pid, want)" for pid
      unfolding admitted_def admits_def
      using assms(3-6) False p pw by (intro exI[of _ bs] exI[of _ src] exI[of _ f]) (auto simp: authOk_iff)
    define d1 where "d1 = (case findSession src (b_sessions d) of None \<Rightarrow> d | Some i \<Rightarrow> removeSession (h_waited env) i d)"
    have "daemon_ok glob c cfg B d1 \<and> src \<notin> q_sourceEid ` set (b_sessions d1)"
    proof (cases "findSession src (b_sessions d)")
      case None
      have "src \<notin> q_sourceEid ` set (b_sessions d)" using None unfolding findSession_None .
      then show ?thesis using assms(1) unfolding d1_def None by simp
    next
      case (Some i)
      then show ?thesis using daemon_ok_remove[OF assms(1)] findSession_Some[OF Some] by (auto simp: d1_def)
    qed
    moreover have "start_session env src (f_sessionId f) want d1 = (rc, d')"
      using assms(7) p False by (simp add: handle_init_def d1_def)
    ultimately show ?thesis using daemon_ok_start[OF _ _ assms(2) adm] by blast
  qed
qed

lemma shell_ok_append:
  "shell_ok glob c cfg B text \<Longrightarrow> requested glob c cfg B (req, cmd) \<Longrightarrow> shell_ok glob c cfg B (text @ postscript req cmd)"
proof -
  assume "shell_ok glob c cfg B text" "requested glob c cfg B (req, cmd)"
  then obtain cmds where "text = concat (map (\<lambda>(req, cmd). postscript req cmd) cmds)" "\<forall>x \<in> set cmds. requested glob c cfg B x"
    by (auto simp: shell_ok_def)
  then show ?thesis using \<open>requested glob c cfg B (req, cmd)\<close> unfolding shell_ok_def by (intro exI[of _ "cmds @ [(req, cmd)]"]) auto
qed

lemma daemon_ok_run:
  assumes "daemon_ok glob c cfg B d" "surroundings_ok B env" "(bs, src) \<in> B" "bundle_frame c bs = Some f"
    "f_msgType f = BpshMsgReq" "i < length (b_sessions d)" "q_sourceEid (b_sessions d ! i) = src" "q_sessionId (b_sessions d ! i) = f_sessionId f"
    "bpshSessionRun (h_run env) (cstr (payload_of f)) (b_sessions d ! i) ((b_world d) \<lparr> w_deferred := [] \<rparr>) = Some (rc, s, w)"
    "d' = d \<lparr> b_sessions := (b_sessions d)[i := s], b_world := w \<lparr> w_deferred := [] \<rparr>,
              b_deferred := deferBundles (h_defer env) (w_deferred w) (b_deferred d) \<rparr>"
  shows "daemon_ok glob c cfg B (if \<not> q_shellAlive s then removeSession (h_waited env) i d' else d')"
proof -
  let ?s = "b_sessions d ! i"
  note run = bpshSessionRun_frame[OF assms(9)]
  have id: "ident s = ident ?s" using run by blast
  have adm: "admitted glob c cfg B (ident ?s)" using assms(1,6) by (simp add: daemon_ok_def)
  have "requested glob c cfg B (q_userStdinReq ?s, cstr (payload_of f))"
    unfolding requested_def using assms(3-5,7,8) adm
    by (intro exI[of _ bs] exI[of _ src] exI[of _ f] exI[of _ "q_shellPid ?s"]) (simp add: ident_def)
  then have shell: "shell_ok glob c cfg B (w_shell w)"
    using run assms(1) shell_ok_append[of glob c cfg B "w_shell (b_world d)"] by (auto simp: daemon_ok_def)
  have "run_polled (h_run env) \<subseteq> B" using assms(2) by (simp add: surroundings_ok_def)
  then have q: "set (deferBundles (h_defer env) (w_deferred w) (b_deferred d)) \<subseteq> B"
  proof -
    assume B: "run_polled (h_run env) \<subseteq> B"
    have "set (w_deferred w) \<subseteq> B" "set (b_deferred d) \<subseteq> B" using run assms(1) B by (auto simp: daemon_ok_def)
    then show ?thesis using deferBundles_subset[of "h_defer env" "w_deferred w" "b_deferred d"] by blast
  qed
  have rest: "daemon_ok glob c cfg B (e \<lparr> b_world := w \<lparr> w_deferred := [] \<rparr>,
      b_deferred := deferBundles (h_defer env) (w_deferred w) (b_deferred d) \<rparr>)" if "daemon_ok glob c cfg B e" for e
    using that shell q by (simp add: daemon_ok_def)
  show ?thesis
  proof (cases "q_shellAlive s")
    case True
    then show ?thesis using rest[OF daemon_ok_update[OF assms(1,6) id]] assms(10) by simp
  next
    case False
    have "removeSession (h_waited env) i d' = (removeSession (h_waited env) i (d \<lparr> b_sessions := (b_sessions d)[i := s] \<rparr>))
        \<lparr> b_world := w \<lparr> w_deferred := [] \<rparr>, b_deferred := deferBundles (h_defer env) (w_deferred w) (b_deferred d) \<rparr>"
      unfolding assms(10) by (simp add: removeSession_def)
    then show ?thesis using False rest daemon_ok_remove[OF assms(1,6)] removeSession_updated[OF assms(6) id] by simp
  qed
qed

lemma daemon_ok_req:
  assumes "daemon_ok glob c cfg B d" "surroundings_ok B env" "(bs, src) \<in> B" "bundle_frame c bs = Some f"
    "f_msgType f = BpshMsgReq" "handle_req env f src d = Some (rc, d')"
  shows "daemon_ok glob c cfg B d'"
proof (cases "findSession src (b_sessions d)")
  case None
  then show ?thesis using assms(1,6) daemon_ok_error by (simp add: handle_req_def)
next
  case (Some i)
  let ?s = "b_sessions d ! i" and ?s1 = "(b_sessions d ! i) \<lparr> q_replySeq := q_replySeq (b_sessions d ! i) + 1 \<rparr>"
  have i: "i < length (b_sessions d)" "q_sourceEid ?s = src" using findSession_Some[OF Some] by simp_all
  have alive: "q_shellAlive ?s" using assms(1) i(1) by (simp add: daemon_ok_def table_ok_def)
  note e = assms(6)[unfolded handle_req_def Some option.case Let_def bpshSessionNextSeq_def prod.case]
  show ?thesis
  proof (cases "q_sessionId ?s \<noteq> f_sessionId f")
    case True
    then have "error_reply src (f_sessionId f) 0 ''session id mismatch; reinit'' d = (rc, d')" using e by simp
    then show ?thesis by (rule daemon_ok_error[OF assms(1)])
  next
    case same: False
    note e1 = e[unfolded if_not_P[OF same]]
    show ?thesis
    proof (cases "h_mem env")
      case False
      then have "reply src (exit_frame (f_sessionId f) (q_replySeq ?s) (-1) BpshCauseKilled)
          (d \<lparr> b_sessions := (b_sessions d)[i := ?s1] \<rparr>) = (rc, d')"
        using e1 alive by simp
      moreover have "daemon_ok glob c cfg B (d \<lparr> b_sessions := (b_sessions d)[i := ?s1] \<rparr>)"
        by (rule daemon_ok_update[OF assms(1) i(1)]) (use alive in \<open>simp_all add: ident_def\<close>)
      ultimately show ?thesis using daemon_ok_reply by blast
    next
      case True
      then obtain rc1 s w where run: "bpshSessionRun (h_run env) (cstr (payload_of f)) ?s ((b_world d) \<lparr> w_deferred := [] \<rparr>) = Some (rc1, s, w)"
        using e1 alive by (auto split: option.splits)
      have "q_sessionId ?s = f_sessionId f" using same by simp
      from daemon_ok_run[OF assms(1-5) i this run refl] show ?thesis using e1 alive True run by simp
    qed
  qed
qed

lemma daemon_ok_frame:
  assumes "daemon_ok glob c cfg B d" "surroundings_ok B env" "(bs, src) \<in> B" "bundle_frame c bs = Some f"
    "handleFrame glob cfg env f src d = Some (rc, d')"
  shows "daemon_ok glob c cfg B d'"
proof (cases "sourceAllowed glob (g_allowed cfg) (Some src)")
  case False
  then show ?thesis using assms(1,5) daemon_ok_error by (simp add: handleFrame_def)
next
  case True
  consider (init) "f_msgType f = BpshMsgInit" | (req) "f_msgType f \<noteq> BpshMsgInit" "f_msgType f = BpshMsgReq" |
    (exit) "f_msgType f \<noteq> BpshMsgInit" "f_msgType f \<noteq> BpshMsgReq" "f_msgType f = BpshMsgExitSession" |
    (other) "f_msgType f \<noteq> BpshMsgInit" "f_msgType f \<noteq> BpshMsgReq" "f_msgType f \<noteq> BpshMsgExitSession" by blast
  then show ?thesis
  proof cases
    case init
    then show ?thesis using assms True daemon_ok_init[OF assms(1-4) init True] by (simp add: handleFrame_def)
  next
    case req
    then have "handle_req env f src d = Some (rc, d')" using assms(5) True by (simp add: handleFrame_def)
    then show ?thesis by (rule daemon_ok_req[OF assms(1-4) req(2)])
  next
    case exit
    then have e: "d' = (case findSession src (b_sessions d) of None \<Rightarrow> d | Some i \<Rightarrow> removeSession (h_waited env) i d)"
      using assms(5) True by (simp add: handleFrame_def)
    show ?thesis
    proof (cases "findSession src (b_sessions d)")
      case (Some i)
      then show ?thesis using e daemon_ok_remove[OF assms(1)] findSession_Some[OF Some] by auto
    qed (use e assms(1) in simp)
  next
    case other
    then show ?thesis using assms(1,5) True by (simp add: handleFrame_def)
  qed
qed

lemma daemon_ok_prune:
  "daemon_ok glob c cfg B d \<Longrightarrow> daemon_ok glob c cfg B (prune_from limit now waited i d)"
proof (induction limit now waited i d rule: prune_from.induct)
  case (1 limit now waited i d)
  then show ?case using daemon_ok_remove[OF 1(3)]
    by (cases "i < length (b_sessions d)"; cases "bpshSessionExpired limit now (b_sessions d ! i)")
       (simp_all add: prune_from.simps[of limit now waited i d])
qed

lemma daemon_ok_drain:
  assumes "daemon_ok glob c cfg B d" "surroundings_ok B env" "drainDeferred glob c cfg env d = Some (handled, d')"
  shows "daemon_ok glob c cfg B d'"
proof (cases "b_deferred d")
  case Nil
  then show ?thesis using assms(1,3) by (simp add: drainDeferred_def dequeueDeferred_def)
next
  case (Cons b q)
  obtain bs src where b: "b = (bs, src)" by fastforce
  obtain n f where n: "bpsh_decode c bs empty_frame = (n, f)" by fastforce
  let ?d = "d \<lparr> b_deferred := q \<rparr>"
  have ok: "daemon_ok glob c cfg B ?d" "(bs, src) \<in> B" using assms(1) Cons b by (auto simp: daemon_ok_def)
  show ?thesis
  proof (cases "n < 0")
    case True
    then show ?thesis using assms(3) ok(1) Cons b n by (simp add: drainDeferred_def dequeueDeferred_def)
  next
    case False
    then obtain rc where "handleFrame glob cfg env f src ?d = Some (rc, d')"
      using assms(3) Cons b n by (auto simp: drainDeferred_def dequeueDeferred_def)
    moreover have "bundle_frame c bs = Some f" using n False by (simp add: bundle_frame_def)
    ultimately show ?thesis using daemon_ok_frame[OF ok(1) assms(2) ok(2)] by blast
  qed
qed

text \<open>What a pass receives is a frame with the bundle it was decoded from; all the bundles of a run of
  the loop.\<close>

definition round_ok :: "Cbor \<Rightarrow> Round \<Rightarrow> bool" where
  "round_ok c r \<longleftrightarrow> (case o_poll r of PollFrame f bs src \<Rightarrow> bundle_frame c bs = Some f | _ \<Rightarrow> True) \<and>
     (\<forall>pid. h_open (o_env r) = Some pid \<longrightarrow> pid > 0)"

definition arrived :: "Round list \<Rightarrow> (bytes \<times> bytes) set" where
  "arrived rs = (\<Union>r \<in> set rs. set (poll_bundle (o_poll r)) \<union> run_polled (h_run (o_env r)))"

lemma daemon_ok_round:
  assumes "daemon_ok glob c cfg B d" "round_ok c r" "set (poll_bundle (o_poll r)) \<union> run_polled (h_run (o_env r)) \<subseteq> B"
    "receive_round glob c cfg limit r d = Some (left, d')"
  shows "daemon_ok glob c cfg B d'"
proof (cases "o_running r")
  case False
  then show ?thesis using assms(1,4) by (simp add: receive_round_def)
next
  case True
  have env: "surroundings_ok B (o_env r)" using assms(2,3) by (simp add: surroundings_ok_def round_ok_def)
  obtain handled d1 where d1: "drainDeferred glob c cfg (o_env r) d = Some (handled, d1)"
    using assms(4) True by (auto simp: receive_round_def split: option.splits)
  have ok: "daemon_ok glob c cfg B d1" by (rule daemon_ok_drain[OF assms(1) env d1])
  show ?thesis
  proof (cases "\<not> handled \<and> (\<exists>f bs src. o_poll r = PollFrame f bs src)")
    case False
    then show ?thesis using assms(4) True d1 ok by (cases "o_poll r") (auto simp: receive_round_def split: if_splits)
  next
    case frame: True
    then obtain f bs src where p: "\<not> handled" "o_poll r = PollFrame f bs src" by blast
    obtain rc d2 where h: "handleFrame glob cfg (o_env r) f src d1 = Some (rc, d2)"
      "d' = pruneIdleSessions limit (o_now r) (h_waited (o_env r)) d2"
      using assms(4) True d1 p by (auto simp: receive_round_def)
    have "bundle_frame c bs = Some f" "(bs, src) \<in> B" using assms(2,3) p(2) by (simp_all add: round_ok_def)
    then have "daemon_ok glob c cfg B d2" using daemon_ok_frame[OF ok env] h(1) by blast
    then show ?thesis unfolding h(2) pruneIdleSessions_def by (rule daemon_ok_prune)
  qed
qed

lemma daemon_ok_loop:
  "receiveLoop glob c cfg limit rs d = Some (left, d') \<Longrightarrow> daemon_ok glob c cfg B d \<Longrightarrow> \<forall>r \<in> set rs. round_ok c r \<Longrightarrow>
   arrived rs \<subseteq> B \<Longrightarrow> daemon_ok glob c cfg B d'"
proof (induction rs arbitrary: d)
  case (Cons r rs)
  obtain left1 d1 where r: "receive_round glob c cfg limit r d = Some (left1, d1)"
    using Cons.prems(1) by (auto split: option.splits)
  have b: "set (poll_bundle (o_poll r)) \<union> run_polled (h_run (o_env r)) \<subseteq> B" "arrived rs \<subseteq> B"
    using Cons.prems(4) by (auto simp: arrived_def)
  have "daemon_ok glob c cfg B d1" using daemon_ok_round[OF Cons.prems(2) _ b(1) r] Cons.prems(3) by simp
  then show ?case using Cons.IH[of d1] Cons.prems(1,3) b(2) r by (auto split: if_splits)
qed simp

lemma daemon_ok_bpshd_start: "daemon_ok glob c cfg B bpshd_start"
  by (simp add: daemon_ok_def bpshd_start_def table_ok_def shell_ok_def idle_world_def exI[of _ "[]"])

lemma daemon_ok_reached:
  assumes "\<forall>r \<in> set rs. round_ok c r" "receiveLoop glob c cfg limit rs bpshd_start = Some (left, d)"
  shows "daemon_ok glob c cfg (arrived rs) d"
  using daemon_ok_loop[OF assms(2) daemon_ok_bpshd_start assms(1)] by simp

section \<open>Who can do what\<close>

text \<open>C29: Whatever bundles arrive, in the receive loop and while commands run: a session in the table is
  there because an INIT arrived from its own EID, which the allowlist permits, with its session identifier
  and, when the daemon has a secret, exactly this secret; its shell is alive; and no other session has the
  same EID.\<close>
theorem sessions_admitted:
  assumes "\<forall>r \<in> set rs. round_ok c r" "receiveLoop glob c cfg limit rs bpshd_start = Some (left, d)" "s \<in> set (b_sessions d)"
  shows "admitted glob c cfg (arrived rs) (ident s) \<and> q_shellAlive s \<and>
    (\<forall>t \<in> set (b_sessions d). q_sourceEid t = q_sourceEid s \<longrightarrow> t = s)"
proof -
  have "daemon_ok glob c cfg (arrived rs) d" by (rule daemon_ok_reached[OF assms(1,2)])
  then show ?thesis using assms(3) by (auto simp: daemon_ok_def table_ok_def distinct_map inj_on_def)
qed

text \<open>C30: What the shells are told to run is nothing but the command lines of REQ frames, each from an EID
  and with a session identifier that an INIT from the same EID, permitted and with the secret, has
  opened, and each wrapped as that session's stdin mode demands.\<close>
theorem commands_authorised:
  assumes "\<forall>r \<in> set rs. round_ok c r" "receiveLoop glob c cfg limit rs bpshd_start = Some (left, d)"
  shows "shell_ok glob c cfg (arrived rs) (w_shell (b_world d))"
  using daemon_ok_reached[OF assms] by (simp add: daemon_ok_def)

lemma concat_close:
  "\<forall>s \<in> set ss. q_shellPid s > 0 \<Longrightarrow> started (concat (map (bpshSessionClose waited) ss)) = {#} \<and>
    reaped (concat (map (bpshSessionClose waited) ss)) = image_mset q_shellPid (mset ss)"
  by (induction ss) (simp_all add: close_processes)

text \<open>C31: No shell is lost: at any time the shells started are those waited for and those of the sessions in
  the table, each once; and after the teardown all of them have been waited for.\<close>
theorem shells_accounted:
  assumes "\<forall>r \<in> set rs. round_ok c r" "receiveLoop glob c cfg limit rs bpshd_start = Some (left, d)"
  shows "started (b_procs d) = reaped (b_procs d) + image_mset q_shellPid (mset (b_sessions d)) \<and>
    started (b_procs (teardownAllSessions waited d)) = reaped (b_procs (teardownAllSessions waited d))"
proof -
  have "table_ok (b_sessions d) (b_procs d)" using daemon_ok_reached[OF assms] by (simp add: daemon_ok_def)
  then show ?thesis using concat_close[of "b_sessions d" waited] by (simp add: table_ok_def teardownAllSessions_def)
qed

section \<open>Idle sessions\<close>

lemma mset_drop_nth: "i < length xs \<Longrightarrow> mset (drop i xs) = add_mset (xs ! i) (mset (drop (Suc i) xs))"
  by (simp add: Cons_nth_drop_Suc[symmetric])

lemma drop_swap_out: "i < length xs \<Longrightarrow> mset (drop i (swap_out i xs)) = mset (drop (Suc i) xs) \<and> take i (swap_out i xs) = take i xs"
proof -
  assume i: "i < length xs"
  have t: "take i (swap_out i xs) = take i xs" using i by (simp add: swap_out_def take_butlast)
  have "mset (take i xs) + add_mset (xs ! i) (mset (drop (Suc i) xs)) = mset xs"
    using i by (simp add: mset_drop_nth[OF i, symmetric] flip: mset_append)
  then have "mset (swap_out i xs) = mset (take i xs) + mset (drop (Suc i) xs)"
    using mset_swap_out[OF i] by (metis add_mset_remove_trivial union_mset_add_mset_right)
  moreover have "mset (swap_out i xs) = mset (take i xs) + mset (drop i (swap_out i xs))"
    using t by (metis append_take_drop_id mset_append)
  ultimately show ?thesis using t by simp
qed

lemma prune_from_sessions:
  "i \<le> length (b_sessions d) \<Longrightarrow> mset (b_sessions (prune_from limit now waited i d)) =
   mset (take i (b_sessions d)) + filter_mset (\<lambda>s. \<not> bpshSessionExpired limit now s) (mset (drop i (b_sessions d)))"
proof (induction limit now waited i d rule: prune_from.induct)
  case (1 limit now waited i d)
  show ?case
  proof (cases "i < length (b_sessions d)")
    case False
    then have "prune_from limit now waited i d = d" by (simp add: prune_from.simps[of limit now waited i d])
    then show ?thesis using 1(3) False by simp
  next
    case True
    note i = drop_swap_out[OF True] mset_drop_nth[OF True]
    show ?thesis
    proof (cases "bpshSessionExpired limit now (b_sessions d ! i)")
      case e: True
      have "i \<le> length (b_sessions (removeSession waited i d))" using True by (simp add: removeSession_def)
      then show ?thesis using 1(1)[OF True e] True e i
        by (simp add: prune_from.simps[of limit now waited i d] removeSession_def)
    next
      case e: False
      then show ?thesis using 1(2)[OF True e] True i
        by (simp add: prune_from.simps[of limit now waited i d] take_Suc_conv_app_nth)
    qed
  qed
qed

lemma prune_disabled: "limit \<le> 0 \<Longrightarrow> prune_from limit now waited i d = d"
proof (induction limit now waited i d rule: prune_from.induct)
  case (1 limit now waited i d)
  have e: "\<not> bpshSessionExpired limit now (b_sessions d ! i)" using 1(3) by (simp add: bpshSessionExpired_def)
  show ?case using 1(2)[OF _ e 1(3)] e by (subst prune_from.simps) simp
qed

text \<open>Pruning takes out exactly the sessions that have expired, although the table is reordered while it
  is searched.\<close>
theorem pruneIdleSessions_exact:
  "mset (b_sessions (pruneIdleSessions limit now waited d)) =
   filter_mset (\<lambda>s. \<not> bpshSessionExpired limit now s) (mset (b_sessions d))"
  by (simp add: pruneIdleSessions_def prune_from_sessions)

section \<open>What the daemon does not look at\<close>

text \<open>EXIT_SESSION closes whatever session its source has, whichever session it names: one that was sent to
  an earlier session and arrives late closes the session opened since.\<close>

lemma exit_ignores_session_id:
  assumes "sourceAllowed glob (g_allowed cfg) (Some src)" "f_msgType f = BpshMsgExitSession" "findSession src (b_sessions d) = Some i"
  shows "handleFrame glob cfg env f src d = Some (0, removeSession (h_waited env) i d)"
  using assms by (simp add: handleFrame_def bpsh_msgs)

text \<open>Stdin that arrives while no command runs is lost: the frame changes nothing.\<close>

lemma early_stdin_lost:
  assumes "sourceAllowed glob (g_allowed cfg) (Some src)" "f_msgType f = BpshMsgStdinChunk \<or> f_msgType f = BpshMsgStdinEof"
  shows "handleFrame glob cfg env f src d = Some (0, d)"
  using assms by (auto simp: handleFrame_def bpsh_msgs)

text \<open>A secret file that begins with a NUL gives the empty secret, and then the flag octet alone opens a session.\<close>

lemma empty_secret:
  assumes "file path = Some (0 # content)" "content \<noteq> []" "last content \<noteq> 10" "last content \<noteq> 13" "length content < BPSH_MAX_SECRET"
  shows "bpsh_load_secret file True (Some path) = Some [] \<and> authOk [] (snd (init_payload (bytes_frame BpshMsgInit sid seq [0])))"
  using assms
  by (simp add: bpsh_load_secret_def strip_line_end.simps authOk_iff init_payload_def bytes_frame_def payload_of_def cstr_def)

section \<open>A session is opened and used\<close>

definition example_src :: bytes where
  "example_src = ascii ''ipn:1.2''"

definition example_surroundings :: Surroundings where
  "example_surroundings = \<lparr>h_mem = True, h_grow = True, h_open = Some 100, h_now = 0, h_cwd = None, h_waited = (\<lambda>pid n. True),
     h_run = example_env, h_defer = []\<rparr>"

definition example_config :: Config where
  "example_config = \<lparr>g_secret = Some [115, 101], g_allowed = Some [ascii ''ipn:1.*'']\<rparr>"

definition init_bundle :: bytes where
  "init_bundle = [0x85, 1, 1, 7, 0, 0x43, 0, 115, 101]"

definition req_bundle :: bytes where
  "req_bundle = [0x85, 1, 3, 7, 1, 0x42, 108, 115]"

definition example_round :: "BpshFrame \<Rightarrow> bytes \<Rightarrow> Round" where
  "example_round f bs = \<lparr>o_running = True, o_poll = PollFrame f bs example_src, o_env = example_surroundings, o_now = 0\<rparr>"

lemma example_bundles:
  "bundle_frame rfc8949 init_bundle = Some (bytes_frame BpshMsgInit 7 0 [0, 115, 101])"
  "bundle_frame rfc8949 req_bundle = Some (bytes_frame BpshMsgReq 7 1 [108, 115])"
  by code_simp+

definition glob6 :: "bytes \<Rightarrow> bytes \<Rightarrow> bool" where
  "glob6 p s \<longleftrightarrow> take 6 p = take 6 s"

definition init_round :: Round where
  "init_round = example_round (bytes_frame BpshMsgInit 7 0 [0, 115, 101]) init_bundle"

definition req_round :: Round where
  "req_round = example_round (bytes_frame BpshMsgReq 7 1 [108, 115]) req_bundle"

lemma example_rounds_ok: "\<forall>r \<in> set [init_round, req_round]. round_ok rfc8949 r"
  by (simp add: round_ok_def init_round_def req_round_def example_round_def example_bundles example_surroundings_def)

definition opened :: Daemon where
  "opened = \<lparr>b_sessions = [(bpshSessionOpen example_src 7 False 100 0) \<lparr> q_replySeq := 1 \<rparr>], b_cap = 8, b_deferred = [],
     b_world = idle_world \<lparr> w_sent := [(example_src, ctl_frame BpshMsgInitAck 7 0)] \<rparr>, b_procs = [Started 100]\<rparr>"

lemma example_opened: "receive_round glob6 rfc8949 example_config 0 init_round bpshd_start = Some (False, opened)"
  by code_simp

lemma example_req_run:
  "\<exists>rc s w. bpshSessionRun example_env [108, 115] (b_sessions opened ! 0) ((b_world opened) \<lparr> w_deferred := [] \<rparr>) = Some (rc, s, w) \<and>
     q_shellAlive s \<and> w_shell w = postscript False [108, 115]"
proof -
  have m: "e_mem example_env" "e_written example_env" by (simp_all add: example_env_def)
  show ?thesis
    unfolding bpshSessionRun_started[OF m]
    by (simp add: run_eval opened_def one_frame_stream run_finish_def bpshSessionSendCwd_def send_exit_def)
qed

lemma example_used:
  "\<exists>d. receiveLoop glob6 rfc8949 example_config 0 [init_round, req_round] bpshd_start = Some (False, d) \<and>
     w_shell (b_world d) = postscript False [108, 115]"
proof -
  obtain rc s w where r: "bpshSessionRun example_env [108, 115] (b_sessions opened ! 0) ((b_world opened) \<lparr> w_deferred := [] \<rparr>) = Some (rc, s, w)"
    "q_shellAlive s" "w_shell w = postscript False [108, 115]" using example_req_run by blast
  let ?f = "bytes_frame BpshMsgReq 7 1 [108, 115]"
  have o: "findSession example_src (b_sessions opened) = Some 0" "q_sessionId (b_sessions opened ! 0) = 7" "q_shellAlive (b_sessions opened ! 0)"
    "b_deferred opened = []"
    by (simp_all add: opened_def bpshSessionOpen_def)
  have f: "f_msgType ?f = BpshMsgReq" "f_sessionId ?f = 7" "cstr (payload_of ?f) = [108, 115]"
    by (simp_all add: bytes_frame_def ctl_frame_def payload_of_def cstr_def)
  have a: "sourceAllowed glob6 (g_allowed example_config) (Some example_src)"
    by (simp add: sourceAllowed_def example_config_def glob6_def example_src_def)
  have h: "h_run example_surroundings = example_env" "h_mem example_surroundings" by (simp_all add: example_surroundings_def)
  have "\<exists>d. handleFrame glob6 example_config example_surroundings ?f example_src opened = Some (0, d) \<and> w_shell (b_world d) = postscript False [108, 115]"
    using a o(1-3) f h r by (simp add: handleFrame_def handle_req_def bpshSessionNextSeq_def bpsh_msgs)
  then obtain d where d: "handleFrame glob6 example_config example_surroundings ?f example_src opened = Some (0, d)"
    "w_shell (b_world d) = postscript False [108, 115]" by blast
  have "receive_round glob6 rfc8949 example_config 0 req_round opened = Some (False, d)"
    using d(1) o(4) by (simp add: prune_disabled receive_round_def drainDeferred_def dequeueDeferred_def req_round_def example_round_def pruneIdleSessions_def)
  then show ?thesis using d(2) example_opened by simp
qed

theorem sessions_admitted_witness:
  "admitted glob6 rfc8949 example_config (arrived [init_round]) (ident (b_sessions opened ! 0))"
  using sessions_admitted[of "[init_round]" rfc8949 glob6 example_config 0 False opened "b_sessions opened ! 0"]
    example_rounds_ok example_opened by (simp add: opened_def)

theorem commands_authorised_witness:
  "shell_ok glob6 rfc8949 example_config (arrived [init_round, req_round]) (postscript False [108, 115])"
proof -
  obtain d where "receiveLoop glob6 rfc8949 example_config 0 [init_round, req_round] bpshd_start = Some (False, d)"
    "w_shell (b_world d) = postscript False [108, 115]" using example_used by blast
  then show ?thesis using commands_authorised[OF example_rounds_ok] by metis
qed

theorem shells_accounted_witness:
  "started (b_procs opened) = {#100#} \<and>
   started (b_procs (teardownAllSessions (\<lambda>pid n. True) opened)) = reaped (b_procs (teardownAllSessions (\<lambda>pid n. True) opened))"
  using shells_accounted[of "[init_round]" rfc8949 glob6 example_config 0 False opened "\<lambda>pid n. True"]
    example_rounds_ok example_opened by (simp add: opened_def)

end
