(* ===== verification/BpshClient.thy ===== *)
theory BpshClient
  imports BpshdSession
begin

unbundle bit_operations_syntax

text \<open>
  The bpsh client (APP/bpsh/src/bpsh.c): putting the frames of the session in order, awaiting the
  answer to INIT and the result of a command, the command history and the line editor.

  The list of \<open>Event\<close>s is what \<open>bpsh_recv_frame\<close> answers, call after call, and when the user interrupts;
  a result \<open>None\<close> means that the list is used up and the client waits.  A signal that clears \<open>running\<close>
  is an event where a receive is waiting, the only place where the client notices it.  What goes to the
  terminal is the list of octets written to each stream; drawing the prompt and the edited line is left
  out.

  The lemmas show that whatever the order in which frames arrive, and however often, they are delivered
  in the order of their numbers, each once and none missing; that so the client prints what the daemon
  streamed; and that the line editor keeps its cursor and length within its buffer and does what an
  editor does.
\<close>

section \<open>Model: frames in order\<close>

datatype Event =
    Signal
  | Receive int BpshFrame bool

record Client =
  k_sessionId :: u64
  k_running :: bool
  k_pending :: "BpshFrame list"
  k_nextRecvSeq :: u64
  k_cwd :: bytes
  k_stdout :: bytes
  k_stderr :: bytes

fun recvOnePending :: "bool \<Rightarrow> Event list \<Rightarrow> (BpshFrame option \<times> bool \<times> Event list) option" where
  "recvOnePending running [] = (if running then None else Some (None, running, []))"
| "recvOnePending running (e # es) =
     (if \<not> running then Some (None, running, e # es)
      else
        (case e of
           Signal \<Rightarrow> Some (None, False, es)
         | Receive rc frame mem \<Rightarrow>
             if rc = BPSH_RECV_FATAL then Some (None, running, es)
             else if rc = BPSH_RECV_NONE then recvOnePending running es
             else if rc = BPSH_RECV_SKIP then recvOnePending running es
             else if \<not> mem then recvOnePending running es
             else Some (Some frame, running, es)))"

lemma recvOnePending_shorter:
  "recvOnePending running es = Some (Some f, r, es') \<Longrightarrow> length es' < length es"
  by (induction running es arbitrary: f r es' rule: recvOnePending.induct)
     (fastforce split: if_splits Event.splits)+

text \<open>The sorted list of frames that are early.\<close>

fun insert_pending :: "BpshFrame \<Rightarrow> BpshFrame list \<Rightarrow> BpshFrame list" where
  "insert_pending p [] = [p]"
| "insert_pending p (q # qs) =
     (if f_seqNum q < f_seqNum p then q # insert_pending p qs
      else if f_seqNum q = f_seqNum p then q # qs
      else p # q # qs)"

function recvOrderedFrame :: "Client \<Rightarrow> Event list \<Rightarrow> (BpshFrame option \<times> Client \<times> Event list) option" where
  "recvOrderedFrame c es =
     (if \<not> k_running c then Some (None, c, es)
      else if k_pending c \<noteq> [] \<and> f_seqNum (hd (k_pending c)) = k_nextRecvSeq c then
        Some (Some (hd (k_pending c)),
              c \<lparr> k_pending := tl (k_pending c), k_nextRecvSeq := k_nextRecvSeq c + 1 \<rparr>, es)
      else
        (case recvOnePending (k_running c) es of
           None \<Rightarrow> None
         | Some (None, running, es) \<Rightarrow> Some (None, c \<lparr> k_running := running \<rparr>, es)
         | Some (Some p, running, es) \<Rightarrow>
             if f_sessionId p \<noteq> k_sessionId c then recvOrderedFrame c es
             else if f_msgType p = BpshMsgError then Some (Some p, c, es)
             else if f_seqNum p < k_nextRecvSeq c then recvOrderedFrame c es
             else if f_seqNum p = k_nextRecvSeq c then Some (Some p, c \<lparr> k_nextRecvSeq := k_nextRecvSeq c + 1 \<rparr>, es)
             else recvOrderedFrame (c \<lparr> k_pending := insert_pending p (k_pending c) \<rparr>) es))"
  by pat_completeness auto
termination
  by (relation "measure (\<lambda>(c, es). length es)") (auto dest: recvOnePending_shorter)

declare recvOrderedFrame.simps [simp del]

section \<open>Model: awaiting answers\<close>

definition BPSH_CWD_MAX :: nat where "BPSH_CWD_MAX = 4096"
definition BPSH_LINE_BUFSIZE :: nat where "BPSH_LINE_BUFSIZE = 8 * 1024"
definition BPSH_HIST_MAX :: nat where "BPSH_HIST_MAX = 1000"

definition storeCwd :: "bytes \<Rightarrow> Client \<Rightarrow> Client" where
  "storeCwd payload c = c \<lparr> k_cwd := cstr (if length payload \<ge> BPSH_CWD_MAX then take (BPSH_CWD_MAX - 1) payload else payload) \<rparr>"

lemma recvOrderedFrame_shorter:
  "recvOrderedFrame c es = Some (Some f, c', es') \<Longrightarrow>
   length es' < length es \<or> length es' = length es \<and> length (k_pending c') < length (k_pending c)"
proof (induction c es arbitrary: f c' es' rule: recvOrderedFrame.induct)
  case (1 c es)
  show ?case
  proof (cases "k_running c \<and> \<not> (k_pending c \<noteq> [] \<and> f_seqNum (hd (k_pending c)) = k_nextRecvSeq c)")
    case False
    then show ?thesis using 1(4) by (auto simp: recvOrderedFrame.simps[of c es] split: if_splits)
  next
    case True
    then obtain p r es1 where p: "recvOnePending (k_running c) es = Some (Some p, r, es1)"
      using 1(4) by (auto simp: recvOrderedFrame.simps[of c es] split: option.splits if_splits)
    have l: "length es1 < length es" by (rule recvOnePending_shorter[OF p])
    have n: "\<not> \<not> k_running c" "\<not> (k_pending c \<noteq> [] \<and> f_seqNum (hd (k_pending c)) = k_nextRecvSeq c)" using True by blast+
    note ih = 1(1-3)[OF n p refl refl refl]
    show ?thesis
    proof (cases "f_sessionId p \<noteq> k_sessionId c")
      case a: True
      then have "recvOrderedFrame c es1 = Some (Some f, c', es')"
        using 1(4) True p by (simp add: recvOrderedFrame.simps[of c es])
      then show ?thesis using ih(1)[OF a] l by fastforce
    next
      case b: False
      show ?thesis
      proof (cases "f_msgType p = BpshMsgError")
        case True
        then show ?thesis using 1(4) \<open>k_running c \<and> _\<close> p b l by (simp add: recvOrderedFrame.simps[of c es])
      next
        case ne: False
        consider "f_seqNum p < k_nextRecvSeq c" | "\<not> f_seqNum p < k_nextRecvSeq c" "f_seqNum p = k_nextRecvSeq c" |
          "\<not> f_seqNum p < k_nextRecvSeq c" "f_seqNum p \<noteq> k_nextRecvSeq c" by blast
        then show ?thesis
        proof cases
          case x: 1
          then have "recvOrderedFrame c es1 = Some (Some f, c', es')"
            using 1(4) True p b ne by (simp add: recvOrderedFrame.simps[of c es])
          then show ?thesis using ih(2)[OF b ne x] l by fastforce
        next
          case 2
          then show ?thesis using 1(4) True p b ne l by (auto simp: recvOrderedFrame.simps[of c es])
        next
          case x: 3
          then have "recvOrderedFrame (c \<lparr> k_pending := insert_pending p (k_pending c) \<rparr>) es1 = Some (Some f, c', es')"
            using 1(4) True p b ne by (simp add: recvOrderedFrame.simps[of c es])
          then show ?thesis using ih(3)[OF b ne x] l by fastforce
        qed
      qed
    qed
  qed
qed


text \<open>What is printed of an ERROR frame.\<close>

definition print_error :: "BpshFrame \<Rightarrow> Client \<Rightarrow> Client" where
  "print_error p c = c \<lparr> k_stderr := k_stderr c @ ascii ''bpsh: server error: '' @ cstr (payload_of p) @ [10] \<rparr>"

function awaitInitAck :: "Client \<Rightarrow> Event list \<Rightarrow> (int \<times> Client \<times> Event list) option" where
  "awaitInitAck c es =
     (if \<not> k_running c then Some (-1, c, es)
      else
        (case recvOrderedFrame c es of
           None \<Rightarrow> None
         | Some (None, c, es) \<Rightarrow> Some (-1, c, es)
         | Some (Some p, c', es') \<Rightarrow>
             if f_msgType p = BpshMsgInitAck then Some (0, c', es')
             else if f_msgType p = BpshMsgCwd then awaitInitAck (storeCwd (payload_of p) c') es'
             else if f_msgType p = BpshMsgError then Some (-1, print_error p c', es')
             else awaitInitAck c' es'))"
  by pat_completeness auto
termination
  by (relation "measures [\<lambda>(c, es). length es, \<lambda>(c, es). length (k_pending c)]")
     (auto dest!: recvOrderedFrame_shorter simp: storeCwd_def)

declare awaitInitAck.simps [simp del]

text \<open>The return value, exit code and cause.\<close>

function awaitCommandResult :: "Client \<Rightarrow> Event list \<Rightarrow> (int \<times> int \<times> u32 \<times> Client \<times> Event list) option" where
  "awaitCommandResult c es =
     (if \<not> k_running c then Some (-1, 0, 0, c, es)
      else
        (case recvOrderedFrame c es of
           None \<Rightarrow> None
         | Some (None, c, es) \<Rightarrow> Some (-1, 0, 0, c, es)
         | Some (Some p, c', es') \<Rightarrow>
             if f_msgType p = BpshMsgStdout then
               awaitCommandResult (c' \<lparr> k_stdout := k_stdout c' @ payload_of p \<rparr>) es'
             else if f_msgType p = BpshMsgStderr then
               awaitCommandResult (c' \<lparr> k_stderr := k_stderr c' @ payload_of p \<rparr>) es'
             else if f_msgType p = BpshMsgCwd then awaitCommandResult (storeCwd (payload_of p) c') es'
             else if f_msgType p = BpshMsgExit then Some (0, f_exitCode p, f_exitCause p, c', es')
             else if f_msgType p = BpshMsgError then Some (-1, 0, 0, print_error p c', es')
             else awaitCommandResult c' es'))"
  by pat_completeness auto
termination
  by (relation "measures [\<lambda>(c, es). length es, \<lambda>(c, es). length (k_pending c)]")
     (auto dest!: recvOrderedFrame_shorter simp: storeCwd_def)

declare awaitCommandResult.simps [simp del]

section \<open>Frames are delivered in order\<close>

text \<open>The frames of the session that arrive and are not ERROR.\<close>

definition ordered :: "u64 \<Rightarrow> BpshFrame \<Rightarrow> BpshFrame list" where
  "ordered sid f = (if f_sessionId f = sid \<and> f_msgType f \<noteq> BpshMsgError then [f] else [])"

fun arrivals :: "u64 \<Rightarrow> Event list \<Rightarrow> BpshFrame list" where
  "arrivals sid [] = []"
| "arrivals sid (Receive rc f mem # es) =
     (if rc = BPSH_RECV_OK \<and> mem then ordered sid f else []) @ arrivals sid es"
| "arrivals sid (Signal # es) = arrivals sid es"

text \<open>No interrupt and no fatal error; a number is below the largest one.\<close>

definition calm :: "Event \<Rightarrow> bool" where
  "calm e \<longleftrightarrow> (case e of Signal \<Rightarrow> False
     | Receive rc f mem \<Rightarrow> rc \<in> {BPSH_RECV_OK, BPSH_RECV_NONE, BPSH_RECV_SKIP} \<and> f_seqNum f \<noteq> -1)"

lemma recv_code_neq:
  "BPSH_RECV_OK \<noteq> BPSH_RECV_FATAL" "BPSH_RECV_OK \<noteq> BPSH_RECV_NONE" "BPSH_RECV_OK \<noteq> BPSH_RECV_SKIP"
  "BPSH_RECV_NONE \<noteq> BPSH_RECV_FATAL" "BPSH_RECV_SKIP \<noteq> BPSH_RECV_FATAL" "BPSH_RECV_SKIP \<noteq> BPSH_RECV_NONE"
  by (simp_all add: BPSH_RECV_OK_def BPSH_RECV_NONE_def BPSH_RECV_SKIP_def BPSH_RECV_FATAL_def)

lemma recvOnePending_calm:
  assumes "\<forall>e \<in> set es. calm e"
  shows "recvOnePending True es = None \<and> arrivals sid es = [] \<or>
    (\<exists>f es'. recvOnePending True es = Some (Some f, True, es') \<and> set es' \<subseteq> set es \<and> Receive BPSH_RECV_OK f True \<in> set es \<and>
      f_seqNum f \<noteq> -1 \<and>
      arrivals sid es = ordered sid f @ arrivals sid es')"
  using assms
proof (induction es)
  case (Cons e es)
  obtain rc f mem where e: "e = Receive rc f mem" using Cons.prems by (cases e) (auto simp: calm_def)
  have rc: "rc \<in> {BPSH_RECV_OK, BPSH_RECV_NONE, BPSH_RECV_SKIP}" "f_seqNum f \<noteq> -1" using Cons.prems by (simp_all add: e calm_def)
  show ?case
    using rc Cons.IH Cons.prems recv_code_neq recv_code_neq[symmetric] by (cases mem) (auto simp: e)
qed simp

definition ready :: "Client \<Rightarrow> BpshFrame set \<Rightarrow> bool" where
  "ready c seen \<longleftrightarrow> k_running c \<and> sorted_wrt (<) (map f_seqNum (k_pending c)) \<and>
     (\<forall>q \<in> set (k_pending c). k_nextRecvSeq c \<le> f_seqNum q \<and> q \<in> seen) \<and>
     (\<forall>f \<in> seen. f_seqNum f \<noteq> -1 \<and> (f_seqNum f < k_nextRecvSeq c \<or> f_seqNum f \<in> f_seqNum ` set (k_pending c)))"

lemma insert_pending_seqs: "f_seqNum ` set (insert_pending p qs) = insert (f_seqNum p) (f_seqNum ` set qs)"
  by (induction qs) auto

lemma insert_pending_subset: "set (insert_pending p qs) \<subseteq> insert p (set qs)"
  by (induction qs) auto

lemma insert_pending_sorted:
  "sorted_wrt (<) (map f_seqNum qs) \<Longrightarrow> sorted_wrt (<) (map f_seqNum (insert_pending p qs))"
proof (induction qs)
  case (Cons q qs)
  have "x \<in> set (insert_pending p qs) \<Longrightarrow> x = p \<or> x \<in> set qs" for x using insert_pending_subset[of p qs] by auto
  then show ?case using Cons by (auto intro: order_less_trans)
qed simp

lemma ready_skip:
  "ready c seen \<Longrightarrow> f_seqNum p \<noteq> -1 \<Longrightarrow> f_seqNum p < k_nextRecvSeq c \<Longrightarrow> ready c (insert p seen)"
  by (auto simp: ready_def)

lemma ready_insert:
  assumes "ready c seen" "f_seqNum p \<noteq> -1" "\<not> f_seqNum p < k_nextRecvSeq c"
  shows "ready (c \<lparr> k_pending := insert_pending p (k_pending c) \<rparr>) (insert p seen)"
  using assms insert_pending_subset[of p "k_pending c"] insert_pending_sorted[of "k_pending c" p]
  unfolding ready_def by (auto simp: insert_pending_seqs)

lemma unat_next: "(n :: u64) \<noteq> -1 \<Longrightarrow> unat (n + 1) = unat n + 1"
proof -
  assume "n \<noteq> -1"
  have "unat n + 1 \<noteq> 2 ^ 64"
  proof
    assume "unat n + 1 = 2 ^ 64"
    moreover have "unat (-1 :: u64) + 1 = 2 ^ 64" by (simp add: unsigned_minus_1_eq_mask mask_eq_exp_minus_1)
    ultimately have "unat n = unat (-1 :: u64)" by simp
    then show False using \<open>n \<noteq> -1\<close> by (simp only: word_unat_eq_iff)
  qed
  moreover have "unat n < 2 ^ 64" by (rule order_less_le_trans[OF unat_u64_less]) simp
  ultimately have "unat n + 1 < 2 ^ 64" by linarith
  then show ?thesis by (simp add: unat_word_ariths)
qed

lemma word_Suc_order: "n \<noteq> -1 \<Longrightarrow> (m :: u64) < n + 1 \<longleftrightarrow> m \<le> n"
  using unat_next[of n] by (simp add: word_less_nat_alt word_le_nat_alt less_Suc_eq_le)

lemma ready_next:
  assumes "ready c seen" "f_seqNum p = k_nextRecvSeq c" "f_seqNum p \<noteq> -1"
    "k_pending c' = k_pending c \<and> f_seqNum p \<notin> f_seqNum ` set (k_pending c) \<or> k_pending c = p # k_pending c'"
    "k_running c'" "k_nextRecvSeq c' = k_nextRecvSeq c + 1"
  shows "ready c' (insert p seen)"
proof -
  have n: "k_nextRecvSeq c \<noteq> -1" using assms(2,3) by simp
  note o = word_Suc_order[OF n]
  have le: "k_nextRecvSeq c \<le> m \<Longrightarrow> m \<noteq> k_nextRecvSeq c \<Longrightarrow> k_nextRecvSeq c + 1 \<le> m" for m
    using o[of m] by (metis antisym not_le)
  have s: "sorted_wrt (<) (map f_seqNum (k_pending c'))" using assms(1,4) by (auto simp: ready_def)
  have q: "k_nextRecvSeq c + 1 \<le> f_seqNum q \<and> q \<in> seen" if "q \<in> set (k_pending c')" for q
  proof -
    have "q \<in> set (k_pending c)" "f_seqNum q \<noteq> k_nextRecvSeq c"
      using that assms(1,2,4) by (force simp: ready_def)+
    then show ?thesis using assms(1) le unfolding ready_def by blast
  qed
  have "f_seqNum f \<noteq> -1 \<and> (f_seqNum f < k_nextRecvSeq c + 1 \<or> f_seqNum f \<in> f_seqNum ` set (k_pending c'))" if "f \<in> insert p seen" for f
  proof (cases "f = p")
    case True
    then show ?thesis using assms(2,3) o by simp
  next
    case False
    then have "f_seqNum f \<noteq> -1 \<and> (f_seqNum f < k_nextRecvSeq c \<or> f_seqNum f \<in> f_seqNum ` set (k_pending c))"
      using that assms(1) by (auto simp: ready_def)
    then show ?thesis using assms(2,4) o[of "f_seqNum f"] by (auto intro: order.strict_implies_order)
  qed
  then show ?thesis using s q assms(5,6) by (auto simp: ready_def)
qed

text \<open>One frame: either none can be had before more arrives, and then the next number has not arrived; or
  it is an ERROR of the session, or the frame with the next number.\<close>

definition delivers :: "Client \<Rightarrow> Event list \<Rightarrow> BpshFrame set \<Rightarrow> bool" where
  "delivers c es seen \<longleftrightarrow>
    recvOrderedFrame c es = None \<and> k_nextRecvSeq c \<notin> f_seqNum ` (seen \<union> set (arrivals (k_sessionId c) es)) \<or>
    (\<exists>f c' es' got. recvOrderedFrame c es = Some (Some f, c', es') \<and> set es' \<subseteq> set es \<and>
      arrivals (k_sessionId c) es = got @ arrivals (k_sessionId c) es' \<and> ready c' (seen \<union> set got) \<and>
      k_sessionId c' = k_sessionId c \<and> k_stdout c' = k_stdout c \<and> k_stderr c' = k_stderr c \<and>
      (f_msgType f = BpshMsgError \<and> Receive BPSH_RECV_OK f True \<in> set es \<and> k_nextRecvSeq c' = k_nextRecvSeq c \<or>
       f_seqNum f = k_nextRecvSeq c \<and> f_seqNum f \<noteq> -1 \<and> k_nextRecvSeq c' = k_nextRecvSeq c + 1 \<and> f \<in> seen \<union> set got))"

lemma delivers_got:
  assumes "recvOrderedFrame c es = Some (Some f, c', es')" "set es' \<subseteq> set es"
    "arrivals (k_sessionId c) es = got @ arrivals (k_sessionId c) es'" "ready c' (seen \<union> set got)"
    "k_sessionId c' = k_sessionId c" "k_stdout c' = k_stdout c" "k_stderr c' = k_stderr c"
    "f_msgType f = BpshMsgError \<and> Receive BPSH_RECV_OK f True \<in> set es \<and> k_nextRecvSeq c' = k_nextRecvSeq c \<or>
     f_seqNum f = k_nextRecvSeq c \<and> f_seqNum f \<noteq> -1 \<and> k_nextRecvSeq c' = k_nextRecvSeq c + 1 \<and> f \<in> seen \<union> set got"
  shows "delivers c es seen"
  unfolding delivers_def using assms by blast

lemma delivers_shift:
  assumes "delivers c1 es1 (insert p seen)" "recvOrderedFrame c es = recvOrderedFrame c1 es1"
    "arrivals (k_sessionId c) es = p # arrivals (k_sessionId c) es1" "k_nextRecvSeq c1 = k_nextRecvSeq c"
    "k_sessionId c1 = k_sessionId c" "k_stdout c1 = k_stdout c" "k_stderr c1 = k_stderr c" "set es1 \<subseteq> set es"
  shows "delivers c es seen"
  using assms(1)[unfolded delivers_def assms(4-7)]
proof (elim disjE)
  assume "recvOrderedFrame c1 es1 = None \<and> k_nextRecvSeq c \<notin> f_seqNum ` (insert p seen \<union> set (arrivals (k_sessionId c) es1))"
  then show ?thesis unfolding delivers_def assms(2) by (simp add: assms(3))
next
  assume "\<exists>f c' es' got. recvOrderedFrame c1 es1 = Some (Some f, c', es') \<and> set es' \<subseteq> set es1 \<and>
      arrivals (k_sessionId c) es1 = got @ arrivals (k_sessionId c) es' \<and> ready c' (insert p seen \<union> set got) \<and>
      k_sessionId c' = k_sessionId c \<and> k_stdout c' = k_stdout c \<and> k_stderr c' = k_stderr c \<and>
      (f_msgType f = BpshMsgError \<and> Receive BPSH_RECV_OK f True \<in> set es1 \<and> k_nextRecvSeq c' = k_nextRecvSeq c \<or>
       f_seqNum f = k_nextRecvSeq c \<and> f_seqNum f \<noteq> -1 \<and> k_nextRecvSeq c' = k_nextRecvSeq c + 1 \<and> f \<in> insert p seen \<union> set got)"
  then obtain f c' es' got where *: "recvOrderedFrame c1 es1 = Some (Some f, c', es')" "set es' \<subseteq> set es1"
      "arrivals (k_sessionId c) es1 = got @ arrivals (k_sessionId c) es'" "ready c' (insert p seen \<union> set got)"
      "k_sessionId c' = k_sessionId c" "k_stdout c' = k_stdout c" "k_stderr c' = k_stderr c"
      "f_msgType f = BpshMsgError \<and> Receive BPSH_RECV_OK f True \<in> set es1 \<and> k_nextRecvSeq c' = k_nextRecvSeq c \<or>
       f_seqNum f = k_nextRecvSeq c \<and> f_seqNum f \<noteq> -1 \<and> k_nextRecvSeq c' = k_nextRecvSeq c + 1 \<and> f \<in> insert p seen \<union> set got"
    by blast
  have u: "insert p seen \<union> set got = seen \<union> set (p # got)" by auto
  show ?thesis
    by (rule delivers_got[of c es f c' es' "p # got"]) (use * assms(2,3,8) u in auto)
qed

lemma recvOrderedFrame_ready:
  "ready c seen \<Longrightarrow> \<forall>e \<in> set es. calm e \<Longrightarrow> delivers c es seen"
proof (induction c es arbitrary: seen rule: recvOrderedFrame.induct)
  case (1 c es)
  have run: "k_running c" using 1(4) by (simp add: ready_def)
  show ?case
  proof (cases "k_pending c \<noteq> [] \<and> f_seqNum (hd (k_pending c)) = k_nextRecvSeq c")
    case True
    then obtain p ps where p: "k_pending c = p # ps" "f_seqNum p = k_nextRecvSeq c" by (cases "k_pending c") auto
    let ?c = "c \<lparr> k_pending := ps, k_nextRecvSeq := k_nextRecvSeq c + 1 \<rparr>"
    have "recvOrderedFrame c es = Some (Some p, ?c, es)" using run p by (simp add: recvOrderedFrame.simps[of c es])
    moreover have in_seen: "p \<in> seen" "f_seqNum p \<noteq> -1" using 1(4) p by (auto simp: ready_def)
    moreover have "ready ?c (insert p seen)" by (rule ready_next[OF 1(4) p(2) in_seen(2)]) (use p run in simp_all)
    ultimately show ?thesis using p(2) 1(5) by (intro delivers_got[of c es p ?c es "[]"]) (simp_all add: insert_absorb)
  next
    case False
    have no_head: "k_nextRecvSeq c \<notin> f_seqNum ` seen"
    proof
      assume "k_nextRecvSeq c \<in> f_seqNum ` seen"
      then have i: "k_nextRecvSeq c \<in> f_seqNum ` set (k_pending c)" using 1(4) by (auto simp: ready_def)
      then obtain q qs where q: "k_pending c = q # qs" by (cases "k_pending c") auto
      have "f_seqNum q \<noteq> k_nextRecvSeq c" "k_nextRecvSeq c \<le> f_seqNum q" using False 1(4) q by (auto simp: ready_def)
      moreover have "\<forall>x \<in> set qs. f_seqNum q < f_seqNum x" using 1(4) q by (simp add: ready_def)
      ultimately show False using i q by (force simp: image_iff)
    qed
    consider (wait) "recvOnePending True es = None" "arrivals (k_sessionId c) es = []" |
      (got) p es1 where "recvOnePending True es = Some (Some p, True, es1)" "set es1 \<subseteq> set es" "f_seqNum p \<noteq> -1"
        "arrivals (k_sessionId c) es = ordered (k_sessionId c) p @ arrivals (k_sessionId c) es1"
        "Receive BPSH_RECV_OK p True \<in> set es"
      using recvOnePending_calm[OF 1(5), of "k_sessionId c"] by metis
    then show ?thesis
    proof cases
      case wait
      then have "recvOrderedFrame c es = None" using run False by (simp add: recvOrderedFrame.simps[of c es])
      then show ?thesis using no_head wait(2) by (simp add: delivers_def)
    next
      case got
      have nr: "\<not> \<not> k_running c" "recvOnePending (k_running c) es = Some (Some p, True, es1)" using run got(1) by simp_all
      have calm1: "\<forall>e \<in> set es1. calm e" using 1(5) got(2) by auto
      note ih = 1(1-3)[OF nr(1) False nr(2) refl refl refl]
      note step = recvOrderedFrame.simps[of c es, unfolded if_not_P[OF nr(1)] if_not_P[OF False] nr(2) option.case prod.case]
      show ?thesis
      proof (cases "f_sessionId p \<noteq> k_sessionId c")
        case a: True
        then have "recvOrderedFrame c es = recvOrderedFrame c es1" by (simp add: step)
        then show ?thesis using ih(1)[OF a 1(4) calm1] got(2,4) a by (fastforce simp: delivers_def ordered_def)
      next
        case b: False
        show ?thesis
        proof (cases "f_msgType p = BpshMsgError")
          case True
          then have "recvOrderedFrame c es = Some (Some p, c, es1)" using b by (simp add: step)
          then show ?thesis using 1(4) got(2,4,5) True by (intro delivers_got[of c es p c es1 "[]"]) (simp_all add: ordered_def)
        next
          case ne: False
          have arr: "arrivals (k_sessionId c) es = p # arrivals (k_sessionId c) es1" using got(4) b ne by (simp add: ordered_def)
          consider (old) "f_seqNum p < k_nextRecvSeq c" | (now) "\<not> f_seqNum p < k_nextRecvSeq c" "f_seqNum p = k_nextRecvSeq c" |
            (early) "\<not> f_seqNum p < k_nextRecvSeq c" "f_seqNum p \<noteq> k_nextRecvSeq c" by blast
          then show ?thesis
          proof cases
            case old
            then have e: "recvOrderedFrame c es = recvOrderedFrame c es1" using b ne by (simp add: step)
            have r: "ready c (insert p seen)" by (rule ready_skip[OF 1(4) got(3) old])
            show ?thesis by (rule delivers_shift[OF ih(2)[OF b ne old r calm1] e arr]) (use got(2) in simp_all)
          next
            case now
            let ?c = "c \<lparr> k_nextRecvSeq := k_nextRecvSeq c + 1 \<rparr>"
            have e: "recvOrderedFrame c es = Some (Some p, ?c, es1)" using b ne now by (simp add: step)
            have "f_seqNum p \<notin> f_seqNum ` set (k_pending c)"
              using no_head 1(4) now(2) by (auto simp: ready_def image_iff)
            then have "ready ?c (insert p seen)"
              by (intro ready_next[OF 1(4) now(2) got(3)]) (use run in simp_all)
            then show ?thesis
              using e arr now(2) got(2,3) by (intro delivers_got[of c es p ?c es1 "[p]"]) simp_all
          next
            case early
            let ?c = "c \<lparr> k_pending := insert_pending p (k_pending c) \<rparr>"
            have e: "recvOrderedFrame c es = recvOrderedFrame ?c es1" using b ne early by (simp add: step)
            have r: "ready ?c (insert p seen)" by (rule ready_insert[OF 1(4) got(3) early(1)])
            show ?thesis by (rule delivers_shift[OF ih(3)[OF b ne early r calm1] e]) (use arr got(2) in simp_all)
          qed
        qed
      qed
    qed
  qed
qed


text \<open>All frames that successive calls deliver.\<close>

function deliver :: "Client \<Rightarrow> Event list \<Rightarrow> BpshFrame list" where
  "deliver c es = (case recvOrderedFrame c es of Some (Some f, c', es') \<Rightarrow> f # deliver c' es' | _ \<Rightarrow> [])"
  by pat_completeness auto
termination
  by (relation "measures [\<lambda>(c, es). length es, \<lambda>(c, es). length (k_pending c)]") (auto dest!: recvOrderedFrame_shorter)

declare deliver.simps [simp del]

definition in_order :: "Client \<Rightarrow> Event list \<Rightarrow> BpshFrame list" where
  "in_order c es = filter (\<lambda>f. f_msgType f \<noteq> BpshMsgError) (deliver c es)"

lemma arrivals_ordered: "f \<in> set (arrivals sid es) \<Longrightarrow> f_sessionId f = sid \<and> f_msgType f \<noteq> BpshMsgError"
  by (induction sid es rule: arrivals.induct) (auto simp: ordered_def split: if_splits)

lemma deliver_ready:
  "ready c seen \<Longrightarrow> \<forall>e \<in> set es. calm e \<Longrightarrow> \<forall>f \<in> seen. f_sessionId f = k_sessionId c \<and> f_msgType f \<noteq> BpshMsgError \<Longrightarrow>
   numbered (k_sessionId c) (k_nextRecvSeq c) (in_order c es) \<and>
   set (in_order c es) \<subseteq> seen \<union> set (arrivals (k_sessionId c) es) \<and>
   k_nextRecvSeq c + word_of_nat (length (in_order c es)) \<notin> f_seqNum ` (seen \<union> set (arrivals (k_sessionId c) es)) \<and>
   unat (k_nextRecvSeq c) + length (in_order c es) < 2 ^ 64"
proof (induction c es arbitrary: seen rule: deliver.induct)
  case (1 c es)
  let ?sid = "k_sessionId c"
  from recvOrderedFrame_ready[OF 1(2,3)] show ?case
    unfolding delivers_def
  proof (elim disjE exE conjE)
    assume "recvOrderedFrame c es = None" "k_nextRecvSeq c \<notin> f_seqNum ` (seen \<union> set (arrivals ?sid es))"
    then show ?thesis using unat_u64_less[of "k_nextRecvSeq c"] by (simp add: in_order_def deliver.simps[of c es])
  next
    fix f c' es' got
    assume a: "recvOrderedFrame c es = Some (Some f, c', es')" "set es' \<subseteq> set es"
      "arrivals ?sid es = got @ arrivals ?sid es'" "ready c' (seen \<union> set got)" "k_sessionId c' = ?sid"
      and b: "f_msgType f = BpshMsgError" "k_nextRecvSeq c' = k_nextRecvSeq c"
    have calm': "\<forall>e \<in> set es'. calm e" using a(2) 1(3) by auto
    have g: "\<forall>f \<in> seen \<union> set got. f_sessionId f = k_sessionId c' \<and> f_msgType f \<noteq> BpshMsgError"
      using 1(4) arrivals_ordered[of _ ?sid es] a(3,5) by auto
    have d: "in_order c es = in_order c' es'" using a(1) b(1) by (simp add: in_order_def deliver.simps[of c es])
    have u: "seen \<union> set (arrivals ?sid es) = (seen \<union> set got) \<union> set (arrivals ?sid es')" using a(3) by auto
    show ?thesis using 1(1)[OF a(1) refl refl refl a(4) calm' g] unfolding d u a(5) b(2) by blast
  next
    fix f c' es' got
    assume a: "recvOrderedFrame c es = Some (Some f, c', es')" "set es' \<subseteq> set es"
      "arrivals ?sid es = got @ arrivals ?sid es'" "ready c' (seen \<union> set got)" "k_sessionId c' = ?sid"
      and b: "f_seqNum f = k_nextRecvSeq c" "f_seqNum f \<noteq> -1" "k_nextRecvSeq c' = k_nextRecvSeq c + 1" "f \<in> seen \<union> set got"
    have calm': "\<forall>e \<in> set es'. calm e" using a(2) 1(3) by auto
    have g: "\<forall>f \<in> seen \<union> set got. f_sessionId f = k_sessionId c' \<and> f_msgType f \<noteq> BpshMsgError"
      using 1(4) arrivals_ordered[of _ ?sid es] a(3,5) by auto
    have d: "in_order c es = f # in_order c' es'" using a(1) g b(4) by (auto simp: in_order_def deliver.simps[of c es])
    have u: "seen \<union> set (arrivals ?sid es) = (seen \<union> set got) \<union> set (arrivals ?sid es')" using a(3) by auto
    have n: "unat (k_nextRecvSeq c + 1) = unat (k_nextRecvSeq c) + 1" using b(1,2) by (intro unat_next) simp
    show ?thesis
      using 1(1)[OF a(1) refl refl refl a(4) calm' g] b(1,4) g n unfolding d u a(5) b(3) by (auto simp: add.assoc)
  qed
qed

text \<open>C28: However the frames of a session are reordered, delayed or repeated on the way, the client delivers
  them in the order of their numbers, each once, none missing up to the first that has not arrived; frames
  of other sessions are not delivered.\<close>
theorem frames_delivered_in_order:
  assumes "k_running c" "k_pending c = []" "\<forall>e \<in> set es. calm e"
  shows "numbered (k_sessionId c) (k_nextRecvSeq c) (in_order c es) \<and>
    set (in_order c es) \<subseteq> set (arrivals (k_sessionId c) es) \<and>
    k_nextRecvSeq c + word_of_nat (length (in_order c es)) \<notin> f_seqNum ` set (arrivals (k_sessionId c) es) \<and>
    unat (k_nextRecvSeq c) + length (in_order c es) < 2 ^ 64"
proof -
  have "ready c {}" using assms(1,2) by (simp add: ready_def)
  from deliver_ready[OF this assms(3)] show ?thesis by simp
qed

definition new_client :: "u64 \<Rightarrow> Client" where
  "new_client sid = \<lparr>k_sessionId = sid, k_running = True, k_pending = [], k_nextRecvSeq = 0, k_cwd = [], k_stdout = [], k_stderr = []\<rparr>"

theorem frames_delivered_in_order_witness:
  "numbered 7 0 (in_order (new_client 7) [Receive 1 (bytes_frame BpshMsgStdout 7 1 [98]) True,
     Receive 1 (bytes_frame BpshMsgStdout 7 0 [97]) True, Receive 1 (bytes_frame BpshMsgStdout 7 1 [98]) True])"
  using frames_delivered_in_order[of "new_client 7" "[Receive 1 (bytes_frame BpshMsgStdout 7 1 [98]) True,
     Receive 1 (bytes_frame BpshMsgStdout 7 0 [97]) True, Receive 1 (bytes_frame BpshMsgStdout 7 1 [98]) True]"]
  by (simp add: new_client_def calm_def BPSH_RECV_OK_def)

section \<open>What the client makes of a command\<close>

lemma numbered_bound: "numbered sid n fs \<Longrightarrow> \<forall>f \<in> set fs. f_seqNum f \<noteq> -1 \<Longrightarrow> unat n + length fs < 2 ^ 64"
proof (induction fs arbitrary: n)
  case Nil
  then show ?case using order_less_le_trans[OF unat_u64_less[of n], of "2 ^ 64"] by simp
next
  case (Cons f fs)
  have "n \<noteq> -1" using Cons.prems by auto
  then show ?case using Cons unat_next[of n] by fastforce
qed

text \<open>The events hold no ERROR frame.\<close>

definition no_errors :: "Event list \<Rightarrow> bool" where
  "no_errors es \<longleftrightarrow> (\<forall>rc f mem. Receive rc f mem \<in> set es \<longrightarrow> f_msgType f \<noteq> BpshMsgError)"

lemma recvOrderedFrame_next:
  assumes "ready c seen" "\<forall>e \<in> set es. calm e" "no_errors es" "g \<in> seen \<union> set (arrivals (k_sessionId c) es)"
    "f_seqNum g = k_nextRecvSeq c"
  obtains f c' es' got where "recvOrderedFrame c es = Some (Some f, c', es')" "set es' \<subseteq> set es"
    "arrivals (k_sessionId c) es = got @ arrivals (k_sessionId c) es'" "ready c' (seen \<union> set got)"
    "k_sessionId c' = k_sessionId c" "k_stdout c' = k_stdout c" "k_stderr c' = k_stderr c"
    "f_seqNum f = k_nextRecvSeq c" "k_nextRecvSeq c' = k_nextRecvSeq c + 1" "f \<in> seen \<union> set got"
proof -
  have "k_nextRecvSeq c \<in> f_seqNum ` (seen \<union> set (arrivals (k_sessionId c) es))" using assms(4,5) by (metis imageI)
  with recvOrderedFrame_ready[OF assms(1,2)] show ?thesis
    unfolding delivers_def
  proof (elim disjE exE conjE)
    fix f c' es' got
    assume "f_msgType f = BpshMsgError" "Receive BPSH_RECV_OK f True \<in> set es"
    then show ?thesis using assms(3) by (auto simp: no_errors_def)
  qed (simp, rule that)
qed

lemma awaitCommandResult_frames:
  assumes "f_msgType ex = BpshMsgExit"
  shows "ready c seen \<Longrightarrow> \<forall>e \<in> set es. calm e \<Longrightarrow> no_errors es \<Longrightarrow> numbered (k_sessionId c) (k_nextRecvSeq c) (fs @ [ex]) \<Longrightarrow>
   set (fs @ [ex]) \<subseteq> seen \<union> set (arrivals (k_sessionId c) es) \<Longrightarrow>
   \<forall>f \<in> seen \<union> set (arrivals (k_sessionId c) es). f_msgType f \<noteq> BpshMsgError \<Longrightarrow>
   \<forall>f \<in> seen \<union> set (arrivals (k_sessionId c) es). \<forall>g \<in> set (fs @ [ex]). f_seqNum f = f_seqNum g \<longrightarrow> f = g \<Longrightarrow>
   \<forall>f \<in> set fs. f_msgType f \<in> {BpshMsgStdout, BpshMsgStderr, BpshMsgCwd} \<Longrightarrow>
   \<exists>c' es'. awaitCommandResult c es = Some (0, f_exitCode ex, f_exitCause ex, c', es') \<and>
     k_stdout c' = k_stdout c @ octets_of BpshMsgStdout fs \<and> k_stderr c' = k_stderr c @ octets_of BpshMsgStderr fs"
proof (induction fs arbitrary: c es seen)
  case Nil
  let ?sid = "k_sessionId c"
  have run: "k_running c" using Nil(1) by (simp add: ready_def)
  have ex: "ex \<in> seen \<union> set (arrivals ?sid es)" "f_seqNum ex = k_nextRecvSeq c" using Nil(4,5) by simp_all
  obtain f c' es' got where
    r: "recvOrderedFrame c es = Some (Some f, c', es')" "arrivals ?sid es = got @ arrivals ?sid es'"
      "k_stdout c' = k_stdout c" "k_stderr c' = k_stderr c" "f_seqNum f = k_nextRecvSeq c" "f \<in> seen \<union> set got"
    by (rule recvOrderedFrame_next[OF Nil(1-3) ex])
  have "f \<in> seen \<union> set (arrivals ?sid es)" using r(2,6) by auto
  then have "f = ex" using Nil(7)[rule_format, of f ex] r(5) ex(2) by simp
  then show ?case
    using r run assms by (simp add: awaitCommandResult.simps[of c es] bpsh_msgs)
next
  case (Cons g fs)
  let ?sid = "k_sessionId c"
  have run: "k_running c" using Cons.prems(1) by (simp add: ready_def)
  have g: "g \<in> seen \<union> set (arrivals ?sid es)" "f_seqNum g = k_nextRecvSeq c" using Cons.prems(4,5) by simp_all
  obtain f c' es' got where
    r: "recvOrderedFrame c es = Some (Some f, c', es')" "set es' \<subseteq> set es" "arrivals ?sid es = got @ arrivals ?sid es'"
      "ready c' (seen \<union> set got)" "k_sessionId c' = ?sid" "k_stdout c' = k_stdout c" "k_stderr c' = k_stderr c" and
    d: "f_seqNum f = k_nextRecvSeq c" and n: "k_nextRecvSeq c' = k_nextRecvSeq c + 1" and m: "f \<in> seen \<union> set got"
    by (rule recvOrderedFrame_next[OF Cons.prems(1-3) g])
  have "f \<in> seen \<union> set (arrivals ?sid es)" using r(3) m by auto
  then have f: "f = g" using Cons.prems(7)[rule_format, of f g] d g(2) by simp
  have u: "seen \<union> set (arrivals ?sid es) = (seen \<union> set got) \<union> set (arrivals ?sid es')" using r(3) by auto
  have calm': "\<forall>e \<in> set es'. calm e" using Cons.prems(2) r(2) by blast
  have ne: "no_errors es'" using Cons.prems(3) r(2) unfolding no_errors_def by blast
  have ih: "\<exists>c2 es2. awaitCommandResult c1 es' = Some (0, f_exitCode ex, f_exitCause ex, c2, es2) \<and>
      k_stdout c2 = k_stdout c1 @ octets_of BpshMsgStdout fs \<and> k_stderr c2 = k_stderr c1 @ octets_of BpshMsgStderr fs"
    if "ready c1 (seen \<union> set got)" "k_sessionId c1 = ?sid" "k_nextRecvSeq c1 = k_nextRecvSeq c + 1" for c1
  proof (rule Cons.IH[OF that(1) calm' ne])
    show "numbered (k_sessionId c1) (k_nextRecvSeq c1) (fs @ [ex])" using Cons.prems(4) that(2,3) by simp
    show "set (fs @ [ex]) \<subseteq> (seen \<union> set got) \<union> set (arrivals (k_sessionId c1) es')"
      using Cons.prems(5) unfolding u that(2) by simp
    show "\<forall>f \<in> (seen \<union> set got) \<union> set (arrivals (k_sessionId c1) es'). f_msgType f \<noteq> BpshMsgError"
      using Cons.prems(6) unfolding u that(2) by simp
    show "\<forall>f \<in> (seen \<union> set got) \<union> set (arrivals (k_sessionId c1) es'). \<forall>g \<in> set (fs @ [ex]). f_seqNum f = f_seqNum g \<longrightarrow> f = g"
      using Cons.prems(7) unfolding u that(2) by simp
    show "\<forall>f \<in> set fs. f_msgType f \<in> {BpshMsgStdout, BpshMsgStderr, BpshMsgCwd}" using Cons.prems(8) by simp
  qed
  have c1: "ready (c' \<lparr> k_stdout := a \<rparr>) (seen \<union> set got)" "ready (c' \<lparr> k_stderr := a \<rparr>) (seen \<union> set got)"
    "ready (storeCwd a c') (seen \<union> set got)" for a
    using r(4) by (simp_all add: ready_def storeCwd_def)
  have ty: "f_msgType g \<in> {BpshMsgStdout, BpshMsgStderr, BpshMsgCwd}" using Cons.prems(8) by simp
  note step = awaitCommandResult.simps[of c es, unfolded r(1) f option.case prod.case]
  consider "f_msgType g = BpshMsgStdout" | "f_msgType g = BpshMsgStderr" | "f_msgType g = BpshMsgCwd" using ty by blast
  then show ?case
  proof cases
    case 1
    then have "awaitCommandResult c es = awaitCommandResult (c' \<lparr> k_stdout := k_stdout c' @ payload_of g \<rparr>) es'"
      using run by (simp add: step)
    then show ?thesis using ih[OF c1(1)[of "k_stdout c' @ payload_of g"]] r n 1 by (simp add: bpsh_msgs)
  next
    case 2
    then have "awaitCommandResult c es = awaitCommandResult (c' \<lparr> k_stderr := k_stderr c' @ payload_of g \<rparr>) es'"
      using run by (simp add: step bpsh_msgs)
    then show ?thesis using ih[OF c1(2)[of "k_stderr c' @ payload_of g"]] r n 2 by (simp add: bpsh_msgs)
  next
    case 3
    then have "awaitCommandResult c es = awaitCommandResult (storeCwd (payload_of g) c') es'"
      using run by (simp add: step bpsh_msgs)
    then show ?thesis using ih[OF c1(3)[of "payload_of g"]] r n 3 by (simp add: bpsh_msgs storeCwd_def)
  qed
qed


section \<open>The two ends together\<close>

lemma numbered_after:
  "numbered sid m gs \<Longrightarrow> unat m + length gs < 2 ^ 64 \<Longrightarrow> x \<in> set gs \<Longrightarrow> unat m \<le> unat (f_seqNum x)"
proof (induction gs arbitrary: m)
  case (Cons y gs)
  have "unat (m + 1) = unat m + 1" using Cons.prems(2) by (simp add: unat_word_ariths)
  then show ?case using Cons.IH[of "m + 1"] Cons.prems by auto
qed simp

lemma numbered_unique:
  "numbered sid n fs \<Longrightarrow> unat n + length fs < 2 ^ 64 \<Longrightarrow> f \<in> set fs \<Longrightarrow> g \<in> set fs \<Longrightarrow> f_seqNum f = f_seqNum g \<Longrightarrow> f = g"
proof (induction fs arbitrary: n)
  case (Cons h fs)
  have n: "unat (n + 1) = unat n + 1"
    using Cons.prems(2) by (simp add: unat_word_ariths)
  have ne: "x \<in> set fs \<Longrightarrow> f_seqNum x \<noteq> n" for x
    using numbered_after[of sid "n + 1" fs x] Cons.prems(1,2) n by auto
  have h: "f_seqNum h = n" "numbered sid (n + 1) fs" "unat (n + 1) + length fs < 2 ^ 64" using Cons.prems(1,2) n by simp_all
  consider "f = h" "g = h" | "f = h" "g \<in> set fs" | "f \<in> set fs" "g = h" | "f \<in> set fs" "g \<in> set fs"
    using Cons.prems(3,4) by auto
  then show ?case
  proof cases
    case 2
    then show ?thesis using ne[of g] h(1) Cons.prems(5) by metis
  next
    case 3
    then show ?thesis using ne[of f] h(1) Cons.prems(5) by metis
  next
    case 4
    then show ?thesis using Cons.IH[OF h(2,3)] Cons.prems(5) by blast
  qed simp
qed simp

text \<open>What the daemon has sent for the session from one world to another.\<close>

definition sent_between :: "World \<Rightarrow> World \<Rightarrow> BpshFrame list" where
  "sent_between w w' = map snd (drop (length (w_sent w)) (w_sent w'))"

text \<open>C27: A command run by the daemon and awaited by the client: when every frame the daemon sends for it
  arrives at least once, in whatever order and however often, and nothing else of the session does but old
  frames, the client prints on each stream exactly what the command printed there, and returns the exit
  code and cause with which the daemon left its loop.\<close>
theorem remote_command_end_to_end:
  assumes "w_ok w = []" "e_mem env" "e_written env" "\<forall>p. e_cwd env = Some p \<longrightarrow> length p < 4096"
    "bpshSessionRun env cmdline s w = Some (rc, s', w')"
    "k_running c" "k_pending c = []" "k_sessionId c = q_sessionId s" "k_nextRecvSeq c = q_replySeq s"
    "\<forall>e \<in> set es. calm e" "no_errors es"
    "set (sent_between w w') \<subseteq> set (arrivals (k_sessionId c) es)"
    "\<forall>f \<in> set (arrivals (k_sessionId c) es). f \<in> set (sent_between w w') \<or> f_seqNum f < k_nextRecvSeq c"
  shows "\<exists>st c' es'. run_loop (e_strtol env) (e_timeout env) (e_nowMs env) (e_turns env) (run_start env cmdline s w) = Some st \<and>
    awaitCommandResult c es = Some (0, v_exitCode st, v_cause st, c', es') \<and>
    k_stdout c' = k_stdout c @ printed t_out e_drainOut env cmdline s w \<and>
    k_stderr c' = k_stderr c @ printed t_err e_drainErr env cmdline s w"
proof -
  let ?A = "set (arrivals (k_sessionId c) es)"
  obtain fs ex st where r: "sends s w s' w' (fs @ [ex])"
    "run_loop (e_strtol env) (e_timeout env) (e_nowMs env) (e_turns env) (run_start env cmdline s w) = Some st"
    "f_msgType ex = BpshMsgExit" "f_exitCode ex = v_exitCode st" "f_exitCause ex = v_cause st"
    "\<forall>f \<in> set fs. frame_ok f \<and> f_msgType f \<in> {BpshMsgStdout, BpshMsgStderr, BpshMsgCwd}"
    "octets_of BpshMsgStdout fs = printed t_out e_drainOut env cmdline s w"
    "octets_of BpshMsgStderr fs = printed t_err e_drainErr env cmdline s w"
    using command_streamed_frames[OF assms(1-5)] by blast
  have sb: "sent_between w w' = fs @ [ex]" using r(1) by (simp add: sent_between_def sends_def o_def)
  have nb: "numbered (k_sessionId c) (k_nextRecvSeq c) (fs @ [ex])" using r(1) assms(8,9) by (simp add: sends_def)
  have seq: "\<forall>f \<in> ?A. f_seqNum f \<noteq> -1"
  proof -
    have "f \<in> set (arrivals sid xs) \<Longrightarrow> \<forall>e \<in> set xs. calm e \<Longrightarrow> f_seqNum f \<noteq> -1" for f sid xs
      by (induction sid xs rule: arrivals.induct) (auto simp: calm_def ordered_def split: if_splits)
    then show ?thesis using assms(10) by blast
  qed
  have bound: "unat (k_nextRecvSeq c) + length (fs @ [ex]) < 2 ^ 64"
    by (rule numbered_bound[OF nb]) (use assms(12) seq sb in auto)
  have ge: "g \<in> set (fs @ [ex]) \<Longrightarrow> \<not> f_seqNum g < k_nextRecvSeq c" for g
    using numbered_after[OF nb bound] by (simp add: word_less_nat_alt not_less)
  have uniq: "f = g" if f: "f \<in> {} \<union> ?A" and g: "g \<in> set (fs @ [ex])" and e: "f_seqNum f = f_seqNum g" for f g
  proof -
    have "\<not> f_seqNum f < k_nextRecvSeq c" using ge[OF g] e by simp
    then have "f \<in> set (fs @ [ex])" using assms(13) f unfolding sb by blast
    then show ?thesis by (rule numbered_unique[OF nb bound _ g e])
  qed
  have "\<exists>c' es'. awaitCommandResult c es = Some (0, f_exitCode ex, f_exitCause ex, c', es') \<and>
     k_stdout c' = k_stdout c @ octets_of BpshMsgStdout fs \<and> k_stderr c' = k_stderr c @ octets_of BpshMsgStderr fs"
  proof (rule awaitCommandResult_frames[OF r(3) _ assms(10,11) nb])
    show "ready c {}" using assms(6,7) by (simp add: ready_def)
    show "set (fs @ [ex]) \<subseteq> {} \<union> ?A" using assms(12) sb by simp
    show "\<forall>f \<in> {} \<union> ?A. f_msgType f \<noteq> BpshMsgError" using arrivals_ordered by blast
  qed (use uniq r(6) in blast)+
  then show ?thesis using r(2,4,5,7,8) by auto
qed


definition example_frames :: "BpshFrame list" where
  "example_frames = [bytes_frame BpshMsgStdout 7 0 [104], bytes_frame BpshMsgStderr 7 1 [101], bytes_frame BpshMsgStdout 7 2 [105],
     bytes_frame BpshMsgCwd 7 3 [47], exit_frame 7 4 3 BpshCauseNormal]"

definition shuffled :: "Event list" where
  "shuffled = Receive BPSH_RECV_OK (example_frames ! 4) True # Receive BPSH_RECV_SKIP (example_frames ! 4) True #
     map (\<lambda>f. Receive BPSH_RECV_OK f True) (rev example_frames @ example_frames)"

lemma example_sends:
  assumes "bpshSessionRun example_env [108] example_session idle_world = Some (rc, s', w')"
  shows "sent_between idle_world w' = example_frames"
proof -
  have m: "e_mem example_env" "e_written example_env" by (simp_all add: example_env_def)
  show ?thesis
    using assms unfolding bpshSessionRun_started[OF m]
    by (auto simp: run_eval one_frame_stream run_finish_def bpshSessionSendCwd_def send_exit_def sent_between_def example_frames_def
        exit_code_def)
qed

theorem remote_command_end_to_end_witness:
  "\<exists>c' es'. awaitCommandResult (new_client 7) shuffled = Some (0, 3, BpshCauseNormal, c', es') \<and>
    k_stdout c' = [104, 105] \<and> k_stderr c' = [101]"
proof -
  obtain rc s' w' where r: "bpshSessionRun example_env [108] example_session idle_world = Some (rc, s', w')"
    using example_runs by blast
  have h: "w_ok idle_world = []" "e_mem example_env" "e_written example_env" "\<forall>p. e_cwd example_env = Some p \<longrightarrow> length p < 4096"
    by (simp_all add: idle_world_def example_env_def)
  have c: "k_running (new_client 7)" "k_pending (new_client 7) = []" "k_sessionId (new_client 7) = q_sessionId example_session"
    "k_nextRecvSeq (new_client 7) = q_replySeq example_session"
    by (simp_all add: new_client_def example_session_def bpshSessionOpen_def)
  have e: "\<forall>e \<in> set shuffled. calm e" by (simp add: shuffled_def example_frames_def calm_def)
  have n: "no_errors shuffled" by (auto simp: no_errors_def shuffled_def example_frames_def bpsh_msgs)
  have a: "set (arrivals (k_sessionId (new_client 7)) shuffled) = set example_frames"
    by (auto simp: shuffled_def example_frames_def new_client_def ordered_def bpsh_msgs recv_code_neq recv_code_neq[symmetric])
  have "run_loop (e_strtol example_env) (e_timeout example_env) (e_nowMs example_env) (e_turns example_env)
      (run_start example_env [108] example_session idle_world) = Some st \<Longrightarrow> v_exitCode st = 3 \<and> v_cause st = BpshCauseNormal" for st
    by (auto simp: run_eval one_frame_stream exit_code_def)
  then show ?thesis
    using remote_command_end_to_end[OF h r c e n] a example_sends[OF r] unfolding example_printed
    by (auto simp: new_client_def)
qed

section \<open>Model: sending\<close>

text \<open>\<open>sendMutex\<close> makes taking the number and sending the frame one step.\<close>

definition sendTyped :: "u32 \<Rightarrow> u64 \<Rightarrow> u64 \<Rightarrow> bytes option \<Rightarrow> BpshFrame \<times> u64" where
  "sendTyped type sessionId sendSeq payload =
     ((ctl_frame type sessionId sendSeq) \<lparr> f_payload := payload, f_payloadLen := (case payload of None \<Rightarrow> 0 | Some p \<Rightarrow> length p) \<rparr>,
      sendSeq + 1)"

definition sendInit :: "bytes option \<Rightarrow> bool \<Rightarrow> u64 \<Rightarrow> u64 \<Rightarrow> BpshFrame \<times> u64" where
  "sendInit authSecret wantStdin sessionId sendSeq =
     (let secret = (case authSecret of None \<Rightarrow> [] | Some s \<Rightarrow> s)
      in if secret = [] \<and> \<not> wantStdin then sendTyped BpshMsgInit sessionId sendSeq None
         else sendTyped BpshMsgInit sessionId sendSeq (Some ((if wantStdin then 1 else 0) # secret)))"

definition sendStdinChunk :: "u64 \<Rightarrow> u64 \<Rightarrow> bytes \<Rightarrow> BpshFrame \<times> u64" where
  "sendStdinChunk sessionId sendSeq bs = sendTyped BpshMsgStdinChunk sessionId sendSeq (Some bs)"

definition sendStdinEof :: "u64 \<Rightarrow> u64 \<Rightarrow> BpshFrame \<times> u64" where
  "sendStdinEof sessionId sendSeq = sendTyped BpshMsgStdinEof sessionId sendSeq None"

definition sendReq :: "u64 \<Rightarrow> u64 \<Rightarrow> bytes \<Rightarrow> BpshFrame \<times> u64" where
  "sendReq sessionId sendSeq line = sendTyped BpshMsgReq sessionId sendSeq (Some line)"

definition sendExitSession :: "u64 \<Rightarrow> u64 \<Rightarrow> BpshFrame \<times> u64" where
  "sendExitSession sessionId sendSeq = sendTyped BpshMsgExitSession sessionId sendSeq None"

section \<open>Model: the command history\<close>

text \<open>\<open>mem\<close>: the copy, and the longer table where one is needed, can be had.\<close>

definition historyAdd :: "bool \<Rightarrow> bytes \<Rightarrow> bytes list \<Rightarrow> bytes list" where
  "historyAdd mem line history =
     (if history \<noteq> [] \<and> last history = line then history
      else if \<not> mem then history
      else (if length history = BPSH_HIST_MAX then tl history else history) @ [line])"

section \<open>Model: the line editor\<close>

record Editor =
  d_buf :: bytes
  d_pos :: nat
  d_hpos :: nat
  d_saved :: bytes

text \<open>What a \<open>read\<close> of the terminal gives: an octet, the end of input, an error, or an interrupt, with
  which \<open>running\<close> is cleared.\<close>

datatype Key = Byte u8 | KeyEof | KeyError | KeyQuit

definition loadLine :: "nat \<Rightarrow> bytes \<Rightarrow> Editor \<Rightarrow> Editor" where
  "loadLine sz src ed = (let s = take (sz - 1) src in ed \<lparr> d_buf := s, d_pos := length s \<rparr>)"

definition backspace :: "Editor \<Rightarrow> Editor" where
  "backspace ed =
     (if d_pos ed > 0 then ed \<lparr> d_buf := take (d_pos ed - 1) (d_buf ed) @ drop (d_pos ed) (d_buf ed), d_pos := d_pos ed - 1 \<rparr>
      else ed)"

definition delete_at :: "Editor \<Rightarrow> Editor" where
  "delete_at ed =
     (if d_pos ed < length (d_buf ed) then ed \<lparr> d_buf := take (d_pos ed) (d_buf ed) @ drop (d_pos ed + 1) (d_buf ed) \<rparr> else ed)"

definition insert_char :: "nat \<Rightarrow> u8 \<Rightarrow> Editor \<Rightarrow> Editor" where
  "insert_char sz c ed =
     (if length (d_buf ed) + 1 < sz
      then ed \<lparr> d_buf := take (d_pos ed) (d_buf ed) @ c # drop (d_pos ed) (d_buf ed), d_pos := d_pos ed + 1 \<rparr> else ed)"

definition arrow_up :: "nat \<Rightarrow> bytes list \<Rightarrow> Editor \<Rightarrow> Editor" where
  "arrow_up sz history ed =
     (if d_hpos ed > 0 then
        (let ed = (if d_hpos ed = length history then ed \<lparr> d_saved := d_buf ed \<rparr> else ed);
             ed = ed \<lparr> d_hpos := d_hpos ed - 1 \<rparr>
         in loadLine sz (history ! d_hpos ed) ed)
      else ed)"

definition arrow_down :: "nat \<Rightarrow> bytes list \<Rightarrow> Editor \<Rightarrow> Editor" where
  "arrow_down sz history ed =
     (if d_hpos ed < length history then
        (let ed = ed \<lparr> d_hpos := d_hpos ed + 1 \<rparr>
         in loadLine sz (if d_hpos ed = length history then d_saved ed else history ! d_hpos ed) ed)
      else ed)"

text \<open>\<open>ESC [ c\<close> or \<open>ESC O c\<close>.\<close>

definition csi_key :: "nat \<Rightarrow> bytes list \<Rightarrow> u8 \<Rightarrow> Editor \<Rightarrow> Editor" where
  "csi_key sz history c ed =
     (if c = of_char CHR ''C'' then (if d_pos ed < length (d_buf ed) then ed \<lparr> d_pos := d_pos ed + 1 \<rparr> else ed)
      else if c = of_char CHR ''D'' then (if d_pos ed > 0 then ed \<lparr> d_pos := d_pos ed - 1 \<rparr> else ed)
      else if c = of_char CHR ''H'' then ed \<lparr> d_pos := 0 \<rparr>
      else if c = of_char CHR ''F'' then ed \<lparr> d_pos := length (d_buf ed) \<rparr>
      else if c = of_char CHR ''A'' then arrow_up sz history ed
      else if c = of_char CHR ''B'' then arrow_down sz history ed
      else ed)"

text \<open>\<open>ESC [ digit ... ~\<close>.\<close>

definition ext_key :: "u8 \<Rightarrow> Editor \<Rightarrow> Editor" where
  "ext_key c ed =
     (if c = of_char CHR ''3'' then delete_at ed
      else if c = of_char CHR ''1'' \<or> c = of_char CHR ''7'' then ed \<lparr> d_pos := 0 \<rparr>
      else if c = of_char CHR ''4'' \<or> c = of_char CHR ''8'' then ed \<lparr> d_pos := length (d_buf ed) \<rparr>
      else ed)"

text \<open>The rest of an extended sequence is consumed up to the tilde, or to a read that gives no octet.\<close>

fun skip_ext :: "Key list \<Rightarrow> (bool \<times> Key list) option" where
  "skip_ext [] = None"
| "skip_ext (Byte c # ks) = (if c = of_char CHR ''~'' then Some (True, ks) else skip_ext ks)"
| "skip_ext (KeyQuit # ks) = Some (False, ks)"
| "skip_ext (_ # ks) = Some (True, ks)"

lemma skip_ext_shorter: "skip_ext ks = Some (r, ks') \<Longrightarrow> length ks' < length ks"
  by (induction ks rule: skip_ext.induct) (auto split: if_splits)

text \<open>The outcome of an escape sequence: the state, whether the client still runs, the keys left.\<close>

definition escape :: "nat \<Rightarrow> bytes list \<Rightarrow> Key list \<Rightarrow> Editor \<Rightarrow> (Editor \<times> bool \<times> Key list) option" where
  "escape sz history ks ed =
     (case ks of
        [] \<Rightarrow> None
      | Byte seq0 # ks \<Rightarrow>
          if seq0 \<noteq> of_char CHR ''['' \<and> seq0 \<noteq> of_char CHR ''O'' then Some (ed, True, ks)
          else
            (case ks of
               [] \<Rightarrow> None
             | Byte seq1 # ks \<Rightarrow>
                 if of_char CHR ''0'' \<le> seq1 \<and> seq1 \<le> of_char CHR ''9'' then
                   (case skip_ext ks of None \<Rightarrow> None | Some (running, ks) \<Rightarrow> Some (ext_key seq1 ed, running, ks))
                 else Some (csi_key sz history seq1 ed, True, ks)
             | k # ks \<Rightarrow> Some (ed, k \<noteq> KeyQuit, ks))
      | k # ks \<Rightarrow> Some (ed, k \<noteq> KeyQuit, ks))"

lemma escape_shorter: "escape sz history ks ed = Some (ed', r, ks') \<Longrightarrow> length ks' < length ks"
  by (auto simp: escape_def split: list.splits Key.splits if_splits option.splits dest!: skip_ext_shorter)

text \<open>Backspace, a control octet, a printable octet.\<close>

definition plain_key :: "nat \<Rightarrow> u8 \<Rightarrow> Editor \<Rightarrow> Editor" where
  "plain_key sz c ed = (if c = 127 \<or> c = 8 then backspace ed else if c < 32 then ed else insert_char sz c ed)"

text \<open>The loop of \<open>readLineRaw\<close>: the line, or \<open>None\<close> for -1; the outer \<open>None\<close> waits for more keys.\<close>

function edit_loop :: "nat \<Rightarrow> bytes list \<Rightarrow> bool \<Rightarrow> Key list \<Rightarrow> Editor \<Rightarrow> bytes option option" where
  "edit_loop sz history running ks ed =
     (if \<not> running then Some None
      else
        (case ks of
           [] \<Rightarrow> None
         | KeyError # ks \<Rightarrow> Some None
         | KeyQuit # ks \<Rightarrow> Some None
         | KeyEof # ks \<Rightarrow> Some (if length (d_buf ed) = 0 then None else Some (d_buf ed))
         | Byte c # ks \<Rightarrow>
             if c = 13 \<or> c = 10 then Some (Some (d_buf ed))
             else if c = 4 then (if length (d_buf ed) = 0 then Some None else edit_loop sz history running ks ed)
             else if c = 27 then
               (case escape sz history ks ed of
                  None \<Rightarrow> None
                | Some (ed, running, ks) \<Rightarrow> edit_loop sz history running ks ed)
             else edit_loop sz history running ks (plain_key sz c ed)))"
  by pat_completeness auto
termination
  by (relation "measure (\<lambda>(sz, history, running, ks, ed). length ks)") (auto dest!: escape_shorter)

declare edit_loop.simps [simp del]

definition readLineRaw :: "nat \<Rightarrow> bytes list \<Rightarrow> Key list \<Rightarrow> bytes option option" where
  "readLineRaw sz history ks =
     edit_loop sz history True ks \<lparr>d_buf = [], d_pos = 0, d_hpos = length history, d_saved = []\<rparr>"


section \<open>What the editor does\<close>

definition printable :: "bytes \<Rightarrow> bool" where
  "printable s \<longleftrightarrow> (\<forall>c \<in> set s. 32 \<le> c \<and> c \<noteq> 127)"

definition editor_ok :: "nat \<Rightarrow> bytes list \<Rightarrow> Editor \<Rightarrow> bool" where
  "editor_ok sz history ed \<longleftrightarrow> d_pos ed \<le> length (d_buf ed) \<and> length (d_buf ed) < sz \<and> length (d_saved ed) < sz \<and>
     d_hpos ed \<le> length history \<and> printable (d_buf ed) \<and> printable (d_saved ed)"

lemma printable_take_drop: "printable s \<Longrightarrow> printable (take n s)" "printable s \<Longrightarrow> printable (drop n s)"
  by (auto simp: printable_def dest: in_set_takeD in_set_dropD)

lemma printable_append [simp]: "printable (s @ t) \<longleftrightarrow> printable s \<and> printable t"
  by (auto simp: printable_def)

lemma editor_ok_keys:
  assumes "editor_ok sz history ed" "\<forall>h \<in> set history. printable h"
  shows "editor_ok sz history (backspace ed)" "editor_ok sz history (delete_at ed)"
    "editor_ok sz history (arrow_up sz history ed)" "editor_ok sz history (arrow_down sz history ed)"
    "32 \<le> c \<Longrightarrow> c \<noteq> 127 \<Longrightarrow> editor_ok sz history (insert_char sz c ed)"
proof -
  show "editor_ok sz history (backspace ed)" "editor_ok sz history (delete_at ed)"
    using assms(1) by (auto simp: editor_ok_def backspace_def delete_at_def printable_take_drop)
  show "32 \<le> c \<Longrightarrow> c \<noteq> 127 \<Longrightarrow> editor_ok sz history (insert_char sz c ed)"
    using assms(1) by (auto simp: editor_ok_def insert_char_def printable_take_drop printable_def dest: in_set_takeD in_set_dropD)
  have up: "0 < d_hpos ed \<Longrightarrow> printable (history ! (d_hpos ed - 1))"
    using assms by (auto simp: editor_ok_def)
  show "editor_ok sz history (arrow_up sz history ed)"
    using assms(1) up by (auto simp: editor_ok_def arrow_up_def loadLine_def Let_def printable_take_drop)
  have down: "Suc (d_hpos ed) < length history \<Longrightarrow> printable (history ! Suc (d_hpos ed))" using assms(2) by simp
  show "editor_ok sz history (arrow_down sz history ed)"
    using assms(1) down by (auto simp: editor_ok_def arrow_down_def loadLine_def Let_def printable_take_drop)
qed

lemma editor_ok_escape:
  assumes "editor_ok sz history ed" "\<forall>h \<in> set history. printable h" "escape sz history ks ed = Some (ed', r, ks')"
  shows "editor_ok sz history ed'"
proof -
  note ok = editor_ok_keys[OF assms(1,2)]
  have moves: "editor_ok sz history (ed \<lparr> d_pos := n \<rparr>)" if "n \<le> length (d_buf ed)" for n
    using assms(1) that by (simp add: editor_ok_def)
  have pos: "d_pos ed \<le> length (d_buf ed)" using assms(1) by (simp add: editor_ok_def)
  have "editor_ok sz history (csi_key sz history c ed)" "editor_ok sz history (ext_key c ed)" for c
    using ok moves pos assms(1) by (simp_all add: csi_key_def ext_key_def)
  then show ?thesis
    using assms by (auto simp: escape_def split: list.splits Key.splits if_splits option.splits)
qed

lemma editor_ok_plain:
  assumes "editor_ok sz history ed" "\<forall>h \<in> set history. printable h"
  shows "editor_ok sz history (plain_key sz c ed)"
  using editor_ok_keys[OF assms] assms(1) by (simp add: plain_key_def not_less)

lemma edit_loop_line:
  "edit_loop sz history running ks ed = Some (Some line) \<Longrightarrow> editor_ok sz history ed \<Longrightarrow> \<forall>h \<in> set history. printable h \<Longrightarrow>
   length line < sz \<and> printable line"
proof (induction sz history running ks ed arbitrary: line rule: edit_loop.induct)
  case (1 sz history running ks ed)
  note eq = edit_loop.simps[of sz history running ks ed]
  have run: "\<not> \<not> running" using 1(4) by (simp add: eq split: if_splits)
  show ?case
  proof (cases ks)
    case Nil
    have "running" using run by simp
    then show ?thesis using 1(4) Nil by (simp add: edit_loop.simps[of sz history True "[]" ed])
  next
    case (Cons k ks')
    note e0 = 1(4)[unfolded Cons, unfolded edit_loop.simps[of sz history running "k # ks'" ed] list.case if_not_P[OF run]]
    show ?thesis
    proof (cases k)
      case (Byte c)
      note e = 1(4)[unfolded Cons Byte, unfolded edit_loop.simps[of sz history running "Byte c # ks'" ed] list.case Key.case if_not_P[OF run]]
      note ih = 1(1-3)[OF run Cons Byte]
      consider (line) "c = 13 \<or> c = 10" | (four) "\<not> (c = 13 \<or> c = 10)" "c = 4" |
        (esc) "\<not> (c = 13 \<or> c = 10)" "c \<noteq> 4" "c = 27" | (plain) "\<not> (c = 13 \<or> c = 10)" "c \<noteq> 4" "c \<noteq> 27" by blast
      then show ?thesis
      proof cases
        case line
        then show ?thesis using e 1(5) by (simp add: editor_ok_def)
      next
        case four
        then show ?thesis using e ih(1)[OF four] 1(5,6) by (auto split: if_splits)
      next
        case esc
        obtain ed1 r ks1 where x: "escape sz history ks' ed = Some (ed1, r, ks1)"
          using e esc by (auto split: option.splits)
        have "edit_loop sz history r ks1 ed1 = Some (Some line)" using e esc x by simp
        then show ?thesis using ih(2)[OF esc x refl refl] editor_ok_escape[OF 1(5,6) x] 1(6) by blast
      next
        case plain
        have "edit_loop sz history running ks' (plain_key sz c ed) = Some (Some line)" using e plain by simp
        then show ?thesis using ih(3)[OF plain] editor_ok_plain[OF 1(5,6)] 1(6) by blast
      qed
    qed (use e0 1(5) in \<open>simp_all add: editor_ok_def split: if_splits\<close>)
  qed
qed

text \<open>Whatever keys are pressed, a line that is read fits its buffer and holds no control octet, as the
  lines of the history do; the cursor stays within the line.\<close>
theorem line_read_fits:
  assumes "readLineRaw sz history ks = Some (Some line)" "0 < sz" "\<forall>h \<in> set history. printable h"
  shows "length line < sz \<and> printable line"
  using assms(1) unfolding readLineRaw_def
  by (rule edit_loop_line) (use assms(2,3) in \<open>simp_all add: editor_ok_def printable_def\<close>)

theorem line_read_fits_witness:
  "length [97, 99, 98 :: u8] < 8192 \<and> printable [97, 99, 98]"
proof -
  have "readLineRaw 8192 [] [Byte 97, Byte 98, Byte 27, Byte 91, Byte 68, Byte 99, Byte 13] = Some (Some [97, 99, 98])"
    by (simp add: readLineRaw_def edit_loop.simps escape_def csi_key_def plain_key_def insert_char_def)
  from line_read_fits[OF this] show ?thesis by simp
qed

text \<open>The buffer and the cursor are a text cut in two.\<close>

definition zipper :: "Editor \<Rightarrow> bytes \<times> bytes" where
  "zipper ed = (take (d_pos ed) (d_buf ed), drop (d_pos ed) (d_buf ed))"

lemma zipper_keys:
  assumes "d_pos ed \<le> length (d_buf ed)" "zipper ed = (l, r)"
  shows "length (d_buf ed) + 1 < sz \<Longrightarrow> zipper (insert_char sz c ed) = (l @ [c], r)"
    "zipper (backspace ed) = (butlast l, r)"
    "zipper (delete_at ed) = (l, tl r)"
proof -
  have lr: "d_buf ed = l @ r" "d_pos ed = length l" using assms by (auto simp: zipper_def)
  show "length (d_buf ed) + 1 < sz \<Longrightarrow> zipper (insert_char sz c ed) = (l @ [c], r)"
    using lr by (simp add: zipper_def insert_char_def)
  show "zipper (backspace ed) = (butlast l, r)"
    using lr by (cases l rule: rev_cases) (simp_all add: zipper_def backspace_def)
  show "zipper (delete_at ed) = (l, tl r)"
    using lr by (cases r) (simp_all add: zipper_def delete_at_def)
qed

lemma typed_text:
  "printable s \<Longrightarrow> length (d_buf ed) + length s < sz \<Longrightarrow> d_pos ed = length (d_buf ed) \<Longrightarrow>
   edit_loop sz history True (map Byte s @ Byte 13 # ks) ed = Some (Some (d_buf ed @ s))"
proof (induction s arbitrary: ed)
  case Nil
  then show ?case by (simp add: edit_loop.simps)
next
  case (Cons c s)
  have c: "32 \<le> c" "c \<noteq> 127" and s: "printable s" using Cons.prems(1) by (simp_all add: printable_def)
  have n: "c \<noteq> 13" "c \<noteq> 10" "c \<noteq> 4" "c \<noteq> 27" "c \<noteq> 8" "\<not> c < 32" using c(1) by auto
  have "edit_loop sz history True (map Byte (c # s) @ Byte 13 # ks) ed =
      edit_loop sz history True (map Byte s @ Byte 13 # ks) (insert_char sz c ed)"
    by (subst edit_loop.simps) (simp add: n c plain_key_def)
  moreover have "d_buf (insert_char sz c ed) = d_buf ed @ [c]" "d_pos (insert_char sz c ed) = length (d_buf ed @ [c])"
    using Cons.prems(2,3) by (simp_all add: insert_char_def)
  ultimately show ?case using Cons.IH[OF s, of "insert_char sz c ed"] Cons.prems(2) by simp
qed

section \<open>The history\<close>

lemma historyAdd_bounded:
  assumes "length history \<le> BPSH_HIST_MAX"
  shows "length (historyAdd mem line history) \<le> BPSH_HIST_MAX"
  using assms by (auto simp: historyAdd_def BPSH_HIST_MAX_def)

lemma historyAdd_last: "historyAdd True line history \<noteq> [] \<and> last (historyAdd True line history) = line"
  by (simp add: historyAdd_def)


end
