(* ===== verification/MailMsg.thy ===== *)
theory MailMsg
  imports Prelude
begin

unbundle bit_operations_syntax

text \<open>
  Messages of the mail convergence layer (CLA/mail/src/mailmsg.c): base64, and the framing of
  bundles in a mail message as MIME attachments, as base64 text or as raw octets.

  A string is its octets without the terminating NUL; \<open>line[256]\<close> filled by \<open>snprintf\<close> is the first
  255 octets of what is printed.  \<open>malloc\<close> and \<open>realloc\<close> are a predicate that says whether a size can
  be had; what becomes of a buffer that is freed is not modelled.  The callback is a function on its
  context.  Parsing walks the rest of the message, a pointer being the octets from it on.

  The lemmas show that base64 round-trips through any layout with white space, that a buffer of the
  announced length holds the encoding, and that what \<open>mailBuildMessage\<close> puts into a message,
  \<open>mailParseMessage\<close> takes out of it, bundle for bundle.
\<close>

section \<open>Model: constants and names\<close>

definition MAIL_ENC_ATTACH :: int where "MAIL_ENC_ATTACH = 0"
definition MAIL_ENC_B64 :: int where "MAIL_ENC_B64 = 1"
definition MAIL_ENC_RAW :: int where "MAIL_ENC_RAW = 2"
definition MAIL_SEPARATOR :: bytes where "MAIL_SEPARATOR = ascii ''--ION-BUNDLE-MAIL-SEPARATOR--''"
definition MAIL_BOUNDARY :: bytes where "MAIL_BOUNDARY = ascii ''ION-BUNDLE-MAIL-SEPARATOR''"
definition MAIL_HDR_ENCODING :: bytes where "MAIL_HDR_ENCODING = ascii ''X-ION-Bundle-Encoding''"
definition MAIL_HDR_COUNT :: bytes where "MAIL_HDR_COUNT = ascii ''X-ION-Bundle-Count''"
definition DEFAULT_SUBJECT :: bytes where "DEFAULT_SUBJECT = ascii ''ION-DTN Bundle''"
definition CRLF :: bytes where "CRLF = [13, 10]"

definition mailEncodingFromName :: "bytes option \<Rightarrow> int" where
  "mailEncodingFromName name =
     (if name = None then -1
      else if name = Some (ascii ''attach'') then MAIL_ENC_ATTACH
      else if name = Some (ascii ''b64'') then MAIL_ENC_B64
      else if name = Some (ascii ''raw'') then MAIL_ENC_RAW
      else -1)"

definition mailEncodingName :: "int \<Rightarrow> bytes" where
  "mailEncodingName encoding =
     (if encoding = MAIL_ENC_ATTACH then ascii ''attach''
      else if encoding = MAIL_ENC_B64 then ascii ''b64''
      else if encoding = MAIL_ENC_RAW then ascii ''raw''
      else ascii ''?'')"

section \<open>Model: base64\<close>

definition b64tab :: bytes where
  "b64tab = ascii ''ABCDEFGHIJKLMNOPQRSTUVWXYZabcdefghijklmnopqrstuvwxyz0123456789+/''"

definition mailB64EncodedLen :: "nat \<Rightarrow> nat" where
  "mailB64EncodedLen rawLen = ((rawLen + 2) div 3) * 4 + 1"

text \<open>\<open>b64tab[(v >> s) & 0x3f]\<close>.\<close>

definition b64_char :: "u32 \<Rightarrow> nat \<Rightarrow> u8" where
  "b64_char v s = b64tab ! unat (drop_bit s v AND 0x3f)"

fun b64_text :: "bytes \<Rightarrow> bytes" where
  "b64_text (x # y # z # rest) =
     (let v = push_bit 16 (ucast x) OR push_bit 8 (ucast y) OR ucast z
      in b64_char v 18 # b64_char v 12 # b64_char v 6 # b64_char v 0 # b64_text rest)"
| "b64_text [x, y] =
     (let v = push_bit 16 (ucast x) OR push_bit 8 (ucast y)
      in [b64_char v 18, b64_char v 12, b64_char v 6, of_char CHR ''='' ])"
| "b64_text [x] =
     (let v = push_bit 16 (ucast x)
      in [b64_char v 18, b64_char v 12, of_char CHR ''='', of_char CHR ''='' ])"
| "b64_text [] = []"

definition mailB64Encode :: "bytes \<Rightarrow> nat \<Rightarrow> int \<times> bytes" where
  "mailB64Encode input outCap = (if outCap < mailB64EncodedLen (length input) then (-1, []) else (0, b64_text input))"

definition b64val :: "u8 \<Rightarrow> int" where
  "b64val c =
     (if of_char CHR ''A'' \<le> c \<and> c \<le> of_char CHR ''Z'' then uint c - 65
      else if of_char CHR ''a'' \<le> c \<and> c \<le> of_char CHR ''z'' then uint c - 97 + 26
      else if of_char CHR ''0'' \<le> c \<and> c \<le> of_char CHR ''9'' then uint c - 48 + 52
      else if c = of_char CHR ''+'' then 62
      else if c = of_char CHR ''/'' then 63
      else -1)"

definition is_blank :: "u8 \<Rightarrow> bool" where
  "is_blank c \<longleftrightarrow> c = of_char CHR '' '' \<or> c = 13 \<or> c = 10 \<or> c = 9"

fun b64_loop :: "u32 \<Rightarrow> nat \<Rightarrow> nat \<Rightarrow> bytes \<Rightarrow> bytes \<Rightarrow> bytes option" where
  "b64_loop acc bits outCap out [] = Some out"
| "b64_loop acc bits outCap out (c # cs) =
     (if c = of_char CHR ''='' then Some out
      else if is_blank c then b64_loop acc bits outCap out cs
      else
        (let v = b64val c
         in if v < 0 then None
            else
              (let acc = push_bit 6 acc OR word_of_int v; bits = bits + 6
               in if bits \<ge> 8 then
                    (let bits = bits - 8
                     in if length out \<ge> outCap then None
                        else b64_loop acc bits outCap (out @ [ucast (drop_bit bits acc AND 0xff)]) cs)
                  else b64_loop acc bits outCap out cs)))"

text \<open>\<open>None\<close> is -1.\<close>

definition mailB64Decode :: "bytes \<Rightarrow> nat \<Rightarrow> bytes option" where
  "mailB64Decode input outCap = b64_loop 0 0 outCap [] input"

section \<open>Model: the output buffer\<close>

record Buf =
  b_p :: bytes
  b_cap :: nat

function grow_to :: "nat \<Rightarrow> nat \<Rightarrow> nat" where
  "grow_to ncap want = (if 0 < ncap \<and> ncap < want then grow_to (ncap * 2) want else ncap)"
  by pat_completeness auto
termination by (relation "measure (\<lambda>(ncap, want). want - ncap)") auto

declare grow_to.simps [simp del]

definition bufEnsure :: "(nat \<Rightarrow> bool) \<Rightarrow> Buf \<Rightarrow> nat \<Rightarrow> Buf option" where
  "bufEnsure mem b extra =
     (if length (b_p b) + extra + 1 > b_cap b then
        (let ncap = grow_to (if b_cap b \<noteq> 0 then b_cap b else 1024) (length (b_p b) + extra + 1)
         in if mem ncap then Some (b \<lparr> b_cap := ncap \<rparr>) else None)
      else Some b)"

definition bufAppend :: "(nat \<Rightarrow> bool) \<Rightarrow> bytes \<Rightarrow> Buf \<Rightarrow> Buf option" where
  "bufAppend mem s b = map_option (\<lambda>b. b \<lparr> b_p := b_p b @ s \<rparr>) (bufEnsure mem b (length s))"

definition bufStr :: "(nat \<Rightarrow> bool) \<Rightarrow> bytes \<Rightarrow> Buf \<Rightarrow> Buf option" where
  "bufStr mem s b = bufAppend mem s b"

function b64_lines :: "(nat \<Rightarrow> bool) \<Rightarrow> bytes \<Rightarrow> Buf \<Rightarrow> Buf option" where
  "b64_lines mem enc b =
     (if enc = [] then Some b
      else (case bufAppend mem (take 76 enc) b of
              None \<Rightarrow> None
            | Some b \<Rightarrow> (case bufStr mem CRLF b of
                           None \<Rightarrow> None
                         | Some b \<Rightarrow> b64_lines mem (drop 76 enc) b)))"
  by pat_completeness auto
termination by (relation "measure (\<lambda>(mem, enc, b). length enc)") auto

declare b64_lines.simps [simp del]

definition bufB64 :: "(nat \<Rightarrow> bool) \<Rightarrow> bytes \<Rightarrow> Buf \<Rightarrow> Buf option" where
  "bufB64 mem bundle b =
     (let cap = mailB64EncodedLen (length bundle)
      in if \<not> mem cap then None
         else (let (rc, enc) = mailB64Encode bundle cap in if rc < 0 then None else b64_lines mem enc b))"

section \<open>Model: building a message\<close>

text \<open>\<open>snprintf\<close> into \<open>line[256]\<close>.\<close>

definition print_line :: "bytes \<Rightarrow> bytes" where
  "print_line s = take 255 s"

fun attach_parts :: "(nat \<Rightarrow> bool) \<Rightarrow> nat \<Rightarrow> bytes list \<Rightarrow> Buf \<Rightarrow> Buf option" where
  "attach_parts mem i [] b = Some b"
| "attach_parts mem i (bundle # bundles) b =
     do {
       b \<leftarrow> bufStr mem (ascii ''--'' @ MAIL_BOUNDARY @ CRLF) b;
       b \<leftarrow> bufStr mem (print_line (ascii ''Content-Type: application/octet-stream; name='' @ [34] @ ascii ''bundle'' @
              print_size (i + 1) @ ascii ''.bp'' @ [34] @ CRLF)) b;
       b \<leftarrow> bufStr mem (ascii ''Content-Transfer-Encoding: base64'' @ CRLF @ CRLF) b;
       b \<leftarrow> bufB64 mem bundle b;
       attach_parts mem (i + 1) bundles b
     }"

fun text_parts :: "(nat \<Rightarrow> bool) \<Rightarrow> int \<Rightarrow> nat \<Rightarrow> bytes list \<Rightarrow> Buf \<Rightarrow> Buf option" where
  "text_parts mem encoding i [] b = Some b"
| "text_parts mem encoding i (bundle # bundles) b =
     do {
       b \<leftarrow> (if i > 0 then bufStr mem (CRLF @ MAIL_SEPARATOR @ CRLF) b else Some b);
       b \<leftarrow> (if encoding = MAIL_ENC_B64 then bufB64 mem bundle b else bufAppend mem bundle b);
       text_parts mem encoding (i + 1) bundles b
     }"

text \<open>The message, or \<open>None\<close> for -1; \<open>bundles\<close> is empty when it is NULL or the count is 0.\<close>

definition mailBuildMessage ::
    "(nat \<Rightarrow> bool) \<Rightarrow> bytes option \<Rightarrow> bytes option \<Rightarrow> bytes option \<Rightarrow> int \<Rightarrow> bytes list \<Rightarrow> bytes option" where
  "mailBuildMessage mem sender to subject encoding bundles =
     (if sender = None \<or> to = None \<or> bundles = [] then None
      else
        (let subject = (case subject of None \<Rightarrow> DEFAULT_SUBJECT | Some s \<Rightarrow> s)
         in map_option b_p
           (do {
              b \<leftarrow> bufStr mem (print_line (ascii ''From: '' @ the sender @ CRLF)) \<lparr>b_p = [], b_cap = 0\<rparr>;
              b \<leftarrow> bufStr mem (print_line (ascii ''To: '' @ the to @ CRLF)) b;
              b \<leftarrow> bufStr mem (print_line (ascii ''Subject: '' @ subject @ CRLF)) b;
              b \<leftarrow> bufStr mem (ascii ''MIME-Version: 1.0'' @ CRLF) b;
              b \<leftarrow> bufStr mem (print_line (MAIL_HDR_ENCODING @ ascii '': '' @ mailEncodingName encoding @ CRLF)) b;
              b \<leftarrow> bufStr mem (print_line (MAIL_HDR_COUNT @ ascii '': '' @ print_size (length bundles) @ CRLF)) b;
              (if encoding = MAIL_ENC_ATTACH then
                 do {
                   b \<leftarrow> bufStr mem (ascii ''Content-Type: multipart/mixed; boundary='' @ [34] @ MAIL_BOUNDARY @ [34] @
                          CRLF @ CRLF) b;
                   b \<leftarrow> attach_parts mem 0 bundles b;
                   bufStr mem (ascii ''--'' @ MAIL_BOUNDARY @ ascii ''--'' @ CRLF) b
                 }
               else
                 do {
                   b \<leftarrow> bufStr mem (ascii ''Content-Type: text/plain'' @ CRLF @ CRLF) b;
                   text_parts mem encoding 0 bundles b
                 })
            })))"

section \<open>Model: parsing a message\<close>

text \<open>The offset of the first occurrence.\<close>

fun memfind :: "bytes \<Rightarrow> bytes \<Rightarrow> nat option" where
  "memfind [] ndl = None"
| "memfind (c # hay) ndl =
     (if ndl = [] \<or> length (c # hay) < length ndl then None
      else if take (length ndl) (c # hay) = ndl then Some 0
      else map_option Suc (memfind hay ndl))"

definition bodyStart :: "bytes \<Rightarrow> bytes" where
  "bodyStart msg =
     (case memfind msg (CRLF @ CRLF) of
        Some sep \<Rightarrow> drop (sep + 4) msg
      | None \<Rightarrow> (case memfind msg [10, 10] of Some sep \<Rightarrow> drop (sep + 2) msg | None \<Rightarrow> msg))"

definition findBoundary :: "bytes \<Rightarrow> nat \<Rightarrow> bytes option" where
  "findBoundary hdr outCap =
     (case memfind hdr (ascii ''boundary='') of
        None \<Rightarrow> None
      | Some b \<Rightarrow>
          (let p = drop (b + 9) hdr;
               out = (if p \<noteq> [] \<and> hd p = 34 then take (outCap - 1) (takeWhile (\<lambda>c. c \<noteq> 34) (tl p))
                      else take (outCap - 1) (takeWhile (\<lambda>c. c \<noteq> 13 \<and> c \<noteq> 10 \<and> c \<noteq> of_char CHR '';'' \<and>
                             c \<noteq> of_char CHR '' '') p))
           in if out \<noteq> [] then Some out else None))"

definition deliverB64 :: "(nat \<Rightarrow> bool) \<Rightarrow> ('s \<Rightarrow> bytes \<Rightarrow> int \<times> 's) \<Rightarrow> 's \<Rightarrow> bytes \<Rightarrow> int \<times> 's" where
  "deliverB64 mem cb ctx chunk =
     (if chunk = [] then (0, ctx)
      else if \<not> mem (length chunk) then (-1, ctx)
      else
        (case mailB64Decode chunk (length chunk) of
           None \<Rightarrow> (0, ctx)
         | Some raw \<Rightarrow>
             if raw = [] then (0, ctx)
             else (let (rc, ctx) = cb ctx raw in (if rc < 0 then -1 else 1, ctx))))"

lemma memfind_bound: "memfind hay ndl = Some k \<Longrightarrow> ndl \<noteq> [] \<and> k + length ndl \<le> length hay"
  by (induction hay ndl arbitrary: k rule: memfind.induct) (auto split: if_splits)

text \<open>The loop over the delimiters of a multipart body, from the delimiter at \<open>p\<close> on.\<close>

function attach_loop ::
    "(nat \<Rightarrow> bool) \<Rightarrow> ('s \<Rightarrow> bytes \<Rightarrow> int \<times> 's) \<Rightarrow> bytes \<Rightarrow> bytes \<Rightarrow> int \<Rightarrow> 's \<Rightarrow> int \<times> 's" where
  "attach_loop mem cb delim p count ctx =
     (let partHdr = drop (length delim) p
      in if 2 \<le> length partHdr \<and> partHdr ! 0 = of_char CHR ''-'' \<and> partHdr ! 1 = of_char CHR ''-'' then (count, ctx)
         else
           (case memfind partHdr (CRLF @ CRLF) of
              None \<Rightarrow> (count, ctx)
            | Some hsep \<Rightarrow>
                (let partBody = drop (hsep + 4) partHdr
                 in (case memfind partBody delim of
                       None \<Rightarrow> (count, ctx)
                     | Some n \<Rightarrow>
                         (let chunk = take n partBody;
                              chunk = (if n \<ge> 2 \<and> chunk ! (n - 2) = 13 \<and> chunk ! (n - 1) = 10 then take (n - 2) chunk
                                       else chunk);
                              (rc, ctx) = deliverB64 mem cb ctx chunk
                          in if rc < 0 then (-1, ctx)
                             else attach_loop mem cb delim (drop n partBody) (if rc > 0 then count + 1 else count) ctx)))))"
  by pat_completeness auto
termination
  by (relation "measure (\<lambda>(mem, cb, delim, p, count, ctx). length p)") (auto dest!: memfind_bound simp: CRLF_def)

declare attach_loop.simps [simp del]

definition parseAttach :: "(nat \<Rightarrow> bool) \<Rightarrow> ('s \<Rightarrow> bytes \<Rightarrow> int \<times> 's) \<Rightarrow> bytes \<Rightarrow> 's \<Rightarrow> int \<times> 's" where
  "parseAttach mem cb msg ctx =
     (let hdrLen = (case memfind msg (CRLF @ CRLF) of Some sep \<Rightarrow> sep | None \<Rightarrow> length msg)
      in (case findBoundary (take hdrLen msg) 128 of
            None \<Rightarrow> (0, ctx)
          | Some boundary \<Rightarrow>
              (let delim = take 131 (ascii ''--'' @ cstr boundary); body = bodyStart msg
               in (case memfind body delim of
                     None \<Rightarrow> (0, ctx)
                   | Some k \<Rightarrow> attach_loop mem cb delim (drop k body) 0 ctx))))"

function body_loop ::
    "(nat \<Rightarrow> bool) \<Rightarrow> ('s \<Rightarrow> bytes \<Rightarrow> int \<times> 's) \<Rightarrow> int \<Rightarrow> bytes \<Rightarrow> bool \<Rightarrow> int \<Rightarrow> 's \<Rightarrow> int \<times> 's" where
  "body_loop mem cb encoding p first count ctx =
     (if p = [] then (count, ctx)
      else
        (let sep = memfind p MAIL_SEPARATOR;
             chunk = (case sep of Some k \<Rightarrow> take k p | None \<Rightarrow> p);
             chunk = (if \<not> first \<and> length chunk \<ge> 2 \<and> chunk ! 0 = 13 \<and> chunk ! 1 = 10 then drop 2 chunk else chunk);
             len = length chunk;
             chunk = (if sep \<noteq> None \<and> len \<ge> 2 \<and> chunk ! (len - 2) = 13 \<and> chunk ! (len - 1) = 10
                      then take (len - 2) chunk else chunk);
             (rc, ctx) = (if encoding = MAIL_ENC_B64 then deliverB64 mem cb ctx chunk
                          else if length chunk > 0 then (let (n, ctx) = cb ctx chunk in (if n < 0 then -1 else 1, ctx))
                          else (0, ctx))
         in if rc < 0 then (-1, ctx)
            else (case sep of
                    None \<Rightarrow> (if rc > 0 then count + 1 else count, ctx)
                  | Some k \<Rightarrow> body_loop mem cb encoding (drop (k + length MAIL_SEPARATOR) p) False
                                (if rc > 0 then count + 1 else count) ctx)))"
  by pat_completeness auto
termination
  by (relation "measure (\<lambda>(mem, cb, encoding, p, first, count, ctx). length p)") (auto simp: MAIL_SEPARATOR_def)

declare body_loop.simps [simp del]

definition parseBody :: "(nat \<Rightarrow> bool) \<Rightarrow> ('s \<Rightarrow> bytes \<Rightarrow> int \<times> 's) \<Rightarrow> bytes \<Rightarrow> int \<Rightarrow> 's \<Rightarrow> int \<times> 's" where
  "parseBody mem cb msg encoding ctx = body_loop mem cb encoding (bodyStart msg) True 0 ctx"

text \<open>The callback is not NULL.\<close>

definition mailParseMessage ::
    "(nat \<Rightarrow> bool) \<Rightarrow> ('s \<Rightarrow> bytes \<Rightarrow> int \<times> 's) \<Rightarrow> bytes option \<Rightarrow> int \<Rightarrow> 's \<Rightarrow> int \<times> 's" where
  "mailParseMessage mem cb msg encoding ctx =
     (case msg of
        None \<Rightarrow> (-1, ctx)
      | Some msg \<Rightarrow> if encoding = MAIL_ENC_ATTACH then parseAttach mem cb msg ctx else parseBody mem cb msg encoding ctx)"


lemma b64tab_octets: "b64tab = [65,66,67,68,69,70,71,72,73,74,75,76,77,78,79,80,81,82,83,84,85,86,87,88,89,90,
   97,98,99,100,101,102,103,104,105,106,107,108,109,110,111,112,113,114,115,116,117,118,119,120,121,122,
   48,49,50,51,52,53,54,55,56,57,43,47]"
  by (simp add: b64tab_def ascii_def)

lemma b64tab_length [simp]: "length b64tab = 64"
  by (simp add: b64tab_octets)

lemma b64tab_char:
  assumes "k < 64"
  shows "b64val (b64tab ! k) = int k \<and> \<not> is_blank (b64tab ! k) \<and>
   b64tab ! k \<noteq> of_char CHR ''='' \<and> b64tab ! k \<noteq> of_char CHR ''-'' \<and> b64tab ! k \<noteq> 13"
proof -
  have "\<forall>(k, c) \<in> set (enumerate 0 b64tab). b64val c = int k \<and> \<not> is_blank c \<and>
     c \<noteq> of_char CHR ''='' \<and> c \<noteq> of_char CHR ''-'' \<and> c \<noteq> 13"
    unfolding b64tab_octets by (simp add: b64val_def is_blank_def)
  moreover have "(k, b64tab ! k) \<in> set (enumerate 0 b64tab)"
    using assms by (simp add: in_set_enumerate_eq)
  ultimately show ?thesis by fast
qed

text \<open>The six bits of \<open>v\<close> from bit \<open>s\<close> on.\<close>

definition six :: "u32 \<Rightarrow> nat \<Rightarrow> u32" where
  "six v s = drop_bit s v AND 0x3f"

lemma six_less: "unat (six v s) < 64"
proof -
  have "six v s = take_bit 6 (drop_bit s v)" by (simp add: six_def take_bit_eq_mask mask_eq_exp_minus_1)
  then have "unat (six v s) = take_bit 6 (unat (drop_bit s v))" by (simp only: unsigned_take_bit_eq)
  then show ?thesis using take_bit_nat_less_exp[of 6 "unat (drop_bit s v)"] by simp
qed

lemma b64_char_six: "b64_char v s = b64tab ! unat (six v s)"
  by (simp add: b64_char_def six_def)

lemma b64_char_props:
  "b64val (b64_char v s) = int (unat (six v s))" "\<not> is_blank (b64_char v s)" "b64_char v s \<noteq> of_char CHR ''=''"
  "b64_char v s \<noteq> of_char CHR ''-''" "b64_char v s \<noteq> 13"
  unfolding b64_char_six using b64tab_char[OF six_less[of v s]] by blast+

lemma b64_step:
  "b64_loop acc bits outCap out (b64_char v s # cs) =
     (let acc = push_bit 6 acc OR six v s; bits = bits + 6
      in if bits \<ge> 8 then
           (let bits = bits - 8
            in if length out \<ge> outCap then None
               else b64_loop acc bits outCap (out @ [ucast (drop_bit bits acc AND 0xff)]) cs)
         else b64_loop acc bits outCap out cs)"
proof -
  have "(word_of_int (int (unat (six v s))) :: u32) = six v s" by simp
  then show ?thesis
    unfolding b64_loop.simps(2) if_not_P[OF b64_char_props(3)] if_not_P[OF b64_char_props(2)] b64_char_props(1)
    by (simp only: Let_def) simp
qed

text \<open>The octets that three or four characters give back.\<close>

lemma first_octet:
  fixes x :: u8
  assumes "\<And>n. n < 6 \<Longrightarrow> bit v (18 + n) = bit x (2 + n)" "\<And>n. n < 2 \<Longrightarrow> bit v (16 + n) = bit x n"
  shows "ucast (drop_bit 4 (push_bit 6 (push_bit 6 acc OR six v 18) OR six v 12) AND 0xff) = x"
proof (rule bit_word_eqI)
  fix n assume n: "n < LENGTH(8)"
  then consider "n = 0" | "n = 1" | "n = 2" | "n = 3" | "n = 4" | "n = 5" | "n = 6" | "n = 7" by fastforce
  then show "bit (ucast (drop_bit 4 (push_bit 6 (push_bit 6 acc OR six v 18) OR six v 12) AND 0xff) :: u8) n = bit x n"
    using assms(1)[of "n - 2"] assms(2)[of n] by cases (simp_all add: six_def bit_simps)
qed


lemma second_octet:
  fixes x :: u8
  assumes "\<And>n. n < 4 \<Longrightarrow> bit v (12 + n) = bit x (4 + n)" "\<And>n. n < 4 \<Longrightarrow> bit v (8 + n) = bit x n"
  shows "ucast (drop_bit 2 (push_bit 6 (push_bit 6 acc OR six v 12) OR six v 6) AND 0xff) = x"
proof (rule bit_word_eqI)
  fix n assume n: "n < LENGTH(8)"
  then consider "n = 0" | "n = 1" | "n = 2" | "n = 3" | "n = 4" | "n = 5" | "n = 6" | "n = 7" by fastforce
  then show "bit (ucast (drop_bit 2 (push_bit 6 (push_bit 6 acc OR six v 12) OR six v 6) AND 0xff) :: u8) n = bit x n"
    using assms(1)[of "n - 4"] assms(2)[of n] by cases (simp_all add: six_def bit_simps)
qed

lemma third_octet:
  fixes x :: u8
  assumes "\<And>n. n < 2 \<Longrightarrow> bit v (6 + n) = bit x (6 + n)" "\<And>n. n < 6 \<Longrightarrow> bit v n = bit x n"
  shows "ucast ((push_bit 6 (push_bit 6 acc OR six v 6) OR six v 0) AND 0xff) = x"
proof (rule bit_word_eqI)
  fix n assume n: "n < LENGTH(8)"
  then consider "n = 0" | "n = 1" | "n = 2" | "n = 3" | "n = 4" | "n = 5" | "n = 6" | "n = 7" by fastforce
  then show "bit (ucast ((push_bit 6 (push_bit 6 acc OR six v 6) OR six v 0) AND 0xff) :: u8) n = bit x n"
    using assms(1)[of "n - 6"] assms(2)[of n] by cases (simp_all add: six_def bit_simps)
qed

lemma b64_octet1:
  assumes "\<And>n. n < 6 \<Longrightarrow> bit v (18 + n) = bit x (2 + n)" "\<And>n. n < 2 \<Longrightarrow> bit v (16 + n) = bit x n"
    "length out < outCap"
  shows "b64_loop acc 0 outCap out (b64_char v 18 # b64_char v 12 # cs) =
    b64_loop (push_bit 6 (push_bit 6 acc OR six v 18) OR six v 12) 4 outCap (out @ [x]) cs"
  unfolding b64_step using assms(3) by (simp del: push_bit_push_bit push_bit_or drop_bit_or add: Let_def first_octet[OF assms(1,2)])

lemma b64_octet2:
  assumes "\<And>n. n < 4 \<Longrightarrow> bit v (12 + n) = bit y (4 + n)" "\<And>n. n < 4 \<Longrightarrow> bit v (8 + n) = bit y n"
    "length out < outCap"
  shows "b64_loop (push_bit 6 acc OR six v 12) 4 outCap out (b64_char v 6 # cs) =
    b64_loop (push_bit 6 (push_bit 6 acc OR six v 12) OR six v 6) 2 outCap (out @ [y]) cs"
  unfolding b64_step using assms(3) by (simp del: push_bit_push_bit push_bit_or drop_bit_or add: Let_def second_octet[OF assms(1,2)])

lemma b64_octet3:
  assumes "\<And>n. n < 2 \<Longrightarrow> bit v (6 + n) = bit z (6 + n)" "\<And>n. n < 6 \<Longrightarrow> bit v n = bit z n"
    "length out < outCap"
  shows "b64_loop (push_bit 6 acc OR six v 6) 2 outCap out (b64_char v 0 # cs) =
    b64_loop (push_bit 6 (push_bit 6 acc OR six v 6) OR six v 0) 0 outCap (out @ [z]) cs"
  unfolding b64_step using assms(3) by (simp del: push_bit_push_bit push_bit_or drop_bit_or add: Let_def third_octet[OF assms(1,2)])

text \<open>Where the octets lie in the 24 bits of a group.\<close>

lemma bit_octet:
  fixes x :: u8
  shows "8 \<le> n \<Longrightarrow> \<not> bit x n"
  using bit_imp_le_length[of x n] by auto

lemma group_bits:
  fixes x y z :: u8
  defines "v \<equiv> (push_bit 16 (ucast x) OR push_bit 8 (ucast y) OR ucast z :: u32)"
  shows "n < 8 \<Longrightarrow> bit v (16 + n) = bit x n" "n < 8 \<Longrightarrow> bit v (8 + n) = bit y n" "n < 8 \<Longrightarrow> bit v n = bit z n"
  by (auto simp: v_def bit_simps bit_octet)

lemma b64_group_octets:
  fixes x y z :: u8
  defines "v \<equiv> (push_bit 16 (ucast x) OR push_bit 8 (ucast y) OR ucast z :: u32)"
  shows "n < 6 \<Longrightarrow> bit v (18 + n) = bit x (2 + n)" "n < 2 \<Longrightarrow> bit v (16 + n) = bit x n"
    "n < 4 \<Longrightarrow> bit v (12 + n) = bit y (4 + n)" "n < 4 \<Longrightarrow> bit v (8 + n) = bit y n"
    "n < 2 \<Longrightarrow> bit v (6 + n) = bit z (6 + n)" "n < 6 \<Longrightarrow> bit v n = bit z n"
  unfolding v_def
  using group_bits(1)[of "2 + n" x y z] group_bits(1)[of n x y z] group_bits(2)[of "4 + n" x y z]
    group_bits(2)[of n x y z] group_bits(3)[of "6 + n" x y z] group_bits(3)[of n x y z]
  by (simp_all add: add.assoc[symmetric])

lemma b64_loop_text:
  "length out + length x \<le> outCap \<Longrightarrow> b64_loop acc 0 outCap out (b64_text x) = Some (out @ x)"
proof (induction x arbitrary: acc out rule: b64_text.induct)
  case (1 x y z rest)
  have c: "length out < outCap" "length (out @ [x]) < outCap" "length (out @ [x, y]) < outCap"
    using 1(2) by simp_all
  show ?case
    unfolding b64_text.simps Let_def
    using 1 c by (simp del: b64_loop.simps push_bit_push_bit push_bit_or drop_bit_or add: b64_octet1[OF b64_group_octets(1,2)] b64_octet2[OF b64_group_octets(3,4)]
        b64_octet3[OF b64_group_octets(5,6)])
next
  case (2 x y)
  then show ?case
    unfolding b64_text.simps Let_def
    using b64_octet1[OF b64_group_octets(1,2)[of _ x y 0], of out outCap]
      b64_octet2[OF b64_group_octets(3,4)[of _ x y 0], of "out @ [x]" outCap] 2
    by (simp del: b64_loop.simps(2) push_bit_push_bit push_bit_or drop_bit_or) (simp add: b64_loop.simps(2)[of _ _ _ _ 61])
next
  case (3 x)
  then show ?case
    unfolding b64_text.simps Let_def
    using b64_octet1[OF b64_group_octets(1,2)[of _ x 0 0], of out outCap] 3
    by (simp del: b64_loop.simps(2) push_bit_push_bit push_bit_or drop_bit_or) (simp add: b64_loop.simps(2)[of _ _ _ _ 61])
next
  case 4
  then show ?case by simp
qed

lemma b64_loop_skip_blank:
  "b64_loop acc bits outCap out cs = b64_loop acc bits outCap out (filter (\<lambda>c. \<not> is_blank c) cs)"
  by (induction acc bits outCap out cs rule: b64_loop.induct) (auto simp: Let_def is_blank_def)

text \<open>C26: Whatever the spaces and line ends between its characters, the base64 text of some octets
  decodes to these octets, in a buffer that holds them.\<close>
theorem base64_round_trip:
  assumes "filter (\<lambda>c. \<not> is_blank c) s = b64_text x" "length x \<le> outCap"
  shows "mailB64Decode s outCap = Some x"
  unfolding mailB64Decode_def b64_loop_skip_blank[of _ _ _ _ s] assms(1)
  using b64_loop_text[of "[]" x outCap 0] assms(2) by simp

theorem base64_round_trip_witness: "mailB64Decode (b64_text [1, 2, 3, 255] @ [13, 10]) 4 = Some [1, 2, 3, 255]"
  by (rule base64_round_trip) (simp_all add: b64_char_def b64tab_octets is_blank_def)

lemma length_b64_text: "length (b64_text x) + 1 = mailB64EncodedLen (length x)"
  unfolding mailB64EncodedLen_def
proof (induction x rule: b64_text.induct)
  case (1 x y z rest)
  have "(length (x # y # z # rest) + 2) div 3 = (length rest + 2) div 3 + 1" by simp
  then show ?case using 1 by (simp add: Let_def)
qed (simp_all add: Let_def)

lemma mailB64Encode_exact:
  "mailB64Encode x outCap = (if length (b64_text x) + 1 \<le> outCap then (0, b64_text x) else (-1, []))"
  by (auto simp: mailB64Encode_def length_b64_text[symmetric])

lemma eq_char: "(of_char CHR ''='' :: u8) \<noteq> of_char CHR ''-''" "(of_char CHR ''='' :: u8) \<noteq> 13"
  by simp_all

lemma b64_text_char: "c \<in> set (b64_text x) \<Longrightarrow> \<not> is_blank c \<and> c \<noteq> of_char CHR ''-'' \<and> c \<noteq> 13"
proof (induction x rule: b64_text.induct)
  case (1 x y z rest)
  then show ?case by (simp only: b64_text.simps Let_def set_simps insert_iff) (metis b64_char_props(2,4,5))
next
  case (2 x y)
  have "\<not> is_blank (of_char CHR ''='')" by (simp add: is_blank_def)
  then show ?case using 2 by (simp only: b64_text.simps Let_def set_simps insert_iff empty_iff) (metis b64_char_props(2,4,5) eq_char)
next
  case (3 x)
  have "\<not> is_blank (of_char CHR ''='')" by (simp add: is_blank_def)
  then show ?case using 3 by (simp only: b64_text.simps Let_def set_simps insert_iff empty_iff) (metis b64_char_props(2,4,5) eq_char)
qed simp


section \<open>Searching\<close>

lemma memfind_short: "length hay < length ndl \<Longrightarrow> memfind hay ndl = None"
  by (cases hay) auto

lemma memfind_here: "ndl \<noteq> [] \<Longrightarrow> memfind (ndl @ rest) ndl = Some 0"
  by (cases "ndl @ rest") (auto, metis append_eq_conv_conj)

text \<open>Octets that are not the first of the needle are passed over.\<close>

lemma memfind_skip:
  assumes "ndl \<noteq> []" "hd ndl \<notin> set pre"
  shows "memfind (pre @ hay) ndl = map_option ((+) (length pre)) (memfind hay ndl)"
  using assms(2)
proof (induction pre)
  case Nil
  then show ?case by (simp add: option.map_ident)
next
  case (Cons c pre)
  have "take (length ndl) (c # pre @ hay) \<noteq> ndl" using Cons.prems assms(1) by (cases ndl) auto
  moreover have "length (c # pre @ hay) < length ndl \<Longrightarrow> memfind hay ndl = None"
    by (rule memfind_short) simp
  ultimately show ?case using Cons assms(1) by (auto simp: option.map_comp o_def)
qed

text \<open>An octet that the needle does not have cuts the search in two.\<close>

lemma memfind_cut:
  assumes "c \<notin> set ndl" "ndl \<noteq> []"
  shows "memfind (pre @ c # rest) ndl =
    (case memfind pre ndl of Some k \<Rightarrow> Some k | None \<Rightarrow> map_option (\<lambda>k. length pre + 1 + k) (memfind rest ndl))"
proof (induction pre)
  case Nil
  have "take (length ndl) (c # rest) \<noteq> ndl" using assms by (cases ndl) auto
  moreover have "length (c # rest) < length ndl \<Longrightarrow> memfind rest ndl = None" by (rule memfind_short) simp
  moreover have "(+) (Suc 0) = Suc" by auto
  ultimately show ?case using assms(2) by auto
next
  case (Cons d pre)
  have eq: "take (length ndl) (d # pre @ c # rest) = ndl \<longleftrightarrow>
      length ndl \<le> length (d # pre) \<and> take (length ndl) (d # pre) = ndl"
  proof (cases "length ndl \<le> length (d # pre)")
    case False
    then have "c \<in> set (take (length ndl) ((d # pre) @ c # rest))" by (cases ndl) (simp_all add: take_Cons')
    then show ?thesis using assms False by (metis append_Cons)
  next
    case True
    then show ?thesis using take_append[of "length ndl" "d # pre" "c # rest"] by simp
  qed
  have short: "length (d # pre @ c # rest) < length ndl \<Longrightarrow> memfind pre ndl = None \<and> memfind rest ndl = None"
    by (simp add: memfind_short)
  have "length (d # pre) < length ndl \<Longrightarrow> memfind pre ndl = None" by (simp add: memfind_short)
  then show ?case
    using Cons eq short assms(2) by (cases "memfind rest ndl") (auto split: option.splits)
qed

lemma memfind_absent: "ndl \<noteq> [] \<Longrightarrow> hd ndl \<notin> set hay \<Longrightarrow> memfind hay ndl = None"
  using memfind_skip[of ndl hay "[]"] by simp

section \<open>Header lines\<close>

definition lines_text :: "bytes list \<Rightarrow> bytes" where
  "lines_text ls = concat (map (\<lambda>l. l @ CRLF) ls)"

lemma memfind_blank_line:
  assumes "ls \<noteq> []" "\<And>l. l \<in> set ls \<Longrightarrow> l \<noteq> [] \<and> 13 \<notin> set l"
  shows "memfind (lines_text ls @ CRLF @ rest) (CRLF @ CRLF) = Some (length (lines_text ls) - 2) \<and> 2 \<le> length (lines_text ls)"
  using assms
proof (induction ls rule: list_nonempty_induct)
  case (single l)
  have "memfind (l @ CRLF @ CRLF @ rest) (CRLF @ CRLF) = map_option ((+) (length l)) (memfind ((CRLF @ CRLF) @ rest) (CRLF @ CRLF))"
    unfolding append_assoc by (rule memfind_skip) (use single in \<open>simp_all add: CRLF_def\<close>)
  then show ?case by (simp add: lines_text_def memfind_here CRLF_def)
next
  case (cons l ls)
  have l: "13 \<notin> set l" using cons.prems by simp
  obtain d t where d: "lines_text ls @ CRLF @ rest = d # t" "d \<noteq> 13"
    using cons.hyps cons.prems by (cases ls) (force simp: lines_text_def neq_Nil_conv)+
  have ih: "memfind (d # t) (CRLF @ CRLF) = Some (length (lines_text ls) - 2)" "2 \<le> length (lines_text ls)"
    using cons.IH cons.prems d(1) by auto
  have "memfind (l @ CRLF @ d # t) (CRLF @ CRLF) = map_option ((+) (length l)) (memfind (CRLF @ d # t) (CRLF @ CRLF))"
    by (rule memfind_skip) (use l in \<open>simp_all add: CRLF_def\<close>)
  also have "memfind (CRLF @ d # t) (CRLF @ CRLF) = map_option (\<lambda>k. k + 2) (memfind (d # t) (CRLF @ CRLF))"
    using d(2) memfind_short[of "d # t" "CRLF @ CRLF"] by (simp add: CRLF_def option.map_comp o_def)
  finally show ?case using ih d(1) by (simp add: lines_text_def CRLF_def)
qed

lemma bodyStart_text:
  assumes "ls \<noteq> []" "\<And>l. l \<in> set ls \<Longrightarrow> l \<noteq> [] \<and> 13 \<notin> set l"
  shows "bodyStart (lines_text ls @ CRLF @ rest) = rest"
  using memfind_blank_line[OF assms, of rest] by (simp add: bodyStart_def CRLF_def)


section \<open>What is built\<close>

function wrapped :: "bytes \<Rightarrow> bytes" where
  "wrapped enc = (if enc = [] then [] else take 76 enc @ CRLF @ wrapped (drop 76 enc))"
  by pat_completeness auto
termination by (relation "measure length") auto

declare wrapped.simps [simp del]

fun attach_text :: "nat \<Rightarrow> bytes list \<Rightarrow> bytes" where
  "attach_text i [] = []"
| "attach_text i (x # xs) =
     ascii ''--'' @ MAIL_BOUNDARY @ CRLF @
     lines_text [ascii ''Content-Type: application/octet-stream; name='' @ [34] @ ascii ''bundle'' @ print_size (i + 1) @
       ascii ''.bp'' @ [34], ascii ''Content-Transfer-Encoding: base64''] @ CRLF @
     wrapped (b64_text x) @ attach_text (i + 1) xs"

declare attach_text.simps(2) [simp del]

definition payload :: "int \<Rightarrow> bytes \<Rightarrow> bytes" where
  "payload encoding x = (if encoding = MAIL_ENC_B64 then wrapped (b64_text x) else x)"

fun body_text :: "bytes list \<Rightarrow> bytes" where
  "body_text [] = []"
| "body_text (p # ps) = CRLF @ MAIL_SEPARATOR @ CRLF @ p @ body_text ps"

definition mail_body :: "int \<Rightarrow> bytes list \<Rightarrow> bytes" where
  "mail_body encoding xs =
     (if encoding = MAIL_ENC_ATTACH then attach_text 0 xs @ ascii ''--'' @ MAIL_BOUNDARY @ ascii ''--'' @ CRLF
      else payload encoding (hd xs) @ body_text (map (payload encoding) (tl xs)))"

definition mail_header :: "bytes \<Rightarrow> bytes \<Rightarrow> bytes \<Rightarrow> int \<Rightarrow> nat \<Rightarrow> bytes list" where
  "mail_header sender to subject encoding count =
     [ascii ''From: '' @ sender, ascii ''To: '' @ to, ascii ''Subject: '' @ subject, ascii ''MIME-Version: 1.0'',
      MAIL_HDR_ENCODING @ ascii '': '' @ mailEncodingName encoding,
      MAIL_HDR_COUNT @ ascii '': '' @ print_size count,
      (if encoding = MAIL_ENC_ATTACH then ascii ''Content-Type: multipart/mixed; boundary='' @ [34] @ MAIL_BOUNDARY @ [34]
       else ascii ''Content-Type: text/plain'')]"

definition has_memory :: "nat \<Rightarrow> bool" where
  "has_memory n = True"

lemma bufStr_memory [simp]: "\<exists>c. bufStr has_memory s \<lparr>b_p = p, b_cap = k\<rparr> = Some \<lparr>b_p = p @ s, b_cap = c\<rparr>"
  by (simp add: bufStr_def bufAppend_def bufEnsure_def has_memory_def Let_def)

text \<open>\<open>writes f s\<close>: \<open>f\<close> succeeds and appends \<open>s\<close>.\<close>

definition writes :: "(Buf \<Rightarrow> Buf option) \<Rightarrow> bytes \<Rightarrow> bool" where
  "writes f s \<longleftrightarrow> (\<forall>b. \<exists>b'. f b = Some b' \<and> b_p b' = b_p b @ s)"

lemma writes_bufStr [intro]: "writes (bufStr has_memory s) s" "writes (bufAppend has_memory s) s"
  by (simp_all add: writes_def bufStr_def bufAppend_def bufEnsure_def has_memory_def Let_def)

lemma writes_Some [intro]: "writes Some []"
  by (simp add: writes_def)

lemma writes_bind [intro]:
  assumes "writes f s" "writes g t"
  shows "writes (\<lambda>b. Option.bind (f b) g) (s @ t)"
  unfolding writes_def
proof
  fix b
  obtain b1 where 1: "f b = Some b1" "b_p b1 = b_p b @ s" using assms(1) unfolding writes_def by blast
  obtain b2 where "g b1 = Some b2" "b_p b2 = b_p b1 @ t" using assms(2) unfolding writes_def by blast
  then show "\<exists>b'. Option.bind (f b) g = Some b' \<and> b_p b' = b_p b @ s @ t" using 1 by simp
qed

lemma writes_if [intro]: "(c \<Longrightarrow> writes f s) \<Longrightarrow> (\<not> c \<Longrightarrow> writes g t) \<Longrightarrow> writes (\<lambda>b. if c then f b else g b) (if c then s else t)"
  by simp

lemma writes_b64_lines: "writes (b64_lines has_memory enc) (wrapped enc)"
proof (induction enc rule: wrapped.induct)
  case (1 enc)
  show ?case
  proof (cases "enc = []")
    case True
    then show ?thesis by (simp add: writes_def b64_lines.simps wrapped.simps)
  next
    case False
    have "b64_lines has_memory enc =
        (\<lambda>b. Option.bind (bufAppend has_memory (take 76 enc) b)
          (\<lambda>b. Option.bind (bufStr has_memory CRLF b) (b64_lines has_memory (drop 76 enc))))"
      by (rule ext, subst b64_lines.simps) (simp add: False split: option.split)
    moreover have "writes \<dots> (take 76 enc @ CRLF @ wrapped (drop 76 enc))"
      by (intro writes_bind writes_bufStr 1 False)
    ultimately show ?thesis using False by (subst wrapped.simps) simp
  qed
qed

lemma writes_bufB64: "writes (bufB64 has_memory x) (wrapped (b64_text x))"
proof -
  have "bufB64 has_memory x = b64_lines has_memory (b64_text x)"
    by (rule ext) (simp add: bufB64_def mailB64Encode_def has_memory_def Let_def)
  then show ?thesis by (simp add: writes_b64_lines)
qed

lemma writes_cong: "writes f s \<Longrightarrow> f = g \<Longrightarrow> s = t \<Longrightarrow> writes g t"
  by simp

lemma print_line_short: "length s \<le> 255 \<Longrightarrow> print_line s = s"
  by (simp add: print_line_def)

lemma writes_attach_parts:
  "i + length xs < 2 ^ 64 \<Longrightarrow> writes (attach_parts has_memory i xs) (attach_text i xs)"
proof (induction xs arbitrary: i)
  case Nil
  then show ?case by (simp add: writes_def)
next
  case (Cons x xs)
  let ?l = "ascii ''Content-Type: application/octet-stream; name='' @ [34] @ ascii ''bundle'' @
              print_size (i + 1) @ ascii ''.bp'' @ [34] @ CRLF"
  have short: "print_line ?l = ?l"
    using length_print_size_64[of "i + 1"] Cons.prems by (intro print_line_short) (simp add: ascii_def CRLF_def)
  have ih: "writes (attach_parts has_memory (i + 1) xs) (attach_text (i + 1) xs)"
    using Cons.prems by (intro Cons.IH) simp
  have "writes (\<lambda>b. Option.bind (bufStr has_memory (ascii ''--'' @ MAIL_BOUNDARY @ CRLF) b)
      (\<lambda>b. Option.bind (bufStr has_memory (print_line ?l) b)
      (\<lambda>b. Option.bind (bufStr has_memory (ascii ''Content-Transfer-Encoding: base64'' @ CRLF @ CRLF) b)
      (\<lambda>b. Option.bind (bufB64 has_memory x b) (attach_parts has_memory (i + 1) xs)))))
     ((ascii ''--'' @ MAIL_BOUNDARY @ CRLF) @ print_line ?l @ (ascii ''Content-Transfer-Encoding: base64'' @ CRLF @ CRLF) @
      wrapped (b64_text x) @ attach_text (i + 1) xs)"
    by (intro writes_bind writes_bufStr writes_bufB64 ih)
  then show ?case
    by (rule writes_cong) (rule ext, simp only: attach_parts.simps,
        simp only: short lines_text_def attach_text.simps list.map concat.simps append_assoc append_Nil append_Nil2)
qed

lemma writes_payload:
  "encoding \<noteq> MAIL_ENC_ATTACH \<Longrightarrow>
   writes (\<lambda>b. if encoding = MAIL_ENC_B64 then bufB64 has_memory x b else bufAppend has_memory x b) (payload encoding x)"
  unfolding payload_def by (intro writes_if writes_bufB64 writes_bufStr)

lemma writes_text_parts:
  assumes "encoding \<noteq> MAIL_ENC_ATTACH"
  shows "0 < i \<Longrightarrow> writes (text_parts has_memory encoding i xs) (body_text (map (payload encoding) xs))"
proof (induction xs arbitrary: i)
  case Nil
  then show ?case by (simp add: writes_def)
next
  case (Cons x xs)
  have ih: "writes (text_parts has_memory encoding (i + 1) xs) (body_text (map (payload encoding) xs))"
    by (rule Cons.IH) simp
  have "writes (\<lambda>b. Option.bind (bufStr has_memory (CRLF @ MAIL_SEPARATOR @ CRLF) b)
      (\<lambda>b. Option.bind (if encoding = MAIL_ENC_B64 then bufB64 has_memory x b else bufAppend has_memory x b)
      (text_parts has_memory encoding (i + 1) xs)))
     ((CRLF @ MAIL_SEPARATOR @ CRLF) @ payload encoding x @ body_text (map (payload encoding) xs))"
    by (intro writes_bind writes_bufStr writes_payload ih assms)
  then show ?case
    by (rule writes_cong) (rule ext, simp add: Cons.prems, simp)
qed

lemma writes_text_parts_0:
  assumes "encoding \<noteq> MAIL_ENC_ATTACH" "xs \<noteq> []"
  shows "writes (text_parts has_memory encoding 0 xs) (mail_body encoding xs)"
proof -
  obtain y ys where xs: "xs = y # ys" using assms(2) by (cases xs) auto
  have "writes (\<lambda>b. Option.bind (if encoding = MAIL_ENC_B64 then bufB64 has_memory y b else bufAppend has_memory y b)
      (text_parts has_memory encoding 1 ys)) (payload encoding y @ body_text (map (payload encoding) ys))"
    by (intro writes_bind writes_payload writes_text_parts assms) simp
  then show ?thesis
    by (rule writes_cong) (rule ext, simp add: xs, simp add: xs mail_body_def assms(1))
qed

definition mail_message :: "bytes \<Rightarrow> bytes \<Rightarrow> bytes \<Rightarrow> int \<Rightarrow> bytes list \<Rightarrow> bytes" where
  "mail_message sender to subject encoding xs =
     lines_text (mail_header sender to subject encoding (length xs)) @ CRLF @ mail_body encoding xs"

definition the_subject :: "bytes option \<Rightarrow> bytes" where
  "the_subject subject = (case subject of None \<Rightarrow> DEFAULT_SUBJECT | Some s \<Rightarrow> s)"

definition header_fits :: "bytes \<Rightarrow> bytes \<Rightarrow> bytes \<Rightarrow> bool" where
  "header_fits sender to subject \<longleftrightarrow>
     length sender \<le> 247 \<and> length to \<le> 249 \<and> length subject \<le> 244 \<and>
     13 \<notin> set sender \<and> 13 \<notin> set to \<and> 13 \<notin> set subject"

lemma mailEncodingName_exact: "mailEncodingName encoding \<in> {ascii ''attach'', ascii ''b64'', ascii ''raw'', ascii ''?''}"
  by (simp add: mailEncodingName_def)

lemma mailBuildMessage_exact:
  assumes "header_fits sender to (the_subject subject)" "xs \<noteq> []" "length xs < 2 ^ 64"
  shows "mailBuildMessage has_memory (Some sender) (Some to) subject encoding xs =
    Some (mail_message sender to (the_subject subject) encoding xs)"
proof -
  let ?s = "the_subject subject"
  have fit: "length sender \<le> 247" "length to \<le> 249" "length ?s \<le> 244" using assms(1) by (simp_all add: header_fits_def)
  have l1: "print_line (ascii ''From: '' @ sender @ CRLF) = ascii ''From: '' @ sender @ CRLF"
    using fit by (intro print_line_short) (simp add: ascii_def CRLF_def)
  have l2: "print_line (ascii ''To: '' @ to @ CRLF) = ascii ''To: '' @ to @ CRLF"
    using fit by (intro print_line_short) (simp add: ascii_def CRLF_def)
  have l3: "print_line (ascii ''Subject: '' @ ?s @ CRLF) = ascii ''Subject: '' @ ?s @ CRLF"
    using fit by (intro print_line_short) (simp add: ascii_def CRLF_def)
  have l4: "print_line (MAIL_HDR_ENCODING @ ascii '': '' @ mailEncodingName encoding @ CRLF) =
      MAIL_HDR_ENCODING @ ascii '': '' @ mailEncodingName encoding @ CRLF"
    using mailEncodingName_exact[of encoding] by (intro print_line_short) (auto simp: ascii_def CRLF_def MAIL_HDR_ENCODING_def)
  have l5: "print_line (MAIL_HDR_COUNT @ ascii '': '' @ print_size (length xs) @ CRLF) =
      MAIL_HDR_COUNT @ ascii '': '' @ print_size (length xs) @ CRLF"
    using length_print_size_64[OF assms(3)] by (intro print_line_short) (simp add: ascii_def CRLF_def MAIL_HDR_COUNT_def)
  let ?rest = "\<lambda>b. if encoding = MAIL_ENC_ATTACH then
      Option.bind (bufStr has_memory (ascii ''Content-Type: multipart/mixed; boundary='' @ [34] @ MAIL_BOUNDARY @ [34] @
        CRLF @ CRLF) b) (\<lambda>b. Option.bind (attach_parts has_memory 0 xs b)
          (bufStr has_memory (ascii ''--'' @ MAIL_BOUNDARY @ ascii ''--'' @ CRLF)))
      else Option.bind (bufStr has_memory (ascii ''Content-Type: text/plain'' @ CRLF @ CRLF) b) (text_parts has_memory encoding 0 xs)"
  let ?text = "if encoding = MAIL_ENC_ATTACH then
      (ascii ''Content-Type: multipart/mixed; boundary='' @ [34] @ MAIL_BOUNDARY @ [34] @ CRLF @ CRLF) @ attach_text 0 xs @
        ascii ''--'' @ MAIL_BOUNDARY @ ascii ''--'' @ CRLF
      else (ascii ''Content-Type: text/plain'' @ CRLF @ CRLF) @ mail_body encoding xs"
  have rest: "writes ?rest ?text"
    by (intro writes_if writes_bind writes_bufStr writes_attach_parts writes_text_parts_0 assms) (simp_all add: assms(3)[simplified])
  have all: "writes (\<lambda>b. Option.bind (bufStr has_memory (print_line (ascii ''From: '' @ sender @ CRLF)) b)
      (\<lambda>b. Option.bind (bufStr has_memory (print_line (ascii ''To: '' @ to @ CRLF)) b)
      (\<lambda>b. Option.bind (bufStr has_memory (print_line (ascii ''Subject: '' @ ?s @ CRLF)) b)
      (\<lambda>b. Option.bind (bufStr has_memory (ascii ''MIME-Version: 1.0'' @ CRLF) b)
      (\<lambda>b. Option.bind (bufStr has_memory (print_line (MAIL_HDR_ENCODING @ ascii '': '' @ mailEncodingName encoding @ CRLF)) b)
      (\<lambda>b. Option.bind (bufStr has_memory (print_line (MAIL_HDR_COUNT @ ascii '': '' @ print_size (length xs) @ CRLF)) b) ?rest))))))
     (print_line (ascii ''From: '' @ sender @ CRLF) @ print_line (ascii ''To: '' @ to @ CRLF) @
      print_line (ascii ''Subject: '' @ ?s @ CRLF) @ (ascii ''MIME-Version: 1.0'' @ CRLF) @
      print_line (MAIL_HDR_ENCODING @ ascii '': '' @ mailEncodingName encoding @ CRLF) @
      print_line (MAIL_HDR_COUNT @ ascii '': '' @ print_size (length xs) @ CRLF) @ ?text)" (is "writes ?f _")
    by (intro writes_bind writes_bufStr rest)
  have msg: "print_line (ascii ''From: '' @ sender @ CRLF) @ print_line (ascii ''To: '' @ to @ CRLF) @
      print_line (ascii ''Subject: '' @ ?s @ CRLF) @ (ascii ''MIME-Version: 1.0'' @ CRLF) @
      print_line (MAIL_HDR_ENCODING @ ascii '': '' @ mailEncodingName encoding @ CRLF) @
      print_line (MAIL_HDR_COUNT @ ascii '': '' @ print_size (length xs) @ CRLF) @ ?text = mail_message sender to ?s encoding xs"
    unfolding l1 l2 l3 l4 l5 mail_message_def lines_text_def mail_header_def mail_body_def
    by (cases "encoding = MAIL_ENC_ATTACH") (simp_all only: simp_thms if_True if_False list.map concat.simps append_assoc append_Nil append_Nil2)
  have "mailBuildMessage has_memory (Some sender) (Some to) subject encoding xs = map_option b_p (?f \<lparr>b_p = [], b_cap = 0\<rparr>)"
    using assms(2) by (simp add: mailBuildMessage_def the_subject_def)
  moreover obtain b' where "?f \<lparr>b_p = [], b_cap = 0\<rparr> = Some b'" "b_p b' = mail_message sender to ?s encoding xs"
    using all[unfolded writes_def, rule_format, of "\<lparr>b_p = [], b_cap = 0\<rparr>"] unfolding msg by (metis append_Nil Buf.select_convs(1))
  ultimately show ?thesis by simp
qed


section \<open>What is parsed\<close>

lemma wrapped_chars: "c \<in> set (wrapped enc) \<Longrightarrow> c \<in> set enc \<or> c = 13 \<or> c = 10"
proof (induction enc rule: wrapped.induct)
  case (1 enc)
  show ?case
  proof (cases "enc = []")
    case False
    then show ?thesis
      using 1 by (auto simp: wrapped.simps[of enc] CRLF_def dest: in_set_takeD in_set_dropD)
  qed (use 1(2) in \<open>simp add: wrapped.simps\<close>)
qed

lemma wrapped_no_dash: "of_char CHR ''-'' \<notin> set (wrapped (b64_text x))"
  using wrapped_chars[of "of_char CHR ''-''" "b64_text x"] b64_text_char[of "of_char CHR ''-''" x] by auto

lemma filter_wrapped: "filter (\<lambda>c. \<not> is_blank c) (wrapped enc) = filter (\<lambda>c. \<not> is_blank c) enc"
proof (induction enc rule: wrapped.induct)
  case (1 enc)
  show ?case
  proof (cases "enc = []")
    case False
    have "filter (\<lambda>c. \<not> is_blank c) enc = filter (\<lambda>c. \<not> is_blank c) (take 76 enc @ drop 76 enc)" by simp
    then show ?thesis
      using 1 False by (simp add: wrapped.simps[of enc] CRLF_def is_blank_def del: append_take_drop_id)
  qed (simp add: wrapped.simps)
qed

lemma filter_b64_text: "filter (\<lambda>c. \<not> is_blank c) (b64_text x) = b64_text x"
  by (rule filter_True) (use b64_text_char in blast)

lemma wrapped_not_Nil: "enc \<noteq> [] \<Longrightarrow> wrapped enc \<noteq> []"
  by (subst wrapped.simps) (simp add: CRLF_def)

lemma length_wrapped: "length enc \<le> length (wrapped enc)"
proof (induction enc rule: wrapped.induct)
  case (1 enc)
  then show ?case by (cases "enc = []") (simp_all add: wrapped.simps[of enc] CRLF_def)
qed

lemma length_le_b64_text: "length x \<le> length (b64_text x)"
  by (induction x rule: b64_text.induct) (simp_all add: Let_def)

text \<open>The callback takes every bundle: what it leaves after some bundles.\<close>

definition takes_all :: "('s \<Rightarrow> bytes \<Rightarrow> int \<times> 's) \<Rightarrow> bool" where
  "takes_all cb \<longleftrightarrow> (\<forall>s x. fst (cb s x) \<ge> 0)"

definition after :: "('s \<Rightarrow> bytes \<Rightarrow> int \<times> 's) \<Rightarrow> 's \<Rightarrow> bytes \<Rightarrow> 's" where
  "after cb s x = snd (cb s x)"

lemma deliverB64_text:
  assumes "filter (\<lambda>c. \<not> is_blank c) chunk = b64_text x" "x \<noteq> []" "takes_all cb"
  shows "deliverB64 has_memory cb ctx chunk = (1, after cb ctx x)"
proof -
  have "length x \<le> length chunk"
    using length_le_b64_text[of x] length_filter_le[of "\<lambda>c. \<not> is_blank c" chunk] assms(1) by simp
  then have "mailB64Decode chunk (length chunk) = Some x"
    unfolding mailB64Decode_def b64_loop_skip_blank[of _ _ _ _ chunk] assms(1)
    using b64_loop_text[of "[]" x "length chunk" 0] by simp
  moreover have "chunk \<noteq> []" using \<open>length x \<le> length chunk\<close> assms(2) by auto
  moreover have "\<not> fst (cb ctx x) < 0" using assms(3) by (simp add: takes_all_def not_less)
  ultimately show ?thesis
    using assms(2) by (simp add: deliverB64_def has_memory_def after_def case_prod_beta Let_def)
qed

text \<open>What a chunk of a text body gives.\<close>

definition deliver_chunk :: "('s \<Rightarrow> bytes \<Rightarrow> int \<times> 's) \<Rightarrow> int \<Rightarrow> 's \<Rightarrow> bytes \<Rightarrow> int \<times> 's" where
  "deliver_chunk cb encoding ctx chunk =
     (if encoding = MAIL_ENC_B64 then deliverB64 has_memory cb ctx chunk
      else if length chunk > 0 then (let (n, ctx) = cb ctx chunk in (if n < 0 then -1 else 1, ctx))
      else (0, ctx))"

lemma deliver_payload:
  assumes "x \<noteq> []" "takes_all cb"
  shows "deliver_chunk cb encoding ctx (payload encoding x) = (1, after cb ctx x)"
proof (cases "encoding = MAIL_ENC_B64")
  case True
  then show ?thesis
    using deliverB64_text[of "wrapped (b64_text x)" x cb ctx] assms
    by (simp add: deliver_chunk_def payload_def filter_wrapped filter_b64_text)
next
  case False
  have "\<not> fst (cb ctx x) < 0" using assms(2) by (simp add: takes_all_def not_less)
  then show ?thesis
    using False assms(1) by (simp add: deliver_chunk_def payload_def after_def case_prod_beta Let_def)
qed

definition separable :: "int \<Rightarrow> bytes \<Rightarrow> bool" where
  "separable encoding x \<longleftrightarrow> x \<noteq> [] \<and> (encoding = MAIL_ENC_B64 \<or> memfind x MAIL_SEPARATOR = None)"

lemma separator_props: "MAIL_SEPARATOR \<noteq> []" "13 \<notin> set MAIL_SEPARATOR" "10 \<notin> set MAIL_SEPARATOR" "hd MAIL_SEPARATOR = of_char CHR ''-''"
  by (simp_all add: MAIL_SEPARATOR_def ascii_def)

lemma separable_payload:
  assumes "separable encoding x"
  shows "memfind (payload encoding x) MAIL_SEPARATOR = None"
proof (cases "encoding = MAIL_ENC_B64")
  case True
  then show ?thesis
    using memfind_absent[OF separator_props(1)] wrapped_no_dash[of x] by (simp add: payload_def separator_props(4))
qed (use assms in \<open>simp add: separable_def payload_def\<close>)

lemma find_separator:
  assumes "memfind p MAIL_SEPARATOR = None"
  shows "memfind (p @ CRLF @ MAIL_SEPARATOR @ rest) MAIL_SEPARATOR = Some (length p + 2)"
    "memfind (CRLF @ p @ CRLF @ MAIL_SEPARATOR @ rest) MAIL_SEPARATOR = Some (length p + 4)"
    "memfind (CRLF @ p) MAIL_SEPARATOR = None"
proof -
  have 1: "memfind (CRLF @ q) MAIL_SEPARATOR = map_option ((+) 2) (memfind q MAIL_SEPARATOR)" for q
  proof -
    have "hd MAIL_SEPARATOR \<notin> set CRLF" "length CRLF = 2" by (simp_all add: separator_props(4) CRLF_def)
    then show ?thesis using memfind_skip[OF separator_props(1)] by metis
  qed
  have 2: "memfind (13 # 10 # MAIL_SEPARATOR @ rest) MAIL_SEPARATOR = Some 2"
    using 1[of "MAIL_SEPARATOR @ rest"] memfind_here[OF separator_props(1), of rest] by (simp add: CRLF_def)
  have 3: "memfind (10 # MAIL_SEPARATOR @ rest) MAIL_SEPARATOR = Some 1"
    using memfind_cut[OF separator_props(3) separator_props(1), of "[]" "MAIL_SEPARATOR @ rest"]
      memfind_here[OF separator_props(1), of rest] memfind_short[of "[]" MAIL_SEPARATOR] separator_props(1) by simp
  show 4: "memfind (p @ CRLF @ MAIL_SEPARATOR @ rest) MAIL_SEPARATOR = Some (length p + 2)"
    using memfind_cut[OF separator_props(2) separator_props(1), of p "10 # MAIL_SEPARATOR @ rest"] assms 3
    by (simp add: CRLF_def)
  show "memfind (CRLF @ p @ CRLF @ MAIL_SEPARATOR @ rest) MAIL_SEPARATOR = Some (length p + 4)"
    using 4 by (simp add: 1)
  show "memfind (CRLF @ p) MAIL_SEPARATOR = None" using assms by (simp add: 1)
qed

text \<open>One turn of the loop of \<open>parseBody\<close>.\<close>

lemma body_loop_last:
  assumes "memfind q MAIL_SEPARATOR = None" "q \<noteq> []"
  shows "body_loop has_memory cb encoding q first count ctx =
    (let chunk = (if \<not> first \<and> length q \<ge> 2 \<and> q ! 0 = 13 \<and> q ! 1 = 10 then drop 2 q else q);
         (rc, ctx) = deliver_chunk cb encoding ctx chunk
     in if rc < 0 then (-1, ctx) else (if rc > 0 then count + 1 else count, ctx))"
  by (subst body_loop.simps) (simp only: assms option.case simp_thms if_False if_True Let_def deliver_chunk_def)

lemma body_loop_turn:
  assumes "memfind q MAIL_SEPARATOR = Some (length p + (if first then 2 else 4))"
    "q = (if first then p else CRLF @ p) @ CRLF @ MAIL_SEPARATOR @ rest" "deliver_chunk cb encoding ctx p = (1, s)"
  shows "body_loop has_memory cb encoding q first count ctx = body_loop has_memory cb encoding rest False (count + 1) s"
proof -
  let ?k = "length p + (if first then 2 else 4)"
  have q: "q \<noteq> []" using assms(2) by (simp add: CRLF_def)
  have t: "take ?k q = (if first then p else CRLF @ p) @ CRLF" by (simp add: assms(2) CRLF_def)
  have d: "drop (?k + length MAIL_SEPARATOR) q = rest" by (simp add: assms(2) CRLF_def)
  have c: "(if \<not> first \<and> length (take ?k q) \<ge> 2 \<and> take ?k q ! 0 = 13 \<and> take ?k q ! 1 = 10 then drop 2 (take ?k q) else take ?k q)
      = p @ CRLF"
    unfolding t by (simp add: CRLF_def)
  have e: "(if Some ?k \<noteq> None \<and> length (p @ CRLF) \<ge> 2 \<and> (p @ CRLF) ! (length (p @ CRLF) - 2) = 13 \<and>
      (p @ CRLF) ! (length (p @ CRLF) - 1) = 10 then take (length (p @ CRLF) - 2) (p @ CRLF) else p @ CRLF) = p"
    by (simp add: CRLF_def nth_append)
  show ?thesis
    by (subst body_loop.simps)
      (simp only: q if_False assms(1) option.case Let_def c e deliver_chunk_def[unfolded Let_def, symmetric] assms(3) prod.case d, simp)
qed


lemma trailing_pair:
  assumes "length w \<ge> 2" "w ! (length w - 2) = a" "w ! (length w - 1) = b"
  shows "\<exists>u. w = u @ [a, b]"
proof -
  obtain u d where u: "w = u @ [d]" using assms(1) by (cases w rule: rev_cases) auto
  obtain v c where v: "u = v @ [c]" using assms(1) u by (cases u rule: rev_cases) auto
  show ?thesis using assms u v by (simp add: nth_append)
qed


lemma body_loop_rest:
  assumes "takes_all cb" "\<And>x. x \<in> set xs \<Longrightarrow> separable encoding x" "separable encoding y"
  shows "body_loop has_memory cb encoding
      ((if first then payload encoding y else CRLF @ payload encoding y) @ body_text (map (payload encoding) xs))
      first count ctx =
    (count + 1 + int (length xs), foldl (after cb) (after cb ctx y) xs)"
  using assms(2,3)
proof (induction xs arbitrary: y first count ctx)
  case Nil
  let ?q = "if first then payload encoding y else CRLF @ payload encoding y"
  have y: "y \<noteq> []" using Nil by (simp add: separable_def)
  have none: "memfind ?q MAIL_SEPARATOR = None"
    using separable_payload[OF Nil(2)] find_separator(3)[OF separable_payload[OF Nil(2)]] by simp
  have ne: "?q \<noteq> []"
  proof -
    have "b64_text y \<noteq> []" using y length_le_b64_text[of y] by auto
    then show ?thesis using y wrapped_not_Nil[of "b64_text y"] by (simp add: payload_def CRLF_def)
  qed
  have chunk: "(if \<not> first \<and> length ?q \<ge> 2 \<and> ?q ! 0 = 13 \<and> ?q ! 1 = 10 then drop 2 ?q else ?q) = payload encoding y"
    by (simp add: CRLF_def)
  show ?case
    using body_loop_last[OF none ne, of cb encoding first count ctx]
    unfolding Let_def chunk deliver_payload[OF y assms(1)] by simp
next
  case (Cons x xs)
  let ?p = "payload encoding y"
  let ?q = "(if first then ?p else CRLF @ ?p) @ CRLF @ MAIL_SEPARATOR @ CRLF @ payload encoding x @ body_text (map (payload encoding) xs)"
  have y: "y \<noteq> []" using Cons.prems by (simp add: separable_def)
  have f: "memfind ?q MAIL_SEPARATOR = Some (length ?p + (if first then 2 else 4))"
    using find_separator(1,2)[OF separable_payload[OF Cons.prems(2)]] by simp
  have "body_loop has_memory cb encoding ?q first count ctx = body_loop has_memory cb encoding
      (CRLF @ payload encoding x @ body_text (map (payload encoding) xs)) False (count + 1) (after cb ctx y)"
    by (rule body_loop_turn[OF f refl deliver_payload[OF y assms(1)]])
  also have "\<dots> = (count + 1 + 1 + int (length xs), foldl (after cb) (after cb (after cb ctx y) x) xs)"
    using Cons.IH[of x False "count + 1" "after cb ctx y"] Cons.prems by simp
  finally show ?case by simp
qed

text \<open>The parts of a multipart body.\<close>

definition DELIM :: bytes where
  "DELIM = ascii ''--'' @ MAIL_BOUNDARY"

lemma delim_props: "DELIM \<noteq> []" "hd DELIM = of_char CHR ''-''" "length DELIM = 27" "length MAIL_BOUNDARY = 25"
  by (simp_all add: DELIM_def MAIL_BOUNDARY_def ascii_def)

definition part_header :: "nat \<Rightarrow> bytes list" where
  "part_header i = [ascii ''Content-Type: application/octet-stream; name='' @ [34] @ ascii ''bundle'' @ print_size (i + 1) @
       ascii ''.bp'' @ [34], ascii ''Content-Transfer-Encoding: base64'']"

lemma attach_text_Cons:
  "attach_text i (x # xs) = DELIM @ CRLF @ lines_text (part_header i) @ CRLF @ wrapped (b64_text x) @ attach_text (i + 1) xs"
  by (simp only: attach_text.simps DELIM_def part_header_def append_assoc)

lemma part_header_lines: "l \<in> set (part_header i) \<Longrightarrow> l \<noteq> [] \<and> 13 \<notin> set l"
  using print_size_no_cr[of 13 "i + 1"] by (auto simp: part_header_def ascii_def)

lemma find_part_body:
  "memfind (CRLF @ lines_text (part_header i) @ CRLF @ rest) (CRLF @ CRLF) = Some (length (lines_text (part_header i)))"
proof -
  let ?L = "lines_text (part_header i)"
  obtain d t where d: "?L @ CRLF @ rest = d # t" "d \<noteq> 13"
    by (simp add: part_header_def lines_text_def ascii_def)
  have f: "memfind (d # t) (CRLF @ CRLF) = Some (length ?L - 2)" "2 \<le> length ?L"
    using memfind_blank_line[of "part_header i" rest, OF _ part_header_lines] d(1) by (simp_all add: part_header_def)
  have "memfind (CRLF @ d # t) (CRLF @ CRLF) = map_option (\<lambda>k. k + 2) (memfind (d # t) (CRLF @ CRLF))"
    using d(2) memfind_short[of "d # t" "CRLF @ CRLF"] by (simp add: CRLF_def option.map_comp o_def)
  then show ?thesis using f d(1) by simp
qed

lemma find_next_delim:
  "memfind (wrapped (b64_text x) @ DELIM @ rest) DELIM = Some (length (wrapped (b64_text x)))"
  using memfind_skip[OF delim_props(1), of "wrapped (b64_text x)" "DELIM @ rest"] wrapped_no_dash[of x]
  by (simp add: delim_props(2) memfind_here[OF delim_props(1)])

lemma attach_text_delim: "\<exists>rest. attach_text i xs @ DELIM @ s = DELIM @ rest"
  by (cases xs) (simp_all only: attach_text.simps(1) attach_text_Cons append_assoc append_Nil, blast+)

lemma drop_blank_line: "drop (length l + 4) (CRLF @ l @ CRLF @ rest) = rest"
  by (simp add: CRLF_def numeral_eq_Suc)

lemma attach_loop_all:
  assumes "takes_all cb" "\<And>x. x \<in> set xs \<Longrightarrow> x \<noteq> []"
  shows "attach_loop has_memory cb DELIM (attach_text i xs @ DELIM @ ascii ''--'' @ CRLF) count ctx =
    (count + int (length xs), foldl (after cb) ctx xs)"
  using assms(2)
proof (induction xs arbitrary: i count ctx)
  case Nil
  have "drop (length DELIM) (attach_text i [] @ DELIM @ ascii ''--'' @ CRLF) = [45, 45, 13, 10]"
    by (simp add: ascii_def CRLF_def)
  then show ?case by (subst attach_loop.simps) simp
next
  case (Cons x xs)
  let ?w = "wrapped (b64_text x)" and ?L = "lines_text (part_header i)"
  let ?tail = "attach_text (i + 1) xs @ DELIM @ ascii ''--'' @ CRLF"
  let ?p = "attach_text i (x # xs) @ DELIM @ ascii ''--'' @ CRLF"
  obtain rest where rest: "?tail = DELIM @ rest" using attach_text_delim by metis
  have hdr: "drop (length DELIM) ?p = CRLF @ ?L @ CRLF @ ?w @ ?tail" by (simp add: attach_text_Cons)
  have dash: "\<not> (2 \<le> length (CRLF @ ?L @ CRLF @ ?w @ ?tail) \<and> (CRLF @ ?L @ CRLF @ ?w @ ?tail) ! 0 = of_char CHR ''-'' \<and>
      (CRLF @ ?L @ CRLF @ ?w @ ?tail) ! 1 = of_char CHR ''-'')" by (simp add: CRLF_def)
  have bdy: "drop (length ?L + 4) (CRLF @ ?L @ CRLF @ ?w @ ?tail) = ?w @ ?tail" by (rule drop_blank_line)
  have nxt: "memfind (?w @ ?tail) DELIM = Some (length ?w)" unfolding rest by (rule find_next_delim)
  let ?chunk = "if length ?w \<ge> 2 \<and> ?w ! (length ?w - 2) = 13 \<and> ?w ! (length ?w - 1) = 10 then take (length ?w - 2) ?w else ?w"
  have "filter (\<lambda>c. \<not> is_blank c) ?chunk = filter (\<lambda>c. \<not> is_blank c) ?w"
  proof (cases "length ?w \<ge> 2 \<and> ?w ! (length ?w - 2) = 13 \<and> ?w ! (length ?w - 1) = 10")
    case True
    then obtain u where "?w = u @ [13, 10]" by (metis trailing_pair)
    then show ?thesis by (simp add: is_blank_def)
  qed (simp only: if_False)
  then have dlv: "deliverB64 has_memory cb ctx ?chunk = (1, after cb ctx x)"
    using Cons.prems assms(1) by (intro deliverB64_text) (simp_all add: filter_wrapped filter_b64_text)
  have t: "take (length ?w) (?w @ ?tail) = ?w" "drop (length ?w) (?w @ ?tail) = ?tail" by simp_all
  have "attach_loop has_memory cb DELIM ?p count ctx = attach_loop has_memory cb DELIM ?tail (count + 1) (after cb ctx x)"
    by (subst attach_loop.simps)
      (simp only: hdr Let_def if_not_P[OF dash] find_part_body option.case bdy nxt t dlv prod.case, simp)
  also have "\<dots> = (count + 1 + int (length xs), foldl (after cb) (after cb ctx x) xs)"
    using Cons.IH[of "i + 1" "count + 1" "after cb ctx x"] Cons.prems by simp
  finally show ?case by simp
qed


section \<open>What is sent arrives\<close>

lemma mail_header_lines:
  assumes "header_fits sender to subject" "l \<in> set (mail_header sender to subject encoding n)"
  shows "l \<noteq> [] \<and> 13 \<notin> set l"
  using assms print_size_no_cr[of 13 n] mailEncodingName_exact[of encoding]
  by (auto simp: mail_header_def header_fits_def ascii_def MAIL_HDR_ENCODING_def MAIL_HDR_COUNT_def MAIL_BOUNDARY_def split: if_splits)

lemma mail_bodyStart:
  "header_fits sender to subject \<Longrightarrow> bodyStart (mail_message sender to subject encoding xs) = mail_body encoding xs"
  unfolding mail_message_def by (rule bodyStart_text) (simp add: mail_header_def, rule mail_header_lines)

abbreviation BOUNDARY_IS :: bytes where
  "BOUNDARY_IS \<equiv> ascii ''boundary=''"

text \<open>The header lines before the content type name no boundary.\<close>

definition names_no_boundary :: "bytes \<Rightarrow> bool" where
  "names_no_boundary s \<longleftrightarrow> memfind s BOUNDARY_IS = None"

lemma boundary_chars: "BOUNDARY_IS \<noteq> []" "13 \<notin> set BOUNDARY_IS" "10 \<notin> set BOUNDARY_IS" "32 \<notin> set BOUNDARY_IS"
  "hd BOUNDARY_IS = 98" "length BOUNDARY_IS = 9"
  by (simp_all add: ascii_def)

lemma find_after_line:
  assumes "names_no_boundary l"
  shows "memfind (l @ CRLF @ rest) BOUNDARY_IS = map_option ((+) (length l + 2)) (memfind rest BOUNDARY_IS)"
proof -
  have 1: "memfind (l @ 13 # 10 # rest) BOUNDARY_IS =
      map_option (\<lambda>k. length l + 1 + k) (memfind (10 # rest) BOUNDARY_IS)"
    using memfind_cut[OF boundary_chars(2,1), of l "10 # rest"] assms by (simp only: names_no_boundary_def option.case)
  have 2: "memfind (10 # rest) BOUNDARY_IS = map_option ((+) 1) (memfind rest BOUNDARY_IS)"
    using memfind_skip[OF boundary_chars(1), of "[10]" rest] by (simp only: boundary_chars(5)) simp
  show ?thesis unfolding CRLF_def append_Cons append_Nil 1 2 by (cases "memfind rest BOUNDARY_IS") simp_all
qed

lemma names_no_boundary_field:
  assumes "names_no_boundary s" "names_no_boundary pre"
  shows "names_no_boundary (pre @ 32 # s)"
  using memfind_cut[OF boundary_chars(4,1), of pre s] assms by (simp only: names_no_boundary_def option.case option.map)

lemma find_boundary_line:
  assumes "\<And>l. l \<in> set ls \<Longrightarrow> names_no_boundary l"
  shows "memfind (lines_text ls @ rest) BOUNDARY_IS = map_option ((+) (length (lines_text ls))) (memfind rest BOUNDARY_IS)"
  using assms
proof (induction ls)
  case Nil
  then show ?case by (simp add: lines_text_def option.map_ident)
next
  case (Cons l ls)
  have "lines_text (l # ls) = l @ CRLF @ lines_text ls" by (simp add: lines_text_def)
  then show ?case
    using Cons find_after_line[of l "lines_text ls @ rest"]
    by (simp only: append_assoc list.set_intros length_append option.map_comp o_def) (simp add: CRLF_def add.assoc)
qed


definition CONTENT_LINE :: bytes where
  "CONTENT_LINE = ascii ''Content-Type: multipart/mixed; '' @ BOUNDARY_IS @ [34] @ MAIL_BOUNDARY @ [34]"

lemma content_line_props:
  "memfind CONTENT_LINE BOUNDARY_IS = Some 31" "drop 40 CONTENT_LINE = [34] @ MAIL_BOUNDARY @ [34]"
  "takeWhile (\<lambda>c. c \<noteq> 34) (MAIL_BOUNDARY @ [34]) = MAIL_BOUNDARY" "take 127 MAIL_BOUNDARY = MAIL_BOUNDARY"
  "take 131 (ascii ''--'' @ cstr MAIL_BOUNDARY) = DELIM" "MAIL_BOUNDARY \<noteq> []"
  by (simp_all add: CONTENT_LINE_def MAIL_BOUNDARY_def DELIM_def ascii_def cstr_def)

lemma findBoundary_text:
  assumes "\<And>l. l \<in> set ls \<Longrightarrow> names_no_boundary l"
  shows "findBoundary (lines_text ls @ CONTENT_LINE) 128 = Some MAIL_BOUNDARY"
proof -
  have f: "memfind (lines_text ls @ CONTENT_LINE) BOUNDARY_IS = Some (length (lines_text ls) + 31)"
    using find_boundary_line[OF assms, of ls CONTENT_LINE] content_line_props(1) by simp
  have d: "drop (length (lines_text ls) + 31 + 9) (lines_text ls @ CONTENT_LINE) = 34 # MAIL_BOUNDARY @ [34]"
    using content_line_props(2) by simp
  show ?thesis
    unfolding findBoundary_def f option.case d Let_def
    by (simp add: content_line_props)
qed

lemma fields_name_no_boundary:
  assumes "names_no_boundary sender" "names_no_boundary to" "names_no_boundary subject"
    "l \<in> set (butlast (mail_header sender to subject encoding n))"
  shows "names_no_boundary l"
proof -
  have pre: "names_no_boundary (ascii ''From:'')" "names_no_boundary (ascii ''To:'')" "names_no_boundary (ascii ''Subject:'')"
    "names_no_boundary (ascii ''MIME-Version: 1.0'')" "names_no_boundary (ascii ''X-ION-Bundle-Encoding:'')"
    "names_no_boundary (ascii ''X-ION-Bundle-Count:'')"
    "names_no_boundary (ascii ''attach'')" "names_no_boundary (ascii ''b64'')" "names_no_boundary (ascii ''raw'')"
    "names_no_boundary (ascii ''?'')"
    by (simp_all add: names_no_boundary_def ascii_def)
  have "names_no_boundary (print_size n)"
    using memfind_absent[of BOUNDARY_IS "print_size n", OF boundary_chars(1)] print_size_no_cr[of 98 n]
    by (auto simp: names_no_boundary_def boundary_chars(5) simp del: memfind.simps)
  moreover have "names_no_boundary (mailEncodingName encoding)"
    using pre mailEncodingName_exact[of encoding] by auto
  ultimately show ?thesis
    using assms pre names_no_boundary_field[OF assms(1) pre(1)] names_no_boundary_field[OF assms(2) pre(2)]
      names_no_boundary_field[OF assms(3) pre(3)] names_no_boundary_field[of "mailEncodingName encoding", OF _ pre(5)]
      names_no_boundary_field[of "print_size n", OF _ pre(6)]
    by (auto simp: mail_header_def ascii_def MAIL_HDR_ENCODING_def MAIL_HDR_COUNT_def)
qed

lemma parse_attach_message:
  assumes "header_fits sender to subject" "names_no_boundary sender" "names_no_boundary to" "names_no_boundary subject"
    "takes_all cb" "\<And>x. x \<in> set xs \<Longrightarrow> x \<noteq> []"
  shows "parseAttach has_memory cb (mail_message sender to subject MAIL_ENC_ATTACH xs) ctx =
    (int (length xs), foldl (after cb) ctx xs)"
proof -
  let ?h = "mail_header sender to subject MAIL_ENC_ATTACH (length xs)"
  let ?m = "mail_message sender to subject MAIL_ENC_ATTACH xs"
  have h: "?h = butlast ?h @ [CONTENT_LINE]" by (simp add: mail_header_def CONTENT_LINE_def ascii_def)
  have sep: "memfind ?m (CRLF @ CRLF) = Some (length (lines_text ?h) - 2)"
  proof -
    have "?h \<noteq> []" by (simp add: mail_header_def)
    then show ?thesis
      unfolding mail_message_def by (rule memfind_blank_line[THEN conjunct1]) (rule mail_header_lines[OF assms(1)])
  qed
  have lt: "lines_text ?h = lines_text (butlast ?h) @ CONTENT_LINE @ CRLF"
    by (subst h) (simp only: lines_text_def map_append concat_append list.map concat.simps append_Nil2)
  have hdr: "take (length (lines_text ?h) - 2) ?m = lines_text (butlast ?h) @ CONTENT_LINE"
    unfolding mail_message_def lt by (simp add: CRLF_def)
  have bnd: "findBoundary (lines_text (butlast ?h) @ CONTENT_LINE) 128 = Some MAIL_BOUNDARY"
    by (rule findBoundary_text) (rule fields_name_no_boundary[OF assms(2-4)])
  have bdy: "bodyStart ?m = attach_text 0 xs @ DELIM @ ascii ''--'' @ CRLF"
    unfolding mail_bodyStart[OF assms(1)] mail_body_def DELIM_def by simp
  obtain rest where rest: "attach_text 0 xs @ DELIM @ ascii ''--'' @ CRLF = DELIM @ rest" using attach_text_delim by metis
  have first: "memfind (attach_text 0 xs @ DELIM @ ascii ''--'' @ CRLF) DELIM = Some 0"
    unfolding rest by (rule memfind_here[OF delim_props(1)])
  show ?thesis
    unfolding parseAttach_def sep option.case Let_def hdr bnd content_line_props(5) bdy first
    using attach_loop_all[OF assms(5,6), of xs 0 0 ctx] by simp
qed

lemma parse_text_message:
  assumes "header_fits sender to subject" "encoding \<noteq> MAIL_ENC_ATTACH" "xs \<noteq> []"
    "takes_all cb" "\<And>x. x \<in> set xs \<Longrightarrow> separable encoding x"
  shows "parseBody has_memory cb (mail_message sender to subject encoding xs) encoding ctx =
    (int (length xs), foldl (after cb) ctx xs)"
proof -
  obtain y ys where xs: "xs = y # ys" using assms(3) by (cases xs) auto
  have "mail_body encoding xs = payload encoding y @ body_text (map (payload encoding) ys)"
    using assms(2) by (simp add: mail_body_def xs)
  then show ?thesis
    unfolding parseBody_def mail_bodyStart[OF assms(1)]
    using body_loop_rest[OF assms(4), of ys encoding y True 0 ctx] assms(5) by (simp add: xs)
qed

text \<open>C25: A message that is built from bundles gives them back, in any encoding: the callback gets every
  bundle once, in the order in which they were given, and the count is theirs.  The sender, the receiver
  and the subject fit their lines; as attachments, they do not hold \<open>boundary=\<close>; raw, no bundle holds the
  separator.\<close>
theorem mail_round_trip:
  assumes "header_fits sender to (the_subject subject)" "xs \<noteq> []" "length xs < 2 ^ 64" "takes_all cb"
    "\<forall>x \<in> set xs. x \<noteq> [] \<and> (encoding = MAIL_ENC_ATTACH \<or> separable encoding x)"
    "encoding = MAIL_ENC_ATTACH \<longrightarrow> names_no_boundary sender \<and> names_no_boundary to \<and> names_no_boundary (the_subject subject)"
  shows "\<exists>msg. mailBuildMessage has_memory (Some sender) (Some to) subject encoding xs = Some msg \<and>
    mailParseMessage has_memory cb (Some msg) encoding ctx = (int (length xs), foldl (after cb) ctx xs)"
proof (cases "encoding = MAIL_ENC_ATTACH")
  case True
  then show ?thesis
    using mailBuildMessage_exact[OF assms(1,2,3), of encoding] parse_attach_message[OF assms(1) _ _ _ assms(4), of xs ctx] assms(5,6)
    by (simp add: mailParseMessage_def)
next
  case False
  have "parseBody has_memory cb (mail_message sender to (the_subject subject) encoding xs) encoding ctx =
      (int (length xs), foldl (after cb) ctx xs)"
    by (rule parse_text_message[OF assms(1) False assms(2,4)]) (use assms(5) False in blast)
  then show ?thesis
    using mailBuildMessage_exact[OF assms(1,2,3), of encoding] False by (simp add: mailParseMessage_def)
qed

definition collect :: "bytes list \<Rightarrow> bytes \<Rightarrow> int \<times> bytes list" where
  "collect seen x = (0, seen @ [x])"

theorem mail_round_trip_witness:
  "\<exists>msg. mailBuildMessage has_memory (Some (ascii ''a@n1'')) (Some (ascii ''b@n2'')) None MAIL_ENC_ATTACH [[159, 1], [159, 2]] = Some msg \<and>
    mailParseMessage has_memory collect (Some msg) MAIL_ENC_ATTACH [] = (2, [[159, 1], [159, 2]])"
  using mail_round_trip[of "ascii ''a@n1''" "ascii ''b@n2''" None "[[159, 1], [159, 2]]" collect MAIL_ENC_ATTACH "[]"]
  by (simp add: header_fits_def the_subject_def DEFAULT_SUBJECT_def ascii_def takes_all_def collect_def names_no_boundary_def after_def)


text \<open>A subject that holds \<open>boundary=\<close> hides the bundles of a message with attachments.\<close>

lemma subject_hides_bundles:
  "map_option (\<lambda>msg. mailParseMessage has_memory collect (Some msg) MAIL_ENC_ATTACH [])
     (mailBuildMessage has_memory (Some (ascii ''a'')) (Some (ascii ''b'')) (Some (ascii ''boundary=c'')) MAIL_ENC_ATTACH [[159, 1]]) =
   Some (0, [])"
  by code_simp


end
