(* ===== verification/Wire.thy ===== *)
theory Wire
  imports Prelude
begin

unbundle bit_operations_syntax

text \<open>
  The bounded big-endian \<open>Writer\<close> and \<open>Reader\<close> that CLA/tcpv4/src/tcpv4msg.c and
  CLA/quic/src/quicmsg.c both define (the two files hold the same static functions), and the
  interface of a wire format.

  A \<open>Writer\<close> or \<open>Reader\<close> function of the C code changes the struct its first argument points
  to, so it is a computation of the state monad over the record of that struct.  The relations
  \<open>emits\<close>, \<open>parses\<close>, \<open>sticky\<close> and \<open>yields\<close> say what a sequence of such calls does to the
  octets; each has one rule per primitive and one for sequencing, so a message codec is proved by
  chaining rules.  The locale \<open>wire_format\<close> is the contract between a message codec and the
  code that reads messages off a connection: what every codec promises and what follows from it.
\<close>

section \<open>Writer\<close>

record writer =
  w_buf :: bytes
  w_cap :: nat
  w_len :: nat
  w_ok :: bool

definition wInit :: "bytes \<Rightarrow> nat \<Rightarrow> writer" where
  "wInit buf cap = \<lparr>w_buf = buf, w_cap = cap, w_len = 0, w_ok = True\<rparr>"

definition wU8 :: "u8 \<Rightarrow> (writer, unit) state" where
  "wU8 v = State (\<lambda>w.
     if \<not> w_ok w \<or> w_len w + 1 > w_cap w then ((), w\<lparr>w_ok := False\<rparr>)
     else ((), w\<lparr>w_buf := (w_buf w)[w_len w := v], w_len := w_len w + 1\<rparr>))"

definition wU16 :: "u16 \<Rightarrow> (writer, unit) state" where
  "wU16 v = do { wU8 (ucast (drop_bit 8 v)); wU8 (ucast v) }"

definition wU32 :: "u32 \<Rightarrow> (writer, unit) state" where
  "wU32 v = do { wU16 (ucast (drop_bit 16 v)); wU16 (ucast v) }"

definition wU64 :: "u64 \<Rightarrow> (writer, unit) state" where
  "wU64 v = do { wU32 (ucast (drop_bit 32 v)); wU32 (ucast v) }"

definition wBytes :: "bytes \<Rightarrow> nat \<Rightarrow> (writer, unit) state" where
  "wBytes p n = State (\<lambda>w.
     if \<not> w_ok w \<or> w_len w + n > w_cap w then ((), w\<lparr>w_ok := False\<rparr>)
     else if n > 0 then
       ((), w\<lparr>w_buf := overwrite (w_buf w) (w_len w) (take n p), w_len := w_len w + n\<rparr>)
     else ((), w))"

text \<open>
  An encoder runs its calls on a fresh writer and returns \<open>w.ok ? (int) w.len : -1\<close>.
\<close>

definition encode_with :: "(writer, unit) state \<Rightarrow> bytes \<Rightarrow> nat \<Rightarrow> int \<times> bytes" where
  "encode_with p buf cap =
     (let w = snd (run_state p (wInit buf cap))
      in (if w_ok w then int_of_size (w_len w) else -1, w_buf w))"

subsection \<open>What a writer computation emits\<close>

definition w_wf :: "writer \<Rightarrow> bool" where
  "w_wf w \<longleftrightarrow> w_len w \<le> w_cap w \<and> w_cap w \<le> length (w_buf w)"

text \<open>
  \<open>emitted w bs w'\<close>: going from \<open>w\<close> to \<open>w'\<close> succeeds exactly when the octets \<open>bs\<close> fit, then
  appends them, and in no case changes an octet before the position it starts at or beyond the
  capacity.
\<close>

definition emitted :: "writer \<Rightarrow> bytes \<Rightarrow> writer \<Rightarrow> bool" where
  "emitted w bs w' \<longleftrightarrow>
     w_wf w' \<and> w_cap w' = w_cap w \<and> length (w_buf w') = length (w_buf w) \<and>
     w_len w \<le> w_len w' \<and>
     (w_ok w' \<longleftrightarrow> w_ok w \<and> w_len w + length bs \<le> w_cap w) \<and>
     (w_ok w' \<longrightarrow> w_len w' = w_len w + length bs \<and> w_buf w' = overwrite (w_buf w) (w_len w) bs) \<and>
     take (w_len w) (w_buf w') = take (w_len w) (w_buf w) \<and>
     drop (w_cap w) (w_buf w') = drop (w_cap w) (w_buf w)"

lemma emitted_append:
  assumes wf: "w_wf w" and 1: "emitted w bs w1" and 2: "emitted w1 cs w2"
  shows "emitted w (bs @ cs) w2"
proof -
  have ok: "w_ok w2 \<longleftrightarrow> w_ok w \<and> w_len w + length (bs @ cs) \<le> w_cap w"
    using 1 2 by (auto simp: emitted_def)
  have buf: "w_buf w2 = overwrite (w_buf w) (w_len w) (bs @ cs)" if "w_ok w2"
  proof -
    have ok1: "w_ok w1" using that 2 by (simp add: emitted_def)
    then have "w_len w + length bs \<le> length (w_buf w)"
      using 1 wf by (auto simp: emitted_def w_wf_def)
    then show ?thesis using that ok1 1 2 by (simp add: emitted_def overwrite_overwrite)
  qed
  have "take (w_len w) (w_buf w2) = take (w_len w) (take (w_len w1) (w_buf w2))"
    using 1 by (simp add: emitted_def min_def)
  also have "\<dots> = take (w_len w) (take (w_len w1) (w_buf w1))"
    using 2 by (simp add: emitted_def)
  also have "\<dots> = take (w_len w) (w_buf w)"
    using 1 by (simp add: emitted_def min_def)
  finally have before: "take (w_len w) (w_buf w2) = take (w_len w) (w_buf w)" .
  have len: "w_len w2 = w_len w + length (bs @ cs)" if "w_ok w2"
    using that 1 2 by (simp add: emitted_def)
  show ?thesis
    unfolding emitted_def using 1 2 ok buf len before
    by (intro conjI) (auto simp: emitted_def)
qed

text \<open>\<open>emits p bs\<close>: the computation \<open>p\<close> appends \<open>bs\<close> to every well-formed writer.\<close>

definition emits :: "(writer, unit) state \<Rightarrow> bytes \<Rightarrow> bool" where
  "emits p bs \<longleftrightarrow> (\<forall>w. w_wf w \<longrightarrow> emitted w bs (snd (run_state p w)))"

lemma emits_wU8 [emits_intro]: "emits (wU8 v) [v]"
  by (auto simp: emits_def emitted_def wU8_def w_wf_def overwrite_one)

lemma emits_wBytes [emits_intro]:
  "n \<le> length p \<Longrightarrow> emits (wBytes p n) (take n p)"
  by (auto simp: emits_def emitted_def wBytes_def w_wf_def drop_overwrite_after min_def)

lemma emits_return [emits_intro]: "emits (State_Monad.return ()) []"
  by (auto simp: emits_def emitted_def w_wf_def)

lemma emits_bind [emits_intro]:
  "emits p bs \<Longrightarrow> emits (f ()) cs \<Longrightarrow> emits (State_Monad.bind p f) (bs @ cs)"
  by (auto simp: emits_def split: prod.split intro!: emitted_append)
    (metis emitted_append emitted_def snd_conv)

lemma emits_wU16 [emits_intro]: "emits (wU16 v) (be16 v)"
  unfolding wU16_def be16_def using emits_bind[OF emits_wU8 emits_wU8] by simp

lemma emits_wU32 [emits_intro]: "emits (wU32 v) (be32 v)"
  unfolding wU32_def be32_def by (intro emits_bind emits_wU16)

lemma emits_wU64 [emits_intro]: "emits (wU64 v) (be64 v)"
  unfolding wU64_def be64_def by (intro emits_bind emits_wU32)

lemma emits_if [emits_intro]:
  "(c \<Longrightarrow> emits p bs) \<Longrightarrow> (\<not> c \<Longrightarrow> emits q cs) \<Longrightarrow>
     emits (if c then p else q) (if c then bs else cs)"
  by simp

text \<open>The whole encoder, on any buffer that holds the capacity it is told.\<close>

lemma encode_with_emits:
  assumes "emits p bs" and "cap \<le> length buf"
  shows "fst (encode_with p buf cap) =
           (if length bs \<le> cap then int_of_size (length bs) else -1)"
    and "length bs \<le> cap \<Longrightarrow> snd (encode_with p buf cap) = overwrite buf 0 bs"
    and "length (snd (encode_with p buf cap)) = length buf"
    and "drop cap (snd (encode_with p buf cap)) = drop cap buf"
proof -
  let ?w = "snd (run_state p (wInit buf cap))"
  have "w_wf (wInit buf cap)" using assms(2) by (simp add: w_wf_def wInit_def)
  with assms(1) have e: "emitted (wInit buf cap) bs ?w" by (simp add: emits_def)
  show "fst (encode_with p buf cap) = (if length bs \<le> cap then int_of_size (length bs) else -1)"
    using e by (auto simp: emitted_def encode_with_def Let_def wInit_def)
  show "length bs \<le> cap \<Longrightarrow> snd (encode_with p buf cap) = overwrite buf 0 bs"
    using e by (auto simp: emitted_def encode_with_def Let_def wInit_def)
  show "length (snd (encode_with p buf cap)) = length buf"
    using e by (simp add: emitted_def encode_with_def Let_def wInit_def)
  show "drop cap (snd (encode_with p buf cap)) = drop cap buf"
    using e by (simp add: emitted_def encode_with_def Let_def wInit_def)
qed

section \<open>Reader\<close>

record reader =
  r_buf :: bytes
  r_len :: nat
  r_off :: nat
  r_ok :: bool

definition rInit :: "bytes \<Rightarrow> nat \<Rightarrow> reader" where
  "rInit buf len = \<lparr>r_buf = buf, r_len = len, r_off = 0, r_ok = True\<rparr>"

definition rU8 :: "(reader, u8) state" where
  "rU8 = State (\<lambda>r.
     if \<not> r_ok r \<or> r_off r + 1 > r_len r then (0, r\<lparr>r_ok := False\<rparr>)
     else (r_buf r ! r_off r, r\<lparr>r_off := r_off r + 1\<rparr>))"

definition rU16 :: "(reader, u16) state" where
  "rU16 = do { hi \<leftarrow> rU8; lo \<leftarrow> rU8; State_Monad.return (join16 hi lo) }"

definition rU32 :: "(reader, u32) state" where
  "rU32 = do { hi \<leftarrow> rU16; lo \<leftarrow> rU16; State_Monad.return (join32 hi lo) }"

definition rU64 :: "(reader, u64) state" where
  "rU64 = do { hi \<leftarrow> rU32; lo \<leftarrow> rU32; State_Monad.return (join64 hi lo) }"

text \<open>
  \<open>rBytes\<close> returns a pointer into the input; the model returns the \<open>len\<close> octets it refers to,
  and \<open>None\<close> for the null pointer.
\<close>

definition rBytes :: "nat \<Rightarrow> (reader, bytes option) state" where
  "rBytes len = State (\<lambda>r.
     if \<not> r_ok r \<or> len > r_len r - r_off r then (None, r\<lparr>r_ok := False\<rparr>)
     else (Some (take len (drop (r_off r) (r_buf r))), r\<lparr>r_off := r_off r + len\<rparr>))"

text \<open>
  A decoder of a typed message: it checks the type octet, then reads the body.  The first
  component is the C return value; the second is the message struct, which a caller may only
  look at when the return value is positive.
\<close>

definition decode_typed :: "u8 \<Rightarrow> (reader, 'm) state \<Rightarrow> bytes \<Rightarrow> nat \<Rightarrow> int \<times> 'm option" where
  "decode_typed ty body buf len =
     (let (t, r) = run_state rU8 (rInit buf len) in
      if t \<noteq> ty then (if r_ok r then -1 else 0, None)
      else
        let (m, r) = run_state body r in
        if \<not> r_ok r then (0, None) else (int_of_size (r_off r), Some m))"

subsection \<open>What a reader computation reads\<close>

definition r_wf :: "reader \<Rightarrow> bool" where
  "r_wf r \<longleftrightarrow> r_off r \<le> r_len r \<and> r_len r \<le> length (r_buf r)"

definition avail :: "reader \<Rightarrow> bytes" where
  "avail r = take (r_len r - r_off r) (drop (r_off r) (r_buf r))"

definition advance :: "nat \<Rightarrow> reader \<Rightarrow> reader" where
  "advance n r = r\<lparr>r_off := r_off r + n\<rparr>"

lemma advance_simps [simp]:
  "r_ok (advance n r) = r_ok r" "r_buf (advance n r) = r_buf r" "r_len (advance n r) = r_len r"
  "r_off (advance n r) = r_off r + n" "advance 0 r = r" "advance n (advance m r) = advance (m + n) r"
  by (simp_all add: advance_def add.assoc)

lemma length_avail: "r_wf r \<Longrightarrow> length (avail r) = r_len r - r_off r"
  unfolding avail_def r_wf_def length_take length_drop by linarith

lemma avail_advance [simp]: "avail (advance n r) = drop n (avail r)"
  by (simp add: avail_def advance_def drop_take add.commute)

lemma wf_advance: "r_wf r \<Longrightarrow> n \<le> length (avail r) \<Longrightarrow> r_wf (advance n r)"
  by (auto simp: r_wf_def avail_def)

lemma avail_rInit [simp]: "avail (rInit buf len) = take len buf"
  by (simp add: avail_def rInit_def)

lemma wf_rInit [simp]: "len \<le> length buf \<Longrightarrow> r_wf (rInit buf len)"
  by (simp add: r_wf_def rInit_def)

lemma rInit_simps [simp]:
  "r_ok (rInit buf len)" "r_off (rInit buf len) = 0" "r_len (rInit buf len) = len"
  "r_buf (rInit buf len) = buf"
  by (simp_all add: rInit_def)

text \<open>\<open>parses p bs v\<close>: with \<open>bs\<close> next in the input, \<open>p\<close> reads it all and returns \<open>v\<close>; with only a
  proper prefix of \<open>bs\<close> left, \<open>p\<close> underflows.\<close>

definition parses :: "(reader, 'a) state \<Rightarrow> bytes \<Rightarrow> 'a \<Rightarrow> bool" where
  "parses p bs v \<longleftrightarrow> (\<forall>r. r_wf r \<longrightarrow> r_ok r \<longrightarrow>
     (\<forall>rest. avail r = bs @ rest \<longrightarrow> run_state p r = (v, advance (length bs) r)) \<and>
     (\<forall>lack. lack \<noteq> [] \<longrightarrow> bs = avail r @ lack \<longrightarrow> \<not> r_ok (snd (run_state p r))))"

definition sticky :: "(reader, 'a) state \<Rightarrow> bool" where
  "sticky p \<longleftrightarrow> (\<forall>r. \<not> r_ok r \<longrightarrow> \<not> r_ok (snd (run_state p r)))"

lemma rU8_run:
  assumes "r_wf r" "r_ok r"
  shows "run_state rU8 r =
           (case avail r of [] \<Rightarrow> (0, r\<lparr>r_ok := False\<rparr>) | b # _ \<Rightarrow> (b, advance 1 r))"
proof (cases "avail r")
  case Nil
  then show ?thesis using assms length_avail[OF assms(1)] by (simp add: rU8_def)
next
  case (Cons b bs)
  have "r_off r < r_len r" using Cons length_avail[OF assms(1)] by simp
  moreover from this have "r_buf r ! r_off r = hd (avail r)"
    using assms by (simp add: avail_def r_wf_def hd_drop_conv_nth hd_take)
  ultimately show ?thesis using Cons assms by (simp add: rU8_def advance_def)
qed

lemma rBytes_run:
  assumes "r_wf r" "r_ok r"
  shows "run_state (rBytes n) r =
           (if n > length (avail r) then (None, r\<lparr>r_ok := False\<rparr>)
            else (Some (take n (avail r)), advance n r))"
  using assms
  by (auto simp: rBytes_def length_avail advance_def avail_def r_wf_def min_def)

lemma parses_rU8 [parses_intro]: "parses rU8 [b] b"
  by (auto simp: parses_def rU8_run Cons_eq_append_conv)

lemma parses_rBytes [parses_intro]: "length bs = n \<Longrightarrow> parses (rBytes n) bs (Some bs)"
  by (auto simp: parses_def rBytes_run)

lemma parses_return [parses_intro]: "parses (State_Monad.return v) [] v"
  by (auto simp: parses_def)

lemma sticky_rU8 [sticky_intro]: "sticky rU8"
  by (auto simp: sticky_def rU8_def)

lemma sticky_rBytes [sticky_intro]: "sticky (rBytes n)"
  by (auto simp: sticky_def rBytes_def)

lemma sticky_return [sticky_intro]: "sticky (State_Monad.return v)"
  by (auto simp: sticky_def)

lemma sticky_bind [sticky_intro]:
  "sticky p \<Longrightarrow> (\<And>v. sticky (f v)) \<Longrightarrow> sticky (State_Monad.bind p f)"
  by (fastforce simp: sticky_def split: prod.split)

lemma sticky_if [sticky_intro]: "sticky p \<Longrightarrow> sticky q \<Longrightarrow> sticky (if c then p else q)"
  by simp

lemma parses_bind [parses_intro]:
  assumes p: "parses p bs v" and f: "parses (f v) cs w" and st: "\<And>u. sticky (f u)"
  shows "parses (State_Monad.bind p f) (bs @ cs) w"
  unfolding parses_def
proof (intro allI impI conjI)
  fix r rest
  assume wf: "r_wf r" and ok: "r_ok r" and av: "avail r = (bs @ cs) @ rest"
  have 1: "run_state p r = (v, advance (length bs) r)"
    using p wf ok av by (simp add: parses_def)
  have "r_wf (advance (length bs) r)" using wf av by (simp add: wf_advance)
  then have "run_state (f v) (advance (length bs) r) = (w, advance (length bs + length cs) r)"
    using f ok av by (simp add: parses_def)
  then show "run_state (State_Monad.bind p f) r = (w, advance (length (bs @ cs)) r)"
    using 1 by simp
next
  fix r lack
  assume wf: "r_wf r" and ok: "r_ok r" and ne: "lack \<noteq> []" and av: "bs @ cs = avail r @ lack"
  from append_strict_prefix_cases[OF av]
  show "\<not> r_ok (snd (run_state (State_Monad.bind p f) r))"
  proof
    assume "\<exists>zs. bs = avail r @ zs \<and> lack = zs @ cs"
    then obtain zs where z: "bs = avail r @ zs" "lack = zs @ cs" by blast
    show ?thesis
    proof (cases "zs = []")
      case False
      then have "\<not> r_ok (snd (run_state p r))" using p wf ok z by (simp add: parses_def)
      then show ?thesis using st by (auto simp: sticky_def split: prod.split)
    next
      case True
      then have 1: "run_state p r = (v, advance (length bs) r)"
        using p wf ok z by (simp add: parses_def)
      have "r_wf (advance (length bs) r)" using wf z True by (simp add: wf_advance)
      then have "\<not> r_ok (snd (run_state (f v) (advance (length bs) r)))"
        using f ok z True ne by (simp add: parses_def)
      then show ?thesis using 1 by simp
    qed
  next
    assume "\<exists>zs. avail r = bs @ zs \<and> cs = zs @ lack"
    then obtain zs where z: "avail r = bs @ zs" "cs = zs @ lack" by blast
    have 1: "run_state p r = (v, advance (length bs) r)"
      using p wf ok z by (simp add: parses_def)
    have "r_wf (advance (length bs) r)" using wf z by (simp add: wf_advance)
    then have "\<not> r_ok (snd (run_state (f v) (advance (length bs) r)))"
      using f ok z ne by (simp add: parses_def)
    then show ?thesis using 1 by simp
  qed
qed

lemma parses_rU16 [parses_intro]: "parses rU16 (be16 v) v"
proof -
  have "parses rU16 ([ucast (drop_bit 8 v)] @ [ucast v] @ []) (join16 (ucast (drop_bit 8 v)) (ucast v))"
    unfolding rU16_def by (rule parses_intro sticky_intro)+
  then show ?thesis by (simp add: be16_def)
qed

lemma sticky_rU16 [sticky_intro]: "sticky rU16"
  unfolding rU16_def by (intro sticky_intro)

lemma parses_rU32 [parses_intro]: "parses rU32 (be32 v) v"
proof -
  have "parses rU32 (be16 (ucast (drop_bit 16 v)) @ be16 (ucast v) @ [])
          (join32 (ucast (drop_bit 16 v)) (ucast v))"
    unfolding rU32_def by (rule parses_intro sticky_intro)+
  then show ?thesis by (simp add: be32_def)
qed

lemma sticky_rU32 [sticky_intro]: "sticky rU32"
  unfolding rU32_def by (intro sticky_intro)

lemma parses_rU64 [parses_intro]: "parses rU64 (be64 v) v"
proof -
  have "parses rU64 (be32 (ucast (drop_bit 32 v)) @ be32 (ucast v) @ [])
          (join64 (ucast (drop_bit 32 v)) (ucast v))"
    unfolding rU64_def by (rule parses_intro sticky_intro)+
  then show ?thesis by (simp add: be64_def)
qed

lemma sticky_rU64 [sticky_intro]: "sticky rU64"
  unfolding rU64_def by (intro sticky_intro)

subsection \<open>What an accepted input must be\<close>

text \<open>\<open>yields p Q\<close>: when \<open>p\<close> returns \<open>v\<close> without underflow, it has consumed some \<open>bs\<close> with \<open>Q v bs\<close>.\<close>

definition yields :: "(reader, 'a) state \<Rightarrow> ('a \<Rightarrow> bytes \<Rightarrow> bool) \<Rightarrow> bool" where
  "yields p Q \<longleftrightarrow> (\<forall>r v r'. r_wf r \<longrightarrow> run_state p r = (v, r') \<longrightarrow>
     r_wf r' \<and> (r_ok r' \<longrightarrow> r_ok r \<and>
       (\<exists>bs. Q v bs \<and> avail r = bs @ avail r' \<and> r_off r' = r_off r + length bs)))"

lemma yieldsD:
  assumes "yields p Q" "r_wf r" "run_state p r = (v, r')" "r_ok r'"
  obtains bs where "r_wf r'" "r_ok r" "Q v bs" "avail r = bs @ avail r'"
    "r_off r' = r_off r + length bs"
  using assms unfolding yields_def by blast

lemma yields_weaken: "yields p Q \<Longrightarrow> (\<And>v bs. Q v bs \<Longrightarrow> R v bs) \<Longrightarrow> yields p R"
  unfolding yields_def by blast

lemma avail_Cons_wf: "r_wf r \<Longrightarrow> avail r = b # bs \<Longrightarrow> r_wf (advance (Suc 0) r)"
  by (rule wf_advance) simp_all

lemma wf_underflow [simp]: "r_wf (r\<lparr>r_ok := ok\<rparr>) = r_wf r"
  by (simp add: r_wf_def)

lemma underflow_rU8: "\<not> r_ok r \<Longrightarrow> run_state rU8 r = (0, r\<lparr>r_ok := False\<rparr>)"
  by (simp add: rU8_def)

lemma underflow_rBytes: "\<not> r_ok r \<Longrightarrow> run_state (rBytes n) r = (None, r\<lparr>r_ok := False\<rparr>)"
  by (simp add: rBytes_def)

lemma yields_rU8 [yields_intro]: "yields rU8 (\<lambda>v bs. bs = [v])"
  unfolding yields_def
proof (intro allI impI)
  fix r v r'
  assume wf: "r_wf r" and run: "run_state rU8 r = (v, r')"
  show "r_wf r' \<and> (r_ok r' \<longrightarrow> r_ok r \<and>
      (\<exists>bs. bs = [v] \<and> avail r = bs @ avail r' \<and> r_off r' = r_off r + length bs))"
  proof (cases "r_ok r")
    case True
    then show ?thesis
      using run wf by (auto simp: rU8_run avail_Cons_wf split: list.splits)
  next
    case False
    then show ?thesis using run wf by (auto simp: underflow_rU8)
  qed
qed

lemma yields_rBytes [yields_intro]: "yields (rBytes n) (\<lambda>v bs. length bs = n \<and> v = Some bs)"
  unfolding yields_def
proof (intro allI impI)
  fix r v r'
  assume wf: "r_wf r" and run: "run_state (rBytes n) r = (v, r')"
  show "r_wf r' \<and> (r_ok r' \<longrightarrow> r_ok r \<and>
      (\<exists>bs. (length bs = n \<and> v = Some bs) \<and> avail r = bs @ avail r' \<and>
         r_off r' = r_off r + length bs))"
  proof (cases "r_ok r")
    case True
    then show ?thesis
      using run wf
      by (auto simp: rBytes_run wf_advance min_def intro!: exI[of _ "take n (avail r)"]
          split: if_splits)
  next
    case False
    then show ?thesis using run wf by (auto simp: underflow_rBytes)
  qed
qed

lemma yields_return [yields_intro]: "yields (State_Monad.return v) (\<lambda>w bs. w = v \<and> bs = [])"
  by (auto simp: yields_def)

lemma yields_bind [yields_intro]:
  assumes "yields p Q" and "\<And>v. yields (f v) (R v)"
  shows "yields (State_Monad.bind p f) (\<lambda>w bs. \<exists>v b1 b2. Q v b1 \<and> R v w b2 \<and> bs = b1 @ b2)"
  unfolding yields_def
proof (intro allI impI)
  fix r w r2
  assume wf: "r_wf r" and run: "run_state (State_Monad.bind p f) r = (w, r2)"
  obtain v r1 where 1: "run_state p r = (v, r1)" by fastforce
  with run have 2: "run_state (f v) r1 = (w, r2)" by simp
  have wf1: "r_wf r1" using assms(1) wf 1 unfolding yields_def by blast
  have wf2: "r_wf r2" using assms(2) wf1 2 unfolding yields_def by blast
  show "r_wf r2 \<and> (r_ok r2 \<longrightarrow> r_ok r \<and>
      (\<exists>bs. (\<exists>v b1 b2. Q v b1 \<and> R v w b2 \<and> bs = b1 @ b2) \<and> avail r = bs @ avail r2 \<and>
         r_off r2 = r_off r + length bs))"
  proof (intro conjI impI wf2)
    assume ok2: "r_ok r2"
    obtain b2 where b2: "r_ok r1" "R v w b2" "avail r1 = b2 @ avail r2"
      "r_off r2 = r_off r1 + length b2"
      using yieldsD[OF assms(2) wf1 2 ok2] by metis
    obtain b1 where b1: "r_ok r" "Q v b1" "avail r = b1 @ avail r1"
      "r_off r1 = r_off r + length b1"
      using yieldsD[OF assms(1) wf 1 b2(1)] by metis
    show "r_ok r" by (rule b1)
    show "\<exists>bs. (\<exists>v b1 b2. Q v b1 \<and> R v w b2 \<and> bs = b1 @ b2) \<and> avail r = bs @ avail r2 \<and>
         r_off r2 = r_off r + length bs"
      using b1 b2 by (intro exI[of _ "b1 @ b2"]) auto
  qed
qed

lemma yields_if [yields_intro]:
  "yields p Q \<Longrightarrow> yields q R \<Longrightarrow>
     yields (if c then p else q) (\<lambda>v bs. if c then Q v bs else R v bs)"
  by simp

lemma yields_rU16 [yields_intro]: "yields rU16 (\<lambda>v bs. bs = be16 v)"
  unfolding rU16_def by (rule yields_weaken, (rule yields_intro)+) auto

lemma yields_rU32 [yields_intro]: "yields rU32 (\<lambda>v bs. bs = be32 v)"
  unfolding rU32_def by (rule yields_weaken, (rule yields_intro)+) auto

lemma yields_rU64 [yields_intro]: "yields rU64 (\<lambda>v bs. bs = be64 v)"
  unfolding rU64_def by (rule yields_weaken, (rule yields_intro)+) auto

subsection \<open>No octet beyond the length is looked at\<close>

text \<open>\<open>bounded p\<close>: what \<open>p\<close> does is the same for any two buffers that agree on the first
  \<open>r_len\<close> octets, which are the only ones the caller vouches for.\<close>

definition bounded :: "(reader, 'a) state \<Rightarrow> bool" where
  "bounded p \<longleftrightarrow> (\<forall>r buf'. r_wf r \<longrightarrow> r_len r \<le> length buf' \<longrightarrow>
     take (r_len r) buf' = take (r_len r) (r_buf r) \<longrightarrow>
     (let (v, r') = run_state p r in
        r_wf r' \<and> r_len r' = r_len r \<and> r_buf r' = r_buf r \<and>
        run_state p (r\<lparr>r_buf := buf'\<rparr>) = (v, r'\<lparr>r_buf := buf'\<rparr>)))"

lemma bounded_rU8 [sticky_intro]: "bounded rU8"
proof -
  have "buf' ! i = buf ! i" if "take n buf' = take n buf" "i < n" for buf buf' :: bytes and i n
    using that by (metis nth_take)
  then show ?thesis by (auto simp: bounded_def rU8_def r_wf_def)
qed

lemma bounded_rBytes [sticky_intro]: "bounded (rBytes n)"
proof -
  have "take n (drop i buf') = take n (drop i buf)"
    if "take k buf' = take k buf" "i + n \<le> k" for buf buf' :: bytes and i k
  proof -
    have "take n (drop i x) = take n (drop i (take k x))" for x :: bytes
      using that(2) by (simp add: drop_take min_def)
    then show ?thesis using that(1) by metis
  qed
  then show ?thesis by (auto simp: bounded_def rBytes_def r_wf_def)
qed

lemma bounded_return [sticky_intro]: "bounded (State_Monad.return v)"
  by (auto simp: bounded_def)

lemma bounded_bind [sticky_intro]:
  "bounded p \<Longrightarrow> (\<And>v. bounded (f v)) \<Longrightarrow> bounded (State_Monad.bind p f)"
  unfolding bounded_def
proof (intro allI impI)
  fix r buf'
  assume p: "\<forall>r buf'. r_wf r \<longrightarrow> r_len r \<le> length buf' \<longrightarrow>
      take (r_len r) buf' = take (r_len r) (r_buf r) \<longrightarrow>
      (let (v, r') = run_state p r in r_wf r' \<and> r_len r' = r_len r \<and> r_buf r' = r_buf r \<and>
         run_state p (r\<lparr>r_buf := buf'\<rparr>) = (v, r'\<lparr>r_buf := buf'\<rparr>))"
    and f: "\<And>v. \<forall>r buf'. r_wf r \<longrightarrow> r_len r \<le> length buf' \<longrightarrow>
      take (r_len r) buf' = take (r_len r) (r_buf r) \<longrightarrow>
      (let (w, r') = run_state (f v) r in r_wf r' \<and> r_len r' = r_len r \<and> r_buf r' = r_buf r \<and>
         run_state (f v) (r\<lparr>r_buf := buf'\<rparr>) = (w, r'\<lparr>r_buf := buf'\<rparr>))"
    and wf: "r_wf r" and l: "r_len r \<le> length buf'"
    and t: "take (r_len r) buf' = take (r_len r) (r_buf r)"
  obtain v r1 where 1: "run_state p r = (v, r1)" by fastforce
  obtain w r2 where 2: "run_state (f v) r1 = (w, r2)" by fastforce
  have p1: "r_wf r1" "r_len r1 = r_len r" "r_buf r1 = r_buf r"
    "run_state p (r\<lparr>r_buf := buf'\<rparr>) = (v, r1\<lparr>r_buf := buf'\<rparr>)"
    using p[rule_format, OF wf l t] 1 by simp_all
  have "r_len r1 \<le> length buf'" "take (r_len r1) buf' = take (r_len r1) (r_buf r1)"
    using l t p1 by simp_all
  from f[of v, rule_format, OF p1(1) this] 2 p1 1
  show "let (w, r') = run_state (State_Monad.bind p f) r in
      r_wf r' \<and> r_len r' = r_len r \<and> r_buf r' = r_buf r \<and>
      run_state (State_Monad.bind p f) (r\<lparr>r_buf := buf'\<rparr>) = (w, r'\<lparr>r_buf := buf'\<rparr>)"
    by simp
qed

lemma bounded_if [sticky_intro]: "bounded p \<Longrightarrow> bounded q \<Longrightarrow> bounded (if c then p else q)"
  by simp

lemma bounded_rU16 [sticky_intro]: "bounded rU16"
  unfolding rU16_def by (rule sticky_intro)+

lemma bounded_rU32 [sticky_intro]: "bounded rU32"
  unfolding rU32_def by (rule sticky_intro)+

lemma bounded_rU64 [sticky_intro]: "bounded rU64"
  unfolding rU64_def by (rule sticky_intro)+

subsection \<open>Branches and tuples\<close>

lemma parses_value: "parses p bs v \<Longrightarrow> v = w \<Longrightarrow> parses p bs w"
  by simp

lemma parses_if [parses_intro]:
  "(c \<Longrightarrow> parses p bs v) \<Longrightarrow> (\<not> c \<Longrightarrow> parses q cs w) \<Longrightarrow>
     parses (if c then p else q) (if c then bs else cs) (if c then v else w)"
  by simp

lemma parses_case_prod [parses_intro]:
  "parses (f (fst z) (snd z)) bs v \<Longrightarrow> parses (case z of (x, y) \<Rightarrow> f x y) bs v"
  by (simp add: case_prod_beta)

lemma sticky_case_prod [sticky_intro]:
  "(\<And>x y. sticky (f x y)) \<Longrightarrow> sticky (case z of (x, y) \<Rightarrow> f x y)"
  by (cases z) simp

lemma bounded_case_prod [sticky_intro]:
  "(\<And>x y. bounded (f x y)) \<Longrightarrow> bounded (case z of (x, y) \<Rightarrow> f x y)"
  by (cases z) simp

lemma yields_case_prod [yields_intro]:
  "(\<And>x y. yields (f x y) (R x y)) \<Longrightarrow>
     yields (case z of (x, y) \<Rightarrow> f x y) (\<lambda>v bs. R (fst z) (snd z) v bs)"
  by (cases z) simp

section \<open>Decoders of typed messages\<close>

text \<open>The three facts about a message body that make its decoder a wire format.\<close>

lemma decode_typed_complete:
  assumes body: "parses body bs m" and "buf = (ty # bs) @ rest"
    and small: "length (ty # bs) < 2 ^ 31"
  shows "decode_typed ty body buf (length buf) = (int (length (ty # bs)), Some m)"
proof -
  let ?r = "rInit buf (length buf)"
  have 1: "run_state rU8 ?r = (ty, advance 1 ?r)"
    using assms(2) by (simp add: rU8_run)
  have "run_state body (advance 1 ?r) = (m, advance (length bs) (advance 1 ?r))"
    using body assms(2) unfolding parses_def by (metis avail_Cons_wf avail_advance avail_rInit
        One_nat_def append_Cons append_eq_conv_conj advance_simps(1) drop_Suc_Cons drop0
        length_Cons order_refl rInit_simps(1) take_all_iff wf_rInit)
  with 1 small show ?thesis
    by (simp add: decode_typed_def)
qed

lemma decode_typed_short:
  assumes body: "parses body bs m" and "ty # bs = buf @ lack" and "lack \<noteq> []" and "ty \<noteq> 0"
  shows "decode_typed ty body buf (length buf) = (0, None)"
proof (cases buf)
  case Nil
  then show ?thesis using assms(4) by (simp add: decode_typed_def rU8_def rInit_def)
next
  case (Cons b bs')
  let ?r = "rInit buf (length buf)"
  have b: "b = ty" "bs = bs' @ lack" using assms(2) Cons by simp_all
  have 1: "run_state rU8 ?r = (ty, advance 1 ?r)"
    using Cons b by (simp add: rU8_run)
  have "r_wf (advance 1 ?r)" "r_ok (advance 1 ?r)" "avail (advance 1 ?r) = bs'"
    using Cons by (simp_all add: avail_Cons_wf)
  then have "\<not> r_ok (snd (run_state body (advance 1 ?r)))"
    using body assms(3) b unfolding parses_def by blast
  then obtain m' r' where "run_state body (advance 1 ?r) = (m', r')" "\<not> r_ok r'"
    by (metis prod.collapse)
  with 1 show ?thesis by (simp add: decode_typed_def)
qed

lemma decode_typed_sound:
  assumes body: "yields body Q" and run: "decode_typed ty body buf (length buf) = (k, Some m)"
    and small: "length buf < 2 ^ 31"
  obtains bs rest where "Q m bs" "buf = (ty # bs) @ rest" "k = int (length (ty # bs))"
proof -
  let ?r = "rInit buf (length buf)"
  obtain t r1 where 1: "run_state rU8 ?r = (t, r1)" by fastforce
  obtain m' r2 where 2: "run_state body r1 = (m', r2)" by fastforce
  have t: "t = ty" and ok: "r_ok r2" and k: "k = int_of_size (r_off r2)" and m: "m' = m"
    using run 1 2 by (auto simp: decode_typed_def split: if_splits)
  have wf1: "r_wf r1" using yields_rU8 1 unfolding yields_def by (metis order_refl wf_rInit)
  obtain bs where bs: "r_wf r2" "r_ok r1" "Q m bs" "avail r1 = bs @ avail r2"
    "r_off r2 = r_off r1 + length bs"
    using yieldsD[OF body wf1 2 ok] m by metis
  have b1: "avail ?r = [ty] @ avail r1" "r_off r1 = 1"
    using yieldsD[OF yields_rU8 wf_rInit 1 bs(2)] t by auto
  have buf: "buf = (ty # bs) @ avail r2" using b1 bs by simp
  then have "length (ty # bs) \<le> length buf" by (metis le_add1 length_append)
  then have "k = int (length (ty # bs))" using k b1 bs small by simp
  with bs(3) buf show thesis by (rule that[of bs "avail r2"])
qed

lemma decode_typed_bounded:
  assumes "bounded body" "len \<le> length buf"
  shows "decode_typed ty body buf len = decode_typed ty body (take len buf) len"
proof -
  let ?r = "rInit (take len buf) len"
  obtain t r1 where 1: "run_state rU8 ?r = (t, r1)" by fastforce
  obtain m r2 where 2: "run_state body r1 = (m, r2)" by fastforce
  have 0: "rInit buf len = ?r\<lparr>r_buf := buf\<rparr>" by (simp add: rInit_def)
  have wf: "r_wf ?r" "r_len ?r \<le> length buf" "take (r_len ?r) buf = take (r_len ?r) (r_buf ?r)"
    using assms(2) by simp_all
  have b1: "r_wf r1" "r_len r1 = len" "r_buf r1 = take len buf"
    "run_state rU8 (rInit buf len) = (t, r1\<lparr>r_buf := buf\<rparr>)"
    using bounded_rU8[unfolded bounded_def, rule_format, OF wf] 1 by (simp_all add: 0)
  have "run_state body (r1\<lparr>r_buf := buf\<rparr>) = (m, r2\<lparr>r_buf := buf\<rparr>)"
    using assms(1)[unfolded bounded_def, rule_format, OF b1(1), of buf] 2 b1 assms(2) by simp
  with b1 1 2 show ?thesis by (simp add: decode_typed_def)
qed

section \<open>The interface of a wire format\<close>

text \<open>
  What the code that reads a connection relies on: a complete message is recognised whatever
  follows it, an incomplete one asks for more, what is accepted is the encoding of what is
  returned, and octets beyond the given length are never looked at.
\<close>

locale wire_format =
  fixes wire :: "'m \<Rightarrow> bytes"
    and dec :: "bytes \<Rightarrow> nat \<Rightarrow> int \<times> 'm option"
    and valid :: "'m \<Rightarrow> bool"
  assumes dec_complete: "valid m \<Longrightarrow> length (wire m) < 2 ^ 31 \<Longrightarrow> buf = wire m @ rest \<Longrightarrow>
      dec buf (length buf) = (int (length (wire m)), Some m)"
    and dec_short: "valid m \<Longrightarrow> wire m = buf @ lack \<Longrightarrow> lack \<noteq> [] \<Longrightarrow>
      dec buf (length buf) = (0, None)"
    and dec_sound: "length buf < 2 ^ 31 \<Longrightarrow> dec buf (length buf) = (k, Some m) \<Longrightarrow>
      valid m \<and> k = int (length (wire m)) \<and> (\<exists>rest. buf = wire m @ rest)"
    and dec_within: "len \<le> length buf \<Longrightarrow> dec buf len = dec (take len buf) len"
begin

text \<open>Reading a stream octet by octet: not one octet too early, not one too late.\<close>

lemma dec_prefix:
  assumes "valid m" "length (wire m) < 2 ^ 31" "n \<le> length (wire m @ rest)"
  shows "dec (wire m @ rest) n =
           (if n < length (wire m) then (0, None) else (int (length (wire m)), Some m))"
proof -
  let ?t = "take n (wire m @ rest)"
  have "length ?t = n" using assms(3) by simp
  then have w: "dec (wire m @ rest) n = dec ?t (length ?t)"
    using dec_within[OF assms(3)] by (simp del: take_append)
  show ?thesis
  proof (cases "n < length (wire m)")
    case True
    then have "wire m = ?t @ drop n (wire m)" "drop n (wire m) \<noteq> []" by simp_all
    from dec_short[OF assms(1) this] w True show ?thesis by (simp del: take_append)
  next
    case False
    then have "?t = wire m @ take (n - length (wire m)) rest" by simp
    from dec_complete[OF assms(1,2) this] w False show ?thesis by (simp del: take_append)
  qed
qed

text \<open>A message that is complete stays what it is when more octets follow.\<close>

lemma dec_append:
  assumes "length buf < 2 ^ 31" "dec buf (length buf) = (k, Some m)"
  shows "dec (buf @ further) (length (buf @ further)) = (k, Some m)" "0 \<le> k" "nat k \<le> length buf"
proof -
  from dec_sound[OF assms] obtain rest where
    r: "valid m" "k = int (length (wire m))" "buf = wire m @ rest" by blast
  then show "0 \<le> k" "nat k \<le> length buf" by simp_all
  have "length (wire m) < 2 ^ 31" using assms(1) r(3) by simp
  then show "dec (buf @ further) (length (buf @ further)) = (k, Some m)"
    using dec_complete[OF r(1), of "buf @ further" "rest @ further"] r by simp
qed

text \<open>No encoding is a prefix of another, so a stream parses in one way only.\<close>

lemma wire_prefix_free:
  assumes "valid m" "valid m'" "length (wire m) < 2 ^ 31" "length (wire m') < 2 ^ 31"
    and "wire m @ r = wire m' @ r'"
  shows "m = m' \<and> r = r'"
proof -
  have "dec (wire m @ r) (length (wire m @ r)) = (int (length (wire m)), Some m)"
    by (rule dec_complete[OF assms(1,3)]) simp
  moreover have "dec (wire m @ r) (length (wire m @ r)) = (int (length (wire m')), Some m')"
    by (rule dec_complete[OF assms(2,4)]) (rule assms(5))
  ultimately show ?thesis using assms(5) by simp
qed

lemma dec_iff:
  assumes "length buf < 2 ^ 31"
  shows "dec buf (length buf) = (k, Some m) \<longleftrightarrow>
           valid m \<and> k = int (length (wire m)) \<and> (\<exists>rest. buf = wire m @ rest)"
proof
  assume "valid m \<and> k = int (length (wire m)) \<and> (\<exists>rest. buf = wire m @ rest)"
  then show "dec buf (length buf) = (k, Some m)" using dec_complete assms by fastforce
qed (rule dec_sound[OF assms])

end

text \<open>A typed message is a wire format once its body is known to parse.\<close>

lemma wire_format_typed:
  assumes "ty \<noteq> 0"
    and wire: "\<And>m. wire m = ty # tail m"
    and complete: "\<And>m. valid m \<Longrightarrow> parses body (tail m) m"
    and sound: "yields body Q" "\<And>m bs. Q m bs \<Longrightarrow> valid m \<and> bs = tail m"
    and bnd: "bounded body"
  shows "wire_format wire (decode_typed ty body) valid"
proof
  show "decode_typed ty body buf (length buf) = (int (length (wire m)), Some m)"
    if "valid m" "length (wire m) < 2 ^ 31" "buf = wire m @ rest" for m buf rest
    using decode_typed_complete[OF complete[OF that(1)]] that wire by simp
  show "decode_typed ty body buf (length buf) = (0, None)"
    if "valid m" "wire m = buf @ lack" "lack \<noteq> []" for m buf lack
    using decode_typed_short[OF complete[OF that(1)] _ that(3) assms(1)] that(2) wire by simp
  show "valid m \<and> k = int (length (wire m)) \<and> (\<exists>rest. buf = wire m @ rest)"
    if "length buf < 2 ^ 31" "decode_typed ty body buf (length buf) = (k, Some m)" for buf k m
    by (rule decode_typed_sound[OF sound(1) that(2,1)]) (use sound(2) wire in fastforce)
  show "decode_typed ty body buf len = decode_typed ty body (take len buf) len"
    if "len \<le> length buf" for len buf
    by (rule decode_typed_bounded[OF bnd that])
qed

section \<open>The interface of a codec\<close>

text \<open>
  What an encoder does to the caller's buffer: it returns the length and writes exactly the
  octets of the message when they fit, returns \<open>-1\<close> when they do not, and in both cases leaves
  everything beyond the capacity alone.
\<close>

definition encoded :: "int \<times> bytes \<Rightarrow> bytes \<Rightarrow> nat \<Rightarrow> bytes \<Rightarrow> bool" where
  "encoded res buf cap ws \<longleftrightarrow>
     fst res = (if length ws \<le> cap then int_of_size (length ws) else -1) \<and>
     (length ws \<le> cap \<longrightarrow> snd res = overwrite buf 0 ws) \<and>
     length (snd res) = length buf \<and> drop cap (snd res) = drop cap buf"

lemma encode_with_encoded:
  "emits p bs \<Longrightarrow> bs = ws \<Longrightarrow> cap \<le> length buf \<Longrightarrow> encoded (encode_with p buf cap) buf cap ws"
  using encode_with_emits[of p ws cap buf] by (simp add: encoded_def)

locale wire_codec = wire_format wire dec valid
  for wire :: "'m \<Rightarrow> bytes"
    and dec :: "bytes \<Rightarrow> nat \<Rightarrow> int \<times> 'm option"
    and valid :: "'m \<Rightarrow> bool" +
  fixes enc :: "bytes \<Rightarrow> nat \<Rightarrow> 'm \<Rightarrow> int \<times> bytes"
  assumes enc_wire: "valid m \<Longrightarrow> cap \<le> length buf \<Longrightarrow> encoded (enc buf cap m) buf cap (wire m)"
begin

text \<open>Decoding what was encoded, whatever the buffer held before.\<close>

lemma dec_enc:
  assumes "valid m" "length (wire m) \<le> cap" "cap \<le> length buf" "cap < 2 ^ 31"
    and "enc buf cap m = (k, out)"
  shows "k = int (length (wire m)) \<and> take (nat k) out = wire m \<and> dec out cap = (k, Some m)"
proof -
  have small: "length (wire m) < 2 ^ 31" using assms(2,4) by simp
  then have k: "k = int (length (wire m))" and out: "out = overwrite buf 0 (wire m)"
    using enc_wire[OF assms(1,3)] assms(2,5) by (simp_all add: encoded_def)
  have "dec out cap = (k, Some m)"
    using dec_prefix[OF assms(1) small, of cap "drop (length (wire m)) buf"] assms(2,3) k out
    by (simp add: overwrite_def)
  with k out show ?thesis by simp
qed

lemma enc_too_small:
  "valid m \<Longrightarrow> cap < length (wire m) \<Longrightarrow> cap \<le> length buf \<Longrightarrow>
     fst (enc buf cap m) = -1 \<and> drop cap (snd (enc buf cap m)) = drop cap buf"
  using enc_wire[of m cap buf] by (simp add: encoded_def)

end

end
