(* ===== verification/Tcpv4Msg.thy ===== *)
theory Tcpv4Msg
  imports Wire
begin

unbundle bit_operations_syntax

text \<open>
  The TCPCLv4 message codec, CLA/tcpv4/src/tcpv4msg.c: the contact header and the session
  messages of RFC 9174.  Every struct of tcpv4msg.h is a record with the C fields; a pointer
  field is the list of octets it points to (\<open>None\<close> when the decoder leaves it null) and stays
  beside its length field, as in C.  Every encoder and decoder is one definition, in the order
  of the file.  For each message, \<open>wire_*\<close> is its octet string; the interpretations of
  \<open>wire_format\<close> show that the decoder accepts exactly these strings.
\<close>

section \<open>Constants\<close>

definition TMSG_MAGIC :: bytes where "TMSG_MAGIC = [0x64, 0x74, 0x6e, 0x21]"
definition TMSG_MAGIC_LEN :: nat where "TMSG_MAGIC_LEN = 4"
definition TMSG_XFER_SEGMENT :: u8 where "TMSG_XFER_SEGMENT = 0x01"
definition TMSG_XFER_ACK :: u8 where "TMSG_XFER_ACK = 0x02"
definition TMSG_XFER_REFUSE :: u8 where "TMSG_XFER_REFUSE = 0x03"
definition TMSG_KEEPALIVE :: u8 where "TMSG_KEEPALIVE = 0x04"
definition TMSG_SESS_TERM :: u8 where "TMSG_SESS_TERM = 0x05"
definition TMSG_MSG_REJECT :: u8 where "TMSG_MSG_REJECT = 0x06"
definition TMSG_SESS_INIT :: u8 where "TMSG_SESS_INIT = 0x07"
definition TMSG_FLAG_END :: u8 where "TMSG_FLAG_END = 0x01"
definition TMSG_FLAG_START :: u8 where "TMSG_FLAG_START = 0x02"
definition TMSG_XFEREXT_LENGTH :: u16 where "TMSG_XFEREXT_LENGTH = 0x0001"
definition TMSG_REFUSE_COMPLETED :: u8 where "TMSG_REFUSE_COMPLETED = 0x01"
definition TMSG_REFUSE_NO_RESOURCES :: u8 where "TMSG_REFUSE_NO_RESOURCES = 0x02"
definition TMSG_REFUSE_RETRANSMIT :: u8 where "TMSG_REFUSE_RETRANSMIT = 0x03"
definition TMSG_REFUSE_NOT_ACCEPTABLE :: u8 where "TMSG_REFUSE_NOT_ACCEPTABLE = 0x04"
definition TMSG_REFUSE_EXT_FAILURE :: u8 where "TMSG_REFUSE_EXT_FAILURE = 0x05"
definition TMSG_REFUSE_SESS_TERM :: u8 where "TMSG_REFUSE_SESS_TERM = 0x06"
definition TMSG_REJECT_TYPE_UNKNOWN :: u8 where "TMSG_REJECT_TYPE_UNKNOWN = 0x01"
definition TMSG_REJECT_UNSUPPORTED :: u8 where "TMSG_REJECT_UNSUPPORTED = 0x02"
definition TMSG_REJECT_UNEXPECTED :: u8 where "TMSG_REJECT_UNEXPECTED = 0x03"
definition TMSG_TERM_FLAG_REPLY :: u8 where "TMSG_TERM_FLAG_REPLY = 0x01"
definition TMSG_TERM_UNKNOWN :: u8 where "TMSG_TERM_UNKNOWN = 0x00"
definition TMSG_TERM_IDLE_TIMEOUT :: u8 where "TMSG_TERM_IDLE_TIMEOUT = 0x01"
definition TMSG_TERM_VERSION_MISMATCH :: u8 where "TMSG_TERM_VERSION_MISMATCH = 0x02"
definition TMSG_TERM_BUSY :: u8 where "TMSG_TERM_BUSY = 0x03"
definition TMSG_TERM_CONTACT_FAILURE :: u8 where "TMSG_TERM_CONTACT_FAILURE = 0x04"
definition TMSG_TERM_RESOURCE_EXHAUSTION :: u8 where "TMSG_TERM_RESOURCE_EXHAUSTION = 0x05"
definition TMSG_EXT_CRITICAL :: u8 where "TMSG_EXT_CRITICAL = 0x01"
definition TMSG_CONTACT_CAN_TLS :: u8 where "TMSG_CONTACT_CAN_TLS = 0x01"
definition TMSG_VERSION :: u8 where "TMSG_VERSION = 0x04"
definition TMSG_CONTACT_LEN :: nat where "TMSG_CONTACT_LEN = 6"

lemmas tmsg_types =
  TMSG_XFER_SEGMENT_def TMSG_XFER_ACK_def TMSG_XFER_REFUSE_def TMSG_KEEPALIVE_def
  TMSG_SESS_TERM_def TMSG_MSG_REJECT_def TMSG_SESS_INIT_def

section \<open>Message structs\<close>

record Tcpv4Contact =
  tc_version :: u8
  tc_flags :: u8

record Tcpv4SessInit =
  si_keepalive :: u16
  si_segmentMru :: u64
  si_transferMru :: u64
  si_nodeId :: "bytes option"
  si_nodeIdLen :: u16
  si_sessExt :: "bytes option"
  si_sessExtLen :: u32

record Tcpv4XferSegment =
  xs_flags :: u8
  xs_transferId :: u64
  xs_xferExt :: "bytes option"
  xs_xferExtLen :: u32
  xs_dataLength :: u64

record Tcpv4XferAck =
  xa_flags :: u8
  xa_transferId :: u64
  xa_ackLength :: u64

record Tcpv4XferRefuse =
  xr_reason :: u8
  xr_transferId :: u64

record Tcpv4SessTerm =
  st_flags :: u8
  st_reason :: u8

record Tcpv4MsgReject =
  mr_reason :: u8
  mr_rejectedType :: u8

record Tcpv4ExtItem =
  xi_flags :: u8
  xi_type :: u16
  xi_length :: u16
  xi_value :: "bytes option"

text \<open>The octets a pointer field designates; a null pointer designates none.\<close>

definition octets :: "bytes option \<Rightarrow> bytes" where
  "octets p = (case p of None \<Rightarrow> [] | Some bs \<Rightarrow> bs)"

lemma octets_simps [simp]: "octets None = []" "octets (Some bs) = bs"
  by (simp_all add: octets_def)

section \<open>Message type\<close>

definition tcpv4MsgType :: "bytes \<Rightarrow> nat \<Rightarrow> int" where
  "tcpv4MsgType buf len = (if len = 0 then -1 else uint (buf ! 0))"

section \<open>Contact header\<close>

definition tcpv4MsgEncodeContact :: "bytes \<Rightarrow> nat \<Rightarrow> Tcpv4Contact \<Rightarrow> int \<times> bytes" where
  "tcpv4MsgEncodeContact buf cap m = encode_with (do {
     wBytes TMSG_MAGIC TMSG_MAGIC_LEN;
     wU8 (tc_version m);
     wU8 (tc_flags m) }) buf cap"

definition tcpv4MsgDecodeContact :: "bytes \<Rightarrow> nat \<Rightarrow> int \<times> Tcpv4Contact option" where
  "tcpv4MsgDecodeContact buf len =
     (let (magic, r) = run_state (rBytes TMSG_MAGIC_LEN) (rInit buf len) in
      if magic \<noteq> None \<and> magic \<noteq> Some TMSG_MAGIC then (-1, None)
      else
        let (m, r) = run_state (do {
          v \<leftarrow> rU8;
          f \<leftarrow> rU8;
          State_Monad.return \<lparr>tc_version = v, tc_flags = f\<rparr> }) r in
        if r_ok r then (int_of_size (r_off r), Some m) else (0, None))"

section \<open>\<open>SESS_INIT\<close>\<close>

definition tcpv4MsgEncodeSessInit :: "bytes \<Rightarrow> nat \<Rightarrow> Tcpv4SessInit \<Rightarrow> int \<times> bytes" where
  "tcpv4MsgEncodeSessInit buf cap m = encode_with (do {
     wU8 TMSG_SESS_INIT;
     wU16 (si_keepalive m);
     wU64 (si_segmentMru m);
     wU64 (si_transferMru m);
     wU16 (si_nodeIdLen m);
     wBytes (octets (si_nodeId m)) (unat (si_nodeIdLen m));
     wU32 (si_sessExtLen m);
     wBytes (octets (si_sessExt m)) (unat (si_sessExtLen m)) }) buf cap"

definition tcpv4MsgDecodeSessInit :: "bytes \<Rightarrow> nat \<Rightarrow> int \<times> Tcpv4SessInit option" where
  "tcpv4MsgDecodeSessInit = decode_typed TMSG_SESS_INIT (do {
     keepalive \<leftarrow> rU16;
     segmentMru \<leftarrow> rU64;
     transferMru \<leftarrow> rU64;
     nodeIdLen \<leftarrow> rU16;
     nodeId \<leftarrow> rBytes (unat nodeIdLen);
     sessExtLen \<leftarrow> rU32;
     sessExt \<leftarrow> rBytes (unat sessExtLen);
     State_Monad.return \<lparr>si_keepalive = keepalive, si_segmentMru = segmentMru,
       si_transferMru = transferMru, si_nodeId = nodeId, si_nodeIdLen = nodeIdLen,
       si_sessExt = sessExt, si_sessExtLen = sessExtLen\<rparr> })"

section \<open>\<open>XFER_SEGMENT\<close> (header only)\<close>

definition tcpv4MsgEncodeXferSegmentHdr :: "bytes \<Rightarrow> nat \<Rightarrow> Tcpv4XferSegment \<Rightarrow> int \<times> bytes" where
  "tcpv4MsgEncodeXferSegmentHdr buf cap m = encode_with (do {
     wU8 TMSG_XFER_SEGMENT;
     wU8 (xs_flags m);
     wU64 (xs_transferId m);
     (if xs_flags m AND TMSG_FLAG_START \<noteq> 0 then do {
        wU32 (xs_xferExtLen m);
        wBytes (octets (xs_xferExt m)) (unat (xs_xferExtLen m)) }
      else State_Monad.return ());
     wU64 (xs_dataLength m) }) buf cap"

definition tcpv4MsgDecodeXferSegmentHdr :: "bytes \<Rightarrow> nat \<Rightarrow> int \<times> Tcpv4XferSegment option" where
  "tcpv4MsgDecodeXferSegmentHdr = decode_typed TMSG_XFER_SEGMENT (do {
     flags \<leftarrow> rU8;
     transferId \<leftarrow> rU64;
     (xferExtLen, xferExt) \<leftarrow>
       (if flags AND TMSG_FLAG_START \<noteq> 0 then do {
          xferExtLen \<leftarrow> rU32;
          xferExt \<leftarrow> rBytes (unat xferExtLen);
          State_Monad.return (xferExtLen, xferExt) }
        else State_Monad.return (0, None));
     dataLength \<leftarrow> rU64;
     State_Monad.return \<lparr>xs_flags = flags, xs_transferId = transferId, xs_xferExt = xferExt,
       xs_xferExtLen = xferExtLen, xs_dataLength = dataLength\<rparr> })"

section \<open>\<open>XFER_ACK\<close>\<close>

definition tcpv4MsgEncodeXferAck :: "bytes \<Rightarrow> nat \<Rightarrow> Tcpv4XferAck \<Rightarrow> int \<times> bytes" where
  "tcpv4MsgEncodeXferAck buf cap m = encode_with (do {
     wU8 TMSG_XFER_ACK;
     wU8 (xa_flags m);
     wU64 (xa_transferId m);
     wU64 (xa_ackLength m) }) buf cap"

definition tcpv4MsgDecodeXferAck :: "bytes \<Rightarrow> nat \<Rightarrow> int \<times> Tcpv4XferAck option" where
  "tcpv4MsgDecodeXferAck = decode_typed TMSG_XFER_ACK (do {
     flags \<leftarrow> rU8;
     transferId \<leftarrow> rU64;
     ackLength \<leftarrow> rU64;
     State_Monad.return \<lparr>xa_flags = flags, xa_transferId = transferId, xa_ackLength = ackLength\<rparr> })"

section \<open>\<open>XFER_REFUSE\<close>\<close>

definition tcpv4MsgEncodeXferRefuse :: "bytes \<Rightarrow> nat \<Rightarrow> Tcpv4XferRefuse \<Rightarrow> int \<times> bytes" where
  "tcpv4MsgEncodeXferRefuse buf cap m = encode_with (do {
     wU8 TMSG_XFER_REFUSE;
     wU8 (xr_reason m);
     wU64 (xr_transferId m) }) buf cap"

definition tcpv4MsgDecodeXferRefuse :: "bytes \<Rightarrow> nat \<Rightarrow> int \<times> Tcpv4XferRefuse option" where
  "tcpv4MsgDecodeXferRefuse = decode_typed TMSG_XFER_REFUSE (do {
     reason \<leftarrow> rU8;
     transferId \<leftarrow> rU64;
     State_Monad.return \<lparr>xr_reason = reason, xr_transferId = transferId\<rparr> })"

section \<open>\<open>KEEPALIVE\<close>\<close>

definition tcpv4MsgEncodeKeepalive :: "bytes \<Rightarrow> nat \<Rightarrow> int \<times> bytes" where
  "tcpv4MsgEncodeKeepalive buf cap = encode_with (wU8 TMSG_KEEPALIVE) buf cap"

section \<open>\<open>SESS_TERM\<close>\<close>

definition tcpv4MsgEncodeSessTerm :: "bytes \<Rightarrow> nat \<Rightarrow> Tcpv4SessTerm \<Rightarrow> int \<times> bytes" where
  "tcpv4MsgEncodeSessTerm buf cap m = encode_with (do {
     wU8 TMSG_SESS_TERM;
     wU8 (st_flags m);
     wU8 (st_reason m) }) buf cap"

definition tcpv4MsgDecodeSessTerm :: "bytes \<Rightarrow> nat \<Rightarrow> int \<times> Tcpv4SessTerm option" where
  "tcpv4MsgDecodeSessTerm = decode_typed TMSG_SESS_TERM (do {
     flags \<leftarrow> rU8;
     reason \<leftarrow> rU8;
     State_Monad.return \<lparr>st_flags = flags, st_reason = reason\<rparr> })"

section \<open>\<open>MSG_REJECT\<close>\<close>

definition tcpv4MsgEncodeMsgReject :: "bytes \<Rightarrow> nat \<Rightarrow> Tcpv4MsgReject \<Rightarrow> int \<times> bytes" where
  "tcpv4MsgEncodeMsgReject buf cap m = encode_with (do {
     wU8 TMSG_MSG_REJECT;
     wU8 (mr_reason m);
     wU8 (mr_rejectedType m) }) buf cap"

definition tcpv4MsgDecodeMsgReject :: "bytes \<Rightarrow> nat \<Rightarrow> int \<times> Tcpv4MsgReject option" where
  "tcpv4MsgDecodeMsgReject = decode_typed TMSG_MSG_REJECT (do {
     reason \<leftarrow> rU8;
     rejectedType \<leftarrow> rU8;
     State_Monad.return \<lparr>mr_reason = reason, mr_rejectedType = rejectedType\<rparr> })"

section \<open>Extension items\<close>

definition tcpv4MsgEncodeXferLengthExt :: "bytes \<Rightarrow> nat \<Rightarrow> u64 \<Rightarrow> int \<times> bytes" where
  "tcpv4MsgEncodeXferLengthExt buf cap n = encode_with (do {
     wU8 0;
     wU16 TMSG_XFEREXT_LENGTH;
     wU16 8;
     wU64 n }) buf cap"

text \<open>
  The result is the C return value, the new \<open>*off\<close> and the item; the item is only there when
  one was decoded.
\<close>

definition tcpv4MsgNextExtItem :: "bytes \<Rightarrow> nat \<Rightarrow> nat \<Rightarrow> int \<times> nat \<times> Tcpv4ExtItem option" where
  "tcpv4MsgNextExtItem buf len off =
     (if off = len then (0, off, None)
      else
        let (item, r) = run_state (do {
          flags \<leftarrow> rU8;
          type \<leftarrow> rU16;
          length \<leftarrow> rU16;
          value \<leftarrow> rBytes (unat length);
          State_Monad.return \<lparr>xi_flags = flags, xi_type = type, xi_length = length, xi_value = value\<rparr> })
          ((rInit buf len)\<lparr>r_off := off\<rparr>) in
        if \<not> r_ok r then (-1, off, None) else (1, r_off r, Some item))"

text \<open>
  \<open>tcpv4MsgFindXferLength\<close>: the C return value and \<open>*length\<close>, which is only set when the
  return value is 1.  Every item takes at least five octets, so the walk ends; the recursion is
  on the octets that remain.
\<close>

lemma NextExtItem_advances:
  "tcpv4MsgNextExtItem buf len off = (1, off', it) \<Longrightarrow> off < off' \<and> off' \<le> len"
  by (auto simp: tcpv4MsgNextExtItem_def rBytes_def rU16_def rU8_def rInit_def Let_def
      split: if_splits prod.splits)

function find_from :: "bytes \<Rightarrow> nat \<Rightarrow> nat \<Rightarrow> int \<times> u64 option" where
  "find_from buf len off =
     (let (rc, off', item) = tcpv4MsgNextExtItem buf len off in
      if rc = 1 then
        (case item of
           None \<Rightarrow> (rc, None)
         | Some it \<Rightarrow>
             if xi_type it \<noteq> TMSG_XFEREXT_LENGTH \<or> xi_length it \<noteq> 8
             then find_from buf len off'
             else (1, Some (be_value (take 8 (octets (xi_value it))))))
      else (rc, None))"
  by pat_completeness auto
termination
proof (relation "measure (\<lambda>(buf, len, off). len - off)", goal_cases)
  case (2 buf len off x rc y off' item it)
  then have "tcpv4MsgNextExtItem buf len off = (1, off', Some it)" by (metis prod.collapse)
  from NextExtItem_advances[OF this] show ?case by (simp, arith)
qed simp

declare find_from.simps [simp del]

definition tcpv4MsgFindXferLength :: "bytes \<Rightarrow> nat \<Rightarrow> int \<times> u64 option" where
  "tcpv4MsgFindXferLength buf len = find_from buf len 0"

section \<open>The octet strings of the messages\<close>

definition wire_contact :: "Tcpv4Contact \<Rightarrow> bytes" where
  "wire_contact m = TMSG_MAGIC @ [tc_version m, tc_flags m]"

definition wire_sess_init :: "Tcpv4SessInit \<Rightarrow> bytes" where
  "wire_sess_init m = TMSG_SESS_INIT # be16 (si_keepalive m) @ be64 (si_segmentMru m) @
     be64 (si_transferMru m) @ be16 (si_nodeIdLen m) @ octets (si_nodeId m) @
     be32 (si_sessExtLen m) @ octets (si_sessExt m)"

definition valid_sess_init :: "Tcpv4SessInit \<Rightarrow> bool" where
  "valid_sess_init m \<longleftrightarrow>
     si_nodeId m \<noteq> None \<and> length (octets (si_nodeId m)) = unat (si_nodeIdLen m) \<and>
     si_sessExt m \<noteq> None \<and> length (octets (si_sessExt m)) = unat (si_sessExtLen m)"

definition wire_xfer_segment :: "Tcpv4XferSegment \<Rightarrow> bytes" where
  "wire_xfer_segment m = TMSG_XFER_SEGMENT # [xs_flags m] @ be64 (xs_transferId m) @
     (if xs_flags m AND TMSG_FLAG_START \<noteq> 0
      then be32 (xs_xferExtLen m) @ octets (xs_xferExt m) else []) @
     be64 (xs_dataLength m)"

text \<open>The extension list is present exactly on a START segment; else both fields are zero.\<close>

definition valid_xfer_segment :: "Tcpv4XferSegment \<Rightarrow> bool" where
  "valid_xfer_segment m \<longleftrightarrow>
     (if xs_flags m AND TMSG_FLAG_START \<noteq> 0
      then xs_xferExt m \<noteq> None \<and> length (octets (xs_xferExt m)) = unat (xs_xferExtLen m)
      else xs_xferExt m = None \<and> xs_xferExtLen m = 0)"

definition wire_xfer_ack :: "Tcpv4XferAck \<Rightarrow> bytes" where
  "wire_xfer_ack m = TMSG_XFER_ACK # [xa_flags m] @ be64 (xa_transferId m) @ be64 (xa_ackLength m)"

definition wire_xfer_refuse :: "Tcpv4XferRefuse \<Rightarrow> bytes" where
  "wire_xfer_refuse m = TMSG_XFER_REFUSE # [xr_reason m] @ be64 (xr_transferId m)"

definition wire_sess_term :: "Tcpv4SessTerm \<Rightarrow> bytes" where
  "wire_sess_term m = [TMSG_SESS_TERM, st_flags m, st_reason m]"

definition wire_msg_reject :: "Tcpv4MsgReject \<Rightarrow> bytes" where
  "wire_msg_reject m = [TMSG_MSG_REJECT, mr_reason m, mr_rejectedType m]"

definition wire_ext_item :: "Tcpv4ExtItem \<Rightarrow> bytes" where
  "wire_ext_item it = [xi_flags it] @ be16 (xi_type it) @ be16 (xi_length it) @ octets (xi_value it)"

definition valid_ext_item :: "Tcpv4ExtItem \<Rightarrow> bool" where
  "valid_ext_item it \<longleftrightarrow> xi_value it \<noteq> None \<and> length (octets (xi_value it)) = unat (xi_length it)"

section \<open>What the encoders write\<close>

named_theorems encoder_defs \<open>the encoders and what they write\<close>

declare
  tcpv4MsgEncodeContact_def [encoder_defs] wire_contact_def [encoder_defs]
  tcpv4MsgEncodeSessInit_def [encoder_defs] wire_sess_init_def [encoder_defs]
  tcpv4MsgEncodeXferSegmentHdr_def [encoder_defs] wire_xfer_segment_def [encoder_defs]
  tcpv4MsgEncodeXferAck_def [encoder_defs] wire_xfer_ack_def [encoder_defs]
  tcpv4MsgEncodeXferRefuse_def [encoder_defs] wire_xfer_refuse_def [encoder_defs]
  tcpv4MsgEncodeKeepalive_def [encoder_defs]
  tcpv4MsgEncodeSessTerm_def [encoder_defs] wire_sess_term_def [encoder_defs]
  tcpv4MsgEncodeMsgReject_def [encoder_defs] wire_msg_reject_def [encoder_defs]
  tcpv4MsgEncodeXferLengthExt_def [encoder_defs] wire_ext_item_def [encoder_defs]

lemma encoded_contact:
  "cap \<le> length buf \<Longrightarrow> encoded (tcpv4MsgEncodeContact buf cap m) buf cap (wire_contact m)"
  unfolding encoder_defs
  by (rule encode_with_encoded, (rule emits_intro | simp add: TMSG_MAGIC_def TMSG_MAGIC_LEN_def)+)

lemma encoded_sess_init:
  "valid_sess_init m \<Longrightarrow> cap \<le> length buf \<Longrightarrow>
     encoded (tcpv4MsgEncodeSessInit buf cap m) buf cap (wire_sess_init m)"
  unfolding encoder_defs
  by (rule encode_with_encoded, (rule emits_intro | simp add: valid_sess_init_def)+)

lemma encoded_xfer_segment:
  "valid_xfer_segment m \<Longrightarrow> cap \<le> length buf \<Longrightarrow>
     encoded (tcpv4MsgEncodeXferSegmentHdr buf cap m) buf cap (wire_xfer_segment m)"
  unfolding encoder_defs
  by (rule encode_with_encoded, (rule emits_intro | simp add: valid_xfer_segment_def)+)

lemma encoded_xfer_ack:
  "cap \<le> length buf \<Longrightarrow> encoded (tcpv4MsgEncodeXferAck buf cap m) buf cap (wire_xfer_ack m)"
  unfolding encoder_defs by (rule encode_with_encoded, (rule emits_intro | simp)+)

lemma encoded_xfer_refuse:
  "cap \<le> length buf \<Longrightarrow> encoded (tcpv4MsgEncodeXferRefuse buf cap m) buf cap (wire_xfer_refuse m)"
  unfolding encoder_defs by (rule encode_with_encoded, (rule emits_intro | simp)+)

lemma encoded_keepalive:
  "cap \<le> length buf \<Longrightarrow> encoded (tcpv4MsgEncodeKeepalive buf cap) buf cap [TMSG_KEEPALIVE]"
  unfolding encoder_defs by (rule encode_with_encoded, (rule emits_intro | simp)+)

lemma encoded_sess_term:
  "cap \<le> length buf \<Longrightarrow> encoded (tcpv4MsgEncodeSessTerm buf cap m) buf cap (wire_sess_term m)"
  unfolding encoder_defs by (rule encode_with_encoded, (rule emits_intro | simp)+)

lemma encoded_msg_reject:
  "cap \<le> length buf \<Longrightarrow> encoded (tcpv4MsgEncodeMsgReject buf cap m) buf cap (wire_msg_reject m)"
  unfolding encoder_defs by (rule encode_with_encoded, (rule emits_intro | simp)+)

text \<open>The Transfer Length item is an extension item whose value is the big-endian length.\<close>

definition xfer_length_item :: "u64 \<Rightarrow> Tcpv4ExtItem" where
  "xfer_length_item n = \<lparr>xi_flags = 0, xi_type = TMSG_XFEREXT_LENGTH, xi_length = 8,
     xi_value = Some (be64 n)\<rparr>"

lemma encoded_xfer_length:
  "cap \<le> length buf \<Longrightarrow>
     encoded (tcpv4MsgEncodeXferLengthExt buf cap n) buf cap (wire_ext_item (xfer_length_item n))"
  unfolding encoder_defs xfer_length_item_def
  by (rule encode_with_encoded, (rule emits_intro | simp)+)

section \<open>The codecs\<close>

text \<open>
  Each interpretation proves the laws of \<open>wire_codec\<close> for one message: its encoder writes the
  octet string, and its decoder recognises it, waits for it, and accepts nothing else.
\<close>

interpretation sess_init: wire_codec wire_sess_init tcpv4MsgDecodeSessInit valid_sess_init tcpv4MsgEncodeSessInit
proof (intro wire_codec.intro wire_codec_axioms.intro)
  show "wire_format wire_sess_init tcpv4MsgDecodeSessInit valid_sess_init"
    unfolding tcpv4MsgDecodeSessInit_def
    by (rule wire_format_typed[where tail = "\<lambda>m. be16 (si_keepalive m) @ be64 (si_segmentMru m) @
          be64 (si_transferMru m) @ be16 (si_nodeIdLen m) @ octets (si_nodeId m) @
          be32 (si_sessExtLen m) @ octets (si_sessExt m) @ []"],
        simp add: tmsg_types, simp add: wire_sess_init_def,
        rule parses_value, (rule parses_intro sticky_intro | simp add: valid_sess_init_def)+,
        (auto simp: valid_sess_init_def)[1], (rule yields_intro)+, (auto simp: valid_sess_init_def)[1],
        (rule sticky_intro)+)
qed (rule encoded_sess_init)

interpretation xfer_segment: wire_codec wire_xfer_segment tcpv4MsgDecodeXferSegmentHdr valid_xfer_segment tcpv4MsgEncodeXferSegmentHdr
proof (intro wire_codec.intro wire_codec_axioms.intro)
  show "wire_format wire_xfer_segment tcpv4MsgDecodeXferSegmentHdr valid_xfer_segment"
    unfolding tcpv4MsgDecodeXferSegmentHdr_def
    by (rule wire_format_typed[where tail = "\<lambda>m. [xs_flags m] @ be64 (xs_transferId m) @
          (if xs_flags m AND TMSG_FLAG_START \<noteq> 0
           then be32 (xs_xferExtLen m) @ octets (xs_xferExt m) @ [] else []) @
          be64 (xs_dataLength m) @ []"],
        simp add: tmsg_types, simp add: wire_xfer_segment_def,
        rule parses_value, (rule parses_intro sticky_intro | simp add: valid_xfer_segment_def)+,
        (auto simp: valid_xfer_segment_def)[1], (rule yields_intro)+, (auto simp: valid_xfer_segment_def)[1],
        (rule sticky_intro)+)
qed (rule encoded_xfer_segment)

interpretation xfer_ack: wire_codec wire_xfer_ack tcpv4MsgDecodeXferAck
  "\<lambda>_. True" tcpv4MsgEncodeXferAck
proof (intro wire_codec.intro wire_codec_axioms.intro)
  show "wire_format wire_xfer_ack tcpv4MsgDecodeXferAck (\<lambda>_. True)"
    unfolding tcpv4MsgDecodeXferAck_def
    by (rule wire_format_typed[where tail = "\<lambda>m. [xa_flags m] @ be64 (xa_transferId m) @
          be64 (xa_ackLength m) @ []"],
        simp add: tmsg_types, simp add: wire_xfer_ack_def,
        rule parses_value, (rule parses_intro sticky_intro | simp)+,
        (rule yields_intro)+, (auto)[1],
        (rule sticky_intro)+)
qed (rule encoded_xfer_ack)

interpretation xfer_refuse: wire_codec wire_xfer_refuse tcpv4MsgDecodeXferRefuse
  "\<lambda>_. True" tcpv4MsgEncodeXferRefuse
proof (intro wire_codec.intro wire_codec_axioms.intro)
  show "wire_format wire_xfer_refuse tcpv4MsgDecodeXferRefuse (\<lambda>_. True)"
    unfolding tcpv4MsgDecodeXferRefuse_def
    by (rule wire_format_typed[where tail = "\<lambda>m. [xr_reason m] @ be64 (xr_transferId m) @ []"],
        simp add: tmsg_types, simp add: wire_xfer_refuse_def,
        rule parses_value, (rule parses_intro sticky_intro | simp)+,
        (rule yields_intro)+, (auto)[1],
        (rule sticky_intro)+)
qed (rule encoded_xfer_refuse)

interpretation sess_term: wire_codec wire_sess_term tcpv4MsgDecodeSessTerm
  "\<lambda>_. True" tcpv4MsgEncodeSessTerm
proof (intro wire_codec.intro wire_codec_axioms.intro)
  show "wire_format wire_sess_term tcpv4MsgDecodeSessTerm (\<lambda>_. True)"
    unfolding tcpv4MsgDecodeSessTerm_def
    by (rule wire_format_typed[where tail = "\<lambda>m. [st_flags m] @ [st_reason m] @ []"],
        simp add: tmsg_types, simp add: wire_sess_term_def,
        rule parses_value, (rule parses_intro sticky_intro | simp)+,
        (rule yields_intro)+, (auto)[1],
        (rule sticky_intro)+)
qed (rule encoded_sess_term)

interpretation msg_reject: wire_codec wire_msg_reject tcpv4MsgDecodeMsgReject
  "\<lambda>_. True" tcpv4MsgEncodeMsgReject
proof (intro wire_codec.intro wire_codec_axioms.intro)
  show "wire_format wire_msg_reject tcpv4MsgDecodeMsgReject (\<lambda>_. True)"
    unfolding tcpv4MsgDecodeMsgReject_def
    by (rule wire_format_typed[where tail = "\<lambda>m. [mr_reason m] @ [mr_rejectedType m] @ []"],
        simp add: tmsg_types, simp add: wire_msg_reject_def,
        rule parses_value, (rule parses_intro sticky_intro | simp)+,
        (rule yields_intro)+, (auto)[1],
        (rule sticky_intro)+)
qed (rule encoded_msg_reject)

section \<open>The contact header\<close>

text \<open>The contact header has no type octet; its decoder in closed form.\<close>

lemma decode_contact_eq:
  "tcpv4MsgDecodeContact buf (length buf) =
     (if 4 \<le> length buf \<and> take 4 buf \<noteq> TMSG_MAGIC then (-1, None)
      else if length buf < 6 then (0, None)
      else (6, Some \<lparr>tc_version = buf ! 4, tc_flags = buf ! 5\<rparr>))"
  by (simp add: tcpv4MsgDecodeContact_def rBytes_def rU8_def rInit_def TMSG_MAGIC_LEN_def)

lemma decode_contact_bounded:
  assumes "len \<le> length buf"
  shows "tcpv4MsgDecodeContact buf len = tcpv4MsgDecodeContact (take len buf) len"
  using assms
  by (auto simp: tcpv4MsgDecodeContact_def rBytes_def rU8_def rInit_def TMSG_MAGIC_LEN_def)

lemma contact_split:
  assumes "6 \<le> length buf" "take 4 buf = TMSG_MAGIC"
  shows "buf = (TMSG_MAGIC @ [buf ! 4, buf ! 5]) @ drop 6 buf"
proof -
  have "drop 4 buf = buf ! 4 # buf ! 5 # drop 6 buf"
    using assms(1) by (simp add: Cons_nth_drop_Suc eval_nat_numeral)
  then show ?thesis using assms(2) append_take_drop_id[of 4 buf] by simp
qed

interpretation contact: wire_codec wire_contact tcpv4MsgDecodeContact "\<lambda>_. True" tcpv4MsgEncodeContact
proof (unfold_locales, goal_cases)
  case (1 m buf rest)
  then have "buf = [0x64, 0x74, 0x6e, 0x21, tc_version m, tc_flags m] @ rest"
    by (simp add: wire_contact_def TMSG_MAGIC_def)
  then show ?case
    by (subst decode_contact_eq) (simp add: wire_contact_def TMSG_MAGIC_def)
next
  case (2 m buf lack)
  have "6 = length buf + length lack"
    using arg_cong[OF 2(2), of length] by (simp add: wire_contact_def TMSG_MAGIC_def)
  then have len: "length buf < 6" using 2(3) by (cases lack) simp_all
  have "take 4 buf = TMSG_MAGIC" if "4 \<le> length buf"
    using that arg_cong[OF 2(2), of "take 4"] by (simp add: wire_contact_def TMSG_MAGIC_def)
  with len show ?case by (simp add: decode_contact_eq)
next
  case (3 buf k m)
  then have "6 \<le> length buf" "take 4 buf = TMSG_MAGIC" "k = 6"
    "m = \<lparr>tc_version = buf ! 4, tc_flags = buf ! 5\<rparr>"
    by (auto simp: decode_contact_eq not_less split: if_splits)
  then show ?case using contact_split[of buf]
    by (auto simp: wire_contact_def TMSG_MAGIC_def)
next
  case (4 len buf)
  then show ?case by (rule decode_contact_bounded)
next
  case (5 m cap buf)
  then show ?case by (simp add: encoded_contact)
qed

section \<open>Extension item lists\<close>

definition ext_item_reader :: "(reader, Tcpv4ExtItem) state" where
  "ext_item_reader = do {
     flags \<leftarrow> rU8;
     type \<leftarrow> rU16;
     length \<leftarrow> rU16;
     value \<leftarrow> rBytes (unat length);
     State_Monad.return \<lparr>xi_flags = flags, xi_type = type, xi_length = length, xi_value = value\<rparr> }"

lemma parses_ext_item: "valid_ext_item it \<Longrightarrow> parses ext_item_reader (wire_ext_item it) it"
proof -
  assume v: "valid_ext_item it"
  have "parses ext_item_reader
          ([xi_flags it] @ be16 (xi_type it) @ be16 (xi_length it) @ octets (xi_value it) @ []) it"
    unfolding ext_item_reader_def
    by (rule parses_value, (rule parses_intro sticky_intro | simp add: v[unfolded valid_ext_item_def])+)
      (use v in \<open>auto simp: valid_ext_item_def\<close>)
  then show ?thesis by (simp add: wire_ext_item_def)
qed

lemma yields_ext_item: "yields ext_item_reader (\<lambda>it bs. valid_ext_item it \<and> bs = wire_ext_item it)"
  unfolding ext_item_reader_def
  by (rule yields_weaken, (rule yields_intro)+)
    (auto simp: valid_ext_item_def wire_ext_item_def)

lemma wire_ext_item_nonempty [simp]: "wire_ext_item it \<noteq> []"
  by (simp add: wire_ext_item_def)

lemma NextExtItem_eq:
  "tcpv4MsgNextExtItem buf len off =
     (if off = len then (0, off, None)
      else let (item, r) = run_state ext_item_reader (advance off (rInit buf len)) in
        if \<not> r_ok r then (-1, off, None) else (1, r_off r, Some item))"
  by (simp add: tcpv4MsgNextExtItem_def ext_item_reader_def advance_def rInit_def)

lemma NextExtItem_item:
  assumes "valid_ext_item it" and buf: "buf = pre @ wire_ext_item it @ post"
  shows "tcpv4MsgNextExtItem buf (length buf) (length pre) =
           (1, length pre + length (wire_ext_item it), Some it)"
proof -
  have "r_wf (advance (length pre) (rInit buf (length buf)))"
    using buf by (simp add: wf_advance)
  then have "run_state ext_item_reader (advance (length pre) (rInit buf (length buf))) =
      (it, advance (length pre + length (wire_ext_item it)) (rInit buf (length buf)))"
    using parses_ext_item[OF assms(1)] buf by (simp add: parses_def)
  then show ?thesis using buf by (simp add: NextExtItem_eq)
qed

lemma NextExtItem_sound:
  assumes "tcpv4MsgNextExtItem buf (length buf) off = (1, off', Some it)" "off \<le> length buf"
  shows "valid_ext_item it \<and> off' \<le> length buf \<and> drop off buf = wire_ext_item it @ drop off' buf"
proof -
  let ?r = "advance off (rInit buf (length buf))"
  obtain r2 where r2: "run_state ext_item_reader ?r = (it, r2)" "r_ok r2" "off' = r_off r2"
    using assms(1) by (auto simp: NextExtItem_eq split: if_splits prod.splits)
  have "r_wf ?r" using assms(2) by (simp add: wf_advance)
  from yieldsD[OF yields_ext_item this r2(1,2)]
  have v: "valid_ext_item it" and av: "avail ?r = wire_ext_item it @ avail r2"
    and off: "r_off r2 = off + length (wire_ext_item it)" and "r_wf r2"
    by auto
  have "drop off buf = wire_ext_item it @ avail r2" using av by simp
  moreover from this have "avail r2 = drop (length (wire_ext_item it)) (drop off buf)" by simp
  then have "avail r2 = drop off' buf" using off r2(3) by (simp add: add.commute)
  moreover have "off' \<le> length buf"
  proof -
    have "length (wire_ext_item it) \<le> length (drop off buf)"
      using calculation(1) by simp
    then show ?thesis using off r2(3) assms(2) by simp
  qed
  ultimately show ?thesis using v by simp
qed

lemma NextExtItem_rc: "tcpv4MsgNextExtItem buf len off = (rc, off', it) \<Longrightarrow>
   (rc = 1 \<and> it \<noteq> None) \<or> (rc = 0 \<and> off = len \<and> it = None) \<or> (rc = -1 \<and> it = None)"
  by (auto simp: NextExtItem_eq split: if_splits prod.splits)

text \<open>A list of items, the item \<open>tcpv4MsgFindXferLength\<close> looks for, and its search over the list.\<close>

definition wire_ext_list :: "Tcpv4ExtItem list \<Rightarrow> bytes" where
  "wire_ext_list its = concat (map wire_ext_item its)"

definition is_xfer_length :: "Tcpv4ExtItem \<Rightarrow> bool" where
  "is_xfer_length it \<longleftrightarrow> xi_type it = TMSG_XFEREXT_LENGTH \<and> xi_length it = 8"

definition xfer_length_of :: "Tcpv4ExtItem list \<Rightarrow> int \<times> u64 option" where
  "xfer_length_of its =
     (case List.find is_xfer_length its of
        None \<Rightarrow> (0, None)
      | Some it \<Rightarrow> (1, Some (be_value (octets (xi_value it)))))"

lemma find_from_items:
  assumes "list_all valid_ext_item its" "buf = pre @ wire_ext_list its"
  shows "find_from buf (length buf) (length pre) = xfer_length_of its"
  using assms
proof (induction its arbitrary: pre)
  case Nil
  then show ?case
    by (subst find_from.simps) (simp add: NextExtItem_eq wire_ext_list_def xfer_length_of_def)
next
  case (Cons it its)
  have v: "valid_ext_item it" "list_all valid_ext_item its" using Cons.prems by simp_all
  have buf: "buf = pre @ wire_ext_item it @ wire_ext_list its"
    using Cons.prems(2) by (simp add: wire_ext_list_def)
  have nxt: "tcpv4MsgNextExtItem buf (length buf) (length pre) =
      (1, length (pre @ wire_ext_item it), Some it)"
    using NextExtItem_item[OF v(1) buf] by simp
  have rest: "find_from buf (length buf) (length (pre @ wire_ext_item it)) = xfer_length_of its"
    by (rule Cons.IH[OF v(2)]) (simp add: buf)
  show ?case
    using nxt rest v(1)
    by (subst find_from.simps)
      (auto simp: xfer_length_of_def is_xfer_length_def valid_ext_item_def)
qed

lemma find_from_zero:
  assumes "find_from buf (length buf) off = (0, x)" "off \<le> length buf"
  shows "\<exists>its. list_all valid_ext_item its \<and> drop off buf = wire_ext_list its"
  using assms
proof (induction "length buf - off" arbitrary: off rule: less_induct)
  case less
  note 1 = less.prems
  obtain rc off' it where n: "tcpv4MsgNextExtItem buf (length buf) off = (rc, off', it)"
    by (metis prod_cases3)
  show ?case
  proof (cases "rc = 1")
    case False
    then have "rc = 0" using 1(1) n by (simp add: find_from.simps[of buf "length buf" off])
    then show ?thesis using NextExtItem_rc[OF n] by (auto simp: wire_ext_list_def intro: exI[of _ "[]"])
  next
    case True
    then obtain i where i: "it = Some i" using NextExtItem_rc[OF n] by auto
    have s: "valid_ext_item i" "off' \<le> length buf" "drop off buf = wire_ext_item i @ drop off' buf"
      using NextExtItem_sound n i True 1(2) by blast+
    have "find_from buf (length buf) off' = (0, x)"
      using 1(1) n i True by (auto simp: find_from.simps[of buf "length buf" off] split: if_splits)
    moreover have "xi_type i \<noteq> TMSG_XFEREXT_LENGTH \<or> xi_length i \<noteq> 8"
      using 1(1) n i True by (auto simp: find_from.simps[of buf "length buf" off])
    ultimately obtain its where "list_all valid_ext_item its" "drop off' buf = wire_ext_list its"
      using less.hyps[OF _ _ s(2)] NextExtItem_advances[of buf "length buf" off off' it] n True
      by (metis diff_less_mono2 less_le_trans)
    then show ?thesis using s by (intro exI[of _ "i # its"]) (simp add: wire_ext_list_def)
  qed
qed

section \<open>Properties\<close>

text \<open>A SESS_INIT whose length fields describe its node ID and extension list, encoded into a
  buffer with room for it, is decoded from that buffer to the same message, consuming exactly the
  octets the encoder reported, whatever the buffer held before.\<close>

theorem sess_init_round_trip:
  assumes "valid_sess_init m" "length (wire_sess_init m) \<le> cap" "cap \<le> length buf" "cap < 2 ^ 31"
    and "tcpv4MsgEncodeSessInit buf cap m = (k, out)"
  shows "k = int (length (wire_sess_init m)) \<and> take (nat k) out = wire_sess_init m \<and>
     tcpv4MsgDecodeSessInit out cap = (k, Some m)"
  using assms by (rule sess_init.dec_enc)

lemma sess_init_round_trip_witness:
  "let m = \<lparr>si_keepalive = 15, si_segmentMru = 65536, si_transferMru = 2 ^ 40,
            si_nodeId = Some (ascii ''ipn:5.0''), si_nodeIdLen = 7,
            si_sessExt = Some [], si_sessExtLen = 0\<rparr>;
       (k, out) = tcpv4MsgEncodeSessInit (replicate 64 0xff) 64 m
   in k = 32 \<and> tcpv4MsgDecodeSessInit out 64 = (32, Some m)"
proof -
  let ?m = "\<lparr>si_keepalive = 15, si_segmentMru = 65536, si_transferMru = 2 ^ 40,
            si_nodeId = Some (ascii ''ipn:5.0''), si_nodeIdLen = 7,
            si_sessExt = Some [], si_sessExtLen = 0\<rparr>"
  obtain k out where e: "tcpv4MsgEncodeSessInit (replicate 64 0xff) 64 ?m = (k, out)" by fastforce
  have "valid_sess_init ?m" by (simp add: valid_sess_init_def)
  moreover have l: "length (wire_sess_init ?m) = 32" by (simp add: wire_sess_init_def)
  ultimately show ?thesis using sess_init_round_trip[OF _ _ _ _ e] e by (simp add: Let_def)
qed

text \<open>An XFER_SEGMENT header survives encoding and decoding, with the extension list present
  exactly when the START flag is set.\<close>

theorem xfer_segment_round_trip:
  assumes "valid_xfer_segment m" "length (wire_xfer_segment m) \<le> cap" "cap \<le> length buf" "cap < 2 ^ 31"
    and "tcpv4MsgEncodeXferSegmentHdr buf cap m = (k, out)"
  shows "k = int (length (wire_xfer_segment m)) \<and> take (nat k) out = wire_xfer_segment m \<and>
     tcpv4MsgDecodeXferSegmentHdr out cap = (k, Some m)"
  using assms by (rule xfer_segment.dec_enc)

lemma xfer_segment_round_trip_witness:
  "let m = \<lparr>xs_flags = 3, xs_transferId = 9, xs_xferExt = Some (wire_ext_item (xfer_length_item 700)),
            xs_xferExtLen = 13, xs_dataLength = 700\<rparr>;
       (k, out) = tcpv4MsgEncodeXferSegmentHdr (replicate 40 0) 40 m
   in k = 35 \<and> tcpv4MsgDecodeXferSegmentHdr out 40 = (35, Some m)"
proof -
  let ?m = "\<lparr>xs_flags = 3, xs_transferId = 9, xs_xferExt = Some (wire_ext_item (xfer_length_item 700)),
            xs_xferExtLen = 13, xs_dataLength = 700\<rparr>"
  obtain k out where e: "tcpv4MsgEncodeXferSegmentHdr (replicate 40 0) 40 ?m = (k, out)" by fastforce
  have "valid_xfer_segment ?m"
    by (simp add: valid_xfer_segment_def TMSG_FLAG_START_def wire_ext_item_def xfer_length_item_def)
  moreover have "length (wire_xfer_segment ?m) = 35"
    by (simp add: wire_xfer_segment_def TMSG_FLAG_START_def wire_ext_item_def xfer_length_item_def)
  ultimately show ?thesis using xfer_segment_round_trip[OF _ _ _ _ e] e by (simp add: Let_def)
qed

text \<open>Reading a SESS_INIT off a TCP stream.  With the first \<open>n\<close> octets of a message and
  whatever follows it, the decoder asks for more (0) as long as one octet of the message is
  missing and from then on reports the message and its length, never an error and never a
  message that ends elsewhere.\<close>

theorem sess_init_incremental:
  assumes "valid_sess_init m" "length (wire_sess_init m) < 2 ^ 31"
    "n \<le> length (wire_sess_init m @ rest)"
  shows "tcpv4MsgDecodeSessInit (wire_sess_init m @ rest) n =
     (if n < length (wire_sess_init m) then (0, None)
      else (int (length (wire_sess_init m)), Some m))"
  using assms by (rule sess_init.dec_prefix)

lemma sess_init_incremental_witness:
  "let m = \<lparr>si_keepalive = 0, si_segmentMru = 1, si_transferMru = 2, si_nodeId = Some [],
            si_nodeIdLen = 0, si_sessExt = Some [7], si_sessExtLen = 1\<rparr>
   in tcpv4MsgDecodeSessInit (wire_sess_init m @ [1, 2]) 25 = (0, None) \<and>
      tcpv4MsgDecodeSessInit (wire_sess_init m @ [1, 2]) 26 = (26, Some m)"
proof -
  let ?m = "\<lparr>si_keepalive = 0, si_segmentMru = 1, si_transferMru = 2, si_nodeId = Some [],
            si_nodeIdLen = 0, si_sessExt = Some [7], si_sessExtLen = 1\<rparr>"
  have "valid_sess_init ?m" by (simp add: valid_sess_init_def)
  moreover have "length (wire_sess_init ?m) = 26" by (simp add: wire_sess_init_def)
  ultimately show ?thesis
    using sess_init_incremental[of ?m 25 "[1, 2]"] sess_init_incremental[of ?m 26 "[1, 2]"]
    by (simp add: Let_def)
qed

text \<open>The XFER_SEGMENT decoder accepts nothing else: it reports a header exactly when the
  buffer starts with the encoding of a well-formed one, and consumes exactly that.\<close>

theorem xfer_segment_decode_exact:
  assumes "length buf < 2 ^ 31"
  shows "tcpv4MsgDecodeXferSegmentHdr buf (length buf) = (k, Some m) \<longleftrightarrow>
     valid_xfer_segment m \<and> k = int (length (wire_xfer_segment m)) \<and>
     (\<exists>rest. buf = wire_xfer_segment m @ rest)"
  using assms by (rule xfer_segment.dec_iff)

lemma xfer_segment_decode_exact_witness:
  "let m = \<lparr>xs_flags = 1, xs_transferId = 2, xs_xferExt = None, xs_xferExtLen = 0, xs_dataLength = 3\<rparr>
   in tcpv4MsgDecodeXferSegmentHdr (wire_xfer_segment m @ [9]) 19 = (18, Some m)"
proof -
  let ?m = "\<lparr>xs_flags = 1, xs_transferId = 2, xs_xferExt = None, xs_xferExtLen = 0, xs_dataLength = 3\<rparr>"
  have "valid_xfer_segment ?m" by (simp add: valid_xfer_segment_def TMSG_FLAG_START_def)
  moreover have "length (wire_xfer_segment ?m) = 18"
    by (simp add: wire_xfer_segment_def TMSG_FLAG_START_def)
  ultimately show ?thesis
    using xfer_segment_decode_exact[of "wire_xfer_segment ?m @ [9]" 18 ?m] by (simp add: Let_def)
qed

text \<open>The search for the Transfer Length item of a well-formed extension list finds the value
  of its first item of that type and length, and reports absence when there is none; conversely
  it reports absence only for a list that is well-formed to its last octet.\<close>

theorem find_xfer_length:
  "(list_all valid_ext_item its \<longrightarrow>
      tcpv4MsgFindXferLength (wire_ext_list its) (length (wire_ext_list its)) = xfer_length_of its) \<and>
   (tcpv4MsgFindXferLength buf (length buf) = (0, x) \<longrightarrow>
      (\<exists>its. list_all valid_ext_item its \<and> buf = wire_ext_list its))"
  using find_from_items[of its "wire_ext_list its" "[]"] find_from_zero[of buf 0 x]
  by (simp add: tcpv4MsgFindXferLength_def)

lemma find_xfer_length_witness:
  "tcpv4MsgFindXferLength (wire_ext_list [\<lparr>xi_flags = 1, xi_type = 5, xi_length = 2, xi_value = Some [8, 9]\<rparr>,
       xfer_length_item 4096]) 20 = (1, Some 4096)"
  using find_xfer_length[THEN conjunct1, of "[\<lparr>xi_flags = 1, xi_type = 5, xi_length = 2,
       xi_value = Some [8, 9]\<rparr>, xfer_length_item 4096]"]
  by (simp add: valid_ext_item_def xfer_length_item_def wire_ext_list_def wire_ext_item_def
      xfer_length_of_def is_xfer_length_def TMSG_XFEREXT_LENGTH_def)

text \<open>An encoder never writes outside the capacity it was given, and when the message does not
  fit it says so.\<close>

theorem sess_init_encode_bounded:
  assumes "valid_sess_init m" "cap \<le> length buf" "tcpv4MsgEncodeSessInit buf cap m = (k, out)"
  shows "length out = length buf \<and> drop cap out = drop cap buf \<and>
     (k = -1 \<or> k = int_of_size (length (wire_sess_init m))) \<and>
     (length (wire_sess_init m) > cap \<longrightarrow> k = -1)"
  using encoded_sess_init[OF assms(1,2)] assms(3) by (auto simp: encoded_def)

lemma sess_init_encode_bounded_witness:
  "let m = \<lparr>si_keepalive = 15, si_segmentMru = 1, si_transferMru = 1, si_nodeId = Some [1, 2, 3],
            si_nodeIdLen = 3, si_sessExt = Some [], si_sessExtLen = 0\<rparr>
   in fst (tcpv4MsgEncodeSessInit (replicate 30 5) 24 m) = -1 \<and>
      drop 24 (snd (tcpv4MsgEncodeSessInit (replicate 30 5) 24 m)) = replicate 6 5"
proof -
  let ?m = "\<lparr>si_keepalive = 15, si_segmentMru = 1, si_transferMru = 1, si_nodeId = Some [1, 2, 3],
            si_nodeIdLen = 3, si_sessExt = Some [], si_sessExtLen = 0\<rparr>"
  have "valid_sess_init ?m" by (simp add: valid_sess_init_def)
  moreover have "length (wire_sess_init ?m) = 28" by (simp add: wire_sess_init_def)
  ultimately show ?thesis
    using sess_init_encode_bounded[of ?m 24 "replicate 30 5" _ _, OF _ _ prod.collapse[symmetric]]
    by (simp add: Let_def)
qed

end
