(* ===== verification/Tcpv4Io.thy ===== *)
theory Tcpv4Io
  imports Tcpv4Msg
begin

unbundle bit_operations_syntax

text \<open>
  The octets of a TCPCLv4 session (CLA/tcpv4/src/tcpv4io.c): reading a message a field at a time,
  through the read-ahead buffer of an established session or without it, writing a message as one
  unit, the gathered write of a run of segments with its partial writes, the short messages, and
  the names of the log.

  Sockets, TLS and the allocator are the functions of a record \<open>Io\<close> over a state \<open>'w\<close> of the
  world, what those functions do is a hypothesis (\<open>stream_io\<close>, \<open>gather_io\<close>), and \<open>pipe_io\<close> is a pair
  of octet streams that meets it.  \<open>sendMutex\<close> makes a whole message one step of the world, so it
  has no counterpart.  The length arguments are non-negative \<open>int\<close>s in the code and \<open>nat\<close>s here.

  The lemmas show that reads through the buffer are reads of the stream, and that a gathered write
  that succeeds has written every octet once and in order.
\<close>

section \<open>Model: the outside\<close>

datatype Errno = EINTR | EBADF | ECONNRESET | EOTHER

text \<open>
  \<open>io_itcpRecv\<close> and \<open>io_itcpSend\<close> are given the descriptor by reference and may change it.  A
  receiving function answers its result and the octets it stored.
\<close>

record 'w Io =
  io_tlsRecv :: "'w \<Rightarrow> nat \<Rightarrow> int \<times> bytes \<times> 'w"
  io_itcpRecv :: "'w \<Rightarrow> int \<Rightarrow> nat \<Rightarrow> int \<times> bytes \<times> int \<times> 'w"
  io_irecv :: "'w \<Rightarrow> int \<Rightarrow> nat \<Rightarrow> int \<times> bytes \<times> Errno \<times> 'w"
  io_tlsSend :: "'w \<Rightarrow> bytes \<Rightarrow> int \<times> 'w"
  io_itcpSend :: "'w \<Rightarrow> int \<Rightarrow> bytes \<Rightarrow> int \<times> int \<times> 'w"
  io_tlsCork :: "'w \<Rightarrow> 'w"
  io_tlsUncork :: "'w \<Rightarrow> int \<times> 'w"
  io_writev :: "'w \<Rightarrow> int \<Rightarrow> bytes list \<Rightarrow> int \<times> Errno \<times> 'w"
  io_mtake :: "'w \<Rightarrow> nat \<Rightarrow> bool \<times> 'w"
  io_shutdown :: "'w \<Rightarrow> int \<Rightarrow> 'w"

text \<open>The fields of \<open>Tcpv4Conn\<close> that input and output use, and the world.\<close>

record 'w IoConn =
  c_sock :: int
  c_tls :: bool
  c_failed :: bool
  c_rxBuf :: "bytes option"
  c_rxBufLen :: nat
  c_rxBufOff :: nat
  c_secSinceTx :: int
  c_world :: 'w

definition TCPV4_RXBUF_SIZE :: nat where "TCPV4_RXBUF_SIZE = 64 * 1024"
definition TCPV4_RXBUF_DIRECT :: nat where "TCPV4_RXBUF_DIRECT = 4096"

section \<open>Model: reading\<close>

text \<open>The loop of \<open>connRecvExactly\<close> under TLS, \<open>acc\<close> the octets so far.\<close>

function tls_recv_loop :: "'w Io \<Rightarrow> 'w \<Rightarrow> nat \<Rightarrow> bytes \<Rightarrow> nat \<Rightarrow> int \<times> bytes \<times> 'w" where
  "tls_recv_loop io w len acc got =
     (if got < len then
        (let (n, d, w) = io_tlsRecv io w (len - got)
         in if n \<le> 0 then (n, acc, w)
            else tls_recv_loop io w len (acc @ take (nat n) d) (got + nat n))
      else (int got, acc, w))"
  by pat_completeness auto
termination by (relation "measure (\<lambda>(io, w, len, acc, got). len - got)") auto

declare tls_recv_loop.simps [simp del]

definition connRecvExactly ::
    "'w Io \<Rightarrow> ('w, 'a) IoConn_scheme \<Rightarrow> nat \<Rightarrow> int \<times> bytes \<times> ('w, 'a) IoConn_scheme" where
  "connRecvExactly io conn len =
     (if c_tls conn then
        (let (n, d, w) = tls_recv_loop io (c_world conn) len [] 0
         in (n, d, conn \<lparr> c_world := w \<rparr>))
      else
        (let (n, d, sock, w) = io_itcpRecv io (c_world conn) (c_sock conn) len
         in (n, d, conn \<lparr> c_sock := sock, c_world := w \<rparr>)))"

definition connRecvSome ::
    "'w Io \<Rightarrow> ('w, 'a) IoConn_scheme \<Rightarrow> nat \<Rightarrow> int \<times> bytes \<times> ('w, 'a) IoConn_scheme" where
  "connRecvSome io conn cap =
     (if c_tls conn then
        (let (n, d, w) = io_tlsRecv io (c_world conn) cap in (n, d, conn \<lparr> c_world := w \<rparr>))
      else if c_sock conn = -1 then (0, [], conn)
      else
        (let (n, d, errno, w) = io_irecv io (c_world conn) (c_sock conn) cap
         in (if n < 0
             then (case errno of EINTR \<Rightarrow> 0 | EBADF \<Rightarrow> 0 | ECONNRESET \<Rightarrow> 0 | EOTHER \<Rightarrow> -1)
             else n, d, conn \<lparr> c_world := w \<rparr>)))"

definition tcpv4ConnStartBuffering :: "'w Io \<Rightarrow> ('w, 'a) IoConn_scheme \<Rightarrow> ('w, 'a) IoConn_scheme" where
  "tcpv4ConnStartBuffering io conn =
     (if c_rxBuf conn \<noteq> None then conn
      else
        (let (taken, w) = io_mtake io (c_world conn) TCPV4_RXBUF_SIZE;
             conn = conn \<lparr> c_world := w \<rparr>
         in if \<not> taken then conn
            else conn \<lparr> c_rxBuf := Some (replicate TCPV4_RXBUF_SIZE 0), c_rxBufLen := 0, c_rxBufOff := 0 \<rparr>))"

text \<open>The last loop of \<open>tcpv4ConnRecv\<close>: refill the buffer and copy, \<open>acc\<close> the octets so far.\<close>

function refill_loop ::
    "'w Io \<Rightarrow> ('w, 'a) IoConn_scheme \<Rightarrow> nat \<Rightarrow> bytes \<Rightarrow> nat \<Rightarrow> int \<times> bytes \<times> ('w, 'a) IoConn_scheme" where
  "refill_loop io conn len acc got =
     (if got < len then
        (let (n, d, conn) = connRecvSome io conn TCPV4_RXBUF_SIZE
         in if n \<le> 0 then (if got > 0 \<and> n = 0 then -1 else n, acc, conn)
            else
              (let buf = overwrite (octets (c_rxBuf conn)) 0 (take (nat n) d);
                   want = (if int (len - got) < n then len - got else nat n)
               in refill_loop io (conn \<lparr> c_rxBuf := Some buf, c_rxBufLen := nat n, c_rxBufOff := want \<rparr>)
                    len (acc @ take want buf) (got + want)))
      else (int len, acc, conn))"
  by pat_completeness auto
termination by (relation "measure (\<lambda>(io, conn, len, acc, got). len - got)") auto

declare refill_loop.simps [simp del]

definition tcpv4ConnRecv ::
    "'w Io \<Rightarrow> ('w, 'a) IoConn_scheme \<Rightarrow> nat \<Rightarrow> int \<times> bytes \<times> ('w, 'a) IoConn_scheme" where
  "tcpv4ConnRecv io conn len =
     (case c_rxBuf conn of
        None \<Rightarrow> connRecvExactly io conn len
      | Some buf \<Rightarrow>
          (let avail = c_rxBufLen conn - c_rxBufOff conn;
               got = (if avail > 0 then (if avail < len then avail else len) else 0);
               acc = take got (drop (c_rxBufOff conn) buf);
               conn = conn \<lparr> c_rxBufOff := c_rxBufOff conn + got \<rparr>
           in if avail > 0 \<and> got = len then (int len, acc, conn)
              else if len - got \<ge> TCPV4_RXBUF_DIRECT then
                (let (n, d, conn) = connRecvExactly io conn (len - got)
                 in if n = int (len - got) then (int len, acc @ d, conn)
                    else (if got > 0 \<and> n = 0 then -1 else n, acc @ d, conn))
              else refill_loop io conn len acc got))"

section \<open>Model: writing\<close>

definition connSendLocked ::
    "'w Io \<Rightarrow> ('w, 'a) IoConn_scheme \<Rightarrow> bytes \<Rightarrow> int \<times> ('w, 'a) IoConn_scheme" where
  "connSendLocked io conn data =
     (if c_tls conn then
        (let (n, w) = io_tlsSend io (c_world conn) data
         in (if n = int (length data) then 0 else -1, conn \<lparr> c_world := w \<rparr>))
      else
        (let (n, sock, w) = io_itcpSend io (c_world conn) (c_sock conn) data
         in (if n = int (length data) then 0 else -1, conn \<lparr> c_sock := sock, c_world := w \<rparr>)))"

definition tcpv4ConnSend ::
    "'w Io \<Rightarrow> ('w, 'a) IoConn_scheme \<Rightarrow> bytes \<Rightarrow> int \<times> ('w, 'a) IoConn_scheme" where
  "tcpv4ConnSend io conn data =
     (let (result, conn) = connSendLocked io conn data
      in (result, if result = 0 then conn \<lparr> c_secSinceTx := 0 \<rparr> else conn))"

text \<open>The corked sends of \<open>tcpv4ConnSendIov\<close> under TLS.\<close>

fun tls_send_iov :: "'w Io \<Rightarrow> 'w \<Rightarrow> bytes list \<Rightarrow> int \<times> 'w" where
  "tls_send_iov io w [] = (0, w)"
| "tls_send_iov io w (b # iov) =
     (if b = [] then tls_send_iov io w iov
      else (let (n, w) = io_tlsSend io w b
            in if n \<noteq> int (length b) then (-1, w) else tls_send_iov io w iov))"

text \<open>Dropping the octets a partial write has sent; \<open>None\<close> when no buffer is left.\<close>

fun drop_sent :: "nat \<Rightarrow> bytes list \<Rightarrow> bytes list option" where
  "drop_sent sent [] = None"
| "drop_sent sent (b # iov) =
     (if sent > 0 \<and> sent \<ge> length b then
        (if iov = [] then None else drop_sent (sent - length b) iov)
      else Some (drop sent b # iov))"

partial_function (option) writev_loop ::
    "'w Io \<Rightarrow> 'w \<Rightarrow> int \<Rightarrow> bytes list \<Rightarrow> nat \<Rightarrow> (int \<times> 'w) option" where
  "writev_loop io w sock iov remaining =
     (if remaining > 0 then
        (case io_writev io w sock iov of
           (sent, errno, w) \<Rightarrow>
             if sent < 0 then
               (if errno = EINTR then writev_loop io w sock iov remaining else Some (-1, w))
             else
               (let remaining = remaining - nat sent
                in if remaining = 0 then Some (0, w)
                   else (case drop_sent (nat sent) iov of
                           None \<Rightarrow> Some (0, w)
                         | Some iov \<Rightarrow> writev_loop io w sock iov remaining)))
      else Some (0, w))"

declare writev_loop.simps [code]

text \<open>\<open>None\<close>: the call does not return.\<close>

definition tcpv4ConnSendIov ::
    "'w Io \<Rightarrow> ('w, 'a) IoConn_scheme \<Rightarrow> bytes list \<Rightarrow> (int \<times> ('w, 'a) IoConn_scheme) option" where
  "tcpv4ConnSendIov io conn iov =
     (if iov = [] then Some (0, conn)
      else if c_tls conn then
        (let w = io_tlsCork io (c_world conn);
             (result, w) = tls_send_iov io w iov;
             (n, w) = io_tlsUncork io w
         in Some (if n < 0 then -1 else result, conn \<lparr> c_world := w \<rparr>))
      else
        map_option (\<lambda>(result, w). (result, conn \<lparr> c_world := w \<rparr>))
          (writev_loop io (c_world conn) (c_sock conn) iov (sum_list (map length iov))))"

definition tcpv4ConnFail :: "'w Io \<Rightarrow> ('w, 'a) IoConn_scheme \<Rightarrow> ('w, 'a) IoConn_scheme" where
  "tcpv4ConnFail io conn =
     (let conn = conn \<lparr> c_failed := True \<rparr>
      in if c_sock conn \<noteq> -1 then conn \<lparr> c_world := io_shutdown io (c_world conn) (c_sock conn) \<rparr> else conn)"

section \<open>Model: the names of the log\<close>

definition rejectReasonName :: "u8 \<Rightarrow> string" where
  "rejectReasonName reason =
     (if reason = TMSG_REJECT_TYPE_UNKNOWN then ''message type unknown''
      else if reason = TMSG_REJECT_UNSUPPORTED then ''message unsupported''
      else if reason = TMSG_REJECT_UNEXPECTED then ''message unexpected''
      else ''unknown reason'')"

definition tcpv4RefuseReasonName :: "u8 \<Rightarrow> string" where
  "tcpv4RefuseReasonName reason =
     (if reason = TMSG_REFUSE_COMPLETED then ''already completed''
      else if reason = TMSG_REFUSE_NO_RESOURCES then ''no resources''
      else if reason = TMSG_REFUSE_RETRANSMIT then ''retransmit''
      else if reason = TMSG_REFUSE_NOT_ACCEPTABLE then ''not acceptable''
      else if reason = TMSG_REFUSE_EXT_FAILURE then ''extension failure''
      else if reason = TMSG_REFUSE_SESS_TERM then ''session terminating''
      else ''unknown reason'')"

definition tcpv4MsgTypeName :: "u8 \<Rightarrow> string" where
  "tcpv4MsgTypeName type =
     (if type = TMSG_XFER_SEGMENT then ''XFER_SEGMENT''
      else if type = TMSG_XFER_ACK then ''XFER_ACK''
      else if type = TMSG_XFER_REFUSE then ''XFER_REFUSE''
      else if type = TMSG_KEEPALIVE then ''KEEPALIVE''
      else if type = TMSG_SESS_TERM then ''SESS_TERM''
      else if type = TMSG_MSG_REJECT then ''MSG_REJECT''
      else if type = TMSG_SESS_INIT then ''SESS_INIT''
      else ''message of unknown type'')"

section \<open>Model: the short messages\<close>

text \<open>The result, the rejected type when the result is 0, and the session.\<close>

definition tcpv4RecvMsgReject ::
    "'w Io \<Rightarrow> ('w, 'a) IoConn_scheme \<Rightarrow> int \<times> u8 option \<times> ('w, 'a) IoConn_scheme" where
  "tcpv4RecvMsgReject io conn =
     (let (n, d, conn) = tcpv4ConnRecv io conn 2
      in if n \<noteq> 2 then (-1, None, conn)
         else (case tcpv4MsgDecodeMsgReject (TMSG_MSG_REJECT # d) 3 of
                 (k, Some rej) \<Rightarrow> if k \<noteq> 3 then (-1, None, conn) else (0, Some (mr_rejectedType rej), conn)
               | (k, None) \<Rightarrow> (-1, None, conn)))"

text \<open>\<open>len < 0 ? -1 : tcpv4ConnSend (conn, buf, len)\<close>, for what an encoder returned.\<close>

definition send_encoded ::
    "'w Io \<Rightarrow> ('w, 'a) IoConn_scheme \<Rightarrow> int \<times> bytes \<Rightarrow> int \<times> ('w, 'a) IoConn_scheme" where
  "send_encoded io conn = (\<lambda>(len, buf).
     if len < 0 then (-1, conn) else tcpv4ConnSend io conn (take (nat len) buf))"

definition tcpv4SendKeepalive :: "'w Io \<Rightarrow> ('w, 'a) IoConn_scheme \<Rightarrow> int \<times> ('w, 'a) IoConn_scheme" where
  "tcpv4SendKeepalive io conn = send_encoded io conn (tcpv4MsgEncodeKeepalive (replicate 1 0) 1)"

definition tcpv4SendSessTerm ::
    "'w Io \<Rightarrow> ('w, 'a) IoConn_scheme \<Rightarrow> u8 \<Rightarrow> bool \<Rightarrow> int \<times> ('w, 'a) IoConn_scheme" where
  "tcpv4SendSessTerm io conn reason reply =
     send_encoded io conn (tcpv4MsgEncodeSessTerm (replicate 3 0) 3
       \<lparr>st_flags = (if reply then TMSG_TERM_FLAG_REPLY else 0), st_reason = reason\<rparr>)"

definition tcpv4SendMsgReject ::
    "'w Io \<Rightarrow> ('w, 'a) IoConn_scheme \<Rightarrow> u8 \<Rightarrow> u8 \<Rightarrow> int \<times> ('w, 'a) IoConn_scheme" where
  "tcpv4SendMsgReject io conn reason rejectedType =
     send_encoded io conn (tcpv4MsgEncodeMsgReject (replicate 3 0) 3
       \<lparr>mr_reason = reason, mr_rejectedType = rejectedType\<rparr>)"

definition tcpv4SendXferAck ::
    "'w Io \<Rightarrow> ('w, 'a) IoConn_scheme \<Rightarrow> u8 \<Rightarrow> u64 \<Rightarrow> u64 \<Rightarrow> int \<times> ('w, 'a) IoConn_scheme" where
  "tcpv4SendXferAck io conn flags transferId ackLength =
     send_encoded io conn (tcpv4MsgEncodeXferAck (replicate 18 0) 18
       \<lparr>xa_flags = flags, xa_transferId = transferId, xa_ackLength = ackLength\<rparr>)"

definition tcpv4SendXferRefuse ::
    "'w Io \<Rightarrow> ('w, 'a) IoConn_scheme \<Rightarrow> u8 \<Rightarrow> u64 \<Rightarrow> int \<times> ('w, 'a) IoConn_scheme" where
  "tcpv4SendXferRefuse io conn reason transferId =
     send_encoded io conn (tcpv4MsgEncodeXferRefuse (replicate 10 0) 10
       \<lparr>xr_reason = reason, xr_transferId = transferId\<rparr>)"

section \<open>Reading the stream\<close>

text \<open>
  What a read of at most \<open>cap\<close> octets may do when \<open>inp\<close> is the input still to come: store some of
  it, or answer 0 at its end.  With \<open>fails\<close>, reads may also fail.
\<close>

definition read_result :: "bool \<Rightarrow> ('w \<Rightarrow> bytes) \<Rightarrow> 'w \<Rightarrow> nat \<Rightarrow> int \<Rightarrow> bytes \<Rightarrow> 'w \<Rightarrow> bool" where
  "read_result fails inp w cap n d w' \<longleftrightarrow>
     (0 < n \<and> nat n \<le> cap \<and> nat n \<le> length (inp w) \<and> d = take (nat n) (inp w) \<and> inp w' = drop (nat n) (inp w)) \<or>
     (n = 0 \<and> inp w = []) \<or> (n < 0 \<and> fails)"

definition stream_io :: "bool \<Rightarrow> 'w Io \<Rightarrow> ('w \<Rightarrow> bytes) \<Rightarrow> bool" where
  "stream_io fails io inp \<longleftrightarrow>
     (\<forall>w cap n d w'. io_tlsRecv io w cap = (n, d, w') \<longrightarrow> 0 < cap \<longrightarrow> read_result fails inp w cap n d w') \<and>
     (\<forall>w sock cap n d errno w'. io_irecv io w sock cap = (n, d, errno, w') \<longrightarrow> 0 < cap \<longrightarrow> sock \<noteq> -1 \<longrightarrow>
        read_result fails inp w cap n d w') \<and>
     (\<forall>w sock len n d sock' w'. io_itcpRecv io w sock len = (n, d, sock', w') \<longrightarrow> sock \<noteq> -1 \<longrightarrow>
        (n = int len \<and> len \<le> length (inp w) \<and> d = take len (inp w) \<and> inp w' = drop len (inp w) \<and> sock' = sock) \<or>
        (n \<le> 0 \<and> n \<noteq> int len \<and> (fails \<or> length (inp w) < len))) \<and>
     (\<forall>w n. inp (snd (io_mtake io w n)) = inp w)"

text \<open>The input a session has not consumed: what is left in the buffer, then the stream.\<close>

definition buf_ok :: "('w, 'a) IoConn_scheme \<Rightarrow> bool" where
  "buf_ok conn \<longleftrightarrow> c_sock conn \<noteq> -1 \<and>
     (case c_rxBuf conn of
        None \<Rightarrow> True
      | Some buf \<Rightarrow> length buf = TCPV4_RXBUF_SIZE \<and> c_rxBufOff conn \<le> c_rxBufLen conn \<and>
          c_rxBufLen conn \<le> TCPV4_RXBUF_SIZE)"

definition pending :: "('w \<Rightarrow> bytes) \<Rightarrow> ('w, 'a) IoConn_scheme \<Rightarrow> bytes" where
  "pending inp conn =
     (case c_rxBuf conn of
        None \<Rightarrow> []
      | Some buf \<Rightarrow> take (c_rxBufLen conn - c_rxBufOff conn) (drop (c_rxBufOff conn) buf)) @
     inp (c_world conn)"

text \<open>What reading may change of a session.\<close>

definition only_read :: "('w, 'a) IoConn_scheme \<Rightarrow> ('w, 'a) IoConn_scheme \<Rightarrow> bool" where
  "only_read conn conn' \<longleftrightarrow> (\<exists>b l f w. conn' = conn \<lparr> c_rxBuf := b, c_rxBufLen := l, c_rxBufOff := f, c_world := w \<rparr>)"

lemma only_read_refl: "only_read conn conn"
  unfolding only_read_def
  by (rule exI[of _ "c_rxBuf conn"], rule exI[of _ "c_rxBufLen conn"], rule exI[of _ "c_rxBufOff conn"],
      rule exI[of _ "c_world conn"]) simp

lemma only_read_trans: "only_read a b \<Longrightarrow> only_read b c \<Longrightarrow> only_read a c"
  unfolding only_read_def by fastforce

lemma only_readI:
  "only_read conn (conn \<lparr> c_world := w \<rparr>)"
  "only_read conn (conn \<lparr> c_rxBufOff := f \<rparr>)"
  "only_read conn (conn \<lparr> c_rxBuf := b, c_rxBufLen := l, c_rxBufOff := f \<rparr>)"
  unfolding only_read_def
  by (rule exI[of _ "c_rxBuf conn"], rule exI[of _ "c_rxBufLen conn"], rule exI[of _ "c_rxBufOff conn"],
      rule exI[of _ w], simp)
    (rule exI[of _ "c_rxBuf conn"], rule exI[of _ "c_rxBufLen conn"], rule exI[of _ f],
      rule exI[of _ "c_world conn"], simp,
     rule exI[of _ b], rule exI[of _ l], rule exI[of _ f], rule exI[of _ "c_world conn"], simp)

lemma stream_tlsRecv:
  "stream_io fails io inp \<Longrightarrow> io_tlsRecv io w cap = (n, d, w') \<Longrightarrow> 0 < cap \<Longrightarrow> read_result fails inp w cap n d w'"
  by (simp add: stream_io_def)

lemma stream_irecv:
  "stream_io fails io inp \<Longrightarrow> io_irecv io w sock cap = (n, d, errno, w') \<Longrightarrow> 0 < cap \<Longrightarrow> sock \<noteq> -1 \<Longrightarrow>
     read_result fails inp w cap n d w'"
  unfolding stream_io_def by blast

lemma stream_itcpRecv:
  "stream_io fails io inp \<Longrightarrow> io_itcpRecv io w sock len = (n, d, sock', w') \<Longrightarrow> sock \<noteq> -1 \<Longrightarrow>
     (n = int len \<and> len \<le> length (inp w) \<and> d = take len (inp w) \<and> inp w' = drop len (inp w) \<and> sock' = sock) \<or>
     (n \<le> 0 \<and> n \<noteq> int len \<and> (fails \<or> length (inp w) < len))"
  unfolding stream_io_def by blast

lemma tls_recv_loop_spec:
  assumes io: "stream_io fails io inp"
  shows "tls_recv_loop io w len acc got = (n, d, w') \<Longrightarrow> got \<le> len \<Longrightarrow>
     (n = int len \<and> len - got \<le> length (inp w) \<and> d = acc @ take (len - got) (inp w) \<and>
        inp w' = drop (len - got) (inp w)) \<or>
     (n \<le> 0 \<and> n \<noteq> int len \<and> (fails \<or> length (inp w) < len - got))"
proof (induction "len - got" arbitrary: w acc got rule: less_induct)
  case less
  show ?case
  proof (cases "got < len")
    case False
    then have "got = len" using less.prems(2) by simp
    then show ?thesis using less.prems(1) by (simp add: tls_recv_loop.simps[of io w len acc len])
  next
    case True
    obtain m e w2 where r: "io_tlsRecv io w (len - got) = (m, e, w2)" by (metis prod_cases3)
    have rr: "read_result fails inp w (len - got) m e w2" using stream_tlsRecv[OF io r] True by simp
    show ?thesis
    proof (cases "m \<le> 0")
      case m: True
      then have "n = m" using less.prems(1) r True by (simp add: tls_recv_loop.simps[of io w len acc got])
      then show ?thesis using rr m True unfolding read_result_def by auto
    next
      case False
      then have m: "nat m \<le> len - got" "nat m \<le> length (inp w)" "e = take (nat m) (inp w)"
        "inp w2 = drop (nat m) (inp w)" "0 < nat m" using rr unfolding read_result_def by auto
      have "tls_recv_loop io w2 len (acc @ e) (got + nat m) = (n, d, w')"
        using less.prems(1) r True False m by (simp add: tls_recv_loop.simps[of io w len acc got])
      from less.hyps[OF _ this] m True
      have "(n = int len \<and> len - (got + nat m) \<le> length (inp w2) \<and>
          d = (acc @ e) @ take (len - (got + nat m)) (inp w2) \<and> inp w' = drop (len - (got + nat m)) (inp w2)) \<or>
          (n \<le> 0 \<and> n \<noteq> int len \<and> (fails \<or> length (inp w2) < len - (got + nat m)))" by simp
      moreover have "nat m + (len - (got + nat m)) = len - got" using m(1) by simp
      ultimately show ?thesis using m
        by (auto simp: take_add[symmetric] drop_drop)
    qed
  qed
qed

text \<open>Success of a read: the octets are the next of the input.\<close>

definition read_ok :: "('w \<Rightarrow> bytes) \<Rightarrow> ('w, 'a) IoConn_scheme \<Rightarrow> nat \<Rightarrow> int \<Rightarrow> bytes \<Rightarrow> ('w, 'a) IoConn_scheme \<Rightarrow> bool" where
  "read_ok inp conn len n d conn' \<longleftrightarrow>
     n = int len \<and> len \<le> length (pending inp conn) \<and> d = take len (pending inp conn) \<and>
     pending inp conn' = drop len (pending inp conn) \<and> buf_ok conn' \<and> only_read conn conn'"

lemma recv_exactly_spec:
  assumes io: "stream_io fails io inp" and c: "c_sock conn \<noteq> -1" and r: "connRecvExactly io conn len = (n, d, conn')"
  shows "(n = int len \<and> len \<le> length (inp (c_world conn)) \<and> d = take len (inp (c_world conn)) \<and>
       (\<exists>w'. conn' = conn \<lparr> c_world := w' \<rparr> \<and> inp w' = drop len (inp (c_world conn)))) \<or>
     (n \<le> 0 \<and> n \<noteq> int len \<and> (fails \<or> length (inp (c_world conn)) < len))"
proof (cases "c_tls conn")
  case True
  obtain m e w where t: "tls_recv_loop io (c_world conn) len [] 0 = (m, e, w)" by (metis prod_cases3)
  then have "n = m" "d = e" "conn' = conn \<lparr> c_world := w \<rparr>" using True r by (auto simp: connRecvExactly_def)
  then show ?thesis using tls_recv_loop_spec[OF io t] by auto
next
  case False
  obtain m e sock w where t: "io_itcpRecv io (c_world conn) (c_sock conn) len = (m, e, sock, w)" by (metis prod_cases4)
  then have e: "n = m" "d = e" "conn' = conn \<lparr> c_sock := sock, c_world := w \<rparr>"
    using False r by (auto simp: connRecvExactly_def)
  show ?thesis using stream_itcpRecv[OF io t c] unfolding e by auto
qed

lemma recv_some_spec:
  assumes io: "stream_io fails io inp" and c: "c_sock conn \<noteq> -1" "0 < cap"
    and r: "connRecvSome io conn cap = (n, d, conn')"
  shows "\<exists>w'. conn' = conn \<lparr> c_world := w' \<rparr> \<and>
     ((0 < n \<and> nat n \<le> cap \<and> nat n \<le> length (inp (c_world conn)) \<and> d = take (nat n) (inp (c_world conn)) \<and>
        inp w' = drop (nat n) (inp (c_world conn))) \<or>
      (n \<le> 0 \<and> (fails \<or> inp (c_world conn) = [])))"
proof (cases "c_tls conn")
  case True
  obtain m e w where t: "io_tlsRecv io (c_world conn) cap = (m, e, w)" by (metis prod_cases3)
  then show ?thesis using stream_tlsRecv[OF io t c(2)] True r
    by (auto simp: connRecvSome_def read_result_def)
next
  case False
  obtain m e errno w where t: "io_irecv io (c_world conn) (c_sock conn) cap = (m, e, errno, w)"
    by (metis prod_cases4)
  then show ?thesis using stream_irecv[OF io t c(2,1)] False r c(1)
    by (auto simp: connRecvSome_def read_result_def split: if_splits Errno.splits)
qed

lemma refill_loop_spec:
  assumes io: "stream_io fails io inp"
  shows "refill_loop io conn len acc got = (n, d, conn') \<Longrightarrow> got \<le> len \<Longrightarrow> buf_ok conn \<Longrightarrow>
     c_rxBuf conn \<noteq> None \<Longrightarrow> (got < len \<longrightarrow> c_rxBufLen conn = c_rxBufOff conn) \<Longrightarrow>
     (n = int len \<and> len - got \<le> length (pending inp conn) \<and> d = acc @ take (len - got) (pending inp conn) \<and>
        pending inp conn' = drop (len - got) (pending inp conn) \<and> buf_ok conn' \<and> only_read conn conn') \<or>
     (n \<le> 0 \<and> n \<noteq> int len \<and> (fails \<or> length (pending inp conn) < len - got))"
proof (induction "len - got" arbitrary: conn acc got rule: less_induct)
  case less
  show ?case
  proof (cases "got < len")
    case False
    then have "got = len" using less.prems(2) by simp
    then show ?thesis using less.prems(1,3) by (simp add: refill_loop.simps[of io conn len acc len] only_read_refl)
  next
    case True
    obtain buf where buf: "c_rxBuf conn = Some buf" "length buf = TCPV4_RXBUF_SIZE"
      using less.prems(3,4) by (auto simp: buf_ok_def)
    have c: "c_sock conn \<noteq> -1" using less.prems(3) by (simp add: buf_ok_def)
    have p: "pending inp conn = inp (c_world conn)" using buf less.prems(5) True by (simp add: pending_def)
    obtain m e conn2 where r: "connRecvSome io conn TCPV4_RXBUF_SIZE = (m, e, conn2)" by (metis prod_cases3)
    obtain w2 where w2: "conn2 = conn \<lparr> c_world := w2 \<rparr>" and alt:
      "(0 < m \<and> nat m \<le> TCPV4_RXBUF_SIZE \<and> nat m \<le> length (inp (c_world conn)) \<and>
          e = take (nat m) (inp (c_world conn)) \<and> inp w2 = drop (nat m) (inp (c_world conn))) \<or>
        (m \<le> 0 \<and> (fails \<or> inp (c_world conn) = []))"
      using recv_some_spec[OF io c _ r] by (auto simp: TCPV4_RXBUF_SIZE_def)
    show ?thesis
    proof (cases "m \<le> 0")
      case m: True
      then have "n \<le> 0" "n \<noteq> int len"
        using less.prems(1) r True by (auto simp: refill_loop.simps[of io conn len acc got] split: if_splits)
      then show ?thesis using alt m p True by auto
    next
      case False
      define k where "k = nat m"
      define want where "want = min (len - got) k"
      define buf2 where "buf2 = overwrite buf 0 e"
      have k: "0 < k" "k \<le> TCPV4_RXBUF_SIZE" "k \<le> length (inp (c_world conn))"
        "e = take k (inp (c_world conn))" "inp w2 = drop k (inp (c_world conn))" "m = int k"
        using alt False by (auto simp: k_def)
      have wi: "(if int (len - got) < m then len - got else k) = want"
        using False by (auto simp: want_def k_def)
      have nm: "nat m = k" by (simp add: k_def)
      have le: "length e = k" using k(3,4) by simp
      have ov: "overwrite (octets (c_rxBuf conn2)) 0 (take k e) = buf2"
        by (simp add: w2 buf(1) buf2_def le)
      have b2: "length buf2 = TCPV4_RXBUF_SIZE" "take k buf2 = e"
        using buf(2) k(2) le by (simp_all add: buf2_def overwrite_def)
      let ?c = "conn2 \<lparr> c_rxBuf := Some buf2, c_rxBufLen := k, c_rxBufOff := want \<rparr>"
      have want: "0 < want" "want \<le> k" "got + want \<le> len" using k(1) True by (auto simp: want_def)
      have tw: "take want buf2 = take want (inp (c_world conn))"
      proof -
        have "take want buf2 = take want (take k buf2)" using want(2) by (simp add: min_def)
        then show ?thesis unfolding b2(2) k(4) using want(2) by (simp add: min_def)
      qed
      have p2: "pending inp ?c = drop want (inp (c_world conn))"
      proof -
        have "take (k - want) (drop want buf2) = drop want (take k buf2)" by (simp add: drop_take)
        also have "\<dots> = drop want (take k (inp (c_world conn)))" by (simp add: b2(2) k(4))
        finally have "pending inp ?c = drop want (take k (inp (c_world conn))) @ drop k (inp (c_world conn))"
          by (simp add: pending_def w2 k(5))
        also have "\<dots> = drop want (take k (inp (c_world conn)) @ drop k (inp (c_world conn)))"
          using want(2) k(3) by (simp only: drop_append) simp
        finally show ?thesis by simp
      qed
      have "refill_loop io ?c len (acc @ take want buf2) (got + want) = (n, d, conn')"
        using less.prems(1) unfolding refill_loop.simps[of io conn len acc got] r prod.case Let_def nm wi ov
        by (simp only: True False if_True if_False)
      moreover have "len - (got + want) < len - got" using want by simp
      moreover have "buf_ok ?c" using c w2 b2(1) want(2) k(2) by (simp add: buf_ok_def)
      moreover have "got + want < len \<longrightarrow> c_rxBufLen ?c = c_rxBufOff ?c" by (auto simp: want_def)
      ultimately have ih: "(n = int len \<and> len - (got + want) \<le> length (pending inp ?c) \<and>
            d = (acc @ take want buf2) @ take (len - (got + want)) (pending inp ?c) \<and>
            pending inp conn' = drop (len - (got + want)) (pending inp ?c) \<and> buf_ok conn' \<and> only_read ?c conn') \<or>
          (n \<le> 0 \<and> n \<noteq> int len \<and> (fails \<or> length (pending inp ?c) < len - (got + want)))"
        by (intro less.hyps) (use want in auto)
      have "only_read conn ?c" unfolding w2 by (rule only_read_trans; rule only_readI)
      moreover have "len - got = want + (len - (got + want))" using want by simp
      moreover have "want \<le> length (inp (c_world conn))" using want k by simp
      ultimately show ?thesis
        using ih only_read_trans[of conn ?c conn'] unfolding p p2 tw
        by (auto simp: take_add drop_drop add.commute)
    qed
  qed
qed

lemma tcpv4ConnRecv_spec:
  assumes io: "stream_io fails io inp" and ok: "buf_ok conn" and r: "tcpv4ConnRecv io conn len = (n, d, conn')"
  shows "read_ok inp conn len n d conn' \<or>
     (n \<le> 0 \<and> n \<noteq> int len \<and> (fails \<or> length (pending inp conn) < len))"
proof (cases "c_rxBuf conn")
  case None
  have c: "c_sock conn \<noteq> -1" using ok by (simp add: buf_ok_def)
  have p: "pending inp conn = inp (c_world conn)" using None by (simp add: pending_def)
  have e: "connRecvExactly io conn len = (n, d, conn')" using r None by (simp add: tcpv4ConnRecv_def)
  show ?thesis
    using recv_exactly_spec[OF io c e] ok None only_readI(1)[of conn]
    unfolding read_ok_def p by (auto simp: buf_ok_def pending_def)
next
  case (Some buf)
  have c: "c_sock conn \<noteq> -1" "length buf = TCPV4_RXBUF_SIZE" "c_rxBufOff conn \<le> c_rxBufLen conn"
    "c_rxBufLen conn \<le> TCPV4_RXBUF_SIZE" using ok Some by (simp_all add: buf_ok_def)
  define avail where "avail = c_rxBufLen conn - c_rxBufOff conn"
  define got where "got = min avail len"
  define held where "held = take avail (drop (c_rxBufOff conn) buf)"
  let ?w = "inp (c_world conn)"
  let ?c = "conn \<lparr> c_rxBufOff := c_rxBufOff conn + got \<rparr>"
  have p: "pending inp conn = held @ ?w" using Some by (simp add: pending_def held_def avail_def)
  have lh: "length held = avail" using c by (simp add: held_def avail_def)
  have g: "(if avail > 0 then (if avail < len then avail else len) else 0) = got" by (simp add: got_def)
  have acc: "take got (drop (c_rxBufOff conn) buf) = take got held" by (simp add: held_def got_def min_def)
  have pc: "pending inp ?c = drop got held @ ?w"
    using Some by (simp add: pending_def held_def avail_def drop_take add.commute)
  have okc: "buf_ok ?c" using c Some by (simp add: buf_ok_def got_def avail_def)
  have rr: "(if avail > 0 \<and> got = len then (int len, take got held, ?c)
      else if len - got \<ge> TCPV4_RXBUF_DIRECT then
        (let (n, d, conn) = connRecvExactly io ?c (len - got)
         in if n = int (len - got) then (int len, take got held @ d, conn)
            else (if got > 0 \<and> n = 0 then -1 else n, take got held @ d, conn))
      else refill_loop io ?c len (take got held) got) = (n, d, conn')"
    using r unfolding tcpv4ConnRecv_def Some option.case Let_def avail_def[symmetric] g acc .
  have pre: "take len (held @ ?w) = take got held @ take (len - got) (drop got held @ ?w)"
    "drop len (held @ ?w) = drop (len - got) (drop got held @ ?w)"
    "length (held @ ?w) = got + length (drop got held @ ?w)" "got \<le> len"
    using lh by (auto simp: got_def min_def)
  consider (held) "avail > 0 \<and> got = len" | (direct) "\<not> (avail > 0 \<and> got = len)" "len - got \<ge> TCPV4_RXBUF_DIRECT"
    | (refill) "\<not> (avail > 0 \<and> got = len)" "\<not> len - got \<ge> TCPV4_RXBUF_DIRECT" by blast
  then show ?thesis
  proof cases
    case held
    then have e: "n = int len" "d = take len held" "conn' = ?c" using rr by auto
    show ?thesis unfolding read_ok_def e p using held pc okc only_readI(2)[of conn] lh
      by (auto simp: got_def)
  next
    case direct
    then have dr: "drop got held = []" using lh by (cases "avail \<le> len") (auto simp: got_def min_def TCPV4_RXBUF_DIRECT_def)
    obtain m e conn2 where x: "connRecvExactly io ?c (len - got) = (m, e, conn2)" by (metis prod_cases3)
    have res: "(if m = int (len - got) then (int len, take got held @ e, conn2)
        else (if got > 0 \<and> m = 0 then -1 else m, take got held @ e, conn2)) = (n, d, conn')"
      using rr direct x by simp
    have "c_sock ?c \<noteq> -1" using c(1) by simp
    note spec = recv_exactly_spec[OF io this x]
    show ?thesis
    proof (cases "m = int (len - got)")
      case True
      then have e: "n = int len" "d = take got held @ e" "conn' = conn2" using res by auto
      have "0 < len - got" using direct(2) by (simp add: TCPV4_RXBUF_DIRECT_def)
      then obtain w' where w': "len - got \<le> length ?w" "e = take (len - got) ?w"
        "conn2 = ?c \<lparr> c_world := w' \<rparr>" "inp w' = drop (len - got) ?w" using spec True by auto
      have "pending inp conn2 = drop (len - got) ?w" "buf_ok conn2" "only_read conn conn2"
        using w'(3,4) Some pc dr okc c only_read_trans[OF only_readI(2) only_readI(1)]
        by (auto simp: pending_def buf_ok_def got_def avail_def)
      then show ?thesis unfolding read_ok_def e p pre(1,2,3) using w' pre(4) dr by simp
    next
      case False
      then have "n = (if got > 0 \<and> m = 0 then -1 else m)" using res by auto
      moreover have "m \<le> 0" "fails \<or> length ?w < len - got" using spec False by auto
      moreover have "len \<noteq> 0" using direct(2) by (auto simp: TCPV4_RXBUF_DIRECT_def)
      ultimately show ?thesis unfolding p pre(3) using dr by auto
    qed
  next
    case refill
    have x: "refill_loop io ?c len (take got held) got = (n, d, conn')"
      using rr unfolding if_not_P[OF refill(1)] if_not_P[OF refill(2)] .
    have "got < len \<longrightarrow> c_rxBufLen ?c = c_rxBufOff ?c"
      using c by (auto simp: got_def avail_def min_def)
    from refill_loop_spec[OF io x pre(4) okc _ this] Some
    show ?thesis
      using only_read_trans[OF only_readI(2)[of conn "c_rxBufOff conn + got"], of conn']
      unfolding read_ok_def p pre(1,2,3) pc using pre(4) by auto
  qed
qed

section \<open>Writing\<close>

text \<open>
  What the writing functions do to the octets handed over so far, \<open>out\<close>.  A gathered write takes
  any number of the first octets; that it cannot be interrupted or take nothing for ever is said
  by \<open>stall\<close>.
\<close>

definition writev_law :: "'w Io \<Rightarrow> ('w \<Rightarrow> bytes) \<Rightarrow> ('w \<Rightarrow> nat) \<Rightarrow> bool" where
  "writev_law io out stall \<longleftrightarrow> (\<forall>w sock iov n errno w'. io_writev io w sock iov = (n, errno, w') \<longrightarrow>
     (if n < 0 then out w' = out w \<and> (errno = EINTR \<longrightarrow> stall w' < stall w)
      else nat n \<le> length (concat iov) \<and> out w' = out w @ take (nat n) (concat iov) \<and>
        (n = 0 \<longrightarrow> concat iov \<noteq> [] \<longrightarrow> stall w' < stall w)))"

definition sent_some :: "bytes \<Rightarrow> bytes \<Rightarrow> bytes \<Rightarrow> int \<Rightarrow> bool" where
  "sent_some before after b n \<longleftrightarrow> (\<exists>k \<le> length b. after = before @ take k b \<and> (n = int (length b) \<longrightarrow> k = length b))"

definition gather_io :: "'w Io \<Rightarrow> ('w \<Rightarrow> bytes) \<Rightarrow> ('w \<Rightarrow> nat) \<Rightarrow> bool" where
  "gather_io io out stall \<longleftrightarrow> writev_law io out stall \<and>
     (\<forall>w b n w'. io_tlsSend io w b = (n, w') \<longrightarrow> sent_some (out w) (out w') b n) \<and>
     (\<forall>w sock b n sock' w'. io_itcpSend io w sock b = (n, sock', w') \<longrightarrow>
        sent_some (out w) (out w') b n \<and> (n = int (length b) \<longrightarrow> sock' = sock)) \<and>
     (\<forall>w. out (io_tlsCork io w) = out w) \<and> (\<forall>w n w'. io_tlsUncork io w = (n, w') \<longrightarrow> out w' = out w)"

lemma gather_writev:
  "gather_io io out stall \<Longrightarrow> io_writev io w sock iov = (n, errno, w') \<Longrightarrow>
     (if n < 0 then out w' = out w \<and> (errno = EINTR \<longrightarrow> stall w' < stall w)
      else nat n \<le> length (concat iov) \<and> out w' = out w @ take (nat n) (concat iov) \<and>
        (n = 0 \<longrightarrow> concat iov \<noteq> [] \<longrightarrow> stall w' < stall w))"
  unfolding gather_io_def writev_law_def by blast

lemma gather_tlsSend:
  "gather_io io out stall \<Longrightarrow> io_tlsSend io w b = (n, w') \<Longrightarrow> sent_some (out w) (out w') b n"
  by (simp add: gather_io_def)

lemma gather_itcpSend:
  "gather_io io out stall \<Longrightarrow> io_itcpSend io w sock b = (n, sock', w') \<Longrightarrow>
     sent_some (out w) (out w') b n \<and> (n = int (length b) \<longrightarrow> sock' = sock)"
  by (simp add: gather_io_def)

lemma gather_cork:
  "gather_io io out stall \<Longrightarrow> out (io_tlsCork io w) = out w"
  "gather_io io out stall \<Longrightarrow> io_tlsUncork io w = (n, w') \<Longrightarrow> out w' = out w"
  by (simp_all add: gather_io_def)

text \<open>A write that answered \<open>r\<close>: all of the octets, or the first ones.\<close>

definition wrote :: "bytes \<Rightarrow> bytes \<Rightarrow> bytes \<Rightarrow> int \<Rightarrow> bool" where
  "wrote before after data r \<longleftrightarrow>
     (r = 0 \<and> after = before @ data) \<or> (r = -1 \<and> (\<exists>k \<le> length data. after = before @ take k data))"

lemma wrote_more:
  assumes "wrote (before @ take k data) after (drop k data) r" "k \<le> length data"
  shows "wrote before after data r"
proof (cases "r = 0")
  case False
  then obtain j where j: "r = -1" "j \<le> length (drop k data)" "after = before @ take k data @ take j (drop k data)"
    using assms(1) by (auto simp: wrote_def)
  then have "after = before @ take (k + j) data" "k + j \<le> length data" using assms(2) by (auto simp: take_add)
  then show ?thesis using j(1) by (auto simp: wrote_def)
qed (use assms in \<open>auto simp: wrote_def\<close>)

lemma drop_sent_spec:
  "sent \<le> length (concat iov) \<Longrightarrow> sent < length (concat iov) \<Longrightarrow>
     \<exists>iov'. drop_sent sent iov = Some iov' \<and> concat iov' = drop sent (concat iov)"
proof (induction sent iov rule: drop_sent.induct)
  case (2 sent b iov)
  show ?case
  proof (cases "sent > 0 \<and> sent \<ge> length b")
    case True
    then have "iov \<noteq> []" using "2.prems" by auto
    then show ?thesis using "2.IH"[OF True] "2.prems" True by auto
  next
    case False
    then show ?thesis by (cases "sent = 0") auto
  qed
qed simp

lemma writev_loop_spec:
  assumes io: "gather_io io out stall"
  shows "remaining = length (concat iov) \<Longrightarrow>
    \<exists>r w'. writev_loop io w sock iov remaining = Some (r, w') \<and> wrote (out w) (out w') (concat iov) r"
proof (induction "(remaining, stall w)" arbitrary: w iov remaining rule: wf_induct_rule[OF wf_lex_prod[OF wf_less_than wf_less_than]])
  case (1 w remaining iov)
  show ?case
  proof (cases "remaining > 0")
    case False
    then show ?thesis using "1.prems" by (subst writev_loop.simps) (simp add: wrote_def)
  next
    case True
    obtain n errno w2 where v: "io_writev io w sock iov = (n, errno, w2)" by (metis prod_cases3)
    have law: "if n < 0 then out w2 = out w \<and> (errno = EINTR \<longrightarrow> stall w2 < stall w)
         else nat n \<le> length (concat iov) \<and> out w2 = out w @ take (nat n) (concat iov) \<and>
           (n = 0 \<longrightarrow> concat iov \<noteq> [] \<longrightarrow> stall w2 < stall w)" by (rule gather_writev[OF io v])
    consider (intr) "n < 0" "errno = EINTR" | (err) "n < 0" "errno \<noteq> EINTR" | (sent) "\<not> n < 0" by blast
    then show ?thesis
    proof cases
      case intr
      then have "writev_loop io w sock iov remaining = writev_loop io w2 sock iov remaining"
        using v True by (subst writev_loop.simps) simp
      moreover have "((remaining, stall w2), (remaining, stall w)) \<in> less_than <*lex*> less_than" using law intr by simp
      ultimately show ?thesis using "1.hyps"[of remaining w2 iov] "1.prems" law intr by simp
    next
      case err
      then have "writev_loop io w sock iov remaining = Some (-1, w2)"
        using v True by (subst writev_loop.simps) simp
      then show ?thesis using law err by (auto simp: wrote_def intro: exI[of _ 0])
    next
      case sent
      then have l: "nat n \<le> remaining" "out w2 = out w @ take (nat n) (concat iov)" "n = 0 \<longrightarrow> stall w2 < stall w"
        using law "1.prems" True by auto
      show ?thesis
      proof (cases "nat n = remaining")
        case True
        then have "writev_loop io w sock iov remaining = Some (0, w2)"
          using v sent \<open>remaining > 0\<close> by (subst writev_loop.simps) simp
        then show ?thesis using l True "1.prems" by (simp add: wrote_def)
      next
        case False
        then obtain iov' where iov': "drop_sent (nat n) iov = Some iov'" "concat iov' = drop (nat n) (concat iov)"
          using drop_sent_spec[of "nat n" iov] l(1) "1.prems" by auto
        have e: "writev_loop io w sock iov remaining = writev_loop io w2 sock iov' (remaining - nat n)"
          using v sent \<open>remaining > 0\<close> False l(1) iov'(1) by (subst writev_loop.simps) simp
        have lx: "((remaining - nat n, stall w2), (remaining, stall w)) \<in> less_than <*lex*> less_than"
          using l(3) sent \<open>remaining > 0\<close> by auto
        have "\<exists>r w'. writev_loop io w2 sock iov' (remaining - nat n) = Some (r, w') \<and>
            wrote (out w2) (out w') (concat iov') r"
          by (rule "1.hyps", rule lx) (use iov'(2) "1.prems" in simp)
        then obtain r w' where r: "writev_loop io w2 sock iov' (remaining - nat n) = Some (r, w')"
          "wrote (out w2) (out w') (concat iov') r" by blast
        have "wrote (out w) (out w') (concat iov) r"
          by (rule wrote_more[of "out w" "nat n"]) (use r(2) l iov'(2) "1.prems" in simp_all)
        then show ?thesis using e r(1) by auto
      qed
    qed
  qed
qed

lemma tls_send_iov_spec:
  assumes io: "gather_io io out stall"
  shows "tls_send_iov io w iov = (r, w') \<Longrightarrow> wrote (out w) (out w') (concat iov) r"
proof (induction iov arbitrary: w)
  case (Cons b iov)
  show ?case
  proof (cases "b = []")
    case False
    obtain n w2 where s: "io_tlsSend io w b = (n, w2)" by fastforce
    then obtain k where k: "k \<le> length b" "out w2 = out w @ take k b" "n = int (length b) \<longrightarrow> k = length b"
      using gather_tlsSend[OF io s] unfolding sent_some_def by blast
    show ?thesis
    proof (cases "n = int (length b)")
      case True
      then have "wrote (out w2) (out w') (concat iov) r" using Cons s False by simp
      moreover have "out w2 = out w @ take (length b) (concat (b # iov))" using k True by simp
      ultimately show ?thesis by (intro wrote_more[of "out w" "length b"]) simp_all
    next
      case False
      then have "r = -1" "w' = w2" using Cons.prems s \<open>b \<noteq> []\<close> by auto
      then show ?thesis using k by (auto simp: wrote_def intro: exI[of _ k])
    qed
  qed (use Cons in simp)
qed (simp add: wrote_def)

lemma tcpv4ConnSendIov_spec:
  assumes io: "gather_io io out stall"
  shows "\<exists>r w'. tcpv4ConnSendIov io conn iov = Some (r, conn \<lparr> c_world := w' \<rparr>) \<and>
    wrote (out (c_world conn)) (out w') (concat iov) r"
proof (cases "c_tls conn \<and> iov \<noteq> []")
  case True
  obtain r w2 where s: "tls_send_iov io (io_tlsCork io (c_world conn)) iov = (r, w2)" by fastforce
  obtain n w3 where u: "io_tlsUncork io w2 = (n, w3)" by fastforce
  have "out (io_tlsCork io (c_world conn)) = out (c_world conn)" "out w3 = out w2"
    using gather_cork[OF io] u by auto
  then have "wrote (out (c_world conn)) (out w3) (concat iov) (if n < 0 then -1 else r)"
    using tls_send_iov_spec[OF io s] unfolding wrote_def by auto
  then show ?thesis using True s u by (auto simp: tcpv4ConnSendIov_def)
next
  case False
  then show ?thesis
  proof (cases "iov = []")
    case True
    then show ?thesis by (intro exI[of _ 0] exI[of _ "c_world conn"]) (simp add: tcpv4ConnSendIov_def wrote_def)
  next
    case f: False
    have "sum_list (map length iov) = length (concat iov)" by (simp add: length_concat)
    from writev_loop_spec[OF io this, of "c_world conn" "c_sock conn"] False f
    show ?thesis by (auto simp: tcpv4ConnSendIov_def)
  qed
qed

lemma tcpv4ConnSend_spec:
  assumes io: "gather_io io out stall" and r: "tcpv4ConnSend io conn data = (r, conn')"
  shows "wrote (out (c_world conn)) (out (c_world conn')) data r"
proof (cases "c_tls conn")
  case True
  obtain n w where s: "io_tlsSend io (c_world conn) data = (n, w)" by fastforce
  from gather_tlsSend[OF io s] show ?thesis unfolding sent_some_def using r s True by (auto simp: tcpv4ConnSend_def connSendLocked_def wrote_def Let_def split: if_splits)
next
  case False
  obtain n sock w where s: "io_itcpSend io (c_world conn) (c_sock conn) data = (n, sock, w)" by (metis prod_cases3)
  from gather_itcpSend[OF io s] show ?thesis unfolding sent_some_def using r s False by (auto simp: tcpv4ConnSend_def connSendLocked_def wrote_def Let_def split: if_splits)
qed

section \<open>The short messages\<close>

lemma send_encoded_eq:
  assumes "encoded er buf cap bs" "length bs \<le> cap" "cap \<le> length buf" "length bs < 2 ^ 31"
  shows "send_encoded io conn er = tcpv4ConnSend io conn bs"
  using assms by (cases er) (simp add: encoded_def send_encoded_def)

lemma short_messages:
  "tcpv4SendKeepalive io conn = tcpv4ConnSend io conn [TMSG_KEEPALIVE]"
  "tcpv4SendSessTerm io conn reason reply = tcpv4ConnSend io conn (wire_sess_term
     \<lparr>st_flags = (if reply then TMSG_TERM_FLAG_REPLY else 0), st_reason = reason\<rparr>)"
  "tcpv4SendMsgReject io conn reason type = tcpv4ConnSend io conn (wire_msg_reject
     \<lparr>mr_reason = reason, mr_rejectedType = type\<rparr>)"
  "tcpv4SendXferAck io conn flags ident len = tcpv4ConnSend io conn (wire_xfer_ack
     \<lparr>xa_flags = flags, xa_transferId = ident, xa_ackLength = len\<rparr>)"
  "tcpv4SendXferRefuse io conn reason ident = tcpv4ConnSend io conn (wire_xfer_refuse
     \<lparr>xr_reason = reason, xr_transferId = ident\<rparr>)"
proof -
  show "tcpv4SendKeepalive io conn = tcpv4ConnSend io conn [TMSG_KEEPALIVE]"
    unfolding tcpv4SendKeepalive_def by (rule send_encoded_eq[OF encoded_keepalive]) simp_all
  show "tcpv4SendSessTerm io conn reason reply = tcpv4ConnSend io conn (wire_sess_term
     \<lparr>st_flags = (if reply then TMSG_TERM_FLAG_REPLY else 0), st_reason = reason\<rparr>)"
    unfolding tcpv4SendSessTerm_def
    by (rule send_encoded_eq[OF encoded_sess_term]) (simp_all only: wire_sess_term_def, simp_all)
  show "tcpv4SendMsgReject io conn reason type = tcpv4ConnSend io conn (wire_msg_reject
     \<lparr>mr_reason = reason, mr_rejectedType = type\<rparr>)"
    unfolding tcpv4SendMsgReject_def
    by (rule send_encoded_eq[OF encoded_msg_reject]) (simp_all add: wire_msg_reject_def)
  show "tcpv4SendXferAck io conn flags ident len = tcpv4ConnSend io conn (wire_xfer_ack
     \<lparr>xa_flags = flags, xa_transferId = ident, xa_ackLength = len\<rparr>)"
    unfolding tcpv4SendXferAck_def
    by (rule send_encoded_eq[OF encoded_xfer_ack]) (simp_all add: wire_xfer_ack_def)
  show "tcpv4SendXferRefuse io conn reason ident = tcpv4ConnSend io conn (wire_xfer_refuse
     \<lparr>xr_reason = reason, xr_transferId = ident\<rparr>)"
    unfolding tcpv4SendXferRefuse_def
    by (rule send_encoded_eq[OF encoded_xfer_refuse]) (simp_all add: wire_xfer_refuse_def)
qed

section \<open>A pair of octet streams\<close>

text \<open>The input to come and the output so far; a transfer moves at most \<open>p\<close> octets.\<close>

definition pipe_io :: "nat \<Rightarrow> (bytes \<times> bytes) Io" where
  "pipe_io p = \<lparr>
     io_tlsRecv = (\<lambda>(i, out) cap. let k = min (min cap p) (length i) in (int k, take k i, (drop k i, out))),
     io_itcpRecv = (\<lambda>(i, out) sock len.
       if len \<le> length i then (int len, take len i, sock, (drop len i, out)) else (0, i, sock, ([], out))),
     io_irecv = (\<lambda>(i, out) sock cap.
       let k = min (min cap p) (length i) in (int k, take k i, EOTHER, (drop k i, out))),
     io_tlsSend = (\<lambda>(i, out) b. (int (length b), (i, out @ b))),
     io_itcpSend = (\<lambda>(i, out) sock b. (int (length b), sock, (i, out @ b))),
     io_tlsCork = (\<lambda>w. w),
     io_tlsUncork = (\<lambda>w. (0, w)),
     io_writev = (\<lambda>(i, out) sock iov. let k = min p (length (concat iov)) in
       (int k, EOTHER, (i, out @ take k (concat iov)))),
     io_mtake = (\<lambda>w n. (True, w)),
     io_shutdown = (\<lambda>w sock. w)\<rparr>"

lemma pipe_stream: "0 < p \<Longrightarrow> stream_io False (pipe_io p) fst"
  unfolding stream_io_def pipe_io_def
  by (auto simp: read_result_def Let_def min_def split: if_splits)

lemma pipe_gather: "0 < p \<Longrightarrow> gather_io (pipe_io p) snd (\<lambda>_. 0)"
  unfolding gather_io_def writev_law_def pipe_io_def
  by (auto simp: sent_some_def Let_def min_def split: if_splits)

text \<open>A plain session on such a pair of streams, which has read ahead nothing.\<close>

definition pipe_conn :: "bool \<Rightarrow> bytes \<Rightarrow> (bytes \<times> bytes) IoConn" where
  "pipe_conn tls i = \<lparr>c_sock = 3, c_tls = tls, c_failed = False,
     c_rxBuf = Some (replicate TCPV4_RXBUF_SIZE 0), c_rxBufLen = 0, c_rxBufOff = 0, c_secSinceTx = 5,
     c_world = (i, [])\<rparr>"

lemma pipe_conn_ok: "buf_ok (pipe_conn tls i)" "pending fst (pipe_conn tls i) = i"
  by (simp_all add: buf_ok_def pending_def pipe_conn_def)

section \<open>Properties\<close>

text \<open>C39: reading a field of an established session through the read-ahead buffer is reading the
  stream: a read that succeeds returns exactly the next octets and consumes exactly those, whatever
  was read ahead and in whatever pieces the stream delivers; one that does not returns 0 or less,
  and does so only where the input ends first or a read of the stream fails.\<close>

theorem tcpv4ConnRecv_reads_stream:
  assumes "stream_io fails io inp" "buf_ok conn" "tcpv4ConnRecv io conn len = (n, d, conn')"
  shows "(n = int len \<longrightarrow> len \<le> length (pending inp conn) \<and> d = take len (pending inp conn) \<and>
      pending inp conn' = drop len (pending inp conn) \<and> buf_ok conn') \<and>
    (n \<noteq> int len \<longrightarrow> n \<le> 0) \<and>
    (\<not> fails \<longrightarrow> len \<le> length (pending inp conn) \<longrightarrow> n = int len)"
  using tcpv4ConnRecv_spec[OF assms] by (auto simp: read_ok_def)

theorem tcpv4ConnRecv_reads_stream_witness:
  "fst (tcpv4ConnRecv (pipe_io 2) (pipe_conn True [1, 2, 3, 4, 5]) 3) = 3 \<and>
   fst (snd (tcpv4ConnRecv (pipe_io 2) (pipe_conn True [1, 2, 3, 4, 5]) 3)) = [1, 2, 3]"
proof -
  obtain n d conn' where r: "tcpv4ConnRecv (pipe_io 2) (pipe_conn True [1, 2, 3, 4, 5]) 3 = (n, d, conn')"
    by (metis prod_cases3)
  have "stream_io False (pipe_io 2) fst" by (rule pipe_stream) simp
  note facts = tcpv4ConnRecv_reads_stream[OF this pipe_conn_ok(1) r, unfolded pipe_conn_ok(2)]
  have n: "n = int 3" using facts by simp
  show ?thesis using facts n r by simp
qed

text \<open>A gathered write of a run of segments returns; when it answers 0 every octet of every
  buffer has been handed over once and in order, however the writes were cut, and otherwise it
  answers -1 with only first octets handed over.\<close>

theorem tcpv4ConnSendIov_complete:
  assumes "gather_io io out stall"
  shows "\<exists>r conn'. tcpv4ConnSendIov io conn iov = Some (r, conn') \<and>
     (r = 0 \<and> out (c_world conn') = out (c_world conn) @ concat iov \<or>
      r = -1 \<and> (\<exists>k \<le> length (concat iov). out (c_world conn') = out (c_world conn) @ take k (concat iov)))"
  using tcpv4ConnSendIov_spec[OF assms, of conn iov] by (auto simp: wrote_def)

theorem tcpv4ConnSendIov_complete_witness:
  "\<exists>r conn'. tcpv4ConnSendIov (pipe_io 2) (pipe_conn False []) [[1, 2], [], [3]] = Some (r, conn')"
  using tcpv4ConnSendIov_complete[OF pipe_gather[of 2], of "pipe_conn False []" "[[1, 2], [], [3]]"] by auto

end
