(* ===== verification/NodeId.thy ===== *)
theory NodeId
  imports Prelude
begin

unbundle bit_operations_syntax

text \<open>
  Node IDs of the TCPCLv4 convergence layer, CLA/tcpv4/src/tcpv4nodeid.c.  A node ID is a C
  string that may be null.  \<open>tcpv4NodeIdIpn\<close> returns 0 or sets two out-parameters and returns 1;
  the model returns \<open>None\<close> or \<open>Some (allocator, node)\<close>.

  The lemmas show that the overflow test of \<open>readComponent\<close> is exact, which strings
  \<open>tcpv4NodeIdIpn\<close> takes, that \<open>tcpv4NodeIdMatches\<close> compares identities (interpretation of
  \<open>node_matching\<close>, the contract the session engine relies on), and that
  \<open>tcpv4NodeIdIsWellFormed\<close> accepts exactly the URI shape.
\<close>

section \<open>Model\<close>

definition UINT64_MAX :: u64 where "UINT64_MAX = 0xFFFFFFFFFFFFFFFF"

text \<open>The digit loop of \<open>readComponent\<close>: the number so far, the digits read, the cursor.\<close>

fun read_digits :: "u64 \<Rightarrow> nat \<Rightarrow> bytes \<Rightarrow> (u64 \<times> nat \<times> bytes) option" where
  "read_digits n digits [] = Some (n, digits, [])"
| "read_digits n digits (c # cursor) =
     (if is_digit c then
        (if n > (UINT64_MAX - ucast (c - of_char CHR ''0'')) div 10 then None
         else read_digits (n * 10 + ucast (c - of_char CHR ''0'')) (digits + 1) cursor)
      else Some (n, digits, c # cursor))"

definition readComponent :: "bytes \<Rightarrow> (u64 \<times> bytes) option" where
  "readComponent cursor =
     (case read_digits 0 0 cursor of
        None \<Rightarrow> None
      | Some (n, digits, cursor') \<Rightarrow> if digits = 0 then None else Some (n, cursor'))"

text \<open>The loop \<open>while (count < 3)\<close>; the first argument is \<open>3 - count\<close>.\<close>

fun read_parts :: "nat \<Rightarrow> bytes \<Rightarrow> (u64 list \<times> bytes) option" where
  "read_parts 0 cursor = Some ([], cursor)"
| "read_parts (Suc r) cursor =
     (case readComponent cursor of
        None \<Rightarrow> None
      | Some (part, cursor') \<Rightarrow>
          (case cursor' of
             [] \<Rightarrow> Some ([part], cursor')
           | c # cursor'' \<Rightarrow>
               if c \<noteq> of_char CHR ''.'' then Some ([part], cursor')
               else (case read_parts r cursor'' of
                       None \<Rightarrow> None
                     | Some (parts, end) \<Rightarrow> Some (part # parts, end))))"

definition tcpv4NodeIdIsSet :: "bytes option \<Rightarrow> bool" where
  "tcpv4NodeIdIsSet nodeId \<longleftrightarrow> nodeId \<noteq> None \<and> nodeId \<noteq> Some []"

definition to_lower :: "u8 \<Rightarrow> u8" where
  "to_lower c = (if of_char CHR ''A'' \<le> c \<and> c \<le> of_char CHR ''Z'' then c + 32 else c)"

definition strncasecmp_eq :: "bytes \<Rightarrow> bytes \<Rightarrow> nat \<Rightarrow> bool" where
  "strncasecmp_eq a b n \<longleftrightarrow> map to_lower (take n a) = map to_lower (take n b)"

definition tcpv4NodeIdIpn :: "bytes option \<Rightarrow> (u64 \<times> u64) option" where
  "tcpv4NodeIdIpn nodeId =
     (case nodeId of
        None \<Rightarrow> None
      | Some s \<Rightarrow>
          if \<not> tcpv4NodeIdIsSet nodeId then None
          else if \<not> strncasecmp_eq s (ascii ''ipn:'') 4 then None
          else
            (case read_parts 3 (drop 4 s) of
               None \<Rightarrow> None
             | Some (parts, cursor) \<Rightarrow>
                 if cursor \<noteq> [] then None
                 else if length parts = 1 then Some (0, parts ! 0)
                 else if length parts = 2 then Some (0, parts ! 0)
                 else Some (parts ! 0, parts ! 1)))"

definition tcpv4NodeIdMatches :: "bytes option \<Rightarrow> bytes option \<Rightarrow> bool" where
  "tcpv4NodeIdMatches a b =
     (if \<not> tcpv4NodeIdIsSet a \<or> \<not> tcpv4NodeIdIsSet b then False
      else
        (let ipnA = tcpv4NodeIdIpn a; ipnB = tcpv4NodeIdIpn b in
         if ipnA \<noteq> None \<and> ipnB \<noteq> None then
           fst (the ipnA) = fst (the ipnB) \<and> snd (the ipnA) = snd (the ipnB)
         else if (ipnA \<noteq> None) \<noteq> (ipnB \<noteq> None) then False
         else a = b))"

definition is_alpha :: "u8 \<Rightarrow> bool" where
  "is_alpha c \<longleftrightarrow> (of_char CHR ''A'' \<le> c \<and> c \<le> of_char CHR ''Z'') \<or>
     (of_char CHR ''a'' \<le> c \<and> c \<le> of_char CHR ''z'')"

definition is_scheme_rest :: "u8 \<Rightarrow> bool" where
  "is_scheme_rest c \<longleftrightarrow> is_digit c \<or> c = of_char CHR ''+'' \<or> c = of_char CHR ''-'' \<or>
     c = of_char CHR ''.''"

text \<open>The scheme loop: the index at which it stops, from index \<open>i\<close> on.\<close>

fun scheme_end :: "nat \<Rightarrow> bytes \<Rightarrow> nat" where
  "scheme_end i [] = i"
| "scheme_end i (c # cs) =
     (if is_alpha c \<or> (i > 0 \<and> is_scheme_rest c) then scheme_end (i + 1) cs else i)"

definition tcpv4NodeIdIsWellFormed :: "bytes option \<Rightarrow> nat \<Rightarrow> bool" where
  "tcpv4NodeIdIsWellFormed nodeId len =
     (case nodeId of
        None \<Rightarrow> False
      | Some s \<Rightarrow>
          (let i = scheme_end 0 (take len s) in
           if i = 0 \<or> i = len \<or> s ! i \<noteq> of_char CHR '':'' then False
           else \<not> (\<exists>j \<in> {i + 1..<len}. s ! j < 0x21 \<or> s ! j > 0x7e)))"

section \<open>Decimal components\<close>

lemma digit_value:
  assumes "is_digit c"
  shows "unat (ucast (c - of_char CHR ''0'') :: u64) = unat c - 48" "unat c - 48 < 10"
proof -
  have c: "(48 :: u8) \<le> c" "c \<le> 57" using assms by (simp_all add: is_digit_def)
  then have "48 \<le> unat c" "unat c \<le> 57" by (simp_all add: word_le_nat_alt)
  moreover have "unat (c - 48) = unat c - 48" using c(1) by (simp add: unat_sub)
  ultimately show "unat (ucast (c - of_char CHR ''0'') :: u64) = unat c - 48"
      "unat c - 48 < 10"
    by simp_all
qed

text \<open>The test \<open>n > (UINT64_MAX - d) / 10\<close> holds exactly when \<open>n * 10 + d\<close> leaves the type.\<close>

lemma overflow_test_exact:
  fixes n d :: u64
  assumes "unat d < 10"
  shows "n > (UINT64_MAX - d) div 10 \<longleftrightarrow> 2 ^ 64 \<le> unat n * 10 + unat d"
proof -
  have "unat (UINT64_MAX - d) = 2 ^ 64 - 1 - unat d"
    using unat_sub[of d UINT64_MAX] assms
    by (simp add: UINT64_MAX_def word_le_nat_alt)
  then have "n > (UINT64_MAX - d) div 10 \<longleftrightarrow> (2 ^ 64 - 1 - unat d) div 10 < unat n"
    by (simp add: word_less_nat_alt unat_div)
  also have "\<dots> \<longleftrightarrow> 2 ^ 64 \<le> unat n * 10 + unat d"
    using assms by (simp add: div_less_iff_less_mult) arith
  finally show ?thesis .
qed

definition no_digit_next :: "bytes \<Rightarrow> bool" where
  "no_digit_next s \<longleftrightarrow> s = [] \<or> \<not> is_digit (hd s)"

lemma read_digits_value:
  assumes "list_all is_digit ds" "no_digit_next rest"
  shows "read_digits n k (ds @ rest) =
           (if dec_from (unat n) ds < 2 ^ 64
            then Some (of_nat (dec_from (unat n) ds), k + length ds, rest) else None)"
  using assms(1)
proof (induction ds arbitrary: n k)
  case Nil
  then show ?case using assms(2) by (cases rest) (auto simp: no_digit_next_def)
next
  case (Cons c ds)
  let ?d = "ucast (c - of_char CHR ''0'') :: u64"
  have dig: "is_digit c" using Cons.prems by simp
  note dv = digit_value[OF dig]
  show ?case
  proof (cases "2 ^ 64 \<le> unat n * 10 + unat ?d")
    case True
    then have "2 ^ 64 \<le> dec_from (unat n) (c # ds)"
      using dec_from_ge[of "unat n * 10 + (unat c - 48)" ds] dv by simp
    moreover have "n > (UINT64_MAX - ?d) div 10" using overflow_test_exact dv True by metis
    ultimately show ?thesis using dig by simp
  next
    case False
    have "\<not> n > (UINT64_MAX - ?d) div 10" using overflow_test_exact[of ?d n] dv False by simp
    moreover have "unat (n * 10 + ?d) = unat n * 10 + (unat c - 48)"
      using False dv(1) by (simp add: unat_word_ariths)
    ultimately show ?thesis using dig Cons by simp
  qed
qed

definition component :: "bytes \<Rightarrow> u64 \<Rightarrow> bool" where
  "component ds v \<longleftrightarrow>
     ds \<noteq> [] \<and> list_all is_digit ds \<and> dec_from 0 ds < 2 ^ 64 \<and> v = of_nat (dec_from 0 ds)"

lemma readComponent_iff:
  "readComponent s = Some (v, rest) \<longleftrightarrow>
     (\<exists>ds. component ds v \<and> s = ds @ rest \<and> no_digit_next rest)"
proof -
  let ?ds = "takeWhile is_digit s" and ?r = "dropWhile is_digit s"
  have split: "s = ?ds @ ?r" "list_all is_digit ?ds" "no_digit_next ?r"
    by (use hd_dropWhile[of is_digit s] in \<open>auto simp: no_digit_next_def list_all_iff dest: set_takeWhileD\<close>)
  have run: "read_digits 0 0 s =
      (if dec_from 0 ?ds < 2 ^ 64 then Some (of_nat (dec_from 0 ?ds), length ?ds, ?r) else None)"
    using read_digits_value[OF split(2,3), of 0 0] split(1) by simp
  have uniq: "ds = ?ds \<and> rest = ?r"
    if h: "s = ds @ rest" "list_all is_digit ds" "no_digit_next rest" for ds
  proof -
    have "takeWhile is_digit rest = []" "dropWhile is_digit rest = rest"
      using h(3) by (cases rest; simp add: no_digit_next_def)+
    then show ?thesis
      using h(2) unfolding h(1) list_all_iff by simp
  qed
  show ?thesis
  proof
    assume "readComponent s = Some (v, rest)"
    then have "component ?ds v" "rest = ?r"
      using run split(2) by (auto simp: readComponent_def component_def split: if_splits)
    then show "\<exists>ds. component ds v \<and> s = ds @ rest \<and> no_digit_next rest"
      using split by blast
  next
    assume "\<exists>ds. component ds v \<and> s = ds @ rest \<and> no_digit_next rest"
    then obtain ds where ds: "component ds v" "s = ds @ rest" "no_digit_next rest" by blast
    then have "ds = ?ds" "rest = ?r" using uniq by (auto simp: component_def)
    then show "readComponent s = Some (v, rest)"
      using run ds(1) by (auto simp: readComponent_def component_def)
  qed
qed

section \<open>What \<open>tcpv4NodeIdIpn\<close> accepts\<close>

text \<open>
  \<open>dotted r vs s rest\<close>: starting with \<open>r\<close> components still allowed, the loop reads the values
  \<open>vs\<close> from \<open>s\<close> and stops at \<open>rest\<close>.
\<close>

fun dotted :: "nat \<Rightarrow> u64 list \<Rightarrow> bytes \<Rightarrow> bytes \<Rightarrow> bool" where
  "dotted 0 vs s rest \<longleftrightarrow> vs = [] \<and> rest = s"
| "dotted (Suc r) [] s rest \<longleftrightarrow> False"
| "dotted (Suc r) (v # vs) s rest \<longleftrightarrow>
     (\<exists>ds s'. component ds v \<and> s = ds @ s' \<and> no_digit_next s' \<and>
        (if s' \<noteq> [] \<and> hd s' = of_char CHR ''.'' then dotted r vs (tl s') rest
         else vs = [] \<and> rest = s'))"

lemma read_parts_iff: "read_parts r s = Some (vs, rest) \<longleftrightarrow> dotted r vs s rest"
proof (induction r arbitrary: s vs)
  case (Suc r)
  show ?case
  proof (cases "readComponent s")
    case None
    then have "\<not> (component ds v \<and> s = ds @ s' \<and> no_digit_next s')" for ds v s'
      using readComponent_iff[of s v s'] by auto
    then show ?thesis using None by (cases vs) auto
  next
    case (Some p)
    obtain v s' where p: "p = (v, s')" by fastforce
    have uniq: "(\<exists>ds. component ds w \<and> s = ds @ t \<and> no_digit_next t) \<longleftrightarrow> w = v \<and> t = s'" for w t
      using readComponent_iff[of s w t] Some p by auto
    have "dotted (Suc r) vs s rest \<longleftrightarrow>
        (\<exists>us. vs = v # us \<and> (if s' \<noteq> [] \<and> hd s' = of_char CHR ''.'' then dotted r us (tl s') rest
         else us = [] \<and> rest = s'))"
    proof (cases vs)
      case (Cons w ws)
      have "dotted (Suc r) (w # ws) s rest \<longleftrightarrow>
          (\<exists>t. (\<exists>ds. component ds w \<and> s = ds @ t \<and> no_digit_next t) \<and>
             (if t \<noteq> [] \<and> hd t = of_char CHR ''.'' then dotted r ws (tl t) rest
              else ws = [] \<and> rest = t))"
        by (subst dotted.simps(3)) blast
      then show ?thesis unfolding uniq Cons by (auto simp del: dotted.simps)
    qed simp
    moreover have "read_parts (Suc r) s = Some (vs, rest) \<longleftrightarrow>
        (\<exists>us. vs = v # us \<and> (if s' \<noteq> [] \<and> hd s' = of_char CHR ''.'' then dotted r us (tl s') rest
         else us = [] \<and> rest = s'))"
      using Some p
      by (cases s'; cases vs) (simp_all add: Suc.IH[symmetric] split: option.splits, auto)
    ultimately show ?thesis by (rule trans[OF _ sym, rotated])
  qed
qed auto

text \<open>The scheme prefix \<open>ipn:\<close> in any case.\<close>

definition ipn_prefix :: "bytes \<Rightarrow> bool" where
  "ipn_prefix p \<longleftrightarrow> map to_lower p = ascii ''ipn:''"

lemma strncasecmp_ipn:
  "strncasecmp_eq s (ascii ''ipn:'') 4 \<longleftrightarrow> (\<exists>p t. s = p @ t \<and> ipn_prefix p \<and> drop 4 s = t)"
proof -
  have lit: "map to_lower (take 4 (ascii ''ipn:'')) = ascii ''ipn:''"
    by (simp add: to_lower_def)
  show ?thesis
  proof
    assume "strncasecmp_eq s (ascii ''ipn:'') 4"
    then have "ipn_prefix (take 4 s)"
      unfolding strncasecmp_eq_def ipn_prefix_def using lit by simp
    then show "\<exists>p t. s = p @ t \<and> ipn_prefix p \<and> drop 4 s = t"
      by (intro exI[of _ "take 4 s"] exI[of _ "drop 4 s"]) simp
  next
    assume "\<exists>p t. s = p @ t \<and> ipn_prefix p \<and> drop 4 s = t"
    then obtain p t where p: "s = p @ t" "ipn_prefix p" by blast
    have "length p = 4" using arg_cong[OF p(2)[unfolded ipn_prefix_def], of length] by simp
    then have "take 4 s = p" using p by simp
    then show "strncasecmp_eq s (ascii ''ipn:'') 4"
      using p lit unfolding strncasecmp_eq_def ipn_prefix_def by simp
  qed
qed

definition dot :: bytes where "dot = ascii ''.''"

text \<open>The node part that the components name.\<close>

definition ipn_node :: "u64 list \<Rightarrow> u64 \<times> u64" where
  "ipn_node vs = (if length vs = 3 then (vs ! 0, vs ! 1) else (0, vs ! 0))"

text \<open>
  The strings \<open>tcpv4NodeIdIpn\<close> takes: the scheme, then one, two or three decimal components
  below \<open>2^64\<close> joined by dots.  A third component may also be followed by one more dot: the loop
  steps over the dot behind the third component before it stops counting.
\<close>

definition ipn_text :: "u64 list \<Rightarrow> bytes \<Rightarrow> bool" where
  "ipn_text vs t \<longleftrightarrow>
     (\<exists>d1 v1. component d1 v1 \<and>
        ((vs = [v1] \<and> t = d1) \<or>
         (\<exists>d2 v2. component d2 v2 \<and>
            ((vs = [v1, v2] \<and> t = d1 @ dot @ d2) \<or>
             (\<exists>d3 v3. component d3 v3 \<and> vs = [v1, v2, v3] \<and>
                (t = d1 @ dot @ d2 @ dot @ d3 \<or> t = d1 @ dot @ d2 @ dot @ d3 @ dot))))))"

lemma no_digit_dot: "no_digit_next (of_char CHR ''.'' # s)"
  by (simp add: no_digit_next_def is_digit_def)

lemma no_digit_Nil: "no_digit_next []"
  by (simp add: no_digit_next_def)

lemma dotted_end: "dotted (Suc r) (v # vs) s [] \<longleftrightarrow>
    (component s v \<and> vs = []) \<or>
    (\<exists>ds s'. component ds v \<and> s = ds @ dot @ s' \<and> dotted r vs s' [])"
proof -
  have "(\<exists>ds s'. component ds v \<and> s = ds @ s' \<and> no_digit_next s' \<and>
        (if s' \<noteq> [] \<and> hd s' = of_char CHR ''.'' then dotted r vs (tl s') []
         else vs = [] \<and> [] = s')) \<longleftrightarrow>
    (component s v \<and> vs = []) \<or>
    (\<exists>ds s'. component ds v \<and> s = ds @ dot @ s' \<and> dotted r vs s' [])" (is "?L \<longleftrightarrow> ?R")
  proof
    assume ?L
    then obtain ds s' where 1: "component ds v" "s = ds @ s'"
      and 2: "if s' \<noteq> [] \<and> hd s' = of_char CHR ''.'' then dotted r vs (tl s') []
         else vs = [] \<and> [] = s'"
      by blast
    show ?R
    proof (cases s')
      case (Cons c t)
      then show ?thesis using 1 2 by (auto simp: dot_def split: if_splits)
    qed (use 1 2 in auto)
  next
    assume ?R
    then show ?L
      using no_digit_dot no_digit_Nil
      by (elim disjE exE conjE) (fastforce simp: dot_def)+
  qed
  then show ?thesis by simp
qed

lemma dotted_0_end: "dotted 0 vs s [] \<longleftrightarrow> vs = [] \<and> s = []"
  by auto

lemma dotted_Nil_end: "\<not> dotted (Suc r) [] s []"
  by simp

lemma dotted_1_end: "dotted (Suc 0) vs s [] \<longleftrightarrow>
    (\<exists>d v. component d v \<and> vs = [v] \<and> (s = d \<or> s = d @ dot))"
proof (cases vs)
  case (Cons v us)
  show ?thesis unfolding Cons dotted_end dotted_0_end by auto
qed (use dotted_Nil_end in blast)

lemma dotted_2_end: "dotted (Suc (Suc 0)) vs s [] \<longleftrightarrow>
    (\<exists>d v. component d v \<and>
       ((vs = [v] \<and> s = d) \<or> (\<exists>us t. vs = v # us \<and> s = d @ dot @ t \<and> dotted (Suc 0) us t [])))"
proof (cases vs)
  case (Cons v us)
  show ?thesis unfolding Cons dotted_end[of "Suc 0"] by blast
qed (use dotted_Nil_end in blast)

lemma dotted_3_end: "dotted 3 vs t [] \<longleftrightarrow> ipn_text vs t"
proof (cases vs)
  case Nil
  then show ?thesis using dotted_Nil_end[of 2 t] by (auto simp: ipn_text_def numeral_3_eq_3)
next
  case (Cons v us)
  show ?thesis
    unfolding Cons numeral_3_eq_3 dotted_end[of "Suc (Suc 0)"] dotted_2_end dotted_1_end ipn_text_def
    by (simp only: list.inject list.distinct) blast
qed

lemma ipn_text_length: "ipn_text vs t \<Longrightarrow> length vs \<in> {1, 2, 3}"
  by (auto simp: ipn_text_def)

lemma tcpv4NodeIdIpn_iff:
  "tcpv4NodeIdIpn (Some s) = Some key \<longleftrightarrow>
     (\<exists>p t vs. s = p @ t \<and> ipn_prefix p \<and> ipn_text vs t \<and> key = ipn_node vs)"
proof
  assume L: "tcpv4NodeIdIpn (Some s) = Some key"
  then obtain vs where "strncasecmp_eq s (ascii ''ipn:'') 4" and "read_parts 3 (drop 4 s) = Some (vs, [])"
    and key: "key = (if length vs = 1 then (0, vs ! 0) else if length vs = 2 then (0, vs ! 0)
        else (vs ! 0, vs ! 1))"
    by (auto simp: tcpv4NodeIdIpn_def split: if_splits option.splits)
  moreover from this have "ipn_text vs (drop 4 s)"
    by (simp add: read_parts_iff dotted_3_end)
  ultimately show "\<exists>p t vs. s = p @ t \<and> ipn_prefix p \<and> ipn_text vs t \<and> key = ipn_node vs"
    using ipn_text_length[of vs "drop 4 s"] unfolding strncasecmp_ipn
    by (elim exE conjE) (intro exI conjI, assumption+, auto simp: ipn_node_def)
next
  assume "\<exists>p t vs. s = p @ t \<and> ipn_prefix p \<and> ipn_text vs t \<and> key = ipn_node vs"
  then obtain p t vs where h: "s = p @ t" "ipn_prefix p" "ipn_text vs t" "key = ipn_node vs" by blast
  have "length p = 4" using arg_cong[OF h(2)[unfolded ipn_prefix_def], of length] by simp
  then have d: "drop 4 s = t" "s \<noteq> []" using h(1) by auto
  then have "strncasecmp_eq s (ascii ''ipn:'') 4" using h(1,2) strncasecmp_ipn by blast
  moreover have "read_parts 3 (drop 4 s) = Some (vs, [])"
    using h(3) d by (simp add: read_parts_iff dotted_3_end)
  ultimately show "tcpv4NodeIdIpn (Some s) = Some key"
    using h(4) d(2) ipn_text_length[OF h(3)]
    by (auto simp: tcpv4NodeIdIpn_def tcpv4NodeIdIsSet_def ipn_node_def simp del: ascii_simps)
qed

section \<open>Comparing node IDs\<close>

text \<open>The identity a node ID stands for: the node part of an ipn node ID, else its spelling.\<close>

definition node_identity :: "bytes \<Rightarrow> (u64 \<times> u64) + bytes" where
  "node_identity s = (case tcpv4NodeIdIpn (Some s) of Some key \<Rightarrow> Inl key | None \<Rightarrow> Inr s)"

lemma tcpv4NodeIdMatches_iff:
  "tcpv4NodeIdMatches a b \<longleftrightarrow>
     tcpv4NodeIdIsSet a \<and> tcpv4NodeIdIsSet b \<and> node_identity (the a) = node_identity (the b)"
  by (cases a; cases b)
    (auto simp: tcpv4NodeIdMatches_def tcpv4NodeIdIsSet_def node_identity_def Let_def prod_eq_iff
      split: option.splits)

text \<open>
  What the session engine needs of node ID comparison: it is a partial equivalence on the node
  IDs that are set, so "the session for this node" does not depend on how the node is spelled.
\<close>

locale node_matching =
  fixes is_set :: "'n \<Rightarrow> bool" and matches :: "'n \<Rightarrow> 'n \<Rightarrow> bool"
  assumes matches_set: "matches a b \<Longrightarrow> is_set a \<and> is_set b"
    and matches_refl: "is_set a \<Longrightarrow> matches a a"
    and matches_sym: "matches a b \<Longrightarrow> matches b a"
    and matches_trans: "matches a b \<Longrightarrow> matches b c \<Longrightarrow> matches a c"
begin

lemma matches_cong: "matches a b \<Longrightarrow> matches a c \<longleftrightarrow> matches b c"
  using matches_sym matches_trans by blast

lemma matches_cong_right: "matches a b \<Longrightarrow> matches c a \<longleftrightarrow> matches c b"
  using matches_sym matches_trans by blast

lemma unset_matches_nothing: "\<not> is_set a \<Longrightarrow> \<not> matches a b \<and> \<not> matches b a"
  using matches_set by blast

lemma filter_matches_cong:
  "matches a b \<Longrightarrow> filter (\<lambda>x. matches (f x) a) xs = filter (\<lambda>x. matches (f x) b) xs"
  using matches_cong_right by (metis (mono_tags, lifting) filter_cong)

end

interpretation node_id: node_matching tcpv4NodeIdIsSet tcpv4NodeIdMatches
  by unfold_locales (auto simp: tcpv4NodeIdMatches_iff)

section \<open>Well-formed node IDs\<close>

lemma scheme_end_ge: "i \<le> scheme_end i cs"
proof (induction cs arbitrary: i)
  case (Cons c cs)
  show ?case using Cons[of "i + 1"] by simp
qed simp

lemma scheme_end_spec:
  "0 < i \<Longrightarrow> scheme_end i cs = i + length (takeWhile (\<lambda>c. is_alpha c \<or> is_scheme_rest c) cs)"
  by (induction cs arbitrary: i) auto

definition is_printable :: "u8 \<Rightarrow> bool" where
  "is_printable c \<longleftrightarrow> 0x21 \<le> c \<and> c \<le> 0x7e"

lemma colon_no_scheme: "\<not> (is_alpha (of_char CHR '':'') \<or> is_scheme_rest (of_char CHR '':''))"
  by (simp add: is_alpha_def is_scheme_rest_def is_digit_def)

lemma takeWhile_colon:
  assumes "list_all P a" "\<not> P x"
  shows "takeWhile P (a @ x # b) = a"
  using assms by (induction a) auto

lemma all_from_drop:
  "(\<forall>j \<in> {n..<length s}. P (s ! j)) \<longleftrightarrow> list_all P (drop n s)"
proof (cases "n \<le> length s")
  case True
  then have "list_all P (drop n s) \<longleftrightarrow> (\<forall>k < length s - n. P (s ! (n + k)))"
    by (simp add: list_all_length)
  also have "\<dots> \<longleftrightarrow> (\<forall>j \<in> {n..<length s}. P (s ! j))"
  proof
    assume h: "\<forall>k < length s - n. P (s ! (n + k))"
    show "\<forall>j \<in> {n..<length s}. P (s ! j)"
    proof
      fix j assume "j \<in> {n..<length s}"
      then have "j - n < length s - n" "n + (j - n) = j" by auto
      then show "P (s ! j)" using h by metis
    qed
  qed simp
  finally show ?thesis ..
qed auto

lemma tcpv4NodeIdIsWellFormed_iff:
  "tcpv4NodeIdIsWellFormed (Some s) (length s) \<longleftrightarrow>
     (\<exists>c scheme rest. s = c # scheme @ of_char CHR '':'' # rest \<and> is_alpha c \<and>
        list_all (\<lambda>x. is_alpha x \<or> is_scheme_rest x) scheme \<and> list_all is_printable rest)"
    (is "?L \<longleftrightarrow> ?R")
proof (cases s)
  case Nil
  then show ?thesis by (simp add: tcpv4NodeIdIsWellFormed_def)
next
  case (Cons c cs)
  let ?P = "\<lambda>x. is_alpha x \<or> is_scheme_rest x"
  let ?w = "takeWhile ?P cs" and ?r = "dropWhile ?P cs"
  have L: "?L \<longleftrightarrow> is_alpha c \<and> length ?w < length cs \<and> cs ! length ?w = of_char CHR '':'' \<and>
      (\<forall>j \<in> {length ?w + 2..<length s}. is_printable (s ! j))"
    using Cons scheme_end_spec[of 1 cs] length_takeWhile_le[of ?P cs]
    by (auto simp: tcpv4NodeIdIsWellFormed_def Let_def is_printable_def not_less)
  have tail: "(\<forall>j \<in> {n + 2..<length s}. is_printable (s ! j)) \<longleftrightarrow> list_all is_printable (drop (n + 2) s)"
    for n
    by (rule all_from_drop)
  show ?thesis
  proof
    assume ?L
    then have a: "is_alpha c" "length ?w < length cs" "cs ! length ?w = of_char CHR '':''"
      "list_all is_printable (drop (length ?w + 2) s)"
      using \<open>?L\<close> unfolding L tail by blast+
    have "cs = ?w @ of_char CHR '':'' # drop (length ?w + 1) cs"
      using a(2,3) by (metis Cons_nth_drop_Suc Suc_eq_plus1 dropWhile_eq_drop takeWhile_dropWhile_id)
    then show ?R using Cons a
      by (intro exI[of _ c] exI[of _ ?w] exI[of _ "drop (length ?w + 1) cs"])
        (auto simp: list_all_iff dest: set_takeWhileD)
  next
    assume ?R
    then obtain scheme rest where r: "cs = scheme @ of_char CHR '':'' # rest" "is_alpha c"
      "list_all ?P scheme" "list_all is_printable rest"
      using Cons by auto
    have w: "?w = scheme" using takeWhile_colon[OF r(3) colon_no_scheme] r(1) by simp
    have "drop (length scheme + 2) s = rest" using Cons r(1) by simp
    then show ?L unfolding L tail w using r by simp
  qed
qed

section \<open>Properties\<close>

text \<open>The overflow test of the digit loop is exact: a component is read to its last digit and
  gets its decimal value whenever that value fits 64 bits, and is refused otherwise; it never
  wraps.\<close>

theorem readComponent_exact:
  assumes "list_all is_digit ds" "ds \<noteq> []" "no_digit_next rest"
  shows "readComponent (ds @ rest) =
     (if dec_from 0 ds < 2 ^ 64 then Some (of_nat (dec_from 0 ds), rest) else None)"
  using read_digits_value[OF assms(1,3), of 0 0] assms(2) by (simp add: readComponent_def)

lemma readComponent_exact_witness:
  "readComponent (ascii ''18446744073709551615.0'') = Some (0xFFFFFFFFFFFFFFFF, ascii ''.0'') \<and>
   readComponent (ascii ''18446744073709551616.0'') = None"
  using readComponent_exact[of "ascii ''18446744073709551615''" "ascii ''.0''"]
    readComponent_exact[of "ascii ''18446744073709551616''" "ascii ''.0''"]
  by (simp add: is_digit_def no_digit_next_def)

text \<open>\<open>tcpv4NodeIdIpn\<close> reads exactly the strings made of \<open>ipn:\<close> in any case and one to three
  decimal components below \<open>2^64\<close> joined by dots, and returns the allocator and node they name.
  One dot behind a third component is taken as well, though the function promises to refuse what
  is malformed.\<close>

theorem tcpv4NodeIdIpn_accepts:
  "tcpv4NodeIdIpn (Some s) = Some key \<longleftrightarrow>
     (\<exists>p t vs. s = p @ t \<and> ipn_prefix p \<and> ipn_text vs t \<and> key = ipn_node vs)"
  by (rule tcpv4NodeIdIpn_iff)

text \<open>Node ID comparison is symmetric, transitive and reflexive on node IDs that are set, so
  two spellings of a node are interchangeable wherever a third is looked up by it.\<close>

theorem tcpv4NodeIdMatches_equivalence:
  "(tcpv4NodeIdMatches a a \<longleftrightarrow> tcpv4NodeIdIsSet a) \<and>
   (tcpv4NodeIdMatches a b \<longrightarrow> (tcpv4NodeIdMatches a c \<longleftrightarrow> tcpv4NodeIdMatches b c))"
  using node_id.matches_refl node_id.matches_set node_id.matches_cong by blast

lemma tcpv4NodeIdMatches_equivalence_witness:
  "tcpv4NodeIdMatches (Some (ascii ''ipn:5'')) (Some (ascii ''dtn:x'')) \<longleftrightarrow>
   tcpv4NodeIdMatches (Some (ascii ''IPN:0.5.7'')) (Some (ascii ''dtn:x''))"
proof -
  have "tcpv4NodeIdMatches (Some (ascii ''ipn:5'')) (Some (ascii ''IPN:0.5.7''))" by code_simp
  then show ?thesis using tcpv4NodeIdMatches_equivalence by blast
qed

text \<open>The well-formedness test accepts exactly a letter, scheme characters, a colon and
  printable non-space characters.\<close>

theorem tcpv4NodeIdIsWellFormed_exact:
  "tcpv4NodeIdIsWellFormed (Some s) (length s) \<longleftrightarrow>
     (\<exists>c scheme rest. s = c # scheme @ of_char CHR '':'' # rest \<and> is_alpha c \<and>
        list_all (\<lambda>x. is_alpha x \<or> is_scheme_rest x) scheme \<and> list_all is_printable rest)"
  by (rule tcpv4NodeIdIsWellFormed_iff)

end
