(* ===== verification/Tcpv4Tx.thy ===== *)
theory Tcpv4Tx
  imports Tcpv4Msg NodeId "HOL-Library.Multiset"
begin

unbundle bit_operations_syntax

text \<open>
  The transfer lists of a TCPCLv4 session (CLA/tcpv4/src/tcpv4tx.c, and the locked sections of
  \<open>handleXferAck\<close> and \<open>handleXferRefuse\<close> in tcpv4rx.c).

  A \<open>Tcpv4Xfer\<close> is a node of an explicit store from addresses to nodes, because the lists are
  singly linked with a tail pointer and several threads hold pointers to one node.  An operation
  is \<open>None\<close> where the code would follow a pointer that is not allocated or never return.  Every
  section of code between locking and unlocking \<open>txMutex\<close> is one operation; the threads are the
  interleavings of these operations, the step relation at the end of the model.  Time, the
  bundle's length and the counters of bundles are integers.

  The lemmas show that the two list operations, pointers and tail included, implement a queue
  (interpretation of \<open>linked_queue\<close>), the invariant of the two lists, and, over every
  interleaving, that a bundle a session has accepted is reported to BP exactly once.
\<close>

section \<open>Model: the data\<close>

type_synonym addr = nat
type_synonym object = u64

record Tcpv4Xfer =
  x_next :: "addr option"
  x_bundle :: object
  x_length :: int
  x_transferId :: u64
  x_inFlight :: bool
  x_acked :: bool
  x_refused :: bool
  x_completed :: bool

type_synonym store = "addr \<Rightarrow> Tcpv4Xfer option"

text \<open>The transmission fields of \<open>Tcpv4Conn\<close>, the store, and the calls of \<open>tx.done\<close> so far.\<close>

record TxState =
  tx_store :: store
  txQueue :: "addr option"
  txQueueTail :: "addr option"
  txWindow :: "addr option"
  txWindowTail :: "addr option"
  txCount :: int
  txBytes :: int
  nextTxId :: u64
  txAckedLen :: u64
  txStopped :: bool
  txActive :: bool
  secSinceTx :: int
  secSinceData :: int
  tx_done :: "(object \<times> bool) list"

definition xfer_succeeded :: "Tcpv4Xfer \<Rightarrow> bool" where
  "xfer_succeeded x \<longleftrightarrow> x_completed x \<or> (x_acked x \<and> \<not> x_refused x)"

text \<open>A session as \<open>startConn\<close> clears it.\<close>

definition tx_init :: TxState where
  "tx_init = \<lparr>tx_store = Map.empty, txQueue = None, txQueueTail = None, txWindow = None,
     txWindowTail = None, txCount = 0, txBytes = 0, nextTxId = 0, txAckedLen = 0,
     txStopped = False, txActive = False, secSinceTx = 0, secSinceData = 0, tx_done = []\<rparr>"

section \<open>Model: the lists\<close>

definition txAppend ::
    "store \<Rightarrow> addr option \<Rightarrow> addr option \<Rightarrow> addr \<Rightarrow> (store \<times> addr option \<times> addr option) option" where
  "txAppend h head tail x =
     (case h x of
        None \<Rightarrow> None
      | Some xf \<Rightarrow>
          (let h = h(x \<mapsto> xf \<lparr> x_next := None \<rparr>)
           in (case tail of
                 None \<Rightarrow> Some (h, Some x, Some x)
               | Some t \<Rightarrow>
                   (case h t of
                      None \<Rightarrow> None
                    | Some tf \<Rightarrow> Some (h(t \<mapsto> tf \<lparr> x_next := Some x \<rparr>), head, Some x)))))"

text \<open>The loop of \<open>txUnlink\<close>: \<open>prev\<close> holds the pointer \<open>pp\<close> points to, the head when it is null.\<close>

partial_function (option) unlink_loop ::
    "store \<Rightarrow> addr option \<Rightarrow> addr option \<Rightarrow> addr option \<Rightarrow> addr option \<Rightarrow> addr \<Rightarrow>
     (bool \<times> store \<times> addr option \<times> addr option) option" where
  "unlink_loop h head tail prev cur x =
     (case cur of
        None \<Rightarrow> Some (False, h, head, tail)
      | Some c \<Rightarrow>
          (case h c of
             None \<Rightarrow> None
           | Some cf \<Rightarrow>
               if c = x then
                 (case prev of
                    None \<Rightarrow>
                      Some (True, h(x \<mapsto> cf \<lparr> x_next := None \<rparr>), x_next cf,
                            if tail = Some x then prev else tail)
                  | Some q \<Rightarrow>
                      (case h q of
                         None \<Rightarrow> None
                       | Some qf \<Rightarrow>
                           Some (True, h(q \<mapsto> qf \<lparr> x_next := x_next cf \<rparr>,
                                         x \<mapsto> cf \<lparr> x_next := None \<rparr>), head,
                                 if tail = Some x then prev else tail)))
               else unlink_loop h head tail (Some c) (x_next cf) x))"

declare unlink_loop.simps [code]

definition txUnlink ::
    "store \<Rightarrow> addr option \<Rightarrow> addr option \<Rightarrow> addr \<Rightarrow>
     (bool \<times> store \<times> addr option \<times> addr option) option" where
  "txUnlink h head tail x = unlink_loop h head tail None head x"

text \<open>The fields of an allocated node; \<open>None\<close> when the pointer is dangling.\<close>

definition upd_xfer :: "(Tcpv4Xfer \<Rightarrow> Tcpv4Xfer) \<Rightarrow> addr \<Rightarrow> TxState \<Rightarrow> TxState option" where
  "upd_xfer f x st = map_option (\<lambda>xf. st \<lparr> tx_store := (tx_store st)(x \<mapsto> f xf) \<rparr>) (tx_store st x)"

definition tcpv4TxFinished :: "TxState \<Rightarrow> addr option \<Rightarrow> (addr option \<times> TxState) option" where
  "tcpv4TxFinished st x =
     (case x of
        None \<Rightarrow> Some (None, st)
      | Some x \<Rightarrow>
          (case tx_store st x of
             None \<Rightarrow> None
           | Some xf \<Rightarrow>
               if x_inFlight xf \<or> (\<not> x_acked xf \<and> \<not> x_refused xf) then Some (None, st)
               else
                 (let st = (if txWindow st = Some x then st \<lparr> txAckedLen := 0 \<rparr> else st)
                  in (case txUnlink (tx_store st) (txWindow st) (txWindowTail st) x of
                        None \<Rightarrow> None
                      | Some (found, h, head, tail) \<Rightarrow>
                          (let st = st \<lparr> tx_store := h, txWindow := head, txWindowTail := tail \<rparr>
                           in if \<not> found then Some (None, st)
                              else Some (Some x, st \<lparr> txCount := txCount st - 1,
                                           txBytes := txBytes st - x_length xf,
                                           txActive := (txCount st - 1 \<noteq> 0) \<rparr>))))))"

definition tcpv4TxStop :: "TxState \<Rightarrow> TxState" where
  "tcpv4TxStop st = st \<lparr> txStopped := True \<rparr>"

text \<open>\<open>e->tx.done (...); MRELEASE (done)\<close>, when there is a transfer to report.\<close>

definition report_done :: "addr option \<Rightarrow> TxState \<Rightarrow> TxState option" where
  "report_done x st =
     (case x of
        None \<Rightarrow> Some st
      | Some x \<Rightarrow>
          map_option (\<lambda>xf. st \<lparr> tx_done := tx_done st @ [(x_bundle xf, xfer_succeeded xf)],
                                tx_store := (tx_store st)(x := None) \<rparr>) (tx_store st x))"

text \<open>\<open>done = tcpv4TxFinished (conn, x)\<close> and, after unlocking, the report of \<open>done\<close>.\<close>

definition retire :: "TxState \<Rightarrow> addr \<Rightarrow> TxState option" where
  "retire st x =
     (case tcpv4TxFinished st (Some x) of
        None \<Rightarrow> None
      | Some (fin, st) \<Rightarrow> report_done fin st)"

text \<open>
  \<open>tcpv4TxDrain\<close>: the splicing loop pushes a list on \<open>dead\<close>, the reporting loop pops it.
\<close>

partial_function (option) splice_loop ::
    "store \<Rightarrow> addr option \<Rightarrow> addr option \<Rightarrow> (store \<times> addr option) option" where
  "splice_loop h list dead =
     (case list of
        None \<Rightarrow> Some (h, dead)
      | Some x \<Rightarrow>
          (case h x of
             None \<Rightarrow> None
           | Some xf \<Rightarrow> splice_loop (h(x \<mapsto> xf \<lparr> x_next := dead \<rparr>)) (x_next xf) (Some x)))"

partial_function (option) report_loop :: "TxState \<Rightarrow> addr option \<Rightarrow> TxState option" where
  "report_loop st dead =
     (case dead of
        None \<Rightarrow> Some st
      | Some x \<Rightarrow>
          (case tx_store st x of
             None \<Rightarrow> None
           | Some xf \<Rightarrow>
               (case report_done (Some x) st of
                  None \<Rightarrow> None
                | Some st \<Rightarrow> report_loop st (x_next xf))))"

declare splice_loop.simps [code] report_loop.simps [code]

definition tcpv4TxDrain :: "TxState \<Rightarrow> TxState option" where
  "tcpv4TxDrain st =
     (case splice_loop (tx_store st) (txQueue st) None of
        None \<Rightarrow> None
      | Some (h, dead) \<Rightarrow>
          (case splice_loop h (txWindow st) dead of
             None \<Rightarrow> None
           | Some (h, dead) \<Rightarrow>
               report_loop (st \<lparr> txStopped := True, tx_store := h, txQueue := None, txWindow := None,
                 txQueueTail := None, txWindowTail := None, txCount := 0, txBytes := 0,
                 txActive := False \<rparr>) dead))"

section \<open>Model: queueing a transfer\<close>

text \<open>The condition under which \<open>queueXfer\<close> waits for room.\<close>

definition tx_must_wait :: "int \<Rightarrow> int \<Rightarrow> TxState \<Rightarrow> int \<Rightarrow> bool" where
  "tx_must_wait window windowBytes st len \<longleftrightarrow>
     \<not> txStopped st \<and> txCount st > 0 \<and>
     ((window > 0 \<and> txCount st \<ge> window) \<or> (windowBytes > 0 \<and> txBytes st + len > windowBytes))"

text \<open>
  \<open>queueXfer\<close> from the moment its wait is over, because there is room, because the session is
  stopping or because it has timed out; \<open>taken\<close> is what \<open>MTAKE\<close> returned.  The wait itself is the
  guard of its step (\<open>tx_must_wait\<close>).
\<close>

definition queueXfer ::
    "u64 \<Rightarrow> TxState \<Rightarrow> addr option \<Rightarrow> bool \<Rightarrow> object \<Rightarrow> int \<Rightarrow> (int \<times> TxState) option" where
  "queueXfer transferMtu st taken timedOut bundle len =
     (if (word_of_int len :: u64) > transferMtu then Some (-1, st)
      else
        (case taken of
           None \<Rightarrow> Some (-1, st)
         | Some x \<Rightarrow>
             if timedOut \<or> txStopped st then Some (-1, st)
             else
               (let h = (tx_store st)(x \<mapsto> \<lparr>x_next = None, x_bundle = bundle, x_length = len,
                          x_transferId = 0, x_inFlight = False, x_acked = False,
                          x_refused = False, x_completed = False\<rparr>)
                in (case txAppend h (txQueue st) (txQueueTail st) x of
                      None \<Rightarrow> None
                    | Some (h, head, tail) \<Rightarrow>
                        Some (0, st \<lparr> tx_store := h, txQueue := head, txQueueTail := tail,
                                txCount := txCount st + 1, txBytes := txBytes st + len,
                                txActive := True, secSinceData := 0 \<rparr>)))))"

section \<open>Model: the transmit thread's locked sections\<close>

text \<open>The transfer to write, moved to the window; \<open>None\<close> inside: nothing left, or stopped.\<close>

definition xmit_take :: "TxState \<Rightarrow> (addr option \<times> TxState) option" where
  "xmit_take st =
     (case txQueue st of
        None \<Rightarrow> Some (None, st)
      | Some x \<Rightarrow>
          if txStopped st then Some (None, st)
          else
            (case txUnlink (tx_store st) (txQueue st) (txQueueTail st) x of
               None \<Rightarrow> None
             | Some (found, h, head, tail) \<Rightarrow>
                 (case upd_xfer (\<lambda>xf. xf \<lparr> x_transferId := nextTxId st, x_inFlight := True \<rparr>) x
                         (st \<lparr> tx_store := h, txQueue := head, txQueueTail := tail,
                               nextTxId := nextTxId st + 1 \<rparr>) of
                    None \<Rightarrow> None
                  | Some st \<Rightarrow>
                      (case txAppend (tx_store st) (txWindow st) (txWindowTail st) x of
                         None \<Rightarrow> None
                       | Some (h, head, tail) \<Rightarrow>
                           Some (Some x, st \<lparr> tx_store := h, txWindow := head,
                                           txWindowTail := tail \<rparr>)))))"

text \<open>Letting go of a transfer that was written, or could not be.\<close>

definition xmit_let_go :: "TxState \<Rightarrow> addr \<Rightarrow> bool \<Rightarrow> TxState option" where
  "xmit_let_go st x failed =
     (case upd_xfer (\<lambda>xf. xf \<lparr> x_inFlight := False, x_refused := x_refused xf \<or> failed \<rparr>) x st of
        None \<Rightarrow> None
      | Some st \<Rightarrow> retire st x)"

section \<open>Model: acknowledgments and refusals\<close>

text \<open>The locked section of \<open>handleXferAck\<close> and the report behind it; the result says whether the
  acknowledgment was unexpected.\<close>

definition ack_section :: "TxState \<Rightarrow> u64 \<Rightarrow> u64 \<Rightarrow> (bool \<times> TxState) option" where
  "ack_section st transferId ackLength =
     (case txWindow st of
        None \<Rightarrow> Some (True, st)
      | Some head \<Rightarrow>
          (case tx_store st head of
             None \<Rightarrow> None
           | Some xf \<Rightarrow>
               if transferId \<noteq> x_transferId xf then Some (True, st)
               else if ackLength \<le> txAckedLen st \<or> ackLength > word_of_int (x_length xf) then
                 (case upd_xfer (\<lambda>xf. xf \<lparr> x_refused := True \<rparr>) head st of
                    None \<Rightarrow> None
                  | Some st \<Rightarrow> map_option (Pair True) (retire st head))
               else
                 (let st = st \<lparr> txAckedLen := ackLength \<rparr>
                  in if ackLength = word_of_int (x_length xf) then
                       (case upd_xfer (\<lambda>xf. xf \<lparr> x_acked := True \<rparr>) head st of
                          None \<Rightarrow> None
                        | Some st \<Rightarrow> map_option (Pair False) (retire st head))
                     else Some (False, st))))"

partial_function (option) find_refused :: "store \<Rightarrow> addr option \<Rightarrow> u64 \<Rightarrow> addr option option" where
  "find_refused h cur ident =
     (case cur of
        None \<Rightarrow> Some None
      | Some x \<Rightarrow>
          (case h x of
             None \<Rightarrow> None
           | Some xf \<Rightarrow> if x_transferId xf = ident then Some (Some x)
                        else find_refused h (x_next xf) ident))"

declare find_refused.simps [code]

text \<open>The locked section of \<open>handleXferRefuse\<close> and the report; whether a transfer was found.\<close>

definition refuse_section :: "TxState \<Rightarrow> u64 \<Rightarrow> u8 \<Rightarrow> (bool \<times> TxState) option" where
  "refuse_section st transferId reason =
     (case find_refused (tx_store st) (txWindow st) transferId of
        None \<Rightarrow> None
      | Some None \<Rightarrow> Some (False, st)
      | Some (Some x) \<Rightarrow>
          (case upd_xfer (\<lambda>xf. xf \<lparr> x_refused := True,
                   x_completed := x_completed xf \<or> reason = TMSG_REFUSE_COMPLETED \<rparr>) x st of
             None \<Rightarrow> None
           | Some st \<Rightarrow> map_option (Pair True) (retire st x)))"

section \<open>Model: the interleavings\<close>

text \<open>
  A session with its threads: what the transmit thread is writing, whether it has ended, and the
  events so far, which are the bundles \<open>queueXfer\<close> took, the transfers begun (bundle, transfer ID,
  length), and the acknowledgments (ID, length) and refusals (ID, reason) the peer sent.
\<close>

record TxSys =
  sys_tx :: TxState
  sys_writing :: "addr option"
  sys_ended :: bool
  sys_accepted :: "object list"
  sys_begun :: "(object \<times> u64 \<times> int) list"
  sys_acks :: "(u64 \<times> u64) set"
  sys_refusals :: "(u64 \<times> u8) set"

definition sys_init :: TxSys where
  "sys_init = \<lparr>sys_tx = tx_init, sys_writing = None, sys_ended = False, sys_accepted = [],
     sys_begun = [], sys_acks = {}, sys_refusals = {}\<rparr>"

text \<open>
  One step of any thread.  The premises on \<open>sys_writing\<close> and \<open>sys_ended\<close> say that there is one
  transmit thread; that of the last step says that it has been joined (\<open>freeConn\<close>).
\<close>

inductive tx_step :: "int \<Rightarrow> int \<Rightarrow> u64 \<Rightarrow> TxSys \<Rightarrow> TxSys \<Rightarrow> bool" for window windowBytes mtu where
  Enqueue: "tx_step window windowBytes mtu s (s \<lparr>
      sys_accepted := (if r = 0 then sys_accepted s @ [bundle] else sys_accepted s), sys_tx := st \<rparr>)"
    if "\<And>x. taken = Some x \<Longrightarrow> tx_store (sys_tx s) x = None" "0 \<le> len"
      "timedOut \<or> \<not> tx_must_wait window windowBytes (sys_tx s) len"
      "queueXfer mtu (sys_tx s) taken timedOut bundle len = Some (r, st)"
| Take: "tx_step window windowBytes mtu s (s \<lparr> sys_writing := Some x,
      sys_begun := sys_begun s @ [(x_bundle xf, x_transferId xf, x_length xf)], sys_tx := st \<rparr>)"
    if "sys_writing s = None" "\<not> sys_ended s" "xmit_take (sys_tx s) = Some (Some x, st)"
      "tx_store st x = Some xf"
| Leave: "tx_step window windowBytes mtu s (s \<lparr> sys_ended := True, sys_tx := st \<rparr>)"
    if "sys_writing s = None" "txStopped (sys_tx s)" "xmit_take (sys_tx s) = Some (None, st)"
| LetGo: "tx_step window windowBytes mtu s (s \<lparr> sys_writing := None, sys_ended := failed, sys_tx := st \<rparr>)"
    if "sys_writing s = Some x" "xmit_let_go (sys_tx s) x failed = Some st"
| Ack: "tx_step window windowBytes mtu s (s \<lparr> sys_acks := insert (ident, len) (sys_acks s), sys_tx := st \<rparr>)"
    if "ack_section (sys_tx s) ident len = Some (unexpected, st)"
| Refuse: "tx_step window windowBytes mtu s (s \<lparr>
      sys_refusals := insert (ident, reason) (sys_refusals s), sys_tx := st \<rparr>)"
    if "refuse_section (sys_tx s) ident reason = Some (found, st)"
| Stop: "tx_step window windowBytes mtu s (s \<lparr> sys_tx := tcpv4TxStop (sys_tx s) \<rparr>)"
| Drain: "tx_step window windowBytes mtu s (s \<lparr> sys_tx := st \<rparr>)"
    if "sys_writing s = None" "tcpv4TxDrain (sys_tx s) = Some st"

inductive tx_reach :: "int \<Rightarrow> int \<Rightarrow> u64 \<Rightarrow> TxSys \<Rightarrow> bool" for window windowBytes mtu where
  Init: "tx_reach window windowBytes mtu sys_init"
| Step: "tx_reach window windowBytes mtu s \<Longrightarrow> tx_step window windowBytes mtu s s' \<Longrightarrow>
    tx_reach window windowBytes mtu s'"

section \<open>Linked lists\<close>

text \<open>From pointer \<open>p\<close> the nodes \<open>xs\<close> lead to pointer \<open>q\<close>.\<close>

fun chain :: "store \<Rightarrow> addr option \<Rightarrow> addr list \<Rightarrow> addr option \<Rightarrow> bool" where
  "chain h p [] q \<longleftrightarrow> p = q"
| "chain h p (a # as) q \<longleftrightarrow> p = Some a \<and> (case h a of None \<Rightarrow> False | Some xf \<Rightarrow> chain h (x_next xf) as q)"

definition queue_ok :: "store \<Rightarrow> addr option \<Rightarrow> addr option \<Rightarrow> addr list \<Rightarrow> bool" where
  "queue_ok h head tail xs \<longleftrightarrow>
     chain h head xs None \<and> distinct xs \<and> tail = (if xs = [] then None else Some (last xs))"

text \<open>A node without its link.\<close>

definition content :: "store \<Rightarrow> addr \<Rightarrow> Tcpv4Xfer option" where
  "content h a = map_option (\<lambda>xf. xf \<lparr> x_next := None \<rparr>) (h a)"

lemma chain_append: "chain h p (xs @ ys) r \<longleftrightarrow> (\<exists>q. chain h p xs q \<and> chain h q ys r)"
  by (induction xs arbitrary: p) (auto split: option.splits)

lemma chain_cong: "\<forall>a \<in> set xs. map_option x_next (h a) = map_option x_next (h' a) \<Longrightarrow> chain h p xs q = chain h' p xs q"
proof (induction xs arbitrary: p)
  case (Cons a xs)
  have "map_option x_next (h a) = map_option x_next (h' a)" using Cons.prems by simp
  then show ?case using Cons by (cases "h a"; cases "h' a") auto
qed simp

lemma chain_upd [simp]: "a \<notin> set xs \<Longrightarrow> chain (h(a := v)) p xs q = chain h p xs q"
  by (rule chain_cong) auto

lemma chain_alloc: "chain h p xs q \<Longrightarrow> a \<in> set xs \<Longrightarrow> h a \<noteq> None"
  by (induction xs arbitrary: p) (auto split: option.splits)

lemma chain_hd: "chain h p xs None \<Longrightarrow> p = (if xs = [] then None else Some (hd xs))"
  by (cases xs) auto

lemma queue_ok_head: "queue_ok h head tail xs \<Longrightarrow> head = (if xs = [] then None else Some (hd xs))"
  by (auto simp: queue_ok_def dest: chain_hd)

lemma queue_ok_alloc: "queue_ok h head tail xs \<Longrightarrow> a \<in> set xs \<Longrightarrow> \<exists>xf. h a = Some xf"
  using chain_alloc unfolding queue_ok_def by blast

lemma queue_ok_cong:
  "queue_ok h head tail xs \<Longrightarrow> \<forall>a \<in> set xs. map_option x_next (h a) = map_option x_next (h' a) \<Longrightarrow>
     queue_ok h' head tail xs"
  using chain_cong[of xs h h'] by (auto simp: queue_ok_def)

lemma queue_ok_empty: "queue_ok h None None []"
  by (simp add: queue_ok_def)

lemma txAppend_spec:
  assumes "queue_ok h head tail xs" "x \<notin> set xs" "h x \<noteq> None"
  shows "\<exists>h' head' tail'. txAppend h head tail x = Some (h', head', tail') \<and>
     queue_ok h' head' tail' (xs @ [x]) \<and> (\<forall>a. content h' a = content h a) \<and>
     (\<forall>a. a \<noteq> x \<longrightarrow> a \<notin> set xs \<longrightarrow> h' a = h a)"
proof -
  obtain xf where xf: "h x = Some xf" using assms(3) by blast
  let ?h = "h(x \<mapsto> xf \<lparr> x_next := None \<rparr>)"
  show ?thesis
  proof (cases "xs = []")
    case True
    then have "txAppend h head tail x = Some (?h, Some x, Some x)"
      using assms(1) xf by (simp add: txAppend_def queue_ok_def)
    moreover have "queue_ok ?h (Some x) (Some x) (xs @ [x])" using True by (simp add: queue_ok_def)
    moreover have "content ?h a = content h a" for a using xf by (simp add: content_def)
    ultimately show ?thesis by fastforce
  next
    case False
    then obtain ys t where xs: "xs = ys @ [t]" by (cases xs rule: rev_cases) auto
    have q: "chain h head (ys @ [t]) None" "distinct (ys @ [t])" "tail = Some t"
      using assms(1) xs by (simp_all add: queue_ok_def)
    obtain tf where tf: "h t = Some tf" using q(1) chain_alloc[of h head "ys @ [t]" None t] by auto
    let ?h' = "?h(t \<mapsto> tf \<lparr> x_next := Some x \<rparr>)"
    have ne: "x \<noteq> t" "x \<notin> set ys" "t \<notin> set ys" using assms(2) xs q(2) by auto
    have e: "txAppend h head tail x = Some (?h', head, Some x)"
      using xf tf q(3) ne by (simp add: txAppend_def)
    have "chain h head ys (Some t)" using q(1) by (auto simp: chain_append)
    then have "chain ?h' head ys (Some t)" using ne by simp
    then have "chain ?h' head ((ys @ [t]) @ [x]) None"
      using ne by (simp add: chain_append)
    then have "queue_ok ?h' head (Some x) (xs @ [x])"
      using xs q(2) ne by (simp add: queue_ok_def)
    moreover have "content ?h' a = content h a" for a using xf tf by (simp add: content_def)
    moreover have "a \<noteq> x \<Longrightarrow> a \<notin> set xs \<Longrightarrow> ?h' a = h a" for a using xs by simp
    ultimately show ?thesis using e by blast
  qed
qed

lemma unlink_loop_absent:
  "chain h cur xs None \<Longrightarrow> x \<notin> set xs \<Longrightarrow> unlink_loop h head tail prev cur x = Some (False, h, head, tail)"
proof (induction xs arbitrary: cur prev)
  case Nil
  then show ?case by (subst unlink_loop.simps) simp
next
  case (Cons a xs)
  then show ?case by (subst unlink_loop.simps) (auto split: option.splits)
qed

text \<open>What unlinking does to a well-formed list.\<close>

definition unlinked ::
    "store \<Rightarrow> addr list \<Rightarrow> addr \<Rightarrow> store \<Rightarrow> addr option \<Rightarrow> addr option \<Rightarrow> bool" where
  "unlinked h xs x h' head' tail' \<longleftrightarrow>
     queue_ok h' head' tail' (remove1 x xs) \<and> (\<forall>a. content h' a = content h a) \<and>
     (\<forall>a. a \<notin> set xs \<longrightarrow> h' a = h a)"

lemma unlink_loop_present:
  assumes "queue_ok h head tail (ys @ zs)" "x \<in> set zs"
    "prev = (if ys = [] then None else Some (last ys))" "chain h cur zs None"
    "x \<notin> set ys"
  shows "\<exists>h' head' tail'. unlink_loop h head tail prev cur x = Some (True, h', head', tail') \<and>
     unlinked h (ys @ zs) x h' head' tail'"
  using assms
proof (induction zs arbitrary: ys prev cur)
  case (Cons z zs)
  obtain zf where zf: "h z = Some zf" "cur = Some z" "chain h (x_next zf) zs None"
    using Cons.prems(4) by (auto split: option.splits)
  have d: "distinct (ys @ z # zs)" and segs: "chain h head (ys @ z # zs) None"
    and tail: "tail = Some (last (z # zs))"
    using Cons.prems(1) by (auto simp: queue_ok_def)
  show ?case
  proof (cases "z = x")
    case False
    have "\<exists>h' head' tail'. unlink_loop h head tail (Some z) (x_next zf) x = Some (True, h', head', tail') \<and>
        unlinked h ((ys @ [z]) @ zs) x h' head' tail'"
      using Cons.prems False zf(3) by (intro Cons.IH) auto
    then show ?thesis using False zf by (subst unlink_loop.simps) simp
  next
    case x: True
    have rm: "remove1 x (ys @ z # zs) = ys @ zs" using x Cons.prems(5) by (simp add: remove1_append)
    have nx: "x \<notin> set zs" using d x by auto
    show ?thesis
    proof (cases ys rule: rev_cases)
      case Nil
      let ?h = "h(x \<mapsto> zf \<lparr> x_next := None \<rparr>)"
      have "unlink_loop h head tail prev cur x =
          Some (True, ?h, x_next zf, if tail = Some x then prev else tail)"
        using zf x Nil Cons.prems(3) by (subst unlink_loop.simps) simp
      moreover have "queue_ok ?h (x_next zf) (if tail = Some x then prev else tail) zs"
        using zf(3) nx d tail Nil Cons.prems(3) x by (cases zs rule: rev_cases) (auto simp: queue_ok_def)
      moreover have "content ?h a = content h a" for a using zf(1) x by (simp add: content_def)
      ultimately show ?thesis using rm Nil x by (auto simp: unlinked_def)
    next
      case (snoc us q)
      have nq: "q \<noteq> x" "q \<notin> set us" "q \<notin> set zs" "x \<notin> set us" using snoc Cons.prems(5) d by auto
      have s1: "chain h head us (Some q)" using segs snoc by (auto simp: chain_append)
      obtain qf where qf: "h q = Some qf" using chain_alloc[OF segs, of q] snoc by auto
      let ?h = "h(q \<mapsto> qf \<lparr> x_next := x_next zf \<rparr>, x \<mapsto> zf \<lparr> x_next := None \<rparr>)"
      have e: "unlink_loop h head tail prev cur x =
          Some (True, ?h, head, if tail = Some x then prev else tail)"
        using zf x snoc Cons.prems(3) qf by (subst unlink_loop.simps) simp
      have "chain ?h head us (Some q)" "chain ?h (x_next zf) zs None" using s1 zf(3) nq nx by simp_all
      then have "chain ?h head (ys @ zs) None"
        using snoc nq by (simp add: chain_append)
      moreover have "(if tail = Some x then prev else tail) = (if ys @ zs = [] then None else Some (last (ys @ zs)))"
        using tail snoc Cons.prems(3) x nx by (cases zs rule: rev_cases) auto
      ultimately have "queue_ok ?h head (if tail = Some x then prev else tail) (ys @ zs)"
        using d by (simp add: queue_ok_def)
      moreover have "content ?h a = content h a" for a using zf(1) x qf by (simp add: content_def)
      moreover have "a \<notin> set (ys @ z # zs) \<Longrightarrow> ?h a = h a" for a using snoc x by auto
      ultimately show ?thesis using e rm by (auto simp: unlinked_def)
    qed
  qed
qed simp

lemma txUnlink_spec:
  assumes "queue_ok h head tail xs" "x \<in> set xs"
  shows "\<exists>h' head' tail'. txUnlink h head tail x = Some (True, h', head', tail') \<and> unlinked h xs x h' head' tail'"
  using unlink_loop_present[of h head tail "[]" xs x None head] assms
  by (simp add: txUnlink_def queue_ok_def)

lemma txUnlink_absent:
  "queue_ok h head tail xs \<Longrightarrow> x \<notin> set xs \<Longrightarrow> txUnlink h head tail x = Some (False, h, head, tail)"
  unfolding txUnlink_def queue_ok_def using unlink_loop_absent by blast

section \<open>The two lists\<close>

text \<open>A node's fields without its link; the lists of a session, and its counters.\<close>

definition info :: "TxState \<Rightarrow> addr \<Rightarrow> Tcpv4Xfer" where
  "info st a = the (content (tx_store st) a)"

definition tx_ok :: "TxState \<Rightarrow> addr list \<Rightarrow> addr list \<Rightarrow> bool" where
  "tx_ok st qs ws \<longleftrightarrow>
     queue_ok (tx_store st) (txQueue st) (txQueueTail st) qs \<and>
     queue_ok (tx_store st) (txWindow st) (txWindowTail st) ws \<and>
     set qs \<inter> set ws = {} \<and> dom (tx_store st) = set qs \<union> set ws \<and>
     txCount st = int (length (qs @ ws)) \<and>
     txBytes st = (\<Sum>a \<leftarrow> qs @ ws. x_length (info st a)) \<and>
     txActive st = (qs @ ws \<noteq> [])"

lemma info_store: "tx_store st a = Some xf \<Longrightarrow> info st a = xf \<lparr> x_next := None \<rparr>"
  by (simp add: info_def content_def)

lemma info_fields:
  assumes "tx_store st a = Some xf"
  shows "x_bundle xf = x_bundle (info st a)" "x_length xf = x_length (info st a)"
    "x_transferId xf = x_transferId (info st a)" "x_inFlight xf = x_inFlight (info st a)"
    "x_acked xf = x_acked (info st a)" "x_refused xf = x_refused (info st a)"
    "x_completed xf = x_completed (info st a)" "xfer_succeeded xf = xfer_succeeded (info st a)"
  by (simp_all add: info_store[OF assms] xfer_succeeded_def)

lemma tx_ok_alloc: "tx_ok st qs ws \<Longrightarrow> a \<in> set qs \<union> set ws \<Longrightarrow> \<exists>xf. tx_store st a = Some xf"
  unfolding tx_ok_def by blast

lemma tx_ok_heads:
  assumes "tx_ok st qs ws"
  shows "txQueue st = (if qs = [] then None else Some (hd qs))"
    "txWindow st = (if ws = [] then None else Some (hd ws))"
  using assms queue_ok_head unfolding tx_ok_def by blast+

text \<open>Changing other fields of a node than its link, its bundle and its length.\<close>

lemma upd_xfer_spec:
  assumes "tx_ok st qs ws" "x \<in> set qs \<union> set ws"
    "\<And>xf. x_next (f xf) = x_next xf" "\<And>xf. x_length (f xf) = x_length xf"
    "\<And>xf. (f xf) \<lparr> x_next := None \<rparr> = f (xf \<lparr> x_next := None \<rparr>)"
  shows "\<exists>st'. upd_xfer f x st = Some st' \<and> tx_ok st' qs ws \<and>
     info st' = (info st)(x := f (info st x)) \<and>
     (\<exists>h. st' = st \<lparr> tx_store := h \<rparr>)"
proof -
  obtain xf where xf: "tx_store st x = Some xf" using tx_ok_alloc[OF assms(1,2)] by blast
  let ?h = "(tx_store st)(x \<mapsto> f xf)"
  let ?st = "st \<lparr> tx_store := ?h \<rparr>"
  have e: "upd_xfer f x st = Some ?st" using xf by (simp add: upd_xfer_def)
  have i: "info ?st = (info st)(x := f (info st x))"
    using xf assms(5) by (auto simp: info_def content_def)
  have lens: "x_length (info ?st a) = x_length (info st a)" for a
    unfolding i using assms(4) by simp
  have "queue_ok ?h head tail xs" if "queue_ok (tx_store st) head tail xs" for head tail xs
    by (rule queue_ok_cong[OF that]) (simp add: xf assms(3))
  then have "tx_ok ?st qs ws"
    using assms(1,2) xf unfolding tx_ok_def lens by auto
  then show ?thesis using e i by blast
qed

lemma retire_spec:
  assumes "tx_ok st qs ws" "x \<in> set ws"
  shows "\<exists>st'. retire st x = Some st' \<and>
     (if x_inFlight (info st x) \<or> (\<not> x_acked (info st x) \<and> \<not> x_refused (info st x)) then st' = st
      else tx_ok st' qs (remove1 x ws) \<and> (\<forall>a. a \<noteq> x \<longrightarrow> info st' a = info st a) \<and>
        tx_done st' = tx_done st @ [(x_bundle (info st x), xfer_succeeded (info st x))] \<and>
        nextTxId st' = nextTxId st \<and> txStopped st' = txStopped st \<and> txQueue st' = txQueue st)"
proof -
  obtain xf where xf: "tx_store st x = Some xf" using tx_ok_alloc[OF assms(1)] assms(2) by blast
  note fields = info_fields[OF xf]
  show ?thesis
  proof (cases "x_inFlight xf \<or> (\<not> x_acked xf \<and> \<not> x_refused xf)")
    case True
    then show ?thesis using xf fields by (simp add: retire_def tcpv4TxFinished_def report_done_def)
  next
    case False
    define st1 where "st1 = (if txWindow st = Some x then st \<lparr> txAckedLen := 0 \<rparr> else st)"
    have st1: "tx_store st1 = tx_store st" "txWindow st1 = txWindow st" "txWindowTail st1 = txWindowTail st"
      "txQueue st1 = txQueue st" "txQueueTail st1 = txQueueTail st" "txCount st1 = txCount st"
      "txBytes st1 = txBytes st" "tx_done st1 = tx_done st" "nextTxId st1 = nextTxId st"
      "txStopped st1 = txStopped st"
      by (simp_all add: st1_def)
    have qw: "queue_ok (tx_store st) (txWindow st) (txWindowTail st) ws"
      and qq: "queue_ok (tx_store st) (txQueue st) (txQueueTail st) qs"
      and disj: "set qs \<inter> set ws = {}" and d: "dom (tx_store st) = set qs \<union> set ws"
      and cnt: "txCount st = int (length (qs @ ws))"
      and byt: "txBytes st = (\<Sum>a \<leftarrow> qs @ ws. x_length (info st a))"
      using assms(1) unfolding tx_ok_def by blast+
    obtain h p t where u: "txUnlink (tx_store st) (txWindow st) (txWindowTail st) x = Some (True, h, p, t)"
      and un: "unlinked (tx_store st) ws x h p t" using txUnlink_spec[OF qw assms(2)] by blast
    let ?st2 = "st1 \<lparr> tx_store := h, txWindow := p, txWindowTail := t, txCount := txCount st - 1,
        txBytes := txBytes st - x_length xf, txActive := (txCount st - 1 \<noteq> 0) \<rparr>"
    have fin: "tcpv4TxFinished st (Some x) = Some (Some x, ?st2)"
      using xf False u st1 by (simp add: tcpv4TxFinished_def flip: st1_def)
    have cont: "content h a = content (tx_store st) a" for a using un by (simp add: unlinked_def)
    obtain xf2 where xf2: "h x = Some xf2" "xf2 \<lparr> x_next := None \<rparr> = xf \<lparr> x_next := None \<rparr>"
      using cont[of x] xf by (auto simp: content_def)
    have same: "x_bundle xf2 = x_bundle xf" "xfer_succeeded xf2 = xfer_succeeded xf"
      using xf2(2) by (metis Tcpv4Xfer.select_convs Tcpv4Xfer.update_convs(1) Tcpv4Xfer.surjective)
        (metis (no_types, lifting) xf2(2) xfer_succeeded_def Tcpv4Xfer.select_convs Tcpv4Xfer.update_convs(1) Tcpv4Xfer.surjective)
    let ?st3 = "?st2 \<lparr> tx_done := tx_done st @ [(x_bundle xf, xfer_succeeded xf)], tx_store := h(x := None) \<rparr>"
    have e: "retire st x = Some ?st3"
      using fin xf2 same st1 by (simp add: retire_def report_done_def)
    have inf: "info ?st3 a = info st a" if "a \<noteq> x" for a
      using cont[of a] that by (simp add: info_def content_def)
    have nx: "x \<notin> set (remove1 x ws)" "x \<notin> set qs"
      using qw assms(2) disj by (auto simp: queue_ok_def)
    have "queue_ok h p t (remove1 x ws)" using un by (simp add: unlinked_def)
    then have w3: "queue_ok (h(x := None)) p t (remove1 x ws)"
      by (rule queue_ok_cong) (use nx in auto)
    have q3: "queue_ok (h(x := None)) (txQueue st) (txQueueTail st) qs"
      by (rule queue_ok_cong[OF qq]) (use un nx disj in \<open>auto simp: unlinked_def\<close>)
    have dh: "dom h = dom (tx_store st)"
    proof -
      have "h a = None \<longleftrightarrow> tx_store st a = None" for a
        using cont[of a] by (cases "h a"; cases "tx_store st a") (auto simp: content_def)
      then show ?thesis by (auto simp: dom_def)
    qed
    have set3: "dom (h(x := None)) = set qs \<union> set (remove1 x ws)"
      using dh d nx qw by (auto simp: queue_ok_def set_remove1_eq)
    have len3: "int (length (qs @ remove1 x ws)) = txCount st - 1"
      using cnt assms(2) by (simp add: length_remove1) (cases ws; simp)
    have "(\<Sum>a \<leftarrow> qs @ remove1 x ws. x_length (info ?st3 a)) = (\<Sum>a \<leftarrow> qs @ remove1 x ws. x_length (info st a))"
    proof (intro arg_cong[where f = sum_list] map_cong refl)
      fix a assume "a \<in> set (qs @ remove1 x ws)"
      then have "a \<noteq> x" using nx by auto
      then show "x_length (info ?st3 a) = x_length (info st a)" by (rule arg_cong[OF inf])
    qed
    also have "\<dots> = txBytes st - x_length xf"
      using byt fields(2) sum_list_map_remove1[OF assms(2), of "\<lambda>a. x_length (info st a)"] by simp
    finally have byt3: "(\<Sum>a \<leftarrow> qs @ remove1 x ws. x_length (info ?st3 a)) = txBytes st - x_length xf" .
    have disj3: "set qs \<inter> set (remove1 x ws) = {}" using disj set_remove1_subset[of x ws] by blast
    have act3: "(txCount st - 1 \<noteq> 0) = (qs @ remove1 x ws \<noteq> [])"
      unfolding len3[symmetric] by (metis length_0_conv of_nat_0_eq_iff)
    have "tx_ok ?st3 qs (remove1 x ws)"
      unfolding tx_ok_def
    proof (intro conjI)
      show "txBytes ?st3 = (\<Sum>a \<leftarrow> qs @ remove1 x ws. x_length (info ?st3 a))" unfolding byt3 by simp
      show "txActive ?st3 = (qs @ remove1 x ws \<noteq> [])" by (rule trans[OF _ act3]) simp
    qed (use w3 q3 set3 len3 disj3 act3 st1 in simp_all)
    then show ?thesis using e inf fields False st1 by auto
  qed
qed

lemma sum_list_upd: "x \<notin> set xs \<Longrightarrow> (\<Sum>a \<leftarrow> xs. f ((g(x := v)) a)) = (\<Sum>a \<leftarrow> xs. f (g a))"
  by (induction xs) auto

lemma content_store_dom: "(\<forall>a. content h a = content h' a) \<Longrightarrow> dom h = dom h'"
proof -
  assume c: "\<forall>a. content h a = content h' a"
  have "h a = None \<longleftrightarrow> h' a = None" for a
    using c[rule_format, of a] by (cases "h a"; cases "h' a") (auto simp: content_def)
  then show ?thesis by (auto simp: dom_def)
qed

definition fresh_xfer :: "object \<Rightarrow> int \<Rightarrow> Tcpv4Xfer" where
  "fresh_xfer bundle len = \<lparr>x_next = None, x_bundle = bundle, x_length = len, x_transferId = 0,
     x_inFlight = False, x_acked = False, x_refused = False, x_completed = False\<rparr>"

lemma queueXfer_spec:
  assumes "tx_ok st qs ws" "\<And>x. taken = Some x \<Longrightarrow> tx_store st x = None"
  shows "\<exists>r st'. queueXfer mtu st taken timedOut bundle len = Some (r, st') \<and>
     ((r = -1 \<and> st' = st) \<or>
      (r = 0 \<and> (\<exists>x. taken = Some x \<and> tx_ok st' (qs @ [x]) ws \<and>
         info st' = (info st)(x := fresh_xfer bundle len) \<and> tx_done st' = tx_done st \<and>
         nextTxId st' = nextTxId st \<and> txStopped st' = txStopped st \<and> \<not> timedOut \<and> \<not> txStopped st)))"
proof (cases "(word_of_int len :: u64) > mtu \<or> taken = None \<or> timedOut \<or> txStopped st")
  case True
  then have "queueXfer mtu st taken timedOut bundle len = Some (-1, st)"
    by (cases taken) (auto simp: queueXfer_def)
  then show ?thesis by simp
next
  case False
  then obtain x where x: "taken = Some x" by (cases taken) auto
  have q: "queue_ok (tx_store st) (txQueue st) (txQueueTail st) qs"
    and w: "queue_ok (tx_store st) (txWindow st) (txWindowTail st) ws"
    and disj: "set qs \<inter> set ws = {}" and d: "dom (tx_store st) = set qs \<union> set ws"
    and cnt: "txCount st = int (length (qs @ ws))"
    and byt: "txBytes st = (\<Sum>a \<leftarrow> qs @ ws. x_length (info st a))"
    using assms(1) unfolding tx_ok_def by blast+
  have nx: "x \<notin> set qs" "x \<notin> set ws" using d assms(2)[OF x] by auto
  let ?h = "(tx_store st)(x \<mapsto> fresh_xfer bundle len)"
  have qh: "queue_ok ?h (txQueue st) (txQueueTail st) qs" and wh: "queue_ok ?h (txWindow st) (txWindowTail st) ws"
    using queue_ok_cong[OF q, of ?h] queue_ok_cong[OF w, of ?h] nx by auto
  obtain h p t where ap: "txAppend ?h (txQueue st) (txQueueTail st) x = Some (h, p, t)"
    "queue_ok h p t (qs @ [x])" "\<forall>a. content h a = content ?h a" "\<forall>a. a \<noteq> x \<longrightarrow> a \<notin> set qs \<longrightarrow> h a = ?h a"
    using txAppend_spec[OF qh nx(1)] by auto
  let ?st = "st \<lparr> tx_store := h, txQueue := p, txQueueTail := t, txCount := txCount st + 1,
      txBytes := txBytes st + len, txActive := True, secSinceData := 0 \<rparr>"
  have e: "queueXfer mtu st taken timedOut bundle len = Some (0, ?st)"
    using False x ap(1) by (simp add: queueXfer_def fresh_xfer_def)
  have inf: "info ?st = (info st)(x := fresh_xfer bundle len)"
    using ap(3) by (auto simp: info_def content_def fresh_xfer_def)
  have w3: "queue_ok h (txWindow st) (txWindowTail st) ws"
    by (rule queue_ok_cong[OF wh]) (use ap(4) nx disj in auto)
  have dh: "dom h = set (qs @ [x]) \<union> set ws" using content_store_dom[OF ap(3)] d by auto
  have "(\<Sum>a \<leftarrow> (qs @ [x]) @ ws. x_length (info ?st a)) = txBytes st + len"
    unfolding inf using byt
    by (simp add: sum_list_upd[OF nx(1)] sum_list_upd[OF nx(2)] del: fun_upd_apply)
      (simp add: fresh_xfer_def)
  then have "tx_ok ?st (qs @ [x]) ws"
    unfolding tx_ok_def using ap(2) w3 dh disj nx cnt by (intro conjI) simp_all
  then show ?thesis using e inf x False by (intro exI[of _ 0] exI[of _ ?st]) simp
qed

lemma xmit_take_none:
  "tx_ok st qs ws \<Longrightarrow> qs = [] \<or> txStopped st \<Longrightarrow> xmit_take st = Some (None, st)"
  using tx_ok_heads(1)[of st qs ws] by (auto simp: xmit_take_def split: option.splits)

lemma xmit_take_spec:
  assumes "tx_ok st (x # qs) ws" "\<not> txStopped st"
  shows "\<exists>st'. xmit_take st = Some (Some x, st') \<and> tx_ok st' qs (ws @ [x]) \<and>
     info st' = (info st)(x := (info st x) \<lparr> x_transferId := nextTxId st, x_inFlight := True \<rparr>) \<and>
     tx_done st' = tx_done st \<and> nextTxId st' = nextTxId st + 1 \<and> txStopped st' = txStopped st"
proof -
  have q: "queue_ok (tx_store st) (txQueue st) (txQueueTail st) (x # qs)"
    and w: "queue_ok (tx_store st) (txWindow st) (txWindowTail st) ws"
    and disj: "set (x # qs) \<inter> set ws = {}" and d: "dom (tx_store st) = set (x # qs) \<union> set ws"
    and cnt: "txCount st = int (length ((x # qs) @ ws))"
    and byt: "txBytes st = (\<Sum>a \<leftarrow> (x # qs) @ ws. x_length (info st a))"
    and act: "txActive st = ((x # qs) @ ws \<noteq> [])"
    using assms(1) unfolding tx_ok_def by blast+
  have nx: "x \<notin> set qs" "x \<notin> set ws" using q disj by (auto simp: queue_ok_def)
  obtain h p t where u: "txUnlink (tx_store st) (txQueue st) (txQueueTail st) x = Some (True, h, p, t)"
    and un: "unlinked (tx_store st) (x # qs) x h p t" using txUnlink_spec[OF q, of x] by auto
  have cont: "\<forall>a. content h a = content (tx_store st) a" using un by (simp add: unlinked_def)
  have "x \<in> dom h" using content_store_dom[OF cont] d by auto
  then obtain xf where xf: "h x = Some xf" by blast
  let ?f = "\<lambda>xf. xf \<lparr> x_transferId := nextTxId st, x_inFlight := True \<rparr>"
  let ?h = "h(x \<mapsto> ?f xf)"
  have up: "upd_xfer ?f x (st \<lparr> tx_store := h, txQueue := p, txQueueTail := t, nextTxId := nextTxId st + 1 \<rparr>) =
      Some (st \<lparr> tx_store := ?h, txQueue := p, txQueueTail := t, nextTxId := nextTxId st + 1 \<rparr>)"
    using xf by (simp add: upd_xfer_def)
  have w1: "queue_ok ?h (txWindow st) (txWindowTail st) ws"
    by (rule queue_ok_cong[OF w]) (use un nx disj in \<open>auto simp: unlinked_def\<close>)
  have "queue_ok h p t qs" using un by (simp add: unlinked_def)
  then have q1: "queue_ok ?h p t qs" by (rule queue_ok_cong) (use nx in auto)
  obtain h2 p2 t2 where ap: "txAppend ?h (txWindow st) (txWindowTail st) x = Some (h2, p2, t2)"
    "queue_ok h2 p2 t2 (ws @ [x])" "\<forall>a. content h2 a = content ?h a" "\<forall>a. a \<noteq> x \<longrightarrow> a \<notin> set ws \<longrightarrow> h2 a = ?h a"
    using txAppend_spec[OF w1 nx(2)] by auto
  let ?st = "st \<lparr> tx_store := h2, txQueue := p, txQueueTail := t, nextTxId := nextTxId st + 1,
      txWindow := p2, txWindowTail := t2 \<rparr>"
  have "txQueue st = Some x" using tx_ok_heads(1)[OF assms(1)] by simp
  then have e: "xmit_take st = Some (Some x, ?st)"
    using assms(2) u up ap(1) by (simp add: xmit_take_def)
  have "content h2 a = content (tx_store st) a" if "a \<noteq> x" for a
    using ap(3) cont that by (simp add: content_def)
  moreover have "content h2 x = map_option ?f (content (tx_store st) x)"
  proof -
    have "content ?h x = Some (?f (xf \<lparr> x_next := None \<rparr>))" by (simp add: content_def)
    moreover have "content h x = Some (xf \<lparr> x_next := None \<rparr>)" by (simp add: content_def xf)
    ultimately show ?thesis using ap(3) cont by simp
  qed
  moreover have "content (tx_store st) x \<noteq> None" using cont[rule_format, of x] xf by (metis content_def option.map_disc_iff option.distinct(1))
  ultimately have inf: "info ?st = (info st)(x := ?f (info st x))"
    by (auto simp: info_def)
  have q2: "queue_ok h2 p t qs" by (rule queue_ok_cong[OF q1]) (use ap(4) nx disj in auto)
  have dh: "dom h2 = set qs \<union> set (ws @ [x])"
    using content_store_dom[OF ap(3)] content_store_dom[OF cont] d by auto
  have "(\<Sum>a \<leftarrow> qs @ ws @ [x]. x_length (info ?st a)) = txBytes st"
    unfolding inf using byt
    by (simp add: sum_list_upd[OF nx(1)] sum_list_upd[OF nx(2)] del: fun_upd_apply) simp
  then have "tx_ok ?st qs (ws @ [x])"
    unfolding tx_ok_def using ap(2) q2 dh disj nx cnt act by (intro conjI) auto
  then show ?thesis using e inf by auto
qed

lemma find_refused_spec:
  "chain h cur xs None \<Longrightarrow>
     find_refused h cur ident = Some (List.find (\<lambda>a. x_transferId (the (h a)) = ident) xs)"
  by (induction xs arbitrary: cur) (subst find_refused.simps, auto split: option.splits)+

lemma splice_loop_spec:
  "chain h p xs None \<Longrightarrow> chain h d ds None \<Longrightarrow> distinct xs \<Longrightarrow> set xs \<inter> set ds = {} \<Longrightarrow>
     \<exists>h' d'. splice_loop h p d = Some (h', d') \<and> chain h' d' (rev xs @ ds) None \<and>
       (\<forall>a. content h' a = content h a) \<and> (\<forall>a. a \<notin> set xs \<longrightarrow> h' a = h a)"
proof (induction xs arbitrary: h p d ds)
  case Nil
  then show ?case by (subst splice_loop.simps) simp
next
  case (Cons x xs)
  then obtain xf where xf: "p = Some x" "h x = Some xf" "chain h (x_next xf) xs None"
    by (auto split: option.splits)
  let ?h = "h(x \<mapsto> xf \<lparr> x_next := d \<rparr>)"
  have "chain ?h (x_next xf) xs None" "chain ?h (Some x) (x # ds) None"
    using xf Cons.prems by auto
  moreover have "distinct xs" "set xs \<inter> set (x # ds) = {}" using Cons.prems by auto
  ultimately have "\<exists>h' d'. splice_loop ?h (x_next xf) (Some x) = Some (h', d') \<and>
      chain h' d' (rev xs @ x # ds) None \<and> (\<forall>a. content h' a = content ?h a) \<and>
      (\<forall>a. a \<notin> set xs \<longrightarrow> h' a = ?h a)"
    by (rule Cons.IH)
  then obtain h' d' where r: "splice_loop ?h (x_next xf) (Some x) = Some (h', d')"
    "chain h' d' (rev xs @ x # ds) None" "\<forall>a. content h' a = content ?h a" "\<forall>a. a \<notin> set xs \<longrightarrow> h' a = ?h a"
    by blast
  have "content ?h a = content h a" for a using xf by (simp add: content_def)
  then show ?case using r xf Cons.prems by (subst splice_loop.simps) auto
qed

lemma report_loop_spec:
  "chain (tx_store st) d ds None \<Longrightarrow> distinct ds \<Longrightarrow>
     report_loop st d = Some (st \<lparr> tx_store := (tx_store st) |` (- set ds),
       tx_done := tx_done st @ map (\<lambda>a. (x_bundle (info st a), xfer_succeeded (info st a))) ds \<rparr>)"
proof (induction ds arbitrary: st d)
  case Nil
  have "(tx_store st) |` UNIV = tx_store st" by (rule ext) (simp add: restrict_map_def)
  then show ?case using Nil by (subst report_loop.simps) simp
next
  case (Cons x ds)
  then obtain xf where xf: "d = Some x" "tx_store st x = Some xf" "chain (tx_store st) (x_next xf) ds None"
    by (auto split: option.splits)
  let ?st = "st \<lparr> tx_done := tx_done st @ [(x_bundle xf, xfer_succeeded xf)], tx_store := (tx_store st)(x := None) \<rparr>"
  have "chain (tx_store ?st) (x_next xf) ds None" using xf(3) Cons.prems by simp
  then have r: "report_loop ?st (x_next xf) = Some (?st \<lparr> tx_store := (tx_store ?st) |` (- set ds),
       tx_done := tx_done ?st @ map (\<lambda>a. (x_bundle (info ?st a), xfer_succeeded (info ?st a))) ds \<rparr>)"
    by (rule Cons.IH) (use Cons.prems in simp)
  have "info ?st a = info st a" if "a \<in> set ds" for a
    using that Cons.prems by (auto simp: info_def content_def)
  then have m: "map (\<lambda>a. (x_bundle (info ?st a), xfer_succeeded (info ?st a))) ds =
      map (\<lambda>a. (x_bundle (info st a), xfer_succeeded (info st a))) ds" by simp
  have s: "(tx_store st)(x := None) |` (- set ds) = (tx_store st) |` (- set (x # ds))"
    by (rule ext) (simp add: restrict_map_def)
  have e: "report_loop st d = report_loop ?st (x_next xf)"
    using xf by (subst report_loop.simps) (simp add: report_done_def)
  show ?case
    unfolding e r m using s info_fields[OF xf(2)] by (simp del: fun_upd_apply list.set)
qed

text \<open>Draining reports what is on the two lists and frees every node.\<close>

lemma tcpv4TxDrain_spec:
  assumes "tx_ok st qs ws"
  shows "\<exists>st'. tcpv4TxDrain st = Some st' \<and> tx_ok st' [] [] \<and> txStopped st' \<and>
     nextTxId st' = nextTxId st \<and>
     tx_done st' = tx_done st @ map (\<lambda>a. (x_bundle (info st a), xfer_succeeded (info st a))) (rev ws @ rev qs)"
proof -
  have q: "chain (tx_store st) (txQueue st) qs None" "distinct qs"
    and w: "chain (tx_store st) (txWindow st) ws None" "distinct ws"
    and disj: "set qs \<inter> set ws = {}" and d: "dom (tx_store st) = set qs \<union> set ws"
    using assms unfolding tx_ok_def queue_ok_def by blast+
  obtain h1 d1 where s1: "splice_loop (tx_store st) (txQueue st) None = Some (h1, d1)"
    "chain h1 d1 (rev qs @ []) None" "\<forall>a. content h1 a = content (tx_store st) a"
    "\<forall>a. a \<notin> set qs \<longrightarrow> h1 a = tx_store st a"
    using splice_loop_spec[OF q(1), of None "[]"] q(2) by auto
  have "\<forall>a \<in> set ws. h1 a = tx_store st a" using s1(4) disj by blast
  then have "chain h1 (txWindow st) ws None" using w(1) chain_cong[of ws h1 "tx_store st"] by simp
  from splice_loop_spec[OF this s1(2) w(2)] disj
  obtain h2 d2 where s2: "splice_loop h1 (txWindow st) d1 = Some (h2, d2)"
    "chain h2 d2 (rev ws @ rev qs) None" "\<forall>a. content h2 a = content h1 a" by auto
  let ?st = "st \<lparr> txStopped := True, tx_store := h2, txQueue := None, txWindow := None,
      txQueueTail := None, txWindowTail := None, txCount := 0, txBytes := 0, txActive := False \<rparr>"
  have "distinct (rev ws @ rev qs)" using q(2) w(2) disj by auto
  from report_loop_spec[of ?st d2, OF _ this] s2(2)
  have r: "report_loop ?st d2 = Some (?st \<lparr> tx_store := h2 |` (- set (rev ws @ rev qs)),
      tx_done := tx_done st @ map (\<lambda>a. (x_bundle (info ?st a), xfer_succeeded (info ?st a))) (rev ws @ rev qs) \<rparr>)"
    by simp
  have inf: "info ?st a = info st a" for a using s1(3) s2(3) by (simp add: info_def)
  have "dom h2 = set qs \<union> set ws"
    using content_store_dom[OF s2(3)] content_store_dom[OF s1(3)] d by simp
  then have "h2 |` (- set (rev ws @ rev qs)) = Map.empty"
    by (intro ext) (auto simp: restrict_map_def dom_def)
  then show ?thesis
    using s1(1) s2(1) r unfolding inf by (simp add: tcpv4TxDrain_def tx_ok_def queue_ok_empty)
qed

section \<open>The invariant of a session\<close>

text \<open>What holds of a node in the window; \<open>pend\<close> is one that may be ready to be retired.\<close>

definition win_ok :: "TxSys \<Rightarrow> addr option \<Rightarrow> addr \<Rightarrow> bool" where
  "win_ok s pend a \<longleftrightarrow> (let xf = info (sys_tx s) a in
     (x_inFlight xf \<longleftrightarrow> sys_writing s = Some a) \<and>
     (x_bundle xf, x_transferId xf, x_length xf) \<in> set (sys_begun s) \<and>
     (x_acked xf \<longrightarrow> (x_transferId xf, word_of_int (x_length xf)) \<in> sys_acks s) \<and>
     (x_completed xf \<longrightarrow> (x_transferId xf, TMSG_REFUSE_COMPLETED) \<in> sys_refusals s) \<and>
     (pend \<noteq> Some a \<longrightarrow> \<not> x_inFlight xf \<longrightarrow> \<not> x_acked xf \<and> \<not> x_refused xf))"

definition queue_clean :: "TxSys \<Rightarrow> addr \<Rightarrow> bool" where
  "queue_clean s a \<longleftrightarrow> (let xf = info (sys_tx s) a in
     \<not> x_inFlight xf \<and> \<not> x_acked xf \<and> \<not> x_refused xf \<and> \<not> x_completed xf)"

definition report_ok :: "TxSys \<Rightarrow> object \<Rightarrow> bool" where
  "report_ok s b \<longleftrightarrow> (\<exists>ident len. (b, ident, len) \<in> set (sys_begun s) \<and>
     ((ident, word_of_int len) \<in> sys_acks s \<or> (ident, TMSG_REFUSE_COMPLETED) \<in> sys_refusals s))"

definition in_order :: "TxSys \<Rightarrow> addr list \<Rightarrow> bool" where
  "in_order s qs \<longleftrightarrow>
     (\<exists>lost. sys_accepted s = map fst (sys_begun s) @ lost @ map (\<lambda>a. x_bundle (info (sys_tx s) a)) qs \<and>
        (lost \<noteq> [] \<longrightarrow> txStopped (sys_tx s))) \<and>
     map (fst \<circ> snd) (sys_begun s) = map word_of_nat [0..<length (sys_begun s)] \<and>
     nextTxId (sys_tx s) = word_of_nat (length (sys_begun s))"

definition within_window :: "int \<Rightarrow> int \<Rightarrow> TxSys \<Rightarrow> bool" where
  "within_window window windowBytes s \<longleftrightarrow>
     (0 < window \<longrightarrow> txCount (sys_tx s) \<le> window) \<and>
     (0 < windowBytes \<longrightarrow> txBytes (sys_tx s) \<le> windowBytes \<or> txCount (sys_tx s) \<le> 1)"

definition tx_inv :: "int \<Rightarrow> int \<Rightarrow> addr option \<Rightarrow> TxSys \<Rightarrow> addr list \<Rightarrow> addr list \<Rightarrow> bool" where
  "tx_inv window windowBytes pend s qs ws \<longleftrightarrow>
     tx_ok (sys_tx s) qs ws \<and>
     (\<forall>a \<in> set qs. queue_clean s a) \<and> (\<forall>a \<in> set ws. win_ok s pend a) \<and>
     (\<forall>x. sys_writing s = Some x \<longrightarrow> x \<in> set ws) \<and>
     (\<forall>a \<in> set (qs @ ws). 0 \<le> x_length (info (sys_tx s) a)) \<and>
     mset (sys_accepted s) =
       mset (map fst (tx_done (sys_tx s))) + mset (map (\<lambda>a. x_bundle (info (sys_tx s) a)) (qs @ ws)) \<and>
     (\<forall>b. (b, True) \<in> set (tx_done (sys_tx s)) \<longrightarrow> report_ok s b) \<and>
     in_order s qs \<and> within_window window windowBytes s"

lemma report_ok_node:
  "win_ok s pend a \<Longrightarrow> xfer_succeeded (info (sys_tx s) a) \<Longrightarrow> report_ok s (x_bundle (info (sys_tx s) a))"
  unfolding win_ok_def report_ok_def xfer_succeeded_def Let_def by blast

lemma report_ok_mono:
  "report_ok s b \<Longrightarrow> set (sys_begun s) \<subseteq> set (sys_begun s') \<Longrightarrow> sys_acks s \<subseteq> sys_acks s' \<Longrightarrow>
     sys_refusals s \<subseteq> sys_refusals s' \<Longrightarrow> report_ok s' b"
  unfolding report_ok_def by blast

lemma tx_inv_init: "tx_inv window windowBytes None sys_init [] []"
  by (simp add: tx_inv_def sys_init_def tx_init_def tx_ok_def queue_ok_empty in_order_def within_window_def)

lemma in_order_cong:
  assumes "in_order s qs" "\<forall>a \<in> set qs. x_bundle (info (sys_tx s') a) = x_bundle (info (sys_tx s) a)"
    "sys_accepted s' = sys_accepted s" "sys_begun s' = sys_begun s"
    "nextTxId (sys_tx s') = nextTxId (sys_tx s)" "txStopped (sys_tx s) \<Longrightarrow> txStopped (sys_tx s')"
  shows "in_order s' qs"
proof -
  have "map (\<lambda>a. x_bundle (info (sys_tx s') a)) qs = map (\<lambda>a. x_bundle (info (sys_tx s) a)) qs"
    using assms(2) by (intro map_cong) auto
  then show ?thesis using assms(1,3-6) unfolding in_order_def by metis
qed

text \<open>Retiring a node that may be ready.\<close>

lemma tx_inv_retire:
  assumes inv: "tx_inv window windowBytes (Some x) s qs ws" and x: "x \<in> set ws"
    and ret: "retire (sys_tx s) x = Some st"
  shows "\<exists>ws'. tx_inv window windowBytes None (s \<lparr> sys_tx := st \<rparr>) qs ws'"
proof -
  let ?i = "info (sys_tx s)"
  have ok: "tx_ok (sys_tx s) qs ws" and qc: "\<forall>a \<in> set qs. queue_clean s a"
    and wk: "\<forall>a \<in> set ws. win_ok s (Some x) a" and wr: "\<forall>x. sys_writing s = Some x \<longrightarrow> x \<in> set ws"
    and nn: "\<forall>a \<in> set (qs @ ws). 0 \<le> x_length (?i a)"
    and ms: "mset (sys_accepted s) =
       mset (map fst (tx_done (sys_tx s))) + mset (map (\<lambda>a. x_bundle (?i a)) (qs @ ws))"
    and rp: "\<forall>b. (b, True) \<in> set (tx_done (sys_tx s)) \<longrightarrow> report_ok s b"
    and io: "in_order s qs" and ww: "within_window window windowBytes s"
    using inv unfolding tx_inv_def by blast+
  let ?s = "s \<lparr> sys_tx := st \<rparr>"
  show ?thesis
  proof (cases "x_inFlight (?i x) \<or> (\<not> x_acked (?i x) \<and> \<not> x_refused (?i x))")
    case True
    then have "st = sys_tx s" using retire_spec[OF ok x] ret by auto
    then have "?s = s" by simp
    moreover have "\<forall>a \<in> set ws. win_ok s None a"
      using wk True unfolding win_ok_def Let_def by auto
    ultimately have "tx_inv window windowBytes None ?s qs ws"
      using ok qc wr nn ms rp io ww unfolding tx_inv_def by simp
    then show ?thesis by blast
  next
    case False
    then have r: "tx_ok st qs (remove1 x ws)" "\<And>a. a \<noteq> x \<Longrightarrow> info st a = ?i a"
      "tx_done st = tx_done (sys_tx s) @ [(x_bundle (?i x), xfer_succeeded (?i x))]"
      "nextTxId st = nextTxId (sys_tx s)" "txStopped st = txStopped (sys_tx s)"
      using retire_spec[OF ok x] ret by auto
    have nx: "x \<notin> set qs" "x \<notin> set (remove1 x ws)"
      using ok x by (auto simp: tx_ok_def queue_ok_def)
    have same: "\<forall>a \<in> set qs \<union> set (remove1 x ws). info st a = ?i a"
    proof
      fix a assume "a \<in> set qs \<union> set (remove1 x ws)"
      then have "a \<noteq> x" using nx by blast
      then show "info st a = ?i a" by (rule r(2))
    qed
    have sub: "set (remove1 x ws) \<subseteq> set ws" by (rule set_remove1_subset)
    have "\<not> x_inFlight (?i x)" using False by blast
    then have nw: "sys_writing s \<noteq> Some x" using wk x unfolding win_ok_def Let_def by blast
    have "\<forall>a \<in> set qs. queue_clean ?s a" using qc same unfolding queue_clean_def by simp
    moreover have "\<forall>a \<in> set (remove1 x ws). win_ok ?s None a"
    proof
      fix a assume a: "a \<in> set (remove1 x ws)"
      then have "win_ok s (Some x) a" "a \<noteq> x" "info st a = ?i a" using wk sub nx(2) same by auto
      then show "win_ok ?s None a" unfolding win_ok_def Let_def by simp
    qed
    moreover have "\<forall>y. sys_writing ?s = Some y \<longrightarrow> y \<in> set (remove1 x ws)"
      using wr nw by (auto simp: in_set_remove1)
    moreover have "\<forall>a \<in> set (qs @ remove1 x ws). 0 \<le> x_length (info st a)"
      using nn same sub by auto
    moreover have "mset (sys_accepted s) = mset (map fst (tx_done st)) + mset (map (\<lambda>a. x_bundle (info st a)) (qs @ remove1 x ws))"
    proof -
      have m: "map (\<lambda>a. x_bundle (info st a)) (qs @ remove1 x ws) = map (\<lambda>a. x_bundle (?i a)) (qs @ remove1 x ws)"
        using same by (intro map_cong) auto
      have "image_mset (\<lambda>a. x_bundle (?i a)) (mset ws) =
          add_mset (x_bundle (?i x)) (image_mset (\<lambda>a. x_bundle (?i a)) (mset (remove1 x ws)))"
        using x by (metis image_mset_add_mset mset_remove1 insert_DiffM set_mset_mset)
      then show ?thesis unfolding m using ms r(3) by simp
    qed
    moreover have "report_ok ?s b" if "(b, True) \<in> set (tx_done st)" for b
    proof -
      have "report_ok s b"
        using that r(3) rp report_ok_node[of s "Some x" x] wk x by auto
      then show ?thesis unfolding report_ok_def by simp
    qed
    moreover have "in_order ?s qs"
      by (rule in_order_cong[OF io]) (use same r(4,5) in simp_all)
    moreover have "within_window window windowBytes ?s"
    proof -
      have c: "txCount st = txCount (sys_tx s) - 1"
        using r(1) ok x unfolding tx_ok_def by (simp add: length_remove1) (cases ws; simp)
      have "(\<Sum>a \<leftarrow> qs @ remove1 x ws. x_length (info st a)) = (\<Sum>a \<leftarrow> qs @ remove1 x ws. x_length (?i a))"
        using same by (intro arg_cong[where f = sum_list] map_cong) auto
      then have "txBytes st = txBytes (sys_tx s) - x_length (?i x)"
        using r(1) ok sum_list_map_remove1[OF x, of "\<lambda>a. x_length (?i a)"] unfolding tx_ok_def by simp
      moreover have "0 \<le> x_length (?i x)" using nn x by simp
      ultimately show ?thesis using ww c unfolding within_window_def by auto
    qed
    ultimately have "tx_inv window windowBytes None ?s qs (remove1 x ws)"
      using r(1) unfolding tx_inv_def by simp
    then show ?thesis by blast
  qed
qed


text \<open>Setting flags of a window node leaves the invariant, but for its being ready.\<close>

lemma tx_inv_flags:
  assumes inv: "tx_inv window windowBytes None s qs ws" and x: "x \<in> set ws"
    and upd: "upd_xfer f x (sys_tx s) = Some st"
    and f: "\<And>xf. x_next (f xf) = x_next xf" "\<And>xf. x_length (f xf) = x_length xf"
      "\<And>xf. x_bundle (f xf) = x_bundle xf" "\<And>xf. x_transferId (f xf) = x_transferId xf"
      "\<And>xf. (f xf) \<lparr> x_next := None \<rparr> = f (xf \<lparr> x_next := None \<rparr>)"
    and s': "sys_tx s' = st" "sys_accepted s' = sys_accepted s" "sys_begun s' = sys_begun s"
      "sys_acks s \<subseteq> sys_acks s'" "sys_refusals s \<subseteq> sys_refusals s'"
      "\<And>a. a \<noteq> x \<Longrightarrow> (sys_writing s' = Some a) = (sys_writing s = Some a)"
    and ok: "win_ok s' (Some x) x"
  shows "tx_inv window windowBytes (Some x) s' qs ws"
proof -
  let ?i = "info (sys_tx s)"
  have tok: "tx_ok (sys_tx s) qs ws" and qc: "\<forall>a \<in> set qs. queue_clean s a"
    and wk: "\<forall>a \<in> set ws. win_ok s None a" and wr: "\<forall>x. sys_writing s = Some x \<longrightarrow> x \<in> set ws"
    and nn: "\<forall>a \<in> set (qs @ ws). 0 \<le> x_length (?i a)"
    and ms: "mset (sys_accepted s) =
       mset (map fst (tx_done (sys_tx s))) + mset (map (\<lambda>a. x_bundle (?i a)) (qs @ ws))"
    and rp: "\<forall>b. (b, True) \<in> set (tx_done (sys_tx s)) \<longrightarrow> report_ok s b"
    and io: "in_order s qs" and ww: "within_window window windowBytes s"
    using inv unfolding tx_inv_def by blast+
  obtain h where st: "tx_ok st qs ws" "info st = ?i(x := f (?i x))" "st = sys_tx s \<lparr> tx_store := h \<rparr>"
    using upd_xfer_spec[OF tok, of x f] x f upd by auto
  have nx: "x \<notin> set qs" using tok x unfolding tx_ok_def by blast
  have bun: "x_bundle (info st a) = x_bundle (?i a)" and len: "x_length (info st a) = x_length (?i a)" for a
    unfolding st(2) by (simp_all add: f)
  have "\<forall>a \<in> set qs. queue_clean s' a"
  proof
    fix a assume a: "a \<in> set qs"
    then have "info st a = ?i a" using nx st(2) by auto
    then show "queue_clean s' a" using qc a s'(1) unfolding queue_clean_def by simp
  qed
  moreover have "\<forall>a \<in> set ws. win_ok s' (Some x) a"
  proof
    fix a assume a: "a \<in> set ws"
    show "win_ok s' (Some x) a"
    proof (cases "a = x")
      case False
      then have "info st a = ?i a" using st(2) by simp
      then show ?thesis using wk a False s' unfolding win_ok_def Let_def by auto
    qed (use ok in simp)
  qed
  moreover have "\<forall>y. sys_writing s' = Some y \<longrightarrow> y \<in> set ws" using wr s'(6) x by metis
  moreover have "\<forall>b. (b, True) \<in> set (tx_done st) \<longrightarrow> report_ok s' b"
  proof (intro allI impI)
    fix b assume "(b, True) \<in> set (tx_done st)"
    then have "report_ok s b" using rp st(3) by simp
    then show "report_ok s' b" by (rule report_ok_mono) (use s'(3-5) in auto)
  qed
  moreover have "in_order s' qs"
    by (rule in_order_cong[OF io]) (use s' bun st(3) in auto)
  moreover have "within_window window windowBytes s'" using ww s'(1) st(3) unfolding within_window_def by simp
  moreover have "mset (sys_accepted s') =
      mset (map fst (tx_done st)) + mset (map (\<lambda>a. x_bundle (info st a)) (qs @ ws))"
    unfolding bun s'(2) using ms st(3) by simp
  moreover have "\<forall>a \<in> set (qs @ ws). 0 \<le> x_length (info st a)" unfolding len by (rule nn)
  ultimately show ?thesis using st(1) unfolding tx_inv_def s'(1) by blast
qed

text \<open>More events, and changes of the session that none of the clauses reads.\<close>

lemma win_ok_mono:
  "win_ok s pend a \<Longrightarrow> info (sys_tx s') a = info (sys_tx s) a \<Longrightarrow> sys_writing s' = sys_writing s \<Longrightarrow>
     set (sys_begun s) \<subseteq> set (sys_begun s') \<Longrightarrow> sys_acks s \<subseteq> sys_acks s' \<Longrightarrow>
     sys_refusals s \<subseteq> sys_refusals s' \<Longrightarrow> win_ok s' pend a"
  unfolding win_ok_def Let_def by auto

lemma tx_inv_mono:
  assumes inv: "tx_inv window windowBytes pend s qs ws"
    and st: "tx_ok (sys_tx s') qs ws" "info (sys_tx s') = info (sys_tx s)" "tx_done (sys_tx s') = tx_done (sys_tx s)"
      "nextTxId (sys_tx s') = nextTxId (sys_tx s)" "txStopped (sys_tx s) \<Longrightarrow> txStopped (sys_tx s')"
      "txCount (sys_tx s') = txCount (sys_tx s)" "txBytes (sys_tx s') = txBytes (sys_tx s)"
    and s': "sys_writing s' = sys_writing s" "sys_accepted s' = sys_accepted s" "sys_begun s' = sys_begun s"
      "sys_acks s \<subseteq> sys_acks s'" "sys_refusals s \<subseteq> sys_refusals s'"
  shows "tx_inv window windowBytes pend s' qs ws"
proof -
  have "\<forall>a \<in> set qs. queue_clean s' a" using inv st(2) unfolding tx_inv_def queue_clean_def by simp
  moreover have "win_ok s' pend a" if "a \<in> set ws" for a
    by (rule win_ok_mono[of s pend a]) (use inv st s' that in \<open>auto simp: tx_inv_def\<close>)
  moreover have "report_ok s' b" if "(b, True) \<in> set (tx_done (sys_tx s'))" for b
    by (rule report_ok_mono[of s]) (use inv st s' that in \<open>auto simp: tx_inv_def\<close>)
  moreover have "in_order s' qs"
    by (rule in_order_cong[of s]) (use inv st s' in \<open>auto simp: tx_inv_def\<close>)
  moreover have "within_window window windowBytes s'"
    using inv st unfolding tx_inv_def within_window_def by simp
  ultimately show ?thesis using inv st s' unfolding tx_inv_def by simp
qed

lemma tx_ok_other:
  "tx_ok st qs ws \<Longrightarrow> tx_store st' = tx_store st \<Longrightarrow> txQueue st' = txQueue st \<Longrightarrow>
     txQueueTail st' = txQueueTail st \<Longrightarrow> txWindow st' = txWindow st \<Longrightarrow>
     txWindowTail st' = txWindowTail st \<Longrightarrow> txCount st' = txCount st \<Longrightarrow> txBytes st' = txBytes st \<Longrightarrow>
     txActive st' = txActive st \<Longrightarrow> tx_ok st' qs ws"
  unfolding tx_ok_def info_def by simp

text \<open>A flag is set on a window node, which is then retired if it is ready.\<close>

lemma tx_inv_flags_retire:
  assumes inv: "tx_inv window windowBytes None s qs ws" and x: "x \<in> set ws"
    and f: "\<And>xf. x_next (f xf) = x_next xf" "\<And>xf. x_length (f xf) = x_length xf"
      "\<And>xf. x_bundle (f xf) = x_bundle xf" "\<And>xf. x_transferId (f xf) = x_transferId xf"
      "\<And>xf. (f xf) \<lparr> x_next := None \<rparr> = f (xf \<lparr> x_next := None \<rparr>)"
    and s': "sys_accepted s' = sys_accepted s" "sys_begun s' = sys_begun s"
      "sys_acks s \<subseteq> sys_acks s'" "sys_refusals s \<subseteq> sys_refusals s'"
      "\<And>a. a \<noteq> x \<Longrightarrow> (sys_writing s' = Some a) = (sys_writing s = Some a)"
    and ok: "\<And>st. info st x = f (info (sys_tx s) x) \<Longrightarrow> win_ok (s' \<lparr> sys_tx := st \<rparr>) (Some x) x"
  shows "\<exists>st1 st ws'. upd_xfer f x (sys_tx s) = Some st1 \<and> retire st1 x = Some st \<and>
    tx_inv window windowBytes None (s' \<lparr> sys_tx := st \<rparr>) qs ws'"
proof -
  have tok: "tx_ok (sys_tx s) qs ws" using inv unfolding tx_inv_def by blast
  obtain st1 where u: "upd_xfer f x (sys_tx s) = Some st1" "tx_ok st1 qs ws"
    "info st1 = (info (sys_tx s))(x := f (info (sys_tx s) x))"
    using upd_xfer_spec[OF tok, of x f] x f by auto
  have i1: "tx_inv window windowBytes (Some x) (s' \<lparr> sys_tx := st1 \<rparr>) qs ws"
    by (rule tx_inv_flags[OF inv x u(1)]) (use f s' ok[of st1] u(3) in simp_all)
  obtain st where r: "retire st1 x = Some st" using retire_spec[OF u(2) x] by blast
  have "\<exists>ws'. tx_inv window windowBytes None (s' \<lparr> sys_tx := st1 \<rparr> \<lparr> sys_tx := st \<rparr>) qs ws'"
    by (rule tx_inv_retire[OF i1 x]) (use r in simp)
  then show ?thesis using u(1) r by auto
qed

lemma let_go_inv:
  assumes inv: "tx_inv window windowBytes None s qs ws" and x: "sys_writing s = Some x"
  shows "\<exists>st ws'. xmit_let_go (sys_tx s) x failed = Some st \<and>
    tx_inv window windowBytes None (s \<lparr> sys_writing := None, sys_ended := failed, sys_tx := st \<rparr>) qs ws'"
proof -
  let ?f = "\<lambda>xf. xf \<lparr> x_inFlight := False, x_refused := x_refused xf \<or> failed \<rparr>"
  let ?s = "s \<lparr> sys_writing := None, sys_ended := failed \<rparr>"
  have xw: "x \<in> set ws" "win_ok s None x" using inv x unfolding tx_inv_def by blast+
  have "\<exists>st1 st ws'. upd_xfer ?f x (sys_tx s) = Some st1 \<and> retire st1 x = Some st \<and>
      tx_inv window windowBytes None (?s \<lparr> sys_tx := st \<rparr>) qs ws'"
    by (rule tx_inv_flags_retire[OF inv xw(1)]) (use x xw(2) in \<open>auto simp: win_ok_def Let_def\<close>)
  then show ?thesis by (auto simp: xmit_let_go_def)
qed

lemma ack_inv:
  assumes inv: "tx_inv window windowBytes None s qs ws"
  shows "\<exists>u st ws'. ack_section (sys_tx s) ident len = Some (u, st) \<and>
    tx_inv window windowBytes None (s \<lparr> sys_acks := insert (ident, len) (sys_acks s), sys_tx := st \<rparr>) qs ws'"
proof -
  let ?s = "s \<lparr> sys_acks := insert (ident, len) (sys_acks s) \<rparr>"
  let ?st = "(sys_tx s) \<lparr> txAckedLen := len \<rparr>"
  have tok: "tx_ok (sys_tx s) qs ws" using inv unfolding tx_inv_def by blast
  have same: "tx_inv window windowBytes None (?s \<lparr> sys_tx := sys_tx s \<rparr>) qs ws"
    by (rule tx_inv_mono[OF inv]) (use tok in auto)
  have acked: "tx_inv window windowBytes None (?s \<lparr> sys_tx := ?st \<rparr>) qs ws"
    by (rule tx_inv_mono[OF same]) (use tx_ok_other[OF tok, of ?st] in \<open>auto simp: info_def\<close>)
  show ?thesis
  proof (cases ws)
    case Nil
    then have "ack_section (sys_tx s) ident len = Some (True, sys_tx s)"
      using tx_ok_heads(2)[OF tok] by (simp add: ack_section_def)
    then show ?thesis using same by (intro exI[of _ True] exI[of _ "sys_tx s"] exI[of _ ws]) simp
  next
    case (Cons x ws2)
    have xw: "x \<in> set ws" and win: "txWindow (sys_tx s) = Some x"
      using tx_ok_heads(2)[OF tok] Cons by simp_all
    obtain xf where xf: "tx_store (sys_tx s) x = Some xf" using tx_ok_alloc[OF tok, of x] xw by auto
    note fl = info_fields[OF xf]
    have wok: "win_ok s None x" using inv xw unfolding tx_inv_def by blast
    consider (other) "ident \<noteq> x_transferId xf"
      | (bad) "ident = x_transferId xf" "len \<le> txAckedLen (sys_tx s) \<or> len > word_of_int (x_length xf)"
      | (all) "ident = x_transferId xf" "\<not> (len \<le> txAckedLen (sys_tx s) \<or> len > word_of_int (x_length xf))"
          "len = word_of_int (x_length xf)"
      | (part) "ident = x_transferId xf" "\<not> (len \<le> txAckedLen (sys_tx s) \<or> len > word_of_int (x_length xf))"
          "len \<noteq> word_of_int (x_length xf)" by blast
    then show ?thesis
    proof cases
      case other
      then have "ack_section (sys_tx s) ident len = Some (True, sys_tx s)"
        using win xf by (simp add: ack_section_def)
      then show ?thesis using same by (intro exI[of _ True] exI[of _ "sys_tx s"] exI[of _ ws]) simp
    next
      case bad
      have "\<exists>st1 st ws'. upd_xfer (\<lambda>xf. xf \<lparr> x_refused := True \<rparr>) x (sys_tx s) = Some st1 \<and> retire st1 x = Some st \<and>
          tx_inv window windowBytes None (?s \<lparr> sys_tx := st \<rparr>) qs ws'"
        by (rule tx_inv_flags_retire[OF inv xw]) (use wok in \<open>auto simp: win_ok_def Let_def\<close>)
      then obtain st1 st ws' where "upd_xfer (\<lambda>xf. xf \<lparr> x_refused := True \<rparr>) x (sys_tx s) = Some st1"
        "retire st1 x = Some st" "tx_inv window windowBytes None (?s \<lparr> sys_tx := st \<rparr>) qs ws'" by blast
      moreover from this bad have "ack_section (sys_tx s) ident len = Some (True, st)"
        using win xf by (simp add: ack_section_def)
      ultimately show ?thesis by (intro exI[of _ True] exI[of _ st] exI[of _ ws']) simp
    next
      case all
      let ?s1 = "?s \<lparr> sys_tx := ?st \<rparr>"
      have "\<exists>st1 st ws'. upd_xfer (\<lambda>xf. xf \<lparr> x_acked := True \<rparr>) x (sys_tx ?s1) = Some st1 \<and> retire st1 x = Some st \<and>
          tx_inv window windowBytes None (?s1 \<lparr> sys_tx := st \<rparr>) qs ws'"
        by (rule tx_inv_flags_retire[OF acked xw]) (use wok all fl in \<open>auto simp: win_ok_def Let_def info_def\<close>)
      then obtain st1 st ws' where "upd_xfer (\<lambda>xf. xf \<lparr> x_acked := True \<rparr>) x ?st = Some st1"
        "retire st1 x = Some st" "tx_inv window windowBytes None (?s \<lparr> sys_tx := st \<rparr>) qs ws'" by auto
      moreover from this all have "ack_section (sys_tx s) ident len = Some (False, st)"
        using win xf by (simp add: ack_section_def)
      ultimately show ?thesis by (intro exI[of _ False] exI[of _ st] exI[of _ ws']) simp
    next
      case part
      then have "ack_section (sys_tx s) ident len = Some (False, ?st)"
        using win xf by (simp add: ack_section_def)
      then show ?thesis using acked by (intro exI[of _ False] exI[of _ ?st] exI[of _ ws]) simp
    qed
  qed
qed

lemma refuse_inv:
  assumes inv: "tx_inv window windowBytes None s qs ws"
  shows "\<exists>u st ws'. refuse_section (sys_tx s) ident reason = Some (u, st) \<and>
    tx_inv window windowBytes None
      (s \<lparr> sys_refusals := insert (ident, reason) (sys_refusals s), sys_tx := st \<rparr>) qs ws'"
proof -
  let ?s = "s \<lparr> sys_refusals := insert (ident, reason) (sys_refusals s) \<rparr>"
  have tok: "tx_ok (sys_tx s) qs ws" using inv unfolding tx_inv_def by blast
  have "chain (tx_store (sys_tx s)) (txWindow (sys_tx s)) ws None" using tok unfolding tx_ok_def queue_ok_def by blast
  note fr = find_refused_spec[OF this, of ident]
  show ?thesis
  proof (cases "List.find (\<lambda>a. x_transferId (the (tx_store (sys_tx s) a)) = ident) ws")
    case None
    have "tx_inv window windowBytes None (?s \<lparr> sys_tx := sys_tx s \<rparr>) qs ws"
      by (rule tx_inv_mono[OF inv]) (use tok in auto)
    then show ?thesis using fr None
      by (intro exI[of _ False] exI[of _ "sys_tx s"] exI[of _ ws]) (simp add: refuse_section_def)
  next
    case (Some x)
    then have xw: "x \<in> set ws" and xid: "x_transferId (the (tx_store (sys_tx s) x)) = ident"
      by (auto simp: find_Some_iff)
    obtain xf where xf: "tx_store (sys_tx s) x = Some xf" using tx_ok_alloc[OF tok, of x] xw by auto
    note fl = info_fields[OF xf]
    have wok: "win_ok s None x" using inv xw unfolding tx_inv_def by blast
    let ?f = "\<lambda>xf. xf \<lparr> x_refused := True, x_completed := x_completed xf \<or> reason = TMSG_REFUSE_COMPLETED \<rparr>"
    have "\<exists>st1 st ws'. upd_xfer ?f x (sys_tx s) = Some st1 \<and> retire st1 x = Some st \<and>
        tx_inv window windowBytes None (?s \<lparr> sys_tx := st \<rparr>) qs ws'"
      by (rule tx_inv_flags_retire[OF inv xw]) (use wok xid xf fl in \<open>auto simp: win_ok_def Let_def\<close>)
    then show ?thesis using fr Some by (auto simp: refuse_section_def)
  qed
qed

lemma tx_invD:
  assumes "tx_inv window windowBytes pend s qs ws"
  shows "tx_ok (sys_tx s) qs ws" "\<And>a. a \<in> set qs \<Longrightarrow> queue_clean s a" "\<And>a. a \<in> set ws \<Longrightarrow> win_ok s pend a"
    "\<And>x. sys_writing s = Some x \<Longrightarrow> x \<in> set ws"
    "\<And>a. a \<in> set (qs @ ws) \<Longrightarrow> 0 \<le> x_length (info (sys_tx s) a)"
    "mset (sys_accepted s) =
       mset (map fst (tx_done (sys_tx s))) + mset (map (\<lambda>a. x_bundle (info (sys_tx s) a)) (qs @ ws))"
    "\<And>b. (b, True) \<in> set (tx_done (sys_tx s)) \<Longrightarrow> report_ok s b"
    "in_order s qs" "within_window window windowBytes s"
  using assms unfolding tx_inv_def by blast+

lemma tx_ok_fresh:
  assumes "tx_ok st qs ws" "tx_store st x = None"
  shows "x \<notin> set qs" "x \<notin> set ws"
  using assms unfolding tx_ok_def by auto

lemma bundles_upd:
  "(\<And>a. a \<in> set xs \<Longrightarrow> f' a = f a) \<Longrightarrow> map (\<lambda>a. x_bundle (f' a)) xs = map (\<lambda>a. x_bundle (f a)) xs"
  by simp

lemma enqueue_inv:
  assumes inv: "tx_inv window windowBytes None s qs ws"
    and fresh: "\<And>x. taken = Some x \<Longrightarrow> tx_store (sys_tx s) x = None" and len: "0 \<le> len"
    and room: "timedOut \<or> \<not> tx_must_wait window windowBytes (sys_tx s) len"
  shows "\<exists>r st qs'. queueXfer mtu (sys_tx s) taken timedOut bd len = Some (r, st) \<and>
    tx_inv window windowBytes None
      (s \<lparr> sys_accepted := (if r = 0 then sys_accepted s @ [bd] else sys_accepted s), sys_tx := st \<rparr>) qs' ws"
proof -
  note d = tx_invD[OF inv]
  let ?i = "info (sys_tx s)"
  obtain r st where q: "queueXfer mtu (sys_tx s) taken timedOut bd len = Some (r, st)"
    and c: "(r = -1 \<and> st = sys_tx s) \<or>
      (r = 0 \<and> (\<exists>x. taken = Some x \<and> tx_ok st (qs @ [x]) ws \<and>
         info st = ?i(x := fresh_xfer bd len) \<and> tx_done st = tx_done (sys_tx s) \<and>
         nextTxId st = nextTxId (sys_tx s) \<and> txStopped st = txStopped (sys_tx s) \<and>
         \<not> timedOut \<and> \<not> txStopped (sys_tx s)))"
    using queueXfer_spec[OF d(1) fresh, of taken mtu timedOut bd len] by blast
  show ?thesis
  proof (cases "r = 0")
    case False
    then show ?thesis using q c inv by (intro exI[of _ r] exI[of _ st] exI[of _ qs]) auto
  next
    case True
    then obtain x where x: "taken = Some x" "tx_ok st (qs @ [x]) ws" "info st = ?i(x := fresh_xfer bd len)"
      "tx_done st = tx_done (sys_tx s)" "nextTxId st = nextTxId (sys_tx s)" "\<not> timedOut" "\<not> txStopped (sys_tx s)"
      using c by auto
    let ?s = "s \<lparr> sys_accepted := sys_accepted s @ [bd], sys_tx := st \<rparr>"
    have nx: "x \<notin> set qs" "x \<notin> set ws" by (rule tx_ok_fresh[OF d(1) fresh[OF x(1)]])+
    have same: "info st a = ?i a" if "a \<in> set qs \<union> set ws" for a using that nx x(3) by auto
    have at: "info st x = fresh_xfer bd len" using x(3) by simp
    have "\<forall>a \<in> set (qs @ [x]). queue_clean ?s a"
      using d(2) same at by (auto simp: queue_clean_def fresh_xfer_def)
    moreover have "\<forall>a \<in> set ws. win_ok ?s None a" using d(3) same by (simp add: win_ok_def Let_def)
    moreover have "\<forall>a \<in> set ((qs @ [x]) @ ws). 0 \<le> x_length (info st a)"
      using d(5) same at len by (auto simp: fresh_xfer_def)
    moreover have "mset (sys_accepted s @ [bd]) =
        mset (map fst (tx_done st)) + mset (map (\<lambda>a. x_bundle (info st a)) ((qs @ [x]) @ ws))"
    proof -
      have "map (\<lambda>a. x_bundle (info st a)) qs = map (\<lambda>a. x_bundle (?i a)) qs"
        "map (\<lambda>a. x_bundle (info st a)) ws = map (\<lambda>a. x_bundle (?i a)) ws"
        using same by (auto intro!: bundles_upd)
      then have "map (\<lambda>a. x_bundle (info st a)) ((qs @ [x]) @ ws) =
          map (\<lambda>a. x_bundle (?i a)) qs @ bd # map (\<lambda>a. x_bundle (?i a)) ws"
        using at by (simp only: map_append) (simp add: fresh_xfer_def)
      then show ?thesis using d(6) x(4) by (simp only:) simp
    qed
    moreover have "report_ok ?s b" if "(b, True) \<in> set (tx_done st)" for b
      using d(7)[of b] that x(4) unfolding report_ok_def by simp
    moreover have "in_order ?s (qs @ [x])"
    proof -
      have "map (\<lambda>a. x_bundle (info st a)) (qs @ [x]) = map (\<lambda>a. x_bundle (?i a)) qs @ [bd]"
        using bundles_upd[of qs "info st" ?i] same at by (simp add: fresh_xfer_def)
      then have "sys_accepted ?s = map fst (sys_begun ?s) @ [] @ map (\<lambda>a. x_bundle (info (sys_tx ?s) a)) (qs @ [x])"
        using d(8) x(7) unfolding in_order_def by auto
      then have "\<exists>lost. sys_accepted ?s = map fst (sys_begun ?s) @ lost @
          map (\<lambda>a. x_bundle (info (sys_tx ?s) a)) (qs @ [x]) \<and> (lost \<noteq> [] \<longrightarrow> txStopped (sys_tx ?s))" by blast
      then show ?thesis using d(8) x(5) unfolding in_order_def by simp
    qed
    moreover have "within_window window windowBytes ?s"
    proof -
      have "(\<Sum>a \<leftarrow> (qs @ [x]) @ ws. x_length (info st a)) = (\<Sum>a \<leftarrow> qs @ ws. x_length (?i a)) + len"
        unfolding x(3) by (simp add: sum_list_upd[OF nx(1)] sum_list_upd[OF nx(2)] del: fun_upd_apply)
          (simp add: fresh_xfer_def)
      then have "txBytes st = txBytes (sys_tx s) + len" "txCount st = txCount (sys_tx s) + 1"
        using x(2) d(1) unfolding tx_ok_def by simp_all
      moreover have "0 \<le> txCount (sys_tx s)" using d(1) unfolding tx_ok_def by simp
      ultimately show ?thesis using d(9) room x(6,7) unfolding within_window_def tx_must_wait_def by auto
    qed
    ultimately have "tx_inv window windowBytes None ?s (qs @ [x]) ws"
      using x(2) d(4) unfolding tx_inv_def by simp
    then show ?thesis using q True by (intro exI[of _ r] exI[of _ st] exI[of _ "qs @ [x]"]) simp
  qed
qed

lemma take_inv:
  assumes inv: "tx_inv window windowBytes None s qs ws" and w: "sys_writing s = None"
    and go: "qs \<noteq> []" "\<not> txStopped (sys_tx s)"
  shows "\<exists>x xf st qs'. xmit_take (sys_tx s) = Some (Some x, st) \<and> tx_store st x = Some xf \<and>
    tx_inv window windowBytes None (s \<lparr> sys_writing := Some x,
      sys_begun := sys_begun s @ [(x_bundle xf, x_transferId xf, x_length xf)], sys_tx := st \<rparr>) qs' (ws @ [x])"
proof -
  note d = tx_invD[OF inv]
  let ?i = "info (sys_tx s)"
  obtain x qs' where qs: "qs = x # qs'" using go(1) by (cases qs) auto
  obtain st where st: "xmit_take (sys_tx s) = Some (Some x, st)" "tx_ok st qs' (ws @ [x])"
    "info st = ?i(x := (?i x) \<lparr> x_transferId := nextTxId (sys_tx s), x_inFlight := True \<rparr>)"
    "tx_done st = tx_done (sys_tx s)" "nextTxId st = nextTxId (sys_tx s) + 1" "txStopped st = txStopped (sys_tx s)"
    using xmit_take_spec[of "sys_tx s" x qs' ws] d(1) go(2) qs by auto
  obtain xf where xf: "tx_store st x = Some xf" using tx_ok_alloc[OF st(2), of x] by auto
  note fl = info_fields[OF xf]
  let ?e = "(x_bundle xf, x_transferId xf, x_length xf)"
  let ?s = "s \<lparr> sys_writing := Some x, sys_begun := sys_begun s @ [?e], sys_tx := st \<rparr>"
  have nx: "x \<notin> set qs'" "x \<notin> set ws" using d(1) qs by (auto simp: tx_ok_def queue_ok_def)
  have same: "info st a = ?i a" if "a \<in> set qs' \<union> set ws" for a using that nx st(3) by auto
  have at: "info st x = (?i x) \<lparr> x_transferId := nextTxId (sys_tx s), x_inFlight := True \<rparr>" using st(3) by simp
  have bun: "x_bundle (info st a) = x_bundle (?i a)" and len: "x_length (info st a) = x_length (?i a)" for a
    unfolding st(3) by simp_all
  have "\<forall>a \<in> set qs'. queue_clean ?s a" using d(2) same qs by (simp add: queue_clean_def)
  moreover have "\<forall>a \<in> set (ws @ [x]). win_ok ?s None a"
  proof
    fix a assume a: "a \<in> set (ws @ [x])"
    show "win_ok ?s None a"
    proof (cases "a = x")
      case True
      have "queue_clean s x" using d(2) qs by simp
      then show ?thesis using True at fl by (simp add: win_ok_def queue_clean_def Let_def)
    next
      case False
      then have "a \<in> set ws" "info st a = ?i a" using a same by auto
      then show ?thesis using d(3) False w by (simp add: win_ok_def Let_def)
    qed
  qed
  moreover have "mset (sys_accepted s) = mset (map fst (tx_done st)) +
      mset (map (\<lambda>a. x_bundle (info st a)) (qs' @ ws @ [x]))"
    unfolding bun using d(6) qs st(4) by simp
  moreover have "report_ok ?s b" if "(b, True) \<in> set (tx_done st)" for b
    by (rule report_ok_mono[OF d(7)]) (use that st(4) in auto)
  moreover have "in_order ?s qs'"
  proof -
    obtain lost where "sys_accepted s = map fst (sys_begun s) @ lost @ map (\<lambda>a. x_bundle (?i a)) qs"
      "lost \<noteq> [] \<longrightarrow> txStopped (sys_tx s)" using d(8) unfolding in_order_def by blast
    then have "sys_accepted s = map fst (sys_begun s @ [?e]) @ [] @ map (\<lambda>a. x_bundle (info st a)) qs'"
      unfolding bun using go(2) qs fl(1) bun[of x] by simp
    then have "\<exists>lost. sys_accepted ?s = map fst (sys_begun ?s) @ lost @ map (\<lambda>a. x_bundle (info (sys_tx ?s) a)) qs' \<and>
        (lost \<noteq> [] \<longrightarrow> txStopped (sys_tx ?s))" by (intro exI[of _ "[]"]) simp
    then show ?thesis using d(8) st(5) fl(3) at unfolding in_order_def by simp
  qed
  moreover have "within_window window windowBytes ?s"
  proof -
    have "txCount st = txCount (sys_tx s)" using st(2) d(1) qs unfolding tx_ok_def by simp
    moreover have "txBytes st = txBytes (sys_tx s)" using st(2) d(1) qs unfolding tx_ok_def len by simp
    ultimately show ?thesis using d(9) unfolding within_window_def by simp
  qed
  moreover have "\<forall>a \<in> set (qs' @ ws @ [x]). 0 \<le> x_length (info st a)" unfolding len using d(5) qs by auto
  ultimately have "tx_inv window windowBytes None ?s qs' (ws @ [x])"
    using st(2) unfolding tx_inv_def by simp
  then show ?thesis using st(1) xf by blast
qed

lemma stop_inv:
  assumes inv: "tx_inv window windowBytes None s qs ws"
  shows "tx_inv window windowBytes None (s \<lparr> sys_tx := tcpv4TxStop (sys_tx s) \<rparr>) qs ws"
  by (rule tx_inv_mono[OF inv])
    (use tx_invD(1)[OF inv] in \<open>auto simp: tcpv4TxStop_def info_def intro: tx_ok_other\<close>)

lemma drain_inv:
  assumes inv: "tx_inv window windowBytes None s qs ws" and w: "sys_writing s = None"
  shows "\<exists>st. tcpv4TxDrain (sys_tx s) = Some st \<and> tx_inv window windowBytes None (s \<lparr> sys_tx := st \<rparr>) [] []"
proof -
  note d = tx_invD[OF inv]
  let ?i = "info (sys_tx s)"
  obtain st where st: "tcpv4TxDrain (sys_tx s) = Some st" "tx_ok st [] []" "txStopped st"
     "nextTxId st = nextTxId (sys_tx s)"
     "tx_done st = tx_done (sys_tx s) @ map (\<lambda>a. (x_bundle (?i a), xfer_succeeded (?i a))) (rev ws @ rev qs)"
    using tcpv4TxDrain_spec[OF d(1)] by blast
  let ?s = "s \<lparr> sys_tx := st \<rparr>"
  have "mset (sys_accepted s) = mset (map fst (tx_done st))" using d(6) st(5) by (simp add: comp_def)
  moreover have "report_ok ?s b" if b: "(b, True) \<in> set (tx_done st)" for b
  proof -
    consider "(b, True) \<in> set (tx_done (sys_tx s))"
      | a where "a \<in> set qs" "xfer_succeeded (?i a)"
      | a where "a \<in> set ws" "b = x_bundle (?i a)" "xfer_succeeded (?i a)"
      using b st(5) by auto
    then have "report_ok s b"
    proof cases
      case 1 then show ?thesis by (rule d(7))
    next
      case 2 then show ?thesis using d(2) unfolding queue_clean_def xfer_succeeded_def Let_def by blast
    next
      case 3 then show ?thesis using report_ok_node[OF d(3)] by blast
    qed
    then show ?thesis by (rule report_ok_mono) simp_all
  qed
  moreover have "in_order ?s []"
    using d(8) st(3,4) unfolding in_order_def by auto
  moreover have "within_window window windowBytes ?s"
    using st(2) unfolding within_window_def tx_ok_def by simp
  ultimately have "tx_inv window windowBytes None ?s [] []"
    using st(2) w unfolding tx_inv_def by simp
  then show ?thesis using st(1) by blast
qed

lemma tx_step_inv:
  assumes "tx_step window windowBytes mtu s s'" "tx_inv window windowBytes None s qs ws"
  shows "\<exists>qs ws. tx_inv window windowBytes None s' qs ws"
  using assms
proof (cases rule: tx_step.cases)
  case (Enqueue taken len timedOut b r st)
  obtain qs' where "tx_inv window windowBytes None s' qs' ws"
    using enqueue_inv[where taken = taken and mtu = mtu and bd = b, OF assms(2) Enqueue(2-4)] Enqueue(1,5) by auto
  then show ?thesis by blast
next
  case (Take x st xf)
  then have "qs \<noteq> []" "\<not> txStopped (sys_tx s)"
    using xmit_take_none[OF tx_invD(1)[OF assms(2)]] by auto
  from take_inv[OF assms(2) Take(2) this] Take show ?thesis by auto
next
  case (Leave st)
  have "st = sys_tx s" using xmit_take_none[OF tx_invD(1)[OF assms(2)]] Leave by simp
  moreover have "tx_inv window windowBytes None (s \<lparr> sys_ended := True \<rparr>) qs ws"
    by (rule tx_inv_mono[OF assms(2)]) (use tx_invD(1)[OF assms(2)] in auto)
  ultimately show ?thesis using Leave(1) by auto
next
  case (LetGo x failed st)
  then show ?thesis using let_go_inv[OF assms(2), of x failed] by auto
next
  case (Ack ident len unexpected st)
  then show ?thesis using ack_inv[OF assms(2), of ident len] by auto
next
  case (Refuse ident reason found st)
  then show ?thesis using refuse_inv[OF assms(2), of ident reason] by auto
next
  case Stop
  then show ?thesis using stop_inv[OF assms(2)] by auto
next
  case (Drain st)
  then show ?thesis using drain_inv[OF assms(2)] by auto
qed

lemma tx_reach_inv: "tx_reach window windowBytes mtu s \<Longrightarrow> \<exists>qs ws. tx_inv window windowBytes None s qs ws"
proof (induction rule: tx_reach.induct)
  case Init
  show ?case using tx_inv_init by blast
next
  case (Step s s')
  then show ?case using tx_step_inv by blast
qed

lemma tx_reach_invE:
  assumes "tx_reach window windowBytes mtu s"
  obtains qs ws where "tx_inv window windowBytes None s qs ws"
  using tx_reach_inv[OF assms] by blast

text \<open>A run: one bundle is queued, begun, acknowledged while it is written, let go of and reported.\<close>

definition run_node :: "bool \<Rightarrow> bool \<Rightarrow> Tcpv4Xfer" where
  "run_node inFlight acked = \<lparr>x_next = None, x_bundle = 7, x_length = 10, x_transferId = 0,
     x_inFlight = inFlight, x_acked = acked, x_refused = False, x_completed = False\<rparr>"

lemma run_queue: "queueXfer 1000 tx_init (Some 0) False 7 10 =
    Some (0, tx_init \<lparr> tx_store := [0 \<mapsto> run_node False False], txQueue := Some 0,
      txQueueTail := Some 0, txCount := 1, txBytes := 10, txActive := True, secSinceData := 0 \<rparr>)"
  by (simp add: queueXfer_def tx_init_def txAppend_def run_node_def)

lemma run_take: "xmit_take (tx_init \<lparr> tx_store := [0 \<mapsto> run_node False False], txQueue := Some 0,
      txQueueTail := Some 0, txCount := 1, txBytes := 10, txActive := True, secSinceData := 0 \<rparr>) =
    Some (Some 0, tx_init \<lparr> tx_store := [0 \<mapsto> run_node True False], txWindow := Some 0,
      txWindowTail := Some 0, txCount := 1, txBytes := 10, txActive := True, nextTxId := 1 \<rparr>)"
  by (simp add: xmit_take_def tx_init_def txUnlink_def unlink_loop.simps upd_xfer_def txAppend_def run_node_def)

lemma run_ack: "ack_section (tx_init \<lparr> tx_store := [0 \<mapsto> run_node True False], txWindow := Some 0,
      txWindowTail := Some 0, txCount := 1, txBytes := 10, txActive := True, nextTxId := 1 \<rparr>) 0 10 =
    Some (False, tx_init \<lparr> tx_store := [0 \<mapsto> run_node True True], txWindow := Some 0, txAckedLen := 10,
      txWindowTail := Some 0, txCount := 1, txBytes := 10, txActive := True, nextTxId := 1 \<rparr>)"
  by (simp add: ack_section_def tx_init_def upd_xfer_def retire_def tcpv4TxFinished_def report_done_def run_node_def)

lemma run_let_go: "xmit_let_go (tx_init \<lparr> tx_store := [0 \<mapsto> run_node True True], txWindow := Some 0,
      txAckedLen := 10, txWindowTail := Some 0, txCount := 1, txBytes := 10, txActive := True,
      nextTxId := 1 \<rparr>) 0 False =
    Some (tx_init \<lparr> nextTxId := 1, tx_done := [(7, True)] \<rparr>)"
  by (simp add: xmit_let_go_def tx_init_def upd_xfer_def retire_def tcpv4TxFinished_def report_done_def
      txUnlink_def unlink_loop.simps run_node_def xfer_succeeded_def)

definition run_end :: TxSys where
  "run_end = \<lparr>sys_tx = tx_init \<lparr> nextTxId := 1, tx_done := [(7, True)] \<rparr>, sys_writing = None,
     sys_ended = False, sys_accepted = [7], sys_begun = [(7, 0, 10)], sys_acks = {(0, 10)},
     sys_refusals = {}\<rparr>"

lemma example_run: "tx_reach 1 0 1000 run_end"
proof -
  note reach = tx_reach.Step[where window = 1 and windowBytes = 0 and mtu = 1000]
  let ?s1 = "sys_init \<lparr> sys_accepted := (if (0::int) = 0 then sys_accepted sys_init @ [7] else sys_accepted sys_init),
      sys_tx := tx_init \<lparr> tx_store := [0 \<mapsto> run_node False False], txQueue := Some 0,
      txQueueTail := Some 0, txCount := 1, txBytes := 10, txActive := True, secSinceData := 0 \<rparr> \<rparr>"
  have 1: "tx_reach 1 0 1000 ?s1"
    by (rule reach[OF tx_reach.Init], rule tx_step.Enqueue[where taken = "Some 0" and len = 10 and timedOut = False])
      (simp_all add: sys_init_def run_queue tx_must_wait_def, simp_all add: tx_init_def)
  let ?xf = "run_node True False"
  let ?s2 = "?s1 \<lparr> sys_writing := Some 0,
      sys_begun := sys_begun ?s1 @ [(x_bundle ?xf, x_transferId ?xf, x_length ?xf)],
      sys_tx := tx_init \<lparr> tx_store := [0 \<mapsto> run_node True False], txWindow := Some 0,
      txWindowTail := Some 0, txCount := 1, txBytes := 10, txActive := True, nextTxId := 1 \<rparr> \<rparr>"
  have 2: "tx_reach 1 0 1000 ?s2"
    by (rule reach[OF 1], rule tx_step.Take) (simp_all add: run_take, simp_all add: sys_init_def)
  let ?s3 = "?s2 \<lparr> sys_acks := insert (0, 10) (sys_acks ?s2),
      sys_tx := tx_init \<lparr> tx_store := [0 \<mapsto> run_node True True], txWindow := Some 0, txAckedLen := 10,
      txWindowTail := Some 0, txCount := 1, txBytes := 10, txActive := True, nextTxId := 1 \<rparr> \<rparr>"
  have 3: "tx_reach 1 0 1000 ?s3"
    by (rule reach[OF 2], rule tx_step.Ack[where unexpected = False]) (simp_all add: run_ack)
  have w: "sys_writing ?s3 = Some 0" by simp
  have l: "xmit_let_go (sys_tx ?s3) 0 False = Some (tx_init \<lparr> nextTxId := 1, tx_done := [(7, True)] \<rparr>)"
    by (simp add: run_let_go)
  have "tx_reach 1 0 1000 (?s3 \<lparr> sys_writing := None, sys_ended := False,
      sys_tx := tx_init \<lparr> nextTxId := 1, tx_done := [(7, True)] \<rparr> \<rparr>)"
    by (rule reach[OF 3], rule tx_step.LetGo[OF w l])
  then show ?thesis by (simp add: sys_init_def run_node_def run_end_def)
qed

section \<open>The lists as queues\<close>

text \<open>What the transmit thread and the receiver thread rely on: a list that takes a node at its end
  and gives up any node, keeping the order of the others.\<close>

fun fold_opt :: "('q \<Rightarrow> 'a \<Rightarrow> 'q option) \<Rightarrow> 'a list \<Rightarrow> 'q \<Rightarrow> 'q option" where
  "fold_opt f [] q = Some q"
| "fold_opt f (x # xs) q = (case f q x of None \<Rightarrow> None | Some q \<Rightarrow> fold_opt f xs q)"

definition removed :: "('q \<Rightarrow> 'a \<Rightarrow> (bool \<times> 'q) option) \<Rightarrow> 'q \<Rightarrow> 'a \<Rightarrow> 'q option" where
  "removed unl q x = (case unl q x of Some (True, q) \<Rightarrow> Some q | _ \<Rightarrow> None)"

locale linked_queue =
  fixes rep :: "'q \<Rightarrow> 'a list \<Rightarrow> bool" and usable :: "'q \<Rightarrow> 'a \<Rightarrow> bool"
    and enq :: "'q \<Rightarrow> 'a \<Rightarrow> 'q option" and unl :: "'q \<Rightarrow> 'a \<Rightarrow> (bool \<times> 'q) option"
  assumes rep_distinct: "rep q xs \<Longrightarrow> distinct xs"
    and enq_law: "rep q xs \<Longrightarrow> usable q x \<Longrightarrow> x \<notin> set xs \<Longrightarrow>
      \<exists>q'. enq q x = Some q' \<and> rep q' (xs @ [x]) \<and> (\<forall>y. usable q' y = usable q y)"
    and unl_law: "rep q xs \<Longrightarrow> x \<in> set xs \<Longrightarrow>
      \<exists>q'. unl q x = Some (True, q') \<and> rep q' (remove1 x xs) \<and> (\<forall>y. usable q' y = usable q y)"
    and unl_other: "rep q xs \<Longrightarrow> x \<notin> set xs \<Longrightarrow> unl q x = Some (False, q)"
begin

lemma enq_all:
  "rep q xs \<Longrightarrow> \<forall>y \<in> set ys. usable q y \<Longrightarrow> distinct (xs @ ys) \<Longrightarrow>
     \<exists>q'. fold_opt enq ys q = Some q' \<and> rep q' (xs @ ys)"
proof (induction ys arbitrary: q xs)
  case (Cons y ys)
  then obtain q1 where q1: "enq q y = Some q1" "rep q1 (xs @ [y])" "\<forall>y. usable q1 y = usable q y"
    using enq_law[of q xs y] by auto
  have "\<exists>q'. fold_opt enq ys q1 = Some q' \<and> rep q' ((xs @ [y]) @ ys)"
    by (rule Cons.IH[OF q1(2)]) (use Cons.prems q1(3) in auto)
  then show ?case using q1(1) by simp
qed simp

lemma unl_front: "rep q (xs @ ys) \<Longrightarrow> \<exists>q'. fold_opt (removed unl) xs q = Some q' \<and> rep q' ys"
proof (induction xs arbitrary: q)
  case (Cons x xs)
  obtain q1 where q1: "unl q x = Some (True, q1)" "rep q1 (remove1 x ((x # xs) @ ys))"
    using unl_law[OF Cons.prems, of x] by auto
  have "\<exists>q'. fold_opt (removed unl) xs q1 = Some q' \<and> rep q' ys" by (rule Cons.IH) (use q1(2) in simp)
  moreover have "removed unl q x = Some q1" using q1(1) by (simp add: removed_def)
  ultimately show ?case by simp
qed simp

lemma unl_middle:
  assumes "rep q (xs @ x # ys)"
  shows "\<exists>q'. unl q x = Some (True, q') \<and> rep q' (xs @ ys) \<and> unl q' x = Some (False, q')"
proof -
  obtain q' where q': "unl q x = Some (True, q')" "rep q' (remove1 x (xs @ x # ys))"
    using unl_law[OF assms, of x] by auto
  have "distinct (xs @ x # ys)" by (rule rep_distinct[OF assms])
  then have "remove1 x (xs @ x # ys) = xs @ ys" "x \<notin> set (xs @ ys)" by (auto simp: remove1_append)
  then show ?thesis using q' unl_other[of q' "xs @ ys" x] by simp
qed

end

text \<open>A list of a session: the store, the head and the tail.\<close>

type_synonym xlist = "store \<times> addr option \<times> addr option"

definition xl_rep :: "xlist \<Rightarrow> addr list \<Rightarrow> bool" where
  "xl_rep = (\<lambda>(h, head, tail). queue_ok h head tail)"

definition xl_usable :: "xlist \<Rightarrow> addr \<Rightarrow> bool" where
  "xl_usable = (\<lambda>(h, head, tail) x. h x \<noteq> None)"

definition xl_append :: "xlist \<Rightarrow> addr \<Rightarrow> xlist option" where
  "xl_append = (\<lambda>(h, head, tail) x. txAppend h head tail x)"

definition xl_unlink :: "xlist \<Rightarrow> addr \<Rightarrow> (bool \<times> xlist) option" where
  "xl_unlink = (\<lambda>(h, head, tail) x. txUnlink h head tail x)"

lemma content_alloc: "\<forall>a. content h' a = content h a \<Longrightarrow> (h' y \<noteq> None) = (h y \<noteq> None)"
  using content_store_dom[of h' h] by blast

interpretation xl: linked_queue xl_rep xl_usable xl_append xl_unlink
proof
  fix q xs assume "xl_rep q xs"
  then show "distinct xs" by (cases q) (simp add: xl_rep_def queue_ok_def)
next
  fix q xs and x :: addr
  assume a: "xl_rep q xs" "xl_usable q x" "x \<notin> set xs"
  obtain h head tail where q: "q = (h, head, tail)" by (cases q)
  obtain h' head' tail' where "txAppend h head tail x = Some (h', head', tail')"
    "queue_ok h' head' tail' (xs @ [x])" "\<forall>a. content h' a = content h a"
    using txAppend_spec[of h head tail xs x] a q by (auto simp: xl_rep_def xl_usable_def)
  then show "\<exists>q'. xl_append q x = Some q' \<and> xl_rep q' (xs @ [x]) \<and> (\<forall>y. xl_usable q' y = xl_usable q y)"
    using content_alloc[of h' h] q by (simp add: xl_rep_def xl_usable_def xl_append_def)
next
  fix q xs and x :: addr
  assume a: "xl_rep q xs" "x \<in> set xs"
  obtain h head tail where q: "q = (h, head, tail)" by (cases q)
  obtain h' head' tail' where "txUnlink h head tail x = Some (True, h', head', tail')"
    "unlinked h xs x h' head' tail'"
    using txUnlink_spec[of h head tail xs x] a q by (auto simp: xl_rep_def)
  then show "\<exists>q'. xl_unlink q x = Some (True, q') \<and> xl_rep q' (remove1 x xs) \<and> (\<forall>y. xl_usable q' y = xl_usable q y)"
    using content_alloc[of h' h] q by (simp add: xl_rep_def xl_usable_def xl_unlink_def unlinked_def)
next
  fix q xs and x :: addr
  assume "xl_rep q xs" "x \<notin> set xs"
  then show "xl_unlink q x = Some (False, q)"
    using txUnlink_absent by (cases q) (simp add: xl_rep_def xl_unlink_def)
qed

section \<open>Properties\<close>

text \<open>Where the accepted bundles are: \<open>qs\<close> are the transfers on the queue and \<open>ws\<close> those on the window, found by
  following the pointers from the heads, the tails pointing to the last ones; no transfer is on a list twice or on both,
  nothing else is allocated or counted, and each accepted bundle is that of one listed transfer or of one report.\<close>

definition bundles_held :: "TxSys \<Rightarrow> addr list \<Rightarrow> addr list \<Rightarrow> bool" where
  "bundles_held s qs ws \<longleftrightarrow> (let st = sys_tx s in
     queue_ok (tx_store st) (txQueue st) (txQueueTail st) qs \<and> queue_ok (tx_store st) (txWindow st) (txWindowTail st) ws \<and>
     set qs \<inter> set ws = {} \<and> dom (tx_store st) = set qs \<union> set ws \<and> txCount st = int (length (qs @ ws)) \<and>
     mset (sys_accepted s) = mset (map fst (tx_done st)) + mset (map (\<lambda>a. x_bundle (info st a)) qs) +
       mset (map (\<lambda>a. x_bundle (info st a)) ws))"

lemma tx_bundles_reported_once_parts:
  assumes "tx_reach window windowBytes mtu s"
  shows "\<exists>qs ws. bundles_held s qs ws \<and> (\<forall>x. sys_writing s = Some x \<longrightarrow> x \<in> set ws)"
    "mset (map fst (tx_done (sys_tx s))) \<subseteq># mset (sys_accepted s)"
    "sys_writing s = None \<Longrightarrow> \<exists>st. tcpv4TxDrain (sys_tx s) = Some st \<and>
       mset (map fst (tx_done st)) = mset (sys_accepted s) \<and> tx_store st = Map.empty"
proof -
  obtain qs ws where inv: "tx_inv window windowBytes None s qs ws" by (rule tx_reach_invE[OF assms])
  have "bundles_held s qs ws"
    using tx_invD(1,6)[OF inv] by (simp add: bundles_held_def tx_ok_def Let_def)
  moreover have "\<forall>x. sys_writing s = Some x \<longrightarrow> x \<in> set ws"
    using inv unfolding tx_inv_def by blast
  ultimately show "\<exists>qs ws. bundles_held s qs ws \<and> (\<forall>x. sys_writing s = Some x \<longrightarrow> x \<in> set ws)" by blast
  show "mset (map fst (tx_done (sys_tx s))) \<subseteq># mset (sys_accepted s)"
    using tx_invD(6)[OF inv] by simp
  assume "sys_writing s = None"
  then obtain st where st: "tcpv4TxDrain (sys_tx s) = Some st"
    "tx_inv window windowBytes None (s \<lparr> sys_tx := st \<rparr>) [] []" using drain_inv[OF inv] by blast
  have "dom (tx_store st) = {}" using tx_invD(1)[OF st(2)] unfolding tx_ok_def by simp
  then show "\<exists>st. tcpv4TxDrain (sys_tx s) = Some st \<and>
       mset (map fst (tx_done st)) = mset (sys_accepted s) \<and> tx_store st = Map.empty"
    using tx_invD(6)[OF st(2)] st(1) by auto
qed

text \<open>C16: however the threads of a session interleave, every bundle the session has accepted is that of one transfer
  on the queue or the window, which are two proper lists without a transfer in common (the one being written is on the
  window), or has been reported to BP, and not both; nothing is reported that was not accepted, or more often.  Once
  the session is drained every bundle has been reported exactly once and no transfer is left allocated.\<close>

theorem tx_bundles_reported_once:
  assumes "tx_reach window windowBytes mtu s"
  shows "(\<exists>qs ws. bundles_held s qs ws \<and> (\<forall>x. sys_writing s = Some x \<longrightarrow> x \<in> set ws)) \<and>
    (mset (map fst (tx_done (sys_tx s))) \<subseteq># mset (sys_accepted s)) \<and>
    (sys_writing s = None \<longrightarrow> (\<exists>st. tcpv4TxDrain (sys_tx s) = Some st \<and>
       mset (map fst (tx_done st)) = mset (sys_accepted s) \<and> tx_store st = Map.empty))"
  using tx_bundles_reported_once_parts[OF assms] by blast

theorem tx_bundles_reported_once_witness:
  "\<exists>st. tcpv4TxDrain (sys_tx run_end) = Some st \<and> mset (map fst (tx_done st)) = {#7#}"
  using tx_bundles_reported_once[OF example_run] by (auto simp: run_end_def)

text \<open>C18: a bundle is reported to BP as sent only when its transfer was begun and the peer has
  acknowledged its whole length, or has refused it as already completed.\<close>

theorem tx_success_needs_peer:
  assumes "tx_reach window windowBytes mtu s" "(b, True) \<in> set (tx_done (sys_tx s))"
  shows "\<exists>ident len. (b, ident, len) \<in> set (sys_begun s) \<and>
    ((ident, word_of_int len) \<in> sys_acks s \<or> (ident, TMSG_REFUSE_COMPLETED) \<in> sys_refusals s)"
  using tx_reach_invE[OF assms(1)] tx_invD(7)[OF _ assms(2)] unfolding report_ok_def by metis

theorem tx_success_needs_peer_witness:
  "\<exists>ident len. (7, ident, len) \<in> set (sys_begun run_end) \<and> (ident, word_of_int len) \<in> sys_acks run_end"
  using tx_success_needs_peer[OF example_run, of 7] by (simp add: run_end_def)

lemma tx_sections_safe_parts:
  assumes "tx_reach window windowBytes mtu s"
  shows "taken \<in> {None} \<union> Some ` (- dom (tx_store (sys_tx s))) \<Longrightarrow> 0 \<le> len \<Longrightarrow>
      timedOut \<or> \<not> tx_must_wait window windowBytes (sys_tx s) len \<Longrightarrow>
      queueXfer mtu (sys_tx s) taken timedOut b len \<noteq> None"
    "sys_writing s = None \<Longrightarrow> xmit_take (sys_tx s) \<noteq> None"
    "sys_writing s = Some x \<Longrightarrow> xmit_let_go (sys_tx s) x failed \<noteq> None"
    "ack_section (sys_tx s) ident ackLength \<noteq> None"
    "refuse_section (sys_tx s) ident reason \<noteq> None"
    "sys_writing s = None \<Longrightarrow> tcpv4TxDrain (sys_tx s) \<noteq> None"
proof -
  obtain qs ws where inv: "tx_inv window windowBytes None s qs ws" by (rule tx_reach_invE[OF assms])
  show "queueXfer mtu (sys_tx s) taken timedOut b len \<noteq> None"
    if "taken \<in> {None} \<union> Some ` (- dom (tx_store (sys_tx s)))" "0 \<le> len"
      "timedOut \<or> \<not> tx_must_wait window windowBytes (sys_tx s) len"
  proof -
    have "tx_store (sys_tx s) x = None" if "taken = Some x" for x
      using that \<open>taken \<in> _\<close> by auto
    from enqueue_inv[OF inv this that(2,3), of taken mtu b] show ?thesis by auto
  qed
  show "xmit_take (sys_tx s) \<noteq> None" if "sys_writing s = None"
    using take_inv[OF inv that] xmit_take_none[OF tx_invD(1)[OF inv]]
    by (cases "qs = [] \<or> txStopped (sys_tx s)") auto
  show "xmit_let_go (sys_tx s) x failed \<noteq> None" if "sys_writing s = Some x"
    using let_go_inv[OF inv that, of failed] by auto
  show "ack_section (sys_tx s) ident ackLength \<noteq> None" using ack_inv[OF inv, of ident ackLength] by auto
  show "refuse_section (sys_tx s) ident reason \<noteq> None" using refuse_inv[OF inv, of ident reason] by auto
  show "tcpv4TxDrain (sys_tx s) \<noteq> None" if "sys_writing s = None" using drain_inv[OF inv that] by auto
qed

text \<open>C20: in every state the threads can reach, each section of code that locks \<open>txMutex\<close> runs to
  its end and follows only pointers to allocated transfers.\<close>

theorem tx_sections_safe:
  assumes "tx_reach window windowBytes mtu s"
  shows "(taken \<in> {None} \<union> Some ` (- dom (tx_store (sys_tx s))) \<longrightarrow>
      0 \<le> len \<longrightarrow>
      (timedOut \<or> \<not> tx_must_wait window windowBytes (sys_tx s) len) \<longrightarrow>
      queueXfer mtu (sys_tx s) taken timedOut b len \<noteq> None) \<and>
    (sys_writing s = None \<longrightarrow>
      xmit_take (sys_tx s) \<noteq> None) \<and>
    (sys_writing s = Some x \<longrightarrow>
      xmit_let_go (sys_tx s) x failed \<noteq> None) \<and>
    (ack_section (sys_tx s) ident ackLength \<noteq> None) \<and>
    (refuse_section (sys_tx s) ident reason \<noteq> None) \<and>
    (sys_writing s = None \<longrightarrow>
      tcpv4TxDrain (sys_tx s) \<noteq> None)"
  using tx_sections_safe_parts[OF assms] by simp

theorem tx_sections_safe_witness:
  "xmit_take (sys_tx run_end) \<noteq> None \<and> ack_section (sys_tx run_end) 0 10 \<noteq> None"
  using tx_sections_safe[OF example_run] by (simp add: run_end_def)

lemma tx_transfers_in_order_parts:
  assumes "tx_reach window windowBytes mtu s"
  shows "\<exists>rest. sys_accepted s = map fst (sys_begun s) @ rest"
    "i < length (sys_begun s) \<Longrightarrow> fst (snd (sys_begun s ! i)) = word_of_nat i"
proof -
  obtain qs ws where "tx_inv window windowBytes None s qs ws" by (rule tx_reach_invE[OF assms])
  then have io: "in_order s qs" by (rule tx_invD(8))
  show "\<exists>rest. sys_accepted s = map fst (sys_begun s) @ rest" using io unfolding in_order_def by blast
  assume i: "i < length (sys_begun s)"
  have "map (fst \<circ> snd) (sys_begun s) ! i = map word_of_nat [0..<length (sys_begun s)] ! i"
    using io unfolding in_order_def by simp
  then show "fst (snd (sys_begun s ! i)) = word_of_nat i" using i by simp
qed

text \<open>Transfers are begun in the order in which their bundles were accepted, and their
  transfer IDs count up from 0 (modulo 2^64).\<close>

theorem tx_transfers_in_order:
  assumes "tx_reach window windowBytes mtu s"
  shows "(\<exists>rest. sys_accepted s = map fst (sys_begun s) @ rest) \<and>
    (i < length (sys_begun s) \<longrightarrow>
      fst (snd (sys_begun s ! i)) = word_of_nat i)"
  using tx_transfers_in_order_parts[OF assms] by simp

theorem tx_transfers_in_order_witness: "fst (snd (sys_begun run_end ! 0)) = word_of_nat 0"
  using tx_transfers_in_order[OF example_run, of 0] by (simp add: run_end_def)

lemma tx_window_bounded_parts:
  assumes "tx_reach window windowBytes mtu s"
  shows "0 < window \<Longrightarrow> txCount (sys_tx s) \<le> window"
    "0 < windowBytes \<Longrightarrow> txBytes (sys_tx s) \<le> windowBytes \<or> txCount (sys_tx s) = 1"
proof -
  obtain qs ws where inv: "tx_inv window windowBytes None s qs ws" by (rule tx_reach_invE[OF assms])
  note w = tx_invD(9)[OF inv] and ok = tx_invD(1)[OF inv]
  show "0 < window \<Longrightarrow> txCount (sys_tx s) \<le> window" using w unfolding within_window_def by blast
  assume b: "0 < windowBytes"
  have "txBytes (sys_tx s) = 0" if "txCount (sys_tx s) = 0"
  proof -
    have "length (qs @ ws) = 0" "txBytes (sys_tx s) = (\<Sum>a \<leftarrow> qs @ ws. x_length (info (sys_tx s) a))"
      using ok that unfolding tx_ok_def by presburger+
    then show ?thesis by simp
  qed
  moreover have "0 \<le> txCount (sys_tx s)" using ok unfolding tx_ok_def by simp
  ultimately show "txBytes (sys_tx s) \<le> windowBytes \<or> txCount (sys_tx s) = 1"
    using w b unfolding within_window_def by force
qed

text \<open>Never more transfers are outstanding than the configured window, and never more octets
  than its octet budget unless a single bundle is larger.\<close>

theorem tx_window_bounded:
  assumes "tx_reach window windowBytes mtu s"
  shows "(0 < window \<longrightarrow>
      txCount (sys_tx s) \<le> window) \<and>
    (0 < windowBytes \<longrightarrow>
      txBytes (sys_tx s) \<le> windowBytes \<or> txCount (sys_tx s) = 1)"
  using tx_window_bounded_parts[OF assms] by simp

theorem tx_window_bounded_witness: "txCount (sys_tx run_end) \<le> 1"
  using tx_window_bounded[OF example_run] by simp

text \<open>A transfer list, kept as a chain of nodes with a head and a tail pointer, is a queue:
  nodes appended one by one come off its front in the same order, and a node unlinked from the
  middle leaves the others in order and is not found again.\<close>

theorem tx_list_is_queue:
  assumes "distinct (xs @ x # ys)" "set (xs @ x # ys) \<subseteq> dom h"
  shows "\<exists>q. fold_opt (\<lambda>(h, head, tail) a. txAppend h head tail a) (xs @ x # ys) (h, None, None) = Some q \<and>
     (\<exists>q'. fold_opt (removed (\<lambda>(h, head, tail) a. txUnlink h head tail a)) (xs @ x # ys) q = Some q' \<and>
        fst (snd q') = None \<and> snd (snd q') = None) \<and>
     (\<exists>h' head' tail'. txUnlink (fst q) (fst (snd q)) (snd (snd q)) x = Some (True, h', head', tail') \<and>
        queue_ok h' head' tail' (xs @ ys) \<and> txUnlink h' head' tail' x = Some (False, h', head', tail'))"
proof -
  have "xl_rep (h, None, None) []" by (simp add: xl_rep_def queue_ok_empty)
  moreover have "\<forall>y \<in> set (xs @ x # ys). xl_usable (h, None, None) y"
    using assms(2) by (simp add: xl_usable_def) blast
  ultimately obtain q where q: "fold_opt xl_append (xs @ x # ys) (h, None, None) = Some q" "xl_rep q (xs @ x # ys)"
    using xl.enq_all[of "(h, None, None)" "[]" "xs @ x # ys"] assms(1) by auto
  obtain q' where q': "fold_opt (removed xl_unlink) (xs @ x # ys) q = Some q'" "xl_rep q' []"
    using xl.unl_front[of q "xs @ x # ys" "[]"] q(2) by auto
  have "fst (snd q') = None \<and> snd (snd q') = None"
    using q'(2) by (cases q') (simp add: xl_rep_def queue_ok_def)
  moreover obtain q2 where "xl_unlink q x = Some (True, q2)" "xl_rep q2 (xs @ ys)"
    "xl_unlink q2 x = Some (False, q2)" using xl.unl_middle[OF q(2)] by blast
  ultimately show ?thesis
    using q(1) q'(1) by (cases q; cases q'; cases q2) (auto simp: xl_append_def xl_unlink_def xl_rep_def)
qed

theorem tx_list_is_queue_witness:
  "\<exists>q. fold_opt (\<lambda>(h, head, tail) a. txAppend h head tail a) [0, 1, 2]
      (\<lambda>a. Some (run_node False False), None, None) = Some q"
  using tx_list_is_queue[of "[0]" 1 "[2]" "\<lambda>a. Some (run_node False False)"] by fastforce

end
