(* ===== verification/Tcpv4Rx.thy ===== *)
theory Tcpv4Rx
  imports Tcpv4Io Tcpv4Tx
begin

unbundle bit_operations_syntax

text \<open>
  Reception on an established TCPCLv4 session (CLA/tcpv4/src/tcpv4rx.c): reassembly of a transfer
  from its segments, the hand-off to the delivery thread and that thread's round, acknowledgments
  and refusals of our own transfers, session termination, and the message loop.

  The operations are those of the receiver thread, on the session record \<open>RxConn\<close>, which extends
  the input and output fields and holds the transmission fields as \<open>c_tx\<close>.  Where the receiver waits
  for the hand-off to drain, the delivery thread's round happens (\<open>await_delivery\<close>); it may also
  happen between two messages.  Log messages are left out, and \<open>None\<close> stands for following a
  pointer that is not allocated and for writing outside a buffer: the segment header (\<open>hdr\<close>), the scratch octets
  of \<open>drainOctets\<close> and the reassembly buffer are lists of their size, and \<open>recv_at\<close> reads into them.
\<close>

section \<open>Model: the session\<close>

definition TCS_NEGOTIATING :: int where "TCS_NEGOTIATING = 0"
definition TCS_ESTABLISHED :: int where "TCS_ESTABLISHED = 1"
definition TCS_ENDING :: int where "TCS_ENDING = 2"
definition TCPV4_MAX_EXT_LEN :: nat where "TCPV4_MAX_EXT_LEN = 1024"

record 'w RxConn = "'w IoConn" +
  c_state :: int
  c_termSent :: bool
  c_rxBundle :: bytes
  c_rxCap :: nat
  c_rxLen :: nat
  c_rxId :: u64
  c_rxActive :: bool
  c_rxRefused :: bool
  c_dlvBundle :: bytes
  c_dlvCap :: nat
  c_dlvLen :: nat
  c_dlvId :: u64
  c_dlvFlags :: u8
  c_dlvPending :: bool
  c_dlvStopped :: bool
  c_dlvFailed :: bool
  c_secSinceRx :: int
  c_secSinceData :: int
  c_tx :: TxState

text \<open>What the handlers use of the engine: its input and output, \<open>rx.deliver\<close> and the two MRUs.\<close>

record 'w RxEngine =
  e_io :: "'w Io"
  e_deliver :: "'w \<Rightarrow> bytes \<Rightarrow> int \<times> 'w"
  e_segmentMru :: int
  e_transferMru :: int

section \<open>Model: reassembly and delivery\<close>

text \<open>\<open>while (cap < want) cap <<= 1\<close>, from a positive capacity.\<close>

function double_until :: "nat \<Rightarrow> nat \<Rightarrow> nat" where
  "double_until cap want = (if 0 < cap \<and> cap < want then double_until (2 * cap) want else cap)"
  by pat_completeness auto
termination by (relation "measure (\<lambda>(cap, want). want - cap)") auto

declare double_until.simps [simp del]

definition rxReserve :: "'w RxEngine \<Rightarrow> 'w RxConn \<Rightarrow> nat \<Rightarrow> int \<times> 'w RxConn" where
  "rxReserve e conn want =
     (if want \<le> c_rxCap conn then (0, conn)
      else
        (let cap = double_until (if c_rxCap conn = 0 then 8192 else c_rxCap conn) want;
             (taken, w) = io_mtake (e_io e) (c_world conn) cap;
             conn = conn \<lparr> c_world := w \<rparr>
         in if \<not> taken then (-1, conn)
            else
              (let bigger = replicate cap 0;
                   bigger = (if c_rxLen conn > 0 then overwrite bigger 0 (take (c_rxLen conn) (c_rxBundle conn))
                             else bigger)
               in (0, conn \<lparr> c_rxBundle := bigger, c_rxCap := cap \<rparr>))))"

text \<open>
  One round of \<open>tcpv4DeliveryThread\<close>, which waits until a transfer is pending: deliver it, then
  acknowledge its last segment.
\<close>

definition delivery_round :: "'w RxEngine \<Rightarrow> 'w RxConn \<Rightarrow> 'w RxConn" where
  "delivery_round e conn =
     (if \<not> c_dlvPending conn then conn
      else
        (let (n, w) = e_deliver e (c_world conn) (take (c_dlvLen conn) (c_dlvBundle conn));
             conn = conn \<lparr> c_world := w \<rparr>;
             failed = (n < 0);
             (failed, conn) =
               (if \<not> failed then
                  (let (n, conn) = tcpv4SendXferAck (e_io e) conn (c_dlvFlags conn) (c_dlvId conn)
                                     (word_of_nat (c_dlvLen conn))
                   in (n < 0, conn))
                else (failed, conn));
             conn = conn \<lparr> c_dlvPending := False \<rparr>;
             conn = (if failed then conn \<lparr> c_dlvFailed := True \<rparr> else conn)
         in if failed then tcpv4ConnFail (e_io e) conn else conn))"

definition tcpv4DeliveryStop :: "('w, 'a) RxConn_scheme \<Rightarrow> ('w, 'a) RxConn_scheme" where
  "tcpv4DeliveryStop conn = conn \<lparr> c_dlvStopped := True \<rparr>"

text \<open>The wait of \<open>rxAwaitDelivery\<close> and \<open>handOverTransfer\<close> for the hand-off to drain.\<close>

definition await_delivery :: "'w RxEngine \<Rightarrow> 'w RxConn \<Rightarrow> 'w RxConn" where
  "await_delivery e conn =
     (if c_dlvPending conn \<and> \<not> c_dlvStopped conn \<and> \<not> c_dlvFailed conn then delivery_round e conn else conn)"

definition rxAwaitDelivery :: "'w RxEngine \<Rightarrow> 'w RxConn \<Rightarrow> int \<times> 'w RxConn" where
  "rxAwaitDelivery e conn =
     (let conn = await_delivery e conn
      in (if c_dlvStopped conn \<or> c_dlvFailed conn then -1 else 0, conn))"

definition rxSendAck :: "'w RxEngine \<Rightarrow> 'w RxConn \<Rightarrow> u8 \<Rightarrow> u64 \<Rightarrow> u64 \<Rightarrow> int \<times> 'w RxConn" where
  "rxSendAck e conn flags transferId ackLength =
     (let (n, conn) = rxAwaitDelivery e conn
      in if n < 0 then (-1, conn) else tcpv4SendXferAck (e_io e) conn flags transferId ackLength)"

definition rxSendRefuse :: "'w RxEngine \<Rightarrow> 'w RxConn \<Rightarrow> u8 \<Rightarrow> u64 \<Rightarrow> int \<times> 'w RxConn" where
  "rxSendRefuse e conn reason transferId =
     (let (n, conn) = rxAwaitDelivery e conn
      in if n < 0 then (-1, conn) else tcpv4SendXferRefuse (e_io e) conn reason transferId)"

definition handOverTransfer :: "'w RxEngine \<Rightarrow> 'w RxConn \<Rightarrow> Tcpv4XferSegment \<Rightarrow> int \<times> 'w RxConn" where
  "handOverTransfer e conn seg =
     (let conn = await_delivery e conn
      in if c_dlvStopped conn \<or> c_dlvFailed conn then (-1, conn)
         else (0, conn \<lparr> c_dlvBundle := c_rxBundle conn, c_dlvCap := c_rxCap conn,
                 c_rxBundle := c_dlvBundle conn, c_rxCap := c_dlvCap conn,
                 c_dlvLen := c_rxLen conn, c_dlvId := xs_transferId seg, c_dlvFlags := xs_flags seg,
                 c_dlvPending := True, c_rxLen := 0 \<rparr>))"

text \<open>Reading into a buffer at an offset: what is stored outside the buffer is a memory error, \<open>None\<close>.  \<open>fail\<close> is returned
  when the octets do not come.\<close>

definition recv_at ::
    "'w Io \<Rightarrow> 'w RxConn \<Rightarrow> bytes \<Rightarrow> nat \<Rightarrow> nat \<Rightarrow> 'r \<Rightarrow> (bytes \<Rightarrow> 'w RxConn \<Rightarrow> ('r \<times> 'w RxConn) option) \<Rightarrow> ('r \<times> 'w RxConn) option" where
  "recv_at io conn buf off len fail k =
     (if off + len > length buf then None
      else (let (n, d, conn) = tcpv4ConnRecv io conn len
            in if n \<noteq> int len then Some (fail, conn) else k (overwrite buf off d) conn))"

text \<open>\<open>scratch\<close> is the buffer of 4096 octets.\<close>

function drainOctets :: "'w RxEngine \<Rightarrow> 'w RxConn \<Rightarrow> bytes \<Rightarrow> nat \<Rightarrow> (int \<times> 'w RxConn) option" where
  "drainOctets e conn scratch len =
     (if len > 0 then
        (let chunk = (if len > 4096 then 4096 else len)
         in recv_at (e_io e) conn scratch 0 chunk (-1) (\<lambda>scratch conn. drainOctets e conn scratch (len - chunk)))
      else Some (0, conn))"
  by pat_completeness auto
termination by (relation "measure (\<lambda>(e, conn, scratch, len). len)") auto

declare drainOctets.simps [simp del]

section \<open>Model: segments\<close>

text \<open>The last field of the header, and its decoding.\<close>

definition recv_data_length ::
    "'w RxEngine \<Rightarrow> 'w RxConn \<Rightarrow> bytes \<Rightarrow> nat \<Rightarrow> nat \<Rightarrow> (Tcpv4XferSegment option \<times> 'w RxConn) option" where
  "recv_data_length e conn buf off cap =
     recv_at (e_io e) conn buf off 8 None (\<lambda>buf conn.
       let off = off + 8
       in if off > cap then Some (None, conn)
          else (case tcpv4MsgDecodeXferSegmentHdr (take off buf) off of
                  (k, seg) \<Rightarrow> Some (if k \<noteq> int off then None else seg, conn)))"

text \<open>The segment, if all went well; \<open>buf\<close> is the caller's buffer and \<open>cap\<close> what it says its size is.\<close>

definition recvXferSegmentHdr ::
    "'w RxEngine \<Rightarrow> 'w RxConn \<Rightarrow> bytes \<Rightarrow> nat \<Rightarrow> (Tcpv4XferSegment option \<times> 'w RxConn) option" where
  "recvXferSegmentHdr e conn buf cap =
     recv_at (e_io e) conn (overwrite buf 0 [TMSG_XFER_SEGMENT]) 1 9 None (\<lambda>buf conn.
       if buf ! 1 AND TMSG_FLAG_START \<noteq> 0 then
         recv_at (e_io e) conn buf 10 4 None (\<lambda>buf conn.
           let extLen = unat (join32 (join16 (buf ! 10) (buf ! 11)) (join16 (buf ! 12) (buf ! 13)))
           in if extLen > TCPV4_MAX_EXT_LEN then Some (None, conn)
              else if extLen > 0 then
                recv_at (e_io e) conn buf 14 extLen None (\<lambda>buf conn. recv_data_length e conn buf (14 + extLen) cap)
              else recv_data_length e conn buf 14 cap)
       else recv_data_length e conn buf 10 cap)"

function critical_from :: "bytes \<Rightarrow> nat \<Rightarrow> nat \<Rightarrow> bool" where
  "critical_from buf len off =
     (let (rc, off', item) = tcpv4MsgNextExtItem buf len off in
      if rc = 1 then
        (case item of
           None \<Rightarrow> False
         | Some it \<Rightarrow> if xi_flags it AND TMSG_EXT_CRITICAL \<noteq> 0 then True else critical_from buf len off')
      else rc < 0)"
  by pat_completeness auto
termination
proof (relation "measure (\<lambda>(buf, len, off). len - off)", goal_cases)
  case (2 buf len off x rc y off' item it)
  then have "tcpv4MsgNextExtItem buf len off = (1, off', Some it)" by (metis prod.collapse)
  from NextExtItem_advances[OF this] show ?case by (simp, arith)
qed simp

declare critical_from.simps [simp del]

definition segmentHasCriticalExt :: "Tcpv4XferSegment \<Rightarrow> bool" where
  "segmentHasCriticalExt seg = critical_from (octets (xs_xferExt seg)) (unat (xs_xferExtLen seg)) 0"

text \<open>The START branch of \<open>handleXferSegment\<close>; the first result is whether to return -1.\<close>

definition begin_transfer :: "'w RxEngine \<Rightarrow> 'w RxConn \<Rightarrow> Tcpv4XferSegment \<Rightarrow> bool \<times> 'w RxConn" where
  "begin_transfer e conn seg =
     (if c_rxActive conn then
        (True, snd (tcpv4SendMsgReject (e_io e) conn TMSG_REJECT_UNEXPECTED TMSG_XFER_SEGMENT))
      else
        (let conn = conn \<lparr> c_rxActive := True, c_rxId := xs_transferId seg, c_rxLen := 0, c_rxRefused := False \<rparr>;
             conn =
               (if c_state conn = TCS_ENDING then
                  snd (rxSendRefuse e (conn \<lparr> c_rxRefused := True \<rparr>) TMSG_REFUSE_SESS_TERM (xs_transferId seg))
                else if segmentHasCriticalExt seg then
                  snd (rxSendRefuse e (conn \<lparr> c_rxRefused := True \<rparr>) TMSG_REFUSE_EXT_FAILURE (xs_transferId seg))
                else conn)
         in if c_rxRefused conn then (False, conn)
            else (case tcpv4MsgFindXferLength (octets (xs_xferExt seg)) (unat (xs_xferExtLen seg)) of
                    (rc, whole) \<Rightarrow>
                      if rc \<noteq> 1 then (False, conn)
                      else if the whole > word_of_int (e_transferMru e) then
                        (False, snd (rxSendRefuse e (conn \<lparr> c_rxRefused := True \<rparr>) TMSG_REFUSE_NO_RESOURCES
                                       (xs_transferId seg)))
                      else
                        (let (n, conn) = rxReserve e conn (unat (the whole))
                         in if n < 0
                            then (True, snd (tcpv4SendSessTerm (e_io e) conn TMSG_TERM_RESOURCE_EXHAUSTION False))
                            else (False, conn)))))"

text \<open>The payload of a segment: drained when the transfer is refused, else appended.\<close>

definition take_payload :: "'w RxEngine \<Rightarrow> 'w RxConn \<Rightarrow> Tcpv4XferSegment \<Rightarrow> (bool \<times> 'w RxConn) option" where
  "take_payload e conn seg =
     (let dataLen = unat (xs_dataLength seg);
          conn =
            (if \<not> c_rxRefused conn \<and>
                word_of_nat (c_rxLen conn) + xs_dataLength seg > word_of_int (e_transferMru e) then
               snd (rxSendRefuse e (conn \<lparr> c_rxRefused := True \<rparr>) TMSG_REFUSE_NO_RESOURCES (xs_transferId seg))
             else conn)
      in if c_rxRefused conn then
           map_option (\<lambda>(n, conn). (n < 0, conn)) (drainOctets e conn (replicate 4096 0) dataLen)
         else
           (let (n, conn) = rxReserve e conn (c_rxLen conn + dataLen)
            in if n < 0
               then Some (True, snd (tcpv4SendSessTerm (e_io e) conn TMSG_TERM_RESOURCE_EXHAUSTION False))
               else if dataLen > 0 then
                 recv_at (e_io e) conn (c_rxBundle conn) (c_rxLen conn) dataLen True (\<lambda>bundle conn.
                   Some (False, conn \<lparr> c_rxBundle := bundle, c_rxLen := c_rxLen conn + dataLen \<rparr>))
               else Some (False, conn)))"

definition finish_segment :: "'w RxEngine \<Rightarrow> 'w RxConn \<Rightarrow> Tcpv4XferSegment \<Rightarrow> int \<times> 'w RxConn" where
  "finish_segment e conn seg =
     (if xs_flags seg AND TMSG_FLAG_END \<noteq> 0 then
        (let conn = conn \<lparr> c_rxActive := False \<rparr>
         in if \<not> c_rxRefused conn then handOverTransfer e conn seg else (0, conn))
      else if \<not> c_rxRefused conn then
        (let (n, conn) = rxSendAck e conn (xs_flags seg) (xs_transferId seg) (word_of_nat (c_rxLen conn))
         in (if n < 0 then -1 else 0, conn))
      else (0, conn))"

definition handleXferSegment :: "'w RxEngine \<Rightarrow> 'w RxConn \<Rightarrow> (int \<times> 'w RxConn) option" where
  "handleXferSegment e conn =
     (case recvXferSegmentHdr e conn (replicate (32 + TCPV4_MAX_EXT_LEN) 0) (32 + TCPV4_MAX_EXT_LEN) of
        None \<Rightarrow> None
      | Some (None, conn) \<Rightarrow> Some (-1, conn)
      | Some (Some seg, conn) \<Rightarrow>
          if xs_dataLength seg > word_of_int (e_segmentMru e) then
            Some (-1, snd (tcpv4SendSessTerm (e_io e) conn TMSG_TERM_RESOURCE_EXHAUSTION False))
          else
            (let (bad, conn) =
               (if xs_flags seg AND TMSG_FLAG_START \<noteq> 0 then begin_transfer e conn seg
                else if \<not> c_rxActive conn \<or> xs_transferId seg \<noteq> c_rxId conn then
                  (True, snd (tcpv4SendMsgReject (e_io e) conn TMSG_REJECT_UNEXPECTED TMSG_XFER_SEGMENT))
                else (False, conn))
             in if bad then Some (-1, conn)
                else
                  (case take_payload e conn seg of
                     None \<Rightarrow> None
                   | Some (bad, conn) \<Rightarrow> Some (if bad then (-1, conn) else finish_segment e conn seg))))"

section \<open>Model: acknowledgments, refusals, termination\<close>

definition handleXferAck :: "'w RxEngine \<Rightarrow> 'w RxConn \<Rightarrow> (int \<times> 'w RxConn) option" where
  "handleXferAck e conn =
     (let (n, d, conn) = tcpv4ConnRecv (e_io e) conn 17
      in if n \<noteq> 17 then Some (-1, conn)
         else
           (case tcpv4MsgDecodeXferAck (TMSG_XFER_ACK # d) 18 of
              (k, None) \<Rightarrow> Some (-1, conn)
            | (k, Some ack) \<Rightarrow>
                if k \<noteq> 18 then Some (-1, conn)
                else
                  (case ack_section (c_tx conn) (xa_transferId ack) (xa_ackLength ack) of
                     None \<Rightarrow> None
                   | Some (unexpected, tx) \<Rightarrow>
                       (let conn = conn \<lparr> c_tx := tx \<rparr>
                        in Some (0, if unexpected
                             then snd (tcpv4SendMsgReject (e_io e) conn TMSG_REJECT_UNEXPECTED TMSG_XFER_ACK)
                             else conn)))))"

definition handleXferRefuse :: "'w RxEngine \<Rightarrow> 'w RxConn \<Rightarrow> (int \<times> 'w RxConn) option" where
  "handleXferRefuse e conn =
     (let (n, d, conn) = tcpv4ConnRecv (e_io e) conn 9
      in if n \<noteq> 9 then Some (-1, conn)
         else
           (case tcpv4MsgDecodeXferRefuse (TMSG_XFER_REFUSE # d) 10 of
              (k, None) \<Rightarrow> Some (-1, conn)
            | (k, Some refuse) \<Rightarrow>
                if k \<noteq> 10 then Some (-1, conn)
                else
                  (case refuse_section (c_tx conn) (xr_transferId refuse) (xr_reason refuse) of
                     None \<Rightarrow> None
                   | Some (found, tx) \<Rightarrow>
                       (let conn = conn \<lparr> c_tx := tx \<rparr>
                        in Some (0, if found then conn
                             else snd (tcpv4SendMsgReject (e_io e) conn TMSG_REJECT_UNEXPECTED TMSG_XFER_REFUSE))))))"

definition startTermination :: "'w RxEngine \<Rightarrow> 'w RxConn \<Rightarrow> u8 \<Rightarrow> int \<times> 'w RxConn" where
  "startTermination e conn reason =
     (let already = c_termSent conn;
          conn = conn \<lparr> c_termSent := True, c_state := TCS_ENDING, c_tx := tcpv4TxStop (c_tx conn) \<rparr>
      in if already then (0, conn) else tcpv4SendSessTerm (e_io e) conn reason False)"

definition handleSessTerm :: "'w RxEngine \<Rightarrow> 'w RxConn \<Rightarrow> int \<times> 'w RxConn" where
  "handleSessTerm e conn =
     (let (n, d, conn) = tcpv4ConnRecv (e_io e) conn 2
      in if n \<noteq> 2 then (-1, conn)
         else
           (case tcpv4MsgDecodeSessTerm (TMSG_SESS_TERM # d) 3 of
              (k, None) \<Rightarrow> (-1, conn)
            | (k, Some term) \<Rightarrow>
                if k \<noteq> 3 then (-1, conn)
                else
                  (let replyNeeded = (st_flags term AND TMSG_TERM_FLAG_REPLY = 0 \<and> \<not> c_termSent conn);
                       conn = conn \<lparr> c_state := TCS_ENDING, c_termSent := True, c_tx := tcpv4TxStop (c_tx conn) \<rparr>
                   in if replyNeeded then (0, snd (tcpv4SendSessTerm (e_io e) conn (st_reason term) True))
                      else (1, conn))))"

section \<open>Model: the message loop\<close>

text \<open>One pass of the loop: what \<open>tcpv4MessageLoop\<close> returns, or \<open>None\<close> to go on.\<close>

definition message_step :: "'w RxEngine \<Rightarrow> 'w RxConn \<Rightarrow> (int option \<times> 'w RxConn) option" where
  "message_step e conn =
     (let (result, d, conn) = tcpv4ConnRecv (e_io e) conn 1
      in if result \<noteq> 1 then Some (Some (if result = 0 \<and> c_state conn = TCS_ENDING then 0 else -1), conn)
         else
           (let type = d ! 0;
                conn = conn \<lparr> c_secSinceRx := 0 \<rparr>;
                conn = (if type \<noteq> TMSG_KEEPALIVE then conn \<lparr> c_secSinceData := 0 \<rparr> else conn);
                go_on = (\<lambda>(r, conn). (if r < (0::int) then Some (-1 :: int) else None, conn))
            in if type = TMSG_XFER_SEGMENT then map_option go_on (handleXferSegment e conn)
               else if type = TMSG_XFER_ACK then map_option go_on (handleXferAck e conn)
               else if type = TMSG_XFER_REFUSE then map_option go_on (handleXferRefuse e conn)
               else if type = TMSG_KEEPALIVE then Some (None, conn)
               else if type = TMSG_MSG_REJECT then
                 (case tcpv4RecvMsgReject (e_io e) conn of
                    (r, rejectedType, conn) \<Rightarrow>
                      if r < 0 then Some (Some (-1), conn)
                      else if the rejectedType = TMSG_XFER_SEGMENT \<or> the rejectedType = TMSG_XFER_ACK \<or>
                          the rejectedType = TMSG_SESS_INIT then
                        Some (go_on (startTermination e conn TMSG_TERM_UNKNOWN))
                      else Some (None, conn))
               else if type = TMSG_SESS_TERM then
                 (let (r, conn) = handleSessTerm e conn
                  in Some (if r \<noteq> 0 then Some (if r < 0 then -1 else 0) else None, conn))
               else if type = TMSG_SESS_INIT then
                 Some (Some (-1), snd (tcpv4SendMsgReject (e_io e) conn TMSG_REJECT_UNEXPECTED type))
               else
                 Some (Some (-1), snd (tcpv4SendMsgReject (e_io e) conn TMSG_REJECT_TYPE_UNKNOWN type))))"

partial_function (option) message_loop :: "'w RxEngine \<Rightarrow> 'w RxConn \<Rightarrow> (int \<times> 'w RxConn) option" where
  "message_loop e conn =
     (case message_step e conn of
        None \<Rightarrow> None
      | Some (Some r, conn) \<Rightarrow> Some (r, conn)
      | Some (None, conn) \<Rightarrow> message_loop e conn)"

declare message_loop.simps [code]

definition tcpv4MessageLoop :: "'w RxEngine \<Rightarrow> 'w RxConn \<Rightarrow> (int \<times> 'w RxConn) option" where
  "tcpv4MessageLoop e conn = message_loop e (tcpv4ConnStartBuffering (e_io e) conn)"

section \<open>A connection that works\<close>

text \<open>
  The input never fails, allocations succeed, and what is written is handed over whole and does
  not disturb the input; \<open>out\<close> is what has been handed over.
\<close>

definition net_ok :: "'w Io \<Rightarrow> ('w \<Rightarrow> bytes) \<Rightarrow> ('w \<Rightarrow> bytes) \<Rightarrow> bool" where
  "net_ok io inp out \<longleftrightarrow> stream_io False io inp \<and>
     (\<forall>w cap n d w'. io_tlsRecv io w cap = (n, d, w') \<longrightarrow> out w' = out w) \<and>
     (\<forall>w sock cap n d er w'. io_irecv io w sock cap = (n, d, er, w') \<longrightarrow> out w' = out w) \<and>
     (\<forall>w sock len n d sock' w'. io_itcpRecv io w sock len = (n, d, sock', w') \<longrightarrow> out w' = out w) \<and>
     (\<forall>w b. \<exists>w'. io_tlsSend io w b = (int (length b), w') \<and> out w' = out w @ b \<and> inp w' = inp w) \<and>
     (\<forall>w sock b. \<exists>w'. io_itcpSend io w sock b = (int (length b), sock, w') \<and> out w' = out w @ b \<and> inp w' = inp w) \<and>
     (\<forall>w n. \<exists>w'. io_mtake io w n = (True, w') \<and> out w' = out w \<and> inp w' = inp w)"

lemma net_stream: "net_ok io inp out \<Longrightarrow> stream_io False io inp"
  unfolding net_ok_def by blast

lemma net_tlsRecv: "net_ok io inp out \<Longrightarrow> io_tlsRecv io w cap = (n, d, w') \<Longrightarrow> out w' = out w"
  by (simp add: net_ok_def)

lemma net_irecv: "net_ok io inp out \<Longrightarrow> io_irecv io w sock cap = (n, d, er, w') \<Longrightarrow> out w' = out w"
  by (simp add: net_ok_def)

lemma net_itcpRecv: "net_ok io inp out \<Longrightarrow> io_itcpRecv io w sock len = (n, d, sock', w') \<Longrightarrow> out w' = out w"
  by (simp add: net_ok_def)

lemma net_sends:
  "net_ok io inp out \<Longrightarrow> \<exists>w'. io_tlsSend io w b = (int (length b), w') \<and> out w' = out w @ b \<and> inp w' = inp w"
  "net_ok io inp out \<Longrightarrow> \<exists>w'. io_itcpSend io w sock b = (int (length b), sock, w') \<and> out w' = out w @ b \<and> inp w' = inp w"
  "net_ok io inp out \<Longrightarrow> \<exists>w'. io_mtake io w k = (True, w') \<and> out w' = out w \<and> inp w' = inp w"
  by (simp_all add: net_ok_def)

lemma tls_recv_loop_out:
  "net_ok io inp out \<Longrightarrow> tls_recv_loop io w len acc got = (n, d, w') \<Longrightarrow> out w' = out w"
proof (induction "len - got" arbitrary: w acc got rule: less_induct)
  case less
  obtain m e w2 where r: "io_tlsRecv io w (len - got) = (m, e, w2)" by (metis prod_cases3)
  show ?case
  proof (cases "got < len \<and> 0 < m")
    case True
    then have "tls_recv_loop io w2 len (acc @ take (nat m) e) (got + nat m) = (n, d, w')"
      using less.prems(2) r by (simp add: tls_recv_loop.simps[of io w len acc got])
    then have "out w' = out w2" by (intro less.hyps[OF _ less.prems(1)]) (use True in auto)
    then show ?thesis using net_tlsRecv[OF less.prems(1) r] by simp
  next
    case False
    then have "w' = w2 \<or> w' = w"
      using less.prems(2) r by (auto simp: tls_recv_loop.simps[of io w len acc got] split: if_splits)
    then show ?thesis using net_tlsRecv[OF less.prems(1) r] by auto
  qed
qed

lemma recv_exactly_out:
  assumes "net_ok io inp out" "connRecvExactly io conn len = (n, d, conn')"
  shows "out (c_world conn') = out (c_world conn)"
proof (cases "c_tls conn")
  case True
  obtain m e w where t: "tls_recv_loop io (c_world conn) len [] 0 = (m, e, w)" by (metis prod_cases3)
  then show ?thesis using assms(2) True tls_recv_loop_out[OF assms(1) t] by (auto simp: connRecvExactly_def)
next
  case False
  obtain m e sock w where t: "io_itcpRecv io (c_world conn) (c_sock conn) len = (m, e, sock, w)" by (metis prod_cases4)
  then show ?thesis using assms(2) False net_itcpRecv[OF assms(1) t] by (auto simp: connRecvExactly_def)
qed

lemma recv_some_out:
  assumes "net_ok io inp out" "connRecvSome io conn len = (n, d, conn')"
  shows "out (c_world conn') = out (c_world conn)"
proof (cases "c_tls conn")
  case True
  obtain m e w where t: "io_tlsRecv io (c_world conn) len = (m, e, w)" by (metis prod_cases3)
  then show ?thesis using assms(2) True net_tlsRecv[OF assms(1) t] by (auto simp: connRecvSome_def)
next
  case False
  obtain m e er w where t: "io_irecv io (c_world conn) (c_sock conn) len = (m, e, er, w)" by (metis prod_cases4)
  then show ?thesis using assms(2) False net_irecv[OF assms(1) t]
    by (auto simp: connRecvSome_def split: if_splits)
qed

lemma refill_loop_out:
  "net_ok io inp out \<Longrightarrow> refill_loop io conn len acc got = (n, d, conn') \<Longrightarrow>
     out (c_world conn') = out (c_world conn)"
proof (induction "len - got" arbitrary: conn acc got rule: less_induct)
  case less
  obtain m e conn2 where r: "connRecvSome io conn TCPV4_RXBUF_SIZE = (m, e, conn2)" by (metis prod_cases3)
  define buf where "buf = overwrite (octets (c_rxBuf conn2)) 0 (take (nat m) e)"
  define want where "want = (if int (len - got) < m then len - got else nat m)"
  have step: "refill_loop io conn len acc got = (if got < len then
      (if m \<le> 0 then (if got > 0 \<and> m = 0 then -1 else m, acc, conn2)
       else refill_loop io (conn2 \<lparr> c_rxBuf := Some buf, c_rxBufLen := nat m, c_rxBufOff := want \<rparr>)
         len (acc @ take want buf) (got + want)) else (int len, acc, conn))"
    unfolding refill_loop.simps[of io conn len acc got] r prod.case Let_def buf_def want_def ..
  show ?case
  proof (cases "got < len \<and> \<not> m \<le> 0")
    case True
    let ?c = "conn2 \<lparr> c_rxBuf := Some buf, c_rxBufLen := nat m, c_rxBufOff := want \<rparr>"
    have e: "refill_loop io ?c len (acc @ take want buf) (got + want) = (n, d, conn')"
      using less.prems(2) step True by simp
    have "0 < want" using True by (simp add: want_def)
    then have "len - (got + want) < len - got" using True by linarith
    then have "out (c_world conn') = out (c_world ?c)" by (rule less.hyps[OF _ less.prems(1) e])
    then show ?thesis using recv_some_out[OF less.prems(1) r] by simp
  next
    case False
    then show ?thesis using less.prems step recv_some_out[OF less.prems(1) r] by (auto split: if_splits)
  qed
qed

lemma tcpv4ConnRecv_out:
  assumes "net_ok io inp out" "tcpv4ConnRecv io conn len = (n, d, conn')"
  shows "out (c_world conn') = out (c_world conn)"
proof (cases "c_rxBuf conn")
  case None
  then show ?thesis using assms recv_exactly_out by (simp add: tcpv4ConnRecv_def)
next
  case (Some buf)
  define avail where "avail = c_rxBufLen conn - c_rxBufOff conn"
  define got where "got = (if avail > 0 then (if avail < len then avail else len) else 0)"
  let ?c = "conn \<lparr> c_rxBufOff := c_rxBufOff conn + got \<rparr>"
  let ?a = "take got (drop (c_rxBufOff conn) buf)"
  have rr: "(if avail > 0 \<and> got = len then (int len, ?a, ?c)
      else if len - got \<ge> TCPV4_RXBUF_DIRECT then
        (let (n, d, conn) = connRecvExactly io ?c (len - got)
         in if n = int (len - got) then (int len, ?a @ d, conn)
            else (if got > 0 \<and> n = 0 then -1 else n, ?a @ d, conn))
      else refill_loop io ?c len ?a got) = (n, d, conn')"
    using assms(2) unfolding tcpv4ConnRecv_def Some option.case Let_def avail_def[symmetric] got_def[symmetric] .
  obtain m e conn2 where x: "connRecvExactly io ?c (len - got) = (m, e, conn2)" by (metis prod_cases3)
  have o2: "out (c_world conn2) = out (c_world conn)" using recv_exactly_out[OF assms(1) x] by simp
  have o3: "refill_loop io ?c len ?a got = (n, d, conn') \<Longrightarrow> out (c_world conn') = out (c_world conn)"
    using refill_loop_out[OF assms(1)] by fastforce
  show ?thesis using rr x o2 o3 by (auto split: if_splits)
qed

text \<open>Reading \<open>bs\<close> off a connection that works.\<close>

definition was_read :: "('w \<Rightarrow> bytes) \<Rightarrow> ('w \<Rightarrow> bytes) \<Rightarrow> ('w, 'a) IoConn_scheme \<Rightarrow> bytes \<Rightarrow> ('w, 'a) IoConn_scheme \<Rightarrow> bool" where
  "was_read inp out conn rest conn' \<longleftrightarrow>
     pending inp conn' = rest \<and> buf_ok conn' \<and> only_read conn conn' \<and> out (c_world conn') = out (c_world conn)"

lemma recv_next:
  assumes "net_ok io inp out" "buf_ok conn" "pending inp conn = bs @ rest" "length bs = len"
  shows "\<exists>conn'. tcpv4ConnRecv io conn len = (int len, bs, conn') \<and> was_read inp out conn rest conn'"
proof -
  obtain n d conn' where r: "tcpv4ConnRecv io conn len = (n, d, conn')" by (metis prod_cases3)
  have "read_ok inp conn len n d conn'"
    using tcpv4ConnRecv_spec[OF net_stream[OF assms(1)] assms(2) r] assms(3,4) by auto
  then have "n = int len" "d = bs" "pending inp conn' = rest" "buf_ok conn'" "only_read conn conn'"
    using assms(3,4) by (auto simp: read_ok_def)
  then show ?thesis using r tcpv4ConnRecv_out[OF assms(1) r] by (simp add: was_read_def)
qed

lemma consumed_trans: "was_read inp out a r b \<Longrightarrow> was_read inp out b r' c \<Longrightarrow> was_read inp out a r' c"
  unfolding was_read_def using only_read_trans by metis

text \<open>Writing on a connection that works.\<close>

definition sent :: "('w \<Rightarrow> bytes) \<Rightarrow> ('w \<Rightarrow> bytes) \<Rightarrow> ('w, 'a) IoConn_scheme \<Rightarrow> bytes \<Rightarrow> ('w, 'a) IoConn_scheme \<Rightarrow> bool" where
  "sent inp out conn bs conn' \<longleftrightarrow> (\<exists>w. conn' = conn \<lparr> c_world := w, c_secSinceTx := 0 \<rparr> \<and>
     out w = out (c_world conn) @ bs \<and> inp w = inp (c_world conn))"

lemma send_next:
  assumes "net_ok io inp out"
  shows "\<exists>conn'. tcpv4ConnSend io conn bs = (0, conn') \<and> sent inp out conn bs conn'"
proof (cases "c_tls conn")
  case True
  obtain w where "io_tlsSend io (c_world conn) bs = (int (length bs), w)"
    "out w = out (c_world conn) @ bs" "inp w = inp (c_world conn)" using net_sends(1)[OF assms] by blast
  then show ?thesis using True by (auto simp: tcpv4ConnSend_def connSendLocked_def sent_def)
next
  case False
  obtain w where "io_itcpSend io (c_world conn) (c_sock conn) bs = (int (length bs), c_sock conn, w)"
    "out w = out (c_world conn) @ bs" "inp w = inp (c_world conn)" using net_sends(2)[OF assms] by blast
  then show ?thesis using False by (auto simp: tcpv4ConnSend_def connSendLocked_def sent_def)
qed

lemma sent_pending: "sent inp out conn bs conn' \<Longrightarrow> pending inp conn' = pending inp conn \<and> (buf_ok conn' = buf_ok conn)"
  by (auto simp: sent_def pending_def buf_ok_def split: option.splits)

section \<open>Reading a segment header\<close>

lemma consumed_refl: "buf_ok conn \<Longrightarrow> pending inp conn = rest \<Longrightarrow> was_read inp out conn rest conn"
  by (simp add: was_read_def only_read_refl)

lemma join_be32: "length d = 4 \<Longrightarrow> d = be32 v \<Longrightarrow> join32 (join16 (d ! 0) (d ! 1)) (join16 (d ! 2) (d ! 3)) = v"
  by (simp add: be32_def be16_def)

lemma length_wire_segment:
  "valid_xfer_segment m \<Longrightarrow> length (wire_xfer_segment m) =
     18 + (if xs_flags m AND TMSG_FLAG_START \<noteq> 0 then 4 + unat (xs_xferExtLen m) else 0)"
  by (auto simp: wire_xfer_segment_def valid_xfer_segment_def)

lemma decode_wire_segment:
  assumes "valid_xfer_segment m" "unat (xs_xferExtLen m) \<le> 1024"
  shows "tcpv4MsgDecodeXferSegmentHdr (wire_xfer_segment m) (length (wire_xfer_segment m)) =
    (int (length (wire_xfer_segment m)), Some m)"
  by (rule xfer_segment.dec_complete[where rest = "[]"])
    (use assms length_wire_segment[OF assms(1)] in auto)

lemma recv_at_wire:
  assumes net: "net_ok io inp out" and ok: "buf_ok conn" and p: "pending inp conn = bs @ rest" "length bs = len"
    and room: "off + len \<le> length buf"
  obtains conn' where "recv_at io conn buf off len fail k = k (overwrite buf off bs) conn'" "was_read inp out conn rest conn'"
    "buf_ok conn'" "pending inp conn' = rest"
proof -
  obtain conn' where r: "tcpv4ConnRecv io conn len = (int len, bs, conn')" "was_read inp out conn rest conn'"
    using recv_next[OF net ok p] by blast
  have "\<not> off + len > length buf" using room by simp
  with r that show thesis by (simp add: recv_at_def was_read_def)
qed

text \<open>A buffer whose first octets are \<open>bs\<close>.\<close>

lemma overwrite_prefix:
  "take (length bs) buf = bs \<Longrightarrow> length bs + length cs \<le> length buf \<Longrightarrow>
     take (length bs + length cs) (overwrite buf (length bs) cs) = bs @ cs \<and> length (overwrite buf (length bs) cs) = length buf"
  by (simp add: overwrite_def)

lemma recv_data_length_wire:
  assumes net: "net_ok (e_io e) inp out" and ok: "buf_ok conn" and p: "pending inp conn = be64 v @ rest"
    and buf: "take off buf = bs" "length bs = off" "off + 8 \<le> length buf" "off + 8 \<le> cap"
    and dec: "tcpv4MsgDecodeXferSegmentHdr (bs @ be64 v) (off + 8) = (int (off + 8), Some m)"
  shows "\<exists>conn'. recv_data_length e conn buf off cap = Some (Some m, conn') \<and> was_read inp out conn rest conn'"
proof -
  have l: "length (be64 v) = 8" by simp
  have t: "take (off + 8) (overwrite buf off (be64 v)) = bs @ be64 v"
    using overwrite_prefix[of bs buf "be64 v"] buf l by simp
  let ?k = "\<lambda>buf conn. let off = off + 8 in if off > cap then Some (None, conn)
          else (case tcpv4MsgDecodeXferSegmentHdr (take off buf) off of
                  (k, seg) \<Rightarrow> Some (if k \<noteq> int off then None else seg, conn))"
  obtain c where r: "recv_at (e_io e) conn buf off 8 None ?k = ?k (overwrite buf off (be64 v)) c" "was_read inp out conn rest c"
    using recv_at_wire[OF net ok p l buf(3), of None ?k] by blast
  have "recv_data_length e conn buf off cap = Some (Some m, c)"
    unfolding recv_data_length_def r(1) using buf(4) dec by (simp add: t)
  then show ?thesis using r(2) by blast
qed

lemma nth_of_take: "take n buf = bs \<Longrightarrow> i < n \<Longrightarrow> buf ! i = bs ! i"
  by auto

lemma join_of_take:
  assumes "take 14 buf = as @ be32 v" "length as = 10"
  shows "join32 (join16 (buf ! 10) (buf ! 11)) (join16 (buf ! 12) (buf ! 13)) = v"
proof -
  have "buf ! (10 + i) = be32 v ! i" if "i < 4" for i
    using nth_of_take[OF assms(1), of "10 + i"] that assms(2) by (simp add: nth_append)
  from this[of 0] this[of 1] this[of 2] this[of 3] show ?thesis using join_be32[of "be32 v" v] by simp
qed

lemma recvXferSegmentHdr_wire:
  assumes net: "net_ok (e_io e) inp out" and ok: "buf_ok conn" and v: "valid_xfer_segment m"
    and ext: "unat (xs_xferExtLen m) \<le> TCPV4_MAX_EXT_LEN"
    and p: "pending inp conn = tl (wire_xfer_segment m) @ rest"
    and buf: "length buf = 32 + TCPV4_MAX_EXT_LEN"
  shows "\<exists>conn'. recvXferSegmentHdr e conn buf (32 + TCPV4_MAX_EXT_LEN) = Some (Some m, conn') \<and>
    was_read inp out conn rest conn'"
proof -
  let ?start = "xs_flags m AND TMSG_FLAG_START \<noteq> 0" and ?cap = "32 + TCPV4_MAX_EXT_LEN"
  let ?b1 = "xs_flags m # be64 (xs_transferId m)" and ?b4 = "be64 (xs_dataLength m)"
  let ?d = "be32 (xs_xferExtLen m)" and ?x = "octets (xs_xferExt m)"
  let ?mid = "if ?start then ?d @ ?x else []"
  have w: "wire_xfer_segment m = TMSG_XFER_SEGMENT # ?b1 @ ?mid @ ?b4" by (simp add: wire_xfer_segment_def)
  define b0 where "b0 = overwrite buf 0 [TMSG_XFER_SEGMENT]"
  have b0: "length b0 = ?cap" "take 1 b0 = [TMSG_XFER_SEGMENT]" using buf by (simp_all add: b0_def overwrite_def)
  define b1 where "b1 = overwrite b0 1 ?b1"
  have b1: "take 10 b1 = TMSG_XFER_SEGMENT # ?b1" "length b1 = ?cap"
    using overwrite_prefix[of "[TMSG_XFER_SEGMENT]" b0 ?b1] b0 by (simp_all add: b1_def)
  have f: "b1 ! 1 = xs_flags m" using nth_of_take[OF b1(1), of 1] by simp
  define k1 where "k1 = (\<lambda>buf conn. if buf ! 1 AND TMSG_FLAG_START \<noteq> 0 then
         recv_at (e_io e) conn buf 10 4 None (\<lambda>buf conn.
           let extLen = unat (join32 (join16 (buf ! 10) (buf ! 11)) (join16 (buf ! 12) (buf ! 13)))
           in if extLen > TCPV4_MAX_EXT_LEN then Some (None, conn)
              else if extLen > 0 then
                recv_at (e_io e) conn buf 14 extLen None (\<lambda>buf conn. recv_data_length e conn buf (14 + extLen) ?cap)
              else recv_data_length e conn buf 14 ?cap)
       else recv_data_length e conn buf 10 ?cap)"
  have p1: "pending inp conn = ?b1 @ ?mid @ ?b4 @ rest" using p w by simp
  have l1: "length ?b1 = 9" "1 + 9 \<le> length b0" using b0(1) by simp_all
  obtain c1 where r1: "recv_at (e_io e) conn b0 1 9 None k1 = k1 b1 c1" "was_read inp out conn (?mid @ ?b4 @ rest) c1"
    "buf_ok c1" "pending inp c1 = ?mid @ ?b4 @ rest"
    using recv_at_wire[OF net ok p1 l1, of None k1] unfolding b1_def[symmetric] by blast
  have dec: "tcpv4MsgDecodeXferSegmentHdr (wire_xfer_segment m) (length (wire_xfer_segment m)) =
      (int (length (wire_xfer_segment m)), Some m)"
    using decode_wire_segment[OF v] ext by (simp add: TCPV4_MAX_EXT_LEN_def)
  have whole: "recvXferSegmentHdr e conn buf ?cap = k1 b1 c1"
    unfolding recvXferSegmentHdr_def b0_def[symmetric] k1_def[symmetric] by (rule r1(1))
  have "\<exists>c. k1 b1 c1 = Some (Some m, c) \<and> was_read inp out c1 rest c"
  proof (cases ?start)
    case False
    have q: "pending inp c1 = ?b4 @ rest" using r1(4) False by simp
    have d: "tcpv4MsgDecodeXferSegmentHdr ((TMSG_XFER_SEGMENT # ?b1) @ ?b4) (10 + 8) = (int (10 + 8), Some m)"
      using dec w False by simp
    have room: "length (TMSG_XFER_SEGMENT # ?b1) = 10" "10 + 8 \<le> length b1" "10 + 8 \<le> ?cap" using b1(2) by simp_all
    from recv_data_length_wire[OF net r1(3) q b1(1) room d]
    obtain c where "recv_data_length e c1 b1 10 ?cap = Some (Some m, c)" "was_read inp out c1 rest c" by (elim exE conjE)
    then show ?thesis using False f by (auto simp: k1_def)
  next
    case True
    define b2 where "b2 = overwrite b1 10 ?d"
    have b2: "take 14 b2 = (TMSG_XFER_SEGMENT # ?b1) @ ?d" "length b2 = ?cap"
      using overwrite_prefix[of "TMSG_XFER_SEGMENT # ?b1" b1 ?d] b1 by (simp_all add: b2_def)
    have j: "join32 (join16 (b2 ! 10) (b2 ! 11)) (join16 (b2 ! 12) (b2 ! 13)) = xs_xferExtLen m"
      by (rule join_of_take[OF b2(1)]) simp
    define k2 where "k2 = (\<lambda>buf conn.
           let extLen = unat (join32 (join16 (buf ! 10) (buf ! 11)) (join16 (buf ! 12) (buf ! 13)))
           in if extLen > TCPV4_MAX_EXT_LEN then Some (None, conn)
              else if extLen > 0 then
                recv_at (e_io e) conn buf 14 extLen None (\<lambda>buf conn. recv_data_length e conn buf (14 + extLen) ?cap)
              else recv_data_length e conn buf 14 ?cap)"
    have p2: "pending inp c1 = ?d @ ?x @ ?b4 @ rest" using r1(4) True by simp
    have l2: "length ?d = 4" "10 + 4 \<le> length b1" using b1(2) by simp_all
    obtain c2 where r2: "recv_at (e_io e) c1 b1 10 4 None k2 = k2 b2 c2" "was_read inp out c1 (?x @ ?b4 @ rest) c2"
      "buf_ok c2" "pending inp c2 = ?x @ ?b4 @ rest"
      using recv_at_wire[OF net r1(3) p2 l2, of None k2] unfolding b2_def[symmetric] by blast
    have k12: "k1 b1 c1 = k2 b2 c2" using True f r2(1) by (simp add: k1_def k2_def)
    have lx: "length ?x = unat (xs_xferExtLen m)" using v True by (simp add: valid_xfer_segment_def)
    have decx: "tcpv4MsgDecodeXferSegmentHdr (((TMSG_XFER_SEGMENT # ?b1) @ ?d @ ?x) @ ?b4) (14 + length ?x + 8) =
        (int (14 + length ?x + 8), Some m)"
      using dec w True by (simp add: lx)
    show ?thesis
    proof (cases "unat (xs_xferExtLen m) = 0")
      case z: True
      then have x: "?x = []" using lx by simp
      have "pending inp c2 = ?b4 @ rest" using r2(4) x by simp
      have room: "length ((TMSG_XFER_SEGMENT # ?b1) @ ?d) = 14" "14 + 8 \<le> length b2" "14 + 8 \<le> ?cap" using b2(2) by simp_all
      have d: "tcpv4MsgDecodeXferSegmentHdr (((TMSG_XFER_SEGMENT # ?b1) @ ?d) @ ?b4) (14 + 8) = (int (14 + 8), Some m)"
        using decx x by simp
      from recv_data_length_wire[OF net r2(3) \<open>pending inp c2 = ?b4 @ rest\<close> b2(1) room d]
      obtain c where "recv_data_length e c2 b2 14 ?cap = Some (Some m, c)" "was_read inp out c2 rest c" by (elim exE conjE)
      then show ?thesis using z j consumed_trans[OF r2(2)] unfolding k12 by (auto simp: k2_def)
    next
      case False
      define b3 where "b3 = overwrite b2 14 ?x"
      have room: "14 + length ?x \<le> length b2" "14 + length ?x + 8 \<le> ?cap" using b2(2) lx ext by simp_all
      have b3: "take (14 + length ?x) b3 = (TMSG_XFER_SEGMENT # ?b1) @ ?d @ ?x" "length b3 = ?cap"
        using overwrite_prefix[of "(TMSG_XFER_SEGMENT # ?b1) @ ?d" b2 ?x] b2 room(1) by (simp_all add: b3_def)
      let ?k3 = "\<lambda>buf conn. recv_data_length e conn buf (14 + length ?x) ?cap"
      obtain c3 where r3: "recv_at (e_io e) c2 b2 14 (length ?x) None ?k3 = recv_data_length e c3 b3 (14 + length ?x) ?cap"
        "was_read inp out c2 (?b4 @ rest) c3" "buf_ok c3" "pending inp c3 = ?b4 @ rest"
        using recv_at_wire[OF net r2(3,4) refl room(1), of None ?k3] unfolding b3_def[symmetric] by blast
      have "length ((TMSG_XFER_SEGMENT # ?b1) @ ?d @ ?x) = 14 + length ?x" "14 + length ?x + 8 \<le> length b3"
        using b3(2) room(2) by simp_all
      from recv_data_length_wire[OF net r3(3,4) b3(1) this room(2) decx] obtain c where
        c: "recv_data_length e c3 b3 (14 + length ?x) ?cap = Some (Some m, c)" "was_read inp out c3 rest c" by (elim exE conjE)
      have "k2 b2 c2 = recv_at (e_io e) c2 b2 14 (length ?x) None ?k3"
        using False ext by (simp add: k2_def j lx Let_def)
      then show ?thesis unfolding k12 using r3(1) c consumed_trans[OF r2(2) consumed_trans[OF r3(2) c(2)]] by auto
    qed
  qed
  then show ?thesis using whole consumed_trans[OF r1(2)] by auto
qed

section \<open>Reassembly\<close>

definition rx_mem :: "'w RxConn \<Rightarrow> bool" where
  "rx_mem conn \<longleftrightarrow> length (c_rxBundle conn) = c_rxCap conn \<and> c_rxLen conn \<le> c_rxCap conn \<and>
     length (c_dlvBundle conn) = c_dlvCap conn"

text \<open>Transfer \<open>ident\<close> is being received, its octets so far are \<open>sofar\<close>.\<close>

definition receiving :: "'w RxConn \<Rightarrow> u64 \<Rightarrow> bytes \<Rightarrow> bool" where
  "receiving conn ident sofar \<longleftrightarrow> c_rxActive conn \<and> c_rxId conn = ident \<and> \<not> c_rxRefused conn \<and>
     c_rxLen conn = length sofar \<and> take (length sofar) (c_rxBundle conn) = sofar \<and> rx_mem conn"

definition dlv_idle :: "'w RxConn \<Rightarrow> bool" where
  "dlv_idle conn \<longleftrightarrow> \<not> c_dlvPending conn \<and> \<not> c_dlvStopped conn \<and> \<not> c_dlvFailed conn"

text \<open>What a piece of a handler leaves alone, and what it makes of input and output.\<close>

definition rx_went :: "('w \<Rightarrow> bytes) \<Rightarrow> ('w \<Rightarrow> bytes) \<Rightarrow> 'w RxConn \<Rightarrow> bytes \<Rightarrow> bytes \<Rightarrow> 'w RxConn \<Rightarrow> bool" where
  "rx_went inp out conn rest new conn' \<longleftrightarrow>
     pending inp conn' = rest \<and> buf_ok conn' \<and> out (c_world conn') = out (c_world conn) @ new \<and>
     c_state conn' = c_state conn \<and> c_tx conn' = c_tx conn"

lemma double_until_ge: "0 < cap \<Longrightarrow> want \<le> double_until cap want"
proof (induction cap want rule: double_until.induct)
  case (1 cap want)
  then show ?case by (subst double_until.simps) auto
qed

lemma double_until_less: "0 < cap \<Longrightarrow> double_until cap want < max (2 * want) (Suc cap)"
proof (induction cap want rule: double_until.induct)
  case (1 cap want)
  show ?case
  proof (cases "cap < want")
    case True
    then have "double_until (2 * cap) want < max (2 * want) (Suc (2 * cap))" using "1.IH" "1.prems" by simp
    then show ?thesis using True "1.prems" by (subst double_until.simps) auto
  next
    case False
    then show ?thesis by (subst double_until.simps) auto
  qed
qed

lemma word_of_nat_le_limit:
  "int k \<le> limit \<Longrightarrow> limit < 2 ^ 31 \<Longrightarrow> (word_of_nat k :: u64) \<le> word_of_int limit"
  by (simp add: word_le_def uint_word_of_int unsigned_of_nat take_bit_nat_eq_self take_bit_int_eq_self)

lemma rxReserve_ok:
  assumes net: "net_ok (e_io e) inp out" and mem: "rx_mem conn"
  shows "\<exists>w b c. rxReserve e conn want = (0, conn \<lparr> c_world := w, c_rxBundle := b, c_rxCap := c \<rparr>) \<and>
     inp w = inp (c_world conn) \<and> out w = out (c_world conn) \<and> want \<le> c \<and> length b = c \<and> c_rxLen conn \<le> c \<and>
     take (c_rxLen conn) b = take (c_rxLen conn) (c_rxBundle conn)"
proof (cases "want \<le> c_rxCap conn")
  case True
  then show ?thesis using mem unfolding rxReserve_def rx_mem_def
    by (intro exI[of _ "c_world conn"] exI[of _ "c_rxBundle conn"] exI[of _ "c_rxCap conn"]) simp
next
  case False
  define cap where "cap = double_until (if c_rxCap conn = 0 then 8192 else c_rxCap conn) want"
  have cap: "want \<le> cap" unfolding cap_def by (rule double_until_ge) simp
  obtain w where w: "io_mtake (e_io e) (c_world conn) cap = (True, w)" "out w = out (c_world conn)"
    "inp w = inp (c_world conn)" using net_sends(3)[OF net] by blast
  define old where "old = take (c_rxLen conn) (c_rxBundle conn)"
  have old: "length old = c_rxLen conn" "c_rxLen conn \<le> cap" using mem False cap by (auto simp: old_def rx_mem_def)
  define b where "b = (if c_rxLen conn > 0 then overwrite (replicate cap 0) 0 old else replicate cap 0)"
  have "rxReserve e conn want = (0, conn \<lparr> c_world := w, c_rxBundle := b, c_rxCap := cap \<rparr>)"
    using False w(1) by (simp add: rxReserve_def Let_def b_def old_def flip: cap_def)
  moreover have "length b = cap" using old by (simp add: b_def)
  moreover have "take (c_rxLen conn) b = old" using old by (auto simp: b_def overwrite_def)
  ultimately show ?thesis using w cap old unfolding old_def by blast
qed

lemma begin_transfer_ok:
  assumes net: "net_ok (e_io e) inp out" and mem: "rx_mem conn" and ok: "buf_ok conn"
    and idle: "\<not> c_rxActive conn" "c_state conn \<noteq> TCS_ENDING"
    and ext: "\<not> segmentHasCriticalExt seg"
      "tcpv4MsgFindXferLength (octets (xs_xferExt seg)) (unat (xs_xferExtLen seg)) = (rc, whole)"
      "rc = 1 \<Longrightarrow> \<not> the whole > word_of_int (e_transferMru e)"
  shows "\<exists>conn'. begin_transfer e conn seg = (False, conn') \<and> receiving conn' (xs_transferId seg) [] \<and>
    rx_went inp out conn (pending inp conn) [] conn' \<and> (dlv_idle conn' = dlv_idle conn)"
proof -
  let ?c = "conn \<lparr> c_rxActive := True, c_rxId := xs_transferId seg, c_rxLen := 0, c_rxRefused := False \<rparr>"
  have mem': "rx_mem ?c" using mem by (simp add: rx_mem_def)
  show ?thesis
  proof (cases "rc = 1")
    case False
    then have "begin_transfer e conn seg = (False, ?c)" using idle ext by (simp add: begin_transfer_def Let_def)
    then show ?thesis using mem' ok
      by (simp add: receiving_def rx_went_def dlv_idle_def buf_ok_def pending_def cong: option.case_cong)
  next
    case True
    obtain w b c where r: "rxReserve e ?c (unat (the whole)) = (0, ?c \<lparr> c_world := w, c_rxBundle := b, c_rxCap := c \<rparr>)"
      "inp w = inp (c_world ?c)" "out w = out (c_world ?c)" "length b = c"
      using rxReserve_ok[OF net mem', of "unat (the whole)"] by blast
    have "begin_transfer e conn seg = (False, ?c \<lparr> c_world := w, c_rxBundle := b, c_rxCap := c \<rparr>)"
      using idle ext True r(1) by (simp add: begin_transfer_def Let_def)
    then show ?thesis using r(2-4) mem ok
      by (simp add: receiving_def rx_went_def dlv_idle_def buf_ok_def pending_def rx_mem_def cong: option.case_cong)
  qed
qed

lemma take_payload_ok:
  assumes net: "net_ok (e_io e) inp out" and ok: "buf_ok conn" and rcv: "receiving conn ident sofar"
    and p: "pending inp conn = data @ rest" and len: "unat (xs_dataLength seg) = length data"
    and fits: "int (length sofar + length data) \<le> e_transferMru e" "e_transferMru e < 2 ^ 31"
  shows "\<exists>conn'. take_payload e conn seg = Some (False, conn') \<and> receiving conn' ident (sofar @ data) \<and>
    rx_went inp out conn rest [] conn' \<and> (dlv_idle conn' = dlv_idle conn)"
proof -
  have r: "c_rxActive conn" "c_rxId conn = ident" "\<not> c_rxRefused conn" "c_rxLen conn = length sofar"
    "take (length sofar) (c_rxBundle conn) = sofar" "rx_mem conn" using rcv by (auto simp: receiving_def)
  have dl: "xs_dataLength seg = word_of_nat (length data)" by (simp flip: len)
  have "\<not> word_of_nat (c_rxLen conn) + xs_dataLength seg > (word_of_int (e_transferMru e) :: u64)"
  proof -
    have "word_of_nat (c_rxLen conn) + xs_dataLength seg = (word_of_nat (length sofar + length data) :: u64)"
      using r(4) dl by simp
    moreover have "(word_of_nat (length sofar + length data) :: u64) \<le> word_of_int (e_transferMru e)"
      by (rule word_of_nat_le_limit) (use fits in simp_all)
    ultimately show ?thesis by (simp only: not_less)
  qed
  then have fit: "(\<not> c_rxRefused conn \<and> word_of_nat (c_rxLen conn) + xs_dataLength seg > (word_of_int (e_transferMru e) :: u64)) = False"
    by blast
  obtain w b c where s: "rxReserve e conn (c_rxLen conn + length data) =
      (0, conn \<lparr> c_world := w, c_rxBundle := b, c_rxCap := c \<rparr>)"
    "inp w = inp (c_world conn)" "out w = out (c_world conn)" "c_rxLen conn + length data \<le> c" "length b = c"
    "take (c_rxLen conn) b = take (c_rxLen conn) (c_rxBundle conn)"
    using rxReserve_ok[OF net r(6), of "c_rxLen conn + length data"] by blast
  let ?c = "conn \<lparr> c_world := w, c_rxBundle := b, c_rxCap := c \<rparr>"
  have pc: "pending inp ?c = data @ rest" "buf_ok ?c" using p ok s(2) by (simp_all add: pending_def buf_ok_def cong: option.case_cong)
  have tp: "take_payload e conn seg = (if length data > 0 then
      recv_at (e_io e) ?c b (length sofar) (length data) True (\<lambda>bundle conn.
        Some (False, conn \<lparr> c_rxBundle := bundle, c_rxLen := c_rxLen conn + length data \<rparr>))
      else Some (False, ?c))"
    unfolding take_payload_def len Let_def fit using r(3,4) s(1) by simp
  show ?thesis
  proof (cases "data = []")
    case True
    then have "take_payload e conn seg = Some (False, ?c)" using tp by simp
    then show ?thesis using True pc s r by (simp add: receiving_def rx_went_def dlv_idle_def rx_mem_def)
  next
    case False
    let ?k = "\<lambda>bundle conn. Some (False, conn \<lparr> c_rxBundle := bundle, c_rxLen := c_rxLen conn + length data \<rparr>)"
    have room: "length sofar + length data \<le> length b" using s(4,5) r(4) by simp
    obtain c2 where r2: "recv_at (e_io e) ?c b (length sofar) (length data) True ?k =
        ?k (overwrite b (length sofar) data) c2" "was_read inp out ?c rest c2"
      using recv_at_wire[OF net pc(2,1) refl room, of True ?k] by blast
    then obtain b2 l2 f2 w2 where c2: "c2 = ?c \<lparr> c_rxBuf := b2, c_rxBufLen := l2, c_rxBufOff := f2, c_world := w2 \<rparr>"
      by (auto simp: was_read_def only_read_def)
    let ?c3 = "c2 \<lparr> c_rxBundle := overwrite b (length sofar) data, c_rxLen := c_rxLen c2 + length data \<rparr>"
    have e: "take_payload e conn seg = Some (False, ?c3)" using tp False r2(1) by simp
    have ov: "length (overwrite b (length sofar) data) = c"
      "take (length sofar + length data) (overwrite b (length sofar) data) = sofar @ data"
      using s(4-6) r(4,5) by (simp_all add: overwrite_def)
    have "receiving ?c3 ident (sofar @ data)"
      using ov s(4,5) r c2 by (simp add: receiving_def rx_mem_def)
    moreover have "rx_went inp out conn rest [] ?c3"
      using r2(2) s(3) c2 by (simp add: rx_went_def was_read_def pending_def buf_ok_def cong: option.case_cong)
    moreover have "dlv_idle ?c3 = dlv_idle conn" using c2 by (simp add: dlv_idle_def)
    ultimately show ?thesis using e by blast
  qed
qed

definition wire_ack :: "u8 \<Rightarrow> u64 \<Rightarrow> nat \<Rightarrow> bytes" where
  "wire_ack flags ident len = wire_xfer_ack \<lparr>xa_flags = flags, xa_transferId = ident, xa_ackLength = word_of_nat len\<rparr>"

text \<open>A whole transfer waits in the hand-off.\<close>

definition handed_over :: "'w RxConn \<Rightarrow> u64 \<Rightarrow> u8 \<Rightarrow> bytes \<Rightarrow> bool" where
  "handed_over conn ident flags whole \<longleftrightarrow> c_dlvPending conn \<and> \<not> c_dlvStopped conn \<and> \<not> c_dlvFailed conn \<and>
     c_dlvId conn = ident \<and> c_dlvFlags conn = flags \<and> c_dlvLen conn = length whole \<and>
     take (c_dlvLen conn) (c_dlvBundle conn) = whole \<and> \<not> c_rxActive conn \<and> rx_mem conn"

lemma finish_segment_more:
  assumes net: "net_ok (e_io e) inp out" and ok: "buf_ok conn" and rcv: "receiving conn ident sofar"
    and dlv: "dlv_idle conn" and flags: "xs_flags seg AND TMSG_FLAG_END = 0" and ident: "xs_transferId seg = ident"
  shows "\<exists>conn'. finish_segment e conn seg = (0, conn') \<and> receiving conn' ident sofar \<and>
    rx_went inp out conn (pending inp conn) (wire_ack (xs_flags seg) ident (length sofar)) conn' \<and> dlv_idle conn'"
proof -
  have r: "\<not> c_rxRefused conn" "c_rxLen conn = length sofar" using rcv by (auto simp: receiving_def)
  obtain c2 where s: "tcpv4ConnSend (e_io e) conn (wire_ack (xs_flags seg) ident (length sofar)) = (0, c2)"
    "sent inp out conn (wire_ack (xs_flags seg) ident (length sofar)) c2" using send_next[OF net] by blast
  have "finish_segment e conn seg = (0, c2)"
    using flags r dlv ident s(1)
    by (simp add: finish_segment_def rxSendAck_def rxAwaitDelivery_def await_delivery_def dlv_idle_def
        short_messages wire_ack_def)
  then show ?thesis
    using rcv dlv s(2) ok sent_pending[OF s(2)]
    by (auto simp: receiving_def rx_went_def dlv_idle_def sent_def rx_mem_def)
qed

lemma finish_segment_end:
  assumes ok: "buf_ok conn" and rcv: "receiving conn ident whole" and dlv: "dlv_idle conn"
    and flags: "xs_flags seg AND TMSG_FLAG_END \<noteq> 0" and ident: "xs_transferId seg = ident"
  shows "\<exists>conn'. finish_segment e conn seg = (0, conn') \<and> handed_over conn' ident (xs_flags seg) whole \<and>
    rx_went inp out conn (pending inp conn) [] conn'"
  using assms
  by (simp add: finish_segment_def handOverTransfer_def await_delivery_def dlv_idle_def receiving_def Let_def
      handed_over_def rx_went_def pending_def buf_ok_def rx_mem_def cong: option.case_cong)

section \<open>A transfer, segment by segment\<close>

text \<open>A session that may take segment \<open>seg\<close> after the octets \<open>prev\<close> of its transfer.\<close>

definition may_take :: "'w RxEngine \<Rightarrow> 'w RxConn \<Rightarrow> Tcpv4XferSegment \<Rightarrow> bytes \<Rightarrow> bool" where
  "may_take e conn seg prev \<longleftrightarrow>
     (if xs_flags seg AND TMSG_FLAG_START \<noteq> 0 then
        prev = [] \<and> \<not> c_rxActive conn \<and> rx_mem conn \<and> c_state conn \<noteq> TCS_ENDING \<and>
        \<not> segmentHasCriticalExt seg \<and>
        (case tcpv4MsgFindXferLength (octets (xs_xferExt seg)) (unat (xs_xferExtLen seg)) of
           (rc, whole) \<Rightarrow> rc = 1 \<longrightarrow> \<not> the whole > word_of_int (e_transferMru e))
      else receiving conn (xs_transferId seg) prev)"

definition segment_fits :: "'w RxEngine \<Rightarrow> Tcpv4XferSegment \<Rightarrow> bytes \<Rightarrow> bytes \<Rightarrow> bool" where
  "segment_fits e seg prev data \<longleftrightarrow> valid_xfer_segment seg \<and> unat (xs_xferExtLen seg) \<le> TCPV4_MAX_EXT_LEN \<and>
     unat (xs_dataLength seg) = length data \<and> int (length data) \<le> e_segmentMru e \<and> e_segmentMru e < 2 ^ 31 \<and>
     int (length prev + length data) \<le> e_transferMru e \<and> e_transferMru e < 2 ^ 31"

lemma rx_went_trans:
  "rx_went inp out a r n b \<Longrightarrow> rx_went inp out b r' n' c \<Longrightarrow> rx_went inp out a r' (n @ n') c"
  by (simp add: rx_went_def)

lemma consumed_went:
  assumes "was_read inp out conn rest conn'"
  shows "rx_went inp out conn rest [] conn' \<and> dlv_idle conn' = dlv_idle conn \<and> may_take e conn' seg prev = may_take e conn seg prev"
proof -
  obtain b l f w where "conn' = conn \<lparr> c_rxBuf := b, c_rxBufLen := l, c_rxBufOff := f, c_world := w \<rparr>"
    using assms by (auto simp: was_read_def only_read_def)
  then show ?thesis using assms
    by (simp add: was_read_def rx_went_def dlv_idle_def may_take_def receiving_def rx_mem_def)
qed

lemma handleXferSegment_ok:
  assumes net: "net_ok (e_io e) inp out" and ok: "buf_ok conn" and dlv: "dlv_idle conn"
    and may: "may_take e conn seg prev" and fits: "segment_fits e seg prev data"
    and p: "pending inp conn = tl (wire_xfer_segment seg) @ data @ rest"
  shows "\<exists>conn'. handleXferSegment e conn = Some (0, conn') \<and>
    (if xs_flags seg AND TMSG_FLAG_END \<noteq> 0
     then handed_over conn' (xs_transferId seg) (xs_flags seg) (prev @ data) \<and> rx_went inp out conn rest [] conn'
     else receiving conn' (xs_transferId seg) (prev @ data) \<and> dlv_idle conn' \<and>
       rx_went inp out conn rest (wire_ack (xs_flags seg) (xs_transferId seg) (length (prev @ data))) conn')"
proof -
  let ?id = "xs_transferId seg"
  have f: "valid_xfer_segment seg" "unat (xs_xferExtLen seg) \<le> TCPV4_MAX_EXT_LEN"
    "unat (xs_dataLength seg) = length data" "int (length data) \<le> e_segmentMru e" "e_segmentMru e < 2 ^ 31"
    "int (length prev + length data) \<le> e_transferMru e" "e_transferMru e < 2 ^ 31"
    using fits by (simp_all add: segment_fits_def)
  obtain c1 where h: "recvXferSegmentHdr e conn (replicate (32 + TCPV4_MAX_EXT_LEN) 0) (32 + TCPV4_MAX_EXT_LEN) = Some (Some seg, c1)"
    "was_read inp out conn (data @ rest) c1" using recvXferSegmentHdr_wire[OF net ok f(1,2) p length_replicate] by blast
  note w1 = consumed_went[OF h(2), of e seg prev]
  have c1: "pending inp c1 = data @ rest" "buf_ok c1" "dlv_idle c1" "may_take e c1 seg prev"
    using w1 dlv may by (simp_all add: rx_went_def)
  define entry where "entry = (if xs_flags seg AND TMSG_FLAG_START \<noteq> 0 then begin_transfer e c1 seg
                else if \<not> c_rxActive c1 \<or> xs_transferId seg \<noteq> c_rxId c1 then
                  (True, snd (tcpv4SendMsgReject (e_io e) c1 TMSG_REJECT_UNEXPECTED TMSG_XFER_SEGMENT))
                else (False, c1))"
  have "\<exists>c2. entry = (False, c2) \<and> receiving c2 ?id prev \<and> rx_went inp out c1 (data @ rest) [] c2 \<and> dlv_idle c2"
  proof (cases "xs_flags seg AND TMSG_FLAG_START \<noteq> 0")
    case True
    obtain rc whole where fl: "tcpv4MsgFindXferLength (octets (xs_xferExt seg)) (unat (xs_xferExtLen seg)) = (rc, whole)"
      by fastforce
    have m: "prev = []" "\<not> c_rxActive c1" "rx_mem c1" "c_state c1 \<noteq> TCS_ENDING" "\<not> segmentHasCriticalExt seg"
      "rc = 1 \<longrightarrow> \<not> the whole > word_of_int (e_transferMru e)"
      using c1(4) True fl by (auto simp: may_take_def)
    obtain c2 where "begin_transfer e c1 seg = (False, c2)" "receiving c2 ?id []"
      "rx_went inp out c1 (pending inp c1) [] c2" "dlv_idle c2 = dlv_idle c1"
      using begin_transfer_ok[OF net m(3) c1(2) m(2,4,5) fl] m(6) by blast
    then show ?thesis using True m(1) c1(1,3) by (simp add: entry_def)
  next
    case False
    then have "receiving c1 ?id prev" using c1(4) by (simp add: may_take_def)
    then show ?thesis using False c1 by (auto simp: entry_def receiving_def rx_went_def)
  qed
  then obtain c2 where o: "entry = (False, c2)" "receiving c2 ?id prev" "rx_went inp out c1 (data @ rest) [] c2"
    "dlv_idle c2" by blast
  have c2: "pending inp c2 = data @ rest" "buf_ok c2" using o(3) by (simp_all add: rx_went_def)
  obtain c3 where t: "take_payload e c2 seg = Some (False, c3)" "receiving c3 ?id (prev @ data)"
    "rx_went inp out c2 rest [] c3" "dlv_idle c3 = dlv_idle c2"
    using take_payload_ok[OF net c2(2) o(2) c2(1) f(3,6,7)] by blast
  have c3: "pending inp c3 = rest" "buf_ok c3" "dlv_idle c3" using t(3,4) o(4) by (simp_all add: rx_went_def)
  have small: "\<not> xs_dataLength seg > word_of_int (e_segmentMru e)"
  proof -
    have "xs_dataLength seg = word_of_nat (length data)" by (simp flip: f(3))
    then show ?thesis using word_of_nat_le_limit[OF f(4,5)] by simp
  qed
  have "handleXferSegment e conn = (let (bad, conn) = entry in if bad then Some (-1, conn)
      else (case take_payload e conn seg of None \<Rightarrow> None
            | Some (bad, conn) \<Rightarrow> Some (if bad then (-1, conn) else finish_segment e conn seg)))"
    using small by (simp add: handleXferSegment_def h(1) entry_def)
  also have "\<dots> = Some (finish_segment e c3 seg)" by (simp add: o(1) t(1))
  finally have e: "handleXferSegment e conn = Some (finish_segment e c3 seg)" .
  have went: "rx_went inp out conn rest new c4" if "rx_went inp out c3 rest new c4" for new c4
    using rx_went_trans[OF rx_went_trans[OF rx_went_trans[OF conjunct1[OF w1] o(3)] t(3)] that] by simp
  show ?thesis
  proof (cases "xs_flags seg AND TMSG_FLAG_END \<noteq> 0")
    case True
    then show ?thesis
      using finish_segment_end[OF c3(2) t(2) c3(3) True refl] went e c3(1) by fastforce
  next
    case False
    then have "xs_flags seg AND TMSG_FLAG_END = 0" by simp
    from finish_segment_more[OF net c3(2) t(2) c3(3) this refl] False went e c3(1)
    show ?thesis by fastforce
  qed
qed

lemma message_step_segment:
  assumes net: "net_ok (e_io e) inp out" and ok: "buf_ok conn" and dlv: "dlv_idle conn"
    and may: "may_take e conn seg prev" and fits: "segment_fits e seg prev data"
    and p: "pending inp conn = wire_xfer_segment seg @ data @ rest"
  shows "\<exists>conn'. message_step e conn = Some (None, conn') \<and>
    (if xs_flags seg AND TMSG_FLAG_END \<noteq> 0
     then handed_over conn' (xs_transferId seg) (xs_flags seg) (prev @ data) \<and> rx_went inp out conn rest [] conn'
     else receiving conn' (xs_transferId seg) (prev @ data) \<and> dlv_idle conn' \<and>
       rx_went inp out conn rest (wire_ack (xs_flags seg) (xs_transferId seg) (length (prev @ data))) conn')"
proof -
  have w: "wire_xfer_segment seg = [TMSG_XFER_SEGMENT] @ tl (wire_xfer_segment seg)" by (simp add: wire_xfer_segment_def)
  obtain c1 where r: "tcpv4ConnRecv (e_io e) conn 1 = (1, [TMSG_XFER_SEGMENT], c1)"
    "was_read inp out conn (tl (wire_xfer_segment seg) @ data @ rest) c1"
    using recv_next[OF net ok, of "[TMSG_XFER_SEGMENT]" "tl (wire_xfer_segment seg) @ data @ rest" 1] p w by auto
  let ?c = "c1 \<lparr> c_secSinceRx := 0, c_secSinceData := 0 \<rparr>"
  note w1 = consumed_went[OF r(2), of e seg prev]
  have c: "pending inp ?c = tl (wire_xfer_segment seg) @ data @ rest" "buf_ok ?c" "dlv_idle ?c" "may_take e ?c seg prev"
    "rx_went inp out c1 (tl (wire_xfer_segment seg) @ data @ rest) [] ?c"
    using w1 dlv may
    by (auto simp: rx_went_def dlv_idle_def may_take_def receiving_def rx_mem_def pending_def buf_ok_def
        cong: option.case_cong)
  obtain c2 where h: "handleXferSegment e ?c = Some (0, c2)"
    "if xs_flags seg AND TMSG_FLAG_END \<noteq> 0
     then handed_over c2 (xs_transferId seg) (xs_flags seg) (prev @ data) \<and> rx_went inp out ?c rest [] c2
     else receiving c2 (xs_transferId seg) (prev @ data) \<and> dlv_idle c2 \<and>
       rx_went inp out ?c rest (wire_ack (xs_flags seg) (xs_transferId seg) (length (prev @ data))) c2"
    using handleXferSegment_ok[OF net c(2,3,4) fits c(1)] by blast
  have "message_step e conn = Some (None, c2)"
    unfolding message_step_def r(1) prod.case Let_def using h(1) by (simp add: tmsg_types)
  moreover have "rx_went inp out conn rest new c2" if "rx_went inp out ?c rest new c2" for new
    using rx_went_trans[OF rx_went_trans[OF conjunct1[OF w1] c(5)] that] by simp
  ultimately show ?thesis using h(2) by (auto split: if_splits)
qed

text \<open>The segments a sender cuts a transfer into, each with its data.\<close>

fun xfer_segments :: "u64 \<Rightarrow> bytes option \<Rightarrow> bytes list \<Rightarrow> (Tcpv4XferSegment \<times> bytes) list" where
  "xfer_segments ident ext [] = []"
| "xfer_segments ident ext (c # cs) =
     (\<lparr>xs_flags = (if ext \<noteq> None then TMSG_FLAG_START else 0) OR (if cs = [] then TMSG_FLAG_END else 0),
       xs_transferId = ident, xs_xferExt = ext, xs_xferExtLen = word_of_nat (length (octets ext)),
       xs_dataLength = word_of_nat (length c)\<rparr>, c) # xfer_segments ident None cs"

definition wire_segments :: "(Tcpv4XferSegment \<times> bytes) list \<Rightarrow> bytes" where
  "wire_segments segs = concat (map (\<lambda>(seg, data). wire_xfer_segment seg @ data) segs)"

text \<open>The acknowledgments of all segments but the last.\<close>

fun acks_of :: "nat \<Rightarrow> (Tcpv4XferSegment \<times> bytes) list \<Rightarrow> bytes" where
  "acks_of n ((seg, data) # x # segs) =
     wire_ack (xs_flags seg) (xs_transferId seg) (n + length data) @ acks_of (n + length data) (x # segs)"
| "acks_of n _ = []"

text \<open>\<open>n\<close> passes of the message loop, none of which leaves it.\<close>

fun message_steps :: "'w RxEngine \<Rightarrow> nat \<Rightarrow> 'w RxConn \<Rightarrow> 'w RxConn option" where
  "message_steps e 0 conn = Some conn"
| "message_steps e (Suc n) conn =
     (case message_step e conn of Some (None, conn) \<Rightarrow> message_steps e n conn | _ \<Rightarrow> None)"

lemma flag_bits:
  "((if b then TMSG_FLAG_START else 0) OR (if d then TMSG_FLAG_END else 0)) AND TMSG_FLAG_START \<noteq> 0 \<longleftrightarrow> b"
  "((if b then TMSG_FLAG_START else 0) OR (if d then TMSG_FLAG_END else 0)) AND TMSG_FLAG_END \<noteq> 0 \<longleftrightarrow> d"
  by (simp_all add: TMSG_FLAG_START_def TMSG_FLAG_END_def)

lemma transfer_received:
  assumes net: "net_ok (e_io e) inp out" and mru: "e_segmentMru e < 2 ^ 31" "e_transferMru e < 2 ^ 31"
  shows "cs \<noteq> [] \<Longrightarrow> \<forall>c \<in> set cs. int (length c) \<le> e_segmentMru e \<Longrightarrow>
    int (length prev + length (concat cs)) \<le> e_transferMru e \<Longrightarrow>
    length (octets ext) \<le> TCPV4_MAX_EXT_LEN \<Longrightarrow>
    buf_ok conn \<Longrightarrow> dlv_idle conn \<Longrightarrow> may_take e conn (fst (hd (xfer_segments ident ext cs))) prev \<Longrightarrow>
    pending inp conn = wire_segments (xfer_segments ident ext cs) @ rest \<Longrightarrow>
    \<exists>conn' flags. message_steps e (length cs) conn = Some conn' \<and>
      handed_over conn' ident flags (prev @ concat cs) \<and> flags AND TMSG_FLAG_END \<noteq> 0 \<and>
      flags = xs_flags (fst (last (xfer_segments ident ext cs))) \<and>
      rx_went inp out conn rest (acks_of (length prev) (xfer_segments ident ext cs)) conn'"
proof (induction cs arbitrary: prev ext conn)
  case (Cons c cs)
  define seg where "seg = fst (hd (xfer_segments ident ext (c # cs)))"
  have seg: "seg = \<lparr>xs_flags = (if ext \<noteq> None then TMSG_FLAG_START else 0) OR (if cs = [] then TMSG_FLAG_END else 0),
       xs_transferId = ident, xs_xferExt = ext, xs_xferExtLen = word_of_nat (length (octets ext)),
       xs_dataLength = word_of_nat (length c)\<rparr>" by (simp add: seg_def)
  have segs: "xfer_segments ident ext (c # cs) = (seg, c) # xfer_segments ident None cs" by (simp add: seg)
  have lc: "int (length c) \<le> e_segmentMru e" using Cons.prems(2) by simp
  have uw: "unat (word_of_nat k :: u64) = k" if "int k < 2 ^ 31" for k
    using that by (simp add: unsigned_of_nat take_bit_nat_eq_self)
  have uw2: "unat (word_of_nat (length (octets ext)) :: u32) = length (octets ext)"
    using Cons.prems(4) by (simp add: unsigned_of_nat take_bit_nat_eq_self TCPV4_MAX_EXT_LEN_def)
  have fits: "segment_fits e seg prev c"
    using Cons.prems(3,4) lc mru uw2 uw[of "length c"]
    by (auto simp: segment_fits_def seg valid_xfer_segment_def flag_bits)
  have p: "pending inp conn = wire_xfer_segment seg @ c @ wire_segments (xfer_segments ident None cs) @ rest"
    using Cons.prems(8) segs by (simp add: wire_segments_def)
  have may: "may_take e conn seg prev" using Cons.prems(7) by (simp add: seg_def)
  obtain c1 where st: "message_step e conn = Some (None, c1)" and
    alt: "if xs_flags seg AND TMSG_FLAG_END \<noteq> 0
     then handed_over c1 (xs_transferId seg) (xs_flags seg) (prev @ c) \<and>
       rx_went inp out conn (wire_segments (xfer_segments ident None cs) @ rest) [] c1
     else receiving c1 (xs_transferId seg) (prev @ c) \<and> dlv_idle c1 \<and>
       rx_went inp out conn (wire_segments (xfer_segments ident None cs) @ rest)
         (wire_ack (xs_flags seg) (xs_transferId seg) (length (prev @ c))) c1"
    using message_step_segment[OF net Cons.prems(5,6) may fits p] by blast
  have fl: "(xs_flags seg AND TMSG_FLAG_END \<noteq> 0) = (cs = [])" by (simp add: seg flag_bits)
  show ?case
  proof (cases "cs = []")
    case True
    then show ?thesis using alt fl st segs seg by (auto simp: wire_segments_def)
  next
    case False
    then have a: "receiving c1 ident (prev @ c)" "dlv_idle c1"
      "rx_went inp out conn (wire_segments (xfer_segments ident None cs) @ rest)
         (wire_ack (xs_flags seg) ident (length (prev @ c))) c1" using alt fl by (simp_all add: seg)
    have "\<exists>conn' flags. message_steps e (length cs) c1 = Some conn' \<and>
        handed_over conn' ident flags ((prev @ c) @ concat cs) \<and> flags AND TMSG_FLAG_END \<noteq> 0 \<and>
        flags = xs_flags (fst (last (xfer_segments ident None cs))) \<and>
        rx_went inp out c1 rest (acks_of (length (prev @ c)) (xfer_segments ident None cs)) conn'"
    proof (rule Cons.IH[OF False])
      show "may_take e c1 (fst (hd (xfer_segments ident None cs))) (prev @ c)"
        using False a(1) by (cases cs) (simp_all add: may_take_def flag_bits(1)[of False, simplified])
    qed (use Cons.prems(2,3) a(2,3) in \<open>auto simp: rx_went_def\<close>)
    moreover have "acks_of (length prev) (xfer_segments ident ext (c # cs)) =
        wire_ack (xs_flags seg) ident (length (prev @ c)) @ acks_of (length (prev @ c)) (xfer_segments ident None cs)"
      using False unfolding segs by (cases cs) (simp_all add: seg)
    moreover have "last (xfer_segments ident ext (c # cs)) = last (xfer_segments ident None cs)"
      using False unfolding segs by (cases cs) simp_all
    ultimately show ?thesis using st rx_went_trans[OF a(3)] by fastforce
  qed
qed simp

text \<open>The extension a sender puts on the first segment is not critical and gives the length.\<close>

lemma length_ext_fine:
  assumes "ext = wire_ext_item (xfer_length_item n)"
  shows "\<not> critical_from ext (length ext) 0" "tcpv4MsgFindXferLength ext (length ext) = (1, Some n)"
proof -
  let ?it = "xfer_length_item n"
  have v: "valid_ext_item ?it" by (simp add: valid_ext_item_def xfer_length_item_def)
  have 1: "tcpv4MsgNextExtItem ext (length ext) 0 = (1, length ext, Some ?it)"
    using NextExtItem_item[OF v, of ext "[]" "[]"] assms by simp
  have 2: "tcpv4MsgNextExtItem ext (length ext) (length ext) = (0, length ext, None)"
    by (simp add: tcpv4MsgNextExtItem_def)
  have "critical_from ext (length ext) 0 = critical_from ext (length ext) (length ext)"
    using 1 by (subst critical_from.simps) (simp add: xfer_length_item_def)
  also have "\<dots> = False" using 2 by (subst critical_from.simps) simp
  finally show "\<not> critical_from ext (length ext) 0" by simp
  show "tcpv4MsgFindXferLength ext (length ext) = (1, Some n)"
    using find_from_items[of "[?it]" ext "[]"] v assms
    by (simp add: tcpv4MsgFindXferLength_def wire_ext_list_def xfer_length_of_def is_xfer_length_def xfer_length_item_def)
qed

section \<open>Delivery, a new START, and termination\<close>

lemma delivery_round_ok:
  assumes net: "net_ok (e_io e) inp out" and ho: "handed_over conn ident flags whole"
    and dlv: "e_deliver e (c_world conn) whole = (n, w)" "0 \<le> n" "out w = out (c_world conn)" "inp w = inp (c_world conn)"
    and ok: "buf_ok conn"
  shows "rx_went inp out conn (pending inp conn) (wire_ack flags ident (length whole)) (delivery_round e conn) \<and>
    dlv_idle (delivery_round e conn) \<and> c_rxActive (delivery_round e conn) = c_rxActive conn \<and>
    rx_mem (delivery_round e conn) \<and> c_failed (delivery_round e conn) = c_failed conn"
proof -
  have h: "c_dlvPending conn" "\<not> c_dlvStopped conn" "\<not> c_dlvFailed conn" "c_dlvId conn = ident"
    "c_dlvFlags conn = flags" "c_dlvLen conn = length whole" "take (length whole) (c_dlvBundle conn) = whole" "rx_mem conn"
    using ho by (auto simp: handed_over_def)
  let ?c = "conn \<lparr> c_world := w \<rparr>"
  obtain c2 where s: "tcpv4ConnSend (e_io e) ?c (wire_ack flags ident (length whole)) = (0, c2)"
    "sent inp out ?c (wire_ack flags ident (length whole)) c2" using send_next[OF net] by blast
  have "delivery_round e conn = c2 \<lparr> c_dlvPending := False \<rparr>"
    using h dlv(1,2) s(1) by (simp add: delivery_round_def short_messages wire_ack_def)
  then show ?thesis using s(2) h ok dlv(3,4)
    by (auto simp: sent_def rx_went_def dlv_idle_def rx_mem_def pending_def buf_ok_def cong: option.case_cong)
qed

lemma delivery_round_fails:
  assumes ho: "handed_over conn ident flags whole" and dlv: "e_deliver e (c_world conn) whole = (n, w)" "n < 0"
  shows "c_failed (delivery_round e conn) \<and> c_dlvFailed (delivery_round e conn) \<and>
    c_world (delivery_round e conn) = (if c_sock conn = -1 then w else io_shutdown (e_io e) w (c_sock conn))"
proof -
  have "c_dlvPending conn" "c_dlvLen conn = length whole" "take (length whole) (c_dlvBundle conn) = whole"
    using ho by (auto simp: handed_over_def)
  then show ?thesis using dlv by (simp add: delivery_round_def tcpv4ConnFail_def Let_def)
qed

lemma message_step_interleaved:
  assumes net: "net_ok (e_io e) inp out" and ok: "buf_ok conn" and act: "c_rxActive conn"
    and st: "xs_flags seg AND TMSG_FLAG_START \<noteq> 0" and v: "valid_xfer_segment seg"
      "unat (xs_xferExtLen seg) \<le> TCPV4_MAX_EXT_LEN" "\<not> xs_dataLength seg > word_of_int (e_segmentMru e)"
    and p: "pending inp conn = wire_xfer_segment seg @ rest"
  shows "\<exists>conn'. message_step e conn = Some (Some (-1), conn') \<and>
    out (c_world conn') = out (c_world conn) @ wire_msg_reject \<lparr>mr_reason = TMSG_REJECT_UNEXPECTED, mr_rejectedType = TMSG_XFER_SEGMENT\<rparr>"
proof -
  have w: "wire_xfer_segment seg = [TMSG_XFER_SEGMENT] @ tl (wire_xfer_segment seg)" by (simp add: wire_xfer_segment_def)
  obtain c1 where r: "tcpv4ConnRecv (e_io e) conn 1 = (1, [TMSG_XFER_SEGMENT], c1)"
    "was_read inp out conn (tl (wire_xfer_segment seg) @ rest) c1"
    using recv_next[OF net ok, of "[TMSG_XFER_SEGMENT]" "tl (wire_xfer_segment seg) @ rest" 1] p w by auto
  let ?c = "c1 \<lparr> c_secSinceRx := 0, c_secSinceData := 0 \<rparr>"
  have c: "pending inp ?c = tl (wire_xfer_segment seg) @ rest" "buf_ok ?c" "c_rxActive ?c"
    "out (c_world ?c) = out (c_world conn)"
    using r(2) act by (auto simp: was_read_def pending_def buf_ok_def only_read_def cong: option.case_cong)
  obtain c2 where h: "recvXferSegmentHdr e ?c (replicate (32 + TCPV4_MAX_EXT_LEN) 0) (32 + TCPV4_MAX_EXT_LEN) = Some (Some seg, c2)"
    "was_read inp out ?c rest c2" using recvXferSegmentHdr_wire[OF net c(2) v(1,2) c(1) length_replicate] by blast
  have c2: "c_rxActive c2" "out (c_world c2) = out (c_world conn)"
    using h(2) c(3,4) by (auto simp: was_read_def only_read_def)
  obtain c3 where s: "tcpv4SendMsgReject (e_io e) c2 TMSG_REJECT_UNEXPECTED TMSG_XFER_SEGMENT = (0, c3)"
    "sent inp out c2 (wire_msg_reject \<lparr>mr_reason = TMSG_REJECT_UNEXPECTED, mr_rejectedType = TMSG_XFER_SEGMENT\<rparr>) c3"
    unfolding short_messages using send_next[OF net] by blast
  have "handleXferSegment e ?c = Some (-1, c3)"
    using st v(3) c2(1) s(1) by (simp add: handleXferSegment_def h(1) begin_transfer_def)
  then have "message_step e conn = Some (Some (-1), c3)"
    unfolding message_step_def r(1) prod.case Let_def by (simp add: tmsg_types)
  then show ?thesis using s(2) c2(2) by (auto simp: sent_def)
qed

lemma message_step_sess_term:
  assumes net: "net_ok (e_io e) inp out" and ok: "buf_ok conn"
    and p: "pending inp conn = wire_sess_term tm @ rest"
  shows "\<exists>conn'. message_step e conn =
      Some (if st_flags tm AND TMSG_TERM_FLAG_REPLY = 0 \<and> \<not> c_termSent conn then None else Some 0, conn') \<and>
    out (c_world conn') = out (c_world conn) @
      (if st_flags tm AND TMSG_TERM_FLAG_REPLY = 0 \<and> \<not> c_termSent conn
       then wire_sess_term \<lparr>st_flags = TMSG_TERM_FLAG_REPLY, st_reason = st_reason tm\<rparr> else []) \<and>
    pending inp conn' = rest \<and> c_termSent conn' \<and> c_state conn' = TCS_ENDING \<and> txStopped (c_tx conn')"
proof -
  let ?b = "[st_flags tm, st_reason tm]"
  have w: "wire_sess_term tm = [TMSG_SESS_TERM] @ ?b" by (simp add: wire_sess_term_def)
  obtain c1 where r: "tcpv4ConnRecv (e_io e) conn 1 = (1, [TMSG_SESS_TERM], c1)" "was_read inp out conn (?b @ rest) c1"
    using recv_next[OF net ok, of "[TMSG_SESS_TERM]" "?b @ rest" 1] p w by auto
  let ?c = "c1 \<lparr> c_secSinceRx := 0, c_secSinceData := 0 \<rparr>"
  have c: "pending inp ?c = ?b @ rest" "buf_ok ?c" "c_termSent ?c = c_termSent conn" "out (c_world ?c) = out (c_world conn)"
    using r(2) by (auto simp: was_read_def pending_def buf_ok_def only_read_def cong: option.case_cong)
  obtain c2 where h: "tcpv4ConnRecv (e_io e) ?c 2 = (2, ?b, c2)" "was_read inp out ?c rest c2"
    using recv_next[OF net c(2,1), of 2] by auto
  have c2: "pending inp c2 = rest" "c_termSent c2 = c_termSent conn" "out (c_world c2) = out (c_world conn)"
    using h(2) c(3,4) by (auto simp: was_read_def only_read_def)
  have dec: "tcpv4MsgDecodeSessTerm (TMSG_SESS_TERM # ?b) 3 = (3, Some tm)"
  proof -
    have "tcpv4MsgDecodeSessTerm (TMSG_SESS_TERM # ?b) (length (TMSG_SESS_TERM # ?b)) =
        (int (length (wire_sess_term tm)), Some tm)"
      by (rule sess_term.dec_complete[where rest = "[]"]) (simp_all add: wire_sess_term_def)
    then show ?thesis by (simp add: wire_sess_term_def numeral_3_eq_3)
  qed
  let ?d = "c2 \<lparr> c_state := TCS_ENDING, c_termSent := True, c_tx := tcpv4TxStop (c_tx c2) \<rparr>"
  have d: "pending inp ?d = rest" "out (c_world ?d) = out (c_world conn)" "txStopped (c_tx ?d)"
    using c2 by (simp_all add: pending_def tcpv4TxStop_def cong: option.case_cong)
  have step: "message_step e conn = (let (r, conn) = handleSessTerm e ?c
      in Some (if r \<noteq> 0 then Some (if r < 0 then -1 else 0) else None, conn))"
    unfolding message_step_def r(1) prod.case Let_def by (simp add: tmsg_types)
  show ?thesis
  proof (cases "st_flags tm AND TMSG_TERM_FLAG_REPLY = 0 \<and> \<not> c_termSent conn")
    case False
    have "handleSessTerm e ?c = (1, ?d)"
      unfolding handleSessTerm_def h(1) prod.case Let_def dec using False c2(2) by auto
    then show ?thesis using False d step by auto
  next
    case True
    let ?m = "wire_sess_term \<lparr>st_flags = TMSG_TERM_FLAG_REPLY, st_reason = st_reason tm\<rparr>"
    obtain c3 where s: "tcpv4SendSessTerm (e_io e) ?d (st_reason tm) True = (0, c3)" "sent inp out ?d ?m c3"
      unfolding short_messages using send_next[OF net, of ?d ?m] by auto
    have "handleSessTerm e ?c = (0, c3)"
      unfolding handleSessTerm_def h(1) prod.case Let_def dec using True c2(2) s(1) by auto
    then have "message_step e conn = Some (None, c3)" using step by simp
    moreover have "out (c_world c3) = out (c_world conn) @ ?m" "pending inp c3 = rest" "c_termSent c3"
      "c_state c3 = TCS_ENDING" "txStopped (c_tx c3)"
      using s(2) d sent_pending[OF s(2)] by (auto simp: sent_def)
    ultimately show ?thesis using True by auto
  qed
qed

section \<open>Memory, whatever the peer sends\<close>

text \<open>
  All that is asked of the reading functions: they store as many octets as they say, and no more
  than they were asked for.  They may fail, and any function may change the descriptor.
\<close>

definition io_sane :: "'w Io \<Rightarrow> bool" where
  "io_sane io \<longleftrightarrow>
     (\<forall>w cap n d w'. io_tlsRecv io w cap = (n, d, w') \<longrightarrow> 0 < n \<longrightarrow> nat n \<le> cap \<and> length d = nat n) \<and>
     (\<forall>w sock cap n d er w'. io_irecv io w sock cap = (n, d, er, w') \<longrightarrow> 0 < n \<longrightarrow> nat n \<le> cap \<and> length d = nat n) \<and>
     (\<forall>w sock len n d sock' w'. io_itcpRecv io w sock len = (n, d, sock', w') \<longrightarrow>
        n \<le> int len \<and> (n = int len \<longrightarrow> length d = len))"

lemma sane_reads:
  "io_sane io \<Longrightarrow> io_tlsRecv io w cap = (n, d, w') \<Longrightarrow> 0 < n \<Longrightarrow> nat n \<le> cap \<and> length d = nat n"
  "io_sane io \<Longrightarrow> io_irecv io w sock cap = (n, d, er, w') \<Longrightarrow> 0 < n \<Longrightarrow> nat n \<le> cap \<and> length d = nat n"
  "io_sane io \<Longrightarrow> io_itcpRecv io w sock len = (n, d, sock', w') \<Longrightarrow> n \<le> int len \<and> (n = int len \<longrightarrow> length d = len)"
  unfolding io_sane_def by blast+

text \<open>The fields that describe memory, and what must hold of them.\<close>

definition rx_part :: "'w RxConn \<Rightarrow> bytes \<times> nat \<times> nat \<times> bytes \<times> nat" where
  "rx_part conn = (c_rxBundle conn, c_rxCap conn, c_rxLen conn, c_dlvBundle conn, c_dlvCap conn)"

definition buf_part :: "('w, 'a) IoConn_scheme \<Rightarrow> bytes option \<times> nat \<times> nat" where
  "buf_part conn = (c_rxBuf conn, c_rxBufLen conn, c_rxBufOff conn)"

definition buf_bounds :: "('w, 'a) IoConn_scheme \<Rightarrow> bool" where
  "buf_bounds conn \<longleftrightarrow> (case c_rxBuf conn of
      None \<Rightarrow> True
    | Some buf \<Rightarrow> length buf = TCPV4_RXBUF_SIZE \<and> c_rxBufOff conn \<le> c_rxBufLen conn \<and>
        c_rxBufLen conn \<le> TCPV4_RXBUF_SIZE)"

definition rx_safe :: "'w RxEngine \<Rightarrow> 'w RxConn \<Rightarrow> bool" where
  "rx_safe e conn \<longleftrightarrow> buf_bounds conn \<and> rx_mem conn \<and> int (c_rxLen conn) \<le> e_transferMru e"

lemma rx_safe_cong:
  "rx_part conn' = rx_part conn \<Longrightarrow> buf_part conn' = buf_part conn \<Longrightarrow> rx_safe e conn' = rx_safe e conn"
  unfolding rx_safe_def rx_mem_def buf_bounds_def rx_part_def buf_part_def by (simp cong: option.case_cong)

lemma tls_loop_sane:
  assumes "io_sane io"
  shows "tls_recv_loop io w len acc got = (n, d, w') \<Longrightarrow> length acc = got \<Longrightarrow> got \<le> len \<Longrightarrow>
     n \<le> int len \<and> (n = int len \<longrightarrow> length d = len)"
proof (induction "len - got" arbitrary: w acc got rule: less_induct)
  case less
  obtain m e w2 where r: "io_tlsRecv io w (len - got) = (m, e, w2)" by (metis prod_cases3)
  show ?case
  proof (cases "got < len \<and> 0 < m")
    case True
    then have s: "nat m \<le> len - got" "length e = nat m" using sane_reads(1)[OF assms r] by auto
    have "tls_recv_loop io w2 len (acc @ e) (got + nat m) = (n, d, w')"
      using less.prems(1) r True s by (simp add: tls_recv_loop.simps[of io w len acc got])
    moreover have "len - (got + nat m) < len - got" using True by linarith
    ultimately show ?thesis using less.hyps less.prems(2) s True by auto
  next
    case False
    then show ?thesis using less.prems r
      by (auto simp: tls_recv_loop.simps[of io w len acc got] split: if_splits)
  qed
qed

lemma exactly_sane:
  assumes "io_sane io" "connRecvExactly io conn len = (n, d, conn')"
  shows "n \<le> int len \<and> (n = int len \<longrightarrow> length d = len) \<and> buf_part conn' = buf_part conn"
proof (cases "c_tls conn")
  case True
  obtain m e w where t: "tls_recv_loop io (c_world conn) len [] 0 = (m, e, w)" by (metis prod_cases3)
  then show ?thesis using assms(2) True tls_loop_sane[OF assms(1) t]
    by (auto simp: connRecvExactly_def buf_part_def)
next
  case False
  obtain m e sock w where t: "io_itcpRecv io (c_world conn) (c_sock conn) len = (m, e, sock, w)" by (metis prod_cases4)
  then show ?thesis using assms(2) False sane_reads(3)[OF assms(1) t]
    by (auto simp: connRecvExactly_def buf_part_def)
qed

lemma some_sane:
  assumes "io_sane io" "connRecvSome io conn cap = (n, d, conn')"
  shows "(0 < n \<longrightarrow> nat n \<le> cap \<and> length d = nat n) \<and> buf_part conn' = buf_part conn"
proof (cases "c_tls conn")
  case True
  obtain m e w where t: "io_tlsRecv io (c_world conn) cap = (m, e, w)" by (metis prod_cases3)
  then show ?thesis using assms(2) True sane_reads(1)[OF assms(1) t] by (auto simp: connRecvSome_def buf_part_def)
next
  case False
  obtain m e er w where t: "io_irecv io (c_world conn) (c_sock conn) cap = (m, e, er, w)" by (metis prod_cases4)
  then show ?thesis using assms(2) False sane_reads(2)[OF assms(1) t]
    by (auto simp: connRecvSome_def buf_part_def split: if_splits Errno.splits)
qed

lemma refill_sane:
  assumes "io_sane io"
  shows "refill_loop io conn len acc got = (n, d, conn') \<Longrightarrow> buf_bounds conn \<Longrightarrow> c_rxBuf conn \<noteq> None \<Longrightarrow>
     length acc = got \<Longrightarrow> got \<le> len \<Longrightarrow> (n = int len \<longrightarrow> length d = len) \<and> buf_bounds conn'"
proof (induction "len - got" arbitrary: conn acc got rule: less_induct)
  case less
  obtain m e conn2 where r: "connRecvSome io conn TCPV4_RXBUF_SIZE = (m, e, conn2)" by (metis prod_cases3)
  note s = some_sane[OF assms r]
  have b2: "buf_bounds conn2" "c_rxBuf conn2 \<noteq> None"
    using less.prems(2,3) s by (auto simp: buf_part_def buf_bounds_def cong: option.case_cong)
  define buf where "buf = overwrite (octets (c_rxBuf conn2)) 0 (take (nat m) e)"
  define want where "want = (if int (len - got) < m then len - got else nat m)"
  let ?c = "conn2 \<lparr> c_rxBuf := Some buf, c_rxBufLen := nat m, c_rxBufOff := want \<rparr>"
  have step: "refill_loop io conn len acc got = (if got < len then
      (if m \<le> 0 then (if got > 0 \<and> m = 0 then -1 else m, acc, conn2)
       else refill_loop io ?c len (acc @ take want buf) (got + want)) else (int len, acc, conn))"
    unfolding refill_loop.simps[of io conn len acc got] r prod.case Let_def buf_def want_def ..
  show ?case
  proof (cases "got < len \<and> \<not> m \<le> 0")
    case True
    have m: "nat m \<le> TCPV4_RXBUF_SIZE" "length e = nat m" using s True by auto
    have lb: "length buf = TCPV4_RXBUF_SIZE" using b2 m by (auto simp: buf_def buf_bounds_def)
    have w: "0 < want" "want \<le> nat m" "got + want \<le> len" using True by (auto simp: want_def)
    have e: "refill_loop io ?c len (acc @ take want buf) (got + want) = (n, d, conn')"
      using less.prems(1) step True by simp
    have "buf_bounds ?c" using lb m w by (simp add: buf_bounds_def)
    moreover have "length (acc @ take want buf) = got + want" using less.prems(4) lb m w by simp
    moreover have "len - (got + want) < len - got" using True w by linarith
    ultimately show ?thesis using w by (intro less.hyps[OF _ e]) simp_all
  next
    case False
    then show ?thesis using less.prems step b2 by (auto split: if_splits)
  qed
qed

lemma recv_sane:
  assumes sane: "io_sane io" and bb: "buf_bounds conn" and r: "tcpv4ConnRecv io conn len = (n, d, conn')"
  shows "(n = int len \<longrightarrow> length d = len) \<and> buf_bounds conn'"
proof (cases "c_rxBuf conn")
  case None
  then have e: "connRecvExactly io conn len = (n, d, conn')" using r by (simp add: tcpv4ConnRecv_def)
  show ?thesis using exactly_sane[OF sane e] bb by (auto simp: buf_part_def buf_bounds_def cong: option.case_cong)
next
  case (Some buf)
  define avail where "avail = c_rxBufLen conn - c_rxBufOff conn"
  define got where "got = (if avail > 0 then (if avail < len then avail else len) else 0)"
  let ?c = "conn \<lparr> c_rxBufOff := c_rxBufOff conn + got \<rparr>"
  let ?a = "take got (drop (c_rxBufOff conn) buf)"
  have bf: "length buf = TCPV4_RXBUF_SIZE" "c_rxBufOff conn \<le> c_rxBufLen conn" "c_rxBufLen conn \<le> TCPV4_RXBUF_SIZE"
    using bb Some by (simp_all add: buf_bounds_def)
  have got: "got \<le> len" "got \<le> avail" by (auto simp: got_def)
  have la: "length ?a = got" using bf got(2) by (simp add: avail_def)
  have bc: "buf_bounds ?c" "c_rxBuf ?c \<noteq> None" using Some bf got(2) by (simp_all add: buf_bounds_def avail_def)
  have rr: "(if avail > 0 \<and> got = len then (int len, ?a, ?c)
      else if len - got \<ge> TCPV4_RXBUF_DIRECT then
        (let (n, d, conn) = connRecvExactly io ?c (len - got)
         in if n = int (len - got) then (int len, ?a @ d, conn)
            else (if got > 0 \<and> n = 0 then -1 else n, ?a @ d, conn))
      else refill_loop io ?c len ?a got) = (n, d, conn')"
    using r unfolding tcpv4ConnRecv_def Some option.case Let_def avail_def[symmetric] got_def[symmetric] .
  obtain m e conn2 where x: "connRecvExactly io ?c (len - got) = (m, e, conn2)" by (metis prod_cases3)
  note ex = exactly_sane[OF sane x]
  have b2: "buf_bounds conn2" using ex bc(1) by (auto simp: buf_part_def buf_bounds_def cong: option.case_cong)
  consider (held) "avail > 0 \<and> got = len" | (direct) "\<not> (avail > 0 \<and> got = len)" "len - got \<ge> TCPV4_RXBUF_DIRECT"
    | (refill) "\<not> (avail > 0 \<and> got = len)" "\<not> len - got \<ge> TCPV4_RXBUF_DIRECT" by blast
  then show ?thesis
  proof cases
    case held
    then have "d = ?a" "conn' = ?c" using rr by auto
    then show ?thesis using la held bc by simp
  next
    case direct
    have res: "(if m = int (len - got) then (int len, ?a @ e, conn2)
        else (if got > 0 \<and> m = 0 then -1 else m, ?a @ e, conn2)) = (n, d, conn')"
      using rr unfolding if_not_P[OF direct(1)] if_P[OF direct(2)] x Let_def prod.case .
    have g0: "got \<le> len" by (rule got(1))
    have "got < len" using direct(2) g0 by (auto simp: TCPV4_RXBUF_DIRECT_def)
    have "m = int (len - got) \<longrightarrow> length (?a @ e) = len" using ex la g0 by simp
    moreover have "n = int len \<longrightarrow> m = int (len - got)"
    proof (intro impI, rule ccontr)
      assume n: "n = int len" and m: "m \<noteq> int (len - got)"
      then have "n = (if got > 0 \<and> m = 0 then -1 else m)" using res by simp
      then have "m = int len" "got = 0" using n ex \<open>got < len\<close> by (auto split: if_splits)
      then show False using m by simp
    qed
    ultimately show ?thesis using res b2 by (auto split: if_splits)
  next
    case refill
    have x: "refill_loop io ?c len ?a got = (n, d, conn')"
      using rr unfolding if_not_P[OF refill(1)] if_not_P[OF refill(2)] .
    show ?thesis by (rule refill_sane[OF sane x bc la got(1)])
  qed
qed

text \<open>Input and output leave the receiver's own fields alone.\<close>

lemma rx_part_more: "IoConn.more conn' = IoConn.more conn \<Longrightarrow> rx_part conn' = rx_part conn"
  by (cases conn; cases conn') (simp add: rx_part_def)

lemma recv_exactly_more: "IoConn.more (snd (snd (connRecvExactly io conn len))) = IoConn.more conn"
  by (simp add: connRecvExactly_def split: prod.split)

lemma recv_some_more: "IoConn.more (snd (snd (connRecvSome io conn len))) = IoConn.more conn"
  by (simp add: connRecvSome_def split: prod.split)

lemma refill_more: "IoConn.more (snd (snd (refill_loop io conn len acc got))) = IoConn.more conn"
proof (induction "len - got" arbitrary: conn acc got rule: less_induct)
  case less
  obtain m e conn2 where r: "connRecvSome io conn TCPV4_RXBUF_SIZE = (m, e, conn2)" by (metis prod_cases3)
  have m2: "IoConn.more conn2 = IoConn.more conn" using recv_some_more[of io conn TCPV4_RXBUF_SIZE] r by simp
  define buf where "buf = overwrite (octets (c_rxBuf conn2)) 0 (take (nat m) e)"
  define want where "want = (if int (len - got) < m then len - got else nat m)"
  let ?c = "conn2 \<lparr> c_rxBuf := Some buf, c_rxBufLen := nat m, c_rxBufOff := want \<rparr>"
  have step: "refill_loop io conn len acc got = (if got < len then
      (if m \<le> 0 then (if got > 0 \<and> m = 0 then -1 else m, acc, conn2)
       else refill_loop io ?c len (acc @ take want buf) (got + want)) else (int len, acc, conn))"
    unfolding refill_loop.simps[of io conn len acc got] r prod.case Let_def buf_def want_def ..
  show ?case
  proof (cases "got < len \<and> \<not> m \<le> 0")
    case True
    then have "len - (got + want) < len - got" by (auto simp: want_def)
    from less.hyps[OF this] show ?thesis using True step m2 by simp
  qed (use step m2 in auto)
qed

lemma recv_more: "IoConn.more (snd (snd (tcpv4ConnRecv io conn len))) = IoConn.more conn"
proof (cases "c_rxBuf conn")
  case None
  then show ?thesis by (simp add: tcpv4ConnRecv_def recv_exactly_more)
next
  case (Some buf)
  show ?thesis unfolding tcpv4ConnRecv_def Some option.case Let_def
    by (simp add: refill_more case_prod_beta recv_exactly_more)
qed

definition rx_kept :: "'w RxConn \<Rightarrow> 'w RxConn \<Rightarrow> bool" where
  "rx_kept conn conn' \<longleftrightarrow> rx_part conn' = rx_part conn \<and> buf_part conn' = buf_part conn \<and>
     c_rxRefused conn' = c_rxRefused conn"

lemma rx_kept_safe: "rx_kept conn conn' \<Longrightarrow> rx_safe e conn \<Longrightarrow> rx_safe e conn'"
  unfolding rx_kept_def using rx_safe_cong by blast

lemma rx_kept_trans: "rx_kept a b \<Longrightarrow> rx_kept b c \<Longrightarrow> rx_kept a c"
  by (simp add: rx_kept_def)

lemma send_kept: "rx_kept conn (snd (tcpv4ConnSend io conn d))"
  by (auto simp: rx_kept_def rx_part_def buf_part_def tcpv4ConnSend_def connSendLocked_def Let_def split: prod.splits)

lemma sends_kept:
  "rx_kept conn (snd (tcpv4SendMsgReject io conn reason type))"
  "rx_kept conn (snd (tcpv4SendSessTerm io conn reason reply))"
  "rx_kept conn (snd (tcpv4SendXferAck io conn flags ident len))"
  "rx_kept conn (snd (tcpv4SendXferRefuse io conn reason ident))"
  unfolding short_messages by (rule send_kept)+

lemma ack_kept:
  "tcpv4SendXferAck io conn flags ident len = (n, conn') \<Longrightarrow> rx_kept conn conn'"
  using sends_kept(3)[of conn io flags ident len] by simp

lemma delivery_kept: "rx_kept conn (delivery_round e conn)"
proof (cases "c_dlvPending conn")
  case True
  obtain n w where d: "e_deliver e (c_world conn) (take (c_dlvLen conn) (c_dlvBundle conn)) = (n, w)" by fastforce
  obtain k c2 where a: "tcpv4SendXferAck (e_io e) (conn \<lparr> c_world := w \<rparr>) (c_dlvFlags conn) (c_dlvId conn)
      (word_of_nat (c_dlvLen conn)) = (k, c2)" by fastforce
  have "rx_kept (conn \<lparr> c_world := w \<rparr>) c2" by (rule ack_kept[OF a])
  then show ?thesis using True d a
    by (auto simp: delivery_round_def rx_kept_def rx_part_def buf_part_def tcpv4ConnFail_def Let_def)
qed (simp add: delivery_round_def rx_kept_def)

lemma await_kept: "rx_kept conn (await_delivery e conn)"
  using delivery_kept by (auto simp: await_delivery_def rx_kept_def)

lemma rx_sends_kept:
  "rx_kept conn (snd (rxSendRefuse e conn reason ident))"
  "rx_kept conn (snd (rxSendAck e conn flags ident len))"
  by (auto simp: rxSendRefuse_def rxSendAck_def rxAwaitDelivery_def Let_def await_kept
      intro: rx_kept_trans[OF await_kept] sends_kept)

lemma refuse_refused [simp]: "c_rxRefused (snd (rxSendRefuse e conn reason ident)) = c_rxRefused conn"
  using rx_sends_kept(1)[of conn e reason ident] by (simp add: rx_kept_def)

lemma recv_safe:
  assumes "io_sane (e_io e)" "rx_safe e conn"
  shows "rx_safe e (snd (snd (tcpv4ConnRecv (e_io e) conn len))) \<and>
    rx_part (snd (snd (tcpv4ConnRecv (e_io e) conn len))) = rx_part conn \<and>
    (fst (tcpv4ConnRecv (e_io e) conn len) = int len \<longrightarrow> length (fst (snd (tcpv4ConnRecv (e_io e) conn len))) = len)"
proof -
  obtain n d conn' where r: "tcpv4ConnRecv (e_io e) conn len = (n, d, conn')" by (metis prod_cases3)
  have p: "rx_part conn' = rx_part conn"
    using rx_part_more[of conn' conn] recv_more[of "e_io e" conn len] r by simp
  have "(n = int len \<longrightarrow> length d = len) \<and> buf_bounds conn'"
    using recv_sane[OF assms(1) _ r] assms(2) by (simp add: rx_safe_def)
  then show ?thesis using p r assms(2) by (simp add: rx_safe_def rx_mem_def rx_part_def)
qed

lemma recv_safe' [simp]:
  "io_sane (e_io e) \<Longrightarrow> rx_safe e conn \<Longrightarrow> rx_safe e (snd (snd (tcpv4ConnRecv (e_io e) conn len)))"
  using recv_safe by blast

lemma safe_upd [simp]:
  "rx_safe e (conn \<lparr> c_rxActive := b \<rparr>) = rx_safe e conn" "rx_safe e (conn \<lparr> c_rxRefused := b \<rparr>) = rx_safe e conn"
  "rx_safe e (conn \<lparr> c_secSinceRx := i \<rparr>) = rx_safe e conn" "rx_safe e (conn \<lparr> c_secSinceData := i \<rparr>) = rx_safe e conn"
  "rx_safe e (conn \<lparr> c_state := st \<rparr>) = rx_safe e conn" "rx_safe e (conn \<lparr> c_termSent := b \<rparr>) = rx_safe e conn"
  "rx_safe e (conn \<lparr> c_tx := t \<rparr>) = rx_safe e conn" "rx_safe e (conn \<lparr> c_world := w \<rparr>) = rx_safe e conn"
  by (rule rx_safe_cong; simp add: rx_part_def buf_part_def)+

text \<open>A read into a buffer with room for it is no memory error, and leaves the buffer as long as it was.\<close>

lemma recv_at_safe:
  assumes sane: "io_sane (e_io e)" and safe: "rx_safe e conn" and room: "off + len \<le> length buf"
    and k: "\<And>buf' c. length buf' = length buf \<Longrightarrow> take off buf' = take off buf \<Longrightarrow> rx_safe e c \<Longrightarrow> rx_part c = rx_part conn \<Longrightarrow>
      \<exists>r c'. k buf' c = Some (r, c') \<and> rx_safe e c'"
  shows "\<exists>r c'. recv_at (e_io e) conn buf off len fail k = Some (r, c') \<and> rx_safe e c'"
proof -
  obtain n d c where r: "tcpv4ConnRecv (e_io e) conn len = (n, d, c)" by (metis prod_cases3)
  have c: "rx_safe e c" "rx_part c = rx_part conn" "n = int len \<Longrightarrow> length d = len"
    using recv_safe[OF sane safe, of len] r by simp_all
  have m: "\<not> off + len > length buf" using room by simp
  show ?thesis
  proof (cases "n = int len")
    case False
    then show ?thesis using c(1) m r by (simp add: recv_at_def)
  next
    case True
    have "length (overwrite buf off d) = length buf" "take off (overwrite buf off d) = take off buf"
      using room c(3)[OF True] by (simp_all add: overwrite_def)
    from k[OF this c(1,2)] show ?thesis using m r True by (simp add: recv_at_def)
  qed
qed

lemma drain_safe:
  "io_sane (e_io e) \<Longrightarrow> rx_safe e conn \<Longrightarrow> length scratch = 4096 \<Longrightarrow>
     \<exists>r c'. drainOctets e conn scratch len = Some (r, c') \<and> rx_safe e c'"
proof (induction len arbitrary: conn scratch rule: less_induct)
  case (less len)
  show ?case
  proof (cases "len > 0")
    case True
    let ?chunk = "if len > 4096 then 4096 else len"
    have "0 + ?chunk \<le> length scratch" using less.prems by simp
    moreover have "len - ?chunk < len" using True by simp
    ultimately have "\<exists>r c'. recv_at (e_io e) conn scratch 0 ?chunk (-1)
        (\<lambda>scratch conn. drainOctets e conn scratch (len - ?chunk)) = Some (r, c') \<and> rx_safe e c'"
      using less.prems less.IH by (intro recv_at_safe) simp_all
    then show ?thesis using True by (subst drainOctets.simps) (simp only: if_True Let_def)
  qed (use less.prems in \<open>simp add: drainOctets.simps\<close>)
qed

lemma data_length_safe:
  assumes "io_sane (e_io e)" "rx_safe e conn" "off + 8 \<le> length buf"
  shows "\<exists>r c'. recv_data_length e conn buf off cap = Some (r, c') \<and> rx_safe e c'"
  unfolding recv_data_length_def
  by (rule recv_at_safe[OF assms]) (auto simp: Let_def split: prod.splits)

lemma header_safe:
  assumes sane: "io_sane (e_io e)" and safe: "rx_safe e conn" and buf: "length buf = 32 + TCPV4_MAX_EXT_LEN"
  shows "\<exists>r c'. recvXferSegmentHdr e conn buf cap = Some (r, c') \<and> rx_safe e c'"
proof -
  have l: "length (overwrite buf 0 [TMSG_XFER_SEGMENT]) = length buf" using buf by (simp add: overwrite_def)
  have ext: "\<exists>r c'. (let extLen = unat (join32 (join16 (b ! 10) (b ! 11)) (join16 (b ! 12) (b ! 13)))
           in if extLen > TCPV4_MAX_EXT_LEN then Some (None, c)
              else if extLen > 0 then
                recv_at (e_io e) c b 14 extLen None (\<lambda>buf conn. recv_data_length e conn buf (14 + extLen) cap)
              else recv_data_length e c b 14 cap) = Some (r, c') \<and> rx_safe e c'"
    if b: "length b = length buf" and c: "rx_safe e c" for b c
  proof -
    define n where "n = unat (join32 (join16 (b ! 10) (b ! 11)) (join16 (b ! 12) (b ! 13)))"
    have "\<exists>r c'. recv_at (e_io e) c b 14 n None (\<lambda>buf conn. recv_data_length e conn buf (14 + n) cap) = Some (r, c') \<and> rx_safe e c'"
      if "n \<le> TCPV4_MAX_EXT_LEN"
      by (rule recv_at_safe[OF sane c]) (use that b buf data_length_safe[OF sane] in simp_all)
    moreover have "\<exists>r c'. recv_data_length e c b 14 cap = Some (r, c') \<and> rx_safe e c'"
      by (rule data_length_safe[OF sane c]) (use b buf in simp)
    ultimately show ?thesis unfolding n_def[symmetric] Let_def using c by auto
  qed
  show ?thesis
    unfolding recvXferSegmentHdr_def
  proof (rule recv_at_safe[OF sane safe])
    show "1 + 9 \<le> length (overwrite buf 0 [TMSG_XFER_SEGMENT])" using l buf by simp
  next
    fix b :: bytes and c assume b: "length b = length (overwrite buf 0 [TMSG_XFER_SEGMENT])" and c: "rx_safe e c"
    have lb: "length b = length buf" using b l by simp
    have "\<exists>r c'. recv_data_length e c b 10 cap = Some (r, c') \<and> rx_safe e c'"
      by (rule data_length_safe[OF sane c]) (use lb buf in simp)
    moreover have "\<exists>r c'. recv_at (e_io e) c b 10 4 None (\<lambda>buf conn.
           let extLen = unat (join32 (join16 (buf ! 10) (buf ! 11)) (join16 (buf ! 12) (buf ! 13)))
           in if extLen > TCPV4_MAX_EXT_LEN then Some (None, conn)
              else if extLen > 0 then
                recv_at (e_io e) conn buf 14 extLen None (\<lambda>buf conn. recv_data_length e conn buf (14 + extLen) cap)
              else recv_data_length e conn buf 14 cap) = Some (r, c') \<and> rx_safe e c'"
      by (rule recv_at_safe[OF sane c]) (use lb buf ext in simp_all)
    ultimately show "\<exists>r c'. (if b ! 1 AND TMSG_FLAG_START \<noteq> 0 then
         recv_at (e_io e) c b 10 4 None (\<lambda>buf conn.
           let extLen = unat (join32 (join16 (buf ! 10) (buf ! 11)) (join16 (buf ! 12) (buf ! 13)))
           in if extLen > TCPV4_MAX_EXT_LEN then Some (None, conn)
              else if extLen > 0 then
                recv_at (e_io e) conn buf 14 extLen None (\<lambda>buf conn. recv_data_length e conn buf (14 + extLen) cap)
              else recv_data_length e conn buf 14 cap)
       else recv_data_length e c b 10 cap) = Some (r, c') \<and> rx_safe e c'"
      by (simp only: split: if_split) blast
  qed
qed

lemma reserve_safe:
  assumes "rx_safe e conn"
  shows "rx_safe e (snd (rxReserve e conn want))" "c_rxLen (snd (rxReserve e conn want)) = c_rxLen conn"
    "fst (rxReserve e conn want) = 0 \<Longrightarrow> want \<le> c_rxCap (snd (rxReserve e conn want))"
proof -
  let ?cap = "double_until (if c_rxCap conn = 0 then 8192 else c_rxCap conn) want"
  have cap: "want \<le> ?cap" by (rule double_until_ge) simp
  have mem: "length (c_rxBundle conn) = c_rxCap conn" "c_rxLen conn \<le> c_rxCap conn"
    "length (c_dlvBundle conn) = c_dlvCap conn" "int (c_rxLen conn) \<le> e_transferMru e"
    using assms by (auto simp: rx_safe_def rx_mem_def)
  obtain taken w where w: "io_mtake (e_io e) (c_world conn) ?cap = (taken, w)" by fastforce
  show "c_rxLen (snd (rxReserve e conn want)) = c_rxLen conn" by (simp add: rxReserve_def Let_def case_prod_beta)
  show "want \<le> c_rxCap (snd (rxReserve e conn want))" if "fst (rxReserve e conn want) = 0"
    using that cap w by (auto simp: rxReserve_def Let_def split: if_splits)
  show "rx_safe e (snd (rxReserve e conn want))"
    using assms mem cap w
    by (auto simp: rxReserve_def Let_def rx_safe_def rx_mem_def buf_bounds_def length_overwrite cong: option.case_cong)
qed

lemma kept_safe [simp]:
  "rx_safe e conn \<Longrightarrow> rx_safe e (snd (rxSendRefuse e conn reason ident))"
  "rx_safe e conn \<Longrightarrow> rx_safe e (snd (rxSendAck e conn flags ident len))"
  "rx_safe e conn \<Longrightarrow> rx_safe e (snd (tcpv4SendMsgReject io conn reason type))"
  "rx_safe e conn \<Longrightarrow> rx_safe e (snd (tcpv4SendSessTerm io conn reason reply))"
  "rx_safe e conn \<Longrightarrow> rx_safe e (delivery_round e conn)"
  "rx_safe e conn \<Longrightarrow> rx_safe e (await_delivery e conn)"
  by (erule rx_kept_safe[OF rx_sends_kept(1)] rx_kept_safe[OF rx_sends_kept(2)]
      rx_kept_safe[OF sends_kept(1)] rx_kept_safe[OF sends_kept(2)]
      rx_kept_safe[OF delivery_kept] rx_kept_safe[OF await_kept])+

lemma safe_started:
  "0 \<le> e_transferMru e \<Longrightarrow> rx_safe e conn \<Longrightarrow>
     rx_safe e (conn \<lparr> c_rxActive := a, c_rxId := i, c_rxLen := 0, c_rxRefused := r \<rparr>)"
  by (simp add: rx_safe_def rx_mem_def buf_bounds_def cong: option.case_cong)

lemma begin_safe:
  assumes mru: "0 \<le> e_transferMru e" and safe: "rx_safe e conn"
  shows "rx_safe e (snd (begin_transfer e conn seg))"
proof -
  let ?c = "conn \<lparr> c_rxActive := True, c_rxId := xs_transferId seg, c_rxLen := 0, c_rxRefused := False \<rparr>"
  have c: "rx_safe e ?c" by (rule safe_started[OF mru safe])
  have cr: "rx_safe e (?c \<lparr> c_rxRefused := True \<rparr>)" using c by (simp only: safe_upd)
  obtain rc whole where f: "tcpv4MsgFindXferLength (octets (xs_xferExt seg)) (unat (xs_xferExtLen seg)) = (rc, whole)"
    by fastforce
  show ?thesis
    unfolding begin_transfer_def Let_def f prod.case case_prod_beta
    using safe c cr reserve_safe(1)[OF c] by (simp del: safe_upd)
qed

lemma word_le_limit:
  assumes "(x :: u64) \<le> word_of_int limit" "0 \<le> limit" "limit < 2 ^ 31"
  shows "int (unat x) \<le> limit"
  using assms by (simp add: word_le_def uint_word_of_int take_bit_int_eq_self)

text \<open>The one place where octets are stored: they fit, and the limit of a transfer holds.\<close>

lemma payload_safe:
  assumes sane: "io_sane (e_io e)" and safe: "rx_safe e conn"
    and mru: "0 \<le> e_transferMru e" "e_transferMru e < 2 ^ 31" "0 \<le> e_segmentMru e" "e_segmentMru e < 2 ^ 31"
    and seg: "\<not> xs_dataLength seg > word_of_int (e_segmentMru e)"
  shows "\<exists>r c'. take_payload e conn seg = Some (r, c') \<and> rx_safe e c'"
proof -
  let ?over = "word_of_nat (c_rxLen conn) + xs_dataLength seg > (word_of_int (e_transferMru e) :: u64)"
  let ?dl = "unat (xs_dataLength seg)"
  have rs: "rx_safe e (snd (rxSendRefuse e (conn \<lparr> c_rxRefused := True \<rparr>) TMSG_REFUSE_NO_RESOURCES (xs_transferId seg)))"
    using safe by simp
  define c1 where "c1 = (if \<not> c_rxRefused conn \<and> ?over
      then snd (rxSendRefuse e (conn \<lparr> c_rxRefused := True \<rparr>) TMSG_REFUSE_NO_RESOURCES (xs_transferId seg)) else conn)"
  have c1: "rx_safe e c1" using rs safe by (simp add: c1_def)
  have tp: "take_payload e conn seg = (if c_rxRefused c1 then
      map_option (\<lambda>(n, conn). (n < 0, conn)) (drainOctets e c1 (replicate 4096 0) ?dl)
    else (let (n, conn) = rxReserve e c1 (c_rxLen c1 + ?dl)
          in if n < 0 then Some (True, snd (tcpv4SendSessTerm (e_io e) conn TMSG_TERM_RESOURCE_EXHAUSTION False))
             else if ?dl > 0 then
               recv_at (e_io e) conn (c_rxBundle conn) (c_rxLen conn) ?dl True (\<lambda>bundle conn.
                 Some (False, conn \<lparr> c_rxBundle := bundle, c_rxLen := c_rxLen conn + ?dl \<rparr>))
             else Some (False, conn)))"
    unfolding take_payload_def Let_def c1_def[symmetric] ..
  show ?thesis
  proof (cases "c_rxRefused c1")
    case True
    obtain r c' where "drainOctets e c1 (replicate 4096 0) ?dl = Some (r, c')" "rx_safe e c'"
      using drain_safe[OF sane c1 length_replicate] by blast
    then show ?thesis using tp True by simp
  next
    case False
    show ?thesis
    proof (cases "\<not> c_rxRefused conn \<and> ?over")
      case True
      then show ?thesis using False by (simp add: c1_def)
    next
      case fits: False
      then have cc: "c1 = conn" by (simp only: c1_def if_False)
      have nr: "\<not> c_rxRefused conn" using False cc by simp
      have len: "int (c_rxLen conn) \<le> e_transferMru e" using safe by (simp add: rx_safe_def)
      have dl: "int ?dl \<le> e_segmentMru e" by (rule word_le_limit) (use seg mru in simp_all)
      define k where "k = c_rxLen conn + ?dl"
      have "int k < 2 ^ 33" using len dl mru by (simp add: k_def)
      then have "unat (word_of_nat k :: u64) = k" by (simp add: unsigned_of_nat take_bit_nat_eq_self)
      moreover have "(word_of_nat k :: u64) \<le> word_of_int (e_transferMru e)"
        using fits nr by (simp add: k_def)
      ultimately have sum: "int k \<le> e_transferMru e"
        using word_le_limit[of "word_of_nat k" "e_transferMru e"] mru by simp
      obtain n c2 where r: "rxReserve e conn k = (n, c2)" by fastforce
      have c2: "rx_safe e c2" "c_rxLen c2 = c_rxLen conn" "n = 0 \<Longrightarrow> k \<le> c_rxCap c2"
        using reserve_safe[OF safe, of k] r by simp_all
      have n: "n = 0 \<or> n = -1" using r by (auto simp: rxReserve_def Let_def split: if_splits prod.splits)
      have st: "\<exists>r c'. recv_at (e_io e) c2 (c_rxBundle c2) (c_rxLen c2) ?dl True (\<lambda>bundle conn.
          Some (False, conn \<lparr> c_rxBundle := bundle, c_rxLen := c_rxLen conn + ?dl \<rparr>)) = Some (r, c') \<and> rx_safe e c'"
        if n0: "n = 0"
      proof (rule recv_at_safe[OF sane c2(1)])
        have p: "length (c_rxBundle c2) = c_rxCap c2" using c2(1) by (simp add: rx_safe_def rx_mem_def)
        then show room: "c_rxLen c2 + ?dl \<le> length (c_rxBundle c2)" using c2(2,3) n0 by (simp add: k_def)
        fix b :: bytes and c3 assume b: "length b = length (c_rxBundle c2)" and c3: "rx_safe e c3" "rx_part c3 = rx_part c2"
        have "c_rxLen c3 = c_rxLen conn" "c_rxCap c3 = c_rxCap c2" "c_rxLen c3 = c_rxLen c2"
          using c3(2) c2(2) by (auto simp: rx_part_def)
        then have "rx_safe e (c3 \<lparr> c_rxBundle := b, c_rxLen := c_rxLen c3 + ?dl \<rparr>)"
          using c3(1) b p room sum unfolding k_def
          by (auto simp: rx_safe_def rx_mem_def buf_bounds_def cong: option.case_cong)
        then show "\<exists>r c'. Some (False, c3 \<lparr> c_rxBundle := b, c_rxLen := c_rxLen c3 + ?dl \<rparr>) = Some (r, c') \<and> rx_safe e c'" by blast
      qed
      have t: "rx_safe e (snd (tcpv4SendSessTerm (e_io e) c2 TMSG_TERM_RESOURCE_EXHAUSTION False))" using c2(1) by simp
      have tp': "take_payload e conn seg = (if n < 0 then Some (True, snd (tcpv4SendSessTerm (e_io e) c2 TMSG_TERM_RESOURCE_EXHAUSTION False))
             else if ?dl > 0 then
               recv_at (e_io e) c2 (c_rxBundle c2) (c_rxLen c2) ?dl True (\<lambda>bundle conn.
                 Some (False, conn \<lparr> c_rxBundle := bundle, c_rxLen := c_rxLen conn + ?dl \<rparr>))
             else Some (False, c2))"
        unfolding tp using False r unfolding cc k_def[symmetric] by simp
      show ?thesis unfolding tp' using n st t c2(1) by (cases "n = 0") auto
    qed
  qed
qed

lemma finish_safe:
  assumes mru: "0 \<le> e_transferMru e" and safe: "rx_safe e conn"
  shows "rx_safe e (snd (finish_segment e conn seg))"
proof -
  let ?c = "await_delivery e (conn \<lparr> c_rxActive := False \<rparr>)"
  have "rx_safe e ?c" using safe by simp
  then have "rx_safe e (snd (handOverTransfer e (conn \<lparr> c_rxActive := False \<rparr>) seg))"
    using mru by (simp add: handOverTransfer_def Let_def rx_safe_def rx_mem_def buf_bounds_def cong: option.case_cong)
  then show ?thesis using safe by (simp add: finish_segment_def Let_def case_prod_beta)
qed

definition mru_ok :: "'w RxEngine \<Rightarrow> bool" where
  "mru_ok e \<longleftrightarrow> 0 \<le> e_transferMru e \<and> e_transferMru e < 2 ^ 31 \<and> 0 \<le> e_segmentMru e \<and> e_segmentMru e < 2 ^ 31"

lemma segment_safe:
  assumes sane: "io_sane (e_io e)" and mru: "mru_ok e" and safe: "rx_safe e conn"
  shows "\<exists>r c'. handleXferSegment e conn = Some (r, c') \<and> rx_safe e c'"
proof -
  obtain sg c1 where h: "recvXferSegmentHdr e conn (replicate (32 + TCPV4_MAX_EXT_LEN) 0) (32 + TCPV4_MAX_EXT_LEN) = Some (sg, c1)"
    and c1: "rx_safe e c1"
    using header_safe[OF sane safe length_replicate] by blast
  show ?thesis
  proof (cases sg)
    case None
    then show ?thesis using h c1 by (simp add: handleXferSegment_def)
  next
    case (Some seg)
    define entry where "entry = (if xs_flags seg AND TMSG_FLAG_START \<noteq> 0 then begin_transfer e c1 seg
                else if \<not> c_rxActive c1 \<or> xs_transferId seg \<noteq> c_rxId c1 then
                  (True, snd (tcpv4SendMsgReject (e_io e) c1 TMSG_REJECT_UNEXPECTED TMSG_XFER_SEGMENT))
                else (False, c1))"
    have m: "0 \<le> e_transferMru e" "e_transferMru e < 2 ^ 31" "0 \<le> e_segmentMru e" "e_segmentMru e < 2 ^ 31"
      using mru by (auto simp: mru_ok_def)
    have en: "rx_safe e (snd entry)" using begin_safe[OF m(1) c1] c1 by (simp add: entry_def)
    have hd: "handleXferSegment e conn = (if xs_dataLength seg > word_of_int (e_segmentMru e) then
          Some (-1, snd (tcpv4SendSessTerm (e_io e) c1 TMSG_TERM_RESOURCE_EXHAUSTION False))
        else (let (bad, conn) = entry in if bad then Some (-1, conn)
          else (case take_payload e conn seg of None \<Rightarrow> None
                | Some (bad, conn) \<Rightarrow> Some (if bad then (-1, conn) else finish_segment e conn seg))))"
      by (simp add: handleXferSegment_def h Some entry_def)
    show ?thesis
    proof (cases "xs_dataLength seg > word_of_int (e_segmentMru e)")
      case True
      then show ?thesis unfolding hd using c1 by simp
    next
      case False
      obtain bad c2 where e2: "entry = (bad, c2)" by fastforce
      have c2: "rx_safe e c2" using en e2 by simp
      obtain bad2 c3 where t: "take_payload e c2 seg = Some (bad2, c3)" "rx_safe e c3"
        using payload_safe[OF sane c2 m False] by blast
      have "rx_safe e (snd (finish_segment e c3 seg))" by (rule finish_safe[OF m(1) t(2)])
      then have f: "\<exists>r c'. Some (finish_segment e c3 seg) = Some (r, c') \<and> rx_safe e c'"
        by (cases "finish_segment e c3 seg") simp
      show ?thesis unfolding hd using False e2 t c2 f by simp
    qed
  qed
qed

lemma acks_safe:
  assumes sane: "io_sane (e_io e)" and safe: "rx_safe e conn"
  shows "handleXferAck e conn = Some (r, conn') \<Longrightarrow> rx_safe e conn'"
    "handleXferRefuse e conn = Some (r, conn') \<Longrightarrow> rx_safe e conn'"
    "rx_safe e (snd (handleSessTerm e conn))" "rx_safe e (snd (startTermination e conn reason))"
    "rx_safe e (snd (snd (tcpv4RecvMsgReject (e_io e) conn)))"
proof -
  obtain n d c1 where r: "tcpv4ConnRecv (e_io e) conn 17 = (n, d, c1)" by (metis prod_cases3)
  have "rx_safe e c1" using recv_safe'[OF sane safe, of 17] r by simp
  then show "handleXferAck e conn = Some (r, conn') \<Longrightarrow> rx_safe e conn'"
    using r by (auto simp: handleXferAck_def Let_def split: if_splits option.splits prod.splits)
next
  obtain n d c1 where r: "tcpv4ConnRecv (e_io e) conn 9 = (n, d, c1)" by (metis prod_cases3)
  have "rx_safe e c1" using recv_safe'[OF sane safe, of 9] r by simp
  then show "handleXferRefuse e conn = Some (r, conn') \<Longrightarrow> rx_safe e conn'"
    using r by (auto simp: handleXferRefuse_def Let_def split: if_splits option.splits prod.splits)
next
  obtain n d c1 where r: "tcpv4ConnRecv (e_io e) conn 2 = (n, d, c1)" by (metis prod_cases3)
  have c: "rx_safe e c1" using recv_safe'[OF sane safe, of 2] r by simp
  then show "rx_safe e (snd (handleSessTerm e conn))"
    using r by (auto simp: handleSessTerm_def Let_def split: if_splits option.splits prod.splits)
  show "rx_safe e (snd (snd (tcpv4RecvMsgReject (e_io e) conn)))"
    using r c by (auto simp: tcpv4RecvMsgReject_def split: if_splits option.splits prod.splits)
next
  show "rx_safe e (snd (startTermination e conn reason))"
    using safe by (simp add: startTermination_def Let_def)
qed

lemma message_step_safe:
  assumes sane: "io_sane (e_io e)" and mru: "mru_ok e" and safe: "rx_safe e conn"
    and st: "message_step e conn = Some (r, conn')"
  shows "rx_safe e conn'"
proof -
  obtain n d c0 where rd: "tcpv4ConnRecv (e_io e) conn 1 = (n, d, c0)" by (metis prod_cases3)
  have c0: "rx_safe e c0" using recv_safe'[OF sane safe, of 1] rd by simp
  define c1 where "c1 = (if d ! 0 \<noteq> TMSG_KEEPALIVE then c0 \<lparr> c_secSinceRx := 0 \<rparr> \<lparr> c_secSinceData := 0 \<rparr>
      else c0 \<lparr> c_secSinceRx := 0 \<rparr>)"
  have c1: "rx_safe e c1" using c0 by (simp add: c1_def)
  have seg: "handleXferSegment e c1 = Some (q, c') \<Longrightarrow> rx_safe e c'" for q c' using segment_safe[OF sane mru c1] by auto
  note hs = acks_safe(3,5)[OF sane c1]
  have ts: "rx_safe e (snd (startTermination e (snd (snd (tcpv4RecvMsgReject (e_io e) c1))) TMSG_TERM_UNKNOWN))"
    by (rule acks_safe(4)[OF sane hs(2)])
  show ?thesis
    using st unfolding message_step_def rd prod.case Let_def c1_def[symmetric]
    using hs ts c0 c1 seg acks_safe(1,2)[OF sane c1]
    by (auto simp: case_prod_beta split: if_splits)
qed

text \<open>A pass returns, unless a section on the transmit lists does not.\<close>

lemma c_tx_more: "IoConn.more conn' = IoConn.more conn \<Longrightarrow> c_tx conn' = c_tx (conn :: 'w RxConn)"
  by (cases conn; cases conn') simp

lemma recv_c_tx: "c_tx (snd (snd (tcpv4ConnRecv io (conn :: 'w RxConn) len))) = c_tx conn"
  by (rule c_tx_more[OF recv_more])

lemma message_step_returns:
  assumes sane: "io_sane (e_io e)" and mru: "mru_ok e" and safe: "rx_safe e conn"
    and tx: "\<And>ident len. ack_section (c_tx conn) ident len \<noteq> None" "\<And>ident reason. refuse_section (c_tx conn) ident reason \<noteq> None"
  shows "\<exists>r conn'. message_step e conn = Some (r, conn')"
proof -
  obtain n d c0 where rd: "tcpv4ConnRecv (e_io e) conn 1 = (n, d, c0)" by (metis prod_cases3)
  have c0: "rx_safe e c0" "c_tx c0 = c_tx conn"
    using recv_safe'[OF sane safe, of 1] rd recv_c_tx[of "e_io e" conn 1] by simp_all
  define c1 where "c1 = (if d ! 0 \<noteq> TMSG_KEEPALIVE then c0 \<lparr> c_secSinceRx := 0 \<rparr> \<lparr> c_secSinceData := 0 \<rparr>
      else c0 \<lparr> c_secSinceRx := 0 \<rparr>)"
  have c1: "rx_safe e c1" "c_tx c1 = c_tx conn" using c0 by (simp_all add: c1_def)
  obtain q where h: "handleXferSegment e c1 = Some q" using segment_safe[OF sane mru c1(1)] by blast
  have t: "ack_section (c_tx conn) ident len = None \<Longrightarrow> False" "refuse_section (c_tx conn) ident reason = None \<Longrightarrow> False"
    for ident len reason using tx by blast+
  have a: "handleXferAck e c1 \<noteq> None"
    using recv_c_tx[of "e_io e" c1 17] c1(2) by (auto simp: handleXferAck_def Let_def split: prod.splits option.splits dest: t(1))
  have r: "handleXferRefuse e c1 \<noteq> None"
    using recv_c_tx[of "e_io e" c1 9] c1(2)
    by (auto simp: handleXferRefuse_def Let_def split: prod.splits option.splits dest: t(2))
  have "message_step e conn \<noteq> None"
    unfolding message_step_def rd prod.case Let_def c1_def[symmetric] using h a r
    by (auto simp: case_prod_beta split: if_splits)
  then show ?thesis by (cases "message_step e conn") auto
qed

lemma message_steps_safe:
  "io_sane (e_io e) \<Longrightarrow> mru_ok e \<Longrightarrow> rx_safe e conn \<Longrightarrow> message_steps e n conn = Some conn' \<Longrightarrow> rx_safe e conn'"
proof (induction n arbitrary: conn)
  case (Suc n)
  then obtain c1 where "message_step e conn = Some (None, c1)" "message_steps e n c1 = Some conn'"
    by (auto split: option.splits prod.splits)
  then show ?case using Suc message_step_safe by blast
qed simp

section \<open>An example session\<close>

text \<open>A session over the pair of streams, established and idle, with the input \<open>i\<close>.\<close>

definition pipe_engine :: "(bytes \<times> bytes) RxEngine" where
  "pipe_engine = \<lparr>e_io = pipe_io 2, e_deliver = (\<lambda>w b. (0, w)), e_segmentMru = 10, e_transferMru = 100\<rparr>"

definition pipe_session :: "bytes \<Rightarrow> (bytes \<times> bytes) RxConn" where
  "pipe_session i = \<lparr>c_sock = 3, c_tls = False, c_failed = False,
     c_rxBuf = Some (replicate TCPV4_RXBUF_SIZE 0), c_rxBufLen = 0, c_rxBufOff = 0, c_secSinceTx = 0,
     c_world = (i, []), c_state = TCS_ESTABLISHED, c_termSent = False, c_rxBundle = [], c_rxCap = 0,
     c_rxLen = 0, c_rxId = 0, c_rxActive = False, c_rxRefused = False, c_dlvBundle = [], c_dlvCap = 0,
     c_dlvLen = 0, c_dlvId = 0, c_dlvFlags = 0, c_dlvPending = False, c_dlvStopped = False,
     c_dlvFailed = False, c_secSinceRx = 0, c_secSinceData = 0, c_tx = tx_init\<rparr>"

lemma pipe_net: "0 < p \<Longrightarrow> net_ok (pipe_io p) fst snd"
  unfolding net_ok_def by (intro conjI pipe_stream) (auto simp: pipe_io_def Let_def split: if_splits)

lemma pipe_sane: "0 < p \<Longrightarrow> io_sane (pipe_io p)"
  unfolding io_sane_def pipe_io_def by (auto simp: Let_def split: if_splits)

lemma pipe_session_ok:
  "buf_ok (pipe_session i)" "pending fst (pipe_session i) = i" "dlv_idle (pipe_session i)" "rx_mem (pipe_session i)"
  "\<not> c_rxActive (pipe_session i)" "c_state (pipe_session i) \<noteq> TCS_ENDING" "\<not> c_termSent (pipe_session i)"
  by (simp_all add: buf_ok_def pending_def pipe_session_def dlv_idle_def rx_mem_def TCS_ESTABLISHED_def TCS_ENDING_def)

lemma pipe_engine_io: "e_io pipe_engine = pipe_io 2" "net_ok (e_io pipe_engine) fst snd" "io_sane (e_io pipe_engine)"
  "mru_ok pipe_engine" "rx_safe pipe_engine (pipe_session i)"
  by (simp_all add: pipe_engine_def pipe_net pipe_sane mru_ok_def rx_safe_def buf_bounds_def pipe_session_def rx_mem_def)

lemma transfer_handed_over:
  assumes "net_ok (e_io e) inp out" "e_segmentMru e < 2 ^ 31" "e_transferMru e < 2 ^ 31"
    and "buf_ok conn" "dlv_idle conn" "rx_mem conn" "\<not> c_rxActive conn" "c_state conn \<noteq> TCS_ENDING"
    and "cs \<noteq> []" "\<forall>c \<in> set cs. int (length c) \<le> e_segmentMru e" "int (length (concat cs)) \<le> e_transferMru e"
    and ext: "ext = wire_ext_item (xfer_length_item (word_of_nat (length (concat cs))))"
    and "pending inp conn = wire_segments (xfer_segments ident (Some ext) cs) @ rest"
  shows "\<exists>conn' flags. message_steps e (length cs) conn = Some conn' \<and> handed_over conn' ident flags (concat cs) \<and>
    flags = xs_flags (fst (last (xfer_segments ident (Some ext) cs))) \<and>
    rx_went inp out conn rest (acks_of 0 (xfer_segments ident (Some ext) cs)) conn'"
proof -
  have le: "length ext = 13" by (simp add: ext wire_ext_item_def xfer_length_item_def)
  have fit: "\<not> word_of_nat (length (concat cs)) > (word_of_int (e_transferMru e) :: u64)"
    using word_of_nat_le_limit[OF assms(11,3)] by simp
  have "may_take e conn (fst (hd (xfer_segments ident (Some ext) cs))) []"
    using assms(6-9) fit length_ext_fine[OF ext] le flag_bits(1)[of True]
    by (cases cs) (simp_all add: may_take_def segmentHasCriticalExt_def unsigned_of_nat take_bit_nat_eq_self)
  from transfer_received[OF assms(1-3,9,10) _ _ assms(4,5) this assms(13)] assms(11) le
  show ?thesis by (simp add: TCPV4_MAX_EXT_LEN_def) blast
qed

lemma transfer_reassembled:
  assumes "net_ok (e_io e) inp out" "e_segmentMru e < 2 ^ 31" "e_transferMru e < 2 ^ 31"
    and "buf_ok conn" "dlv_idle conn" "rx_mem conn" "\<not> c_rxActive conn" "c_state conn \<noteq> TCS_ENDING"
    and "cs \<noteq> []" "\<forall>c \<in> set cs. int (length c) \<le> e_segmentMru e" "int (length (concat cs)) \<le> e_transferMru e"
    and ext: "ext = wire_ext_item (xfer_length_item (word_of_nat (length (concat cs))))"
    and "pending inp conn = wire_segments (xfer_segments ident (Some ext) cs) @ rest"
  shows "\<exists>conn'. message_steps e (length cs) conn = Some conn' \<and>
    c_dlvPending conn' \<and> c_dlvId conn' = ident \<and> take (c_dlvLen conn') (c_dlvBundle conn') = concat cs \<and>
    c_dlvLen conn' = length (concat cs) \<and> \<not> c_rxActive conn' \<and> pending inp conn' = rest \<and>
    out (c_world conn') = out (c_world conn) @ acks_of 0 (xfer_segments ident (Some ext) cs)"
  using transfer_handed_over[OF assms] by (fastforce simp: handed_over_def rx_went_def)

text \<open>The acknowledgments of all segments.\<close>

fun all_acks :: "nat \<Rightarrow> (Tcpv4XferSegment \<times> bytes) list \<Rightarrow> bytes" where
  "all_acks n [] = []"
| "all_acks n ((seg, data) # segs) =
     wire_ack (xs_flags seg) (xs_transferId seg) (n + length data) @ all_acks (n + length data) segs"

lemma all_acks_last:
  "cs \<noteq> [] \<Longrightarrow> all_acks n (xfer_segments ident ext cs) = acks_of n (xfer_segments ident ext cs) @
     wire_ack (xs_flags (fst (last (xfer_segments ident ext cs)))) ident (n + length (concat cs))"
proof (induction cs arbitrary: n ext)
  case (Cons c cs)
  show ?case
  proof (cases cs)
    case (Cons d ds)
    then have "cs \<noteq> []" "xfer_segments ident None cs \<noteq> []" by simp_all
    with Cons.IH[of "n + length c" None] Cons show ?thesis by (simp add: add.assoc)
  qed simp
qed simp

section \<open>Properties\<close>

text \<open>C15: a transfer arrives whole.  When an established, idle session reads the segments a sender
  cuts a transfer into (the first with its length, the last marked END, each within the segment
  MRU and all together within the transfer MRU), as many passes of the message loop as there are
  segments leave in the hand-off exactly the concatenation of their data, under the transfer's ID;
  nothing behind the transfer has been read, and every segment but the last has been
  acknowledged, in order, with the length so far.  The delivery of the whole to BP, when BP takes it, completes
  the acknowledgments: one for each segment.\<close>

theorem rx_transfer_reassembled:
  assumes "net_ok (e_io e) inp out" "e_segmentMru e < 2 ^ 31" "e_transferMru e < 2 ^ 31"
    and "buf_ok conn" "dlv_idle conn" "rx_mem conn" "\<not> c_rxActive conn" "c_state conn \<noteq> TCS_ENDING"
    and "cs \<noteq> []" "\<forall>c \<in> set cs. int (length c) \<le> e_segmentMru e" "int (length (concat cs)) \<le> e_transferMru e"
    and ext: "ext = wire_ext_item (xfer_length_item (word_of_nat (length (concat cs))))"
    and "pending inp conn = wire_segments (xfer_segments ident (Some ext) cs) @ rest"
  shows "\<exists>conn'. message_steps e (length cs) conn = Some conn' \<and>
    c_dlvPending conn' \<and> c_dlvId conn' = ident \<and> take (c_dlvLen conn') (c_dlvBundle conn') = concat cs \<and>
    c_dlvLen conn' = length (concat cs) \<and> \<not> c_rxActive conn' \<and> pending inp conn' = rest \<and>
    out (c_world conn') = out (c_world conn) @ acks_of 0 (xfer_segments ident (Some ext) cs) \<and>
    (\<forall>k w. e_deliver e (c_world conn') (concat cs) = (k, w) \<longrightarrow> 0 \<le> k \<longrightarrow>
       out w = out (c_world conn') \<longrightarrow> inp w = inp (c_world conn') \<longrightarrow>
       out (c_world (delivery_round e conn')) = out (c_world conn) @ all_acks 0 (xfer_segments ident (Some ext) cs) \<and>
       dlv_idle (delivery_round e conn') \<and> pending inp (delivery_round e conn') = rest)"
proof -
  obtain conn' flags where r: "message_steps e (length cs) conn = Some conn'" "handed_over conn' ident flags (concat cs)"
    "flags = xs_flags (fst (last (xfer_segments ident (Some ext) cs)))"
    "rx_went inp out conn rest (acks_of 0 (xfer_segments ident (Some ext) cs)) conn'"
    using transfer_handed_over[OF assms] by blast
  have w: "buf_ok conn'" "pending inp conn' = rest"
    "out (c_world conn') = out (c_world conn) @ acks_of 0 (xfer_segments ident (Some ext) cs)"
    using r(4) by (simp_all add: rx_went_def)
  have d: "out (c_world (delivery_round e conn')) = out (c_world conn) @ all_acks 0 (xfer_segments ident (Some ext) cs) \<and>
      dlv_idle (delivery_round e conn') \<and> pending inp (delivery_round e conn') = rest"
    if "e_deliver e (c_world conn') (concat cs) = (k, v)" "0 \<le> k" "out v = out (c_world conn')" "inp v = inp (c_world conn')" for k v
    using delivery_round_ok[OF assms(1) r(2) that w(1)] w(2,3) all_acks_last[OF assms(9), of 0 ident "Some ext"] r(3)
    by (simp add: rx_went_def)
  show ?thesis using r(1,2) w d by (intro exI[of _ conn']) (auto simp: handed_over_def)
qed

theorem rx_transfer_reassembled_witness:
  "\<exists>i conn'. message_steps pipe_engine 2 (pipe_session i) = Some conn' \<and>
     take (c_dlvLen conn') (c_dlvBundle conn') = [1, 2, 3]"
proof -
  let ?ext = "wire_ext_item (xfer_length_item (word_of_nat (length (concat [[1, 2], [3 :: u8]]))))"
  let ?i = "wire_segments (xfer_segments 5 (Some ?ext) [[1, 2], [3]])"
  have "\<exists>conn'. message_steps pipe_engine (length [[1, 2], [3 :: u8]]) (pipe_session ?i) = Some conn' \<and>
    c_dlvPending conn' \<and> c_dlvId conn' = 5 \<and> take (c_dlvLen conn') (c_dlvBundle conn') = concat [[1, 2], [3]] \<and>
    c_dlvLen conn' = length (concat [[1, 2], [3 :: u8]]) \<and> \<not> c_rxActive conn' \<and> pending fst conn' = [] \<and>
    snd (c_world conn') = snd (c_world (pipe_session ?i)) @ acks_of 0 (xfer_segments 5 (Some ?ext) [[1, 2], [3]]) \<and>
    (\<forall>k w. e_deliver pipe_engine (c_world conn') (concat [[1, 2], [3]]) = (k, w) \<longrightarrow> 0 \<le> k \<longrightarrow>
       snd w = snd (c_world conn') \<longrightarrow> fst w = fst (c_world conn') \<longrightarrow>
       snd (c_world (delivery_round pipe_engine conn')) =
         snd (c_world (pipe_session ?i)) @ all_acks 0 (xfer_segments 5 (Some ?ext) [[1, 2], [3]]) \<and>
       dlv_idle (delivery_round pipe_engine conn') \<and> pending fst (delivery_round pipe_engine conn') = [])"
    by (rule rx_transfer_reassembled[OF pipe_engine_io(2) _ _ pipe_session_ok(1,3-6) _ _ _ refl])
      (simp_all add: pipe_engine_def pipe_session_ok)
  then show ?thesis by (auto simp: numeral_2_eq_2)
qed

lemma rx_delivery_then_ack_parts:
  assumes "net_ok (e_io e) inp out" "handed_over conn ident flags whole" "buf_ok conn"
    and "e_deliver e (c_world conn) whole = (n, w)" "out w = out (c_world conn)" "inp w = inp (c_world conn)"
  shows "0 \<le> n \<Longrightarrow> out (c_world (delivery_round e conn)) = out (c_world conn) @ wire_xfer_ack
       \<lparr>xa_flags = flags, xa_transferId = ident, xa_ackLength = word_of_nat (length whole)\<rparr> \<and>
     dlv_idle (delivery_round e conn) \<and> c_failed (delivery_round e conn) = c_failed conn"
    "n < 0 \<Longrightarrow> c_failed (delivery_round e conn) \<and> c_dlvFailed (delivery_round e conn) \<and>
     c_world (delivery_round e conn) = (if c_sock conn = -1 then w else io_shutdown (e_io e) w (c_sock conn))"
  using delivery_round_ok[OF assms(1,2,4) _ assms(5,6,3)] delivery_round_fails[OF assms(2,4)]
  by (simp_all add: rx_went_def wire_ack_def)

text \<open>C17: the last segment of a transfer is acknowledged, with the whole length, only when BP has
  taken the bundle; when BP refuses it nothing is sent, and the session fails.\<close>

theorem rx_delivery_then_ack:
  assumes "net_ok (e_io e) inp out" "handed_over conn ident flags whole" "buf_ok conn"
    and "e_deliver e (c_world conn) whole = (n, w)" "out w = out (c_world conn)" "inp w = inp (c_world conn)"
  shows "(0 \<le> n \<longrightarrow>
      out (c_world (delivery_round e conn)) = out (c_world conn) @ wire_xfer_ack
       \<lparr>xa_flags = flags, xa_transferId = ident, xa_ackLength = word_of_nat (length whole)\<rparr> \<and>
     dlv_idle (delivery_round e conn) \<and> c_failed (delivery_round e conn) = c_failed conn) \<and>
    (n < 0 \<longrightarrow>
      c_failed (delivery_round e conn) \<and> c_dlvFailed (delivery_round e conn) \<and>
     c_world (delivery_round e conn) = (if c_sock conn = -1 then w else io_shutdown (e_io e) w (c_sock conn)))"
  using rx_delivery_then_ack_parts[OF assms] by blast

theorem rx_delivery_then_ack_witness:
  "\<exists>conn. handed_over conn 5 TMSG_FLAG_END [1, 2] \<and> dlv_idle (delivery_round pipe_engine conn)"
proof -
  let ?c = "pipe_session [] \<lparr> c_dlvPending := True, c_dlvBundle := [1, 2], c_dlvCap := 2, c_dlvLen := 2,
      c_dlvId := 5, c_dlvFlags := TMSG_FLAG_END \<rparr>"
  have h: "handed_over ?c 5 TMSG_FLAG_END [1, 2]" by (simp add: handed_over_def pipe_session_def rx_mem_def)
  have b: "buf_ok ?c" by (simp add: pipe_session_def buf_ok_def)
  have d: "e_deliver pipe_engine (c_world ?c) [1, 2] = (0, c_world ?c)" by (simp add: pipe_engine_def)
  have "dlv_idle (delivery_round pipe_engine ?c)"
    using rx_delivery_then_ack[OF pipe_engine_io(2) h b d] by simp
  then show ?thesis using h by blast
qed



text \<open>A session that receives the START of a transfer while another is in progress is ended with
  a MSG_REJECT.  A transfer stays in progress until its END segment, one that has been refused
  included.\<close>

theorem rx_start_in_transfer_ends_session:
  assumes "net_ok (e_io e) inp out" "buf_ok conn" "c_rxActive conn"
    "xs_flags seg AND TMSG_FLAG_START \<noteq> 0" "valid_xfer_segment seg" "unat (xs_xferExtLen seg) \<le> TCPV4_MAX_EXT_LEN"
    "\<not> xs_dataLength seg > word_of_int (e_segmentMru e)"
    "pending inp conn = wire_xfer_segment seg @ rest"
  shows "\<exists>conn'. message_step e conn = Some (Some (-1), conn') \<and> out (c_world conn') = out (c_world conn) @
      wire_msg_reject \<lparr>mr_reason = TMSG_REJECT_UNEXPECTED, mr_rejectedType = TMSG_XFER_SEGMENT\<rparr>"
  by (rule message_step_interleaved[OF assms])

theorem rx_start_in_transfer_ends_session_witness:
  "\<exists>i conn'. message_step pipe_engine (pipe_session i \<lparr> c_rxActive := True, c_rxRefused := True \<rparr>) =
     Some (Some (-1), conn')"
proof -
  let ?seg = "\<lparr>xs_flags = TMSG_FLAG_START, xs_transferId = 6, xs_xferExt = Some [], xs_xferExtLen = 0, xs_dataLength = 1\<rparr>"
  let ?c = "pipe_session (wire_xfer_segment ?seg) \<lparr> c_rxActive := True, c_rxRefused := True \<rparr>"
  have "pending fst ?c = wire_xfer_segment ?seg @ []" "buf_ok ?c"
    by (simp_all add: pending_def buf_ok_def pipe_session_def)
  from rx_start_in_transfer_ends_session[OF pipe_engine_io(2) this(2) _ _ _ _ _ this(1)]
  have "\<exists>conn'. message_step pipe_engine ?c = Some (Some (-1), conn')"
    by (simp add: TMSG_FLAG_START_def valid_xfer_segment_def pipe_engine_def) blast
  then show ?thesis by blast
qed

text \<open>Termination.  A SESS_TERM is answered, by the same reason with the REPLY flag, exactly when
  it is not itself a reply and this end has sent none yet; then the loop goes on, and otherwise the
  session closes cleanly.  Either way no new transfer can begin in either direction.\<close>

theorem rx_sess_term_answered_once:
  assumes "net_ok (e_io e) inp out" "buf_ok conn" "pending inp conn = wire_sess_term tm @ rest"
    and "answer \<longleftrightarrow> st_flags tm AND TMSG_TERM_FLAG_REPLY = 0 \<and> \<not> c_termSent conn"
  shows "\<exists>conn'. message_step e conn = Some (if answer then None else Some 0, conn') \<and>
    out (c_world conn') = out (c_world conn) @
      (if answer then wire_sess_term \<lparr>st_flags = TMSG_TERM_FLAG_REPLY, st_reason = st_reason tm\<rparr> else []) \<and>
    pending inp conn' = rest \<and> c_termSent conn' \<and> c_state conn' = TCS_ENDING \<and> txStopped (c_tx conn')"
  unfolding assms(4) by (rule message_step_sess_term[OF assms(1-3)])

theorem rx_sess_term_answered_once_witness:
  "\<exists>conn'. message_step pipe_engine (pipe_session (wire_sess_term \<lparr>st_flags = 0, st_reason = 3\<rparr>)) = Some (None, conn') \<and>
     c_state conn' = TCS_ENDING"
  using rx_sess_term_answered_once[OF pipe_engine_io(2) pipe_session_ok(1), of _ "\<lparr>st_flags = 0, st_reason = 3\<rparr>" "[]" True]
  by (auto simp: pipe_session_ok(2,7))

end
