(* ===== verification/Tcpv4Send.thy ===== *)
theory Tcpv4Send
  imports Tcpv4Rx
begin

unbundle bit_operations_syntax

text \<open>
  Writing one transfer (CLA/tcpv4/src/tcpv4tx.c, \<open>sendSegments\<close> and \<open>sendTransfer\<close>, which the
  transmit thread runs between the two locked sections of theory Tcpv4Tx): the bundle is read a
  bufferful at a time, cut into segments of at most the peer's Segment MRU, and up to 16 of them go
  out in one gathered write.

  \<open>c_world\<close> is what the socket is part of; the transmission callbacks \<open>tx.open\<close>, \<open>tx.read\<close> and
  \<open>tx.close\<close> have a state \<open>'r\<close> of their own.  \<open>refusedAt off\<close> says whether the receiver thread has
  marked the transfer as refused when the transmit thread looks, \<open>off\<close> octets being written.
  \<open>vast\<close> is a 64-bit \<open>int\<close> and so is kept as an \<open>int\<close>, with its cast to \<open>int\<close> written out.

  The lemmas show that what is written is the bundle, in order, as well-formed segments, and,
  together with theory Tcpv4Rx, that the receiving end reassembles it.
\<close>

section \<open>Model: cutting a bufferful into segments\<close>

definition TCPV4_TX_SEGS_PER_WRITE :: nat where "TCPV4_TX_SEGS_PER_WRITE = 16"
definition TCPV4_TXBUF_SIZE :: int where "TCPV4_TXBUF_SIZE = 64 * 1024"
definition TMSG_XFEREXT_LENGTH_LEN :: nat where "TMSG_XFEREXT_LENGTH_LEN = 5 + 8"

text \<open>The header of the segment that carries \<open>chunk\<close> octets from \<open>consumed\<close> on.\<close>

definition segment_header :: "u64 \<Rightarrow> int \<Rightarrow> int \<Rightarrow> nat \<Rightarrow> nat \<Rightarrow> (int \<times> bytes)" where
  "segment_header ident off whole consumed chunk =
     (let start = (off + int consumed = 0);
          (hdrLen, ext) = tcpv4MsgEncodeXferLengthExt (replicate TMSG_XFEREXT_LENGTH_LEN 0)
                            TMSG_XFEREXT_LENGTH_LEN (word_of_int whole)
      in if start \<and> hdrLen < 0 then (-1, [])
         else
           (let cap = 32 + TMSG_XFEREXT_LENGTH_LEN;
                seg = \<lparr>xs_flags = (if start then TMSG_FLAG_START else 0) OR
                         (if off + int consumed + int chunk = whole then TMSG_FLAG_END else 0),
                       xs_transferId = ident,
                       xs_xferExt = (if start then Some ext else None),
                       xs_xferExtLen = (if start then word_of_int hdrLen else 0),
                       xs_dataLength = word_of_nat chunk\<rparr>;
                (hdrLen, hdr) = tcpv4MsgEncodeXferSegmentHdr (replicate cap 0) cap seg
            in if hdrLen < 0 then (-1, []) else (hdrLen, take (nat hdrLen) hdr)))"

partial_function (option) segments_loop ::
    "'w Io \<Rightarrow> u64 \<Rightarrow> u64 \<Rightarrow> bytes \<Rightarrow> int \<Rightarrow> int \<Rightarrow> int \<Rightarrow> ('w, 'a) IoConn_scheme \<Rightarrow>
       nat \<Rightarrow> bytes list \<Rightarrow> nat \<Rightarrow> (int \<times> ('w, 'a) IoConn_scheme) option" where
  "segments_loop io segmentMtu ident data len off whole conn consumed iov segs =
     (if int consumed < len then
        (let chunk = nat (len - int consumed);
             chunk = (if (word_of_nat chunk :: u64) > segmentMtu then unat segmentMtu else chunk);
             (hdrLen, hdr) = segment_header ident off whole consumed chunk
         in if hdrLen < 0 then Some (-1, conn)
            else
              (let iov = iov @ [hdr, take chunk (drop consumed data)];
                   segs = segs + 1;
                   consumed = consumed + chunk
               in if segs = TCPV4_TX_SEGS_PER_WRITE \<or> int consumed = len then
                    (case tcpv4ConnSendIov io conn iov of
                       None \<Rightarrow> None
                     | Some (result, conn) \<Rightarrow>
                         if result < 0 then Some (-1, conn)
                         else segments_loop io segmentMtu ident data len off whole
                                (conn \<lparr> c_secSinceTx := 0 \<rparr>) consumed [] 0)
                  else segments_loop io segmentMtu ident data len off whole conn consumed iov segs))
      else Some (0, conn))"

declare segments_loop.simps [code]

definition sendSegments ::
    "'w Io \<Rightarrow> ('w, 'a) IoConn_scheme \<Rightarrow> u64 \<Rightarrow> u64 \<Rightarrow> bytes \<Rightarrow> int \<Rightarrow> int \<Rightarrow> int \<Rightarrow>
       (int \<times> ('w, 'a) IoConn_scheme) option" where
  "sendSegments io conn segmentMtu ident data len off whole =
     segments_loop io segmentMtu ident data len off whole conn 0 [] 0"

section \<open>Model: writing a transfer\<close>

record 'r Transmitter =
  tr_open :: "'r \<Rightarrow> object \<Rightarrow> int \<times> 'r"
  tr_read :: "'r \<Rightarrow> int \<Rightarrow> int \<times> bytes \<times> 'r"
  tr_close :: "'r \<Rightarrow> 'r"

text \<open>\<open>want\<close>, the octets to read next.\<close>

definition bufferful :: "int \<Rightarrow> int \<Rightarrow> int" where
  "bufferful whole off =
     (let want = int_cast (whole - off) in if want > TCPV4_TXBUF_SIZE then TCPV4_TXBUF_SIZE else want)"

partial_function (option) transfer_loop ::
    "'w Io \<Rightarrow> 'r Transmitter \<Rightarrow> u64 \<Rightarrow> u64 \<Rightarrow> int \<Rightarrow> (int \<Rightarrow> bool) \<Rightarrow> ('w, 'a) IoConn_scheme \<Rightarrow> 'r \<Rightarrow> int \<Rightarrow>
       (int \<times> ('w, 'a) IoConn_scheme \<times> 'r) option" where
  "transfer_loop io tr segmentMtu ident whole refusedAt conn r off =
     (if off < whole then
        (let want = bufferful whole off;
             (got, buffer, r) = tr_read tr r want
         in if got \<noteq> want then Some (-1, conn, r)
            else (case sendSegments io conn segmentMtu ident buffer got off whole of
                    None \<Rightarrow> None
                  | Some (n, conn) \<Rightarrow>
                      if n < 0 then Some (-1, conn, r)
                      else if refusedAt (off + got) then Some (0, conn, r)
                      else transfer_loop io tr segmentMtu ident whole refusedAt conn r (off + got)))
      else Some (0, conn, r))"

declare transfer_loop.simps [code]

definition sendTransfer ::
    "'w Io \<Rightarrow> 'r Transmitter \<Rightarrow> ('w, 'a) IoConn_scheme \<Rightarrow> u64 \<Rightarrow> Tcpv4Xfer \<Rightarrow> (int \<Rightarrow> bool) \<Rightarrow> 'r \<Rightarrow>
       (int \<times> ('w, 'a) IoConn_scheme \<times> 'r) option" where
  "sendTransfer io tr conn segmentMtu x refusedAt r =
     (let (n, r) = tr_open tr r (x_bundle x)
      in if n < 0 then Some (-1, conn, r)
         else
           map_option (\<lambda>(result, conn, r). (result, conn, tr_close tr r))
             (transfer_loop io tr segmentMtu (x_transferId x) (x_length x) refusedAt conn r 0))"

section \<open>The segments of a bufferful\<close>

text \<open>A list cut into pieces of \<open>m\<close>, and the segments of pieces that begin at an offset.\<close>

fun pieces :: "nat \<Rightarrow> 'a list \<Rightarrow> 'a list list" where
  "pieces m [] = []"
| "pieces m (x # xs) = (if m = 0 then [] else take m (x # xs) # pieces m (drop (m - 1) xs))"

lemma pieces_eq: "0 < m \<Longrightarrow> xs \<noteq> [] \<Longrightarrow> pieces m xs = take m xs # pieces m (drop m xs)"
  by (cases xs) (simp_all add: drop_Cons')

lemma concat_pieces: "0 < m \<Longrightarrow> concat (pieces m xs) = xs"
proof (induction m xs rule: pieces.induct)
  case (2 m x xs)
  then show ?case by (cases m) simp_all
qed simp

lemma pieces_bounds: "c \<in> set (pieces m xs) \<Longrightarrow> c \<noteq> [] \<and> length c \<le> m"
  by (induction m xs rule: pieces.induct) (auto split: if_splits)

lemma pieces_Nil_iff: "0 < m \<Longrightarrow> pieces m xs = [] \<longleftrightarrow> xs = []"
  by (cases xs) simp_all

fun segments_at :: "u64 \<Rightarrow> nat \<Rightarrow> nat \<Rightarrow> bytes list \<Rightarrow> (Tcpv4XferSegment \<times> bytes) list" where
  "segments_at ident whole off [] = []"
| "segments_at ident whole off (c # cs) =
     (\<lparr>xs_flags = (if off = 0 then TMSG_FLAG_START else 0) OR
         (if off + length c = whole then TMSG_FLAG_END else 0),
       xs_transferId = ident,
       xs_xferExt = (if off = 0 then Some (wire_ext_item (xfer_length_item (word_of_nat whole))) else None),
       xs_xferExtLen = (if off = 0 then 13 else 0),
       xs_dataLength = word_of_nat (length c)\<rparr>, c) # segments_at ident whole (off + length c) cs"

lemma segments_at_append:
  "segments_at ident whole off (as @ bs) =
     segments_at ident whole off as @ segments_at ident whole (off + length (concat as)) bs"
  by (induction as arbitrary: off) (simp_all add: add.assoc)

lemma wire_segments_append: "wire_segments (as @ bs) = wire_segments as @ wire_segments bs"
  by (simp add: wire_segments_def)

lemma length_length_ext: "length (wire_ext_item (xfer_length_item n)) = 13"
  by (simp add: wire_ext_item_def xfer_length_item_def)

text \<open>The segments of a whole transfer are the ones theory Tcpv4Rx receives.\<close>

lemma segments_at_rest:
  "0 < off \<Longrightarrow> [] \<notin> set cs \<Longrightarrow> whole = off + length (concat cs) \<Longrightarrow>
     segments_at ident whole off cs = xfer_segments ident None cs"
proof (induction cs arbitrary: off)
  case (Cons c cs)
  have "(off + length c = whole) = (cs = [])" using Cons.prems by (cases cs) auto
  then show ?case using Cons.IH[of "off + length c"] Cons.prems by simp
qed simp

lemma segments_at_whole:
  assumes "[] \<notin> set cs" "whole = length (concat cs)"
  shows "segments_at ident whole 0 cs =
    xfer_segments ident (Some (wire_ext_item (xfer_length_item (word_of_nat whole)))) cs"
proof (cases cs)
  case (Cons c cs')
  have "(length c = whole) = (cs' = [])" using assms Cons by (cases cs') auto
  moreover have "0 < length c" using assms Cons by auto
  ultimately show ?thesis using segments_at_rest[of "length c" cs' whole ident] assms Cons
    by (simp add: length_length_ext)
qed simp

section \<open>The header\<close>

lemma wire_xfer_segment_length_le:
  "valid_xfer_segment seg \<Longrightarrow> unat (xs_xferExtLen seg) \<le> 13 \<Longrightarrow> length (wire_xfer_segment seg) \<le> 45"
  by (simp add: wire_xfer_segment_def valid_xfer_segment_def split: if_splits)

lemma encoded_take:
  assumes "encoded (n, b) buf cap ws" "length ws \<le> cap" "cap \<le> length buf" "length ws < 2 ^ 31"
  shows "n = int (length ws)" "take (nat n) b = ws"
  using assms by (auto simp: encoded_def take_overwrite_0)

text \<open>The header of the code is the wire form of a segment; it always fits.\<close>

definition segment_of :: "u64 \<Rightarrow> int \<Rightarrow> int \<Rightarrow> nat \<Rightarrow> nat \<Rightarrow> Tcpv4XferSegment" where
  "segment_of ident off whole consumed chunk =
     \<lparr>xs_flags = (if off + int consumed = 0 then TMSG_FLAG_START else 0) OR
        (if off + int consumed + int chunk = whole then TMSG_FLAG_END else 0),
      xs_transferId = ident,
      xs_xferExt = (if off + int consumed = 0 then Some (wire_ext_item (xfer_length_item (word_of_int whole))) else None),
      xs_xferExtLen = (if off + int consumed = 0 then 13 else 0),
      xs_dataLength = word_of_nat chunk\<rparr>"

lemma segment_header_eq:
  "\<exists>n. segment_header ident off whole consumed chunk =
     (n, wire_xfer_segment (segment_of ident off whole consumed chunk)) \<and> 0 \<le> n"
proof -
  define seg where "seg = segment_of ident off whole consumed chunk"
  note seg = seg_def[unfolded segment_of_def]
  have v: "valid_xfer_segment seg"
    by (simp add: seg valid_xfer_segment_def flag_bits length_length_ext)
  obtain n ext where x: "tcpv4MsgEncodeXferLengthExt (replicate TMSG_XFEREXT_LENGTH_LEN 0)
      TMSG_XFEREXT_LENGTH_LEN (word_of_int whole) = (n, ext)" by fastforce
  have lx: "n = 13" "ext = wire_ext_item (xfer_length_item (word_of_int whole))"
  proof -
    have e: "encoded (n, ext) (replicate TMSG_XFEREXT_LENGTH_LEN 0) TMSG_XFEREXT_LENGTH_LEN
        (wire_ext_item (xfer_length_item (word_of_int whole)))"
      using encoded_xfer_length[of TMSG_XFEREXT_LENGTH_LEN "replicate TMSG_XFEREXT_LENGTH_LEN 0" "word_of_int whole"] x
      by simp
    note t = encoded_take[OF e]
    have "length ext = 13" using e by (simp add: encoded_def TMSG_XFEREXT_LENGTH_LEN_def)
    then show "n = 13" "ext = wire_ext_item (xfer_length_item (word_of_int whole))"
      using t by (simp_all add: length_length_ext TMSG_XFEREXT_LENGTH_LEN_def)
  qed
  obtain k hdr where h: "tcpv4MsgEncodeXferSegmentHdr (replicate (32 + TMSG_XFEREXT_LENGTH_LEN) 0)
      (32 + TMSG_XFEREXT_LENGTH_LEN) seg = (k, hdr)" by fastforce
  have "encoded (k, hdr) (replicate (32 + TMSG_XFEREXT_LENGTH_LEN) 0) (32 + TMSG_XFEREXT_LENGTH_LEN) (wire_xfer_segment seg)"
    using encoded_xfer_segment[OF v, of "32 + TMSG_XFEREXT_LENGTH_LEN" "replicate (32 + TMSG_XFEREXT_LENGTH_LEN) 0"] h
    by simp
  moreover have "length (wire_xfer_segment seg) \<le> 45"
    by (rule wire_xfer_segment_length_le[OF v]) (simp add: seg)
  ultimately have k: "k = int (length (wire_xfer_segment seg))" "take (nat k) hdr = wire_xfer_segment seg"
    using encoded_take[of k hdr] by (simp_all add: TMSG_XFEREXT_LENGTH_LEN_def)
  have r: "\<lparr>xs_flags = (if off + int consumed = 0 then TMSG_FLAG_START else 0) OR
         (if off + int consumed + int chunk = whole then TMSG_FLAG_END else 0),
       xs_transferId = ident, xs_xferExt = (if off + int consumed = 0 then Some ext else None),
       xs_xferExtLen = (if off + int consumed = 0 then word_of_int n else 0),
       xs_dataLength = word_of_nat chunk\<rparr> = seg"
    unfolding seg lx by simp
  show ?thesis
    unfolding segment_header_def x Let_def prod.case r h seg_def[symmetric] using k lx(1) by simp
qed

lemma segment_header_wire:
  assumes "0 \<le> off" "0 \<le> whole"
  shows "\<exists>n. segment_header ident off whole consumed (length c) =
      (n, wire_xfer_segment (fst (hd (segments_at ident (nat whole) (nat off + consumed) [c])))) \<and> 0 \<le> n"
proof -
  have start: "(off + int consumed = 0) = (nat off + consumed = 0)"
    "(off + int consumed + int (length c) = whole) = (nat off + consumed + length c = nat whole)"
    using assms by linarith+
  have "(word_of_int whole :: u64) = word_of_nat (nat whole)" using assms(2) by simp
  then have "segment_of ident off whole consumed (length c) =
      fst (hd (segments_at ident (nat whole) (nat off + consumed) [c]))"
    unfolding segment_of_def start by simp
  then show ?thesis using segment_header_eq[of ident off whole consumed "length c"] by simp
qed

section \<open>What is written\<close>

lemma wrote_then:
  "wrote a b x 0 \<Longrightarrow> wrote b c y r \<Longrightarrow> wrote a c (x @ y) r"
  "wrote a b x (-1) \<Longrightarrow> wrote a b (x @ y) (-1)"
proof -
  assume x: "wrote a b x 0" and y: "wrote b c y r"
  have b: "b = a @ x" using x by (simp add: wrote_def)
  show "wrote a c (x @ y) r"
  proof (cases "r = 0")
    case True
    then show ?thesis using y b by (simp add: wrote_def)
  next
    case False
    then obtain k where k: "r = -1" "k \<le> length y" "c = b @ take k y" using y by (auto simp: wrote_def)
    have "c = a @ take (length x + k) (x @ y)" using k b by simp
    then show ?thesis using k unfolding wrote_def by (intro disjI2 conjI exI[of _ "length x + k"]) simp_all
  qed
next
  assume "wrote a b x (-1)"
  then obtain k where "k \<le> length x" "b = a @ take k x" by (auto simp: wrote_def)
  then show "wrote a b (x @ y) (-1)" unfolding wrote_def by (intro disjI2 conjI exI[of _ k]) simp_all
qed

lemma wrote_cases: "wrote a b x r \<Longrightarrow> r = 0 \<or> r = -1"
  by (auto simp: wrote_def)

lemma chunk_size:
  assumes "k \<le> 65536"
  shows "(if (word_of_nat k :: u64) > m then unat m else k) = min (unat m) k"
proof -
  have "unat (word_of_nat k :: u64) = k" using assms by (simp add: unsigned_of_nat take_bit_nat_eq_self)
  then show ?thesis by (simp add: word_less_nat_alt min_def)
qed

lemma segments_loop_spec:
  assumes io: "gather_io io out stall" and m: "0 < unat m" and d: "length data \<le> 65536"
    and off: "0 \<le> off" "0 \<le> whole"
  shows "consumed \<le> length data \<Longrightarrow> (consumed = length data \<longrightarrow> iov = []) \<Longrightarrow>
    \<exists>r conn'. segments_loop io m ident data (int (length data)) off whole conn consumed iov segs = Some (r, conn') \<and>
      wrote (out (c_world conn)) (out (c_world conn')) (concat iov @ wire_segments
        (segments_at ident (nat whole) (nat off + consumed) (pieces (unat m) (drop consumed data)))) r"
proof (induction "length data - consumed" arbitrary: consumed iov segs conn rule: less_induct)
  case less
  show ?case
  proof (cases "consumed = length data")
    case True
    then show ?thesis using less.prems
      by (subst segments_loop.simps) (simp add: wrote_def wire_segments_def)
  next
    case False
    define k where "k = min (unat m) (length data - consumed)"
    define c where "c = take k (drop consumed data)"
    have k: "0 < k" "consumed + k \<le> length data" using False less.prems m by (auto simp: k_def)
    have dec: "length data - (consumed + k) < length data - consumed" using k by linarith
    have lc: "length c = k" using k by (simp add: c_def)
    have nd: "nat (int (length data) - int consumed) = length data - consumed" by simp
    have ch: "(if (word_of_nat (nat (int (length data) - int consumed)) :: u64) > m then unat m
        else nat (int (length data) - int consumed)) = k"
      unfolding nd k_def by (rule chunk_size) (use d in simp)
    have "pieces (unat m) (drop consumed data) =
        take (unat m) (drop consumed data) # pieces (unat m) (drop (unat m) (drop consumed data))"
      by (rule pieces_eq[OF m]) (use False less.prems in simp)
    also have "take (unat m) (drop consumed data) = c"
      by (simp add: c_def k_def min_def)
    also have "drop (unat m) (drop consumed data) = drop (consumed + k) data"
      using k(2) by (simp add: k_def min_def add.commute)
    finally have ps: "pieces (unat m) (drop consumed data) = c # pieces (unat m) (drop (consumed + k) data)" .
    let ?next = "segments_at ident (nat whole) (nat off + (consumed + k)) (pieces (unat m) (drop (consumed + k) data))"
    define seg where "seg = fst (hd (segments_at ident (nat whole) (nat off + consumed) [c]))"
    have sa: "segments_at ident (nat whole) (nat off + consumed) (pieces (unat m) (drop consumed data)) = (seg, c) # ?next"
      unfolding ps by (simp add: seg_def lc add.assoc)
    obtain n where h: "segment_header ident off whole consumed k = (n, wire_xfer_segment seg)" "0 \<le> n"
      using segment_header_wire[OF off, of ident consumed c] lc unfolding seg_def by blast
    define iov' where "iov' = iov @ [wire_xfer_segment seg, c]"
    have ci: "concat iov' = concat iov @ wire_xfer_segment seg @ c" by (simp add: iov'_def)
    have tc: "take k (drop consumed data) = c" by (simp add: c_def)
    have lt: "int consumed < int (length data)" using k by linarith
    have goal: "concat iov @ wire_segments ((seg, c) # ?next) = concat iov' @ wire_segments ?next"
      by (simp add: ci wire_segments_def)
    have unf: "segments_loop io m ident data (int (length data)) off whole conn consumed iov segs =
       (if segs + 1 = TCPV4_TX_SEGS_PER_WRITE \<or> consumed + k = length data then
          (case tcpv4ConnSendIov io conn iov' of
             None \<Rightarrow> None
           | Some (result, conn) \<Rightarrow>
               if result < 0 then Some (-1, conn)
               else segments_loop io m ident data (int (length data)) off whole
                      (conn \<lparr> c_secSinceTx := 0 \<rparr>) (consumed + k) [] 0)
        else segments_loop io m ident data (int (length data)) off whole conn (consumed + k) iov' (segs + 1))"
      unfolding segments_loop.simps[of io m ident data "int (length data)" off whole conn consumed]
      unfolding ch Let_def h(1) prod.case tc iov'_def[symmetric] using lt h(2) by simp
    show ?thesis
    proof (cases "segs + 1 = TCPV4_TX_SEGS_PER_WRITE \<or> consumed + k = length data")
      case True
      obtain r w' where s: "tcpv4ConnSendIov io conn iov' = Some (r, conn \<lparr> c_world := w' \<rparr>)"
        and w: "wrote (out (c_world conn)) (out w') (concat iov') r"
        using tcpv4ConnSendIov_spec[OF io] by blast
      show ?thesis
      proof (cases "r < 0")
        case True
        then have "r = -1" using wrote_cases[OF w] by auto
        then show ?thesis using s w wrote_then(2)[of _ _ "concat iov'"] True \<open>segs + 1 = _ \<or> _\<close>
          unfolding unf sa goal by auto
      next
        case False
        then have r: "r = 0" using wrote_cases[OF w] by auto
        let ?c = "conn \<lparr> c_world := w', c_secSinceTx := 0 \<rparr>"
        have c: "conn \<lparr> c_world := w' \<rparr> \<lparr> c_secSinceTx := 0 \<rparr> = ?c" by simp
        obtain r2 conn' where "segments_loop io m ident data (int (length data)) off whole ?c (consumed + k) [] 0 =
            Some (r2, conn')" "wrote (out w') (out (c_world conn')) (concat [] @ wire_segments ?next) r2"
          using less.hyps[OF dec k(2), of "[]" ?c 0] by auto
        then show ?thesis using s r wrote_then(1)[OF w[unfolded r]] \<open>segs + 1 = _ \<or> _\<close>
          unfolding unf sa goal by auto
      qed
    next
      case False
      have "\<exists>r conn'. segments_loop io m ident data (int (length data)) off whole conn (consumed + k) iov' (segs + 1) =
          Some (r, conn') \<and> wrote (out (c_world conn)) (out (c_world conn')) (concat iov' @ wire_segments ?next) r"
        by (rule less.hyps[OF dec k(2)]) (use False in simp)
      then show ?thesis using False unfolding unf sa goal by simp
    qed
  qed
qed

text \<open>
  The transmission callbacks: reading within the bundle yields its next octets; \<open>left\<close> is what is
  left of it.
\<close>

definition reader_law :: "'r Transmitter \<Rightarrow> ('r \<Rightarrow> bytes) \<Rightarrow> bool" where
  "reader_law tr left \<longleftrightarrow> (\<forall>r want. 0 \<le> want \<longrightarrow> want \<le> int (length (left r)) \<longrightarrow>
     (\<exists>r'. tr_read tr r want = (want, take (nat want) (left r), r') \<and> left r' = drop (nat want) (left r)))"

definition TXBUF :: nat where "TXBUF = 65536"

definition transfer_pieces :: "u64 \<Rightarrow> bytes \<Rightarrow> bytes list" where
  "transfer_pieces m data = concat (map (pieces (unat m)) (pieces TXBUF data))"

lemma transfer_pieces_step:
  "data \<noteq> [] \<Longrightarrow> transfer_pieces m data = pieces (unat m) (take TXBUF data) @ transfer_pieces m (drop TXBUF data)"
  using pieces_eq[of TXBUF data] by (simp add: transfer_pieces_def TXBUF_def)

lemma concat_transfer_pieces: "0 < unat m \<Longrightarrow> concat (transfer_pieces m data) = data"
proof -
  assume m: "0 < unat m"
  have "concat (concat (map (pieces (unat m)) xss)) = concat xss" for xss :: "bytes list"
    by (induction xss) (simp_all add: concat_pieces[OF m])
  then show ?thesis by (simp add: transfer_pieces_def concat_pieces TXBUF_def)
qed

lemma transfer_pieces_bounds: "c \<in> set (transfer_pieces m data) \<Longrightarrow> c \<noteq> [] \<and> length c \<le> unat m"
  using pieces_bounds by (fastforce simp: transfer_pieces_def)

lemma transfer_step:
  assumes io: "gather_io io out stall" and rd: "reader_law tr left" and m: "0 < unat m"
    and w: "int (length data) < 2 ^ 31" "off < length data" and l: "left r = drop off data"
  defines "b \<equiv> take TXBUF (drop off data)"
  shows "\<exists>n conn1 r1. transfer_loop io tr m ident (int (length data)) refusedAt conn r (int off) =
      (if n < 0 then Some (-1, conn1, r1)
       else if refusedAt (int (off + length b)) then Some (0, conn1, r1)
       else transfer_loop io tr m ident (int (length data)) refusedAt conn1 r1 (int (off + length b))) \<and>
    left r1 = drop (off + length b) data \<and>
    sendSegments io conn m ident b (int (length b)) (int off) (int (length data)) = Some (n, conn1) \<and>
    wrote (out (c_world conn)) (out (c_world conn1))
      (wire_segments (segments_at ident (length data) off (pieces (unat m) b))) n"
proof -
  have lb: "length b = min TXBUF (length data - off)" by (simp add: b_def)
  have want: "bufferful (int (length data)) (int off) = int (length b)"
    using w by (auto simp: bufferful_def Let_def int_cast_small TCPV4_TXBUF_SIZE_def TXBUF_def lb min_def)
  obtain r1 where rr: "tr_read tr r (int (length b)) = (int (length b), take (length b) (left r), r1)"
    "left r1 = drop (length b) (left r)"
  proof -
    have "length b \<le> length (left r)" by (simp add: lb l)
    then show thesis using rd[unfolded reader_law_def, rule_format, of "int (length b)" r] that by auto
  qed
  have tb: "take (length b) (left r) = b"
    unfolding l b_def by (metis append_take_drop_id append_eq_conv_conj)
  obtain n conn1 where s: "sendSegments io conn m ident b (int (length b)) (int off) (int (length data)) = Some (n, conn1)"
    and wr: "wrote (out (c_world conn)) (out (c_world conn1))
      (wire_segments (segments_at ident (length data) off (pieces (unat m) b))) n"
    using segments_loop_spec[OF io m, of b "int off" "int (length data)" 0 "[]" ident conn 0] lb
    by (auto simp: sendSegments_def TXBUF_def)
  have "left r1 = drop (off + length b) data" using rr l by (simp add: add.commute)
  moreover have "transfer_loop io tr m ident (int (length data)) refusedAt conn r (int off) =
      (if n < 0 then Some (-1, conn1, r1)
       else if refusedAt (int (off + length b)) then Some (0, conn1, r1)
       else transfer_loop io tr m ident (int (length data)) refusedAt conn1 r1 (int (off + length b)))"
    unfolding transfer_loop.simps[of io tr m ident "int (length data)" refusedAt conn r "int off"]
    unfolding want Let_def rr(1) prod.case tb s option.case using w(2) by simp
  ultimately show ?thesis using wr s by blast
qed

lemma transfer_loop_spec:
  assumes io: "gather_io io out stall" and rd: "reader_law tr left" and m: "0 < unat m"
    and w: "int (length data) < 2 ^ 31"
  shows "off \<le> length data \<Longrightarrow> left r = drop off data \<Longrightarrow>
    \<exists>n conn' r'. transfer_loop io tr m ident (int (length data)) (\<lambda>_. False) conn r (int off) = Some (n, conn', r') \<and>
      wrote (out (c_world conn)) (out (c_world conn'))
        (wire_segments (segments_at ident (length data) off (transfer_pieces m (drop off data)))) n"
proof (induction "length data - off" arbitrary: off r conn rule: less_induct)
  case less
  show ?case
  proof (cases "off = length data")
    case True
    then show ?thesis
      by (subst transfer_loop.simps) (simp add: transfer_pieces_def wire_segments_def wrote_def)
  next
    case False
    then have lt: "off < length data" using less.prems by simp
    define b where "b = take TXBUF (drop off data)"
    obtain n conn1 r1 where t: "transfer_loop io tr m ident (int (length data)) (\<lambda>_. False) conn r (int off) =
        (if n < 0 then Some (-1, conn1, r1)
         else transfer_loop io tr m ident (int (length data)) (\<lambda>_. False) conn1 r1 (int (off + length b)))"
      "left r1 = drop (off + length b) data"
      and wr: "wrote (out (c_world conn)) (out (c_world conn1))
        (wire_segments (segments_at ident (length data) off (pieces (unat m) b))) n"
      using transfer_step[OF io rd m w lt less.prems(2), of ident "\<lambda>_. False" conn, unfolded if_False]
      unfolding b_def by blast
    have lb: "0 < length b" "off + length b \<le> length data" using lt by (auto simp: b_def TXBUF_def)
    have "drop TXBUF (drop off data) = drop (off + length b) data"
      using lt by (simp add: b_def min_def add.commute)
    then have ps: "transfer_pieces m (drop off data) = pieces (unat m) b @ transfer_pieces m (drop (off + length b) data)"
      using transfer_pieces_step[of "drop off data" m] lt by (simp add: b_def)
    let ?next = "segments_at ident (length data) (off + length b) (transfer_pieces m (drop (off + length b) data))"
    have sa: "wire_segments (segments_at ident (length data) off (transfer_pieces m (drop off data))) =
        wire_segments (segments_at ident (length data) off (pieces (unat m) b)) @ wire_segments ?next"
      unfolding ps segments_at_append wire_segments_append using concat_pieces[OF m, of b] by simp
    show ?thesis
    proof (cases "n < 0")
      case True
      then have "n = -1" using wrote_cases[OF wr] by auto
      then show ?thesis using t(1) wrote_then(2)[OF wr[unfolded \<open>n = -1\<close>]] unfolding sa by simp
    next
      case False
      then have n: "n = 0" using wrote_cases[OF wr] by auto
      have dec: "length data - (off + length b) < length data - off" using lb by linarith
      obtain n2 conn2 r2 where "transfer_loop io tr m ident (int (length data)) (\<lambda>_. False) conn1 r1 (int (off + length b)) =
          Some (n2, conn2, r2)" "wrote (out (c_world conn1)) (out (c_world conn2)) (wire_segments ?next) n2"
        using less.hyps[OF dec lb(2) t(2), of conn1] by blast
      then show ?thesis using t(1) n wrote_then(1)[OF wr[unfolded n]] unfolding sa by auto
    qed
  qed
qed

lemma sendTransfer_spec:
  assumes "gather_io io out stall" "reader_law tr left" "0 < unat m"
    and "tr_open tr r (x_bundle x) = (n, r1)" "0 \<le> n" "left r1 = data"
    and "x_length x = int (length data)" "x_length x < 2 ^ 31"
  shows "\<exists>result conn' r'. sendTransfer io tr conn m x (\<lambda>_. False) r = Some (result, conn', r') \<and>
    wrote (out (c_world conn)) (out (c_world conn')) (wire_segments (xfer_segments (x_transferId x)
      (Some (wire_ext_item (xfer_length_item (word_of_nat (length data))))) (transfer_pieces m data))) result"
proof -
  have "int (length data) < 2 ^ 31" using assms(7,8) by simp
  note t = transfer_loop_spec[OF assms(1-3) this, of 0 r1 "x_transferId x" conn]
  have "[] \<notin> set (transfer_pieces m data)" using transfer_pieces_bounds by blast
  then have "segments_at (x_transferId x) (length data) 0 (transfer_pieces m data) =
      xfer_segments (x_transferId x) (Some (wire_ext_item (xfer_length_item (word_of_nat (length data))))) (transfer_pieces m data)"
    by (rule segments_at_whole) (simp add: concat_transfer_pieces assms(3))
  then show ?thesis using t assms(4-7) by (auto simp: sendTransfer_def)
qed

text \<open>A transfer that the peer has refused when the first bufferful is out.\<close>

lemma sendTransfer_refused:
  assumes "gather_io io out stall" "reader_law tr left" "0 < unat m"
    and "tr_open tr r (x_bundle x) = (n, r1)" "0 \<le> n" "left r1 = data"
    and "x_length x = int (length data)" "x_length x < 2 ^ 31" "TXBUF < length data" "refusedAt (int TXBUF)"
  shows "\<exists>result conn' r'. sendTransfer io tr conn m x refusedAt r = Some (result, conn', r') \<and>
    sendSegments io conn m (x_transferId x) (take TXBUF data) (int TXBUF) 0 (x_length x) = Some (result, conn') \<and>
    wrote (out (c_world conn)) (out (c_world conn')) (wire_segments (segments_at (x_transferId x) (length data) 0
      (pieces (unat m) (take TXBUF data)))) result"
proof -
  have w: "int (length data) < 2 ^ 31" "0 < length data" using assms(7-9) by linarith+
  have b: "take TXBUF (drop 0 data) = take TXBUF data" "int (0 + length (take TXBUF data)) = int TXBUF"
    "int (length (take TXBUF data)) = int TXBUF"
    using assms(9) by simp_all
  have "left r1 = drop 0 data" using assms(6) by simp
  from transfer_step[OF assms(1-3) w(1,2) this, of "x_transferId x" refusedAt conn]
  obtain k conn1 r2 where t: "transfer_loop io tr m (x_transferId x) (int (length data)) refusedAt conn r1 (int 0) =
      (if k < 0 then Some (-1, conn1, r2) else Some (0, conn1, r2))"
    and s: "sendSegments io conn m (x_transferId x) (take TXBUF data) (int TXBUF) (int 0) (int (length data)) = Some (k, conn1)"
    and wr: "wrote (out (c_world conn)) (out (c_world conn1)) (wire_segments (segments_at (x_transferId x) (length data) 0
      (pieces (unat m) (take TXBUF data)))) k"
    unfolding b if_P[OF assms(10)] by blast
  have "(if k < 0 then -1 else 0) = k" using wrote_cases[OF wr] by auto
  then show ?thesis using t wr s assms(4,5,7) by (auto simp: sendTransfer_def)
qed

lemma segments_at_no_end:
  "off + length (concat cs) < whole \<Longrightarrow> (seg, c) \<in> set (segments_at ident whole off cs) \<Longrightarrow>
     xs_flags seg AND TMSG_FLAG_END = 0"
proof (induction cs arbitrary: off)
  case (Cons d cs)
  have ne: "off + length d \<noteq> whole" using Cons.prems(1) by simp
  show ?case
  proof (cases "seg = fst (hd (segments_at ident whole off (d # cs)))")
    case True
    then show ?thesis using ne by (simp add: TMSG_FLAG_START_def TMSG_FLAG_END_def)
  next
    case False
    then have "(seg, c) \<in> set (segments_at ident whole (off + length d) cs)" using Cons.prems(2) by auto
    then show ?thesis using Cons.IH[of "off + length d"] Cons.prems(1) by simp
  qed
qed simp

section \<open>The receiving end of a transfer it has refused\<close>

definition refusing :: "'w RxConn \<Rightarrow> u64 \<Rightarrow> bool" where
  "refusing conn ident \<longleftrightarrow> c_rxActive conn \<and> c_rxId conn = ident \<and> c_rxRefused conn \<and> dlv_idle conn"

lemma drain_next:
  assumes net: "net_ok (e_io e) inp out"
  shows "buf_ok conn \<Longrightarrow> pending inp conn = bs @ rest \<Longrightarrow> length bs = len \<Longrightarrow>
    length scratch = 4096 \<Longrightarrow> \<exists>conn'. drainOctets e conn scratch len = Some (0, conn') \<and> was_read inp out conn rest conn'"
proof (induction len arbitrary: conn bs scratch rule: less_induct)
  case (less len)
  show ?case
  proof (cases "len = 0")
    case True
    then show ?thesis using less.prems by (auto simp: drainOctets.simps intro: consumed_refl)
  next
    case False
    define k where "k = min 4096 len"
    have k: "0 < k" "k \<le> len" "(if len > 4096 then 4096 else len) = k" using False by (auto simp: k_def)
    have p: "pending inp conn = take k bs @ drop k bs @ rest" "length (take k bs) = k"
      using less.prems k by (simp_all add: append_assoc[symmetric] del: append_assoc)
    let ?k = "\<lambda>scratch conn. drainOctets e conn scratch (len - k)"
    have room: "0 + k \<le> length scratch" using less.prems(4) by (simp add: k_def)
    obtain c1 where r: "recv_at (e_io e) conn scratch 0 k (-1) ?k = ?k (overwrite scratch 0 (take k bs)) c1"
      "was_read inp out conn (drop k bs @ rest) c1" "buf_ok c1" "pending inp c1 = drop k bs @ rest"
      using recv_at_wire[OF net less.prems(1) p room, of "-1" ?k] by blast
    have l: "length (drop k bs) = len - k" "length (overwrite scratch 0 (take k bs)) = 4096"
      using less.prems room p(2) by (simp_all add: overwrite_def)
    obtain c2 where d: "drainOctets e c1 (overwrite scratch 0 (take k bs)) (len - k) = Some (0, c2)" "was_read inp out c1 rest c2"
      using less.IH[OF _ r(3,4) l] k False by auto
    have "drainOctets e conn scratch len = drainOctets e c1 (overwrite scratch 0 (take k bs)) (len - k)"
      using False by (subst drainOctets.simps) (simp add: Let_def k(3) r(1) )
    then show ?thesis using d consumed_trans[OF r(2) d(2)] by auto
  qed
qed

lemma was_read_frame:
  assumes "was_read inp out conn rest conn'"
  shows "c_rxActive conn' = c_rxActive conn \<and> c_rxRefused conn' = c_rxRefused conn \<and> c_rxId conn' = c_rxId conn \<and>
    dlv_idle conn' = dlv_idle conn \<and> c_state conn' = c_state conn \<and> c_rxLen conn' = c_rxLen conn \<and>
    out (c_world conn') = out (c_world conn) \<and> pending inp conn' = rest \<and> buf_ok conn'"
  using assms by (auto simp: was_read_def only_read_def dlv_idle_def)

text \<open>A segment that comes while \<open>entry\<close>, the check of its START flag, leaves the transfer refused.\<close>

lemma refused_segment:
  assumes net: "net_ok (e_io e) inp out" and ok: "buf_ok conn" and v: "valid_xfer_segment seg"
    and ext: "unat (xs_xferExtLen seg) \<le> TCPV4_MAX_EXT_LEN"
    and len: "unat (xs_dataLength seg) = length data" "\<not> xs_dataLength seg > word_of_int (e_segmentMru e)"
    and fin: "xs_flags seg AND TMSG_FLAG_END = 0"
    and p: "pending inp conn = wire_xfer_segment seg @ data @ rest"
    and entry: "\<And>c. was_read inp out conn (data @ rest) (c \<lparr> c_secSinceRx := c_secSinceRx conn, c_secSinceData := c_secSinceData conn \<rparr>) \<Longrightarrow>
      \<exists>c'. (if xs_flags seg AND TMSG_FLAG_START \<noteq> 0 then begin_transfer e c seg
            else if \<not> c_rxActive c \<or> xs_transferId seg \<noteq> c_rxId c
            then (True, snd (tcpv4SendMsgReject (e_io e) c TMSG_REJECT_UNEXPECTED TMSG_XFER_SEGMENT))
            else (False, c)) = (False, c') \<and> refusing c' (xs_transferId seg) \<and>
           out (c_world c') = out (c_world c) @ new \<and> pending inp c' = pending inp c \<and> buf_ok c'"
  shows "\<exists>conn'. message_step e conn = Some (None, conn') \<and> refusing conn' (xs_transferId seg) \<and>
    out (c_world conn') = out (c_world conn) @ new \<and> pending inp conn' = rest \<and> buf_ok conn'"
proof -
  have w: "wire_xfer_segment seg = [TMSG_XFER_SEGMENT] @ tl (wire_xfer_segment seg)" by (simp add: wire_xfer_segment_def)
  obtain c1 where r: "tcpv4ConnRecv (e_io e) conn 1 = (1, [TMSG_XFER_SEGMENT], c1)"
    "was_read inp out conn (tl (wire_xfer_segment seg) @ data @ rest) c1"
    using recv_next[OF net ok, of "[TMSG_XFER_SEGMENT]" "tl (wire_xfer_segment seg) @ data @ rest" 1] p w by auto
  let ?c = "c1 \<lparr> c_secSinceRx := 0, c_secSinceData := 0 \<rparr>"
  have c: "pending inp ?c = tl (wire_xfer_segment seg) @ data @ rest" "buf_ok ?c"
    using r(2) by (auto simp: was_read_def pending_def buf_ok_def cong: option.case_cong)
  obtain c2 where h: "recvXferSegmentHdr e ?c (replicate (32 + TCPV4_MAX_EXT_LEN) 0) (32 + TCPV4_MAX_EXT_LEN) = Some (Some seg, c2)"
    "was_read inp out ?c (data @ rest) c2" using recvXferSegmentHdr_wire[OF net c(2) v ext c(1) length_replicate] by blast
  obtain b l f w where c1: "c1 = conn \<lparr> c_rxBuf := b, c_rxBufLen := l, c_rxBufOff := f, c_world := w \<rparr>"
    using r(2) by (auto simp: was_read_def only_read_def)
  obtain b' l' f' w' where c2: "c2 = ?c \<lparr> c_rxBuf := b', c_rxBufLen := l', c_rxBufOff := f', c_world := w' \<rparr>"
    using h(2) by (auto simp: was_read_def only_read_def)
  have o2: "out (c_world c2) = out (c_world conn)" using h(2) r(2) by (simp add: was_read_def)
  have "was_read inp out conn (data @ rest)
      (c2 \<lparr> c_secSinceRx := c_secSinceRx conn, c_secSinceData := c_secSinceData conn \<rparr>)"
    unfolding was_read_def only_read_def using h(2) o2 c1 c2
    by (auto simp: was_read_def pending_def buf_ok_def cong: option.case_cong)
  from entry[OF this] obtain c3 where en: "(if xs_flags seg AND TMSG_FLAG_START \<noteq> 0 then begin_transfer e c2 seg
            else if \<not> c_rxActive c2 \<or> xs_transferId seg \<noteq> c_rxId c2
            then (True, snd (tcpv4SendMsgReject (e_io e) c2 TMSG_REJECT_UNEXPECTED TMSG_XFER_SEGMENT))
            else (False, c2)) = (False, c3)" and ref: "refusing c3 (xs_transferId seg)"
    and o3: "out (c_world c3) = out (c_world c2) @ new" "pending inp c3 = pending inp c2" "buf_ok c3" by blast
  have p3: "pending inp c3 = data @ rest" using o3(2) h(2) by (simp add: was_read_def)
  obtain c4 where d: "drainOctets e c3 (replicate 4096 0) (length data) = Some (0, c4)" "was_read inp out c3 rest c4"
    using drain_next[OF net o3(3) p3 refl length_replicate] by blast
  note f4 = was_read_frame[OF d(2)]
  have "take_payload e c3 seg = Some (False, c4)"
    using ref d(1) by (simp add: take_payload_def refusing_def Let_def len(1))
  moreover have "finish_segment e c4 seg = (0, c4)"
    using fin f4 ref by (simp add: finish_segment_def refusing_def)
  ultimately have "handleXferSegment e ?c = Some (0, c4)"
    using en len(2) by (simp add: handleXferSegment_def h(1))
  then have "message_step e conn = Some (None, c4)"
    unfolding message_step_def r(1) prod.case Let_def by (simp add: tmsg_types)
  then show ?thesis using f4 ref o3(1) o2 by (simp add: refusing_def)
qed

text \<open>Why a START segment is refused by a session that is not ending: an extension that is critical and not known, or a
  length above the transfer MRU.\<close>

definition refusal_of :: "'w RxEngine \<Rightarrow> Tcpv4XferSegment \<Rightarrow> u8 \<Rightarrow> bool" where
  "refusal_of e seg reason \<longleftrightarrow>
     (if segmentHasCriticalExt seg then reason = TMSG_REFUSE_EXT_FAILURE
      else reason = TMSG_REFUSE_NO_RESOURCES \<and>
        (\<exists>whole. tcpv4MsgFindXferLength (octets (xs_xferExt seg)) (unat (xs_xferExtLen seg)) = (1, Some whole) \<and>
           whole > word_of_int (e_transferMru e)))"

lemma refuse_start:
  assumes net: "net_ok (e_io e) inp out" and ok: "buf_ok conn" and dlv: "dlv_idle conn"
    and idle: "\<not> c_rxActive conn" "c_state conn \<noteq> TCS_ENDING" and why: "refusal_of e seg reason"
  shows "\<exists>c'. begin_transfer e conn seg = (False, c') \<and> refusing c' (xs_transferId seg) \<and>
    out (c_world c') = out (c_world conn) @ wire_xfer_refuse \<lparr>xr_reason = reason, xr_transferId = xs_transferId seg\<rparr> \<and>
    pending inp c' = pending inp conn \<and> buf_ok c'"
proof -
  let ?m = "wire_xfer_refuse \<lparr>xr_reason = reason, xr_transferId = xs_transferId seg\<rparr>"
  let ?c = "conn \<lparr> c_rxActive := True, c_rxId := xs_transferId seg, c_rxLen := 0, c_rxRefused := True \<rparr>"
  obtain c2 where s: "tcpv4ConnSend (e_io e) ?c ?m = (0, c2)" "sent inp out ?c ?m c2"
    using send_next[OF net] by blast
  have nw: "\<not> c_dlvPending conn" "\<not> c_dlvStopped conn" "\<not> c_dlvFailed conn" using dlv by (auto simp: dlv_idle_def)
  have rs: "rxSendRefuse e ?c reason (xs_transferId seg) = (0, c2)"
    using nw s(1) by (simp add: rxSendRefuse_def rxAwaitDelivery_def await_delivery_def Let_def short_messages)
  have ref: "refusing c2 (xs_transferId seg)" "out (c_world c2) = out (c_world conn) @ ?m"
    using s(2) nw by (auto simp: sent_def refusing_def dlv_idle_def)
  then have "c_rxRefused c2" by (simp add: refusing_def)
  then have "begin_transfer e conn seg = (False, c2)"
    using idle why rs by (auto simp: begin_transfer_def Let_def refusal_of_def split: if_splits)
  moreover have "pending inp c2 = pending inp conn" "buf_ok c2"
    using sent_pending[OF s(2)] ok by (auto simp: pending_def buf_ok_def cong: option.case_cong)
  ultimately show ?thesis using ref by blast
qed

lemma small_data:
  assumes "int k \<le> limit" "limit < 2 ^ 31"
  shows "unat (word_of_nat k :: u64) = k" "\<not> (word_of_nat k :: u64) > word_of_int limit"
  using word_of_nat_le_limit[OF assms] assms by (simp_all add: unsigned_of_nat take_bit_nat_eq_self)

lemma refused_first:
  assumes net: "net_ok (e_io e) inp out" and ok: "buf_ok conn" and dlv: "dlv_idle conn"
    and idle: "\<not> c_rxActive conn" "c_state conn \<noteq> TCS_ENDING"
    and fl: "xs_flags seg AND TMSG_FLAG_START \<noteq> 0" "xs_flags seg AND TMSG_FLAG_END = 0" and why: "refusal_of e seg reason"
    and v: "valid_xfer_segment seg" "unat (xs_xferExtLen seg) \<le> TCPV4_MAX_EXT_LEN"
    and len: "unat (xs_dataLength seg) = length data" "\<not> xs_dataLength seg > word_of_int (e_segmentMru e)"
    and p: "pending inp conn = wire_xfer_segment seg @ data @ rest"
  shows "\<exists>conn'. message_step e conn = Some (None, conn') \<and> refusing conn' (xs_transferId seg) \<and>
    out (c_world conn') = out (c_world conn) @ wire_xfer_refuse \<lparr>xr_reason = reason, xr_transferId = xs_transferId seg\<rparr> \<and>
    pending inp conn' = rest \<and> buf_ok conn'"
proof (rule refused_segment[OF net ok v len fl(2) p])
  fix c
  assume "was_read inp out conn (data @ rest) (c \<lparr> c_secSinceRx := c_secSinceRx conn, c_secSinceData := c_secSinceData conn \<rparr>)"
  from was_read_frame[OF this] dlv idle
  have "buf_ok c" "dlv_idle c" "\<not> c_rxActive c" "c_state c \<noteq> TCS_ENDING"
    by (simp_all add: dlv_idle_def buf_ok_def cong: option.case_cong)
  from refuse_start[OF net this why]
  show "\<exists>c'. (if xs_flags seg AND TMSG_FLAG_START \<noteq> 0 then begin_transfer e c seg
          else if \<not> c_rxActive c \<or> xs_transferId seg \<noteq> c_rxId c
          then (True, snd (tcpv4SendMsgReject (e_io e) c TMSG_REJECT_UNEXPECTED TMSG_XFER_SEGMENT))
          else (False, c)) = (False, c') \<and> refusing c' (xs_transferId seg) \<and>
         out (c_world c') = out (c_world c) @ wire_xfer_refuse \<lparr>xr_reason = reason, xr_transferId = xs_transferId seg\<rparr> \<and>
         pending inp c' = pending inp c \<and> buf_ok c'"
    using fl(1) by simp
qed

text \<open>The segments that follow a refused one, none of which ends the transfer.\<close>

lemma refused_more:
  assumes net: "net_ok (e_io e) inp out"
  shows "refusing conn ident \<Longrightarrow> buf_ok conn \<Longrightarrow> pending inp conn = wire_segments segs @ rest \<Longrightarrow>
    \<forall>(s, d) \<in> set segs. xs_flags s = 0 \<and> xs_transferId s = ident \<and> valid_xfer_segment s \<and>
      unat (xs_xferExtLen s) = 0 \<and> unat (xs_dataLength s) = length d \<and> \<not> xs_dataLength s > word_of_int (e_segmentMru e) \<Longrightarrow>
    \<exists>conn'. message_steps e (length segs) conn = Some conn' \<and> refusing conn' ident \<and>
      out (c_world conn') = out (c_world conn) \<and> pending inp conn' = rest \<and> buf_ok conn'"
proof (induction segs arbitrary: conn)
  case (Cons x segs)
  obtain seg d where x: "x = (seg, d)" by fastforce
  have g: "xs_flags seg = 0" "xs_transferId seg = ident" "valid_xfer_segment seg" "unat (xs_xferExtLen seg) = 0"
    "unat (xs_dataLength seg) = length d" "\<not> xs_dataLength seg > word_of_int (e_segmentMru e)"
    using Cons.prems(4) x by auto
  have p: "pending inp conn = wire_xfer_segment seg @ d @ wire_segments segs @ rest"
    using Cons.prems(3) unfolding x by (simp add: wire_segments_def)
  have z: "unat (xs_xferExtLen seg) \<le> TCPV4_MAX_EXT_LEN" "xs_flags seg AND TMSG_FLAG_END = 0" using g by simp_all
  have "\<exists>conn'. message_step e conn = Some (None, conn') \<and> refusing conn' (xs_transferId seg) \<and>
    out (c_world conn') = out (c_world conn) @ [] \<and> pending inp conn' = wire_segments segs @ rest \<and> buf_ok conn'"
  proof (rule refused_segment[OF net Cons.prems(2) g(3) z(1) g(5,6) z(2) p])
    fix c
    assume "was_read inp out conn (d @ wire_segments segs @ rest)
      (c \<lparr> c_secSinceRx := c_secSinceRx conn, c_secSinceData := c_secSinceData conn \<rparr>)"
    from was_read_frame[OF this] Cons.prems(1) have "refusing c ident" "buf_ok c"
      by (auto simp: refusing_def dlv_idle_def buf_ok_def cong: option.case_cong)
    then show "\<exists>c'. (if xs_flags seg AND TMSG_FLAG_START \<noteq> 0 then begin_transfer e c seg
            else if \<not> c_rxActive c \<or> xs_transferId seg \<noteq> c_rxId c
            then (True, snd (tcpv4SendMsgReject (e_io e) c TMSG_REJECT_UNEXPECTED TMSG_XFER_SEGMENT))
            else (False, c)) = (False, c') \<and> refusing c' (xs_transferId seg) \<and>
           out (c_world c') = out (c_world c) @ [] \<and> pending inp c' = pending inp c \<and> buf_ok c'"
      using g(1,2) by (simp add: refusing_def)
  qed
  then obtain c1 where c1: "message_step e conn = Some (None, c1)" "refusing c1 ident"
    "out (c_world c1) = out (c_world conn)" "buf_ok c1" "pending inp c1 = wire_segments segs @ rest" using g(2) by auto
  have "\<exists>conn'. message_steps e (length segs) c1 = Some conn' \<and> refusing conn' ident \<and>
      out (c_world conn') = out (c_world c1) \<and> pending inp conn' = rest \<and> buf_ok conn'"
    by (rule Cons.IH[OF c1(2,4,5)]) (use Cons.prems(4) in simp)
  then show ?case using c1 by auto
qed (simp add: wire_segments_def)

section \<open>An instance: a bundle in memory\<close>

definition list_reader :: "bytes \<Rightarrow> bytes Transmitter" where
  "list_reader bundle = \<lparr>tr_open = (\<lambda>r b. (0, bundle)),
     tr_read = (\<lambda>r want. if 0 \<le> want \<and> want \<le> int (length r) then (want, take (nat want) r, drop (nat want) r)
                       else (-1, [], r)),
     tr_close = (\<lambda>r. r)\<rparr>"

definition example_xfer :: "int \<Rightarrow> Tcpv4Xfer" where
  "example_xfer len = \<lparr>x_next = None, x_bundle = 7, x_length = len, x_transferId = 4, x_inFlight = True,
     x_acked = False, x_refused = False, x_completed = False\<rparr>"

lemma list_reader_law: "reader_law (list_reader b) (\<lambda>r. r)"
  by (simp add: reader_law_def list_reader_def)

lemma pipe_writev:
  "io_writev (pipe_io p) w sock iov = (int (min p (length (concat iov))), EOTHER,
     (fst w, snd w @ take (min p (length (concat iov))) (concat iov)))"
  by (cases w) (simp add: pipe_io_def Let_def)

lemma pipe_writev_loop:
  assumes "writev_loop io w sock iov n = Some x"
  shows "io = pipe_io p \<longrightarrow> fst x = 0"
proof (rule writev_loop.raw_induct[where P = "\<lambda>io w sock iov n x. io = pipe_io p \<longrightarrow> fst x = 0", OF _ assms], goal_cases)
  case (1 loop io w sock iov n x)
  show ?case
  proof
    assume io: "io = pipe_io p"
    show "fst x = 0"
      using 1 unfolding io pipe_writev by (auto simp: Let_def split: if_splits option.splits)
  qed
qed

lemma pipe_writes_all:
  assumes "tcpv4ConnSendIov (pipe_io p) conn iov = Some (r, conn')"
  shows "r = 0"
proof (cases "c_tls conn \<and> iov \<noteq> []")
  case True
  have "fst (tls_send_iov (pipe_io p) w iov) = 0" for w iov
    by (induction iov arbitrary: w) (auto simp: pipe_io_def)
  then obtain w where "tls_send_iov (pipe_io p) (io_tlsCork (pipe_io p) (c_world conn)) iov = (0, w)"
    by (metis prod.collapse)
  moreover have "io_tlsUncork (pipe_io p) w = (0, w)" for w by (simp add: pipe_io_def)
  ultimately show ?thesis using True assms by (simp add: tcpv4ConnSendIov_def)
next
  case False
  then show ?thesis using assms pipe_writev_loop by (fastforce simp: tcpv4ConnSendIov_def split: if_splits)
qed

lemma pipe_segments:
  assumes "segments_loop io m ident data len off whole conn consumed iov segs = Some x"
  shows "io = pipe_io p \<longrightarrow> fst x = 0"
proof (rule segments_loop.raw_induct[where
      P = "\<lambda>io m ident data len off whole conn consumed iov segs x. io = pipe_io p \<longrightarrow> fst x = 0", OF _ assms], goal_cases)
  case (1 loop io m ident data len off whole conn consumed iov segs x)
  have h: "\<exists>hdr n. segment_header ident off whole consumed chunk = (n, hdr) \<and> 0 \<le> n" for chunk
    using segment_header_eq by blast
  show ?case
  proof
    assume io: "io = pipe_io p"
    define k where "k = (if (word_of_nat (nat (len - int consumed)) :: u64) > m then unat m else nat (len - int consumed))"
    obtain hdr n where hd: "segment_header ident off whole consumed k = (n, hdr)" "0 \<le> n" using h by blast
    have IH: "loop (pipe_io p) m i d l off w c cs iov k = Some y \<Longrightarrow> fst y = 0" for m i d l off w c cs iov k y
      using 1(1) by blast
    show "fst x = 0"
      using 1(2) hd(2) unfolding io Let_def k_def[symmetric] hd(1)
      by (auto split: if_splits option.splits dest!: pipe_writes_all dest: IH simp del: split_paired_All)
  qed
qed

lemma example_sent:
  "\<exists>c r'. sendTransfer (pipe_io 2) (list_reader [1, 2, 3]) (pipe_conn False []) 2 (example_xfer 3) (\<lambda>_. False) [] =
     Some (0, c, r')"
proof -
  let ?c = "pipe_conn False []"
  obtain n1 h1 where h1: "segment_header 4 0 3 0 2 = (n1, h1)" "0 \<le> n1"
    using segment_header_wire[of 0 3 4 0 "[1, 2]"] by (auto simp: numeral_2_eq_2)
  obtain n2 h2 where h2: "segment_header 4 0 3 2 1 = (n2, h2)" "0 \<le> n2"
    using segment_header_wire[of 0 3 4 2 "[3]"] by (auto simp: numeral_2_eq_2)
  have h2': "segment_header 4 0 3 (Suc (Suc 0)) (Suc 0) = (n2, h2)" using h2 by (simp add: numeral_2_eq_2)
  obtain r c where s: "tcpv4ConnSendIov (pipe_io 2) ?c [h1, [1, 2], h2, [3]] = Some (r, c)"
    using tcpv4ConnSendIov_spec[OF pipe_gather[of 2]] by fastforce
  have r: "r = 0" by (rule pipe_writes_all[OF s])
  have "sendSegments (pipe_io 2) ?c 2 4 [1, 2, 3] 3 0 3 = Some (0, c \<lparr> c_secSinceTx := 0 \<rparr>)"
    unfolding sendSegments_def using h1 h2 h2' s r
    by (simp add: segments_loop.simps TCPV4_TX_SEGS_PER_WRITE_def)
  then show ?thesis
    by (simp add: sendTransfer_def example_xfer_def list_reader_def transfer_loop.simps bufferful_def int_cast_small
        TCPV4_TXBUF_SIZE_def)
qed

section \<open>Properties\<close>

text \<open>What the transmit thread writes for a transfer is the bundle cut into segments no longer
  than the peer's Segment MRU, the first with START and the length of the whole, the last with END:
  the whole of it when it answers 0, and otherwise the first octets of it and -1.\<close>

theorem sendTransfer_writes_bundle:
  assumes "gather_io io out stall" "reader_law tr left" "0 < unat m"
    and "tr_open tr r (x_bundle x) = (n, r1)" "0 \<le> n" "left r1 = data"
    and "x_length x = int (length data)" "x_length x < 2 ^ 31"
  shows "\<exists>result conn' r' cs. sendTransfer io tr conn m x (\<lambda>_. False) r = Some (result, conn', r') \<and>
    concat cs = data \<and> (\<forall>c \<in> set cs. c \<noteq> [] \<and> length c \<le> unat m) \<and>
    wrote (out (c_world conn)) (out (c_world conn')) (wire_segments (xfer_segments (x_transferId x)
      (Some (wire_ext_item (xfer_length_item (word_of_nat (length data))))) cs)) result"
  using sendTransfer_spec[OF assms, of conn] concat_transfer_pieces[OF assms(3), of data]
    transfer_pieces_bounds[of _ m data] by blast

theorem sendTransfer_writes_bundle_witness:
  "\<exists>result conn' r' cs. sendTransfer (pipe_io 2) (list_reader [1, 2, 3]) (pipe_conn False []) 2 (example_xfer 3)
     (\<lambda>_. False) [] = Some (result, conn', r') \<and> concat cs = [1, 2, 3 :: u8] \<and> (\<forall>c \<in> set cs. length c \<le> 2)"
  using sendTransfer_writes_bundle[OF pipe_gather list_reader_law, of 2 2 "[1, 2, 3]" "[]" "example_xfer 3" 0 "[1, 2, 3]"
      "[1, 2, 3]" "pipe_conn False []"]
  by (simp add: list_reader_def example_xfer_def) blast

text \<open>C1: a bundle written by the transmit thread of one end and read by the receiver of the other,
  whatever follows it on the stream, is reassembled there octet for octet and handed over for
  delivery under the transfer ID it was sent with.\<close>

theorem transfer_end_to_end:
  assumes "gather_io sio sout stall" "reader_law tr left" "0 < unat m"
    and "tr_open tr r (x_bundle x) = (n, r1)" "0 \<le> n" "left r1 = data" "data \<noteq> []"
    and "x_length x = int (length data)" "x_length x < 2 ^ 31"
    and "sendTransfer sio tr sconn m x (\<lambda>_. False) r = Some (0, sconn', r')"
    and "sout (c_world sconn') = sout (c_world sconn) @ wire" "pending inp rconn = wire @ rest"
    and "net_ok (e_io e) inp out" "e_segmentMru e < 2 ^ 31" "e_transferMru e < 2 ^ 31"
    and "buf_ok rconn" "dlv_idle rconn" "rx_mem rconn" "\<not> c_rxActive rconn" "c_state rconn \<noteq> TCS_ENDING"
    and "int (unat m) \<le> e_segmentMru e" "x_length x \<le> e_transferMru e"
  shows "\<exists>k rconn'. message_steps e k rconn = Some rconn' \<and>
    c_dlvPending rconn' \<and> c_dlvId rconn' = x_transferId x \<and>
    take (c_dlvLen rconn') (c_dlvBundle rconn') = data \<and> c_dlvLen rconn' = length data \<and>
    \<not> c_rxActive rconn' \<and> pending inp rconn' = rest"
proof -
  let ?cs = "transfer_pieces m data"
  let ?ext = "wire_ext_item (xfer_length_item (word_of_nat (length data)))"
  have cc: "concat ?cs = data" by (rule concat_transfer_pieces[OF assms(3)])
  have "wire = wire_segments (xfer_segments (x_transferId x) (Some ?ext) ?cs)"
    using sendTransfer_spec[OF assms(1-6,8,9), of sconn] assms(10,11) by (auto simp: wrote_def)
  then have p: "pending inp rconn = wire_segments (xfer_segments (x_transferId x) (Some ?ext) ?cs) @ rest"
    using assms(12) by simp
  have ne: "?cs \<noteq> []" using cc assms(7) by auto
  have seg: "\<forall>c \<in> set ?cs. int (length c) \<le> e_segmentMru e"
    using transfer_pieces_bounds assms(21) by (metis of_nat_le_iff order_trans)
  have tot: "int (length (concat ?cs)) \<le> e_transferMru e" using assms(8,22) cc by simp
  have "?ext = wire_ext_item (xfer_length_item (word_of_nat (length (concat ?cs))))" by (simp add: cc)
  from transfer_reassembled[OF assms(13-20) ne seg tot this p] show ?thesis unfolding cc by blast
qed

theorem transfer_end_to_end_witness:
  "\<exists>i k rconn'. message_steps pipe_engine k (pipe_session i) = Some rconn' \<and>
     take (c_dlvLen rconn') (c_dlvBundle rconn') = [1, 2, 3]"
proof -
  obtain c r' where s: "sendTransfer (pipe_io 2) (list_reader [1, 2, 3]) (pipe_conn False []) 2 (example_xfer 3)
      (\<lambda>_. False) [] = Some (0, c, r')" using example_sent by blast
  define i where "i = snd (c_world c)"
  have open1: "tr_open (list_reader [1, 2, 3]) [] (x_bundle (example_xfer 3)) = (0, [1, 2, 3])"
    by (simp add: list_reader_def)
  have w: "snd (c_world c) = snd (c_world (pipe_conn False [])) @ i" by (simp add: i_def pipe_conn_def)
  have p: "pending fst (pipe_session i) = i @ []" by (simp add: pipe_session_ok)
  note t = transfer_end_to_end[OF pipe_gather list_reader_law _ open1 _ refl _ _ _ s w p pipe_engine_io(2)]
  have mru: "e_segmentMru pipe_engine = 10" "e_transferMru pipe_engine = 100" by (simp_all add: pipe_engine_def)
  have "\<exists>k rconn'. message_steps pipe_engine k (pipe_session i) = Some rconn' \<and>
    c_dlvPending rconn' \<and> c_dlvId rconn' = x_transferId (example_xfer 3) \<and>
    take (c_dlvLen rconn') (c_dlvBundle rconn') = [1, 2, 3] \<and> c_dlvLen rconn' = length [1, 2, 3 :: u8] \<and>
    \<not> c_rxActive rconn' \<and> pending fst rconn' = []"
    by (rule t[OF _ _ _ _ _ _ _ _ pipe_session_ok(1,3,4,5,6)]) (simp_all add: mru example_xfer_def)
  then show ?thesis by blast
qed

text \<open>C36: a session that is not ending refuses the START of a transfer for an unknown critical extension or for its
  length, and keeps the transfer open until a segment ends it.  A sender that stops there, after any number of further
  segments, as RFC 9174 5.2.4 has it do, finds the START of its next transfer rejected and the session ended.\<close>

theorem refused_transfer_ends_session:
  assumes "net_ok (e_io e) inp out" "e_segmentMru e < 2 ^ 31"
    and "buf_ok conn" "dlv_idle conn" "\<not> c_rxActive conn" "c_state conn \<noteq> TCS_ENDING"
    and "xs_flags seg AND TMSG_FLAG_START \<noteq> 0" "xs_flags seg AND TMSG_FLAG_END = 0" "refusal_of e seg reason"
    and "valid_xfer_segment seg" "unat (xs_xferExtLen seg) \<le> TCPV4_MAX_EXT_LEN"
    and "unat (xs_dataLength seg) = length data" "\<not> xs_dataLength seg > word_of_int (e_segmentMru e)"
    and "\<forall>(s, d) \<in> set more_segs. xs_flags s = 0 \<and> xs_transferId s = xs_transferId seg \<and> valid_xfer_segment s \<and>
      unat (xs_xferExtLen s) = 0 \<and> unat (xs_dataLength s) = length d \<and> \<not> xs_dataLength s > word_of_int (e_segmentMru e)"
    and "xs_flags next_seg AND TMSG_FLAG_START \<noteq> 0" "valid_xfer_segment next_seg"
    and "unat (xs_xferExtLen next_seg) \<le> TCPV4_MAX_EXT_LEN" "\<not> xs_dataLength next_seg > word_of_int (e_segmentMru e)"
    and "pending inp conn = wire_segments ((seg, data) # more_segs) @ wire_xfer_segment next_seg @ rest"
  shows "\<exists>c1 c2. message_steps e (Suc (length more_segs)) conn = Some c1 \<and> message_step e c1 = Some (Some (-1), c2) \<and>
    out (c_world c2) = out (c_world conn) @
      wire_xfer_refuse \<lparr>xr_reason = reason, xr_transferId = xs_transferId seg\<rparr> @
      wire_msg_reject \<lparr>mr_reason = TMSG_REJECT_UNEXPECTED, mr_rejectedType = TMSG_XFER_SEGMENT\<rparr>"
proof -
  let ?rest = "wire_segments more_segs @ wire_xfer_segment next_seg @ rest"
  have p: "pending inp conn = wire_xfer_segment seg @ data @ ?rest" using assms(19) by (simp add: wire_segments_def)
  from refused_first[OF assms(1,3-13) p] obtain c1 where c1: "message_step e conn = Some (None, c1)"
    "refusing c1 (xs_transferId seg)"
    "out (c_world c1) = out (c_world conn) @ wire_xfer_refuse \<lparr>xr_reason = reason, xr_transferId = xs_transferId seg\<rparr>"
    "pending inp c1 = ?rest" "buf_ok c1" by blast
  from refused_more[OF assms(1) c1(2,5,4) assms(14)] obtain c2 where c2:
    "message_steps e (length more_segs) c1 = Some c2" "refusing c2 (xs_transferId seg)" "out (c_world c2) = out (c_world c1)"
    "pending inp c2 = wire_xfer_segment next_seg @ rest" "buf_ok c2" by blast
  have "c_rxActive c2" using c2(2) by (simp add: refusing_def)
  from message_step_interleaved[OF assms(1) c2(5) this assms(15-18) c2(4)] c1(1,3) c2(1,3)
  show ?thesis by auto
qed

theorem refused_transfer_ends_session_witness:
  "\<exists>i c1 c2. message_steps pipe_engine 2 (pipe_session i) = Some c1 \<and> message_step pipe_engine c1 = Some (Some (-1), c2)"
proof -
  let ?ext = "wire_ext_item (xfer_length_item 101)"
  let ?seg = "\<lparr>xs_flags = TMSG_FLAG_START, xs_transferId = 5, xs_xferExt = Some ?ext, xs_xferExtLen = 13, xs_dataLength = 2\<rparr>"
  let ?mid = "\<lparr>xs_flags = 0, xs_transferId = 5, xs_xferExt = None, xs_xferExtLen = 0, xs_dataLength = 1\<rparr>"
  let ?next = "\<lparr>xs_flags = TMSG_FLAG_START, xs_transferId = 6, xs_xferExt = Some [], xs_xferExtLen = 0, xs_dataLength = 1\<rparr>"
  let ?i = "wire_segments ((?seg, [1, 2]) # [(?mid, [3])]) @ wire_xfer_segment ?next @ []"
  have l: "length ?ext = 13" by (rule length_length_ext)
  note fine = length_ext_fine[OF refl, of 101, unfolded l]
  have why: "refusal_of pipe_engine ?seg TMSG_REFUSE_NO_RESOURCES"
    using fine by (simp add: refusal_of_def segmentHasCriticalExt_def pipe_engine_def)
  have mru: "e_segmentMru pipe_engine = 10" by (simp add: pipe_engine_def)
  have "\<exists>c1 c2. message_steps pipe_engine (Suc (length [(?mid, [3 :: u8])])) (pipe_session ?i) = Some c1 \<and>
      message_step pipe_engine c1 = Some (Some (-1), c2) \<and> snd (c_world c2) = snd (c_world (pipe_session ?i)) @
      wire_xfer_refuse \<lparr>xr_reason = TMSG_REFUSE_NO_RESOURCES, xr_transferId = xs_transferId ?seg\<rparr> @
      wire_msg_reject \<lparr>mr_reason = TMSG_REJECT_UNEXPECTED, mr_rejectedType = TMSG_XFER_SEGMENT\<rparr>"
    by (rule refused_transfer_ends_session[OF pipe_engine_io(2) _ pipe_session_ok(1,3,5,6) _ _ why _ _ _ _ _ _ _ _ _ pipe_session_ok(2)])
      (simp_all add: mru l valid_xfer_segment_def TMSG_FLAG_START_def TMSG_FLAG_END_def TCPV4_MAX_EXT_LEN_def)
  then show ?thesis by (auto simp: numeral_2_eq_2)
qed

text \<open>A bundle of 2 GiB or more (below 4 GiB) cannot be sent: the octets left are narrowed to
  \<open>int\<close> before they are limited to the buffer, so a negative number of octets is read, nothing is
  written, and the session fails.\<close>

theorem sendTransfer_huge_bundle_fails:
  assumes "tr_open tr r (x_bundle x) = (n, r1)" "0 \<le> n" "2 ^ 31 \<le> x_length x" "x_length x < 2 ^ 32"
    and "tr_read tr r1 (x_length x - 2 ^ 32) = (got, data, r2)" "got \<noteq> x_length x - 2 ^ 32"
  shows "sendTransfer io tr conn m x refusedAt r = Some (-1, conn, tr_close tr r2) \<and> x_length x - 2 ^ 32 < 0"
proof -
  have "int_cast (x_length x) = x_length x - 2 ^ 32"
    using assms(3,4) mod_pos_geq[of "2 ^ 32" "x_length x + 2 ^ 31"]
    by (simp add: int_cast_def signed_take_bit_eq_take_bit_shift take_bit_eq_mod)
  then have "bufferful (x_length x) 0 = x_length x - 2 ^ 32"
    using assms(4) by (simp add: bufferful_def Let_def TCPV4_TXBUF_SIZE_def)
  then show ?thesis using assms by (simp add: sendTransfer_def transfer_loop.simps[of _ _ _ _ _ _ _ _ 0])
qed

theorem sendTransfer_huge_bundle_fails_witness:
  "map_option fst (sendTransfer (pipe_io 2) (list_reader [1]) (pipe_conn False []) 2 (example_xfer (2 ^ 31)) (\<lambda>_. False) []) =
     Some (-1)"
  using sendTransfer_huge_bundle_fails[of "list_reader [1]" "[]" "example_xfer (2 ^ 31)" 0 "[1]" "-1" "[]" "[1]"
      "pipe_io 2" "pipe_conn False []" 2 "\<lambda>_. False"]
  by (simp add: list_reader_def example_xfer_def)

end
