(* ===== verification/Tcpv4Negotiate.thy ===== *)
theory Tcpv4Negotiate
  imports Tcpv4Send
begin

unbundle bit_operations_syntax

text \<open>
  Session negotiation (CLA/tcpv4/src/tcpv4negotiate.c): the contact headers, the TLS handshake and
  the certificate profile, the SESS_INIT exchange, and with it which node a session may carry
  bundles to.

  \<open>Tcpv4Conn\<close> extends the fields of reception by those of negotiation.  The TLS backend is the
  \<open>ng_tls\<close> functions of \<open>NegEngine\<close>, which look at the world; a C string field is its octets
  without the terminating zero.  The \<open>busy\<close> mark is set by the accept thread; the last five fields, of
  which \<open>n_id\<close> is the address of the session, are those of the session list (Tcpv4Session).

  The lemmas show what an established session has been through, on which evidence its route node ID
  rests, and that two ends that negotiate with one another agree.
\<close>

section \<open>Model: configuration and session\<close>

definition TCPV4_TLS_REQUIRE :: int where "TCPV4_TLS_REQUIRE = 0"
definition TCPV4_TLS_PREFER :: int where "TCPV4_TLS_PREFER = 1"
definition TCPV4_TLS_DISABLE :: int where "TCPV4_TLS_DISABLE = 2"
definition TCPV4_EIDPOL_REQUIRE :: int where "TCPV4_EIDPOL_REQUIRE = 0"
definition TCPV4_EIDPOL_PREFER :: int where "TCPV4_EIDPOL_PREFER = 1"
definition TCPV4_EIDPOL_NONE :: int where "TCPV4_EIDPOL_NONE = 2"
definition TCPV4_EKUPOL_REQUIRE :: int where "TCPV4_EKUPOL_REQUIRE = 0"
definition TCPV4_EKU_NO_BUNDLE :: int where "TCPV4_EKU_NO_BUNDLE = 2"
definition TCPV4_EKU_WRONG :: int where "TCPV4_EKU_WRONG = -1"
definition TCPV4_KU_WRONG :: int where "TCPV4_KU_WRONG = -1"
definition TCPV4_NODEID_SUCCESS :: int where "TCPV4_NODEID_SUCCESS = 1"
definition TCPV4_NODEID_FAILURE :: int where "TCPV4_NODEID_FAILURE = -1"
definition TCPV4_MAX_NODEID_LEN :: nat where "TCPV4_MAX_NODEID_LEN = 256"

record Tcpv4ClaConfig =
  cfg_noVerify :: bool
  cfg_tlsPolicy :: int
  cfg_eidPolicy :: int
  cfg_ekuPolicy :: int
  cfg_keepalive :: int
  cfg_segmentMru :: int
  cfg_transferMru :: int

record 'w Tcpv4Conn = "'w RxConn" +
  n_activeRole :: bool
  n_peerNodeId :: bytes
  n_dialNodeId :: bytes
  n_routeNodeId :: bytes
  n_peerAuthenticated :: bool
  n_nodeIdAuthenticated :: bool
  n_busy :: bool
  n_keepalive :: int
  n_segmentMtu :: u64
  n_transferMtu :: u64
  n_id :: nat
  n_receiverDone :: bool
  n_peerAddr :: bytes
  n_txSenders :: int
  n_secNegotiating :: int

text \<open>The handshake is told the socket and whether we are the server.\<close>

record 'w NegEngine =
  ng_io :: "'w Io"
  ng_cfg :: Tcpv4ClaConfig
  ng_nodeId :: bytes
  ng_tlsHandshake :: "'w \<Rightarrow> int \<Rightarrow> bool \<Rightarrow> bool \<times> 'w"
  ng_tlsPeerAuthenticated :: "'w \<Rightarrow> bool"
  ng_tlsCheckKeyUsage :: "'w \<Rightarrow> int"
  ng_tlsCheckKeyPurpose :: "'w \<Rightarrow> int"
  ng_tlsMatchNodeId :: "'w \<Rightarrow> bytes \<Rightarrow> int"

section \<open>Model: sending our SESS_INIT\<close>

definition sendSessInit :: "'w NegEngine \<Rightarrow> 'w Tcpv4Conn \<Rightarrow> int \<times> 'w Tcpv4Conn" where
  "sendSessInit e conn =
     (let init = \<lparr>si_keepalive = word_of_int (cfg_keepalive (ng_cfg e)),
                  si_segmentMru = word_of_int (cfg_segmentMru (ng_cfg e)),
                  si_transferMru = word_of_int (cfg_transferMru (ng_cfg e)),
                  si_nodeId = Some (ng_nodeId e),
                  si_nodeIdLen = word_of_nat (length (ng_nodeId e)),
                  si_sessExt = None, si_sessExtLen = 0\<rparr>;
          cap = 64 + TCPV4_MAX_NODEID_LEN;
          (len, buf) = tcpv4MsgEncodeSessInit (replicate cap 0) cap init
      in if len < 0 then (-1, conn) else tcpv4ConnSend (ng_io e) conn (take (nat len) buf))"

section \<open>Model: contact headers\<close>

text \<open>The result, \<open>*enableTls\<close> (meaningful on 0) and the session.\<close>

definition exchangeContact :: "'w NegEngine \<Rightarrow> 'w Tcpv4Conn \<Rightarrow> int \<times> bool \<times> 'w Tcpv4Conn" where
  "exchangeContact e conn =
     (let canTls = (cfg_tlsPolicy (ng_cfg e) \<noteq> TCPV4_TLS_DISABLE);
          ours = \<lparr>tc_version = TMSG_VERSION, tc_flags = (if canTls then TMSG_CONTACT_CAN_TLS else 0)\<rparr>;
          (len, buf) = tcpv4MsgEncodeContact (replicate TMSG_CONTACT_LEN 0) TMSG_CONTACT_LEN ours
      in if len < 0 then (-1, False, conn)
         else
           (let (n, conn) = (if n_activeRole conn then tcpv4ConnSend (ng_io e) conn (take (nat len) buf) else (0, conn))
            in if n < 0 then (-1, False, conn)
               else
                 (let (n, d, conn) = tcpv4ConnRecv (ng_io e) conn TMSG_CONTACT_LEN
                  in if n \<noteq> int TMSG_CONTACT_LEN then (-1, False, conn)
                     else
                       (case tcpv4MsgDecodeContact d TMSG_CONTACT_LEN of
                          (k, None) \<Rightarrow> (-1, False, conn)
                        | (k, Some peer) \<Rightarrow>
                            if k \<le> 0 then (-1, False, conn)
                            else
                              (let (len, buf) = tcpv4MsgEncodeContact d TMSG_CONTACT_LEN ours;
                                   (n, conn) = (if \<not> n_activeRole conn
                                     then (if len < 0 then (-1, conn)
                                           else tcpv4ConnSend (ng_io e) conn (take (nat len) buf))
                                     else (0, conn))
                               in if n < 0 then (-1, False, conn)
                                  else if tc_version peer \<noteq> TMSG_VERSION then
                                    (-1, False, if n_activeRole conn then conn
                                       else snd (tcpv4SendSessTerm (ng_io e) conn TMSG_TERM_VERSION_MISMATCH False))
                                  else
                                    (let enableTls = (canTls \<and> tc_flags peer AND TMSG_CONTACT_CAN_TLS \<noteq> 0)
                                     in if \<not> enableTls \<and> cfg_tlsPolicy (ng_cfg e) = TCPV4_TLS_REQUIRE then
                                          (-1, False,
                                           snd (tcpv4SendSessTerm (ng_io e) conn TMSG_TERM_CONTACT_FAILURE False))
                                        else (0, enableTls, conn)))))))"

section \<open>Model: the peer's SESS_INIT\<close>

text \<open>\<open>istrcpy\<close> into a buffer of \<open>len\<close> octets.\<close>

definition istrcpy :: "bytes \<Rightarrow> nat \<Rightarrow> bytes" where
  "istrcpy s len = take (len - 1) s"

definition contact_failure :: "'w NegEngine \<Rightarrow> 'w Tcpv4Conn \<Rightarrow> int \<times> 'w Tcpv4Conn" where
  "contact_failure e conn = (-1, snd (tcpv4SendSessTerm (ng_io e) conn TMSG_TERM_CONTACT_FAILURE False))"

text \<open>\<open>claimed\<close>, and the check of it against the certificate: \<open>None\<close> is termination.\<close>

definition claimed_id :: "Tcpv4SessInit \<Rightarrow> bytes" where
  "claimed_id peer =
     (if si_nodeIdLen peer > 0 \<and> unat (si_nodeIdLen peer) < TCPV4_MAX_NODEID_LEN
      then cstr (take (unat (si_nodeIdLen peer)) (octets (si_nodeId peer))) else [])"

definition authenticate_id :: "'w NegEngine \<Rightarrow> 'w Tcpv4Conn \<Rightarrow> bytes \<Rightarrow> bool option" where
  "authenticate_id e conn claimed =
     (if c_tls conn \<and> \<not> cfg_noVerify (ng_cfg e) \<and> cfg_eidPolicy (ng_cfg e) \<noteq> TCPV4_EIDPOL_NONE \<and> claimed \<noteq> [] then
        (let r = ng_tlsMatchNodeId e (c_world conn) claimed
         in if r = TCPV4_NODEID_SUCCESS then Some True
            else if r = TCPV4_NODEID_FAILURE then None
            else if cfg_eidPolicy (ng_cfg e) = TCPV4_EIDPOL_REQUIRE then None
            else Some False)
      else Some False)"

definition route_id :: "'w NegEngine \<Rightarrow> 'w Tcpv4Conn \<Rightarrow> bytes \<Rightarrow> bool \<Rightarrow> bytes" where
  "route_id e conn claimed authenticated =
     (if authenticated then istrcpy claimed TCPV4_MAX_NODEID_LEN
      else if n_activeRole conn then
        (if tcpv4NodeIdIsSet (Some claimed) \<and> \<not> tcpv4NodeIdMatches (Some claimed) (Some (n_dialNodeId conn)) then []
         else istrcpy (n_dialNodeId conn) TCPV4_MAX_NODEID_LEN)
      else if cfg_eidPolicy (ng_cfg e) = TCPV4_EIDPOL_NONE \<and> tcpv4NodeIdIsSet (Some claimed)
        then istrcpy claimed TCPV4_MAX_NODEID_LEN
      else [])"

definition applySessInit :: "'w NegEngine \<Rightarrow> 'w Tcpv4Conn \<Rightarrow> Tcpv4SessInit \<Rightarrow> int \<times> 'w Tcpv4Conn" where
  "applySessInit e conn peer =
     (if si_segmentMru peer = 0 \<or> si_transferMru peer = 0 then contact_failure e conn
      else if critical_from (octets (si_sessExt peer)) (unat (si_sessExtLen peer)) 0 then contact_failure e conn
      else if si_nodeIdLen peer > 0 \<and> \<not> tcpv4NodeIdIsWellFormed (si_nodeId peer) (unat (si_nodeIdLen peer))
        then contact_failure e conn
      else
        (let claimed = claimed_id peer
         in (case authenticate_id e conn claimed of
               None \<Rightarrow> contact_failure e conn
             | Some authenticated \<Rightarrow>
                 (0, conn \<lparr> n_segmentMtu := si_segmentMru peer,
                       n_transferMtu := si_transferMru peer,
                       n_keepalive := (if uint (si_keepalive peer) < cfg_keepalive (ng_cfg e)
                                       then uint (si_keepalive peer) else cfg_keepalive (ng_cfg e)),
                       n_peerNodeId := istrcpy claimed TCPV4_MAX_NODEID_LEN,
                       n_nodeIdAuthenticated := authenticated,
                       n_routeNodeId := route_id e conn claimed authenticated \<rparr>))))"

text \<open>Reading a field and going on with it; a field of length 0 is not read.\<close>

definition with_field ::
    "'w Io \<Rightarrow> 'w Tcpv4Conn \<Rightarrow> nat \<Rightarrow> (bytes \<Rightarrow> 'w Tcpv4Conn \<Rightarrow> int \<times> 'w Tcpv4Conn) \<Rightarrow> int \<times> 'w Tcpv4Conn" where
  "with_field io conn len k =
     (if len = 0 then k [] conn
      else (let (n, d, conn) = tcpv4ConnRecv io conn len in if n = int len then k d conn else (-1, conn)))"

text \<open>The rest of \<open>recvSessInit\<close> once the type and the 20 octets after it are read.\<close>

definition recv_variable :: "'w NegEngine \<Rightarrow> bytes \<Rightarrow> 'w Tcpv4Conn \<Rightarrow> int \<times> 'w Tcpv4Conn" where
  "recv_variable e fixed conn =
     (let nodeIdLen = unat (join16 (fixed ! 19) (fixed ! 20))
      in if nodeIdLen \<ge> TCPV4_MAX_NODEID_LEN then (-1, conn)
         else
           (let (taken, w) = io_mtake (ng_io e) (c_world conn) (21 + nodeIdLen + 4 + TCPV4_MAX_EXT_LEN);
                conn = conn \<lparr> c_world := w \<rparr>
            in if \<not> taken then (-1, conn)
               else
                 with_field (ng_io e) conn nodeIdLen (\<lambda>node conn.
                 with_field (ng_io e) conn 4 (\<lambda>x conn.
                   (let extLen = unat (join32 (join16 (x ! 0) (x ! 1)) (join16 (x ! 2) (x ! 3)))
                    in if extLen > TCPV4_MAX_EXT_LEN then (-1, conn)
                       else
                         with_field (ng_io e) conn extLen (\<lambda>ext conn.
                           (let buf = fixed @ node @ x @ ext;
                                (k, peer) = tcpv4MsgDecodeSessInit buf (length buf)
                            in if k = int (length buf) \<and> peer \<noteq> None then applySessInit e conn (the peer)
                               else (-1, conn))))))))"

definition recvSessInit :: "'w NegEngine \<Rightarrow> 'w Tcpv4Conn \<Rightarrow> int \<times> 'w Tcpv4Conn" where
  "recvSessInit e conn =
     with_field (ng_io e) conn 1 (\<lambda>t conn.
       if t ! 0 = TMSG_SESS_TERM then (-1, conn)
       else if t ! 0 = TMSG_MSG_REJECT then (-1, snd (snd (tcpv4RecvMsgReject (ng_io e) conn)))
       else if t ! 0 \<noteq> TMSG_SESS_INIT then
         (-1, snd (tcpv4SendMsgReject (ng_io e) conn TMSG_REJECT_UNEXPECTED (t ! 0)))
       else with_field (ng_io e) conn 20 (\<lambda>d conn. recv_variable e (t @ d) conn))"

section \<open>Model: certificate profile and establishment\<close>

definition checkCertProfile :: "'w NegEngine \<Rightarrow> 'w Tcpv4Conn \<Rightarrow> int \<times> 'w Tcpv4Conn" where
  "checkCertProfile e conn =
     (if ng_tlsCheckKeyUsage e (c_world conn) = TCPV4_KU_WRONG then contact_failure e conn
      else
        (let eku = ng_tlsCheckKeyPurpose e (c_world conn)
         in if eku = TCPV4_EKU_WRONG then contact_failure e conn
            else if eku = TCPV4_EKU_NO_BUNDLE \<and> cfg_ekuPolicy (ng_cfg e) = TCPV4_EKUPOL_REQUIRE
              then contact_failure e conn
            else (0, conn)))"

text \<open>The TLS part of \<open>tcpv4Establish\<close>, when \<open>enableTls\<close> is set.\<close>

definition start_tls :: "'w NegEngine \<Rightarrow> 'w Tcpv4Conn \<Rightarrow> int \<times> 'w Tcpv4Conn" where
  "start_tls e conn =
     (let (ok, w) = ng_tlsHandshake e (c_world conn) (c_sock conn) (\<not> n_activeRole conn);
          conn = conn \<lparr> c_tls := ok, c_world := w \<rparr>
      in if \<not> ok then (-1, conn)
         else
           (let conn = conn \<lparr> n_peerAuthenticated := ng_tlsPeerAuthenticated e (c_world conn) \<rparr>
            in if \<not> cfg_noVerify (ng_cfg e) then checkCertProfile e conn else (0, conn)))"

definition tcpv4Establish :: "'w NegEngine \<Rightarrow> 'w Tcpv4Conn \<Rightarrow> int \<times> 'w Tcpv4Conn" where
  "tcpv4Establish e conn =
     (let (n, enableTls, conn) = exchangeContact e conn
      in if n < 0 then (-1, conn)
         else
           (let (n, conn) = (if enableTls then start_tls e conn else (0, conn))
            in if n < 0 then (-1, conn)
               else if n_busy conn then (-1, snd (tcpv4SendSessTerm (ng_io e) conn TMSG_TERM_BUSY False))
               else
                 (let (n, conn) = sendSessInit e conn
                  in if n < 0 then (-1, conn)
                     else
                       (let (n, conn) = recvSessInit e conn
                        in if n < 0 then (-1, conn)
                           else (0, conn \<lparr> c_state := TCS_ESTABLISHED, c_secSinceRx := 0, c_secSinceTx := 0,
                                      c_secSinceData := 0 \<rparr>)))))"

section \<open>What input and output leave alone\<close>

definition same_session :: "'w Tcpv4Conn \<Rightarrow> 'w Tcpv4Conn \<Rightarrow> bool" where
  "same_session conn conn' \<longleftrightarrow> c_tls conn' = c_tls conn \<and> IoConn.more conn' = IoConn.more conn"

lemma same_session_refl [simp]: "same_session conn conn"
  by (simp add: same_session_def)

lemma same_session_trans: "same_session a b \<Longrightarrow> same_session b c \<Longrightarrow> same_session a c"
  by (simp add: same_session_def)

lemma same_session_fields:
  assumes "same_session conn conn'"
  shows "n_activeRole conn' = n_activeRole conn" "n_dialNodeId conn' = n_dialNodeId conn" "n_busy conn' = n_busy conn"
    "c_tls conn' = c_tls conn" "n_peerAuthenticated conn' = n_peerAuthenticated conn" "c_state conn' = c_state conn"
  using assms by (cases conn; cases conn'; simp add: same_session_def)+

lemma recv_tls: "c_tls (snd (snd (tcpv4ConnRecv io conn len))) = c_tls conn"
proof -
  have e: "c_tls (snd (snd (connRecvExactly io conn len))) = c_tls conn" for len and conn :: "('a, 'b) IoConn_scheme"
    by (simp add: connRecvExactly_def split: prod.split)
  have s: "c_tls (snd (snd (connRecvSome io conn len))) = c_tls conn" for len and conn :: "('a, 'b) IoConn_scheme"
    by (simp add: connRecvSome_def split: prod.split)
  have r: "c_tls (snd (snd (refill_loop io conn len acc got))) = c_tls conn" for conn :: "('a, 'b) IoConn_scheme" and len acc got
  proof (induction io conn len acc got rule: refill_loop.induct)
    case (1 io conn len acc got)
    obtain m b c where x: "connRecvSome io conn TCPV4_RXBUF_SIZE = (m, b, c)" by (metis prod_cases3)
    have "c_tls c = c_tls conn"
      using arg_cong[OF x, of "\<lambda>p. c_tls (snd (snd p))"] by (simp add: connRecvSome_def split: prod.splits if_splits)
    then show ?case using 1[OF _ refl x[symmetric] refl] x by (subst refill_loop.simps) (simp add: Let_def x)
  qed
  show ?thesis
  proof (cases "c_rxBuf conn")
    case None
    then show ?thesis by (simp add: tcpv4ConnRecv_def e)
  next
    case (Some buf)
    show ?thesis unfolding tcpv4ConnRecv_def Some option.case Let_def by (simp add: r case_prod_beta e)
  qed
qed

lemma recv_same: "tcpv4ConnRecv io conn len = (n, d, conn') \<Longrightarrow> same_session conn conn'"
  using recv_more[of io conn len] recv_tls[of io conn len] by (simp add: same_session_def)

lemma send_same: "tcpv4ConnSend io conn b = (n, conn') \<Longrightarrow> same_session conn conn'"
  by (auto simp: same_session_def tcpv4ConnSend_def connSendLocked_def Let_def split: prod.splits if_splits)

lemma world_same [simp]: "same_session conn (conn \<lparr> c_world := w \<rparr>)"
  by (simp add: same_session_def)

section \<open>What an established session has been through\<close>

lemma applySessInit_accepts:
  assumes "applySessInit e conn peer = (n, conn')" "0 \<le> n"
  shows "n = 0 \<and> (\<exists>authenticated. authenticate_id e conn (claimed_id peer) = Some authenticated \<and>
    si_segmentMru peer \<noteq> 0 \<and> si_transferMru peer \<noteq> 0 \<and>
    conn' = conn \<lparr> n_segmentMtu := si_segmentMru peer, n_transferMtu := si_transferMru peer,
      n_keepalive := (if uint (si_keepalive peer) < cfg_keepalive (ng_cfg e)
                      then uint (si_keepalive peer) else cfg_keepalive (ng_cfg e)),
      n_peerNodeId := istrcpy (claimed_id peer) TCPV4_MAX_NODEID_LEN,
      n_nodeIdAuthenticated := authenticated,
      n_routeNodeId := route_id e conn (claimed_id peer) authenticated \<rparr>)"
  using assms
  by (auto simp: applySessInit_def contact_failure_def Let_def split: if_splits option.splits)

lemma with_fieldE:
  assumes "with_field io conn len k = (r, conn')" "0 \<le> r"
  obtains d c where "k d c = (r, conn')" "same_session conn c"
proof (cases "len = 0")
  case True
  then show thesis using assms that[of "[]" conn] by (simp add: with_field_def)
next
  case False
  obtain n d c where r: "tcpv4ConnRecv io conn len = (n, d, c)" by (metis prod_cases3)
  then show thesis using assms False that[of d c] recv_same[OF r] by (simp add: with_field_def split: if_splits)
qed

lemma recvSessInit_applies:
  assumes "recvSessInit e conn = (r, conn')" "0 \<le> r"
  shows "\<exists>c peer. applySessInit e c peer = (r, conn') \<and> same_session conn c"
proof -
  obtain t c1 where 1: "(if t ! 0 = TMSG_SESS_TERM then (-1, c1)
       else if t ! 0 = TMSG_MSG_REJECT then (-1, snd (snd (tcpv4RecvMsgReject (ng_io e) c1)))
       else if t ! 0 \<noteq> TMSG_SESS_INIT then
         (-1, snd (tcpv4SendMsgReject (ng_io e) c1 TMSG_REJECT_UNEXPECTED (t ! 0)))
       else with_field (ng_io e) c1 20 (\<lambda>d conn. recv_variable e (t @ d) conn)) = (r, conn')" "same_session conn c1"
    using assms(1) unfolding recvSessInit_def by (rule with_fieldE[OF _ assms(2)])
  then have "with_field (ng_io e) c1 20 (\<lambda>d conn. recv_variable e (t @ d) conn) = (r, conn')"
    using assms(2) by (simp split: if_splits)
  then obtain d c2 where 2: "recv_variable e (t @ d) c2 = (r, conn')" "same_session c1 c2" by (rule with_fieldE[OF _ assms(2)])
  define fixed where "fixed = t @ d"
  obtain taken w where m: "io_mtake (ng_io e) (c_world c2)
      (21 + unat (join16 (fixed ! 19) (fixed ! 20)) + 4 + TCPV4_MAX_EXT_LEN) = (taken, w)" by fastforce
  let ?c = "c2 \<lparr> c_world := w \<rparr>"
  have "with_field (ng_io e) ?c (unat (join16 (fixed ! 19) (fixed ! 20))) (\<lambda>node conn.
                 with_field (ng_io e) conn 4 (\<lambda>x conn.
                   (let extLen = unat (join32 (join16 (x ! 0) (x ! 1)) (join16 (x ! 2) (x ! 3)))
                    in if extLen > TCPV4_MAX_EXT_LEN then (-1, conn)
                       else
                         with_field (ng_io e) conn extLen (\<lambda>ext conn.
                           (let buf = fixed @ node @ x @ ext;
                                (k, peer) = tcpv4MsgDecodeSessInit buf (length buf)
                            in if k = int (length buf) \<and> peer \<noteq> None then applySessInit e conn (the peer)
                               else (-1, conn)))))) = (r, conn')"
    using 2(1)[folded fixed_def] m assms(2) by (simp add: recv_variable_def Let_def split: if_splits)
  then obtain node c3 where 3: "with_field (ng_io e) c3 4 (\<lambda>x conn.
                   (let extLen = unat (join32 (join16 (x ! 0) (x ! 1)) (join16 (x ! 2) (x ! 3)))
                    in if extLen > TCPV4_MAX_EXT_LEN then (-1, conn)
                       else
                         with_field (ng_io e) conn extLen (\<lambda>ext conn.
                           (let buf = fixed @ node @ x @ ext;
                                (k, peer) = tcpv4MsgDecodeSessInit buf (length buf)
                            in if k = int (length buf) \<and> peer \<noteq> None then applySessInit e conn (the peer)
                               else (-1, conn))))) = (r, conn')" "same_session ?c c3" by (rule with_fieldE[OF _ assms(2)])
  from 3(1) obtain x c4 where 4: "(let extLen = unat (join32 (join16 (x ! 0) (x ! 1)) (join16 (x ! 2) (x ! 3)))
                    in if extLen > TCPV4_MAX_EXT_LEN then (-1, c4)
                       else
                         with_field (ng_io e) c4 extLen (\<lambda>ext conn.
                           (let buf = fixed @ node @ x @ ext;
                                (k, peer) = tcpv4MsgDecodeSessInit buf (length buf)
                            in if k = int (length buf) \<and> peer \<noteq> None then applySessInit e conn (the peer)
                               else (-1, conn)))) = (r, conn')" "same_session c3 c4" by (rule with_fieldE[OF _ assms(2)])
  define extLen where "extLen = unat (join32 (join16 (x ! 0) (x ! 1)) (join16 (x ! 2) (x ! 3)))"
  have "with_field (ng_io e) c4 extLen (\<lambda>ext conn.
                           (let buf = fixed @ node @ x @ ext;
                                (k, peer) = tcpv4MsgDecodeSessInit buf (length buf)
                            in if k = int (length buf) \<and> peer \<noteq> None then applySessInit e conn (the peer)
                               else (-1, conn))) = (r, conn')"
    using 4(1) using assms(2) unfolding Let_def extLen_def by (simp split: if_splits)
  then obtain ext c5 where 5: "(let buf = fixed @ node @ x @ ext;
                                (k, peer) = tcpv4MsgDecodeSessInit buf (length buf)
                            in if k = int (length buf) \<and> peer \<noteq> None then applySessInit e c5 (the peer)
                               else (-1, c5)) = (r, conn')" "same_session c4 c5" by (rule with_fieldE[OF _ assms(2)])
  obtain k peer where "tcpv4MsgDecodeSessInit (fixed @ node @ x @ ext) (length (fixed @ node @ x @ ext)) = (k, peer)"
    by fastforce
  then have "applySessInit e c5 (the peer) = (r, conn')"
    using 5(1) assms(2) by (simp add: Let_def split: if_splits)
  moreover have "same_session conn c5"
    using 1(2) 2(2) 3(2) 4(2) 5(2) by (simp add: same_session_def)
  ultimately show ?thesis by blast
qed

lemma exchangeContact_result:
  assumes "exchangeContact e conn = (n, enableTls, conn')" "0 \<le> n"
  shows "same_session conn conn' \<and> (enableTls \<longrightarrow> cfg_tlsPolicy (ng_cfg e) \<noteq> TCPV4_TLS_DISABLE) \<and>
    (cfg_tlsPolicy (ng_cfg e) = TCPV4_TLS_REQUIRE \<longrightarrow> enableTls)"
proof -
  define ours where "ours = \<lparr>tc_version = TMSG_VERSION,
    tc_flags = (if cfg_tlsPolicy (ng_cfg e) \<noteq> TCPV4_TLS_DISABLE then TMSG_CONTACT_CAN_TLS else 0)\<rparr>"
  obtain len buf where b: "tcpv4MsgEncodeContact (replicate TMSG_CONTACT_LEN 0) TMSG_CONTACT_LEN ours = (len, buf)"
    by fastforce
  obtain n1 c1 where s1: "(if n_activeRole conn then tcpv4ConnSend (ng_io e) conn (take (nat len) buf) else (0, conn)) = (n1, c1)"
    by fastforce
  obtain n2 d c2 where r: "tcpv4ConnRecv (ng_io e) c1 TMSG_CONTACT_LEN = (n2, d, c2)" by (metis prod_cases3)
  obtain k peer where dec: "tcpv4MsgDecodeContact d TMSG_CONTACT_LEN = (k, peer)" by fastforce
  obtain len' buf' where b': "tcpv4MsgEncodeContact d TMSG_CONTACT_LEN ours = (len', buf')" by fastforce
  obtain n3 c3 where s3: "(if \<not> n_activeRole c2 then (if len' < 0 then (-1, c2)
      else tcpv4ConnSend (ng_io e) c2 (take (nat len') buf')) else (0, c2)) = (n3, c3)" by fastforce
  have "same_session conn c1" "same_session c1 c2" "same_session c2 c3"
    using s1 s3 r by (auto split: if_splits dest: send_same recv_same)
  then have same: "same_session conn c3" by (simp add: same_session_def)
  show ?thesis
    using assms same unfolding exchangeContact_def Let_def ours_def[symmetric] b prod.case s1 r dec b' s3
    by (auto split: if_splits option.splits)
qed

lemma checkCertProfile_accepts:
  assumes "checkCertProfile e conn = (n, conn')" "0 \<le> n"
  shows "conn' = conn \<and> ng_tlsCheckKeyUsage e (c_world conn) \<noteq> TCPV4_KU_WRONG \<and>
    ng_tlsCheckKeyPurpose e (c_world conn) \<noteq> TCPV4_EKU_WRONG \<and>
    (cfg_ekuPolicy (ng_cfg e) = TCPV4_EKUPOL_REQUIRE \<longrightarrow> ng_tlsCheckKeyPurpose e (c_world conn) \<noteq> TCPV4_EKU_NO_BUNDLE)"
  using assms by (auto simp: checkCertProfile_def contact_failure_def Let_def split: if_splits)

text \<open>The certificate was looked at and allows its use for TCPCL.\<close>

definition profile_ok :: "'w NegEngine \<Rightarrow> 'w \<Rightarrow> bool" where
  "profile_ok e w \<longleftrightarrow> ng_tlsCheckKeyUsage e w \<noteq> TCPV4_KU_WRONG \<and> ng_tlsCheckKeyPurpose e w \<noteq> TCPV4_EKU_WRONG \<and>
     (cfg_ekuPolicy (ng_cfg e) = TCPV4_EKUPOL_REQUIRE \<longrightarrow> ng_tlsCheckKeyPurpose e w \<noteq> TCPV4_EKU_NO_BUNDLE)"

lemma start_tls_accepts:
  assumes "start_tls e conn = (n, conn')" "0 \<le> n"
  shows "c_tls conn' \<and> n_activeRole conn' = n_activeRole conn \<and> n_dialNodeId conn' = n_dialNodeId conn \<and>
    n_busy conn' = n_busy conn \<and> (cfg_noVerify (ng_cfg e) \<or> profile_ok e (c_world conn'))"
proof -
  obtain ok w where h: "ng_tlsHandshake e (c_world conn) (c_sock conn) (\<not> n_activeRole conn) = (ok, w)" by fastforce
  then have ok: "ok" using assms by (cases ok) (auto simp: start_tls_def Let_def)
  define c where "c = conn \<lparr> c_tls := True, c_world := w, n_peerAuthenticated := ng_tlsPeerAuthenticated e w \<rparr>"
  have st: "start_tls e conn = (if \<not> cfg_noVerify (ng_cfg e) then checkCertProfile e c else (0, c))"
    using h ok by (simp add: start_tls_def Let_def c_def)
  show ?thesis
  proof (cases "cfg_noVerify (ng_cfg e)")
    case True
    then show ?thesis using st assms(1) by (auto simp: c_def)
  next
    case False
    then have "checkCertProfile e c = (n, conn')" using st assms(1) by simp
    from checkCertProfile_accepts[OF this assms(2)] show ?thesis by (simp add: profile_ok_def c_def)
  qed
qed

lemma tcpv4Establish_accepts:
  assumes "tcpv4Establish e conn = (0, conn')" "\<not> c_tls conn"
  shows "\<exists>c peer c2. applySessInit e c peer = (0, c2) \<and>
    conn' = c2 \<lparr> c_state := TCS_ESTABLISHED, c_secSinceRx := 0, c_secSinceTx := 0, c_secSinceData := 0 \<rparr> \<and>
    n_activeRole c = n_activeRole conn \<and> n_dialNodeId c = n_dialNodeId conn \<and> \<not> n_busy conn \<and>
    (cfg_tlsPolicy (ng_cfg e) = TCPV4_TLS_REQUIRE \<longrightarrow> c_tls c) \<and>
    (c_tls c \<longrightarrow> cfg_tlsPolicy (ng_cfg e) \<noteq> TCPV4_TLS_DISABLE \<and> (cfg_noVerify (ng_cfg e) \<or> (\<exists>w. profile_ok e w)))"
proof -
  obtain n enableTls c1 where x: "exchangeContact e conn = (n, enableTls, c1)" by (metis prod_cases3)
  obtain k c2 where t: "(if enableTls then start_tls e c1 else (0, c1)) = (k, c2)" by fastforce
  obtain l c3 where s: "sendSessInit e c2 = (l, c3)" by fastforce
  obtain m c4 where r: "recvSessInit e c3 = (m, c4)" by fastforce
  have est: "tcpv4Establish e conn = (if n < 0 then (-1, c1) else if k < 0 then (-1, c2)
      else if n_busy c2 then (-1, snd (tcpv4SendSessTerm (ng_io e) c2 TMSG_TERM_BUSY False))
      else if l < 0 then (-1, c3) else if m < 0 then (-1, c4)
      else (0, c4 \<lparr> c_state := TCS_ESTABLISHED, c_secSinceRx := 0, c_secSinceTx := 0, c_secSinceData := 0 \<rparr>))"
    unfolding tcpv4Establish_def x Let_def prod.case t s r by simp
  have nn: "\<not> n < 0" "\<not> k < 0" "\<not> n_busy c2" "\<not> l < 0" "\<not> m < 0"
    and conn': "conn' = c4 \<lparr> c_state := TCS_ESTABLISHED, c_secSinceRx := 0, c_secSinceTx := 0, c_secSinceData := 0 \<rparr>"
    using assms(1) unfolding est by (simp_all split: if_splits)
  have xr: "same_session conn c1" "enableTls \<longrightarrow> cfg_tlsPolicy (ng_cfg e) \<noteq> TCPV4_TLS_DISABLE"
    "cfg_tlsPolicy (ng_cfg e) = TCPV4_TLS_REQUIRE \<longrightarrow> enableTls"
    using exchangeContact_result[OF x] nn(1) by auto
  note f1 = same_session_fields[OF xr(1)]
  have c2: "n_activeRole c2 = n_activeRole conn" "n_dialNodeId c2 = n_dialNodeId conn" "n_busy c2 = n_busy conn"
    "c_tls c2 = enableTls" "enableTls \<longrightarrow> cfg_noVerify (ng_cfg e) \<or> profile_ok e (c_world c2)"
    using t start_tls_accepts[of e c1 k c2] nn(2) f1 assms(2) by (simp_all split: if_splits)
  have "same_session c2 c3"
    using s by (auto simp: sendSessInit_def Let_def split: if_splits prod.splits dest: send_same)
  obtain c peer where a: "applySessInit e c peer = (m, c4)" "same_session c3 c"
    using recvSessInit_applies[OF r] nn(5) by auto
  have "m = 0" using applySessInit_accepts[OF a(1)] nn(5) by simp
  moreover have "same_session c2 c" using \<open>same_session c2 c3\<close> a(2) by (rule same_session_trans)
  note same_session_fields[OF this]
  moreover have "cfg_noVerify (ng_cfg e) \<or> (\<exists>w. profile_ok e w)" if "enableTls" using c2(5) that by blast
  ultimately show ?thesis
    using a(1) conn' c2(1-4) xr(2,3) nn(3) by (intro exI[of _ c] exI[of _ peer] exI[of _ c4]) simp
qed

section \<open>Negotiation over a network that works\<close>

definition can_tls :: "'w NegEngine \<Rightarrow> bool" where
  "can_tls e \<longleftrightarrow> cfg_tlsPolicy (ng_cfg e) \<noteq> TCPV4_TLS_DISABLE"

definition our_contact :: "'w NegEngine \<Rightarrow> Tcpv4Contact" where
  "our_contact e = \<lparr>tc_version = TMSG_VERSION, tc_flags = (if can_tls e then TMSG_CONTACT_CAN_TLS else 0)\<rparr>"

definition our_init :: "'w NegEngine \<Rightarrow> Tcpv4SessInit" where
  "our_init e = \<lparr>si_keepalive = word_of_int (cfg_keepalive (ng_cfg e)),
     si_segmentMru = word_of_int (cfg_segmentMru (ng_cfg e)),
     si_transferMru = word_of_int (cfg_transferMru (ng_cfg e)),
     si_nodeId = Some (ng_nodeId e), si_nodeIdLen = word_of_nat (length (ng_nodeId e)),
     si_sessExt = Some [], si_sessExtLen = 0\<rparr>"

text \<open>A step of negotiation that left \<open>rest\<close> to read and wrote \<open>new\<close>.\<close>

definition neg_went ::
    "('w \<Rightarrow> bytes) \<Rightarrow> ('w \<Rightarrow> bytes) \<Rightarrow> 'w Tcpv4Conn \<Rightarrow> bytes \<Rightarrow> bytes \<Rightarrow> 'w Tcpv4Conn \<Rightarrow> bool" where
  "neg_went inp out conn rest new conn' \<longleftrightarrow> same_session conn conn' \<and> pending inp conn' = rest \<and>
     buf_ok conn' \<and> out (c_world conn') = out (c_world conn) @ new"

lemma neg_went_trans:
  "neg_went inp out a r n b \<Longrightarrow> neg_went inp out b r' n' c \<Longrightarrow> neg_went inp out a r' (n @ n') c"
  by (auto simp: neg_went_def same_session_def)

lemma neg_went_refl: "buf_ok conn \<Longrightarrow> pending inp conn = rest \<Longrightarrow> neg_went inp out conn rest [] conn"
  by (simp add: neg_went_def)

lemma neg_read:
  assumes "net_ok io inp out" "buf_ok conn" "pending inp conn = bs @ rest" "length bs = len"
  shows "\<exists>conn'. tcpv4ConnRecv io conn len = (int len, bs, conn') \<and> neg_went inp out conn rest [] conn'"
proof -
  obtain conn' where r: "tcpv4ConnRecv io conn len = (int len, bs, conn')" "was_read inp out conn rest conn'"
    using recv_next[OF assms] by blast
  then show ?thesis using recv_same[OF r(1)] by (auto simp: neg_went_def was_read_def)
qed

lemma neg_write:
  assumes "net_ok io inp out" "buf_ok conn"
  shows "\<exists>conn'. tcpv4ConnSend io conn bs = (0, conn') \<and> neg_went inp out conn (pending inp conn) bs conn'"
proof -
  obtain conn' where s: "tcpv4ConnSend io conn bs = (0, conn')" "sent inp out conn bs conn'"
    using send_next[OF assms(1)] by blast
  then show ?thesis using send_same[OF s(1)] sent_pending[OF s(2)] assms(2)
    by (auto simp: neg_went_def sent_def)
qed

lemma with_field_net:
  assumes "net_ok io inp out" "buf_ok conn" "pending inp conn = bs @ rest" "length bs = len"
  shows "\<exists>conn'. with_field io conn len k = k bs conn' \<and> neg_went inp out conn rest [] conn'"
proof (cases "len = 0")
  case True
  then show ?thesis using assms by (auto simp: with_field_def intro: neg_went_refl)
next
  case False
  then show ?thesis using neg_read[OF assms] by (auto simp: with_field_def)
qed

lemma contact_encoded:
  assumes "length buf = TMSG_CONTACT_LEN"
  shows "tcpv4MsgEncodeContact buf TMSG_CONTACT_LEN m = (6, wire_contact m)"
proof -
  obtain n b where x: "tcpv4MsgEncodeContact buf TMSG_CONTACT_LEN m = (n, b)" by fastforce
  have e: "encoded (n, b) buf TMSG_CONTACT_LEN (wire_contact m)"
    using encoded_contact[of TMSG_CONTACT_LEN buf m] assms x by simp
  have l: "length (wire_contact m) = 6" by (simp add: wire_contact_def TMSG_MAGIC_def)
  have "length b = 6" using e assms by (simp add: encoded_def TMSG_CONTACT_LEN_def)
  then show ?thesis using encoded_take[OF e] l assms x by (simp add: TMSG_CONTACT_LEN_def)
qed

lemma contact_decoded: "tcpv4MsgDecodeContact (wire_contact m) TMSG_CONTACT_LEN = (6, Some m)"
proof (cases m)
  case (fields v f)
  then show ?thesis using decode_contact_eq[of "wire_contact m"]
    by (simp add: wire_contact_def TMSG_MAGIC_def TMSG_CONTACT_LEN_def eval_nat_numeral)
qed

lemma exchangeContact_net:
  assumes net: "net_ok (ng_io e) inp out" and ok: "buf_ok conn"
    and p: "pending inp conn = wire_contact \<lparr>tc_version = TMSG_VERSION, tc_flags = f\<rparr> @ rest"
    and tls: "can_tls e \<and> f AND TMSG_CONTACT_CAN_TLS \<noteq> 0 \<or> cfg_tlsPolicy (ng_cfg e) \<noteq> TCPV4_TLS_REQUIRE"
  shows "\<exists>conn'. exchangeContact e conn = (0, can_tls e \<and> f AND TMSG_CONTACT_CAN_TLS \<noteq> 0, conn') \<and>
    neg_went inp out conn rest (wire_contact (our_contact e)) conn'"
proof -
  let ?peer = "\<lparr>tc_version = TMSG_VERSION, tc_flags = f\<rparr>" and ?w = "wire_contact (our_contact e)"
  have l: "length (wire_contact m) = TMSG_CONTACT_LEN" for m
    by (simp add: wire_contact_def TMSG_MAGIC_def TMSG_CONTACT_LEN_def)
  have enc: "tcpv4MsgEncodeContact buf TMSG_CONTACT_LEN
      \<lparr>tc_version = TMSG_VERSION, tc_flags = if cfg_tlsPolicy (ng_cfg e) \<noteq> TCPV4_TLS_DISABLE then TMSG_CONTACT_CAN_TLS else 0\<rparr>
      = (6, ?w)" if "length buf = TMSG_CONTACT_LEN" for buf
    using contact_encoded[OF that, of "our_contact e"] by (simp add: our_contact_def can_tls_def)
  have tk: "take (nat 6) ?w = ?w" using l[of "our_contact e"] by (simp add: TMSG_CONTACT_LEN_def)
  define new1 where "new1 = (if n_activeRole conn then ?w else [])"
  obtain c1 where s1: "(if n_activeRole conn then tcpv4ConnSend (ng_io e) conn ?w else (0, conn)) = (0, c1)"
    "neg_went inp out conn (pending inp conn) new1 c1"
  proof (cases "n_activeRole conn")
    case True
    then show thesis using neg_write[OF net ok, of ?w] that by (auto simp: new1_def)
  next
    case False
    then show thesis using neg_went_refl[OF ok refl, of inp out] that by (simp add: new1_def)
  qed
  have c1: "buf_ok c1" "pending inp c1 = wire_contact ?peer @ rest" using s1(2) p by (simp_all add: neg_went_def)
  obtain c2 where r: "tcpv4ConnRecv (ng_io e) c1 TMSG_CONTACT_LEN = (int TMSG_CONTACT_LEN, wire_contact ?peer, c2)"
    "neg_went inp out c1 rest [] c2" using neg_read[OF net c1 l] by blast
  have c2: "buf_ok c2" "pending inp c2 = rest" "same_session conn c2" using r(2) s1(2)
    by (auto simp: neg_went_def same_session_def)
  note act = same_session_fields(1)[OF c2(3)]
  obtain c3 where s3: "(if \<not> n_activeRole c2 then tcpv4ConnSend (ng_io e) c2 ?w else (0, c2)) = (0, c3)"
    "neg_went inp out c2 rest (if n_activeRole conn then [] else ?w) c3"
    using neg_write[OF net c2(1), of ?w] neg_went_refl[OF c2(1) refl, of inp out] c2(2) act by auto
  have s3': "(if \<not> n_activeRole c2 then if (6::int) < 0 then (- 1, c2) else tcpv4ConnSend (ng_io e) c2 ?w else (0, c2)) = (0, c3)"
    using s3(1) by (auto split: if_splits)
  have "exchangeContact e conn = (0, can_tls e \<and> f AND TMSG_CONTACT_CAN_TLS \<noteq> 0, c3)"
    unfolding exchangeContact_def Let_def
    unfolding enc[OF length_replicate] prod.case tk s1(1) r(1) contact_decoded enc[OF l] option.case s3'
    using tls by (simp add: can_tls_def)
  moreover have "neg_went inp out conn rest ?w c3"
    using neg_went_trans[OF neg_went_trans[OF s1(2) r(2)] s3(2)] by (simp add: new1_def split: if_splits)
  ultimately show ?thesis by blast
qed

lemma our_init_valid: "length (ng_nodeId e) < TCPV4_MAX_NODEID_LEN \<Longrightarrow> valid_sess_init (our_init e) \<and>
    unat (si_nodeIdLen (our_init e)) = length (ng_nodeId e)"
  by (simp add: valid_sess_init_def our_init_def TCPV4_MAX_NODEID_LEN_def unsigned_of_nat take_bit_nat_eq_self)

lemma length_wire_init:
  "valid_sess_init m \<Longrightarrow> length (wire_sess_init m) = 25 + unat (si_nodeIdLen m) + unat (si_sessExtLen m)"
  by (simp add: wire_sess_init_def valid_sess_init_def)

lemma sendSessInit_eq:
  assumes "length (ng_nodeId e) < TCPV4_MAX_NODEID_LEN"
  shows "sendSessInit e conn = tcpv4ConnSend (ng_io e) conn (wire_sess_init (our_init e))"
proof -
  let ?cap = "64 + TCPV4_MAX_NODEID_LEN" and ?m = "our_init e"
  note v = our_init_valid[OF assms]
  have same: "tcpv4MsgEncodeSessInit buf cap (?m \<lparr> si_sessExt := None \<rparr>) = tcpv4MsgEncodeSessInit buf cap ?m" for buf cap
    by (simp add: tcpv4MsgEncodeSessInit_def our_init_def)
  obtain n b where x: "tcpv4MsgEncodeSessInit (replicate ?cap 0) ?cap ?m = (n, b)" by fastforce
  have e: "encoded (n, b) (replicate ?cap 0) ?cap (wire_sess_init ?m)"
    using encoded_sess_init[of ?m ?cap "replicate ?cap 0"] v x by simp
  have "length (wire_sess_init ?m) \<le> ?cap"
    using length_wire_init[of ?m] v assms by (simp add: our_init_def)
  then have "n = int (length (wire_sess_init ?m))" "take (nat n) b = wire_sess_init ?m"
    using encoded_take[OF e] by (simp_all add: TCPV4_MAX_NODEID_LEN_def)
  then show ?thesis
    using x same[of "replicate ?cap 0" ?cap] by (simp add: sendSessInit_def Let_def our_init_def)
qed

lemma recvSessInit_net:
  assumes net: "net_ok (ng_io e) inp out" and ok: "buf_ok conn" and v: "valid_sess_init m"
    and len: "unat (si_nodeIdLen m) < TCPV4_MAX_NODEID_LEN" "unat (si_sessExtLen m) \<le> TCPV4_MAX_EXT_LEN"
    and p: "pending inp conn = wire_sess_init m @ rest"
  shows "\<exists>c. recvSessInit e conn = applySessInit e c m \<and> neg_went inp out conn rest [] c"
proof -
  let ?d = "be16 (si_keepalive m) @ be64 (si_segmentMru m) @ be64 (si_transferMru m) @ be16 (si_nodeIdLen m)"
  let ?node = "octets (si_nodeId m)" and ?x = "be32 (si_sessExtLen m)" and ?ext = "octets (si_sessExt m)"
  have w: "wire_sess_init m = [TMSG_SESS_INIT] @ ?d @ ?node @ ?x @ ?ext" by (simp add: wire_sess_init_def)
  have lens: "length ?node = unat (si_nodeIdLen m)" "length ?ext = unat (si_sessExtLen m)"
    using v by (simp_all add: valid_sess_init_def)
  obtain c1 where 1: "recvSessInit e conn = with_field (ng_io e) c1 20 (\<lambda>d conn. recv_variable e ([TMSG_SESS_INIT] @ d) conn)"
    "neg_went inp out conn (?d @ ?node @ ?x @ ?ext @ rest) [] c1"
  proof -
    obtain c where "recvSessInit e conn = (\<lambda>t conn.
       if t ! 0 = TMSG_SESS_TERM then (-1, conn)
       else if t ! 0 = TMSG_MSG_REJECT then (-1, snd (snd (tcpv4RecvMsgReject (ng_io e) conn)))
       else if t ! 0 \<noteq> TMSG_SESS_INIT then
         (-1, snd (tcpv4SendMsgReject (ng_io e) conn TMSG_REJECT_UNEXPECTED (t ! 0)))
       else with_field (ng_io e) conn 20 (\<lambda>d conn. recv_variable e (t @ d) conn)) [TMSG_SESS_INIT] c"
      "neg_went inp out conn (?d @ ?node @ ?x @ ?ext @ rest) [] c"
      unfolding recvSessInit_def
      using with_field_net[OF net ok, of "[TMSG_SESS_INIT]" "?d @ ?node @ ?x @ ?ext @ rest" 1] p w by fastforce
    then show thesis using that[of c] by (simp add: tmsg_types)
  qed
  have c1: "buf_ok c1" "pending inp c1 = ?d @ ?node @ ?x @ ?ext @ rest" using 1(2) by (auto simp: neg_went_def)
  obtain c2 where 2: "with_field (ng_io e) c1 20 (\<lambda>d conn. recv_variable e ([TMSG_SESS_INIT] @ d) conn) =
      recv_variable e ([TMSG_SESS_INIT] @ ?d) c2" "neg_went inp out c1 (?node @ ?x @ ?ext @ rest) [] c2"
    using with_field_net[OF net c1(1), of ?d "?node @ ?x @ ?ext @ rest" 20] c1(2) by auto
  let ?fixed = "[TMSG_SESS_INIT] @ ?d"
  have nl: "join16 (?fixed ! 19) (?fixed ! 20) = si_nodeIdLen m"
    by (simp add: nth_append be16_def)
  obtain w where m: "io_mtake (ng_io e) (c_world c2) (21 + unat (si_nodeIdLen m) + 4 + TCPV4_MAX_EXT_LEN) = (True, w)"
    "out w = out (c_world c2)" "inp w = inp (c_world c2)" using net_sends(3)[OF net] by blast
  let ?c2 = "c2 \<lparr> c_world := w \<rparr>"
  have c2': "neg_went inp out c2 (pending inp c2) [] ?c2" "buf_ok ?c2" "pending inp ?c2 = ?node @ ?x @ ?ext @ rest"
    using 2(2) m by (auto simp: neg_went_def pending_def buf_ok_def cong: option.case_cong)
  define last where "last = (\<lambda>node x ext conn.
                           (let buf = ?fixed @ node @ x @ ext;
                                (k, peer) = tcpv4MsgDecodeSessInit buf (length buf)
                            in if k = int (length buf) \<and> peer \<noteq> None then applySessInit e conn (the peer)
                               else (-1, conn)))"
  have rv: "recv_variable e ?fixed c2 = with_field (ng_io e) ?c2 (unat (si_nodeIdLen m)) (\<lambda>node conn.
                 with_field (ng_io e) conn 4 (\<lambda>x conn.
                   (let extLen = unat (join32 (join16 (x ! 0) (x ! 1)) (join16 (x ! 2) (x ! 3)))
                    in if extLen > TCPV4_MAX_EXT_LEN then (-1, conn)
                       else with_field (ng_io e) conn extLen (\<lambda>ext conn. last node x ext conn))))"
    using len(1) unfolding recv_variable_def nl Let_def m(1) prod.case last_def by simp
  obtain c3 where 3: "recv_variable e ?fixed c2 = with_field (ng_io e) c3 4 (\<lambda>x conn.
                   (let extLen = unat (join32 (join16 (x ! 0) (x ! 1)) (join16 (x ! 2) (x ! 3)))
                    in if extLen > TCPV4_MAX_EXT_LEN then (-1, conn)
                       else with_field (ng_io e) conn extLen (\<lambda>ext conn. last ?node x ext conn)))"
    "neg_went inp out ?c2 (?x @ ?ext @ rest) [] c3"
    unfolding rv using with_field_net[OF net c2'(2,3) lens(1)] by blast
  have c3: "buf_ok c3" "pending inp c3 = ?x @ ?ext @ rest" using 3(2) by (auto simp: neg_went_def)
  have j: "join32 (join16 (?x ! 0) (?x ! 1)) (join16 (?x ! 2) (?x ! 3)) = si_sessExtLen m"
    by (rule join_be32) simp_all
  obtain c4 where 4: "recv_variable e ?fixed c2 = with_field (ng_io e) c4 (unat (si_sessExtLen m)) (\<lambda>ext conn. last ?node ?x ext conn)"
    "neg_went inp out c3 (?ext @ rest) [] c4"
  proof -
    obtain c where "recv_variable e ?fixed c2 = (\<lambda>x conn.
                   (let extLen = unat (join32 (join16 (x ! 0) (x ! 1)) (join16 (x ! 2) (x ! 3)))
                    in if extLen > TCPV4_MAX_EXT_LEN then (-1, conn)
                       else with_field (ng_io e) conn extLen (\<lambda>ext conn. last ?node x ext conn))) ?x c"
      "neg_went inp out c3 (?ext @ rest) [] c"
      unfolding 3(1) using with_field_net[OF net c3, of 4] by fastforce
    then show thesis using that[of c] len(2) unfolding Let_def j by simp
  qed
  have c4: "buf_ok c4" "pending inp c4 = ?ext @ rest" using 4(2) by (auto simp: neg_went_def)
  obtain c5 where 5: "recv_variable e ?fixed c2 = last ?node ?x ?ext c5" "neg_went inp out c4 rest [] c5"
    unfolding 4(1) using with_field_net[OF net c4 lens(2)] by blast
  have dec: "tcpv4MsgDecodeSessInit (wire_sess_init m) (length (wire_sess_init m)) = (int (length (wire_sess_init m)), Some m)"
    by (rule sess_init.dec_complete[where rest = "[]"])
      (use v len length_wire_init[OF v] in \<open>auto simp: TCPV4_MAX_NODEID_LEN_def TCPV4_MAX_EXT_LEN_def\<close>)
  have whole: "?fixed @ ?node @ ?x @ ?ext = wire_sess_init m" by (simp add: w)
  have "last ?node ?x ?ext c5 = applySessInit e c5 m"
    unfolding last_def whole Let_def dec by simp
  then have "recvSessInit e conn = applySessInit e c5 m" using 1(1) 2(1) 5(1) by simp
  moreover have "neg_went inp out conn rest [] c5"
    using neg_went_trans[OF 1(2) neg_went_trans[OF 2(2) neg_went_trans[OF c2'(1) neg_went_trans[OF 3(2)
      neg_went_trans[OF 4(2) 5(2)]]]]] by simp
  ultimately show ?thesis by blast
qed

section \<open>What the peer is known by\<close>

lemma cstr_length: "length (cstr s) \<le> length s"
  by (simp add: cstr_def length_takeWhile_le)

lemma claimed_id_length: "length (claimed_id peer) < TCPV4_MAX_NODEID_LEN"
proof -
  have "length (cstr (take k xs)) \<le> k" for k :: nat and xs :: bytes
    using cstr_length[of "take k xs"] by simp
  from this[of "unat (si_nodeIdLen peer)"] show ?thesis
    by (auto simp: claimed_id_def TCPV4_MAX_NODEID_LEN_def intro: le_less_trans)
qed

lemma istrcpy_fits: "length s < len \<Longrightarrow> istrcpy s len = s"
  by (simp add: istrcpy_def)

lemmas istrcpy_claimed [simp] = istrcpy_fits[OF claimed_id_length]

lemma unset_empty [simp]: "\<not> tcpv4NodeIdIsSet (Some [])"
  by (simp add: tcpv4NodeIdIsSet_def)

lemma authenticate_id_True:
  "authenticate_id e conn claimed = Some True \<Longrightarrow>
     c_tls conn \<and> \<not> cfg_noVerify (ng_cfg e) \<and> cfg_eidPolicy (ng_cfg e) \<noteq> TCPV4_EIDPOL_NONE \<and>
     ng_tlsMatchNodeId e (c_world conn) claimed = TCPV4_NODEID_SUCCESS"
  by (auto simp: authenticate_id_def Let_def split: if_splits)

lemma authenticate_id_unnamed: "authenticate_id e conn [] = Some False"
  by (simp add: authenticate_id_def)

section \<open>Both ends\<close>

text \<open>What an end configured in the documented ranges announces, and can be held to.\<close>

definition good_end :: "'w NegEngine \<Rightarrow> bool" where
  "good_end e \<longleftrightarrow>
     0 \<le> cfg_keepalive (ng_cfg e) \<and> cfg_keepalive (ng_cfg e) < 2 ^ 16 \<and>
     0 < cfg_segmentMru (ng_cfg e) \<and> cfg_segmentMru (ng_cfg e) < 2 ^ 31 \<and>
     0 < cfg_transferMru (ng_cfg e) \<and> cfg_transferMru (ng_cfg e) < 2 ^ 31 \<and>
     0 \<notin> set (ng_nodeId e) \<and> length (ng_nodeId e) < TCPV4_MAX_NODEID_LEN \<and>
     (ng_nodeId e = [] \<or> tcpv4NodeIdIsWellFormed (Some (ng_nodeId e)) (length (ng_nodeId e)))"

lemma good_init:
  assumes "good_end e"
  shows "uint (si_keepalive (our_init e)) = cfg_keepalive (ng_cfg e)"
    "si_segmentMru (our_init e) \<noteq> 0" "si_transferMru (our_init e) \<noteq> 0"
    "unat (si_nodeIdLen (our_init e)) = length (ng_nodeId e)" "claimed_id (our_init e) = ng_nodeId e"
    "\<not> critical_from (octets (si_sessExt (our_init e))) (unat (si_sessExtLen (our_init e))) 0"
    "\<not> (si_nodeIdLen (our_init e) > 0 \<and>
        \<not> tcpv4NodeIdIsWellFormed (si_nodeId (our_init e)) (unat (si_nodeIdLen (our_init e))))"
proof -
  have w: "(word_of_int k :: u64) \<noteq> 0" if "0 < k" "k < 2 ^ 31" for k :: int
  proof
    assume "(word_of_int k :: u64) = 0"
    then have "uint (word_of_int k :: u64) = 0" by simp
    then show False using that by (simp add: uint_word_of_int_eq take_bit_int_eq_self)
  qed
  show "uint (si_keepalive (our_init e)) = cfg_keepalive (ng_cfg e)"
    using assms by (simp add: good_end_def our_init_def uint_word_of_int_eq take_bit_int_eq_self)
  show "si_segmentMru (our_init e) \<noteq> 0" "si_transferMru (our_init e) \<noteq> 0"
    using assms w by (simp_all add: good_end_def our_init_def)
  have l: "length (ng_nodeId e) < TCPV4_MAX_NODEID_LEN" using assms by (simp add: good_end_def)
  show u: "unat (si_nodeIdLen (our_init e)) = length (ng_nodeId e)" using our_init_valid[OF l] by simp
  have z: "si_nodeIdLen (our_init e) = 0 \<longleftrightarrow> ng_nodeId e = []"
    using u by (metis length_0_conv unat_0 unat_eq_0)
  have c: "cstr (ng_nodeId e) = ng_nodeId e"
    using assms by (auto simp: cstr_def good_end_def takeWhile_eq_all_conv)
  have n: "octets (si_nodeId (our_init e)) = ng_nodeId e" by (simp add: our_init_def)
  show "claimed_id (our_init e) = ng_nodeId e"
    using l z c n u by (auto simp: claimed_id_def word_gt_0)
  show "\<not> critical_from (octets (si_sessExt (our_init e))) (unat (si_sessExtLen (our_init e))) 0"
    by (subst critical_from.simps) (simp add: our_init_def tcpv4MsgNextExtItem_def)
  show "\<not> (si_nodeIdLen (our_init e) > 0 \<and>
      \<not> tcpv4NodeIdIsWellFormed (si_nodeId (our_init e)) (unat (si_nodeIdLen (our_init e))))"
    using assms z u by (auto simp: good_end_def our_init_def word_gt_0)
qed

text \<open>The certificate does not stand against the name the other end gives itself.\<close>

definition cert_agrees :: "'w NegEngine \<Rightarrow> bool \<Rightarrow> bytes \<Rightarrow> bool" where
  "cert_agrees e tls name \<longleftrightarrow>
     (tls \<and> \<not> cfg_noVerify (ng_cfg e) \<and> cfg_eidPolicy (ng_cfg e) \<noteq> TCPV4_EIDPOL_NONE \<and> name \<noteq> [] \<longrightarrow>
      (\<forall>w. ng_tlsMatchNodeId e w name = TCPV4_NODEID_SUCCESS))"

lemma cert_agrees_authenticates:
  assumes "cert_agrees e (c_tls conn) name"
  shows "authenticate_id e conn name = Some (c_tls conn \<and> \<not> cfg_noVerify (ng_cfg e) \<and>
    cfg_eidPolicy (ng_cfg e) \<noteq> TCPV4_EIDPOL_NONE \<and> name \<noteq> [])"
  using assms by (auto simp: authenticate_id_def cert_agrees_def)

text \<open>What \<open>e\<close> keeps of a session with \<open>p\<close>.\<close>

definition agreed :: "'w NegEngine \<Rightarrow> 'v NegEngine \<Rightarrow> 'w Tcpv4Conn \<Rightarrow> bool" where
  "agreed e p conn \<longleftrightarrow>
     uint (n_segmentMtu conn) = cfg_segmentMru (ng_cfg p) \<and> uint (n_transferMtu conn) = cfg_transferMru (ng_cfg p) \<and>
     n_keepalive conn = min (cfg_keepalive (ng_cfg e)) (cfg_keepalive (ng_cfg p)) \<and>
     n_peerNodeId conn = ng_nodeId p"

lemma applySessInit_net:
  assumes "good_end p" "cert_agrees e (c_tls conn) (ng_nodeId p)"
  shows "\<exists>conn'. applySessInit e conn (our_init p) = (0, conn') \<and> agreed e p conn' \<and>
    n_routeNodeId conn' = route_id e conn (ng_nodeId p) (c_tls conn \<and> \<not> cfg_noVerify (ng_cfg e) \<and>
      cfg_eidPolicy (ng_cfg e) \<noteq> TCPV4_EIDPOL_NONE \<and> ng_nodeId p \<noteq> []) \<and>
    c_world conn' = c_world conn \<and> c_rxBuf conn' = c_rxBuf conn \<and> c_rxBufLen conn' = c_rxBufLen conn \<and>
    c_rxBufOff conn' = c_rxBufOff conn"
proof -
  note g = good_init[OF assms(1)]
  have mru: "uint (si_segmentMru (our_init p)) = cfg_segmentMru (ng_cfg p)"
    "uint (si_transferMru (our_init p)) = cfg_transferMru (ng_cfg p)"
    using assms(1) by (simp_all add: good_end_def our_init_def uint_word_of_int_eq take_bit_int_eq_self)
  have i: "istrcpy (ng_nodeId p) TCPV4_MAX_NODEID_LEN = ng_nodeId p"
    using assms(1) by (intro istrcpy_fits) (simp add: good_end_def)
  have nz: "\<not> (si_segmentMru (our_init p) = 0 \<or> si_transferMru (our_init p) = 0)" using g(2,3) by simp
  show ?thesis
    unfolding applySessInit_def Let_def g(5) cert_agrees_authenticates[OF assms(2)] option.case
      if_not_P[OF nz] if_not_P[OF g(6)] if_not_P[OF g(7)]
    using mru i by (simp add: agreed_def g(1) min_def)
qed

lemma pending_cong:
  "c_world c = c_world d \<Longrightarrow> c_rxBuf c = c_rxBuf d \<Longrightarrow> c_rxBufLen c = c_rxBufLen d \<Longrightarrow> c_rxBufOff c = c_rxBufOff d \<Longrightarrow>
     pending inp c = pending inp d"
  by (simp add: pending_def cong: option.case_cong)

text \<open>An end that does not use TLS, with what \<open>p\<close> sends waiting to be read.\<close>

lemma tcpv4Establish_net:
  assumes net: "net_ok (ng_io e) inp out" and ok: "buf_ok conn"
    and p: "pending inp conn = wire_contact (our_contact p) @ wire_sess_init (our_init p) @ rest"
    and plain: "\<not> (can_tls e \<and> can_tls p)" "cfg_tlsPolicy (ng_cfg e) \<noteq> TCPV4_TLS_REQUIRE" "\<not> c_tls conn"
    and "\<not> n_busy conn" "good_end e" "good_end p"
  shows "\<exists>conn'. tcpv4Establish e conn = (0, conn') \<and> agreed e p conn' \<and> c_state conn' = TCS_ESTABLISHED \<and>
    n_routeNodeId conn' = route_id e conn (ng_nodeId p) False \<and>
    pending inp conn' = rest \<and>
    out (c_world conn') = out (c_world conn) @ wire_contact (our_contact e) @ wire_sess_init (our_init e)"
proof -
  have fl: "can_tls e \<and> tc_flags (our_contact p) AND TMSG_CONTACT_CAN_TLS \<noteq> 0 \<longleftrightarrow> can_tls e \<and> can_tls p"
    by (simp add: our_contact_def TMSG_CONTACT_CAN_TLS_def)
  have p': "pending inp conn = wire_contact \<lparr>tc_version = TMSG_VERSION, tc_flags = tc_flags (our_contact p)\<rparr> @
      wire_sess_init (our_init p) @ rest"
    using p by (simp add: our_contact_def)
  obtain c1 where x: "exchangeContact e conn = (0, False, c1)"
    "neg_went inp out conn (wire_sess_init (our_init p) @ rest) (wire_contact (our_contact e)) c1"
    using exchangeContact_net[OF net ok p'] plain(1,2) fl by auto
  have c1: "buf_ok c1" "pending inp c1 = wire_sess_init (our_init p) @ rest" "same_session conn c1"
    using x(2) by (simp_all add: neg_went_def)
  note f1 = same_session_fields[OF c1(3)]
  have le: "length (ng_nodeId e) < TCPV4_MAX_NODEID_LEN" "length (ng_nodeId p) < TCPV4_MAX_NODEID_LEN"
    using assms(8,9) by (simp_all add: good_end_def)
  obtain c2 where s: "sendSessInit e c1 = (0, c2)"
    "neg_went inp out c1 (pending inp c1) (wire_sess_init (our_init e)) c2"
    using neg_write[OF net c1(1)] unfolding sendSessInit_eq[OF le(1)] by blast
  have c2: "buf_ok c2" "pending inp c2 = wire_sess_init (our_init p) @ rest" "same_session c1 c2"
    using s(2) c1(2) by (simp_all add: neg_went_def)
  note v = our_init_valid[OF le(2)]
  obtain c3 where r: "recvSessInit e c2 = applySessInit e c3 (our_init p)" "neg_went inp out c2 rest [] c3"
    using recvSessInit_net[OF net c2(1) v[THEN conjunct1] _ _ c2(2)] v le(2) by (auto simp: our_init_def)
  have "same_session conn c3"
    using c1(3) c2(3) r(2) by (auto simp: neg_went_def intro: same_session_trans)
  note f3 = same_session_fields[OF this]
  then have tls: "\<not> c_tls c3" using plain(3) by simp
  then have "cert_agrees e (c_tls c3) (ng_nodeId p)" by (simp add: cert_agrees_def)
  from applySessInit_net[OF assms(9) this] obtain c4 where
    a: "applySessInit e c3 (our_init p) = (0, c4)" "agreed e p c4" "c_world c4 = c_world c3"
    "n_routeNodeId c4 = route_id e c3 (ng_nodeId p) False"
    "c_rxBuf c4 = c_rxBuf c3" "c_rxBufLen c4 = c_rxBufLen c3" "c_rxBufOff c4 = c_rxBufOff c3" using tls by auto
  let ?f = "c4 \<lparr> c_state := TCS_ESTABLISHED, c_secSinceRx := 0, c_secSinceTx := 0, c_secSinceData := 0 \<rparr>"
  have "tcpv4Establish e conn = (0, ?f)"
    unfolding tcpv4Establish_def x(1) Let_def prod.case
    using s(1) r(1) a(1) f1(3) assms(7) by simp
  moreover have "pending inp ?f = pending inp c3" by (rule pending_cong) (simp_all add: a)
  moreover have "neg_went inp out conn rest (wire_contact (our_contact e) @ wire_sess_init (our_init e)) c3"
    using neg_went_trans[OF neg_went_trans[OF x(2) s(2)] r(2)] by simp
  moreover have "route_id e c3 name False = route_id e conn name False" for name
    using f3 by (simp add: route_id_def)
  ultimately show ?thesis using a(2-4) by (intro exI[of _ ?f]) (simp add: neg_went_def agreed_def)
qed

text \<open>A read that the octets there are do not satisfy.\<close>

lemma neg_read_short:
  assumes net: "net_ok io inp out" and ok: "buf_ok conn" and short: "length (pending inp conn) < len"
  obtains n d conn' where "tcpv4ConnRecv io conn len = (n, d, conn')" "n \<noteq> int len" "out (c_world conn') = out (c_world conn)"
proof -
  obtain n d conn' where r: "tcpv4ConnRecv io conn len = (n, d, conn')" by (metis prod_cases3)
  have "n \<noteq> int len"
    using tcpv4ConnRecv_spec[OF net_stream[OF net] ok r] short by (auto simp: read_ok_def)
  then show thesis using that[OF r] tcpv4ConnRecv_out[OF net r] by blast
qed

text \<open>A conversation of two ends, as far as the octets that have been sent allow: in each round each end is run from
  its start on all that the other end has sent before, and stops where it would wait for more.  Nothing is read that
  was not sent in an earlier round.\<close>

fun dialogue :: "(bytes \<Rightarrow> bytes) \<Rightarrow> (bytes \<Rightarrow> bytes) \<Rightarrow> nat \<Rightarrow> bytes \<times> bytes" where
  "dialogue says_a says_b 0 = ([], [])"
| "dialogue says_a says_b (Suc n) =
     (let (sent_a, sent_b) = dialogue says_a says_b n in (says_a sent_b, says_b sent_a))"

text \<open>What an end sends when \<open>x\<close> is what it gets to read; \<open>conn x\<close> is the session with that input.\<close>

definition says :: "('w \<Rightarrow> bytes) \<Rightarrow> 'w NegEngine \<Rightarrow> (bytes \<Rightarrow> 'w Tcpv4Conn) \<Rightarrow> bytes \<Rightarrow> bytes" where
  "says out e conn x = out (c_world (snd (tcpv4Establish e (conn x))))"

text \<open>A new plain session in the given role, before it has read or sent anything.\<close>

definition fresh_end :: "('w \<Rightarrow> bytes) \<Rightarrow> ('w \<Rightarrow> bytes) \<Rightarrow> bool \<Rightarrow> (bytes \<Rightarrow> 'w Tcpv4Conn) \<Rightarrow> bool" where
  "fresh_end inp out active conn \<longleftrightarrow> (\<forall>x. buf_ok (conn x) \<and> pending inp (conn x) = x \<and> out (c_world (conn x)) = [] \<and>
     \<not> c_tls (conn x) \<and> \<not> n_busy (conn x) \<and> (n_activeRole (conn x) \<longleftrightarrow> active))"

lemma fresh_endD:
  assumes "fresh_end inp out active conn"
  shows "buf_ok (conn x)" "pending inp (conn x) = x" "out (c_world (conn x)) = []" "\<not> c_tls (conn x)" "\<not> n_busy (conn x)"
    "n_activeRole (conn x) = active"
  using assms unfolding fresh_end_def by blast+

text \<open>With nothing to read the active end sends its contact header and the passive end nothing.\<close>

lemma says_first:
  assumes net: "net_ok (ng_io e) inp out" and f: "fresh_end inp out active conn"
  shows "says out e conn [] = (if active then wire_contact (our_contact e) else [])"
proof -
  let ?c = "conn []" and ?w = "wire_contact (our_contact e)"
  note c = fresh_endD[OF f, of "[]"]
  have enc: "tcpv4MsgEncodeContact (replicate TMSG_CONTACT_LEN 0) TMSG_CONTACT_LEN
      \<lparr>tc_version = TMSG_VERSION, tc_flags = if cfg_tlsPolicy (ng_cfg e) \<noteq> TCPV4_TLS_DISABLE then TMSG_CONTACT_CAN_TLS else 0\<rparr>
      = (6, ?w)"
    using contact_encoded[of "replicate TMSG_CONTACT_LEN 0" "our_contact e"] by (simp add: our_contact_def can_tls_def)
  have tk: "take (nat 6) ?w = ?w" by (simp add: wire_contact_def TMSG_MAGIC_def)
  define new where "new = (if active then ?w else [])"
  obtain c1 where s: "(if n_activeRole ?c then tcpv4ConnSend (ng_io e) ?c ?w else (0, ?c)) = (0, c1)"
    "neg_went inp out ?c [] new c1"
    using neg_write[OF net c(1), of ?w] neg_went_refl[OF c(1,2), of out] c(2,6) by (cases active) (auto simp: new_def)
  have c1: "buf_ok c1" "pending inp c1 = []" "out (c_world c1) = new" using s(2) c(3) by (simp_all add: neg_went_def)
  obtain n d c2 where r: "tcpv4ConnRecv (ng_io e) c1 TMSG_CONTACT_LEN = (n, d, c2)" "n \<noteq> int TMSG_CONTACT_LEN"
    "out (c_world c2) = out (c_world c1)"
    using neg_read_short[OF net c1(1), of TMSG_CONTACT_LEN] c1(2) by (auto simp: TMSG_CONTACT_LEN_def)
  have "exchangeContact e ?c = (-1, False, c2)"
    unfolding exchangeContact_def Let_def
    unfolding enc prod.case tk s(1) r(1) using r(2) by simp
  then show ?thesis using r(3) c1(3) by (simp add: says_def tcpv4Establish_def new_def)
qed

text \<open>With the contact header of the other end alone, an end sends its own and its SESS_INIT.\<close>

lemma says_after_contact:
  assumes net: "net_ok (ng_io e) inp out" and f: "fresh_end inp out active conn"
    and plain: "\<not> (can_tls e \<and> can_tls p)" "cfg_tlsPolicy (ng_cfg e) \<noteq> TCPV4_TLS_REQUIRE" and g: "good_end e"
  shows "says out e conn (wire_contact (our_contact p)) = wire_contact (our_contact e) @ wire_sess_init (our_init e)"
proof -
  let ?c = "conn (wire_contact (our_contact p))"
  note c = fresh_endD[OF f, of "wire_contact (our_contact p)"]
  have fl: "can_tls e \<and> tc_flags (our_contact p) AND TMSG_CONTACT_CAN_TLS \<noteq> 0 \<longleftrightarrow> can_tls e \<and> can_tls p"
    by (simp add: our_contact_def TMSG_CONTACT_CAN_TLS_def)
  have p': "pending inp ?c = wire_contact \<lparr>tc_version = TMSG_VERSION, tc_flags = tc_flags (our_contact p)\<rparr> @ []"
    using c(2) by (simp add: our_contact_def)
  obtain c1 where x: "exchangeContact e ?c = (0, False, c1)" "neg_went inp out ?c [] (wire_contact (our_contact e)) c1"
    using exchangeContact_net[OF net c(1) p'] plain fl by auto
  have c1: "buf_ok c1" "pending inp c1 = []" "same_session ?c c1" using x(2) by (simp_all add: neg_went_def)
  have le: "length (ng_nodeId e) < TCPV4_MAX_NODEID_LEN" using g by (simp add: good_end_def)
  obtain c2 where s: "sendSessInit e c1 = (0, c2)" "neg_went inp out c1 (pending inp c1) (wire_sess_init (our_init e)) c2"
    using neg_write[OF net c1(1)] unfolding sendSessInit_eq[OF le] by blast
  have c2: "buf_ok c2" "pending inp c2 = []" using s(2) c1(2) by (simp_all add: neg_went_def)
  obtain n d c3 where r: "tcpv4ConnRecv (ng_io e) c2 1 = (n, d, c3)" "n \<noteq> int 1" "out (c_world c3) = out (c_world c2)"
    using neg_read_short[OF net c2(1), of 1] c2(2) by auto
  have "recvSessInit e c2 = (-1, c3)" using r(1,2) by (simp add: recvSessInit_def with_field_def)
  then have "tcpv4Establish e ?c = (-1, c3)"
    using x(1) s(1) same_session_fields(3)[OF c1(3)] c(5) by (simp add: tcpv4Establish_def)
  moreover have "out (c_world c3) = wire_contact (our_contact e) @ wire_sess_init (our_init e)"
    using r(3) s(2) x(2) c(3) by (simp add: neg_went_def)
  ultimately show ?thesis by (simp add: says_def)
qed

text \<open>Two ends that both wait for the other never send anything.\<close>

lemma passive_ends_wait:
  assumes "net_ok (ng_io a) inp out" "net_ok (ng_io b) inp' out'" "fresh_end inp out False ca" "fresh_end inp' out' False cb"
  shows "dialogue (says out a ca) (says out' b cb) n = ([], [])"
  by (induction n) (simp_all add: says_first[OF assms(1,3)] says_first[OF assms(2,4)])

lemma dialogue_settles:
  assumes "dialogue f g (Suc k) = dialogue f g k" "k \<le> n"
  shows "dialogue f g n = dialogue f g k"
  using assms(2) by (induction n rule: dec_induct) (use assms(1) in simp_all)

section \<open>Example ends\<close>

definition example_end :: "int \<Rightarrow> int \<Rightarrow> bytes \<Rightarrow> (bytes \<times> bytes) NegEngine" where
  "example_end keepalive eidPolicy name =
     \<lparr>ng_io = pipe_io 2,
      ng_cfg = \<lparr>cfg_noVerify = False, cfg_tlsPolicy = TCPV4_TLS_DISABLE, cfg_eidPolicy = eidPolicy,
        cfg_ekuPolicy = TCPV4_EKUPOL_REQUIRE, cfg_keepalive = keepalive, cfg_segmentMru = 1000, cfg_transferMru = 5000\<rparr>,
      ng_nodeId = name, ng_tlsHandshake = (\<lambda>w sock server. (False, w)), ng_tlsPeerAuthenticated = (\<lambda>w. False),
      ng_tlsCheckKeyUsage = (\<lambda>w. 1), ng_tlsCheckKeyPurpose = (\<lambda>w. 1), ng_tlsMatchNodeId = (\<lambda>w name. 0)\<rparr>"

text \<open>A fresh connection with the input \<open>i\<close>.\<close>

definition example_neg :: "bool \<Rightarrow> bytes \<Rightarrow> bytes \<Rightarrow> (bytes \<times> bytes) Tcpv4Conn" where
  "example_neg active dialled i = RxConn.extend ((RxConn.truncate (pipe_session i)) \<lparr> c_state := 0 \<rparr>)
     \<lparr>n_activeRole = active, n_peerNodeId = [], n_dialNodeId = dialled, n_routeNodeId = [],
      n_peerAuthenticated = False, n_nodeIdAuthenticated = False, n_busy = False, n_keepalive = 0,
      n_segmentMtu = 0, n_transferMtu = 0, n_id = 1, n_receiverDone = False, n_peerAddr = [],
      n_txSenders = 0, n_secNegotiating = 0\<rparr>"

lemma example_neg_ok:
  "buf_ok (example_neg active dialled i)" "pending fst (example_neg active dialled i) = i"
  "\<not> c_tls (example_neg active dialled i)" "\<not> n_busy (example_neg active dialled i)"
  "n_activeRole (example_neg active dialled i) = active" "n_dialNodeId (example_neg active dialled i) = dialled"
  "c_world (example_neg active dialled i) = (i, [])"
  by (simp_all add: example_neg_def pipe_session_def RxConn.defs buf_ok_def pending_def)

definition ipn_name :: bytes where
  "ipn_name = [105, 112, 110, 58, 53, 46, 48]"

lemma example_end_good: "0 \<le> k \<Longrightarrow> k < 2 ^ 16 \<Longrightarrow> good_end (example_end k pol ipn_name)"
  by (simp add: good_end_def example_end_def ipn_name_def TCPV4_MAX_NODEID_LEN_def) code_simp


lemma example_end_name [simp]: "ng_nodeId (example_end k pol name) = name"
  by (simp add: example_end_def)

lemma example_establishes:
  "\<exists>conn'. tcpv4Establish (example_end 30 TCPV4_EIDPOL_NONE ipn_name)
      (example_neg active dialled (wire_contact (our_contact (example_end 20 TCPV4_EIDPOL_NONE ipn_name)) @
        wire_sess_init (our_init (example_end 20 TCPV4_EIDPOL_NONE ipn_name)))) = (0, conn') \<and>
    n_routeNodeId conn' = route_id (example_end 30 TCPV4_EIDPOL_NONE ipn_name) (example_neg active dialled
      (wire_contact (our_contact (example_end 20 TCPV4_EIDPOL_NONE ipn_name)) @
        wire_sess_init (our_init (example_end 20 TCPV4_EIDPOL_NONE ipn_name)))) ipn_name False"
proof -
  let ?a = "example_end 30 TCPV4_EIDPOL_NONE ipn_name" and ?b = "example_end 20 TCPV4_EIDPOL_NONE ipn_name"
  have io: "net_ok (ng_io ?a) fst snd" by (simp add: example_end_def pipe_net)
  have t: "\<not> (can_tls ?a \<and> can_tls ?b)" "cfg_tlsPolicy (ng_cfg ?a) \<noteq> TCPV4_TLS_REQUIRE"
    by (simp_all add: can_tls_def example_end_def TCPV4_TLS_DISABLE_def TCPV4_TLS_REQUIRE_def)
  show ?thesis
    using tcpv4Establish_net[OF io example_neg_ok(1) _ t example_neg_ok(3,4) example_end_good example_end_good,
      of active dialled _ "[]"] by (simp add: example_neg_ok example_end_name) blast
qed
section \<open>Properties\<close>

text \<open>C6: a session \<open>tcpv4Establish\<close> returns 0 for is in \<open>TCS_ESTABLISHED\<close> with its idle counters at
  zero, was not marked busy, has MTUs that are not zero and a keepalive no longer than the one
  configured; it uses TLS when policy requires TLS and does not when policy disables it, and when it
  uses TLS with verification, the peer's certificate passed the checks of key usage and purpose.\<close>

theorem established_session_sound:
  assumes "tcpv4Establish e conn = (0, conn')" "\<not> c_tls conn"
  shows "c_state conn' = TCS_ESTABLISHED \<and> c_secSinceRx conn' = 0 \<and> c_secSinceTx conn' = 0 \<and> \<not> n_busy conn \<and>
    n_segmentMtu conn' \<noteq> 0 \<and> n_transferMtu conn' \<noteq> 0 \<and> n_keepalive conn' \<le> cfg_keepalive (ng_cfg e) \<and>
    (cfg_tlsPolicy (ng_cfg e) = TCPV4_TLS_REQUIRE \<longrightarrow> c_tls conn') \<and>
    (cfg_tlsPolicy (ng_cfg e) = TCPV4_TLS_DISABLE \<longrightarrow> \<not> c_tls conn') \<and>
    (c_tls conn' \<and> \<not> cfg_noVerify (ng_cfg e) \<longrightarrow>
      (\<exists>w. ng_tlsCheckKeyUsage e w \<noteq> TCPV4_KU_WRONG \<and> ng_tlsCheckKeyPurpose e w \<noteq> TCPV4_EKU_WRONG \<and>
        (cfg_ekuPolicy (ng_cfg e) = TCPV4_EKUPOL_REQUIRE \<longrightarrow> ng_tlsCheckKeyPurpose e w \<noteq> TCPV4_EKU_NO_BUNDLE)))"
proof -
  obtain c peer c2 where x: "applySessInit e c peer = (0, c2)"
    "conn' = c2 \<lparr> c_state := TCS_ESTABLISHED, c_secSinceRx := 0, c_secSinceTx := 0, c_secSinceData := 0 \<rparr>"
    "\<not> n_busy conn" "cfg_tlsPolicy (ng_cfg e) = TCPV4_TLS_REQUIRE \<longrightarrow> c_tls c"
    "c_tls c \<longrightarrow> cfg_tlsPolicy (ng_cfg e) \<noteq> TCPV4_TLS_DISABLE \<and> (cfg_noVerify (ng_cfg e) \<or> (\<exists>w. profile_ok e w))"
    using tcpv4Establish_accepts[OF assms] by blast
  from applySessInit_accepts[OF x(1)] show ?thesis using x(2-5) unfolding profile_ok_def by auto
qed

text \<open>C3: a session that came out of \<open>tcpv4Establish\<close> with a route node ID rests it on one of three
  grounds: the certificate of a verified TLS peer matched the very node ID the peer claims, which
  is then the route; or we opened the session, and the route is the node ID of our egress plan,
  which the peer's claim, if it makes one, matches; or we accepted it under \<open>-E none\<close>, and the route
  is the unchecked claim.\<close>

theorem route_id_evidence:
  assumes "tcpv4Establish e conn = (0, conn')" "\<not> c_tls conn" "n_routeNodeId conn' \<noteq> []"
  shows "if n_nodeIdAuthenticated conn' then
      c_tls conn' \<and> \<not> cfg_noVerify (ng_cfg e) \<and> cfg_eidPolicy (ng_cfg e) \<noteq> TCPV4_EIDPOL_NONE \<and>
      (\<exists>w. ng_tlsMatchNodeId e w (n_peerNodeId conn') = TCPV4_NODEID_SUCCESS) \<and>
      n_routeNodeId conn' = n_peerNodeId conn'
    else if n_activeRole conn then
      n_routeNodeId conn' = istrcpy (n_dialNodeId conn) TCPV4_MAX_NODEID_LEN \<and>
      (tcpv4NodeIdIsSet (Some (n_peerNodeId conn')) \<longrightarrow>
       tcpv4NodeIdMatches (Some (n_peerNodeId conn')) (Some (n_dialNodeId conn)))
    else cfg_eidPolicy (ng_cfg e) = TCPV4_EIDPOL_NONE \<and> n_routeNodeId conn' = n_peerNodeId conn'"
proof -
  obtain c peer c2 where x: "applySessInit e c peer = (0, c2)"
    "conn' = c2 \<lparr> c_state := TCS_ESTABLISHED, c_secSinceRx := 0, c_secSinceTx := 0, c_secSinceData := 0 \<rparr>"
    "n_activeRole c = n_activeRole conn" "n_dialNodeId c = n_dialNodeId conn"
    using tcpv4Establish_accepts[OF assms(1,2)] by blast
  obtain authenticated where a: "authenticate_id e c (claimed_id peer) = Some authenticated"
    and c2: "c2 = c \<lparr> n_segmentMtu := si_segmentMru peer, n_transferMtu := si_transferMru peer,
      n_keepalive := (if uint (si_keepalive peer) < cfg_keepalive (ng_cfg e)
                      then uint (si_keepalive peer) else cfg_keepalive (ng_cfg e)),
      n_peerNodeId := istrcpy (claimed_id peer) TCPV4_MAX_NODEID_LEN,
      n_nodeIdAuthenticated := authenticated,
      n_routeNodeId := route_id e c (claimed_id peer) authenticated \<rparr>"
    using applySessInit_accepts[OF x(1)] by blast
  have route: "n_routeNodeId conn' = route_id e c (claimed_id peer) authenticated"
    "n_peerNodeId conn' = claimed_id peer" "n_nodeIdAuthenticated conn' = authenticated" "c_tls conn' = c_tls c"
    by (simp_all add: x(2) c2)
  show ?thesis
  proof (cases authenticated)
    case True
    then show ?thesis using authenticate_id_True[of e c "claimed_id peer"] a route
      by (auto simp: route_id_def)
  next
    case False
    then show ?thesis using route x(3,4) assms(3) by (auto simp: route_id_def split: if_splits)
  qed
qed

text \<open>C37: a peer that names no node ID at all is past the NODE-ID check whatever the policy: even with
  \<open>-E require\<close> under verified TLS its SESS_INIT is accepted, its node ID stays unauthenticated, and
  the session, when we opened it, routes to the node we dialled.\<close>

theorem unnamed_peer_not_authenticated:
  assumes "si_nodeIdLen peer = 0" "si_segmentMru peer \<noteq> 0" "si_transferMru peer \<noteq> 0" "si_sessExtLen peer = 0"
    and "n_activeRole conn" "length (n_dialNodeId conn) < TCPV4_MAX_NODEID_LEN"
  shows "\<exists>conn'. applySessInit e conn peer = (0, conn') \<and> \<not> n_nodeIdAuthenticated conn' \<and>
    n_peerNodeId conn' = [] \<and> n_routeNodeId conn' = n_dialNodeId conn"
proof -
  have "\<not> critical_from (octets (si_sessExt peer)) (unat (si_sessExtLen peer)) 0"
    by (subst critical_from.simps) (simp add: assms(4) tcpv4MsgNextExtItem_def)
  moreover have "claimed_id peer = []" by (simp add: claimed_id_def assms(1))
  ultimately show ?thesis
    using assms by (simp add: applySessInit_def authenticate_id_unnamed route_id_def istrcpy_fits istrcpy_def)
qed

text \<open>C2: the active end of a connection and the passive end, configured in the documented ranges and not both able to
  use TLS where neither requires it, over a network that works.  Each is given to read only what the other has sent
  in earlier rounds of their conversation.  From the third round on both have established the session and nothing more
  is sent; until then each round only adds to what was sent before.  The ends agree on the keepalive interval, and each
  is bound by the MRUs of the other and knows it by the name it gives itself.\<close>

theorem ends_establish_alike:
  assumes "net_ok (ng_io a) inp out" "net_ok (ng_io b) inp' out'" "fresh_end inp out True ca" "fresh_end inp' out' False cb"
    and "\<not> (can_tls a \<and> can_tls b)" "cfg_tlsPolicy (ng_cfg a) \<noteq> TCPV4_TLS_REQUIRE"
    and "cfg_tlsPolicy (ng_cfg b) \<noteq> TCPV4_TLS_REQUIRE" "good_end a" "good_end b" "3 \<le> n"
  shows "\<exists>sent_a sent_b ca' cb'. dialogue (says out a ca) (says out' b cb) n = (sent_a, sent_b) \<and>
    dialogue (says out a ca) (says out' b cb) (Suc n) = (sent_a, sent_b) \<and>
    (\<forall>k. (\<exists>more_a. sent_a = fst (dialogue (says out a ca) (says out' b cb) k) @ more_a) \<and>
         (\<exists>more_b. sent_b = snd (dialogue (says out a ca) (says out' b cb) k) @ more_b)) \<and>
    tcpv4Establish a (ca sent_b) = (0, ca') \<and> tcpv4Establish b (cb sent_a) = (0, cb') \<and>
    out (c_world ca') = sent_a \<and> out' (c_world cb') = sent_b \<and> pending inp ca' = [] \<and> pending inp' cb' = [] \<and>
    c_state ca' = TCS_ESTABLISHED \<and> c_state cb' = TCS_ESTABLISHED \<and>
    n_keepalive ca' = n_keepalive cb' \<and>
    uint (n_segmentMtu ca') = cfg_segmentMru (ng_cfg b) \<and> uint (n_segmentMtu cb') = cfg_segmentMru (ng_cfg a) \<and>
    uint (n_transferMtu ca') = cfg_transferMru (ng_cfg b) \<and> uint (n_transferMtu cb') = cfg_transferMru (ng_cfg a) \<and>
    n_peerNodeId ca' = ng_nodeId b \<and> n_peerNodeId cb' = ng_nodeId a"
proof -
  let ?C = "wire_contact (our_contact a)" and ?I = "wire_sess_init (our_init a)"
  let ?C' = "wire_contact (our_contact b)" and ?I' = "wire_sess_init (our_init b)"
  let ?D = "dialogue (says out a ca) (says out' b cb)"
  note fa = fresh_endD[OF assms(3)] and fb = fresh_endD[OF assms(4)]
  have swap: "\<not> (can_tls b \<and> can_tls a)" using assms(5) by blast
  obtain ca' where a: "tcpv4Establish a (ca (?C' @ ?I')) = (0, ca')" "agreed a b ca'" "c_state ca' = TCS_ESTABLISHED"
    "out (c_world ca') = ?C @ ?I" "pending inp ca' = []"
    using tcpv4Establish_net[OF assms(1) fa(1) _ assms(5,6) fa(4,5) assms(8,9), of "?C' @ ?I'" "[]"] fa(2,3) by auto
  obtain cb' where b: "tcpv4Establish b (cb (?C @ ?I)) = (0, cb')" "agreed b a cb'" "c_state cb' = TCS_ESTABLISHED"
    "out' (c_world cb') = ?C' @ ?I'" "pending inp' cb' = []"
    using tcpv4Establish_net[OF assms(2) fb(1) _ swap assms(7) fb(4,5) assms(9,8), of "?C @ ?I" "[]"] fb(2,3) by auto
  have sa: "says out a ca (?C' @ ?I') = ?C @ ?I" and sb: "says out' b cb (?C @ ?I) = ?C' @ ?I'"
    using a b by (simp_all add: says_def)
  note first = says_first[OF assms(1,3)] says_first[OF assms(2,4)]
  have d: "?D 1 = (?C, [])" "?D 2 = (?C, ?C' @ ?I')" "?D 3 = (?C @ ?I, ?C' @ ?I')" "?D (Suc 3) = ?D 3"
    using first sa sb says_after_contact[OF assms(2,4) swap assms(7,9)] by (simp_all add: numeral_2_eq_2 numeral_3_eq_3)
  note settled = dialogue_settles[OF d(4)]
  have Dn: "?D n = (?C @ ?I, ?C' @ ?I')" "?D (Suc n) = (?C @ ?I, ?C' @ ?I')"
    using settled[of n] settled[of "Suc n"] assms(10) d(3) by (simp_all del: dialogue.simps)
  have grows: "(\<exists>more_a. ?C @ ?I = fst (?D k) @ more_a) \<and> (\<exists>more_b. ?C' @ ?I' = snd (?D k) @ more_b)" for k
  proof -
    consider "k = 0" | "k = 1" | "k = 2" | "3 \<le> k" by linarith
    then show ?thesis using d(1,2,3) settled[of k] by cases (simp_all del: dialogue.simps(2))
  qed
  show ?thesis
    by (intro exI[of _ "?C @ ?I"] exI[of _ "?C' @ ?I'"] exI[of _ ca'] exI[of _ cb'])
      (use Dn grows a b in \<open>simp add: agreed_def min.commute del: dialogue.simps\<close>)
qed

text \<open>Ends of the example over pipes.\<close>

theorem ends_establish_alike_witness:
  "\<exists>sent_a sent_b ca' cb'.
    dialogue (says snd (example_end 30 TCPV4_EIDPOL_NONE ipn_name) (example_neg True ipn_name))
      (says snd (example_end 20 TCPV4_EIDPOL_NONE ipn_name) (example_neg False [])) 3 = (sent_a, sent_b) \<and>
    tcpv4Establish (example_end 30 TCPV4_EIDPOL_NONE ipn_name) (example_neg True ipn_name sent_b) = (0, ca') \<and>
    tcpv4Establish (example_end 20 TCPV4_EIDPOL_NONE ipn_name) (example_neg False [] sent_a) = (0, cb') \<and>
    n_keepalive ca' = n_keepalive cb'"
proof -
  let ?a = "example_end 30 TCPV4_EIDPOL_NONE ipn_name" and ?b = "example_end 20 TCPV4_EIDPOL_NONE ipn_name"
  have io: "net_ok (ng_io ?a) fst snd" "net_ok (ng_io ?b) fst snd"
    by (simp_all add: example_end_def pipe_net)
  have f: "fresh_end fst snd True (example_neg True ipn_name)" "fresh_end fst snd False (example_neg False [])"
    by (simp_all add: fresh_end_def example_neg_ok)
  have t: "\<not> (can_tls ?a \<and> can_tls ?b)" "cfg_tlsPolicy (ng_cfg ?a) \<noteq> TCPV4_TLS_REQUIRE" "cfg_tlsPolicy (ng_cfg ?b) \<noteq> TCPV4_TLS_REQUIRE"
    by (simp_all add: can_tls_def example_end_def TCPV4_TLS_DISABLE_def TCPV4_TLS_REQUIRE_def)
  show ?thesis
    using ends_establish_alike[OF io f t example_end_good example_end_good order_refl] by (simp del: dialogue.simps) blast
qed

theorem established_session_sound_witness:
  "\<exists>conn'. tcpv4Establish (example_end 30 TCPV4_EIDPOL_NONE ipn_name)
      (example_neg False [] (wire_contact (our_contact (example_end 20 TCPV4_EIDPOL_NONE ipn_name)) @
        wire_sess_init (our_init (example_end 20 TCPV4_EIDPOL_NONE ipn_name)))) = (0, conn') \<and>
    n_segmentMtu conn' \<noteq> 0 \<and> \<not> c_tls conn'"
proof -
  let ?i = "wire_contact (our_contact (example_end 20 TCPV4_EIDPOL_NONE ipn_name)) @
        wire_sess_init (our_init (example_end 20 TCPV4_EIDPOL_NONE ipn_name))"
  obtain conn' where "tcpv4Establish (example_end 30 TCPV4_EIDPOL_NONE ipn_name) (example_neg False [] ?i) = (0, conn')"
    using example_establishes[of False "[]"] by blast
  then show ?thesis using established_session_sound[OF _ example_neg_ok(3)]
    by (force simp: example_end_def)
qed

theorem route_id_evidence_witness:
  "\<exists>conn'. tcpv4Establish (example_end 30 TCPV4_EIDPOL_NONE ipn_name)
      (example_neg True ipn_name (wire_contact (our_contact (example_end 20 TCPV4_EIDPOL_NONE ipn_name)) @
        wire_sess_init (our_init (example_end 20 TCPV4_EIDPOL_NONE ipn_name)))) = (0, conn') \<and>
    (n_nodeIdAuthenticated conn' \<or> n_routeNodeId conn' = ipn_name)"
proof -
  let ?i = "wire_contact (our_contact (example_end 20 TCPV4_EIDPOL_NONE ipn_name)) @
        wire_sess_init (our_init (example_end 20 TCPV4_EIDPOL_NONE ipn_name))"
  have "tcpv4NodeIdMatches (Some ipn_name) (Some ipn_name)" by code_simp
  then have "route_id (example_end 30 TCPV4_EIDPOL_NONE ipn_name) (example_neg True ipn_name ?i) ipn_name False = ipn_name"
    by (simp add: route_id_def example_neg_ok istrcpy_def TCPV4_MAX_NODEID_LEN_def ipn_name_def)
  then obtain conn' where "tcpv4Establish (example_end 30 TCPV4_EIDPOL_NONE ipn_name) (example_neg True ipn_name ?i) = (0, conn')"
    "n_routeNodeId conn' = ipn_name"
    using example_establishes[of True ipn_name] by auto
  then show ?thesis using route_id_evidence[OF _ example_neg_ok(3)]
    by (intro exI[of _ conn']) (auto simp: ipn_name_def example_neg_ok istrcpy_def TCPV4_MAX_NODEID_LEN_def)
qed

theorem unnamed_peer_not_authenticated_witness:
  "\<exists>conn'. applySessInit (example_end 30 TCPV4_EIDPOL_REQUIRE ipn_name) (example_neg True ipn_name [])
      \<lparr>si_keepalive = 10, si_segmentMru = 5, si_transferMru = 5, si_nodeId = None, si_nodeIdLen = 0,
       si_sessExt = None, si_sessExtLen = 0\<rparr> = (0, conn') \<and> n_routeNodeId conn' = ipn_name"
proof -
  let ?p = "\<lparr>si_keepalive = 10, si_segmentMru = 5, si_transferMru = 5, si_nodeId = None, si_nodeIdLen = 0,
       si_sessExt = None, si_sessExtLen = 0\<rparr>"
  have "length (n_dialNodeId (example_neg True ipn_name [])) < TCPV4_MAX_NODEID_LEN"
    by (simp add: example_neg_ok ipn_name_def TCPV4_MAX_NODEID_LEN_def)
  from unnamed_peer_not_authenticated[of ?p "example_neg True ipn_name []" "example_end 30 TCPV4_EIDPOL_REQUIRE ipn_name",
      OF _ _ _ _ _ this] show ?thesis
    by (auto simp: example_neg_ok)
qed

end
