(* ===== verification/Tcpv4Session.thy ===== *)
theory Tcpv4Session
  imports Tcpv4Negotiate
begin

text \<open>
  The session list (CLA/tcpv4/src/tcpv4session.c) and the choice of a session for a bundle
  (tcpv4tx.c): accepting and dialling, the reconnection backoff, the clock, the reaping of sessions
  that are over, and the end of the engine.

  A session is a \<open>Tcpv4Conn\<close>; its \<open>c_world\<close> is the world of its socket, and a pointer to it is its
  \<open>n_id\<close>.  The list runs newest first, as in the code.  A section under \<open>e->mutex\<close> is one step, and
  so is a tick of the clock with what it sends; what other threads do between two sections of a
  function is an argument of it.  Sockets, \<open>MTAKE\<close>, \<open>pthread_begin\<close> and \<open>rand_r\<close> are arguments.
  \<open>secSinceData\<close> is written by the transmission and the reception parts of a session, each in its
  own record: the counter of the code is the smaller of the two.

  The lemmas show which session a bundle is queued on, that the backoff stays within its bounds, that
  a session that does not get anywhere is given up, and, over every interleaving of the threads, that
  the session count is right, that negotiation is rationed per peer address and that no session is
  freed while a sender holds it.
\<close>

section \<open>Model: the engine\<close>

definition TCPV4_CONTACT_TIMEOUT :: int where "TCPV4_CONTACT_TIMEOUT = 60"
definition TCPV4_MAX_RECONNECT :: int where "TCPV4_MAX_RECONNECT = 60"
definition TCPV4_BUSY_SLACK :: int where "TCPV4_BUSY_SLACK = 8"
definition TCPV4_MAX_PEER_NEGOTIATING :: int where "TCPV4_MAX_PEER_NEGOTIATING = 4"
definition TCPV4_MAX_HOST_LEN :: nat where "TCPV4_MAX_HOST_LEN = 256"
definition TCPV4_DEFAULT_SEGMENT_MRU :: u64 where "TCPV4_DEFAULT_SEGMENT_MRU = 64 * 1024"
definition TCPV4CLA_BUFSZ :: u64 where "TCPV4CLA_BUFSZ = 256 * 1024"

record Tcpv4Dial =
  d_id :: nat
  d_nodeId :: bytes
  d_interval :: int
  d_secUntilRetry :: int

record Tcpv4Tick =
  t_sendKa :: bool
  t_sendTerm :: bool
  t_timedOut :: bool

record 'w SessEngine =
  g_conns :: "'w Tcpv4Conn list"
  g_connCount :: int
  g_maxSessions :: int
  g_idleSec :: int
  g_dials :: "Tcpv4Dial list"
  g_randState :: nat
  g_running :: bool

text \<open>Writing through a pointer to a session or to a \<open>Tcpv4Dial\<close>.\<close>

definition upd_conn :: "nat \<Rightarrow> ('w Tcpv4Conn \<Rightarrow> 'w Tcpv4Conn) \<Rightarrow> 'w SessEngine \<Rightarrow> 'w SessEngine" where
  "upd_conn i f e = e \<lparr> g_conns := map (\<lambda>c. if n_id c = i then f c else c) (g_conns e) \<rparr>"

definition upd_dial :: "nat \<Rightarrow> (Tcpv4Dial \<Rightarrow> Tcpv4Dial) \<Rightarrow> 'w SessEngine \<Rightarrow> 'w SessEngine" where
  "upd_dial i f e = e \<lparr> g_dials := map (\<lambda>d. if d_id d = i then f d else d) (g_dials e) \<rparr>"

section \<open>Model: the session a bundle goes to\<close>

fun find_session ::
    "bytes \<Rightarrow> 'w Tcpv4Conn list \<Rightarrow> 'w Tcpv4Conn option \<Rightarrow> bool \<Rightarrow> 'w Tcpv4Conn option \<times> bool" where
  "find_session nodeId [] best exists = (best, exists)"
| "find_session nodeId (conn # conns) best exists =
     (if c_failed conn \<or> n_receiverDone conn then find_session nodeId conns best exists
      else if c_state conn = TCS_ENDING then find_session nodeId conns best exists
      else if c_state conn \<noteq> TCS_ESTABLISHED then
        find_session nodeId conns best
          (if tcpv4NodeIdMatches (Some (n_dialNodeId conn)) (Some nodeId) then True else exists)
      else if \<not> tcpv4NodeIdMatches (Some (n_routeNodeId conn)) (Some nodeId) then
        find_session nodeId conns best exists
      else
        find_session nodeId conns
          (case best of
             None \<Rightarrow> Some conn
           | Some b \<Rightarrow> if (of_bool (n_nodeIdAuthenticated conn) :: int) \<ge> of_bool (n_nodeIdAuthenticated b)
                       then Some conn else best) True)"

definition findConn :: "'w SessEngine \<Rightarrow> bytes \<Rightarrow> 'w Tcpv4Conn option \<times> bool \<times> 'w SessEngine" where
  "findConn e nodeId =
     (if \<not> tcpv4NodeIdIsSet (Some nodeId) then (None, False, e)
      else
        (let (best, exists) = find_session nodeId (g_conns e) None False
         in (best, exists,
             case best of
               None \<Rightarrow> e
             | Some b \<Rightarrow> upd_conn (n_id b) (\<lambda>c. c \<lparr> n_txSenders := n_txSenders c + 1 \<rparr>) e)))"

definition releaseConn :: "'w SessEngine \<Rightarrow> nat \<Rightarrow> 'w SessEngine" where
  "releaseConn e i = upd_conn i (\<lambda>c. c \<lparr> n_txSenders := n_txSenders c - 1 \<rparr>) e"

text \<open>One pass of the loop of \<open>tcpv4EngineSendTo\<close>.\<close>

datatype pass = NoSession | Found nat | AwaitSession | DialFirst

definition send_pass :: "'w SessEngine \<Rightarrow> bytes \<Rightarrow> bool \<Rightarrow> pass \<times> 'w SessEngine" where
  "send_pass e nodeId dialed =
     (if \<not> g_running e then (NoSession, e)
      else
        (let (conn, exists, e) = findConn e nodeId
         in case conn of
              Some c \<Rightarrow> (Found (n_id c), e)
            | None \<Rightarrow> (if exists then (AwaitSession, e) else if dialed then (NoSession, e) else (DialFirst, e))))"

text \<open>
  The loop.  In pass \<open>k\<close>, \<open>await k\<close> is the wait on \<open>e->cond\<close> (whether it timed out, and the engine as
  the other threads left it) and \<open>dial k\<close> the call of \<open>tcpv4OpenSession\<close>.
\<close>

partial_function (option) claim_loop ::
    "(nat \<Rightarrow> 'w SessEngine \<Rightarrow> bool \<times> 'w SessEngine) \<Rightarrow> (nat \<Rightarrow> 'w SessEngine \<Rightarrow> int \<times> 'w SessEngine) \<Rightarrow>
     bytes \<Rightarrow> bool \<Rightarrow> nat \<Rightarrow> 'w SessEngine \<Rightarrow> (nat option \<times> 'w SessEngine) option" where
  "claim_loop await dial nodeId dialed k e =
     (case send_pass e nodeId dialed of
        (NoSession, e) \<Rightarrow> Some (None, e)
      | (Found i, e) \<Rightarrow> Some (Some i, e)
      | (AwaitSession, e) \<Rightarrow>
          (let (timedOut, e) = await k e
           in if timedOut then Some (None, e) else claim_loop await dial nodeId dialed (k + 1) e)
      | (DialFirst, e) \<Rightarrow>
          (let (n, e) = dial k e
           in if n < 0 then Some (None, e) else claim_loop await dial nodeId True (k + 1) e))"

declare claim_loop.simps [code]

text \<open>\<open>others\<close> is what happens while the sender waits for the window; \<open>queueXfer\<close> is of Tcpv4Tx.\<close>

definition tcpv4EngineSendTo ::
    "(nat \<Rightarrow> 'w SessEngine \<Rightarrow> bool \<times> 'w SessEngine) \<Rightarrow> (nat \<Rightarrow> 'w SessEngine \<Rightarrow> int \<times> 'w SessEngine) \<Rightarrow>
     ('w SessEngine \<Rightarrow> 'w SessEngine) \<Rightarrow> addr option \<Rightarrow> bool \<Rightarrow>
     'w SessEngine \<Rightarrow> bytes \<Rightarrow> object \<Rightarrow> int \<Rightarrow> (int \<times> 'w SessEngine) option" where
  "tcpv4EngineSendTo await dial others taken timedOut e nodeId bundle len =
     (case claim_loop await dial nodeId False 0 e of
        None \<Rightarrow> None
      | Some (None, e) \<Rightarrow> Some (-1, e)
      | Some (Some i, e) \<Rightarrow>
          (let e = others e
           in case find (\<lambda>c. n_id c = i) (g_conns e) of
                None \<Rightarrow> None
              | Some conn \<Rightarrow>
                  (case queueXfer (n_transferMtu conn) (c_tx conn) taken timedOut bundle len of
                     None \<Rightarrow> None
                   | Some (result, tx) \<Rightarrow>
                       Some (result, releaseConn (upd_conn i (\<lambda>c. c \<lparr> c_tx := tx \<rparr>) e) i))))"

section \<open>Model: sessions come and go\<close>

text \<open>Whether \<open>noteDuplicateSession\<close> finds a second session to the node.\<close>

definition noteDuplicateSession :: "'w SessEngine \<Rightarrow> 'w Tcpv4Conn \<Rightarrow> bool" where
  "noteDuplicateSession e conn \<longleftrightarrow>
     tcpv4NodeIdIsSet (Some (n_routeNodeId conn)) \<and>
     (\<exists>other \<in> set (g_conns e).
        \<not> (n_id other = n_id conn \<or> c_failed other \<or> n_receiverDone other \<or> c_state other \<noteq> TCS_ESTABLISHED) \<and>
        tcpv4NodeIdMatches (Some (n_routeNodeId other)) (Some (n_routeNodeId conn)))"

text \<open>A session cleared and filled in; \<open>w\<close> is the world of its socket.\<close>

definition new_conn :: "'w \<Rightarrow> nat \<Rightarrow> int \<Rightarrow> bool \<Rightarrow> bytes option \<Rightarrow> bytes option \<Rightarrow> bool \<Rightarrow> 'w Tcpv4Conn" where
  "new_conn w i sock activeRole nodeId peerAddr busy =
     \<lparr>c_sock = sock, c_tls = False, c_failed = False, c_rxBuf = None, c_rxBufLen = 0, c_rxBufOff = 0,
      c_secSinceTx = 0, c_world = w, c_state = TCS_NEGOTIATING, c_termSent = False, c_rxBundle = [], c_rxCap = 0,
      c_rxLen = 0, c_rxId = 0, c_rxActive = False, c_rxRefused = False, c_dlvBundle = [], c_dlvCap = 0,
      c_dlvLen = 0, c_dlvId = 0, c_dlvFlags = 0, c_dlvPending = False, c_dlvStopped = False, c_dlvFailed = False,
      c_secSinceRx = 0, c_secSinceData = 0, c_tx = tx_init, n_activeRole = activeRole, n_peerNodeId = [],
      n_dialNodeId = (case nodeId of None \<Rightarrow> [] | Some s \<Rightarrow> istrcpy s TCPV4_MAX_NODEID_LEN),
      n_routeNodeId = (case nodeId of None \<Rightarrow> [] | Some s \<Rightarrow> istrcpy s TCPV4_MAX_NODEID_LEN),
      n_peerAuthenticated = False, n_nodeIdAuthenticated = False, n_busy = busy, n_keepalive = 0,
      n_segmentMtu = TCPV4_DEFAULT_SEGMENT_MRU, n_transferMtu = TCPV4CLA_BUFSZ, n_id = i, n_receiverDone = False,
      n_peerAddr = (case peerAddr of None \<Rightarrow> [] | Some a \<Rightarrow> istrcpy a TCPV4_MAX_HOST_LEN),
      n_txSenders = 0, n_secNegotiating = 0\<rparr>"

text \<open>\<open>taken\<close> is what \<open>MTAKE\<close> returned and \<open>began\<close> whether the receiver thread was started.\<close>

definition startConn ::
    "nat option \<Rightarrow> bool \<Rightarrow> 'w \<Rightarrow> 'w SessEngine \<Rightarrow> int \<Rightarrow> bool \<Rightarrow> bytes option \<Rightarrow> bytes option \<Rightarrow> bool \<Rightarrow>
     nat option \<times> 'w SessEngine" where
  "startConn taken began w e sock activeRole nodeId peerAddr busy =
     (case taken of
        None \<Rightarrow> (None, e)
      | Some i \<Rightarrow>
          (let e = e \<lparr> g_conns := new_conn w i sock activeRole nodeId peerAddr busy # g_conns e,
                       g_connCount := g_connCount e + 1 \<rparr>
           in if began then (Some i, e)
              else (None, upd_conn i (\<lambda>c. c \<lparr> c_sock := -1, c_failed := True, n_receiverDone := True \<rparr>) e)))"

text \<open>The end of \<open>receiverThread\<close>, after the message loop or when no session was established.\<close>

definition receiver_ends :: "'w Io \<Rightarrow> bool \<Rightarrow> 'w Tcpv4Conn \<Rightarrow> 'w Tcpv4Conn" where
  "receiver_ends io established conn =
     (let conn = (if established then
                    (let conn = tcpv4ConnFail io conn
                     in tcpv4DeliveryStop (conn \<lparr> c_tx := tcpv4TxStop (c_tx conn) \<rparr>))
                  else conn);
          conn = tcpv4ConnFail io conn
      in conn \<lparr> n_receiverDone := True \<rparr>)"

text \<open>\<open>freeConn\<close>: every bundle left is reported; the rest is releasing.\<close>

definition freeConn :: "'w Tcpv4Conn \<Rightarrow> TxState option" where
  "freeConn conn = tcpv4TxDrain (c_tx conn)"

definition reapable :: "'w Tcpv4Conn \<Rightarrow> bool" where
  "reapable conn \<longleftrightarrow> n_receiverDone conn \<and> n_txSenders conn = 0"

text \<open>The sessions freed, in the order in which they are, and the engine.\<close>

definition reapConns :: "'w SessEngine \<Rightarrow> 'w Tcpv4Conn list \<times> 'w SessEngine" where
  "reapConns e =
     (let dead = filter reapable (g_conns e)
      in (rev dead, e \<lparr> g_conns := filter (\<lambda>c. \<not> reapable c) (g_conns e),
                        g_connCount := g_connCount e - int (length dead) \<rparr>))"

section \<open>Model: accepting\<close>

definition negotiating_with :: "bytes \<Rightarrow> 'w Tcpv4Conn \<Rightarrow> bool" where
  "negotiating_with host conn \<longleftrightarrow>
     \<not> (c_failed conn \<or> n_receiverDone conn \<or> c_state conn \<noteq> TCS_NEGOTIATING) \<and> n_peerAddr conn = host"

definition countNegotiating :: "'w SessEngine \<Rightarrow> bytes \<Rightarrow> int" where
  "countNegotiating e peerHost =
     (if peerHost = [] then 0 else int (length (filter (negotiating_with peerHost) (g_conns e))))"

text \<open>What the accept thread decides about a connection; \<open>Admit\<close> says whether it is marked busy.\<close>

datatype admission = RefusePeer | RefuseLimit | Admit bool

definition admit :: "'w SessEngine \<Rightarrow> bytes \<Rightarrow> admission" where
  "admit e peerHost =
     (let negotiating = countNegotiating e peerHost; connCount = g_connCount e
      in if peerHost \<noteq> [] \<and> negotiating \<ge> TCPV4_MAX_PEER_NEGOTIATING then RefusePeer
         else if connCount \<ge> g_maxSessions e + TCPV4_BUSY_SLACK then RefuseLimit
         else Admit (connCount \<ge> g_maxSessions e))"

section \<open>Model: the clock\<close>

definition idle_for :: "'w Tcpv4Conn \<Rightarrow> int" where
  "idle_for conn = min (c_secSinceData conn) (secSinceData (c_tx conn))"

definition bump :: "'w Tcpv4Conn \<Rightarrow> 'w Tcpv4Conn" where
  "bump conn = conn \<lparr> c_secSinceTx := c_secSinceTx conn + 1, c_secSinceRx := c_secSinceRx conn + 1,
     c_secSinceData := c_secSinceData conn + 1,
     c_tx := (c_tx conn) \<lparr> secSinceData := secSinceData (c_tx conn) + 1 \<rparr> \<rparr>"

text \<open>The second of one session under the lock, and what it is to be done outside.\<close>

definition tick_conn :: "int \<Rightarrow> 'w Tcpv4Conn \<Rightarrow> 'w Tcpv4Conn \<times> Tcpv4Tick" where
  "tick_conn idleSec conn =
     (let conn = bump conn
      in if c_state conn = TCS_NEGOTIATING then
           (let conn = conn \<lparr> n_secNegotiating := n_secNegotiating conn + 1 \<rparr>
            in (conn, \<lparr>t_sendKa = False, t_sendTerm = False,
                       t_timedOut = (n_secNegotiating conn > TCPV4_CONTACT_TIMEOUT)\<rparr>))
         else
           (let term = (idleSec > 0 \<and> c_state conn = TCS_ESTABLISHED \<and> \<not> c_termSent conn \<and>
                        \<not> txActive (c_tx conn) \<and> \<not> c_rxActive conn \<and> idle_for conn \<ge> idleSec)
            in (if term then conn \<lparr> c_termSent := True, c_state := TCS_ENDING \<rparr> else conn,
                \<lparr>t_sendKa = (n_keepalive conn > 0 \<and> c_secSinceTx conn \<ge> n_keepalive conn), t_sendTerm = term,
                 t_timedOut = (n_keepalive conn > 0 \<and> c_secSinceRx conn > 2 * n_keepalive conn)\<rparr>)))"

definition tick_act :: "'w Io \<Rightarrow> 'w Tcpv4Conn \<Rightarrow> Tcpv4Tick \<Rightarrow> 'w Tcpv4Conn" where
  "tick_act io conn tick =
     (if t_timedOut tick then tcpv4ConnFail io conn
      else if t_sendTerm tick then
        (let conn = conn \<lparr> c_tx := tcpv4TxStop (c_tx conn) \<rparr>;
             (n, conn) = tcpv4SendSessTerm io conn TMSG_TERM_IDLE_TIMEOUT False
         in if n < 0 then tcpv4ConnFail io conn else conn)
      else if t_sendKa tick then
        (let (n, conn) = tcpv4SendKeepalive io conn in if n < 0 then tcpv4ConnFail io conn else conn)
      else conn)"

text \<open>The walk of the list, with room for that many ticks.\<close>

fun tick_all :: "'w Io \<Rightarrow> int \<Rightarrow> nat \<Rightarrow> 'w Tcpv4Conn list \<Rightarrow> 'w Tcpv4Conn list" where
  "tick_all io idleSec room [] = []"
| "tick_all io idleSec room (conn # conns) =
     (if room = 0 then conn # conns
      else if c_failed conn \<or> n_receiverDone conn then conn # tick_all io idleSec room conns
      else (let (conn, tick) = tick_conn idleSec conn
            in tick_act io conn tick # tick_all io idleSec (room - 1) conns))"

definition clockTick :: "'w Io \<Rightarrow> 'w SessEngine \<Rightarrow> 'w Tcpv4Conn list \<times> 'w SessEngine" where
  "clockTick io e =
     reapConns (e \<lparr>
       g_dials := map (\<lambda>d. if d_secUntilRetry d > 0 then d \<lparr> d_secUntilRetry := d_secUntilRetry d - 1 \<rparr> else d)
                      (g_dials e),
       g_conns := tick_all io (g_idleSec e) (nat (g_maxSessions e + TCPV4_BUSY_SLACK)) (g_conns e) \<rparr>)"

section \<open>Model: backoff and dialling\<close>

definition findDial :: "nat option \<Rightarrow> 'w SessEngine \<Rightarrow> bytes \<Rightarrow> nat option \<times> 'w SessEngine" where
  "findDial taken e nodeId =
     (case find (\<lambda>d. tcpv4NodeIdMatches (Some (d_nodeId d)) (Some nodeId)) (g_dials e) of
        Some d \<Rightarrow> (Some (d_id d), e)
      | None \<Rightarrow>
          (case taken of
             None \<Rightarrow> (None, e)
           | Some i \<Rightarrow>
               (Some i, e \<lparr> g_dials := \<lparr>d_id = i, d_nodeId = istrcpy nodeId TCPV4_MAX_NODEID_LEN, d_interval = 1,
                                        d_secUntilRetry = 0\<rparr> # g_dials e \<rparr>)))"

text \<open>The backoff of one \<open>Tcpv4Dial\<close>, with the value \<open>rand_r\<close> returned.\<close>

definition back_off_dial :: "nat \<Rightarrow> Tcpv4Dial \<Rightarrow> Tcpv4Dial" where
  "back_off_dial r dial =
     (let half = d_interval dial div 2;
          interval = d_interval dial * 2
      in dial \<lparr> d_secUntilRetry := d_interval dial - half + int (r mod nat (half + 1)),
                d_interval := (if interval > TCPV4_MAX_RECONNECT then TCPV4_MAX_RECONNECT else interval) \<rparr>)"

definition backOff :: "(nat \<Rightarrow> nat \<times> nat) \<Rightarrow> 'w SessEngine \<Rightarrow> nat \<Rightarrow> 'w SessEngine" where
  "backOff rand_r e i =
     (let (r, s) = rand_r (g_randState e) in upd_dial i (back_off_dial r) (e \<lparr> g_randState := s \<rparr>))"

definition tcpv4DialOutcome ::
    "(nat \<Rightarrow> nat \<times> nat) \<Rightarrow> nat option \<Rightarrow> 'w SessEngine \<Rightarrow> 'w Tcpv4Conn \<Rightarrow> bool \<Rightarrow> 'w SessEngine" where
  "tcpv4DialOutcome rand_r taken e conn established =
     (if \<not> n_activeRole conn \<or> \<not> tcpv4NodeIdIsSet (Some (n_dialNodeId conn)) then e
      else
        (case findDial taken e (n_dialNodeId conn) of
           (None, e) \<Rightarrow> e
         | (Some i, e) \<Rightarrow>
             if established then upd_dial i (\<lambda>d. d \<lparr> d_interval := 1, d_secUntilRetry := 0 \<rparr>) e
             else backOff rand_r e i))"

text \<open>The first section of \<open>tcpv4OpenSession\<close>.\<close>

datatype dialling = AlreadyOpen | NotNow | MayDial nat

definition may_open :: "nat option \<Rightarrow> 'w SessEngine \<Rightarrow> bytes \<Rightarrow> dialling \<times> 'w SessEngine" where
  "may_open taken e nodeId =
     (if \<exists>conn \<in> set (g_conns e).
           \<not> (c_failed conn \<or> n_receiverDone conn \<or> c_state conn = TCS_ENDING) \<and>
           (tcpv4NodeIdMatches (Some (n_dialNodeId conn)) (Some nodeId) \<or>
            tcpv4NodeIdMatches (Some (n_routeNodeId conn)) (Some nodeId))
      then (AlreadyOpen, e)
      else
        (case findDial taken e nodeId of
           (None, e) \<Rightarrow> (NotNow, e)
         | (Some i, e) \<Rightarrow>
             if \<exists>d \<in> set (g_dials e). d_id d = i \<and> d_secUntilRetry d > 0 then (NotNow, e)
             else if g_connCount e \<ge> g_maxSessions e then (NotNow, e)
             else (MayDial i, e)))"

text \<open>
  What \<open>tcpv4OpenSession\<close> meets: whether the duct name parses, what other threads do while it
  connects, the result of connecting with the socket and its world, whether the socket can be
  watched, and what \<open>MTAKE\<close> and \<open>pthread_begin\<close> return.
\<close>

record 'w Dialler =
  v_takenDial :: "nat option"
  v_ductOk :: bool
  v_others :: "'w SessEngine \<Rightarrow> 'w SessEngine"
  v_connect :: "int \<times> int \<times> 'w"
  v_watch :: bool
  v_taken :: "nat option"
  v_began :: bool

definition tcpv4OpenSession ::
    "(nat \<Rightarrow> nat \<times> nat) \<Rightarrow> 'w Dialler \<Rightarrow> 'w SessEngine \<Rightarrow> bytes \<Rightarrow> int \<times> 'w SessEngine" where
  "tcpv4OpenSession rand_r v e nodeId =
     (case may_open (v_takenDial v) e nodeId of
        (AlreadyOpen, e) \<Rightarrow> (0, e)
      | (NotNow, e) \<Rightarrow> (-1, e)
      | (MayDial i, e) \<Rightarrow>
          if \<not> v_ductOk v then (-1, e)
          else
            (let e = v_others v e;
                 (result, sock, w) = v_connect v
             in if result < 1 then (-1, backOff rand_r e i)
                else if \<not> v_watch v then (-1, e)
                else (case startConn (v_taken v) (v_began v) w e sock True (Some nodeId) None False of
                        (None, e) \<Rightarrow> (-1, e)
                      | (Some x, e) \<Rightarrow> (0, e))))"

section \<open>Model: the end of the engine\<close>

fun term_all :: "'w Io \<Rightarrow> nat \<Rightarrow> 'w Tcpv4Conn list \<Rightarrow> 'w Tcpv4Conn list" where
  "term_all io room [] = []"
| "term_all io room (conn # conns) =
     (if room = 0 then conn # conns
      else if c_state conn = TCS_ESTABLISHED \<and> \<not> c_failed conn then
        snd (tcpv4SendSessTerm io conn TMSG_TERM_UNKNOWN False) # term_all io (room - 1) conns
      else conn # term_all io room conns)"

text \<open>The sessions as they are freed, and the engine that is left.\<close>

definition tcpv4EngineStop :: "'w Io \<Rightarrow> 'w SessEngine \<Rightarrow> TxState option list \<times> 'w SessEngine" where
  "tcpv4EngineStop io e =
     (let conns = map (\<lambda>c. c \<lparr> c_termSent := True \<rparr>) (g_conns e);
          conns = map (\<lambda>c. tcpv4DeliveryStop (c \<lparr> c_tx := tcpv4TxStop (c_tx c) \<rparr>)) conns;
          conns = term_all io (nat (g_maxSessions e + TCPV4_BUSY_SLACK)) conns;
          conns = map (tcpv4ConnFail io) conns
      in (map freeConn conns, e \<lparr> g_running := False, g_conns := [], g_dials := [] \<rparr>))"


section \<open>The session a bundle goes to\<close>

text \<open>A session that can carry bundles to the node, and one that is coming up to it.\<close>

definition serves :: "bytes \<Rightarrow> 'w Tcpv4Conn \<Rightarrow> bool" where
  "serves nodeId conn \<longleftrightarrow> \<not> c_failed conn \<and> \<not> n_receiverDone conn \<and> c_state conn = TCS_ESTABLISHED \<and>
     tcpv4NodeIdMatches (Some (n_routeNodeId conn)) (Some nodeId)"

definition coming_up :: "bytes \<Rightarrow> 'w Tcpv4Conn \<Rightarrow> bool" where
  "coming_up nodeId conn \<longleftrightarrow> \<not> c_failed conn \<and> \<not> n_receiverDone conn \<and> c_state conn \<noteq> TCS_ENDING \<and>
     c_state conn \<noteq> TCS_ESTABLISHED \<and> tcpv4NodeIdMatches (Some (n_dialNodeId conn)) (Some nodeId)"

definition best_of :: "'w Tcpv4Conn list \<Rightarrow> 'w Tcpv4Conn option" where
  "best_of conns =
     (if filter n_nodeIdAuthenticated conns \<noteq> [] then Some (last (filter n_nodeIdAuthenticated conns))
      else if conns \<noteq> [] then Some (last conns) else None)"

lemma best_of_snoc:
  "best_of (conns @ [c]) = (case best_of conns of None \<Rightarrow> Some c
     | Some b \<Rightarrow> if n_nodeIdAuthenticated c \<or> \<not> n_nodeIdAuthenticated b then Some c else Some b)"
proof (cases "filter n_nodeIdAuthenticated conns = []")
  case True
  then have "conns \<noteq> [] \<Longrightarrow> \<not> n_nodeIdAuthenticated (last conns)"
    by (metis filter_empty_conv last_in_set)
  then show ?thesis using True by (simp add: best_of_def)
next
  case False
  then have "n_nodeIdAuthenticated (last (filter n_nodeIdAuthenticated conns))"
    using last_in_set[OF False] by simp
  then show ?thesis using False by (simp add: best_of_def)
qed

lemma best_of_in: "best_of conns = Some b \<Longrightarrow> b \<in> set conns"
  using last_in_set[of "filter n_nodeIdAuthenticated conns"] last_in_set[of conns]
  by (auto simp: best_of_def split: if_splits)

lemma states_differ: "TCS_ENDING \<noteq> TCS_ESTABLISHED" "TCS_NEGOTIATING \<noteq> TCS_ESTABLISHED" "TCS_NEGOTIATING \<noteq> TCS_ENDING"
  by (simp_all add: TCS_ENDING_def TCS_ESTABLISHED_def TCS_NEGOTIATING_def)

lemma find_session_spec:
  "find_session nodeId conns (best_of prev) exists =
     (best_of (prev @ filter (serves nodeId) conns), exists \<or> (\<exists>c \<in> set conns. serves nodeId c \<or> coming_up nodeId c))"
proof (induction conns arbitrary: prev "exists")
  case (Cons c conns)
  show ?case
  proof (cases "serves nodeId c")
    case True
    have "(case best_of prev of None \<Rightarrow> Some c
        | Some b \<Rightarrow> if (of_bool (n_nodeIdAuthenticated c) :: int) \<ge> of_bool (n_nodeIdAuthenticated b)
                    then Some c else best_of prev) = best_of (prev @ [c])"
      by (auto simp: best_of_snoc split: option.splits)
    then show ?thesis using True Cons[of "prev @ [c]" True] states_differ by (simp add: serves_def)
  next
    case False
    have "find_session nodeId (c # conns) (best_of prev) exists =
        find_session nodeId conns (best_of prev) (exists \<or> coming_up nodeId c)"
      using False by (auto simp: serves_def coming_up_def)
    then show ?thesis using False Cons by auto
  qed
qed simp

lemma best_of_Nil [simp]: "best_of [] = None"
  by (simp add: best_of_def)

lemma findConn_spec:
  assumes "tcpv4NodeIdIsSet (Some nodeId)"
  shows "findConn e nodeId =
    (let best = best_of (filter (serves nodeId) (g_conns e))
     in (best, \<exists>c \<in> set (g_conns e). serves nodeId c \<or> coming_up nodeId c,
         case best of None \<Rightarrow> e
         | Some b \<Rightarrow> upd_conn (n_id b) (\<lambda>c. c \<lparr> n_txSenders := n_txSenders c + 1 \<rparr>) e))"
  using assms find_session_spec[of nodeId "g_conns e" "[]" False] by (simp add: findConn_def Let_def)

lemma serves_txSenders [simp]: "serves nodeId (c \<lparr> n_txSenders := k \<rparr>) = serves nodeId c"
  by (simp add: serves_def)

lemma upd_conn_in: "c \<in> set (g_conns e) \<Longrightarrow> n_id c = i \<Longrightarrow> f c \<in> set (g_conns (upd_conn i f e))"
  by (force simp: upd_conn_def)

lemma upd_conn_running [simp]: "g_running (upd_conn i f e) = g_running e"
  by (simp add: upd_conn_def)

lemma findConn_Some:
  assumes "findConn e nodeId = (Some c, exists, e')"
  shows "c \<in> set (g_conns e) \<and> serves nodeId c \<and>
    e' = upd_conn (n_id c) (\<lambda>c. c \<lparr> n_txSenders := n_txSenders c + 1 \<rparr>) e"
proof -
  have s: "tcpv4NodeIdIsSet (Some nodeId)" using assms by (auto simp: findConn_def split: if_splits)
  show ?thesis
    using assms best_of_in[of "filter (serves nodeId) (g_conns e)" c] unfolding findConn_spec[OF s]
    by (auto simp: Let_def)
qed

lemma claim_loop_spec:
  assumes "claim_loop await dial nodeId dialed k e = Some (Some i, e')"
  shows "g_running e' \<and> (\<exists>c \<in> set (g_conns e'). n_id c = i \<and> serves nodeId c)"
proof (rule claim_loop.raw_induct[where P = "\<lambda>await dial nodeId dialed k e r. \<forall>i e'. r = (Some i, e') \<longrightarrow>
    g_running e' \<and> (\<exists>c \<in> set (g_conns e'). n_id c = i \<and> serves nodeId c)", OF _ assms, rule_format], goal_cases)
  case (1 self await dial nodeId dialed k e r i e')
  show ?case
  proof (cases "send_pass e nodeId dialed")
    case (Pair p e1)
    show ?thesis
    proof (cases p)
      case (Found j)
      then have j: "j = i" "e1 = e'" using 1(2,3) Pair by simp_all
      obtain c ex where "findConn e nodeId = (Some c, ex, e1)" "n_id c = i" "g_running e"
        using Pair Found j unfolding send_pass_def by (auto simp: Let_def split: if_splits prod.splits option.splits)
      moreover from this(1) have c: "c \<in> set (g_conns e)" "serves nodeId c"
        and e1: "e1 = upd_conn (n_id c) (\<lambda>c. c \<lparr> n_txSenders := n_txSenders c + 1 \<rparr>) e"
        using findConn_Some[of e nodeId c ex e1] by simp_all
      moreover have "c \<lparr> n_txSenders := n_txSenders c + 1 \<rparr> \<in> set (g_conns e1)"
        unfolding e1 by (rule upd_conn_in[OF c(1) refl])
      ultimately show ?thesis using j by (intro conjI bexI[of _ "c \<lparr> n_txSenders := n_txSenders c + 1 \<rparr>"]) auto
    next
      case AwaitSession
      obtain t e2 where "await k e1 = (t, e2)" by fastforce
      then show ?thesis using 1 Pair AwaitSession by (auto split: if_splits)
    next
      case DialFirst
      obtain n e2 where "dial k e1 = (n, e2)" by fastforce
      then show ?thesis using 1 Pair DialFirst by (auto split: if_splits)
    qed (use 1 Pair in auto)
  qed
qed auto

section \<open>Backoff\<close>

definition dial_ok :: "Tcpv4Dial \<Rightarrow> bool" where
  "dial_ok d \<longleftrightarrow> 1 \<le> d_interval d \<and> d_interval d \<le> TCPV4_MAX_RECONNECT \<and>
     0 \<le> d_secUntilRetry d \<and> d_secUntilRetry d \<le> TCPV4_MAX_RECONNECT"

lemma rand_part:
  assumes "0 \<le> h" shows "0 \<le> int (r mod nat (h + 1)) \<and> int (r mod nat (h + 1)) \<le> h"
  using assms by (simp add: zmod_int) (metis add_strict_increasing less_add_one linorder_not_less not_less_iff_gr_or_eq pos_mod_bound pos_mod_sign zle_add1_eq_le zless_add1_eq)

lemma back_off_wait:
  assumes "1 \<le> d_interval d"
  shows "d_interval d \<le> 2 * d_secUntilRetry (back_off_dial r d) \<and> d_secUntilRetry (back_off_dial r d) \<le> d_interval d"
proof -
  have "0 \<le> d_interval d div 2" "2 * (d_interval d div 2) \<le> d_interval d" using assms by simp_all
  then show ?thesis using rand_part[of "d_interval d div 2" r] by (simp add: back_off_dial_def Let_def)
qed

lemma back_off_ok: "dial_ok d \<Longrightarrow> dial_ok (back_off_dial r d)"
  using back_off_wait[of d r] by (auto simp: dial_ok_def back_off_dial_def Let_def TCPV4_MAX_RECONNECT_def)

text \<open>Failures in a row.\<close>

definition failures :: "nat list \<Rightarrow> Tcpv4Dial \<Rightarrow> Tcpv4Dial" where
  "failures rs d = fold back_off_dial rs d"

lemma failures_interval:
  assumes "d_interval d = 1" shows "d_interval (failures rs d) = min (2 ^ length rs) TCPV4_MAX_RECONNECT"
proof (induction rs rule: rev_induct)
  case Nil
  then show ?case using assms by (simp add: failures_def TCPV4_MAX_RECONNECT_def)
next
  case (snoc r rs)
  have "failures (rs @ [r]) d = back_off_dial r (failures rs d)" by (simp add: failures_def)
  then show ?case using snoc by (auto simp: back_off_dial_def Let_def min_def TCPV4_MAX_RECONNECT_def)
qed


section \<open>The clock\<close>

text \<open>A second of one session.\<close>

definition tick_session :: "'w Io \<Rightarrow> int \<Rightarrow> 'w Tcpv4Conn \<Rightarrow> 'w Tcpv4Conn" where
  "tick_session io idleSec conn =
     (if c_failed conn \<or> n_receiverDone conn then conn
      else (let (conn, tick) = tick_conn idleSec conn in tick_act io conn tick))"

lemma tick_all_map: "length conns \<le> room \<Longrightarrow> tick_all io idleSec room conns = map (tick_session io idleSec) conns"
  by (induction conns arbitrary: room) (auto simp: tick_session_def case_prod_beta)

lemma io_fields:
  assumes "IoConn.more conn' = IoConn.more (conn :: 'w Tcpv4Conn)"
  shows "c_state conn' = c_state conn" "c_secSinceRx conn' = c_secSinceRx conn" "c_tx conn' = c_tx conn"
    "n_id conn' = n_id conn" "n_receiverDone conn' = n_receiverDone conn" "n_txSenders conn' = n_txSenders conn"
    "n_peerAddr conn' = n_peerAddr conn" "n_keepalive conn' = n_keepalive conn"
    "n_secNegotiating conn' = n_secNegotiating conn"
  using assms by (cases conn; cases conn'; simp)+

lemma sess_term_more: "IoConn.more (snd (tcpv4SendSessTerm io (conn :: 'w Tcpv4Conn) reason reply)) = IoConn.more conn"
  and keepalive_more: "IoConn.more (snd (tcpv4SendKeepalive io conn)) = IoConn.more conn"
proof -
  have "IoConn.more (snd (send_encoded io conn p)) = IoConn.more conn" for p
  proof (cases p)
    case (Pair len buf)
    obtain n c where "tcpv4ConnSend io conn (take (nat len) buf) = (n, c)" by fastforce
    then show ?thesis using Pair send_same[of io conn "take (nat len) buf" n c] by (simp add: send_encoded_def same_session_def)
  qed
  then show "IoConn.more (snd (tcpv4SendSessTerm io conn reason reply)) = IoConn.more conn"
    "IoConn.more (snd (tcpv4SendKeepalive io conn)) = IoConn.more conn"
    unfolding tcpv4SendSessTerm_def tcpv4SendKeepalive_def by simp_all
qed

lemma fail_more: "IoConn.more (tcpv4ConnFail io conn) = IoConn.more conn" "c_failed (tcpv4ConnFail io conn)"
  by (simp_all add: tcpv4ConnFail_def Let_def)

text \<open>What \<open>tick_act\<close> leaves alone.\<close>

lemma tick_act_more:
  "IoConn.more (tick_act io conn tick) = IoConn.more conn \<or>
   IoConn.more (tick_act io conn tick) = IoConn.more (conn \<lparr> c_tx := tcpv4TxStop (c_tx conn) \<rparr>)"
proof -
  obtain n c where k: "tcpv4SendKeepalive io conn = (n, c)" by fastforce
  obtain m d where t: "tcpv4SendSessTerm io (conn \<lparr> c_tx := tcpv4TxStop (c_tx conn) \<rparr>) TMSG_TERM_IDLE_TIMEOUT False = (m, d)"
    by fastforce
  show ?thesis
    using keepalive_more[of io conn] sess_term_more[of io "conn \<lparr> c_tx := tcpv4TxStop (c_tx conn) \<rparr>" TMSG_TERM_IDLE_TIMEOUT False]
    by (simp add: tick_act_def k t fail_more)
qed

lemma tick_act_fields:
  "c_state (tick_act io conn tick) = c_state conn" "c_secSinceRx (tick_act io conn tick) = c_secSinceRx conn"
  "n_id (tick_act io conn tick) = n_id conn" "n_receiverDone (tick_act io conn tick) = n_receiverDone conn"
  "n_txSenders (tick_act io conn tick) = n_txSenders conn" "n_peerAddr (tick_act io conn tick) = n_peerAddr conn"
  "n_keepalive (tick_act io conn tick) = n_keepalive conn" "n_secNegotiating (tick_act io conn tick) = n_secNegotiating conn"
proof -
  let ?x = "tick_act io conn tick" and ?d = "conn \<lparr> c_tx := tcpv4TxStop (c_tx conn) \<rparr>"
  have "c_state ?x = c_state conn \<and> c_secSinceRx ?x = c_secSinceRx conn \<and> n_id ?x = n_id conn \<and>
      n_receiverDone ?x = n_receiverDone conn \<and> n_txSenders ?x = n_txSenders conn \<and> n_peerAddr ?x = n_peerAddr conn \<and>
      n_keepalive ?x = n_keepalive conn \<and> n_secNegotiating ?x = n_secNegotiating conn"
    using tick_act_more[of io conn tick]
  proof
    assume "IoConn.more ?x = IoConn.more conn"
    from io_fields[OF this] show ?thesis by simp
  next
    assume "IoConn.more ?x = IoConn.more ?d"
    from io_fields[OF this] show ?thesis by simp
  qed
  then show "c_state ?x = c_state conn" "c_secSinceRx ?x = c_secSinceRx conn" "n_id ?x = n_id conn"
    "n_receiverDone ?x = n_receiverDone conn" "n_txSenders ?x = n_txSenders conn" "n_peerAddr ?x = n_peerAddr conn"
    "n_keepalive ?x = n_keepalive conn" "n_secNegotiating ?x = n_secNegotiating conn"
    by blast+
qed

lemma tick_session_fields:
  "n_id (tick_session io idleSec conn) = n_id conn" "n_receiverDone (tick_session io idleSec conn) = n_receiverDone conn"
  "n_txSenders (tick_session io idleSec conn) = n_txSenders conn" "n_peerAddr (tick_session io idleSec conn) = n_peerAddr conn"
  "n_keepalive (tick_session io idleSec conn) = n_keepalive conn"
  "c_state (tick_session io idleSec conn) = TCS_NEGOTIATING \<longleftrightarrow> c_state conn = TCS_NEGOTIATING"
  by (auto simp: tick_session_def tick_conn_def bump_def Let_def tick_act_fields TCS_NEGOTIATING_def TCS_ENDING_def
      split: if_splits)

lemma tick_session_failed: "c_failed conn \<or> n_receiverDone conn \<Longrightarrow> tick_session io idleSec conn = conn"
  by (auto simp: tick_session_def)

lemma tick_negotiating:
  assumes "c_state conn = TCS_NEGOTIATING" "\<not> (c_failed conn \<or> n_receiverDone conn)"
  shows "n_secNegotiating (tick_session io idleSec conn) = n_secNegotiating conn + 1 \<and>
    (n_secNegotiating conn + 1 > TCPV4_CONTACT_TIMEOUT \<longrightarrow> c_failed (tick_session io idleSec conn))"
  using assms by (simp add: tick_session_def tick_conn_def bump_def Let_def tick_act_fields)
    (simp add: tick_act_def fail_more)

lemma tick_established:
  assumes "c_state conn \<noteq> TCS_NEGOTIATING" "\<not> (c_failed conn \<or> n_receiverDone conn)" "0 < n_keepalive conn"
  shows "c_secSinceRx (tick_session io idleSec conn) = c_secSinceRx conn + 1 \<and>
    (c_secSinceRx conn + 1 > 2 * n_keepalive conn \<longrightarrow> c_failed (tick_session io idleSec conn))"
  using assms by (simp add: tick_session_def tick_conn_def bump_def Let_def tick_act_fields)
    (simp add: tick_act_def fail_more)

text \<open>Seconds in a row in which nothing else happens to the session.\<close>

lemma tick_iter_failed:
  "c_failed conn \<or> n_receiverDone conn \<Longrightarrow> (tick_session io idleSec ^^ n) conn = conn"
  by (induction n) (simp_all add: tick_session_failed)

lemma tick_iter_id [simp]: "n_id ((tick_session io idleSec ^^ n) conn) = n_id conn"
  by (induction n) (simp_all add: tick_session_fields)

lemma negotiation_times_out:
  "c_state conn = TCS_NEGOTIATING \<Longrightarrow> 0 < n \<Longrightarrow> n_secNegotiating conn + int n > TCPV4_CONTACT_TIMEOUT \<Longrightarrow>
   c_failed ((tick_session io idleSec ^^ n) conn) \<or> n_receiverDone ((tick_session io idleSec ^^ n) conn)"
proof (induction n arbitrary: conn)
  case (Suc n)
  let ?c = "tick_session io idleSec conn"
  have i: "(tick_session io idleSec ^^ Suc n) conn = (tick_session io idleSec ^^ n) ?c" by (simp add: funpow_swap1)
  show ?case
  proof (cases "c_failed ?c \<or> n_receiverDone ?c")
    case True
    then show ?thesis unfolding i using tick_iter_failed[of ?c] by auto
  next
    case False
    then have l: "\<not> (c_failed conn \<or> n_receiverDone conn)" using tick_session_failed[of conn] by metis
    note t = tick_negotiating[OF Suc(2) l, of io idleSec]
    then have "n_secNegotiating ?c + int n > TCPV4_CONTACT_TIMEOUT" using Suc(4) by simp
    moreover have "0 < n" using t False Suc(4) by (cases n) auto
    ultimately show ?thesis unfolding i using Suc(1)[of ?c] tick_session_fields(6) Suc(2) by blast
  qed
qed simp

lemma silence_times_out:
  "c_state conn \<noteq> TCS_NEGOTIATING \<Longrightarrow> 0 < n_keepalive conn \<Longrightarrow> 0 < n \<Longrightarrow>
   c_secSinceRx conn + int n > 2 * n_keepalive conn \<Longrightarrow>
   c_failed ((tick_session io idleSec ^^ n) conn) \<or> n_receiverDone ((tick_session io idleSec ^^ n) conn)"
proof (induction n arbitrary: conn)
  case (Suc n)
  let ?c = "tick_session io idleSec conn"
  have i: "(tick_session io idleSec ^^ Suc n) conn = (tick_session io idleSec ^^ n) ?c" by (simp add: funpow_swap1)
  show ?case
  proof (cases "c_failed ?c \<or> n_receiverDone ?c")
    case True
    then show ?thesis unfolding i using tick_iter_failed[of ?c] by auto
  next
    case False
    then have l: "\<not> (c_failed conn \<or> n_receiverDone conn)" using tick_session_failed[of conn] by metis
    note t = tick_established[OF Suc(2) l Suc(3), of io idleSec]
    then have "c_secSinceRx ?c + int n > 2 * n_keepalive ?c" using Suc(5) by (simp add: tick_session_fields)
    moreover have "0 < n" using t False Suc(5) by (cases n) auto
    ultimately show ?thesis
      unfolding i using Suc(1)[of ?c] tick_session_fields(5,6)[of io idleSec conn] Suc(2,3) by simp
  qed
qed simp

definition ticks :: "'w Io \<Rightarrow> nat \<Rightarrow> 'w SessEngine \<Rightarrow> 'w SessEngine" where
  "ticks io n e = ((\<lambda>e. snd (clockTick io e)) ^^ n) e"

lemma clockTick_conns:
  assumes "length (g_conns e) \<le> nat (g_maxSessions e + TCPV4_BUSY_SLACK)"
  shows "g_conns (snd (clockTick io e)) = filter (\<lambda>c. \<not> reapable c) (map (tick_session io (g_idleSec e)) (g_conns e))"
    "g_maxSessions (snd (clockTick io e)) = g_maxSessions e" "g_idleSec (snd (clockTick io e)) = g_idleSec e"
  using assms by (simp_all add: clockTick_def reapConns_def tick_all_map)

lemma ticks_from:
  "length (g_conns e) \<le> nat (g_maxSessions e + TCPV4_BUSY_SLACK) \<Longrightarrow> c' \<in> set (g_conns (ticks io n e)) \<Longrightarrow>
   \<exists>c \<in> set (g_conns e). c' = (tick_session io (g_idleSec e) ^^ n) c"
proof (induction n arbitrary: e)
  case (Suc n)
  let ?e = "snd (clockTick io e)"
  note t = clockTick_conns[OF Suc(2), of io]
  have "length (g_conns ?e) \<le> length (g_conns e)"
    unfolding t(1) using length_filter_le[of "\<lambda>c. \<not> reapable c" "map (tick_session io (g_idleSec e)) (g_conns e)"] by simp
  moreover have "c' \<in> set (g_conns (ticks io n ?e))" using Suc(3) by (simp add: ticks_def funpow_Suc_right del: funpow.simps)
  ultimately obtain c where c: "c \<in> set (g_conns ?e)" "c' = (tick_session io (g_idleSec ?e) ^^ n) c"
    using Suc(1)[of ?e] Suc(2) t(2) by fastforce
  then obtain d where "d \<in> set (g_conns e)" "c = tick_session io (g_idleSec e) d" unfolding t(1) by auto
  then show ?case using c(2) t(3) by (intro bexI[of _ d]) (simp_all add: funpow_swap1)
qed (simp add: ticks_def)


section \<open>The threads\<close>

text \<open>
  The engine with the connection the accept thread has admitted and not yet started (its address
  and whether it is busy), the dialling threads between the two sections of \<open>tcpv4OpenSession\<close> (the
  node and its \<open>Tcpv4Dial\<close>), and the sessions that senders hold.
\<close>

record 'w SessSys =
  y_eng :: "'w SessEngine"
  y_accepted :: "(bytes \<times> bool) option"
  y_dialling :: "(bytes \<times> nat) list"
  y_held :: "nat list"

text \<open>A session's own threads write it, except for the fields that belong to the list.\<close>

definition own_fields :: "'w Tcpv4Conn \<Rightarrow> 'w Tcpv4Conn \<Rightarrow> 'w Tcpv4Conn" where
  "own_fields conn' conn = conn' \<lparr> c_failed := (c_failed conn' \<or> c_failed conn), n_id := n_id conn,
     n_activeRole := n_activeRole conn, n_dialNodeId := n_dialNodeId conn, n_busy := n_busy conn,
     n_receiverDone := n_receiverDone conn, n_peerAddr := n_peerAddr conn,
     n_txSenders := n_txSenders conn, n_secNegotiating := n_secNegotiating conn\<rparr>"

definition fresh_conn :: "nat \<Rightarrow> 'w SessSys \<Rightarrow> bool" where
  "fresh_conn i s \<longleftrightarrow> i \<notin> n_id ` set (g_conns (y_eng s))"

text \<open>
  One step of some thread.  Negotiation starts from the session as it was found at some time; the
  message loop, the transmit and the delivery thread may change a session that has been established
  in any way that leaves its place in the list alone.
\<close>

inductive sess_step :: "'w Io \<Rightarrow> 'w NegEngine \<Rightarrow> (nat \<Rightarrow> nat \<times> nat) \<Rightarrow> 'w SessSys \<Rightarrow> 'w SessSys \<Rightarrow> bool"
  for io ng rand_r where
  AcceptAdmit: "sess_step io ng rand_r s (s \<lparr> y_accepted := Some (host, busy) \<rparr>)"
    if "y_accepted s = None" "admit (y_eng s) host = Admit busy" "length host < TCPV4_MAX_HOST_LEN"
| AcceptDrop: "sess_step io ng rand_r s (s \<lparr> y_accepted := None \<rparr>)"
| AcceptStart: "sess_step io ng rand_r s (s \<lparr> y_accepted := None,
      y_eng := snd (startConn (Some i) began w (y_eng s) sock False None (Some host) busy) \<rparr>)"
    if "y_accepted s = Some (host, busy)" "fresh_conn i s"
| OpenCheck: "sess_step io ng rand_r s (s \<lparr> y_eng := e,
      y_dialling := (case r of MayDial i \<Rightarrow> (nodeId, i) # y_dialling s | _ \<Rightarrow> y_dialling s) \<rparr>)"
    if "may_open taken (y_eng s) nodeId = (r, e)"
| OpenFail: "sess_step io ng rand_r s (s \<lparr> y_eng := backOff rand_r (y_eng s) i,
      y_dialling := remove1 (nodeId, i) (y_dialling s) \<rparr>)"
    if "(nodeId, i) \<in> set (y_dialling s)"
| OpenDrop: "sess_step io ng rand_r s (s \<lparr> y_dialling := remove1 (nodeId, i) (y_dialling s) \<rparr>)"
| OpenStart: "sess_step io ng rand_r s (s \<lparr> y_eng := snd (startConn (Some x) began w (y_eng s) sock True (Some nodeId) None False),
      y_dialling := remove1 (nodeId, i) (y_dialling s) \<rparr>)"
    if "(nodeId, i) \<in> set (y_dialling s)" "fresh_conn x s"
| Established: "sess_step io ng rand_r s (s \<lparr> y_eng :=
      tcpv4DialOutcome rand_r taken (upd_conn (n_id conn) (own_fields conn') (y_eng s)) conn' True \<rparr>)"
    if "conn \<in> set (g_conns (y_eng s))" "c_state conn = TCS_NEGOTIATING" "tcpv4Establish ng start = (0, conn')"
      "\<not> c_tls start"
| NotEstablished: "sess_step io ng rand_r s (s \<lparr> y_eng :=
      tcpv4DialOutcome rand_r taken
        (upd_conn (n_id conn) (receiver_ends io False) (y_eng s)) conn False \<rparr>)"
    if "conn \<in> set (g_conns (y_eng s))" "c_state conn = TCS_NEGOTIATING"
| Running: "sess_step io ng rand_r s (s \<lparr> y_eng := upd_conn (n_id conn) (own_fields conn') (y_eng s) \<rparr>)"
    if "conn \<in> set (g_conns (y_eng s))" "c_state conn \<noteq> TCS_NEGOTIATING" "c_state conn' \<noteq> TCS_NEGOTIATING"
| Over: "sess_step io ng rand_r s
      (s \<lparr> y_eng := upd_conn i (receiver_ends io established) (y_eng s) \<rparr>)"
| Claim: "sess_step io ng rand_r s (s \<lparr> y_eng := e, y_held := n_id conn # y_held s \<rparr>)"
    if "findConn (y_eng s) nodeId = (Some conn, exists, e)"
| Queue: "sess_step io ng rand_r s (s \<lparr> y_eng := upd_conn i (\<lambda>c. c \<lparr> c_tx := tx \<rparr>) (y_eng s) \<rparr>)"
    if "i \<in> set (y_held s)" "conn \<in> set (g_conns (y_eng s))" "n_id conn = i"
      "queueXfer (n_transferMtu conn) (c_tx conn) takenXfer timedOut bundle len = Some (result, tx)"
| Release: "sess_step io ng rand_r s (s \<lparr> y_eng := releaseConn (y_eng s) i, y_held := remove1 i (y_held s) \<rparr>)"
    if "i \<in> set (y_held s)"
| Clock: "sess_step io ng rand_r s (s \<lparr> y_eng := snd (clockTick io (y_eng s)) \<rparr>)"

definition sess_init :: "int \<Rightarrow> int \<Rightarrow> nat \<Rightarrow> 'w SessSys" where
  "sess_init maxSessions idleSec seed =
     \<lparr>y_eng = \<lparr>g_conns = [], g_connCount = 0, g_maxSessions = maxSessions, g_idleSec = idleSec, g_dials = [],
        g_randState = seed, g_running = True\<rparr>, y_accepted = None, y_dialling = [], y_held = []\<rparr>"

inductive sess_reach :: "'w Io \<Rightarrow> 'w NegEngine \<Rightarrow> (nat \<Rightarrow> nat \<times> nat) \<Rightarrow> 'w SessSys \<Rightarrow> bool" for io ng rand_r where
  Start: "sess_reach io ng rand_r (sess_init maxSessions idleSec seed)"
| Step: "sess_reach io ng rand_r s'" if "sess_reach io ng rand_r s" "sess_step io ng rand_r s s'"

section \<open>What holds of the session list\<close>

text \<open>The place of a session in the list: what the invariant says of it.\<close>

definition rationed :: "'w SessSys \<Rightarrow> bytes \<Rightarrow> bool" where
  "rationed s host \<longleftrightarrow> countNegotiating (y_eng s) host +
     (case y_accepted s of None \<Rightarrow> 0 | Some (h, b) \<Rightarrow> if h = host then 1 else 0) \<le> TCPV4_MAX_PEER_NEGOTIATING"

definition list_inv :: "'w SessEngine \<Rightarrow> nat list \<Rightarrow> bool" where
  "list_inv e held \<longleftrightarrow> g_connCount e = int (length (g_conns e)) \<and> distinct (map n_id (g_conns e)) \<and>
     (\<forall>c \<in> set (g_conns e). n_txSenders c = int (count_list held (n_id c))) \<and>
     set held \<subseteq> n_id ` set (g_conns e)"

definition sess_inv :: "'w SessSys \<Rightarrow> bool" where
  "sess_inv s \<longleftrightarrow> list_inv (y_eng s) (y_held s) \<and> (\<forall>d \<in> set (g_dials (y_eng s)). dial_ok d) \<and>
     (\<forall>host. host \<noteq> [] \<longrightarrow> rationed s host) \<and>
     (\<forall>h b. y_accepted s = Some (h, b) \<longrightarrow> length h < TCPV4_MAX_HOST_LEN)"

text \<open>A change of a session in place.\<close>

definition same_place :: "'w Tcpv4Conn \<Rightarrow> 'w Tcpv4Conn \<Rightarrow> bool" where
  "same_place c c' \<longleftrightarrow> n_id c' = n_id c \<and> n_txSenders c' = n_txSenders c \<and>
     (\<forall>host. negotiating_with host c' \<longrightarrow> negotiating_with host c)"

lemma same_place_refl [simp]: "same_place c c"
  by (simp add: same_place_def)

lemma same_place_ids: "list_all2 same_place cs cs' \<Longrightarrow> map n_id cs' = map n_id cs"
  by (induction rule: list_all2_induct) (auto simp: same_place_def)

lemma same_place_count:
  "list_all2 same_place cs cs' \<Longrightarrow>
   length (filter (negotiating_with host) cs') \<le> length (filter (negotiating_with host) cs)"
  by (induction rule: list_all2_induct) (auto simp: same_place_def)

lemma same_place_senders:
  "list_all2 same_place cs cs' \<Longrightarrow> \<forall>c \<in> set cs. P (n_id c) (n_txSenders c) \<Longrightarrow> \<forall>c \<in> set cs'. P (n_id c) (n_txSenders c)"
  by (induction rule: list_all2_induct) (auto simp: same_place_def)

lemma list_inv_in_place:
  assumes "list_inv e held" "list_all2 same_place (g_conns e) cs"
  shows "list_inv (e \<lparr> g_conns := cs \<rparr>) held"
proof -
  note ids = same_place_ids[OF assms(2)]
  have "n_id ` set cs = n_id ` set (g_conns e)" using ids by (metis list.set_map)
  moreover have "length cs = length (g_conns e)" using list_all2_lengthD[OF assms(2)] by simp
  moreover have "\<forall>c \<in> set cs. n_txSenders c = int (count_list held (n_id c))"
    using assms(1) by (intro same_place_senders[OF assms(2)]) (simp add: list_inv_def)
  ultimately show ?thesis using assms(1) ids by (simp add: list_inv_def)
qed

lemma sess_inv_in_place:
  assumes "sess_inv s" "list_all2 same_place (g_conns (y_eng s)) cs"
  shows "sess_inv (s \<lparr> y_eng := (y_eng s) \<lparr> g_conns := cs \<rparr> \<rparr>)"
proof -
  have "rationed (s \<lparr> y_eng := (y_eng s) \<lparr> g_conns := cs \<rparr> \<rparr>) host" if "host \<noteq> []" for host
  proof -
    have "rationed s host" using assms(1) that by (simp add: sess_inv_def)
    then show ?thesis
      using same_place_count[OF assms(2), of host] that
      by (auto simp: rationed_def countNegotiating_def split: option.splits if_splits)
  qed
  then show ?thesis using assms list_inv_in_place[OF _ assms(2)] by (simp add: sess_inv_def)
qed

lemma sess_inv_upd:
  assumes "sess_inv s" "\<And>c. c \<in> set (g_conns (y_eng s)) \<Longrightarrow> n_id c = i \<Longrightarrow> same_place c (f c)"
  shows "sess_inv (s \<lparr> y_eng := upd_conn i f (y_eng s) \<rparr>)"
  unfolding upd_conn_def
  by (rule sess_inv_in_place[OF assms(1)])
    (use assms(2) in \<open>auto simp: list_all2_conv_all_nth in_set_conv_nth\<close>)

text \<open>The dials, the random state and the dialling threads are apart.\<close>

lemma sess_inv_dials:
  assumes "sess_inv s" "g_conns e = g_conns (y_eng s)" "g_connCount e = g_connCount (y_eng s)"
    and "\<forall>d \<in> set (g_dials e). dial_ok d"
  shows "sess_inv (s \<lparr> y_eng := e, y_dialling := ds \<rparr>)"
  using assms by (simp add: sess_inv_def list_inv_def rationed_def countNegotiating_def)

lemma findDial_kept:
  assumes "findDial taken e nodeId = (r, e')"
  shows "g_conns e' = g_conns e \<and> g_connCount e' = g_connCount e \<and> g_maxSessions e' = g_maxSessions e \<and>
    ((\<forall>d \<in> set (g_dials e). dial_ok d) \<longrightarrow> (\<forall>d \<in> set (g_dials e'). dial_ok d))"
  using assms by (auto simp: findDial_def dial_ok_def TCPV4_MAX_RECONNECT_def split: option.splits)

lemma backOff_kept:
  "g_conns (backOff rand_r e i) = g_conns e \<and> g_connCount (backOff rand_r e i) = g_connCount e \<and>
    ((\<forall>d \<in> set (g_dials e). dial_ok d) \<longrightarrow> (\<forall>d \<in> set (g_dials (backOff rand_r e i)). dial_ok d))"
  by (auto simp: backOff_def upd_dial_def back_off_ok split: prod.split)

lemma dialOutcome_kept:
  "g_conns (tcpv4DialOutcome rand_r taken e conn est) = g_conns e \<and>
   g_connCount (tcpv4DialOutcome rand_r taken e conn est) = g_connCount e \<and>
   ((\<forall>d \<in> set (g_dials e). dial_ok d) \<longrightarrow> (\<forall>d \<in> set (g_dials (tcpv4DialOutcome rand_r taken e conn est)). dial_ok d))"
proof -
  obtain r e1 where f: "findDial taken e (n_dialNodeId conn) = (r, e1)" by fastforce
  note k = findDial_kept[OF f] and b = backOff_kept[of rand_r e1]
  have "dial_ok (d \<lparr> d_interval := 1, d_secUntilRetry := 0 \<rparr>)" for d
    by (simp add: dial_ok_def TCPV4_MAX_RECONNECT_def)
  then have u: "(\<forall>d \<in> set (g_dials e1). dial_ok d) \<longrightarrow>
      (\<forall>d \<in> set (g_dials (upd_dial i (\<lambda>d. d \<lparr> d_interval := 1, d_secUntilRetry := 0 \<rparr>) e1)). dial_ok d)" for i
    by (auto simp: upd_dial_def)
  have up: "g_conns (upd_dial i g e1) = g_conns e1" "g_connCount (upd_dial i g e1) = g_connCount e1" for i g
    by (simp_all add: upd_dial_def)
  show ?thesis
  proof (cases "\<not> n_activeRole conn \<or> \<not> tcpv4NodeIdIsSet (Some (n_dialNodeId conn))")
    case True
    then show ?thesis unfolding tcpv4DialOutcome_def by simp
  next
    case False
    then have o: "tcpv4DialOutcome rand_r taken e conn est = (case r of None \<Rightarrow> e1
        | Some i \<Rightarrow> if est then upd_dial i (\<lambda>d. d \<lparr> d_interval := 1, d_secUntilRetry := 0 \<rparr>) e1 else backOff rand_r e1 i)"
      unfolding tcpv4DialOutcome_def f by (simp cong: option.case_cong)
    show ?thesis
    proof (cases r)
      case None
      then show ?thesis unfolding o using k by simp
    next
      case (Some i)
      show ?thesis
      proof (cases est)
        case True
        show ?thesis unfolding o Some option.case if_P[OF True] up using k u[of i] by blast
      next
        case False
        have "g_conns (backOff rand_r e1 i) = g_conns e" "g_connCount (backOff rand_r e1 i) = g_connCount e"
          using k b[of i] by simp_all
        then show ?thesis unfolding o Some option.case if_not_P[OF False] using k b[of i] by blast
      qed
    qed
  qed
qed

lemma may_open_kept:
  assumes "may_open taken e nodeId = (r, e')"
  shows "g_conns e' = g_conns e \<and> g_connCount e' = g_connCount e \<and>
    ((\<forall>d \<in> set (g_dials e). dial_ok d) \<longrightarrow> (\<forall>d \<in> set (g_dials e'). dial_ok d))"
proof -
  obtain q e1 where f: "findDial taken e nodeId = (q, e1)" by fastforce
  have "e' = e \<or> e' = e1"
    using assms unfolding may_open_def f prod.case by (simp split: if_splits option.splits)
  then show ?thesis using findDial_kept[OF f] by auto
qed


section \<open>Every step keeps it\<close>

lemma count_list_remove1:
  "a \<in> set xs \<Longrightarrow> count_list (remove1 a xs) b = count_list xs b - (if b = a then 1 else 0)"
proof (induction xs)
  case (Cons x xs)
  have "a \<in> set xs \<Longrightarrow> 0 < count_list xs a" using count_list_0_iff[of xs a] by simp
  then show ?case using Cons by auto
qed simp

lemma startConn_shape:
  assumes "startConn (Some i) began w e sock act nodeId peerAddr busy = (r, e')" "i \<notin> n_id ` set (g_conns e)"
  shows "\<exists>c. g_conns e' = c # g_conns e \<and> n_id c = i \<and> n_txSenders c = 0 \<and>
    n_peerAddr c = (case peerAddr of None \<Rightarrow> [] | Some a \<Rightarrow> istrcpy a TCPV4_MAX_HOST_LEN) \<and>
    g_connCount e' = g_connCount e + 1 \<and> g_dials e' = g_dials e"
proof -
  let ?n = "new_conn w i sock act nodeId peerAddr busy"
  have n: "n_id ?n = i" "n_txSenders ?n = 0"
    "n_peerAddr ?n = (case peerAddr of None \<Rightarrow> [] | Some a \<Rightarrow> istrcpy a TCPV4_MAX_HOST_LEN)"
    by (simp_all add: new_conn_def)
  have "map (\<lambda>c. if n_id c = i then f c else c) (g_conns e) = g_conns e" for f
    using assms(2) by (intro map_idI) auto
  then show ?thesis
    using assms(1) n by (auto simp: startConn_def Let_def upd_conn_def split: if_splits)
qed

text \<open>A new session enters the list; \<open>acc\<close> is what the accept thread holds afterwards.\<close>

lemma sess_inv_start:
  assumes inv: "sess_inv s" and st: "startConn (Some i) began w (y_eng s) sock act nodeId peerAddr busy = (r, e)"
    and fresh: "fresh_conn i s"
    and acc: "peerAddr = None \<and> acc = y_accepted s \<or>
      (\<exists>h b. peerAddr = Some h \<and> y_accepted s = Some (h, b) \<and> acc = None)"
  shows "sess_inv (s \<lparr> y_accepted := acc, y_eng := e, y_dialling := ds \<rparr>)"
proof -
  obtain c where c: "g_conns e = c # g_conns (y_eng s)" "n_id c = i" "n_txSenders c = 0"
    "n_peerAddr c = (case peerAddr of None \<Rightarrow> [] | Some a \<Rightarrow> istrcpy a TCPV4_MAX_HOST_LEN)"
    "g_connCount e = g_connCount (y_eng s) + 1" "g_dials e = g_dials (y_eng s)"
    using startConn_shape[OF st] fresh unfolding fresh_conn_def by blast
  have li: "list_inv (y_eng s) (y_held s)" and dl: "\<forall>d \<in> set (g_dials (y_eng s)). dial_ok d"
    and ra: "\<And>host. host \<noteq> [] \<Longrightarrow> rationed s host"
    and sh: "\<And>h b. y_accepted s = Some (h, b) \<Longrightarrow> length h < TCPV4_MAX_HOST_LEN"
    using inv by (simp_all add: sess_inv_def)
  have "i \<notin> set (y_held s)" using li fresh unfolding list_inv_def fresh_conn_def by blast
  then have "count_list (y_held s) i = 0" by simp
  then have li': "list_inv e (y_held s)" using li c fresh unfolding list_inv_def fresh_conn_def by auto
  have "rationed (s \<lparr> y_accepted := acc, y_eng := e, y_dialling := ds \<rparr>) host" if h: "host \<noteq> []" for host
  proof (cases "negotiating_with host c")
    case False
    then have "countNegotiating e host = countNegotiating (y_eng s) host" using c(1) by (simp add: countNegotiating_def)
    then show ?thesis using ra[OF h] acc by (auto simp: rationed_def split: if_splits)
  next
    case True
    then have p: "n_peerAddr c = host" by (simp add: negotiating_with_def)
    obtain a b where a: "peerAddr = Some a" "y_accepted s = Some (a, b)" "acc = None"
      using acc p c(4) h by (auto split: option.splits)
    then have "a = host" using c(4) p sh[of a b] by (simp add: istrcpy_fits)
    moreover have "countNegotiating e host = countNegotiating (y_eng s) host + 1"
      using True c(1) h by (simp add: countNegotiating_def)
    ultimately show ?thesis using ra[OF h] a by (simp add: rationed_def)
  qed
  moreover have "\<forall>h b. acc = Some (h, b) \<longrightarrow> length h < TCPV4_MAX_HOST_LEN" using acc sh by auto metis
  ultimately show ?thesis using li' dl c(6) by (simp add: sess_inv_def)
qed

lemma filter_count_le: "length (filter (\<lambda>x. P x \<and> Q x) cs) \<le> length (filter Q cs)"
  by (induction cs) auto

lemma sess_inv_reap:
  assumes "sess_inv s"
  shows "sess_inv (s \<lparr> y_eng := snd (reapConns (y_eng s)) \<rparr>)"
proof -
  let ?e = "y_eng s" let ?live = "filter (\<lambda>c. \<not> reapable c) (g_conns ?e)"
  have li: "list_inv ?e (y_held s)" using assms by (simp add: sess_inv_def)
  have len: "length (g_conns ?e) = length ?live + length (filter reapable (g_conns ?e))"
    using sum_length_filter_compl[of reapable "g_conns ?e"] by simp
  have held: "set (y_held s) \<subseteq> n_id ` set ?live"
  proof
    fix i assume i: "i \<in> set (y_held s)"
    then obtain c where c: "c \<in> set (g_conns ?e)" "n_id c = i" using li by (auto simp: list_inv_def)
    moreover have "0 < count_list (y_held s) i" using i count_list_0_iff[of "y_held s" i] by simp
    ultimately have "0 < n_txSenders c" using li by (simp add: list_inv_def)
    then show "i \<in> n_id ` set ?live" using c by (auto simp: reapable_def)
  qed
  have "list_inv (snd (reapConns ?e)) (y_held s)"
    using li len held by (simp add: list_inv_def reapConns_def Let_def distinct_map_filter)
  moreover have cn: "countNegotiating (snd (reapConns ?e)) host \<le> countNegotiating ?e host" for host
    by (simp add: countNegotiating_def reapConns_def Let_def filter_count_le)
  have "rationed (s \<lparr> y_eng := snd (reapConns ?e) \<rparr>) host" if "rationed s host" for host
    using that cn[of host] by (cases "y_accepted s") (auto simp: rationed_def split: if_splits)
  ultimately show ?thesis using assms by (simp add: sess_inv_def reapConns_def Let_def)
qed

lemma tick_session_place: "same_place c (tick_session io idleSec c)"
proof -
  have "negotiating_with host c" if "negotiating_with host (tick_session io idleSec c)" for host
    using that tick_session_fields[of io idleSec c] tick_session_failed[of c]
    by (cases "c_failed c") (auto simp: negotiating_with_def)
  then show ?thesis by (simp add: same_place_def tick_session_fields)
qed

lemma tick_all_place: "list_all2 same_place conns (tick_all io idleSec room conns)"
proof (induction conns arbitrary: room)
  case (Cons c conns)
  have "tick_all io idleSec room (c # conns) = (if room = 0 then c # conns
      else tick_session io idleSec c # tick_all io idleSec (if c_failed c \<or> n_receiverDone c then room else room - 1) conns)"
    by (auto simp: tick_session_def case_prod_beta)
  then show ?case using Cons by (simp add: tick_session_place list_all2_same)
qed simp

lemma sess_inv_clock:
  assumes "sess_inv s" shows "sess_inv (s \<lparr> y_eng := snd (clockTick io (y_eng s)) \<rparr>)"
proof -
  let ?e = "y_eng s"
  define ds where "ds = map (\<lambda>d. if d_secUntilRetry d > 0 then d \<lparr> d_secUntilRetry := d_secUntilRetry d - 1 \<rparr> else d) (g_dials ?e)"
  define cs where "cs = tick_all io (g_idleSec ?e) (nat (g_maxSessions ?e + TCPV4_BUSY_SLACK)) (g_conns ?e)"
  have "\<forall>d \<in> set (g_dials ?e). dial_ok d" using assms by (simp add: sess_inv_def)
  then have "\<forall>d \<in> set ds. dial_ok d" unfolding ds_def by (auto simp: dial_ok_def)
  then have "sess_inv (s \<lparr> y_eng := ?e \<lparr> g_dials := ds \<rparr>, y_dialling := y_dialling s \<rparr>)"
    by (intro sess_inv_dials[OF assms]) simp_all
  from sess_inv_in_place[OF this, of cs] have "sess_inv (s \<lparr> y_eng := ?e \<lparr> g_dials := ds, g_conns := cs \<rparr> \<rparr>)"
    by (simp add: cs_def tick_all_place)
  from sess_inv_reap[OF this] show ?thesis by (simp add: clockTick_def ds_def cs_def)
qed


lemma own_fields_place:
  assumes "c_state conn' \<noteq> TCS_NEGOTIATING" shows "same_place c (own_fields conn' c)"
  using assms by (simp add: same_place_def own_fields_def negotiating_with_def)

lemma over_place: "same_place c (receiver_ends io established c)"
proof -
  have id: "n_id (tcpv4ConnFail io c) = n_id c" "n_txSenders (tcpv4ConnFail io c) = n_txSenders c" for c :: "'a Tcpv4Conn"
    using io_fields(4,6)[OF fail_more(1)[of io c]] .
  have "\<not> negotiating_with host (receiver_ends io established c)" for host
    by (simp add: negotiating_with_def receiver_ends_def Let_def)
  moreover have "n_id (receiver_ends io established c) = n_id c" "n_txSenders (receiver_ends io established c) = n_txSenders c"
    by (simp_all add: receiver_ends_def Let_def id tcpv4DeliveryStop_def)
  ultimately show ?thesis by (simp add: same_place_def)
qed

lemma tx_place: "same_place c (c \<lparr> c_tx := tx \<rparr>)"
  by (simp add: same_place_def negotiating_with_def)

lemma sess_inv_outcome:
  assumes "sess_inv (s \<lparr> y_eng := e \<rparr>)"
  shows "sess_inv (s \<lparr> y_eng := tcpv4DialOutcome rand_r taken e conn est \<rparr>)"
proof -
  have "\<forall>d \<in> set (g_dials e). dial_ok d" using assms by (simp add: sess_inv_def)
  then show ?thesis
    using sess_inv_dials[OF assms, of "tcpv4DialOutcome rand_r taken e conn est" "y_dialling s"]
      dialOutcome_kept[of rand_r taken e conn est] by simp
qed

lemma sess_inv_claim:
  assumes inv: "sess_inv s" and f: "findConn (y_eng s) nodeId = (Some conn, ex, e)"
  shows "sess_inv (s \<lparr> y_eng := e, y_held := n_id conn # y_held s \<rparr>)"
proof -
  have c: "conn \<in> set (g_conns (y_eng s))" and e: "e = upd_conn (n_id conn) (\<lambda>c. c \<lparr> n_txSenders := n_txSenders c + 1 \<rparr>) (y_eng s)"
    using findConn_Some[OF f] by simp_all
  let ?f = "\<lambda>c. if n_id c = n_id conn then c \<lparr> n_txSenders := n_txSenders c + 1 \<rparr> else c"
  have g: "g_conns e = map ?f (g_conns (y_eng s))" "g_connCount e = g_connCount (y_eng s)" "g_dials e = g_dials (y_eng s)"
    by (simp_all add: e upd_conn_def)
  have ids: "map n_id (g_conns e) = map n_id (g_conns (y_eng s))" by (simp add: g(1))
  have neg: "length (filter (negotiating_with host) (map ?f cs)) = length (filter (negotiating_with host) cs)" for host cs
    by (induction cs) (auto simp: negotiating_with_def)
  have li: "list_inv (y_eng s) (y_held s)" using inv by (simp add: sess_inv_def)
  have "n_id ` set (g_conns e) = n_id ` set (g_conns (y_eng s))" using ids by (metis list.set_map)
  moreover have "distinct (map n_id (g_conns e))" using li unfolding ids list_inv_def by simp
  moreover have "n_txSenders c' = int (count_list (n_id conn # y_held s) (n_id c'))" if c': "c' \<in> set (g_conns e)" for c'
  proof -
    obtain d where d: "d \<in> set (g_conns (y_eng s))" "c' = ?f d" using c' unfolding g(1) by auto
    have "n_txSenders d = int (count_list (y_held s) (n_id d))" using li d(1) by (simp add: list_inv_def)
    then show ?thesis using d(2) by auto
  qed
  moreover have "n_id conn \<in> n_id ` set (g_conns (y_eng s))" using c by blast
  moreover have "length (g_conns e) = length (g_conns (y_eng s))" by (simp add: g(1))
  ultimately have "list_inv e (n_id conn # y_held s)" using li unfolding list_inv_def g(2) by simp
  moreover have cn: "countNegotiating e host = countNegotiating (y_eng s) host" for host
    unfolding countNegotiating_def g(1) neg ..
  then have "rationed (s \<lparr> y_eng := e, y_held := n_id conn # y_held s \<rparr>) host" if "rationed s host" for host
    using that by (simp add: rationed_def)
  ultimately show ?thesis using inv g(3) by (simp add: sess_inv_def)
qed

lemma sess_inv_release:
  assumes inv: "sess_inv s" and i: "i \<in> set (y_held s)"
  shows "sess_inv (s \<lparr> y_eng := releaseConn (y_eng s) i, y_held := remove1 i (y_held s) \<rparr>)"
proof -
  let ?f = "\<lambda>c. if n_id c = i then c \<lparr> n_txSenders := n_txSenders c - 1 \<rparr> else c" and ?e = "releaseConn (y_eng s) i"
  have g: "g_conns ?e = map ?f (g_conns (y_eng s))" "g_connCount ?e = g_connCount (y_eng s)" "g_dials ?e = g_dials (y_eng s)"
    by (simp_all add: releaseConn_def upd_conn_def)
  have ids: "map n_id (g_conns ?e) = map n_id (g_conns (y_eng s))" by (simp add: g(1))
  have neg: "length (filter (negotiating_with host) (map ?f cs)) = length (filter (negotiating_with host) cs)" for host cs
    by (induction cs) (auto simp: negotiating_with_def)
  have li: "list_inv (y_eng s) (y_held s)" using inv by (simp add: sess_inv_def)
  have pos: "0 < count_list (y_held s) i" using i count_list_0_iff[of "y_held s" i] by simp
  have im: "n_id ` set (g_conns ?e) = n_id ` set (g_conns (y_eng s))" using ids by (metis list.set_map)
  have di: "distinct (map n_id (g_conns ?e))" using li unfolding ids list_inv_def by simp
  have "n_txSenders c = int (count_list (remove1 i (y_held s)) (n_id c))" if c: "c \<in> set (g_conns ?e)" for c
  proof -
    obtain d where d: "d \<in> set (g_conns (y_eng s))" "c = ?f d" using c unfolding g(1) by auto
    have "n_txSenders d = int (count_list (y_held s) (n_id d))" using li d(1) by (simp add: list_inv_def)
    then show ?thesis using d(2) count_list_remove1[OF i, of "n_id d"] pos by auto
  qed
  moreover have "set (remove1 i (y_held s)) \<subseteq> n_id ` set (g_conns ?e)"
    using li set_remove1_subset[of i "y_held s"] unfolding im list_inv_def by blast
  moreover have "length (g_conns ?e) = length (g_conns (y_eng s))" by (simp add: g(1))
  ultimately have "list_inv ?e (remove1 i (y_held s))" using li di unfolding list_inv_def g(2) by simp
  moreover have cn: "countNegotiating ?e host = countNegotiating (y_eng s) host" for host
    unfolding countNegotiating_def g(1) neg ..
  then have "rationed (s \<lparr> y_eng := ?e, y_held := remove1 i (y_held s) \<rparr>) host" if "rationed s host" for host
    using that by (simp add: rationed_def)
  ultimately show ?thesis using inv g(3) by (simp add: sess_inv_def)
qed

lemma sess_inv_rationed:
  assumes "sess_inv s" "host \<noteq> []" shows "countNegotiating (y_eng s) host \<le> TCPV4_MAX_PEER_NEGOTIATING"
proof -
  have "rationed s host" using assms by (simp add: sess_inv_def)
  then show ?thesis by (cases "y_accepted s") (auto simp: rationed_def split: if_splits)
qed

lemma sess_step_inv: "sess_step io ng rand_r s s' \<Longrightarrow> sess_inv s \<Longrightarrow> sess_inv s'"
proof (induction rule: sess_step.induct)
  case (AcceptAdmit s host busy)
  have "countNegotiating (y_eng s) host + 1 \<le> TCPV4_MAX_PEER_NEGOTIATING" if "host \<noteq> []"
    using AcceptAdmit(2) that by (simp add: admit_def Let_def split: if_splits)
  moreover have "countNegotiating (y_eng s) h \<le> TCPV4_MAX_PEER_NEGOTIATING" if "h \<noteq> []" for h
    using AcceptAdmit(1,4) that by (simp add: sess_inv_def rationed_def)
  ultimately show ?case using AcceptAdmit(3,4) by (simp add: sess_inv_def rationed_def)
next
  case (AcceptDrop s)
  have "countNegotiating (y_eng s) h \<le> TCPV4_MAX_PEER_NEGOTIATING" if "h \<noteq> []" for h
    using sess_inv_rationed[OF AcceptDrop that] .
  then show ?case using AcceptDrop by (simp add: sess_inv_def rationed_def)
next
  case (AcceptStart s host busy i began w sock)
  obtain r e where st: "startConn (Some i) began w (y_eng s) sock False None (Some host) busy = (r, e)" by fastforce
  show ?case using sess_inv_start[OF AcceptStart(3) st AcceptStart(2), of None "y_dialling s"] AcceptStart(1) st by simp
next
  case (OpenCheck taken s nodeId r e)
  have "\<forall>d \<in> set (g_dials (y_eng s)). dial_ok d" using OpenCheck(2) by (simp add: sess_inv_def)
  then show ?case using may_open_kept[OF OpenCheck(1)] by (intro sess_inv_dials[OF OpenCheck(2)]) simp_all
next
  case (OpenFail nodeId i s)
  have "\<forall>d \<in> set (g_dials (y_eng s)). dial_ok d" using OpenFail(2) by (simp add: sess_inv_def)
  then show ?case using backOff_kept[of rand_r "y_eng s" i] by (intro sess_inv_dials[OF OpenFail(2)]) simp_all
next
  case (OpenDrop s nodeId i)
  then show ?case by (simp add: sess_inv_def rationed_def)
next
  case (OpenStart nodeId i s x began w sock)
  obtain r e where st: "startConn (Some x) began w (y_eng s) sock True (Some nodeId) None False = (r, e)" by fastforce
  show ?case
    using sess_inv_start[OF OpenStart(3) st OpenStart(2), of "y_accepted s" "remove1 (nodeId, i) (y_dialling s)"] st by simp
next
  case (Established conn s start conn' taken)
  have "c_state conn' = TCS_ESTABLISHED" using tcpv4Establish_accepts[OF Established(3,4)] by auto
  then have "c_state conn' \<noteq> TCS_NEGOTIATING" by (simp add: TCS_ESTABLISHED_def TCS_NEGOTIATING_def)
  then show ?case by (intro sess_inv_outcome sess_inv_upd[OF Established(5)] own_fields_place)
next
  case (NotEstablished conn s taken)
  then show ?case by (intro sess_inv_outcome sess_inv_upd[OF NotEstablished(3)] over_place)
next
  case (Running conn s conn')
  then show ?case by (intro sess_inv_upd own_fields_place)
next
  case (Over s i established)
  then show ?case by (intro sess_inv_upd over_place)
next
  case (Claim s nodeId conn ex e)
  then show ?case by (intro sess_inv_claim)
next
  case (Queue i s conn takenXfer timedOut b len result tx)
  then show ?case by (intro sess_inv_upd tx_place)
next
  case (Release i s)
  then show ?case by (intro sess_inv_release)
next
  case (Clock s)
  then show ?case by (intro sess_inv_clock)
qed

lemma sess_reach_inv: "sess_reach io ng rand_r s \<Longrightarrow> sess_inv s"
proof (induction rule: sess_reach.induct)
  case (Start maxSessions idleSec seed)
  then show ?case
    by (simp add: sess_init_def sess_inv_def list_inv_def rationed_def countNegotiating_def TCPV4_MAX_PEER_NEGOTIATING_def)
next
  case (Step s s')
  then show ?case by (blast intro: sess_step_inv)
qed


section \<open>Two dialling threads\<close>

lemma may_open_first:
  assumes "g_conns e = []" "g_dials e = []" "g_connCount e < g_maxSessions e"
  shows "may_open (Some i) e nodeId = (MayDial i, e \<lparr> g_dials := [\<lparr>d_id = i,
    d_nodeId = istrcpy nodeId TCPV4_MAX_NODEID_LEN, d_interval = 1, d_secUntilRetry = 0\<rparr>] \<rparr>)"
  using assms by (simp add: may_open_def findDial_def)

lemma may_open_again:
  assumes "g_conns e = []" "g_dials e = [d]" "g_connCount e < g_maxSessions e" "d_secUntilRetry d = 0"
    and "tcpv4NodeIdMatches (Some (d_nodeId d)) (Some nodeId)"
  shows "may_open taken e nodeId = (MayDial (d_id d), e)"
  using assms by (simp add: may_open_def findDial_def)

lemma reach_two_sessions:
  assumes set: "tcpv4NodeIdIsSet (Some nodeId)" and len: "length nodeId < TCPV4_MAX_NODEID_LEN" and max: "0 < (maxSessions :: int)"
  shows "\<exists>s. sess_reach io ng rand_r s \<and> g_conns (y_eng s) =
    [new_conn (w :: 'a) 2 sock True (Some nodeId) None False, new_conn w 1 sock True (Some nodeId) None False]"
proof -
  let ?d = "\<lparr>d_id = 0, d_nodeId = nodeId, d_interval = 1, d_secUntilRetry = 0\<rparr>"
  define s0 where "s0 = (sess_init maxSessions 0 0 :: 'a SessSys)"
  define s1 where "s1 = s0 \<lparr> y_eng := (y_eng s0) \<lparr> g_dials := [?d] \<rparr>, y_dialling := [(nodeId, 0)] \<rparr>"
  define s2 where "s2 = s1 \<lparr> y_dialling := [(nodeId, 0), (nodeId, 0)] \<rparr>"
  define s3 where "s3 = s2 \<lparr> y_eng := snd (startConn (Some 1) True w (y_eng s2) sock True (Some nodeId) None False), y_dialling := [(nodeId, 0)] \<rparr>"
  define s4 where "s4 = s3 \<lparr> y_eng := snd (startConn (Some 2) True w (y_eng s3) sock True (Some nodeId) None False), y_dialling := [] \<rparr>"
  have m: "tcpv4NodeIdMatches (Some nodeId) (Some nodeId)" using set by (rule node_id.matches_refl)
  have r0: "sess_reach io ng rand_r s0" unfolding s0_def by (rule sess_reach.Start)
  have "may_open (Some 0) (y_eng s0) nodeId = (MayDial 0, (y_eng s0) \<lparr> g_dials := [?d] \<rparr>)"
    using may_open_first[of "y_eng s0" 0 nodeId] max by (simp add: s0_def sess_init_def istrcpy_fits[OF len])
  from sess_step.OpenCheck[OF this] have "sess_step io ng rand_r s0 s1" by (simp add: s1_def s0_def sess_init_def)
  with r0 have r1: "sess_reach io ng rand_r s1" by (rule sess_reach.Step)
  have "may_open None (y_eng s1) nodeId = (MayDial 0, y_eng s1)"
    using may_open_again[of "y_eng s1" ?d nodeId] max m by (simp add: s1_def s0_def sess_init_def)
  from sess_step.OpenCheck[OF this] have "sess_step io ng rand_r s1 s2" by (simp add: s2_def s1_def)
  with r1 have r2: "sess_reach io ng rand_r s2" by (rule sess_reach.Step)
  have "(nodeId, 0) \<in> set (y_dialling s2)" "fresh_conn 1 s2"
    by (simp_all add: s2_def s1_def s0_def sess_init_def fresh_conn_def)
  from sess_step.OpenStart[OF this] have "sess_step io ng rand_r s2 s3" by (simp add: s3_def s2_def)
  with r2 have r3: "sess_reach io ng rand_r s3" by (rule sess_reach.Step)
  have c3: "g_conns (y_eng s3) = [new_conn w 1 sock True (Some nodeId) None False]"
    by (simp add: s3_def s2_def s1_def s0_def sess_init_def startConn_def Let_def)
  have "(nodeId, 0) \<in> set (y_dialling s3)" "fresh_conn 2 s3"
    using c3 by (simp_all add: s3_def fresh_conn_def new_conn_def)
  from sess_step.OpenStart[OF this] have "sess_step io ng rand_r s3 s4" by (simp add: s4_def s3_def)
  with r3 have "sess_reach io ng rand_r s4" by (rule sess_reach.Step)
  moreover have "g_conns (y_eng s4) =
      [new_conn w 2 sock True (Some nodeId) None False, new_conn w 1 sock True (Some nodeId) None False]"
    using c3 by (simp add: s4_def startConn_def Let_def)
  ultimately show ?thesis by blast
qed

section \<open>Properties\<close>

text \<open>The session \<open>findConn\<close> takes for a node: of the sessions that are established, have not
  failed and are not over, and whose route node ID matches the node, the oldest of those with an
  authenticated node ID, and if there is none the oldest of all; and it says that a session exists
  exactly when there is one of these or one that is negotiating and was dialled for the node.\<close>

theorem findConn_selects:
  assumes "tcpv4NodeIdIsSet (Some nodeId)" "findConn e nodeId = (best, exists, e')"
    and "able = filter (\<lambda>c. \<not> c_failed c \<and> \<not> n_receiverDone c \<and> c_state c = TCS_ESTABLISHED \<and>
      tcpv4NodeIdMatches (Some (n_routeNodeId c)) (Some nodeId)) (g_conns e)"
    and "sure = filter n_nodeIdAuthenticated able"
  shows "best = (if sure \<noteq> [] then Some (last sure) else if able \<noteq> [] then Some (last able) else None) \<and>
    (exists \<longleftrightarrow> able \<noteq> [] \<or> (\<exists>c \<in> set (g_conns e). \<not> c_failed c \<and> \<not> n_receiverDone c \<and>
      c_state c \<notin> {TCS_ENDING, TCS_ESTABLISHED} \<and> tcpv4NodeIdMatches (Some (n_dialNodeId c)) (Some nodeId)))"
proof -
  have able: "able = filter (serves nodeId) (g_conns e)" unfolding assms(3) serves_def[abs_def] by simp
  have "best = best_of able" "exists \<longleftrightarrow> (\<exists>c \<in> set (g_conns e). serves nodeId c \<or> coming_up nodeId c)"
    using assms(2) unfolding findConn_spec[OF assms(1)] able by (simp_all add: Let_def)
  then show ?thesis unfolding best_of_def assms(4)[symmetric]
    by (auto simp: able filter_empty_conv coming_up_def)
qed

theorem findConn_selects_witness:
  "findConn (y_eng (sess_init 4 0 0 :: (bytes \<times> bytes) SessSys)) ipn_name = (None, False, y_eng (sess_init 4 0 0))"
proof -
  let ?e = "y_eng (sess_init 4 0 0 :: (bytes \<times> bytes) SessSys)"
  obtain best ex e' where f: "findConn ?e ipn_name = (best, ex, e')" by (metis prod_cases3)
  have s: "tcpv4NodeIdIsSet (Some ipn_name)" by (simp add: tcpv4NodeIdIsSet_def ipn_name_def)
  from findConn_selects[OF s f refl refl] have "best = None" "\<not> ex" by (simp_all add: sess_init_def)
  moreover have "e' = ?e" using f \<open>best = None\<close> by (auto simp: findConn_def s sess_init_def)
  ultimately show ?thesis using f by simp
qed

text \<open>C5: when \<open>tcpv4EngineSendTo\<close> takes a bundle, it has put it on a session that it held and that,
  when it took hold of it, was established, had not failed, and had a route node ID matching the
  node the bundle is for; and the bundle is within the Transfer MRU of that session's peer.\<close>

theorem bundle_goes_to_its_node:
  assumes "tcpv4EngineSendTo await dial others taken timedOut e nodeId bundle len = Some (0, e')"
  shows "\<exists>e1 c d. c \<in> set (g_conns e1) \<and> \<not> c_failed c \<and> \<not> n_receiverDone c \<and> c_state c = TCS_ESTABLISHED \<and>
    tcpv4NodeIdMatches (Some (n_routeNodeId c)) (Some nodeId) \<and>
    claim_loop await dial nodeId False 0 e = Some (Some (n_id c), e1) \<and>
    d \<in> set (g_conns (others e1)) \<and> n_id d = n_id c \<and> (word_of_int len :: u64) \<le> n_transferMtu d \<and>
    (\<exists>tx. queueXfer (n_transferMtu d) (c_tx d) taken timedOut bundle len = Some (0, tx) \<and>
      e' = releaseConn (upd_conn (n_id c) (\<lambda>c. c \<lparr> c_tx := tx \<rparr>) (others e1)) (n_id c))"
proof -
  obtain i e1 where c: "claim_loop await dial nodeId False 0 e = Some (Some i, e1)"
    using assms by (auto simp: tcpv4EngineSendTo_def split: option.splits)
  obtain d where d: "find (\<lambda>c. n_id c = i) (g_conns (others e1)) = Some d"
    using assms c by (auto simp: tcpv4EngineSendTo_def Let_def split: option.splits)
  obtain tx where q: "queueXfer (n_transferMtu d) (c_tx d) taken timedOut bundle len = Some (0, tx)"
    "e' = releaseConn (upd_conn i (\<lambda>c. c \<lparr> c_tx := tx \<rparr>) (others e1)) i"
    using assms c d by (auto simp: tcpv4EngineSendTo_def Let_def split: option.splits)
  have "d \<in> set (g_conns (others e1))" "n_id d = i" using d by (auto simp: find_Some_iff)
  moreover have "(word_of_int len :: u64) \<le> n_transferMtu d"
    using q(1) by (auto simp: queueXfer_def split: if_splits)
  moreover obtain c0 where "c0 \<in> set (g_conns e1)" "n_id c0 = i" "serves nodeId c0" using claim_loop_spec[OF c] by blast
  ultimately show ?thesis using c q unfolding serves_def by (intro exI[of _ e1] exI[of _ c0] exI[of _ d]) auto
qed

text \<open>After \<open>k > 0\<close> failed attempts in a row to reach a neighbour, whatever \<open>rand_r\<close> returns, the
  wait before the next is between half of and the whole of the smaller of \<open>2 ^ (k - 1)\<close> seconds and a
  minute, and the interval has doubled to at most a minute.\<close>

theorem backoff_doubles_to_cap:
  assumes "d_interval d = 1" "rs \<noteq> []"
  shows "d_interval (fold back_off_dial rs d) = min (2 ^ length rs) TCPV4_MAX_RECONNECT \<and>
    d_secUntilRetry (fold back_off_dial rs d) \<le> min (2 ^ (length rs - 1)) TCPV4_MAX_RECONNECT \<and>
    min (2 ^ (length rs - 1)) TCPV4_MAX_RECONNECT \<le> 2 * d_secUntilRetry (fold back_off_dial rs d)"
proof -
  obtain r qs where rs: "rs = qs @ [r]" using assms(2) by (metis append_butlast_last_id)
  have f: "fold back_off_dial rs d = back_off_dial r (failures qs d)" by (simp add: rs failures_def)
  have i: "d_interval (failures qs d) = min (2 ^ (length rs - 1)) TCPV4_MAX_RECONNECT"
    using failures_interval[OF assms(1), of qs] by (simp add: rs)
  then have "1 \<le> d_interval (failures qs d)" by (simp add: TCPV4_MAX_RECONNECT_def)
  from back_off_wait[OF this, of r] i failures_interval[OF assms(1), of rs] f show ?thesis
    by (simp add: failures_def)
qed

theorem backoff_doubles_to_cap_witness:
  "d_interval (fold back_off_dial [0, 5, 9] \<lparr>d_id = 0, d_nodeId = ipn_name, d_interval = 1, d_secUntilRetry = 0\<rparr>) = 8"
  using backoff_doubles_to_cap[of "\<lparr>d_id = 0, d_nodeId = ipn_name, d_interval = 1, d_secUntilRetry = 0\<rparr>" "[0, 5, 9]"]
  by (simp add: TCPV4_MAX_RECONNECT_def)

text \<open>C38: a session that gets nowhere is given up.  After \<open>n > 0\<close> ticks of the clock in which nothing
  else happens to it, a session that has been negotiating for more than \<open>TCPV4_CONTACT_TIMEOUT\<close>
  seconds, or that has negotiated a keepalive and has heard nothing for more than twice that long,
  has been failed, or its receiver is done, or it is no longer in the list.\<close>

theorem silent_session_given_up:
  assumes "distinct (map n_id (g_conns e))" "length (g_conns e) \<le> nat (g_maxSessions e + TCPV4_BUSY_SLACK)"
    and "c \<in> set (g_conns e)" "0 < n"
    and "c_state c = TCS_NEGOTIATING \<and> n_secNegotiating c + int n > TCPV4_CONTACT_TIMEOUT \<or>
      c_state c \<noteq> TCS_NEGOTIATING \<and> 0 < n_keepalive c \<and> c_secSinceRx c + int n > 2 * n_keepalive c"
    and "c' \<in> set (g_conns (ticks io n e))" "n_id c' = n_id c"
  shows "c_failed c' \<or> n_receiverDone c'"
proof -
  obtain d where d: "d \<in> set (g_conns e)" "c' = (tick_session io (g_idleSec e) ^^ n) d"
    using ticks_from[OF assms(2,6)] by blast
  then have "n_id d = n_id c" using assms(7) by simp
  then have "d = c" using assms(1,3) d(1) by (simp add: distinct_map inj_on_def)
  then show ?thesis
    using negotiation_times_out[of c n io "g_idleSec e"] silence_times_out[of c n io "g_idleSec e"] assms(4,5) d(2) by auto
qed

text \<open>C4: whatever the interleaving of the accept thread, the dialling senders, the threads of the
  sessions, the senders that hold sessions and the clock: \<open>connCount\<close> is the length of the session
  list, every session a sender holds is still in the list, which no two sessions share an address
  in, at most \<open>TCPV4_MAX_PEER_NEGOTIATING\<close> sessions are negotiating with any one peer address, and
  every backoff is between 1 second and a minute.\<close>

theorem session_list_sound:
  assumes "sess_reach io ng rand_r s"
  shows "g_connCount (y_eng s) = int (length (g_conns (y_eng s))) \<and> distinct (map n_id (g_conns (y_eng s))) \<and>
    set (y_held s) \<subseteq> n_id ` set (g_conns (y_eng s)) \<and>
    (host \<noteq> [] \<longrightarrow> length (filter (\<lambda>c. \<not> c_failed c \<and> \<not> n_receiverDone c \<and> c_state c = TCS_NEGOTIATING \<and>
      n_peerAddr c = host) (g_conns (y_eng s))) \<le> 4) \<and>
    (\<forall>d \<in> set (g_dials (y_eng s)). d_interval d \<in> {1..60} \<and> d_secUntilRetry d \<in> {0..60})"
proof -
  have inv: "sess_inv s" using assms by (rule sess_reach_inv)
  have "negotiating_with host = (\<lambda>c :: 'a Tcpv4Conn. \<not> c_failed c \<and> \<not> n_receiverDone c \<and> c_state c = TCS_NEGOTIATING \<and> n_peerAddr c = host)"
    by (auto simp: negotiating_with_def)
  then have "host \<noteq> [] \<longrightarrow> length (filter (\<lambda>c. \<not> c_failed c \<and> \<not> n_receiverDone c \<and> c_state c = TCS_NEGOTIATING \<and>
      n_peerAddr c = host) (g_conns (y_eng s))) \<le> 4"
    using sess_inv_rationed[OF inv, of host] by (simp add: countNegotiating_def TCPV4_MAX_PEER_NEGOTIATING_def)
  then show ?thesis using inv by (simp add: sess_inv_def list_inv_def dial_ok_def TCPV4_MAX_RECONNECT_def)
qed

text \<open>Two senders that both want a session to the same node can open two: the check of
  \<open>tcpv4OpenSession\<close> that none is open or opening is over before the session it starts is in the list.\<close>

theorem two_senders_open_two_sessions:
  assumes "tcpv4NodeIdIsSet (Some nodeId)" "length nodeId < TCPV4_MAX_NODEID_LEN"
  shows "\<exists>s. sess_reach io ng rand_r s \<and>
    2 \<le> length (filter (\<lambda>c. n_activeRole c \<and> \<not> c_failed c \<and> c_state c = TCS_NEGOTIATING \<and>
      tcpv4NodeIdMatches (Some (n_dialNodeId c)) (Some nodeId)) (g_conns (y_eng s)))"
proof -
  obtain s where s: "sess_reach io ng rand_r s" "g_conns (y_eng s) =
    [new_conn undefined 2 0 True (Some nodeId) None False, new_conn undefined 1 0 True (Some nodeId) None False]"
    using reach_two_sessions[OF assms, of 1 io ng rand_r undefined 0] by auto
  have "tcpv4NodeIdMatches (Some nodeId) (Some nodeId)" using assms(1) by (rule node_id.matches_refl)
  then show ?thesis using s by (intro exI[of _ s]) (simp add: new_conn_def istrcpy_fits[OF assms(2)])
qed


section \<open>Examples\<close>

text \<open>An engine with one session, dialled for \<open>ipn_name\<close>, in the state \<open>st\<close>.\<close>

definition example_sess :: "int \<Rightarrow> (bytes \<times> bytes) Tcpv4Conn" where
  "example_sess st = (new_conn ([], []) 1 3 True (Some ipn_name) None False) \<lparr> c_state := st \<rparr>"

definition example_engine :: "int \<Rightarrow> (bytes \<times> bytes) SessEngine" where
  "example_engine st = \<lparr>g_conns = [example_sess st], g_connCount = 1, g_maxSessions = 4, g_idleSec = 0, g_dials = [],
     g_randState = 0, g_running = True\<rparr>"

lemma ipn_name_set: "tcpv4NodeIdIsSet (Some ipn_name)" "length ipn_name < TCPV4_MAX_NODEID_LEN"
  "tcpv4NodeIdMatches (Some ipn_name) (Some ipn_name)"
  by (simp_all add: tcpv4NodeIdIsSet_def ipn_name_def TCPV4_MAX_NODEID_LEN_def node_id.matches_refl)

lemma ticks_keep:
  "length (g_conns e) \<le> nat (g_maxSessions e + TCPV4_BUSY_SLACK) \<Longrightarrow> c \<in> set (g_conns e) \<Longrightarrow> \<not> n_receiverDone c \<Longrightarrow>
   (tick_session io (g_idleSec e) ^^ n) c \<in> set (g_conns (ticks io n e))"
proof (induction n arbitrary: e c)
  case (Suc n)
  let ?e = "snd (clockTick io e)" and ?c = "tick_session io (g_idleSec e) c"
  note t = clockTick_conns[OF Suc(2), of io]
  have "length (g_conns ?e) \<le> nat (g_maxSessions ?e + TCPV4_BUSY_SLACK)"
    unfolding t(1,2) using Suc(2) length_filter_le[of "\<lambda>c. \<not> reapable c" "map (tick_session io (g_idleSec e)) (g_conns e)"]
    unfolding length_map by (rule order_trans[rotated])
  moreover have "\<not> n_receiverDone ?c" using Suc(4) by (simp add: tick_session_fields)
  moreover from this have "?c \<in> set (g_conns ?e)" unfolding t(1) using Suc(3) by (auto simp: reapable_def)
  ultimately have "(tick_session io (g_idleSec ?e) ^^ n) ?c \<in> set (g_conns (ticks io n ?e))" by (intro Suc(1))
  then show ?case unfolding t(3) by (simp add: ticks_def funpow_Suc_right del: funpow.simps)
qed (simp add: ticks_def)

theorem silent_session_given_up_witness:
  "\<exists>c'. c' \<in> set (g_conns (ticks (pipe_io 2) 61 (example_engine TCS_NEGOTIATING))) \<and> (c_failed c' \<or> n_receiverDone c')"
proof -
  let ?e = "example_engine TCS_NEGOTIATING" and ?c = "example_sess TCS_NEGOTIATING"
  have e: "length (g_conns ?e) \<le> nat (g_maxSessions ?e + TCPV4_BUSY_SLACK)" "?c \<in> set (g_conns ?e)"
    "distinct (map n_id (g_conns ?e))" "\<not> n_receiverDone ?c"
    by (simp_all add: example_engine_def TCPV4_BUSY_SLACK_def example_sess_def new_conn_def)
  let ?d = "(tick_session (pipe_io 2) (g_idleSec ?e) ^^ 61) ?c"
  have d: "?d \<in> set (g_conns (ticks (pipe_io 2) 61 ?e))" "n_id ?d = n_id ?c" using ticks_keep[OF e(1,2,4)] by simp_all
  have "c_state ?c = TCS_NEGOTIATING \<and> n_secNegotiating ?c + int 61 > TCPV4_CONTACT_TIMEOUT"
    by (simp add: example_sess_def new_conn_def TCPV4_CONTACT_TIMEOUT_def)
  then have "c_failed ?d \<or> n_receiverDone ?d" by (intro silent_session_given_up[OF e(3,1,2) _ _ d] disjI1) simp_all
  then show ?thesis using d(1) by (intro exI[of _ ?d] conjI)
qed

theorem session_list_sound_witness:
  "\<exists>s. sess_reach (pipe_io 2) (example_end 30 TCPV4_EIDPOL_NONE ipn_name) (\<lambda>s. (s, s + 1)) s \<and> g_connCount (y_eng s) = 2"
proof -
  obtain s where s: "sess_reach (pipe_io 2) (example_end 30 TCPV4_EIDPOL_NONE ipn_name) (\<lambda>s. (s, s + 1)) s"
    "length (g_conns (y_eng s)) = 2"
    using reach_two_sessions[OF ipn_name_set(1,2), of 1 "pipe_io 2" "example_end 30 TCPV4_EIDPOL_NONE ipn_name" "\<lambda>s. (s, s + 1)" "([], [])" 0]
    by fastforce
  then show ?thesis using session_list_sound[OF s(1), of "[]"] by auto
qed

theorem two_senders_open_two_sessions_witness:
  "\<exists>s. sess_reach (pipe_io 2) (example_end 30 TCPV4_EIDPOL_NONE ipn_name) (\<lambda>s. (s, s + 1)) s \<and>
    2 \<le> length (filter (\<lambda>c. n_activeRole c \<and> \<not> c_failed c \<and> c_state c = TCS_NEGOTIATING \<and>
      tcpv4NodeIdMatches (Some (n_dialNodeId c)) (Some ipn_name)) (g_conns (y_eng s)))"
  by (rule two_senders_open_two_sessions[OF ipn_name_set(1,2)])

theorem bundle_goes_to_its_node_witness:
  "\<exists>e' e1 c. tcpv4EngineSendTo (\<lambda>k e. (True, e)) (\<lambda>k e. (-1, e)) (\<lambda>e. e) (Some 0) False
      (example_engine TCS_ESTABLISHED) ipn_name 7 100 = Some (0, e') \<and>
    c \<in> set (g_conns (e1 :: (bytes \<times> bytes) SessEngine)) \<and> tcpv4NodeIdMatches (Some (n_routeNodeId c)) (Some ipn_name)"
proof -
  let ?e = "example_engine TCS_ESTABLISHED" and ?c = "example_sess TCS_ESTABLISHED"
  have s: "serves ipn_name ?c"
    by (simp add: serves_def example_sess_def new_conn_def istrcpy_fits ipn_name_set)
  then have "best_of (filter (serves ipn_name) (g_conns ?e)) = Some ?c"
    by (simp add: example_engine_def best_of_def)
  then have "findConn ?e ipn_name = (Some ?c, True, upd_conn (n_id ?c) (\<lambda>c. c \<lparr> n_txSenders := n_txSenders c + 1 \<rparr>) ?e)"
    using findConn_spec[OF ipn_name_set(1), of ?e] s by (simp add: Let_def example_engine_def)
  then have "send_pass ?e ipn_name False = (Found 1, upd_conn (n_id ?c) (\<lambda>c. c \<lparr> n_txSenders := n_txSenders c + 1 \<rparr>) ?e)"
    by (simp add: send_pass_def Let_def) (simp add: example_engine_def example_sess_def new_conn_def)
  then have "claim_loop (\<lambda>k e. (True, e)) (\<lambda>k e. (-1, e)) ipn_name False 0 ?e =
      Some (Some 1, upd_conn (n_id ?c) (\<lambda>c. c \<lparr> n_txSenders := n_txSenders c + 1 \<rparr>) ?e)"
    by (subst claim_loop.simps) simp
  moreover have "find (\<lambda>c. n_id c = 1) (g_conns (upd_conn (n_id ?c) (\<lambda>c. c \<lparr> n_txSenders := n_txSenders c + 1 \<rparr>) ?e)) =
      Some (?c \<lparr> n_txSenders := n_txSenders ?c + 1 \<rparr>)"
    by (simp add: upd_conn_def example_engine_def) (simp add: example_sess_def new_conn_def)
  moreover have "\<exists>tx. queueXfer (n_transferMtu ?c) (c_tx ?c) (Some 0) False 7 100 = Some (0, tx)"
    by (simp add: queueXfer_def example_sess_def new_conn_def TCPV4CLA_BUFSZ_def tx_init_def txAppend_def Let_def)
  ultimately obtain e' where x: "tcpv4EngineSendTo (\<lambda>k e. (True, e)) (\<lambda>k e. (-1, e)) (\<lambda>e. e) (Some 0) False ?e ipn_name 7 100 = Some (0, e')"
    by (auto simp: tcpv4EngineSendTo_def Let_def)
  from bundle_goes_to_its_node[OF x] show ?thesis using x by blast
qed


end
