(* ===== verification/QuicMsg.thy ===== *)
theory QuicMsg
  imports Wire
begin

unbundle bit_operations_syntax

text \<open>
  The QUICCL message codec, CLA/quic/src/quicmsg.c, over the \<open>Writer\<close> and \<open>Reader\<close> of \<open>Wire\<close>
  (the C file repeats their code).  As in \<open>Tcpv4Msg\<close>: one record per struct of quicmsg.h, one
  definition per encoder and decoder in the order of the file, the octet string of each message,
  and an interpretation of \<open>wire_codec\<close> for each.
\<close>

section \<open>Constants\<close>

definition QMSG_SESS_INIT :: u8 where "QMSG_SESS_INIT = 0x01"
definition QMSG_XFER_SEGMENT :: u8 where "QMSG_XFER_SEGMENT = 0x02"
definition QMSG_XFER_ACK :: u8 where "QMSG_XFER_ACK = 0x03"
definition QMSG_XFER_REFUSE :: u8 where "QMSG_XFER_REFUSE = 0x04"
definition QMSG_KEEPALIVE :: u8 where "QMSG_KEEPALIVE = 0x05"
definition QMSG_SESS_TERM :: u8 where "QMSG_SESS_TERM = 0x06"
definition QMSG_MSG_REJECT :: u8 where "QMSG_MSG_REJECT = 0x07"
definition QMSG_FLAG_START :: u8 where "QMSG_FLAG_START = 0x02"

lemmas qmsg_types =
  QMSG_SESS_INIT_def QMSG_XFER_SEGMENT_def QMSG_XFER_ACK_def QMSG_XFER_REFUSE_def
  QMSG_KEEPALIVE_def QMSG_SESS_TERM_def QMSG_MSG_REJECT_def

section \<open>Message structs\<close>

record QuicSessInit =
  qsi_keepalive :: u16
  qsi_segmentMru :: u64
  qsi_datagramMru :: u64
  qsi_transferMru :: u64
  qsi_nodeId :: "bytes option"
  qsi_nodeIdLen :: u16
  qsi_sessExt :: "bytes option"
  qsi_sessExtLen :: u32

record QuicXferSegment =
  qxs_flags :: u8
  qxs_segmentId :: u16
  qxs_totalSegments :: u16
  qxs_transferId :: u64
  qxs_xferExt :: "bytes option"
  qxs_xferExtLen :: u32
  qxs_segmentLength :: u64
  qxs_bundleLength :: u64
  qxs_serviceMode :: u8

record QuicXferAck =
  qxa_flags :: u8
  qxa_segmentId :: u16
  qxa_transferId :: u64
  qxa_ackLength :: u64

record QuicXferRefuse =
  qxr_reason :: u8
  qxr_transferId :: u64

record QuicSessTerm =
  qst_flags :: u8
  qst_reason :: u8
  qst_sessExt :: "bytes option"
  qst_sessExtLen :: u32

record QuicMsgReject =
  qmr_rejectedType :: u8
  qmr_reason :: u8

definition quic_octets :: "bytes option \<Rightarrow> bytes" where
  "quic_octets p = (case p of None \<Rightarrow> [] | Some bs \<Rightarrow> bs)"

lemma quic_octets_simps [simp]: "quic_octets None = []" "quic_octets (Some bs) = bs"
  by (simp_all add: quic_octets_def)

definition quicMsgType :: "bytes \<Rightarrow> nat \<Rightarrow> int" where
  "quicMsgType buf len = (if len = 0 then -1 else uint (buf ! 0))"

section \<open>\<open>SESS_INIT\<close>\<close>

definition quicMsgEncodeSessInit :: "bytes \<Rightarrow> nat \<Rightarrow> QuicSessInit \<Rightarrow> int \<times> bytes" where
  "quicMsgEncodeSessInit buf cap m = encode_with (do {
     wU8 QMSG_SESS_INIT;
     wU16 (qsi_keepalive m);
     wU64 (qsi_segmentMru m);
     wU64 (qsi_datagramMru m);
     wU64 (qsi_transferMru m);
     wU16 (qsi_nodeIdLen m);
     wBytes (quic_octets (qsi_nodeId m)) (unat (qsi_nodeIdLen m));
     wU32 (qsi_sessExtLen m);
     wBytes (quic_octets (qsi_sessExt m)) (unat (qsi_sessExtLen m)) }) buf cap"

definition quicMsgDecodeSessInit :: "bytes \<Rightarrow> nat \<Rightarrow> int \<times> QuicSessInit option" where
  "quicMsgDecodeSessInit = decode_typed QMSG_SESS_INIT (do {
     keepalive \<leftarrow> rU16;
     segmentMru \<leftarrow> rU64;
     datagramMru \<leftarrow> rU64;
     transferMru \<leftarrow> rU64;
     nodeIdLen \<leftarrow> rU16;
     nodeId \<leftarrow> rBytes (unat nodeIdLen);
     sessExtLen \<leftarrow> rU32;
     sessExt \<leftarrow> rBytes (unat sessExtLen);
     State_Monad.return \<lparr>qsi_keepalive = keepalive,
       qsi_segmentMru = segmentMru,
       qsi_datagramMru = datagramMru,
       qsi_transferMru = transferMru,
       qsi_nodeId = nodeId,
       qsi_nodeIdLen = nodeIdLen,
       qsi_sessExt = sessExt,
       qsi_sessExtLen = sessExtLen\<rparr> })"

section \<open>\<open>XFER_SEGMENT\<close>\<close>

definition quicMsgEncodeXferSegmentHdr :: "bytes \<Rightarrow> nat \<Rightarrow> QuicXferSegment \<Rightarrow> int \<times> bytes" where
  "quicMsgEncodeXferSegmentHdr buf cap m = encode_with (do {
     wU8 QMSG_XFER_SEGMENT;
     wU8 (qxs_flags m);
     wU16 (qxs_segmentId m);
     wU16 (qxs_totalSegments m);
     wU64 (qxs_transferId m);
     (if qxs_flags m AND QMSG_FLAG_START \<noteq> 0 then do {
        wU32 (qxs_xferExtLen m);
        wBytes (quic_octets (qxs_xferExt m)) (unat (qxs_xferExtLen m)) }
      else State_Monad.return ());
     wU64 (qxs_segmentLength m);
     wU64 (qxs_bundleLength m);
     wU8 (qxs_serviceMode m) }) buf cap"

definition quicMsgDecodeXferSegmentHdr :: "bytes \<Rightarrow> nat \<Rightarrow> int \<times> QuicXferSegment option" where
  "quicMsgDecodeXferSegmentHdr = decode_typed QMSG_XFER_SEGMENT (do {
     flags \<leftarrow> rU8;
     segmentId \<leftarrow> rU16;
     totalSegments \<leftarrow> rU16;
     transferId \<leftarrow> rU64;
     (xferExtLen, xferExt) \<leftarrow>
       (if flags AND QMSG_FLAG_START \<noteq> 0 then do {
          xferExtLen \<leftarrow> rU32;
          xferExt \<leftarrow> rBytes (unat xferExtLen);
          State_Monad.return (xferExtLen, xferExt) }
        else State_Monad.return (0, None));
     segmentLength \<leftarrow> rU64;
     bundleLength \<leftarrow> rU64;
     serviceMode \<leftarrow> rU8;
     State_Monad.return \<lparr>qxs_flags = flags, qxs_segmentId = segmentId,
       qxs_totalSegments = totalSegments, qxs_transferId = transferId, qxs_xferExt = xferExt,
       qxs_xferExtLen = xferExtLen, qxs_segmentLength = segmentLength,
       qxs_bundleLength = bundleLength, qxs_serviceMode = serviceMode\<rparr> })"

section \<open>\<open>XFER_ACK\<close>\<close>

definition quicMsgEncodeXferAck :: "bytes \<Rightarrow> nat \<Rightarrow> QuicXferAck \<Rightarrow> int \<times> bytes" where
  "quicMsgEncodeXferAck buf cap m = encode_with (do {
     wU8 QMSG_XFER_ACK;
     wU8 (qxa_flags m);
     wU16 (qxa_segmentId m);
     wU64 (qxa_transferId m);
     wU64 (qxa_ackLength m) }) buf cap"

definition quicMsgDecodeXferAck :: "bytes \<Rightarrow> nat \<Rightarrow> int \<times> QuicXferAck option" where
  "quicMsgDecodeXferAck = decode_typed QMSG_XFER_ACK (do {
     flags \<leftarrow> rU8;
     segmentId \<leftarrow> rU16;
     transferId \<leftarrow> rU64;
     ackLength \<leftarrow> rU64;
     State_Monad.return \<lparr>qxa_flags = flags,
       qxa_segmentId = segmentId,
       qxa_transferId = transferId,
       qxa_ackLength = ackLength\<rparr> })"

section \<open>\<open>XFER_REFUSE\<close>\<close>

definition quicMsgEncodeXferRefuse :: "bytes \<Rightarrow> nat \<Rightarrow> QuicXferRefuse \<Rightarrow> int \<times> bytes" where
  "quicMsgEncodeXferRefuse buf cap m = encode_with (do {
     wU8 QMSG_XFER_REFUSE;
     wU8 (qxr_reason m);
     wU64 (qxr_transferId m) }) buf cap"

definition quicMsgDecodeXferRefuse :: "bytes \<Rightarrow> nat \<Rightarrow> int \<times> QuicXferRefuse option" where
  "quicMsgDecodeXferRefuse = decode_typed QMSG_XFER_REFUSE (do {
     reason \<leftarrow> rU8;
     transferId \<leftarrow> rU64;
     State_Monad.return \<lparr>qxr_reason = reason,
       qxr_transferId = transferId\<rparr> })"

section \<open>\<open>KEEPALIVE\<close>\<close>

definition quicMsgEncodeKeepalive :: "bytes \<Rightarrow> nat \<Rightarrow> int \<times> bytes" where
  "quicMsgEncodeKeepalive buf cap = encode_with (wU8 QMSG_KEEPALIVE) buf cap"

section \<open>\<open>SESS_TERM\<close>\<close>

definition quicMsgEncodeSessTerm :: "bytes \<Rightarrow> nat \<Rightarrow> QuicSessTerm \<Rightarrow> int \<times> bytes" where
  "quicMsgEncodeSessTerm buf cap m = encode_with (do {
     wU8 QMSG_SESS_TERM;
     wU8 (qst_flags m);
     wU8 (qst_reason m);
     wU32 (qst_sessExtLen m);
     wBytes (quic_octets (qst_sessExt m)) (unat (qst_sessExtLen m)) }) buf cap"

definition quicMsgDecodeSessTerm :: "bytes \<Rightarrow> nat \<Rightarrow> int \<times> QuicSessTerm option" where
  "quicMsgDecodeSessTerm = decode_typed QMSG_SESS_TERM (do {
     flags \<leftarrow> rU8;
     reason \<leftarrow> rU8;
     sessExtLen \<leftarrow> rU32;
     sessExt \<leftarrow> rBytes (unat sessExtLen);
     State_Monad.return \<lparr>qst_flags = flags,
       qst_reason = reason,
       qst_sessExt = sessExt,
       qst_sessExtLen = sessExtLen\<rparr> })"

section \<open>\<open>MSG_REJECT\<close>\<close>

definition quicMsgEncodeMsgReject :: "bytes \<Rightarrow> nat \<Rightarrow> QuicMsgReject \<Rightarrow> int \<times> bytes" where
  "quicMsgEncodeMsgReject buf cap m = encode_with (do {
     wU8 QMSG_MSG_REJECT;
     wU8 (qmr_rejectedType m);
     wU8 (qmr_reason m) }) buf cap"

definition quicMsgDecodeMsgReject :: "bytes \<Rightarrow> nat \<Rightarrow> int \<times> QuicMsgReject option" where
  "quicMsgDecodeMsgReject = decode_typed QMSG_MSG_REJECT (do {
     rejectedType \<leftarrow> rU8;
     reason \<leftarrow> rU8;
     State_Monad.return \<lparr>qmr_rejectedType = rejectedType,
       qmr_reason = reason\<rparr> })"

section \<open>The octet strings of the messages\<close>

definition wire_quic_sess_init :: "QuicSessInit \<Rightarrow> bytes" where
  "wire_quic_sess_init m = QMSG_SESS_INIT # be16 (qsi_keepalive m) @
     be64 (qsi_segmentMru m) @
     be64 (qsi_datagramMru m) @
     be64 (qsi_transferMru m) @
     be16 (qsi_nodeIdLen m) @
     quic_octets (qsi_nodeId m) @
     be32 (qsi_sessExtLen m) @
     quic_octets (qsi_sessExt m)"

definition valid_quic_sess_init :: "QuicSessInit \<Rightarrow> bool" where
  "valid_quic_sess_init m \<longleftrightarrow>
     qsi_nodeId m \<noteq> None \<and> length (quic_octets (qsi_nodeId m)) = unat (qsi_nodeIdLen m) \<and>
     qsi_sessExt m \<noteq> None \<and> length (quic_octets (qsi_sessExt m)) = unat (qsi_sessExtLen m)"

definition wire_quic_xfer_segment :: "QuicXferSegment \<Rightarrow> bytes" where
  "wire_quic_xfer_segment m = QMSG_XFER_SEGMENT # [qxs_flags m] @
     be16 (qxs_segmentId m) @
     be16 (qxs_totalSegments m) @
     be64 (qxs_transferId m) @
     (if qxs_flags m AND QMSG_FLAG_START \<noteq> 0
        then be32 (qxs_xferExtLen m) @ quic_octets (qxs_xferExt m) else []) @
     be64 (qxs_segmentLength m) @
     be64 (qxs_bundleLength m) @
     [qxs_serviceMode m]"

definition valid_quic_xfer_segment :: "QuicXferSegment \<Rightarrow> bool" where
  "valid_quic_xfer_segment m \<longleftrightarrow>
     (if qxs_flags m AND QMSG_FLAG_START \<noteq> 0
      then qxs_xferExt m \<noteq> None \<and> length (quic_octets (qxs_xferExt m)) = unat (qxs_xferExtLen m)
      else qxs_xferExt m = None \<and> qxs_xferExtLen m = 0)"

definition wire_quic_xfer_ack :: "QuicXferAck \<Rightarrow> bytes" where
  "wire_quic_xfer_ack m = QMSG_XFER_ACK # [qxa_flags m] @
     be16 (qxa_segmentId m) @
     be64 (qxa_transferId m) @
     be64 (qxa_ackLength m)"

definition wire_quic_xfer_refuse :: "QuicXferRefuse \<Rightarrow> bytes" where
  "wire_quic_xfer_refuse m = QMSG_XFER_REFUSE # [qxr_reason m] @
     be64 (qxr_transferId m)"

definition wire_quic_sess_term :: "QuicSessTerm \<Rightarrow> bytes" where
  "wire_quic_sess_term m = QMSG_SESS_TERM # [qst_flags m] @
     [qst_reason m] @
     be32 (qst_sessExtLen m) @
     quic_octets (qst_sessExt m)"

definition valid_quic_sess_term :: "QuicSessTerm \<Rightarrow> bool" where
  "valid_quic_sess_term m \<longleftrightarrow>
     qst_sessExt m \<noteq> None \<and> length (quic_octets (qst_sessExt m)) = unat (qst_sessExtLen m)"

definition wire_quic_msg_reject :: "QuicMsgReject \<Rightarrow> bytes" where
  "wire_quic_msg_reject m = QMSG_MSG_REJECT # [qmr_rejectedType m] @
     [qmr_reason m]"

named_theorems quic_encoders \<open>the encoders and what they write\<close>

declare
  quicMsgEncodeSessInit_def [quic_encoders]
  wire_quic_sess_init_def [quic_encoders]
  quicMsgEncodeXferSegmentHdr_def [quic_encoders]
  wire_quic_xfer_segment_def [quic_encoders]
  quicMsgEncodeXferAck_def [quic_encoders]
  wire_quic_xfer_ack_def [quic_encoders]
  quicMsgEncodeXferRefuse_def [quic_encoders]
  wire_quic_xfer_refuse_def [quic_encoders]
  quicMsgEncodeKeepalive_def [quic_encoders]
  quicMsgEncodeSessTerm_def [quic_encoders]
  wire_quic_sess_term_def [quic_encoders]
  quicMsgEncodeMsgReject_def [quic_encoders]
  wire_quic_msg_reject_def [quic_encoders]

lemma encoded_quic_sess_init:
  "valid_quic_sess_init m \<Longrightarrow> cap \<le> length buf \<Longrightarrow>
     encoded (quicMsgEncodeSessInit buf cap m) buf cap (wire_quic_sess_init m)"
  unfolding quic_encoders
  by (rule encode_with_encoded, (rule emits_intro | simp add: valid_quic_sess_init_def)+)

lemma encoded_quic_xfer_segment:
  "valid_quic_xfer_segment m \<Longrightarrow> cap \<le> length buf \<Longrightarrow>
     encoded (quicMsgEncodeXferSegmentHdr buf cap m) buf cap (wire_quic_xfer_segment m)"
  unfolding quic_encoders
  by (rule encode_with_encoded, (rule emits_intro | simp add: valid_quic_xfer_segment_def)+)

lemma encoded_quic_xfer_ack:
  "cap \<le> length buf \<Longrightarrow>
     encoded (quicMsgEncodeXferAck buf cap m) buf cap (wire_quic_xfer_ack m)"
  unfolding quic_encoders
  by (rule encode_with_encoded, (rule emits_intro | simp)+)

lemma encoded_quic_xfer_refuse:
  "cap \<le> length buf \<Longrightarrow>
     encoded (quicMsgEncodeXferRefuse buf cap m) buf cap (wire_quic_xfer_refuse m)"
  unfolding quic_encoders
  by (rule encode_with_encoded, (rule emits_intro | simp)+)

lemma quic_encoded_keepalive:
  "cap \<le> length buf \<Longrightarrow> encoded (quicMsgEncodeKeepalive buf cap) buf cap [QMSG_KEEPALIVE]"
  unfolding quic_encoders by (rule encode_with_encoded, (rule emits_intro | simp)+)

lemma encoded_quic_sess_term:
  "valid_quic_sess_term m \<Longrightarrow> cap \<le> length buf \<Longrightarrow>
     encoded (quicMsgEncodeSessTerm buf cap m) buf cap (wire_quic_sess_term m)"
  unfolding quic_encoders
  by (rule encode_with_encoded, (rule emits_intro | simp add: valid_quic_sess_term_def)+)

lemma encoded_quic_msg_reject:
  "cap \<le> length buf \<Longrightarrow>
     encoded (quicMsgEncodeMsgReject buf cap m) buf cap (wire_quic_msg_reject m)"
  unfolding quic_encoders
  by (rule encode_with_encoded, (rule emits_intro | simp)+)

section \<open>The codecs\<close>

interpretation quic_sess_init: wire_codec wire_quic_sess_init quicMsgDecodeSessInit
  valid_quic_sess_init quicMsgEncodeSessInit
proof (intro wire_codec.intro wire_codec_axioms.intro)
  show "wire_format wire_quic_sess_init quicMsgDecodeSessInit valid_quic_sess_init"
    unfolding quicMsgDecodeSessInit_def
    by (rule wire_format_typed[where tail = "\<lambda>m. be16 (qsi_keepalive m) @
        be64 (qsi_segmentMru m) @
        be64 (qsi_datagramMru m) @
        be64 (qsi_transferMru m) @
        be16 (qsi_nodeIdLen m) @
        quic_octets (qsi_nodeId m) @
        be32 (qsi_sessExtLen m) @
        quic_octets (qsi_sessExt m) @ []"],
        simp add: qmsg_types, simp add: wire_quic_sess_init_def,
        rule parses_value, (rule parses_intro sticky_intro | simp add: valid_quic_sess_init_def)+,
        (auto simp: valid_quic_sess_init_def)[1], (rule yields_intro)+, (auto simp: valid_quic_sess_init_def)[1],
        (rule sticky_intro)+)
qed (rule encoded_quic_sess_init)

interpretation quic_xfer_segment: wire_codec wire_quic_xfer_segment quicMsgDecodeXferSegmentHdr
  valid_quic_xfer_segment quicMsgEncodeXferSegmentHdr
proof (intro wire_codec.intro wire_codec_axioms.intro)
  show "wire_format wire_quic_xfer_segment quicMsgDecodeXferSegmentHdr valid_quic_xfer_segment"
    unfolding quicMsgDecodeXferSegmentHdr_def
    by (rule wire_format_typed[where tail = "\<lambda>m. [qxs_flags m] @
        be16 (qxs_segmentId m) @
        be16 (qxs_totalSegments m) @
        be64 (qxs_transferId m) @
        (if qxs_flags m AND QMSG_FLAG_START \<noteq> 0
        then be32 (qxs_xferExtLen m) @ quic_octets (qxs_xferExt m) @ [] else []) @
        be64 (qxs_segmentLength m) @
        be64 (qxs_bundleLength m) @
        [qxs_serviceMode m] @ []"],
        simp add: qmsg_types, simp add: wire_quic_xfer_segment_def,
        rule parses_value, (rule parses_intro sticky_intro | simp add: valid_quic_xfer_segment_def)+,
        (auto simp: valid_quic_xfer_segment_def)[1], (rule yields_intro)+, (auto simp: valid_quic_xfer_segment_def)[1],
        (rule sticky_intro)+)
qed (rule encoded_quic_xfer_segment)

interpretation quic_xfer_ack: wire_codec wire_quic_xfer_ack quicMsgDecodeXferAck
  "\<lambda>_. True" quicMsgEncodeXferAck
proof (intro wire_codec.intro wire_codec_axioms.intro)
  show "wire_format wire_quic_xfer_ack quicMsgDecodeXferAck (\<lambda>_. True)"
    unfolding quicMsgDecodeXferAck_def
    by (rule wire_format_typed[where tail = "\<lambda>m. [qxa_flags m] @
        be16 (qxa_segmentId m) @
        be64 (qxa_transferId m) @
        be64 (qxa_ackLength m) @ []"],
        simp add: qmsg_types, simp add: wire_quic_xfer_ack_def,
        rule parses_value, (rule parses_intro sticky_intro | simp)+,
        (rule yields_intro)+, (auto)[1],
        (rule sticky_intro)+)
qed (rule encoded_quic_xfer_ack)

interpretation quic_xfer_refuse: wire_codec wire_quic_xfer_refuse quicMsgDecodeXferRefuse
  "\<lambda>_. True" quicMsgEncodeXferRefuse
proof (intro wire_codec.intro wire_codec_axioms.intro)
  show "wire_format wire_quic_xfer_refuse quicMsgDecodeXferRefuse (\<lambda>_. True)"
    unfolding quicMsgDecodeXferRefuse_def
    by (rule wire_format_typed[where tail = "\<lambda>m. [qxr_reason m] @
        be64 (qxr_transferId m) @ []"],
        simp add: qmsg_types, simp add: wire_quic_xfer_refuse_def,
        rule parses_value, (rule parses_intro sticky_intro | simp)+,
        (rule yields_intro)+, (auto)[1],
        (rule sticky_intro)+)
qed (rule encoded_quic_xfer_refuse)

interpretation quic_sess_term: wire_codec wire_quic_sess_term quicMsgDecodeSessTerm
  valid_quic_sess_term quicMsgEncodeSessTerm
proof (intro wire_codec.intro wire_codec_axioms.intro)
  show "wire_format wire_quic_sess_term quicMsgDecodeSessTerm valid_quic_sess_term"
    unfolding quicMsgDecodeSessTerm_def
    by (rule wire_format_typed[where tail = "\<lambda>m. [qst_flags m] @
        [qst_reason m] @
        be32 (qst_sessExtLen m) @
        quic_octets (qst_sessExt m) @ []"],
        simp add: qmsg_types, simp add: wire_quic_sess_term_def,
        rule parses_value, (rule parses_intro sticky_intro | simp add: valid_quic_sess_term_def)+,
        (auto simp: valid_quic_sess_term_def)[1], (rule yields_intro)+, (auto simp: valid_quic_sess_term_def)[1],
        (rule sticky_intro)+)
qed (rule encoded_quic_sess_term)

interpretation quic_msg_reject: wire_codec wire_quic_msg_reject quicMsgDecodeMsgReject
  "\<lambda>_. True" quicMsgEncodeMsgReject
proof (intro wire_codec.intro wire_codec_axioms.intro)
  show "wire_format wire_quic_msg_reject quicMsgDecodeMsgReject (\<lambda>_. True)"
    unfolding quicMsgDecodeMsgReject_def
    by (rule wire_format_typed[where tail = "\<lambda>m. [qmr_rejectedType m] @
        [qmr_reason m] @ []"],
        simp add: qmsg_types, simp add: wire_quic_msg_reject_def,
        rule parses_value, (rule parses_intro sticky_intro | simp)+,
        (rule yields_intro)+, (auto)[1],
        (rule sticky_intro)+)
qed (rule encoded_quic_msg_reject)

section \<open>Properties\<close>

text \<open>The SESS_INIT of the QUIC layer, with its datagram MRU, survives encoding and decoding.\<close>

theorem quic_sess_init_round_trip:
  assumes "valid_quic_sess_init m" "length (wire_quic_sess_init m) \<le> cap" "cap \<le> length buf" "cap < 2 ^ 31"
    and "quicMsgEncodeSessInit buf cap m = (k, out)"
  shows "k = int (length (wire_quic_sess_init m)) \<and> take (nat k) out = wire_quic_sess_init m \<and>
     quicMsgDecodeSessInit out cap = (k, Some m)"
  using assms by (rule quic_sess_init.dec_enc)

lemma quic_sess_init_round_trip_witness:
  "let m = \<lparr>qsi_keepalive = 15, qsi_segmentMru = 1, qsi_datagramMru = 2, qsi_transferMru = 3,
            qsi_nodeId = Some [0x61], qsi_nodeIdLen = 1, qsi_sessExt = Some [], qsi_sessExtLen = 0\<rparr>;
       (k, out) = quicMsgEncodeSessInit (replicate 40 0) 40 m
   in k = 34 \<and> quicMsgDecodeSessInit out 40 = (34, Some m)"
proof -
  let ?m = "\<lparr>qsi_keepalive = 15, qsi_segmentMru = 1, qsi_datagramMru = 2, qsi_transferMru = 3,
            qsi_nodeId = Some [0x61], qsi_nodeIdLen = 1, qsi_sessExt = Some [], qsi_sessExtLen = 0\<rparr>"
  obtain k out where e: "quicMsgEncodeSessInit (replicate 40 0) 40 ?m = (k, out)" by fastforce
  have "valid_quic_sess_init ?m" by (simp add: valid_quic_sess_init_def)
  moreover have "length (wire_quic_sess_init ?m) = 34" by (simp add: wire_quic_sess_init_def)
  ultimately show ?thesis using quic_sess_init_round_trip[OF _ _ _ _ e] e by (simp add: Let_def)
qed

text \<open>The segment header of the QUIC layer is decoded exactly when its octets start the buffer.\<close>

theorem quic_xfer_segment_exact:
  assumes "length buf < 2 ^ 31"
  shows "quicMsgDecodeXferSegmentHdr buf (length buf) = (k, Some m) \<longleftrightarrow>
     valid_quic_xfer_segment m \<and> k = int (length (wire_quic_xfer_segment m)) \<and>
     (\<exists>rest. buf = wire_quic_xfer_segment m @ rest)"
  using assms by (rule quic_xfer_segment.dec_iff)

lemma quic_xfer_segment_exact_witness:
  "let m = \<lparr>qxs_flags = 0, qxs_segmentId = 1, qxs_totalSegments = 2, qxs_transferId = 3,
            qxs_xferExt = None, qxs_xferExtLen = 0, qxs_segmentLength = 10, qxs_bundleLength = 20,
            qxs_serviceMode = 1\<rparr>
   in quicMsgDecodeXferSegmentHdr (wire_quic_xfer_segment m) 31 = (31, Some m)"
proof -
  let ?m = "\<lparr>qxs_flags = 0, qxs_segmentId = 1, qxs_totalSegments = 2, qxs_transferId = 3,
            qxs_xferExt = None, qxs_xferExtLen = 0, qxs_segmentLength = 10, qxs_bundleLength = 20,
            qxs_serviceMode = 1\<rparr>"
  have "valid_quic_xfer_segment ?m" by (simp add: valid_quic_xfer_segment_def QMSG_FLAG_START_def)
  moreover have "length (wire_quic_xfer_segment ?m) = 31"
    by (simp add: wire_quic_xfer_segment_def QMSG_FLAG_START_def)
  ultimately show ?thesis
    using quic_xfer_segment_exact[of "wire_quic_xfer_segment ?m" 31 ?m] by (simp add: Let_def)
qed

end
