(* ===== verification/MessageLoop.thy ===== *)
theory MessageLoop
  imports Prelude
begin

unbundle bit_operations_syntax
text \<open>
  The loop that takes messages off the front of a buffer, as the receivers of stream data have it: a message that is
  not complete waits for more octets, a complete one is acted on and dropped, and an action that fails ends the loop.
  \<open>front\<close> says how many octets the message at the front has, \<open>None\<close> when they are not all there; \<open>act\<close> is
  what is done with it.  The contract is that neither looks beyond the message.  What follows from it is that it makes
  no difference where the octets are cut.
\<close>

locale message_loop =
  fixes front :: "bytes \<Rightarrow> nat option"
    and act :: "bytes \<Rightarrow> 'st \<Rightarrow> int \<times> 'st"
    and loop :: "bytes \<Rightarrow> 'st \<Rightarrow> int \<times> bytes \<times> 'st"
  assumes front_append: "p \<noteq> [] \<Longrightarrow> length p < 2 ^ 31 \<Longrightarrow> front p = Some n \<Longrightarrow> front (p @ b) = Some n"
    and front_within: "p \<noteq> [] \<Longrightarrow> length p < 2 ^ 31 \<Longrightarrow> front p = Some n \<Longrightarrow> n \<noteq> 0 \<and> n \<le> length p"
    and act_append: "p \<noteq> [] \<Longrightarrow> length p < 2 ^ 31 \<Longrightarrow> front p = Some n \<Longrightarrow> act (p @ b) st = act p st"
    and loop_Nil: "loop [] st = (0, [], st)"
    and loop_wait: "p \<noteq> [] \<Longrightarrow> front p = None \<Longrightarrow> loop p st = (0, p, st)"
    and loop_take: "p \<noteq> [] \<Longrightarrow> front p = Some n \<Longrightarrow> n \<noteq> 0 \<Longrightarrow> act p st = (rc, st') \<Longrightarrow>
      loop p st = (if rc < 0 then (-1, p, st') else loop (drop n p) st')"
begin

text \<open>What a first part of the octets has done is what all the octets begin with.\<close>

lemma loop_append:
  "loop a st = (rc, r, st1) \<Longrightarrow> length a < 2 ^ 31 \<Longrightarrow>
     (if rc < 0 then \<exists>r'. loop (a @ b) st = (-1, r', st1)
      else rc = 0 \<and> length r \<le> length a \<and> loop (a @ b) st = loop (r @ b) st1)"
proof (induction "length a" arbitrary: a st rule: less_induct)
  case less
  show ?case
  proof (cases "a = []")
    case True
    then show ?thesis using less.prems by (simp add: loop_Nil)
  next
    case a: False
    then have ab: "a @ b \<noteq> []" by simp
    show ?thesis
    proof (cases "front a")
      case None
      then show ?thesis using loop_wait[OF a None, of st] less.prems by auto
    next
      case (Some n)
      note n = front_within[OF a less.prems(2) Some]
      obtain rc2 st2 where x: "act a st = (rc2, st2)" by fastforce
      have x': "act (a @ b) st = (rc2, st2)" using act_append[OF a less.prems(2) Some] x by simp
      note step = loop_take[OF a Some conjunct1[OF n] x]
        and step' = loop_take[OF ab front_append[OF a less.prems(2) Some] conjunct1[OF n] x']
      show ?thesis
      proof (cases "rc2 < 0")
        case True
        then show ?thesis using step step' less.prems by auto
      next
        case False
        have l: "length (drop n a) < length a" "length (drop n a) < 2 ^ 31" using n a less.prems(2) by auto
        have d: "loop (drop n a) st2 = (rc, r, st1)" using step False less.prems by simp
        have ih: "if rc < 0 then \<exists>r'. loop (drop n a @ b) st2 = (-1, r', st1)
          else rc = 0 \<and> length r \<le> length (drop n a) \<and> loop (drop n a @ b) st2 = loop (r @ b) st1"
          by (rule less.hyps[OF l(1) d l(2)])
        have e: "loop (a @ b) st = loop (drop n a @ b) st2" using step' False n by simp
        have "length r \<le> length (drop n a) \<Longrightarrow> length r \<le> length a" by simp
        with ih show ?thesis unfolding e by (cases "rc < 0") simp_all
      qed
    qed
  qed
qed

lemma loop_settled:
  "loop p st = (0, r, st1) \<Longrightarrow> length p < 2 ^ 31 \<Longrightarrow> r = [] \<or> front r = None"
proof (induction "length p" arbitrary: p st rule: less_induct)
  case less
  show ?case
  proof (cases "p = []")
    case True
    then show ?thesis using less.prems by (simp add: loop_Nil)
  next
    case p: False
    show ?thesis
    proof (cases "front p")
      case None
      then show ?thesis using loop_wait[OF p None, of st] less.prems by auto
    next
      case (Some n)
      note n = front_within[OF p less.prems(2) Some]
      obtain rc2 st2 where x: "act p st = (rc2, st2)" by fastforce
      from less.hyps[of "drop n p" st2] loop_take[OF p Some conjunct1[OF n] x] less.prems p n show ?thesis
        by (simp split: if_splits)
    qed
  qed
qed

lemma loop_waits: "r = [] \<or> front r = None \<Longrightarrow> loop r st = (0, r, st)"
  by (cases "r = []") (simp_all add: loop_Nil loop_wait)

text \<open>A message that is done with leaves the octets behind it.\<close>

lemma loop_message:
  "front (m @ rest) = Some (length m) \<Longrightarrow> m \<noteq> [] \<Longrightarrow> act (m @ rest) st = (0, st') \<Longrightarrow> loop (m @ rest) st = loop rest st'"
  using loop_take[of "m @ rest" "length m" st 0 st'] by simp

end

end
