(* ===== verification/QuicStream.thy ===== *)
theory QuicStream
  imports QuicMsg MessageLoop
begin

unbundle bit_operations_syntax
text \<open>
  Bundles on the data streams of a QUICCL connection (CLA/quic/src/quicsession.c): framing a bundle as
  XFER_SEGMENT messages, and, at the other end, reassembling the octets of the data streams into
  messages, the messages into a bundle, and acknowledging it.

  \<open>mem\<close> says which sizes \<open>MTAKE\<close> can give; the callback that takes a bundle is a function on a context of
  any type and returns a negative number when it fails.  A buffer is the octets in it, with its capacity
  beside it.  ngtcp2 hands over the octets of each stream in order.

  The lemmas show that it makes no difference how the octets are cut up when they arrive; that bundles
  framed one after the other are handed over octet for octet, each once, and acknowledged at their full
  length; that the buffers hold what is put into them; and what happens when two streams alternate.
\<close>

section \<open>Model: receiving\<close>

definition QUICCLA_BUFSZ :: nat where "QUICCLA_BUFSZ = 256 * 1024"
definition QMSG_FLAG_END :: u8 where "QMSG_FLAG_END = 0x01"
definition QMSG_SVC_RELIABLE :: u8 where "QMSG_SVC_RELIABLE = 0"
definition QUICCL_SIG_STREAM :: int where "QUICCL_SIG_STREAM = 0"

text \<open>The acknowledgement that is due, and the one in flight.\<close>

record AckState =
  ak_streamId :: int
  ak_flags :: u8
  ak_segId :: u16
  ak_transferId :: u64
  ak_cumLen :: u64
  ak_pending :: bool
  ak_buf :: bytes
  ak_bufOff :: nat
  ak_txOff :: u64
  ak_ackOff :: u64

record RxState =
  y_rxBuf :: bytes
  y_rxCap :: nat
  y_xfer :: bytes
  y_xferCap :: nat
  y_xferBundleLen :: u64
  y_xferActive :: bool
  y_ack :: AckState

text \<open>\<open>while (newCap < want) newCap *= 2\<close>.\<close>

function cap_for :: "nat \<Rightarrow> nat \<Rightarrow> nat" where
  "cap_for newCap want = (if 0 < newCap \<and> newCap < want then cap_for (newCap * 2) want else newCap)"
  by pat_completeness auto
termination by (relation "measure (\<lambda>(newCap, want). want - newCap)") auto

declare cap_for.simps [simp del]

definition queue_ack :: "QuicXferSegment \<Rightarrow> nat \<Rightarrow> AckState \<Rightarrow> AckState" where
  "queue_ack seg len a =
     a \<lparr> ak_transferId := qxs_transferId seg, ak_segId := qxs_segmentId seg, ak_flags := qxs_flags seg,
         ak_cumLen := word_of_nat len, ak_pending := True \<rparr>"

definition start_xfer :: "QuicXferSegment \<Rightarrow> RxState \<Rightarrow> RxState" where
  "start_xfer seg st =
     (if qxs_flags seg AND QMSG_FLAG_START \<noteq> 0
      then st \<lparr> y_xfer := [], y_xferBundleLen := qxs_bundleLength seg, y_xferActive := True \<rparr> else st)"

text \<open>The END segment: the length is checked and the bundle handed over.\<close>

definition finish_xfer :: "('s \<Rightarrow> bytes \<Rightarrow> int \<times> 's) \<Rightarrow> RxState \<Rightarrow> 's \<Rightarrow> int \<times> RxState \<times> 's" where
  "finish_xfer cb st s =
     (let st = st \<lparr> y_xferActive := False \<rparr>
      in if word_of_nat (length (y_xfer st)) \<noteq> y_xferBundleLen st then (-1, st, s)
         else (let (rc, s) = cb s (y_xfer st) in (if rc < 0 then -1 else 0, st, s)))"

definition xferReassemble ::
  "(nat \<Rightarrow> bool) \<Rightarrow> ('s \<Rightarrow> bytes \<Rightarrow> int \<times> 's) \<Rightarrow> QuicXferSegment \<Rightarrow> bytes \<Rightarrow> RxState \<Rightarrow> 's \<Rightarrow> int \<times> RxState \<times> 's" where
  "xferReassemble mem cb seg segData st s =
     (let st = start_xfer seg st; n = unat (qxs_segmentLength seg)
      in if \<not> y_xferActive st then (-1, st, s)
         else if qxs_segmentLength seg > y_xferBundleLen st \<or>
                 word_of_nat (length (y_xfer st)) > y_xferBundleLen st - qxs_segmentLength seg then (-1, st, s)
         else
           (let newCap = cap_for (if y_xferCap st \<noteq> 0 then y_xferCap st else QUICCLA_BUFSZ) (length (y_xfer st) + n)
            in if length (y_xfer st) + n > y_xferCap st \<and> \<not> mem newCap then (-1, st, s)
               else
                 (let cap = (if length (y_xfer st) + n > y_xferCap st then newCap else y_xferCap st);
                      xfer = y_xfer st @ take n segData;
                      st = st \<lparr> y_xferCap := cap, y_xfer := xfer, y_ack := queue_ack seg (length xfer) (y_ack st) \<rparr>
                  in if qxs_flags seg AND QMSG_FLAG_END \<noteq> 0 then finish_xfer cb st s else (0, st, s))))"

text \<open>What \<open>deliverBundles\<close> finds at the front of the octets buffered: nothing complete, something that ends
  the connection, a message to skip, or a segment with the length of its header.\<close>

datatype Front = Incomplete | Broken | Skip nat | Segment nat QuicXferSegment

definition front_of :: "bytes \<Rightarrow> Front" where
  "front_of p =
     (let type = quicMsgType p (length p)
      in if type = uint QMSG_XFER_SEGMENT then
           (case quicMsgDecodeXferSegmentHdr p (length p) of
              (hdr, m) \<Rightarrow>
                if hdr = 0 then Incomplete
                else
                  (case m of
                     None \<Rightarrow> Broken
                   | Some seg \<Rightarrow>
                       if hdr < 0 \<or> unat (qxs_segmentLength seg) > QUICCLA_BUFSZ \<or> unat (qxs_bundleLength seg) > QUICCLA_BUFSZ
                       then Broken
                       else if length p - nat hdr < unat (qxs_segmentLength seg) then Incomplete
                       else Segment (nat hdr) seg))
         else if type = uint QMSG_XFER_ACK then
           (let hdr = fst (quicMsgDecodeXferAck p (length p))
            in if hdr = 0 then Incomplete else if hdr < 0 then Broken else Skip (nat hdr))
         else if type = uint QMSG_XFER_REFUSE then
           (let hdr = fst (quicMsgDecodeXferRefuse p (length p))
            in if hdr = 0 then Incomplete else if hdr < 0 then Broken else Skip (nat hdr))
         else Broken)"

text \<open>The loop of \<open>deliverBundles\<close>: the octets not consumed come back.\<close>

function deliver_loop ::
  "(nat \<Rightarrow> bool) \<Rightarrow> ('s \<Rightarrow> bytes \<Rightarrow> int \<times> 's) \<Rightarrow> bytes \<Rightarrow> RxState \<Rightarrow> 's \<Rightarrow> int \<times> bytes \<times> RxState \<times> 's" where
  "deliver_loop mem cb p st s =
     (if p = [] then (0, p, st, s)
      else
        (case front_of p of
           Incomplete \<Rightarrow> (0, p, st, s)
         | Broken \<Rightarrow> (-1, p, st, s)
         | Skip n \<Rightarrow> if n = 0 then (-1, p, st, s) else deliver_loop mem cb (drop n p) st s
         | Segment hdr seg \<Rightarrow>
             (let (rc, st, s) = xferReassemble mem cb seg (drop hdr p) st s
              in if rc < 0 \<or> hdr = 0 then (-1, p, st, s)
                 else deliver_loop mem cb (drop (hdr + unat (qxs_segmentLength seg)) p) st s)))"
  by pat_completeness auto
termination
  by (relation "measure (\<lambda>(mem, cb, p, st, s). length p)") auto

declare deliver_loop.simps [simp del]

definition deliverBundles ::
  "(nat \<Rightarrow> bool) \<Rightarrow> ('s \<Rightarrow> bytes \<Rightarrow> int \<times> 's) \<Rightarrow> RxState \<Rightarrow> 's \<Rightarrow> int \<times> RxState \<times> 's" where
  "deliverBundles mem cb st s =
     (let (rc, rest, st', s') = deliver_loop mem cb (y_rxBuf st) st s
      in if rc < 0 then (-1, st', s') else (0, st' \<lparr> y_rxBuf := rest \<rparr>, s'))"

text \<open>\<open>recvStreamDataCb\<close> on a data stream; -1 is the callback's failure, which ends the connection.\<close>

definition recv_data ::
  "(nat \<Rightarrow> bool) \<Rightarrow> ('s \<Rightarrow> bytes \<Rightarrow> int \<times> 's) \<Rightarrow> int \<times> bytes \<Rightarrow> RxState \<Rightarrow> 's \<Rightarrow> int \<times> RxState \<times> 's" where
  "recv_data mem cb chunk st s =
     (case chunk of
        (stream_id, data) \<Rightarrow>
          if data = [] then (0, st, s)
          else
            (let st = st \<lparr> y_ack := (y_ack st) \<lparr> ak_streamId := stream_id \<rparr> \<rparr>;
                 want = length (y_rxBuf st) + length data;
                 newCap = cap_for (y_rxCap st * 2) want
             in if want > y_rxCap st \<and> \<not> mem newCap then (-1, st, s)
                else deliverBundles mem cb
                       (st \<lparr> y_rxCap := (if want > y_rxCap st then newCap else y_rxCap st), y_rxBuf := y_rxBuf st @ data \<rparr>) s))"

text \<open>The callbacks of a connection until one fails.\<close>

fun recv_chunks ::
  "(nat \<Rightarrow> bool) \<Rightarrow> ('s \<Rightarrow> bytes \<Rightarrow> int \<times> 's) \<Rightarrow> (int \<times> bytes) list \<Rightarrow> RxState \<Rightarrow> 's \<Rightarrow> int \<times> RxState \<times> 's" where
  "recv_chunks mem cb [] st s = (0, st, s)"
| "recv_chunks mem cb (c # cs) st s =
     (let (rc, st, s) = recv_data mem cb c st s in if rc < 0 then (-1, st, s) else recv_chunks mem cb cs st s)"

definition fresh_rx :: RxState where
  "fresh_rx = \<lparr>y_rxBuf = [], y_rxCap = QUICCLA_BUFSZ, y_xfer = [], y_xferCap = 0, y_xferBundleLen = 0, y_xferActive = False,
     y_ack = \<lparr>ak_streamId = -1, ak_flags = 0, ak_segId = 0, ak_transferId = 0, ak_cumLen = 0, ak_pending = False, ak_buf = [],
              ak_bufOff = 0, ak_txOff = 0, ak_ackOff = 0\<rparr>\<rparr>"

section \<open>Model: framing\<close>

text \<open>The segment numbered \<open>segId\<close> of \<open>nSeg\<close>, with \<open>remaining\<close> octets to go.\<close>

definition quic_segment :: "u8 \<Rightarrow> nat \<Rightarrow> nat \<Rightarrow> u64 \<Rightarrow> nat \<Rightarrow> nat \<Rightarrow> QuicXferSegment" where
  "quic_segment svc len nSeg txid segId thisLen =
     \<lparr>qxs_flags = (if segId = 0 then QMSG_FLAG_START else 0) OR (if Suc segId = nSeg then QMSG_FLAG_END else 0),
      qxs_segmentId = word_of_nat segId, qxs_totalSegments = word_of_nat nSeg, qxs_transferId = txid,
      qxs_xferExt = None, qxs_xferExtLen = 0, qxs_segmentLength = word_of_nat thisLen,
      qxs_bundleLength = word_of_nat len, qxs_serviceMode = svc\<rparr>"

text \<open>The loop of \<open>frameBundle\<close>: \<open>src\<close> is what is left of the bundle and \<open>room\<close> what is left of the buffer.\<close>

fun frame_loop :: "u64 \<Rightarrow> nat \<Rightarrow> nat \<Rightarrow> u64 \<Rightarrow> nat \<Rightarrow> bytes \<Rightarrow> nat \<Rightarrow> nat \<Rightarrow> bytes option" where
  "frame_loop segMru len nSeg txid segId src room 0 = Some []"
| "frame_loop segMru len nSeg txid segId src room (Suc k) =
     (let thisLen = (if word_of_nat (length src) > segMru then unat segMru else length src);
          seg = quic_segment QMSG_SVC_RELIABLE len nSeg txid segId thisLen;
          (hdr, out) = quicMsgEncodeXferSegmentHdr (replicate room 0) room seg
      in if hdr < 0 then None
         else
           (case frame_loop segMru len nSeg txid (Suc segId) (drop thisLen src) (room - nat hdr - thisLen) k of
              None \<Rightarrow> None
            | Some rest \<Rightarrow> Some (take (nat hdr) out @ take thisLen src @ rest)))"

definition segment_count :: "u64 \<Rightarrow> nat \<Rightarrow> int" where
  "segment_count segMru len =
     (let nSeg = sint (ucast ((word_of_nat len + segMru - 1) div segMru) :: 32 word) in if nSeg < 1 then 1 else nSeg)"

text \<open>The framed bundle and the next transfer identifier.\<close>

definition frameBundle :: "(nat \<Rightarrow> bool) \<Rightarrow> u64 \<Rightarrow> u64 \<Rightarrow> bytes \<Rightarrow> bytes option \<times> u64" where
  "frameBundle mem peerSegmentMru nextTxId bundle =
     (let segMru = (if peerSegmentMru \<noteq> 0 then peerSegmentMru else word_of_nat QUICCLA_BUFSZ);
          nSeg = nat (segment_count segMru (length bundle));
          cap = length bundle + nSeg * 40
      in (if \<not> mem cap then None else frame_loop segMru (length bundle) nSeg nextTxId 0 bundle cap nSeg, nextTxId + 1))"

definition priorityStream :: "int list \<Rightarrow> int \<Rightarrow> int" where
  "priorityStream dataStreams ordinal =
     dataStreams ! (if ordinal \<ge> 192 then 0 else if ordinal \<ge> 128 then 1 else if ordinal \<ge> 1 then 2 else 3)"


section \<open>What stands at the front of a buffer\<close>

lemma decode_typed_outcome:
  assumes "p \<noteq> []" "hd p = ty"
  shows "decode_typed ty body p (length p) = (0, None) \<or> (\<exists>k m. decode_typed ty body p (length p) = (k, Some m))"
proof -
  obtain b q where p: "p = b # q" using assms(1) by (cases p) auto
  obtain m r where "run_state body (advance 1 (rInit p (length p))) = (m, r)" by fastforce
  moreover have "run_state rU8 (rInit p (length p)) = (ty, advance 1 (rInit p (length p)))"
    using assms p by (simp add: rU8_run)
  ultimately show ?thesis by (simp add: decode_typed_def)
qed

lemma quicMsgType_hd: "p \<noteq> [] \<Longrightarrow> quicMsgType p (length p) = uint (hd p)"
  by (cases p) (simp_all add: quicMsgType_def)

lemma front_of_Nil: "front_of [] = Broken"
  by (simp add: front_of_def quicMsgType_def QMSG_XFER_SEGMENT_def QMSG_XFER_ACK_def QMSG_XFER_REFUSE_def)

text \<open>The three messages that are understood, and what each decoder says of a buffer that starts with its type.\<close>

lemma front_of_ack: "p \<noteq> [] \<Longrightarrow> hd p = QMSG_XFER_ACK \<Longrightarrow>
    front_of p = (let hdr = fst (quicMsgDecodeXferAck p (length p))
      in if hdr = 0 then Incomplete else if hdr < 0 then Broken else Skip (nat hdr))"
  by (simp add: front_of_def quicMsgType_hd QMSG_XFER_SEGMENT_def QMSG_XFER_ACK_def QMSG_XFER_REFUSE_def)

lemma front_of_refuse: "p \<noteq> [] \<Longrightarrow> hd p = QMSG_XFER_REFUSE \<Longrightarrow>
    front_of p = (let hdr = fst (quicMsgDecodeXferRefuse p (length p))
      in if hdr = 0 then Incomplete else if hdr < 0 then Broken else Skip (nat hdr))"
  by (simp add: front_of_def quicMsgType_hd QMSG_XFER_SEGMENT_def QMSG_XFER_ACK_def QMSG_XFER_REFUSE_def)

lemma front_of_segment: "p \<noteq> [] \<Longrightarrow> hd p = QMSG_XFER_SEGMENT \<Longrightarrow>
    front_of p = (case quicMsgDecodeXferSegmentHdr p (length p) of
      (hdr, m) \<Rightarrow>
        if hdr = 0 then Incomplete
        else
          (case m of
             None \<Rightarrow> Broken
           | Some seg \<Rightarrow>
               if hdr < 0 \<or> unat (qxs_segmentLength seg) > QUICCLA_BUFSZ \<or> unat (qxs_bundleLength seg) > QUICCLA_BUFSZ
               then Broken
               else if length p - nat hdr < unat (qxs_segmentLength seg) then Incomplete
               else Segment (nat hdr) seg))"
  by (simp add: front_of_def quicMsgType_hd)

lemma front_of_other: "p \<noteq> [] \<Longrightarrow> hd p \<notin> {QMSG_XFER_SEGMENT, QMSG_XFER_ACK, QMSG_XFER_REFUSE} \<Longrightarrow> front_of p = Broken"
  by (simp add: front_of_def quicMsgType_hd word_uint_eq_iff[symmetric])

lemma wire_hd [simp]:
  "wire_quic_xfer_segment seg \<noteq> []" "hd (wire_quic_xfer_segment seg @ r) = QMSG_XFER_SEGMENT"
  "wire_quic_xfer_ack a \<noteq> []" "hd (wire_quic_xfer_ack a @ r) = QMSG_XFER_ACK"
  "wire_quic_xfer_refuse x \<noteq> []" "hd (wire_quic_xfer_refuse x @ r) = QMSG_XFER_REFUSE"
  by (simp_all add: wire_quic_xfer_segment_def wire_quic_xfer_ack_def wire_quic_xfer_refuse_def)

definition sized_segment :: "QuicXferSegment \<Rightarrow> bool" where
  "sized_segment seg \<longleftrightarrow> valid_quic_xfer_segment seg \<and> length (wire_quic_xfer_segment seg) < 2 ^ 31 \<and>
     unat (qxs_segmentLength seg) \<le> QUICCLA_BUFSZ \<and> unat (qxs_bundleLength seg) \<le> QUICCLA_BUFSZ"

lemma front_of_segmentI:
  assumes "sized_segment seg" "unat (qxs_segmentLength seg) \<le> length rest"
  shows "front_of (wire_quic_xfer_segment seg @ rest) = Segment (length (wire_quic_xfer_segment seg)) seg"
  using quic_xfer_segment.dec_complete[of seg "wire_quic_xfer_segment seg @ rest" rest] assms
  by (simp add: sized_segment_def front_of_segment)

lemma front_of_ackI: "front_of (wire_quic_xfer_ack a @ rest) = Skip (length (wire_quic_xfer_ack a))"
  using quic_xfer_ack.dec_complete[of a "wire_quic_xfer_ack a @ rest" rest]
  by (simp add: front_of_ack wire_quic_xfer_ack_def)

lemma front_of_refuseI: "front_of (wire_quic_xfer_refuse a @ rest) = Skip (length (wire_quic_xfer_refuse a))"
  using quic_xfer_refuse.dec_complete[of a "wire_quic_xfer_refuse a @ rest" rest]
  by (simp add: front_of_refuse wire_quic_xfer_refuse_def)

text \<open>Conversely, what a buffer starts with.\<close>

lemma front_of_cases:
  assumes p: "p \<noteq> []" "length p < 2 ^ 31"
  obtains (incomplete) "front_of p = Incomplete"
  | (other) "hd p \<notin> {QMSG_XFER_SEGMENT, QMSG_XFER_ACK, QMSG_XFER_REFUSE}"
  | (ack) a rest where "p = wire_quic_xfer_ack a @ rest"
  | (refuse) a rest where "p = wire_quic_xfer_refuse a @ rest"
  | (oversize) seg rest where "p = wire_quic_xfer_segment seg @ rest" "valid_quic_xfer_segment seg"
      "\<not> (unat (qxs_segmentLength seg) \<le> QUICCLA_BUFSZ \<and> unat (qxs_bundleLength seg) \<le> QUICCLA_BUFSZ)"
  | (segment) seg rest where "p = wire_quic_xfer_segment seg @ rest" "sized_segment seg"
      "unat (qxs_segmentLength seg) \<le> length rest"
proof -
  consider "hd p \<notin> {QMSG_XFER_SEGMENT, QMSG_XFER_ACK, QMSG_XFER_REFUSE}" | "hd p = QMSG_XFER_SEGMENT"
    | "hd p = QMSG_XFER_ACK" | "hd p = QMSG_XFER_REFUSE" by blast
  then show thesis
  proof cases
    case 1
    then show ?thesis by (rule other)
  next
    case 2
    from decode_typed_outcome[OF p(1) 2] consider "quicMsgDecodeXferSegmentHdr p (length p) = (0, None)"
      | k seg where "quicMsgDecodeXferSegmentHdr p (length p) = (k, Some seg)"
      unfolding quicMsgDecodeXferSegmentHdr_def by blast
    then show ?thesis
    proof cases
      case 1
      then show ?thesis using front_of_segment[OF p(1) 2] incomplete by simp
    next
      case (2 k seg)
      from quic_xfer_segment.dec_sound[OF p(2) 2] obtain rest where
        r: "valid_quic_xfer_segment seg" "k = int (length (wire_quic_xfer_segment seg))"
        "p = wire_quic_xfer_segment seg @ rest" by blast
      show ?thesis
      proof (cases "unat (qxs_segmentLength seg) \<le> QUICCLA_BUFSZ \<and> unat (qxs_bundleLength seg) \<le> QUICCLA_BUFSZ")
        case False
        then show ?thesis by (rule oversize[OF r(3,1)])
      next
        case True
        then have s: "sized_segment seg" using r p(2) by (simp add: sized_segment_def)
        show ?thesis
        proof (cases "unat (qxs_segmentLength seg) \<le> length rest")
          case True
          then show ?thesis by (rule segment[OF r(3) s])
        next
          case False
          have "quicMsgDecodeXferSegmentHdr p (length p) = (int (length (wire_quic_xfer_segment seg)), Some seg)"
            using 2 r(2) by simp
          then have "front_of p = Incomplete"
            using front_of_segment[OF p(1) \<open>hd p = QMSG_XFER_SEGMENT\<close>] True False r(3) by simp
          then show ?thesis by (rule incomplete)
        qed
      qed
    qed
  next
    case 3
    from decode_typed_outcome[OF p(1) 3] consider "quicMsgDecodeXferAck p (length p) = (0, None)"
      | k a where "quicMsgDecodeXferAck p (length p) = (k, Some a)"
      unfolding quicMsgDecodeXferAck_def by blast
    then show ?thesis
    proof cases
      case 1
      then show ?thesis using front_of_ack[OF p(1) 3] incomplete by simp
    next
      case (2 k a)
      from quic_xfer_ack.dec_sound[OF p(2) 2] show ?thesis using ack by blast
    qed
  next
    case 4
    from decode_typed_outcome[OF p(1) 4] consider "quicMsgDecodeXferRefuse p (length p) = (0, None)"
      | k a where "quicMsgDecodeXferRefuse p (length p) = (k, Some a)"
      unfolding quicMsgDecodeXferRefuse_def by blast
    then show ?thesis
    proof cases
      case 1
      then show ?thesis using front_of_refuse[OF p(1) 4] incomplete by simp
    next
      case (2 k a)
      from quic_xfer_refuse.dec_sound[OF p(2) 2] show ?thesis using refuse by blast
    qed
  qed
qed

lemma front_of_oversize:
  assumes "valid_quic_xfer_segment seg" "length (wire_quic_xfer_segment seg) < 2 ^ 31"
    "\<not> (unat (qxs_segmentLength seg) \<le> QUICCLA_BUFSZ \<and> unat (qxs_bundleLength seg) \<le> QUICCLA_BUFSZ)"
  shows "front_of (wire_quic_xfer_segment seg @ rest) = Broken"
  using quic_xfer_segment.dec_complete[of seg "wire_quic_xfer_segment seg @ rest" rest] assms
  by (auto simp: front_of_segment)

text \<open>More octets never change what a complete message says.\<close>

lemma front_of_append:
  assumes "front_of a \<noteq> Incomplete" "a \<noteq> []" "length a < 2 ^ 31"
  shows "front_of (a @ b) = front_of a"
  using assms(2,3)
proof (cases rule: front_of_cases)
  case incomplete
  then show ?thesis using assms(1) by simp
next
  case other
  then show ?thesis using assms(2) front_of_other[of a] front_of_other[of "a @ b"] by simp
next
  case (ack x rest)
  then show ?thesis using front_of_ackI[of x rest] front_of_ackI[of x "rest @ b"] by simp
next
  case (refuse x rest)
  then show ?thesis using front_of_refuseI[of x rest] front_of_refuseI[of x "rest @ b"] by simp
next
  case (oversize seg rest)
  then show ?thesis using front_of_oversize[of seg rest] front_of_oversize[of seg "rest @ b"] assms(3) by simp
next
  case (segment seg rest)
  then show ?thesis using front_of_segmentI[of seg rest] front_of_segmentI[of seg "rest @ b"] by simp
qed

lemma front_of_within:
  assumes "a \<noteq> []" "length a < 2 ^ 31"
  shows "front_of a = Skip n \<Longrightarrow> n \<noteq> 0 \<and> n \<le> length a"
    and "front_of a = Segment n seg \<Longrightarrow> n \<noteq> 0 \<and> n + unat (qxs_segmentLength seg) \<le> length a"
  using assms by (cases rule: front_of_cases;
      auto simp: front_of_ackI front_of_refuseI front_of_segmentI front_of_oversize front_of_other)+


section \<open>The cuts do not matter\<close>

lemma deliver_loop_Nil [simp]: "deliver_loop mem cb [] st s = (0, [], st, s)"
  by (simp add: deliver_loop.simps[of mem cb "[]"])

lemma deliver_loop_step:
  assumes "p \<noteq> []"
  shows "front_of p = Incomplete \<Longrightarrow> deliver_loop mem cb p st s = (0, p, st, s)"
    and "front_of p = Broken \<Longrightarrow> deliver_loop mem cb p st s = (-1, p, st, s)"
    and "front_of p = Skip n \<Longrightarrow> n \<noteq> 0 \<Longrightarrow> deliver_loop mem cb p st s = deliver_loop mem cb (drop n p) st s"
    and "front_of p = Segment n seg \<Longrightarrow> n \<noteq> 0 \<Longrightarrow> xferReassemble mem cb seg (drop n p) st s = (rc, st1, s1) \<Longrightarrow>
      deliver_loop mem cb p st s =
        (if rc < 0 then (-1, p, st1, s1) else deliver_loop mem cb (drop (n + unat (qxs_segmentLength seg)) p) st1 s1)"
  using assms by (simp_all add: deliver_loop.simps[of mem cb p])

text \<open>Only the octets of the segment itself are looked at.\<close>

lemma xferReassemble_take:
  "xferReassemble mem cb seg d st s = xferReassemble mem cb seg (take (unat (qxs_segmentLength seg)) d) st s"
  by (simp add: xferReassemble_def Let_def)

lemma xferReassemble_append:
  "unat (qxs_segmentLength seg) \<le> length d \<Longrightarrow> xferReassemble mem cb seg (d @ e) st s = xferReassemble mem cb seg d st s"
  using xferReassemble_take[of mem cb seg "d @ e"] xferReassemble_take[of mem cb seg d] by simp

text \<open>\<open>deliver_loop\<close> is a message loop on the receive state together with the callback's context.\<close>

definition front_size :: "bytes \<Rightarrow> nat option" where
  "front_size p = (case front_of p of Incomplete \<Rightarrow> None | Broken \<Rightarrow> Some 1 | Skip n \<Rightarrow> Some n
     | Segment n seg \<Rightarrow> Some (n + unat (qxs_segmentLength seg)))"

definition front_act ::
  "(nat \<Rightarrow> bool) \<Rightarrow> ('s \<Rightarrow> bytes \<Rightarrow> int \<times> 's) \<Rightarrow> bytes \<Rightarrow> RxState \<times> 's \<Rightarrow> int \<times> RxState \<times> 's" where
  "front_act mem cb p x = (case front_of p of Incomplete \<Rightarrow> (0, x) | Broken \<Rightarrow> (-1, x) | Skip n \<Rightarrow> (if n = 0 then -1 else 0, x)
     | Segment n seg \<Rightarrow>
         (let (rc, x) = xferReassemble mem cb seg (drop n p) (fst x) (snd x) in (if rc < 0 \<or> n = 0 then -1 else 0, x)))"

lemma deliver_loop_take:
  assumes p: "p \<noteq> []" "front_size p = Some n" "n \<noteq> 0" "front_act mem cb p x = (rc, x')"
  shows "deliver_loop mem cb p (fst x) (snd x) =
    (if rc < 0 then (-1, p, x') else deliver_loop mem cb (drop n p) (fst x') (snd x'))"
proof (cases "front_of p")
  case Incomplete
  then show ?thesis using p by (simp add: front_size_def)
next
  case Broken
  then show ?thesis using p by (auto simp: front_act_def deliver_loop.simps[of mem cb p])
next
  case (Skip k)
  then show ?thesis using p by (auto simp: front_act_def front_size_def deliver_loop.simps[of mem cb p])
next
  case (Segment k seg)
  obtain rc2 st2 s2 where "xferReassemble mem cb seg (drop k p) (fst x) (snd x) = (rc2, st2, s2)" by (metis prod_cases3)
  then show ?thesis using Segment p
    by (auto simp: front_act_def front_size_def deliver_loop.simps[of mem cb p] split: if_splits)
qed

interpretation delivery: message_loop front_size "front_act mem cb" "\<lambda>p x. deliver_loop mem cb p (fst x) (snd x)"
  for mem :: "nat \<Rightarrow> bool" and cb :: "'s \<Rightarrow> bytes \<Rightarrow> int \<times> 's"
proof
  fix p b :: bytes and n :: nat and x :: "RxState \<times> 's"
  assume p: "p \<noteq> []" "length p < 2 ^ 31" "front_size p = Some n"
  have app: "front_of (p @ b) = front_of p"
    using p by (intro front_of_append) (auto simp: front_size_def)
  then show "front_size (p @ b) = Some n" using p by (simp add: front_size_def)
  show "n \<noteq> 0 \<and> n \<le> length p"
    using front_of_within[OF p(1,2)] p by (cases "front_of p") (auto simp: front_size_def Suc_le_eq)
  show "front_act mem cb (p @ b) x = front_act mem cb p x"
  proof (cases "front_of p")
    case (Segment k seg)
    then have "k + unat (qxs_segmentLength seg) \<le> length p" using front_of_within(2)[OF p(1,2)] by blast
    then show ?thesis using Segment app by (simp add: front_act_def xferReassemble_append)
  qed (use app in \<open>simp_all add: front_act_def\<close>)
next
  fix x :: "RxState \<times> 's"
  show "deliver_loop mem cb [] (fst x) (snd x) = (0, [], x)" by simp
next
  fix p :: bytes and x :: "RxState \<times> 's"
  assume "p \<noteq> []" "front_size p = None"
  then show "deliver_loop mem cb p (fst x) (snd x) = (0, p, x)"
    by (simp add: front_size_def deliver_loop_step(1) split: Front.splits)
qed (rule deliver_loop_take)

lemma deliver_loop_append:
  "deliver_loop mem cb a st s = (rc, ra, st1, s1) \<Longrightarrow> length a < 2 ^ 31 \<Longrightarrow>
     (if rc < 0 then \<exists>r. deliver_loop mem cb (a @ b) st s = (-1, r, st1, s1)
      else rc = 0 \<and> length ra \<le> length a \<and> deliver_loop mem cb (a @ b) st s = deliver_loop mem cb (ra @ b) st1 s1)"
  using delivery.loop_append[where mem = mem and cb = cb and st = "(st, s)" and a = a and rc = rc and r = ra
      and ?st1.0 = "(st1, s1)" and b = b] by (simp split: if_splits)

text \<open>The reassembly neither reads nor writes the receive buffer and the number of the stream.\<close>

definition bare :: "RxState \<Rightarrow> RxState" where
  "bare st = st \<lparr> y_rxBuf := [], y_rxCap := 0, y_ack := (y_ack st) \<lparr> ak_streamId := 0 \<rparr> \<rparr>"

lemma bare_simps [simp]:
  "y_xfer (bare st) = y_xfer st" "y_xferCap (bare st) = y_xferCap st" "y_xferBundleLen (bare st) = y_xferBundleLen st"
  "y_xferActive (bare st) = y_xferActive st" "ak_cumLen (y_ack (bare st)) = ak_cumLen (y_ack st)"
  "ak_pending (y_ack (bare st)) = ak_pending (y_ack st)"
  "bare (st \<lparr> y_rxBuf := x \<rparr>) = bare st" "bare (st \<lparr> y_rxCap := n \<rparr>) = bare st"
  "bare (st \<lparr> y_ack := (y_ack st) \<lparr> ak_streamId := i \<rparr> \<rparr>) = bare st"
  by (simp_all add: bare_def)

lemma bare_start [simp]: "bare (start_xfer seg st) = start_xfer seg (bare st)"
  by (simp add: bare_def start_xfer_def)

lemma bare_queue [simp]: "bare (st \<lparr> y_xferCap := c, y_xfer := x, y_ack := queue_ack seg n (y_ack st) \<rparr>) =
    bare st \<lparr> y_xferCap := c, y_xfer := x, y_ack := queue_ack seg n (y_ack (bare st)) \<rparr>"
  by (simp add: bare_def queue_ack_def)

lemma finish_bare: "finish_xfer cb (bare st) s = (case finish_xfer cb st s of (rc, st, s) \<Rightarrow> (rc, bare st, s))"
  by (simp add: finish_xfer_def Let_def bare_def split: prod.splits)

lemma start_xfer_simps:
  "y_xfer (start_xfer seg (bare st)) = y_xfer (start_xfer seg st)"
  "y_xferCap (start_xfer seg (bare st)) = y_xferCap (start_xfer seg st)"
  "y_xferBundleLen (start_xfer seg (bare st)) = y_xferBundleLen (start_xfer seg st)"
  "y_xferActive (start_xfer seg (bare st)) = y_xferActive (start_xfer seg st)"
  by (simp_all add: start_xfer_def)

lemma xferReassemble_bare:
  "xferReassemble mem cb seg d (bare st) s = (case xferReassemble mem cb seg d st s of (rc, st, s) \<Rightarrow> (rc, bare st, s))"
proof -
  define st0 where "st0 = start_xfer seg st"
  have s0: "start_xfer seg (bare st) = bare st0" by (simp add: st0_def)
  show ?thesis
    unfolding xferReassemble_def Let_def s0 st0_def[symmetric]
    by (simp add: finish_bare flip: bare_queue)
qed

lemma deliver_loop_bare:
  "deliver_loop mem cb p (bare st) s = (case deliver_loop mem cb p st s of (rc, r, st, s) \<Rightarrow> (rc, r, bare st, s))"
proof (induction "length p" arbitrary: p st s rule: less_induct)
  case less
  show ?case
  proof (cases "p = []")
    case False
    then show ?thesis
    proof (cases "front_of p")
      case Incomplete
      then show ?thesis using False by (simp add: deliver_loop_step(1))
    next
      case Broken
      then show ?thesis using False by (simp add: deliver_loop_step(2))
    next
      case (Skip n)
      show ?thesis
      proof (cases "n = 0")
        case True
        then show ?thesis using Skip False by (simp add: deliver_loop.simps[of mem cb p])
      next
        case n: False
        then show ?thesis using Skip False less[of "drop n p"] by (simp add: deliver_loop_step(3))
      qed
    next
      case (Segment n seg)
      obtain rc st1 s1 where x: "xferReassemble mem cb seg (drop n p) st s = (rc, st1, s1)"
        by (metis prod_cases3)
      have x': "xferReassemble mem cb seg (drop n p) (bare st) s = (rc, bare st1, s1)"
        using x by (simp add: xferReassemble_bare)
      show ?thesis
      proof (cases "n = 0")
        case True
        then show ?thesis using Segment False x x' by (simp add: deliver_loop.simps[of mem cb p])
      next
        case n: False
        then show ?thesis
          using less[of "drop (n + unat (qxs_segmentLength seg)) p"] False
          by (simp add: deliver_loop_step(4)[OF False Segment n x] deliver_loop_step(4)[OF False Segment n x'])
      qed
    qed
  qed simp
qed


lemma deliver_loop_settled:
  "deliver_loop mem cb p st s = (0, r, st1, s1) \<Longrightarrow> length p < 2 ^ 31 \<Longrightarrow> r = [] \<or> front_of r = Incomplete"
  using delivery.loop_settled[where mem = mem and cb = cb and st = "(st, s)" and p = p and r = r]
  by (simp add: front_size_def split: Front.splits)

text \<open>One callback, on the octets that were kept and those that arrive.\<close>

lemma recv_data_run:
  assumes mem: "\<And>n. mem n" and "data \<noteq> []"
    and run: "deliver_loop mem cb (y_rxBuf st @ data) (bare st) s = (rc, r, st1, s1)"
  obtains st' where "recv_data mem cb (i, data) st s = (if rc < 0 then -1 else 0, st', s1)" "bare st' = bare st1"
    "rc < 0 \<or> y_rxBuf st' = r"
proof -
  define st0 where "st0 = (let st' = st \<lparr> y_ack := (y_ack st) \<lparr> ak_streamId := i \<rparr> \<rparr>;
      want = length (y_rxBuf st') + length data
    in st' \<lparr> y_rxCap := (if want > y_rxCap st' then cap_for (y_rxCap st' * 2) want else y_rxCap st'),
             y_rxBuf := y_rxBuf st' @ data \<rparr>)"
  have b0: "bare st0 = bare st" by (simp add: st0_def Let_def bare_def)
  have buf: "y_rxBuf st0 = y_rxBuf st @ data" by (simp add: st0_def Let_def)
  have r0: "recv_data mem cb (i, data) st s = deliverBundles mem cb st0 s"
    using assms(2) by (simp add: recv_data_def st0_def Let_def mem)
  obtain rc' r' st2 s2 where d: "deliver_loop mem cb (y_rxBuf st @ data) st0 s = (rc', r', st2, s2)"
    by (metis prod_cases4)
  with deliver_loop_bare[of mem cb "y_rxBuf st @ data" st0 s] run b0
  have e: "rc' = rc" "r' = r" "bare st2 = st1" "s2 = s1" by simp_all
  from e(3) have "bare st2 = bare st1" by (auto simp: bare_def)
  then show thesis
    using that[of "if rc < 0 then st2 else st2 \<lparr> y_rxBuf := r \<rparr>"] d e r0 buf
    by (simp add: deliverBundles_def split: if_splits)
qed

definition rx_settled :: "bytes \<Rightarrow> bool" where
  "rx_settled r \<longleftrightarrow> r = [] \<or> front_of r = Incomplete"

lemma settled_run: "rx_settled r \<Longrightarrow> deliver_loop mem cb r st s = (0, r, st, s)"
  by (cases "r = []") (simp_all add: rx_settled_def deliver_loop_step(1))

text \<open>All the callbacks together do what one does with all the octets.\<close>

lemma recv_chunks_run:
  assumes mem: "\<And>n. mem n"
  shows "rx_settled (y_rxBuf st) \<Longrightarrow> length (y_rxBuf st @ concat (map snd cs)) < 2 ^ 31 \<Longrightarrow>
    deliver_loop mem cb (y_rxBuf st @ concat (map snd cs)) (bare st) s = (rc, r, st1, s1) \<Longrightarrow>
    \<exists>st'. recv_chunks mem cb cs st s = (if rc < 0 then -1 else 0, st', s1) \<and> bare st' = bare st1 \<and>
      (rc < 0 \<or> y_rxBuf st' = r)"
proof (induction cs arbitrary: st s st1)
  case Nil
  then show ?case using settled_run[OF Nil(1), of mem cb "bare st" s]
    by (auto simp: bare_def)
next
  case (Cons c cs)
  obtain i data where c: "c = (i, data)" by fastforce
  let ?rest = "concat (map snd cs)"
  show ?case
  proof (cases "data = []")
    case True
    then show ?thesis using Cons c by (simp add: recv_data_def)
  next
    case False
    let ?a = "y_rxBuf st @ data"
    obtain rca ra sta sa where a: "deliver_loop mem cb ?a (bare st) s = (rca, ra, sta, sa)" by (metis prod_cases4)
    obtain st2 where st2: "recv_data mem cb (i, data) st s = (if rca < 0 then -1 else 0, st2, sa)" "bare st2 = bare sta"
      "rca < 0 \<or> y_rxBuf st2 = ra"
      using recv_data_run[OF mem False a, of i] by blast
    have la: "length ?a < 2 ^ 31" using Cons.prems(2) c by simp
    have all: "deliver_loop mem cb (?a @ ?rest) (bare st) s = (rc, r, st1, s1)" using Cons.prems(3) c by simp
    note app = deliver_loop_append[OF a la, of ?rest]
    show ?thesis
    proof (cases "rca < 0")
      case True
      then show ?thesis using app all st2 c by auto
    next
      case False
      then have ra: "rca = 0" "length ra \<le> length ?a" "y_rxBuf st2 = ra"
        and e: "deliver_loop mem cb (ra @ ?rest) sta sa = (rc, r, st1, s1)"
        using app all st2(3) by (auto split: if_splits)
      have s: "rx_settled (y_rxBuf st2)" using deliver_loop_settled[OF _ la] a ra by (simp add: rx_settled_def)
      have l: "length (y_rxBuf st2 @ ?rest) < 2 ^ 31" using ra Cons.prems(2) c by simp
      have "deliver_loop mem cb (y_rxBuf st2 @ ?rest) (bare st2) sa = (rc, r, bare st1, s1)"
        using deliver_loop_bare[of mem cb "ra @ ?rest" sta sa] e st2(2) ra(3) by simp
      from Cons.IH[OF s l this] obtain st' where
        "recv_chunks mem cb cs st2 sa = (if rc < 0 then -1 else 0, st', s1)" "bare st' = bare (bare st1)"
        "rc < 0 \<or> y_rxBuf st' = r" by blast
      moreover have "bare (bare st1) = bare st1" by (simp add: bare_def)
      ultimately show ?thesis using st2(1) ra(1) c by auto
    qed
  qed
qed


section \<open>Framing and taking apart\<close>

lemma unat_small_u64: "n < 2 ^ 64 \<Longrightarrow> unat (word_of_nat n :: u64) = n"
  by (simp add: unsigned_of_nat take_bit_nat_eq_self)

lemma unat_mod_u64: "unat (word_of_nat n :: u64) = n mod 2 ^ 64"
  by (simp add: unsigned_of_nat take_bit_eq_mod)

text \<open>The segment as the receiver decodes it: an empty extension is an extension.\<close>

definition as_decoded :: "QuicXferSegment \<Rightarrow> QuicXferSegment" where
  "as_decoded seg = seg \<lparr> qxs_xferExt := (if qxs_flags seg AND QMSG_FLAG_START \<noteq> 0 then Some [] else None) \<rparr>"

lemma encode_as_decoded:
  "qxs_xferExt seg = None \<Longrightarrow> quicMsgEncodeXferSegmentHdr buf cap seg = quicMsgEncodeXferSegmentHdr buf cap (as_decoded seg)"
  unfolding quicMsgEncodeXferSegmentHdr_def as_decoded_def by (simp cong: if_cong)

lemma segment_flags:
  "qxs_flags (quic_segment svc len n txid i m) AND QMSG_FLAG_START \<noteq> 0 \<longleftrightarrow> i = 0"
  "qxs_flags (quic_segment svc len n txid i m) AND QMSG_FLAG_END \<noteq> 0 \<longleftrightarrow> Suc i = n"
  by (simp_all add: quic_segment_def QMSG_FLAG_START_def QMSG_FLAG_END_def)

lemma quic_segment_simps:
  "qxs_flags (as_decoded (quic_segment svc len n txid i m)) = qxs_flags (quic_segment svc len n txid i m)"
  "qxs_segmentLength (as_decoded (quic_segment svc len n txid i m)) = word_of_nat m"
  "qxs_bundleLength (as_decoded (quic_segment svc len n txid i m)) = word_of_nat len"
  "qxs_transferId (as_decoded (quic_segment svc len n txid i m)) = txid"
  "qxs_xferExt (quic_segment svc len n txid i m) = None"
  by (simp_all add: quic_segment_def as_decoded_def)

abbreviation wire_segment :: "nat \<Rightarrow> nat \<Rightarrow> u64 \<Rightarrow> nat \<Rightarrow> nat \<Rightarrow> bytes" where
  "wire_segment len n txid i m \<equiv> wire_quic_xfer_segment (as_decoded (quic_segment QMSG_SVC_RELIABLE len n txid i m))"

lemma valid_segment: "valid_quic_xfer_segment (as_decoded (quic_segment svc len n txid i m))"
  by (simp add: valid_quic_xfer_segment_def as_decoded_def quic_segment_def)

lemma length_quic_segment: "length (wire_segment len n txid i m) \<le> 35" "length (wire_segment len n txid i m) > 0"
  by (simp_all add: wire_quic_xfer_segment_def as_decoded_def)

lemma sized_segmentI: "m \<le> QUICCLA_BUFSZ \<Longrightarrow> len \<le> QUICCLA_BUFSZ \<Longrightarrow>
    sized_segment (as_decoded (quic_segment QMSG_SVC_RELIABLE len n txid i m))"
  using length_quic_segment(1)[of len n txid i m]
  by (simp add: sized_segment_def valid_segment quic_segment_simps QUICCLA_BUFSZ_def unat_small_u64)

text \<open>What the framing loop writes, message by message.\<close>

fun framed :: "nat \<Rightarrow> nat \<Rightarrow> nat \<Rightarrow> u64 \<Rightarrow> nat \<Rightarrow> bytes \<Rightarrow> nat \<Rightarrow> bytes" where
  "framed mru len n txid i src 0 = []"
| "framed mru len n txid i src (Suc k) =
     wire_segment len n txid i (min mru (length src)) @ take mru src @ framed mru len n txid (Suc i) (drop mru src) k"

lemma frame_loop_writes:
  "length src < 2 ^ 63 \<Longrightarrow> length src + 40 * k \<le> room \<Longrightarrow> room < 2 ^ 31 \<Longrightarrow>
     frame_loop segMru len n txid i src room k = Some (framed (unat segMru) len n txid i src k)"
proof (induction k arbitrary: i src room)
  case (Suc k)
  let ?m = "unat segMru" and ?t = "min (unat segMru) (length src)"
  have t: "(if word_of_nat (length src) > segMru then unat segMru else length src) = ?t"
    using Suc.prems(1) by (auto simp: word_less_nat_alt unat_small_u64 min_def)
  let ?seg = "quic_segment QMSG_SVC_RELIABLE len n txid i ?t"
  obtain hdr out where e: "quicMsgEncodeXferSegmentHdr (replicate room 0) room ?seg = (hdr, out)" by fastforce
  have l: "length (wire_segment len n txid i ?t) \<le> room" "room \<le> length (replicate room (0 :: u8))"
    using length_quic_segment(1)[of len n txid i ?t] Suc.prems(2) by simp_all
  have e': "quicMsgEncodeXferSegmentHdr (replicate room 0) room (as_decoded ?seg) = (hdr, out)"
    using e by (simp add: encode_as_decoded quic_segment_simps(5))
  have h: "hdr = int (length (wire_segment len n txid i ?t))" "take (nat hdr) out = wire_segment len n txid i ?t"
    using quic_xfer_segment.dec_enc[OF valid_segment l Suc.prems(3) e'] by blast+
  have "frame_loop segMru len n txid (Suc i) (drop ?t src) (room - nat hdr - ?t) k =
      Some (framed ?m len n txid (Suc i) (drop ?t src) k)"
    using Suc.prems length_quic_segment(1)[of len n txid i ?t] h(1) by (intro Suc.IH) (auto simp: min_def)
  moreover have "drop ?t src = drop ?m src" "take ?t src = take ?m src" by (simp_all add: min_def)
  ultimately show ?case using h by (simp add: t e Let_def)
qed simp

lemma segment_count_covers:
  assumes "segMru \<noteq> 0" "len \<le> QUICCLA_BUFSZ"
  shows "1 \<le> segment_count segMru len" "segment_count segMru len \<le> int QUICCLA_BUFSZ"
    "len \<le> nat (segment_count segMru len) * unat segMru"
proof -
  define q where "q = unat ((word_of_nat len + segMru - 1) div segMru)"
  let ?m = "unat segMru"
  have m: "?m \<noteq> 0" "?m < 2 ^ 64" using assms(1) unat_u64_less[of segMru] by (simp_all add: unat_eq_0)
  have len: "unat (word_of_nat len :: u64) = len" using assms(2) by (simp add: QUICCLA_BUFSZ_def unat_small_u64)
  have s: "word_of_nat len + segMru - 1 = (word_of_nat (len + (?m - 1)) :: u64)"
    using m(1) by (simp add: of_nat_diff)
  have q: "(if len + (?m - 1) < 2 ^ 64 then q = (len + (?m - 1)) div ?m else q = 0 \<and> len \<le> ?m)"
  proof (cases "len + (?m - 1) < 2 ^ 64")
    case True
    then show ?thesis by (simp add: q_def s unat_div unat_small_u64 del: of_nat_add)
  next
    case False
    have big: "len \<le> 2 ^ 18" using assms(2) by (simp add: QUICCLA_BUFSZ_def)
    have "len + (?m - 1) < 2 * 2 ^ 64" using big m(2) by (simp del: unat_u64_less)
    then have "(len + (?m - 1)) mod 2 ^ 64 = len + (?m - 1) - 2 ^ 64"
      using False by (simp add: mod_if)
    moreover have "len + (?m - 1) - 2 ^ 64 < ?m" using big m False by simp
    ultimately have w: "unat (word_of_nat (len + (?m - 1)) :: u64) < ?m"
      using unat_mod_u64[of "len + (?m - 1)"] by linarith
    have "q = 0" unfolding q_def s unat_div by (rule div_less[OF w])
    then show ?thesis using False big m by (simp del: unat_u64_less)
  qed
  have q1: "q \<le> QUICCLA_BUFSZ" "len \<le> max 1 q * ?m"
  proof -
    have "(len + (?m - 1)) div ?m \<le> len"
    proof (rule less_Suc_eq_le[THEN iffD1], rule less_mult_imp_div_less)
      have "len \<le> len * ?m" using m(1) by simp
      then show "len + (?m - 1) < Suc len * ?m" unfolding mult_Suc using m(1) by linarith
    qed
    then show "q \<le> QUICCLA_BUFSZ" using q assms(2) by (auto split: if_splits)
    have "len \<le> (len + (?m - 1)) div ?m * ?m"
      using dividend_less_div_times[of ?m "len + (?m - 1)"] m(1) by simp
    also have "\<dots> \<le> max 1 ((len + (?m - 1)) div ?m) * ?m" by (intro mult_le_mono1) simp
    finally have c: "len \<le> max 1 ((len + (?m - 1)) div ?m) * ?m" .
    show "len \<le> max 1 q * ?m"
    proof (cases "len + (?m - 1) < 2 ^ 64")
      case True
      with q have "q = (len + (?m - 1)) div ?m" by (simp only: if_True)
      then show ?thesis using c by (simp only:)
    next
      case False
      with q have "q = 0 \<and> len \<le> ?m" by (simp only: if_False)
      then show ?thesis by simp
    qed
  qed
  have "sint (ucast ((word_of_nat len + segMru - 1) div segMru) :: 32 word) = int q"
  proof -
    have "(word_of_nat len + segMru - 1) div segMru = word_of_nat q" by (simp add: q_def)
    moreover have "q < 2 ^ 64" using q1(1) by (simp add: QUICCLA_BUFSZ_def)
    ultimately have "ucast ((word_of_nat len + segMru - 1) div segMru) = (word_of_nat q :: 32 word)"
      by (simp add: unsigned_of_nat take_bit_nat_eq_self)
    then show ?thesis using q1(1) by (simp add: signed_of_nat signed_take_bit_int_eq_self QUICCLA_BUFSZ_def)
  qed
  then have c: "segment_count segMru len = int (max 1 q)" by (simp add: segment_count_def Let_def)
  show "1 \<le> segment_count segMru len" "segment_count segMru len \<le> int QUICCLA_BUFSZ"
    "len \<le> nat (segment_count segMru len) * unat segMru"
    using c q1 by (simp_all add: QUICCLA_BUFSZ_def)
qed


text \<open>A segment that continues what is there.\<close>

lemma xferReassemble_segment:
  assumes mem: "\<And>n. mem n" and len: "len = length whole" "len \<le> QUICCLA_BUFSZ"
    and split: "whole = pre @ seg1 @ post"
    and here: "i = 0 \<and> pre = [] \<or> i \<noteq> 0 \<and> y_xfer st = pre \<and> y_xferActive st \<and> y_xferBundleLen st = word_of_nat len"
    and last: "Suc i = n \<longrightarrow> post = []" and cb: "0 \<le> fst (cb s whole)"
  obtains st1 where
    "xferReassemble mem cb (as_decoded (quic_segment svc len n txid i (length seg1))) (seg1 @ rest) st s =
       (0, st1, if Suc i = n then snd (cb s whole) else s)"
    "ak_cumLen (y_ack st1) = word_of_nat (length (pre @ seg1))" "ak_pending (y_ack st1)" "ak_transferId (y_ack st1) = txid"
    "Suc i \<noteq> n \<Longrightarrow> y_xfer st1 = pre @ seg1 \<and> y_xferActive st1 \<and> y_xferBundleLen st1 = word_of_nat len"
proof -
  let ?seg = "as_decoded (quic_segment svc len n txid i (length seg1))"
  define st0 where "st0 = start_xfer ?seg st"
  have st0: "y_xfer st0 = pre" "y_xferActive st0" "y_xferBundleLen st0 = word_of_nat len"
    using here by (auto simp: st0_def start_xfer_def segment_flags quic_segment_simps)
  have small: "length pre + length seg1 \<le> len" "len < 2 ^ 64" using len split by (simp_all add: QUICCLA_BUFSZ_def)
  let ?p = "word_of_nat (length seg1) :: u64" and ?l = "word_of_nat len :: u64"
  have u: "unat ?p = length seg1" "unat ?l = len" "unat (word_of_nat (length pre) :: u64) = length pre"
    using small by (simp_all add: unat_small_u64)
  have "?p \<le> ?l" using u small by (simp add: word_le_nat_alt)
  then have "unat (?l - ?p) = len - length seg1" using u by (simp add: unat_sub)
  then have fits: "\<not> (?p > ?l \<or> word_of_nat (length pre) > ?l - ?p)"
    using u small by (simp add: word_less_nat_alt)
  define cap where "cap = (if length pre + length seg1 > y_xferCap st0
    then cap_for (if y_xferCap st0 \<noteq> 0 then y_xferCap st0 else QUICCLA_BUFSZ) (length pre + length seg1) else y_xferCap st0)"
  define st2 where "st2 = st0 \<lparr> y_xferCap := cap, y_xfer := pre @ seg1,
    y_ack := queue_ack ?seg (length (pre @ seg1)) (y_ack st0) \<rparr>"
  have x: "xferReassemble mem cb ?seg (seg1 @ rest) st s =
      (if qxs_flags ?seg AND QMSG_FLAG_END \<noteq> 0 then finish_xfer cb st2 s else (0, st2, s))"
    using fits mem by (simp add: xferReassemble_def Let_def st0_def[symmetric] st0 quic_segment_simps u st2_def cap_def)
  have a: "ak_cumLen (y_ack st2) = word_of_nat (length (pre @ seg1))" "ak_pending (y_ack st2)"
    "ak_transferId (y_ack st2) = txid" "y_xfer st2 = pre @ seg1" "y_xferActive st2" "y_xferBundleLen st2 = ?l"
    using st0 by (simp_all add: st2_def queue_ack_def quic_segment_simps)
  show thesis
  proof (cases "Suc i = n")
    case True
    then have "whole = pre @ seg1" using last split by simp
    moreover obtain rc s1 where "cb s whole = (rc, s1)" by fastforce
    ultimately have "finish_xfer cb st2 s = (0, st2 \<lparr> y_xferActive := False \<rparr>, snd (cb s whole))"
      using a(4,6) cb len by (simp add: finish_xfer_def)
    then show ?thesis using that[of "st2 \<lparr> y_xferActive := False \<rparr>"] a True x by (simp add: quic_segment_simps segment_flags)
  next
    case False
    then show ?thesis using that[of st2] a x by (simp add: quic_segment_simps segment_flags)
  qed
qed

lemma deliver_framed:
  assumes mem: "\<And>n. mem n" and len: "len = length whole" "len \<le> QUICCLA_BUFSZ" and cb: "0 \<le> fst (cb s whole)"
  shows "0 < k \<Longrightarrow> i + k = n \<Longrightarrow> whole = pre @ src \<Longrightarrow> length src \<le> k * mru \<Longrightarrow>
    i = 0 \<and> pre = [] \<or> i \<noteq> 0 \<and> y_xfer st = pre \<and> y_xferActive st \<and> y_xferBundleLen st = word_of_nat len \<Longrightarrow>
    \<exists>st1. deliver_loop mem cb (framed mru len n txid i src k @ rest) st s = deliver_loop mem cb rest st1 (snd (cb s whole)) \<and>
      ak_cumLen (y_ack st1) = word_of_nat len \<and> ak_pending (y_ack st1) \<and> ak_transferId (y_ack st1) = txid"
proof (induction k arbitrary: i pre src st)
  case (Suc k)
  let ?t = "min mru (length src)" and ?part = "take mru src" and ?post = "drop mru src"
  let ?more = "framed mru len n txid (Suc i) ?post k @ rest"
  let ?seg = "as_decoded (quic_segment QMSG_SVC_RELIABLE len n txid i ?t)"
  have lp: "length ?part = ?t" by simp
  have b: "whole = pre @ ?part @ ?post" using Suc.prems(3) by simp
  have t: "?t \<le> QUICCLA_BUFSZ" using len Suc.prems(3) by simp
  have last: "Suc i = n \<longrightarrow> ?post = []" using Suc.prems(2,4) by auto
  obtain st1 where st1: "xferReassemble mem cb ?seg (?part @ ?more) st s = (0, st1, if Suc i = n then snd (cb s whole) else s)"
    "ak_cumLen (y_ack st1) = word_of_nat (length (pre @ ?part))" "ak_pending (y_ack st1)" "ak_transferId (y_ack st1) = txid"
    "Suc i \<noteq> n \<Longrightarrow> y_xfer st1 = pre @ ?part \<and> y_xferActive st1 \<and> y_xferBundleLen st1 = word_of_nat len"
    using xferReassemble_segment[where mem = mem and cb = cb and rest = ?more and svc = QMSG_SVC_RELIABLE and txid = txid,
        OF mem len b Suc.prems(5) last cb] unfolding lp by blast
  let ?w = "wire_quic_xfer_segment ?seg"
  have sz: "unat (qxs_segmentLength ?seg) = ?t" using t by (simp add: quic_segment_simps unat_small_u64 QUICCLA_BUFSZ_def)
  have f: "front_of (?w @ ?part @ ?more) = Segment (length ?w) ?seg"
    by (rule front_of_segmentI[OF sized_segmentI[OF t len(2)]]) (simp add: sz)
  have "deliver_loop mem cb (?w @ ?part @ ?more) st s = deliver_loop mem cb ?more st1 (if Suc i = n then snd (cb s whole) else s)"
    using deliver_loop_step(4)[OF _ f, of mem cb st s 0 st1] st1(1) length_quic_segment(2)[of len n txid i ?t]
    by (simp add: sz)
  then have step: "deliver_loop mem cb (framed mru len n txid i src (Suc k) @ rest) st s =
      deliver_loop mem cb ?more st1 (if Suc i = n then snd (cb s whole) else s)" by simp
  show ?case
  proof (cases "Suc i = n")
    case True
    then have "k = 0" "length (pre @ ?part) = len" using Suc.prems(2) last b len by simp_all
    then show ?thesis using step st1 True by auto
  next
    case False
    then have "0 < k" "Suc i + k = n" "length ?post \<le> k * mru" using Suc.prems(2,4) by auto
    from Suc.IH[OF this(1,2) _ this(3), of "pre @ ?part" st1] b st1(5)[OF False] show ?thesis
      using step False by simp
  qed
qed simp

section \<open>Properties\<close>

text \<open>However the octets of the data streams of a connection are cut up when ngtcp2 hands them over, the same
  bundles are handed to the callback, the same octets stay buffered, the same acknowledgement is due, and the
  connection fails or does not.\<close>
theorem quic_cuts_irrelevant:
  assumes "\<forall>n. mem n" "concat (map snd cs) = concat (map snd ds)" "length (concat (map snd cs)) < 2 ^ 31"
    and "recv_chunks mem cb cs fresh_rx s = (rc, st, t)"
  shows "\<exists>st'. recv_chunks mem cb ds fresh_rx s = (rc, st', t) \<and> bare st' = bare st \<and> (rc = 0 \<longrightarrow> y_rxBuf st' = y_rxBuf st)"
proof -
  let ?p = "concat (map snd cs)"
  obtain rc1 r st1 s1 where d: "deliver_loop mem cb ?p (bare fresh_rx) s = (rc1, r, st1, s1)" by (metis prod_cases4)
  have e: "y_rxBuf fresh_rx = []" "rx_settled []" by (simp_all add: fresh_rx_def rx_settled_def)
  have m: "mem n" for n using assms(1) by blast
  have "\<exists>st'. recv_chunks mem cb xs fresh_rx s = (if rc1 < 0 then -1 else 0, st', s1) \<and> bare st' = bare st1 \<and>
      (rc1 < 0 \<or> y_rxBuf st' = r)" if "concat (map snd xs) = ?p" for xs
    using recv_chunks_run[where mem = mem, OF m, of fresh_rx xs cb s rc1 r st1 s1] d e that assms(3) by simp
  from this[of cs] this[of ds] assms(2,4) show ?thesis by (auto split: if_splits)
qed

theorem quic_cuts_irrelevant_witness:
  "fst (recv_chunks (\<lambda>_. True) (\<lambda>s b. (0, s @ [b])) [(0, [1]), (4, [2])] fresh_rx []) =
   fst (recv_chunks (\<lambda>_. True) (\<lambda>s b. (0, s @ [b])) [(0, [1, 2])] fresh_rx [])"
proof -
  obtain rc st t where r: "recv_chunks (\<lambda>_. True) (\<lambda>s b. (0, s @ [b])) [(0, [1, 2])] fresh_rx [] = (rc, st, t)"
    by (metis prod_cases3)
  show ?thesis using quic_cuts_irrelevant[OF _ _ _ r, of "[(0, [1]), (4, [2])]"] r by auto
qed

text \<open>The octets that go out for bundles sent one after the other.\<close>

fun frame_bundles :: "(nat \<Rightarrow> bool) \<Rightarrow> u64 \<Rightarrow> u64 \<Rightarrow> bytes list \<Rightarrow> bytes option" where
  "frame_bundles mem mru txid [] = Some []"
| "frame_bundles mem mru txid (b # bs) =
     (case frameBundle mem mru txid b of
        (None, _) \<Rightarrow> None
      | (Some f, next) \<Rightarrow> (case frame_bundles mem mru next bs of None \<Rightarrow> None | Some g \<Rightarrow> Some (f @ g)))"

lemma frameBundle_delivers:
  assumes mem: "\<And>n. mem n" and len: "length b \<le> QUICCLA_BUFSZ" and cb: "0 \<le> fst (cb s b)"
  obtains f where "frameBundle mem mru txid b = (Some f, txid + 1)"
    "\<And>rest st. \<exists>st1. deliver_loop mem cb (f @ rest) st s = deliver_loop mem cb rest st1 (snd (cb s b)) \<and>
      ak_cumLen (y_ack st1) = word_of_nat (length b) \<and> ak_pending (y_ack st1) \<and> ak_transferId (y_ack st1) = txid"
proof -
  define segMru where "segMru = (if mru \<noteq> 0 then mru else word_of_nat QUICCLA_BUFSZ)"
  have s: "segMru \<noteq> 0" by (simp add: segMru_def QUICCLA_BUFSZ_def)
  define k where "k = nat (segment_count segMru (length b))"
  note c = segment_count_covers[OF s len, folded k_def]
  have k: "0 < k" "k \<le> QUICCLA_BUFSZ" using c(1,2) by (simp_all add: k_def)
  let ?f = "framed (unat segMru) (length b) k txid 0 b k"
  have "length b + k * 40 < 2 ^ 31" using k len by (simp add: QUICCLA_BUFSZ_def)
  then have "frame_loop segMru (length b) k txid 0 b (length b + k * 40) k = Some ?f"
    by (intro frame_loop_writes) simp_all
  then have "frameBundle mem mru txid b = (Some ?f, txid + 1)"
    by (simp add: frameBundle_def Let_def segMru_def[symmetric] k_def[symmetric] mem)
  moreover have "\<exists>st1. deliver_loop mem cb (?f @ rest) st s = deliver_loop mem cb rest st1 (snd (cb s b)) \<and>
      ak_cumLen (y_ack st1) = word_of_nat (length b) \<and> ak_pending (y_ack st1) \<and> ak_transferId (y_ack st1) = txid" for rest st
    using deliver_framed[where mem = mem and whole = b and len = "length b" and cb = cb and s = s and k = k and i = 0
        and n = k and pre = "[]" and src = b and mru = "unat segMru" and st = st and txid = txid and rest = rest]
      mem len cb k(1) c(3) by simp
  ultimately show thesis by (rule that)
qed

lemma frame_bundles_deliver:
  assumes mem: "\<And>n. mem n" and cb: "\<And>s b. 0 \<le> fst (cb s b)"
  shows "\<forall>b \<in> set bs. length b \<le> QUICCLA_BUFSZ \<Longrightarrow> \<exists>p. frame_bundles mem mru txid bs = Some p \<and>
    (\<forall>st s. \<exists>st1. deliver_loop mem cb p st s = (0, [], st1, foldl (\<lambda>s b. snd (cb s b)) s bs) \<and>
       (bs \<noteq> [] \<longrightarrow> ak_pending (y_ack st1) \<and> ak_cumLen (y_ack st1) = word_of_nat (length (last bs)) \<and>
         ak_transferId (y_ack st1) = txid + word_of_nat (length bs - 1)))"
proof (induction bs arbitrary: txid)
  case (Cons b bs)
  have l: "length b \<le> QUICCLA_BUFSZ" using Cons.prems by simp
  obtain q where q: "frame_bundles mem mru (txid + 1) bs = Some q"
    "\<And>st s. \<exists>st1. deliver_loop mem cb q st s = (0, [], st1, foldl (\<lambda>s b. snd (cb s b)) s bs) \<and>
       (bs \<noteq> [] \<longrightarrow> ak_pending (y_ack st1) \<and> ak_cumLen (y_ack st1) = word_of_nat (length (last bs)) \<and>
         ak_transferId (y_ack st1) = txid + 1 + word_of_nat (length bs - 1))"
    using Cons.IH[of "txid + 1"] Cons.prems by (metis list.set_intros(2))
  have f: "\<exists>f. frameBundle mem mru txid b = (Some f, txid + 1)"
    using frameBundle_delivers[where mem = mem, OF mem l cb] by blast
  then obtain f where f: "frameBundle mem mru txid b = (Some f, txid + 1)" by blast
  have "\<exists>st1. deliver_loop mem cb (f @ q) st s = (0, [], st1, foldl (\<lambda>s b. snd (cb s b)) s (b # bs)) \<and>
       (b # bs \<noteq> [] \<longrightarrow> ak_pending (y_ack st1) \<and> ak_cumLen (y_ack st1) = word_of_nat (length (last (b # bs))) \<and>
         ak_transferId (y_ack st1) = txid + word_of_nat (length (b # bs) - 1))" for st s
  proof -
    note g = frameBundle_delivers[where mem = mem and b = b and cb = cb and s = s and mru = mru and txid = txid, OF mem l cb]
    obtain h where h: "frameBundle mem mru txid b = (Some h, txid + 1)"
      "\<exists>st1. deliver_loop mem cb (h @ q) st s = deliver_loop mem cb q st1 (snd (cb s b)) \<and>
        ak_cumLen (y_ack st1) = word_of_nat (length b) \<and> ak_pending (y_ack st1) \<and> ak_transferId (y_ack st1) = txid"
      by (rule g) blast
    have "h = f" using f h(1) by simp
    with h(2) obtain st2 where st2: "deliver_loop mem cb (f @ q) st s = deliver_loop mem cb q st2 (snd (cb s b))"
      "ak_cumLen (y_ack st2) = word_of_nat (length b)" "ak_pending (y_ack st2)" "ak_transferId (y_ack st2) = txid" by blast
    show ?thesis
    proof (cases "bs = []")
      case True
      then show ?thesis using st2 q(1) by simp
    next
      case False
      then have "word_of_nat (length bs) = (1 :: u64) + word_of_nat (length bs - 1)" by (cases bs) simp_all
      with q(2)[of st2 "snd (cb s b)"] False st2(1) show ?thesis by (simp add: add.assoc)
    qed
  qed
  then show ?case using f q(1) by auto
qed simp


lemma frameBundle_framed:
  assumes "mru \<noteq> 0" "length b \<le> QUICCLA_BUFSZ"
  shows "frameBundle (\<lambda>_. True) mru txid b =
    (Some (framed (unat mru) (length b) (nat (segment_count mru (length b))) txid 0 b (nat (segment_count mru (length b)))), txid + 1)"
proof -
  have "length b + nat (segment_count mru (length b)) * 40 < 2 ^ 31"
    using segment_count_covers(2)[OF assms] assms(2) by (simp add: QUICCLA_BUFSZ_def)
  then show ?thesis using assms(1) by (simp add: frameBundle_def Let_def frame_loop_writes)
qed

lemma small_numeral: "(2 :: nat) ^ 31 = 2147483648"
  by simp

lemma example_quic_frames:
  "frame_bundles (\<lambda>_. True) 2 7 [[1, 2, 3], []] =
     Some (framed 2 3 2 7 0 [1, 2, 3] 2 @ framed 2 0 1 8 0 [] 1)"
  "length (framed 2 3 2 7 0 [1, 2, 3] 2 @ framed 2 0 1 8 0 [] 1) < 2147483648"
proof -
  have c: "segment_count 2 3 = 2" "segment_count 2 0 = 1" "unat (2 :: u64) = 2" by (code_simp, code_simp, simp)
  have l: "length [1 :: u8, 2, 3] = 3" "length ([] :: bytes) = 0" "(7 :: u64) + 1 = 8" by simp_all
  have 1: "frameBundle (\<lambda>_. True) 2 7 [1, 2, 3] = (Some (framed 2 3 2 7 0 [1, 2, 3] 2), 8)"
    using frameBundle_framed[of 2 "[1, 2, 3]" 7] unfolding l c by (simp add: QUICCLA_BUFSZ_def del: framed.simps)
  have 2: "frameBundle (\<lambda>_. True) 2 8 [] = (Some (framed 2 0 1 8 0 [] 1), 9)"
    using frameBundle_framed[of 2 "[]" 8] unfolding l c by (simp add: QUICCLA_BUFSZ_def del: framed.simps)
  show "frame_bundles (\<lambda>_. True) 2 7 [[1, 2, 3], []] = Some (framed 2 3 2 7 0 [1, 2, 3] 2 @ framed 2 0 1 8 0 [] 1)"
    by (simp add: 1 2 del: framed.simps)
  show "length (framed 2 3 2 7 0 [1, 2, 3] 2 @ framed 2 0 1 8 0 [] 1) < 2147483648"
    using length_quic_segment(1)[of 3 2 7 0 2] length_quic_segment(1)[of 3 2 7 1 1] length_quic_segment(1)[of 0 1 8 0 0]
    by (simp add: numeral_2_eq_2)
qed

text \<open>C7: Bundles framed one after the other, whatever Segment MRU the peer announced, are handed over by the peer
  octet for octet, each once and in order, however their octets are cut up on arrival, as long as the octets of
  one transfer are not mixed with those of another; nothing stays buffered, and the acknowledgement that is due names
  the last transfer at its full length.\<close>
theorem quic_bundles_delivered:
  assumes "\<forall>n. mem n" "\<forall>s b. 0 \<le> fst (cb s b)" "\<forall>b \<in> set bs. length b \<le> QUICCLA_BUFSZ"
    and "\<forall>p. frame_bundles mem mru txid bs = Some p \<longrightarrow> concat (map snd cs) = p \<and> length p < 2 ^ 31"
  shows "\<exists>st. recv_chunks mem cb cs fresh_rx s = (0, st, foldl (\<lambda>s b. snd (cb s b)) s bs) \<and> y_rxBuf st = [] \<and>
    (bs \<noteq> [] \<longrightarrow> ak_pending (y_ack st) \<and> ak_cumLen (y_ack st) = word_of_nat (length (last bs)) \<and>
       ak_transferId (y_ack st) = txid + word_of_nat (length bs - 1))"
proof -
  have m: "mem n" and c: "0 \<le> fst (cb s b)" for n s b using assms(1,2) by blast+
  obtain p where p: "frame_bundles mem mru txid bs = Some p"
    "\<And>st s. \<exists>st1. deliver_loop mem cb p st s = (0, [], st1, foldl (\<lambda>s b. snd (cb s b)) s bs) \<and>
       (bs \<noteq> [] \<longrightarrow> ak_pending (y_ack st1) \<and> ak_cumLen (y_ack st1) = word_of_nat (length (last bs)) \<and>
         ak_transferId (y_ack st1) = txid + word_of_nat (length bs - 1))"
    using frame_bundles_deliver[where mem = mem and cb = cb, OF m c assms(3)] by blast
  with assms(4) have cs: "concat (map snd cs) = p" "length p < 2 ^ 31" by auto
  obtain st1 where st1: "deliver_loop mem cb p (bare fresh_rx) s = (0, [], st1, foldl (\<lambda>s b. snd (cb s b)) s bs)"
    "bs \<noteq> [] \<longrightarrow> ak_pending (y_ack st1) \<and> ak_cumLen (y_ack st1) = word_of_nat (length (last bs)) \<and>
         ak_transferId (y_ack st1) = txid + word_of_nat (length bs - 1)"
    using p(2)[of "bare fresh_rx" s] by blast
  have e: "y_rxBuf fresh_rx = []" "rx_settled []" by (simp_all add: fresh_rx_def rx_settled_def)
  obtain st where st: "recv_chunks mem cb cs fresh_rx s = (0, st, foldl (\<lambda>s b. snd (cb s b)) s bs)" "bare st = bare st1"
      "y_rxBuf st = []"
    using recv_chunks_run[where mem = mem, OF m, of fresh_rx cs cb s 0 "[]" st1] st1(1) e cs by auto
  have "ak_pending (y_ack st) = ak_pending (y_ack st1)" "ak_cumLen (y_ack st) = ak_cumLen (y_ack st1)"
    "ak_transferId (y_ack st) = ak_transferId (y_ack st1)"
    using arg_cong[OF st(2), of "\<lambda>x. ak_pending (y_ack x)"] arg_cong[OF st(2), of "\<lambda>x. ak_cumLen (y_ack x)"]
      arg_cong[OF st(2), of "\<lambda>x. ak_transferId (y_ack x)"] by (simp_all add: bare_def)
  then show ?thesis using st st1(2) by simp
qed

theorem quic_bundles_delivered_witness:
  "\<exists>st. recv_chunks (\<lambda>_. True) (\<lambda>s b. (0, s @ [b]))
     [(0, the (frame_bundles (\<lambda>_. True) 2 7 [[1, 2, 3], []]))] fresh_rx [] = (0, st, [[1, 2, 3], []])"
proof -
  let ?bs = "[[1, 2, 3], []] :: bytes list"
  have m: "\<forall>n. (\<lambda>_. True) (n :: nat)" and c: "\<forall>(s :: bytes list) b. 0 \<le> fst ((\<lambda>s b. (0 :: int, s @ [b])) s b)" by simp_all
  have l: "\<forall>b \<in> set ?bs. length b \<le> QUICCLA_BUFSZ" by (simp add: QUICCLA_BUFSZ_def)
  have p: "\<exists>p. frame_bundles (\<lambda>_. True) 2 7 ?bs = Some p \<and> length p < 2 ^ 31"
    using example_quic_frames unfolding small_numeral by blast
  then have "\<forall>p. frame_bundles (\<lambda>_. True) 2 7 ?bs = Some p \<longrightarrow>
      concat (map snd [(0 :: int, the (frame_bundles (\<lambda>_. True) 2 7 ?bs))]) = p \<and> length p < 2 ^ 31" by auto
  from quic_bundles_delivered[OF m c l this, of "[]"] show ?thesis by auto
qed

text \<open>A callback that keeps what it is given.\<close>

abbreviation keep_bundle :: "bytes list \<Rightarrow> bytes \<Rightarrow> int \<times> bytes list" where
  "keep_bundle s b \<equiv> (0, s @ [b])"

lemma xferReassemble_collects:
  "xferReassemble mem keep_bundle seg d st s = (rc, st1, t) \<Longrightarrow> \<exists>more. t = s @ more"
  by (auto simp: xferReassemble_def finish_xfer_def Let_def split: if_splits)

lemma deliver_loop_collects:
  "deliver_loop mem keep_bundle p st s = (rc, r, st1, t) \<Longrightarrow> \<exists>more. t = s @ more"
proof (induction "length p" arbitrary: p st s rule: less_induct)
  case less
  show ?case
  proof (cases "p = []")
    case p: False
    show ?thesis
    proof (cases "front_of p")
      case Incomplete
      then show ?thesis using deliver_loop_step(1)[OF p, of mem keep_bundle st s] less.prems by simp
    next
      case Broken
      then show ?thesis using deliver_loop_step(2)[OF p, of mem keep_bundle st s] less.prems by simp
    next
      case (Skip n)
      show ?thesis
      proof (cases "n = 0")
        case True
        then show ?thesis using Skip p less.prems by (simp add: deliver_loop.simps[of mem keep_bundle p])
      next
        case False
        then show ?thesis
          using less.hyps[of "drop n p" st s] deliver_loop_step(3)[OF p Skip, of mem keep_bundle st s] less.prems p by simp
      qed
    next
      case (Segment n seg)
      obtain rc2 st2 s2 where x: "xferReassemble mem keep_bundle seg (drop n p) st s = (rc2, st2, s2)"
        by (metis prod_cases3)
      from xferReassemble_collects[OF x] obtain m where m: "s2 = s @ m" by blast
      show ?thesis
      proof (cases "n = 0")
        case True
        then have "t = s @ m" using Segment p x m less.prems by (simp add: deliver_loop.simps[of mem keep_bundle p])
        then show ?thesis by blast
      next
        case False
        then show ?thesis
          using less.hyps[of "drop (n + unat (qxs_segmentLength seg)) p" st2 s2] deliver_loop_step(4)[OF p Segment False x]
            less.prems p m by (auto split: if_splits)
      qed
    qed
  qed (use less.prems in simp)
qed

lemma first_delivered:
  assumes mem: "\<And>n. mem n" and "length whole \<le> QUICCLA_BUFSZ" "length whole = len" and total: "length p < 2 ^ 31"
    and p: "p = wire_segment len 1 txid 0 len @ whole @ rest" "concat (map snd cs) = p"
  shows "\<exists>rc st more. recv_chunks mem keep_bundle cs fresh_rx [] = (rc, st, whole # more)"
proof -
  have f: "framed len len 1 txid 0 whole 1 = wire_segment len 1 txid 0 len @ whole" using assms(3) by simp
  obtain st1 where "deliver_loop mem keep_bundle p (bare fresh_rx) [] = deliver_loop mem keep_bundle rest st1 [whole]"
    using deliver_framed[where mem = mem and whole = whole and len = len and cb = keep_bundle and s = "[]" and k = 1 and i = 0
        and n = 1 and pre = "[]" and src = whole and mru = len and txid = txid and rest = rest and st = "bare fresh_rx"]
      mem assms(2,3) f p(1) by auto
  moreover obtain rc r st2 t where d: "deliver_loop mem keep_bundle rest st1 [whole] = (rc, r, st2, t)" by (metis prod_cases4)
  moreover obtain more where "t = whole # more" using deliver_loop_collects[OF d] by auto
  moreover have "y_rxBuf fresh_rx = []" "rx_settled []" by (simp_all add: fresh_rx_def rx_settled_def)
  ultimately show ?thesis
    using recv_chunks_run[where mem = mem, OF mem, of fresh_rx cs keep_bundle "[]" rc r st2 t] total p(2) by auto
qed

text \<open>C12: All the data streams share one receive buffer.  When octets \<open>g\<close> of another stream arrive in the middle of a
  transfer, as they do when a packet of the first stream is lost and the sender goes on with the second, the end of
  the first bundle is taken from \<open>g\<close>: the peer is handed a bundle that nobody sent.\<close>
theorem streams_share_buffer:
  assumes "\<forall>n. mem n" "length (a1 @ a2) \<le> QUICCLA_BUFSZ" "length a2 \<le> length g" "length g < 2 ^ 30"
  shows "let whole = a1 @ a2; segment = wire_quic_xfer_segment (as_decoded
             (quic_segment QMSG_SVC_RELIABLE (length whole) 1 txid 0 (length whole)))
     in (\<exists>rc st more. recv_chunks mem (\<lambda>s b. (0, s @ [b])) [(i, segment @ a1), (i, a2), (j, g)] fresh_rx [] =
           (rc, st, whole # more)) \<and>
        (\<exists>rc st more. recv_chunks mem (\<lambda>s b. (0, s @ [b])) [(i, segment @ a1), (j, g), (i, a2)] fresh_rx [] =
           (rc, st, (a1 @ take (length a2) g) # more))"
proof -
  have m: "mem n" for n using assms(1) by blast
  let ?l = "length (a1 @ a2)"
  let ?w = "wire_segment ?l 1 txid 0 ?l"
  have "length (?w @ a1 @ a2 @ g) < 2 ^ 31"
    using length_quic_segment(1)[of ?l 1 txid 0 ?l] assms(2,4) by (simp add: QUICCLA_BUFSZ_def)
  then have "\<exists>rc st more. recv_chunks mem keep_bundle [(i, ?w @ a1), (i, a2), (j, g)] fresh_rx [] = (rc, st, (a1 @ a2) # more)"
    "\<exists>rc st more. recv_chunks mem keep_bundle [(i, ?w @ a1), (j, g), (i, a2)] fresh_rx [] = (rc, st, (a1 @ take (length a2) g) # more)"
    using assms(2,3)
      first_delivered[where mem = mem and whole = "a1 @ a2" and len = ?l and txid = txid and rest = g
        and cs = "[(i, ?w @ a1), (i, a2), (j, g)]", OF m _ _ _ refl]
      first_delivered[where mem = mem and whole = "a1 @ take (length a2) g" and len = ?l and txid = txid
        and rest = "drop (length a2) g @ a2" and cs = "[(i, ?w @ a1), (j, g), (i, a2)]", OF m _ _ _ refl]
    by simp_all
  then show ?thesis by (simp only: Let_def simp_thms)
qed

theorem streams_share_buffer_witness:
  "\<exists>rc st more. recv_chunks (\<lambda>_. True) (\<lambda>s b. (0, s @ [b]))
     [(0, wire_quic_xfer_segment (as_decoded (quic_segment QMSG_SVC_RELIABLE 2 1 5 0 2)) @ [65]), (4, [2]), (0, [66])]
     fresh_rx [] = (rc, st, [65, 2] # more)"
proof -
  have l: "length ([65 :: u8] @ [66]) \<le> QUICCLA_BUFSZ" "length [66 :: u8] \<le> length [2 :: u8]" "length [2 :: u8] < 2 ^ 30"
    by (simp_all add: QUICCLA_BUFSZ_def)
  have e: "length ([65 :: u8] @ [66]) = 2" "[65 :: u8] @ take (length [66 :: u8]) [2] = [65, 2]" by simp_all
  show ?thesis using streams_share_buffer[OF _ l, of "\<lambda>_. True" 5 0 4] unfolding Let_def e by blast
qed

end
