(* ===== verification/QuicSess.thy ===== *)
theory QuicSess
  imports QuicStream
begin

unbundle bit_operations_syntax
text \<open>
  The session layer of a QUICCL connection (CLA/quic/src/quicsession.c): the signalling messages on stream 0 in
  both directions, SESS_INIT and what is agreed by it, keepalives, termination and rejection, and bringing a
  connection up.

  The clock is an argument, \<open>mem\<close> says which sizes \<open>MTAKE\<close> can give, and what ngtcp2 answers to the opening of
  streams is an argument too.  The receive buffer of stream 0 stands beside the record of the connection.

  The lemmas show that the cuts of the octets do not matter, that two ends establish the session with parameters that
  agree, when keepalives go out, and what messages at the wrong time do.
\<close>

section \<open>Model\<close>

definition QSS_CONNECTING :: int where "QSS_CONNECTING = 0"
definition QSS_ESTABLISHED :: int where "QSS_ESTABLISHED = 1"
definition QSS_ENDING :: int where "QSS_ENDING = 2"
definition QMSG_TERM_FLAG_REPLY :: u8 where "QMSG_TERM_FLAG_REPLY = 0x01"
definition QMSG_TERM_UNKNOWN :: u8 where "QMSG_TERM_UNKNOWN = 0x00"
definition QMSG_REJECT_UNSUPPORTED :: u8 where "QMSG_REJECT_UNSUPPORTED = 0x01"
definition NGTCP2_SECONDS :: u64 where "NGTCP2_SECONDS = 1000000000"

lemmas quic_states = QSS_CONNECTING_def QSS_ESTABLISHED_def QSS_ENDING_def

text \<open>\<open>qc_ownNode\<close> is what \<open>getOwnFqnn\<close> returns.\<close>

record QuicClaConfig =
  qc_idleSec :: int
  qc_segmentMru :: int
  qc_unreliable :: bool
  qc_ownNode :: u64

record QuicConn =
  qs_clientRole :: bool
  qs_handshakeDone :: bool
  qs_failed :: bool
  qs_peerNode :: u64
  qs_sessState :: int
  qs_sessInitSent :: bool
  qs_termSent :: bool
  qs_keepalive :: u16
  qs_peerSegmentMru :: u64
  qs_peerTransferMru :: u64
  qs_lastTx :: u64
  qs_sigTx :: bytes
  qs_sigTxCap :: nat
  qs_dataStreams :: "int list"
  qs_dataStreamsOpen :: bool

definition sigQueue :: "(nat \<Rightarrow> bool) \<Rightarrow> QuicConn \<Rightarrow> bytes \<Rightarrow> int \<times> QuicConn" where
  "sigQueue mem qc octets =
     (let want = length (qs_sigTx qc) + length octets;
          newCap = cap_for (if qs_sigTxCap qc \<noteq> 0 then qs_sigTxCap qc else 256) want
      in if want > qs_sigTxCap qc \<and> \<not> mem newCap then (-1, qc)
         else (0, qc \<lparr> qs_sigTxCap := (if want > qs_sigTxCap qc then newCap else qs_sigTxCap qc),
                       qs_sigTx := qs_sigTx qc @ octets \<rparr>))"

definition own_keepalive :: "QuicClaConfig \<Rightarrow> u16" where
  "own_keepalive cfg = word_of_int (if qc_idleSec cfg > 1 then qc_idleSec cfg div 2 else 1)"

definition own_node_id :: "QuicClaConfig \<Rightarrow> bytes" where
  "own_node_id cfg = take 31 (ascii ''ipn:'' @ print_size (unat (qc_ownNode cfg)) @ ascii ''.0'')"

definition own_init :: "QuicClaConfig \<Rightarrow> QuicSessInit" where
  "own_init cfg =
     \<lparr>qsi_keepalive = own_keepalive cfg,
      qsi_segmentMru = (if qc_segmentMru cfg > 0 \<and> qc_segmentMru cfg < int QUICCLA_BUFSZ
                        then word_of_int (qc_segmentMru cfg) else word_of_nat QUICCLA_BUFSZ),
      qsi_datagramMru = 0, qsi_transferMru = word_of_nat QUICCLA_BUFSZ,
      qsi_nodeId = Some (own_node_id cfg), qsi_nodeIdLen = word_of_nat (length (own_node_id cfg)),
      qsi_sessExt = None, qsi_sessExtLen = 0\<rparr>"

definition quic_sendSessInit :: "(nat \<Rightarrow> bool) \<Rightarrow> QuicClaConfig \<Rightarrow> u64 \<Rightarrow> QuicConn \<Rightarrow> int \<times> QuicConn" where
  "quic_sendSessInit mem cfg now qc =
     (let (n, out) = quicMsgEncodeSessInit (replicate 128 0) 128 (own_init cfg)
      in if n < 0 then (-1, qc)
         else sigQueue mem (qc \<lparr> qs_sessInitSent := True, qs_lastTx := now \<rparr>) (take (nat n) out))"

definition sessNegotiate :: "QuicClaConfig \<Rightarrow> QuicSessInit \<Rightarrow> QuicConn \<Rightarrow> QuicConn" where
  "sessNegotiate cfg peer qc =
     qc \<lparr> qs_keepalive := (if qsi_keepalive peer < own_keepalive cfg then qsi_keepalive peer else own_keepalive cfg),
          qs_peerSegmentMru := qsi_segmentMru peer, qs_peerTransferMru := qsi_transferMru peer \<rparr>"

text \<open>\<open>sscanf (s, "%llu", &node)\<close>: white space, a sign, digits; the value saturates, and a minus sign negates it
  modulo 2 ^ 64.  \<open>None\<close> when nothing is converted.\<close>

definition scan_u64 :: "bytes \<Rightarrow> u64 option" where
  "scan_u64 s =
     (let s1 = dropWhile is_space s;
          signed = s1 \<noteq> [] \<and> (hd s1 = of_char CHR ''+'' \<or> hd s1 = of_char CHR ''-'');
          digits = takeWhile is_digit (if signed then tl s1 else s1);
          n = dec_from 0 digits
      in if digits = [] then None
         else if n \<ge> 2 ^ 64 then Some (-1)
         else if signed \<and> hd s1 = of_char CHR ''-'' then Some (- word_of_nat n) else Some (word_of_nat n))"

definition notePeerNode :: "QuicSessInit \<Rightarrow> QuicConn \<Rightarrow> QuicConn" where
  "notePeerNode peer qc =
     (case qsi_nodeId peer of
        None \<Rightarrow> qc
      | Some nodeId \<Rightarrow>
          if qsi_nodeIdLen peer \<le> 4 then qc
          else
            (let idbuf = cstr (take (min (unat (qsi_nodeIdLen peer)) 63) nodeId @ [0])
             in if take 4 idbuf = ascii ''ipn:'' then
                  (case scan_u64 (drop 4 idbuf) of None \<Rightarrow> qc | Some node \<Rightarrow> qc \<lparr> qs_peerNode := node \<rparr>)
                else qc))"

definition handleSessInit :: "(nat \<Rightarrow> bool) \<Rightarrow> QuicClaConfig \<Rightarrow> u64 \<Rightarrow> QuicSessInit \<Rightarrow> QuicConn \<Rightarrow> int \<times> QuicConn" where
  "handleSessInit mem cfg now peer qc =
     (let qc = notePeerNode peer (sessNegotiate cfg peer qc);
          (rc, qc) = (if \<not> qs_clientRole qc \<and> \<not> qs_sessInitSent qc then quic_sendSessInit mem cfg now qc else (0, qc))
      in if rc < 0 then (-1, qc) else (0, qc \<lparr> qs_sessState := QSS_ESTABLISHED \<rparr>))"

definition sendKeepalive :: "(nat \<Rightarrow> bool) \<Rightarrow> QuicConn \<Rightarrow> int \<times> QuicConn" where
  "sendKeepalive mem qc =
     (let (n, out) = quicMsgEncodeKeepalive (replicate 1 0) 1
      in if n < 0 then (-1, qc) else sigQueue mem qc (take (nat n) out))"

definition sendSessTerm :: "(nat \<Rightarrow> bool) \<Rightarrow> u8 \<Rightarrow> bool \<Rightarrow> QuicConn \<Rightarrow> int \<times> QuicConn" where
  "sendSessTerm mem reason reply qc =
     (let (n, out) = quicMsgEncodeSessTerm (replicate 16 0) 16
            \<lparr>qst_flags = (if reply then QMSG_TERM_FLAG_REPLY else 0), qst_reason = reason, qst_sessExt = None, qst_sessExtLen = 0\<rparr>
      in if n < 0 then (-1, qc) else sigQueue mem (qc \<lparr> qs_termSent := True \<rparr>) (take (nat n) out))"

definition sendMsgReject :: "(nat \<Rightarrow> bool) \<Rightarrow> u8 \<Rightarrow> u8 \<Rightarrow> QuicConn \<Rightarrow> int \<times> QuicConn" where
  "sendMsgReject mem rejectedType reason qc =
     (let (n, out) = quicMsgEncodeMsgReject (replicate 8 0) 8 \<lparr>qmr_rejectedType = rejectedType, qmr_reason = reason\<rparr>
      in if n < 0 then (-1, qc) else sigQueue mem qc (take (nat n) out))"

definition sessionTick :: "(nat \<Rightarrow> bool) \<Rightarrow> u64 \<Rightarrow> QuicConn \<Rightarrow> QuicConn" where
  "sessionTick mem now qc =
     (if qs_sessState qc = QSS_ESTABLISHED \<and> qs_keepalive qc > 0 \<and>
         now - qs_lastTx qc \<ge> ucast (qs_keepalive qc) * NGTCP2_SECONDS
      then snd (sendKeepalive mem qc) \<lparr> qs_lastTx := now \<rparr> else qc)"

text \<open>One pass of the loop of \<open>sessParseSig\<close>: the length of the message that was at the front, 0 when it is not
  complete, -1 when the connection fails.\<close>

definition sig_step :: "(nat \<Rightarrow> bool) \<Rightarrow> QuicClaConfig \<Rightarrow> u64 \<Rightarrow> bytes \<Rightarrow> QuicConn \<Rightarrow> int \<times> QuicConn" where
  "sig_step mem cfg now p qc =
     (let type = quicMsgType p (length p)
      in if type = uint QMSG_SESS_INIT then
           (case quicMsgDecodeSessInit p (length p) of
              (n, Some init) \<Rightarrow>
                if n = 0 then (0, qc)
                else if n < 0 then (-1, qc)
                else (let (rc, qc) = handleSessInit mem cfg now init qc in if rc < 0 then (-1, qc) else (n, qc))
            | (n, None) \<Rightarrow> (if n = 0 then 0 else -1, qc))
         else if type = uint QMSG_KEEPALIVE then (1, qc)
         else if type = uint QMSG_SESS_TERM then
           (let n = fst (quicMsgDecodeSessTerm p (length p))
            in if n = 0 then (0, qc)
               else if n < 0 then (-1, qc)
               else
                 (let qc = qc \<lparr> qs_sessState := QSS_ENDING \<rparr>
                  in (n, if qs_termSent qc then qc else snd (sendSessTerm mem QMSG_TERM_UNKNOWN True qc))))
         else if type = uint QMSG_MSG_REJECT then
           (let n = fst (quicMsgDecodeMsgReject p (length p)) in if n < 0 then (-1, qc) else (n, qc))
         else (-1, snd (sendMsgReject mem (word_of_int type) QMSG_REJECT_UNSUPPORTED qc)))"

function sig_loop :: "(nat \<Rightarrow> bool) \<Rightarrow> QuicClaConfig \<Rightarrow> u64 \<Rightarrow> bytes \<Rightarrow> QuicConn \<Rightarrow> int \<times> bytes \<times> QuicConn" where
  "sig_loop mem cfg now p qc =
     (if p = [] then (0, p, qc)
      else
        (let (n, qc) = sig_step mem cfg now p qc
         in if n < 0 then (-1, p, qc)
            else if n = 0 then (0, p, qc)
            else sig_loop mem cfg now (drop (nat n) p) qc))"
  by pat_completeness auto
termination
  by (relation "measure (\<lambda>(mem, cfg, now, p, qc). length p)") auto

declare sig_loop.simps [simp del]

text \<open>The octets of stream 0 that wait to be parsed, with the capacity of their buffer.\<close>

record SigRx =
  sx_buf :: bytes
  sx_cap :: nat

definition sessParseSig :: "(nat \<Rightarrow> bool) \<Rightarrow> QuicClaConfig \<Rightarrow> u64 \<Rightarrow> SigRx \<Rightarrow> QuicConn \<Rightarrow> int \<times> SigRx \<times> QuicConn" where
  "sessParseSig mem cfg now rx qc =
     (let (rc, rest, qc) = sig_loop mem cfg now (sx_buf rx) qc
      in if rc < 0 then (-1, rx, qc) else (0, rx \<lparr> sx_buf := rest \<rparr>, qc))"

definition sessRecvSig :: "(nat \<Rightarrow> bool) \<Rightarrow> QuicClaConfig \<Rightarrow> u64 \<Rightarrow> bytes \<Rightarrow> SigRx \<Rightarrow> QuicConn \<Rightarrow> int \<times> SigRx \<times> QuicConn" where
  "sessRecvSig mem cfg now data rx qc =
     (let want = length (sx_buf rx) + length data;
          newCap = cap_for (if sx_cap rx \<noteq> 0 then sx_cap rx else 256) want
      in if want > sx_cap rx \<and> \<not> mem newCap then (-1, rx, qc)
         else sessParseSig mem cfg now
                (rx \<lparr> sx_cap := (if want > sx_cap rx then newCap else sx_cap rx), sx_buf := sx_buf rx @ data \<rparr>) qc)"

text \<open>\<open>recvStreamDataCb\<close> on stream 0, for octets that arrive at the times beside them.\<close>

fun recv_signals :: "(nat \<Rightarrow> bool) \<Rightarrow> QuicClaConfig \<Rightarrow> (u64 \<times> bytes) list \<Rightarrow> SigRx \<Rightarrow> QuicConn \<Rightarrow> int \<times> SigRx \<times> QuicConn" where
  "recv_signals mem cfg [] rx qc = (0, rx, qc)"
| "recv_signals mem cfg ((now, data) # cs) rx qc =
     (if data = [] then recv_signals mem cfg cs rx qc
      else (let (rc, rx, qc) = sessRecvSig mem cfg now data rx qc in if rc < 0 then (-1, rx, qc) else recv_signals mem cfg cs rx qc))"

text \<open>\<open>sigOpen\<close>: whether stream 0 can be opened; \<open>opens\<close>: the identifiers of the streams opened after it, \<open>None\<close>
  where ngtcp2 refuses.\<close>

fun open_streams :: "int option list \<Rightarrow> nat \<Rightarrow> int list \<Rightarrow> bool \<times> int list" where
  "open_streams opens 0 ids = (True, ids)"
| "open_streams [] (Suc k) ids = (False, ids)"
| "open_streams (None # opens) (Suc k) ids = (False, ids)"
| "open_streams (Some i # opens) (Suc k) ids = open_streams opens k (ids[3 - k := i])"

definition perConnBringup :: "(nat \<Rightarrow> bool) \<Rightarrow> QuicClaConfig \<Rightarrow> u64 \<Rightarrow> bool \<Rightarrow> int option list \<Rightarrow> QuicConn \<Rightarrow> QuicConn" where
  "perConnBringup mem cfg now sigOpen opens qc =
     (let (ok, qc) =
        (if qs_clientRole qc \<and> qs_handshakeDone qc \<and> \<not> qs_sessInitSent qc then
           (if \<not> sigOpen then (False, qc)
            else (let (rc, qc) = quic_sendSessInit mem cfg now qc in (\<not> rc < 0, qc)))
         else (True, qc))
      in if \<not> ok then qc \<lparr> qs_failed := True \<rparr>
         else if \<not> qc_unreliable cfg \<and> qs_handshakeDone qc \<and> qs_sessInitSent qc \<and> \<not> qs_dataStreamsOpen qc then
           (let (ok, ids) = open_streams opens 4 (qs_dataStreams qc)
            in if ok then qc \<lparr> qs_dataStreams := ids, qs_dataStreamsOpen := True \<rparr>
               else qc \<lparr> qs_dataStreams := ids, qs_failed := True \<rparr>)
         else qc)"

definition fresh_quic_conn :: "bool \<Rightarrow> QuicConn" where
  "fresh_quic_conn clientRole = \<lparr>qs_clientRole = clientRole, qs_handshakeDone = False, qs_failed = False, qs_peerNode = 0,
     qs_sessState = QSS_CONNECTING, qs_sessInitSent = False, qs_termSent = False, qs_keepalive = 0, qs_peerSegmentMru = 0,
     qs_peerTransferMru = 0, qs_lastTx = 0, qs_sigTx = [], qs_sigTxCap = 0, qs_dataStreams = replicate 4 (-1),
     qs_dataStreamsOpen = False\<rparr>"

definition handshakeDoneCb :: "QuicConn \<Rightarrow> QuicConn" where
  "handshakeDoneCb qc = qc \<lparr> qs_handshakeDone := True \<rparr>"

definition no_signals :: SigRx where "no_signals = \<lparr>sx_buf = [], sx_cap = 0\<rparr>"


section \<open>The loop over the messages\<close>

text \<open>How many octets the message at the front has.\<close>

definition sig_size :: "bytes \<Rightarrow> nat option" where
  "sig_size p =
     (if hd p = QMSG_SESS_INIT then
        (case quicMsgDecodeSessInit p (length p) of (n, None) \<Rightarrow> None | (n, Some m) \<Rightarrow> Some (nat n))
      else if hd p = QMSG_SESS_TERM then
        (case quicMsgDecodeSessTerm p (length p) of (n, None) \<Rightarrow> None | (n, Some m) \<Rightarrow> Some (nat n))
      else if hd p = QMSG_MSG_REJECT then
        (case quicMsgDecodeMsgReject p (length p) of (n, None) \<Rightarrow> None | (n, Some m) \<Rightarrow> Some (nat n))
      else Some 1)"

definition sig_act :: "(nat \<Rightarrow> bool) \<Rightarrow> QuicClaConfig \<Rightarrow> u64 \<Rightarrow> bytes \<Rightarrow> QuicConn \<Rightarrow> int \<times> QuicConn" where
  "sig_act mem cfg now p qc = (let (n, qc) = sig_step mem cfg now p qc in (if n < 0 then -1 else 0, qc))"

lemma sig_step_init: "p \<noteq> [] \<Longrightarrow> hd p = QMSG_SESS_INIT \<Longrightarrow> sig_step mem cfg now p qc =
    (case quicMsgDecodeSessInit p (length p) of
       (n, Some init) \<Rightarrow>
         if n = 0 then (0, qc)
         else if n < 0 then (-1, qc)
         else (let (rc, qc) = handleSessInit mem cfg now init qc in if rc < 0 then (-1, qc) else (n, qc))
     | (n, None) \<Rightarrow> (if n = 0 then 0 else -1, qc))"
  by (simp add: sig_step_def quicMsgType_hd)

lemma sig_step_keepalive: "p \<noteq> [] \<Longrightarrow> hd p = QMSG_KEEPALIVE \<Longrightarrow> sig_step mem cfg now p qc = (1, qc)"
  by (simp add: sig_step_def quicMsgType_hd qmsg_types)

lemma sig_step_term: "p \<noteq> [] \<Longrightarrow> hd p = QMSG_SESS_TERM \<Longrightarrow> sig_step mem cfg now p qc =
    (let n = fst (quicMsgDecodeSessTerm p (length p))
     in if n = 0 then (0, qc)
        else if n < 0 then (-1, qc)
        else
          (let qc = qc \<lparr> qs_sessState := QSS_ENDING \<rparr>
           in (n, if qs_termSent qc then qc else snd (sendSessTerm mem QMSG_TERM_UNKNOWN True qc))))"
  by (simp add: sig_step_def quicMsgType_hd qmsg_types)

lemma sig_step_reject: "p \<noteq> [] \<Longrightarrow> hd p = QMSG_MSG_REJECT \<Longrightarrow> sig_step mem cfg now p qc =
    (let n = fst (quicMsgDecodeMsgReject p (length p)) in if n < 0 then (-1, qc) else (n, qc))"
  by (simp add: sig_step_def quicMsgType_hd qmsg_types)

lemma sig_step_other:
  "p \<noteq> [] \<Longrightarrow> hd p \<notin> {QMSG_SESS_INIT, QMSG_KEEPALIVE, QMSG_SESS_TERM, QMSG_MSG_REJECT} \<Longrightarrow>
    sig_step mem cfg now p qc = (-1, snd (sendMsgReject mem (hd p) QMSG_REJECT_UNSUPPORTED qc))"
  by (simp add: sig_step_def quicMsgType_hd word_uint_eq_iff[symmetric])

lemmas sig_steps = sig_step_init sig_step_keepalive sig_step_term sig_step_reject sig_step_other

lemma signals_decoded:
  assumes "p \<noteq> []"
  shows "hd p = QMSG_SESS_INIT \<Longrightarrow> quicMsgDecodeSessInit p (length p) = (0, None) \<or>
      (\<exists>k m. quicMsgDecodeSessInit p (length p) = (k, Some m))"
    and "hd p = QMSG_SESS_TERM \<Longrightarrow> quicMsgDecodeSessTerm p (length p) = (0, None) \<or>
      (\<exists>k m. quicMsgDecodeSessTerm p (length p) = (k, Some m))"
    and "hd p = QMSG_MSG_REJECT \<Longrightarrow> quicMsgDecodeMsgReject p (length p) = (0, None) \<or>
      (\<exists>k m. quicMsgDecodeMsgReject p (length p) = (k, Some m))"
  unfolding quicMsgDecodeSessInit_def quicMsgDecodeSessTerm_def quicMsgDecodeMsgReject_def
  using decode_typed_outcome[OF assms] by blast+

lemma head_cases:
  obtains "hd p = QMSG_SESS_INIT" | "hd p = QMSG_SESS_TERM" | "hd p = QMSG_MSG_REJECT" | "hd p = QMSG_KEEPALIVE"
    | "hd p \<notin> {QMSG_SESS_INIT, QMSG_KEEPALIVE, QMSG_SESS_TERM, QMSG_MSG_REJECT}"
  by blast

lemma sig_size_cases:
  assumes "p \<noteq> []" "sig_size p = r"
  obtains "hd p = QMSG_SESS_INIT" "quicMsgDecodeSessInit p (length p) = (0, None)" "r = None"
    | "hd p = QMSG_SESS_TERM" "quicMsgDecodeSessTerm p (length p) = (0, None)" "r = None"
    | "hd p = QMSG_MSG_REJECT" "quicMsgDecodeMsgReject p (length p) = (0, None)" "r = None"
    | k m where "hd p = QMSG_SESS_INIT" "quicMsgDecodeSessInit p (length p) = (k, Some m)" "r = Some (nat k)"
    | k m where "hd p = QMSG_SESS_TERM" "quicMsgDecodeSessTerm p (length p) = (k, Some m)" "r = Some (nat k)"
    | k m where "hd p = QMSG_MSG_REJECT" "quicMsgDecodeMsgReject p (length p) = (k, Some m)" "r = Some (nat k)"
    | "hd p = QMSG_KEEPALIVE" "r = Some 1"
    | "hd p \<notin> {QMSG_SESS_INIT, QMSG_KEEPALIVE, QMSG_SESS_TERM, QMSG_MSG_REJECT}" "r = Some 1"
proof (cases rule: head_cases[of p])
  case 1
  then show ?thesis using signals_decoded(1)[OF assms(1) 1] assms(2) that(1,4) by (auto simp: sig_size_def)
next
  case 2
  then show ?thesis using signals_decoded(2)[OF assms(1) 2] assms(2) that(2,5) by (auto simp: sig_size_def qmsg_types)
next
  case 3
  then show ?thesis using signals_decoded(3)[OF assms(1) 3] assms(2) that(3,6) by (auto simp: sig_size_def qmsg_types)
next
  case 4
  then show ?thesis using assms(2) that(7) by (auto simp: sig_size_def qmsg_types)
next
  case 5
  then show ?thesis using assms(2) that(8) by (auto simp: sig_size_def)
qed

lemma signals_not_empty:
  "wire_quic_sess_init i \<noteq> []" "wire_quic_sess_term t \<noteq> []" "wire_quic_msg_reject r \<noteq> []"
  by (simp_all add: wire_quic_sess_init_def wire_quic_sess_term_def wire_quic_msg_reject_def)

text \<open>What waits has no effect, and what is complete is as long as it says.\<close>

lemma sig_wait:
  assumes "p \<noteq> []" "sig_size p = None"
  shows "sig_step mem cfg now p qc = (0, qc)"
  by (rule sig_size_cases[OF assms]) (simp_all add: sig_steps assms(1))

lemma sig_take:
  assumes p: "p \<noteq> []" "sig_size p = Some n" "n \<noteq> 0"
  shows "fst (sig_step mem cfg now p qc) < 0 \<or> fst (sig_step mem cfg now p qc) = int n"
  by (rule sig_size_cases[OF p(1,2)]) (use p in \<open>auto simp: sig_steps Let_def split: prod.splits\<close>)

lemma sig_loop_wait: "p \<noteq> [] \<Longrightarrow> sig_size p = None \<Longrightarrow> sig_loop mem cfg now p qc = (0, p, qc)"
  by (simp add: sig_loop.simps[of mem cfg now p] sig_wait)

lemma sig_loop_take:
  assumes "p \<noteq> []" "sig_size p = Some n" "n \<noteq> 0" "sig_act mem cfg now p qc = (rc, qc')"
  shows "sig_loop mem cfg now p qc = (if rc < 0 then (-1, p, qc') else sig_loop mem cfg now (drop n p) qc')"
proof -
  obtain k q where s: "sig_step mem cfg now p qc = (k, q)" by fastforce
  from sig_take[OF assms(1-3), of mem cfg now qc] assms(3,4) s show ?thesis
    by (auto simp: sig_loop.simps[of mem cfg now p] assms(1) sig_act_def)
qed

lemma sig_append:
  assumes p: "p \<noteq> []" "length p < 2 ^ 31" "sig_size p = Some n"
  shows "sig_size (p @ b) = Some n" "n \<noteq> 0" "n \<le> length p" "sig_step mem cfg now (p @ b) qc = sig_step mem cfg now p qc"
proof -
  have t: "p @ b \<noteq> []" "hd (p @ b) = hd p" using p(1) by simp_all
  have "sig_size (p @ b) = Some n \<and> n \<noteq> 0 \<and> n \<le> length p \<and>
      sig_step mem cfg now (p @ b) qc = sig_step mem cfg now p qc"
  proof (cases rule: sig_size_cases[OF p(1,3)])
    case (4 k m)
    note a = quic_sess_init.dec_append[OF p(2) 4(2)]
    have "n \<noteq> 0" using quic_sess_init.dec_sound[OF p(2) 4(2)] 4(3) signals_not_empty(1) by auto
    then show ?thesis using 4 a(1)[of b] a(2,3) t p(1) by (simp add: sig_size_def sig_steps)
  next
    case (5 k m)
    note a = quic_sess_term.dec_append[OF p(2) 5(2)]
    have "n \<noteq> 0" using quic_sess_term.dec_sound[OF p(2) 5(2)] 5(3) signals_not_empty(2) by auto
    then show ?thesis using 5 a(1)[of b] a(2,3) t p(1) by (simp add: sig_size_def sig_steps) (simp add: qmsg_types)
  next
    case (6 k m)
    note a = quic_msg_reject.dec_append[OF p(2) 6(2)]
    have "n \<noteq> 0" using quic_msg_reject.dec_sound[OF p(2) 6(2)] 6(3) signals_not_empty(3) by auto
    then show ?thesis using 6 a(1)[of b] a(2,3) t p(1) by (simp add: sig_size_def sig_steps) (simp add: qmsg_types)
  next
    case 7
    then show ?thesis using t p(1) by (simp add: sig_size_def sig_steps Suc_le_eq) (simp add: qmsg_types)
  next
    case 8
    then show ?thesis using t p(1) by (simp add: sig_size_def sig_steps Suc_le_eq)
  qed simp_all
  then show "sig_size (p @ b) = Some n" "n \<noteq> 0" "n \<le> length p"
    "sig_step mem cfg now (p @ b) qc = sig_step mem cfg now p qc" by blast+
qed

interpretation signals: message_loop sig_size "sig_act mem cfg now" "sig_loop mem cfg now"
  for mem :: "nat \<Rightarrow> bool" and cfg :: QuicClaConfig and now :: u64
proof
  fix p b :: bytes and n :: nat and qc :: QuicConn
  assume p: "p \<noteq> []" "length p < 2 ^ 31" "sig_size p = Some n"
  show "sig_size (p @ b) = Some n" by (rule sig_append(1)[OF p])
  show "n \<noteq> 0 \<and> n \<le> length p" using sig_append(2,3)[OF p] ..
  show "sig_act mem cfg now (p @ b) qc = sig_act mem cfg now p qc" by (simp add: sig_act_def sig_append(4)[OF p])
next
  fix qc show "sig_loop mem cfg now [] qc = (0, [], qc)" by (simp add: sig_loop.simps[of mem cfg now "[]"])
qed (rule sig_loop_wait sig_loop_take; assumption)+


section \<open>What is sent\<close>

text \<open>A SESS_INIT as the other end decodes it: the absent extension is an empty one.\<close>

definition sent_init :: "QuicClaConfig \<Rightarrow> QuicSessInit" where
  "sent_init cfg = own_init cfg \<lparr> qsi_sessExt := Some [] \<rparr>"

lemma own_node_id_value:
  "own_node_id cfg = ascii ''ipn:'' @ print_size (unat (qc_ownNode cfg)) @ ascii ''.0''"
  "length (own_node_id cfg) \<le> 26" "4 < length (own_node_id cfg)"
proof -
  let ?d = "print_size (unat (qc_ownNode cfg))"
  have l: "length ?d \<le> 20" by (rule length_print_size_64) (simp add: unat_u64_less)
  have "0 < length ?d" using print_size_not_Nil by simp
  with l show "own_node_id cfg = ascii ''ipn:'' @ ?d @ ascii ''.0''" "length (own_node_id cfg) \<le> 26"
    "4 < length (own_node_id cfg)"
    by (simp_all add: own_node_id_def ascii_def)
qed

lemma sent_init_simps:
  "qsi_keepalive (sent_init cfg) = own_keepalive cfg" "qsi_segmentMru (sent_init cfg) = qsi_segmentMru (own_init cfg)"
  "qsi_transferMru (sent_init cfg) = word_of_nat QUICCLA_BUFSZ" "qsi_nodeId (sent_init cfg) = Some (own_node_id cfg)"
  "unat (qsi_nodeIdLen (sent_init cfg)) = length (own_node_id cfg)"
  using own_node_id_value(2)[of cfg]
  by (simp_all add: sent_init_def own_init_def unsigned_of_nat take_bit_nat_eq_self)

lemma valid_sent_init: "valid_quic_sess_init (sent_init cfg)"
  using sent_init_simps[of cfg] by (simp add: valid_quic_sess_init_def) (simp add: sent_init_def own_init_def)

lemma length_sent_init: "length (wire_quic_sess_init (sent_init cfg)) \<le> 128"
  using own_node_id_value(2)[of cfg] by (simp add: wire_quic_sess_init_def sent_init_def own_init_def)

lemma sigQueue_run:
  assumes "\<And>n. mem n"
  shows "\<exists>cap. sigQueue mem qc octets = (0, qc \<lparr> qs_sigTxCap := cap, qs_sigTx := qs_sigTx qc @ octets \<rparr>)"
proof (rule exI)
  let ?want = "length (qs_sigTx qc) + length octets"
  let ?cap = "if ?want > qs_sigTxCap qc then cap_for (if qs_sigTxCap qc \<noteq> 0 then qs_sigTxCap qc else 256) ?want
      else qs_sigTxCap qc"
  show "sigQueue mem qc octets = (0, qc \<lparr> qs_sigTxCap := ?cap, qs_sigTx := qs_sigTx qc @ octets \<rparr>)"
    by (simp only: sigQueue_def Let_def assms not_True_eq_False simp_thms if_False)
qed

lemma sendSessInit_run:
  assumes "\<And>n. mem n"
  shows "\<exists>cap. quic_sendSessInit mem cfg now qc = (0, qc \<lparr> qs_sessInitSent := True, qs_lastTx := now, qs_sigTxCap := cap,
    qs_sigTx := qs_sigTx qc @ wire_quic_sess_init (sent_init cfg) \<rparr>)"
proof -
  have same: "quicMsgEncodeSessInit (replicate 128 0) 128 (own_init cfg) = quicMsgEncodeSessInit (replicate 128 0) 128 (sent_init cfg)"
    by (simp add: quicMsgEncodeSessInit_def sent_init_def) (simp add: own_init_def)
  obtain n out where e: "quicMsgEncodeSessInit (replicate 128 0) 128 (sent_init cfg) = (n, out)" by fastforce
  have b: "(128 :: nat) \<le> length (replicate 128 (0 :: u8))" "(128 :: nat) < 2 ^ 31" by simp_all
  have h: "n = int (length (wire_quic_sess_init (sent_init cfg)))" "take (nat n) out = wire_quic_sess_init (sent_init cfg)"
    using quic_sess_init.dec_enc[OF valid_sent_init length_sent_init b e] by blast+
  have "quic_sendSessInit mem cfg now qc =
      sigQueue mem (qc \<lparr> qs_sessInitSent := True, qs_lastTx := now \<rparr>) (wire_quic_sess_init (sent_init cfg))"
    unfolding quic_sendSessInit_def same e Let_def prod.case h(2) using h(1) by simp
  then show ?thesis
    using sigQueue_run[where mem = mem, OF assms, of "qc \<lparr> qs_sessInitSent := True, qs_lastTx := now \<rparr>"
        "wire_quic_sess_init (sent_init cfg)"] by simp
qed

lemma scan_printed: "scan_u64 (print_size (unat n) @ ascii ''.0'') = Some (n :: u64)"
proof -
  let ?d = "print_size (unat n)"
  obtain c ds where d: "?d = c # ds" using print_size_not_Nil by (cases ?d) auto
  have c: "is_digit c" using print_size_digits[of "unat n"] d by simp
  then have h: "\<not> is_space c" "c \<noteq> of_char CHR ''+''" "c \<noteq> of_char CHR ''-''"
    by (auto simp: is_digit_def is_space_def word_le_nat_alt)
  have "takeWhile is_digit (?d @ ascii ''.0'') = ?d @ takeWhile is_digit (ascii ''.0'')"
    using print_size_digits[of "unat n"] by (simp add: list_all_iff)
  also have "takeWhile is_digit (ascii ''.0'') = []" by (simp add: is_digit_def)
  finally have t: "takeWhile is_digit (?d @ ascii ''.0'') = ?d" by simp
  have "dropWhile is_space (?d @ ascii ''.0'') = ?d @ ascii ''.0''" "hd (?d @ ascii ''.0'') = c"
    using d h(1) by simp_all
  then show ?thesis using t h print_size_not_Nil[of "unat n"] unat_u64_less[of n]
    by (simp add: scan_u64_def dec_from_print_size del: dec_from_simps unat_u64_less)
qed

lemma notePeerNode_sent: "notePeerNode (sent_init cfg) qc = qc \<lparr> qs_peerNode := qc_ownNode cfg \<rparr>"
proof -
  note v = own_node_id_value[of cfg]
  have l: "\<not> qsi_nodeIdLen (sent_init cfg) \<le> 4"
    using v(3) sent_init_simps(5)[of cfg] by (simp add: word_le_nat_alt)
  have "is_cstring (print_size m)" for m
    using print_size_no_cr[of _ m] by (fastforce simp: is_cstring_def)
  then have "is_cstring (own_node_id cfg)" unfolding v(1) by (simp add: is_cstring_def)
  then have "cstr (own_node_id cfg @ [0]) = own_node_id cfg" by simp
  then show ?thesis
    using v l sent_init_simps[of cfg] scan_printed[of "qc_ownNode cfg"]
    by (simp add: notePeerNode_def min_def)
qed

section \<open>Waiting for one message\<close>

lemma recv_no_signals: "concat (map snd cs) = [] \<Longrightarrow> recv_signals mem cfg cs rx qc = (0, rx, qc)"
  by (induction cs) auto

lemma recv_one_signal:
  assumes mem: "\<And>n. mem n" and w: "length w < 2 ^ 31"
    and waits: "\<And>a b. a @ b = w \<Longrightarrow> a \<noteq> [] \<Longrightarrow> b \<noteq> [] \<Longrightarrow> sig_size a = None"
    and acts: "\<And>now. sig_loop mem cfg now w qc = (0, [], f now)"
  shows "sx_buf rx @ concat (map snd cs) = w \<Longrightarrow> sx_buf rx \<noteq> w \<Longrightarrow>
    \<exists>now rx'. recv_signals mem cfg cs rx qc = (0, rx', f now) \<and> sx_buf rx' = []"
proof (induction cs arbitrary: rx)
  case (Cons c cs)
  obtain now data where c: "c = (now, data)" by fastforce
  show ?case
  proof (cases "data = []")
    case True
    then show ?thesis using Cons c by simp
  next
    case False
    let ?cap = "if length (sx_buf rx) + length data > sx_cap rx
      then cap_for (if sx_cap rx \<noteq> 0 then sx_cap rx else 256) (length (sx_buf rx) + length data) else sx_cap rx"
    let ?buf = "sx_buf rx @ data"
    have r: "sessRecvSig mem cfg now data rx qc = sessParseSig mem cfg now (rx \<lparr> sx_cap := ?cap, sx_buf := ?buf \<rparr>) qc"
      by (simp add: sessRecvSig_def mem Let_def)
    have all: "?buf @ concat (map snd cs) = w" using Cons.prems(1) c by simp
    show ?thesis
    proof (cases "concat (map snd cs) = []")
      case True
      then have "sig_loop mem cfg now ?buf qc = (0, [], f now)" using all acts[of now] True by (simp only: append_Nil2)
      then have "recv_signals mem cfg (c # cs) rx qc = recv_signals mem cfg cs (rx \<lparr> sx_cap := ?cap, sx_buf := [] \<rparr>) (f now)"
        using False c by (simp add: r sessParseSig_def)
      then show ?thesis using recv_no_signals[OF True] by auto
    next
      case rest: False
      then have "sig_loop mem cfg now ?buf qc = (0, ?buf, qc)"
        using waits[OF all] False by (intro sig_loop_wait) simp_all
      then have "recv_signals mem cfg (c # cs) rx qc = recv_signals mem cfg cs (rx \<lparr> sx_cap := ?cap, sx_buf := ?buf \<rparr>) qc"
        using False c by (simp add: r sessParseSig_def)
      moreover have "?buf \<noteq> w" unfolding all[symmetric] using rest by (simp only: self_append_conv not_False_eq_True)
      ultimately show ?thesis using Cons.IH[of "rx \<lparr> sx_cap := ?cap, sx_buf := ?buf \<rparr>"] all by simp
    qed
  qed
qed simp

lemma init_waits:
  "a @ b = wire_quic_sess_init (sent_init cfg) \<Longrightarrow> a \<noteq> [] \<Longrightarrow> b \<noteq> [] \<Longrightarrow> sig_size a = None"
proof -
  assume ab: "a @ b = wire_quic_sess_init (sent_init cfg)" "a \<noteq> []" "b \<noteq> []"
  have "hd a = QMSG_SESS_INIT" using ab(1,2) by (cases a) (simp_all add: wire_quic_sess_init_def)
  moreover have "quicMsgDecodeSessInit a (length a) = (0, None)"
    using quic_sess_init.dec_short[OF valid_sent_init ab(1)[symmetric] ab(3)] .
  ultimately show "sig_size a = None" by (simp add: sig_size_def)
qed

lemma init_loop:
  assumes "handleSessInit mem cfg now (sent_init peer) qc = (0, qc')"
  shows "sig_loop mem cfg now (wire_quic_sess_init (sent_init peer)) qc = (0, [], qc')"
proof -
  let ?w = "wire_quic_sess_init (sent_init peer)"
  have h: "hd ?w = QMSG_SESS_INIT" "?w \<noteq> []" by (simp_all add: wire_quic_sess_init_def)
  have d: "quicMsgDecodeSessInit ?w (length ?w) = (int (length ?w), Some (sent_init peer))"
    using quic_sess_init.dec_complete[OF valid_sent_init, of peer ?w "[]"] length_sent_init[of peer] by simp
  have "sig_act mem cfg now (?w @ []) qc = (0, qc')"
    using h d assms by (simp add: sig_act_def sig_step_init)
  moreover have "sig_size (?w @ []) = Some (length ?w)" using h d by (simp add: sig_size_def)
  ultimately have "sig_loop mem cfg now (?w @ []) qc = sig_loop mem cfg now [] qc'"
    using h(2) by (intro signals.loop_message)
  then show ?thesis by (simp add: signals.loop_Nil)
qed


lemma handle_passive:
  assumes "\<And>n. mem n" "\<not> qs_clientRole qc" "\<not> qs_sessInitSent qc"
  shows "\<exists>cap. handleSessInit mem cfg now (sent_init peer) qc =
    (0, qc \<lparr> qs_keepalive := min (own_keepalive peer) (own_keepalive cfg),
       qs_peerSegmentMru := qsi_segmentMru (own_init peer), qs_peerTransferMru := word_of_nat QUICCLA_BUFSZ,
       qs_peerNode := qc_ownNode peer, qs_sessInitSent := True, qs_lastTx := now, qs_sigTxCap := cap,
       qs_sigTx := qs_sigTx qc @ wire_quic_sess_init (sent_init cfg), qs_sessState := QSS_ESTABLISHED \<rparr>)"
proof -
  let ?qc = "notePeerNode (sent_init peer) (sessNegotiate cfg (sent_init peer) qc)"
  have q: "?qc = qc \<lparr> qs_keepalive := min (own_keepalive peer) (own_keepalive cfg),
       qs_peerSegmentMru := qsi_segmentMru (own_init peer), qs_peerTransferMru := word_of_nat QUICCLA_BUFSZ,
       qs_peerNode := qc_ownNode peer \<rparr>"
    by (simp add: notePeerNode_sent) (simp add: sessNegotiate_def sent_init_simps min_def not_less)
  obtain cap where c: "quic_sendSessInit mem cfg now ?qc = (0, ?qc \<lparr> qs_sessInitSent := True, qs_lastTx := now,
      qs_sigTxCap := cap, qs_sigTx := qs_sigTx ?qc @ wire_quic_sess_init (sent_init cfg) \<rparr>)"
    using sendSessInit_run[where mem = mem, OF assms(1)] by blast
  show ?thesis
    by (rule exI[of _ cap]) (simp add: handleSessInit_def Let_def c[unfolded q] q assms(2,3))
qed

lemma handle_active:
  assumes "qs_sessInitSent qc"
  shows "handleSessInit mem cfg now (sent_init peer) qc =
    (0, qc \<lparr> qs_keepalive := min (own_keepalive peer) (own_keepalive cfg),
       qs_peerSegmentMru := qsi_segmentMru (own_init peer), qs_peerTransferMru := word_of_nat QUICCLA_BUFSZ,
       qs_peerNode := qc_ownNode peer, qs_sessState := QSS_ESTABLISHED \<rparr>)"
  using assms by (simp add: handleSessInit_def Let_def notePeerNode_sent)
    (simp add: sessNegotiate_def sent_init_simps min_def not_less)

lemma recv_init:
  assumes mem: "\<And>n. mem n" and f: "\<And>now. handleSessInit mem cfg now (sent_init peer) qc = (0, f now)"
    and cs: "concat (map snd cs) = wire_quic_sess_init (sent_init peer)"
  shows "\<exists>now rx'. recv_signals mem cfg cs no_signals qc = (0, rx', f now) \<and> sx_buf rx' = []"
proof (rule recv_one_signal[where mem = mem and w = "wire_quic_sess_init (sent_init peer)"])
  show "mem n" for n by (rule mem)
  show "length (wire_quic_sess_init (sent_init peer)) < 2 ^ 31" using length_sent_init[of peer] by simp
  show "sig_size a = None" if "a @ b = wire_quic_sess_init (sent_init peer)" "a \<noteq> []" "b \<noteq> []" for a b
    using that by (rule init_waits)
  show "sig_loop mem cfg now (wire_quic_sess_init (sent_init peer)) qc = (0, [], f now)" for now
    by (rule init_loop[OF f])
  show "sx_buf no_signals @ concat (map snd cs) = wire_quic_sess_init (sent_init peer)" by (simp add: cs no_signals_def)
  show "sx_buf no_signals \<noteq> wire_quic_sess_init (sent_init peer)"
    using signals_not_empty(1)[of "sent_init peer"] by (simp add: no_signals_def)
qed

section \<open>Properties\<close>

text \<open>The Segment MRU announced is one the receiver keeps.\<close>

lemma announced_mru: "0 < qsi_segmentMru (own_init cfg) \<and> unat (qsi_segmentMru (own_init cfg)) \<le> QUICCLA_BUFSZ"
proof (cases "0 < qc_segmentMru cfg \<and> qc_segmentMru cfg < int QUICCLA_BUFSZ")
  case True
  then obtain n where n: "qc_segmentMru cfg = int n" "0 < n" "n < QUICCLA_BUFSZ"
    by (metis of_nat_0_less_iff of_nat_less_iff zero_less_imp_eq_int)
  then have "unat (word_of_nat n :: u64) = n" by (intro unat_small_u64) (simp add: QUICCLA_BUFSZ_def)
  then show ?thesis using True n by (simp add: own_init_def word_less_nat_alt)
next
  case False
  then show ?thesis by (auto simp: own_init_def QUICCLA_BUFSZ_def)
qed

text \<open>The two ends of a connection whose handshake is done: the octets that each queues reach the other in any
  chunks, at any times.\<close>

text \<open>C8: When the handshake of a QUIC connection is done and each end's signalling octets reach the other, however they
  are cut up, both ends establish the session: the active end announces itself, the passive one answers, both
  adopt the smaller of the two keepalives, each holds the other's node number and a Segment MRU that the other
  keeps, and nothing stays buffered.\<close>
theorem quic_ends_establish:
  assumes "\<forall>n. mem n"
    and "perConnBringup mem ca t0 True opens (handshakeDoneCb (fresh_quic_conn True)) = a1"
    and "\<not> qs_failed a1"
    and "concat (map snd toB) = qs_sigTx a1"
    and "recv_signals mem cb toB no_signals (handshakeDoneCb (fresh_quic_conn False)) = (rcB, rxB, b1)"
    and "concat (map snd toA) = qs_sigTx b1"
    and "recv_signals mem ca toA no_signals a1 = (rcA, rxA, a2)"
  shows "rcA = 0 \<and> rcB = 0 \<and> sx_buf rxA = [] \<and> sx_buf rxB = [] \<and>
    qs_sessState a2 = QSS_ESTABLISHED \<and> qs_sessState b1 = QSS_ESTABLISHED \<and>
    qs_keepalive a2 = min (own_keepalive ca) (own_keepalive cb) \<and> qs_keepalive b1 = qs_keepalive a2 \<and>
    qs_peerNode a2 = qc_ownNode cb \<and> qs_peerNode b1 = qc_ownNode ca \<and>
    0 < qs_peerSegmentMru a2 \<and> unat (qs_peerSegmentMru a2) \<le> QUICCLA_BUFSZ \<and>
    0 < qs_peerSegmentMru b1 \<and> unat (qs_peerSegmentMru b1) \<le> QUICCLA_BUFSZ"
proof -
  have m: "mem n" for n using assms(1) by blast
  let ?a0 = "handshakeDoneCb (fresh_quic_conn True)" and ?b0 = "handshakeDoneCb (fresh_quic_conn False)"
  have a0: "qs_clientRole ?a0" "qs_handshakeDone ?a0" "\<not> qs_sessInitSent ?a0" "qs_sigTx ?a0 = []"
    and b0: "\<not> qs_clientRole ?b0" "\<not> qs_sessInitSent ?b0" "qs_sigTx ?b0 = []"
    by (simp_all add: handshakeDoneCb_def fresh_quic_conn_def)
  obtain cap where "quic_sendSessInit mem ca t0 ?a0 = (0, ?a0 \<lparr> qs_sessInitSent := True, qs_lastTx := t0, qs_sigTxCap := cap,
      qs_sigTx := qs_sigTx ?a0 @ wire_quic_sess_init (sent_init ca) \<rparr>)"
    using sendSessInit_run[where mem = mem, OF m] by blast
  then have a1: "qs_sigTx a1 = wire_quic_sess_init (sent_init ca)" "qs_sessInitSent a1"
    using assms(2) a0 by (auto simp: perConnBringup_def Let_def split: prod.splits if_splits)
  have "\<exists>f. \<forall>now. handleSessInit mem cb now (sent_init ca) ?b0 = (0, f now) \<and>
      qs_sigTx (f now) = wire_quic_sess_init (sent_init cb) \<and> qs_sessState (f now) = QSS_ESTABLISHED \<and>
      qs_keepalive (f now) = min (own_keepalive ca) (own_keepalive cb) \<and> qs_peerNode (f now) = qc_ownNode ca \<and>
      qs_peerSegmentMru (f now) = qsi_segmentMru (own_init ca)"
  proof (rule choice, rule allI)
    fix now
    obtain cap where "handleSessInit mem cb now (sent_init ca) ?b0 =
      (0, ?b0 \<lparr> qs_keepalive := min (own_keepalive ca) (own_keepalive cb),
         qs_peerSegmentMru := qsi_segmentMru (own_init ca), qs_peerTransferMru := word_of_nat QUICCLA_BUFSZ,
         qs_peerNode := qc_ownNode ca, qs_sessInitSent := True, qs_lastTx := now, qs_sigTxCap := cap,
         qs_sigTx := qs_sigTx ?b0 @ wire_quic_sess_init (sent_init cb), qs_sessState := QSS_ESTABLISHED \<rparr>)"
      using handle_passive[where mem = mem, OF m b0(1,2)] by blast
    then show "\<exists>x. handleSessInit mem cb now (sent_init ca) ?b0 = (0, x) \<and>
      qs_sigTx x = wire_quic_sess_init (sent_init cb) \<and> qs_sessState x = QSS_ESTABLISHED \<and>
      qs_keepalive x = min (own_keepalive ca) (own_keepalive cb) \<and> qs_peerNode x = qc_ownNode ca \<and>
      qs_peerSegmentMru x = qsi_segmentMru (own_init ca)" by (simp add: b0(3))
  qed
  then obtain f where f: "\<And>now. handleSessInit mem cb now (sent_init ca) ?b0 = (0, f now)"
    "\<And>now. qs_sigTx (f now) = wire_quic_sess_init (sent_init cb)" "\<And>now. qs_sessState (f now) = QSS_ESTABLISHED"
    "\<And>now. qs_keepalive (f now) = min (own_keepalive ca) (own_keepalive cb)" "\<And>now. qs_peerNode (f now) = qc_ownNode ca"
    "\<And>now. qs_peerSegmentMru (f now) = qsi_segmentMru (own_init ca)" by blast
  have "\<exists>now rx'. recv_signals mem cb toB no_signals ?b0 = (0, rx', f now) \<and> sx_buf rx' = []"
    using assms(4) a1(1) by (intro recv_init[where mem = mem, OF m f(1)]) simp
  then obtain nowB where b1: "rcB = 0" "b1 = f nowB" "sx_buf rxB = []" using assms(5) by auto
  let ?g = "a1 \<lparr> qs_keepalive := min (own_keepalive cb) (own_keepalive ca),
       qs_peerSegmentMru := qsi_segmentMru (own_init cb), qs_peerTransferMru := word_of_nat QUICCLA_BUFSZ,
       qs_peerNode := qc_ownNode cb, qs_sessState := QSS_ESTABLISHED \<rparr>"
  have "\<exists>now rx'. recv_signals mem ca toA no_signals a1 = (0, rx', (\<lambda>_. ?g) now) \<and> sx_buf rx' = []"
    using recv_init[where mem = mem and f = "\<lambda>_. ?g" and cfg = ca and qc = a1 and peer = cb and cs = toA,
        OF m handle_active[OF a1(2)]] assms(6) b1(2) f(2) by simp
  then have "rcA = 0 \<and> sx_buf rxA = [] \<and> a2 = ?g" using assms(7) by simp
  then have "rcA = 0" "sx_buf rxA = []" "qs_sessState a2 = QSS_ESTABLISHED" "qs_peerNode a2 = qc_ownNode cb"
    "qs_keepalive a2 = min (own_keepalive cb) (own_keepalive ca)" "qs_peerSegmentMru a2 = qsi_segmentMru (own_init cb)"
    by simp_all
  then show ?thesis
    using b1 f announced_mru[of ca] announced_mru[of cb] by (simp add: min.commute)
qed


definition example_quic_config :: "int \<Rightarrow> u64 \<Rightarrow> QuicClaConfig" where
  "example_quic_config idle node = \<lparr>qc_idleSec = idle, qc_segmentMru = 0, qc_unreliable = False, qc_ownNode = node\<rparr>"

theorem quic_ends_establish_witness:
  "let ca = example_quic_config 30 5; cb = example_quic_config 10 7;
       a1 = perConnBringup (\<lambda>_. True) ca 1 True [Some 4, Some 8, Some 12, Some 16] (handshakeDoneCb (fresh_quic_conn True));
       b1 = snd (snd (recv_signals (\<lambda>_. True) cb [(2, qs_sigTx a1)] no_signals (handshakeDoneCb (fresh_quic_conn False))));
       (rc, rx, a2) = recv_signals (\<lambda>_. True) ca [(3, qs_sigTx b1)] no_signals a1
   in rc = 0 \<and> qs_sessState a2 = QSS_ESTABLISHED \<and> qs_keepalive a2 = 5 \<and> qs_peerNode a2 = 7 \<and> qs_keepalive b1 = 5"
proof -
  let ?ca = "example_quic_config 30 5" and ?cb = "example_quic_config 10 7" and ?mem = "\<lambda>_ :: nat. True"
  define a1 where "a1 = perConnBringup ?mem ?ca 1 True [Some 4, Some 8, Some 12, Some 16] (handshakeDoneCb (fresh_quic_conn True))"
  obtain rcB rxB b1 where b1: "recv_signals ?mem ?cb [(2, qs_sigTx a1)] no_signals (handshakeDoneCb (fresh_quic_conn False)) =
      (rcB, rxB, b1)" by (metis prod_cases3)
  obtain rc rx a2 where a2: "recv_signals ?mem ?ca [(3, qs_sigTx b1)] no_signals a1 = (rc, rx, a2)" by (metis prod_cases3)
  obtain cap where "quic_sendSessInit ?mem ?ca 1 (handshakeDoneCb (fresh_quic_conn True)) =
      (0, handshakeDoneCb (fresh_quic_conn True) \<lparr> qs_sessInitSent := True, qs_lastTx := 1, qs_sigTxCap := cap,
      qs_sigTx := qs_sigTx (handshakeDoneCb (fresh_quic_conn True)) @ wire_quic_sess_init (sent_init ?ca) \<rparr>)"
    using sendSessInit_run[of ?mem] by blast
  then have "\<not> qs_failed a1"
    by (simp add: a1_def perConnBringup_def handshakeDoneCb_def fresh_quic_conn_def eval_nat_numeral)
  then have "rc = 0 \<and> qs_sessState a2 = QSS_ESTABLISHED \<and> qs_keepalive a2 = min (own_keepalive ?ca) (own_keepalive ?cb) \<and>
      qs_keepalive b1 = qs_keepalive a2 \<and> qs_peerNode a2 = qc_ownNode ?cb"
    using quic_ends_establish[OF _ a1_def[symmetric] _ _ b1 _ a2] by simp
  moreover have "own_keepalive ?ca = 15" "own_keepalive ?cb = 5" "qc_ownNode ?cb = 7"
    by (simp_all add: own_keepalive_def example_quic_config_def)
  ultimately show ?thesis unfolding Let_def a1_def[symmetric] b1 snd_conv a2 prod.case by (simp add: min_def)
qed

text \<open>What messages at the wrong time do: a SESS_INIT after SESS_TERM brings the session back, and one in the middle of
  a session changes the node that bundles are sent to.\<close>

lemma init_after_term_establishes:
  assumes "qs_sessState qc = QSS_ENDING" "qs_sessInitSent qc"
  shows "\<exists>qc'. sig_loop mem cfg now (wire_quic_sess_init (sent_init peer)) qc = (0, [], qc') \<and>
    qs_sessState qc' = QSS_ESTABLISHED \<and> qs_peerNode qc' = qc_ownNode peer"
  using init_loop[OF handle_active[OF assms(2)], of mem cfg now peer] by auto

text \<open>A rejection is queued on the very connection that it fails.\<close>

lemma rejection_fails_connection:
  "p \<noteq> [] \<Longrightarrow> hd p \<notin> {QMSG_SESS_INIT, QMSG_KEEPALIVE, QMSG_SESS_TERM, QMSG_MSG_REJECT} \<Longrightarrow>
     sig_loop mem cfg now p qc = (-1, p, snd (sendMsgReject mem (hd p) QMSG_REJECT_UNSUPPORTED qc))"
  by (simp add: sig_loop.simps[of mem cfg now p] sig_step_other)

end
