(* ===== verification/QuicDgram.thy ===== *)
theory QuicDgram
  imports QuicStream
begin

unbundle bit_operations_syntax
text \<open>
  The unreliable service of QUICCL (CLA/quic/src/quicsession.c): a bundle cut into XFER_SEGMENTs of one QUIC DATAGRAM each,
  the queue of datagrams that wait to be sent, and, at the other end, their reassembly.

  \<open>alloc\<close> gives the block that \<open>MTAKE\<close> returns, with whatever it holds.  What ngtcp2 and \<open>sendto\<close> answer for
  each datagram is an argument of \<open>writeDatagrams\<close>.

  The lemmas show that the reassembly keeps its buffers and its count of segments, that nothing of what a new block holds
  is ever handed over, that a bundle is handed over octet for octet when all its segments have arrived in any order
  that begins with the first, and what becomes of a bundle that is not queued as a whole.
\<close>

section \<open>Model: receiving\<close>

definition QUIC_DG_SEG :: nat where "QUIC_DG_SEG = 1024"
definition QMSG_SVC_UNRELIABLE :: u8 where "QMSG_SVC_UNRELIABLE = 2"

text \<open>A buffer is a list as long as its capacity.\<close>

record DgRx =
  dg_id :: u64
  dg_active :: bool
  dg_total :: nat
  dg_count :: nat
  dg_bundleLen :: nat
  dg_buf :: bytes
  dg_seen :: bytes

text \<open>A block large enough: the old one, or a new one of the capacity asked for.\<close>

definition grown :: "(nat \<Rightarrow> bytes option) \<Rightarrow> nat \<Rightarrow> nat \<Rightarrow> bytes \<Rightarrow> bytes option" where
  "grown alloc want newCap buf = (if want > length buf then alloc newCap else Some buf)"

definition dg_reset :: "(nat \<Rightarrow> bytes option) \<Rightarrow> QuicXferSegment \<Rightarrow> DgRx \<Rightarrow> bool \<times> DgRx" where
  "dg_reset alloc seg d =
     (let seenBytes = (unat (qxs_totalSegments seg) + 7) div 8; len = unat (qxs_bundleLength seg);
          old = dg_buf d; oldSeen = dg_seen d;
          d = d \<lparr> dg_id := qxs_transferId seg, dg_active := True, dg_total := unat (qxs_totalSegments seg),
                  dg_count := 0, dg_bundleLen := len \<rparr>
      in (case grown alloc len (cap_for (if old \<noteq> [] then length old else QUICCLA_BUFSZ) len) old of
            None \<Rightarrow> (False, d \<lparr> dg_active := False \<rparr>)
          | Some buf \<Rightarrow>
              (case grown alloc seenBytes seenBytes oldSeen of
                 None \<Rightarrow> (False, d \<lparr> dg_active := False, dg_buf := buf \<rparr>)
               | Some seen \<Rightarrow>
                   (True, d \<lparr> dg_buf := overwrite buf 0 (replicate len 0), dg_seen := overwrite seen 0 (replicate seenBytes 0) \<rparr>))))"

definition seen_bit :: "bytes \<Rightarrow> nat \<Rightarrow> bool" where
  "seen_bit seen i \<longleftrightarrow> seen ! (i div 8) AND push_bit (i mod 8) 1 \<noteq> 0"

definition dg_offset :: "QuicXferSegment \<Rightarrow> int" where
  "dg_offset seg =
     (if qxs_flags seg AND QMSG_FLAG_END \<noteq> 0 then int_cast (uint (qxs_bundleLength seg - qxs_segmentLength seg))
      else int_cast (uint (ucast (qxs_segmentId seg) * qxs_segmentLength seg)))"

text \<open>A datagram has at most \<open>QUIC_MAX_UDP\<close> = 1452 octets, so the sum of offset and length is within an \<open>int\<close>.
  The segment is put in its place and counted, and the bundle handed over when it was the last one missing.\<close>

definition dg_store :: "('s \<Rightarrow> bytes \<Rightarrow> int \<times> 's) \<Rightarrow> QuicXferSegment \<Rightarrow> bytes \<Rightarrow> DgRx \<Rightarrow> 's \<Rightarrow> int \<times> DgRx \<times> 's" where
  "dg_store cb seg segData d s =
     (let segId = unat (qxs_segmentId seg); segLen = unat (qxs_segmentLength seg); offset = dg_offset seg
      in if segId \<ge> dg_total d then (0, d, s)
         else if offset < 0 \<or> offset + int segLen > int (length (dg_buf d)) then (0, d, s)
         else
           (let d = d \<lparr> dg_buf := overwrite (dg_buf d) (nat offset) (take segLen segData) \<rparr>;
                d = (if seen_bit (dg_seen d) segId then d
                     else d \<lparr> dg_seen := (dg_seen d)[segId div 8 := dg_seen d ! (segId div 8) OR push_bit (segId mod 8) 1],
                              dg_count := dg_count d + 1 \<rparr>)
            in if dg_count d = dg_total d then
                 (let d = d \<lparr> dg_active := False \<rparr>; (rc, s) = cb s (take (dg_bundleLen d) (dg_buf d))
                  in (if rc < 0 then -1 else 0, d, s))
               else (0, d, s)))"

definition dgReassemble ::
  "(nat \<Rightarrow> bytes option) \<Rightarrow> ('s \<Rightarrow> bytes \<Rightarrow> int \<times> 's) \<Rightarrow> QuicXferSegment \<Rightarrow> bytes \<Rightarrow> DgRx \<Rightarrow> 's \<Rightarrow> int \<times> DgRx \<times> 's" where
  "dgReassemble alloc cb seg segData d s =
     (if unat (qxs_bundleLength seg) > QUICCLA_BUFSZ \<or> unat (qxs_segmentLength seg) > QUICCLA_BUFSZ \<or>
         qxs_totalSegments seg = 0 then (0, d, s)
      else if qxs_flags seg AND QMSG_FLAG_START \<noteq> 0 \<or> \<not> dg_active d \<or> qxs_transferId seg \<noteq> dg_id d then
        (let (ok, d) = dg_reset alloc seg d in if ok then dg_store cb seg segData d s else (0, d, s))
      else dg_store cb seg segData d s)"

definition recvDatagramCb ::
  "(nat \<Rightarrow> bytes option) \<Rightarrow> ('s \<Rightarrow> bytes \<Rightarrow> int \<times> 's) \<Rightarrow> bytes \<Rightarrow> DgRx \<Rightarrow> 's \<Rightarrow> int \<times> DgRx \<times> 's" where
  "recvDatagramCb alloc cb data d s =
     (case quicMsgDecodeXferSegmentHdr data (length data) of
        (hdr, None) \<Rightarrow> (0, d, s)
      | (hdr, Some seg) \<Rightarrow>
          if hdr \<le> 0 \<or> length data - nat hdr < unat (qxs_segmentLength seg) then (0, d, s)
          else dgReassemble alloc cb seg (drop (nat hdr) data) d s)"

text \<open>The datagrams of a connection until a callback fails.\<close>

fun recv_datagrams ::
  "(nat \<Rightarrow> bytes option) \<Rightarrow> ('s \<Rightarrow> bytes \<Rightarrow> int \<times> 's) \<Rightarrow> bytes list \<Rightarrow> DgRx \<Rightarrow> 's \<Rightarrow> int \<times> DgRx \<times> 's" where
  "recv_datagrams alloc cb [] d s = (0, d, s)"
| "recv_datagrams alloc cb (x # xs) d s =
     (let (rc, d, s) = recvDatagramCb alloc cb x d s in if rc < 0 then (-1, d, s) else recv_datagrams alloc cb xs d s)"

definition fresh_dg :: DgRx where
  "fresh_dg = \<lparr>dg_id = 0, dg_active = False, dg_total = 0, dg_count = 0, dg_bundleLen = 0, dg_buf = [], dg_seen = []\<rparr>"

section \<open>Model: sending\<close>

definition dg_segment :: "nat \<Rightarrow> nat \<Rightarrow> u64 \<Rightarrow> nat \<Rightarrow> nat \<Rightarrow> QuicXferSegment" where
  "dg_segment len nSeg txid i thisLen =
     \<lparr>qxs_flags = (if i = 0 then QMSG_FLAG_START else 0) OR (if Suc i = nSeg then QMSG_FLAG_END else 0),
      qxs_segmentId = word_of_nat i, qxs_totalSegments = word_of_nat nSeg, qxs_transferId = txid,
      qxs_xferExt = None, qxs_xferExtLen = 0, qxs_segmentLength = word_of_nat thisLen,
      qxs_bundleLength = word_of_nat len, qxs_serviceMode = QMSG_SVC_UNRELIABLE\<rparr>"

text \<open>The datagrams of a bundle, as far as there is memory: \<open>mem i\<close> says whether the node numbered \<open>i\<close> can be had.\<close>

fun dg_nodes :: "(nat \<Rightarrow> bool) \<Rightarrow> nat \<Rightarrow> nat \<Rightarrow> u64 \<Rightarrow> nat \<Rightarrow> bytes \<Rightarrow> nat \<Rightarrow> bytes list" where
  "dg_nodes mem len nSeg txid i src 0 = []"
| "dg_nodes mem len nSeg txid i src (Suc k) =
     (let thisLen = (if length src > QUIC_DG_SEG then QUIC_DG_SEG else length src)
      in if \<not> mem i then []
         else
           (let (hdr, out) = quicMsgEncodeXferSegmentHdr (replicate (40 + thisLen) 0) (40 + thisLen)
                               (dg_segment len nSeg txid i thisLen)
            in if hdr < 0 then []
               else (take (nat hdr) out @ take thisLen src) # dg_nodes mem len nSeg txid (Suc i) (drop thisLen src) k))"

definition dg_count_of :: "nat \<Rightarrow> nat" where
  "dg_count_of len = (let nSeg = (len + QUIC_DG_SEG - 1) div QUIC_DG_SEG in if nSeg < 1 then 1 else nSeg)"

text \<open>The queue of a connection, the number of datagrams it says are pending, and the next transfer identifier.\<close>

record DgTx =
  dq_queue :: "bytes list"
  dq_pending :: int
  dq_nextTxId :: u64

text \<open>\<open>quicClientSendDatagram\<close> up to the wait, which ends when \<open>dq_pending\<close> is no longer positive.\<close>

definition quicClientSendDatagram :: "(nat \<Rightarrow> bool) \<Rightarrow> bytes \<Rightarrow> DgTx \<Rightarrow> DgTx" where
  "quicClientSendDatagram mem bundle t =
     (let nSeg = dg_count_of (length bundle); txid = dq_nextTxId t
      in t \<lparr> dq_nextTxId := txid + 1,
             dq_queue := dq_queue t @ dg_nodes mem (length bundle) nSeg txid 0 bundle nSeg,
             dq_pending := dq_pending t + int nSeg \<rparr>)"

text \<open>What happens to the datagram at the head: ngtcp2's \<open>nwrite\<close> and \<open>accepted\<close>, and the result of \<open>sendto\<close>.\<close>

datatype Sendto = SendtoOk | SendtoAgain | SendtoFailed

record DgWrite =
  dw_nwrite :: int
  dw_accepted :: bool
  dw_sendto :: Sendto

text \<open>The result with the packets sent; the list of answers ends where ngtcp2 is not asked again.\<close>

fun writeDatagrams :: "DgWrite list \<Rightarrow> DgTx \<Rightarrow> int \<times> DgTx \<times> nat" where
  "writeDatagrams [] t = (0, t, 0)"
| "writeDatagrams (w # ws) t =
     (case dq_queue t of
        [] \<Rightarrow> (0, t, 0)
      | node # nodes \<Rightarrow>
          (let accepted = (dw_accepted w \<or> dw_nwrite w < 0); nwrite = (if dw_nwrite w < 0 then 0 else dw_nwrite w)
           in if nwrite > 0 \<and> dw_sendto w = SendtoAgain then (0, t, 0)
              else if nwrite > 0 \<and> dw_sendto w = SendtoFailed then (-1, t, 0)
              else
                (let sent = (if nwrite > 0 then 1 else 0)
                 in if accepted then
                      (let (rc, t, n) = writeDatagrams ws (t \<lparr> dq_queue := nodes, dq_pending := dq_pending t - 1 \<rparr>)
                       in (rc, t, n + sent))
                    else if nwrite = 0 then (0, t, sent)
                    else (let (rc, t, n) = writeDatagrams ws t in (rc, t, n + sent)))))"


section \<open>The bitmap of the segments\<close>

lemma seen_bit_bit: "seen_bit seen i \<longleftrightarrow> bit (seen ! (i div 8)) (i mod 8)"
  by (simp add: seen_bit_def push_bit_eq_mult and_exp_eq_0_iff_not_bit)

lemma seen_bit_update:
  assumes "i < 8 * length seen"
  shows "seen_bit (seen[i div 8 := seen ! (i div 8) OR push_bit (i mod 8) 1]) j \<longleftrightarrow> j = i \<or> seen_bit seen j"
proof -
  have i: "i div 8 < length seen" using assms by (simp add: less_mult_imp_div_less mult.commute)
  show ?thesis
  proof (cases "j div 8 = i div 8")
    case False
    then show ?thesis using i by (auto simp: seen_bit_bit)
  next
    case True
    have "bit (push_bit (i mod 8) 1 :: u8) (j mod 8) \<longleftrightarrow> j mod 8 = i mod 8"
      by (auto simp: push_bit_eq_mult bit_exp_iff)
    moreover have "j mod 8 = i mod 8 \<longleftrightarrow> j = i" using True by (metis div_mult_mod_eq)
    ultimately show ?thesis using i True by (auto simp: seen_bit_bit bit_or_iff)
  qed
qed

lemma seen_bit_zero: "i div 8 < m \<Longrightarrow> m \<le> length seen \<Longrightarrow> \<not> seen_bit (overwrite seen 0 (replicate m 0)) i"
  by (simp add: seen_bit_bit overwrite_def nth_append)

lemma seen_bit_take: "i div 8 < m \<Longrightarrow> seen_bit (take m seen) i = seen_bit seen i"
  by (simp add: seen_bit_def)

lemma bitmap_covers: "i < total \<Longrightarrow> i div 8 < (total + 7) div 8" for i total :: nat
  by (rule less_mult_imp_div_less) linarith

section \<open>The state of the reassembly\<close>

definition seen_segments :: "DgRx \<Rightarrow> nat set" where
  "seen_segments d = {i. i < dg_total d \<and> seen_bit (dg_seen d) i}"

definition dg_ok :: "DgRx \<Rightarrow> bool" where
  "dg_ok d \<longleftrightarrow> (dg_active d \<longrightarrow> dg_bundleLen d \<le> length (dg_buf d) \<and> dg_bundleLen d \<le> QUICCLA_BUFSZ \<and>
     (dg_total d + 7) div 8 \<le> length (dg_seen d) \<and> dg_count d = card (seen_segments d) \<and> dg_count d < dg_total d)"

lemma cap_for_ge: "0 < c \<Longrightarrow> want \<le> cap_for c want"
proof (induction c want rule: cap_for.induct)
  case (1 c want)
  show ?case by (subst cap_for.simps) (use 1 in auto)
qed

lemma grown_length:
  assumes "\<And>n b. alloc n = Some b \<Longrightarrow> length b = n" "grown alloc want newCap buf = Some b" "want \<le> newCap"
  shows "want \<le> length b"
  using assms by (auto simp: grown_def split: if_splits)

lemma dg_reset_cases:
  obtains d1 where "dg_reset alloc seg d = (False, d1)" "\<not> dg_active d1"
  | buf seen where
      "grown alloc (unat (qxs_bundleLength seg)) (cap_for (if dg_buf d \<noteq> [] then length (dg_buf d) else QUICCLA_BUFSZ)
         (unat (qxs_bundleLength seg))) (dg_buf d) = Some buf"
      "grown alloc ((unat (qxs_totalSegments seg) + 7) div 8) ((unat (qxs_totalSegments seg) + 7) div 8) (dg_seen d) = Some seen"
      "dg_reset alloc seg d = (True, d \<lparr> dg_id := qxs_transferId seg, dg_active := True,
         dg_total := unat (qxs_totalSegments seg), dg_count := 0, dg_bundleLen := unat (qxs_bundleLength seg),
         dg_buf := overwrite buf 0 (replicate (unat (qxs_bundleLength seg)) 0),
         dg_seen := overwrite seen 0 (replicate ((unat (qxs_totalSegments seg) + 7) div 8) 0) \<rparr>)"
proof -
  let ?g = "grown alloc (unat (qxs_bundleLength seg)) (cap_for (if dg_buf d \<noteq> [] then length (dg_buf d) else QUICCLA_BUFSZ)
         (unat (qxs_bundleLength seg))) (dg_buf d)"
  let ?h = "grown alloc ((unat (qxs_totalSegments seg) + 7) div 8) ((unat (qxs_totalSegments seg) + 7) div 8) (dg_seen d)"
  show thesis
  proof (cases ?g)
    case None
    then show ?thesis using that(1) by (simp add: dg_reset_def Let_def)
  next
    case buf: (Some buf)
    show ?thesis
    proof (cases ?h)
      case None
      then show ?thesis using that(1) buf by (simp add: dg_reset_def Let_def)
    next
      case (Some seen)
      then show ?thesis using that(2)[OF buf Some] buf by (simp add: dg_reset_def Let_def)
    qed
  qed
qed

lemma dg_reset_ok:
  assumes alloc: "\<And>n b. alloc n = Some b \<Longrightarrow> length b = n" and len: "unat (qxs_bundleLength seg) \<le> QUICCLA_BUFSZ"
    and total: "qxs_totalSegments seg \<noteq> 0" and r: "dg_reset alloc seg d = (ok, d')"
  shows "dg_ok d' \<and> dg_active d' = ok"
proof -
  let ?len = "unat (qxs_bundleLength seg)" and ?m = "(unat (qxs_totalSegments seg) + 7) div 8"
  let ?cap = "cap_for (if dg_buf d \<noteq> [] then length (dg_buf d) else QUICCLA_BUFSZ) ?len"
  have cap: "?len \<le> ?cap" by (rule cap_for_ge) (simp add: QUICCLA_BUFSZ_def)
  have "unat (qxs_totalSegments seg) \<noteq> 0" using total unsigned_eq_0_iff by blast
  then have t: "0 < unat (qxs_totalSegments seg)" by blast
  show ?thesis
  proof (cases rule: dg_reset_cases[of alloc seg d])
    case (1 d1)
    then show ?thesis using r by (simp add: dg_ok_def)
  next
    case (2 buf seen)
    have l: "?len \<le> length buf" "?m \<le> length seen"
      using grown_length[OF alloc 2(1) cap] grown_length[OF alloc 2(2) order_refl] by blast+
    have d': "ok" "d' = d \<lparr> dg_id := qxs_transferId seg, dg_active := True, dg_total := unat (qxs_totalSegments seg),
                dg_count := 0, dg_bundleLen := ?len, dg_buf := overwrite buf 0 (replicate ?len 0),
                dg_seen := overwrite seen 0 (replicate ?m 0) \<rparr>"
      using r 2(3) by simp_all
    have "seen_segments d' = {}"
      using seen_bit_zero[OF bitmap_covers l(2)] by (auto simp: seen_segments_def d'(2))
    then show ?thesis using d' l len t by (simp add: dg_ok_def)
  qed
qed

lemma card_less_seen: "card (seen_segments d) \<le> dg_total d"
proof -
  have "card (seen_segments d) \<le> card {i. i < dg_total d}"
    by (rule card_mono) (auto simp: seen_segments_def)
  then show ?thesis by simp
qed

text \<open>Counting a segment: the count is that of the bits set.\<close>

definition dg_mark :: "nat \<Rightarrow> DgRx \<Rightarrow> DgRx" where
  "dg_mark i d = (if seen_bit (dg_seen d) i then d
     else d \<lparr> dg_seen := (dg_seen d)[i div 8 := dg_seen d ! (i div 8) OR push_bit (i mod 8) 1], dg_count := dg_count d + 1 \<rparr>)"

lemma dg_mark_seen:
  assumes "i < dg_total d" "(dg_total d + 7) div 8 \<le> length (dg_seen d)"
  shows "seen_segments (dg_mark i d) = insert i (seen_segments d)"
    and "dg_count d = card (seen_segments d) \<Longrightarrow> dg_count (dg_mark i d) = card (seen_segments (dg_mark i d))"
    and "dg_total (dg_mark i d) = dg_total d" "dg_buf (dg_mark i d) = dg_buf d" "dg_bundleLen (dg_mark i d) = dg_bundleLen d"
      "length (dg_seen (dg_mark i d)) = length (dg_seen d)" "dg_active (dg_mark i d) = dg_active d" "dg_id (dg_mark i d) = dg_id d"
proof -
  have i: "i < 8 * length (dg_seen d)" using bitmap_covers[OF assms(1)] assms(2) by linarith
  have s: "\<not> seen_bit (dg_seen d) i \<Longrightarrow> seen_segments (dg_mark i d) = insert i (seen_segments d)"
    using assms(1) by (auto simp: seen_segments_def dg_mark_def seen_bit_update[OF i, simplified])
  show 1: "seen_segments (dg_mark i d) = insert i (seen_segments d)"
  proof (cases "seen_bit (dg_seen d) i")
    case True
    then have "i \<in> seen_segments d" using assms(1) by (simp add: seen_segments_def)
    then show ?thesis using True by (auto simp: dg_mark_def)
  qed (rule s)
  have f: "finite (seen_segments d)" by (simp add: seen_segments_def)
  show "dg_count (dg_mark i d) = card (seen_segments (dg_mark i d))" if "dg_count d = card (seen_segments d)"
  proof (cases "seen_bit (dg_seen d) i")
    case True
    then show ?thesis using that by (simp add: dg_mark_def)
  next
    case False
    then have "i \<notin> seen_segments d" by (simp add: seen_segments_def)
    then show ?thesis using False that f by (simp add: s) (simp add: dg_mark_def)
  qed
qed (simp_all add: dg_mark_def)

text \<open>What storing a segment does.\<close>

lemma dg_store_cases:
  obtains "dg_store cb seg x d s = (0, d, s)"
  | d1 d2 where "unat (qxs_segmentId seg) < dg_total d" "0 \<le> dg_offset seg"
      "dg_offset seg + int (unat (qxs_segmentLength seg)) \<le> int (length (dg_buf d))"
      "d1 = d \<lparr> dg_buf := overwrite (dg_buf d) (nat (dg_offset seg)) (take (unat (qxs_segmentLength seg)) x) \<rparr>"
      "d2 = dg_mark (unat (qxs_segmentId seg)) d1"
      "dg_store cb seg x d s = (if dg_count d2 = dg_total d2
         then (if fst (cb s (take (dg_bundleLen d2) (dg_buf d2))) < 0 then -1 else 0, d2 \<lparr> dg_active := False \<rparr>,
               snd (cb s (take (dg_bundleLen d2) (dg_buf d2))))
         else (0, d2, s))"
proof (cases "unat (qxs_segmentId seg) < dg_total d \<and> 0 \<le> dg_offset seg \<and>
    dg_offset seg + int (unat (qxs_segmentLength seg)) \<le> int (length (dg_buf d))")
  case True
  define d1 where "d1 = d \<lparr> dg_buf := overwrite (dg_buf d) (nat (dg_offset seg)) (take (unat (qxs_segmentLength seg)) x) \<rparr>"
  define d2 where "d2 = dg_mark (unat (qxs_segmentId seg)) d1"
  have g: "(unat (qxs_segmentId seg) \<ge> dg_total d) = False"
    "(dg_offset seg < 0 \<or> dg_offset seg + int (unat (qxs_segmentLength seg)) > int (length (dg_buf d))) = False"
    using True by auto
  have "dg_store cb seg x d s = (if dg_count d2 = dg_total d2
         then (if fst (cb s (take (dg_bundleLen d2) (dg_buf d2))) < 0 then -1 else 0, d2 \<lparr> dg_active := False \<rparr>,
               snd (cb s (take (dg_bundleLen d2) (dg_buf d2))))
         else (0, d2, s))"
    unfolding dg_store_def Let_def g if_False d1_def[symmetric] dg_mark_def[symmetric] d2_def[symmetric]
    by (simp split: prod.split)
  with True d1_def d2_def show ?thesis using that(2) by blast
next
  case False
  have "dg_store cb seg x d s = (0, d, s)"
  proof (cases "unat (qxs_segmentId seg) \<ge> dg_total d")
    case True
    then show ?thesis unfolding dg_store_def Let_def by (rule if_P)
  next
    case 1: False
    then have "dg_offset seg < 0 \<or> dg_offset seg + int (unat (qxs_segmentLength seg)) > int (length (dg_buf d))"
      using False by linarith
    then show ?thesis unfolding dg_store_def Let_def if_not_P[OF 1] by (rule if_P)
  qed
  then show ?thesis by (rule that(1))
qed

lemma dg_store_ok:
  assumes "dg_ok d" "dg_active d" "unat (qxs_segmentLength seg) \<le> length x" "dg_store cb seg x d s = (rc, d', s')"
  shows "dg_ok d'"
proof (cases rule: dg_store_cases[of cb seg x d s])
  case 1
  then show ?thesis using assms by simp
next
  case (2 d1 d2)
  have o: "dg_bundleLen d \<le> length (dg_buf d)" "dg_bundleLen d \<le> QUICCLA_BUFSZ" "(dg_total d + 7) div 8 \<le> length (dg_seen d)"
    "dg_count d = card (seen_segments d)" "dg_count d < dg_total d" using assms(1,2) by (simp_all add: dg_ok_def)
  have "int (nat (dg_offset seg)) = dg_offset seg" using 2(2) by simp
  then have "nat (dg_offset seg) + length (take (unat (qxs_segmentLength seg)) x) \<le> length (dg_buf d)"
    using 2(3) assms(3) unfolding length_take min_absorb2[OF assms(3)] by linarith
  then have l: "length (dg_buf d1) = length (dg_buf d)" using 2(4) by simp
  have d1: "unat (qxs_segmentId seg) < dg_total d1" "(dg_total d1 + 7) div 8 \<le> length (dg_seen d1)"
    "dg_count d1 = card (seen_segments d1)"
    using 2(1,4) o by (simp_all add: seen_segments_def)
  note m = dg_mark_seen[OF d1(1,2), folded 2(5)]
  have "dg_count d2 \<le> dg_total d2" using m(2)[OF d1(3)] card_less_seen[of d2] by simp
  then show ?thesis using assms(4) 2(4,6) m o l d1 by (auto simp: dg_ok_def split: if_splits)
qed

lemma dgReassemble_ok:
  assumes alloc: "\<And>n b. alloc n = Some b \<Longrightarrow> length b = n" and d: "dg_ok d"
    and x: "unat (qxs_segmentLength seg) \<le> length x" and r: "dgReassemble alloc cb seg x d s = (rc, d', s')"
  shows "dg_ok d'"
proof (cases "unat (qxs_bundleLength seg) > QUICCLA_BUFSZ \<or> unat (qxs_segmentLength seg) > QUICCLA_BUFSZ \<or>
         qxs_totalSegments seg = 0")
  case True
  then show ?thesis using r d by (auto simp: dgReassemble_def)
next
  case drop: False
  show ?thesis
  proof (cases "qxs_flags seg AND QMSG_FLAG_START \<noteq> 0 \<or> \<not> dg_active d \<or> qxs_transferId seg \<noteq> dg_id d")
    case True
    obtain ok d1 where d1: "dg_reset alloc seg d = (ok, d1)" by fastforce
    have o: "dg_ok d1" "dg_active d1 = ok" using dg_reset_ok[OF alloc _ _ d1] drop by auto
    have "dgReassemble alloc cb seg x d s = (if ok then dg_store cb seg x d1 s else (0, d1, s))"
      unfolding dgReassemble_def if_not_P[OF drop] if_P[OF True] d1 Let_def by simp
    then show ?thesis using r o dg_store_ok[OF o(1) _ x, of cb s rc d' s'] by (cases ok) simp_all
  next
    case False
    then have "dgReassemble alloc cb seg x d s = dg_store cb seg x d s"
      unfolding dgReassemble_def if_not_P[OF drop] by simp
    then show ?thesis using r dg_store_ok[OF d _ x, of cb s rc d' s'] False by simp
  qed
qed

text \<open>A datagram that is looked at.\<close>

lemma recvDatagramCb_cases:
  obtains "recvDatagramCb alloc cb x d s = (0, d, s)"
  | k seg where "quicMsgDecodeXferSegmentHdr x (length x) = (k, Some seg)"
      "unat (qxs_segmentLength seg) \<le> length (drop (nat k) x)"
      "recvDatagramCb alloc cb x d s = dgReassemble alloc cb seg (drop (nat k) x) d s"
proof -
  obtain k m where d: "quicMsgDecodeXferSegmentHdr x (length x) = (k, m)" by fastforce
  then show thesis
  proof (cases m)
    case None
    then show ?thesis using d that(1) by (simp add: recvDatagramCb_def)
  next
    case (Some seg)
    show ?thesis
    proof (cases "k \<le> 0 \<or> length x - nat k < unat (qxs_segmentLength seg)")
      case True
      then show ?thesis using d Some that(1) by (simp add: recvDatagramCb_def)
    next
      case False
      then have "recvDatagramCb alloc cb x d s = dgReassemble alloc cb seg (drop (nat k) x) d s"
        using d Some by (simp add: recvDatagramCb_def)
      then show ?thesis using that(2)[of k seg] d Some False by simp
    qed
  qed
qed

lemma recv_datagrams_ok:
  assumes alloc: "\<And>n b. alloc n = Some b \<Longrightarrow> length b = n"
  shows "dg_ok d \<Longrightarrow> recv_datagrams alloc cb xs d s = (rc, d', s') \<Longrightarrow> dg_ok d'"
proof (induction xs arbitrary: d s)
  case (Cons x xs)
  obtain rc1 d1 s1 where r: "recvDatagramCb alloc cb x d s = (rc1, d1, s1)" by (metis prod_cases3)
  have "dg_ok d1"
  proof (cases rule: recvDatagramCb_cases[of alloc cb x d s])
    case 1
    then show ?thesis using r Cons.prems(1) by simp
  next
    case (2 k seg)
    then show ?thesis
      using dgReassemble_ok[where alloc = alloc, OF alloc Cons.prems(1) 2(2), of cb s rc1 d1 s1] r by simp
  qed
  then show ?case using Cons r by (auto split: if_splits)
qed simp


section \<open>Nothing of a new block shows\<close>

text \<open>Two states that differ only in octets that have not been written since the transfer began.\<close>

definition dg_same :: "DgRx \<Rightarrow> DgRx \<Rightarrow> bool" where
  "dg_same d e \<longleftrightarrow> dg_id d = dg_id e \<and> dg_active d = dg_active e \<and> dg_total d = dg_total e \<and> dg_count d = dg_count e \<and>
     dg_bundleLen d = dg_bundleLen e \<and> length (dg_buf d) = length (dg_buf e) \<and> length (dg_seen d) = length (dg_seen e) \<and>
     (dg_active d \<longrightarrow> take (dg_bundleLen d) (dg_buf d) = take (dg_bundleLen d) (dg_buf e) \<and>
        take ((dg_total d + 7) div 8) (dg_seen d) = take ((dg_total d + 7) div 8) (dg_seen e))"

text \<open>Two allocators that give blocks of the same sizes.\<close>

definition same_blocks :: "(nat \<Rightarrow> bytes option) \<Rightarrow> (nat \<Rightarrow> bytes option) \<Rightarrow> bool" where
  "same_blocks alloc alloc' \<longleftrightarrow> (\<forall>n. map_option length (alloc n) = map_option length (alloc' n))"

lemma map_length_Some: "map_option length x = Some n \<Longrightarrow> \<exists>b. x = Some b \<and> n = length b"
  by auto

lemma grown_same:
  "same_blocks alloc alloc' \<Longrightarrow> length b = length b' \<Longrightarrow>
     map_option length (grown alloc want newCap b) = map_option length (grown alloc' want newCap b')"
  by (simp add: grown_def same_blocks_def)

lemma take_overwrite_cong:
  assumes "take n a = take n b" "length a = length b"
  shows "take n (overwrite a i bs) = take n (overwrite b i bs)"
proof -
  have 1: "take n (take i a) = take n (take i b)" using assms(1) by (metis take_take min.commute)
  have 2: "take (n - (i + length bs)) (drop (i + length bs) a) = take (n - (i + length bs)) (drop (i + length bs) b)"
  proof (cases "i + length bs \<le> n")
    case True
    then show ?thesis using assms(1) by (simp add: take_drop)
  qed simp
  have l: "length (take i a) = length (take i b)" using assms(2) by simp
  show ?thesis unfolding overwrite_def take_append using 1 2 l
    by (cases "i \<le> length b") (simp_all add: assms(2) diff_diff_left)
qed

lemma length_overwrite_same: "length a = length b \<Longrightarrow> length (overwrite a i bs) = length (overwrite b i bs)"
  by (simp add: overwrite_def)

lemma dg_reset_same:
  assumes "same_blocks alloc alloc'" "dg_same d e"
  shows "\<exists>ok d' e'. dg_reset alloc seg d = (ok, d') \<and> dg_reset alloc' seg e = (ok, e') \<and> dg_same d' e'"
proof -
  let ?len = "unat (qxs_bundleLength seg)" and ?m = "(unat (qxs_totalSegments seg) + 7) div 8"
  let ?c = "\<lambda>d. cap_for (if dg_buf d \<noteq> [] then length (dg_buf d) else QUICCLA_BUFSZ) ?len"
  have l: "length (dg_buf d) = length (dg_buf e)" "length (dg_seen d) = length (dg_seen e)"
    using assms(2) by (simp_all add: dg_same_def)
  then have c: "?c d = ?c e" by (cases "dg_buf d"; cases "dg_buf e") simp_all
  have g: "map_option length (grown alloc ?len (?c d) (dg_buf d)) = map_option length (grown alloc' ?len (?c e) (dg_buf e))"
    unfolding c by (rule grown_same[OF assms(1) l(1)])
  have h: "map_option length (grown alloc ?m ?m (dg_seen d)) = map_option length (grown alloc' ?m ?m (dg_seen e))"
    by (rule grown_same[OF assms(1) l(2)])
  show ?thesis
  proof (cases "grown alloc ?len (?c d) (dg_buf d)")
    case None
    with g have "grown alloc' ?len (?c e) (dg_buf e) = None" by simp
    with None show ?thesis using l by (simp add: dg_reset_def Let_def dg_same_def) (rule exI[of _ False], simp)
  next
    case buf: (Some buf)
    with g have "map_option length (grown alloc' ?len (?c e) (dg_buf e)) = Some (length buf)" by simp
    from map_length_Some[OF this] obtain buf' where buf': "grown alloc' ?len (?c e) (dg_buf e) = Some buf'" "length buf = length buf'" by blast
    show ?thesis
    proof (cases "grown alloc ?m ?m (dg_seen d)")
      case None
      with h have "grown alloc' ?m ?m (dg_seen e) = None" by simp
      with None buf buf' show ?thesis using l by (simp add: dg_reset_def Let_def dg_same_def) (rule exI[of _ False], simp)
    next
      case (Some seen)
      with h have "map_option length (grown alloc' ?m ?m (dg_seen e)) = Some (length seen)" by simp
      from map_length_Some[OF this] obtain seen' where "grown alloc' ?m ?m (dg_seen e) = Some seen'" "length seen = length seen'" by blast
      then show ?thesis
        using Some buf buf' take_overwrite_0[of "replicate ?len (0 :: u8)"] take_overwrite_0[of "replicate ?m (0 :: u8)"]
        by (simp add: dg_reset_def Let_def dg_same_def length_overwrite_same[of buf buf'] length_overwrite_same[of seen seen'])
          (rule exI[of _ True], simp)
    qed
  qed
qed

lemma dg_mark_same:
  assumes "dg_same d e" "dg_active d" "i < dg_total d"
  shows "dg_same (dg_mark i d) (dg_mark i e)"
proof -
  let ?m = "(dg_total d + 7) div 8"
  have i: "i div 8 < ?m" by (rule bitmap_covers[OF assms(3)])
  have t: "take ?m (dg_seen d) = take ?m (dg_seen e)"
    using assms(1,2) unfolding dg_same_def by blast
  then have n: "dg_seen d ! (i div 8) = dg_seen e ! (i div 8)" using i by (metis nth_take)
  then have b: "seen_bit (dg_seen d) i = seen_bit (dg_seen e) i" by (simp add: seen_bit_def)
  show ?thesis using assms(1,2) t n b by (auto simp: dg_mark_def dg_same_def take_update_swap)
qed

lemma dg_store_same:
  assumes "dg_same d e" "dg_active d"
  shows "\<exists>rc d' e' s'. dg_store cb seg x d s = (rc, d', s') \<and> dg_store cb seg x e s = (rc, e', s') \<and> dg_same d' e'"
proof -
  define i where "i = unat (qxs_segmentId seg)"
  let ?skip = "i \<ge> dg_total d" and ?out = "dg_offset seg < 0 \<or> dg_offset seg + int (unat (qxs_segmentLength seg)) > int (length (dg_buf d))"
  have l: "dg_total d = dg_total e" "length (dg_buf d) = length (dg_buf e)" using assms(1) by (simp_all add: dg_same_def)
  let ?put = "\<lambda>d. d \<lparr> dg_buf := overwrite (dg_buf d) (nat (dg_offset seg)) (take (unat (qxs_segmentLength seg)) x) \<rparr>"
  let ?run = "\<lambda>d2. if dg_count d2 = dg_total d2
         then (if fst (cb s (take (dg_bundleLen d2) (dg_buf d2))) < 0 then -1 else 0, d2 \<lparr> dg_active := False \<rparr>,
               snd (cb s (take (dg_bundleLen d2) (dg_buf d2))))
         else (0, d2, s)"
  have run: "dg_store cb seg x d s = ?run (dg_mark i (?put d))"
    if "\<not> i \<ge> dg_total d" "\<not> (dg_offset seg < 0 \<or> dg_offset seg + int (unat (qxs_segmentLength seg)) > int (length (dg_buf d)))" for d
    unfolding dg_store_def Let_def i_def[symmetric] if_not_P[OF that(1)] if_not_P[OF that(2)] dg_mark_def[symmetric]
    by (simp split: prod.split)
  consider ?skip | "\<not> ?skip" ?out | "\<not> ?skip" "\<not> ?out" by blast
  then show ?thesis
  proof cases
    case 1
    have 2: "i \<ge> dg_total e" using 1 l by simp
    have "dg_store cb seg x d s = (0, d, s)" "dg_store cb seg x e s = (0, e, s)"
      unfolding dg_store_def Let_def i_def[symmetric] if_P[OF 1] if_P[OF 2] by (rule refl)+
    then show ?thesis using assms(1) by blast
  next
    case 2
    have e: "\<not> i \<ge> dg_total e" "dg_offset seg < 0 \<or> dg_offset seg + int (unat (qxs_segmentLength seg)) > int (length (dg_buf e))"
      using 2 l by simp_all
    have "dg_store cb seg x d s = (0, d, s)" "dg_store cb seg x e s = (0, e, s)"
      unfolding dg_store_def Let_def i_def[symmetric] if_not_P[OF 2(1)] if_P[OF 2(2)] if_not_P[OF e(1)] if_P[OF e(2)]
      by (rule refl)+
    then show ?thesis using assms(1) by blast
  next
    case 3
    have d: "dg_store cb seg x d s = ?run (dg_mark i (?put d))" by (rule run[OF 3])
    have e: "dg_store cb seg x e s = ?run (dg_mark i (?put e))" using 3 l by (intro run) simp_all
    have "take (dg_bundleLen d) (dg_buf d) = take (dg_bundleLen d) (dg_buf e)"
      using assms unfolding dg_same_def by blast
    note t = take_overwrite_cong[OF this l(2), of "nat (dg_offset seg)" "take (unat (qxs_segmentLength seg)) x"]
    have "dg_same (?put d) (?put e)"
      using assms(1) t length_overwrite_same[OF l(2), of "nat (dg_offset seg)" "take (unat (qxs_segmentLength seg)) x"]
      by (clarsimp simp: dg_same_def)
    then have m: "dg_same (dg_mark i (?put d)) (dg_mark i (?put e))"
      using assms(2) 3(1) by (intro dg_mark_same) simp_all
    have a: "dg_active (dg_mark i (?put d))" using assms(2) by (simp add: dg_mark_def)
    define d2 where "d2 = dg_mark i (?put d)"
    define e2 where "e2 = dg_mark i (?put e)"
    have same: "dg_same d2 e2" "dg_active d2" using m a by (simp_all add: d2_def e2_def)
    then have s: "dg_count d2 = dg_count e2" "dg_total d2 = dg_total e2" "dg_bundleLen d2 = dg_bundleLen e2"
      "take (dg_bundleLen e2) (dg_buf d2) = take (dg_bundleLen e2) (dg_buf e2)"
      unfolding dg_same_def by auto
    have "dg_same (d2 \<lparr> dg_active := False \<rparr>) (e2 \<lparr> dg_active := False \<rparr>)" "dg_same d2 e2"
      using same by (auto simp: dg_same_def)
    then show ?thesis unfolding d e d2_def[symmetric] e2_def[symmetric] s by auto
  qed
qed

lemma dgReassemble_same:
  assumes "same_blocks alloc alloc'" "dg_same d e"
  shows "\<exists>rc d' e' s'. dgReassemble alloc cb seg x d s = (rc, d', s') \<and> dgReassemble alloc' cb seg x e s = (rc, e', s') \<and> dg_same d' e'"
proof -
  let ?drop = "unat (qxs_bundleLength seg) > QUICCLA_BUFSZ \<or> unat (qxs_segmentLength seg) > QUICCLA_BUFSZ \<or>
         qxs_totalSegments seg = 0"
  let ?new = "\<lambda>d. qxs_flags seg AND QMSG_FLAG_START \<noteq> 0 \<or> \<not> dg_active d \<or> qxs_transferId seg \<noteq> dg_id d"
  have n: "?new d = ?new e" using assms(2) by (auto simp: dg_same_def)
  consider ?drop | "\<not> ?drop" "?new d" | "\<not> ?drop" "\<not> ?new d" by blast
  then show ?thesis
  proof cases
    case 1
    then show ?thesis using assms(2) by (auto simp: dgReassemble_def)
  next
    case 2
    obtain ok d' e' where r: "dg_reset alloc seg d = (ok, d')" "dg_reset alloc' seg e = (ok, e')" "dg_same d' e'"
      using dg_reset_same[OF assms] by blast
    have "?new e" using 2(2) n by blast
    then have "dgReassemble alloc cb seg x d s = (if ok then dg_store cb seg x d' s else (0, d', s))"
      "dgReassemble alloc' cb seg x e s = (if ok then dg_store cb seg x e' s else (0, e', s))"
      unfolding dgReassemble_def if_not_P[OF 2(1)] if_P[OF 2(2)] if_P[OF \<open>?new e\<close>] r Let_def by simp_all
    moreover have "ok \<Longrightarrow> dg_active d'"
      by (cases rule: dg_reset_cases[of alloc seg d]) (use r(1) in simp_all)
    ultimately show ?thesis using r(3) dg_store_same[OF r(3)] by (cases ok) auto
  next
    case 3
    then have a: "dg_active d" by blast
    have "\<not> ?new e" using 3(2) n by blast
    then have "dgReassemble alloc cb seg x d s = dg_store cb seg x d s" "dgReassemble alloc' cb seg x e s = dg_store cb seg x e s"
      unfolding dgReassemble_def if_not_P[OF 3(1)] if_not_P[OF 3(2)] if_not_P[OF \<open>\<not> ?new e\<close>] by simp_all
    then show ?thesis using dg_store_same[OF assms(2) a] by simp
  qed
qed

lemma recv_datagrams_same:
  assumes "same_blocks alloc alloc'"
  shows "dg_same d e \<Longrightarrow> \<exists>rc d' e' s'. recv_datagrams alloc cb xs d s = (rc, d', s') \<and>
    recv_datagrams alloc' cb xs e s = (rc, e', s') \<and> dg_same d' e'"
proof (induction xs arbitrary: d e s)
  case (Cons x xs)
  obtain k m where dec: "quicMsgDecodeXferSegmentHdr x (length x) = (k, m)" by fastforce
  have "\<exists>rc d' e' s'. recvDatagramCb alloc cb x d s = (rc, d', s') \<and> recvDatagramCb alloc' cb x e s = (rc, e', s') \<and> dg_same d' e'"
  proof (cases m)
    case None
    then show ?thesis using dec Cons.prems by (simp add: recvDatagramCb_def)
  next
    case (Some seg)
    show ?thesis
    proof (cases "k \<le> 0 \<or> length x - nat k < unat (qxs_segmentLength seg)")
      case True
      then show ?thesis using dec Some Cons.prems by (simp add: recvDatagramCb_def)
    next
      case False
      then have "recvDatagramCb alloc cb x d s = dgReassemble alloc cb seg (drop (nat k) x) d s"
        "recvDatagramCb alloc' cb x e s = dgReassemble alloc' cb seg (drop (nat k) x) e s"
        using dec Some by (simp_all add: recvDatagramCb_def)
      then show ?thesis using dgReassemble_same[OF assms Cons.prems] by simp
    qed
  qed
  then obtain rc d1 e1 s1 where r: "recvDatagramCb alloc cb x d s = (rc, d1, s1)" "recvDatagramCb alloc' cb x e s = (rc, e1, s1)"
    "dg_same d1 e1" by blast
  then show ?case using Cons.IH[OF r(3)] by simp
qed simp


section \<open>A bundle and its datagrams\<close>

lemma uint_small_u64: "n < 2 ^ 64 \<Longrightarrow> uint (word_of_nat n :: u64) = int n"
  by (simp add: unsigned_of_nat take_bit_nat_eq_self)

text \<open>The octets of the segment numbered \<open>i\<close>.\<close>

definition dg_piece :: "bytes \<Rightarrow> nat \<Rightarrow> bytes" where
  "dg_piece b i = take QUIC_DG_SEG (drop (QUIC_DG_SEG * i) b)"

definition dg_sent :: "nat \<Rightarrow> nat \<Rightarrow> u64 \<Rightarrow> nat \<Rightarrow> nat \<Rightarrow> QuicXferSegment" where
  "dg_sent len n txid i m = as_decoded (dg_segment len n txid i m)"

definition dg_frame :: "bytes \<Rightarrow> u64 \<Rightarrow> nat \<Rightarrow> bytes" where
  "dg_frame b txid i = wire_quic_xfer_segment
     (dg_sent (length b) (dg_count_of (length b)) txid i (length (dg_piece b i))) @ dg_piece b i"

lemma dg_segment_flags:
  "qxs_flags (dg_segment len n txid i m) AND QMSG_FLAG_START \<noteq> 0 \<longleftrightarrow> i = 0"
  "qxs_flags (dg_segment len n txid i m) AND QMSG_FLAG_END \<noteq> 0 \<longleftrightarrow> Suc i = n"
  by (simp_all add: dg_segment_def QMSG_FLAG_START_def QMSG_FLAG_END_def)

lemma dg_sent_flags:
  "qxs_flags (dg_sent len n txid i m) AND QMSG_FLAG_START \<noteq> 0 \<longleftrightarrow> i = 0"
  "qxs_flags (dg_sent len n txid i m) AND QMSG_FLAG_END \<noteq> 0 \<longleftrightarrow> Suc i = n"
  using dg_segment_flags[of len n txid i m] by (simp_all add: dg_sent_def as_decoded_def)

lemma dg_sent_simps:
  "qxs_segmentLength (dg_sent len n txid i m) = word_of_nat m" "qxs_bundleLength (dg_sent len n txid i m) = word_of_nat len"
  "qxs_transferId (dg_sent len n txid i m) = txid" "qxs_segmentId (dg_sent len n txid i m) = word_of_nat i"
  "qxs_totalSegments (dg_sent len n txid i m) = word_of_nat n"
  by (simp_all add: dg_sent_def as_decoded_def dg_segment_def)

lemma valid_dg_sent: "valid_quic_xfer_segment (dg_sent len n txid i m)"
  by (simp add: valid_quic_xfer_segment_def dg_sent_def as_decoded_def dg_segment_def)

lemma length_dg_sent: "length (wire_quic_xfer_segment (dg_sent len n txid i m)) \<le> 35"
  "0 < length (wire_quic_xfer_segment (dg_sent len n txid i m))"
  by (simp_all add: wire_quic_xfer_segment_def dg_sent_def as_decoded_def)

lemma dg_piece_length: "length (dg_piece b i) = min QUIC_DG_SEG (length b - QUIC_DG_SEG * i)"
  by (simp add: dg_piece_def)

lemma dg_nodes_frames:
  assumes n: "n = dg_count_of (length b)" and small: "length b < 2 ^ 31"
  shows "src = drop (QUIC_DG_SEG * i) b \<Longrightarrow> dg_nodes (\<lambda>_. True) (length b) n txid i src k = map (dg_frame b txid) [i..<i + k]"
proof (induction k arbitrary: i src)
  case (Suc k)
  let ?t = "if length src > QUIC_DG_SEG then QUIC_DG_SEG else length src"
  have t: "?t = length (dg_piece b i)" "take ?t src = dg_piece b i" using Suc.prems by (auto simp: dg_piece_def)
  let ?cap = "40 + length (dg_piece b i)"
  let ?w = "wire_quic_xfer_segment (dg_sent (length b) n txid i (length (dg_piece b i)))"
  obtain hdr out where e: "quicMsgEncodeXferSegmentHdr (replicate ?cap 0) ?cap (dg_segment (length b) n txid i (length (dg_piece b i))) =
      (hdr, out)" by fastforce
  then have e': "quicMsgEncodeXferSegmentHdr (replicate ?cap 0) ?cap (dg_sent (length b) n txid i (length (dg_piece b i))) = (hdr, out)"
    using encode_as_decoded[of "dg_segment (length b) n txid i (length (dg_piece b i))"] by (simp add: dg_sent_def dg_segment_def)
  have l: "length ?w \<le> ?cap" "?cap \<le> length (replicate ?cap (0 :: u8))" "?cap < 2 ^ 31"
    using length_dg_sent(1)[of "length b" n txid i "length (dg_piece b i)"] dg_piece_length[of b i]
    by (simp_all add: QUIC_DG_SEG_def)
  have h: "hdr = int (length ?w)" "take (nat hdr) out = ?w"
    using quic_xfer_segment.dec_enc[OF valid_dg_sent l e'] by blast+
  have d: "drop ?t src = drop (QUIC_DG_SEG * Suc i) b"
    using Suc.prems by (auto simp: add.commute)
  have "dg_nodes (\<lambda>_. True) (length b) n txid i src (Suc k) =
      (?w @ dg_piece b i) # dg_nodes (\<lambda>_. True) (length b) n txid (Suc i) (drop ?t src) k"
    using t e h by (simp add: Let_def del: if_split)
  also have "dg_nodes (\<lambda>_. True) (length b) n txid (Suc i) (drop ?t src) k = map (dg_frame b txid) [Suc i..<Suc i + k]"
    by (rule Suc.IH[OF d])
  finally show ?case using n by (simp add: upt_rec[of i] dg_frame_def)
qed simp

lemma dg_count_bounds:
  assumes "length b \<le> QUICCLA_BUFSZ" "n = dg_count_of (length b)"
  shows "0 < n" "n \<le> 256" "length b \<le> QUIC_DG_SEG * n" "\<And>k. k < length b \<Longrightarrow> k div QUIC_DG_SEG < n"
    "\<And>i. Suc i < n \<Longrightarrow> QUIC_DG_SEG * Suc i \<le> length b"
proof -
  have n: "n = (if length b = 0 then 1 else (length b + 1023) div 1024)"
  proof (cases "length b = 0")
    case True
    then show ?thesis using assms(2) by (simp add: dg_count_of_def QUIC_DG_SEG_def)
  next
    case False
    then have "(length b + 1024 - 1) div 1024 = (length b + 1023) div 1024" "0 < (length b + 1023) div 1024"
      by (simp_all add: div_greater_zero_iff Suc_le_eq)
    then show ?thesis using False assms(2) by (simp add: dg_count_of_def QUIC_DG_SEG_def Let_def del: One_nat_def)
  qed
  have l: "length b \<le> 262144" using assms(1) by (simp add: QUICCLA_BUFSZ_def)
  show "0 < n" "n \<le> 256" "length b \<le> QUIC_DG_SEG * n" using n l by (auto simp: QUIC_DG_SEG_def div_greater_zero_iff Suc_le_eq)
  show "k div QUIC_DG_SEG < n" if "k < length b" for k using n that by (auto simp: QUIC_DG_SEG_def)
  show "QUIC_DG_SEG * Suc i \<le> length b" if "Suc i < n" for i using n that by (auto simp: QUIC_DG_SEG_def split: if_splits)
qed

text \<open>Where the segment numbered \<open>i\<close> goes.\<close>

lemma dg_offset_sent:
  assumes "length b \<le> QUICCLA_BUFSZ" "n = dg_count_of (length b)" "i < n"
  shows "dg_offset (dg_sent (length b) n txid i (length (dg_piece b i))) = int (QUIC_DG_SEG * i)"
    and "QUIC_DG_SEG * i + length (dg_piece b i) \<le> length b"
proof -
  note c = dg_count_bounds[OF assms(1,2)]
  have l: "length b \<le> 262144" using assms(1) by (simp add: QUICCLA_BUFSZ_def)
  have i: "i < 256" using c(2) assms(3) by simp
  have last: "length b = QUIC_DG_SEG * i + length (dg_piece b i)" if "Suc i = n"
    using c(3) c(5)[of "i - 1"] that dg_piece_length[of b i] by (cases i) auto
  have inner: "length (dg_piece b i) = QUIC_DG_SEG" "QUIC_DG_SEG * Suc i \<le> length b" if "Suc i \<noteq> n"
    using c(5)[of i] that assms(3) dg_piece_length[of b i] by auto
  show 2: "QUIC_DG_SEG * i + length (dg_piece b i) \<le> length b"
    using last inner by (cases "Suc i = n") auto
  show "dg_offset (dg_sent (length b) n txid i (length (dg_piece b i))) = int (QUIC_DG_SEG * i)"
  proof (cases "Suc i = n")
    case True
    have "(word_of_nat (length b) :: u64) - word_of_nat (length (dg_piece b i)) = word_of_nat (QUIC_DG_SEG * i)"
      using arg_cong[OF last[OF True], of "word_of_nat :: nat \<Rightarrow> u64"] unfolding of_nat_add by (rule diff_eq_eq[THEN iffD2])
    moreover have "uint (word_of_nat (QUIC_DG_SEG * i) :: u64) = int (QUIC_DG_SEG * i)"
      using i by (intro uint_small_u64) (simp add: QUIC_DG_SEG_def)
    ultimately show ?thesis using True i
      by (simp add: dg_offset_def dg_sent_flags dg_sent_simps int_cast_small QUIC_DG_SEG_def)
  next
    case False
    have "(ucast (word_of_nat i :: u16) :: u64) = word_of_nat i"
      using i by (simp add: unsigned_of_nat take_bit_nat_eq_self)
    then have "(ucast (word_of_nat i :: u16) :: u64) * word_of_nat (length (dg_piece b i)) = word_of_nat (QUIC_DG_SEG * i)"
      using inner(1)[OF False] by (simp add: mult.commute)
    moreover have "uint (word_of_nat (QUIC_DG_SEG * i) :: u64) = int (QUIC_DG_SEG * i)"
      using i by (intro uint_small_u64) (simp add: QUIC_DG_SEG_def)
    ultimately show ?thesis using False i
      by (simp add: dg_offset_def dg_sent_flags dg_sent_simps int_cast_small QUIC_DG_SEG_def)
  qed
qed


section \<open>Collecting the segments\<close>

text \<open>The transfer of \<open>b\<close> of which the segments numbered in \<open>S\<close> have arrived.\<close>

definition dg_part :: "bytes \<Rightarrow> u64 \<Rightarrow> nat set \<Rightarrow> DgRx \<Rightarrow> bool" where
  "dg_part b txid S d \<longleftrightarrow> dg_active d \<and> dg_id d = txid \<and> dg_total d = dg_count_of (length b) \<and>
     dg_bundleLen d = length b \<and> length b \<le> length (dg_buf d) \<and> (dg_total d + 7) div 8 \<le> length (dg_seen d) \<and>
     seen_segments d = S \<and> dg_count d = card S \<and>
     (\<forall>k < length b. k div QUIC_DG_SEG \<in> S \<longrightarrow> dg_buf d ! k = b ! k)"

lemma nth_overwrite:
  "i + length bs \<le> length buf \<Longrightarrow> k < length buf \<Longrightarrow>
     overwrite buf i bs ! k = (if i \<le> k \<and> k < i + length bs then bs ! (k - i) else buf ! k)"
  by (auto simp: overwrite_def nth_append min_def add.commute)

lemma piece_nth:
  assumes "k < length b"
  shows "k div QUIC_DG_SEG = i \<longleftrightarrow> QUIC_DG_SEG * i \<le> k \<and> k < QUIC_DG_SEG * i + length (dg_piece b i)"
    and "k div QUIC_DG_SEG = i \<Longrightarrow> dg_piece b i ! (k - QUIC_DG_SEG * i) = b ! k"
proof -
  have p: "0 < QUIC_DG_SEG" by (simp add: QUIC_DG_SEG_def)
  have "k div QUIC_DG_SEG = i \<longleftrightarrow> QUIC_DG_SEG * i \<le> k \<and> k < QUIC_DG_SEG * Suc i"
    using p by (metis div_nat_eqI dividend_less_times_div mult.commute times_div_less_eq_dividend mult_Suc_right)
  then show e: "k div QUIC_DG_SEG = i \<longleftrightarrow> QUIC_DG_SEG * i \<le> k \<and> k < QUIC_DG_SEG * i + length (dg_piece b i)"
    using assms unfolding dg_piece_length by (auto simp: min_def)
  assume "k div QUIC_DG_SEG = i"
  with e have "QUIC_DG_SEG * i \<le> k" "k < QUIC_DG_SEG * i + length (dg_piece b i)" by auto
  then have "QUIC_DG_SEG * i \<le> k" "k - QUIC_DG_SEG * i < length (dg_piece b i)" by linarith+
  then show "dg_piece b i ! (k - QUIC_DG_SEG * i) = b ! k" using assms by (simp add: dg_piece_def)
qed

lemma dg_store_part:
  assumes b: "length b \<le> QUICCLA_BUFSZ" and n: "n = dg_count_of (length b)" and i: "i < n" and d: "dg_part b txid S d"
  shows "card (insert i S) < n \<Longrightarrow> \<exists>d'. dg_store cb (dg_sent (length b) n txid i (length (dg_piece b i))) (dg_piece b i) d s = (0, d', s) \<and>
      dg_part b txid (insert i S) d'"
    and "insert i S = {..<n} \<Longrightarrow> \<exists>d'. dg_store cb (dg_sent (length b) n txid i (length (dg_piece b i))) (dg_piece b i) d s =
      (if fst (cb s b) < 0 then -1 else 0, d', snd (cb s b)) \<and> \<not> dg_active d'"
proof -
  let ?seg = "dg_sent (length b) n txid i (length (dg_piece b i))"
  note c = dg_count_bounds[OF b n]
  have p: "length (dg_piece b i) \<le> 1024" using dg_piece_length[of b i] by (simp add: QUIC_DG_SEG_def)
  have u: "unat (qxs_segmentId ?seg) = i" "unat (qxs_segmentLength ?seg) = length (dg_piece b i)"
    using i c(2) p by (simp_all add: dg_sent_simps unsigned_of_nat take_bit_nat_eq_self)
  note o = dg_offset_sent(1)[OF b n i, of txid] dg_offset_sent(2)[OF b n i]
  have dd: "dg_active d" "dg_id d = txid" "dg_total d = n" "dg_bundleLen d = length b" "length b \<le> length (dg_buf d)"
    "(dg_total d + 7) div 8 \<le> length (dg_seen d)" "seen_segments d = S" "dg_count d = card S"
    "\<forall>k < length b. k div QUIC_DG_SEG \<in> S \<longrightarrow> dg_buf d ! k = b ! k"
    using d unfolding dg_part_def n[symmetric] by blast+
  define d1 where "d1 = d \<lparr> dg_buf := overwrite (dg_buf d) (QUIC_DG_SEG * i) (dg_piece b i) \<rparr>"
  define d2 where "d2 = dg_mark i d1"
  have "int (QUIC_DG_SEG * i) + int (length (dg_piece b i)) \<le> int (length (dg_buf d))"
    using o(2) dd(5) unfolding of_nat_add[symmetric] of_nat_le_iff by (rule order_trans)
  then have "\<not> int (QUIC_DG_SEG * i) < 0" "\<not> int (QUIC_DG_SEG * i) + int (length (dg_piece b i)) > int (length (dg_buf d))"
    by (simp_all only: not_less of_nat_0_le_iff)
  then have g: "(i \<ge> dg_total d) = False"
    "(int (QUIC_DG_SEG * i) < 0 \<or> int (QUIC_DG_SEG * i) + int (length (dg_piece b i)) > int (length (dg_buf d))) = False"
    using i dd(3) by (simp_all only: simp_thms not_le)
  have st: "dg_store cb ?seg (dg_piece b i) d s = (if dg_count d2 = dg_total d2
         then (if fst (cb s (take (dg_bundleLen d2) (dg_buf d2))) < 0 then -1 else 0, d2 \<lparr> dg_active := False \<rparr>,
               snd (cb s (take (dg_bundleLen d2) (dg_buf d2))))
         else (0, d2, s))"
    unfolding dg_store_def Let_def u o(1) g if_False nat_int take_all[OF order_refl] d1_def[symmetric] dg_mark_def[symmetric]
      d2_def[symmetric] by (simp split: prod.split)
  have l: "length (dg_buf d1) = length (dg_buf d)" using o(2) dd(5) by (simp add: d1_def)
  have m1: "i < dg_total d1" "(dg_total d1 + 7) div 8 \<le> length (dg_seen d1)" "dg_count d1 = card (seen_segments d1)"
    "seen_segments d1 = S"
    using i dd by (simp_all add: d1_def seen_segments_def)
  note m = dg_mark_seen[OF m1(1,2), folded d2_def]
  have buf: "dg_buf d2 ! k = b ! k" if "k < length b" "k div QUIC_DG_SEG \<in> insert i S" for k
  proof -
    have "dg_buf d2 ! k = overwrite (dg_buf d) (QUIC_DG_SEG * i) (dg_piece b i) ! k" by (simp add: m(4) d1_def)
    also have "\<dots> = (if QUIC_DG_SEG * i \<le> k \<and> k < QUIC_DG_SEG * i + length (dg_piece b i)
        then dg_piece b i ! (k - QUIC_DG_SEG * i) else dg_buf d ! k)"
      using o(2) dd(5) that(1) by (intro nth_overwrite) simp_all
    finally show ?thesis using piece_nth[OF that(1), of i] dd(9) that by auto
  qed
  have s2: "seen_segments d2 = insert i S" "dg_count d2 = card (insert i S)" "dg_total d2 = n" "dg_bundleLen d2 = length b"
    "length (dg_buf d2) = length (dg_buf d)"
    using m m1 l dd(3,4) by (simp_all add: d1_def)
  have s3: "dg_active d2" "dg_id d2 = txid" "length b \<le> length (dg_buf d2)" "(dg_total d2 + 7) div 8 \<le> length (dg_seen d2)"
    unfolding m(3,6,7,8) s2(5) using m1(2) dd(1,2,5) by (simp_all add: d1_def)
  show "\<exists>d'. dg_store cb ?seg (dg_piece b i) d s = (0, d', s) \<and> dg_part b txid (insert i S) d'" if "card (insert i S) < n"
  proof (intro exI conjI)
    show "dg_store cb ?seg (dg_piece b i) d s = (0, d2, s)" unfolding st using that s2 by simp
    show "dg_part b txid (insert i S) d2"
      unfolding dg_part_def using s2(1,2) s3 buf n s2(3,4) by blast
  qed
  show "\<exists>d'. dg_store cb ?seg (dg_piece b i) d s = (if fst (cb s b) < 0 then -1 else 0, d', snd (cb s b)) \<and> \<not> dg_active d'"
    if all: "insert i S = {..<n}"
  proof -
    have "take (length b) (dg_buf d2) = b"
      using s2(5) dd(5) buf c(4) by (intro nth_equalityI) (auto simp: all)
    moreover have "dg_count d2 = dg_total d2" using s2 all by simp
    ultimately show ?thesis unfolding st using s2(4) by simp
  qed
qed

text \<open>A datagram as it arrives.\<close>

lemma recv_frame:
  assumes "length b \<le> QUICCLA_BUFSZ" "n = dg_count_of (length b)" "i < n"
  shows "recvDatagramCb alloc cb (dg_frame b txid i) d s =
    dgReassemble alloc cb (dg_sent (length b) n txid i (length (dg_piece b i))) (dg_piece b i) d s"
proof -
  let ?seg = "dg_sent (length b) n txid i (length (dg_piece b i))"
  let ?w = "wire_quic_xfer_segment ?seg"
  have f: "dg_frame b txid i = ?w @ dg_piece b i" using assms(2) by (simp add: dg_frame_def)
  have p: "length (dg_piece b i) \<le> 1024" using dg_piece_length[of b i] by (simp add: QUIC_DG_SEG_def)
  have l: "length ?w < 2 ^ 31" "0 < length ?w"
    using length_dg_sent[of "length b" n txid i "length (dg_piece b i)"] by simp_all
  have "quicMsgDecodeXferSegmentHdr (dg_frame b txid i) (length (dg_frame b txid i)) = (int (length ?w), Some ?seg)"
    using quic_xfer_segment.dec_complete[OF valid_dg_sent l(1) f] .
  moreover have "unat (qxs_segmentLength ?seg) = length (dg_piece b i)"
    using p by (simp add: dg_sent_simps unat_small_u64)
  moreover have "length (dg_frame b txid i) - length ?w = length (dg_piece b i)" "drop (length ?w) (dg_frame b txid i) = dg_piece b i"
    by (simp_all add: f)
  ultimately show ?thesis using l(2) by (simp add: recvDatagramCb_def)
qed

lemma sent_plausible:
  assumes "length b \<le> QUICCLA_BUFSZ" "n = dg_count_of (length b)" "i < n"
  shows "\<not> (unat (qxs_bundleLength (dg_sent (length b) n txid i (length (dg_piece b i)))) > QUICCLA_BUFSZ \<or>
    unat (qxs_segmentLength (dg_sent (length b) n txid i (length (dg_piece b i)))) > QUICCLA_BUFSZ \<or>
    qxs_totalSegments (dg_sent (length b) n txid i (length (dg_piece b i))) = 0)"
    "unat (qxs_totalSegments (dg_sent (length b) n txid i (length (dg_piece b i)))) = n"
    "unat (qxs_bundleLength (dg_sent (length b) n txid i (length (dg_piece b i)))) = length b"
proof -
  note c = dg_count_bounds[OF assms(1,2)]
  have p: "length (dg_piece b i) \<le> 1024" using dg_piece_length[of b i] by (simp add: QUIC_DG_SEG_def)
  have l: "length b \<le> 262144" using assms(1) by (simp add: QUICCLA_BUFSZ_def)
  show t: "unat (qxs_totalSegments (dg_sent (length b) n txid i (length (dg_piece b i)))) = n"
    using c(2) by (simp add: dg_sent_simps unsigned_of_nat take_bit_nat_eq_self)
  show v: "unat (qxs_bundleLength (dg_sent (length b) n txid i (length (dg_piece b i)))) = length b"
    using l by (simp add: dg_sent_simps unat_small_u64)
  have "unat (qxs_segmentLength (dg_sent (length b) n txid i (length (dg_piece b i)))) = length (dg_piece b i)"
    using p by (simp add: dg_sent_simps unat_small_u64)
  then show "\<not> (unat (qxs_bundleLength (dg_sent (length b) n txid i (length (dg_piece b i)))) > QUICCLA_BUFSZ \<or>
    unat (qxs_segmentLength (dg_sent (length b) n txid i (length (dg_piece b i)))) > QUICCLA_BUFSZ \<or>
    qxs_totalSegments (dg_sent (length b) n txid i (length (dg_piece b i))) = 0)"
    using t v c(1) p l by (auto simp: QUICCLA_BUFSZ_def)
qed

definition has_blocks :: "(nat \<Rightarrow> bytes option) \<Rightarrow> bool" where
  "has_blocks alloc \<longleftrightarrow> (\<forall>n. \<exists>b. alloc n = Some b \<and> length b = n)"

lemma grown_has: "has_blocks alloc \<Longrightarrow> want \<le> newCap \<Longrightarrow> \<exists>b. grown alloc want newCap buf = Some b \<and> want \<le> length b"
proof (cases "want > length buf")
  case True
  assume "has_blocks alloc" "want \<le> newCap"
  then obtain b where "alloc newCap = Some b" "length b = newCap" unfolding has_blocks_def by blast
  then show ?thesis using True \<open>want \<le> newCap\<close> by (simp add: grown_def)
qed (simp add: grown_def)

text \<open>Beginning a transfer, whatever was there.\<close>

lemma dg_reset_part:
  assumes alloc: "has_blocks alloc" and b: "length b \<le> QUICCLA_BUFSZ" "n = dg_count_of (length b)" and i: "i < n"
  shows "\<exists>d1. dg_reset alloc (dg_sent (length b) n txid i (length (dg_piece b i))) d = (True, d1) \<and> dg_part b txid {} d1"
proof -
  let ?seg = "dg_sent (length b) n txid i (length (dg_piece b i))"
  note p = sent_plausible(2,3)[OF b i, of txid]
  let ?c = "cap_for (if dg_buf d \<noteq> [] then length (dg_buf d) else QUICCLA_BUFSZ) (length b)"
  have "length b \<le> ?c" by (rule cap_for_ge) (simp add: QUICCLA_BUFSZ_def)
  from grown_has[OF alloc this, of "dg_buf d"] obtain buf where
    buf: "grown alloc (length b) ?c (dg_buf d) = Some buf" "length b \<le> length buf" by blast
  from grown_has[OF alloc order_refl, of "(n + 7) div 8" "dg_seen d"] obtain seen where
    seen: "grown alloc ((n + 7) div 8) ((n + 7) div 8) (dg_seen d) = Some seen" "(n + 7) div 8 \<le> length seen" by blast
  let ?d = "d \<lparr> dg_id := txid, dg_active := True, dg_total := n, dg_count := 0, dg_bundleLen := length b,
      dg_buf := overwrite buf 0 (replicate (length b) 0), dg_seen := overwrite seen 0 (replicate ((n + 7) div 8) 0) \<rparr>"
  have r: "dg_reset alloc ?seg d = (True, ?d)"
    unfolding dg_reset_def Let_def p buf(1) seen(1) by (simp add: dg_sent_simps)
  have "seen_segments ?d = {}"
    using seen_bit_zero[OF bitmap_covers seen(2)] by (auto simp: seen_segments_def)
  then have "dg_part b txid {} ?d" using b(2) buf(2) seen(2) by (simp add: dg_part_def)
  with r show ?thesis by blast
qed

text \<open>A segment that begins a transfer of several.\<close>

lemma recv_first:
  assumes alloc: "has_blocks alloc" and b: "length b \<le> QUICCLA_BUFSZ" "n = dg_count_of (length b)" and i: "i < n" "1 < n"
    and new: "i = 0 \<or> \<not> dg_active d"
  shows "\<exists>d1. recvDatagramCb alloc cb (dg_frame b txid i) d s = (0, d1, s) \<and> dg_part b txid {i} d1"
proof -
  let ?seg = "dg_sent (length b) n txid i (length (dg_piece b i))"
  obtain d1 where d1: "dg_reset alloc ?seg d = (True, d1)" "dg_part b txid {} d1"
    using dg_reset_part[OF alloc b i(1)] by blast
  have "qxs_flags ?seg AND QMSG_FLAG_START \<noteq> 0 \<or> \<not> dg_active d \<or> qxs_transferId ?seg \<noteq> dg_id d"
    using new dg_sent_flags(1)[of "length b" n txid i] by blast
  then have r: "recvDatagramCb alloc cb (dg_frame b txid i) d s = dg_store cb ?seg (dg_piece b i) d1 s"
    unfolding recv_frame[OF b i(1)] dgReassemble_def if_not_P[OF sent_plausible(1)[OF b i(1)]] d1(1)
    by (simp only: if_True Let_def prod.case)
  have "card (insert i {}) < n" using i(2) by simp
  from dg_store_part(1)[where cb = cb and s = s, OF b i(1) d1(2) this] r show ?thesis by simp
qed

lemma recv_datagrams_append:
  "recv_datagrams alloc cb us d s = (0, d1, s1) \<Longrightarrow> recv_datagrams alloc cb (us @ vs) d s = recv_datagrams alloc cb vs d1 s1"
proof (induction us arbitrary: d s)
  case (Cons u us)
  obtain rc d2 s2 where u: "recvDatagramCb alloc cb u d s = (rc, d2, s2)" by (metis prod_cases3)
  then show ?case using Cons by (simp split: if_splits)
qed simp

text \<open>The segments but the last.\<close>

lemma recv_some_frames:
  assumes b: "length b \<le> QUICCLA_BUFSZ" "n = dg_count_of (length b)"
  shows "dg_part b txid S d \<Longrightarrow> S \<subseteq> {..<n} \<Longrightarrow> set xs \<subseteq> {..<n} \<Longrightarrow> 0 \<notin> set xs \<Longrightarrow> S \<union> set xs \<noteq> {..<n} \<Longrightarrow>
    \<exists>d'. recv_datagrams alloc cb (map (dg_frame b txid) xs) d s = (0, d', s) \<and> dg_part b txid (S \<union> set xs) d'"
proof (induction xs arbitrary: S d)
  case (Cons i xs)
  have i: "i < n" "i \<noteq> 0" using Cons.prems by auto
  have less: "insert i S \<subset> {..<n}" using Cons.prems by auto
  then have "card (insert i S) < card {..<n}" by (intro psubset_card_mono) auto
  then have c: "card (insert i S) < n" by simp
  have a: "dg_active d" "dg_id d = txid" using Cons.prems(1) by (simp_all add: dg_part_def)
  let ?seg = "dg_sent (length b) n txid i (length (dg_piece b i))"
  have "\<not> (qxs_flags ?seg AND QMSG_FLAG_START \<noteq> 0 \<or> \<not> dg_active d \<or> qxs_transferId ?seg \<noteq> dg_id d)"
    using a i(2) dg_sent_flags(1)[of "length b" n txid i] by (simp add: dg_sent_simps)
  then have r: "recvDatagramCb alloc cb (dg_frame b txid i) d s = dg_store cb ?seg (dg_piece b i) d s"
    unfolding recv_frame[OF b i(1)] dgReassemble_def if_not_P[OF sent_plausible(1)[OF b i(1)]] by (rule if_not_P)
  from dg_store_part(1)[where cb = cb and s = s, OF b i(1) Cons.prems(1) c] obtain d1 where
    d1: "dg_store cb ?seg (dg_piece b i) d s = (0, d1, s)" "dg_part b txid (insert i S) d1" by (elim exE conjE)
  have "\<exists>d'. recv_datagrams alloc cb (map (dg_frame b txid) xs) d1 s = (0, d', s) \<and> dg_part b txid (insert i S \<union> set xs) d'"
    using less Cons.prems by (intro Cons.IH[OF d1(2)]) auto
  then show ?case using r d1(1) by simp
qed simp


section \<open>The queue\<close>

lemma dg_nodes_length: "length (dg_nodes mem len n txid i src k) \<le> k"
proof (induction k arbitrary: i src)
  case (Suc k)
  then show ?case by (simp add: Let_def le_SucI split: prod.split)
qed simp

lemma dg_nodes_short:
  "i \<le> j \<Longrightarrow> j < i + k \<Longrightarrow> \<not> mem j \<Longrightarrow> length (dg_nodes mem len n txid i src k) < k"
proof (induction k arbitrary: i src)
  case (Suc k)
  show ?case
  proof (cases "i = j")
    case True
    then show ?thesis using Suc.prems(3) by (simp add: Let_def)
  next
    case False
    then have "length (dg_nodes mem len n txid (Suc i) s' k) < k" for s' using Suc.prems by (intro Suc.IH) auto
    then show ?thesis by (simp add: Let_def split: prod.split)
  qed
qed simp

lemma writeDatagrams_counts:
  "writeDatagrams ws t = (rc, t', m) \<Longrightarrow>
     dq_pending t' - int (length (dq_queue t')) = dq_pending t - int (length (dq_queue t))"
proof (induction ws t arbitrary: rc t' m rule: writeDatagrams.induct)
  case (2 w ws t)
  show ?case
  proof (cases "dq_queue t")
    case Nil
    then show ?thesis using "2.prems" by simp
  next
    case (Cons node nodes)
    let ?acc = "dw_accepted w \<or> dw_nwrite w < 0" and ?nw = "if dw_nwrite w < 0 then 0 else dw_nwrite w"
    let ?t = "t \<lparr> dq_queue := nodes, dq_pending := dq_pending t - 1 \<rparr>"
    obtain rc1 t1 m1 where w1: "writeDatagrams ws ?t = (rc1, t1, m1)" by (metis prod_cases3)
    obtain rc2 t2 m2 where w2: "writeDatagrams ws t = (rc2, t2, m2)" by (metis prod_cases3)
    consider "t' = t" | "?acc" "t' = t1" "\<not> (?nw > 0 \<and> dw_sendto w = SendtoAgain)" "\<not> (?nw > 0 \<and> dw_sendto w = SendtoFailed)"
      | "\<not> ?acc" "t' = t2" "\<not> (?nw > 0 \<and> dw_sendto w = SendtoAgain)" "\<not> (?nw > 0 \<and> dw_sendto w = SendtoFailed)" "?nw \<noteq> 0"
      using "2.prems" Cons w1 w2 by (auto simp: Let_def split: if_splits)
    then show ?thesis
    proof cases
      case 1
      then show ?thesis by simp
    next
      case a: 2
      have "dq_pending t1 - int (length (dq_queue t1)) = dq_pending ?t - int (length (dq_queue ?t))"
        using "2.IH"(1)[OF Cons refl refl a(3,4) refl a(1) w1] .
      then show ?thesis using Cons a(2) by simp
    next
      case a: 3
      have "dq_pending t2 - int (length (dq_queue t2)) = dq_pending t - int (length (dq_queue t))"
        using "2.IH"(2)[OF Cons refl refl a(3,4) refl a(1,5) w2] .
      then show ?thesis using a(2) by simp
    qed
  qed
qed simp

text \<open>The passes of the I/O thread over one queue.\<close>

fun write_passes :: "DgWrite list list \<Rightarrow> DgTx \<Rightarrow> DgTx" where
  "write_passes [] t = t"
| "write_passes (ws # wss) t = write_passes wss (fst (snd (writeDatagrams ws t)))"

lemma write_passes_counts:
  "dq_pending (write_passes wss t) - int (length (dq_queue (write_passes wss t))) = dq_pending t - int (length (dq_queue t))"
proof (induction wss arbitrary: t)
  case (Cons ws wss)
  obtain rc t1 m where "writeDatagrams ws t = (rc, t1, m)" by (metis prod_cases3)
  then show ?case using writeDatagrams_counts[of ws t rc t1 m] Cons[of t1] by simp
qed simp

text \<open>Datagrams other than the first that come again when the transfer is over are taken for a new transfer, which
  cannot complete without the first.\<close>

lemma recv_late_frames:
  assumes alloc: "has_blocks alloc" and b: "length b \<le> QUICCLA_BUFSZ" "n = dg_count_of (length b)"
    and xs: "set xs \<subseteq> {..<n}" "0 \<notin> set xs" and idle: "\<not> dg_active d"
  shows "\<exists>d'. recv_datagrams alloc cb (map (dg_frame b txid) xs) d s = (0, d', s)"
proof (cases xs)
  case (Cons x ys)
  have x: "x < n" "1 < n" "{x} \<subseteq> {..<n}" "set ys \<subseteq> {..<n}" "0 \<notin> set ys" using xs Cons by auto
  have "0 \<in> {..<n}" "0 \<notin> {x} \<union> set ys" using x(2) xs(2) Cons by simp_all
  then have ne: "{x} \<union> set ys \<noteq> {..<n}" by blast
  from recv_first[where cb = cb and s = s and txid = txid, OF alloc b x(1,2) disjI2[OF idle]] obtain d1 where
    d1: "recvDatagramCb alloc cb (dg_frame b txid x) d s = (0, d1, s)" "dg_part b txid {x} d1" by (elim exE conjE)
  from recv_some_frames[where alloc = alloc and cb = cb and s = s, OF b d1(2) x(3-5) ne] d1(1) show ?thesis
    using Cons by auto
qed simp

text \<open>Where a list has brought together all that belongs to it.\<close>

lemma first_complete:
  "insert x (set ys) = A \<Longrightarrow> A \<noteq> {x} \<Longrightarrow>
     \<exists>zs l rest. ys = zs @ l # rest \<and> insert x (set zs) \<noteq> A \<and> insert l (insert x (set zs)) = A"
proof (induction ys rule: rev_induct)
  case (snoc y ys)
  show ?case
  proof (cases "insert x (set ys) = A")
    case True
    then obtain zs l rest where "ys = zs @ l # rest" "insert x (set zs) \<noteq> A" "insert l (insert x (set zs)) = A"
      using snoc.IH snoc.prems(2) by blast
    then show ?thesis by (intro exI[of _ zs] exI[of _ l] exI[of _ "rest @ [y]"]) simp
  next
    case False
    then show ?thesis using snoc.prems(1) by (intro exI[of _ ys] exI[of _ y] exI[of _ "[]"]) (simp add: insert_commute)
  qed
qed simp

section \<open>Properties\<close>

text \<open>C9: A bundle sent over the unreliable service is handed over octet for octet, once, when each of its datagrams has
  arrived, in any order that begins with the first, whatever the receiver held before.  Any of the others may be repeated,
  also when the bundle has been handed over; the first is not repeated.\<close>
theorem dgram_bundle_delivered:
  assumes "\<forall>n. \<exists>b. alloc n = Some b \<and> length b = n" "length b \<le> QUICCLA_BUFSZ" "0 \<le> fst (cb s b)"
    and "n = dg_count_of (length b)" "set xs = {..<n}" "hd xs = 0" "0 \<notin> set (tl xs)" "dq_queue t = []"
  shows "\<exists>d'. recv_datagrams alloc cb (map (\<lambda>i. dq_queue (quicClientSendDatagram (\<lambda>_. True) b t) ! i) xs) d s =
    (0, d', snd (cb s b))"
proof -
  have alloc: "has_blocks alloc" using assms(1) by (simp add: has_blocks_def)
  note c = dg_count_bounds[OF assms(2,4)]
  let ?txid = "dq_nextTxId t" and ?f = "dg_frame b (dq_nextTxId t)"
  have small: "length b < 2 ^ 31" using assms(2) by (simp add: QUICCLA_BUFSZ_def)
  have "dq_queue (quicClientSendDatagram (\<lambda>_. True) b t) = map ?f [0..<0 + n]"
    using dg_nodes_frames[OF assms(4) small, of b 0 ?txid n] assms(8) by (simp add: quicClientSendDatagram_def Let_def assms(4)[symmetric])
  then have q: "dq_queue (quicClientSendDatagram (\<lambda>_. True) b t) = map ?f [0..<n]" by simp
  have m: "map (\<lambda>i. dq_queue (quicClientSendDatagram (\<lambda>_. True) b t) ! i) xs = map ?f xs"
    unfolding q by (rule map_cong[OF refl]) (simp add: assms(5))
  have "0 \<in> set xs" unfolding assms(5) using c(1) by simp
  then have "xs \<noteq> []" by auto
  then obtain ys where xs: "xs = 0 # ys" "0 \<notin> set ys" using assms(6,7) by (cases xs) auto
  let ?seg = "\<lambda>i. dg_sent (length b) n ?txid i (length (dg_piece b i))"
  show ?thesis
  proof (cases "ys = []")
    case True
    obtain d1 where d1: "dg_reset alloc (?seg 0) d = (True, d1)" "dg_part b ?txid {} d1"
      using dg_reset_part[OF alloc assms(2,4) c(1)] by blast
    have "qxs_flags (?seg 0) AND QMSG_FLAG_START \<noteq> 0 \<or> \<not> dg_active d \<or> qxs_transferId (?seg 0) \<noteq> dg_id d"
      using dg_sent_flags(1)[of "length b" n ?txid 0] by blast
    then have first: "recvDatagramCb alloc cb (?f 0) d s = dg_store cb (?seg 0) (dg_piece b 0) d1 s"
      unfolding recv_frame[OF assms(2,4) c(1)] dgReassemble_def if_not_P[OF sent_plausible(1)[OF assms(2,4) c(1)]] d1(1)
      by (simp only: if_True Let_def prod.case)
    have "insert 0 {} = {..<n}" using True assms(5) xs(1) by simp
    from dg_store_part(2)[where cb = cb and s = s, OF assms(2,4) c(1) d1(2) this] obtain d' where
      "dg_store cb (?seg 0) (dg_piece b 0) d1 s = (if fst (cb s b) < 0 then -1 else 0, d', snd (cb s b))" by (elim exE conjE)
    then show ?thesis unfolding m using True xs(1) first assms(3) by simp
  next
    case False
    have h: "hd ys \<in> set ys" using False by simp
    then have hm: "hd ys \<in> {..<n}" unfolding assms(5)[symmetric] using xs(1) by simp
    have "hd ys \<noteq> 0" using h xs(2) by metis
    then have "hd ys \<notin> {0}" unfolding singleton_iff .
    then have ne: "{..<n} \<noteq> {0}" using hm by metis
    have all: "insert 0 (set ys) = {..<n}" using assms(5) xs(1) by simp
    from first_complete[OF all ne] obtain zs l rest where ys: "ys = zs @ l # rest" and sets: "insert 0 (set zs) \<noteq> {..<n}"
      "insert l (insert 0 (set zs)) = {..<n}"
      by (elim exE conjE)
    have l: "l < n" "insert l (insert 0 (set zs)) = {..<n}" "l \<noteq> 0" "0 \<notin> set zs" "0 \<notin> set rest" "set rest \<subseteq> {..<n}"
    proof -
      show "l < n" unfolding lessThan_iff[symmetric] sets(2)[symmetric] by blast
      show "set rest \<subseteq> {..<n}" unfolding all[symmetric] ys by auto
      show "l \<noteq> 0" "0 \<notin> set zs" "0 \<notin> set rest" using xs(2) unfolding ys by auto
    qed (rule sets(2))
    have n1: "1 < n" using l(1,3) by linarith
    from recv_first[where cb = cb and s = s and d = d and txid = ?txid, OF alloc assms(2,4) c(1) n1 disjI1[OF refl]] obtain d2 where
      d2: "recvDatagramCb alloc cb (?f 0) d s = (0, d2, s)" "dg_part b ?txid {0} d2" by (elim exE conjE)
    have z: "{0} \<subseteq> {..<n}" "set zs \<subseteq> {..<n}" "{0} \<union> set zs \<noteq> {..<n}"
    proof -
      show "{0} \<subseteq> {..<n}" "set zs \<subseteq> {..<n}" unfolding sets(2)[symmetric] by blast+
      show "{0} \<union> set zs \<noteq> {..<n}" using sets(1) by simp
    qed
    from recv_some_frames[where alloc = alloc and cb = cb and s = s, OF assms(2,4) d2(2) z(1,2) l(4) z(3)] obtain d3 where
      d3: "recv_datagrams alloc cb (map ?f zs) d2 s = (0, d3, s)" "dg_part b ?txid (insert 0 (set zs)) d3"
      by (elim exE conjE) simp
    from dg_store_part(2)[where cb = cb and s = s, OF assms(2,4) l(1) d3(2) l(2)] obtain d' where
      d': "dg_store cb (?seg l) (dg_piece b l) d3 s = (if fst (cb s b) < 0 then -1 else 0, d', snd (cb s b))" "\<not> dg_active d'"
      by (elim exE conjE)
    have a: "dg_active d3" "dg_id d3 = ?txid" using d3(2) by (simp_all add: dg_part_def)
    have "\<not> (qxs_flags (?seg l) AND QMSG_FLAG_START \<noteq> 0 \<or> \<not> dg_active d3 \<or> qxs_transferId (?seg l) \<noteq> dg_id d3)"
      using a l(3) dg_sent_flags(1)[of "length b" n ?txid l] by (simp add: dg_sent_simps)
    then have "recvDatagramCb alloc cb (?f l) d3 s = dg_store cb (?seg l) (dg_piece b l) d3 s"
      unfolding recv_frame[OF assms(2,4) l(1)] dgReassemble_def if_not_P[OF sent_plausible(1)[OF assms(2,4) l(1)]] by (rule if_not_P)
    then have "recv_datagrams alloc cb (map ?f [l]) d3 s = (0, d', snd (cb s b))" using d'(1) assms(3) by simp
    note end_run = recv_datagrams_append[OF this, of "map ?f rest"]
    have "recv_datagrams alloc cb (map ?f (0 # zs)) d s = (0, d3, s)" using d2(1) d3(1) by simp
    note app = recv_datagrams_append[OF this, of "map ?f [l] @ map ?f rest"]
    have "map ?f xs = map ?f (0 # zs) @ map ?f [l] @ map ?f rest" by (simp add: xs(1) ys)
    then show ?thesis unfolding m
      using recv_late_frames[where cb = cb and s = "snd (cb s b)" and txid = ?txid, OF alloc assms(2,4) l(6,5) d'(2)]
      by (simp only: app end_run)
  qed
qed

theorem dgram_bundle_delivered_witness:
  "\<exists>d. recv_datagrams (\<lambda>n. Some (replicate n 7)) (\<lambda>s b. (0, s @ [b]))
     (map (\<lambda>i. dq_queue (quicClientSendDatagram (\<lambda>_. True) (replicate 3000 9) \<lparr>dq_queue = [], dq_pending = 0, dq_nextTxId = 3\<rparr>) ! i)
       [0, 2, 2, 1, 2, 1]) fresh_dg [] = (0, d, [replicate 3000 9])"
proof -
  have n: "dg_count_of (length (replicate 3000 (9 :: u8))) = 3" by (simp add: dg_count_of_def QUIC_DG_SEG_def)
  have l: "length (replicate 3000 (9 :: u8)) \<le> QUICCLA_BUFSZ" by (simp add: QUICCLA_BUFSZ_def)
  have x: "set [0, 2, 2, 1, 2, 1] = {..<3 :: nat}" "hd [0, 2, 2, 1, 2, 1 :: nat] = 0" "0 \<notin> set (tl [0, 2, 2, 1, 2, 1 :: nat])"
    by auto
  have "\<forall>n. \<exists>b. (\<lambda>n. Some (replicate n (7 :: u8))) n = Some b \<and> length b = n" by simp
  from dgram_bundle_delivered[OF this l _ n[symmetric] x, of "\<lambda>s b. (0, s @ [b])" "[]"
      "\<lparr>dq_queue = [], dq_pending = 0, dq_nextTxId = 3\<rparr>" fresh_dg] show ?thesis by simp
qed

text \<open>C13: A START segment begins its transfer anew: when the first datagram of a bundle arrives after others of it, the bundle is not
  handed over although every one of its datagrams has arrived.\<close>
theorem dgram_late_start_lost:
  assumes "\<forall>n. \<exists>b. alloc n = Some b \<and> length b = n" "length b \<le> QUICCLA_BUFSZ" "n = dg_count_of (length b)"
    and "xs \<noteq> []" "set xs = {1..<n}" "dq_queue t = []"
  shows "\<exists>d'. recv_datagrams alloc cb (map (\<lambda>i. dq_queue (quicClientSendDatagram (\<lambda>_. True) b t) ! i) (xs @ [0])) fresh_dg s =
    (0, d', s)"
proof -
  have alloc: "has_blocks alloc" using assms(1) by (simp add: has_blocks_def)
  let ?f = "dg_frame b (dq_nextTxId t)"
  have small: "length b < 2 ^ 31" using assms(2) by (simp add: QUICCLA_BUFSZ_def)
  have "dq_queue (quicClientSendDatagram (\<lambda>_. True) b t) = map ?f [0..<0 + n]"
    using dg_nodes_frames[OF assms(3) small, of b 0 "dq_nextTxId t" n] assms(6)
    by (simp add: quicClientSendDatagram_def Let_def assms(3)[symmetric])
  moreover have n: "1 < n"
  proof -
    have "hd xs \<in> {1..<n}" using assms(4) hd_in_set[of xs] unfolding assms(5)[symmetric] by simp
    then show ?thesis by simp
  qed
  ultimately have q: "dq_queue (quicClientSendDatagram (\<lambda>_. True) b t) = map ?f [0..<n]" and n: "1 < n" by simp_all
  have "map (\<lambda>i. map ?f [0..<n] ! i) (xs @ [0]) = map ?f (xs @ [0])"
    by (rule map_cong[OF refl]) (use assms(5) n in auto)
  then have m: "map (\<lambda>i. dq_queue (quicClientSendDatagram (\<lambda>_. True) b t) ! i) (xs @ [0]) = map ?f xs @ [?f 0]"
    unfolding q by simp
  obtain x ys where xs: "xs = x # ys" using assms(4) by (cases xs) auto
  have all: "1 \<le> j \<and> j < n" if "j \<in> set xs" for j using that unfolding assms(5) by simp
  have x: "x < n" "x \<noteq> 0" "set ys \<subseteq> {..<n}" "0 \<notin> set ys" using all[of x] all xs by fastforce+
  have idle: "x = 0 \<or> \<not> dg_active fresh_dg" by (simp add: fresh_dg_def)
  from recv_first[where cb = cb and s = s and txid = "dq_nextTxId t", OF alloc assms(2,3) x(1) n idle] obtain d1 where
    d1: "recvDatagramCb alloc cb (?f x) fresh_dg s = (0, d1, s)" "dg_part b (dq_nextTxId t) {x} d1" by (elim exE conjE)
  have "0 \<in> {..<n}" "0 \<notin> {x} \<union> set ys" using n x(2,4) by simp_all
  then have ne: "{x} \<union> set ys \<noteq> {..<n}" by blast
  have "{x} \<subseteq> {..<n}" using x(1) by simp
  from recv_some_frames[where alloc = alloc and cb = cb and s = s, OF assms(2,3) d1(2) this x(3,4) ne] obtain d2 where
    d2: "recv_datagrams alloc cb (map ?f ys) d1 s = (0, d2, s)" by (elim exE conjE)
  obtain d3 where d3: "recvDatagramCb alloc cb (?f 0) d2 s = (0, d3, s)"
    using recv_first[where cb = cb and s = s and d = d2 and txid = "dq_nextTxId t", OF alloc assms(2,3) _ n, of 0] n by fastforce
  have "recv_datagrams alloc cb (map ?f xs) fresh_dg s = (0, d2, s)" using xs d1(1) d2 by simp
  from recv_datagrams_append[OF this, of "[?f 0]"] d3 show ?thesis unfolding m by simp
qed

theorem dgram_late_start_lost_witness:
  "\<exists>d. recv_datagrams (\<lambda>n. Some (replicate n 7)) (\<lambda>s b. (0, s @ [b]))
     (map (\<lambda>i. dq_queue (quicClientSendDatagram (\<lambda>_. True) (replicate 2000 9) \<lparr>dq_queue = [], dq_pending = 0, dq_nextTxId = 3\<rparr>) ! i)
       ([1] @ [0])) fresh_dg [] = (0, d, [])"
proof -
  have n: "dg_count_of (length (replicate 2000 (9 :: u8))) = 2" by (simp add: dg_count_of_def QUIC_DG_SEG_def)
  have l: "length (replicate 2000 (9 :: u8)) \<le> QUICCLA_BUFSZ" by (simp add: QUICCLA_BUFSZ_def)
  have x: "[1 :: nat] \<noteq> []" "set [1] = {1..<2 :: nat}" by auto
  have "\<forall>n. \<exists>b. (\<lambda>n. Some (replicate n (7 :: u8))) n = Some b \<and> length b = n" by simp
  from dgram_late_start_lost[OF this l n[symmetric] x, of "\<lparr>dq_queue = [], dq_pending = 0, dq_nextTxId = 3\<rparr>"]
  show ?thesis by simp
qed

text \<open>C11: Whatever datagrams arrive and whatever memory there is, the reassembly buffer is as long as the bundle, the bitmap
  covers the segments, and the count is that of the distinct segments seen since the transfer began, so that repetitions
  cannot complete it.\<close>
theorem dgram_state_sound:
  assumes "\<forall>n b. alloc n = Some b \<longrightarrow> length b = n" "recv_datagrams alloc cb xs fresh_dg s = (rc, d, t)" "dg_active d"
  shows "dg_bundleLen d \<le> length (dg_buf d) \<and> dg_bundleLen d \<le> QUICCLA_BUFSZ \<and> dg_total d \<le> 8 * length (dg_seen d) \<and>
    dg_count d = card {i. i < dg_total d \<and> seen_bit (dg_seen d) i} \<and> dg_count d < dg_total d"
proof -
  have "dg_ok fresh_dg" by (simp add: dg_ok_def fresh_dg_def)
  from recv_datagrams_ok[OF _ this assms(2)] assms(1) have "dg_ok d" by blast
  then show ?thesis using assms(3) by (auto simp: dg_ok_def seen_segments_def)
qed

theorem dgram_state_sound_witness:
  "\<exists>rc d t. recv_datagrams (\<lambda>n. Some (replicate n 7)) (\<lambda>s b. (0, s @ [b])) [dg_frame (replicate 2000 9) 3 1] fresh_dg [] = (rc, d, t) \<and>
     dg_active d \<and> dg_count d < dg_total d"
proof -
  let ?alloc = "\<lambda>n. Some (replicate n (7 :: u8))" and ?b = "replicate 2000 (9 :: u8)"
  have n: "2 = dg_count_of (length ?b)" by (simp add: dg_count_of_def QUIC_DG_SEG_def)
  have l: "length ?b \<le> QUICCLA_BUFSZ" by (simp add: QUICCLA_BUFSZ_def)
  have a: "has_blocks ?alloc" by (simp add: has_blocks_def)
  obtain d where d: "recvDatagramCb ?alloc (\<lambda>s b. (0, s @ [b])) (dg_frame ?b 3 1) fresh_dg [] = (0, d, [])" "dg_part ?b 3 {1} d"
    using recv_first[OF a l n _ _, of 1 fresh_dg "\<lambda>s b. (0, s @ [b])" 3 "[]"] by (auto simp: fresh_dg_def)
  then have r: "recv_datagrams ?alloc (\<lambda>s b. (0, s @ [b])) [dg_frame ?b 3 1] fresh_dg [] = (0, d, [])" by simp
  have act: "dg_active d" using d(2) by (simp add: dg_part_def)
  have "\<forall>n b. ?alloc n = Some b \<longrightarrow> length b = n" by auto
  from dgram_state_sound[OF this r act] r act show ?thesis by blast
qed

text \<open>C10: Nothing that a new block of memory holds reaches the bundle callback: what is handed over, and when, is the
  same for any two allocators that give blocks of the same sizes.\<close>
theorem dgram_no_stale_heap:
  assumes "\<forall>n. map_option length (alloc n) = map_option length (alloc' n)"
    and "recv_datagrams alloc cb xs fresh_dg s = (rc, d, t)" "recv_datagrams alloc' cb xs fresh_dg s = (rc', d', t')"
  shows "rc = rc' \<and> t = t'"
proof -
  have "same_blocks alloc alloc'" "dg_same fresh_dg fresh_dg" using assms(1) by (simp_all add: same_blocks_def dg_same_def)
  from recv_datagrams_same[OF this, of cb xs s] assms(2,3) show ?thesis by auto
qed

theorem dgram_no_stale_heap_witness:
  "snd (snd (recv_datagrams (\<lambda>n. Some (replicate n 7)) (\<lambda>s b. (0, s @ [b])) [dg_frame (replicate 2000 9) 3 1] fresh_dg [])) =
   snd (snd (recv_datagrams (\<lambda>n. Some (replicate n 8)) (\<lambda>s b. (0, s @ [b])) [dg_frame (replicate 2000 9) 3 1] fresh_dg []))"
proof -
  let ?run = "\<lambda>x. recv_datagrams (\<lambda>n. Some (replicate n (x :: u8))) (\<lambda>s b. (0, s @ [b])) [dg_frame (replicate 2000 9) 3 1] fresh_dg []"
  obtain rc d t rc' d' t' where r: "?run 7 = (rc, d, t)" "?run 8 = (rc', d', t')" by (metis prod_cases3)
  have "\<forall>n. map_option length (Some (replicate n (7 :: u8))) = map_option length (Some (replicate n (8 :: u8)))" by simp
  from dgram_no_stale_heap[OF this r] r show ?thesis by simp
qed

text \<open>C14: When a datagram of a bundle cannot be queued, the datagrams said to be pending are more than are queued, so however
  often the queue is written the count never comes down to 0, for which the sender waits.\<close>
theorem dgram_short_queue_waits:
  assumes "\<not> mem i" "i < dg_count_of (length b)" "dq_pending t = int (length (dq_queue t))"
  shows "0 < dq_pending (write_passes wss (quicClientSendDatagram mem b t))"
proof -
  let ?n = "dg_count_of (length b)"
  have "length (dg_nodes mem (length b) ?n (dq_nextTxId t) 0 b ?n) < ?n"
    using assms(1,2) by (intro dg_nodes_short[of 0 i]) simp_all
  then have "dq_pending (quicClientSendDatagram mem b t) - int (length (dq_queue (quicClientSendDatagram mem b t))) > 0"
    using assms(3) by (simp add: quicClientSendDatagram_def Let_def)
  then show ?thesis
    using write_passes_counts[of wss "quicClientSendDatagram mem b t"] by linarith
qed

theorem dgram_short_queue_waits_witness:
  "0 < dq_pending (write_passes [[\<lparr>dw_nwrite = 60, dw_accepted = True, dw_sendto = SendtoOk\<rparr>]]
     (quicClientSendDatagram (\<lambda>i. i \<noteq> 0) [1] \<lparr>dq_queue = [], dq_pending = 0, dq_nextTxId = 3\<rparr>))"
  using dgram_short_queue_waits[of "\<lambda>i. i \<noteq> 0" 0 "[1]"] by (simp add: dg_count_of_def QUIC_DG_SEG_def del: write_passes.simps)

end
