(* ===== verification/X509.thy ===== *)
theory X509
  imports Prelude
begin

unbundle bit_operations_syntax

text \<open>
  Certificate decoding shared by the TLS backends, CLA/tcpv4/src/tcpv4x509.c.  The DER buffer is
  the octet list \<open>der\<close> with the length argument \<open>len\<close> of the C code, at most the buffer's own
  length; offsets are numbers (a \<open>size_t\<close> never wraps here, since a content length is compared
  with the octets left before it is added).

  The lemmas give an exact reading of \<open>derTlv\<close> (\<open>tlv\<close>), what the BundleEID extraction takes and
  writes, and that the extension search finds exactly the object identifiers of the list, with
  or without the SEQUENCE header around it.
\<close>

section \<open>Model\<close>

definition derTlv :: "bytes \<Rightarrow> nat \<Rightarrow> nat \<Rightarrow> u8 \<Rightarrow> (nat \<times> nat) option" where
  "derTlv der len off tag =
     (if off \<ge> len \<or> len - off < 2 \<or> der ! off \<noteq> tag then None
      else
        let b = der ! (off + 1); i = off + 2; octets = unat (b AND 0x7F) in
        if b < 0x80 then
          (if unat b > len - i then None else Some (i, unat b))
        else if octets = 0 \<or> octets > 8 \<or> len - i < octets then None
        else
          let n = unat (be_value (take octets (drop i der))) in
          if n > len - (i + octets) then None else Some (i + octets, n))"

text \<open>The return value and the buffer \<open>into\<close>, which an embedded NUL leaves written.\<close>

definition tcpv4X509BundleEid ::
    "bytes option \<Rightarrow> nat \<Rightarrow> bytes option \<Rightarrow> nat \<Rightarrow> int \<times> bytes option" where
  "tcpv4X509BundleEid der len into cap =
     (case (der, into) of
        (Some d, Some buf) \<Rightarrow>
          if cap = 0 then (-1, into)
          else
            let (off, end) = (case derTlv d len 0 0xA0 of
                                Some (off, vlen) \<Rightarrow> (off, off + vlen)
                              | None \<Rightarrow> (0, len)) in
            (case derTlv d end off 0x16 of
               None \<Rightarrow> (-1, into)
             | Some (off, vlen) \<Rightarrow>
                 if vlen = 0 \<or> vlen \<ge> cap then (-1, into)
                 else
                   let buf = overwrite buf 0 (take vlen (drop off d)); buf = buf[vlen := 0] in
                   if length (cstr buf) \<noteq> vlen then (-1, Some buf) else (0, Some buf))
      | _ \<Rightarrow> (-1, into))"

definition tcpv4X509IsNodeId :: "bytes option \<Rightarrow> bool" where
  "tcpv4X509IsNodeId uri =
     (case uri of
        None \<Rightarrow> False
      | Some u \<Rightarrow>
          let len = length u in
          if take 4 u = ascii ''ipn:'' then len > 6 \<and> drop (len - 2) u = ascii ''.0''
          else if take 4 u = ascii ''dtn:'' then
            u = ascii ''dtn:none'' \<or> (len > 6 \<and> u ! (len - 1) = of_char CHR ''/'')
          else True)"

lemma derTlv_forward:
  assumes "derTlv der len off tag = Some (off', n)"
  shows "off + 2 \<le> off'" "off' + n \<le> len"
  using assms by (auto simp: derTlv_def Let_def split: if_splits)

text \<open>The loop \<open>while (off < len)\<close> over the entries.\<close>

function ext_entries :: "bytes \<Rightarrow> nat \<Rightarrow> bytes \<Rightarrow> nat \<Rightarrow> bool" where
  "ext_entries der len oid off =
     (if off < len then
        (case derTlv der len off 0x30 of
           None \<Rightarrow> False
         | Some (off1, seqLen) \<Rightarrow>
             let seqEnd = off1 + seqLen in
             (case derTlv der seqEnd off1 0x06 of
                None \<Rightarrow> False
              | Some (off2, idLen) \<Rightarrow>
                  if idLen = length oid \<and> take idLen (drop off2 der) = oid then True
                  else ext_entries der len oid seqEnd))
      else False)"
  by pat_completeness auto
termination
  by (relation "measure (\<lambda>(der, len, oid, off). len - off)") (force dest: derTlv_forward)+

declare ext_entries.simps [simp del]

definition tcpv4X509HasExtension :: "bytes option \<Rightarrow> nat \<Rightarrow> bytes option \<Rightarrow> bool" where
  "tcpv4X509HasExtension der len oid =
     (case (der, oid) of
        (Some d, Some ident) \<Rightarrow>
          if ident = [] then False
          else
            let (d, len) = (case derTlv d len 0 0x30 of
                              Some (off, vlen) \<Rightarrow>
                                if off + vlen = len \<and> derTlv d len off 0x30 \<noteq> None
                                then (drop off d, vlen) else (d, len)
                            | None \<Rightarrow> (d, len)) in
            ext_entries d len ident 0
      | _ \<Rightarrow> False)"

section \<open>DER tag-length-value triples\<close>

text \<open>
  \<open>der_length ls n\<close>: the octets \<open>ls\<close> are a definite DER length of value \<open>n\<close>, short form or long
  form of at most eight octets.  \<open>tlv tag n c s\<close>: \<open>s\<close> starts with such a triple whose content,
  of length \<open>n\<close>, starts \<open>c\<close>.
\<close>

definition der_length :: "bytes \<Rightarrow> nat \<Rightarrow> bool" where
  "der_length ls n \<longleftrightarrow>
     (\<exists>b. ls = [b] \<and> b < 0x80 \<and> n = unat b) \<or>
     (\<exists>b bs. ls = b # bs \<and> 0x80 \<le> b \<and> unat (b AND 0x7F) = length bs \<and>
        bs \<noteq> [] \<and> length bs \<le> 8 \<and> n = unat (be_value bs))"

definition tlv :: "u8 \<Rightarrow> bytes \<Rightarrow> nat \<Rightarrow> bytes \<Rightarrow> bool" where
  "tlv tag hdr n c \<longleftrightarrow> (\<exists>ls. hdr = tag # ls \<and> der_length ls n) \<and> n \<le> length c"

lemma der_length_nonempty: "der_length ls n \<Longrightarrow> ls \<noteq> []"
  by (auto simp: der_length_def)

text \<open>Reading is local: it depends on the octets between \<open>off\<close> and \<open>len\<close> only.\<close>

lemma derTlv_local:
  assumes "off \<le> len" "len \<le> length der"
  shows "derTlv der len off tag =
           map_option (\<lambda>(h, n). (off + h, n)) (derTlv (drop off (take len der)) (len - off) 0 tag)"
proof -
  have d: "off < len \<Longrightarrow> drop off (take len der) ! 0 = der ! off" using assms by simp
  have d1: "len - off \<ge> 2 \<Longrightarrow> drop off (take len der) ! (Suc 0) = der ! (off + 1)"
    using assms by simp
  have sl: "take k (drop (Suc (Suc off)) (take len der)) = take k (drop (Suc (Suc off)) der)"
    if "k \<le> len - Suc (Suc off)" for k
    using that assms by (cases "off + 2 \<le> len") (auto simp: take_drop min_def)
  show ?thesis
    unfolding derTlv_def Let_def
    by (cases "off < len"; cases "2 \<le> len - off") (auto simp: d d1 sl)
qed

lemma derTlv_0_iff:
  "derTlv s (length s) 0 tag = Some (h, n) \<longleftrightarrow>
     (\<exists>hdr c. s = hdr @ c \<and> tlv tag hdr n c \<and> h = length hdr)"
proof (cases s)
  case Nil
  then show ?thesis by (auto simp: derTlv_def tlv_def)
next
  case t: (Cons t s1)
  show ?thesis
  proof (cases s1)
    case Nil
    then show ?thesis using t der_length_nonempty by (fastforce simp: derTlv_def tlv_def Cons_eq_append_conv)
  next
    case b: (Cons b ws)
    let ?k = "unat (b AND 0x7F)"
    have run: "derTlv s (length s) 0 tag =
        (if t \<noteq> tag then None
         else if b < 0x80 then (if unat b \<le> length ws then Some (2, unat b) else None)
         else if ?k = 0 \<or> ?k > 8 \<or> length ws < ?k then None
         else if unat (be_value (take ?k ws)) \<le> length ws - ?k
              then Some (2 + ?k, unat (be_value (take ?k ws))) else None)"
      unfolding derTlv_def Let_def t b by (auto simp: not_less)
    show ?thesis
    proof
      assume d: "derTlv s (length s) 0 tag = Some (h, n)"
      show "\<exists>hdr c. s = hdr @ c \<and> tlv tag hdr n c \<and> h = length hdr"
      proof (cases "b < 0x80")
        case True
        then show ?thesis using d t b unfolding run tlv_def der_length_def
          by (intro exI[of _ "[t, b]"] exI[of _ ws]) (auto split: if_splits)
      next
        case False
        then show ?thesis using d t b unfolding run tlv_def der_length_def
          by (intro exI[of _ "t # b # take ?k ws"] exI[of _ "drop ?k ws"])
            (auto simp: not_less split: if_splits)
      qed
    next
      assume "\<exists>hdr c. s = hdr @ c \<and> tlv tag hdr n c \<and> h = length hdr"
      then obtain ls c where "t # b # ws = (tag # ls) @ c" "der_length ls n" "n \<le> length c"
        "h = Suc (length ls)"
        using t b by (auto simp: tlv_def)
      then show "derTlv s (length s) 0 tag = Some (h, n)"
        unfolding run by (auto simp: der_length_def)
    qed
  qed
qed

lemma derTlv_iff:
  assumes "off \<le> len" "len \<le> length der"
  shows "derTlv der len off tag = Some (off', n) \<longleftrightarrow>
     (\<exists>hdr c. drop off (take len der) = hdr @ c \<and> tlv tag hdr n c \<and> off' = off + length hdr)"
proof -
  let ?s = "drop off (take len der)"
  have "len - off = length ?s" using assms by simp
  then have "derTlv der len off tag = Some (off', n) \<longleftrightarrow>
      (\<exists>h. derTlv ?s (length ?s) 0 tag = Some (h, n) \<and> off' = off + h)"
    unfolding derTlv_local[OF assms] by auto
  then show ?thesis unfolding derTlv_0_iff by blast
qed

section \<open>The BundleEID extraction\<close>

text \<open>
  \<open>tlv_holds tag s c\<close>: \<open>s\<close> starts with a triple of content \<open>c\<close>.  \<open>bundle_eid der uri\<close>: \<open>der\<close> is
  an IA5String of content \<open>uri\<close>, possibly inside a [0] wrapper; octets behind either are not
  looked at.
\<close>

definition tlv_holds :: "u8 \<Rightarrow> bytes \<Rightarrow> bytes \<Rightarrow> bool" where
  "tlv_holds tag s c \<longleftrightarrow>
     (\<exists>ls rest. s = tag # ls @ c @ rest \<and> der_length ls (length c))"

definition bundle_eid :: "bytes \<Rightarrow> bytes \<Rightarrow> bool" where
  "bundle_eid der uri \<longleftrightarrow>
     tlv_holds 0x16 der uri \<or> (\<exists>body. tlv_holds 0xA0 der body \<and> tlv_holds 0x16 body uri)"

lemma tlv_holds_slice:
  "(\<exists>hdr d. s = hdr @ d \<and> tlv tag hdr (length c) d \<and> take (length c) d = c) \<longleftrightarrow> tlv_holds tag s c"
proof
  assume "\<exists>hdr d. s = hdr @ d \<and> tlv tag hdr (length c) d \<and> take (length c) d = c"
  then show "tlv_holds tag s c"
    by (auto simp: tlv_holds_def tlv_def) (metis append_take_drop_id)
next
  assume "tlv_holds tag s c"
  then obtain ls rest where "s = tag # ls @ c @ rest" "der_length ls (length c)"
    by (auto simp: tlv_holds_def)
  then show "\<exists>hdr d. s = hdr @ d \<and> tlv tag hdr (length c) d \<and> take (length c) d = c"
    by (intro exI[of _ "tag # ls"] exI[of _ "c @ rest"]) (simp add: tlv_def)
qed

lemma derTlv_holds:
  assumes "off \<le> len" "len \<le> length der"
  shows "(\<exists>o'. derTlv der len off tag = Some (o', length c) \<and> take (length c) (drop o' der) = c) \<longleftrightarrow>
     tlv_holds tag (drop off (take len der)) c"
proof -
  let ?s = "drop off (take len der)"
  have slice: "take (length c) (drop (off + length hdr) der) = take (length c) d"
    if h: "?s = hdr @ d" "tlv tag hdr (length c) d" for hdr d
  proof -
    have "drop (length hdr) ?s = d" using h(1) by simp
    then have "drop (off + length hdr) (take len der) = d" by (simp add: add.commute)
    moreover have "length c \<le> length d" using h(2) by (simp add: tlv_def)
    moreover have "length hdr + length d = len - off"
      using arg_cong[OF h(1), of length] assms by simp
    ultimately have "take (length c) (drop (off + length hdr) (take len der)) = take (length c) d"
      "off + length hdr + length c \<le> len"
      using assms(1) by auto
    then show ?thesis by (simp add: take_drop min_def)
  qed
  show ?thesis
    unfolding derTlv_iff[OF assms] tlv_holds_slice[symmetric] by (metis (lifting) slice)
qed

lemma derTlv_content:
  assumes "off \<le> len" "len \<le> length der" "derTlv der len off tag = Some (o', n)"
  shows "tlv_holds tag (drop off (take len der)) (take n (drop o' der))"
    "length (take n (drop o' der)) = n"
proof -
  show *: "length (take n (drop o' der)) = n"
    using derTlv_forward[OF assms(3)] assms(2) by simp
  show "tlv_holds tag (drop off (take len der)) (take n (drop o' der))"
    unfolding derTlv_holds[OF assms(1,2), symmetric] * using assms(3) by simp
qed

text \<open>The two calls of \<open>derTlv\<close>, as one function of the buffer.\<close>

definition eid_slice :: "bytes \<Rightarrow> (nat \<times> nat) option" where
  "eid_slice d =
     (let (off, end) = (case derTlv d (length d) 0 0xA0 of
                          Some (off, vlen) \<Rightarrow> (off, off + vlen)
                        | None \<Rightarrow> (0, length d)) in derTlv d end off 0x16)"

lemma tlv_holds_unique:
  assumes "tlv_holds tag s c" "tlv_holds tag' s c'"
  shows "tag = tag'" "c = c'"
proof -
  show "tag = tag'" using assms by (auto simp: tlv_holds_def)
  show "c = c'"
    using assms derTlv_holds[of 0 "length s" s tag c] derTlv_holds[of 0 "length s" s tag c']
      \<open>tag = tag'\<close> by auto
qed

lemma eid_slice_iff:
  "(\<exists>off. eid_slice d = Some (off, length uri) \<and> take (length uri) (drop off d) = uri) \<longleftrightarrow>
     bundle_eid d uri" (is "?L \<longleftrightarrow> _")
proof (cases "derTlv d (length d) 0 0xA0")
  case None
  then have "?L \<longleftrightarrow> tlv_holds 0x16 d uri"
    using derTlv_holds[of 0 "length d" d "0x16" uri] by (simp add: eid_slice_def)
  moreover have "\<not> tlv_holds 0xA0 d body" for body
    using None derTlv_holds[of 0 "length d" d "0xA0" body] by simp
  ultimately show ?thesis by (simp add: bundle_eid_def)
next
  case (Some p)
  obtain off vlen where p: "p = (off, vlen)" by fastforce
  let ?b = "take vlen (drop off d)"
  note w = derTlv_content[OF _ _ Some[unfolded p], simplified]
  have l: "off + vlen \<le> length d" using derTlv_forward Some p by simp
  have "drop off (take (off + vlen) d) = ?b" by (simp add: take_drop add.commute)
  then have "?L \<longleftrightarrow> tlv_holds 0x16 ?b uri"
    using derTlv_holds[of off "off + vlen" d "0x16" uri] l Some p by (simp add: eid_slice_def)
  also have "\<dots> \<longleftrightarrow> bundle_eid d uri"
    unfolding bundle_eid_def using w(1) tlv_holds_unique by fastforce
  finally show ?thesis .
qed

text \<open>
  The whole function on a buffer of its stated length: it succeeds exactly on a BundleEID value
  whose URI is not empty, has no NUL octet and fits the output with its terminator, and then
  writes that URI and the terminator and nothing else.
\<close>

lemma tcpv4X509BundleEid_iff:
  assumes "length buf = cap"
  shows "tcpv4X509BundleEid (Some d) (length d) (Some buf) cap = (0, Some buf') \<longleftrightarrow>
     (\<exists>uri. bundle_eid d uri \<and> uri \<noteq> [] \<and> is_cstring uri \<and> length uri < cap \<and>
        buf' = uri @ 0 # drop (length uri + 1) buf)"
proof -
  have run: "tcpv4X509BundleEid (Some d) (length d) (Some buf) cap =
      (if cap = 0 then (-1, Some buf) else
       case eid_slice d of
         None \<Rightarrow> (-1, Some buf)
       | Some (off, vlen) \<Rightarrow>
           if vlen = 0 \<or> vlen \<ge> cap then (-1, Some buf)
           else
             let b = overwrite buf 0 (take vlen (drop off d)); b = b[vlen := 0] in
             if length (cstr b) \<noteq> vlen then (-1, Some b) else (0, Some b))"
    unfolding tcpv4X509BundleEid_def eid_slice_def by (simp add: case_prod_beta Let_def)
  have slice: "off + vlen \<le> length d" if "eid_slice d = Some (off, vlen)" for off vlen
  proof (cases "derTlv d (length d) 0 0xA0")
    case None
    then show ?thesis using that derTlv_forward(2) by (simp add: eid_slice_def)
  next
    case (Some p)
    obtain a b where p: "p = (a, b)" by fastforce
    have "a + b \<le> length d" using Some p derTlv_forward(2) by simp
    moreover have "off + vlen \<le> a + b"
      using that Some p derTlv_forward(2) by (simp add: eid_slice_def)
    ultimately show ?thesis by simp
  qed
  have wr: "(overwrite buf 0 u)[length u := 0] = u @ 0 # drop (length u + 1) buf"
    if "length u < cap" for u
    using that assms by (auto simp: overwrite_def list_update_append drop_eq_Nil2
        simp flip: Cons_nth_drop_Suc)
  have cs: "length (cstr (u @ 0 # t)) = length u \<longleftrightarrow> is_cstring u" for u t
  proof -
    have "length (takeWhile (\<lambda>c. c \<noteq> 0) (u @ 0 # t)) = length u \<longleftrightarrow> (0 :: u8) \<notin> set u"
      by (induction u) auto
    then show ?thesis by (simp add: cstr_def is_cstring_def)
  qed
  show ?thesis
  proof
    assume L: "tcpv4X509BundleEid (Some d) (length d) (Some buf) cap = (0, Some buf')"
    then obtain off vlen where e: "eid_slice d = Some (off, vlen)" "vlen \<noteq> 0" "vlen < cap"
      and b: "buf' = (overwrite buf 0 (take vlen (drop off d)))[vlen := 0]"
      and c: "length (cstr buf') = vlen"
      unfolding run by (auto simp: Let_def split: if_splits option.splits)
    let ?u = "take vlen (drop off d)"
    have l: "length ?u = vlen" using slice[OF e(1)] by simp
    then have "bundle_eid d ?u" using eid_slice_iff[of d ?u] e(1) by auto
    moreover have "buf' = ?u @ 0 # drop (length ?u + 1) buf" using wr[of ?u] b l e(3) by simp
    moreover from this have "is_cstring ?u" using cs[of ?u "drop (length ?u + 1) buf"] c l by simp
    ultimately show "\<exists>uri. bundle_eid d uri \<and> uri \<noteq> [] \<and> is_cstring uri \<and> length uri < cap \<and>
        buf' = uri @ 0 # drop (length uri + 1) buf"
      using l e(2,3) by (intro exI[of _ ?u]) auto
  next
    assume "\<exists>uri. bundle_eid d uri \<and> uri \<noteq> [] \<and> is_cstring uri \<and> length uri < cap \<and>
        buf' = uri @ 0 # drop (length uri + 1) buf"
    then obtain uri where u: "bundle_eid d uri" "uri \<noteq> []" "is_cstring uri" "length uri < cap"
      "buf' = uri @ 0 # drop (length uri + 1) buf" by blast
    then obtain off where "eid_slice d = Some (off, length uri)" "take (length uri) (drop off d) = uri"
      using eid_slice_iff by blast
    then show "tcpv4X509BundleEid (Some d) (length d) (Some buf) cap = (0, Some buf')"
      unfolding run using u wr[of uri] by (auto simp: Let_def)
  qed
qed

section \<open>The extension search\<close>

text \<open>
  \<open>extension e ident\<close>: \<open>e\<close> is the DER of one extension whose first element is the object
  identifier \<open>ident\<close>.
\<close>

definition extension :: "bytes \<Rightarrow> bytes \<Rightarrow> bool" where
  "extension e ident \<longleftrightarrow>
     (\<exists>ls body. e = 0x30 # ls @ body \<and> der_length ls (length body) \<and> tlv_holds 0x06 body ident)"

lemma derTlv_at:
  assumes "off \<le> length der" "drop off der = tag # ls @ body @ rest" "der_length ls (length body)"
  shows "derTlv der (length der) off tag = Some (off + Suc (length ls), length body)"
proof -
  have "drop off (take (length der) der) = (tag # ls) @ body @ rest" using assms by simp
  moreover have "tlv tag (tag # ls) (length body) (body @ rest)" using assms(3) by (simp add: tlv_def)
  ultimately show ?thesis
    unfolding derTlv_iff[OF assms(1) order_refl]
    by (intro exI[of _ "tag # ls"] exI[of _ "body @ rest"]) simp
qed

lemma ext_entries_step:
  assumes "off \<le> length der" "drop off der = e @ rest" "extension e ident"
  shows "ext_entries der (length der) oid off \<longleftrightarrow>
           ident = oid \<or> ext_entries der (length der) oid (off + length e)"
proof -
  obtain ls body where e: "e = 0x30 # ls @ body" "der_length ls (length body)"
    "tlv_holds 0x06 body ident"
    using assms(3) by (auto simp: extension_def)
  let ?o = "off + Suc (length ls)"
  have d: "drop off der = 0x30 # ls @ body @ rest" using assms(2) e(1) by simp
  note seq = derTlv_at[OF assms(1) d e(2)]
  have b: "drop ?o der = body @ rest" using arg_cong[OF d, of "drop (Suc (length ls))"]
    by (simp add: add.commute)
  have l: "?o + length body \<le> length der" "off < length der"
    using arg_cong[OF d, of length] by simp_all
  have "drop ?o (take (?o + length body) der) = body"
    using b by (simp add: drop_take)
  then obtain o2 where o2: "derTlv der (?o + length body) ?o 0x06 = Some (o2, length ident)"
    "take (length ident) (drop o2 der) = ident"
    using derTlv_holds[of ?o "?o + length body" der "0x06" ident] l e(3) by auto
  have len: "off + length e = Suc (off + length ls + length body)" using e(1) by simp
  show ?thesis
    unfolding len
    by (subst ext_entries.simps) (use seq o2 l in \<open>auto simp: Let_def\<close>)
qed

lemma ext_entries_list:
  assumes "list_all2 extension es idents" "off \<le> length der" "drop off der = concat es"
  shows "ext_entries der (length der) oid off \<longleftrightarrow> oid \<in> set idents"
  using assms
proof (induction es idents arbitrary: off rule: list_all2_induct)
  case Nil
  then show ?case by (simp add: ext_entries.simps)
next
  case (Cons e es ident idents)
  have d: "drop off der = e @ concat es" using Cons.prems by simp
  have "drop (off + length e) der = concat es" "off + length e \<le> length der"
    using arg_cong[OF d, of "drop (length e)"] arg_cong[OF d, of length] Cons.prems(1)
    by (simp_all add: add.commute)
  then show ?case using ext_entries_step[OF Cons.prems(1) d Cons.hyps(1)] Cons.IH by auto
qed

lemma extension_head: "extension e ident \<Longrightarrow> tlv_holds 0x30 (e @ rest) c \<Longrightarrow> \<exists>i. tlv_holds 0x06 c i"
proof -
  assume "extension e ident" "tlv_holds 0x30 (e @ rest) c"
  moreover from this(1) obtain ls body where "e = 0x30 # ls @ body" "der_length ls (length body)"
    "tlv_holds 0x06 body ident"
    by (auto simp: extension_def)
  moreover from this have "tlv_holds 0x30 (e @ rest) body" by (auto simp: tlv_holds_def)
  ultimately show ?thesis using tlv_holds_unique(2) by blast
qed

text \<open>The entries alone, and the entries behind the header of their SEQUENCE.\<close>

definition extension_list :: "bytes \<Rightarrow> bytes list \<Rightarrow> bool" where
  "extension_list d idents \<longleftrightarrow>
     (\<exists>es. list_all2 extension es idents \<and>
        (d = concat es \<or>
         (\<exists>ls. d = 0x30 # ls @ concat es \<and> der_length ls (length (concat es)))))"

lemma derTlv_tag:
  assumes "derTlv d (length d) off tag = Some p" "off < length d"
  shows "d ! off = tag"
  using assms by (auto simp: derTlv_def split: if_splits)

lemma list_all2_extension_hd:
  "list_all2 extension es idents \<Longrightarrow> concat es \<noteq> [] \<Longrightarrow>
     \<exists>e es' i is. es = e # es' \<and> idents = i # is \<and> extension e i"
  by (cases es; cases idents) auto

lemma tcpv4X509HasExtension_iff:
  assumes "extension_list d idents" "oid \<noteq> []"
  shows "tcpv4X509HasExtension (Some d) (length d) (Some oid) \<longleftrightarrow> oid \<in> set idents"
proof -
  obtain es where es: "list_all2 extension es idents" and
    d: "d = concat es \<or> (\<exists>ls. d = 0x30 # ls @ concat es \<and> der_length ls (length (concat es)))"
    using assms(1) by (auto simp: extension_list_def)
  let ?unwrapped = "ext_entries d (length d) oid 0"
  show ?thesis
    using d
  proof
    assume d: "d = concat es"
    have bare: "\<not> (derTlv d (length d) 0 0x30 = Some (off, vlen) \<and> off + vlen = length d \<and>
        derTlv d (length d) off 0x30 \<noteq> None)" for off vlen
    proof
      assume h: "derTlv d (length d) 0 0x30 = Some (off, vlen) \<and> off + vlen = length d \<and>
        derTlv d (length d) off 0x30 \<noteq> None"
      then have "off < length d" by (auto simp: derTlv_def split: if_splits)
      then have o: "d ! off = 0x30" using h derTlv_tag by blast
      have "tlv_holds 0x30 d (take vlen (drop off d))"
        using derTlv_content(1)[of 0 "length d" d "0x30" off vlen] h by simp
      moreover obtain e es' i where "es = e # es'" "extension e i"
        using list_all2_extension_hd[OF es] d \<open>off < length d\<close> by fastforce
      ultimately obtain j where "tlv_holds 0x06 (take vlen (drop off d)) j"
        using extension_head[of e i "concat es'"] d by auto
      then obtain t where t: "take vlen (drop off d) = 0x06 # t" by (auto simp: tlv_holds_def)
      then have "vlen \<noteq> 0" by (metis list.distinct(1) take0)
      then have "d ! off = 0x06" using arg_cong[OF t, of "\<lambda>l. l ! 0"] \<open>off < length d\<close> by simp
      then show False using o by simp
    qed
    have "tcpv4X509HasExtension (Some d) (length d) (Some oid) \<longleftrightarrow> ?unwrapped"
    proof (cases "derTlv d (length d) 0 0x30")
      case None
      then show ?thesis using assms(2) by (simp add: tcpv4X509HasExtension_def)
    next
      case (Some p)
      obtain off vlen where p: "p = (off, vlen)" by fastforce
      then have "\<not> (off + vlen = length d \<and> derTlv d (length d) off 0x30 \<noteq> None)"
        using bare[of off vlen] Some by blast
      then show ?thesis using Some p assms(2) by (auto simp: tcpv4X509HasExtension_def)
    qed
    then show ?thesis using ext_entries_list[OF es, of 0 d oid] d by simp
  next
    assume "\<exists>ls. d = 0x30 # ls @ concat es \<and> der_length ls (length (concat es))"
    then obtain ls where w: "d = 0x30 # ls @ concat es" "der_length ls (length (concat es))" by blast
    have t: "derTlv d (length d) 0 0x30 = Some (Suc (length ls), length (concat es))"
      using derTlv_at[of 0 d "0x30" ls "concat es" "[]"] w by simp
    have drop: "drop (Suc (length ls)) d = concat es" using w(1) by simp
    show ?thesis
    proof (cases "concat es = []")
      case True
      then have e: "idents = []" using es by (cases es; cases idents) (auto simp: extension_def)
      have none: "derTlv d (length d) (Suc (length ls)) 0x30 = None"
        using w(1) True by (simp add: derTlv_def)
      have inner: "derTlv d (Suc (length ls)) (Suc (length ls)) 0x06 = None"
        by (simp add: derTlv_def)
      have "\<not> ext_entries d (length d) oid 0"
        by (subst ext_entries.simps) (use t True inner in \<open>simp add: Let_def\<close>)
      then show ?thesis using none t e True assms(2)
        by (simp add: tcpv4X509HasExtension_def)
    next
      case False
      then obtain e es' i "is" where h: "es = e # es'" "extension e i"
        using list_all2_extension_hd[OF es] by blast
      then obtain ls2 body where b: "e = 0x30 # ls2 @ body" "der_length ls2 (length body)"
        by (auto simp: extension_def)
      have "derTlv d (length d) (Suc (length ls)) 0x30 \<noteq> None"
        using derTlv_at[of "Suc (length ls)" d "0x30" ls2 body "concat es'"] w(1) drop b h(1) by simp
      then have "tcpv4X509HasExtension (Some d) (length d) (Some oid) \<longleftrightarrow>
          ext_entries (concat es) (length (concat es)) oid 0"
        using t drop w(1) assms(2) by (simp add: tcpv4X509HasExtension_def Let_def)
      then show ?thesis using ext_entries_list[OF es, of 0 "concat es" oid] by simp
    qed
  qed
qed

section \<open>Node IDs in certificates\<close>

text \<open>A URI of neither known scheme is left in play.\<close>

lemma tcpv4X509IsNodeId_other:
  "take 4 u \<noteq> ascii ''ipn:'' \<Longrightarrow> take 4 u \<noteq> ascii ''dtn:'' \<Longrightarrow> tcpv4X509IsNodeId (Some u)"
  by (simp add: tcpv4X509IsNodeId_def)

section \<open>Properties\<close>

text \<open>The BundleEID extraction succeeds exactly on a DER IA5String, alone or inside a [0]
  wrapper, whose URI is not empty, has no embedded NUL and fits the output with its terminator;
  it then writes that URI and the terminator and nothing else.\<close>

theorem tcpv4X509BundleEid_exact:
  assumes "length buf = cap"
  shows "tcpv4X509BundleEid (Some d) (length d) (Some buf) cap = (0, Some buf') \<longleftrightarrow>
     (\<exists>uri. bundle_eid d uri \<and> uri \<noteq> [] \<and> is_cstring uri \<and> length uri < cap \<and>
        buf' = uri @ 0 # drop (length uri + 1) buf)"
  using assms by (rule tcpv4X509BundleEid_iff)

lemma tcpv4X509BundleEid_exact_witness:
  "tcpv4X509BundleEid (Some ([0xA0, 9, 0x16, 7] @ ascii ''ipn:5.0'')) 11 (Some (replicate 16 0xff)) 16 =
     (0, Some (ascii ''ipn:5.0'' @ 0 # replicate 8 0xff))"
proof -
  let ?d = "[0xA0, 9, 0x16, 7] @ ascii ''ipn:5.0''"
  have l: "der_length [9] 9" "der_length [7] 7" by (simp_all add: der_length_def)
  have "tlv_holds 0x16 ([0x16, 7] @ ascii ''ipn:5.0'') (ascii ''ipn:5.0'')"
    unfolding tlv_holds_def using l(2) by (intro exI[of _ "[7]"] exI[of _ "[]"]) (simp add: eval_nat_numeral)
  moreover have "tlv_holds 0xA0 ?d ([0x16, 7] @ ascii ''ipn:5.0'')"
    unfolding tlv_holds_def using l(1) by (intro exI[of _ "[9]"] exI[of _ "[]"]) (simp add: eval_nat_numeral)
  moreover have cs: "is_cstring (ascii ''ipn:5.0'')" by (simp add: is_cstring_def)
  have rep: "drop 8 (replicate 16 (0xff :: u8)) = replicate 8 0xff" by simp
  ultimately have "bundle_eid ?d (ascii ''ipn:5.0'')" unfolding bundle_eid_def by blast
  then have "\<exists>uri. bundle_eid ?d uri \<and> uri \<noteq> [] \<and> is_cstring uri \<and> length uri < 16 \<and>
      ascii ''ipn:5.0'' @ 0 # replicate 8 0xff = uri @ 0 # drop (length uri + 1) (replicate 16 0xff)"
    by (intro exI[of _ "ascii ''ipn:5.0''"]) (simp add: is_cstring_def rep)
  moreover have "length ?d = 11" by simp
  ultimately show ?thesis
    using tcpv4X509BundleEid_exact[of "replicate 16 0xff" 16 ?d] length_replicate[of 16 "0xff :: u8"] by metis
qed

text \<open>Over a well-formed extension list, with or without the SEQUENCE header around it, the
  search answers true exactly when the object identifier is one of the list's.\<close>

theorem tcpv4X509HasExtension_exact:
  assumes "extension_list d idents" "oid \<noteq> []"
  shows "tcpv4X509HasExtension (Some d) (length d) (Some oid) \<longleftrightarrow> oid \<in> set idents"
  using assms by (rule tcpv4X509HasExtension_iff)

lemma tcpv4X509HasExtension_exact_witness:
  "tcpv4X509HasExtension (Some [0x30, 12, 0x30, 5, 0x06, 3, 0x55, 0x1D, 0x0F, 0x30, 3, 0x06, 1, 9]) 14
     (Some [9]) \<and>
   \<not> tcpv4X509HasExtension (Some [0x30, 12, 0x30, 5, 0x06, 3, 0x55, 0x1D, 0x0F, 0x30, 3, 0x06, 1, 9]) 14
     (Some [0x55, 0x1D])"
proof -
  have e1: "extension [0x30, 5, 0x06, 3, 0x55, 0x1D, 0x0F] [0x55, 0x1D, 0x0F]"
    unfolding extension_def tlv_holds_def
    by (intro exI[of _ "[5]"] exI[of _ "[0x06, 3, 0x55, 0x1D, 0x0F]"] conjI exI[of _ "[3]"] exI[of _ "[]"])
      (simp_all add: der_length_def)
  have e2: "extension [0x30, 3, 0x06, 1, 9] [9]"
    unfolding extension_def tlv_holds_def
    by (intro exI[of _ "[3]"] exI[of _ "[0x06, 1, 9]"] conjI exI[of _ "[1]"] exI[of _ "[]"])
      (simp_all add: der_length_def)
  have "extension_list [0x30, 12, 0x30, 5, 0x06, 3, 0x55, 0x1D, 0x0F, 0x30, 3, 0x06, 1, 9]
      [[0x55, 0x1D, 0x0F], [9]]"
    unfolding extension_list_def using e1 e2
    by (intro exI[of _ "[[0x30, 5, 0x06, 3, 0x55, 0x1D, 0x0F], [0x30, 3, 0x06, 1, 9]]"] conjI disjI2
        exI[of _ "[12]"]) (simp_all add: der_length_def)
  from tcpv4X509HasExtension_exact[OF this, of "[9]"] tcpv4X509HasExtension_exact[OF this, of "[0x55, 0x1D]"]
  show ?thesis by (simp add: eval_nat_numeral)
qed

end
