(* ===== verification/BptunRoute.thy ===== *)
theory BptunRoute
  imports Prelude
begin

unbundle bit_operations_syntax

text \<open>
  The route table of bptun, APP/bptun/src/bptun_route.c: the destination of an IP packet selects
  the endpoint ID of the node that should receive it.  \<open>inet_pton\<close> is not part of the program:
  it is an argument, the parse of an address text in one family.  So is the answer of
  \<open>realloc\<close>, \<open>alloc n\<close> for a table of \<open>n\<close> entries.  Counts are numbers (a table of \<open>2^31\<close> routes
  does not fit the address space of the machines this runs on).

  The lemmas show that \<open>prefixMatches\<close> compares exactly the first bits of two addresses, that a
  lookup is the first longest-prefix match (interpretation of \<open>best_choice\<close>), what
  \<open>bptunRouteAdd\<close> accepts and how it changes the table.
\<close>

section \<open>Model\<close>

definition BPTUN_MAX_EID_LEN :: nat where "BPTUN_MAX_EID_LEN = 255"
definition INET6_ADDRSTRLEN :: nat where "INET6_ADDRSTRLEN = 46"

datatype family = AF_INET | AF_INET6

record BptunRoute =
  route_family :: family
  addr :: bytes
  prefixLen :: int
  eid :: bytes

record BptunRouteTable =
  routes :: "BptunRoute list"
  capacity :: nat

datatype route_error = NotARoute | EidTooLong | OutOfMemory | BadAddress | BadPrefixLength

type_synonym pton = "family \<Rightarrow> bytes \<Rightarrow> bytes option"

definition addRoute ::
    "(nat \<Rightarrow> bool) \<Rightarrow> BptunRouteTable \<Rightarrow> family \<Rightarrow> bytes \<Rightarrow> int \<Rightarrow> bytes \<Rightarrow> bool \<times> BptunRouteTable" where
  "addRoute alloc table fam address plen endpoint =
     (let addrLen = (if fam = AF_INET then 4 else 16);
          full = (length (routes table) = capacity table);
          cap = (if full then (if capacity table \<noteq> 0 then capacity table * 2 else 8)
                 else capacity table)
      in if full \<and> \<not> alloc cap then (False, table)
         else (True, table \<lparr> capacity := cap,
                 routes := routes table @
                   [\<lparr> route_family = fam,
                      addr = overwrite (replicate 16 0) 0 (take addrLen address),
                      prefixLen = plen, eid = endpoint \<rparr>] \<rparr>))"

text \<open>\<open>Inl\<close> is the return value -1 with the error text, and the table is returned either way.\<close>

definition bptunRouteAdd ::
    "pton \<Rightarrow> (nat \<Rightarrow> bool) \<Rightarrow> BptunRouteTable \<Rightarrow> bytes \<Rightarrow> (route_error + unit) \<times> BptunRouteTable" where
  "bptunRouteAdd inet_pton alloc table spec =
     (let equals = length (takeWhile (\<lambda>c. c \<noteq> of_char CHR ''='') spec);
          endpoint = drop (equals + 1) spec
      in if equals = length spec \<or> endpoint = [] then (Inl NotARoute, table)
         else if length endpoint > BPTUN_MAX_EID_LEN then (Inl EidTooLong, table)
         else if equals = 7 \<and> take 7 spec = ascii ''default'' then
           (case addRoute alloc table AF_INET (replicate 16 0) 0 endpoint of
              (False, table) \<Rightarrow> (Inl OutOfMemory, table)
            | (True, table) \<Rightarrow>
                (case addRoute alloc table AF_INET6 (replicate 16 0) 0 endpoint of
                   (False, table) \<Rightarrow> (Inl OutOfMemory, table)
                 | (True, table) \<Rightarrow> (Inr (), table)))
         else
           let slash = length (takeWhile (\<lambda>c. c \<noteq> of_char CHR ''/'') (take equals spec));
               addrText = take slash spec
           in if slash = 0 \<or> slash \<ge> INET6_ADDRSTRLEN then (Inl BadAddress, table)
              else
                (case (case inet_pton AF_INET addrText of
                         Some a \<Rightarrow> Some (AF_INET, 32, a)
                       | None \<Rightarrow> (case inet_pton AF_INET6 addrText of
                                    Some a \<Rightarrow> Some (AF_INET6, 128, a)
                                  | None \<Rightarrow> None)) of
                   None \<Rightarrow> (Inl BadAddress, table)
                 | Some (fam, maxPrefix, address) \<Rightarrow>
                     (let (value, used) = strtol10 (drop (slash + 1) spec); plen = int_cast value
                      in if slash < equals \<and>
                            (used = 0 \<or> slash + 1 + used \<noteq> equals \<or> plen < 0 \<or> plen > maxPrefix)
                         then (Inl BadPrefixLength, table)
                         else
                           (case addRoute alloc table fam address
                                   (if slash < equals then plen else maxPrefix) endpoint of
                              (False, table) \<Rightarrow> (Inl OutOfMemory, table)
                            | (True, table) \<Rightarrow> (Inr (), table)))))"

text \<open>\<open>((a[w] ^ b[w]) & (0xff << (8 - restBits))) == 0\<close>, in \<open>int\<close> as in C.\<close>

definition prefixMatches :: "bytes \<Rightarrow> bytes \<Rightarrow> nat \<Rightarrow> bool" where
  "prefixMatches a b plen =
     (let wholeBytes = plen div 8; restBits = plen mod 8
      in if take wholeBytes a \<noteq> take wholeBytes b then False
         else if restBits = 0 then True
         else (uint (a ! wholeBytes) XOR uint (b ! wholeBytes)) AND push_bit (8 - restBits) 0xff = (0 :: int))"

definition packetDest :: "bytes \<Rightarrow> (family \<times> bytes) option" where
  "packetDest packet =
     (if length packet < 1 then None
      else if drop_bit 4 (packet ! 0) = 4 then
        (if length packet < 16 + 4 then None else Some (AF_INET, drop 16 packet))
      else if drop_bit 4 (packet ! 0) = 6 then
        (if length packet < 24 + 16 then None else Some (AF_INET6, drop 24 packet))
      else None)"

definition bptunIsLinkLocal :: "bytes \<Rightarrow> bool" where
  "bptunIsLinkLocal packet =
     (case packetDest packet of
        None \<Rightarrow> False
      | Some (AF_INET, dest) \<Rightarrow>
          (dest ! 0 = 224 \<and> dest ! 1 = 0 \<and> dest ! 2 = 0) \<or>
          (dest ! 0 = 255 \<and> dest ! 1 = 255 \<and> dest ! 2 = 255 \<and> dest ! 3 = 255)
      | Some (AF_INET6, dest) \<Rightarrow> dest ! 0 = 0xff \<and> (dest ! 1) AND 0x0f \<le> 2)"

text \<open>The loop of \<open>bptunRouteLookup\<close>: the best route so far.\<close>

fun lookup_loop ::
    "family \<Rightarrow> bytes \<Rightarrow> BptunRoute option \<Rightarrow> BptunRoute list \<Rightarrow> BptunRoute option" where
  "lookup_loop fam dest best [] = best"
| "lookup_loop fam dest best (route # rest) =
     (if route_family route \<noteq> fam \<or> \<not> prefixMatches (addr route) dest (nat (prefixLen route))
      then lookup_loop fam dest best rest
      else lookup_loop fam dest
             (case best of
                None \<Rightarrow> Some route
              | Some b \<Rightarrow> if prefixLen route > prefixLen b then Some route else best) rest)"

definition bptunRouteLookup :: "BptunRouteTable \<Rightarrow> bytes \<Rightarrow> bytes option" where
  "bptunRouteLookup table packet =
     (case packetDest packet of
        None \<Rightarrow> None
      | Some (fam, dest) \<Rightarrow> map_option eid (lookup_loop fam dest None (routes table)))"

definition bptunRouteTableFree :: "BptunRouteTable \<Rightarrow> BptunRouteTable" where
  "bptunRouteTableFree table = table \<lparr> routes := [], capacity := 0 \<rparr>"

section \<open>Prefixes\<close>

text \<open>Bit \<open>i\<close> of an address, the most significant bit of the first octet being bit 0.\<close>

definition addr_bit :: "bytes \<Rightarrow> nat \<Rightarrow> bool" where
  "addr_bit a i = bit (a ! (i div 8)) (7 - i mod 8)"

lemma high_bits_equal:
  fixes x y :: u8
  assumes "0 < k" "k < 8"
  shows "(uint x XOR uint y) AND push_bit (8 - k) 0xff = (0 :: int) \<longleftrightarrow>
           (\<forall>i < k. bit x (7 - i) = bit y (7 - i))"
proof -
  have m: "bit (0xff :: int) n \<longleftrightarrow> n < 8" for n
  proof -
    have "(0xff :: int) = mask 8" by (simp add: mask_eq_exp_minus_1)
    then show ?thesis by (simp only: bit_mask_iff) simp
  qed
  have "(uint x XOR uint y) AND push_bit (8 - k) 0xff = (0 :: int) \<longleftrightarrow>
      (\<forall>n. \<not> ((bit x n \<noteq> bit y n) \<and> 8 - k \<le> n \<and> n - (8 - k) < 8))"
    by (auto simp: bit_eq_iff bit_simps m)
  also have "\<dots> \<longleftrightarrow> (\<forall>i < k. bit x (7 - i) = bit y (7 - i))"
  proof
    assume h: "\<forall>n. \<not> ((bit x n \<noteq> bit y n) \<and> 8 - k \<le> n \<and> n - (8 - k) < 8)"
    show "\<forall>i < k. bit x (7 - i) = bit y (7 - i)"
    proof (intro allI impI)
      fix i assume "i < k"
      then have "8 - k \<le> 7 - i" "7 - i - (8 - k) < 8" using assms by auto
      then show "bit x (7 - i) = bit y (7 - i)" using h by blast
    qed
  next
    assume h: "\<forall>i < k. bit x (7 - i) = bit y (7 - i)"
    show "\<forall>n. \<not> ((bit x n \<noteq> bit y n) \<and> 8 - k \<le> n \<and> n - (8 - k) < 8)"
    proof (intro allI notI)
      fix n assume n: "(bit x n \<noteq> bit y n) \<and> 8 - k \<le> n \<and> n - (8 - k) < 8"
      then have "n < 8" using bit_imp_le_length[of x n] bit_imp_le_length[of y n] by auto
      then have "7 - n < k" "7 - (7 - n) = n" using n by auto
      then show False using h n by metis
    qed
  qed
  finally show ?thesis .
qed

lemma octets_equal:
  fixes x y :: u8
  shows "x = y \<longleftrightarrow> (\<forall>i < 8. bit x (7 - i) = bit y (7 - i))"
proof
  assume h: "\<forall>i < 8. bit x (7 - i) = bit y (7 - i)"
  show "x = y"
  proof (rule bit_word_eqI)
    fix n assume "n < LENGTH(8)"
    then have "7 - n < 8" "7 - (7 - n) = n" by simp_all
    then show "bit x n = bit y n" using h by metis
  qed
qed simp

lemma all_bits_split:
  "(\<forall>i < n. P (i div 8) (i mod 8)) \<longleftrightarrow>
     (\<forall>w < n div 8. \<forall>k < 8. P w k) \<and> (\<forall>k < n mod 8. P (n div 8) k)" for n :: nat
proof
  assume h: "\<forall>i < n. P (i div 8) (i mod 8)"
  have dm: "8 * (n div 8) + n mod 8 = n" by simp
  have at: "P w k" if "8 * w + k < n" "k < 8" for w k
  proof -
    have "(8 * w + k) div 8 = w" "(8 * w + k) mod 8 = k" using that(2) by simp_all
    then show ?thesis using h[rule_format, OF that(1)] by simp
  qed
  have "P w k" if "w < n div 8" "k < 8" for w k
    by (rule at) (use that dm in linarith)+
  moreover have "P (n div 8) k" if "k < n mod 8" for k
    by (rule at) (use that dm mod_less_divisor[of 8 n] in linarith)+
  ultimately show "(\<forall>w < n div 8. \<forall>k < 8. P w k) \<and> (\<forall>k < n mod 8. P (n div 8) k)" by blast
next
  assume h: "(\<forall>w < n div 8. \<forall>k < 8. P w k) \<and> (\<forall>k < n mod 8. P (n div 8) k)"
  show "\<forall>i < n. P (i div 8) (i mod 8)"
  proof (intro allI impI)
    fix i assume "i < n"
    moreover have "8 * (i div 8) + i mod 8 = i" "8 * (n div 8) + n mod 8 = n" by simp_all
    ultimately consider "i div 8 < n div 8" | "i div 8 = n div 8" "i mod 8 < n mod 8"
      using div_le_mono[of i n 8] by linarith
    then show "P (i div 8) (i mod 8)" using h by cases (auto simp: mod_less_divisor)
  qed
qed

lemma prefixMatches_iff:
  assumes "plen \<le> 8 * length a" "plen \<le> 8 * length b"
  shows "prefixMatches a b plen \<longleftrightarrow> (\<forall>i < plen. addr_bit a i = addr_bit b i)"
proof -
  let ?w = "plen div 8" and ?r = "plen mod 8"
  have len: "?w \<le> length a" "?w \<le> length b" using assms by auto
  have "take ?w a = take ?w b \<longleftrightarrow> (\<forall>w < ?w. a ! w = b ! w)"
    using len by (auto simp: list_eq_iff_nth_eq)
  moreover have "?r \<noteq> 0 \<Longrightarrow>
      ((uint (a ! ?w) XOR uint (b ! ?w)) AND push_bit (8 - ?r) 0xff = (0 :: int)) \<longleftrightarrow>
      (\<forall>k < ?r. bit (a ! ?w) (7 - k) = bit (b ! ?w) (7 - k))"
    using high_bits_equal[of ?r "a ! ?w" "b ! ?w"] by simp
  ultimately have "prefixMatches a b plen \<longleftrightarrow>
      (\<forall>w < ?w. \<forall>k < 8. bit (a ! w) (7 - k) = bit (b ! w) (7 - k)) \<and>
      (\<forall>k < ?r. bit (a ! ?w) (7 - k) = bit (b ! ?w) (7 - k))"
    by (auto simp: prefixMatches_def Let_def octets_equal[symmetric])
  then show ?thesis
    unfolding addr_bit_def
    using all_bits_split[of plen "\<lambda>w k. bit (a ! w) (7 - k) = bit (b ! w) (7 - k)"] by simp
qed

section \<open>Longest prefix match\<close>

text \<open>
  The contract between a route table and its client: among the candidates of a list that cover
  a key, the choice is the first of the highest rank.
\<close>

locale best_choice =
  fixes covers :: "'r \<Rightarrow> 'k \<Rightarrow> bool" and rank :: "'r \<Rightarrow> int"
    and pick :: "'r list \<Rightarrow> 'k \<Rightarrow> 'r option"
  assumes pick_none: "pick rs k = None \<longleftrightarrow> (\<forall>r \<in> set rs. \<not> covers r k)"
    and pick_some: "pick rs k = Some r \<Longrightarrow>
      \<exists>as bs. rs = as @ r # bs \<and> covers r k \<and>
        (\<forall>a \<in> set as. covers a k \<longrightarrow> rank a < rank r) \<and>
        (\<forall>b \<in> set bs. covers b k \<longrightarrow> rank b \<le> rank r)"
begin

lemma pick_max:
  assumes "pick rs k = Some r" "r' \<in> set rs" "covers r' k"
  shows "rank r' \<le> rank r"
proof -
  obtain as bs where "rs = as @ r # bs" "\<forall>a \<in> set as. covers a k \<longrightarrow> rank a < rank r"
    "\<forall>b \<in> set bs. covers b k \<longrightarrow> rank b \<le> rank r"
    using pick_some[OF assms(1)] by blast
  then show ?thesis using assms(2,3) by force
qed

lemma pick_covers: "pick rs k = Some r \<Longrightarrow> r \<in> set rs \<and> covers r k"
  using pick_some by fastforce

text \<open>The two laws determine the choice.\<close>

lemma pick_iff:
  "pick rs k = Some r \<longleftrightarrow>
     (\<exists>as bs. rs = as @ r # bs \<and> covers r k \<and>
        (\<forall>a \<in> set as. covers a k \<longrightarrow> rank a < rank r) \<and>
        (\<forall>b \<in> set bs. covers b k \<longrightarrow> rank b \<le> rank r))" (is "_ \<longleftrightarrow> ?R r")
proof
  assume R: "?R r"
  then have "pick rs k \<noteq> None" unfolding pick_none by auto
  then obtain r' where r': "pick rs k = Some r'" by blast
  obtain as bs where a: "rs = as @ r # bs" "covers r k"
    "\<forall>a \<in> set as. covers a k \<longrightarrow> rank a < rank r"
    "\<forall>b \<in> set bs. covers b k \<longrightarrow> rank b \<le> rank r"
    using R by blast
  obtain as' bs' where b: "rs = as' @ r' # bs'" "covers r' k"
    "\<forall>a \<in> set as'. covers a k \<longrightarrow> rank a < rank r'"
    "\<forall>b \<in> set bs'. covers b k \<longrightarrow> rank b \<le> rank r'"
    using pick_some[OF r'] by blast
  from a(1) b(1) consider "as = as'" "r = r'" | t where "as' = as @ r # t" | t where "as = as' @ r' # t"
    using append_Cons_cases[of as r bs as' r' bs'] by auto
  then show "pick rs k = Some r"
  proof cases
    case 2
    then have "rank r < rank r'" using b(3) a(2) by simp
    moreover have "r' \<in> set bs" using a(1) b(1) 2 by auto
    ultimately show ?thesis using a(4) b(2) by fastforce
  next
    case 3
    then have "rank r' < rank r" using a(3) b(2) by simp
    moreover have "r \<in> set bs'" using a(1) b(1) 3 by auto
    ultimately show ?thesis using b(4) a(2) by fastforce
  qed (use r' in simp)
qed (rule pick_some)

text \<open>What adding a candidate behind the others changes.\<close>

lemma pick_snoc:
  "pick (rs @ [r]) k =
     (if covers r k \<and> (\<forall>r' \<in> set rs. covers r' k \<longrightarrow> rank r' < rank r) then Some r
      else pick rs k)"
proof (cases "covers r k \<and> (\<forall>r' \<in> set rs. covers r' k \<longrightarrow> rank r' < rank r)")
  case True
  then have "pick (rs @ [r]) k = Some r"
    unfolding pick_iff by (intro exI[of _ rs] exI[of _ "[]"]) simp
  then show ?thesis using True by simp
next
  case False
  have "pick (rs @ [r]) k = pick rs k"
  proof (cases "pick rs k")
    case None
    then have "\<not> covers r k" using False unfolding pick_none by blast
    then have "pick (rs @ [r]) k = None" using None unfolding pick_none by simp
    then show ?thesis using None by simp
  next
    case (Some q)
    then obtain as bs where q: "rs = as @ q # bs" "covers q k"
      "\<forall>a \<in> set as. covers a k \<longrightarrow> rank a < rank q"
      "\<forall>b \<in> set bs. covers b k \<longrightarrow> rank b \<le> rank q"
      using pick_some by blast
    have "covers r k \<longrightarrow> rank r \<le> rank q"
      using False pick_max[OF Some] by fastforce
    then have "pick (rs @ [r]) k = Some q"
      unfolding pick_iff using q by (intro exI[of _ as] exI[of _ "bs @ [r]"]) auto
    then show ?thesis using Some by simp
  qed
  then show ?thesis by (simp only: False if_False)
qed

end

definition route_covers :: "BptunRoute \<Rightarrow> family \<times> bytes \<Rightarrow> bool" where
  "route_covers r = (\<lambda>(fam, dest).
     route_family r = fam \<and> prefixMatches (addr r) dest (nat (prefixLen r)))"

definition lookup_route :: "BptunRoute list \<Rightarrow> family \<times> bytes \<Rightarrow> BptunRoute option" where
  "lookup_route rs = (\<lambda>(fam, dest). lookup_loop fam dest None rs)"

lemma lookup_loop_some:
  "lookup_loop fam dest (Some b) rs =
     (case lookup_loop fam dest None rs of
        None \<Rightarrow> Some b
      | Some r \<Rightarrow> if prefixLen b < prefixLen r then Some r else Some b)"
proof (induction rs arbitrary: b)
  case (Cons r rs)
  show ?case
    using Cons[of b] Cons[of r] by (auto split: option.splits)
qed simp

lemma lookup_route_Cons:
  "lookup_route (r # rs) k =
     (if route_covers r k
      then (case lookup_route rs k of
              None \<Rightarrow> Some r
            | Some q \<Rightarrow> if prefixLen r < prefixLen q then Some q else Some r)
      else lookup_route rs k)"
  by (cases k) (auto simp: lookup_route_def route_covers_def lookup_loop_some)

lemma lookup_route_Nil: "lookup_route [] k = None"
  by (cases k) (simp add: lookup_route_def)

lemma lookup_route_none: "lookup_route rs k = None \<longleftrightarrow> (\<forall>r \<in> set rs. \<not> route_covers r k)"
  by (induction rs) (auto simp: lookup_route_Nil lookup_route_Cons split: option.splits)

lemma lookup_route_some:
  "lookup_route rs k = Some r \<Longrightarrow>
     \<exists>as bs. rs = as @ r # bs \<and> route_covers r k \<and>
       (\<forall>a \<in> set as. route_covers a k \<longrightarrow> prefixLen a < prefixLen r) \<and>
       (\<forall>b \<in> set bs. route_covers b k \<longrightarrow> prefixLen b \<le> prefixLen r)"
proof (induction rs arbitrary: r)
  case (Cons q rs)
  show ?case
  proof (cases "route_covers q k \<and> (\<forall>s. lookup_route rs k = Some s \<longrightarrow> prefixLen s \<le> prefixLen q)")
    case True
    then have r: "r = q" using Cons.prems
      by (auto simp: lookup_route_Cons split: option.splits if_splits)
    have "\<forall>b \<in> set rs. route_covers b k \<longrightarrow> prefixLen b \<le> prefixLen q"
    proof (cases "lookup_route rs k")
      case None
      then show ?thesis by (simp add: lookup_route_none)
    next
      case (Some s)
      then show ?thesis using Cons.IH[OF Some] True by fastforce
    qed
    then show ?thesis using True r by (intro exI[of _ "[]"] exI[of _ rs]) simp
  next
    case False
    then have s: "lookup_route rs k = Some r" "route_covers q k \<longrightarrow> prefixLen q < prefixLen r"
      using Cons.prems by (auto simp: lookup_route_Cons split: option.splits if_splits)
    then obtain as bs where "rs = as @ r # bs" "route_covers r k"
      "\<forall>a \<in> set as. route_covers a k \<longrightarrow> prefixLen a < prefixLen r"
      "\<forall>b \<in> set bs. route_covers b k \<longrightarrow> prefixLen b \<le> prefixLen r"
      using Cons.IH by blast
    then show ?thesis using s(2) by (intro exI[of _ "q # as"] exI[of _ bs]) auto
  qed
qed (simp add: lookup_route_Nil)

interpretation lpm: best_choice route_covers prefixLen lookup_route
  by unfold_locales (rule lookup_route_none lookup_route_some, assumption?)+

lemma bptunRouteLookup_eq:
  "bptunRouteLookup table packet =
     Option.bind (packetDest packet) (\<lambda>k. map_option eid (lookup_route (routes table) k))"
  by (auto simp: bptunRouteLookup_def lookup_route_def split: option.splits)

section \<open>Adding routes\<close>

definition max_prefix :: "family \<Rightarrow> int" where
  "max_prefix fam = (if fam = AF_INET then 32 else 128)"

definition addr_len :: "family \<Rightarrow> nat" where
  "addr_len fam = (if fam = AF_INET then 4 else 16)"

text \<open>\<open>inet_pton\<close> writes four or sixteen octets.\<close>

definition pton_ok :: "pton \<Rightarrow> bool" where
  "pton_ok inet_pton \<longleftrightarrow> (\<forall>fam s a. inet_pton fam s = Some a \<longrightarrow> length a = addr_len fam)"

definition route_ok :: "BptunRoute \<Rightarrow> bool" where
  "route_ok r \<longleftrightarrow>
     length (addr r) = 16 \<and> 0 \<le> prefixLen r \<and> prefixLen r \<le> max_prefix (route_family r) \<and>
     eid r \<noteq> [] \<and> length (eid r) \<le> BPTUN_MAX_EID_LEN"

definition table_ok :: "BptunRouteTable \<Rightarrow> bool" where
  "table_ok table \<longleftrightarrow>
     length (routes table) \<le> capacity table \<and> list_all route_ok (routes table)"

text \<open>What it means that a route matches a packet, by the layout of the headers: the destination address is the octets
  from 16 on of an IPv4 header (RFC 791) and from 24 on of an IPv6 header (RFC 8200), that is from bit 128 and from bit 192.\<close>

definition packet_is :: "family \<Rightarrow> bytes \<Rightarrow> bool" where
  "packet_is fam packet \<longleftrightarrow>
     (if fam = AF_INET then 20 \<le> length packet \<and> unat (packet ! 0) div 16 = 4
      else 40 \<le> length packet \<and> unat (packet ! 0) div 16 = 6)"

definition dest_bit :: "family \<Rightarrow> bytes \<Rightarrow> nat \<Rightarrow> bool" where
  "dest_bit fam packet i = addr_bit packet ((if fam = AF_INET then 128 else 192) + i)"

definition route_matches :: "BptunRoute \<Rightarrow> bytes \<Rightarrow> bool" where
  "route_matches r packet \<longleftrightarrow> packet_is (route_family r) packet \<and>
     (\<forall>i < nat (prefixLen r). dest_bit (route_family r) packet i = addr_bit (addr r) i)"

lemma version_nibble: "unat (b :: u8) div 16 = v \<longleftrightarrow> drop_bit 4 b = word_of_nat v" if "v < 16"
proof -
  have "unat (drop_bit 4 b) = drop_bit 4 (unat b)" by (rule unat_drop_bit_eq)
  also have "\<dots> = unat b div 16" by (simp add: drop_bit_eq_div)
  finally have "unat (drop_bit 4 b) = unat b div 16" .
  moreover have "unat (word_of_nat v :: u8) = v" using that by (simp add: unat_of_nat)
  ultimately show ?thesis by (metis word_unat_eq_iff)
qed

lemma packet_is_dest:
  "packet_is AF_INET packet \<longleftrightarrow> (\<exists>dest. packetDest packet = Some (AF_INET, dest))"
  "packet_is AF_INET6 packet \<longleftrightarrow> (\<exists>dest. packetDest packet = Some (AF_INET6, dest))"
  by (auto simp: packet_is_def packetDest_def version_nibble)

lemma addr_bit_drop: "off + i div 8 < length p \<Longrightarrow> addr_bit (drop off p) i = addr_bit p (8 * off + i)"
  by (simp add: addr_bit_def)

lemma route_covers_matches:
  assumes d: "packetDest packet = Some k" and ok: "route_ok r"
  shows "route_covers r k \<longleftrightarrow> route_matches r packet"
proof (cases k)
  case (Pair fam dest)
  have k: "packet_is fam packet"
    using packet_is_dest d Pair by (cases fam) auto
  show ?thesis
  proof (cases "route_family r = fam")
    case False
    then have "\<not> packet_is (route_family r) packet"
      using packet_is_dest d Pair by (cases fam; cases "route_family r") auto
    then show ?thesis using False Pair by (simp add: route_covers_def route_matches_def)
  next
    case True
    let ?off = "if fam = AF_INET then 16 else 24 :: nat"
    have dest: "dest = drop ?off packet" "nat (prefixLen r) \<le> 8 * (length packet - ?off)" "?off \<le> length packet"
      using d Pair ok True k by (auto simp: packetDest_def packet_is_def route_ok_def max_prefix_def split: if_splits)
    have addr: "nat (prefixLen r) \<le> 8 * length (addr r)"
      using ok by (auto simp: route_ok_def max_prefix_def split: if_splits)
    have "prefixMatches (addr r) dest (nat (prefixLen r)) \<longleftrightarrow>
        (\<forall>i < nat (prefixLen r). addr_bit (addr r) i = addr_bit dest i)"
      using prefixMatches_iff[OF addr] dest by simp
    moreover have "addr_bit dest i = dest_bit fam packet i" if "i < nat (prefixLen r)" for i
    proof -
      have "?off + i div 8 < length packet" using that dest(2,3) by linarith
      from addr_bit_drop[OF this] show ?thesis by (simp add: dest(1) dest_bit_def)
    qed
    ultimately show ?thesis using True k Pair by (auto simp: route_covers_def route_matches_def)
  qed
qed

lemma no_dest_no_match: "packetDest packet = None \<Longrightarrow> \<not> route_matches r packet"
  using packet_is_dest by (cases "route_family r") (auto simp: route_matches_def)

definition new_route :: "family \<Rightarrow> bytes \<Rightarrow> int \<Rightarrow> bytes \<Rightarrow> BptunRoute" where
  "new_route fam address plen endpoint =
     \<lparr> route_family = fam, addr = take (addr_len fam) address @ replicate (16 - addr_len fam) 0,
       prefixLen = plen, eid = endpoint \<rparr>"

lemma addRoute_routes:
  assumes "addr_len fam \<le> length address"
  shows "routes (snd (addRoute alloc table fam address plen endpoint)) =
     routes table @ (if fst (addRoute alloc table fam address plen endpoint)
                     then [new_route fam address plen endpoint] else [])"
    "\<not> fst (addRoute alloc table fam address plen endpoint) \<Longrightarrow>
       snd (addRoute alloc table fam address plen endpoint) = table"
  using assms
  by (auto simp: addRoute_def Let_def new_route_def overwrite_def addr_len_def min_def)

lemma addRoute_ok:
  assumes "table_ok table" "addr_len fam \<le> length address" "0 \<le> plen" "plen \<le> max_prefix fam"
    "endpoint \<noteq> []" "length endpoint \<le> BPTUN_MAX_EID_LEN"
  shows "table_ok (snd (addRoute alloc table fam address plen endpoint))"
proof -
  have "route_ok (new_route fam address plen endpoint)"
    using assms by (auto simp: route_ok_def new_route_def addr_len_def)
  moreover have "length (routes (snd (addRoute alloc table fam address plen endpoint)))
      \<le> capacity (snd (addRoute alloc table fam address plen endpoint))"
    using assms(1) by (auto simp: table_ok_def addRoute_def Let_def)
  ultimately show ?thesis
    using assms(1) addRoute_routes(1)[OF assms(2), of alloc table plen endpoint]
    by (simp add: table_ok_def)
qed

lemma addRoute_alloc: "(\<And>n. alloc n) \<Longrightarrow> fst (addRoute alloc table fam address plen endpoint)"
  by (simp add: addRoute_def Let_def)

text \<open>The address argument, as the two calls of \<open>inet_pton\<close> read it.\<close>

definition read_addr :: "pton \<Rightarrow> bytes \<Rightarrow> (family \<times> int \<times> bytes) option" where
  "read_addr inet_pton text =
     (case inet_pton AF_INET text of
        Some a \<Rightarrow> Some (AF_INET, 32, a)
      | None \<Rightarrow> (case inet_pton AF_INET6 text of Some a \<Rightarrow> Some (AF_INET6, 128, a) | None \<Rightarrow> None))"

lemma read_addr_ok:
  "pton_ok inet_pton \<Longrightarrow> read_addr inet_pton text = Some (fam, m, a) \<Longrightarrow>
     addr_len fam \<le> length a \<and> m = max_prefix fam"
  by (auto simp: read_addr_def pton_ok_def max_prefix_def split: option.splits)

lemma bptunRouteAdd_run:
  assumes "equals = length (takeWhile (\<lambda>c. c \<noteq> of_char CHR ''='') spec)"
    "endpoint = drop (equals + 1) spec"
    "slash = length (takeWhile (\<lambda>c. c \<noteq> of_char CHR ''/'') (take equals spec))"
    "strtol10 (drop (slash + 1) spec) = (value, used)" "plen = int_cast value"
  shows "bptunRouteAdd inet_pton alloc table spec =
    (if equals = length spec \<or> endpoint = [] then (Inl NotARoute, table)
     else if length endpoint > BPTUN_MAX_EID_LEN then (Inl EidTooLong, table)
     else if equals = 7 \<and> take 7 spec = ascii ''default'' then
       (case addRoute alloc table AF_INET (replicate 16 0) 0 endpoint of
          (False, table) \<Rightarrow> (Inl OutOfMemory, table)
        | (True, table) \<Rightarrow>
            (case addRoute alloc table AF_INET6 (replicate 16 0) 0 endpoint of
               (False, table) \<Rightarrow> (Inl OutOfMemory, table)
             | (True, table) \<Rightarrow> (Inr (), table)))
     else if slash = 0 \<or> slash \<ge> INET6_ADDRSTRLEN then (Inl BadAddress, table)
     else (case read_addr inet_pton (take slash spec) of
             None \<Rightarrow> (Inl BadAddress, table)
           | Some (fam, maxPrefix, address) \<Rightarrow>
               if slash < equals \<and>
                  (used = 0 \<or> slash + 1 + used \<noteq> equals \<or> plen < 0 \<or> plen > maxPrefix)
               then (Inl BadPrefixLength, table)
               else (case addRoute alloc table fam address
                            (if slash < equals then plen else maxPrefix) endpoint of
                       (False, table) \<Rightarrow> (Inl OutOfMemory, table)
                     | (True, table) \<Rightarrow> (Inr (), table))))"
  using assms(4) unfolding assms(1,2,3,5)
  by (simp only: bptunRouteAdd_def read_addr_def Let_def split_beta fst_conv snd_conv)

text \<open>
  Every outcome: the table stays well-formed and keeps its routes.  Only a lack of memory can
  leave a half-added default route behind.
\<close>

definition grows :: "BptunRouteTable \<Rightarrow> BptunRouteTable \<Rightarrow> bool" where
  "grows table table' \<longleftrightarrow> table_ok table' \<and> (\<exists>new. routes table' = routes table @ new)"

lemma grows_refl: "table_ok table \<Longrightarrow> grows table table"
  by (simp add: grows_def)

lemma grows_trans: "grows a b \<Longrightarrow> grows b c \<Longrightarrow> grows a c"
  by (auto simp: grows_def)

lemma addRoute_grows:
  assumes "table_ok table" "addr_len fam \<le> length address" "0 \<le> plen" "plen \<le> max_prefix fam"
    "endpoint \<noteq> []" "length endpoint \<le> BPTUN_MAX_EID_LEN"
    "addRoute alloc table fam address plen endpoint = (b, table')"
  shows "grows table table'"
  using addRoute_ok[OF assms(1-6), of alloc] addRoute_routes(1)[OF assms(2), of alloc table plen endpoint]
    assms(7) by (simp add: grows_def)

lemma bptunRouteAdd_table:
  assumes "pton_ok inet_pton" "table_ok table" "bptunRouteAdd inet_pton alloc table spec = (r, table')"
  shows "grows table table' \<and> (\<forall>e. r = Inl e \<longrightarrow> e \<noteq> OutOfMemory \<longrightarrow> table' = table)"
proof -
  define equals where "equals = length (takeWhile (\<lambda>c. c \<noteq> of_char CHR ''='') spec)"
  define endpoint where "endpoint = drop (equals + 1) spec"
  define slash where "slash = length (takeWhile (\<lambda>c. c \<noteq> of_char CHR ''/'') (take equals spec))"
  obtain v used where v: "strtol10 (drop (slash + 1) spec) = (v, used)" by fastforce
  note run = bptunRouteAdd_run[OF equals_def endpoint_def slash_def v refl,
      of inet_pton alloc table, unfolded assms(3)]
  note grow = addRoute_grows[of _ _ _ _ endpoint]
  consider
    (unchanged) e where "r = Inl e" "table' = table"
  | (default) b1 t1 b2 t2 where
      "addRoute alloc table AF_INET (replicate 16 0) 0 endpoint = (b1, t1)"
      "addRoute alloc t1 AF_INET6 (replicate 16 0) 0 endpoint = (b2, t2)"
      "endpoint \<noteq> []" "length endpoint \<le> BPTUN_MAX_EID_LEN"
      "(r, table') = (if b1 then (if b2 then (Inr (), t2) else (Inl OutOfMemory, t2))
                      else (Inl OutOfMemory, t1))"
  | (prefix) fam m a plen b where "read_addr inet_pton (take slash spec) = Some (fam, m, a)"
      "addRoute alloc table fam a plen endpoint = (b, table')" "0 \<le> plen" "plen \<le> m"
      "endpoint \<noteq> []" "length endpoint \<le> BPTUN_MAX_EID_LEN"
      "r = (if b then Inr () else Inl OutOfMemory)"
  proof (cases "equals = length spec \<or> endpoint = [] \<or> length endpoint > BPTUN_MAX_EID_LEN")
    case True
    then show ?thesis using run unchanged by (auto split: if_splits)
  next
    case e: False
    show ?thesis
    proof (cases "equals = 7 \<and> take 7 spec = ascii ''default''")
      case True
      obtain b1 t1 where 1: "addRoute alloc table AF_INET (replicate 16 0) 0 endpoint = (b1, t1)"
        by fastforce
      obtain b2 t2 where 2: "addRoute alloc t1 AF_INET6 (replicate 16 0) 0 endpoint = (b2, t2)"
        by fastforce
      show ?thesis using run e True 1 2 by (intro default[OF 1 2]) auto
    next
      case d: False
      show ?thesis
      proof (cases "slash = 0 \<or> slash \<ge> INET6_ADDRSTRLEN")
        case True
        then show ?thesis using run e d unchanged by (simp split: if_splits)
      next
        case sl: False
        have e': "\<not> (equals = length spec \<or> endpoint = [])" "\<not> BPTUN_MAX_EID_LEN < length endpoint"
          using e by auto
        note run = run[unfolded e'[THEN eq_False[THEN iffD2]] d[THEN eq_False[THEN iffD2]]
            sl[THEN eq_False[THEN iffD2]] if_False]
        show ?thesis
        proof (cases "read_addr inet_pton (take slash spec)")
          case None
          then show ?thesis using run e d sl unchanged by simp
        next
          case (Some x)
          obtain fam m a where x: "x = (fam, m, a)" by (cases x)
          have m: "0 \<le> m" using Some x by (auto simp: read_addr_def split: option.splits)
          let ?p = "if slash < equals then int_cast v else m"
          obtain b t2 where ad: "addRoute alloc table fam a ?p endpoint = (b, t2)" by fastforce
          show ?thesis
          proof (cases "slash < equals \<and>
              (used = 0 \<or> slash + 1 + used \<noteq> equals \<or> int_cast v < 0 \<or> int_cast v > m)")
            case True
            then show ?thesis using run e d sl Some x unchanged by simp
          next
            case False
            then have "(r, table') = (if b then Inr () else Inl OutOfMemory, t2)"
              using run e d sl Some x ad by auto
            moreover have "0 \<le> ?p" "?p \<le> m" using False m by auto
            ultimately show ?thesis using prefix Some x ad e by simp
          qed
        qed
      qed
    qed
  qed
  then show ?thesis
  proof cases
    case unchanged
    then show ?thesis using grows_refl[OF assms(2)] by simp
  next
    case default
    have 1: "grows table t1"
      by (rule grow[OF assms(2) _ _ _ default(3,4,1)]) (simp_all add: addr_len_def max_prefix_def)
    then have "table_ok t1" by (simp add: grows_def)
    then have "grows t1 t2"
      by (rule grow[OF _ _ _ _ default(3,4,2)]) (simp_all add: addr_len_def max_prefix_def)
    with 1 have "grows table t2" by (rule grows_trans)
    with 1 show ?thesis using default(5) by (simp split: if_splits)
  next
    case prefix
    note ra = read_addr_ok[OF assms(1) prefix(1)]
    have "grows table table'"
      by (rule grow[OF assms(2) _ prefix(3) _ prefix(5,6,2)]) (use ra prefix(4) in simp_all)
    then show ?thesis using prefix(7) by simp
  qed
qed

text \<open>A prefix route as \<open>bptunRouteAdd\<close> documents it; the digits may say any value up to the bound.\<close>

definition prefix_spec :: "bytes \<Rightarrow> bytes \<Rightarrow> bytes \<Rightarrow> bytes" where
  "prefix_spec text digits endpoint =
     text @ of_char CHR ''/'' # digits @ of_char CHR ''='' # endpoint"

lemma takeWhile_until: "x \<notin> set a \<Longrightarrow> takeWhile (\<lambda>c. c \<noteq> x) (a @ x # b) = a"
  by (induction a) auto

lemma digit_not_equals: "list_all is_digit ds \<Longrightarrow> of_char CHR ''='' \<notin> set ds"
  by (auto simp: list_all_iff is_digit_def)

lemma bptunRouteAdd_spec_parts:
  assumes "of_char CHR ''/'' \<notin> set text" "of_char CHR ''='' \<notin> set text" "list_all is_digit ds"
    "spec = prefix_spec text ds e"
  shows "length (takeWhile (\<lambda>c. c \<noteq> of_char CHR ''='') spec) = length text + 1 + length ds"
    "drop (length text + 1 + length ds + 1) spec = e"
    "length (takeWhile (\<lambda>c. c \<noteq> of_char CHR ''/'') (take (length text + 1 + length ds) spec)) = length text"
    "take 7 spec = ascii ''default'' \<Longrightarrow> length text + 1 + length ds \<noteq> 7"
proof -
  let ?pre = "text @ of_char CHR ''/'' # ds"
  have s: "spec = ?pre @ of_char CHR ''='' # e" using assms(4) by (simp add: prefix_spec_def)
  have "of_char CHR ''='' \<notin> set ?pre" using assms(2) digit_not_equals[OF assms(3)] by auto
  then have t: "takeWhile (\<lambda>c. c \<noteq> of_char CHR ''='') spec = ?pre"
    unfolding s by (rule takeWhile_until)
  show "length (takeWhile (\<lambda>c. c \<noteq> of_char CHR ''='') spec) = length text + 1 + length ds"
    unfolding t by simp
  show "drop (length text + 1 + length ds + 1) spec = e" unfolding s by simp
  have "take (length text + 1 + length ds) spec = ?pre" unfolding s by simp
  then show "length (takeWhile (\<lambda>c. c \<noteq> of_char CHR ''/'') (take (length text + 1 + length ds) spec)) = length text"
    using takeWhile_until[OF assms(1)] by metis
  assume d: "take 7 spec = ascii ''default''"
  show "length text + 1 + length ds \<noteq> 7"
  proof
    assume "length text + 1 + length ds = 7"
    then have "length ?pre = 7" by simp
    then have "take 7 spec = ?pre" unfolding s by (metis append_eq_conv_conj)
    then have "of_char CHR ''/'' \<in> set (ascii ''default'')" using d by (metis in_set_conv_decomp)
    then show False by simp
  qed
qed

lemma bptunRouteAdd_prefix:
  assumes "text \<noteq> []" "length text < INET6_ADDRSTRLEN" "of_char CHR ''/'' \<notin> set text"
    "of_char CHR ''='' \<notin> set text" "read_addr inet_pton text = Some (fam, m, address)"
    "pton_ok inet_pton" "ds \<noteq> []" "list_all is_digit ds" "int (dec_from 0 ds) \<le> m"
    "e \<noteq> []" "length e \<le> BPTUN_MAX_EID_LEN" "\<And>n. alloc n"
  shows "\<exists>table'. bptunRouteAdd inet_pton alloc table (prefix_spec text ds e) = (Inr (), table') \<and>
     routes table' = routes table @ [new_route fam address (int (dec_from 0 ds)) e]"
proof -
  let ?spec = "prefix_spec text ds e"
  note parts = bptunRouteAdd_spec_parts[OF assms(3,4,8) refl, of e]
  note ra = read_addr_ok[OF assms(6,5)]
  have m: "m \<le> 128" using ra by (auto simp: max_prefix_def)
  then have small: "dec_from 0 ds < 2 ^ 63" using assms(9) by simp
  have d: "drop (length text + 1) ?spec = ds @ of_char CHR ''='' # e" by (simp add: prefix_spec_def)
  have "strtol10 (ds @ of_char CHR ''='' # e) = (int (dec_from 0 ds), length ds)"
    by (rule strtol10_digits[OF assms(8,7) _ small]) (simp add: is_digit_def)
  then have st: "strtol10 (drop (length text + 1) ?spec) = (int (dec_from 0 ds), length ds)"
    unfolding d .
  have c: "int (dec_from 0 ds) = int_cast (int (dec_from 0 ds))"
    using assms(9) m by (simp add: int_cast_small)
  have "fst (addRoute alloc table fam address (int (dec_from 0 ds)) e)"
    by (rule addRoute_alloc) (rule assms(12))
  then obtain table' where ad: "addRoute alloc table fam address (int (dec_from 0 ds)) e = (True, table')"
    by (cases "addRoute alloc table fam address (int (dec_from 0 ds)) e") auto
  have tk: "take (length text) ?spec = text" by (simp add: prefix_spec_def)
  have ne: "length text + 1 + length ds \<noteq> length ?spec" by (simp add: prefix_spec_def)
  have nd: "\<not> (length text + 1 + length ds = 7 \<and> take 7 ?spec = ascii ''default'')"
    using parts(4) by blast
  have "bptunRouteAdd inet_pton alloc table ?spec = (Inr (), table')"
    unfolding bptunRouteAdd_run[OF parts(1)[symmetric] parts(2)[symmetric] parts(3)[symmetric] st c]
      tk assms(5)
    using nd ne assms(1,2,7,9,10,11) ad by (auto simp: not_less not_le simp del: ascii_simps)
  moreover have "routes table' = routes table @ [new_route fam address (int (dec_from 0 ds)) e]"
    using addRoute_routes(1)[of fam address alloc table "int (dec_from 0 ds)" e] ra ad by simp
  ultimately show ?thesis by blast
qed

section \<open>Properties\<close>

text \<open>The prefix comparison is true exactly when the first \<open>plen\<close> bits of the two addresses
  agree.\<close>

theorem prefixMatches_bits:
  assumes "plen \<le> 8 * length a" "plen \<le> 8 * length b"
  shows "prefixMatches a b plen \<longleftrightarrow> (\<forall>i < plen. addr_bit a i = addr_bit b i)"
  using assms by (rule prefixMatches_iff)

lemma prefixMatches_bits_witness:
  "prefixMatches [10, 0xF0] [10, 0xF8] 12 \<and> \<not> prefixMatches [10, 0xF0] [10, 0xF8] 13"
proof -
  have "prefixMatches [10, 0xF0] [10, 0xF8] 12" by code_simp
  moreover have "addr_bit [10, 0xF0] 12 \<noteq> addr_bit [10, 0xF8] 12" by code_simp
  then have "\<not> (\<forall>i < 13. addr_bit [10, 0xF0] i = addr_bit [10, 0xF8] i)"
    by (intro notI) (drule spec[of _ 12], simp)
  then have "\<not> prefixMatches [10, 0xF0] [10, 0xF8] 13"
    using prefixMatches_bits[of 13 "[10, 0xF0]" "[10, 0xF8]"] by simp
  ultimately show ?thesis by blast
qed

text \<open>C40: a lookup over a well-formed table, which is what adding routes gives, returns the endpoint of the first route
  of the greatest prefix length among those that match the packet, and nothing only when none does.  A route matches a
  whole IPv4 or IPv6 header of its own family whose destination field agrees with the route's address in the bits of the
  prefix, counted from the most significant one.\<close>

theorem bptunRouteLookup_longest_match:
  assumes "table_ok table"
  shows "(bptunRouteLookup table packet = None \<longleftrightarrow> (\<forall>r \<in> set (routes table). \<not> route_matches r packet)) \<and>
    (bptunRouteLookup table packet = Some e \<longrightarrow>
      (\<exists>as r bs. routes table = as @ r # bs \<and> eid r = e \<and> route_matches r packet \<and>
         (\<forall>a \<in> set as. route_matches a packet \<longrightarrow> prefixLen a < prefixLen r) \<and>
         (\<forall>b \<in> set bs. route_matches b packet \<longrightarrow> prefixLen b \<le> prefixLen r)))"
proof (cases "packetDest packet")
  case None
  then show ?thesis using no_dest_no_match[OF None] by (simp add: bptunRouteLookup_eq)
next
  case (Some k)
  have covers: "route_covers r k \<longleftrightarrow> route_matches r packet" if "r \<in> set (routes table)" for r
    using route_covers_matches[OF Some] assms that by (auto simp: table_ok_def list_all_iff)
  have run: "bptunRouteLookup table packet = map_option eid (lookup_route (routes table) k)"
    using Some by (simp add: bptunRouteLookup_eq)
  have "\<exists>as r bs. routes table = as @ r # bs \<and> eid r = e \<and> route_matches r packet \<and>
      (\<forall>a \<in> set as. route_matches a packet \<longrightarrow> prefixLen a < prefixLen r) \<and>
      (\<forall>b \<in> set bs. route_matches b packet \<longrightarrow> prefixLen b \<le> prefixLen r)"
    if got: "bptunRouteLookup table packet = Some e"
  proof -
    obtain r where r: "lookup_route (routes table) k = Some r" "eid r = e" using got unfolding run by blast
    obtain as bs where ab: "routes table = as @ r # bs" "route_covers r k"
      "\<forall>a \<in> set as. route_covers a k \<longrightarrow> prefixLen a < prefixLen r"
      "\<forall>b \<in> set bs. route_covers b k \<longrightarrow> prefixLen b \<le> prefixLen r"
      using lpm.pick_some[OF r(1)] by blast
    have "route_matches r packet" using covers[of r] ab(1,2) by simp
    moreover have "\<forall>a \<in> set as. route_matches a packet \<longrightarrow> prefixLen a < prefixLen r"
      "\<forall>b \<in> set bs. route_matches b packet \<longrightarrow> prefixLen b \<le> prefixLen r"
      using covers ab(1,3,4) by simp_all
    ultimately show ?thesis using ab(1) r(2) by blast
  qed
  moreover have "bptunRouteLookup table packet = None \<longleftrightarrow> (\<forall>r \<in> set (routes table). \<not> route_covers r k)"
    unfolding run option.map_disc_iff by (rule lpm.pick_none)
  ultimately show ?thesis using covers by blast
qed

text \<open>A packet from 192.168.0.9 to 10.1.130.3, with a route whose prefix ends inside an octet.\<close>

lemma bptunRouteLookup_longest_match_witness:
  "bptunRouteLookup
     \<lparr>routes = [new_route AF_INET [10, 0, 0, 0] 8 [1], new_route AF_INET [10, 1, 128, 0] 17 [2],
        new_route AF_INET [10, 1, 64, 0] 18 [3]], capacity = 8\<rparr>
     (0x45 # replicate 11 0 @ [192, 168, 0, 9, 10, 1, 130, 3]) = Some [2]"
proof -
  let ?t = "\<lparr>routes = [new_route AF_INET [10, 0, 0, 0] 8 [1], new_route AF_INET [10, 1, 128, 0] 17 [2],
     new_route AF_INET [10, 1, 64, 0] 18 [3]], capacity = 8\<rparr>"
  let ?p = "0x45 # replicate 11 0 @ [192, 168, 0, 9, 10, 1, 130, 3] :: u8 list"
  have ok: "table_ok ?t" by code_simp
  have m: "route_matches (new_route AF_INET [10, 0, 0, 0] 8 [1]) ?p"
    "route_matches (new_route AF_INET [10, 1, 128, 0] 17 [2]) ?p"
    "\<not> route_matches (new_route AF_INET [10, 1, 64, 0] 18 [3]) ?p"
    by code_simp+
  note found = bptunRouteLookup_longest_match[OF ok, of ?p]
  have "\<not> (\<forall>r \<in> set (routes ?t). \<not> route_matches r ?p)" using m(1) by simp
  then obtain e where e: "bptunRouteLookup ?t ?p = Some e"
    using conjunct1[OF found] by blast
  then obtain as r bs where r: "routes ?t = as @ r # bs" "eid r = e" "route_matches r ?p"
    "\<forall>a \<in> set as. route_matches a ?p \<longrightarrow> prefixLen a < prefixLen r"
    "\<forall>b \<in> set bs. route_matches b ?p \<longrightarrow> prefixLen b \<le> prefixLen r"
    using conjunct2[OF found, rule_format, OF e] by blast
  have "e = [2]" using r m
    by (cases as; cases "tl as"; cases "tl (tl as)") (auto simp: new_route_def)
  then show ?thesis using e by simp
qed

text \<open>Adding a route keeps the table well-formed and keeps every route already in it; a
  refused specification leaves the table as it was unless memory ran out half way through a
  default route.\<close>

theorem bptunRouteAdd_preserves:
  assumes "pton_ok inet_pton" "table_ok table" "bptunRouteAdd inet_pton alloc table spec = (r, table')"
  shows "grows table table' \<and> (\<forall>e. r = Inl e \<longrightarrow> e \<noteq> OutOfMemory \<longrightarrow> table' = table)"
  using assms by (rule bptunRouteAdd_table)

definition pton_example :: pton where
  "pton_example fam text =
     (if fam = AF_INET \<and> text = ascii ''10.0.0.0'' then Some [10, 0, 0, 0] else None)"

lemma pton_example_ok: "pton_ok pton_example"
  by (simp add: pton_ok_def pton_example_def addr_len_def)

lemma bptunRouteAdd_preserves_witness:
  "let (r, t) = bptunRouteAdd pton_example (\<lambda>_. True) \<lparr>routes = [], capacity = 0\<rparr>
         (ascii ''10.0.0.0/8=ipn:2.1'')
   in grows \<lparr>routes = [], capacity = 0\<rparr> t"
proof -
  let ?a = "bptunRouteAdd pton_example (\<lambda>_. True) \<lparr>routes = [], capacity = 0\<rparr>
         (ascii ''10.0.0.0/8=ipn:2.1'')"
  obtain r t where a: "?a = (r, t)" by fastforce
  have "table_ok \<lparr>routes = [], capacity = 0\<rparr>" by (simp add: table_ok_def)
  from bptunRouteAdd_preserves[OF pton_example_ok this a] show ?thesis unfolding a by simp
qed

text \<open>A specification of an address, a prefix length within the address and an endpoint that
  fits is accepted and adds exactly that route behind the others, so that a packet it covers
  goes to its endpoint unless a route added earlier covers it with a prefix at least as long.\<close>

theorem bptunRouteAdd_routes_packet:
  assumes "text \<noteq> []" "length text < INET6_ADDRSTRLEN" "of_char CHR ''/'' \<notin> set text"
    "of_char CHR ''='' \<notin> set text" "read_addr inet_pton text = Some (fam, m, address)"
    "pton_ok inet_pton" "ds \<noteq> []" "list_all is_digit ds" "int (dec_from 0 ds) \<le> m"
    "e \<noteq> []" "length e \<le> BPTUN_MAX_EID_LEN" "\<forall>n. alloc n"
    "packetDest packet = Some (fam, dest)"
    "route_covers (new_route fam address (int (dec_from 0 ds)) e) (fam, dest)"
    "\<forall>r \<in> set (routes table). route_covers r (fam, dest) \<longrightarrow> prefixLen r < int (dec_from 0 ds)"
  shows "\<exists>table'. bptunRouteAdd inet_pton alloc table (prefix_spec text ds e) = (Inr (), table') \<and>
     bptunRouteLookup table' packet = Some e"
proof -
  obtain table' where t: "bptunRouteAdd inet_pton alloc table (prefix_spec text ds e) = (Inr (), table')"
    "routes table' = routes table @ [new_route fam address (int (dec_from 0 ds)) e]"
    using bptunRouteAdd_prefix[where alloc = alloc and table = table, OF assms(1-11) spec[OF assms(12)]] by blast
  have "lookup_route (routes table') (fam, dest) = Some (new_route fam address (int (dec_from 0 ds)) e)"
    unfolding t(2) lpm.pick_snoc using assms(14,15) by (simp add: new_route_def)
  then have "bptunRouteLookup table' packet = Some e"
    using assms(13) by (simp add: bptunRouteLookup_eq new_route_def)
  with t(1) show ?thesis by blast
qed

lemma bptunRouteAdd_routes_packet_witness:
  "\<exists>t. bptunRouteAdd pton_example (\<lambda>_. True) \<lparr>routes = [], capacity = 0\<rparr>
         (ascii ''10.0.0.0/8=ipn:2.1'') = (Inr (), t) \<and>
     bptunRouteLookup t (0x45 # replicate 15 0 @ [10, 1, 2, 3]) = Some (ascii ''ipn:2.1'')"
proof -
  have "\<exists>t. bptunRouteAdd pton_example (\<lambda>_. True) \<lparr>routes = [], capacity = 0\<rparr>
         (prefix_spec (ascii ''10.0.0.0'') (ascii ''8'') (ascii ''ipn:2.1'')) = (Inr (), t) \<and>
     bptunRouteLookup t (0x45 # replicate 15 0 @ [10, 1, 2, 3]) = Some (ascii ''ipn:2.1'')"
  proof (rule bptunRouteAdd_routes_packet[where fam = AF_INET and m = 32 and address = "[10, 0, 0, 0]"
        and dest = "[10, 1, 2, 3]"])
    show "read_addr pton_example (ascii ''10.0.0.0'') = Some (AF_INET, 32, [10, 0, 0, 0])"
      by (simp add: read_addr_def pton_example_def)
    show "packetDest (0x45 # replicate 15 0 @ [10, 1, 2, 3]) = Some (AF_INET, [10, 1, 2, 3])"
      by code_simp
    show "route_covers (new_route AF_INET [10, 0, 0, 0] (int (dec_from 0 (ascii ''8''))) (ascii ''ipn:2.1''))
        (AF_INET, [10, 1, 2, 3])" by code_simp
  qed (simp_all add: pton_example_ok INET6_ADDRSTRLEN_def BPTUN_MAX_EID_LEN_def is_digit_def)
  moreover have "prefix_spec (ascii ''10.0.0.0'') (ascii ''8'') (ascii ''ipn:2.1'') =
      ascii ''10.0.0.0/8=ipn:2.1''" by (simp add: prefix_spec_def)
  ultimately show ?thesis by simp
qed

text \<open>The prefix length is narrowed to \<open>int\<close> before it is checked, so a number that is no
  prefix length at all, \<open>4294967304 = 2^32 + 8\<close>, is taken as 8.\<close>

theorem bptunRouteAdd_narrowed_prefix:
  assumes "pton_ok inet_pton" "inet_pton AF_INET (ascii ''10.0.0.0'') = Some a" "alloc 8"
  shows "\<exists>table'. bptunRouteAdd inet_pton alloc \<lparr>routes = [], capacity = 0\<rparr>
      (ascii ''10.0.0.0/4294967304=ipn:2.1'') = (Inr (), table') \<and>
    routes table' = [new_route AF_INET a 8 (ascii ''ipn:2.1'')]"
proof -
  let ?spec = "ascii ''10.0.0.0/4294967304=ipn:2.1''"
  have a: "length a = 4" using assms(1,2) by (auto simp: pton_ok_def addr_len_def)
  have eq: "(19 :: nat) = length (takeWhile (\<lambda>c. c \<noteq> of_char CHR ''='') ?spec)" by simp
  have ep: "ascii ''ipn:2.1'' = drop (19 + 1) ?spec" by simp
  have sl: "(8 :: nat) = length (takeWhile (\<lambda>c. c \<noteq> of_char CHR ''/'') (take 19 ?spec))" by simp
  have "strtol10 (ascii ''4294967304'' @ ascii ''=ipn:2.1'') =
      (int (dec_from 0 (ascii ''4294967304'')), length (ascii ''4294967304''))"
    by (rule strtol10_digits) (simp_all add: is_digit_def)
  then have st: "strtol10 (drop (8 + 1) ?spec) = (4294967304, 10)" by simp
  have ic: "8 = int_cast 4294967304" by (simp add: int_cast_def)
  have rd: "read_addr inet_pton (take 8 ?spec) = Some (AF_INET, 32, a)"
    using assms(2) by (simp add: read_addr_def)
  show ?thesis
    unfolding bptunRouteAdd_run[OF eq ep sl st ic] rd
    using a assms(3)
    by (simp add: addRoute_def BPTUN_MAX_EID_LEN_def INET6_ADDRSTRLEN_def overwrite_def new_route_def addr_len_def)
qed

lemma bptunRouteAdd_narrowed_prefix_witness:
  "\<exists>table'. bptunRouteAdd pton_example (\<lambda>_. True) \<lparr>routes = [], capacity = 0\<rparr>
      (ascii ''10.0.0.0/4294967304=ipn:2.1'') = (Inr (), table') \<and>
    routes table' = [new_route AF_INET [10, 0, 0, 0] 8 (ascii ''ipn:2.1'')]"
  by (rule bptunRouteAdd_narrowed_prefix) (simp_all add: pton_example_ok, simp add: pton_example_def)

text \<open>Link-local addressing, as the code decides it: the IPv4 local multicast block and the
  limited broadcast, and IPv6 multicast of scope 0, 1 or 2, although the comment speaks of scopes
  1 and 2 only.\<close>

theorem bptunIsLinkLocal_exact:
  "bptunIsLinkLocal packet \<longleftrightarrow>
     (\<exists>dest. packetDest packet = Some (AF_INET, dest) \<and>
        (take 3 dest = [224, 0, 0] \<or> take 4 dest = [255, 255, 255, 255])) \<or>
     (\<exists>dest. packetDest packet = Some (AF_INET6, dest) \<and> dest ! 0 = 0xff \<and>
        (dest ! 1 AND 0x0f) \<in> {0, 1, 2})"
proof -
  have len: "4 \<le> length dest" if "packetDest packet = Some (fam, dest)" for fam dest
    using that by (auto simp: packetDest_def split: if_splits)
  have four: "(take 3 dest = [x, y, z] \<longleftrightarrow> dest ! 0 = x \<and> dest ! 1 = y \<and> dest ! 2 = z) \<and>
      (take 4 dest = [x, y, z, w] \<longleftrightarrow> dest ! 0 = x \<and> dest ! 1 = y \<and> dest ! 2 = z \<and> dest ! 3 = w)"
    if "4 \<le> length dest" for dest :: bytes and x y z w
    using that by (cases dest; cases "tl dest"; cases "tl (tl dest)"; cases "tl (tl (tl dest))") auto
  have scope: "s \<le> 2 \<longleftrightarrow> s \<in> {0, 1, 2}" for s :: u8
  proof -
    have "unat s = k \<longleftrightarrow> s = of_nat k" if "k < 3" for k
      using that by (auto simp: unat_of_nat word_of_nat_eq_iff take_bit_nat_eq_self)
    from this[of 0] this[of 1] this[of 2] show ?thesis
      by (simp add: word_le_nat_alt) arith
  qed
  show ?thesis
    unfolding bptunIsLinkLocal_def
    using len four scope by (auto split: option.splits family.splits)
qed

end
