(* ===== verification/ZclCrc.thy ===== *)
theory ZclCrc
  imports Prelude
begin

unbundle bit_operations_syntax

text \<open>
  The checksum of a zcl carrier: CRC-32C, reflected, by table
  (CLA/zcl/src/zclcodec.c, \<open>crcTable\<close> and \<open>zclCrc32c\<close>).

  The lemmas show that the table holds the eight-step remainders of the octets, so that the
  table-driven loop computes the bit-serial CRC, and that the checksum tells apart any two
  strings of one length that differ in one octet only.
\<close>

section \<open>Model\<close>

definition crcTable :: "u32 list" where
  "crcTable =
    [0x00000000, 0xf26b8303, 0xe13b70f7, 0x1350f3f4, 0xc79a971f, 0x35f1141c, 0x26a1e7e8, 0xd4ca64eb,
     0x8ad958cf, 0x78b2dbcc, 0x6be22838, 0x9989ab3b, 0x4d43cfd0, 0xbf284cd3, 0xac78bf27, 0x5e133c24,
     0x105ec76f, 0xe235446c, 0xf165b798, 0x030e349b, 0xd7c45070, 0x25afd373, 0x36ff2087, 0xc494a384,
     0x9a879fa0, 0x68ec1ca3, 0x7bbcef57, 0x89d76c54, 0x5d1d08bf, 0xaf768bbc, 0xbc267848, 0x4e4dfb4b,
     0x20bd8ede, 0xd2d60ddd, 0xc186fe29, 0x33ed7d2a, 0xe72719c1, 0x154c9ac2, 0x061c6936, 0xf477ea35,
     0xaa64d611, 0x580f5512, 0x4b5fa6e6, 0xb93425e5, 0x6dfe410e, 0x9f95c20d, 0x8cc531f9, 0x7eaeb2fa,
     0x30e349b1, 0xc288cab2, 0xd1d83946, 0x23b3ba45, 0xf779deae, 0x05125dad, 0x1642ae59, 0xe4292d5a,
     0xba3a117e, 0x4851927d, 0x5b016189, 0xa96ae28a, 0x7da08661, 0x8fcb0562, 0x9c9bf696, 0x6ef07595,
     0x417b1dbc, 0xb3109ebf, 0xa0406d4b, 0x522bee48, 0x86e18aa3, 0x748a09a0, 0x67dafa54, 0x95b17957,
     0xcba24573, 0x39c9c670, 0x2a993584, 0xd8f2b687, 0x0c38d26c, 0xfe53516f, 0xed03a29b, 0x1f682198,
     0x5125dad3, 0xa34e59d0, 0xb01eaa24, 0x42752927, 0x96bf4dcc, 0x64d4cecf, 0x77843d3b, 0x85efbe38,
     0xdbfc821c, 0x2997011f, 0x3ac7f2eb, 0xc8ac71e8, 0x1c661503, 0xee0d9600, 0xfd5d65f4, 0x0f36e6f7,
     0x61c69362, 0x93ad1061, 0x80fde395, 0x72966096, 0xa65c047d, 0x5437877e, 0x4767748a, 0xb50cf789,
     0xeb1fcbad, 0x197448ae, 0x0a24bb5a, 0xf84f3859, 0x2c855cb2, 0xdeeedfb1, 0xcdbe2c45, 0x3fd5af46,
     0x7198540d, 0x83f3d70e, 0x90a324fa, 0x62c8a7f9, 0xb602c312, 0x44694011, 0x5739b3e5, 0xa55230e6,
     0xfb410cc2, 0x092a8fc1, 0x1a7a7c35, 0xe811ff36, 0x3cdb9bdd, 0xceb018de, 0xdde0eb2a, 0x2f8b6829,
     0x82f63b78, 0x709db87b, 0x63cd4b8f, 0x91a6c88c, 0x456cac67, 0xb7072f64, 0xa457dc90, 0x563c5f93,
     0x082f63b7, 0xfa44e0b4, 0xe9141340, 0x1b7f9043, 0xcfb5f4a8, 0x3dde77ab, 0x2e8e845f, 0xdce5075c,
     0x92a8fc17, 0x60c37f14, 0x73938ce0, 0x81f80fe3, 0x55326b08, 0xa759e80b, 0xb4091bff, 0x466298fc,
     0x1871a4d8, 0xea1a27db, 0xf94ad42f, 0x0b21572c, 0xdfeb33c7, 0x2d80b0c4, 0x3ed04330, 0xccbbc033,
     0xa24bb5a6, 0x502036a5, 0x4370c551, 0xb11b4652, 0x65d122b9, 0x97baa1ba, 0x84ea524e, 0x7681d14d,
     0x2892ed69, 0xdaf96e6a, 0xc9a99d9e, 0x3bc21e9d, 0xef087a76, 0x1d63f975, 0x0e330a81, 0xfc588982,
     0xb21572c9, 0x407ef1ca, 0x532e023e, 0xa145813d, 0x758fe5d6, 0x87e466d5, 0x94b49521, 0x66df1622,
     0x38cc2a06, 0xcaa7a905, 0xd9f75af1, 0x2b9cd9f2, 0xff56bd19, 0x0d3d3e1a, 0x1e6dcdee, 0xec064eed,
     0xc38d26c4, 0x31e6a5c7, 0x22b65633, 0xd0ddd530, 0x0417b1db, 0xf67c32d8, 0xe52cc12c, 0x1747422f,
     0x49547e0b, 0xbb3ffd08, 0xa86f0efc, 0x5a048dff, 0x8ecee914, 0x7ca56a17, 0x6ff599e3, 0x9d9e1ae0,
     0xd3d3e1ab, 0x21b862a8, 0x32e8915c, 0xc083125f, 0x144976b4, 0xe622f5b7, 0xf5720643, 0x07198540,
     0x590ab964, 0xab613a67, 0xb831c993, 0x4a5a4a90, 0x9e902e7b, 0x6cfbad78, 0x7fab5e8c, 0x8dc0dd8f,
     0xe330a81a, 0x115b2b19, 0x020bd8ed, 0xf0605bee, 0x24aa3f05, 0xd6c1bc06, 0xc5914ff2, 0x37faccf1,
     0x69e9f0d5, 0x9b8273d6, 0x88d28022, 0x7ab90321, 0xae7367ca, 0x5c18e4c9, 0x4f48173d, 0xbd23943e,
     0xf36e6f75, 0x0105ec76, 0x12551f82, 0xe03e9c81, 0x34f4f86a, 0xc69f7b69, 0xd5cf889d, 0x27a40b9e,
     0x79b737ba, 0x8bdcb4b9, 0x988c474d, 0x6ae7c44e, 0xbe2da0a5, 0x4c4623a6, 0x5f16d052, 0xad7d5351]"

definition crc_update :: "u32 \<Rightarrow> u8 \<Rightarrow> u32" where
  "crc_update crc d = crcTable ! unat ((crc XOR ucast d) AND 0xff) XOR drop_bit 8 crc"

definition zclCrc32c :: "u32 \<Rightarrow> bytes \<Rightarrow> u32" where
  "zclCrc32c crc data = NOT (foldl crc_update (NOT crc) data)"

section \<open>The bit-serial checksum\<close>

definition CRC_POLY :: u32 where "CRC_POLY = 0x82f63b78"

definition crc_step :: "u32 \<Rightarrow> u32" where
  "crc_step x = drop_bit 1 x XOR (if bit x 0 then CRC_POLY else 0)"

fun crc_steps :: "nat \<Rightarrow> u32 \<Rightarrow> u32" where
  "crc_steps 0 x = x"
| "crc_steps (Suc n) x = crc_steps n (crc_step x)"

lemma length_crcTable [simp]: "length crcTable = 256"
  by (simp add: crcTable_def)

lemma crc_step_xor: "crc_step (x XOR y) = crc_step x XOR crc_step y"
  by (rule bit_word_eqI) (auto simp: crc_step_def bit_simps)

lemma crc_steps_xor: "crc_steps n (x XOR y) = crc_steps n x XOR crc_steps n y"
  by (induction n arbitrary: x y) (simp_all add: crc_step_xor)

lemma xor_cancel: "a XOR c = b XOR c \<longleftrightarrow> a = b" for a b c :: "'a::len word"
  by (metis xor.assoc xor_self_eq xor.right_neutral)

text \<open>The top bit of the result tells whether the polynomial was added.\<close>

lemma crc_step_top: "bit (crc_step x) 31 = bit x 0"
proof -
  have "bit CRC_POLY 31" by (simp add: CRC_POLY_def)
  moreover have "\<not> bit (drop_bit 1 x) 31"
    using bit_imp_le_length[of x 32] by (auto simp: bit_simps)
  ultimately show ?thesis by (auto simp: crc_step_def bit_simps)
qed

lemma crc_step_inj: "crc_step x = crc_step y \<Longrightarrow> x = y"
proof (rule bit_word_eqI)
  fix n assume eq: "crc_step x = crc_step y" and n: "n < LENGTH(32)"
  have low: "bit x 0 = bit y 0" using eq crc_step_top by metis
  then have d: "drop_bit 1 x = drop_bit 1 y"
    using eq low unfolding crc_step_def by (simp add: xor_cancel)
  show "bit x n = bit y n"
  proof (cases n)
    case (Suc k)
    have "bit (drop_bit 1 x) k = bit (drop_bit 1 y) k" using d by simp
    then show ?thesis using Suc by (simp add: bit_simps)
  qed (use low in simp)
qed

lemma crc_steps_inj: "crc_steps n x = crc_steps n y \<Longrightarrow> x = y"
  by (induction n arbitrary: x y) (auto dest: crc_step_inj)

lemma crc_steps_high:
  assumes "\<forall>i < n. \<not> bit x i"
  shows "crc_steps n x = drop_bit n x"
  using assms
proof (induction n arbitrary: x)
  case (Suc n)
  have s: "crc_step x = drop_bit 1 x" using Suc.prems by (simp add: crc_step_def)
  have "\<forall>i < n. \<not> bit (crc_step x) i" using Suc.prems unfolding s by (simp add: bit_simps)
  then have "crc_steps n (crc_step x) = drop_bit n (crc_step x)" by (rule Suc.IH)
  then show ?case using s by (simp add: drop_bit_drop_bit)
qed simp

text \<open>The table, entry by entry.\<close>

lemma add_high_bit:
  assumes "j < 2 ^ k"
  shows "(word_of_nat (2 ^ k + j) :: u32) = word_of_nat j XOR word_of_nat (2 ^ k)"
proof -
  have "\<not> bit j k" using assms by (simp add: bit_iff_odd)
  then have "2 ^ k AND j = 0" by (simp add: and_exp_eq_0_iff_not_bit and.commute)
  then have "2 ^ k + j = j XOR 2 ^ k" by (simp add: disjunctive_add_eq_xor xor.commute)
  then show ?thesis by (simp only: of_nat_xor_eq)
qed

definition steps_table :: "nat \<Rightarrow> u32 list" where
  "steps_table n = map (\<lambda>i. crc_steps 8 (word_of_nat i)) [0..<2 ^ n]"

lemma steps_table_0: "steps_table 0 = [0]"
proof -
  have "crc_steps n 0 = 0" for n by (induction n) (simp_all add: crc_step_def)
  then show ?thesis by (simp add: steps_table_def)
qed

lemma steps_table_Suc:
  "steps_table (Suc n) = steps_table n @ map (\<lambda>x. x XOR crc_steps 8 (2 ^ n)) (steps_table n)"
proof -
  have u: "[0..<2 ^ Suc n] = [0..<2 ^ n] @ map (\<lambda>j. 2 ^ n + j) [0..<2 ^ n]"
    using upt_add_eq_append[of 0 "2 ^ n" "2 ^ n"] map_add_upt[of "2 ^ n" "2 ^ n"]
    by (simp add: add.commute mult_2)
  show ?thesis
    unfolding steps_table_def u using add_high_bit[of _ n]
    by (auto simp: crc_steps_xor)
qed

lemma crc_steps_numeral:
  "crc_steps (numeral n) x = crc_steps (pred_numeral n) (crc_step x)"
  by (simp add: numeral_eq_Suc)

lemma crc_steps_bases:
    "crc_steps 8 1 = 0xf26b8303"
    "crc_steps 8 2 = 0xe13b70f7"
    "crc_steps 8 4 = 0xc79a971f"
    "crc_steps 8 8 = 0x8ad958cf"
    "crc_steps 8 16 = 0x105ec76f"
    "crc_steps 8 32 = 0x20bd8ede"
    "crc_steps 8 64 = 0x417b1dbc"
    "crc_steps 8 128 = 0x82f63b78"
  by (simp_all add: crc_steps_numeral crc_step_def CRC_POLY_def drop_bit_eq_div bit_0)

lemma crcTable_steps: "crcTable = steps_table 8"
proof -
  have step: "steps_table n = steps_table m @ map (\<lambda>x. x XOR crc_steps 8 (2 ^ m)) (steps_table m)"
    if "n = Suc m" for n m
    unfolding that by (rule steps_table_Suc)
  have "steps_table 3 = [0x00000000, 0xf26b8303, 0xe13b70f7, 0x1350f3f4,
      0xc79a971f, 0x35f1141c, 0x26a1e7e8, 0xd4ca64eb]"
    using step[of 1 0] step[of 2 1] step[of 3 2] by (simp add: steps_table_0 crc_steps_bases)
  then show ?thesis
    using step[of 4 3] step[of 5 4] step[of 6 5] step[of 7 6] step[of 8 7]
    by (simp add: crcTable_def crc_steps_bases)
qed

lemma and_octet: "x AND 0xff = take_bit 8 x" for x :: u32
  by (simp add: take_bit_eq_mask mask_eq_exp_minus_1)

lemma octet_split: "x = (x AND 0xff) XOR push_bit 8 (drop_bit 8 x)" for x :: u32
  unfolding and_octet by (rule bit_word_eqI) (auto simp: bit_take_bit_iff bit_push_bit_iff bit_xor_iff bit_drop_bit_eq)

lemma low_octet: "unat (x AND 0xff) < 256" for x :: u32
proof -
  have "x AND 0xff = take_bit 8 x" by (rule and_octet)
  then show ?thesis by (simp add: unsigned_take_bit_eq take_bit_nat_less_exp[of 8, simplified])
qed

lemma crcTable_nth: "crcTable ! unat (x AND 0xff) = crc_steps 8 (x AND 0xff)"
  unfolding crcTable_steps steps_table_def using low_octet[of x] by simp

lemma drop_bit_octet: "drop_bit 8 (ucast d :: u32) = 0" for d :: u8
  by (rule bit_word_eqI) (auto simp: bit_simps dest: bit_imp_le_length)

lemma crc_update_serial: "crc_update crc d = crc_steps 8 (crc XOR ucast d)"
proof -
  let ?x = "crc XOR ucast d"
  note split = octet_split[of ?x]
  have "crc_steps 8 (push_bit 8 (drop_bit 8 ?x)) = drop_bit 8 (push_bit 8 (drop_bit 8 ?x))"
    by (rule crc_steps_high) (simp add: bit_simps)
  also have "\<dots> = drop_bit 8 ?x"
    by (rule bit_word_eqI) (auto simp: bit_simps dest: bit_imp_le_length)
  also have "\<dots> = drop_bit 8 crc" by (simp add: drop_bit_xor drop_bit_octet)
  finally have high: "crc_steps 8 (push_bit 8 (drop_bit 8 ?x)) = drop_bit 8 crc" .
  have "crc_steps 8 ?x = crc_steps 8 (?x AND 0xff) XOR drop_bit 8 crc"
    using arg_cong[OF split, of "crc_steps 8"] unfolding crc_steps_xor[of 8 "?x AND 0xff"] high .
  then show ?thesis by (simp only: crc_update_def crcTable_nth)
qed

definition crc_serial :: "u32 \<Rightarrow> bytes \<Rightarrow> u32" where
  "crc_serial crc data = NOT (foldl (\<lambda>c d. crc_steps 8 (c XOR ucast d)) (NOT crc) data)"

lemma zclCrc32c_serial: "zclCrc32c = crc_serial"
  by (intro ext) (simp add: zclCrc32c_def crc_serial_def crc_update_serial[abs_def])

section \<open>What the checksum tells apart\<close>

lemma zclCrc32c_append: "zclCrc32c crc (a @ b) = zclCrc32c (zclCrc32c crc a) b"
  by (simp add: zclCrc32c_def)

lemma crc_update_inj_crc: "crc_update c d = crc_update c' d \<Longrightarrow> c = c'"
  using crc_steps_inj[of 8 "c XOR ucast d" "c' XOR ucast d"] by (simp add: crc_update_serial xor_cancel)

lemma crc_update_inj_octet: "crc_update c d = crc_update c d' \<Longrightarrow> d = d'"
proof -
  assume "crc_update c d = crc_update c d'"
  then have "ucast d XOR c = (ucast d' XOR c :: u32)"
    using crc_steps_inj[of 8 "c XOR ucast d" "c XOR ucast d'"] by (simp add: crc_update_serial xor.commute)
  then have "(ucast d :: u32) = ucast d'" by (simp add: xor_cancel)
  then have "ucast (ucast d :: u32) = (ucast (ucast d' :: u32) :: u8)" by simp
  moreover have "ucast (ucast x :: u32) = x" for x :: u8
    by (rule bit_word_eqI) (simp add: bit_simps)
  ultimately show ?thesis by simp
qed

lemma zclCrc32c_inj: "zclCrc32c c data = zclCrc32c c' data \<Longrightarrow> c = c'"
proof -
  have "foldl crc_update a data = foldl crc_update b data \<Longrightarrow> a = b" for a b
    by (induction data arbitrary: a b) (auto dest: crc_update_inj_crc)
  moreover assume "zclCrc32c c data = zclCrc32c c' data"
  ultimately show ?thesis by (fastforce simp: zclCrc32c_def)
qed

lemma zclCrc32c_octet:
  assumes "d \<noteq> d'"
  shows "zclCrc32c c (a @ d # b) \<noteq> zclCrc32c c (a @ d' # b)"
proof
  assume "zclCrc32c c (a @ d # b) = zclCrc32c c (a @ d' # b)"
  then have "zclCrc32c (zclCrc32c c a) (d # b) = zclCrc32c (zclCrc32c c a) (d' # b)"
    by (simp add: zclCrc32c_append)
  then have "zclCrc32c (zclCrc32c (zclCrc32c c a) [d]) b = zclCrc32c (zclCrc32c (zclCrc32c c a) [d']) b"
    by (simp flip: zclCrc32c_append)
  from zclCrc32c_inj[OF this] show False
    using crc_update_inj_octet assms by (auto simp: zclCrc32c_def)
qed

section \<open>Properties\<close>

text \<open>C35: the table-driven checksum is the bit-serial CRC-32C of the Castagnoli polynomial, from
  any running value, so a checksum can be computed in pieces.\<close>

theorem zclCrc32c_refines_serial:
  "zclCrc32c crc (a @ b) = crc_serial (crc_serial crc a) b"
  unfolding zclCrc32c_append by (simp add: zclCrc32c_serial)

end
