(* ===== verification/ZclCodec.thy ===== *)
theory ZclCodec
  imports ZclCrc
begin

unbundle bit_operations_syntax

text \<open>
  The carrier format and the sending side of the zcl compressing tunnel
  (CLA/zcl/src/zclcodec.c, \<open>zclHeaderPut\<close> to \<open>zclEncAbort\<close>).

  zstd is not part of the program.  Its streaming compressor is an argument \<open>zc\<close>: from a context,
  a directive, the input left and the room in the output, the new context, the octets consumed,
  the octets produced, and what \<open>ZSTD_compressStream2\<close> returned (\<open>None\<close> for an error).  \<open>outSize\<close>
  is \<open>ZSTD_CStreamOutSize ()\<close>, \<open>alloc\<close> the answer of \<open>realloc\<close> to a size, and \<open>reset\<close> the
  session reset of a context.  The output buffer \<open>e_out\<close> holds the octets written so far, header
  room included, so \<open>outLen\<close> is its length.

  The lemmas show that a carrier that was put is read back, that any change of one octet is
  refused, that \<open>growOut\<close> makes the room it is asked for, that the compressor loop returns when
  zstd makes progress, that every carrier cut is one the receiver accepts, and that the numbers
  carriers are sent under only ever grow.
\<close>

section \<open>Model: the carrier header\<close>

definition ZCL_HDR_LEN :: nat where "ZCL_HDR_LEN = 36"
definition ZCL_REC_HDR_LEN :: nat where "ZCL_REC_HDR_LEN = 4"
definition ZCL_FLAG_END :: u8 where "ZCL_FLAG_END = 0x01"
definition ZCL_MAX_CARRIER :: nat where "ZCL_MAX_CARRIER = 64 * 1024 * 1024"
definition zclMagic :: bytes where "zclMagic = [0x5a, 0x43, 0x4c, 0x01]"

record ZclHeader =
  zh_flags :: u8
  zh_streamId :: u64
  zh_chunkId :: u64
  zh_seq :: u32
  zh_length :: u32

text \<open>\<open>put32\<close> and \<open>put64\<close> store the octets \<open>be32 v\<close> and \<open>be64 v\<close> of the prelude.\<close>

definition put32 :: "bytes \<Rightarrow> nat \<Rightarrow> u32 \<Rightarrow> bytes" where
  "put32 out p v = overwrite out p
     [ucast (drop_bit 24 v), ucast (drop_bit 16 v), ucast (drop_bit 8 v), ucast v]"

definition put64 :: "bytes \<Rightarrow> nat \<Rightarrow> u64 \<Rightarrow> bytes" where
  "put64 out p v = put32 (put32 out p (ucast (drop_bit 32 v))) (p + 4) (ucast v)"

definition get32 :: "bytes \<Rightarrow> u32" where
  "get32 p = push_bit 24 (ucast (p ! 0)) OR push_bit 16 (ucast (p ! 1)) OR
     push_bit 8 (ucast (p ! 2)) OR ucast (p ! 3)"

definition get64 :: "bytes \<Rightarrow> u64" where
  "get64 p = push_bit 32 (ucast (get32 p)) OR ucast (get32 (drop 4 p))"

definition zclHeaderPut :: "bytes \<Rightarrow> ZclHeader \<Rightarrow> bytes \<Rightarrow> bytes" where
  "zclHeaderPut out h payload =
     (let out = overwrite out 0 zclMagic;
          out = overwrite out 4 [zh_flags h];
          out = overwrite out 5 [0, 0, 0];
          out = put64 out 8 (zh_streamId h);
          out = put64 out 16 (zh_chunkId h);
          out = put32 out 24 (zh_seq h);
          out = put32 out 28 (zh_length h);
          crc = zclCrc32c 0 (take 32 out);
          crc = zclCrc32c crc (take (unat (zh_length h)) payload)
      in put32 out 32 crc)"

definition zclHeaderGet :: "bytes \<Rightarrow> nat \<Rightarrow> ZclHeader option" where
  "zclHeaderGet carrier len =
     (if len < ZCL_HDR_LEN \<or> len - ZCL_HDR_LEN > ZCL_MAX_CARRIER
       \<or> take 4 carrier \<noteq> zclMagic
       \<or> carrier ! 4 AND NOT ZCL_FLAG_END \<noteq> 0
       \<or> carrier ! 5 \<noteq> 0 \<or> carrier ! 6 \<noteq> 0 \<or> carrier ! 7 \<noteq> 0
      then None
      else
        let h = \<lparr>zh_flags = carrier ! 4, zh_streamId = get64 (drop 8 carrier),
                 zh_chunkId = get64 (drop 16 carrier), zh_seq = get32 (drop 24 carrier),
                 zh_length = get32 (drop 28 carrier)\<rparr>
        in if unat (zh_length h) \<noteq> len - ZCL_HDR_LEN then None
           else
             let crc = zclCrc32c 0 (take 32 carrier);
                 crc = zclCrc32c crc (take (unat (zh_length h)) (drop ZCL_HDR_LEN carrier))
             in if crc = get32 (drop 32 carrier) then Some h else None)"

section \<open>Model: the compressor\<close>

datatype ZSTD_EndDirective = ZSTD_e_continue | ZSTD_e_flush | ZSTD_e_end

type_synonym 'z compressor =
  "'z \<Rightarrow> ZSTD_EndDirective \<Rightarrow> bytes \<Rightarrow> nat \<Rightarrow> 'z \<times> nat \<times> bytes \<times> nat option"

record 'z ZclEnc =
  e_cctx :: 'z
  e_streamId :: u64
  e_chunkId :: u64
  e_seq :: u32
  e_inChunk :: bool
  e_chunkIn :: u64
  e_pendingIn :: u64
  e_out :: "bytes option"
  e_outCap :: nat

abbreviation e_outLen :: "'z ZclEnc \<Rightarrow> nat" where
  "e_outLen enc \<equiv> (case e_out enc of None \<Rightarrow> 0 | Some out \<Rightarrow> length out)"

datatype ZSTD_cParameter = ZSTD_c_compressionLevel | ZSTD_c_checksumFlag | ZSTD_c_windowLog

definition fresh_enc :: "'z \<Rightarrow> u64 \<Rightarrow> 'z ZclEnc" where
  "fresh_enc cctx streamId =
     \<lparr>e_cctx = cctx, e_streamId = streamId, e_chunkId = 0, e_seq = 0, e_inChunk = False,
      e_chunkIn = 0, e_pendingIn = 0, e_out = None, e_outCap = 0\<rparr>"

text \<open>\<open>create\<close> is what \<open>ZSTD_createCCtx\<close> returns, \<open>setParam\<close> the setting of a parameter; both may fail.\<close>

definition zclEncInit ::
    "'z option \<Rightarrow> ('z \<Rightarrow> ZSTD_cParameter \<Rightarrow> int \<Rightarrow> 'z option) \<Rightarrow> int \<Rightarrow> int \<Rightarrow> u64 \<Rightarrow> 'z ZclEnc option" where
  "zclEncInit create setParam level windowLog streamId =
     (case create of
        None \<Rightarrow> None
      | Some cctx \<Rightarrow>
          (case setParam cctx ZSTD_c_compressionLevel level of
             None \<Rightarrow> None
           | Some cctx \<Rightarrow>
               (case setParam cctx ZSTD_c_checksumFlag 1 of
                  None \<Rightarrow> None
                | Some cctx \<Rightarrow>
                    (case if windowLog > 0 then setParam cctx ZSTD_c_windowLog windowLog
                          else Some cctx of
                       None \<Rightarrow> None
                     | Some cctx \<Rightarrow> Some (fresh_enc cctx streamId)))))"

lemma zclEncInit_fresh:
  "zclEncInit create setParam level windowLog streamId = Some enc \<Longrightarrow> \<exists>cctx. enc = fresh_enc cctx streamId"
  by (auto simp: zclEncInit_def split: option.splits if_splits)

text \<open>\<open>while (cap < want) cap *= 2\<close>; the capacity it starts from is never 0.\<close>

function grow_cap :: "nat \<Rightarrow> nat \<Rightarrow> nat" where
  "grow_cap cap want = (if 0 < cap \<and> cap < want then grow_cap (cap * 2) want else cap)"
  by pat_completeness auto
termination by (relation "measure (\<lambda>(cap, want). want - cap)") auto

declare grow_cap.simps [simp del]

definition growOut :: "(nat \<Rightarrow> bool) \<Rightarrow> 'z ZclEnc \<Rightarrow> nat \<Rightarrow> bool \<times> 'z ZclEnc" where
  "growOut alloc enc want =
     (let cap = grow_cap (if e_outCap enc \<noteq> 0 then e_outCap enc else 64 * 1024) want
      in if cap = e_outCap enc then (True, enc)
         else if \<not> alloc cap then (False, enc)
         else (True, enc \<lparr> e_outCap := cap \<rparr>))"

text \<open>
  One round of the loop of \<open>compress\<close>: its result, or the state and the input it goes on with.
  The loop itself is \<open>None\<close> if it never ends.
\<close>

definition compress_round ::
    "'z compressor \<Rightarrow> nat \<Rightarrow> (nat \<Rightarrow> bool) \<Rightarrow> 'z ZclEnc \<Rightarrow> bytes \<Rightarrow> ZSTD_EndDirective \<Rightarrow>
     bool \<times> 'z ZclEnc + 'z ZclEnc \<times> bytes" where
  "compress_round zc outSize alloc enc data directive =
     (let (ok, enc) = (if e_outCap enc - e_outLen enc < outSize
                       then growOut alloc enc (e_outLen enc + outSize) else (True, enc))
      in if \<not> ok then Inl (False, enc)
         else
           let out = (case e_out enc of None \<Rightarrow> [] | Some out \<Rightarrow> out);
               (cctx, used, produced, ret) = zc (e_cctx enc) directive data (e_outCap enc - length out);
               enc = enc \<lparr> e_cctx := cctx, e_out := Some (out @ produced) \<rparr>
           in if ret = None then Inl (False, enc)
              else if (if directive = ZSTD_e_continue then drop used data = [] else ret = Some 0)
              then Inl (True, enc)
              else Inr (enc, drop used data))"

partial_function (option) compress_loop ::
    "'z compressor \<Rightarrow> nat \<Rightarrow> (nat \<Rightarrow> bool) \<Rightarrow> 'z ZclEnc \<Rightarrow> bytes \<Rightarrow> ZSTD_EndDirective \<Rightarrow>
     (bool \<times> 'z ZclEnc) option" where
  "compress_loop zc outSize alloc enc data directive =
     (case compress_round zc outSize alloc enc data directive of
        Inl result \<Rightarrow> Some result
      | Inr (enc, data) \<Rightarrow> compress_loop zc outSize alloc enc data directive)"

declare compress_loop.simps [code]

definition zcl_compress ::
    "'z compressor \<Rightarrow> nat \<Rightarrow> (nat \<Rightarrow> bool) \<Rightarrow> 'z ZclEnc \<Rightarrow> bytes \<Rightarrow> ZSTD_EndDirective \<Rightarrow>
     (bool \<times> 'z ZclEnc) option" where
  "zcl_compress zc outSize alloc enc data directive =
     (if e_out enc = None then
        (case growOut alloc enc (ZCL_HDR_LEN + outSize) of
           (False, enc) \<Rightarrow> Some (False, enc)
         | (True, enc) \<Rightarrow>
             compress_loop zc outSize alloc
               (enc \<lparr> e_out := Some (replicate ZCL_HDR_LEN 0) \<rparr>) data directive)
      else compress_loop zc outSize alloc enc data directive)"

definition zclEncAdd ::
    "'z compressor \<Rightarrow> nat \<Rightarrow> (nat \<Rightarrow> bool) \<Rightarrow> 'z ZclEnc \<Rightarrow> bytes \<Rightarrow> (bool \<times> 'z ZclEnc) option" where
  "zclEncAdd zc outSize alloc enc bundle =
     (if bundle = [] \<or> length bundle > 0xffffffff then Some (False, enc)
      else
        case zcl_compress zc outSize alloc enc
               (put32 (replicate 4 0) 0 (word_of_nat (length bundle))) ZSTD_e_continue of
          None \<Rightarrow> None
        | Some (False, enc) \<Rightarrow> Some (False, enc)
        | Some (True, enc) \<Rightarrow>
            (case zcl_compress zc outSize alloc enc bundle ZSTD_e_continue of
               None \<Rightarrow> None
             | Some (False, enc) \<Rightarrow> Some (False, enc)
             | Some (True, enc) \<Rightarrow>
                 Some (True, enc \<lparr> e_inChunk := True,
                   e_chunkIn := e_chunkIn enc + word_of_nat (length bundle),
                   e_pendingIn := e_pendingIn enc + word_of_nat (length bundle) \<rparr>)))"

text \<open>The result of \<open>zclEncCut\<close>: the return value, the carrier when it is 1, the new state.\<close>

definition zclEncCut ::
    "'z compressor \<Rightarrow> nat \<Rightarrow> (nat \<Rightarrow> bool) \<Rightarrow> 'z ZclEnc \<Rightarrow> bool \<Rightarrow>
     (int \<times> bytes option \<times> 'z ZclEnc) option" where
  "zclEncCut zc outSize alloc enc endChunk =
     (if \<not> e_inChunk enc \<or> (e_pendingIn enc = 0 \<and> \<not> endChunk) then Some (0, None, enc)
      else
        case zcl_compress zc outSize alloc enc [] (if endChunk then ZSTD_e_end else ZSTD_e_flush) of
          None \<Rightarrow> None
        | Some (False, enc) \<Rightarrow> Some (-1, None, enc)
        | Some (True, enc) \<Rightarrow>
            if e_outLen enc - ZCL_HDR_LEN > ZCL_MAX_CARRIER then Some (-1, None, enc)
            else
              (let out = (case e_out enc of None \<Rightarrow> [] | Some out \<Rightarrow> out);
                   h = \<lparr>zh_flags = (if endChunk then ZCL_FLAG_END else 0),
                        zh_streamId = e_streamId enc, zh_chunkId = e_chunkId enc,
                        zh_seq = e_seq enc, zh_length = word_of_nat (length out - ZCL_HDR_LEN)\<rparr>;
                   enc' = enc \<lparr> e_out := None, e_outCap := 0, e_pendingIn := 0,
                                e_seq := e_seq enc + 1 \<rparr>
               in Some (1, Some (zclHeaderPut out h (drop ZCL_HDR_LEN out)),
                    (if endChunk
                     then enc' \<lparr> e_chunkId := e_chunkId enc + 1, e_seq := 0, e_inChunk := False,
                                 e_chunkIn := 0 \<rparr>
                     else enc'))))"

definition zclEncAbort :: "('z \<Rightarrow> 'z) \<Rightarrow> 'z ZclEnc \<Rightarrow> 'z ZclEnc" where
  "zclEncAbort reset enc =
     enc \<lparr> e_cctx := reset (e_cctx enc), e_out := None, e_outCap := 0,
           e_chunkId := (if e_seq enc > 0 then e_chunkId enc + 1 else e_chunkId enc),
           e_seq := 0, e_inChunk := False, e_chunkIn := 0, e_pendingIn := 0 \<rparr>"

section \<open>Storing and fetching numbers\<close>

lemma be32_octets:
  "be32 v = [ucast (drop_bit 24 v), ucast (drop_bit 16 v), ucast (drop_bit 8 v), ucast v]"
proof -
  have "ucast (drop_bit 8 (ucast (drop_bit 16 v) :: u16)) = (ucast (drop_bit 24 v) :: u8)"
    "ucast (ucast (drop_bit 16 v) :: u16) = (ucast (drop_bit 16 v) :: u8)"
    "ucast (drop_bit 8 (ucast v :: u16)) = (ucast (drop_bit 8 v) :: u8)"
    "ucast (ucast v :: u16) = (ucast v :: u8)"
    by (rule bit_word_eqI, simp add: bit_simps)+
  then show ?thesis by (simp add: be32_def be16_def)
qed

lemma put32_be: "put32 out p v = overwrite out p (be32 v)"
  by (simp add: put32_def be32_octets)

lemma put64_be: "p + 8 \<le> length out \<Longrightarrow> put64 out p v = overwrite out p (be64 v)"
  using overwrite_overwrite[of p "be32 (ucast (drop_bit 32 v))" out "be32 (ucast v)"]
  by (simp add: put64_def put32_be be64_def)

lemma get32_join: "get32 (a # b # c # d # r) = join32 (join16 a b) (join16 c d)"
  by (rule bit_word_eqI) (auto simp: get32_def join32_def join16_def bit_simps dest: bit_imp_le_length)

lemma get32_be [simp]: "get32 (be32 v @ r) = v" "get32 (be32 v) = v"
  using join32_split[of v] by (simp_all add: be32_def be16_def get32_join)

lemma get64_be [simp]: "get64 (be64 v @ r) = v"
  using join64_split[of v] by (simp add: get64_def be64_def join64_def)

lemma be32_get32: "4 \<le> length p \<Longrightarrow> be32 (get32 p) = take 4 p"
proof -
  assume "4 \<le> length p"
  then obtain a b c d r where "p = a # b # c # d # r"
    by (cases p; cases "tl p"; cases "tl (tl p)"; cases "tl (tl (tl p))") auto
  then show ?thesis by (simp add: get32_join be16_join16 be32_join32)
qed

lemma be64_get64: "8 \<le> length p \<Longrightarrow> be64 (get64 p) = take 8 p"
proof -
  assume l: "8 \<le> length p"
  have "be64 (get64 p) = be32 (get32 p) @ be32 (get32 (drop 4 p))"
    using be64_join64[of "get32 p" "get32 (drop 4 p)"] by (simp add: get64_def join64_def)
  also have "\<dots> = take 4 p @ take 4 (drop 4 p)" using l by (simp add: be32_get32)
  also have "\<dots> = take 8 p" using take_add[of 4 4 p] by simp
  finally show ?thesis .
qed

section \<open>Carriers\<close>

text \<open>The first 32 octets of a header, the checksum over them and the payload, and a carrier.\<close>

definition header_fields :: "ZclHeader \<Rightarrow> bytes" where
  "header_fields h = zclMagic @ [zh_flags h, 0, 0, 0] @ be64 (zh_streamId h) @
     be64 (zh_chunkId h) @ be32 (zh_seq h) @ be32 (zh_length h)"

definition zcl_carrier :: "ZclHeader \<Rightarrow> bytes \<Rightarrow> bytes" where
  "zcl_carrier h payload =
     header_fields h @ be32 (zclCrc32c 0 (header_fields h @ payload)) @ payload"

definition valid_carrier :: "ZclHeader \<Rightarrow> bytes \<Rightarrow> bool" where
  "valid_carrier h payload \<longleftrightarrow>
     length payload = unat (zh_length h) \<and> length payload \<le> ZCL_MAX_CARRIER \<and>
     zh_flags h AND NOT ZCL_FLAG_END = 0"

lemma length_header_fields [simp]: "length (header_fields h) = 32"
  by (simp add: header_fields_def zclMagic_def)

lemma overwrite_all: "length bs = n \<Longrightarrow> n \<le> length out \<Longrightarrow> overwrite out 0 bs = bs @ drop n out"
  by (simp add: overwrite_def)

lemma zclHeaderPut_carrier:
  assumes "36 \<le> length out" "length payload = unat (zh_length h)"
  shows "zclHeaderPut out h payload @ payload =
     header_fields h @ be32 (zclCrc32c 0 (header_fields h @ payload)) @ drop 36 out @ payload"
proof -
  let ?o1 = "overwrite out 0 zclMagic"
  let ?o2 = "overwrite ?o1 4 [zh_flags h]"
  let ?o3 = "overwrite ?o2 5 [0, 0, 0]"
  let ?o4 = "overwrite ?o3 8 (be64 (zh_streamId h))"
  let ?o5 = "overwrite ?o4 16 (be64 (zh_chunkId h))"
  let ?o6 = "overwrite ?o5 24 (be32 (zh_seq h))"
  let ?o7 = "overwrite ?o6 28 (be32 (zh_length h))"
  have m: "length zclMagic = 4" by (simp add: zclMagic_def)
  have l: "length ?o1 = length out" "length ?o2 = length out" "length ?o3 = length out"
    "length ?o4 = length out" "length ?o5 = length out" "length ?o6 = length out" "length ?o7 = length out"
    using assms(1) m by simp_all
  have "?o2 = overwrite out 0 (zclMagic @ [zh_flags h])"
    using overwrite_overwrite[of 0 zclMagic out] m assms(1) by simp
  then have "?o3 = overwrite out 0 (zclMagic @ [zh_flags h, 0, 0, 0])"
    using overwrite_overwrite[of 0 "zclMagic @ [zh_flags h]" out] m assms(1) by simp
  then have "?o4 = overwrite out 0 (zclMagic @ [zh_flags h, 0, 0, 0] @ be64 (zh_streamId h))"
    using overwrite_overwrite[of 0 "zclMagic @ [zh_flags h, 0, 0, 0]" out] m assms(1) by simp
  then have "?o5 = overwrite out 0 (zclMagic @ [zh_flags h, 0, 0, 0] @ be64 (zh_streamId h) @ be64 (zh_chunkId h))"
    using overwrite_overwrite[of 0 "zclMagic @ [zh_flags h, 0, 0, 0] @ be64 (zh_streamId h)" out]
      m assms(1) by simp
  then have "?o6 = overwrite out 0 (zclMagic @ [zh_flags h, 0, 0, 0] @ be64 (zh_streamId h) @
      be64 (zh_chunkId h) @ be32 (zh_seq h))"
    using overwrite_overwrite[of 0 "zclMagic @ [zh_flags h, 0, 0, 0] @ be64 (zh_streamId h) @ be64 (zh_chunkId h)" out]
      m assms(1) by simp
  then have o7: "?o7 = overwrite out 0 (header_fields h)"
    using overwrite_overwrite[of 0 "zclMagic @ [zh_flags h, 0, 0, 0] @ be64 (zh_streamId h) @
      be64 (zh_chunkId h) @ be32 (zh_seq h)" out] m assms(1) by (simp add: header_fields_def)
  then have t: "take 32 ?o7 = header_fields h"
    using take_overwrite_0[of "header_fields h" out] by simp
  have p: "take (unat (zh_length h)) payload = payload" using assms(2) by simp
  have "zclHeaderPut out h payload =
      overwrite ?o7 32 (be32 (zclCrc32c 0 (header_fields h @ payload)))"
    unfolding zclHeaderPut_def Let_def put32_be
    using assms(1) l by (simp add: put64_be t p zclCrc32c_append)
  also have "\<dots> = overwrite out 0 (header_fields h @ be32 (zclCrc32c 0 (header_fields h @ payload)))"
    unfolding o7 using overwrite_overwrite[of 0 "header_fields h" out] assms(1) by simp
  also have "\<dots> = header_fields h @ be32 (zclCrc32c 0 (header_fields h @ payload)) @ drop 36 out"
    using assms(1) by (simp add: overwrite_def)
  finally show ?thesis by simp
qed

text \<open>The checks of \<open>zclHeaderGet\<close> accept exactly the carriers.\<close>

lemma zclHeaderGet_carrier:
  assumes "valid_carrier h payload"
  shows "zclHeaderGet (zcl_carrier h payload) (length (zcl_carrier h payload)) = Some h"
proof -
  let ?c = "zcl_carrier h payload"
  have len: "length ?c = 36 + length payload" by (simp add: zcl_carrier_def)
  have c: "?c = zclMagic @ zh_flags h # 0 # 0 # 0 # be64 (zh_streamId h) @ be64 (zh_chunkId h) @
      be32 (zh_seq h) @ be32 (zh_length h) @ be32 (zclCrc32c 0 (header_fields h @ payload)) @ payload"
    by (simp add: zcl_carrier_def header_fields_def)
  have f: "take 4 ?c = zclMagic" "?c ! 4 = zh_flags h" "?c ! 5 = 0" "?c ! 6 = 0" "?c ! 7 = 0"
    unfolding c by (simp_all add: zclMagic_def)
  have g: "get64 (drop 8 ?c) = zh_streamId h" "get64 (drop 16 ?c) = zh_chunkId h"
    "get32 (drop 24 ?c) = zh_seq h" "get32 (drop 28 ?c) = zh_length h"
    "get32 (drop 32 ?c) = zclCrc32c 0 (header_fields h @ payload)"
    unfolding c by (simp_all add: zclMagic_def)
  have d: "take 32 ?c = header_fields h" "drop 36 ?c = payload"
    by (simp_all add: zcl_carrier_def)
  show ?thesis
    using assms unfolding zclHeaderGet_def Let_def f g len
    by (simp add: ZCL_HDR_LEN_def d valid_carrier_def not_less zclCrc32c_append)
qed

lemma zclHeaderGet_sound:
  assumes "zclHeaderGet c (length c) = Some h"
  shows "\<exists>payload. c = zcl_carrier h payload \<and> valid_carrier h payload"
proof -
  let ?p = "drop 36 c"
  have L: "36 \<le> length c" "length c - 36 \<le> ZCL_MAX_CARRIER" "take 4 c = zclMagic"
    "c ! 4 AND NOT ZCL_FLAG_END = 0" "c ! 5 = 0" "c ! 6 = 0" "c ! 7 = 0"
    and h: "h = \<lparr>zh_flags = c ! 4, zh_streamId = get64 (drop 8 c), zh_chunkId = get64 (drop 16 c),
        zh_seq = get32 (drop 24 c), zh_length = get32 (drop 28 c)\<rparr>"
    and n: "unat (zh_length h) = length c - 36"
    and crc: "zclCrc32c (zclCrc32c 0 (take 32 c)) (take (length c - 36) ?p) = get32 (drop 32 c)"
    using assms by (auto simp: zclHeaderGet_def Let_def ZCL_HDR_LEN_def not_less split: if_splits)
  have part: "take (n + m) c = take n c @ take m (drop n c)" for n m
    by (rule take_add)
  have "take 4 (drop 4 c) = [c ! 4, c ! 5, c ! 6, c ! 7]"
    using L(1) by (simp add: take_Suc_conv_app_nth numeral_eq_Suc)
  then have "take 32 c = header_fields h"
    using L(1,3,5-7) part[of 4 4] part[of 8 8] part[of 16 8] part[of 24 4] part[of 28 4] h
    by (simp add: header_fields_def be64_get64 be32_get32)
  moreover have "take 36 c = take 32 c @ be32 (get32 (drop 32 c))"
    using part[of 32 4] L(1) by (simp add: be32_get32)
  moreover have "c = take 36 c @ ?p" by simp
  ultimately have "c = zcl_carrier h ?p"
    using crc by (metis append.assoc length_drop order_refl take_all zclCrc32c_append zcl_carrier_def)
  moreover have "valid_carrier h ?p" using L n h by (simp add: valid_carrier_def)
  ultimately show ?thesis by blast
qed

lemma zclHeaderGet_iff:
  "zclHeaderGet c (length c) = Some h \<longleftrightarrow> (\<exists>payload. c = zcl_carrier h payload \<and> valid_carrier h payload)"
  using zclHeaderGet_sound zclHeaderGet_carrier by blast

lemma zclHeaderGet_crc:
  assumes "zclHeaderGet c (length c) = Some h"
  shows "36 \<le> length c" "be32 (zclCrc32c 0 (take 32 c @ drop 36 c)) = take 4 (drop 32 c)"
proof -
  obtain p where "c = zcl_carrier h p" using zclHeaderGet_sound[OF assms] by blast
  then show "36 \<le> length c" "be32 (zclCrc32c 0 (take 32 c @ drop 36 c)) = take 4 (drop 32 c)"
    by (simp_all add: zcl_carrier_def)
qed

lemma list_update_split: "i < length c \<Longrightarrow> c = take i c @ c ! i # drop (Suc i) c"
  by (simp add: id_take_nth_drop)

lemma zclHeaderGet_corrupt:
  assumes "zclHeaderGet c (length c) = Some h" "i < length c" "x \<noteq> c ! i"
  shows "zclHeaderGet (c[i := x]) (length c) = None"
proof (rule ccontr)
  let ?d = "c[i := x]"
  assume "zclHeaderGet ?d (length c) \<noteq> None"
  then obtain h' where h': "zclHeaderGet ?d (length ?d) = Some h'" by auto
  note c = zclHeaderGet_crc[OF assms(1)] and d = zclHeaderGet_crc[OF h']
  show False
  proof (cases "32 \<le> i \<and> i < 36")
    case True
    then have "take 32 ?d = take 32 c" "drop 36 ?d = drop 36 c" by simp_all
    then have "take 4 (drop 32 c) = take 4 (drop 32 ?d)" using c(2) d(2) by simp
    then have "take 4 (drop 32 c) ! (i - 32) = take 4 (drop 32 ?d) ! (i - 32)" by (rule arg_cong)
    moreover have "i - 32 < 4" "32 + (i - 32) = i" using True by auto
    ultimately have "c ! i = ?d ! i" using c(1) by (simp only: nth_take nth_drop length_list_update)
    then show False using assms(2,3) by simp
  next
    case False
    let ?m = "\<lambda>c. take 32 c @ drop 36 c"
    have "take 4 (drop 32 c) = take 4 (drop 32 ?d)"
      using False by (auto simp: drop_update_swap take_update_cancel)
    then have eq: "zclCrc32c 0 (?m c) = zclCrc32c 0 (?m ?d)"
      using c(2) d(2) by (metis be32_inject)
    have "\<exists>a b. ?m c = a @ c ! i # b \<and> ?m ?d = a @ x # b"
    proof (cases "i < 32")
      case True
      then have l: "i < length (take 32 c)" "take i (take 32 c) = take i c" "take 32 c ! i = c ! i"
        using c(1) by simp_all
      have "take 32 c = take i c @ c ! i # drop (Suc i) (take 32 c)"
        using id_take_nth_drop[OF l(1)] unfolding l(2,3) .
      moreover have "take 32 ?d = take i c @ x # drop (Suc i) (take 32 c)"
        using upd_conv_take_nth_drop[OF l(1), of x] unfolding l(2) by (simp add: take_update_swap)
      ultimately show ?thesis using True
        by (intro exI[of _ "take i c"] exI[of _ "drop (Suc i) (take 32 c) @ drop 36 c"]) simp
    next
      case ge: False
      let ?j = "i - 36"
      have j: "36 \<le> i" "?j < length (drop 36 c)" using False ge assms(2) by auto
      then have "drop 36 c = take ?j (drop 36 c) @ c ! i # drop (Suc ?j) (drop 36 c)"
        using id_take_nth_drop[of ?j "drop 36 c"] c(1) by simp
      moreover have "drop 36 ?d = take ?j (drop 36 c) @ x # drop (Suc ?j) (drop 36 c)"
        using upd_conv_take_nth_drop[OF j(2), of x] drop_update_swap[OF j(1), of c x] by simp
      ultimately show ?thesis using ge
        by (intro exI[of _ "take 32 c @ take ?j (drop 36 c)"] exI[of _ "drop (Suc ?j) (drop 36 c)"]) simp
    qed
    then show False using eq zclCrc32c_octet assms(3) by metis
  qed
qed

section \<open>The compressor\<close>

lemma grow_cap_ge: "0 < cap \<Longrightarrow> want \<le> grow_cap cap want \<and> cap \<le> grow_cap cap want"
proof (induction cap want rule: grow_cap.induct)
  case (1 cap want)
  show ?case
  proof (cases "cap < want")
    case True
    then have "want \<le> grow_cap (cap * 2) want \<and> cap * 2 \<le> grow_cap (cap * 2) want"
      using 1 by simp
    then show ?thesis using True 1(2) by (subst (1 2) grow_cap.simps) simp
  next
    case False
    then show ?thesis by (subst (1 2) grow_cap.simps) simp
  qed
qed

lemma growOut_room:
  assumes "growOut alloc enc want = (True, enc')"
  shows "want \<le> e_outCap enc' \<and> e_outCap enc \<le> e_outCap enc' \<and> (\<exists>cap. enc' = enc \<lparr> e_outCap := cap \<rparr>)"
proof -
  let ?c = "grow_cap (if e_outCap enc \<noteq> 0 then e_outCap enc else 64 * 1024) want"
  have "want \<le> ?c \<and> e_outCap enc \<le> ?c"
    using grow_cap_ge[of "if e_outCap enc \<noteq> 0 then e_outCap enc else 64 * 1024" want] by auto
  moreover have "enc' = (if ?c = e_outCap enc then enc else enc \<lparr> e_outCap := ?c \<rparr>)"
    using assms by (auto simp: growOut_def Let_def split: if_splits)
  ultimately show ?thesis
    by (cases "?c = e_outCap enc") (auto intro: exI[of _ "e_outCap enc"] exI[of _ ?c])
qed

lemma growOut_same: "growOut alloc enc want = (False, enc') \<Longrightarrow> enc' = enc"
  by (auto simp: growOut_def Let_def split: if_splits)

text \<open>
  What zstd promises of \<open>ZSTD_compressStream2\<close>: it takes no more input than there is and writes
  no more than there is room, and with room of \<open>ZSTD_CStreamOutSize\<close> a call that neither fails nor
  finishes the directive makes progress, by some measure of the context and the input left.
\<close>

definition zc_within :: "'z compressor \<Rightarrow> bool" where
  "zc_within zc \<longleftrightarrow> (\<forall>z d data room z' used produced ret.
     zc z d data room = (z', used, produced, ret) \<longrightarrow> used \<le> length data \<and> length produced \<le> room)"

definition zc_progress :: "'z compressor \<Rightarrow> nat \<Rightarrow> ('z \<Rightarrow> bytes \<Rightarrow> nat) \<Rightarrow> bool" where
  "zc_progress zc outSize \<mu> \<longleftrightarrow> (\<forall>z d data room z' used produced ret.
     outSize \<le> room \<longrightarrow> zc z d data room = (z', used, produced, ret) \<longrightarrow> ret \<noteq> None \<longrightarrow>
     \<not> (if d = ZSTD_e_continue then drop used data = [] else ret = Some 0) \<longrightarrow>
     \<mu> z' (drop used data) < \<mu> z data)"

text \<open>The output buffer: header room first, and never beyond its capacity.\<close>

definition enc_wf :: "'z ZclEnc \<Rightarrow> bool" where
  "enc_wf enc \<longleftrightarrow>
     (case e_out enc of None \<Rightarrow> True | Some out \<Rightarrow> ZCL_HDR_LEN \<le> length out \<and> length out \<le> e_outCap enc)"

text \<open>What compressing leaves alone: the numbers and the chunk accounting.\<close>

definition same_numbers :: "'z ZclEnc \<Rightarrow> 'z ZclEnc \<Rightarrow> bool" where
  "same_numbers enc enc' \<longleftrightarrow>
     e_streamId enc' = e_streamId enc \<and> e_chunkId enc' = e_chunkId enc \<and> e_seq enc' = e_seq enc \<and>
     e_inChunk enc' = e_inChunk enc \<and> e_chunkIn enc' = e_chunkIn enc \<and>
     e_pendingIn enc' = e_pendingIn enc"

lemma zc_withinD:
  "zc_within zc \<Longrightarrow> zc z d data room = (z', used, produced, ret) \<Longrightarrow> length produced \<le> room"
  unfolding zc_within_def by blast

lemma compress_round_ok:
  assumes "zc_within zc" "enc_wf enc" "e_out enc \<noteq> None"
    and "compress_round zc outSize alloc enc data directive = r"
  shows "case r of
      Inl (ok, enc') \<Rightarrow> same_numbers enc enc' \<and> enc_wf enc' \<and> e_out enc' \<noteq> None
    | Inr (enc', data') \<Rightarrow> same_numbers enc enc' \<and> enc_wf enc' \<and> e_out enc' \<noteq> None"
proof -
  obtain out where out: "e_out enc = Some out" using assms(3) by auto
  let ?g = "if e_outCap enc - e_outLen enc < outSize
    then growOut alloc enc (e_outLen enc + outSize) else (True, enc)"
  obtain ok enc1 where g: "?g = (ok, enc1)" by fastforce
  show ?thesis
  proof (cases ok)
    case False
    then have "enc1 = enc" using g growOut_same by (metis prod.inject)
    then show ?thesis
      using assms(2-4) g False by (auto simp: compress_round_def Let_def same_numbers_def)
  next
    case True
    have e1: "\<exists>cap. enc1 = enc \<lparr> e_outCap := cap \<rparr> \<and> e_outCap enc \<le> cap"
    proof (cases "e_outCap enc - e_outLen enc < outSize")
      case less: True
      then have "growOut alloc enc (e_outLen enc + outSize) = (True, enc1)" using g True by simp
      from growOut_room[OF this] show ?thesis by auto
    next
      case False
      then have "enc1 = enc \<lparr> e_outCap := e_outCap enc \<rparr>" using g by simp
      then show ?thesis by blast
    qed
    then obtain cap where cap: "enc1 = enc \<lparr> e_outCap := cap \<rparr>" "e_outCap enc \<le> cap" by blast
    have out1: "e_out enc1 = Some out" "e_outCap enc1 = cap" using cap(1) out by simp_all
    obtain z used produced ret where z: "zc (e_cctx enc1) directive data (cap - length out) =
        (z, used, produced, ret)" by (metis prod_cases4)
    from zc_withinD[OF assms(1) z] have "length produced \<le> cap - length out" .
    then have wf: "enc_wf (enc1 \<lparr> e_cctx := z, e_out := Some (out @ produced) \<rparr>)"
      using assms(2) out cap by (auto simp: enc_wf_def)
    have sn: "same_numbers enc (enc1 \<lparr> e_cctx := z, e_out := Some (out @ produced) \<rparr>)"
      unfolding cap(1) same_numbers_def by simp
    have "r = (let enc2 = enc1 \<lparr> e_cctx := z, e_out := Some (out @ produced) \<rparr> in
        if ret = None then Inl (False, enc2)
        else if (if directive = ZSTD_e_continue then drop used data = [] else ret = Some 0)
        then Inl (True, enc2) else Inr (enc2, drop used data))"
      using assms(4)[unfolded compress_round_def g] True out1 z by (auto simp: Let_def split: if_splits)
    then show ?thesis using wf sn by (simp add: Let_def)
  qed
qed

definition keeps :: "'z ZclEnc \<Rightarrow> 'z ZclEnc \<Rightarrow> bool" where
  "keeps enc enc' \<longleftrightarrow> same_numbers enc enc' \<and> enc_wf enc' \<and> e_out enc' \<noteq> None"

lemma keeps_trans: "keeps a b \<Longrightarrow> keeps b c \<Longrightarrow> keeps a c"
  by (simp add: keeps_def same_numbers_def)

lemma compress_loop_keeps:
  assumes "compress_loop zc outSize alloc enc data directive = Some r" "zc_within zc" "enc_wf enc"
    "e_out enc \<noteq> None"
  shows "keeps enc (snd r)"
proof -
  have "zc_within zc \<longrightarrow> enc_wf enc \<longrightarrow> e_out enc \<noteq> None \<longrightarrow> keeps enc (snd r)"
  proof (rule compress_loop.raw_induct[OF _ assms(1),
      where P = "\<lambda>zc outSize alloc enc data directive r.
        zc_within zc \<longrightarrow> enc_wf enc \<longrightarrow> e_out enc \<noteq> None \<longrightarrow> keeps enc (snd r)"], intro impI)
    fix loop zc outSize alloc directive r and enc :: "'b ZclEnc" and data
    assume IH: "\<And>zc outSize alloc enc data directive r.
        loop zc outSize alloc enc data directive = Some r \<Longrightarrow>
        zc_within zc \<longrightarrow> enc_wf enc \<longrightarrow> e_out enc \<noteq> None \<longrightarrow> keeps enc (snd r)"
      and run: "(case compress_round zc outSize alloc enc data directive of
          Inl result \<Rightarrow> Some result
        | Inr (enc, data) \<Rightarrow> loop zc outSize alloc enc data directive) = Some r"
      and h: "zc_within zc" "enc_wf enc" "e_out enc \<noteq> None"
    note ok = compress_round_ok[OF h refl, of outSize alloc data directive]
    show "keeps enc (snd r)"
    proof (cases "compress_round zc outSize alloc enc data directive")
      case (Inl res)
      then show ?thesis using run ok by (cases res) (auto simp: keeps_def)
    next
      case (Inr p)
      obtain enc2 data2 where p: "p = (enc2, data2)" by fastforce
      have k: "keeps enc enc2" using ok Inr p by (simp add: keeps_def)
      have "loop zc outSize alloc enc2 data2 directive = Some r" using run Inr p by simp
      then have "keeps enc2 (snd r)" using IH h(1) k by (simp add: keeps_def)
      then show ?thesis using k keeps_trans by blast
    qed
  qed
  then show ?thesis using assms(2-4) by blast
qed

lemma zcl_compress_keeps:
  assumes "zcl_compress zc outSize alloc enc data directive = Some (ok, enc')" "zc_within zc" "enc_wf enc"
  shows "same_numbers enc enc' \<and> enc_wf enc' \<and> (ok \<longrightarrow> e_out enc' \<noteq> None)"
proof (cases "e_out enc")
  case None
  obtain g enc1 where g: "growOut alloc enc (ZCL_HDR_LEN + outSize) = (g, enc1)" by fastforce
  show ?thesis
  proof (cases g)
    case False
    then show ?thesis using growOut_same g assms None
      by (auto simp: zcl_compress_def same_numbers_def)
  next
    case True
    let ?e = "enc1 \<lparr> e_out := Some (replicate ZCL_HDR_LEN 0) \<rparr>"
    have r: "ZCL_HDR_LEN + outSize \<le> e_outCap enc1" "\<exists>cap. enc1 = enc \<lparr> e_outCap := cap \<rparr>"
      using growOut_room[of alloc enc "ZCL_HDR_LEN + outSize" enc1] g True by simp_all
    then have "enc_wf ?e" "same_numbers enc ?e" by (auto simp: enc_wf_def same_numbers_def)
    moreover have "compress_loop zc outSize alloc ?e data directive = Some (ok, enc')"
      using assms(1) None g True by (simp add: zcl_compress_def)
    ultimately show ?thesis
      using compress_loop_keeps[of zc outSize alloc ?e data directive "(ok, enc')"] assms(2)
      by (simp add: keeps_def same_numbers_def)
  qed
next
  case (Some out)
  then have "compress_loop zc outSize alloc enc data directive = Some (ok, enc')"
    using assms(1) by (simp add: zcl_compress_def)
  from compress_loop_keeps[OF this assms(2,3)] Some show ?thesis by (simp add: keeps_def)
qed

text \<open>With progress the loop returns.\<close>

lemma compress_loop_returns:
  assumes "zc_progress zc outSize \<mu>"
  shows "\<exists>r. compress_loop zc outSize alloc enc data directive = Some r"
proof (induction "\<mu> (e_cctx enc) data" arbitrary: enc data rule: less_induct)
  case less
  show ?case
  proof (cases "compress_round zc outSize alloc enc data directive")
    case (Inl r)
    then show ?thesis by (subst compress_loop.simps) simp
  next
    case (Inr p)
    obtain enc2 data2 where p: "p = (enc2, data2)" by fastforce
    obtain ok enc1 where g: "(if e_outCap enc - e_outLen enc < outSize
        then growOut alloc enc (e_outLen enc + outSize) else (True, enc)) = (ok, enc1)" by fastforce
    have ok: "ok" using Inr g by (auto simp: compress_round_def Let_def split: if_splits)
    let ?out = "case e_out enc1 of None \<Rightarrow> [] | Some out \<Rightarrow> out"
    have e1: "e_cctx enc1 = e_cctx enc \<and> e_outLen enc1 = e_outLen enc \<and> outSize \<le> e_outCap enc1 - e_outLen enc"
    proof (cases "e_outCap enc - e_outLen enc < outSize")
      case True
      then have "growOut alloc enc (e_outLen enc + outSize) = (True, enc1)" using g ok by simp
      from growOut_room[OF this] show ?thesis by auto
    next
      case False
      then show ?thesis using g by simp
    qed
    have lo: "length ?out = e_outLen enc1" by (simp split: option.splits)
    obtain z used produced ret where z: "zc (e_cctx enc1) directive data (e_outCap enc1 - length ?out) =
        (z, used, produced, ret)" by (metis prod_cases4)
    have "ret \<noteq> None \<and> \<not> (if directive = ZSTD_e_continue then drop used data = [] else ret = Some 0) \<and>
        e_cctx enc2 = z \<and> data2 = drop used data"
      using Inr g ok z p by (auto simp: compress_round_def Let_def split: if_splits)
    then have "\<mu> (e_cctx enc2) data2 < \<mu> (e_cctx enc) data"
      using assms z e1 lo unfolding zc_progress_def by metis
    from less[OF this] show ?thesis using Inr p by (subst compress_loop.simps) simp
  qed
qed

lemma zcl_compress_returns:
  "zc_progress zc outSize \<mu> \<Longrightarrow> \<exists>r. zcl_compress zc outSize alloc enc data directive = Some r"
  using compress_loop_returns[of zc outSize \<mu>]
  by (auto simp: zcl_compress_def split: prod.splits bool.splits)

section \<open>The numbers of the carriers\<close>

text \<open>A carrier that \<open>zclEncCut\<close> returns is one that \<open>zclHeaderGet\<close> accepts.\<close>

lemma zclEncCut_carrier:
  assumes "zclEncCut zc outSize alloc enc endChunk = Some (k, c, enc')" "zc_within zc" "enc_wf enc"
  shows "(k = 1 \<longleftrightarrow> c \<noteq> None) \<and> enc_wf enc' \<and> e_streamId enc' = e_streamId enc \<and>
     (case c of
        None \<Rightarrow> e_chunkId enc' = e_chunkId enc \<and> e_seq enc' = e_seq enc
      | Some carrier \<Rightarrow>
          (\<exists>h payload. carrier = zcl_carrier h payload \<and> valid_carrier h payload \<and>
             zh_streamId h = e_streamId enc \<and> zh_chunkId h = e_chunkId enc \<and> zh_seq h = e_seq enc \<and>
             zh_flags h = (if endChunk then ZCL_FLAG_END else 0)) \<and>
          e_chunkId enc' = (if endChunk then e_chunkId enc + 1 else e_chunkId enc) \<and>
          e_seq enc' = (if endChunk then 0 else e_seq enc + 1))"
proof (cases "\<not> e_inChunk enc \<or> (e_pendingIn enc = 0 \<and> \<not> endChunk)")
  case True
  then show ?thesis using assms(1,3) by (auto simp: zclEncCut_def)
next
  case go: False
  obtain ok enc1 where z: "zcl_compress zc outSize alloc enc []
      (if endChunk then ZSTD_e_end else ZSTD_e_flush) = Some (ok, enc1)"
    using assms(1) go by (auto simp: zclEncCut_def split: option.splits prod.splits)
  note k = zcl_compress_keeps[OF z assms(2,3)]
  have sn: "e_streamId enc1 = e_streamId enc" "e_chunkId enc1 = e_chunkId enc" "e_seq enc1 = e_seq enc"
    using k by (simp_all add: same_numbers_def)
  show ?thesis
  proof (cases "ok \<and> e_outLen enc1 - ZCL_HDR_LEN \<le> ZCL_MAX_CARRIER")
    case False
    then have "k = -1 \<and> c = None \<and> enc' = enc1"
      using assms(1) go z by (cases ok) (auto simp: zclEncCut_def split: if_splits)
    then show ?thesis using k sn by simp
  next
    case True
    then obtain out where out: "e_out enc1 = Some out" using k by auto
    have lo: "ZCL_HDR_LEN \<le> length out" using k out by (simp add: enc_wf_def)
    let ?h = "\<lparr>zh_flags = (if endChunk then ZCL_FLAG_END else 0), zh_streamId = e_streamId enc1,
        zh_chunkId = e_chunkId enc1, zh_seq = e_seq enc1,
        zh_length = word_of_nat (length out - ZCL_HDR_LEN)\<rparr>"
    let ?p = "drop ZCL_HDR_LEN out"
    have n: "length out - ZCL_HDR_LEN \<le> ZCL_MAX_CARRIER" using True out by simp
    then have u: "unat (zh_length ?h) = length ?p"
      by (simp add: unat_of_nat take_bit_nat_eq_self ZCL_MAX_CARRIER_def)
    have v: "valid_carrier ?h ?p" using n u by (simp add: valid_carrier_def)
    have c: "c = Some (zclHeaderPut out ?h ?p)" and k1: "k = 1"
      and e: "enc' = (let e = enc1 \<lparr> e_out := None, e_outCap := 0, e_pendingIn := 0,
            e_seq := e_seq enc1 + 1 \<rparr> in
          if endChunk then e \<lparr> e_chunkId := e_chunkId enc1 + 1, e_seq := 0, e_inChunk := False,
            e_chunkIn := 0 \<rparr> else e)"
      using assms(1) go z True out by (auto simp: zclEncCut_def Let_def not_less split: if_splits)
    have "zclHeaderPut out ?h ?p = zcl_carrier ?h ?p"
    proof -
      have h36: "ZCL_HDR_LEN = 36" by (simp add: ZCL_HDR_LEN_def)
      have "zclHeaderPut out ?h ?p @ ?p = zcl_carrier ?h ?p @ ?p"
        using zclHeaderPut_carrier[of out ?p ?h] lo u h36 by (simp add: zcl_carrier_def)
      then show ?thesis by simp
    qed
    then have "\<exists>h payload. zclHeaderPut out ?h ?p = zcl_carrier h payload \<and> valid_carrier h payload \<and>
        zh_streamId h = e_streamId enc \<and> zh_chunkId h = e_chunkId enc \<and> zh_seq h = e_seq enc \<and>
        zh_flags h = (if endChunk then ZCL_FLAG_END else 0)"
      using v sn by (intro exI[of _ ?h] exI[of _ ?p]) simp
    then show ?thesis using c k1 e sn by (simp add: Let_def enc_wf_def)
  qed
qed

text \<open>The operations of the sender, and a run of them with the carriers it cuts.\<close>

datatype enc_op = Add bytes | Cut bool | Abort

definition enc_op_step ::
    "'z compressor \<Rightarrow> nat \<Rightarrow> (nat \<Rightarrow> bool) \<Rightarrow> ('z \<Rightarrow> 'z) \<Rightarrow> enc_op \<Rightarrow> 'z ZclEnc \<Rightarrow>
     (bytes list \<times> 'z ZclEnc) option" where
  "enc_op_step zc outSize alloc reset op enc =
     (case op of
        Add bundle \<Rightarrow> map_option (\<lambda>(ok, enc). ([], enc)) (zclEncAdd zc outSize alloc enc bundle)
      | Cut endChunk \<Rightarrow>
          map_option (\<lambda>(k, c, enc). (case c of None \<Rightarrow> [] | Some carrier \<Rightarrow> [carrier], enc))
            (zclEncCut zc outSize alloc enc endChunk)
      | Abort \<Rightarrow> Some ([], zclEncAbort reset enc))"

fun enc_run ::
    "'z compressor \<Rightarrow> nat \<Rightarrow> (nat \<Rightarrow> bool) \<Rightarrow> ('z \<Rightarrow> 'z) \<Rightarrow> enc_op list \<Rightarrow> 'z ZclEnc \<Rightarrow>
     (bytes list \<times> 'z ZclEnc) option" where
  "enc_run zc outSize alloc reset [] enc = Some ([], enc)"
| "enc_run zc outSize alloc reset (op # ops) enc =
     (case enc_op_step zc outSize alloc reset op enc of
        None \<Rightarrow> None
      | Some (cs, enc) \<Rightarrow>
          map_option (\<lambda>(cs', enc). (cs @ cs', enc)) (enc_run zc outSize alloc reset ops enc))"

text \<open>The order of carriers: chunk number, then sequence number; nothing follows an END.\<close>

definition number_less :: "nat \<times> nat \<Rightarrow> nat \<times> nat \<Rightarrow> bool" where
  "number_less a b \<longleftrightarrow> fst a < fst b \<or> (fst a = fst b \<and> snd a < snd b)"

definition number_le :: "nat \<times> nat \<Rightarrow> nat \<times> nat \<Rightarrow> bool" where
  "number_le a b \<longleftrightarrow> a = b \<or> number_less a b"

lemma number_trans:
  "number_le a b \<Longrightarrow> number_le b c \<Longrightarrow> number_le a c"
  "number_less a b \<Longrightarrow> number_le b c \<Longrightarrow> number_less a c"
  "number_le a b \<Longrightarrow> number_less b c \<Longrightarrow> number_less a c"
  by (auto simp: number_le_def number_less_def)

definition header_number :: "ZclHeader \<Rightarrow> nat \<times> nat" where
  "header_number h = (unat (zh_chunkId h), unat (zh_seq h))"

definition enc_number :: "'z ZclEnc \<Rightarrow> nat \<times> nat" where
  "enc_number enc = (unat (e_chunkId enc), unat (e_seq enc))"

definition is_end :: "ZclHeader \<Rightarrow> bool" where
  "is_end h \<longleftrightarrow> zh_flags h = ZCL_FLAG_END"

definition after_header :: "ZclHeader \<Rightarrow> nat \<times> nat" where
  "after_header h = (if is_end h then (unat (zh_chunkId h) + 1, 0)
                     else (unat (zh_chunkId h), unat (zh_seq h) + 1))"

definition header_of :: "bytes \<Rightarrow> ZclHeader option" where
  "header_of c = zclHeaderGet c (length c)"

lemma zclEncAdd_keeps:
  assumes "zclEncAdd zc outSize alloc enc bundle = Some (ok, enc')" "zc_within zc" "enc_wf enc"
  shows "enc_wf enc' \<and> e_streamId enc' = e_streamId enc \<and> enc_number enc' = enc_number enc"
proof (cases "bundle = [] \<or> length bundle > 0xffffffff")
  case True
  then show ?thesis using assms by (auto simp: zclEncAdd_def)
next
  case False
  obtain ok1 enc1 where 1: "zcl_compress zc outSize alloc enc
      (put32 (replicate 4 0) 0 (word_of_nat (length bundle))) ZSTD_e_continue = Some (ok1, enc1)"
    using assms(1) False by (auto simp: zclEncAdd_def split: option.splits prod.splits)
  note k1 = zcl_compress_keeps[OF 1 assms(2,3)]
  show ?thesis
  proof (cases ok1)
    case no: False
    then show ?thesis using assms(1) False 1 k1
      by (auto simp: zclEncAdd_def enc_number_def same_numbers_def)
  next
    case yes: True
    obtain ok2 enc2 where 2: "zcl_compress zc outSize alloc enc1 bundle ZSTD_e_continue = Some (ok2, enc2)"
      using assms(1) False 1 yes by (auto simp: zclEncAdd_def split: option.splits prod.splits)
    note k2 = zcl_compress_keeps[OF 2 assms(2)]
    show ?thesis using assms(1) False 1 2 yes k1 k2
      by (cases ok2) (auto simp: zclEncAdd_def enc_number_def same_numbers_def enc_wf_def)
  qed
qed

lemma enc_op_step_numbers:
  assumes "enc_op_step zc outSize alloc reset op enc = Some (cs, enc')" "zc_within zc" "enc_wf enc"
    "unat (e_chunkId enc) + 1 < 2 ^ 64" "unat (e_seq enc) + 1 < 2 ^ 32"
  shows "enc_wf enc' \<and> e_streamId enc' = e_streamId enc \<and>
     unat (e_chunkId enc') \<le> unat (e_chunkId enc) + 1 \<and> unat (e_seq enc') \<le> unat (e_seq enc) + 1 \<and>
     number_le (enc_number enc) (enc_number enc') \<and>
     (cs = [] \<or> (\<exists>c h. cs = [c] \<and> header_of c = Some h \<and> zh_streamId h = e_streamId enc \<and>
        header_number h = enc_number enc \<and> after_header h = enc_number enc'))"
proof -
  have inc: "unat (e_chunkId enc + 1) = unat (e_chunkId enc) + 1"
    "unat (e_seq enc + 1) = unat (e_seq enc) + 1"
    using assms(4,5) by (simp_all add: unat_word_ariths)
  show ?thesis
  proof (cases op)
    case (Add b)
    then obtain ok where "zclEncAdd zc outSize alloc enc b = Some (ok, enc')" "cs = []"
      using assms(1) by (auto simp: enc_op_step_def)
    from zclEncAdd_keeps[OF this(1) assms(2,3)] this(2) show ?thesis
      by (simp add: number_le_def enc_number_def)
  next
    case Abort
    then show ?thesis using assms(1,3) inc
      by (cases "e_seq enc = 0")
        (auto simp: enc_op_step_def zclEncAbort_def enc_wf_def number_le_def number_less_def enc_number_def
          word_neq_0_conv)
  next
    case (Cut endChunk)
    then obtain k c where cut: "zclEncCut zc outSize alloc enc endChunk = Some (k, c, enc')"
      and cs: "cs = (case c of None \<Rightarrow> [] | Some carrier \<Rightarrow> [carrier])"
      using assms(1) by (auto simp: enc_op_step_def)
    note r = zclEncCut_carrier[OF cut assms(2,3)]
    show ?thesis
    proof (cases c)
      case None
      then show ?thesis using r cs by (simp add: number_le_def enc_number_def)
    next
      case (Some carrier)
      then obtain h payload where h: "carrier = zcl_carrier h payload" "valid_carrier h payload"
        "zh_streamId h = e_streamId enc" "zh_chunkId h = e_chunkId enc" "zh_seq h = e_seq enc"
        "zh_flags h = (if endChunk then ZCL_FLAG_END else 0)"
        using r by auto
      have "header_of carrier = Some h" unfolding header_of_def h(1) by (rule zclHeaderGet_carrier[OF h(2)])
      moreover have "is_end h \<longleftrightarrow> endChunk" using h(6) by (simp add: is_end_def ZCL_FLAG_END_def)
      ultimately show ?thesis
        using r Some cs h(3-5) inc
        by (auto simp: number_le_def number_less_def enc_number_def header_number_def after_header_def)
    qed
  qed
qed

lemma header_after: "number_less (header_number h) (after_header h)"
  by (auto simp: number_less_def header_number_def after_header_def)

definition sent_before :: "ZclHeader \<Rightarrow> ZclHeader \<Rightarrow> bool" where
  "sent_before h h' \<longleftrightarrow> number_less (header_number h) (header_number h') \<and>
     (is_end h \<longrightarrow> unat (zh_chunkId h) < unat (zh_chunkId h'))"

lemma sent_before_after: "number_le (after_header h) (header_number h') \<Longrightarrow> sent_before h h'"
  by (auto simp: sent_before_def number_le_def number_less_def header_number_def after_header_def
      split: if_splits)

lemma enc_run_numbers:
  assumes "enc_run zc outSize alloc reset ops enc = Some (cs, enc')" "zc_within zc" "enc_wf enc"
    "unat (e_chunkId enc) + length ops < 2 ^ 64" "unat (e_seq enc) + length ops < 2 ^ 32"
  shows "\<exists>hs. map header_of cs = map Some hs \<and> sorted_wrt sent_before hs \<and>
     list_all (\<lambda>h. zh_streamId h = e_streamId enc \<and> number_le (enc_number enc) (header_number h)) hs"
  using assms
proof (induction ops arbitrary: enc cs)
  case (Cons op ops)
  obtain cs1 enc1 where s: "enc_op_step zc outSize alloc reset op enc = Some (cs1, enc1)"
    using Cons.prems(1) by (auto split: option.splits)
  then obtain cs2 where run: "enc_run zc outSize alloc reset ops enc1 = Some (cs2, enc')"
    and cs: "cs = cs1 @ cs2"
    using Cons.prems(1) by auto
  have st: "enc_wf enc1 \<and> e_streamId enc1 = e_streamId enc \<and>
     unat (e_chunkId enc1) \<le> unat (e_chunkId enc) + 1 \<and> unat (e_seq enc1) \<le> unat (e_seq enc) + 1 \<and>
     number_le (enc_number enc) (enc_number enc1) \<and>
     (cs1 = [] \<or> (\<exists>c h. cs1 = [c] \<and> header_of c = Some h \<and> zh_streamId h = e_streamId enc \<and>
        header_number h = enc_number enc \<and> after_header h = enc_number enc1))"
    using enc_op_step_numbers[OF s Cons.prems(2,3)] Cons.prems(4,5) by simp
  obtain hs where hs: "map header_of cs2 = map Some hs" "sorted_wrt sent_before hs"
    "list_all (\<lambda>h. zh_streamId h = e_streamId enc1 \<and> number_le (enc_number enc1) (header_number h)) hs"
    using Cons.IH[OF run Cons.prems(2)] st Cons.prems(4,5) by auto
  have later: "list_all (\<lambda>h. zh_streamId h = e_streamId enc \<and> number_le (enc_number enc) (header_number h)) hs"
    using hs(3) st unfolding list_all_iff by (metis number_trans(1))
  show ?case
  proof (cases "cs1 = []")
    case True
    then show ?thesis using cs hs later by auto
  next
    case False
    then obtain c h where h: "cs1 = [c]" "header_of c = Some h" "zh_streamId h = e_streamId enc"
      "header_number h = enc_number enc" "after_header h = enc_number enc1" using st by auto
    have "\<forall>h' \<in> set hs. sent_before h h'"
      using hs(3) h(5) sent_before_after by (auto simp: list_all_iff)
    then show ?thesis using cs h hs later
      by (intro exI[of _ "h # hs"]) (simp add: number_le_def)
  qed
qed (auto simp: number_le_def)

section \<open>Properties\<close>

text \<open>The header parser accepts exactly the carriers the header writer produces: the magic, the
  flags without an unknown bit, zero padding, the numbers in network order, a payload of the
  announced length within the limit, and the checksum of all of it.  Every other octet string is
  refused.\<close>

theorem zclHeaderGet_exact:
  "zclHeaderGet c (length c) = Some h \<longleftrightarrow>
     (\<exists>payload out. length payload = unat (zh_length h) \<and> length payload \<le> ZCL_MAX_CARRIER \<and>
        zh_flags h AND NOT ZCL_FLAG_END = 0 \<and> length out = ZCL_HDR_LEN \<and>
        c = zclHeaderPut out h payload @ payload)"
proof -
  have put: "zclHeaderPut out h payload @ payload = zcl_carrier h payload"
    if "length out = ZCL_HDR_LEN" "length payload = unat (zh_length h)" for out payload
    using zclHeaderPut_carrier[of out payload h] that by (simp add: ZCL_HDR_LEN_def zcl_carrier_def)
  show ?thesis
    unfolding zclHeaderGet_iff valid_carrier_def
  proof (intro iffI; elim exE conjE)
    fix payload
    assume p: "c = zcl_carrier h payload" "length payload = unat (zh_length h)"
      "length payload \<le> ZCL_MAX_CARRIER" "zh_flags h AND NOT ZCL_FLAG_END = 0"
    then show "\<exists>payload out. length payload = unat (zh_length h) \<and> length payload \<le> ZCL_MAX_CARRIER \<and>
        zh_flags h AND NOT ZCL_FLAG_END = 0 \<and> length out = ZCL_HDR_LEN \<and>
        c = zclHeaderPut out h payload @ payload"
      using put[of "replicate ZCL_HDR_LEN 0" payload]
      by (intro exI[of _ payload] exI[of _ "replicate ZCL_HDR_LEN 0"]) simp
  qed (use put in auto)
qed

text \<open>C34: no single octet of an accepted carrier, header or payload, can be changed without the
  carrier being refused.\<close>

theorem zclHeaderGet_refuses_corruption:
  assumes "zclHeaderGet c (length c) = Some h" "i < length c" "x \<noteq> c ! i"
  shows "zclHeaderGet (c[i := x]) (length c) = None"
  using assms by (rule zclHeaderGet_corrupt)

definition header_example :: ZclHeader where
  "header_example = \<lparr>zh_flags = ZCL_FLAG_END, zh_streamId = 7, zh_chunkId = 3, zh_seq = 1, zh_length = 2\<rparr>"

lemma header_example_accepted:
  "zclHeaderGet (zcl_carrier header_example [10, 20]) (length (zcl_carrier header_example [10, 20])) =
     Some header_example"
  unfolding zclHeaderGet_iff
  by (rule exI[of _ "[10, 20]"]) (simp add: valid_carrier_def header_example_def ZCL_MAX_CARRIER_def ZCL_FLAG_END_def)

lemma zclHeaderGet_refuses_corruption_witness:
  "zclHeaderGet ((zcl_carrier header_example [10, 20])[36 := 11]) 38 = None"
proof -
  have l: "length (zcl_carrier header_example [10, 20]) = 38" by (simp add: zcl_carrier_def)
  moreover have "zcl_carrier header_example [10, 20] ! 36 = 10" by (simp add: zcl_carrier_def nth_append)
  ultimately show ?thesis
    using zclHeaderGet_refuses_corruption[OF header_example_accepted, of 36 11] by simp
qed

text \<open>C23: whatever bundles are added and carriers cut or chunks aborted, in whatever order, the
  carriers an encoder returns are accepted by the parser, carry the encoder's stream number, and
  are numbered in strictly increasing order (chunk, then sequence number), no carrier of a chunk
  following its END carrier, as long as the 64-bit chunk and 32-bit sequence numbers do not wrap.\<close>

theorem zclEnc_carriers_in_order:
  assumes "zclEncInit create setParam level windowLog streamId = Some enc"
    "enc_run zc outSize alloc reset ops enc = Some (cs, enc')" "zc_within zc" "length ops < 2 ^ 32"
  shows "\<exists>hs. map (\<lambda>c. zclHeaderGet c (length c)) cs = map Some hs \<and> sorted_wrt sent_before hs \<and>
     list_all (\<lambda>h. zh_streamId h = streamId) hs"
proof -
  obtain cctx where enc: "enc = fresh_enc cctx streamId" using zclEncInit_fresh[OF assms(1)] by blast
  then have "enc_wf enc" by (simp add: enc_wf_def fresh_enc_def)
  from enc_run_numbers[OF assms(2,3) this] assms(4) show ?thesis
    by (fastforce simp: enc fresh_enc_def header_of_def list_all_iff cong: map_cong)
qed

text \<open>A compressor that stores its input and gives it out at once.\<close>

definition store_compressor :: "unit compressor" where
  "store_compressor = (\<lambda>z d data room. (z, min room (length data), take room data, Some 0))"

definition enc_example :: "(bytes list \<times> unit ZclEnc) option" where
  "enc_example = enc_run store_compressor 1 (\<lambda>_. True) (\<lambda>z. z) [Add [5], Cut False, Cut True]
     (fresh_enc () 9)"

lemma zclEnc_carriers_in_order_witness:
  "\<exists>c1 c2 enc' h1 h2. enc_example = Some ([c1, c2], enc') \<and> sent_before h1 h2 \<and>
     zclHeaderGet c1 (length c1) = Some h1 \<and> zclHeaderGet c2 (length c2) = Some h2"
proof -
  have "\<exists>c1 c2 enc'. enc_example = Some ([c1, c2], enc')"
    unfolding enc_example_def
    by (simp add: enc_op_step_def zclEncAdd_def zclEncCut_def fresh_enc_def zcl_compress_def growOut_def
        grow_cap.simps compress_loop.simps compress_round_def store_compressor_def ZCL_HDR_LEN_def
        ZCL_REC_HDR_LEN_def ZCL_MAX_CARRIER_def put32_def overwrite_def Let_def)
  then obtain c1 c2 enc' where run: "enc_example = Some ([c1, c2], enc')" by blast
  have init: "zclEncInit (Some ()) (\<lambda>z _ _. Some z) 3 23 9 = Some (fresh_enc () 9)"
    by (simp add: zclEncInit_def)
  have within: "zc_within store_compressor" by (auto simp: zc_within_def store_compressor_def)
  have "\<exists>hs. map (\<lambda>c. zclHeaderGet c (length c)) [c1, c2] = map Some hs \<and> sorted_wrt sent_before hs \<and>
      list_all (\<lambda>h. zh_streamId h = 9) hs"
    by (rule zclEnc_carriers_in_order[OF init run[unfolded enc_example_def] within]) simp
  then obtain hs where hs: "map (\<lambda>c. zclHeaderGet c (length c)) [c1, c2] = map Some hs" "sorted_wrt sent_before hs"
    by blast
  then obtain h1 h2 where "hs = [h1, h2]" by (cases hs rule: list.exhaust) (auto simp: length_Suc_conv dest: map_eq_imp_length_eq)
  then show ?thesis using hs run by auto
qed

text \<open>If every call of the compressor that leaves work to do makes progress, adding a bundle
  and cutting a carrier return.\<close>

theorem zclEnc_returns:
  assumes "zc_progress zc outSize \<mu>"
  shows "(\<exists>r. zclEncAdd zc outSize alloc enc bundle = Some r) \<and>
     (\<exists>r. zclEncCut zc outSize alloc enc endChunk = Some r)"
proof -
  note ret = zcl_compress_returns[OF assms]
  obtain ok enc1 where 1: "zcl_compress zc outSize alloc enc
      (put32 (replicate 4 0) 0 (word_of_nat (length bundle))) ZSTD_e_continue = Some (ok, enc1)"
    using ret by (metis surj_pair)
  obtain ok' enc2 where 2: "zcl_compress zc outSize alloc enc1 bundle ZSTD_e_continue = Some (ok', enc2)"
    using ret by (metis surj_pair)
  obtain ok'' enc3 where 3: "zcl_compress zc outSize alloc enc []
      (if endChunk then ZSTD_e_end else ZSTD_e_flush) = Some (ok'', enc3)"
    using ret by (metis surj_pair)
  have "\<exists>r. zclEncAdd zc outSize alloc enc bundle = Some r"
    by (cases ok; cases ok') (auto simp: zclEncAdd_def 1 2)
  moreover have "\<exists>r. zclEncCut zc outSize alloc enc endChunk = Some r"
    by (cases ok'') (simp_all add: zclEncCut_def 3 Let_def)
  ultimately show ?thesis by blast
qed

lemma zclEnc_returns_witness:
  "\<exists>r. zclEncAdd store_compressor 1 (\<lambda>_. True) (fresh_enc () 9) [5, 6] = Some r"
proof -
  have "zc_progress store_compressor 1 (\<lambda>_ data. length data)"
    by (auto simp: zc_progress_def store_compressor_def split: if_splits)
  from zclEnc_returns[OF this] show ?thesis by blast
qed

end
