(* ===== verification/ZclRx.thy ===== *)
theory ZclRx
  imports ZclCodec
begin

unbundle bit_operations_syntax

text \<open>
  The receiving side of the zcl compressing tunnel (CLA/zcl/src/zclcodec.c, \<open>zclRxDefaults\<close> to
  \<open>zclRxTick\<close>): carriers of numbered chunks arrive in any order, are buffered sorted by chunk and
  sequence number, decompressed in order, and the records in the decompressed octets are handed
  to a callback.

  What is outside the program is one record of functions, \<open>RxEnv\<close>: creating and resetting a zstd
  context with a window limit, one call of \<open>ZSTD_decompressStream\<close> (the context, the input left and the room; the new
  context, the octets consumed, the octets produced, and the return value, \<open>None\<close> for an error),
  the size of the output buffer, the callback on its context, and the answers of the allocator.
  A stream slot whose \<open>used\<close> is 0 is \<open>None\<close>.  The octets of \<open>lenBuf\<close>, \<open>rec\<close> and a carrier's data
  are lists, so \<open>lenHave\<close>, \<open>recHave\<close> and \<open>len\<close> are their lengths.  Loops that call zstd are
  \<open>None\<close> when they do not end.

  The lemmas show the invariant of a stream (buffer sorted and counted, nothing buffered that is
  already over, the record buffer never overrun) and that every operation keeps it, that records
  are recovered however their octets are cut, that the decoding order is the sending order, and
  that \<open>settle\<close> leaves the buffer within its limits, except for chunk number \<open>2^64 - 1\<close>.
\<close>

section \<open>Model: the data\<close>

record ZclRxLimits =
  maxBundle :: nat
  maxChunkOut :: nat
  reorderMs :: nat
  maxCarriers :: nat
  maxBufBytes :: nat
  windowLogMax :: int
  maxStreams :: nat

record ZclRxStats =
  carriersIn :: nat
  carriersBad :: nat
  carriersStale :: nat
  carriersDropped :: nat
  bytesIn :: nat
  bundlesOut :: nat
  bytesOut :: nat
  emitFailed :: nat
  chunksDone :: nat
  chunksLost :: nat
  chunksCorrupt :: nat
  streamsEvicted :: nat

record Pending =
  p_chunk :: u64
  p_seq :: u32
  p_end :: bool
  p_at :: u64
  p_data :: bytes

record 'd ZclStream =
  s_id :: u64
  s_lastUse :: nat
  s_synced :: bool
  s_cur :: u64
  s_next :: u32
  s_haveDone :: bool
  s_done :: u64
  s_dctx :: 'd
  s_frameDone :: bool
  s_chunkOut :: nat
  s_lenBuf :: bytes
  s_recLen :: nat
  s_rec :: bytes
  s_recCap :: nat
  s_buf :: "Pending list"
  s_bufCount :: nat
  s_bufBytes :: nat

record ('d, 'c) ZclRx =
  rx_limits :: ZclRxLimits
  rx_ctx :: 'c
  rx_streams :: "'d ZclStream option list"
  rx_useClock :: nat
  rx_stats :: ZclRxStats

record ('d, 'c) RxEnv =
  x_create :: "int \<Rightarrow> 'd option"
  x_reset :: "'d \<Rightarrow> 'd"
  x_decompress :: "'d \<Rightarrow> bytes \<Rightarrow> nat \<Rightarrow> 'd \<times> nat \<times> bytes \<times> nat option"
  x_tmpLen :: nat
  x_emit :: "'c \<Rightarrow> bytes \<Rightarrow> bool \<times> 'c"
  x_alloc :: "nat \<Rightarrow> bool"

definition zclRxDefaults :: ZclRxLimits where
  "zclRxDefaults = \<lparr>maxBundle = 64 * 1024 * 1024, maxChunkOut = 1024 * 1024 * 1024,
     reorderMs = 10000, maxCarriers = 4096, maxBufBytes = 64 * 1024 * 1024, windowLogMax = 23,
     maxStreams = 16\<rparr>"

definition no_stats :: ZclRxStats where
  "no_stats = \<lparr>carriersIn = 0, carriersBad = 0, carriersStale = 0, carriersDropped = 0, bytesIn = 0,
     bundlesOut = 0, bytesOut = 0, emitFailed = 0, chunksDone = 0, chunksLost = 0,
     chunksCorrupt = 0, streamsEvicted = 0\<rparr>"

text \<open>The first argument answers for the allocations of the receiver, its output buffer and its
  stream table.\<close>

definition zclRxNew :: "bool \<times> bool \<times> bool \<Rightarrow> ZclRxLimits \<Rightarrow> 'c \<Rightarrow> ('d, 'c) ZclRx option" where
  "zclRxNew allocated limits ctx =
     (if maxStreams limits = 0 \<or> maxBundle limits = 0 then None
      else if \<not> fst allocated then None
      else if \<not> fst (snd allocated) \<or> \<not> snd (snd allocated) then None
      else Some \<lparr>rx_limits = limits, rx_ctx = ctx,
        rx_streams = replicate (maxStreams limits) None, rx_useClock = 0, rx_stats = no_stats\<rparr>)"

abbreviation upd_stats ::
    "(ZclRxStats \<Rightarrow> ZclRxStats) \<Rightarrow> ('d, 'c) ZclRx \<Rightarrow> ('d, 'c) ZclRx" where
  "upd_stats f rx \<equiv> rx \<lparr> rx_stats := f (rx_stats rx) \<rparr>"

section \<open>Model: the buffer of a stream\<close>

function dropBelow ::
    "('d, 'c) ZclRx \<Rightarrow> 'd ZclStream \<Rightarrow> u64 \<Rightarrow> ('d, 'c) ZclRx \<times> 'd ZclStream" where
  "dropBelow rx s chunk =
     (case s_buf s of
        [] \<Rightarrow> (rx, s)
      | p # ps \<Rightarrow>
          if p_chunk p < chunk then
            dropBelow (upd_stats (\<lambda>t. t \<lparr> carriersDropped := carriersDropped t + 1 \<rparr>) rx)
              (s \<lparr> s_buf := ps, s_bufCount := s_bufCount s - 1,
                   s_bufBytes := s_bufBytes s - length (p_data p) \<rparr>) chunk
          else (rx, s))"
  by pat_completeness auto
termination by (relation "measure (\<lambda>(rx, s, chunk). length (s_buf s))") auto

declare dropBelow.simps [simp del]

definition resetChunk :: "('d, 'c) RxEnv \<Rightarrow> 'd ZclStream \<Rightarrow> 'd ZclStream" where
  "resetChunk env s =
     s \<lparr> s_dctx := x_reset env (s_dctx s), s_frameDone := False, s_chunkOut := 0, s_lenBuf := [],
         s_recLen := 0, s_rec := [],
         s_recCap := (if s_recCap s > 1024 * 1024 then 0 else s_recCap s) \<rparr>"

definition fresh_stream :: "'d \<Rightarrow> u64 \<Rightarrow> nat \<Rightarrow> 'd ZclStream" where
  "fresh_stream dctx ident lastUse =
     \<lparr>s_id = ident, s_lastUse = lastUse, s_synced = False, s_cur = 0, s_next = 0,
      s_haveDone = False, s_done = 0, s_dctx = dctx, s_frameDone = False, s_chunkOut = 0,
      s_lenBuf = [], s_recLen = 0, s_rec = [], s_recCap = 0, s_buf = [], s_bufCount = 0,
      s_bufBytes = 0\<rparr>"

text \<open>The loop of \<open>findStream\<close>: the slot of the stream, or the victim of an eviction.\<close>

function find_loop :: "'d ZclStream option list \<Rightarrow> u64 \<Rightarrow> nat \<Rightarrow> nat option \<Rightarrow> nat + nat option" where
  "find_loop streams ident i victim =
     (if i < length streams then
        (case streams ! i of
           Some s \<Rightarrow>
             if s_id s = ident then Inl i
             else find_loop streams ident (i + 1)
               (case victim of
                  None \<Rightarrow> Some i
                | Some v \<Rightarrow>
                    (case streams ! v of
                       None \<Rightarrow> Some v
                     | Some vs \<Rightarrow> if s_lastUse s < s_lastUse vs then Some i else Some v))
         | None \<Rightarrow> find_loop streams ident (i + 1) (Some i))
      else Inr victim)"
  by pat_completeness auto
termination by (relation "measure (\<lambda>(streams, ident, i, victim). length streams - i)") auto

declare find_loop.simps [simp del]

text \<open>The index of the stream's slot, which then holds it; \<open>None\<close> for the null pointer.\<close>

definition findStream :: "('d, 'c) RxEnv \<Rightarrow> ('d, 'c) ZclRx \<Rightarrow> u64 \<Rightarrow> nat option \<times> ('d, 'c) ZclRx" where
  "findStream env rx ident =
     (case find_loop (rx_streams rx) ident 0 None of
        Inl i \<Rightarrow>
          (case rx_streams rx ! i of
             Some s \<Rightarrow>
               (Some i, rx \<lparr> rx_useClock := rx_useClock rx + 1,
                  rx_streams := (rx_streams rx)[i := Some (s \<lparr> s_lastUse := rx_useClock rx + 1 \<rparr>)] \<rparr>)
           | None \<Rightarrow> (None, rx))
      | Inr None \<Rightarrow> (None, rx)
      | Inr (Some v) \<Rightarrow>
          (let rx = (case rx_streams rx ! v of
                       None \<Rightarrow> rx
                     | Some vs \<Rightarrow>
                         upd_stats (\<lambda>t. t \<lparr> carriersDropped := carriersDropped t + s_bufCount vs,
                                            streamsEvicted := streamsEvicted t + 1 \<rparr>)
                           (rx \<lparr> rx_streams := (rx_streams rx)[v := None] \<rparr>))
           in (case x_create env (windowLogMax (rx_limits rx)) of
                 None \<Rightarrow> (None, rx)
               | Some dctx \<Rightarrow>
                   (Some v, rx \<lparr> rx_useClock := rx_useClock rx + 1,
                      rx_streams := (rx_streams rx)[v :=
                        Some (fresh_stream dctx ident (rx_useClock rx + 1))] \<rparr>))))"

section \<open>Model: records\<close>

text \<open>\<open>while (cap < need) cap *= 2; if (cap > recLen) cap = recLen\<close>.\<close>

definition record_cap :: "nat \<Rightarrow> nat \<Rightarrow> nat \<Rightarrow> nat" where
  "record_cap cap need recLen = min (grow_cap (if cap \<noteq> 0 then cap else 4096) need) recLen"

definition emit_record ::
    "('d, 'c) RxEnv \<Rightarrow> ('d, 'c) ZclRx \<Rightarrow> bytes \<Rightarrow> ('d, 'c) ZclRx" where
  "emit_record env rx bundle =
     (let (ok, ctx) = x_emit env (rx_ctx rx) bundle; rx = rx \<lparr> rx_ctx := ctx \<rparr>
      in if \<not> ok then upd_stats (\<lambda>t. t \<lparr> emitFailed := emitFailed t + 1 \<rparr>) rx
         else upd_stats (\<lambda>t. t \<lparr> bundlesOut := bundlesOut t + 1,
                                 bytesOut := bytesOut t + length bundle \<rparr>) rx)"

text \<open>One round of the loop of \<open>takeRecords\<close>: its result, or what it goes on with.\<close>

definition take_round ::
    "('d, 'c) RxEnv \<Rightarrow> ('d, 'c) ZclRx \<Rightarrow> 'd ZclStream \<Rightarrow> bytes \<Rightarrow>
     bool \<times> ('d, 'c) ZclRx \<times> 'd ZclStream + ('d, 'c) ZclRx \<times> 'd ZclStream \<times> bytes" where
  "take_round env rx s data =
     (if data = [] then Inl (True, rx, s)
      else if length (s_lenBuf s) < ZCL_REC_HDR_LEN then
        (let lenBuf = s_lenBuf s @ [hd data]; s = s \<lparr> s_lenBuf := lenBuf \<rparr>
         in if length lenBuf = ZCL_REC_HDR_LEN then
              (let s = s \<lparr> s_recLen := unat (get32 lenBuf), s_rec := [] \<rparr>
               in if s_recLen s = 0 \<or> s_recLen s > maxBundle (rx_limits rx)
                  then Inl (False, rx, s) else Inr (rx, s, tl data))
            else Inr (rx, s, tl data))
      else
        (let take_n = min (s_recLen s - length (s_rec s)) (length data);
             need = length (s_rec s) + take_n;
             cap = (if need > s_recCap s then record_cap (s_recCap s) need (s_recLen s)
                    else s_recCap s)
         in if need > s_recCap s \<and> \<not> x_alloc env cap then Inl (False, rx, s)
            else
              (let s = s \<lparr> s_recCap := cap, s_rec := s_rec s @ take take_n data \<rparr>;
                   data = drop take_n data
               in if length (s_rec s) = s_recLen s then
                    Inr (emit_record env rx (s_rec s),
                         s \<lparr> s_lenBuf := [], s_recLen := 0, s_rec := [] \<rparr>, data)
                  else Inr (rx, s, data))))"

partial_function (option) take_loop ::
    "('d, 'c) RxEnv \<Rightarrow> ('d, 'c) ZclRx \<Rightarrow> 'd ZclStream \<Rightarrow> bytes \<Rightarrow>
     (bool \<times> ('d, 'c) ZclRx \<times> 'd ZclStream) option" where
  "take_loop env rx s data =
     (case take_round env rx s data of
        Inl result \<Rightarrow> Some result
      | Inr (rx, s, data) \<Rightarrow> take_loop env rx s data)"

declare take_loop.simps [code]

definition takeRecords ::
    "('d, 'c) RxEnv \<Rightarrow> ('d, 'c) ZclRx \<Rightarrow> 'd ZclStream \<Rightarrow> bytes \<Rightarrow>
     (bool \<times> ('d, 'c) ZclRx \<times> 'd ZclStream) option" where
  "takeRecords env rx s data =
     (if length data > maxChunkOut (rx_limits rx) - s_chunkOut s then Some (False, rx, s)
      else take_loop env rx (s \<lparr> s_chunkOut := s_chunkOut s + length data \<rparr>) data)"

section \<open>Model: decoding\<close>

text \<open>
  One round of the loop of \<open>decodeCarrier\<close>, on the input from \<open>in.pos\<close> on: a corrupt chunk, the
  end of the loop with the input left, or another round.
\<close>

definition decode_round ::
    "('d, 'c) RxEnv \<Rightarrow> ('d, 'c) ZclRx \<Rightarrow> 'd ZclStream \<Rightarrow> bytes \<Rightarrow>
     (bool \<times> ('d, 'c) ZclRx \<times> 'd ZclStream \<times> bytes + ('d, 'c) ZclRx \<times> 'd ZclStream \<times> bytes) option" where
  "decode_round env rx s data =
     (let (dctx, used, produced, ret) = x_decompress env (s_dctx s) data (x_tmpLen env);
          s = s \<lparr> s_dctx := dctx \<rparr>; data = drop used data
      in (case ret of
            None \<Rightarrow> Some (Inl (False, rx, s, data))
          | Some r \<Rightarrow>
              (case takeRecords env rx s produced of
                 None \<Rightarrow> None
               | Some (ok, rx, s) \<Rightarrow>
                   if \<not> ok then Some (Inl (False, rx, s, data))
                   else if r = 0 then Some (Inl (True, rx, s \<lparr> s_frameDone := True \<rparr>, data))
                   else if data \<noteq> [] \<or> length produced = x_tmpLen env then Some (Inr (rx, s, data))
                   else Some (Inl (True, rx, s, data)))))"

partial_function (option) decode_loop ::
    "('d, 'c) RxEnv \<Rightarrow> ('d, 'c) ZclRx \<Rightarrow> 'd ZclStream \<Rightarrow> bytes \<Rightarrow>
     (bool \<times> ('d, 'c) ZclRx \<times> 'd ZclStream \<times> bytes) option" where
  "decode_loop env rx s data =
     (case decode_round env rx s data of
        None \<Rightarrow> None
      | Some r \<Rightarrow>
          (case r of
             Inl result \<Rightarrow> Some result
           | Inr (rx, s, data) \<Rightarrow> decode_loop env rx s data))"

declare decode_loop.simps [code]

definition decodeCarrier ::
    "('d, 'c) RxEnv \<Rightarrow> ('d, 'c) ZclRx \<Rightarrow> 'd ZclStream \<Rightarrow> Pending \<Rightarrow>
     (bool \<times> ('d, 'c) ZclRx \<times> 'd ZclStream) option" where
  "decodeCarrier env rx s p =
     (if s_frameDone s then Some (False, rx, s)
      else
        (case decode_loop env
                (upd_stats (\<lambda>t. t \<lparr> bytesIn := bytesIn t + length (p_data p) \<rparr>) rx) s (p_data p) of
           None \<Rightarrow> None
         | Some (ok, rx, s, data) \<Rightarrow>
             Some (ok \<and> data = [] \<and>
                   (if p_end p then s_frameDone s \<and> s_lenBuf s = [] else \<not> s_frameDone s), rx, s)))"

section \<open>Model: the order of carriers\<close>

definition zclEndChunk ::
    "('d, 'c) RxEnv \<Rightarrow> ('d, 'c) ZclRx \<Rightarrow> 'd ZclStream \<Rightarrow> ('d, 'c) ZclRx \<times> 'd ZclStream" where
  "zclEndChunk env rx s =
     (let s = s \<lparr> s_synced := False, s_haveDone := True, s_done := s_cur s \<rparr>;
          (rx, s) = dropBelow rx s (s_cur s + 1)
      in (rx, resetChunk env s))"

definition syncTo ::
    "('d, 'c) RxEnv \<Rightarrow> ('d, 'c) ZclRx \<Rightarrow> 'd ZclStream \<Rightarrow> u64 \<Rightarrow> ('d, 'c) ZclRx \<times> 'd ZclStream" where
  "syncTo env rx s chunk =
     (let (rx, s) = dropBelow rx s chunk
      in (rx, resetChunk env (s \<lparr> s_synced := True, s_cur := chunk, s_next := 0 \<rparr>)))"

text \<open>One round of the loop of \<open>drain\<close>: where it stops, or what it goes on with.\<close>

definition drain_round ::
    "('d, 'c) RxEnv \<Rightarrow> ('d, 'c) ZclRx \<Rightarrow> 'd ZclStream \<Rightarrow>
     (('d, 'c) ZclRx \<times> 'd ZclStream + ('d, 'c) ZclRx \<times> 'd ZclStream) option" where
  "drain_round env rx s =
     (case s_buf s of
        [] \<Rightarrow> Some (Inl (rx, s))
      | p # ps \<Rightarrow>
          if \<not> s_synced s then
            (case List.find (\<lambda>q. p_seq q = 0) (s_buf s) of
               None \<Rightarrow> Some (Inl (rx, s))
             | Some start \<Rightarrow>
                 if p_chunk start \<noteq> (if s_haveDone s then s_done s + 1 else 0)
                 then Some (Inl (rx, s))
                 else Some (Inr (syncTo env rx s (p_chunk start))))
          else if p_chunk p \<noteq> s_cur s \<or> p_seq p \<noteq> s_next s then Some (Inl (rx, s))
          else
            (case decodeCarrier env rx
                    (s \<lparr> s_buf := ps, s_bufCount := s_bufCount s - 1,
                         s_bufBytes := s_bufBytes s - length (p_data p) \<rparr>) p of
               None \<Rightarrow> None
             | Some (ok, rx, s) \<Rightarrow>
                 Some (Inr
                   (if \<not> ok then
                      zclEndChunk env
                        (upd_stats (\<lambda>t. t \<lparr> chunksCorrupt := chunksCorrupt t + 1 \<rparr>) rx) s
                    else if p_end p then
                      zclEndChunk env (upd_stats (\<lambda>t. t \<lparr> chunksDone := chunksDone t + 1 \<rparr>) rx) s
                    else (rx, s \<lparr> s_next := s_next s + 1 \<rparr>)))))"

partial_function (option) drain ::
    "('d, 'c) RxEnv \<Rightarrow> ('d, 'c) ZclRx \<Rightarrow> 'd ZclStream \<Rightarrow> (('d, 'c) ZclRx \<times> 'd ZclStream) option" where
  "drain env rx s =
     (case drain_round env rx s of
        None \<Rightarrow> None
      | Some r \<Rightarrow> (case r of Inl result \<Rightarrow> Some result | Inr (rx, s) \<Rightarrow> drain env rx s))"

declare drain.simps [code]

definition resolveGap ::
    "('d, 'c) RxEnv \<Rightarrow> ('d, 'c) ZclRx \<Rightarrow> 'd ZclStream \<Rightarrow> ('d, 'c) ZclRx \<times> 'd ZclStream" where
  "resolveGap env rx s =
     (if s_synced s then
        zclEndChunk env (upd_stats (\<lambda>t. t \<lparr> chunksLost := chunksLost t + 1 \<rparr>) rx) s
      else
        (case List.find (\<lambda>q. p_seq q = 0) (s_buf s) of
           Some p \<Rightarrow> syncTo env rx s (p_chunk p)
         | None \<Rightarrow>
             (let s = s \<lparr> s_haveDone := True, s_done := p_chunk (hd (s_buf s)) \<rparr>
              in dropBelow rx s (s_done s + 1))))"

text \<open>The condition under which \<open>settle\<close> gives up the gap at the head of the buffer.\<close>

definition over_limits :: "ZclRxLimits \<Rightarrow> 'd ZclStream \<Rightarrow> u64 \<Rightarrow> bool" where
  "over_limits limits s nowMs \<longleftrightarrow>
     s_bufCount s > maxCarriers limits \<or> s_bufBytes s > maxBufBytes limits \<or>
     (nowMs \<ge> p_at (hd (s_buf s)) \<and> unat (nowMs - p_at (hd (s_buf s))) \<ge> reorderMs limits)"

text \<open>The loop of \<open>settle\<close>; the first argument is the number of rounds left.\<close>

fun settle_loop ::
    "nat \<Rightarrow> ('d, 'c) RxEnv \<Rightarrow> ('d, 'c) ZclRx \<Rightarrow> 'd ZclStream \<Rightarrow> u64 \<Rightarrow>
     (('d, 'c) ZclRx \<times> 'd ZclStream) option" where
  "settle_loop 0 env rx s nowMs = Some (rx, s)"
| "settle_loop (Suc rounds) env rx s nowMs =
     (if s_buf s = [] then Some (rx, s)
      else
        (case drain env rx s of
           None \<Rightarrow> None
         | Some (rx, s) \<Rightarrow>
             if s_buf s = [] then Some (rx, s)
             else if over_limits (rx_limits rx) s nowMs then
               (case resolveGap env rx s of (rx, s) \<Rightarrow> settle_loop rounds env rx s nowMs)
             else Some (rx, s)))"

definition settle ::
    "('d, 'c) RxEnv \<Rightarrow> ('d, 'c) ZclRx \<Rightarrow> 'd ZclStream \<Rightarrow> u64 \<Rightarrow> (('d, 'c) ZclRx \<times> 'd ZclStream) option" where
  "settle = settle_loop 1000000"

section \<open>Model: the receiver\<close>

definition is_stale :: "'d ZclStream \<Rightarrow> ZclHeader \<Rightarrow> bool" where
  "is_stale s h \<longleftrightarrow>
     (s_haveDone s \<and> zh_chunkId h \<le> s_done s) \<or>
     (s_synced s \<and> zh_chunkId h = s_cur s \<and> zh_seq h < s_next s) \<or>
     (s_synced s \<and> zh_chunkId h < s_cur s)"

text \<open>\<open>sizeof (Pending)\<close> on an LP64 machine.\<close>

definition sizeof_Pending :: nat where "sizeof_Pending = 40"

text \<open>The place of the link loop of \<open>zclRxCarrier\<close> in the buffer.\<close>

definition buf_place :: "Pending list \<Rightarrow> ZclHeader \<Rightarrow> nat" where
  "buf_place buf h = length (takeWhile (\<lambda>q.
     \<not> (p_chunk q > zh_chunkId h \<or> (p_chunk q = zh_chunkId h \<and> p_seq q \<ge> zh_seq h))) buf)"

definition zclRxCarrier ::
    "('d, 'c) RxEnv \<Rightarrow> ('d, 'c) ZclRx \<Rightarrow> bytes \<Rightarrow> u64 \<Rightarrow> (bool \<times> ('d, 'c) ZclRx) option" where
  "zclRxCarrier env rx carrier nowMs =
     (let rx = upd_stats (\<lambda>t. t \<lparr> carriersIn := carriersIn t + 1 \<rparr>) rx in
      case zclHeaderGet carrier (length carrier) of
        None \<Rightarrow> Some (False, upd_stats (\<lambda>t. t \<lparr> carriersBad := carriersBad t + 1 \<rparr>) rx)
      | Some h \<Rightarrow>
          (case findStream env rx (zh_streamId h) of
             (None, rx) \<Rightarrow>
               Some (True, upd_stats (\<lambda>t. t \<lparr> carriersDropped := carriersDropped t + 1 \<rparr>) rx)
           | (Some i, rx) \<Rightarrow>
               (case rx_streams rx ! i of
                  None \<Rightarrow> Some (True, rx)
                | Some s \<Rightarrow>
                    (let k = buf_place (s_buf s) h in
                     if is_stale s h \<or>
                        (k < length (s_buf s) \<and> p_chunk (s_buf s ! k) = zh_chunkId h \<and>
                         p_seq (s_buf s ! k) = zh_seq h)
                     then Some (True, upd_stats (\<lambda>t. t \<lparr> carriersStale := carriersStale t + 1 \<rparr>) rx)
                     else if \<not> x_alloc env (sizeof_Pending + unat (zh_length h)) then
                       Some (True, upd_stats (\<lambda>t. t \<lparr> carriersDropped := carriersDropped t + 1 \<rparr>) rx)
                     else
                       (let p = \<lparr>p_chunk = zh_chunkId h, p_seq = zh_seq h,
                                 p_end = (zh_flags h AND ZCL_FLAG_END \<noteq> 0), p_at = nowMs,
                                 p_data = take (unat (zh_length h)) (drop ZCL_HDR_LEN carrier)\<rparr>;
                            s = s \<lparr> s_buf := take k (s_buf s) @ p # drop k (s_buf s),
                                    s_bufCount := s_bufCount s + 1,
                                    s_bufBytes := s_bufBytes s + length (p_data p) \<rparr>
                        in (case settle env rx s nowMs of
                              None \<Rightarrow> None
                            | Some (rx, s) \<Rightarrow>
                                Some (True, rx \<lparr> rx_streams := (rx_streams rx)[i := Some s] \<rparr>)))))))"

text \<open>The loop of \<open>zclRxTick\<close> over the slots from \<open>i\<close> on; the first argument is how many are left.\<close>

fun tick_loop ::
    "nat \<Rightarrow> ('d, 'c) RxEnv \<Rightarrow> ('d, 'c) ZclRx \<Rightarrow> nat \<Rightarrow> u64 \<Rightarrow> ('d, 'c) ZclRx option" where
  "tick_loop 0 env rx i nowMs = Some rx"
| "tick_loop (Suc n) env rx i nowMs =
     (case rx_streams rx ! i of
        None \<Rightarrow> tick_loop n env rx (i + 1) nowMs
      | Some s \<Rightarrow>
          (case settle env rx s nowMs of
             None \<Rightarrow> None
           | Some (rx, s) \<Rightarrow>
               tick_loop n env (rx \<lparr> rx_streams := (rx_streams rx)[i := Some s] \<rparr>) (i + 1) nowMs))"

definition zclRxTick :: "('d, 'c) RxEnv \<Rightarrow> ('d, 'c) ZclRx \<Rightarrow> u64 \<Rightarrow> ('d, 'c) ZclRx option" where
  "zclRxTick env rx nowMs = tick_loop (length (rx_streams rx)) env rx 0 nowMs"

section \<open>Records\<close>

text \<open>A record as the sender writes it, and the cutting of an octet string into records.\<close>

definition record_octets :: "bytes \<Rightarrow> bytes" where
  "record_octets b = be32 (word_of_nat (length b)) @ b"

function split_records :: "nat \<Rightarrow> bytes \<Rightarrow> bytes list \<times> bytes \<times> bool" where
  "split_records limit bs =
     (if length bs < 4 then ([], bs, True)
      else
        let n = unat (get32 bs)
        in if n = 0 \<or> n > limit then ([], bs, False)
           else if length bs < 4 + n then ([], bs, True)
           else (case split_records limit (drop (4 + n) bs) of
                   (bundles, rest, ok) \<Rightarrow> (take n (drop 4 bs) # bundles, rest, ok)))"
  by pat_completeness auto
termination by (relation "measure (\<lambda>(limit, bs). length bs)") auto

declare split_records.simps [simp del]

definition record_fits :: "nat \<Rightarrow> bytes \<Rightarrow> bool" where
  "record_fits limit b \<longleftrightarrow> b \<noteq> [] \<and> length b \<le> limit \<and> length b < 2 ^ 32"

lemma split_record:
  assumes "record_fits limit b"
  shows "split_records limit (record_octets b @ bs) =
     (case split_records limit bs of (bundles, rest, ok) \<Rightarrow> (b # bundles, rest, ok))"
proof -
  have "unat (word_of_nat (length b) :: u32) = length b"
    using assms by (simp add: record_fits_def unat_of_nat take_bit_nat_eq_self)
  moreover have "drop 4 (record_octets b @ bs) = b @ bs"
    "drop (4 + length b) (record_octets b @ bs) = bs"
    by (simp_all add: record_octets_def)
  ultimately show ?thesis
    using assms by (subst split_records.simps) (simp add: record_octets_def record_fits_def Let_def)
qed

lemma split_records_all:
  "list_all (record_fits limit) bundles \<Longrightarrow>
     split_records limit (concat (map record_octets bundles)) = (bundles, [], True)"
  by (induction bundles) (auto simp: split_record, subst split_records.simps, simp)

section \<open>Taking records\<close>

text \<open>The octets of the record under way, and the invariant of the record buffer.\<close>

definition pend :: "'d ZclStream \<Rightarrow> bytes" where
  "pend s = s_lenBuf s @ s_rec s"

definition rec_inv :: "nat \<Rightarrow> 'd ZclStream \<Rightarrow> bool" where
  "rec_inv limit s \<longleftrightarrow>
     length (s_rec s) \<le> s_recCap s \<and>
     (if length (s_lenBuf s) < ZCL_REC_HDR_LEN then s_rec s = []
      else length (s_lenBuf s) = ZCL_REC_HDR_LEN \<and> s_recLen s = unat (get32 (s_lenBuf s)) \<and>
           0 < s_recLen s \<and> s_recLen s \<le> limit \<and> length (s_rec s) < s_recLen s)"

lemma rec_inv_upd [simp]:
  "rec_inv limit (s \<lparr> s_frameDone := b \<rparr>) = rec_inv limit s"
  "rec_inv limit (s \<lparr> s_dctx := d \<rparr>) = rec_inv limit s"
  "rec_inv limit (s \<lparr> s_chunkOut := n \<rparr>) = rec_inv limit s"
  "rec_inv limit (s \<lparr> s_synced := b \<rparr>) = rec_inv limit s"
  "rec_inv limit (s \<lparr> s_cur := c \<rparr>) = rec_inv limit s"
  "rec_inv limit (s \<lparr> s_next := q \<rparr>) = rec_inv limit s"
  "rec_inv limit (s \<lparr> s_haveDone := b \<rparr>) = rec_inv limit s"
  "rec_inv limit (s \<lparr> s_done := c \<rparr>) = rec_inv limit s"
  "rec_inv limit (s \<lparr> s_buf := ps \<rparr>) = rec_inv limit s"
  "rec_inv limit (s \<lparr> s_bufCount := n \<rparr>) = rec_inv limit s"
  "rec_inv limit (s \<lparr> s_bufBytes := n \<rparr>) = rec_inv limit s"
  "rec_inv limit (s \<lparr> s_lastUse := n \<rparr>) = rec_inv limit s"
  by (simp_all add: rec_inv_def)

text \<open>What decoding leaves alone: the place of the stream in the order of carriers, and its buffer.\<close>

definition same_queue :: "'d ZclStream \<Rightarrow> 'd ZclStream \<Rightarrow> bool" where
  "same_queue s s' \<longleftrightarrow>
     s_id s' = s_id s \<and> s_lastUse s' = s_lastUse s \<and> s_synced s' = s_synced s \<and>
     s_cur s' = s_cur s \<and> s_next s' = s_next s \<and> s_haveDone s' = s_haveDone s \<and>
     s_done s' = s_done s \<and> s_buf s' = s_buf s \<and> s_bufCount s' = s_bufCount s \<and>
     s_bufBytes s' = s_bufBytes s"

definition same_rx :: "('d, 'c) ZclRx \<Rightarrow> ('d, 'c) ZclRx \<Rightarrow> bool" where
  "same_rx rx rx' \<longleftrightarrow>
     rx_limits rx' = rx_limits rx \<and> rx_streams rx' = rx_streams rx \<and> rx_useClock rx' = rx_useClock rx"

named_theorems same_defs \<open>the frames of the operations\<close>
declare same_queue_def [same_defs] same_rx_def [same_defs]

lemma same_queue_trans: "same_queue a b \<Longrightarrow> same_queue b c \<Longrightarrow> same_queue a c"
  by (simp add: same_queue_def)

lemma same_rx_trans: "same_rx a b \<Longrightarrow> same_rx b c \<Longrightarrow> same_rx a c"
  by (simp add: same_rx_def)

lemma same_rx_refl [simp]: "same_rx rx rx" by (simp add: same_rx_def)
lemma same_queue_refl [simp]: "same_queue s s" by (simp add: same_queue_def)

lemma emit_record_same: "same_rx rx (emit_record env rx b)"
  by (simp add: emit_record_def same_rx_def Let_def split: prod.splits)

lemma record_cap_room:
  assumes "cap < need" "need \<le> recLen"
  shows "need \<le> record_cap cap need recLen"
  using grow_cap_ge[of "if cap \<noteq> 0 then cap else 4096" need] assms by (simp add: record_cap_def)

lemma get32_append: "4 \<le> length a \<Longrightarrow> get32 (a @ b) = get32 a"
  by (auto simp: get32_def nth_append)

text \<open>
  One round, split by what it does: end of the data, an octet of a record header or of a record,
  the last octet of a record, a record header that is corrupt, or an allocation that failed.
\<close>

lemma take_round_cases:
  assumes inv: "rec_inv limit s" and lim: "limit = maxBundle (rx_limits rx)"
  obtains
    (finished) "data = []" "take_round env rx s data = Inl (True, rx, s)"
  | (corrupt) s' where "data \<noteq> []" "take_round env rx s data = Inl (False, rx, s')" "same_queue s s'"
      "split_records limit (pend s @ data) = ([], pend s @ data, False)"
  | (no_memory) s' n where "data \<noteq> []" "take_round env rx s data = Inl (False, rx, s')"
      "same_queue s s'" "\<not> x_alloc env n"
  | (octets) s' data' where "take_round env rx s data = Inr (rx, s', data')" "same_queue s s'"
      "length data' < length data" "rec_inv limit s'" "pend s' @ data' = pend s @ data"
      "s_chunkOut s' = s_chunkOut s" "s_dctx s' = s_dctx s" "s_frameDone s' = s_frameDone s"
  | (whole) s' data' b where "take_round env rx s data = Inr (emit_record env rx b, s', data')"
      "same_queue s s'" "length data' < length data" "rec_inv limit s'" "pend s' = []"
      "record_fits limit b" "pend s @ data = record_octets b @ data'"
      "s_chunkOut s' = s_chunkOut s" "s_dctx s' = s_dctx s" "s_frameDone s' = s_frameDone s"
proof (cases "data = []")
  case True
  then show ?thesis by (intro finished) (simp_all add: take_round_def)
next
  case ne: False
  then obtain d ds where data: "data = d # ds" by (cases data) auto
  show ?thesis
  proof (cases "length (s_lenBuf s) < ZCL_REC_HDR_LEN")
    case hdr: True
    let ?lb = "s_lenBuf s @ [d]"
    let ?s1 = "s \<lparr> s_lenBuf := ?lb \<rparr>"
    let ?s2 = "?s1 \<lparr> s_recLen := unat (get32 ?lb), s_rec := [] \<rparr>"
    have r0: "s_rec s = []" using inv hdr by (simp add: rec_inv_def)
    show ?thesis
    proof (cases "length ?lb = ZCL_REC_HDR_LEN")
      case full: True
      show ?thesis
      proof (cases "unat (get32 ?lb) = 0 \<or> unat (get32 ?lb) > limit")
        case True
        have "take_round env rx s data = Inl (False, rx, ?s2)"
          using data hdr full True lim by (auto simp: take_round_def Let_def)
        moreover have "split_records limit (pend s @ data) = ([], pend s @ data, False)"
        proof -
          have "pend s @ data = ?lb @ ds" using r0 data by (simp add: pend_def)
          moreover have "length ?lb = 4" using full by (simp add: ZCL_REC_HDR_LEN_def)
          ultimately show ?thesis using True
            by (subst split_records.simps) (simp add: get32_append[of ?lb ds, simplified] Let_def)
        qed
        ultimately show ?thesis by (intro corrupt[OF ne, of ?s2]) (simp_all add: same_queue_def)
      next
        case False
        have "take_round env rx s data = Inr (rx, ?s2, ds)"
          using data hdr full False lim by (auto simp: take_round_def Let_def)
        moreover have "rec_inv limit ?s2" using full False by (simp add: rec_inv_def)
        moreover have "pend ?s2 @ ds = pend s @ data" using r0 data by (simp add: pend_def)
        ultimately show ?thesis by (intro octets[of ?s2 ds]) (simp_all add: same_queue_def data)
      qed
    next
      case False
      have "take_round env rx s data = Inr (rx, ?s1, ds)"
        using data hdr False by (simp add: take_round_def Let_def)
      moreover have "rec_inv limit ?s1" using inv hdr False by (simp add: rec_inv_def)
      moreover have "pend ?s1 @ ds = pend s @ data" using r0 data by (simp add: pend_def)
      ultimately show ?thesis by (intro octets[of ?s1 ds]) (simp_all add: same_queue_def data)
    qed
  next
    case body: False
    let ?n = "min (s_recLen s - length (s_rec s)) (length data)"
    let ?need = "length (s_rec s) + ?n"
    let ?cap = "if ?need > s_recCap s then record_cap (s_recCap s) ?need (s_recLen s) else s_recCap s"
    let ?rec = "s_rec s @ take ?n data"
    let ?s1 = "s \<lparr> s_recCap := ?cap, s_rec := ?rec \<rparr>"
    have i: "length (s_lenBuf s) = ZCL_REC_HDR_LEN" "s_recLen s = unat (get32 (s_lenBuf s))"
      "0 < s_recLen s" "s_recLen s \<le> limit" "length (s_rec s) < s_recLen s"
      using inv body by (auto simp: rec_inv_def)
    have n: "0 < ?n" "?n \<le> length data" using i(5) ne by auto
    have "?need \<le> s_recLen s" using i(5) by auto
    then have cap: "length ?rec \<le> ?cap"
      using record_cap_room[of "s_recCap s" ?need "s_recLen s"] by auto
    show ?thesis
    proof (cases "?need > s_recCap s \<and> \<not> x_alloc env ?cap")
      case True
      then have "take_round env rx s data = Inl (False, rx, s)"
        using ne body by (auto simp: take_round_def Let_def)
      then show ?thesis using True by (intro no_memory[OF ne, of s ?cap]) auto
    next
      case mem: False
      show ?thesis
      proof (cases "length ?rec = s_recLen s")
        case True
        let ?s2 = "?s1 \<lparr> s_lenBuf := [], s_recLen := 0, s_rec := [] \<rparr>"
        have "take_round env rx s data = Inr (emit_record env rx ?rec, ?s2, drop ?n data)"
          using ne body mem True by (simp add: take_round_def Let_def)
        moreover have "rec_inv limit ?s2" by (simp add: rec_inv_def ZCL_REC_HDR_LEN_def)
        moreover have "word_of_nat (length ?rec) = get32 (s_lenBuf s)" using True i(2) by simp
        then have "pend s @ data = record_octets ?rec @ drop ?n data"
          using i(1) be32_get32[of "s_lenBuf s"]
          by (simp add: pend_def record_octets_def ZCL_REC_HDR_LEN_def)
        moreover have "record_fits limit ?rec"
          unfolding record_fits_def True length_greater_0_conv[symmetric]
          using i(2-4) unat_u32_less[of "get32 (s_lenBuf s)"] by simp
        moreover have "length (drop ?n data) < length data" using n ne by simp
        ultimately show ?thesis
          by (intro whole[of ?rec ?s2 "drop ?n data"]) (simp_all add: same_queue_def pend_def)
      next
        case False
        have "take_round env rx s data = Inr (rx, ?s1, drop ?n data)"
          using ne body mem False by (simp add: take_round_def Let_def)
        moreover have "rec_inv limit ?s1" using i cap False by (auto simp: rec_inv_def)
        moreover have "length (drop ?n data) < length data" using n ne by simp
        moreover have "pend ?s1 @ drop ?n data = pend s @ data" by (simp add: pend_def)
        ultimately show ?thesis by (intro octets[of ?s1 "drop ?n data"]) (simp_all add: same_queue_def)
      qed
    qed
  qed
qed

definition emit_all :: "('d, 'c) RxEnv \<Rightarrow> bytes list \<Rightarrow> ('d, 'c) ZclRx \<Rightarrow> ('d, 'c) ZclRx" where
  "emit_all env bundles rx = foldl (emit_record env) rx bundles"

lemma emit_all_simps [simp]:
  "emit_all env [] rx = rx" "emit_all env (b # bs) rx = emit_all env bs (emit_record env rx b)"
  by (simp_all add: emit_all_def)

lemma emit_all_append: "emit_all env (a @ b) rx = emit_all env b (emit_all env a rx)"
  by (simp add: emit_all_def)

lemma emit_all_same: "same_rx rx (emit_all env bs rx)"
  by (induction bs arbitrary: rx) (auto intro: same_rx_trans emit_record_same)

text \<open>What is under way is not a whole record.\<close>

lemma split_pend:
  assumes "rec_inv limit s"
  shows "split_records limit (pend s) = ([], pend s, True)"
proof (cases "length (s_lenBuf s) < 4")
  case True
  then show ?thesis using assms
    by (subst split_records.simps) (simp add: rec_inv_def pend_def ZCL_REC_HDR_LEN_def)
next
  case False
  then have i: "length (s_lenBuf s) = 4" "s_recLen s = unat (get32 (s_lenBuf s))" "0 < s_recLen s"
    "s_recLen s \<le> limit" "length (s_rec s) < s_recLen s"
    using assms by (auto simp: rec_inv_def ZCL_REC_HDR_LEN_def)
  then show ?thesis
    by (subst split_records.simps) (simp add: pend_def get32_append Let_def)
qed

text \<open>
  \<open>taken env limit rx s data res\<close>: the loop of \<open>takeRecords\<close> ends in \<open>res\<close> as it should.  The
  bundles handed on are the records in what was under way and the new octets; without a failing
  allocation the chunk is corrupt exactly when the cutting says so.
\<close>

definition taken ::
    "('d, 'c) RxEnv \<Rightarrow> nat \<Rightarrow> ('d, 'c) ZclRx \<Rightarrow> 'd ZclStream \<Rightarrow> bytes \<Rightarrow>
     bool \<times> ('d, 'c) ZclRx \<times> 'd ZclStream \<Rightarrow> bool" where
  "taken env limit rx s data = (\<lambda>(ok, rx', s').
     same_queue s s' \<and> (\<exists>bs rest. rx' = emit_all env bs rx \<and>
       (if ok then rec_inv limit s' \<and> s_dctx s' = s_dctx s \<and> s_chunkOut s' = s_chunkOut s \<and>
                   s_frameDone s' = s_frameDone s \<and>
                   split_records limit (pend s @ data) = (bs, pend s', True)
        else (\<forall>n. x_alloc env n) \<longrightarrow> split_records limit (pend s @ data) = (bs, rest, False))))"

lemma taken_octets:
  assumes "taken env limit rx s' data' res" "same_queue s s'" "pend s' @ data' = pend s @ data"
    "s_chunkOut s' = s_chunkOut s" "s_dctx s' = s_dctx s" "s_frameDone s' = s_frameDone s"
  shows "taken env limit rx s data res"
  using assms by (auto simp: taken_def same_queue_def split: if_splits)

lemma taken_whole:
  assumes "taken env limit (emit_record env rx b) s' data' res" "same_queue s s'" "pend s' = []"
    "record_fits limit b" "pend s @ data = record_octets b @ data'"
    "s_chunkOut s' = s_chunkOut s" "s_dctx s' = s_dctx s" "s_frameDone s' = s_frameDone s"
  shows "taken env limit rx s data res"
proof -
  obtain ok rx' s2 where res: "res = (ok, rx', s2)" by (cases res)
  obtain bs rest where h: "same_queue s' s2" "rx' = emit_all env bs (emit_record env rx b)"
    and ok: "ok \<Longrightarrow> rec_inv limit s2 \<and> s_dctx s2 = s_dctx s' \<and> s_chunkOut s2 = s_chunkOut s' \<and>
        s_frameDone s2 = s_frameDone s' \<and> split_records limit data' = (bs, pend s2, True)"
    and nok: "\<not> ok \<Longrightarrow> (\<forall>n. x_alloc env n) \<longrightarrow> split_records limit data' = (bs, rest, False)"
    using assms(1,3) res by (auto simp: taken_def split: if_splits)
  have sp: "split_records limit (pend s @ data) =
      (case split_records limit data' of (bundles, rest, ok) \<Rightarrow> (b # bundles, rest, ok))"
    unfolding assms(5) by (rule split_record[OF assms(4)])
  show ?thesis
    unfolding taken_def res prod.case
    using h same_queue_trans[OF assms(2) h(1)] ok nok sp assms(6-8)
    by (intro conjI exI[of _ "b # bs"] exI[of _ rest]) auto
qed

lemma take_loop_taken:
  assumes "rec_inv (maxBundle (rx_limits rx)) s"
  shows "\<exists>res. take_loop env rx s data = Some res \<and> taken env (maxBundle (rx_limits rx)) rx s data res"
  using assms
proof (induction "length data" arbitrary: rx s data rule: less_induct)
  case less
  let ?L = "maxBundle (rx_limits rx)"
  show ?case
  proof (cases rule: take_round_cases[OF less.prems refl, of data env,
        case_names finished corrupt no_memory octets whole])
    case finished
    then have "take_loop env rx s data = Some (True, rx, s)" by (subst take_loop.simps) simp
    moreover have "taken env ?L rx s data (True, rx, s)"
      unfolding taken_def using finished split_pend[OF less.prems] less.prems
      by (auto intro: exI[of _ "[]"])
    ultimately show ?thesis by blast
  next
    case (corrupt s')
    then have "take_loop env rx s data = Some (False, rx, s')" by (subst take_loop.simps) simp
    moreover have "taken env ?L rx s data (False, rx, s')"
      unfolding taken_def prod.case if_False using corrupt(3,4)
      by (intro conjI exI[of _ "[]"] exI[of _ "pend s @ data"]) simp_all
    ultimately show ?thesis by blast
  next
    case (no_memory s' n)
    then have "take_loop env rx s data = Some (False, rx, s')" by (subst take_loop.simps) simp
    moreover have "taken env ?L rx s data (False, rx, s')"
      unfolding taken_def using no_memory by (auto intro: exI[of _ "[]"])
    ultimately show ?thesis by blast
  next
    case (octets s' data')
    have "take_loop env rx s data = take_loop env rx s' data'"
      using octets(1) by (subst take_loop.simps) simp
    then show ?thesis
      using less.hyps[OF octets(3,4)] taken_octets[OF _ octets(2,5-8)] by metis
  next
    case (whole s' data' b)
    let ?rx = "emit_record env rx b"
    have l: "rx_limits ?rx = rx_limits rx" using emit_record_same[of rx env b] by (simp add: same_rx_def)
    have "take_loop env rx s data = take_loop env ?rx s' data'"
      using whole(1) by (subst take_loop.simps) simp
    then show ?thesis
      using less.hyps[OF whole(3), of ?rx s'] whole(4) taken_whole[OF _ whole(2,5-10)] l by metis
  qed
qed

lemma takeRecords_taken:
  assumes "rec_inv (maxBundle (rx_limits rx)) s"
  shows "\<exists>ok rx' s'. takeRecords env rx s data = Some (ok, rx', s') \<and>
     (if length data > maxChunkOut (rx_limits rx) - s_chunkOut s
      then ok = False \<and> rx' = rx \<and> s' = s
      else taken env (maxBundle (rx_limits rx)) rx
             (s \<lparr> s_chunkOut := s_chunkOut s + length data \<rparr>) data (ok, rx', s'))"
proof (cases "length data > maxChunkOut (rx_limits rx) - s_chunkOut s")
  case True
  then show ?thesis by (intro exI[of _ False] exI[of _ rx] exI[of _ s]) (simp add: takeRecords_def)
next
  case False
  let ?s = "s \<lparr> s_chunkOut := s_chunkOut s + length data \<rparr>"
  have "rec_inv (maxBundle (rx_limits rx)) ?s" using assms by (auto simp: rec_inv_def)
  from take_loop_taken[OF this, of env data] False show ?thesis
    by (auto simp: takeRecords_def)
qed

section \<open>Properties\<close>

text \<open>The rest left of a cut string is where the cutting of more octets goes on.\<close>

lemma split_records_append:
  "split_records limit a = (bs, rest, ok) \<Longrightarrow>
     split_records limit (a @ b) =
       (if ok then (case split_records limit (rest @ b) of (cs, rest', ok') \<Rightarrow> (bs @ cs, rest', ok'))
        else (bs, rest @ b, False))"
proof (induction limit a arbitrary: bs rest ok rule: split_records.induct)
  case (1 limit a)
  let ?n = "unat (get32 a)"
  consider (short) "length a < 4" | (bad) "4 \<le> length a" "?n = 0 \<or> ?n > limit"
    | (part) "4 \<le> length a" "\<not> (?n = 0 \<or> ?n > limit)" "length a < 4 + ?n"
    | (whole) "4 \<le> length a" "\<not> (?n = 0 \<or> ?n > limit)" "4 + ?n \<le> length a"
    by linarith
  then show ?case
  proof cases
    case short
    then show ?thesis using "1.prems" by (simp add: split_records.simps[of limit a] split: prod.split)
  next
    case bad
    then have "split_records limit a = ([], a, False)" by (simp add: split_records.simps[of limit a])
    moreover have "split_records limit (a @ b) = ([], a @ b, False)"
      using bad by (subst split_records.simps) (simp add: get32_append Let_def)
    ultimately show ?thesis using "1.prems" by simp
  next
    case part
    then have "split_records limit a = ([], a, True)" by (auto simp: split_records.simps[of limit a] Let_def)
    then show ?thesis using "1.prems" by (simp split: prod.split)
  next
    case whole
    obtain cs rest' ok' where r: "split_records limit (drop (4 + ?n) a) = (cs, rest', ok')"
      by (metis surj_pair)
    have a: "split_records limit a = (take ?n (drop 4 a) # cs, rest', ok')"
      using whole r by (subst split_records.simps) (simp add: Let_def not_less)
    have ab: "split_records limit (a @ b) = (case split_records limit (drop (4 + ?n) a @ b) of
        (bundles, rest, ok) \<Rightarrow> (take ?n (drop 4 a) # bundles, rest, ok))"
      using whole by (subst split_records.simps) (simp add: get32_append Let_def not_less)
    have "\<not> length a < 4" "\<not> length a < 4 + ?n" using whole by simp_all
    note ih = "1.IH"[OF this(1) refl whole(2) this(2) r]
    show ?thesis
      unfolding ab ih using a "1.prems" by (auto split: prod.split)
  qed
qed

text \<open>The pieces of decompressed octets one chunk arrives in, taken one after another.\<close>

fun take_all ::
    "('d, 'c) RxEnv \<Rightarrow> bytes list \<Rightarrow> ('d, 'c) ZclRx \<Rightarrow> 'd ZclStream \<Rightarrow>
     (bool \<times> ('d, 'c) ZclRx \<times> 'd ZclStream) option" where
  "take_all env [] rx s = Some (True, rx, s)"
| "take_all env (data # pieces) rx s =
     (case takeRecords env rx s data of
        None \<Rightarrow> None
      | Some (ok, rx, s) \<Rightarrow> if ok then take_all env pieces rx s else Some (False, rx, s))"

lemma take_all_split:
  assumes "rec_inv (maxBundle (rx_limits rx)) s" "\<forall>n. x_alloc env n"
    "split_records (maxBundle (rx_limits rx)) (pend s @ concat pieces) = (bundles, [], True)"
    "s_chunkOut s + length (concat pieces) \<le> maxChunkOut (rx_limits rx)"
  shows "\<exists>s'. take_all env pieces rx s = Some (True, emit_all env bundles rx, s') \<and>
     pend s' = [] \<and> same_queue s s'"
  using assms
proof (induction pieces arbitrary: rx s bundles)
  case Nil
  then show ?case using split_pend[OF Nil(1)] by simp
next
  case (Cons data pieces)
  let ?L = "maxBundle (rx_limits rx)"
  let ?s = "s \<lparr> s_chunkOut := s_chunkOut s + length data \<rparr>"
  have room: "\<not> length data > maxChunkOut (rx_limits rx) - s_chunkOut s" using Cons.prems(4) by simp
  obtain ok rx1 s1 where t: "takeRecords env rx s data = Some (ok, rx1, s1)"
    and tk: "taken env ?L rx ?s data (ok, rx1, s1)"
    using takeRecords_taken[OF Cons.prems(1), of env data] room by (auto split: if_splits)
  have pend: "pend ?s = pend s" by (simp add: pend_def)
  obtain bs rest where q: "same_queue ?s s1" "rx1 = emit_all env bs rx"
    and yes: "ok \<Longrightarrow> rec_inv ?L s1 \<and> s_chunkOut s1 = s_chunkOut ?s \<and>
        split_records ?L (pend s @ data) = (bs, pend s1, True)"
    and no: "\<not> ok \<Longrightarrow> split_records ?L (pend s @ data) = (bs, rest, False)"
    using tk pend Cons.prems(2) by (auto simp: taken_def split: if_splits)
  have ok
  proof (rule ccontr)
    assume "\<not> ok"
    from split_records_append[OF no[OF this], of "concat pieces"] show False using Cons.prems(3) by simp
  qed
  note y = yes[OF this]
  have "rx_limits rx1 = rx_limits rx"
    using emit_all_same[of rx env bs] q(2) by (simp add: same_rx_def)
  moreover obtain cs rest' ok' where r: "split_records ?L (pend s1 @ concat pieces) = (cs, rest', ok')"
    by (metis surj_pair)
  moreover have b: "bundles = bs @ cs" "rest' = []" ok'
    using split_records_append[of ?L "pend s @ data" bs "pend s1" True "concat pieces"] y r Cons.prems(3)
    by simp_all
  ultimately obtain s2 where "take_all env pieces rx1 s1 = Some (True, emit_all env cs rx1, s2)"
    "pend s2 = []" "same_queue s1 s2"
    using Cons.IH[of rx1 s1 cs] y Cons.prems(2,4) by auto
  then show ?case
    using t \<open>ok\<close> q b by (auto simp: emit_all_append same_queue_def)
qed

text \<open>C22: the records of a chunk come out whole and in order however decompression cuts their octets
  into pieces, inside a length or inside a record: the bundles go to the callback one by one,
  nothing is left over, and the place of the stream in the order of carriers is untouched.\<close>

theorem takeRecords_recovers_bundles:
  assumes "list_all (record_fits (maxBundle (rx_limits rx))) bundles"
    "concat pieces = concat (map record_octets bundles)"
    "length (concat pieces) \<le> maxChunkOut (rx_limits rx)" "\<forall>n. x_alloc env n"
  shows "\<exists>s'. take_all env pieces rx (resetChunk env s) = Some (True, emit_all env bundles rx, s') \<and>
     s_lenBuf s' = [] \<and> same_queue s s'"
proof -
  have "rec_inv (maxBundle (rx_limits rx)) (resetChunk env s)"
    by (simp add: rec_inv_def resetChunk_def ZCL_REC_HDR_LEN_def)
  moreover have "pend (resetChunk env s) = []" by (simp add: pend_def resetChunk_def)
  ultimately obtain s' where "take_all env pieces rx (resetChunk env s) = Some (True, emit_all env bundles rx, s')"
    "pend s' = []" "same_queue (resetChunk env s) s'"
    using take_all_split[of rx "resetChunk env s" env pieces bundles] assms split_records_all[OF assms(1)]
    by (auto simp: resetChunk_def)
  then show ?thesis by (auto simp: same_queue_def resetChunk_def pend_def)
qed

definition collect_env :: "(unit, bytes list) RxEnv" where
  "collect_env = \<lparr>x_create = (\<lambda>_. Some ()), x_reset = (\<lambda>d. d),
     x_decompress = (\<lambda>d data room. (d, min room (length data), take room data, Some 0)), x_tmpLen = 4,
     x_emit = (\<lambda>c b. (True, c @ [b])), x_alloc = (\<lambda>_. True)\<rparr>"

definition rx_example :: "(unit, bytes list) ZclRx" where
  "rx_example = \<lparr>rx_limits = zclRxDefaults, rx_ctx = [], rx_streams = replicate 16 None,
     rx_useClock = 0, rx_stats = no_stats\<rparr>"

lemma takeRecords_recovers_bundles_witness:
  "\<exists>s'. take_all collect_env [[0, 0, 0], [1, 7, 0, 0], [0, 2, 8], [9]] rx_example
     (resetChunk collect_env (fresh_stream () 1 1)) =
     Some (True, emit_all collect_env [[7], [8, 9]] rx_example, s') \<and>
     rx_ctx (emit_all collect_env [[7], [8, 9]] rx_example) = [[7], [8, 9]]"
proof -
  have "list_all (record_fits (maxBundle (rx_limits rx_example))) [[7], [8, 9]]"
    by (simp add: record_fits_def rx_example_def zclRxDefaults_def)
  moreover have "concat [[0, 0, 0], [1, 7, 0, 0], [0, 2, 8], [9]] = concat (map record_octets [[7], [8, 9]])"
    by (simp add: record_octets_def be32_octets)
  moreover have "length (concat [[0, 0, 0], [1, 7, 0, 0], [0, 2, 8], [9 :: u8]]) \<le> maxChunkOut (rx_limits rx_example)"
    by (simp add: rx_example_def zclRxDefaults_def)
  moreover have "\<forall>n. x_alloc collect_env n" by (simp add: collect_env_def)
  ultimately have "\<exists>s'. take_all collect_env [[0, 0, 0], [1, 7, 0, 0], [0, 2, 8], [9]] rx_example
      (resetChunk collect_env (fresh_stream () 1 1)) =
      Some (True, emit_all collect_env [[7], [8, 9]] rx_example, s')"
    using takeRecords_recovers_bundles[of rx_example "[[7], [8, 9]]"
        "[[0, 0, 0], [1, 7, 0, 0], [0, 2, 8], [9]]" collect_env "fresh_stream () 1 1"] by blast
  moreover have "rx_ctx (emit_all collect_env [[7], [8, 9]] rx_example) = [[7], [8, 9]]"
    by (simp add: emit_record_def collect_env_def rx_example_def)
  ultimately show ?thesis by blast
qed

end
