(* ===== verification/ZclOrder.thy ===== *)
theory ZclOrder
  imports ZclRx
begin

text \<open>
  The order in which the receiver of the zcl tunnel decodes carriers: the invariant of a stream
  and its preservation by every operation of \<open>ZclRx\<close>, the end of the loops, the limits of the
  reorder buffer, and the one chunk number, \<open>2^64 - 1\<close>, for which giving up a gap gives up nothing.
\<close>

section \<open>Decoding a carrier\<close>

abbreviation limit_of :: "('d, 'c) ZclRx \<Rightarrow> nat" where
  "limit_of rx \<equiv> maxBundle (rx_limits rx)"

lemma takeRecords_frame:
  assumes "rec_inv (limit_of rx) s" "takeRecords env rx s data = Some (ok, rx', s')"
  shows "same_rx rx rx' \<and> same_queue s s' \<and> (ok \<longrightarrow> rec_inv (limit_of rx) s' \<and>
    s_frameDone s' = s_frameDone s \<and> s_dctx s' = s_dctx s)"
  using takeRecords_taken[OF assms(1), of env data] assms(2) emit_all_same[of rx env]
  by (auto simp: taken_def same_queue_def split: if_splits)

definition decode_frame :: "('d, 'c) ZclRx \<Rightarrow> 'd ZclStream \<Rightarrow> bool \<Rightarrow> ('d, 'c) ZclRx \<Rightarrow> 'd ZclStream \<Rightarrow> bool" where
  "decode_frame rx s ok rx' s' \<longleftrightarrow>
     same_rx rx rx' \<and> same_queue s s' \<and> (ok \<longrightarrow> rec_inv (limit_of rx) s')"

lemma decode_frame_trans:
  "decode_frame rx s True rx1 s1 \<Longrightarrow> decode_frame rx1 s1 ok rx2 s2 \<Longrightarrow> decode_frame rx s ok rx2 s2"
  by (auto simp: decode_frame_def same_defs)

lemma decode_round_run:
  assumes "x_decompress env (s_dctx s) data (x_tmpLen env) = (d, used, produced, Some k)"
    "takeRecords env rx (s \<lparr> s_dctx := d \<rparr>) produced = Some (ok, rx1, s1)"
  shows "decode_round env rx s data = Some
    (if \<not> ok then Inl (False, rx1, s1, drop used data)
     else if k = 0 then Inl (True, rx1, s1 \<lparr> s_frameDone := True \<rparr>, drop used data)
     else if drop used data \<noteq> [] \<or> length produced = x_tmpLen env
     then Inr (rx1, s1, drop used data) else Inl (True, rx1, s1, drop used data))"
  using assms by (simp add: decode_round_def Let_def)

lemma decode_round_frame:
  assumes "rec_inv (limit_of rx) s" "decode_round env rx s data = Some r"
  shows "case r of
      Inl (ok, rx', s', rest) \<Rightarrow> decode_frame rx s ok rx' s'
    | Inr (rx', s', rest) \<Rightarrow> decode_frame rx s True rx' s'"
proof -
  obtain d used produced ret where z: "x_decompress env (s_dctx s) data (x_tmpLen env) =
      (d, used, produced, ret)" by (metis prod_cases4)
  let ?s = "s \<lparr> s_dctx := d \<rparr>"
  have inv: "rec_inv (limit_of rx) ?s" using assms(1) by (auto simp: rec_inv_def)
  show ?thesis
  proof (cases ret)
    case None
    then have "r = Inl (False, rx, ?s, drop used data)"
      using assms(2) z by (simp add: decode_round_def)
    then show ?thesis by (simp add: decode_frame_def same_defs)
  next
    case (Some k)
    obtain ok rx1 s1 where t: "takeRecords env rx ?s produced = Some (ok, rx1, s1)"
      using takeRecords_taken[OF inv] by blast
    note f = takeRecords_frame[OF inv t]
    have d1: "decode_frame rx s ok rx1 s1" using f by (simp add: decode_frame_def same_defs)
    then have d2: "decode_frame rx s ok rx1 (s1 \<lparr> s_frameDone := True \<rparr>)"
      by (simp add: decode_frame_def same_defs)
    show ?thesis
      using assms(2) d1 d2 unfolding decode_round_run[OF z[unfolded Some] t]
      by (cases ok) (auto split: if_splits)
  qed
qed

lemma decode_loop_frame:
  assumes "decode_loop env rx s data = Some (ok, rx', s', rest)" "rec_inv (limit_of rx) s"
  shows "decode_frame rx s ok rx' s'"
proof -
  have "rec_inv (limit_of rx) s \<longrightarrow> (case (ok, rx', s', rest) of (ok, rx', s', rest) \<Rightarrow> decode_frame rx s ok rx' s')"
  proof (rule decode_loop.raw_induct[OF _ assms(1), where P = "\<lambda>env rx s data r.
      rec_inv (limit_of rx) s \<longrightarrow> (case r of (ok, rx', s', rest) \<Rightarrow> decode_frame rx s ok rx' s')"],
      intro impI)
    fix loop env and rx :: "('a, 'b) ZclRx" and s data r
    assume IH: "\<And>env rx s data r. loop env rx s data = Some r \<Longrightarrow> rec_inv (limit_of rx) s \<longrightarrow>
        (case r of (ok, rx', s', rest) \<Rightarrow> decode_frame rx s ok rx' s')"
      and run: "(case decode_round env rx s data of None \<Rightarrow> None
        | Some r \<Rightarrow> (case r of Inl result \<Rightarrow> Some result
             | Inr (rx, s, data) \<Rightarrow> loop env rx s data)) = Some r"
      and inv: "rec_inv (limit_of rx) s"
    obtain q where q: "decode_round env rx s data = Some q" using run by (auto split: option.splits)
    note f = decode_round_frame[OF inv q]
    show "case r of (ok, rx', s', rest) \<Rightarrow> decode_frame rx s ok rx' s'"
    proof (cases q)
      case (Inl res)
      then show ?thesis using run q f by simp
    next
      case (Inr p)
      obtain rx1 s1 d1 where p: "p = (rx1, s1, d1)" by (cases p)
      have f1: "decode_frame rx s True rx1 s1" using f Inr p by simp
      then have "rec_inv (limit_of rx1) s1" by (simp add: decode_frame_def same_rx_def)
      moreover have "loop env rx1 s1 d1 = Some r" using run q Inr p by simp
      ultimately have "case r of (ok, rx', s', rest) \<Rightarrow> decode_frame rx1 s1 ok rx' s'" using IH by blast
      then show ?thesis using decode_frame_trans[OF f1] by auto
    qed
  qed
  then show ?thesis using assms(2) by simp
qed

lemma decodeCarrier_frame:
  assumes "decodeCarrier env rx s p = Some (ok, rx', s')" "rec_inv (limit_of rx) s"
  shows "decode_frame rx s ok rx' s' \<and>
    (ok \<longrightarrow> (if p_end p then s_lenBuf s' = [] else \<not> s_frameDone s'))"
proof (cases "s_frameDone s")
  case True
  then show ?thesis using assms(1) by (simp add: decodeCarrier_def decode_frame_def)
next
  case False
  let ?rx = "upd_stats (\<lambda>t. t \<lparr> bytesIn := bytesIn t + length (p_data p) \<rparr>) rx"
  obtain k rx1 s1 rest where l: "decode_loop env ?rx s (p_data p) = Some (k, rx1, s1, rest)"
    using assms(1) False by (auto simp: decodeCarrier_def split: option.splits)
  have "decode_frame ?rx s k rx1 s1" using decode_loop_frame[OF l] assms(2) by simp
  moreover have "decode_frame rx s k rx1 s1 = decode_frame ?rx s k rx1 s1"
    by (simp add: decode_frame_def same_rx_def)
  ultimately show ?thesis using assms(1) False l
    by (auto simp: decodeCarrier_def decode_frame_def split: if_splits)
qed

text \<open>
  What zstd promises: a call of \<open>ZSTD_decompressStream\<close> that neither fails nor ends the frame and
  leaves input or fills the output makes progress, by some measure of the context and the input.
\<close>

definition xd_progress :: "('d, 'c) RxEnv \<Rightarrow> ('d \<Rightarrow> bytes \<Rightarrow> nat) \<Rightarrow> bool" where
  "xd_progress env \<mu> \<longleftrightarrow> (\<forall>d data d' used produced r.
     x_decompress env d data (x_tmpLen env) = (d', used, produced, Some r) \<longrightarrow> r \<noteq> 0 \<longrightarrow>
     drop used data \<noteq> [] \<or> length produced = x_tmpLen env \<longrightarrow> \<mu> d' (drop used data) < \<mu> d data)"

lemma decode_loop_returns:
  assumes "xd_progress env \<mu>" "rec_inv (limit_of rx) s"
  shows "\<exists>r. decode_loop env rx s data = Some r"
  using assms(2)
proof (induction "\<mu> (s_dctx s) data" arbitrary: rx s data rule: less_induct)
  case less
  obtain d used produced ret where z: "x_decompress env (s_dctx s) data (x_tmpLen env) =
      (d, used, produced, ret)" by (metis prod_cases4)
  let ?s = "s \<lparr> s_dctx := d \<rparr>"
  have inv: "rec_inv (limit_of rx) ?s" using less.prems by (auto simp: rec_inv_def)
  obtain ok rx1 s1 where t: "takeRecords env rx ?s produced = Some (ok, rx1, s1)"
    using takeRecords_taken[OF inv] by blast
  obtain q where q: "decode_round env rx s data = Some q"
  proof (cases ret)
    case None
    then show ?thesis using z that by (simp add: decode_round_def)
  next
    case (Some k)
    show ?thesis using that decode_round_run[OF z[unfolded Some] t] by blast
  qed
  show ?case
  proof (cases q)
    case (Inl r)
    then show ?thesis using q by (cases r) (simp add: decode_loop.simps[of env rx s data])
  next
    case (Inr p)
    then obtain k where k: "ret = Some k" "ok" "k \<noteq> 0"
      "drop used data \<noteq> [] \<or> length produced = x_tmpLen env" "p = (rx1, s1, drop used data)"
    proof (cases ret)
      case None
      then show ?thesis using q z Inr by (simp add: decode_round_def)
    next
      case (Some k)
      then show ?thesis
        using that q Inr unfolding decode_round_run[OF z[unfolded Some] t]
        by (auto split: if_splits)
    qed
    note f = takeRecords_frame[OF inv t]
    have "\<mu> (s_dctx s1) (drop used data) < \<mu> (s_dctx s) data"
      using assms(1)[unfolded xd_progress_def] z k f by simp
    moreover have "rec_inv (limit_of rx1) s1" using f k(2) by (simp add: same_rx_def)
    ultimately obtain r where "decode_loop env rx1 s1 (drop used data) = Some r" using less.hyps by blast
    then show ?thesis using q Inr k by (cases r) (simp add: decode_loop.simps[of env rx s data])
  qed
qed

lemma decodeCarrier_returns:
  "xd_progress env \<mu> \<Longrightarrow> rec_inv (limit_of rx) s \<Longrightarrow> \<exists>r. decodeCarrier env rx s p = Some r"
  using decode_loop_returns[of env \<mu> "upd_stats (\<lambda>t. t \<lparr> bytesIn := bytesIn t + length (p_data p) \<rparr>) rx" s "p_data p"]
  by (auto simp: decodeCarrier_def)

section \<open>The invariant of a stream\<close>

definition TOP :: u64 where "TOP = 0xFFFFFFFFFFFFFFFF"

definition sent_less :: "Pending \<Rightarrow> Pending \<Rightarrow> bool" where
  "sent_less p q \<longleftrightarrow> p_chunk p < p_chunk q \<or> (p_chunk p = p_chunk q \<and> p_seq p < p_seq q)"

definition buf_bytes :: "Pending list \<Rightarrow> nat" where
  "buf_bytes ps = sum_list (map (\<lambda>p. length (p_data p)) ps)"

text \<open>The buffer is sorted without duplicates and counted right.\<close>

definition buf_ok :: "'d ZclStream \<Rightarrow> bool" where
  "buf_ok s \<longleftrightarrow> sorted_wrt sent_less (s_buf s) \<and> s_bufCount s = length (s_buf s) \<and>
     s_bufBytes s = buf_bytes (s_buf s)"

text \<open>Nothing is buffered that is over, or that precedes what is decoded next.\<close>

definition ahead :: "'d ZclStream \<Rightarrow> bool" where
  "ahead s \<longleftrightarrow>
     (s_haveDone s \<longrightarrow> (\<forall>p \<in> set (s_buf s). s_done s < p_chunk p)) \<and>
     (s_synced s \<longrightarrow> (\<forall>p \<in> set (s_buf s).
        s_cur s < p_chunk p \<or> (s_cur s = p_chunk p \<and> s_next s \<le> p_seq p))) \<and>
     (s_synced s \<and> s_haveDone s \<longrightarrow> s_done s < s_cur s)"

definition below_top :: "'d ZclStream \<Rightarrow> bool" where
  "below_top s \<longleftrightarrow> (\<forall>p \<in> set (s_buf s). p_chunk p \<noteq> TOP) \<and> (s_synced s \<longrightarrow> s_cur s \<noteq> TOP)"

definition stream_inv :: "nat \<Rightarrow> 'd ZclStream \<Rightarrow> bool" where
  "stream_inv limit s \<longleftrightarrow>
     buf_ok s \<and> ahead s \<and> below_top s \<and> rec_inv limit s \<and> \<not> s_frameDone s"

lemmas inv_defs = stream_inv_def buf_ok_def ahead_def below_top_def

lemma below_succ: "c \<noteq> TOP \<Longrightarrow> x < c + 1 \<longleftrightarrow> x \<le> c" for c :: u64
proof -
  assume "c \<noteq> TOP"
  then have "unat c \<noteq> unat TOP" by (simp add: word_unat_eq_iff)
  moreover have "unat TOP = 18446744073709551615" by (simp add: TOP_def)
  ultimately have "unat c + 1 < 18446744073709551616" using unat_u64_less[of c] by linarith
  then have "unat (c + 1) = unat c + 1" by (simp add: unat_word_ariths)
  then show ?thesis by (auto simp: word_less_nat_alt word_le_nat_alt)
qed

text \<open>What \<open>dropBelow\<close> does to a counted buffer.\<close>

definition with_buf :: "'d ZclStream \<Rightarrow> Pending list \<Rightarrow> 'd ZclStream" where
  "with_buf s ps = s \<lparr> s_buf := ps, s_bufCount := length ps, s_bufBytes := buf_bytes ps \<rparr>"

definition dropped :: "('d, 'c) ZclRx \<Rightarrow> nat \<Rightarrow> ('d, 'c) ZclRx" where
  "dropped rx n = upd_stats (\<lambda>t. t \<lparr> carriersDropped := carriersDropped t + n \<rparr>) rx"

lemma dropped_same [simp]: "same_rx rx (dropped rx n)" "rx_limits (dropped rx n) = rx_limits rx"
  by (simp_all add: dropped_def same_rx_def)

lemma dropBelow_eq:
  assumes "s_bufCount s = length (s_buf s)" "s_bufBytes s = buf_bytes (s_buf s)"
  shows "dropBelow rx s chunk =
     (dropped rx (length (takeWhile (\<lambda>p. p_chunk p < chunk) (s_buf s))),
      with_buf s (dropWhile (\<lambda>p. p_chunk p < chunk) (s_buf s)))"
  using assms
proof (induction "s_buf s" arbitrary: rx s)
  case Nil
  then show ?case by (subst dropBelow.simps) (simp add: dropped_def with_buf_def)
next
  case (Cons p ps)
  note buf = Cons.hyps(2)[symmetric]
  show ?case
  proof (cases "p_chunk p < chunk")
    case True
    let ?s = "s \<lparr> s_buf := ps, s_bufCount := s_bufCount s - 1,
        s_bufBytes := s_bufBytes s - length (p_data p) \<rparr>"
    have h: "ps = s_buf ?s" "s_bufCount ?s = length (s_buf ?s)" "s_bufBytes ?s = buf_bytes (s_buf ?s)"
      using Cons.prems buf by (simp_all add: buf_bytes_def)
    show ?thesis
      using True buf Cons.hyps(1)[OF h]
      by (subst dropBelow.simps) (simp add: dropped_def with_buf_def)
  next
    case False
    then show ?thesis using buf Cons.prems
      by (subst dropBelow.simps) (simp add: dropped_def with_buf_def)
  qed
qed

lemma dropWhile_sorted:
  "sorted_wrt sent_less ps \<Longrightarrow> set (dropWhile (\<lambda>p. p_chunk p < chunk) ps) = {p \<in> set ps. chunk \<le> p_chunk p}"
  by (induction ps) (force simp: sent_less_def not_less)+

lemma dropWhile_sorted_wrt: "sorted_wrt P ps \<Longrightarrow> sorted_wrt P (dropWhile Q ps)"
  by (induction ps) auto

lemma buf_ok_with_buf: "sorted_wrt sent_less ps \<Longrightarrow> buf_ok (with_buf s ps)"
  by (simp add: buf_ok_def with_buf_def)

lemma rec_inv_reset: "rec_inv limit (resetChunk env s)"
  by (simp add: rec_inv_def resetChunk_def ZCL_REC_HDR_LEN_def)

lemma zclEndChunk_inv:
  assumes "buf_ok s" "s_cur s \<noteq> TOP" "\<forall>p \<in> set (s_buf s). p_chunk p \<noteq> TOP"
    "zclEndChunk env rx s = (rx', s')"
  shows "stream_inv limit s'" "same_rx rx rx'" "\<not> s_synced s'" "s_haveDone s'" "s_done s' = s_cur s"
    "s_buf s' = dropWhile (\<lambda>p. p_chunk p < s_cur s + 1) (s_buf s)"
proof -
  let ?s1 = "s \<lparr> s_synced := False, s_haveDone := True, s_done := s_cur s \<rparr>"
  let ?ps = "dropWhile (\<lambda>p. p_chunk p < s_cur s + 1) (s_buf s)"
  have d: "dropBelow rx ?s1 (s_cur s + 1) =
      (dropped rx (length (takeWhile (\<lambda>p. p_chunk p < s_cur s + 1) (s_buf s))), with_buf ?s1 ?ps)"
    using assms(1) dropBelow_eq[of ?s1 rx] by (simp add: buf_ok_def)
  have s': "s' = resetChunk env (with_buf ?s1 ?ps)"
    and rx': "rx' = dropped rx (length (takeWhile (\<lambda>p. p_chunk p < s_cur s + 1) (s_buf s)))"
    using assms(4) d by (simp_all add: zclEndChunk_def)
  have sorted: "sorted_wrt sent_less (s_buf s)" using assms(1) by (simp add: buf_ok_def)
  have above: "s_cur s + 1 \<le> c \<longleftrightarrow> s_cur s < c" for c
    using below_succ[OF assms(2), of c] by (meson not_le)
  have ps: "sorted_wrt sent_less ?ps" "\<forall>p \<in> set ?ps. s_cur s < p_chunk p \<and> p_chunk p \<noteq> TOP"
    using dropWhile_sorted_wrt[OF sorted] assms(3)
    unfolding dropWhile_sorted[OF sorted] above by blast+
  show "stream_inv limit s'" using ps rec_inv_reset[of limit env "with_buf ?s1 ?ps"]
    unfolding s' by (simp add: inv_defs with_buf_def resetChunk_def)
  show "same_rx rx rx'" unfolding rx' by simp
  show "\<not> s_synced s'" "s_haveDone s'" "s_done s' = s_cur s" "s_buf s' = ?ps"
    unfolding s' by (simp_all add: resetChunk_def with_buf_def)
qed

lemma syncTo_inv:
  assumes "stream_inv limit s" "\<not> s_synced s" "start \<in> set (s_buf s)" "syncTo env rx s (p_chunk start) = (rx', s')"
  shows "stream_inv limit s'" "same_rx rx rx'" "s_synced s'" "s_cur s' = p_chunk start" "s_next s' = 0"
    "s_buf s' = dropWhile (\<lambda>p. p_chunk p < p_chunk start) (s_buf s)"
proof -
  let ?ps = "dropWhile (\<lambda>p. p_chunk p < p_chunk start) (s_buf s)"
  have d: "dropBelow rx s (p_chunk start) =
      (dropped rx (length (takeWhile (\<lambda>p. p_chunk p < p_chunk start) (s_buf s))), with_buf s ?ps)"
    using assms(1) by (intro dropBelow_eq) (simp_all add: inv_defs)
  let ?s1 = "(with_buf s ?ps) \<lparr> s_synced := True, s_cur := p_chunk start, s_next := 0 \<rparr>"
  have s': "s' = resetChunk env ?s1"
    and rx': "rx' = dropped rx (length (takeWhile (\<lambda>p. p_chunk p < p_chunk start) (s_buf s)))"
    using assms(4) d by (simp_all add: syncTo_def)
  have ps: "sorted_wrt sent_less ?ps" "set ?ps = {p \<in> set (s_buf s). p_chunk start \<le> p_chunk p}"
    using assms(1) dropWhile_sorted[of "s_buf s" "p_chunk start"] dropWhile_sorted_wrt[of sent_less "s_buf s"]
    by (auto simp: inv_defs)
  show "stream_inv limit s'" using assms(1,3) ps rec_inv_reset[of limit env ?s1]
    unfolding s' by (auto simp: inv_defs with_buf_def resetChunk_def)
  show "same_rx rx rx'" unfolding rx' by simp
  show "s_synced s'" "s_cur s' = p_chunk start" "s_next s' = 0" "s_buf s' = ?ps"
    unfolding s' by (simp_all add: resetChunk_def with_buf_def)
qed

section \<open>Draining\<close>

definition ready :: "'d ZclStream \<Rightarrow> bool" where
  "ready s \<longleftrightarrow> s_synced s \<and> s_buf s \<noteq> [] \<and> p_chunk (hd (s_buf s)) = s_cur s \<and>
     p_seq (hd (s_buf s)) = s_next s"

text \<open>Two measures: one falls in every round of \<open>drain\<close>, the other over the rounds of \<open>settle\<close>.\<close>

definition drain_measure :: "'d ZclStream \<Rightarrow> nat" where
  "drain_measure s = 2 * length (s_buf s) + (if s_synced s then 0 else 1)"

definition gap_measure :: "'d ZclStream \<Rightarrow> nat" where
  "gap_measure s = 2 * length (s_buf s) + (if s_synced s \<and> \<not> ready s then 1 else 0)"

lemma find_startD:
  "List.find (\<lambda>q. p_seq q = 0) ps = Some q \<Longrightarrow> q \<in> set ps \<and> p_seq q = 0"
  by (induction ps) (auto split: if_splits)

text \<open>After \<open>syncTo\<close> the carrier it synced to is the next to decode.\<close>

lemma syncTo_ready:
  assumes "stream_inv limit s" "\<not> s_synced s" "start \<in> set (s_buf s)" "p_seq start = 0"
    "syncTo env rx s (p_chunk start) = (rx', s')"
  shows "ready s'"
proof -
  note i = syncTo_inv[OF assms(1,2,3,5)]
  have sorted: "sorted_wrt sent_less (s_buf s)" using assms(1) by (simp add: inv_defs)
  have mem: "start \<in> set (s_buf s')" unfolding i(6) dropWhile_sorted[OF sorted] using assms(3) by simp
  then obtain p ps where b: "s_buf s' = p # ps" by (cases "s_buf s'") auto
  have s2: "sorted_wrt sent_less (p # ps)"
    using i(1) b by (simp add: inv_defs)
  have "p \<in> set (s_buf s')" using b by simp
  then have ge: "p_chunk start \<le> p_chunk p" unfolding i(6) dropWhile_sorted[OF sorted] by simp
  have "p = start"
  proof (rule ccontr)
    assume "p \<noteq> start"
    then have "start \<in> set ps" using mem b by simp
    then have "sent_less p start" using s2 by simp
    then show False using ge assms(4) by (auto simp: sent_less_def)
  qed
  then show ?thesis using b i(3-5) assms(4) by (simp add: ready_def)
qed

lemma length_dropWhile_le: "length (dropWhile P xs) \<le> length xs"
  by (induction xs) auto

definition stopped :: "'d ZclStream \<Rightarrow> bool" where
  "stopped s \<longleftrightarrow> s_buf s = [] \<or> (s_synced s \<and> \<not> ready s) \<or>
     (\<not> s_synced s \<and> (\<forall>q. List.find (\<lambda>q. p_seq q = 0) (s_buf s) = Some q \<longrightarrow>
        p_chunk q \<noteq> (if s_haveDone s then s_done s + 1 else 0)))"

lemma stream_inv_pop:
  assumes "stream_inv limit s" "s_buf s = p # ps" "s_synced s"
  shows "stream_inv limit (s \<lparr> s_buf := ps, s_bufCount := s_bufCount s - 1,
      s_bufBytes := s_bufBytes s - length (p_data p) \<rparr>)"
  using assms by (auto simp: inv_defs buf_bytes_def)

text \<open>Moving on to the next sequence number.\<close>

lemma stream_inv_next:
  assumes "stream_inv limit s" "\<forall>q \<in> set (s_buf s). s_cur s < p_chunk q \<or> (s_cur s = p_chunk q \<and> n < p_seq q)"
  shows "stream_inv limit (s \<lparr> s_next := n + 1 \<rparr>)"
proof -
  have "n + 1 \<le> p_seq q" if "n < p_seq q" for q
    using that by (metis add.commute inc_le)
  then show ?thesis using assms by (fastforce simp: inv_defs)
qed

lemma drain_round_step:
  assumes "stream_inv (limit_of rx) s" "drain_round env rx s = Some r"
  shows "case r of
      Inl (rx', s') \<Rightarrow> rx' = rx \<and> s' = s \<and> stopped s
    | Inr (rx', s') \<Rightarrow> same_rx rx rx' \<and> stream_inv (limit_of rx) s' \<and> s_id s' = s_id s \<and>
        drain_measure s' < drain_measure s \<and> gap_measure s' \<le> gap_measure s \<and>
        (ready s \<longrightarrow> gap_measure s' < gap_measure s)"
proof (cases "s_buf s")
  case Nil
  then show ?thesis using assms(2) by (auto simp: drain_round_def stopped_def)
next
  case (Cons p ps)
  show ?thesis
  proof (cases "s_synced s")
    case unsynced: False
    show ?thesis
    proof (cases "List.find (\<lambda>q. p_seq q = 0) (s_buf s)")
      case None
      then show ?thesis using assms(2) Cons unsynced by (auto simp: drain_round_def stopped_def)
    next
      case (Some start)
      show ?thesis
      proof (cases "p_chunk start = (if s_haveDone s then s_done s + 1 else 0)")
        case False
        then have "r = Inl (rx, s)"
          using assms(2) Cons unsynced Some by (simp add: drain_round_def del: List.find.simps)
        moreover have "stopped s" using False unsynced Some by (simp add: stopped_def)
        ultimately show ?thesis by simp
      next
        case True
        obtain rx1 s1 where sy: "syncTo env rx s (p_chunk start) = (rx1, s1)" by fastforce
        have r: "r = Inr (rx1, s1)"
          using assms(2) Cons unsynced Some True sy by (simp add: drain_round_def del: List.find.simps)
        have st: "start \<in> set (s_buf s)" "p_seq start = 0" using find_startD[OF Some] by auto
        note i = syncTo_inv[OF assms(1) unsynced st(1) sy]
        have rd: "ready s1" by (rule syncTo_ready[OF assms(1) unsynced st sy])
        have len: "length (s_buf s1) \<le> length (s_buf s)" unfolding i(6) by (rule length_dropWhile_le)
        have "s_id s1 = s_id s"
          using sy assms(1) dropBelow_eq[of s rx "p_chunk start"]
          by (auto simp: syncTo_def inv_defs resetChunk_def with_buf_def)
        then show ?thesis
          unfolding r using i(1-3) rd len unsynced
          by (simp add: drain_measure_def gap_measure_def ready_def)
      qed
    qed
  next
    case synced: True
    show ?thesis
    proof (cases "ready s")
      case False
      then have "p_chunk p \<noteq> s_cur s \<or> p_seq p \<noteq> s_next s" using Cons synced by (auto simp: ready_def)
      then have "r = Inl (rx, s)" using assms(2) Cons synced by (auto simp: drain_round_def)
      then show ?thesis using False synced by (simp add: stopped_def)
    next
      case True
      let ?s = "s \<lparr> s_buf := ps, s_bufCount := s_bufCount s - 1,
          s_bufBytes := s_bufBytes s - length (p_data p) \<rparr>"
      have at: "p_chunk p = s_cur s" "p_seq p = s_next s" using True Cons by (auto simp: ready_def)
      note pi = stream_inv_pop[OF assms(1) Cons synced]
      obtain ok rx1 s1 where dc: "decodeCarrier env rx ?s p = Some (ok, rx1, s1)"
        using assms(2) Cons synced at by (auto simp: drain_round_def split: option.splits)
      note fr = decodeCarrier_frame[OF dc pi[unfolded stream_inv_def, THEN conjunct2, THEN conjunct2,
          THEN conjunct2, THEN conjunct1]]
      have q1: "same_rx rx rx1" "same_queue ?s s1" "ok \<longrightarrow> rec_inv (limit_of rx) s1"
        using fr by (auto simp: decode_frame_def)
      have b1: "buf_ok s1" "s_buf s1 = ps" "s_cur s1 = s_cur s" "s_synced s1" "s_next s1 = s_next s"
        "s_id s1 = s_id s" "s_haveDone s1 = s_haveDone s" "s_done s1 = s_done s"
        using q1(2) pi synced by (auto simp: same_queue_def inv_defs)
      have top: "s_cur s1 \<noteq> TOP" "\<forall>q \<in> set (s_buf s1). p_chunk q \<noteq> TOP"
        using b1 pi synced by (auto simp: inv_defs)
      have len: "length ps < length (s_buf s)" using Cons by simp
      have gs: "gap_measure s = 2 * length (s_buf s)" using True by (simp add: gap_measure_def)
      show ?thesis
      proof (cases "ok \<and> \<not> p_end p")
        case True
        then have r: "r = Inr (rx1, s1 \<lparr> s_next := s_next s1 + 1 \<rparr>)"
          using assms(2) Cons synced at dc by (auto simp: drain_round_def)
        have "\<not> s_frameDone s1" using fr True by simp
        then have s1: "stream_inv (limit_of rx) s1"
          using pi q1(3) b1 True synced by (simp add: inv_defs)
        have "\<forall>q \<in> set (s_buf s1). s_cur s1 < p_chunk q \<or> (s_cur s1 = p_chunk q \<and> s_next s1 < p_seq q)"
          using assms(1) Cons at b1 by (auto simp: inv_defs sent_less_def)
        from stream_inv_next[OF s1 this] show ?thesis
          unfolding r using q1(1) b1 len gs synced
          by (auto simp: drain_measure_def gap_measure_def)
      next
        case False
        obtain f where r: "r = Inr (zclEndChunk env (upd_stats f rx1) s1)"
        proof (cases ok)
          case True
          then show ?thesis using that[of "\<lambda>t. t \<lparr> chunksDone := chunksDone t + 1 \<rparr>"]
              assms(2) Cons synced at dc False by (simp add: drain_round_def)
        next
          case no: False
          then show ?thesis using that[of "\<lambda>t. t \<lparr> chunksCorrupt := chunksCorrupt t + 1 \<rparr>"]
              assms(2) Cons synced at dc by (simp add: drain_round_def)
        qed
        obtain rx2 s2 where e: "zclEndChunk env (upd_stats f rx1) s1 = (rx2, s2)" by fastforce
        note ei = zclEndChunk_inv[OF b1(1) top e]
        have len2: "length (s_buf s2) \<le> length ps" unfolding ei(6) b1(2) by (rule length_dropWhile_le)
        have "s_id s2 = s_id s"
          using e b1(1,6) dropBelow_eq[of "s1 \<lparr> s_synced := False, s_haveDone := True, s_done := s_cur s1 \<rparr>"
              "upd_stats f rx1" "s_cur s1 + 1"]
          by (auto simp: zclEndChunk_def buf_ok_def resetChunk_def with_buf_def)
        moreover have "same_rx rx rx2" using q1(1) ei(2) by (simp add: same_rx_def)
        ultimately show ?thesis
          unfolding r e using ei(1,3) len len2 gs synced
          by (simp add: drain_measure_def gap_measure_def)
      qed
    qed
  qed
qed

lemma drain_round_returns:
  assumes "xd_progress env \<mu>" "stream_inv (limit_of rx) s"
  shows "drain_round env rx s \<noteq> None"
proof (cases "s_buf s")
  case (Cons p ps)
  let ?s = "s \<lparr> s_buf := ps, s_bufCount := s_bufCount s - 1,
      s_bufBytes := s_bufBytes s - length (p_data p) \<rparr>"
  have "rec_inv (limit_of rx) ?s" using assms(2) by (simp add: stream_inv_def)
  then obtain r where "decodeCarrier env rx ?s p = Some r" using decodeCarrier_returns[OF assms(1)] by blast
  then show ?thesis using Cons
    by (cases r) (simp add: drain_round_def del: List.find.simps split: option.splits)
qed (simp add: drain_round_def)

lemma drain_spec:
  assumes "stream_inv (limit_of rx) s"
  shows "(\<forall>rx' s'. drain env rx s = Some (rx', s') \<longrightarrow>
      same_rx rx rx' \<and> stream_inv (limit_of rx) s' \<and> s_id s' = s_id s \<and> stopped s' \<and>
      gap_measure s' \<le> gap_measure s \<and> (ready s \<longrightarrow> gap_measure s' < gap_measure s)) \<and>
    (xd_progress env \<mu> \<longrightarrow> drain env rx s \<noteq> None)"
  using assms
proof (induction "drain_measure s" arbitrary: rx s rule: less_induct)
  case less
  note unfold = drain.simps[of env rx s]
  show ?case
  proof (cases "drain_round env rx s")
    case None
    then show ?thesis using unfold drain_round_returns[OF _ less.prems, of env \<mu>] by auto
  next
    case (Some r)
    note step = drain_round_step[OF less.prems Some]
    show ?thesis
    proof (cases r)
      case (Inl q)
      then have "drain env rx s = Some q" "q = (rx, s)" "stopped s" using unfold Some step by auto
      moreover have "\<not> (ready s \<and> stopped s)" by (auto simp: ready_def stopped_def)
      ultimately show ?thesis using less.prems by auto
    next
      case (Inr q)
      obtain rx1 s1 where q: "q = (rx1, s1)" by fastforce
      have d: "drain env rx s = drain env rx1 s1" using unfold Some Inr q by simp
      have st: "same_rx rx rx1" "stream_inv (limit_of rx) s1" "s_id s1 = s_id s"
        "drain_measure s1 < drain_measure s" "gap_measure s1 \<le> gap_measure s"
        "ready s \<longrightarrow> gap_measure s1 < gap_measure s"
        using step Inr q by auto
      have l: "limit_of rx1 = limit_of rx" using st(1) by (simp add: same_rx_def)
      have ih: "(\<forall>rx' s'. drain env rx1 s1 = Some (rx', s') \<longrightarrow>
          same_rx rx1 rx' \<and> stream_inv (limit_of rx) s' \<and> s_id s' = s_id s1 \<and> stopped s' \<and>
          gap_measure s' \<le> gap_measure s1 \<and> (ready s1 \<longrightarrow> gap_measure s' < gap_measure s1)) \<and>
        (xd_progress env \<mu> \<longrightarrow> drain env rx1 s1 \<noteq> None)"
        using less.hyps[OF st(4), of rx1] st(2) unfolding l by blast
      show ?thesis
        unfolding d
      proof (intro conjI allI impI)
        fix rx' s' assume run: "drain env rx1 s1 = Some (rx', s')"
        note i = conjunct1[OF ih, rule_format, OF run]
        show "same_rx rx rx'" by (rule same_rx_trans[OF st(1) conjunct1[OF i]])
        show "stream_inv (limit_of rx) s'" "s_id s' = s_id s" "stopped s'" using i st(3) by simp_all
        show "gap_measure s' \<le> gap_measure s" using i st(5) by simp
        show "gap_measure s' < gap_measure s" if "ready s" using i st(6) that by simp
      qed (use ih in simp)
    qed
  qed
qed

section \<open>Settling\<close>

lemma resolveGap_step:
  assumes "stream_inv (limit_of rx) s" "s_buf s \<noteq> []" "stopped s" "resolveGap env rx s = (rx', s')"
  shows "same_rx rx rx' \<and> stream_inv (limit_of rx) s' \<and> s_id s' = s_id s \<and>
    gap_measure s' \<le> gap_measure s \<and> (gap_measure s' < gap_measure s \<or> ready s')"
proof (cases "s_synced s")
  case True
  let ?f = "\<lambda>t. t \<lparr> chunksLost := chunksLost t + 1 \<rparr>"
  have e: "zclEndChunk env (upd_stats ?f rx) s = (rx', s')" using assms(4) True by (simp add: resolveGap_def)
  have i: "buf_ok s" "s_cur s \<noteq> TOP" "\<forall>p \<in> set (s_buf s). p_chunk p \<noteq> TOP"
    using assms(1) True by (auto simp: inv_defs)
  note ei = zclEndChunk_inv[OF i e]
  have len: "length (s_buf s') \<le> length (s_buf s)" unfolding ei(6) by (rule length_dropWhile_le)
  have nr: "\<not> ready s" using assms(2,3) True by (auto simp: stopped_def)
  have "s_id s' = s_id s"
    using e i(1) dropBelow_eq[of "s \<lparr> s_synced := False, s_haveDone := True, s_done := s_cur s \<rparr>"
        "upd_stats ?f rx" "s_cur s + 1"]
    by (auto simp: zclEndChunk_def buf_ok_def resetChunk_def with_buf_def)
  moreover have "same_rx rx rx'" using ei(2) by (simp add: same_rx_def)
  ultimately show ?thesis using ei(1,3) len nr True by (auto simp: gap_measure_def)
next
  case unsynced: False
  show ?thesis
  proof (cases "List.find (\<lambda>q. p_seq q = 0) (s_buf s)")
    case (Some start)
    then have sy: "syncTo env rx s (p_chunk start) = (rx', s')"
      using assms(4) unsynced by (simp add: resolveGap_def)
    have st: "start \<in> set (s_buf s)" "p_seq start = 0" using find_startD[OF Some] by auto
    note i = syncTo_inv[OF assms(1) unsynced st(1) sy]
    have "ready s'" by (rule syncTo_ready[OF assms(1) unsynced st sy])
    moreover have "length (s_buf s') \<le> length (s_buf s)" unfolding i(6) by (rule length_dropWhile_le)
    moreover have "s_id s' = s_id s"
      using sy assms(1) dropBelow_eq[of s rx "p_chunk start"]
      by (auto simp: syncTo_def inv_defs resetChunk_def with_buf_def)
    ultimately show ?thesis using i(1,2) unsynced by (simp add: gap_measure_def)
  next
    case None
    obtain p ps where b: "s_buf s = p # ps" using assms(2) by (cases "s_buf s") auto
    let ?s = "s \<lparr> s_haveDone := True, s_done := p_chunk p \<rparr>"
    let ?ps = "dropWhile (\<lambda>q. p_chunk q < p_chunk p + 1) (s_buf s)"
    have top: "p_chunk p \<noteq> TOP" using assms(1) b by (simp add: inv_defs)
    have "dropBelow rx ?s (p_chunk p + 1) =
        (dropped rx (length (takeWhile (\<lambda>q. p_chunk q < p_chunk p + 1) (s_buf s))), with_buf ?s ?ps)"
      using dropBelow_eq[of ?s rx "p_chunk p + 1"] assms(1) by (simp add: inv_defs)
    then have s': "s' = with_buf ?s ?ps"
      and rx': "rx' = dropped rx (length (takeWhile (\<lambda>q. p_chunk q < p_chunk p + 1) (s_buf s)))"
      using assms(4) unsynced None b by (simp_all add: resolveGap_def Let_def del: List.find.simps)
    have sorted: "sorted_wrt sent_less (s_buf s)" using assms(1) by (simp add: inv_defs)
    have above: "p_chunk p + 1 \<le> c \<longleftrightarrow> p_chunk p < c" for c
      using below_succ[OF top, of c] by (meson not_le)
    have ps: "sorted_wrt sent_less ?ps" "\<forall>q \<in> set ?ps. p_chunk p < p_chunk q \<and> q \<in> set (s_buf s)"
      using dropWhile_sorted_wrt[OF sorted] unfolding dropWhile_sorted[OF sorted] above by blast+
    have "?ps = dropWhile (\<lambda>q. p_chunk q < p_chunk p + 1) ps"
      using b below_succ[OF top] by simp
    then have len: "length ?ps < length (s_buf s)" using b length_dropWhile_le[of _ ps] by (simp add: le_imp_less_Suc)
    have "stream_inv (limit_of rx) s'"
      unfolding s' using assms(1) ps unsynced by (auto simp: inv_defs with_buf_def)
    moreover have "same_rx rx rx'" unfolding rx' by simp
    ultimately show ?thesis using len unsynced unfolding s'
      by (simp add: gap_measure_def with_buf_def)
  qed
qed

definition settled :: "ZclRxLimits \<Rightarrow> 'd ZclStream \<Rightarrow> u64 \<Rightarrow> bool" where
  "settled limits s nowMs \<longleftrightarrow> s_buf s = [] \<or> (stopped s \<and> \<not> over_limits limits s nowMs)"

definition rounds_needed :: "'d ZclStream \<Rightarrow> nat" where
  "rounds_needed s = gap_measure s + (if ready s then 0 else 1)"

lemma settle_loop_spec:
  assumes "stream_inv (limit_of rx) s"
  shows "(\<forall>rx' s'. settle_loop rounds env rx s nowMs = Some (rx', s') \<longrightarrow>
      same_rx rx rx' \<and> stream_inv (limit_of rx) s' \<and> s_id s' = s_id s \<and>
      (rounds_needed s < rounds \<longrightarrow> settled (rx_limits rx) s' nowMs)) \<and>
    (xd_progress env \<mu> \<longrightarrow> settle_loop rounds env rx s nowMs \<noteq> None)"
  using assms
proof (induction rounds arbitrary: rx s)
  case (Suc rounds)
  show ?case
  proof (cases "s_buf s = []")
    case True
    then show ?thesis using Suc.prems by (simp add: settled_def)
  next
    case ne: False
    note d = drain_spec[OF Suc.prems, of env \<mu>]
    show ?thesis
    proof (cases "drain env rx s")
      case None
      then show ?thesis using ne d by simp
    next
      case (Some q)
      obtain rx1 s1 where q: "q = (rx1, s1)" by fastforce
      have d1: "same_rx rx rx1" "stream_inv (limit_of rx) s1" "s_id s1 = s_id s" "stopped s1"
        "gap_measure s1 \<le> gap_measure s" "ready s \<longrightarrow> gap_measure s1 < gap_measure s"
        using d Some q by auto
      have l: "rx_limits rx1 = rx_limits rx" using d1(1) by (simp add: same_rx_def)
      show ?thesis
      proof (cases "s_buf s1 \<noteq> [] \<and> over_limits (rx_limits rx1) s1 nowMs")
        case False
        then have "settle_loop (Suc rounds) env rx s nowMs = Some (rx1, s1)" using ne Some q by auto
        then show ?thesis using d1 False l by (auto simp: settled_def)
      next
        case True
        obtain rx2 s2 where g: "resolveGap env rx1 s1 = (rx2, s2)" by fastforce
        have inv1: "stream_inv (limit_of rx1) s1" using d1(2) l by simp
        note r = resolveGap_step[OF inv1 conjunct1[OF True] d1(4) g]
        have l2: "rx_limits rx2 = rx_limits rx" using r l by (simp add: same_rx_def)
        have e: "settle_loop (Suc rounds) env rx s nowMs = settle_loop rounds env rx2 s2 nowMs"
          using ne Some q True g by simp
        have rn: "rounds_needed s2 < rounds_needed s"
          using r d1(5,6) by (auto simp: rounds_needed_def)
        have sr: "same_rx rx rx2" by (rule same_rx_trans[OF d1(1) conjunct1[OF r]])
        have inv2: "stream_inv (limit_of rx2) s2" using r l l2 by simp
        have id2: "s_id s2 = s_id s" using r d1(3) by simp
        have ih: "(\<forall>rx' s'. settle_loop rounds env rx2 s2 nowMs = Some (rx', s') \<longrightarrow>
            same_rx rx2 rx' \<and> stream_inv (limit_of rx) s' \<and> s_id s' = s_id s \<and>
            (rounds_needed s2 < rounds \<longrightarrow> settled (rx_limits rx) s' nowMs)) \<and>
          (xd_progress env \<mu> \<longrightarrow> settle_loop rounds env rx2 s2 nowMs \<noteq> None)"
          using Suc.IH[OF inv2] unfolding l2 id2 .
        show ?thesis
          unfolding e
        proof (intro conjI allI impI)
          fix rx' s' assume run: "settle_loop rounds env rx2 s2 nowMs = Some (rx', s')"
          note i = conjunct1[OF ih, rule_format, OF run]
          show "same_rx rx rx'" by (rule same_rx_trans[OF sr conjunct1[OF i]])
          show "stream_inv (limit_of rx) s'" "s_id s' = s_id s" using i by simp_all
          assume "rounds_needed s < Suc rounds"
          then show "settled (rx_limits rx) s' nowMs" using i rn by simp
        qed (use ih in simp)
      qed
    qed
  qed
qed simp

section \<open>The receiver\<close>

definition rx_inv :: "('d, 'c) ZclRx \<Rightarrow> bool" where
  "rx_inv rx \<longleftrightarrow>
     length (rx_streams rx) = maxStreams (rx_limits rx) \<and> rx_streams rx \<noteq> [] \<and>
     (\<forall>i s. i < length (rx_streams rx) \<longrightarrow> rx_streams rx ! i = Some s \<longrightarrow> stream_inv (limit_of rx) s) \<and>
     (\<forall>i j s t. i < length (rx_streams rx) \<longrightarrow> j < length (rx_streams rx) \<longrightarrow>
        rx_streams rx ! i = Some s \<longrightarrow> rx_streams rx ! j = Some t \<longrightarrow> s_id s = s_id t \<longrightarrow> i = j)"

text \<open>The reorder buffers are within their limits.\<close>

definition rx_bounded :: "('d, 'c) ZclRx \<Rightarrow> bool" where
  "rx_bounded rx \<longleftrightarrow> (\<forall>i s. i < length (rx_streams rx) \<longrightarrow> rx_streams rx ! i = Some s \<longrightarrow>
     s_bufCount s \<le> maxCarriers (rx_limits rx) \<and> s_bufBytes s \<le> maxBufBytes (rx_limits rx))"

lemma rx_inv_stream:
  "rx_inv rx \<Longrightarrow> i < length (rx_streams rx) \<Longrightarrow> rx_streams rx ! i = Some s \<Longrightarrow> stream_inv (limit_of rx) s"
  by (simp add: rx_inv_def)

lemma rx_inv_put:
  assumes "rx_inv rx" "i < length (rx_streams rx)" "stream_inv (limit_of rx) s"
    "\<And>j t. j < length (rx_streams rx) \<Longrightarrow> j \<noteq> i \<Longrightarrow> rx_streams rx ! j = Some t \<Longrightarrow> s_id t \<noteq> s_id s"
    "rx_limits rx' = rx_limits rx" "rx_streams rx' = (rx_streams rx)[i := Some s]"
  shows "rx_inv rx'"
  unfolding rx_inv_def assms(5,6)
proof (intro conjI allI impI)
  show "length ((rx_streams rx)[i := Some s]) = maxStreams (rx_limits rx)"
    "(rx_streams rx)[i := Some s] \<noteq> []"
    using assms(1) by (simp_all add: rx_inv_def)
next
  fix j t assume "j < length ((rx_streams rx)[i := Some s])" "(rx_streams rx)[i := Some s] ! j = Some t"
  then show "stream_inv (limit_of rx) t"
    using assms(1,3) by (cases "j = i") (auto simp: rx_inv_def)
next
  fix j k t u
  assume h: "j < length ((rx_streams rx)[i := Some s])" "k < length ((rx_streams rx)[i := Some s])"
    "(rx_streams rx)[i := Some s] ! j = Some t" "(rx_streams rx)[i := Some s] ! k = Some u" "s_id t = s_id u"
  have l: "j < length (rx_streams rx)" "k < length (rx_streams rx)" using h by simp_all
  show "j = k"
  proof (cases "j = i"; cases "k = i")
    assume "j \<noteq> i" "k \<noteq> i"
    then have "rx_streams rx ! j = Some t" "rx_streams rx ! k = Some u" using h by simp_all
    then show "j = k" using assms(1) l h(5) unfolding rx_inv_def by blast
  qed (use h l assms(4)[of j t] assms(4)[of k u] in simp_all)
qed

text \<open>The search of \<open>findStream\<close>: the stream's slot, or the victim: a free slot, or without one
  the least recently used stream.\<close>

definition victim_ok :: "'d ZclStream option list \<Rightarrow> nat \<Rightarrow> nat option \<Rightarrow> bool" where
  "victim_ok streams n victim \<longleftrightarrow>
     (case victim of
        None \<Rightarrow> n = 0
      | Some v \<Rightarrow> v < n \<and> (\<forall>j < n. case streams ! v of
            None \<Rightarrow> True
          | Some vs \<Rightarrow> (case streams ! j of None \<Rightarrow> False | Some s \<Rightarrow> s_lastUse vs \<le> s_lastUse s)))"

lemma victim_ok_step:
  assumes "victim_ok streams i victim" "streams ! i = Some s"
  shows "victim_ok streams (i + 1) (case victim of
      None \<Rightarrow> Some i
    | Some v \<Rightarrow> (case streams ! v of
         None \<Rightarrow> Some v
       | Some vs \<Rightarrow> if s_lastUse s < s_lastUse vs then Some i else Some v))"
proof (cases victim)
  case None
  then show ?thesis using assms by (auto simp: victim_ok_def)
next
  case (Some v)
  note v = assms(1)[unfolded victim_ok_def Some option.case]
  show ?thesis
  proof (cases "streams ! v")
    case None
    then show ?thesis using v Some by (simp add: victim_ok_def)
  next
    case vs: (Some vs)
    have le: "\<exists>t. streams ! j = Some t \<and> s_lastUse vs \<le> s_lastUse t" if "j < i" for j
      using v vs that by (auto split: option.splits)
    show ?thesis
    proof (cases "s_lastUse s < s_lastUse vs")
      case True
      have "\<exists>t. streams ! j = Some t \<and> s_lastUse s \<le> s_lastUse t" if "j < i + 1" for j
        using le[of j] True assms(2) that by (cases "j = i") fastforce+
      then have "\<forall>j < i + 1. case streams ! j of None \<Rightarrow> False | Some t \<Rightarrow> s_lastUse s \<le> s_lastUse t"
        by (metis option.simps(5))
      then show ?thesis using Some vs True assms(2) by (simp add: victim_ok_def)
    next
      case False
      have "\<exists>t. streams ! j = Some t \<and> s_lastUse vs \<le> s_lastUse t" if "j < i + 1" for j
        using le[of j] False assms(2) that by (cases "j = i") fastforce+
      then have "\<forall>j < i + 1. case streams ! j of None \<Rightarrow> False | Some t \<Rightarrow> s_lastUse vs \<le> s_lastUse t"
        by (metis option.simps(5))
      then show ?thesis using Some vs False v by (simp add: victim_ok_def)
    qed
  qed
qed

lemma find_loop_spec:
  assumes "victim_ok streams i victim" "i \<le> length streams"
    "\<forall>j < i. \<forall>s. streams ! j = Some s \<longrightarrow> s_id s \<noteq> ident"
  shows "case find_loop streams ident i victim of
      Inl k \<Rightarrow> k < length streams \<and> (\<exists>s. streams ! k = Some s \<and> s_id s = ident)
    | Inr v \<Rightarrow> victim_ok streams (length streams) v \<and>
        (\<forall>j < length streams. \<forall>s. streams ! j = Some s \<longrightarrow> s_id s \<noteq> ident)"
  using assms
proof (induction streams ident i victim rule: find_loop.induct)
  case (1 streams ident i victim)
  show ?case
  proof (cases "i < length streams")
    case False
    then have "i = length streams" using 1 by simp
    then show ?thesis using 1 by (subst find_loop.simps) simp
  next
    case True
    show ?thesis
    proof (cases "streams ! i")
      case None
      have "victim_ok streams (i + 1) (Some i)" using None by (simp add: victim_ok_def)
      moreover have "\<forall>j < i + 1. \<forall>s. streams ! j = Some s \<longrightarrow> s_id s \<noteq> ident"
        using 1(5) None by (auto simp: less_Suc_eq)
      ultimately show ?thesis using 1(1)[OF True None] True None by (subst find_loop.simps) simp
    next
      case (Some s)
      show ?thesis
      proof (cases "s_id s = ident")
        case True
        then show ?thesis using \<open>i < length streams\<close> Some by (subst find_loop.simps) simp
      next
        case False
        have "\<forall>j < i + 1. \<forall>s. streams ! j = Some s \<longrightarrow> s_id s \<noteq> ident"
          using 1(5) Some False by (auto simp: less_Suc_eq)
        then show ?thesis
          using 1(2)[OF True Some False victim_ok_step[OF 1(3) Some]] True Some False
          by (subst find_loop.simps) simp
      qed
    qed
  qed
qed

lemma find_loop_start:
  "case find_loop streams ident 0 None of
      Inl k \<Rightarrow> k < length streams \<and> (\<exists>s. streams ! k = Some s \<and> s_id s = ident)
    | Inr v \<Rightarrow> victim_ok streams (length streams) v \<and>
        (\<forall>j < length streams. \<forall>s. streams ! j = Some s \<longrightarrow> s_id s \<noteq> ident)"
  by (rule find_loop_spec) (simp_all add: victim_ok_def)

lemma fresh_stream_inv: "stream_inv limit (fresh_stream d ident n)"
  by (simp add: inv_defs fresh_stream_def buf_bytes_def rec_inv_def ZCL_REC_HDR_LEN_def)

lemma stream_inv_lastUse [simp]: "stream_inv limit (s \<lparr> s_lastUse := n \<rparr>) = stream_inv limit s"
  by (simp add: inv_defs)

lemma rx_inv_upd:
  "rx_inv rx \<Longrightarrow> rx_limits rx' = rx_limits rx \<Longrightarrow> rx_streams rx' = rx_streams rx \<Longrightarrow> rx_inv rx'"
  by (simp add: rx_inv_def)

lemma rx_inv_clear:
  assumes "rx_inv rx" "rx_limits rx' = rx_limits rx" "rx_streams rx' = (rx_streams rx)[v := None]"
  shows "rx_inv rx'"
proof -
  have n: "rx_streams rx' ! i = Some s \<Longrightarrow> rx_streams rx ! i = Some s" if "i < length (rx_streams rx)" for i s
    using that by (cases "i = v") (simp_all add: assms(3))
  have l: "length (rx_streams rx') = length (rx_streams rx)" by (simp add: assms(3))
  have e: "rx_streams rx' \<noteq> []" using assms(1) l unfolding rx_inv_def by (metis length_0_conv)
  show ?thesis using assms(1) n e unfolding rx_inv_def assms(2) l by blast
qed

lemma findStream_inv:
  assumes "rx_inv rx" "findStream env rx ident = (k, rx')"
  shows "rx_inv rx' \<and> rx_limits rx' = rx_limits rx \<and> (rx_bounded rx \<longrightarrow> rx_bounded rx') \<and>
    (case k of None \<Rightarrow> True
     | Some i \<Rightarrow> i < length (rx_streams rx') \<and> (\<exists>s. rx_streams rx' ! i = Some s \<and> s_id s = ident))"
proof (cases "find_loop (rx_streams rx) ident 0 None")
  case (Inl i)
  then obtain s where s: "i < length (rx_streams rx)" "rx_streams rx ! i = Some s" "s_id s = ident"
    using find_loop_start[of "rx_streams rx" ident] by auto
  have k: "k = Some i" and rx': "rx' = rx \<lparr> rx_useClock := rx_useClock rx + 1,
      rx_streams := (rx_streams rx)[i := Some (s \<lparr> s_lastUse := rx_useClock rx + 1 \<rparr>)] \<rparr>"
    using assms(2) Inl s by (simp_all add: findStream_def)
  have other: "s_id t \<noteq> s_id s" if "j < length (rx_streams rx)" "j \<noteq> i" "rx_streams rx ! j = Some t" for j t
    using assms(1) s(1,2) that unfolding rx_inv_def by metis
  have "rx_inv rx'"
    by (rule rx_inv_put[OF assms(1) s(1), of "s \<lparr> s_lastUse := rx_useClock rx + 1 \<rparr>"])
      (use rx_inv_stream[OF assms(1) s(1,2)] other rx' in simp_all)
  moreover have "rx_bounded rx'" if "rx_bounded rx"
    using that s unfolding rx_bounded_def rx' by (simp add: nth_list_update)
  ultimately show ?thesis using s k rx' by simp
next
  case (Inr w)
  show ?thesis
  proof (cases w)
    case None
    then show ?thesis using assms Inr by (simp add: findStream_def)
  next
    case (Some v)
    have v: "v < length (rx_streams rx)"
      using find_loop_start[of "rx_streams rx" ident] Inr Some by (auto simp: victim_ok_def)
    have fresh: "s_id t \<noteq> ident" if "j < length (rx_streams rx)" "rx_streams rx ! j = Some t" for j t
      using find_loop_start[of "rx_streams rx" ident] Inr Some that by (auto simp: victim_ok_def)
    obtain rx1 where rx1: "rx1 = (case rx_streams rx ! v of
                       None \<Rightarrow> rx
                     | Some vs \<Rightarrow>
                         upd_stats (\<lambda>t. t \<lparr> carriersDropped := carriersDropped t + s_bufCount vs,
                                            streamsEvicted := streamsEvicted t + 1 \<rparr>)
                           (rx \<lparr> rx_streams := (rx_streams rx)[v := None] \<rparr>))" by blast
    have e: "(case x_create env (windowLogMax (rx_limits rx1)) of None \<Rightarrow> (None, rx1)
        | Some dctx \<Rightarrow> (Some v, rx1 \<lparr> rx_useClock := rx_useClock rx1 + 1,
            rx_streams := (rx_streams rx1)[v := Some (fresh_stream dctx ident (rx_useClock rx1 + 1))] \<rparr>)) = (k, rx')"
      using assms(2) Inr Some by (simp add: findStream_def Let_def flip: rx1)
    have r1: "rx_limits rx1 = rx_limits rx" "rx_streams rx1 = (rx_streams rx)[v := None]"
      by (auto simp: rx1 split: option.split) (metis list_update_id)
    have i1: "rx_inv rx1" by (rule rx_inv_clear[OF assms(1) r1])
    have b1: "rx_bounded rx1" if "rx_bounded rx"
      using that v unfolding rx_bounded_def r1 by (auto simp: nth_list_update split: if_splits)
    show ?thesis
    proof (cases "x_create env (windowLogMax (rx_limits rx1))")
      case None
      then show ?thesis using e i1 b1 r1 by simp
    next
      case (Some dctx)
      let ?f = "fresh_stream dctx ident (rx_useClock rx1 + 1)"
      have k: "k = Some v" and rx': "rx' = rx1 \<lparr> rx_useClock := rx_useClock rx1 + 1,
          rx_streams := (rx_streams rx1)[v := Some ?f] \<rparr>" using e Some by simp_all
      have other: "s_id t \<noteq> s_id ?f" if "j < length (rx_streams rx1)" "j \<noteq> v" "rx_streams rx1 ! j = Some t" for j t
        using fresh[of j t] that r1 by (simp add: fresh_stream_def)
      have v1: "v < length (rx_streams rx1)" using v r1(2) by simp
      have "rx_inv rx'"
        by (rule rx_inv_put[OF i1 v1 fresh_stream_inv other]) (simp_all add: rx')
      moreover have "rx_bounded rx'" if "rx_bounded rx"
        using b1[OF that] v1 unfolding rx_bounded_def rx'
        by (auto simp: nth_list_update fresh_stream_def split: if_splits)
      ultimately show ?thesis using k v r1 rx' by (simp add: fresh_stream_def)
    qed
  qed
qed


text \<open>Where \<open>zclRxCarrier\<close> links a carrier in, the buffer stays sorted.\<close>

lemma sent_less_trans: "sent_less p q \<Longrightarrow> sent_less q r \<Longrightarrow> sent_less p r"
  by (auto simp: sent_less_def)

lemma buf_place_sorted:
  assumes "sorted_wrt sent_less buf" "p_chunk p = zh_chunkId h" "p_seq p = zh_seq h"
    "k = buf_place buf h"
    "\<not> (k < length buf \<and> p_chunk (buf ! k) = zh_chunkId h \<and> p_seq (buf ! k) = zh_seq h)"
  shows "sorted_wrt sent_less (take k buf @ p # drop k buf)"
proof -
  let ?P = "\<lambda>q. \<not> (p_chunk q > zh_chunkId h \<or> (p_chunk q = zh_chunkId h \<and> p_seq q \<ge> zh_seq h))"
  have t: "take k buf = takeWhile ?P buf" and d: "drop k buf = dropWhile ?P buf"
    unfolding assms(4) buf_place_def by (rule takeWhile_eq_take[symmetric], rule dropWhile_eq_drop[symmetric])
  have before: "sent_less q p" if "q \<in> set (take k buf)" for q
    using that set_takeWhileD[of q ?P buf] assms(2,3) unfolding t by (auto simp: sent_less_def not_less not_le)
  have after: "sent_less p q" if "q \<in> set (drop k buf)" for q
  proof -
    have k: "k < length buf" using that by (cases "k < length buf") auto
    then have dk: "drop k buf = buf ! k # drop (Suc k) buf" by (simp add: Cons_nth_drop_Suc)
    have "\<not> ?P (buf ! k)" using nth_length_takeWhile[of ?P buf] k by (simp add: assms(4) buf_place_def)
    then have first: "sent_less p (buf ! k)" using assms(2,3,5) k by (auto simp: sent_less_def)
    have "sorted_wrt sent_less (drop k buf)" using assms(1) by (rule sorted_wrt_drop)
    then show ?thesis using that first sent_less_trans[OF first] unfolding dk by auto
  qed
  have "sent_less q r" if "q \<in> set (take k buf)" "r \<in> set (drop k buf)" for q r
    using sent_less_trans[OF before[OF that(1)] after[OF that(2)]] .
  moreover have "sorted_wrt sent_less (take k buf)" "sorted_wrt sent_less (drop k buf)"
    using assms(1) by (simp_all add: sorted_wrt_take sorted_wrt_drop)
  ultimately show ?thesis using before after by (auto simp: sorted_wrt_append)
qed

definition buffered :: "'d ZclStream \<Rightarrow> nat \<Rightarrow> Pending \<Rightarrow> 'd ZclStream" where
  "buffered s k p = s \<lparr> s_buf := take k (s_buf s) @ p # drop k (s_buf s),
     s_bufCount := s_bufCount s + 1, s_bufBytes := s_bufBytes s + length (p_data p) \<rparr>"

lemma buffered_inv:
  assumes "stream_inv limit s" "\<not> is_stale s h" "zh_chunkId h \<noteq> TOP"
    "p_chunk p = zh_chunkId h" "p_seq p = zh_seq h" "k = buf_place (s_buf s) h"
    "\<not> (k < length (s_buf s) \<and> p_chunk (s_buf s ! k) = zh_chunkId h \<and> p_seq (s_buf s ! k) = zh_seq h)"
  shows "stream_inv limit (buffered s k p)"
proof -
  have sorted: "sorted_wrt sent_less (take k (s_buf s) @ p # drop k (s_buf s))"
    by (rule buf_place_sorted[OF _ assms(4-7)]) (use assms(1) in \<open>simp add: inv_defs\<close>)
  have set_eq: "set (take k (s_buf s) @ p # drop k (s_buf s)) = insert p (set (s_buf s))"
    using set_append[of "take k (s_buf s)" "drop k (s_buf s)"] by simp
  have "length (take k (s_buf s) @ p # drop k (s_buf s)) = length (s_buf s) + 1"
    unfolding assms(6) buf_place_def using length_takeWhile_le[of _ "s_buf s"] by simp
  moreover have "buf_bytes (take k (s_buf s) @ p # drop k (s_buf s)) = buf_bytes (s_buf s) + length (p_data p)"
  proof -
    have "buf_bytes (s_buf s) = buf_bytes (take k (s_buf s)) + buf_bytes (drop k (s_buf s))"
      by (metis append_take_drop_id buf_bytes_def map_append sum_list_append)
    then show ?thesis by (simp add: buf_bytes_def)
  qed
  ultimately have "buf_ok (buffered s k p)"
    using assms(1) sorted by (simp add: inv_defs buffered_def)
  moreover have "ahead (buffered s k p)"
    using assms(1,2,4,5) set_eq unfolding ahead_def buffered_def stream_inv_def
    by (auto simp: is_stale_def not_less not_le)
  moreover have "below_top (buffered s k p)"
    using assms(1,3,4) set_eq by (simp add: inv_defs buffered_def)
  ultimately show ?thesis using assms(1) by (simp add: stream_inv_def buffered_def)
qed

text \<open>\<open>settle\<close> has rounds enough for every buffer that is one over its limit.\<close>

definition rounds_enough :: "ZclRxLimits \<Rightarrow> bool" where
  "rounds_enough limits \<longleftrightarrow> 2 * maxCarriers limits + 4 < 1000000"

lemma settled_bounded:
  assumes "settled limits s nowMs" "buf_ok s"
  shows "s_bufCount s \<le> maxCarriers limits \<and> s_bufBytes s \<le> maxBufBytes limits"
  using assms by (auto simp: settled_def over_limits_def buf_ok_def buf_bytes_def)

definition kept :: "('d, 'c) ZclRx \<Rightarrow> ('d, 'c) ZclRx \<Rightarrow> bool" where
  "kept rx rx' \<longleftrightarrow> rx_inv rx' \<and> rx_limits rx' = rx_limits rx \<and>
     (rounds_enough (rx_limits rx) \<and> rx_bounded rx \<longrightarrow> rx_bounded rx')"

lemma kept_trans: "kept a b \<Longrightarrow> kept b c \<Longrightarrow> kept a c"
  by (simp add: kept_def)

lemma settle_spec:
  assumes "rx_inv rx" "i < length (rx_streams rx)" "rx_streams rx ! i = Some s0"
    "stream_inv (limit_of rx) s" "s_id s = s_id s0" "length (s_buf s) \<le> s_bufCount s0 + 1"
  shows "(\<forall>rx' s'. settle env rx s nowMs = Some (rx', s') \<longrightarrow>
      kept rx (rx' \<lparr> rx_streams := (rx_streams rx')[i := Some s'] \<rparr>)) \<and>
    (xd_progress env \<mu> \<longrightarrow> settle env rx s nowMs \<noteq> None)"
proof (intro conjI allI impI)
  fix rx' s' assume run: "settle env rx s nowMs = Some (rx', s')"
  let ?rx = "rx' \<lparr> rx_streams := (rx_streams rx')[i := Some s'] \<rparr>"
  note spec = conjunct1[OF settle_loop_spec[OF assms(4), of 1000000 env nowMs], rule_format,
      OF run[unfolded settle_def]]
  have l: "rx_limits rx' = rx_limits rx" "rx_streams rx' = rx_streams rx" using spec by (simp_all add: same_rx_def)
  have other: "s_id t \<noteq> s_id s'" if "j < length (rx_streams rx)" "j \<noteq> i" "rx_streams rx ! j = Some t" for j t
    using assms(1-3,5) spec that unfolding rx_inv_def by metis
  have "rx_inv ?rx"
    by (rule rx_inv_put[OF assms(1,2), of s']) (use spec other l in simp_all)
  moreover have "rx_bounded ?rx" if "rounds_enough (rx_limits rx)" "rx_bounded rx"
  proof -
    have "s_bufCount s0 \<le> maxCarriers (rx_limits rx)" using that(2) assms(2,3) by (simp add: rx_bounded_def)
    then have "rounds_needed s < 1000000"
      using that(1) assms(6) by (simp add: rounds_needed_def gap_measure_def rounds_enough_def)
    then have "settled (rx_limits rx) s' nowMs" using spec by simp
    from settled_bounded[OF this] show ?thesis
      using that(2) assms(2) spec l unfolding rx_bounded_def
      by (auto simp: nth_list_update stream_inv_def split: if_splits)
  qed
  ultimately show "kept rx ?rx" using l by (simp add: kept_def)
next
  assume "xd_progress env \<mu>"
  then show "settle env rx s nowMs \<noteq> None"
    using settle_loop_spec[OF assms(4), of 1000000 env nowMs \<mu>] by (simp add: settle_def)
qed


definition carrier_below_top :: "bytes \<Rightarrow> bool" where
  "carrier_below_top carrier \<longleftrightarrow>
     (\<forall>h. zclHeaderGet carrier (length carrier) = Some h \<longrightarrow> zh_chunkId h \<noteq> TOP)"

lemma kept_stats [simp]: "kept rx (rx' \<lparr> rx_stats := x \<rparr>) = kept rx rx'"
  "kept (rx \<lparr> rx_stats := x \<rparr>) rx' = kept rx rx'"
  by (auto simp: kept_def rx_inv_def rx_bounded_def)

lemma rx_bounded_stats [simp]: "rx_bounded (rx \<lparr> rx_stats := x \<rparr>) = rx_bounded rx"
  by (simp add: rx_bounded_def)

lemma kept_refl: "rx_inv rx \<Longrightarrow> kept rx rx"
  by (simp add: kept_def)

lemma zclRxCarrier_spec:
  assumes "rx_inv rx" "carrier_below_top carrier"
  shows "(\<forall>ok rx'. zclRxCarrier env rx carrier nowMs = Some (ok, rx') \<longrightarrow> kept rx rx') \<and>
    (xd_progress env \<mu> \<longrightarrow> zclRxCarrier env rx carrier nowMs \<noteq> None)"
proof (cases "zclHeaderGet carrier (length carrier)")
  case None
  then show ?thesis using kept_refl[OF assms(1)] by (auto simp: zclRxCarrier_def)
next
  case (Some h)
  let ?rx = "upd_stats (\<lambda>t. t \<lparr> carriersIn := carriersIn t + 1 \<rparr>) rx"
  obtain w rx1 where f: "findStream env ?rx (zh_streamId h) = (w, rx1)" by fastforce
  have "rx_inv ?rx" using assms(1) by (simp add: rx_inv_def)
  note fi = findStream_inv[OF this f]
  have k1: "kept rx rx1" using fi by (simp add: kept_def)
  show ?thesis
  proof (cases w)
    case None
    then show ?thesis using Some f k1 by (auto simp: zclRxCarrier_def)
  next
    case w: (Some i)
    then obtain s where s: "i < length (rx_streams rx1)" "rx_streams rx1 ! i = Some s" using fi by auto
    let ?k = "buf_place (s_buf s) h"
    let ?dup = "?k < length (s_buf s) \<and> p_chunk (s_buf s ! ?k) = zh_chunkId h \<and> p_seq (s_buf s ! ?k) = zh_seq h"
    let ?p = "\<lparr>p_chunk = zh_chunkId h, p_seq = zh_seq h,
        p_end = (zh_flags h AND ZCL_FLAG_END \<noteq> 0), p_at = nowMs,
        p_data = take (unat (zh_length h)) (drop ZCL_HDR_LEN carrier)\<rparr>"
    have e: "zclRxCarrier env rx carrier nowMs =
        (if is_stale s h \<or> ?dup then Some (True, upd_stats (\<lambda>t. t \<lparr> carriersStale := carriersStale t + 1 \<rparr>) rx1)
         else if \<not> x_alloc env (sizeof_Pending + unat (zh_length h)) then
           Some (True, upd_stats (\<lambda>t. t \<lparr> carriersDropped := carriersDropped t + 1 \<rparr>) rx1)
         else (case settle env rx1 (buffered s ?k ?p) nowMs of
            None \<Rightarrow> None
          | Some (rx, s) \<Rightarrow> Some (True, rx \<lparr> rx_streams := (rx_streams rx)[i := Some s] \<rparr>)))"
      using Some f w s by (simp add: zclRxCarrier_def buffered_def Let_def)
    show ?thesis
    proof (cases "is_stale s h \<or> ?dup \<or> \<not> x_alloc env (sizeof_Pending + unat (zh_length h))")
      case True
      then show ?thesis unfolding e using k1 by auto
    next
      case False
      have inv: "stream_inv (limit_of rx1) s" using fi s by (intro rx_inv_stream) simp_all
      have top: "zh_chunkId h \<noteq> TOP" using assms(2) Some by (simp add: carrier_below_top_def)
      have bi: "stream_inv (limit_of rx1) (buffered s ?k ?p)"
        by (rule buffered_inv[OF inv _ top]) (use False in simp_all)
      have len: "length (s_buf (buffered s ?k ?p)) \<le> s_bufCount s + 1"
        using inv by (simp add: buffered_def inv_defs)
      have "rx_inv rx1" using fi by simp
      note st = settle_spec[OF this s bi _ len, of env nowMs \<mu>]
      have sid: "s_id (buffered s ?k ?p) = s_id s" by (simp add: buffered_def)
      show ?thesis
        unfolding e using st[OF sid] False kept_trans[OF k1] by (auto split: option.splits)
    qed
  qed
qed

lemma tick_loop_spec:
  assumes "rx_inv rx" "i + n = length (rx_streams rx)"
  shows "(\<forall>rx'. tick_loop n env rx i nowMs = Some rx' \<longrightarrow> kept rx rx') \<and>
    (xd_progress env \<mu> \<longrightarrow> tick_loop n env rx i nowMs \<noteq> None)"
  using assms
proof (induction n arbitrary: rx i)
  case 0
  then show ?case by (simp add: kept_refl)
next
  case (Suc n)
  show ?case
  proof (cases "rx_streams rx ! i")
    case None
    then show ?thesis using Suc.IH[OF Suc.prems(1), of "i + 1"] Suc.prems(2) by simp
  next
    case (Some s)
    have i: "i < length (rx_streams rx)" using Suc.prems(2) by simp
    note inv = rx_inv_stream[OF Suc.prems(1) i Some]
    have len: "length (s_buf s) \<le> s_bufCount s + 1" using inv by (simp add: inv_defs)
    note st = settle_spec[OF Suc.prems(1) i Some inv refl len, of env nowMs \<mu>]
    show ?thesis
    proof (cases "settle env rx s nowMs")
      case None
      then show ?thesis using Some st by simp
    next
      case (Some q)
      obtain rx1 s1 where q: "q = (rx1, s1)" by fastforce
      let ?rx = "rx1 \<lparr> rx_streams := (rx_streams rx1)[i := Some s1] \<rparr>"
      have k: "kept rx ?rx" using st Some q by blast
      have inv': "rx_inv ?rx" using k by (simp add: kept_def)
      have "length (rx_streams ?rx) = length (rx_streams rx)"
        using k Suc.prems(1) by (simp add: kept_def rx_inv_def)
      then have "i + 1 + n = length (rx_streams ?rx)" using Suc.prems(2) by simp
      note ih = Suc.IH[OF inv' this]
      have e: "tick_loop (Suc n) env rx i nowMs = tick_loop n env ?rx (i + 1) nowMs"
        using \<open>rx_streams rx ! i = Some s\<close> Some q by simp
      show ?thesis unfolding e using ih kept_trans[OF k] by blast
    qed
  qed
qed

lemma zclRxTick_spec:
  assumes "rx_inv rx"
  shows "(\<forall>rx'. zclRxTick env rx nowMs = Some rx' \<longrightarrow> kept rx rx') \<and>
    (xd_progress env \<mu> \<longrightarrow> zclRxTick env rx nowMs \<noteq> None)"
  using tick_loop_spec[of rx 0 "length (rx_streams rx)" env nowMs \<mu>] assms by (simp add: zclRxTick_def)

text \<open>The states a receiver reaches when no carrier is of chunk \<open>2^64 - 1\<close>, and what holds of them.\<close>

inductive rx_reach :: "('d, 'c) RxEnv \<Rightarrow> ZclRxLimits \<Rightarrow> ('d, 'c) ZclRx \<Rightarrow> bool"
  for env :: "('d, 'c) RxEnv" and limits :: ZclRxLimits where
  reach_new: "zclRxNew allocated limits ctx = Some rx \<Longrightarrow> rx_reach env limits rx"
| reach_carrier: "rx_reach env limits rx \<Longrightarrow> carrier_below_top carrier \<Longrightarrow>
     zclRxCarrier env rx carrier nowMs = Some (ok, rx') \<Longrightarrow> rx_reach env limits rx'"
| reach_tick: "rx_reach env limits rx \<Longrightarrow> zclRxTick env rx nowMs = Some rx' \<Longrightarrow> rx_reach env limits rx'"

lemma rx_reach_inv:
  assumes "rx_reach env limits rx"
  shows "rx_inv rx \<and> rx_limits rx = limits \<and> (rounds_enough limits \<longrightarrow> rx_bounded rx)"
  using assms
proof (induction rule: rx_reach.induct)
  case (reach_new allocated ctx rx)
  then show ?case
    by (auto simp: zclRxNew_def rx_inv_def rx_bounded_def split: if_splits)
next
  case (reach_carrier rx carrier nowMs ok rx')
  then show ?case using zclRxCarrier_spec[of rx carrier env nowMs] by (simp add: kept_def)
next
  case (reach_tick rx nowMs rx')
  then show ?case using zclRxTick_spec[of rx env nowMs] by (simp add: kept_def)
qed

section \<open>Properties\<close>

text \<open>C21: in every state a receiver reaches from a new one, by ticks and by carriers of chunks other than the last
  number, \<open>2^64 - 1\<close>, in any order, no two slots hold one stream, every reorder buffer is sorted by chunk and sequence
  number without duplicates and counted right, nothing is buffered that is over or precedes what is decoded next and the
  record buffer is within its record.  When the limit of carriers is below 499998, so that the round guard of
  \<open>settle\<close> leaves room (\<open>rounds_enough\<close>), the buffers are also within their limits.  A carrier of chunk \<open>2^64 - 1\<close> is
  excluded because it can defeat the limits (\<open>settle_stuck_at_last_chunk\<close>).\<close>

theorem zclRx_state_sound:
  assumes "rx_reach env limits rx"
  shows "rx_inv rx \<and> rx_limits rx = limits \<and> (rounds_enough limits \<longrightarrow> rx_bounded rx)"
  using assms by (rule rx_reach_inv)

definition limits_example :: ZclRxLimits where
  "limits_example = zclRxDefaults \<lparr> maxStreams := 2 \<rparr>"

definition new_example :: "(unit, bytes list) ZclRx" where
  "new_example = \<lparr>rx_limits = limits_example, rx_ctx = [], rx_streams = [None, None],
     rx_useClock = 0, rx_stats = no_stats\<rparr>"

lemma new_example_new: "zclRxNew (True, True, True) limits_example [] = Some new_example"
  by (simp add: zclRxNew_def limits_example_def zclRxDefaults_def new_example_def numeral_2_eq_2)

lemma collect_progress: "xd_progress collect_env (\<lambda>_ _. 0)"
  by (simp add: xd_progress_def collect_env_def)

lemma carrier_example_below_top:
  "carrier_below_top (zcl_carrier header_example [10, 20])"
  using header_example_accepted by (simp add: carrier_below_top_def header_example_def TOP_def)

lemma zclRx_state_sound_witness:
  "\<exists>ok rx. zclRxCarrier collect_env new_example (zcl_carrier header_example [10, 20]) 5 = Some (ok, rx) \<and>
     rx_inv rx \<and> rx_bounded rx"
proof -
  note new = reach_new[OF new_example_new, of collect_env]
  have "rx_inv new_example" using rx_reach_inv[OF new] by blast
  then obtain ok rx where run:
    "zclRxCarrier collect_env new_example (zcl_carrier header_example [10, 20]) 5 = Some (ok, rx)"
    using zclRxCarrier_spec[OF _ carrier_example_below_top, of new_example collect_env 5 "\<lambda>_ _. 0"]
      collect_progress by auto
  have "rounds_enough limits_example" by (simp add: rounds_enough_def limits_example_def zclRxDefaults_def)
  then show ?thesis
    using zclRx_state_sound[OF reach_carrier[OF new carrier_example_below_top run]] run by blast
qed

text \<open>C33: when every call of the decompressor that leaves work to do makes progress, taking a carrier (of a chunk
  other than \<open>2^64 - 1\<close>) and a tick return in every state a receiver reaches by such carriers and ticks.\<close>

theorem zclRx_returns:
  assumes "rx_reach env limits rx" "xd_progress env \<mu>"
  shows "(\<exists>rx'. zclRxTick env rx nowMs = Some rx') \<and>
     (carrier_below_top carrier \<longrightarrow> (\<exists>ok rx'. zclRxCarrier env rx carrier nowMs = Some (ok, rx')))"
proof -
  have "rx_inv rx" using rx_reach_inv[OF assms(1)] by blast
  then show ?thesis
    using zclRxTick_spec[of rx env nowMs \<mu>] zclRxCarrier_spec[of rx carrier env nowMs \<mu>] assms(2) by auto
qed

lemma zclRx_returns_witness: "\<exists>rx'. zclRxTick collect_env new_example 10 = Some rx'"
  using zclRx_returns[OF reach_new[OF new_example_new] collect_progress] by blast

text \<open>C24: of a well-formed stream that has neither buffered nor begun the chunk of the last number, \<open>2^64 - 1\<close>
  (\<open>below_top\<close>, in \<open>stream_inv\<close>), and holds fewer than 499999 carriers, so that the rounds of \<open>settle\<close> suffice: after
  \<open>settle\<close> its reorder buffer is empty, or it waits for a carrier that has not arrived, is within its limits in count
  and in octets, and its oldest gap is younger than the reorder time.  Whatever was over the limits has been decoded or
  given up.  Without the first condition this is false (\<open>settle_stuck_at_last_chunk\<close>).\<close>

theorem settle_applies_limits:
  assumes "settle env rx s nowMs = Some (rx', s')" "stream_inv (limit_of rx) s"
    "2 * length (s_buf s) + 2 < 1000000"
  shows "s_buf s' = [] \<or> (stopped s' \<and> \<not> over_limits (rx_limits rx) s' nowMs)"
proof -
  have "rounds_needed s < 1000000" using assms(3) by (simp add: rounds_needed_def gap_measure_def)
  then show ?thesis
    using settle_loop_spec[OF assms(2), of 1000000 env nowMs] assms(1)
    by (simp add: settle_def settled_def)
qed

text \<open>A carrier of chunk 4 whose chunk has not begun, ten seconds later.\<close>

definition waiting_example :: "unit ZclStream" where
  "waiting_example = (fresh_stream () 1 1) \<lparr> s_buf := [\<lparr>p_chunk = 4, p_seq = 1, p_end = False,
     p_at = 0, p_data = [9]\<rparr>], s_bufCount := 1, s_bufBytes := 1 \<rparr>"

lemma settle_applies_limits_witness:
  "\<exists>rx s. settle collect_env new_example waiting_example 10000 = Some (rx, s) \<and>
     (s_buf s = [] \<or> (stopped s \<and> \<not> over_limits (rx_limits new_example) s 10000))"
proof -
  have inv: "stream_inv (limit_of new_example) waiting_example"
    by (simp add: inv_defs waiting_example_def fresh_stream_def buf_bytes_def TOP_def rec_inv_def
        ZCL_REC_HDR_LEN_def)
  then obtain rx s where run: "settle collect_env new_example waiting_example 10000 = Some (rx, s)"
    using settle_loop_spec[OF inv, of 1000000 collect_env 10000 "\<lambda>_ _. 0"] collect_progress
    by (auto simp: settle_def)
  show ?thesis using settle_applies_limits[OF run inv] run by (simp add: waiting_example_def)
qed

text \<open>Chunk number \<open>2^64 - 1\<close> defeats the gap resolution.  Of a stream that has buffered only a
  later carrier of that chunk, \<open>done + 1\<close> wraps to 0 and no round of \<open>settle\<close> drops anything: it
  spends all its rounds and leaves the carrier in the buffer, still over the limits.\<close>

lemma resolveGap_top:
  assumes "\<not> s_synced s" "s_buf s = [p]" "p_chunk p = TOP" "p_seq p \<noteq> 0"
  shows "resolveGap env rx s = (rx, s \<lparr> s_haveDone := True, s_done := TOP \<rparr>)"
  using assms by (simp add: resolveGap_def TOP_def Let_def dropBelow.simps)

lemma drain_top:
  assumes "\<not> s_synced s" "s_buf s = [p]" "p_seq p \<noteq> 0"
  shows "drain env rx s = Some (rx, s)"
  using assms by (simp add: drain.simps[of env rx s] drain_round_def)

lemma settle_loop_top:
  assumes "\<not> s_synced s" "s_buf s = [p]" "p_chunk p = TOP" "p_seq p \<noteq> 0"
    "over_limits (rx_limits rx) s nowMs"
  shows "settle_loop (Suc n) env rx s nowMs = Some (rx, s \<lparr> s_haveDone := True, s_done := TOP \<rparr>)"
  using assms
proof (induction n arbitrary: s)
  case 0
  then show ?case
    using drain_top[of s p env rx] resolveGap_top[of s p env rx] by (simp add: over_limits_def)
next
  case (Suc n)
  let ?s = "s \<lparr> s_haveDone := True, s_done := TOP \<rparr>"
  have "over_limits (rx_limits rx) ?s nowMs" using Suc.prems(5) by (simp add: over_limits_def)
  from Suc.IH[OF _ _ Suc.prems(3,4) this] Suc.prems
  have "settle_loop (Suc n) env rx ?s nowMs = Some (rx, ?s)" by simp
  then show ?case
    using drain_top[OF Suc.prems(1,2,4), of env rx] resolveGap_top[OF Suc.prems(1-4), of env rx] Suc.prems
    by (simp add: settle_loop.simps(2)[of "Suc n"] del: settle_loop.simps)
qed

theorem settle_stuck_at_last_chunk:
  assumes "\<not> s_synced s" "s_buf s = [p]" "p_chunk p = 0xFFFFFFFFFFFFFFFF" "p_seq p \<noteq> 0"
    "over_limits (rx_limits rx) s nowMs"
  shows "\<exists>s'. settle env rx s nowMs = Some (rx, s') \<and> s_buf s' = [p] \<and>
     over_limits (rx_limits rx) s' nowMs"
proof -
  have "(1000000 :: nat) = Suc 999999" by simp
  then have "settle env rx s nowMs = Some (rx, s \<lparr> s_haveDone := True, s_done := TOP \<rparr>)"
    using settle_loop_top[OF assms(1,2) _ assms(4,5), of 999999 env] assms(3)
    unfolding settle_def TOP_def by simp
  then show ?thesis using assms(2,5) by (simp add: over_limits_def)
qed

definition stuck_example :: "unit ZclStream" where
  "stuck_example = (fresh_stream () 1 1) \<lparr> s_buf := [\<lparr>p_chunk = 0xFFFFFFFFFFFFFFFF, p_seq = 1,
     p_end = False, p_at = 0, p_data = [9]\<rparr>], s_bufCount := 1, s_bufBytes := 1 \<rparr>"

lemma settle_stuck_at_last_chunk_witness:
  "\<exists>s'. settle collect_env new_example stuck_example 10000 = Some (new_example, s') \<and>
     s_buf s' = s_buf stuck_example \<and> over_limits limits_example s' 10000"
proof -
  have "over_limits (rx_limits new_example) stuck_example 10000"
    by (simp add: over_limits_def stuck_example_def fresh_stream_def new_example_def limits_example_def
        zclRxDefaults_def)
  from settle_stuck_at_last_chunk[OF _ _ _ _ this] show ?thesis
    by (simp add: stuck_example_def fresh_stream_def new_example_def)
qed

end
