(* ===== verification/Spec2Isabelle.thy ===== *)
theory Spec2Isabelle
  imports BpshdSafety BpshClient MailMsg Tcpv4Session QuicSess QuicDgram X509 BptunRoute ZclOrder
begin

text \<open>
  The ION-DTN contributions (convergence-layer adapters and applications for the ION bundle
  protocol): a verification library of their protocol engines and codecs.

  \<^bold>\<open>The program.\<close>  Each adapter is a daemon beside ION.  CLA/tcpv4 runs TCPCLv4 (RFC 9174) sessions
  over TCP and TLS: a bundle handed over by BP is queued on the session to the next node
  (tcpv4tx.c), cut into segments and written by that session's transmit thread; the receiver thread
  (tcpv4rx.c) reassembles what comes in, the delivery thread hands it to BP and acknowledges it, and
  acknowledgments and refusals retire our own transfers.  Messages are encoded and decoded by
  tcpv4msg.c and move through the buffers of tcpv4io.c; tcpv4negotiate.c brings a session up, with
  node IDs and certificates compared by tcpv4nodeid.c and tcpv4x509.c.  CLA/quic carries the same
  messages over QUIC: quicmsg.c encodes them and quicsession.c runs the sessions.  CLA/zcl is a tunnel that compresses runs of bundles into
  numbered carrier bundles and puts them back in order (zclcodec.c).  APP/bptun routes IP packets
  into bundles by longest prefix (bptun_route.c).  CLA/mail carries bundles in mail messages
  (mailmsg.c).  APP/bpsh is a remote shell over bundles: bpshd.c keeps a shell per client
  (bpshd_session.c) and streams the output of its commands in numbered frames (bpsh_proto.c), which
  the client (bpsh.c) puts back in order.

  \<^bold>\<open>The theories\<close>, each definition named after the C function or type it translates:
  \<^item> Prelude, Wire: octets, C strings and casts; the bounded writer and reader of the codecs, with
    the calculus (\<open>emits\<close>, \<open>parses\<close>, \<open>yields\<close>) in which the codec properties are proved.
  \<^item> Tcpv4Msg, QuicMsg: every message of the two protocols.  Round trips, exactness of decoding,
    behaviour on a message cut short, transfer extensions.
  \<^item> NodeId, X509: node IDs (parsing, matching as an equivalence) and the DER fields of a
    certificate (exactly the IA5String and extension lists of the standard).
  \<^item> Tcpv4Io: reading a session through its read-ahead buffer refines reading the stream; a gathered
    write that succeeds wrote every octet once and in order.
  \<^item> Tcpv4Tx: the transfer lists of a session on an explicit store of linked nodes, every section
    that locks \<open>txMutex\<close>, and the interleavings of the threads as a step relation with its invariant.
    The list operations are an interpretation of the locale \<open>linked_queue\<close>.
  \<^item> Tcpv4Rx: reassembly, hand-off, delivery, termination and the message loop.
  \<^item> Tcpv4Send: cutting a bundle into segments and writing it, and, with Tcpv4Rx, that what one end
    writes the other reassembles octet for octet; what follows a refused transfer.
  \<^item> Tcpv4Negotiate: contact headers, TLS, SESS_INIT; what an established session has been through,
    on which evidence it is routed to, and that two ends over a working network agree.
  \<^item> Tcpv4Session: the session list with accepting, dialling, backoff, the clock and the choice of a
    session for a bundle; the threads as a step relation over it with its invariant.
  \<^item> MailMsg: bundles in mail messages (base64, attachments, separators): what is built is parsed back,
    bundle for bundle.
  \<^item> BpshProto, BpshdSession, BpshClient: the remote shell: its frames over the CBOR functions of ION,
    one session of the daemon running a command, and the client, with the two ends put together: what
    the command prints is what the client prints, whatever the order in which bundles arrive.
  \<^item> Bpshd, BpshdSafety: the daemon of the remote shell; who can have a session and run a command,
    whatever bundles arrive, and that no shell is lost.
  \<^item> MessageLoop: the locale of a loop that takes messages off a buffer; QuicStream and QuicSess interpret it.
  \<^item> QuicStream, QuicSess, QuicDgram: the QUICCL session engine: bundles on data streams, framed and put together
    again, the signalling messages by which two ends establish a session, and the datagram service.
  \<^item> ZclCrc, ZclCodec, ZclRx, ZclOrder: checksum, carrier header and encoder, the receiver and its
    reordering, with the invariant of every reachable receiver.
  \<^item> BptunRoute: the route table, its parser and the longest-prefix lookup.

  \<^bold>\<open>State and errors.\<close>  A C struct is a record with the fields the modelled code uses; a function that
  changes it returns the changed record.  An integer of fixed unsigned width is a word; \<open>int\<close> and
  \<open>vast\<close> are \<open>int\<close>, or \<open>nat\<close> where the code keeps them non-negative, with the casts written out
  where they can lose something (\<open>int_of_size\<close>, \<open>word_of_int\<close>).  A return of -1 is the value -1.
  \<open>None\<close> stands for an operation that follows a pointer that is not allocated, writes outside a buffer (in
  Tcpv4Rx) or does not return.
  A loop that may not end is a \<open>partial_function (option)\<close>; that it returns is proved where it is
  claimed.  No fuel is used, except that \<open>message_steps\<close> counts passes of the message loop and the
  million rounds of \<open>settle\<close> are the code's own.

  \<^bold>\<open>What is outside.\<close>  Sockets, TLS, the allocator (\<open>Io\<close>), BP's delivery and transmission callbacks, zstd
  and inet_pton are arguments; what a property needs of them is a named law (\<open>stream_io\<close>,
  \<open>gather_io\<close>, \<open>net_ok\<close>, \<open>io_sane\<close>, and the like), met by a concrete instance that the witnesses
  use.  Log messages are left out.  A mutex makes its section one step.

  \<^bold>\<open>Not modelled.\<close>  Set-up of sockets and threads, option parsing, the TLS backends and the ION glue of the
  daemons are calls of libraries and of the operating system.  The command
  daemon (APP/bpcmd) and the benchmarking tool linkimpair are left out.
\<close>

end
